(* ===== verification/Fz_Prelude.thy ===== *)
theory Fz_Prelude
  imports Main "HOL-Library.Word" "HOL-Library.Multiset"
begin

text \<open>
  Shared vocabulary of the development: names for Rust's machine integers, the
  three-valued \<open>std::cmp::Ordering\<close>, the result of a Rust function that may panic, and
  the generic facts on lists, maps, finite sets and words that several components use.
\<close>

type_synonym u8 = "8 word"
type_synonym u16 = "16 word"
type_synonym u32 = "32 word"
type_synonym u64 = "64 word"

section \<open>Collections of simplification rules\<close>

named_theorems wf_defs \<open>unfoldings of the components' well-formedness predicates\<close>
named_theorems slot_simps \<open>the reading functions of a fact slot\<close>
named_theorems word_layout \<open>definitions of masks, shifts and tags of machine words\<close>

section \<open>Comparison results\<close>

datatype ordering = Less | Equal | Greater

primrec ordering_then :: "ordering \<Rightarrow> ordering \<Rightarrow> ordering" where
  "ordering_then Less y = Less"
| "ordering_then Equal y = y"
| "ordering_then Greater y = Greater"

primrec ordering_reverse :: "ordering \<Rightarrow> ordering" where
  "ordering_reverse Less = Greater"
| "ordering_reverse Equal = Equal"
| "ordering_reverse Greater = Less"

definition cmp_of :: "'a::linorder \<Rightarrow> 'a \<Rightarrow> ordering" where
  "cmp_of x y = (if x < y then Less else if x = y then Equal else Greater)"

lemma cmp_of_simps [simp]:
  "cmp_of x y = Less \<longleftrightarrow> x < y"
  "cmp_of x y = Equal \<longleftrightarrow> x = y"
  "cmp_of x y = Greater \<longleftrightarrow> y < x"
  by (auto simp: cmp_of_def)

lemma ordering_then_iff [simp]:
  "ordering_then a b = Less \<longleftrightarrow> a = Less \<or> a = Equal \<and> b = Less"
  "ordering_then a b = Equal \<longleftrightarrow> a = Equal \<and> b = Equal"
  "ordering_then a b = Greater \<longleftrightarrow> a = Greater \<or> a = Equal \<and> b = Greater"
  by (cases a; simp)+

section \<open>Lists and sets\<close>

lemma filter_neq_id [simp]: "v \<notin> set xs \<Longrightarrow> filter (\<lambda>e. e \<noteq> v) xs = xs"
  by (induction xs) auto

section \<open>Machines with an invariant\<close>

text \<open>
  The interface of every state machine of the development: where it starts, how it steps,
  and the invariant its steps keep; then every reachable state has it.
\<close>

locale invariant_machine =
  fixes init :: "'s \<Rightarrow> bool" and step :: "'s \<Rightarrow> 's \<Rightarrow> bool" and inv :: "'s \<Rightarrow> bool"
  assumes init_inv: "init s \<Longrightarrow> inv s"
    and step_inv: "step s s' \<Longrightarrow> inv s \<Longrightarrow> inv s'"
begin

lemma reachable_inv:
  assumes "step\<^sup>*\<^sup>* s s'" and "init s"
  shows "inv s'"
  using assms by (induction rule: rtranclp_induct) (auto intro: init_inv step_inv)

end

end
