(* ===== verification/Fz_Worklist.thy ===== *)
theory Fz_Worklist
  imports Fz_Prelude
begin

text \<open>
  The transient min-heap of \<open>src/compiler2/ordered_worklist.rs\<close>: a vector ordered as a
  binary heap under a comparison the caller supplies at every operation. The caller's
  contract is the locale \<open>comparator\<close>; the two loops are recursive functions over the
  vector and the index they move.
\<close>

section \<open>The heap operations\<close>

record 'a OrderedWorklist =
  wl_values :: "'a list"

definition swap :: "'a list \<Rightarrow> nat \<Rightarrow> nat \<Rightarrow> 'a list" where
  "swap xs i j = xs[i := xs ! j, j := xs ! i]"

definition OrderedWorklist_from_sorted :: "'a list \<Rightarrow> 'a OrderedWorklist" where
  "OrderedWorklist_from_sorted values = \<lparr>wl_values = values\<rparr>"

function sift_up :: "('a \<Rightarrow> 'a \<Rightarrow> ordering) \<Rightarrow> 'a list \<Rightarrow> nat \<Rightarrow> 'a list" where
  "sift_up compare values child =
     (if child > 0
      then let parent = (child - 1) div 2 in
        if compare (values ! child) (values ! parent) \<noteq> Less then values
        else sift_up compare (swap values child parent) parent
      else values)"
  by pat_completeness auto
termination
  by (relation "measure (\<lambda>(c, xs, child). child)") auto

declare sift_up.simps [simp del]

definition OrderedWorklist_push ::
  "('a \<Rightarrow> 'a \<Rightarrow> ordering) \<Rightarrow> 'a \<Rightarrow> 'a OrderedWorklist \<Rightarrow> 'a OrderedWorklist" where
  "OrderedWorklist_push compare v w =
     (let child = length (wl_values w) in
      w\<lparr>wl_values := sift_up compare (wl_values w @ [v]) child\<rparr>)"

function sift_down :: "('a \<Rightarrow> 'a \<Rightarrow> ordering) \<Rightarrow> 'a list \<Rightarrow> nat \<Rightarrow> 'a list" where
  "sift_down compare values parent =
     (let left = parent * 2 + 1 in
      if left \<ge> length values then values
      else let right = left + 1;
               child = (if right < length values \<and> compare (values ! right) (values ! left) = Less
                        then right else left) in
        if compare (values ! child) (values ! parent) \<noteq> Less then values
        else sift_down compare (swap values child parent) child)"
  by pat_completeness auto
termination
  by (relation "measure (\<lambda>(c, xs, parent). length xs - parent)") (auto simp: swap_def Let_def)

declare sift_down.simps [simp del]

text \<open>\<open>Vec::swap_remove(0)\<close>: the first element leaves and the last one takes its place.\<close>

definition swap_remove0 :: "'a list \<Rightarrow> 'a \<times> 'a list" where
  "swap_remove0 xs = (hd xs, if length xs = 1 then [] else (butlast xs)[0 := last xs])"

definition OrderedWorklist_pop ::
  "('a \<Rightarrow> 'a \<Rightarrow> ordering) \<Rightarrow> 'a OrderedWorklist \<Rightarrow> 'a option \<times> 'a OrderedWorklist" where
  "OrderedWorklist_pop compare w =
     (if wl_values w = [] then (None, w)
      else let (v, rest) = swap_remove0 (wl_values w) in
        (Some v, w\<lparr>wl_values := sift_down compare rest 0\<rparr>))"

definition OrderedWorklist_into_values :: "'a OrderedWorklist \<Rightarrow> 'a list" where
  "OrderedWorklist_into_values w = wl_values w"

section \<open>Permutations of the vector\<close>

lemma length_swap [simp]: "length (swap xs i j) = length xs"
  by (simp add: swap_def)

lemma mset_swap_vec [simp]:
  "i < length xs \<Longrightarrow> j < length xs \<Longrightarrow> mset (swap xs i j) = mset xs"
  unfolding swap_def by (rule mset_swap)

lemma nth_swap:
  "i < length xs \<Longrightarrow> j < length xs \<Longrightarrow> k < length xs \<Longrightarrow>
   swap xs i j ! k = (if k = j then xs ! i else if k = i then xs ! j else xs ! k)"
  by (simp add: swap_def nth_list_update)

lemma mset_sift_up: "child < length xs \<Longrightarrow> mset (sift_up c xs child) = mset xs"
proof (induction c xs child rule: sift_up.induct)
  case (1 c xs child)
  show ?case
  proof (cases "child > 0 \<and> c (xs ! child) (xs ! ((child - 1) div 2)) = Less")
    case True
    with 1 show ?thesis
      by (subst sift_up.simps) (simp add: Let_def)
  next
    case False
    then show ?thesis by (subst sift_up.simps) (auto simp: Let_def)
  qed
qed

definition heap_child :: "('a \<Rightarrow> 'a \<Rightarrow> ordering) \<Rightarrow> 'a list \<Rightarrow> nat \<Rightarrow> nat" where
  "heap_child c xs p = (if p * 2 + 2 < length xs \<and> c (xs ! (p * 2 + 2)) (xs ! (p * 2 + 1)) = Less
     then p * 2 + 2 else p * 2 + 1)"

lemma sift_down_unfold:
  "sift_down c xs p =
     (if p * 2 + 1 < length xs \<and> c (xs ! heap_child c xs p) (xs ! p) = Less
      then sift_down c (swap xs (heap_child c xs p) p) (heap_child c xs p) else xs)"
  by (subst sift_down.simps) (simp add: Let_def heap_child_def not_le)

lemma heap_child_less: "p * 2 + 1 < length xs \<Longrightarrow> heap_child c xs p < length xs"
  by (auto simp: heap_child_def)

lemma sift_down_induct [consumes 0, case_names step]:
  assumes "\<And>xs p. (p * 2 + 1 < length xs \<Longrightarrow> c (xs ! heap_child c xs p) (xs ! p) = Less \<Longrightarrow>
      P (swap xs (heap_child c xs p) p) (heap_child c xs p)) \<Longrightarrow> P xs p"
  shows "P xs p"
proof (induction "length xs - p" arbitrary: xs p rule: less_induct)
  case less
  show ?case
  proof (rule assms)
    assume "p * 2 + 1 < length xs"
    then show "P (swap xs (heap_child c xs p) p) (heap_child c xs p)"
      by (intro less) (auto simp: heap_child_def)
  qed
qed

lemma mset_sift_down: "mset (sift_down c xs p) = mset xs"
proof (induction xs p rule: sift_down_induct [of c])
  case (step xs p)
  then show ?case
    using heap_child_less [of p xs c] by (subst sift_down_unfold) auto
qed

lemma fst_swap_remove0: "fst (swap_remove0 xs) = hd xs"
  by (simp add: swap_remove0_def)

lemma mset_swap_remove0:
  assumes "xs \<noteq> []"
  shows "mset (snd (swap_remove0 xs)) = mset xs - {#hd xs#}"
proof (cases xs)
  case (Cons y ys)
  show ?thesis
  proof (cases ys rule: rev_cases)
    case Nil
    with Cons show ?thesis by (simp add: swap_remove0_def)
  next
    case (snoc zs z)
    with Cons show ?thesis by (simp add: swap_remove0_def)
  qed
qed (use assms in simp)

section \<open>The heap order under the caller's comparison\<close>

definition heap_parent :: "nat \<Rightarrow> nat" where
  "heap_parent i = (i - 1) div 2"

lemma heap_parent_less: "i > 0 \<Longrightarrow> heap_parent i < i"
  by (auto simp: heap_parent_def)

lemma heap_parent_child: "heap_parent (heap_child c xs p) = p"
  by (auto simp: heap_child_def heap_parent_def)

lemma heap_parent_cases:
  "i > 0 \<Longrightarrow> heap_parent i = p \<longleftrightarrow> i = p * 2 + 1 \<or> i = p * 2 + 2"
  by (auto simp: heap_parent_def)

lemma sift_up_unfold:
  "sift_up c xs i =
     (if i > 0 \<and> c (xs ! i) (xs ! heap_parent i) = Less
      then sift_up c (swap xs i (heap_parent i)) (heap_parent i) else xs)"
  by (subst sift_up.simps) (simp add: Let_def heap_parent_def)

text \<open>
  \<open>edge\<close> says that position \<open>i\<close> does not sort before position \<open>j\<close>. The heap order
  with one position out of place: every edge but those into (for \<open>up_hole\<close>) or out of
  (for \<open>down_hole\<close>) the hole is ordered, and so are the edges that skip the hole.
\<close>

definition edge :: "('a \<Rightarrow> 'a \<Rightarrow> ordering) \<Rightarrow> 'a list \<Rightarrow> nat \<Rightarrow> nat \<Rightarrow> bool" where
  "edge c xs i j \<longleftrightarrow> c (xs ! i) (xs ! j) \<noteq> Less"

definition heap_ordered :: "('a \<Rightarrow> 'a \<Rightarrow> ordering) \<Rightarrow> 'a list \<Rightarrow> bool" where
  [wf_defs]: "heap_ordered c xs \<longleftrightarrow> (\<forall>i < length xs. i > 0 \<longrightarrow> edge c xs i (heap_parent i))"

definition skips_hole :: "('a \<Rightarrow> 'a \<Rightarrow> ordering) \<Rightarrow> 'a list \<Rightarrow> nat \<Rightarrow> bool" where
  "skips_hole c xs h \<longleftrightarrow> (\<forall>i < length xs. i > 0 \<longrightarrow> h > 0 \<longrightarrow> heap_parent i = h \<longrightarrow>
     edge c xs i (heap_parent h))"

definition up_hole :: "('a \<Rightarrow> 'a \<Rightarrow> ordering) \<Rightarrow> 'a list \<Rightarrow> nat \<Rightarrow> bool" where
  "up_hole c xs h \<longleftrightarrow> skips_hole c xs h \<and>
     (\<forall>i < length xs. i > 0 \<longrightarrow> i \<noteq> h \<longrightarrow> edge c xs i (heap_parent i))"

definition down_hole :: "('a \<Rightarrow> 'a \<Rightarrow> ordering) \<Rightarrow> 'a list \<Rightarrow> nat \<Rightarrow> bool" where
  "down_hole c xs h \<longleftrightarrow> skips_hole c xs h \<and>
     (\<forall>i < length xs. i > 0 \<longrightarrow> heap_parent i \<noteq> h \<longrightarrow> edge c xs i (heap_parent i))"

lemma edge_swap:
  assumes "a < length xs" "b < length xs" "i < length xs" "j < length xs"
  shows "edge c (swap xs a b) i j \<longleftrightarrow>
    edge c xs (if i = b then a else if i = a then b else i) (if j = b then a else if j = a then b else j)"
  using assms by (simp add: edge_def nth_swap)

locale comparator =
  fixes cmp :: "'a \<Rightarrow> 'a \<Rightarrow> ordering"
  assumes cmp_asym: "cmp a b = Less \<Longrightarrow> cmp b a \<noteq> Less"
    and cmp_trans: "cmp b a \<noteq> Less \<Longrightarrow> cmp c b \<noteq> Less \<Longrightarrow> cmp c a \<noteq> Less"
begin

lemma edge_refl: "edge cmp xs i i"
  using cmp_asym by (auto simp: edge_def)

lemma edge_trans: "edge cmp xs i j \<Longrightarrow> edge cmp xs j k \<Longrightarrow> edge cmp xs i k"
  using cmp_trans by (auto simp: edge_def)

lemma up_hole_swap:
  assumes hole: "up_hole cmp xs h" and h: "0 < h" "h < length xs"
    and lt: "cmp (xs ! h) (xs ! heap_parent h) = Less"
  shows "up_hole cmp (swap xs h (heap_parent h)) (heap_parent h)"
proof -
  define p where "p = heap_parent h"
  have p: "p < h" "p < length xs" using h heap_parent_less [of h] by (auto simp: p_def)
  have ph: "edge cmp xs p h" using lt cmp_asym by (simp add: edge_def p_def)
  have A: "i < length xs \<Longrightarrow> 0 < i \<Longrightarrow> i \<noteq> h \<Longrightarrow> edge cmp xs i (heap_parent i)" for i
    using hole by (simp add: up_hole_def)
  have B: "i < length xs \<Longrightarrow> 0 < i \<Longrightarrow> heap_parent i = h \<Longrightarrow> edge cmp xs i p" for i
    using hole h by (simp add: up_hole_def skips_hole_def p_def)
  have 1: "edge cmp (swap xs h p) i (heap_parent i)" if "i < length xs" "0 < i" "i \<noteq> p" for i
  proof -
    have "heap_parent i < length xs" using heap_parent_less [of i] that by simp
    with that h p ph A [of i] B [of i] edge_trans [of xs i p h] show ?thesis
      by (auto simp: edge_swap p_def)
  qed
  have 2: "edge cmp (swap xs h p) i (heap_parent p)"
    if i: "i < length xs" "0 < i" "0 < p" "heap_parent i = p" for i
  proof -
    have g: "heap_parent p < p" using i heap_parent_less by simp
    have up: "edge cmp xs p (heap_parent p)" using A [of p] p i by simp
    show ?thesis
      using i g p h up A [of i] edge_trans [OF _ up, of i] by (auto simp: edge_swap)
  qed
  from 1 2 show ?thesis by (simp add: up_hole_def skips_hole_def p_def)
qed

lemma sift_up_heap:
  "up_hole cmp xs h \<Longrightarrow> h < length xs \<Longrightarrow> heap_ordered cmp (sift_up cmp xs h)"
proof (induction h arbitrary: xs rule: less_induct)
  case (less h)
  show ?case
  proof (cases "h > 0 \<and> cmp (xs ! h) (xs ! heap_parent h) = Less")
    case True
    then have "up_hole cmp (swap xs h (heap_parent h)) (heap_parent h)"
      using less.prems up_hole_swap by blast
    moreover have "heap_parent h < h" using True heap_parent_less by blast
    ultimately show ?thesis
      using True less by (subst sift_up_unfold) simp
  next
    case False
    then have "heap_ordered cmp xs"
      using less.prems by (auto simp: up_hole_def heap_ordered_def edge_def)
    with False show ?thesis by (subst sift_up_unfold) auto
  qed
qed

lemma down_hole_swap:
  assumes hole: "down_hole cmp xs p" and p: "p * 2 + 1 < length xs"
    and lt: "cmp (xs ! heap_child cmp xs p) (xs ! p) = Less"
  shows "down_hole cmp (swap xs (heap_child cmp xs p) p) (heap_child cmp xs p)"
proof -
  define h where "h = heap_child cmp xs p"
  have h: "h < length xs" "heap_parent h = p" "0 < h" "p < h"
    using p by (auto simp: h_def heap_child_less heap_parent_child) (auto simp: heap_child_def)
  have ph: "edge cmp xs p h" using lt cmp_asym by (simp add: edge_def h_def)
  have sib: "edge cmp xs i h" if "i < length xs" "0 < i" "heap_parent i = p" for i
    using that edge_refl [of xs] cmp_asym
    by (auto simp: heap_parent_cases h_def heap_child_def edge_def)
  have A: "i < length xs \<Longrightarrow> 0 < i \<Longrightarrow> heap_parent i \<noteq> p \<Longrightarrow> edge cmp xs i (heap_parent i)" for i
    using hole by (simp add: down_hole_def)
  have B: "i < length xs \<Longrightarrow> 0 < i \<Longrightarrow> 0 < p \<Longrightarrow> heap_parent i = p \<Longrightarrow> edge cmp xs i (heap_parent p)" for i
    using hole by (simp add: down_hole_def skips_hole_def)
  have 1: "edge cmp (swap xs h p) i (heap_parent i)"
    if i: "i < length xs" "0 < i" "heap_parent i \<noteq> h" for i
  proof -
    have "heap_parent i < i" using i heap_parent_less by simp
    with i h ph sib [of i] A [of i] B [of h] show ?thesis
      by (auto simp: edge_swap)
  qed
  have 2: "edge cmp (swap xs h p) i (heap_parent h)"
    if i: "i < length xs" "0 < i" "heap_parent i = h" for i
  proof -
    have "h < i" using i heap_parent_less by auto
    with i h A [of i] show ?thesis by (auto simp: edge_swap)
  qed
  from 1 2 show ?thesis by (simp add: down_hole_def skips_hole_def h_def)
qed

lemma sift_down_heap: "down_hole cmp xs p \<Longrightarrow> heap_ordered cmp (sift_down cmp xs p)"
proof (induction xs p rule: sift_down_induct [of cmp])
  case (step xs p)
  show ?case
  proof (cases "p * 2 + 1 < length xs \<and> cmp (xs ! heap_child cmp xs p) (xs ! p) = Less")
    case True
    with step down_hole_swap show ?thesis by (subst sift_down_unfold) simp
  next
    case False
    have "edge cmp xs i p" if i: "i < length xs" "0 < i" "heap_parent i = p" for i
    proof -
      have "p * 2 + 1 < length xs" using i by (auto simp: heap_parent_cases)
      with False have "edge cmp xs (heap_child cmp xs p) p" by (simp add: edge_def)
      moreover have "edge cmp xs i (heap_child cmp xs p)"
        using i edge_refl [of xs] cmp_asym by (auto simp: heap_parent_cases heap_child_def edge_def)
      ultimately show ?thesis by (rule edge_trans [rotated])
    qed
    with step.prems have "heap_ordered cmp xs"
      by (auto simp: down_hole_def heap_ordered_def)
    with False show ?thesis by (subst sift_down_unfold) auto
  qed
qed

lemma heap_root_least: "heap_ordered cmp xs \<Longrightarrow> i < length xs \<Longrightarrow> edge cmp xs i 0"
proof (induction i rule: less_induct)
  case (less i)
  show ?case
  proof (cases "i = 0")
    case False
    then have "heap_parent i < i" by (simp add: heap_parent_less)
    with less False show ?thesis
      by (meson edge_trans heap_ordered_def less_trans not_gr_zero)
  qed (simp add: edge_refl)
qed

lemma push_heap:
  assumes "heap_ordered cmp xs"
  shows "heap_ordered cmp (sift_up cmp (xs @ [v]) (length xs))"
proof (rule sift_up_heap)
  have "edge cmp (xs @ [v]) i (heap_parent i)" if "i < length xs" "0 < i" for i
    using assms that heap_parent_less [of i] by (simp add: heap_ordered_def edge_def nth_append)
  moreover have "heap_parent i \<noteq> length xs" if "0 < i" "i < Suc (length xs)" for i
    using that heap_parent_less [of i] by auto
  ultimately show "up_hole cmp (xs @ [v]) (length xs)"
    by (auto simp: up_hole_def skips_hole_def less_Suc_eq)
qed simp

lemma pop_heap:
  assumes "heap_ordered cmp xs" and "xs \<noteq> []"
  shows "heap_ordered cmp (sift_down cmp (snd (swap_remove0 xs)) 0)"
proof (rule sift_down_heap)
  let ?ys = "snd (swap_remove0 xs)"
  have len: "length ?ys = length xs - 1" by (auto simp: swap_remove0_def)
  have nth: "?ys ! i = xs ! i" if "0 < i" "i < length xs - 1" for i
    using that by (auto simp: swap_remove0_def nth_butlast)
  have "edge cmp ?ys i (heap_parent i)"
    if "i < length ?ys" "0 < i" "heap_parent i \<noteq> 0" for i
    using assms that heap_parent_less [of i] by (simp add: edge_def nth len heap_ordered_def)
  then show "down_hole cmp ?ys 0" by (simp add: down_hole_def skips_hole_def)
qed

lemma pop_ok:
  assumes "heap_ordered cmp (wl_values w)"
  shows "case OrderedWorklist_pop cmp w of
      (None, w') \<Rightarrow> wl_values w = [] \<and> w' = w
    | (Some v, w') \<Rightarrow> (\<forall>x. x \<in># mset (wl_values w) \<longrightarrow> cmp x v \<noteq> Less) \<and>
        mset (wl_values w) = mset (wl_values w') + {#v#} \<and> heap_ordered cmp (wl_values w')"
proof (cases "wl_values w = []")
  case True
  then show ?thesis by (simp add: OrderedWorklist_pop_def)
next
  case False
  let ?xs = "wl_values w"
  have root: "hd ?xs = ?xs ! 0" using False by (simp add: hd_conv_nth)
  have least: "\<forall>x. x \<in># mset ?xs \<longrightarrow> cmp x (hd ?xs) \<noteq> Less"
    using heap_root_least [OF assms] root by (auto simp: in_set_conv_nth edge_def)
  have "OrderedWorklist_pop cmp w =
      (Some (hd ?xs), w\<lparr>wl_values := sift_down cmp (snd (swap_remove0 ?xs)) 0\<rparr>)"
    using False by (simp add: OrderedWorklist_pop_def case_prod_beta fst_swap_remove0)
  then show ?thesis
    using least pop_heap [OF assms False] False by (simp add: mset_sift_down mset_swap_remove0)
qed

lemma ascending_heap:
  assumes "sorted_wrt (\<lambda>a b. cmp b a \<noteq> Less) xs"
  shows "heap_ordered cmp xs"
  using assms heap_parent_less by (auto simp: heap_ordered_def edge_def sorted_wrt_iff_nth_less)

end

interpretation linorder_cmp: comparator "cmp_of :: 'a::linorder \<Rightarrow> 'a \<Rightarrow> ordering"
  by unfold_locales auto

section \<open>What the worklist promises\<close>

text \<open>
  : popping a heap-ordered worklist returns an element no other element sorts before,
  removes exactly that one occurrence, and leaves the rest heap-ordered; only an empty
  worklist returns none.
\<close>

theorem OrderedWorklist_pop_least:
  assumes "comparator cmp" and "heap_ordered cmp (wl_values w)"
  shows "case OrderedWorklist_pop cmp w of
      (None, w') \<Rightarrow> wl_values w = [] \<and> w' = w
    | (Some v, w') \<Rightarrow> (\<forall>x. x \<in># mset (wl_values w) \<longrightarrow> cmp x v \<noteq> Less) \<and>
        mset (wl_values w) = mset (wl_values w') + {#v#} \<and> heap_ordered cmp (wl_values w')"
  by (rule comparator.pop_ok [OF assms])

theorem OrderedWorklist_pop_least_witness:
  "fst (OrderedWorklist_pop cmp_of (OrderedWorklist_from_sorted [1::nat, 5, 3])) = Some 1 \<and>
   cmp_of 5 (1::nat) \<noteq> Less \<and> cmp_of 3 (1::nat) \<noteq> Less"
proof -
  let ?w = "OrderedWorklist_from_sorted [1::nat, 5, 3]"
  have "heap_ordered cmp_of (wl_values ?w)"
    by (auto simp: OrderedWorklist_from_sorted_def heap_ordered_def edge_def heap_parent_def
        less_Suc_eq numeral_eq_Suc)
  note ok = OrderedWorklist_pop_least [OF linorder_cmp.comparator_axioms this]
  obtain w' where pop: "OrderedWorklist_pop cmp_of ?w = (Some 1, w')"
    by (simp add: OrderedWorklist_pop_def OrderedWorklist_from_sorted_def swap_remove0_def)
  with ok show ?thesis by (auto simp: OrderedWorklist_from_sorted_def)
qed

fun worklist_push_all ::
  "('a \<Rightarrow> 'a \<Rightarrow> ordering) \<Rightarrow> 'a list \<Rightarrow> 'a OrderedWorklist \<Rightarrow> 'a OrderedWorklist" where
  "worklist_push_all cmp [] w = w"
| "worklist_push_all cmp (v # vs) w = worklist_push_all cmp vs (OrderedWorklist_push cmp v w)"

fun worklist_drain ::
  "('a \<Rightarrow> 'a \<Rightarrow> ordering) \<Rightarrow> nat \<Rightarrow> 'a OrderedWorklist \<Rightarrow> 'a list" where
  "worklist_drain cmp 0 w = []"
| "worklist_drain cmp (Suc n) w = (case OrderedWorklist_pop cmp w of
     (None, w') \<Rightarrow> [] | (Some v, w') \<Rightarrow> v # worklist_drain cmp n w')"

lemma worklist_push_all_ok:
  "comparator cmp \<Longrightarrow> heap_ordered cmp (wl_values w) \<Longrightarrow>
   heap_ordered cmp (wl_values (worklist_push_all cmp vs w)) \<and>
   mset (wl_values (worklist_push_all cmp vs w)) = mset (wl_values w) + mset vs"
  by (induction cmp vs w rule: worklist_push_all.induct)
    (simp_all add: OrderedWorklist_push_def comparator.push_heap mset_sift_up)

lemma worklist_drain_ok:
  assumes "comparator cmp"
  shows "heap_ordered cmp (wl_values w) \<Longrightarrow> size (mset (wl_values w)) \<le> n \<Longrightarrow>
    mset (worklist_drain cmp n w) = mset (wl_values w) \<and>
    sorted_wrt (\<lambda>a b. cmp b a \<noteq> Less) (worklist_drain cmp n w)"
proof (induction n arbitrary: w)
  case (Suc n)
  obtain r w' where pop: "OrderedWorklist_pop cmp w = (r, w')" by fastforce
  note least = comparator.pop_ok [OF assms Suc.prems(1), unfolded pop]
  show ?case
  proof (cases r)
    case None
    with least pop show ?thesis by simp
  next
    case (Some v)
    with least have all: "(\<forall>x. x \<in> set (wl_values w) \<longrightarrow> cmp x v \<noteq> Less) \<and>
        mset (wl_values w) = add_mset v (mset (wl_values w')) \<and> heap_ordered cmp (wl_values w')"
      by simp
    then have w': "heap_ordered cmp (wl_values w')"
      and ms: "mset (wl_values w) = add_mset v (mset (wl_values w'))" by blast+
    from ms have "set (wl_values w) = insert v (set (wl_values w'))"
      by (metis set_mset_add_mset_insert set_mset_mset)
    with all have v: "\<forall>x\<in>set (wl_values w'). cmp x v \<noteq> Less" by blast
    from ms Suc.prems(2) have "size (mset (wl_values w')) \<le> n" by simp
    from Suc.IH [OF w' this] have IH: "mset (worklist_drain cmp n w') = mset (wl_values w')"
      "sorted_wrt (\<lambda>a b. cmp b a \<noteq> Less) (worklist_drain cmp n w')" by auto
    from IH(1) have "set (worklist_drain cmp n w') = set (wl_values w')" by (metis set_mset_mset)
    with v have "\<forall>x\<in>set (worklist_drain cmp n w'). cmp x v \<noteq> Less" by simp
    with IH ms pop Some show ?thesis by simp
  qed
qed simp

text \<open>
  C24: a worklist built from an ascending vector and any further admissions pops every
  admitted item, duplicates and comparator-equal items included, in ascending order.
\<close>

theorem OrderedWorklist_drains_sorted:
  assumes cmp: "comparator cmp" and asc: "sorted_wrt (\<lambda>a b. cmp b a \<noteq> Less) vs"
  shows "mset (worklist_drain cmp (length vs + length ws)
             (worklist_push_all cmp ws (OrderedWorklist_from_sorted vs))) = mset (vs @ ws) \<and>
         sorted_wrt (\<lambda>a b. cmp b a \<noteq> Less) (worklist_drain cmp (length vs + length ws)
             (worklist_push_all cmp ws (OrderedWorklist_from_sorted vs)))"
proof -
  let ?w = "worklist_push_all cmp ws (OrderedWorklist_from_sorted vs)"
  have "heap_ordered cmp (wl_values ?w) \<and> mset (wl_values ?w) = mset vs + mset ws"
    using worklist_push_all_ok [OF cmp, of "OrderedWorklist_from_sorted vs" ws]
      comparator.ascending_heap [OF cmp asc]
    by (simp add: OrderedWorklist_from_sorted_def)
  with worklist_drain_ok [OF cmp, of ?w] show ?thesis by simp
qed

theorem OrderedWorklist_drains_sorted_witness:
  "sorted_wrt (\<lambda>a b. cmp_of b a \<noteq> Less) (worklist_drain cmp_of 5
     (worklist_push_all cmp_of [4, 1, 2] (OrderedWorklist_from_sorted [2::nat, 3])))"
  using OrderedWorklist_drains_sorted [OF linorder_cmp.comparator_axioms, of "[2::nat, 3]" "[4, 1, 2]"]
  by (simp add: numeral_eq_Suc)

end
