(* ===== verification/Fz_Agenda.thy ===== *)
theory Fz_Agenda
  imports Fz_Prelude
begin

text \<open>
  The deduplicating FIFO agenda of \<open>src/compiler2/agenda.rs\<close>: a queue of jobs beside the
  set of the jobs that are in it. The interface the scheduler relies on is the locale
  \<open>dedup_queue\<close>; the agenda interprets it.
\<close>

record 'j Agenda =
  ag_queue :: "'j list"
  ag_queued :: "'j set"

definition Agenda_new :: "'j Agenda" where
  "Agenda_new = \<lparr>ag_queue = [], ag_queued = {}\<rparr>"

definition Agenda_enqueue :: "'j \<Rightarrow> 'j Agenda \<Rightarrow> bool \<times> 'j Agenda" where
  "Agenda_enqueue job a =
     (if job \<in> ag_queued a then (False, a)
      else (True, a\<lparr>ag_queued := insert job (ag_queued a), ag_queue := ag_queue a @ [job]\<rparr>))"

definition Agenda_pop :: "'j Agenda \<Rightarrow> 'j option \<times> 'j Agenda" where
  "Agenda_pop a =
     (case ag_queue a of
        [] \<Rightarrow> (None, a)
      | job # rest \<Rightarrow> (Some job, a\<lparr>ag_queue := rest, ag_queued := ag_queued a - {job}\<rparr>))"

definition Agenda_len :: "'j Agenda \<Rightarrow> nat" where
  "Agenda_len a = length (ag_queue a)"

definition Agenda_is_empty :: "'j Agenda \<Rightarrow> bool" where
  "Agenda_is_empty a \<longleftrightarrow> Agenda_len a = 0"

definition agenda_wf :: "'j Agenda \<Rightarrow> bool" where
  [wf_defs]: "agenda_wf a \<longleftrightarrow> distinct (ag_queue a) \<and> set (ag_queue a) = ag_queued a"

section \<open>The interface of a deduplicating queue\<close>

locale dedup_queue =
  fixes empty :: "'q"
    and enq :: "'j \<Rightarrow> 'q \<Rightarrow> bool \<times> 'q"
    and deq :: "'q \<Rightarrow> 'j option \<times> 'q"
    and pending :: "'q \<Rightarrow> 'j list"
    and wf :: "'q \<Rightarrow> bool"
  assumes pending_empty: "pending empty = []"
    and enq_pending: "wf q \<Longrightarrow> j \<in> set (pending q) \<Longrightarrow> enq j q = (False, q)"
    and enq_appends: "wf q \<Longrightarrow> j \<notin> set (pending q) \<Longrightarrow>
          fst (enq j q) \<and> pending (snd (enq j q)) = pending q @ [j]"
    and deq_none: "pending q = [] \<Longrightarrow> deq q = (None, q)"
    and deq_some: "pending q = j # js \<Longrightarrow> fst (deq q) = Some j \<and> pending (snd (deq q)) = js"
    and distinct_pending: "wf q \<Longrightarrow> distinct (pending q)"
    and wf_empty: "wf empty"
    and wf_enq: "wf q \<Longrightarrow> wf (snd (enq j q))"
    and wf_deq: "wf q \<Longrightarrow> wf (snd (deq q))"
begin

lemma set_pending_enq: "wf q \<Longrightarrow> set (pending (snd (enq j q))) = insert j (set (pending q))"
proof (cases "j \<in> set (pending q)")
  case True
  assume "wf q"
  with True have "snd (enq j q) = q" by (simp add: enq_pending)
  with True show ?thesis by auto
next
  case False
  assume "wf q"
  with False show ?thesis by (simp add: enq_appends)
qed

text \<open>Popping as many jobs as are pending returns them in queue order, each once.\<close>

fun drain :: "nat \<Rightarrow> 'q \<Rightarrow> 'j list \<times> 'q" where
  "drain 0 q = ([], q)"
| "drain (Suc n) q = (case deq q of (None, q') \<Rightarrow> ([], q')
     | (Some j, q') \<Rightarrow> (let (js, q'') = drain n q' in (j # js, q'')))"

lemma drain_pending:
  "length (pending q) \<le> n \<Longrightarrow> fst (drain n q) = pending q \<and> pending (snd (drain n q)) = []"
proof (induction n arbitrary: q)
  case 0
  then show ?case by simp
next
  case (Suc n)
  show ?case
  proof (cases "pending q")
    case Nil
    then show ?thesis by (simp add: deq_none)
  next
    case (Cons j js)
    obtain r q' where d: "deq q = (r, q')" by fastforce
    with deq_some [OF Cons] have r: "r = Some j" "pending q' = js" by auto
    with Suc.prems Cons have "length (pending q') \<le> n" by simp
    from Suc.IH [OF this] d r Cons show ?thesis by (simp add: case_prod_beta)
  qed
qed

lemma enq_keeps_position:
  assumes "wf q" and "i < length (pending q)"
  shows "i < length (pending (snd (enq j q))) \<and> pending (snd (enq j q)) ! i = pending q ! i"
proof (cases "j \<in> set (pending q)")
  case True
  with assms have "snd (enq j q) = q" by (simp add: enq_pending)
  with assms show ?thesis by simp
next
  case False
  with assms show ?thesis by (simp add: enq_appends nth_append)
qed

end

interpretation ag: dedup_queue Agenda_new Agenda_enqueue Agenda_pop ag_queue agenda_wf
proof (unfold_locales, goal_cases)
  case (9 q)
  then show ?case
    by (cases "ag_queue q") (auto simp: Agenda_pop_def agenda_wf_def)
qed (simp_all add: Agenda_new_def Agenda_enqueue_def Agenda_pop_def agenda_wf_def)

section \<open>Facts the scheduler uses\<close>

lemma agenda_wf_new [simp]: "agenda_wf Agenda_new"
  by (rule ag.wf_empty)

lemma agenda_wf_enqueue [simp]: "agenda_wf a \<Longrightarrow> agenda_wf (snd (Agenda_enqueue j a))"
  by (rule ag.wf_enq)

lemma agenda_wf_pop [simp]: "agenda_wf a \<Longrightarrow> agenda_wf (snd (Agenda_pop a))"
  by (rule ag.wf_deq)

lemma Agenda_queued_enqueue [simp]:
  "ag_queued (snd (Agenda_enqueue j a)) = insert j (ag_queued a)"
  by (auto simp: Agenda_enqueue_def)

lemma Agenda_is_empty_iff: "agenda_wf a \<Longrightarrow> Agenda_is_empty a \<longleftrightarrow> ag_queued a = {}"
  by (auto simp: Agenda_is_empty_def Agenda_len_def agenda_wf_def)

section \<open>The agenda is a fair queue without repetition\<close>

fun Agenda_drain :: "nat \<Rightarrow> 'j Agenda \<Rightarrow> 'j list \<times> 'j Agenda" where
  "Agenda_drain 0 a = ([], a)"
| "Agenda_drain (Suc n) a = (case Agenda_pop a of (None, a') \<Rightarrow> ([], a')
     | (Some j, a') \<Rightarrow> (let (js, a'') = Agenda_drain n a' in (j # js, a'')))"

lemma Agenda_drain_eq: "Agenda_drain n a = ag.drain n a"
  by (induction n arbitrary: a) (simp_all split: prod.splits option.splits)

text \<open>
  demanding a job that is already pending changes nothing, demanding any job keeps the
  place of every job ahead of it, and popping the agenda dry after it runs every pending
  job exactly once in the order of their first demands.
\<close>

theorem Agenda_demand_preserves_fifo:
  assumes "agenda_wf a"
  shows "(fst (Agenda_enqueue j a) \<longleftrightarrow> j \<notin> ag_queued a) \<and>
    ag_queue (snd (Agenda_enqueue j a)) =
      (if j \<in> ag_queued a then ag_queue a else ag_queue a @ [j]) \<and>
    fst (Agenda_drain (Suc (Agenda_len a)) (snd (Agenda_enqueue j a))) =
      (if j \<in> ag_queued a then ag_queue a else ag_queue a @ [j]) \<and>
    distinct (fst (Agenda_drain (Suc (Agenda_len a)) (snd (Agenda_enqueue j a))))"
proof -
  let ?q = "if j \<in> ag_queued a then ag_queue a else ag_queue a @ [j]"
  have q: "ag_queue (snd (Agenda_enqueue j a)) = ?q"
    by (simp add: Agenda_enqueue_def)
  then have "length (ag_queue (snd (Agenda_enqueue j a))) \<le> Suc (Agenda_len a)"
    by (simp add: Agenda_len_def)
  from ag.drain_pending [OF this]
  have d: "fst (Agenda_drain (Suc (Agenda_len a)) (snd (Agenda_enqueue j a))) = ?q"
    by (simp only: Agenda_drain_eq q)
  have "distinct ?q"
    using assms by (simp add: agenda_wf_def)
  with q d show ?thesis
    by (simp add: Agenda_enqueue_def)
qed

theorem Agenda_demand_preserves_fifo_witness:
  "fst (Agenda_drain 4 (snd (Agenda_enqueue (1::nat)
     \<lparr>ag_queue = [2, 1, 3], ag_queued = {1, 2, 3}\<rparr>))) = [2, 1, 3]"
proof -
  let ?a = "\<lparr>ag_queue = [2, 1, 3], ag_queued = {1, 2, 3}\<rparr> :: nat Agenda"
  have "agenda_wf ?a" by (auto simp: agenda_wf_def)
  from Agenda_demand_preserves_fifo [OF this, of 1] show ?thesis
    by (simp add: Agenda_len_def numeral_eq_Suc)
qed

end
