(* ===== verification/Fz_OrderedSet.thy ===== *)
theory Fz_OrderedSet
  imports Fz_Prelude
begin

text \<open>
  The insertion-ordered membership set of \<open>src/compiler2/ordered_set.rs\<close>: a vector of
  members in registration order beside a hash set of the same members. The hash set is a
  HOL set; the vector is a list. The invariant ties the two together, and the abstract
  specification of the component is the interface of an ordered collection without
  repetition, stated as a locale and interpreted on the model.
\<close>

section \<open>The structure and its operations\<close>

record 'a OrderedSet =
  os_order :: "'a list"
  os_members :: "'a set"

definition OrderedSet_default :: "'a OrderedSet" where
  "OrderedSet_default = \<lparr>os_order = [], os_members = {}\<rparr>"

definition OrderedSet_insert :: "'a \<Rightarrow> 'a OrderedSet \<Rightarrow> bool \<times> 'a OrderedSet" where
  "OrderedSet_insert v s =
     (if v \<notin> os_members s
      then (True, s\<lparr>os_members := insert v (os_members s), os_order := os_order s @ [v]\<rparr>)
      else (False, s))"

definition OrderedSet_remove :: "'a \<Rightarrow> 'a OrderedSet \<Rightarrow> 'a OrderedSet" where
  "OrderedSet_remove v s =
     (if v \<in> os_members s
      then s\<lparr>os_members := os_members s - {v}, os_order := filter (\<lambda>e. e \<noteq> v) (os_order s)\<rparr>
      else s)"

definition OrderedSet_contains :: "'a OrderedSet \<Rightarrow> 'a \<Rightarrow> bool" where
  "OrderedSet_contains s v \<longleftrightarrow> v \<in> os_members s"

definition OrderedSet_is_empty :: "'a OrderedSet \<Rightarrow> bool" where
  "OrderedSet_is_empty s \<longleftrightarrow> os_order s = []"

definition OrderedSet_iter :: "'a OrderedSet \<Rightarrow> 'a list" where
  "OrderedSet_iter s = os_order s"

fun OrderedSet_extend :: "'a OrderedSet \<Rightarrow> 'a list \<Rightarrow> 'a OrderedSet" where
  "OrderedSet_extend s [] = s"
| "OrderedSet_extend s (v # vs) = OrderedSet_extend (snd (OrderedSet_insert v s)) vs"

definition OrderedSet_from_iter :: "'a list \<Rightarrow> 'a OrderedSet" where
  "OrderedSet_from_iter vs = OrderedSet_extend OrderedSet_default vs"

definition os_wf :: "'a OrderedSet \<Rightarrow> bool" where
  [wf_defs]: "os_wf s \<longleftrightarrow> distinct (os_order s) \<and> set (os_order s) = os_members s"

text \<open>The list of first occurrences: what a sequence of registrations leaves.\<close>

fun first_occurrences :: "'a list \<Rightarrow> 'a list \<Rightarrow> 'a list" where
  "first_occurrences seen [] = seen"
| "first_occurrences seen (v # vs) =
     first_occurrences (if v \<in> set seen then seen else seen @ [v]) vs"

section \<open>The interface of an ordered collection\<close>

locale ordered_collection =
  fixes empty :: "'s"
    and ins :: "'a \<Rightarrow> 's \<Rightarrow> bool \<times> 's"
    and rem :: "'a \<Rightarrow> 's \<Rightarrow> 's"
    and mem :: "'s \<Rightarrow> 'a \<Rightarrow> bool"
    and items :: "'s \<Rightarrow> 'a list"
    and wf :: "'s \<Rightarrow> bool"
  assumes items_empty: "items empty = []"
    and items_ins: "wf s \<Longrightarrow> items (snd (ins v s)) = (if v \<in> set (items s) then items s else items s @ [v])"
    and fresh_ins: "wf s \<Longrightarrow> fst (ins v s) \<longleftrightarrow> v \<notin> set (items s)"
    and items_rem: "wf s \<Longrightarrow> items (rem v s) = filter (\<lambda>e. e \<noteq> v) (items s)"
    and mem_items: "wf s \<Longrightarrow> mem s v \<longleftrightarrow> v \<in> set (items s)"
    and distinct_items: "wf s \<Longrightarrow> distinct (items s)"
    and wf_empty: "wf empty"
    and wf_ins: "wf s \<Longrightarrow> wf (snd (ins v s))"
    and wf_rem: "wf s \<Longrightarrow> wf (rem v s)"
begin

lemma wf_ins_all: "wf s \<Longrightarrow> wf (foldl (\<lambda>t v. snd (ins v t)) s vs)"
  by (induction vs arbitrary: s) (simp_all add: wf_ins)

lemma items_ins_all:
  "wf s \<Longrightarrow> items (foldl (\<lambda>t v. snd (ins v t)) s vs) = first_occurrences (items s) vs"
  by (induction vs arbitrary: s) (simp_all add: wf_ins items_ins)

lemma set_items_rem: "wf s \<Longrightarrow> set (items (rem v s)) = set (items s) - {v}"
  by (auto simp: items_rem)

end

interpretation os: ordered_collection OrderedSet_default OrderedSet_insert OrderedSet_remove
  OrderedSet_contains OrderedSet_iter os_wf
  by unfold_locales
    (auto simp: OrderedSet_default_def OrderedSet_insert_def OrderedSet_remove_def
      OrderedSet_contains_def OrderedSet_iter_def os_wf_def filter_neq_id)

section \<open>Facts the clients use\<close>

lemma OrderedSet_extend_foldl:
  "OrderedSet_extend s vs = foldl (\<lambda>t v. snd (OrderedSet_insert v t)) s vs"
  by (induction s vs rule: OrderedSet_extend.induct) simp_all

lemma os_wf_default [simp]: "os_wf OrderedSet_default"
  by (rule os.wf_empty)

lemma os_wf_insert [simp]: "os_wf s \<Longrightarrow> os_wf (snd (OrderedSet_insert v s))"
  by (rule os.wf_ins)

lemma os_wf_remove [simp]: "os_wf s \<Longrightarrow> os_wf (OrderedSet_remove v s)"
  by (rule os.wf_rem)

lemma os_wf_extend [simp]: "os_wf s \<Longrightarrow> os_wf (OrderedSet_extend s vs)"
  by (simp add: OrderedSet_extend_foldl os.wf_ins_all)

lemma os_wf_from_iter [simp]: "os_wf (OrderedSet_from_iter vs)"
  by (simp add: OrderedSet_from_iter_def)

lemma os_members_default [simp]:
  "os_members OrderedSet_default = {}" "os_order OrderedSet_default = []"
  by (simp_all add: OrderedSet_default_def)

lemma os_members_insert [simp]:
  "os_members (snd (OrderedSet_insert v s)) = insert v (os_members s)"
  by (auto simp: OrderedSet_insert_def)

lemma os_members_remove [simp]: "os_members (OrderedSet_remove v s) = os_members s - {v}"
  by (auto simp: OrderedSet_remove_def)

lemma os_members_extend [simp]:
  "os_members (OrderedSet_extend s vs) = os_members s \<union> set vs"
  by (induction s vs rule: OrderedSet_extend.induct) auto

lemma os_members_from_iter [simp]: "os_members (OrderedSet_from_iter vs) = set vs"
  by (simp add: OrderedSet_from_iter_def)

lemma os_set_order: "os_wf s \<Longrightarrow> set (os_order s) = os_members s"
  by (simp add: os_wf_def)

lemma os_is_empty_iff: "os_wf s \<Longrightarrow> OrderedSet_is_empty s \<longleftrightarrow> os_members s = {}"
  by (simp add: OrderedSet_is_empty_def flip: os_set_order)

lemma os_finite_members: "os_wf s \<Longrightarrow> finite (os_members s)"
  by (simp flip: os_set_order)

section \<open>Registration order\<close>

text \<open>
  : iterating an ordered set built from any sequence of registrations visits each
  distinct value once, at the position of its first registration: a repeated registration
  neither duplicates nor moves a member, so the order depends on the producer only and
  never on hashing.
\<close>

theorem OrderedSet_registration_order:
  "OrderedSet_iter (OrderedSet_from_iter vs) = first_occurrences [] vs \<and>
   distinct (OrderedSet_iter (OrderedSet_from_iter vs)) \<and>
   set (OrderedSet_iter (OrderedSet_from_iter vs)) = set vs"
proof -
  have "OrderedSet_iter (OrderedSet_from_iter vs) = first_occurrences [] vs"
    using os.items_ins_all [OF os.wf_empty, of vs]
    by (simp add: OrderedSet_from_iter_def OrderedSet_extend_foldl os.items_empty)
  moreover have "os_wf (OrderedSet_from_iter vs)" by simp
  ultimately show ?thesis
    using os_set_order [of "OrderedSet_from_iter vs"]
    by (simp add: OrderedSet_iter_def os_wf_def)
qed

end
