(* ===== verification/Fz_Facts.thy ===== *)
theory Fz_Facts
  imports Fz_OrderedSet
begin

text \<open>
  The fact table of \<open>src/compiler2/facts.rs\<close>: for each fact key a slot with the
  publishers that claim it, those of them that are queued to re-run (dirty), those that
  read something that can still move (unfinal), and a revision counter. Hash maps are
  partial functions, hash sets are sets, revision counters are natural numbers (the source
  counts in 64 bits), and the trait method \<open>ClaimShape::is_cumulative\<close> is the parameter
  \<open>cum\<close>. A failed assertion of the source is a value of \<open>fact_panic\<close>.
\<close>

section \<open>Fact uses, states and changes\<close>

datatype FactReadiness = ReadinessCurrent | ReadinessSettled

datatype 'f FactUse = Current 'f | Settled 'f

primrec FactUse_fact :: "'f FactUse \<Rightarrow> 'f" where
  "FactUse_fact (Current f) = f"
| "FactUse_fact (Settled f) = f"

primrec FactUse_readiness :: "'f FactUse \<Rightarrow> FactReadiness" where
  "FactUse_readiness (Current f) = ReadinessCurrent"
| "FactUse_readiness (Settled f) = ReadinessSettled"

datatype ContentMovement = Ascent | Shift

record 'f FactChange =
  fc_key :: 'f
  fc_old_revision :: "nat option"
  fc_new_revision :: "nat option"
  fc_old_settled :: bool
  fc_new_settled :: bool
  fc_content_movement :: "ContentMovement option"

abbreviation unwrap0 :: "nat option \<Rightarrow> nat" where
  "unwrap0 r \<equiv> (case r of None \<Rightarrow> 0 | Some n \<Rightarrow> n)"

definition FactChange_replacing ::
  "'f \<Rightarrow> nat option \<Rightarrow> nat option \<Rightarrow> bool \<Rightarrow> bool \<Rightarrow> 'f FactChange" where
  "FactChange_replacing key old_revision new_revision old_settled new_settled =
     \<lparr>fc_key = key, fc_old_revision = old_revision, fc_new_revision = new_revision,
      fc_old_settled = old_settled, fc_new_settled = new_settled,
      fc_content_movement =
        (if unwrap0 old_revision = unwrap0 new_revision then None
         else if old_revision = None then Some Ascent else Some Shift)\<rparr>"

definition FactChange_content_changed :: "'f FactChange \<Rightarrow> bool" where
  "FactChange_content_changed c \<longleftrightarrow> fc_content_movement c \<noteq> None"

definition FactChange_readiness_changed :: "'f FactChange \<Rightarrow> bool" where
  "FactChange_readiness_changed c \<longleftrightarrow> fc_old_settled c \<noteq> fc_new_settled c"

record FactState =
  fs_revision :: "nat option"
  fs_settled :: bool

definition FactState_projected :: "FactState \<Rightarrow> 'f FactUse \<Rightarrow> FactState" where
  "FactState_projected s u =
     (case u of Current _ \<Rightarrow> \<lparr>fs_revision = fs_revision s, fs_settled = False\<rparr> | Settled _ \<Rightarrow> s)"

record 'f FactMovement =
  fm_key :: 'f
  fm_state :: FactState

record 'f FactReplace =
  fr_changed :: "'f FactChange list"
  fr_output_keys :: "'f OrderedSet"

section \<open>Slots\<close>

record 'p FactSlot =
  publishers :: "'p set"
  dirty_publishers :: "'p set"
  unfinal_publishers :: "'p set"
  slot_revision :: nat

definition FactSlot_default :: "'p FactSlot" where
  "FactSlot_default =
     \<lparr>publishers = {}, dirty_publishers = {}, unfinal_publishers = {}, slot_revision = 0\<rparr>"

definition FactSlot_revision :: "'p FactSlot \<Rightarrow> nat option" where
  [slot_simps]: "FactSlot_revision s = (if publishers s = {} then None else Some (slot_revision s))"

definition FactSlot_is_locally_settled :: "'p FactSlot \<Rightarrow> bool" where
  [slot_simps]: "FactSlot_is_locally_settled s \<longleftrightarrow> publishers s \<noteq> {} \<and> dirty_publishers s = {}"

definition FactSlot_is_quiet :: "'p FactSlot \<Rightarrow> bool" where
  [slot_simps]: "FactSlot_is_quiet s \<longleftrightarrow> dirty_publishers s = {} \<and> unfinal_publishers s = {}"

definition FactSlot_is_settled :: "'p FactSlot \<Rightarrow> bool" where
  [slot_simps]: "FactSlot_is_settled s \<longleftrightarrow> FactSlot_is_locally_settled s \<and> unfinal_publishers s = {}"

section \<open>The table and its readers\<close>

record ('p, 'f) FactTable =
  slots :: "'f \<rightharpoonup> 'p FactSlot"

definition FactTable_new :: "('p, 'f) FactTable" where
  "FactTable_new = \<lparr>slots = Map.empty\<rparr>"

definition FactTable_revision :: "('p, 'f) FactTable \<Rightarrow> 'f \<Rightarrow> nat option" where
  "FactTable_revision t key = Option.bind (slots t key) FactSlot_revision"

definition FactTable_publishers :: "('p, 'f) FactTable \<Rightarrow> 'f \<Rightarrow> 'p set" where
  "FactTable_publishers t key = (case slots t key of None \<Rightarrow> {} | Some slot \<Rightarrow> publishers slot)"

definition FactTable_is_settled :: "('p, 'f) FactTable \<Rightarrow> 'f \<Rightarrow> bool" where
  "FactTable_is_settled t key =
     (case slots t key of None \<Rightarrow> False | Some slot \<Rightarrow> FactSlot_is_settled slot)"

definition FactTable_is_locally_settled :: "('p, 'f) FactTable \<Rightarrow> 'f \<Rightarrow> bool" where
  "FactTable_is_locally_settled t key =
     (case slots t key of None \<Rightarrow> False | Some slot \<Rightarrow> FactSlot_is_locally_settled slot)"

definition FactTable_is_quiet :: "('p, 'f) FactTable \<Rightarrow> 'f \<Rightarrow> bool" where
  "FactTable_is_quiet t key =
     (case slots t key of None \<Rightarrow> True | Some slot \<Rightarrow> FactSlot_is_quiet slot)"

definition FactTable_state :: "('p, 'f) FactTable \<Rightarrow> 'f \<Rightarrow> FactState" where
  "FactTable_state t key =
     (case slots t key of
        None \<Rightarrow> \<lparr>fs_revision = None, fs_settled = False\<rparr>
      | Some slot \<Rightarrow> \<lparr>fs_revision = FactSlot_revision slot, fs_settled = FactSlot_is_settled slot\<rparr>)"

definition FactTable_satisfies :: "('p, 'f) FactTable \<Rightarrow> 'f FactUse \<Rightarrow> bool" where
  "FactTable_satisfies t u =
     (case u of Current key \<Rightarrow> FactTable_revision t key \<noteq> None
      | Settled key \<Rightarrow> FactTable_is_settled t key)"

section \<open>Publishing\<close>

datatype fact_panic = DuplicateOutput | DuplicateChanged | ForeignChanged

definition appearance_revision :: "('f \<Rightarrow> bool) \<Rightarrow> 'f \<Rightarrow> bool \<Rightarrow> nat" where
  "appearance_revision cum key changed_listed = (if changed_listed \<or> \<not> cum key then 1 else 0)"

definition set_membership :: "'p set \<Rightarrow> 'p \<Rightarrow> bool \<Rightarrow> 'p set" where
  "set_membership s publisher member = (if member then insert publisher s else s - {publisher})"

definition content_movement ::
  "('f \<Rightarrow> bool) \<Rightarrow> 'f \<Rightarrow> nat option \<Rightarrow> nat option \<Rightarrow> bool \<Rightarrow> bool \<Rightarrow> ContentMovement option" where
  "content_movement cum key old_revision new_revision publisher_rebased withdrew_publisher =
     (if unwrap0 old_revision = unwrap0 new_revision then None
      else if old_revision = None then Some Ascent
      else if new_revision = None \<or> withdrew_publisher \<or> publisher_rebased \<or> \<not> cum key
      then Some Shift else Some Ascent)"

text \<open>Collecting a vector into a set, panicking on the first repeated element.\<close>

fun collect_unique :: "'e \<Rightarrow> 'f OrderedSet \<Rightarrow> 'f list \<Rightarrow> 'e + 'f OrderedSet" where
  "collect_unique e acc [] = Inr acc"
| "collect_unique e acc (k # ks) =
     (case OrderedSet_insert k acc of (True, acc') \<Rightarrow> collect_unique e acc' ks | (False, _) \<Rightarrow> Inl e)"

text \<open>The two arms of the loop body of \<open>replace_outputs_after_run\<close>, on one slot.\<close>

definition claim_slot ::
  "('f \<Rightarrow> bool) \<Rightarrow> 'p \<Rightarrow> bool \<Rightarrow> 'f \<Rightarrow> bool \<Rightarrow> 'p FactSlot \<Rightarrow> 'p FactSlot" where
  "claim_slot cum publisher unfinal key changed_listed slot =
     (let was_absent = (publishers slot = {});
          slot1 = slot\<lparr>publishers := insert publisher (publishers slot),
                       dirty_publishers := dirty_publishers slot - {publisher},
                       unfinal_publishers := set_membership (unfinal_publishers slot) publisher unfinal\<rparr>
      in if was_absent then slot1\<lparr>slot_revision := appearance_revision cum key changed_listed\<rparr>
         else if changed_listed then slot1\<lparr>slot_revision := slot_revision slot1 + 1\<rparr>
         else slot1)"

definition withdraw_slot :: "'p \<Rightarrow> bool \<Rightarrow> 'p FactSlot \<Rightarrow> 'p FactSlot" where
  "withdraw_slot publisher changed_listed slot =
     (let slot1 = slot\<lparr>publishers := publishers slot - {publisher},
                       dirty_publishers := dirty_publishers slot - {publisher},
                       unfinal_publishers := unfinal_publishers slot - {publisher}\<rparr>
      in if changed_listed \<and> publishers slot1 \<noteq> {}
         then slot1\<lparr>slot_revision := slot_revision slot1 + 1\<rparr> else slot1)"

definition put_slot :: "'f \<Rightarrow> 'p FactSlot \<Rightarrow> ('p, 'f) FactTable \<Rightarrow> ('p, 'f) FactTable" where
  "put_slot key slot t = t\<lparr>slots := (slots t)(key := (if publishers slot \<noteq> {} then Some slot else None))\<rparr>"

definition slot_or_default :: "('p, 'f) FactTable \<Rightarrow> 'f \<Rightarrow> 'p FactSlot" where
  "slot_or_default t key = (case slots t key of None \<Rightarrow> FactSlot_default | Some slot \<Rightarrow> slot)"

text \<open>The change record pushed when the slot's revision or settled bit moved.\<close>

definition report_change ::
  "'f \<Rightarrow> 'p FactSlot \<Rightarrow> 'p FactSlot \<Rightarrow> ContentMovement option \<Rightarrow> 'f FactChange list" where
  "report_change key old new movement =
     (if FactSlot_revision old \<noteq> FactSlot_revision new \<or> FactSlot_is_settled old \<noteq> FactSlot_is_settled new
      then [\<lparr>fc_key = key, fc_old_revision = FactSlot_revision old, fc_new_revision = FactSlot_revision new,
             fc_old_settled = FactSlot_is_settled old, fc_new_settled = FactSlot_is_settled new,
             fc_content_movement = movement\<rparr>]
      else [])"

fun replace_loop ::
  "('f \<Rightarrow> bool) \<Rightarrow> 'p \<Rightarrow> 'f OrderedSet \<Rightarrow> bool \<Rightarrow> bool \<Rightarrow> 'f list \<Rightarrow> 'f set \<Rightarrow>
   ('p, 'f) FactTable \<Rightarrow> 'f FactChange list \<times> ('p, 'f) FactTable" where
  "replace_loop cum publisher output_keys unfinal rebased [] changed_keys t = ([], t)"
| "replace_loop cum publisher output_keys unfinal rebased (key # keys) changed_keys t =
     (let slot = slot_or_default t key;
          claimed = OrderedSet_contains output_keys key;
          listed = (key \<in> changed_keys);
          withdrew = (\<not> claimed \<and> publisher \<in> publishers slot);
          slot' = (if claimed then claim_slot cum publisher unfinal key listed slot
                   else withdraw_slot publisher listed slot);
          movement = content_movement cum key (FactSlot_revision slot) (FactSlot_revision slot')
                       rebased withdrew;
          (rest, t') = replace_loop cum publisher output_keys unfinal rebased keys
                         (changed_keys - {key}) (put_slot key slot' t)
      in (report_change key slot slot' movement @ rest, t'))"

definition FactTable_replace_outputs_after_run ::
  "('f \<Rightarrow> bool) \<Rightarrow> 'p \<Rightarrow> 'f OrderedSet \<Rightarrow> 'f list \<Rightarrow> 'f list \<Rightarrow> bool \<Rightarrow> bool \<Rightarrow>
   ('p, 'f) FactTable \<Rightarrow> fact_panic + ('f FactReplace \<times> ('p, 'f) FactTable)" where
  "FactTable_replace_outputs_after_run cum publisher previous_output_keys outputs changed_keys unfinal rebased t =
     (case collect_unique DuplicateOutput OrderedSet_default outputs of
        Inl e \<Rightarrow> Inl e
      | Inr output_keys \<Rightarrow>
     (case collect_unique DuplicateChanged OrderedSet_default changed_keys of
        Inl e \<Rightarrow> Inl e
      | Inr changed_set \<Rightarrow>
        if \<not> (\<forall>key \<in> set (OrderedSet_iter changed_set).
               OrderedSet_contains output_keys key \<or> OrderedSet_contains previous_output_keys key)
        then Inl ForeignChanged
        else let touched = OrderedSet_from_iter (OrderedSet_iter output_keys @ OrderedSet_iter previous_output_keys);
                 (changed, t') = replace_loop cum publisher output_keys unfinal rebased
                   (OrderedSet_iter touched) (os_members changed_set) t
             in Inr (\<lparr>fr_changed = changed, fr_output_keys = output_keys\<rparr>, t')))"

definition FactTable_replace_outputs ::
  "('f \<Rightarrow> bool) \<Rightarrow> 'p \<Rightarrow> 'f OrderedSet \<Rightarrow> 'f list \<Rightarrow> 'f list \<Rightarrow> bool \<Rightarrow>
   ('p, 'f) FactTable \<Rightarrow> fact_panic + ('f FactReplace \<times> ('p, 'f) FactTable)" where
  "FactTable_replace_outputs cum publisher previous_output_keys outputs changed_keys unfinal t =
     FactTable_replace_outputs_after_run cum publisher previous_output_keys outputs changed_keys unfinal False t"

text \<open>The loop body of \<open>extend_outputs_after_run\<close>: the claim keeps its dirtiness.\<close>

definition extend_slot ::
  "('f \<Rightarrow> bool) \<Rightarrow> 'p \<Rightarrow> bool \<Rightarrow> 'f \<Rightarrow> bool \<Rightarrow> 'p FactSlot \<Rightarrow> 'p FactSlot" where
  "extend_slot cum publisher unfinal key changed_listed slot =
     (let was_absent = (publishers slot = {});
          slot1 = slot\<lparr>publishers := insert publisher (publishers slot),
                       unfinal_publishers := set_membership (unfinal_publishers slot) publisher unfinal\<rparr>
      in if was_absent then slot1\<lparr>slot_revision := appearance_revision cum key changed_listed\<rparr>
         else if changed_listed then slot1\<lparr>slot_revision := slot_revision slot1 + 1\<rparr>
         else slot1)"

fun extend_loop ::
  "('f \<Rightarrow> bool) \<Rightarrow> 'p \<Rightarrow> bool \<Rightarrow> bool \<Rightarrow> 'f list \<Rightarrow> 'f set \<Rightarrow>
   ('p, 'f) FactTable \<Rightarrow> 'f FactChange list \<times> ('p, 'f) FactTable" where
  "extend_loop cum publisher unfinal rebased [] changed_keys t = ([], t)"
| "extend_loop cum publisher unfinal rebased (key # keys) changed_keys t =
     (let slot = slot_or_default t key;
          slot' = extend_slot cum publisher unfinal key (key \<in> changed_keys) slot;
          movement = content_movement cum key (FactSlot_revision slot) (FactSlot_revision slot') rebased False;
          (rest, t') = extend_loop cum publisher unfinal rebased keys (changed_keys - {key})
                         (t\<lparr>slots := (slots t)(key \<mapsto> slot')\<rparr>)
      in (report_change key slot slot' movement @ rest, t'))"

definition FactTable_extend_outputs_after_run ::
  "('f \<Rightarrow> bool) \<Rightarrow> 'p \<Rightarrow> 'f list \<Rightarrow> 'f list \<Rightarrow> bool \<Rightarrow> bool \<Rightarrow>
   ('p, 'f) FactTable \<Rightarrow> fact_panic + ('f FactReplace \<times> ('p, 'f) FactTable)" where
  "FactTable_extend_outputs_after_run cum publisher outputs changed_keys unfinal rebased t =
     (case collect_unique DuplicateOutput OrderedSet_default outputs of
        Inl e \<Rightarrow> Inl e
      | Inr output_keys \<Rightarrow>
     (case collect_unique DuplicateChanged OrderedSet_default changed_keys of
        Inl e \<Rightarrow> Inl e
      | Inr changed_set \<Rightarrow>
        let (changed, t') = extend_loop cum publisher unfinal rebased
              (OrderedSet_iter output_keys) (os_members changed_set) t
        in Inr (\<lparr>fr_changed = changed, fr_output_keys = output_keys\<rparr>, t')))"

definition FactTable_set_publisher_unfinal ::
  "'f \<Rightarrow> 'p \<Rightarrow> bool \<Rightarrow> ('p, 'f) FactTable \<Rightarrow> 'f FactChange option \<times> ('p, 'f) FactTable" where
  "FactTable_set_publisher_unfinal key publisher unfinal t =
     (case slots t key of
        None \<Rightarrow> (None, t)
      | Some slot \<Rightarrow>
        if publisher \<notin> publishers slot then (None, t)
        else let slot' = slot\<lparr>unfinal_publishers :=
                              set_membership (unfinal_publishers slot) publisher unfinal\<rparr>;
                 revision = FactSlot_revision slot'
             in ((if FactSlot_is_settled slot \<noteq> FactSlot_is_settled slot'
                  then Some \<lparr>fc_key = key, fc_old_revision = revision, fc_new_revision = revision,
                             fc_old_settled = FactSlot_is_settled slot,
                             fc_new_settled = FactSlot_is_settled slot', fc_content_movement = None\<rparr>
                  else None),
                 t\<lparr>slots := (slots t)(key \<mapsto> slot')\<rparr>))"

fun mark_dirty_loop ::
  "'p \<Rightarrow> 'f list \<Rightarrow> ('p, 'f) FactTable \<Rightarrow> 'f FactChange list \<times> ('p, 'f) FactTable" where
  "mark_dirty_loop publisher [] t = ([], t)"
| "mark_dirty_loop publisher (key # keys) t =
     (case slots t key of
        None \<Rightarrow> mark_dirty_loop publisher keys t
      | Some slot \<Rightarrow>
        if publisher \<notin> publishers slot \<or> publisher \<in> dirty_publishers slot
        then mark_dirty_loop publisher keys t
        else let slot' = slot\<lparr>dirty_publishers := insert publisher (dirty_publishers slot)\<rparr>;
                 (rest, t') = mark_dirty_loop publisher keys (t\<lparr>slots := (slots t)(key \<mapsto> slot')\<rparr>)
             in (report_change key slot slot' None @ rest, t'))"

definition FactTable_mark_dirty ::
  "'p \<Rightarrow> 'f OrderedSet \<Rightarrow> ('p, 'f) FactTable \<Rightarrow> 'f FactChange list \<times> ('p, 'f) FactTable" where
  "FactTable_mark_dirty publisher output_keys t =
     mark_dirty_loop publisher (OrderedSet_iter output_keys) t"

section \<open>Closed forms of the loops\<close>

lemma collect_unique_Cons:
  "collect_unique e acc (k # ks) =
     (if k \<in> os_members acc then Inl e else collect_unique e (snd (OrderedSet_insert k acc)) ks)"
  by (simp add: OrderedSet_insert_def)

lemma OrderedSet_insert_order:
  "k \<notin> os_members acc \<Longrightarrow> os_order (snd (OrderedSet_insert k acc)) = os_order acc @ [k]"
  by (simp add: OrderedSet_insert_def)

declare collect_unique.simps(2) [simp del]

lemma collect_unique_Inr:
  "collect_unique e acc ks = Inr s \<Longrightarrow> os_wf acc \<Longrightarrow>
   os_wf s \<and> os_order s = os_order acc @ ks \<and> os_members s = os_members acc \<union> set ks \<and>
   distinct ks \<and> set ks \<inter> os_members acc = {}"
proof (induction ks arbitrary: acc)
  case (Cons k ks)
  then have fresh: "k \<notin> os_members acc"
    and rest: "collect_unique e (snd (OrderedSet_insert k acc)) ks = Inr s"
    by (auto simp: collect_unique_Cons split: if_splits)
  from Cons.IH [OF rest os_wf_insert [OF Cons.prems(2)]] fresh show ?case
    by (auto simp: OrderedSet_insert_order)
qed simp

lemma collect_unique_total:
  "distinct ks \<Longrightarrow> set ks \<inter> os_members acc = {} \<Longrightarrow> \<exists>s. collect_unique e acc ks = Inr s"
  by (induction ks arbitrary: acc) (simp_all add: collect_unique_Cons)

lemma collect_unique_cases: "(\<exists>s. collect_unique e acc ks = Inr s) \<or> collect_unique e acc ks = Inl e"
  by (induction ks arbitrary: acc) (simp_all add: collect_unique_Cons)

lemma collect_unique_duplicate:
  assumes "\<not> distinct ks"
  shows "collect_unique e OrderedSet_default ks = Inl e"
  using assms collect_unique_cases [of e OrderedSet_default ks] collect_unique_Inr [of e OrderedSet_default ks]
  by auto

definition replaced_slot ::
  "('f \<Rightarrow> bool) \<Rightarrow> 'p \<Rightarrow> 'f set \<Rightarrow> bool \<Rightarrow> 'f set \<Rightarrow> ('p, 'f) FactTable \<Rightarrow> 'f \<Rightarrow> 'p FactSlot" where
  "replaced_slot cum publisher outs unfinal listed t key =
     (if key \<in> outs then claim_slot cum publisher unfinal key (key \<in> listed) (slot_or_default t key)
      else withdraw_slot publisher (key \<in> listed) (slot_or_default t key))"

definition nonempty_slot :: "'p FactSlot \<Rightarrow> 'p FactSlot option" where
  "nonempty_slot slot = (if publishers slot \<noteq> {} then Some slot else None)"

lemma slot_or_default_put [simp]:
  "slot_or_default (put_slot k s t) k' = (if k' = k then (if publishers s \<noteq> {} then s else FactSlot_default)
     else slot_or_default t k')"
  by (auto simp: slot_or_default_def put_slot_def)

definition replaced_report ::
  "('f \<Rightarrow> bool) \<Rightarrow> 'p \<Rightarrow> 'f set \<Rightarrow> bool \<Rightarrow> bool \<Rightarrow> 'f set \<Rightarrow> ('p, 'f) FactTable \<Rightarrow> 'f \<Rightarrow> 'f FactChange list" where
  "replaced_report cum p outs u r listed t k =
     report_change k (slot_or_default t k) (replaced_slot cum p outs u listed t k)
       (content_movement cum k (FactSlot_revision (slot_or_default t k))
         (FactSlot_revision (replaced_slot cum p outs u listed t k)) r
         (k \<notin> outs \<and> p \<in> publishers (slot_or_default t k)))"

lemma replace_loop_Cons:
  "replace_loop cum p ok u r (key # keys) listed t =
     (replaced_report cum p (os_members ok) u r listed t key @
        fst (replace_loop cum p ok u r keys (listed - {key})
          (put_slot key (replaced_slot cum p (os_members ok) u listed t key) t)),
      snd (replace_loop cum p ok u r keys (listed - {key})
          (put_slot key (replaced_slot cum p (os_members ok) u listed t key) t)))"
  by (simp add: Let_def replaced_slot_def replaced_report_def OrderedSet_contains_def case_prod_beta)

declare replace_loop.simps(2) [simp del]

lemma slots_put: "slots (put_slot key s t) k = (if k = key then nonempty_slot s else slots t k)"
  by (simp add: put_slot_def nonempty_slot_def)

lemma replaced_slot_put:
  "k \<noteq> key \<Longrightarrow> replaced_slot cum p outs u (listed - {key}) (put_slot key s t) k =
     replaced_slot cum p outs u listed t k"
  by (simp add: replaced_slot_def)

lemma replace_loop_slots:
  "distinct keys \<Longrightarrow> slots (snd (replace_loop cum p ok u r keys listed t)) k =
     (if k \<in> set keys then nonempty_slot (replaced_slot cum p (os_members ok) u listed t k) else slots t k)"
proof (induction keys arbitrary: listed t)
  case (Cons key keys)
  then show ?case
    by (cases "k = key") (simp_all add: replace_loop_Cons replaced_slot_put slots_put)
qed simp

lemma replace_loop_changes:
  "distinct keys \<Longrightarrow> fst (replace_loop cum p ok u r keys listed t) =
     concat (map (replaced_report cum p (os_members ok) u r listed t) keys)"
proof (induction keys arbitrary: listed t)
  case (Cons key keys)
  have same: "map (replaced_report cum p (os_members ok) u r (listed - {key}) (put_slot key s t)) keys =
      map (replaced_report cum p (os_members ok) u r listed t) keys" for s
    using Cons.prems by (intro map_cong) (auto simp: replaced_report_def replaced_slot_put)
  from Cons show ?case by (simp add: replace_loop_Cons same)
qed simp

definition extended_report ::
  "('f \<Rightarrow> bool) \<Rightarrow> 'p \<Rightarrow> bool \<Rightarrow> bool \<Rightarrow> 'f set \<Rightarrow> ('p, 'f) FactTable \<Rightarrow> 'f \<Rightarrow> 'f FactChange list" where
  "extended_report cum p u r listed t k =
     report_change k (slot_or_default t k) (extend_slot cum p u k (k \<in> listed) (slot_or_default t k))
       (content_movement cum k (FactSlot_revision (slot_or_default t k))
         (FactSlot_revision (extend_slot cum p u k (k \<in> listed) (slot_or_default t k))) r False)"

lemma extend_loop_Cons:
  "extend_loop cum p u r (key # keys) listed t =
     (let t1 = t\<lparr>slots := (slots t)(key \<mapsto> extend_slot cum p u key (key \<in> listed) (slot_or_default t key))\<rparr>
      in (extended_report cum p u r listed t key @ fst (extend_loop cum p u r keys (listed - {key}) t1),
          snd (extend_loop cum p u r keys (listed - {key}) t1)))"
  by (simp add: Let_def extended_report_def case_prod_beta)

declare extend_loop.simps(2) [simp del]

lemma slot_or_default_upd:
  "slot_or_default (t\<lparr>slots := (slots t)(key \<mapsto> s)\<rparr>) k = (if k = key then s else slot_or_default t k)"
  by (simp add: slot_or_default_def)

lemma extend_loop_slots:
  "distinct keys \<Longrightarrow> slots (snd (extend_loop cum p u r keys listed t)) k =
     (if k \<in> set keys then Some (extend_slot cum p u k (k \<in> listed) (slot_or_default t k)) else slots t k)"
proof (induction keys arbitrary: listed t)
  case (Cons key keys)
  then show ?case
    by (cases "k = key") (simp_all add: extend_loop_Cons Let_def slot_or_default_upd)
qed simp

lemma extend_loop_changes:
  "distinct keys \<Longrightarrow> fst (extend_loop cum p u r keys listed t) =
     concat (map (extended_report cum p u r listed t) keys)"
proof (induction keys arbitrary: listed t)
  case (Cons key keys)
  have same: "map (extended_report cum p u r (listed - {key}) (t\<lparr>slots := (slots t)(key \<mapsto> s)\<rparr>)) keys =
      map (extended_report cum p u r listed t) keys" for s
    using Cons.prems by (intro map_cong) (auto simp: extended_report_def slot_or_default_upd)
  from Cons show ?case by (simp add: extend_loop_Cons Let_def same)
qed simp

definition dirtied_slot :: "'p \<Rightarrow> 'p FactSlot \<Rightarrow> 'p FactSlot" where
  "dirtied_slot publisher slot =
     (if publisher \<in> publishers slot
      then slot\<lparr>dirty_publishers := insert publisher (dirty_publishers slot)\<rparr> else slot)"

definition dirtied_report :: "'p \<Rightarrow> ('p, 'f) FactTable \<Rightarrow> 'f \<Rightarrow> 'f FactChange list" where
  "dirtied_report p t k = report_change k (slot_or_default t k) (dirtied_slot p (slot_or_default t k)) None"

lemma report_change_same [simp]: "report_change k s s m = []"
  by (simp add: report_change_def)

lemma dirtied_slot_idle: "p \<notin> publishers s \<or> p \<in> dirty_publishers s \<Longrightarrow> dirtied_slot p s = s"
  by (auto simp: dirtied_slot_def insert_absorb)

definition dirtied_table :: "'p \<Rightarrow> 'f \<Rightarrow> ('p, 'f) FactTable \<Rightarrow> ('p, 'f) FactTable" where
  "dirtied_table p key t = t\<lparr>slots := (slots t)(key := map_option (dirtied_slot p) (slots t key))\<rparr>"

lemma mark_dirty_loop_Cons:
  "mark_dirty_loop p (key # keys) t =
     (dirtied_report p t key @ fst (mark_dirty_loop p keys (dirtied_table p key t)),
      snd (mark_dirty_loop p keys (dirtied_table p key t)))"
proof (cases "slots t key")
  case None
  then have "dirtied_table p key t = t" by (simp add: dirtied_table_def fun_upd_idem)
  with None show ?thesis
    by (simp add: dirtied_report_def slot_or_default_def dirtied_slot_def FactSlot_default_def)
next
  case (Some slot)
  show ?thesis
  proof (cases "p \<notin> publishers slot \<or> p \<in> dirty_publishers slot")
    case True
    with Some have "dirtied_table p key t = t"
      by (simp add: dirtied_table_def dirtied_slot_idle fun_upd_idem)
    with Some True show ?thesis by (simp add: dirtied_report_def slot_or_default_def dirtied_slot_idle)
  next
    case False
    with Some show ?thesis
      by (simp add: Let_def dirtied_table_def dirtied_report_def slot_or_default_def dirtied_slot_def case_prod_beta)
  qed
qed

declare mark_dirty_loop.simps(2) [simp del]

lemma slot_or_default_dirtied:
  "slot_or_default (dirtied_table p key t) k =
     (if k = key then dirtied_slot p (slot_or_default t k) else slot_or_default t k)"
  by (auto simp: slot_or_default_def dirtied_table_def dirtied_slot_def FactSlot_default_def split: option.splits)

lemma mark_dirty_loop_slots:
  "distinct keys \<Longrightarrow> slots (snd (mark_dirty_loop p keys t)) k =
     (if k \<in> set keys then map_option (dirtied_slot p) (slots t k) else slots t k)"
proof (induction keys arbitrary: t)
  case (Cons key keys)
  then show ?case
    by (cases "k = key") (simp_all add: mark_dirty_loop_Cons dirtied_table_def)
qed simp

lemma mark_dirty_loop_changes:
  "distinct keys \<Longrightarrow> fst (mark_dirty_loop p keys t) = concat (map (dirtied_report p t) keys)"
proof (induction keys arbitrary: t)
  case (Cons key keys)
  have same: "map (dirtied_report p (dirtied_table p key t)) keys = map (dirtied_report p t) keys"
    using Cons.prems by (intro map_cong) (auto simp: dirtied_report_def slot_or_default_dirtied)
  from Cons show ?case by (simp add: mark_dirty_loop_Cons same)
qed simp

section \<open>Well-formed tables\<close>

definition slot_wf :: "'p FactSlot \<Rightarrow> bool" where
  [wf_defs]: "slot_wf s \<longleftrightarrow> finite (publishers s) \<and> dirty_publishers s \<subseteq> publishers s \<and>
     unfinal_publishers s \<subseteq> publishers s"

definition ft_wf :: "('p, 'f) FactTable \<Rightarrow> bool" where
  [wf_defs]: "ft_wf t \<longleftrightarrow> finite (dom (slots t)) \<and>
     (\<forall>k s. slots t k = Some s \<longrightarrow> slot_wf s \<and> publishers s \<noteq> {})"

lemma ft_wf_new [simp]: "ft_wf FactTable_new"
  by (simp add: ft_wf_def FactTable_new_def)

lemma slot_wf_default [simp]: "slot_wf FactSlot_default"
  by (simp add: slot_wf_def FactSlot_default_def)

lemma slot_wf_or_default: "ft_wf t \<Longrightarrow> slot_wf (slot_or_default t k)"
  by (simp add: slot_or_default_def ft_wf_def split: option.split)

lemma publishers_claim [simp]: "publishers (claim_slot cum p u k l s) = insert p (publishers s)"
  by (simp add: claim_slot_def Let_def)

lemma publishers_withdraw [simp]: "publishers (withdraw_slot p l s) = publishers s - {p}"
  by (simp add: withdraw_slot_def Let_def)

lemma publishers_extend [simp]: "publishers (extend_slot cum p u k l s) = insert p (publishers s)"
  by (simp add: extend_slot_def Let_def)

lemma publishers_dirtied [simp]: "publishers (dirtied_slot p s) = publishers s"
  by (simp add: dirtied_slot_def)

lemma slot_wf_ops [simp]:
  assumes "slot_wf s"
  shows "slot_wf (claim_slot cum p u k l s)" "slot_wf (withdraw_slot p l s)"
    "slot_wf (extend_slot cum p u k l s)" "slot_wf (dirtied_slot p s)"
  using assms
  by (auto simp: slot_wf_def claim_slot_def withdraw_slot_def extend_slot_def dirtied_slot_def
      set_membership_def Let_def)

lemma ft_wfI:
  assumes "\<And>k. slots t' k = (if k \<in> set ks then f k else slots t k)" and "ft_wf t"
    and "\<And>k s. k \<in> set ks \<Longrightarrow> f k = Some s \<Longrightarrow> slot_wf s \<and> publishers s \<noteq> {}"
  shows "ft_wf t'"
proof -
  have "dom (slots t') \<subseteq> dom (slots t) \<union> set ks" by (auto simp: assms(1) split: if_splits)
  then have "finite (dom (slots t'))" using assms(2) by (simp add: ft_wf_def finite_subset)
  with assms show ?thesis by (auto simp: ft_wf_def split: if_splits)
qed

lemma replaced_slot_wf: "ft_wf t \<Longrightarrow> slot_wf (replaced_slot cum p outs u listed t k)"
  by (simp add: replaced_slot_def slot_wf_or_default)

lemma ft_wf_replace_loop:
  assumes "ft_wf t" "distinct keys"
  shows "ft_wf (snd (replace_loop cum p ok u r keys listed t))"
  using assms
  by (intro ft_wfI [OF replace_loop_slots]) (auto simp: nonempty_slot_def replaced_slot_wf split: if_splits)

lemma ft_wf_extend_loop:
  assumes "ft_wf t" "distinct keys"
  shows "ft_wf (snd (extend_loop cum p u r keys listed t))"
  using assms by (intro ft_wfI [OF extend_loop_slots]) (auto simp: slot_wf_or_default)

lemma ft_wf_mark_dirty_loop:
  assumes "ft_wf t" "distinct keys"
  shows "ft_wf (snd (mark_dirty_loop p keys t))"
  using assms by (intro ft_wfI [OF mark_dirty_loop_slots]) (auto simp: ft_wf_def)

lemma set_publisher_unfinal_slots:
  "slots (snd (FactTable_set_publisher_unfinal key p u t)) k =
     (if k = key then map_option (\<lambda>s. if p \<in> publishers s
        then s\<lparr>unfinal_publishers := set_membership (unfinal_publishers s) p u\<rparr> else s) (slots t k)
      else slots t k)"
  by (auto simp: FactTable_set_publisher_unfinal_def Let_def split: option.split)

lemma slot_wf_unfinal [simp]:
  "slot_wf s \<Longrightarrow> p \<in> publishers s \<Longrightarrow>
   slot_wf (s\<lparr>unfinal_publishers := set_membership (unfinal_publishers s) p u\<rparr>)"
  by (auto simp: slot_wf_def set_membership_def)

lemma ft_wf_set_publisher_unfinal:
  assumes "ft_wf t"
  shows "ft_wf (snd (FactTable_set_publisher_unfinal key p u t))"
proof (rule ft_wfI [where ks = "[key]" and t = t])
  show "slots (snd (FactTable_set_publisher_unfinal key p u t)) k =
    (if k \<in> set [key] then map_option (\<lambda>s. if p \<in> publishers s
        then s\<lparr>unfinal_publishers := set_membership (unfinal_publishers s) p u\<rparr> else s) (slots t k)
      else slots t k)" for k
    by (simp add: set_publisher_unfinal_slots)
qed (use assms in \<open>auto simp: ft_wf_def split: if_splits\<close>)

text \<open>What a successful publication computes, in terms of the loops.\<close>

lemma replace_outputs_Inr:
  assumes "FactTable_replace_outputs_after_run cum p prev outs listed u r t = Inr (fr, t')"
  shows "distinct outs \<and> distinct listed \<and> os_wf (fr_output_keys fr) \<and>
    os_order (fr_output_keys fr) = outs \<and> os_members (fr_output_keys fr) = set outs \<and>
    set listed \<subseteq> set outs \<union> os_members prev \<and>
    fr_changed fr = fst (replace_loop cum p (fr_output_keys fr) u r
      (OrderedSet_iter (OrderedSet_from_iter (outs @ os_order prev))) (set listed) t) \<and>
    t' = snd (replace_loop cum p (fr_output_keys fr) u r
      (OrderedSet_iter (OrderedSet_from_iter (outs @ os_order prev))) (set listed) t)"
proof -
  obtain ok where ok: "collect_unique DuplicateOutput OrderedSet_default outs = Inr ok"
    using assms by (auto simp: FactTable_replace_outputs_after_run_def split: sum.splits)
  obtain cs where cs: "collect_unique DuplicateChanged OrderedSet_default listed = Inr cs"
    using assms ok by (auto simp: FactTable_replace_outputs_after_run_def split: sum.splits)
  from collect_unique_Inr [OF ok] collect_unique_Inr [OF cs]
  have facts: "os_wf ok" "os_order ok = outs" "os_members ok = set outs" "distinct outs"
    "os_order cs = listed" "os_members cs = set listed" "distinct listed" by auto
  with assms ok cs show ?thesis
    by (auto simp: FactTable_replace_outputs_after_run_def OrderedSet_iter_def OrderedSet_contains_def
        Let_def case_prod_beta split: if_splits)
qed

lemma extend_outputs_Inr:
  assumes "FactTable_extend_outputs_after_run cum p outs listed u r t = Inr (fr, t')"
  shows "distinct outs \<and> os_wf (fr_output_keys fr) \<and>
    os_order (fr_output_keys fr) = outs \<and> os_members (fr_output_keys fr) = set outs \<and>
    fr_changed fr = fst (extend_loop cum p u r outs (set listed) t) \<and>
    t' = snd (extend_loop cum p u r outs (set listed) t)"
proof -
  obtain ok where ok: "collect_unique DuplicateOutput OrderedSet_default outs = Inr ok"
    using assms by (auto simp: FactTable_extend_outputs_after_run_def split: sum.splits)
  obtain cs where cs: "collect_unique DuplicateChanged OrderedSet_default listed = Inr cs"
    using assms ok by (auto simp: FactTable_extend_outputs_after_run_def split: sum.splits)
  from collect_unique_Inr [OF ok] collect_unique_Inr [OF cs]
  have "os_wf ok" "os_order ok = outs" "os_members ok = set outs" "distinct outs"
    "os_members cs = set listed" by auto
  with assms ok cs show ?thesis
    by (auto simp: FactTable_extend_outputs_after_run_def OrderedSet_iter_def Let_def case_prod_beta)
qed

lemma distinct_touched [simp]: "distinct (OrderedSet_iter (OrderedSet_from_iter vs))"
  using os_wf_from_iter [of vs] by (simp add: os_wf_def OrderedSet_iter_def)

lemma set_touched [simp]: "set (OrderedSet_iter (OrderedSet_from_iter vs)) = set vs"
  using os_wf_from_iter [of vs] by (simp add: os_wf_def OrderedSet_iter_def)

lemma ft_wf_mark_dirty: "ft_wf t \<Longrightarrow> os_wf ks \<Longrightarrow> ft_wf (snd (FactTable_mark_dirty p ks t))"
  by (simp add: FactTable_mark_dirty_def ft_wf_mark_dirty_loop os.distinct_items)

lemma ft_wf_replace_outputs:
  "ft_wf t \<Longrightarrow> FactTable_replace_outputs_after_run cum p prev outs listed u r t = Inr (fr, t') \<Longrightarrow> ft_wf t'"
  using replace_outputs_Inr ft_wf_replace_loop by (metis distinct_touched)

lemma ft_wf_extend_outputs:
  "ft_wf t \<Longrightarrow> FactTable_extend_outputs_after_run cum p outs listed u r t = Inr (fr, t') \<Longrightarrow> ft_wf t'"
  using extend_outputs_Inr ft_wf_extend_loop by metis

section \<open>What publishing does to a fact\<close>

lemma FactTable_publishers_slot: "FactTable_publishers t k = publishers (slot_or_default t k)"
  by (simp add: FactTable_publishers_def slot_or_default_def FactSlot_default_def split: option.split)

text \<open>When a publication returns.\<close>

lemma collect_both:
  assumes "distinct outs" and "distinct listed"
  obtains ok cs where "collect_unique DuplicateOutput OrderedSet_default outs = Inr ok"
    "collect_unique DuplicateChanged OrderedSet_default listed = Inr cs"
    "os_members ok = set outs" "os_order cs = listed"
proof -
  obtain ok cs where oc: "collect_unique DuplicateOutput OrderedSet_default outs = Inr ok"
    "collect_unique DuplicateChanged OrderedSet_default listed = Inr cs"
    using collect_unique_total [of outs OrderedSet_default DuplicateOutput]
      collect_unique_total [of listed OrderedSet_default DuplicateChanged] assms by auto
  from that [OF oc] collect_unique_Inr [OF oc(1) os_wf_default] collect_unique_Inr [OF oc(2) os_wf_default] show thesis
    by (simp add: OrderedSet_default_def)
qed

lemma replace_outputs_returns:
  assumes "distinct outs" and "distinct listed" and "set listed \<subseteq> set outs \<union> os_members prev"
  shows "\<exists>fr t'. FactTable_replace_outputs_after_run cum p prev outs listed u r t = Inr (fr, t')"
proof -
  obtain ok cs where "collect_unique DuplicateOutput OrderedSet_default outs = Inr ok"
    "collect_unique DuplicateChanged OrderedSet_default listed = Inr cs"
    "os_members ok = set outs" "os_order cs = listed" using collect_both [OF assms(1,2)] .
  with assms(3) show ?thesis
    by (auto simp: FactTable_replace_outputs_after_run_def OrderedSet_iter_def OrderedSet_contains_def
        Let_def case_prod_beta)
qed

lemma extend_outputs_returns:
  assumes "distinct outs" and "distinct listed"
  shows "\<exists>fr t'. FactTable_extend_outputs_after_run cum p outs listed u r t = Inr (fr, t')"
proof -
  obtain ok cs where "collect_unique DuplicateOutput OrderedSet_default outs = Inr ok"
    "collect_unique DuplicateChanged OrderedSet_default listed = Inr cs" using collect_both [OF assms] by blast
  then show ?thesis by (simp add: FactTable_extend_outputs_after_run_def Let_def case_prod_beta)
qed

text \<open>The table after a conclusion and after an extension, slot by slot.\<close>

lemma replace_slots:
  assumes run: "FactTable_replace_outputs_after_run cum p prev outs listed u r t = Inr (fr, t')" and "os_wf prev"
  shows "slots t' k = (if k \<in> set outs \<union> os_members prev
    then nonempty_slot (replaced_slot cum p (set outs) u (set listed) t k) else slots t k)"
proof -
  from replace_outputs_Inr [OF run] have m: "os_members (fr_output_keys fr) = set outs"
    and t': "t' = snd (replace_loop cum p (fr_output_keys fr) u r
      (OrderedSet_iter (OrderedSet_from_iter (outs @ os_order prev))) (set listed) t)" by auto
  show ?thesis by (auto simp: t' m replace_loop_slots os_set_order [OF assms(2)])
qed

lemma replace_publishers:
  assumes run: "FactTable_replace_outputs_after_run cum p prev outs listed u r t = Inr (fr, t')" and "os_wf prev"
    and "\<forall>k. p \<in> FactTable_publishers t k \<longrightarrow> k \<in> os_members prev"
  shows "(\<forall>k. p \<in> FactTable_publishers t' k \<longleftrightarrow> k \<in> set outs) \<and>
    (\<forall>k q. q \<noteq> p \<longrightarrow> (q \<in> FactTable_publishers t' k \<longleftrightarrow> q \<in> FactTable_publishers t k))"
proof -
  have "FactTable_publishers t' k =
      (if k \<in> set outs \<union> os_members prev
       then publishers (replaced_slot cum p (set outs) u (set listed) t k)
       else FactTable_publishers t k)" for k
    by (auto simp: FactTable_publishers_def replace_slots [OF run assms(2)] nonempty_slot_def)
  with assms(3) show ?thesis
    by (auto simp: FactTable_publishers_slot replaced_slot_def)
qed

lemma extend_slots:
  assumes run: "FactTable_extend_outputs_after_run cum p outs listed u r t = Inr (fr, t')"
  shows "slots t' k = (if k \<in> set outs then Some (extend_slot cum p u k (k \<in> set listed) (slot_or_default t k)) else slots t k)"
  using extend_outputs_Inr [OF run] by (auto simp: extend_loop_slots)

lemma FactTable_state_slot:
  "FactTable_state t k = \<lparr>fs_revision = FactSlot_revision (slot_or_default t k),
     fs_settled = FactSlot_is_settled (slot_or_default t k)\<rparr>"
  by (simp add: FactTable_state_def slot_or_default_def FactSlot_default_def slot_simps split: option.split)

lemma slot_or_default_nonempty:
  "slots t k = nonempty_slot s \<Longrightarrow>
   publishers (slot_or_default t k) = publishers s \<and>
   FactSlot_revision (slot_or_default t k) = FactSlot_revision s \<and>
   FactSlot_is_settled (slot_or_default t k) = FactSlot_is_settled s"
  by (auto simp: slot_or_default_def nonempty_slot_def FactSlot_default_def slot_simps)

text \<open>
  A list of changes is exact for a move of the table when it has one entry for each fact
  whose visible state moved, no entry for any other, and each entry carries the two states.
\<close>

definition changes_exact ::
  "('p, 'f) FactTable \<Rightarrow> 'f FactChange list \<Rightarrow> ('p, 'f) FactTable \<Rightarrow> bool" where
  "changes_exact t cs t' \<longleftrightarrow> distinct (map fc_key cs) \<and>
     (\<forall>k. k \<in> fc_key ` set cs \<longleftrightarrow> FactTable_state t k \<noteq> FactTable_state t' k) \<and>
     (\<forall>c. c \<in> set cs \<longrightarrow>
        FactTable_state t (fc_key c) = \<lparr>fs_revision = fc_old_revision c, fs_settled = fc_old_settled c\<rparr> \<and>
        FactTable_state t' (fc_key c) = \<lparr>fs_revision = fc_new_revision c, fs_settled = fc_new_settled c\<rparr>)"

lemma report_change_cases:
  "report_change k old new m = [] \<and> FactSlot_revision old = FactSlot_revision new \<and>
     FactSlot_is_settled old = FactSlot_is_settled new \<or>
   (FactSlot_revision old \<noteq> FactSlot_revision new \<or> FactSlot_is_settled old \<noteq> FactSlot_is_settled new) \<and>
   report_change k old new m = [\<lparr>fc_key = k, fc_old_revision = FactSlot_revision old,
     fc_new_revision = FactSlot_revision new, fc_old_settled = FactSlot_is_settled old,
     fc_new_settled = FactSlot_is_settled new, fc_content_movement = m\<rparr>]"
  by (auto simp: report_change_def)

lemma map_fc_key_report:
  "map fc_key (concat (map (\<lambda>k. report_change k (old k) (new k) (m k)) ks)) =
     filter (\<lambda>k. FactSlot_revision (old k) \<noteq> FactSlot_revision (new k) \<or>
       FactSlot_is_settled (old k) \<noteq> FactSlot_is_settled (new k)) ks"
  by (induction ks) (auto simp: report_change_def)

lemma changes_exact_reports:
  assumes ks: "distinct ks"
    and old: "\<And>k. FactTable_state t k = \<lparr>fs_revision = FactSlot_revision (old k), fs_settled = FactSlot_is_settled (old k)\<rparr>"
    and new: "\<And>k. k \<in> set ks \<Longrightarrow>
      FactTable_state t' k = \<lparr>fs_revision = FactSlot_revision (new k), fs_settled = FactSlot_is_settled (new k)\<rparr>"
    and frame: "\<And>k. k \<notin> set ks \<Longrightarrow> FactTable_state t' k = FactTable_state t k"
  shows "changes_exact t (concat (map (\<lambda>k. report_change k (old k) (new k) (m k)) ks)) t'"
proof -
  let ?cs = "concat (map (\<lambda>k. report_change k (old k) (new k) (m k)) ks)"
  have "distinct (map fc_key ?cs)" using ks by (simp add: map_fc_key_report)
  moreover have "k \<in> fc_key ` set ?cs \<longleftrightarrow> FactTable_state t k \<noteq> FactTable_state t' k" for k
  proof -
    have "k \<in> fc_key ` set ?cs \<longleftrightarrow> k \<in> set (map fc_key ?cs)" by simp
    also have "\<dots> \<longleftrightarrow> FactTable_state t k \<noteq> FactTable_state t' k"
      using old [of k] new [of k] frame [of k] by (cases "k \<in> set ks") (auto simp: map_fc_key_report)
    finally show ?thesis .
  qed
  moreover have "FactTable_state t (fc_key c) = \<lparr>fs_revision = fc_old_revision c, fs_settled = fc_old_settled c\<rparr> \<and>
      FactTable_state t' (fc_key c) = \<lparr>fs_revision = fc_new_revision c, fs_settled = fc_new_settled c\<rparr>"
    if "c \<in> set ?cs" for c
    using that old new by (fastforce simp: report_change_def split: if_splits)
  ultimately show ?thesis by (simp add: changes_exact_def)
qed

lemma replace_loop_exact:
  assumes "distinct keys"
  shows "changes_exact t (fst (replace_loop cum p ok u r keys listed t)) (snd (replace_loop cum p ok u r keys listed t))"
proof -
  let ?t' = "snd (replace_loop cum p ok u r keys listed t)"
  have "FactTable_state ?t' k = \<lparr>fs_revision = FactSlot_revision (replaced_slot cum p (os_members ok) u listed t k),
      fs_settled = FactSlot_is_settled (replaced_slot cum p (os_members ok) u listed t k)\<rparr>" if "k \<in> set keys" for k
    using slot_or_default_nonempty [of ?t' k "replaced_slot cum p (os_members ok) u listed t k"]
    by (simp add: FactTable_state_slot replace_loop_slots assms that)
  moreover have "FactTable_state ?t' k = FactTable_state t k" if "k \<notin> set keys" for k
    using that by (simp add: FactTable_state_def replace_loop_slots assms)
  ultimately show ?thesis
    using changes_exact_reports [OF assms FactTable_state_slot, where t' = ?t']
    by (simp add: replace_loop_changes assms replaced_report_def [abs_def])
qed

lemma extend_loop_exact:
  assumes "distinct keys"
  shows "changes_exact t (fst (extend_loop cum p u r keys listed t)) (snd (extend_loop cum p u r keys listed t))"
proof -
  let ?t' = "snd (extend_loop cum p u r keys listed t)"
  have "FactTable_state ?t' k = \<lparr>fs_revision = FactSlot_revision (extend_slot cum p u k (k \<in> listed) (slot_or_default t k)),
      fs_settled = FactSlot_is_settled (extend_slot cum p u k (k \<in> listed) (slot_or_default t k))\<rparr>" if "k \<in> set keys" for k
    by (simp add: FactTable_state_def extend_loop_slots assms that)
  moreover have "FactTable_state ?t' k = FactTable_state t k" if "k \<notin> set keys" for k
    using that by (simp add: FactTable_state_def extend_loop_slots assms)
  ultimately show ?thesis
    using changes_exact_reports [OF assms FactTable_state_slot, where t' = ?t']
    by (simp add: extend_loop_changes assms extended_report_def [abs_def])
qed

lemma mark_dirty_loop_exact:
  assumes "distinct keys"
  shows "changes_exact t (fst (mark_dirty_loop p keys t)) (snd (mark_dirty_loop p keys t))"
proof -
  let ?t' = "snd (mark_dirty_loop p keys t)"
  have "slot_or_default ?t' k = dirtied_slot p (slot_or_default t k)" if "k \<in> set keys" for k
    by (auto simp: slot_or_default_def mark_dirty_loop_slots assms that dirtied_slot_def FactSlot_default_def
        split: option.splits)
  moreover have "FactTable_state ?t' k = FactTable_state t k" if "k \<notin> set keys" for k
    using that by (simp add: FactTable_state_def mark_dirty_loop_slots assms)
  ultimately show ?thesis
    using changes_exact_reports [OF assms FactTable_state_slot, where t' = ?t']
    by (simp add: FactTable_state_slot mark_dirty_loop_changes assms dirtied_report_def [abs_def])
qed

lemma set_publisher_unfinal_exact:
  "changes_exact t (case fst (FactTable_set_publisher_unfinal k p u t) of None \<Rightarrow> [] | Some c \<Rightarrow> [c])
     (snd (FactTable_set_publisher_unfinal k p u t))"
  by (auto simp: changes_exact_def FactTable_set_publisher_unfinal_def FactTable_state_def slot_simps Let_def
      split: option.splits if_splits)

section \<open>The contract of the fact table\<close>

text \<open>
  every operation of the fact table keeps it well formed: no slot without a
  publisher, and only publishers of a fact are dirty or unfinal for it.
\<close>

theorem FactTable_operations_preserve_wf:
  assumes "ft_wf t" and "os_wf keys"
  shows "(\<forall>fr t'. FactTable_replace_outputs_after_run cum p keys outs listed u r t = Inr (fr, t') \<longrightarrow> ft_wf t') \<and>
    (\<forall>fr t'. FactTable_extend_outputs_after_run cum p outs listed u r t = Inr (fr, t') \<longrightarrow> ft_wf t') \<and>
    ft_wf (snd (FactTable_set_publisher_unfinal k p u t)) \<and>
    ft_wf (snd (FactTable_mark_dirty p keys t))"
proof (intro conjI allI impI)
  fix fr t'
  assume "FactTable_replace_outputs_after_run cum p keys outs listed u r t = Inr (fr, t')"
  with assms(1) show "ft_wf t'" by (rule ft_wf_replace_outputs)
next
  fix fr t'
  assume "FactTable_extend_outputs_after_run cum p outs listed u r t = Inr (fr, t')"
  with assms(1) show "ft_wf t'" by (rule ft_wf_extend_outputs)
qed (use assms in \<open>simp_all add: ft_wf_set_publisher_unfinal ft_wf_mark_dirty\<close>)

theorem FactTable_operations_preserve_wf_witness:
  "ft_wf (FactTable_new :: (nat, nat) FactTable) \<and>
   ft_wf (snd (FactTable_mark_dirty (7::nat) OrderedSet_default (FactTable_new :: (nat, nat) FactTable)))"
  using FactTable_operations_preserve_wf [OF ft_wf_new os_wf_default, where p = "7::nat", of "\<lambda>_. True"]
  by (metis ft_wf_new)

text \<open>
  After a publisher's conclusion its claims are exactly the outputs it listed: it
  owns every listed fact, has withdrawn from every other it owned before, and no other
  publisher's claim on any fact has moved.
\<close>

theorem FactTable_replace_owns_exactly_outputs:
  assumes run: "FactTable_replace_outputs_after_run cum p prev outs listed u r t = Inr (fr, t')"
    and prev: "os_wf prev" "\<forall>k. p \<in> FactTable_publishers t k \<longrightarrow> k \<in> os_members prev"
  shows "os_members (fr_output_keys fr) = set outs \<and>
    (\<forall>k. p \<in> FactTable_publishers t' k \<longleftrightarrow> k \<in> set outs) \<and>
    (\<forall>k q. q \<noteq> p \<longrightarrow> (q \<in> FactTable_publishers t' k \<longleftrightarrow> q \<in> FactTable_publishers t k))"
  using replace_publishers [OF run prev(1)] prev(2) replace_outputs_Inr [OF run] by blast

theorem FactTable_replace_owns_exactly_outputs_witness:
  "\<exists>fr t'. FactTable_replace_outputs_after_run (\<lambda>_. False) (1::nat) OrderedSet_default [10::nat, 20] [10] False False
     FactTable_new = Inr (fr, t') \<and> 1 \<in> FactTable_publishers t' 20 \<and> 1 \<notin> FactTable_publishers t' 30"
proof -
  obtain fr t' where run: "FactTable_replace_outputs_after_run (\<lambda>_. False) (1::nat) OrderedSet_default
      [10::nat, 20] [10] False False FactTable_new = Inr (fr, t')"
    by (simp add: FactTable_replace_outputs_after_run_def collect_unique_Cons OrderedSet_insert_def
        OrderedSet_default_def OrderedSet_contains_def OrderedSet_iter_def case_prod_beta Let_def)
  from FactTable_replace_owns_exactly_outputs [OF run] run show ?thesis
    by (auto simp: FactTable_publishers_def FactTable_new_def)
qed

text \<open>
  C16: the change lists that drive every wake are exact: each operation reports one change
  per fact whose revision or settled bit moved, with its states before and after, and
  reports nothing else.
\<close>

theorem FactTable_reports_exactly_what_moved:
  assumes "os_wf keys"
  shows "(\<forall>fr t'. FactTable_replace_outputs_after_run cum p keys outs listed u r t = Inr (fr, t') \<longrightarrow>
      changes_exact t (fr_changed fr) t') \<and>
    (\<forall>fr t'. FactTable_extend_outputs_after_run cum p outs listed u r t = Inr (fr, t') \<longrightarrow>
      changes_exact t (fr_changed fr) t') \<and>
    changes_exact t (case fst (FactTable_set_publisher_unfinal k p u t) of None \<Rightarrow> [] | Some c \<Rightarrow> [c])
      (snd (FactTable_set_publisher_unfinal k p u t)) \<and>
    changes_exact t (fst (FactTable_mark_dirty p keys t)) (snd (FactTable_mark_dirty p keys t))"
proof (intro conjI allI impI)
  fix fr t'
  assume "FactTable_replace_outputs_after_run cum p keys outs listed u r t = Inr (fr, t')"
  from replace_outputs_Inr [OF this] show "changes_exact t (fr_changed fr) t'"
    using replace_loop_exact [OF distinct_touched] by metis
next
  fix fr t'
  assume "FactTable_extend_outputs_after_run cum p outs listed u r t = Inr (fr, t')"
  from extend_outputs_Inr [OF this] show "changes_exact t (fr_changed fr) t'"
    using extend_loop_exact by metis
next
  show "changes_exact t (fst (FactTable_mark_dirty p keys t)) (snd (FactTable_mark_dirty p keys t))"
    using assms by (simp add: FactTable_mark_dirty_def mark_dirty_loop_exact os.distinct_items)
qed (rule set_publisher_unfinal_exact)

theorem FactTable_reports_exactly_what_moved_witness:
  "changes_exact \<lparr>slots = [3 \<mapsto> \<lparr>publishers = {7::nat}, dirty_publishers = {}, unfinal_publishers = {}, slot_revision = 1\<rparr>]\<rparr>
     (fst (FactTable_mark_dirty (7::nat) (OrderedSet_from_iter [3::nat])
       \<lparr>slots = [3 \<mapsto> \<lparr>publishers = {7::nat}, dirty_publishers = {}, unfinal_publishers = {}, slot_revision = 1\<rparr>]\<rparr>))
     (snd (FactTable_mark_dirty 7 (OrderedSet_from_iter [3])
       \<lparr>slots = [3 \<mapsto> \<lparr>publishers = {7::nat}, dirty_publishers = {}, unfinal_publishers = {}, slot_revision = 1\<rparr>]\<rparr>))"
  by (rule FactTable_reports_exactly_what_moved [THEN conjunct2, THEN conjunct2, THEN conjunct2]) simp

text \<open>
  Revisions count content movements: a conclusion raises the revision of a fact that
  stays present by one exactly when it lists the fact as changed, mints a new fact at its
  appearance revision (0 only for a cumulative fact claimed without content), and retracts
  a fact only by its last publisher withdrawing.
\<close>

theorem FactTable_replace_revisions:
  assumes run: "FactTable_replace_outputs_after_run cum p prev outs listed u r t = Inr (fr, t')"
    and prev: "os_wf prev"
  shows "case (FactTable_revision t k, FactTable_revision t' k) of
      (Some a, Some b) \<Rightarrow> b = (if k \<in> set listed then a + 1 else a)
    | (None, Some b) \<Rightarrow> k \<in> set outs \<and> b = (if k \<in> set listed \<or> \<not> cum k then 1 else 0)
    | (Some a, None) \<Rightarrow> k \<notin> set outs \<and> FactTable_publishers t k = {p}
    | (None, None) \<Rightarrow> k \<notin> set outs"
proof -
  from replace_outputs_Inr [OF run] have m: "os_members (fr_output_keys fr) = set outs"
    and sub: "set listed \<subseteq> set outs \<union> os_members prev"
    and t': "t' = snd (replace_loop cum p (fr_output_keys fr) u r
      (OrderedSet_iter (OrderedSet_from_iter (outs @ os_order prev))) (set listed) t)" by auto
  have rev: "FactTable_revision t'' k = FactSlot_revision (slot_or_default t'' k)" for t'' :: "('b, 'a) FactTable"
    by (simp add: FactTable_revision_def slot_or_default_def FactSlot_default_def slot_simps split: option.split)
  have new: "FactTable_revision t' k =
      (if k \<in> set outs \<union> os_members prev
       then FactSlot_revision (replaced_slot cum p (set outs) u (set listed) t k)
       else FactTable_revision t k)"
    using slot_or_default_nonempty [of t' k "replaced_slot cum p (set outs) u (set listed) t k"]
    by (auto simp: rev t' m replace_loop_slots os_set_order [OF prev] slot_or_default_def)
  show ?thesis
    unfolding new using sub
    by (auto simp: rev FactTable_publishers_slot replaced_slot_def slot_simps claim_slot_def withdraw_slot_def
        appearance_revision_def Let_def split: option.splits if_splits)
qed

theorem FactTable_replace_revisions_witness:
  "\<exists>fr t'. FactTable_replace_outputs_after_run (\<lambda>_. True) (1::nat) OrderedSet_default [10::nat, 20] [10] False False
     FactTable_new = Inr (fr, t') \<and> FactTable_revision t' 10 = Some 1 \<and> FactTable_revision t' 20 = Some 0"
proof -
  obtain fr t' where run: "FactTable_replace_outputs_after_run (\<lambda>_. True) (1::nat) OrderedSet_default
      [10::nat, 20] [10] False False FactTable_new = Inr (fr, t')"
    by (simp add: FactTable_replace_outputs_after_run_def collect_unique_Cons OrderedSet_insert_def
        OrderedSet_default_def OrderedSet_contains_def OrderedSet_iter_def case_prod_beta Let_def)
  have none: "FactTable_revision (FactTable_new :: (nat, nat) FactTable) k = None" for k
    by (simp add: FactTable_revision_def FactTable_new_def)
  from run FactTable_replace_revisions [OF run os_wf_default, of 10]
    FactTable_replace_revisions [OF run os_wf_default, of 20] show ?thesis
    by (auto simp: none split: option.splits)
qed

text \<open>
  C32: a publication panics exactly when it repeats an output, repeats a changed key, or
  lists as changed a fact it neither publishes nor owned before; otherwise it returns.
\<close>

theorem FactTable_replace_panics_iff:
  "(\<exists>e. FactTable_replace_outputs_after_run cum p prev outs listed u r t = Inl e) \<longleftrightarrow>
   \<not> (distinct outs \<and> distinct listed \<and> set listed \<subseteq> set outs \<union> os_members prev)"
  using replace_outputs_returns [of outs listed prev cum p u r t] replace_outputs_Inr [of cum p prev outs listed u r t]
  by (cases "FactTable_replace_outputs_after_run cum p prev outs listed u r t") auto

end
