(* ===== verification/Fz_Deps.thy ===== *)
theory Fz_Deps
  imports Fz_Facts
begin

text \<open>
  The dependency index of \<open>src/compiler2/deps.rs\<close>: what each publisher reads and owns,
  what each job waits for, and the inverse indexes that find the readers and waiters of a
  fact. A loop over a hash set that touches one entry per element is the pointwise update
  of the map; the semantic orders of publishers, jobs and facts (trait
  \<open>SemanticOrd\<close>, a total order of identities) are the order of their types.
\<close>

section \<open>The semantic order of fact uses\<close>

text \<open>\<open>src/compiler2/semantic.rs\<close>: by fact first, then current before settled.\<close>

primrec readiness_rank :: "'f FactUse \<Rightarrow> nat" where
  "readiness_rank (Current f) = 0"
| "readiness_rank (Settled f) = 1"

definition FactUse_semantic_cmp :: "'f::linorder FactUse \<Rightarrow> 'f FactUse \<Rightarrow> ordering" where
  "FactUse_semantic_cmp a b =
     ordering_then (cmp_of (FactUse_fact a) (FactUse_fact b)) (cmp_of (readiness_rank a) (readiness_rank b))"

instantiation FactUse :: (linorder) linorder
begin

definition less_eq_FactUse :: "'a FactUse \<Rightarrow> 'a FactUse \<Rightarrow> bool" where
  "less_eq_FactUse a b \<longleftrightarrow> FactUse_semantic_cmp a b \<noteq> Greater"

definition less_FactUse :: "'a FactUse \<Rightarrow> 'a FactUse \<Rightarrow> bool" where
  "less_FactUse a b \<longleftrightarrow> FactUse_semantic_cmp a b = Less"

lemma FactUse_rank_inject:
  "FactUse_fact a = FactUse_fact b \<Longrightarrow> readiness_rank a = readiness_rank b \<Longrightarrow> a = b"
  by (cases a; cases b) auto

instance
proof
  fix x y z :: "'a FactUse"
  show "x < y \<longleftrightarrow> x \<le> y \<and> \<not> y \<le> x"
    by (auto simp: less_eq_FactUse_def less_FactUse_def FactUse_semantic_cmp_def)
  show "x \<le> x"
    by (auto simp: less_eq_FactUse_def FactUse_semantic_cmp_def)
  show "x \<le> y \<Longrightarrow> y \<le> z \<Longrightarrow> x \<le> z"
    by (auto simp: less_eq_FactUse_def FactUse_semantic_cmp_def)
  show "x \<le> y \<Longrightarrow> y \<le> x \<Longrightarrow> x = y"
    by (auto simp: less_eq_FactUse_def FactUse_semantic_cmp_def intro!: FactUse_rank_inject)
  show "x \<le> y \<or> y \<le> x"
    by (auto simp: less_eq_FactUse_def FactUse_semantic_cmp_def)
qed

end

section \<open>Inverse indexes\<close>

text \<open>Removing \<open>a\<close> from the entry of every key of \<open>bs\<close>, dropping entries left empty.\<close>

definition unindex :: "('b \<rightharpoonup> 'a OrderedSet) \<Rightarrow> 'b set \<Rightarrow> 'a \<Rightarrow> ('b \<rightharpoonup> 'a OrderedSet)" where
  "unindex idx bs a = (\<lambda>b. if b \<in> bs
     then (case idx b of None \<Rightarrow> None
           | Some s \<Rightarrow> let s' = OrderedSet_remove a s in if OrderedSet_is_empty s' then None else Some s')
     else idx b)"

text \<open>Adding \<open>a\<close> to the entry of every key of \<open>bs\<close> (\<open>entry(b).or_default().insert(a)\<close>).\<close>

definition index :: "('b \<rightharpoonup> 'a OrderedSet) \<Rightarrow> 'b set \<Rightarrow> 'a \<Rightarrow> ('b \<rightharpoonup> 'a OrderedSet)" where
  "index idx bs a = (\<lambda>b. if b \<in> bs
     then Some (snd (OrderedSet_insert a (case idx b of None \<Rightarrow> OrderedSet_default | Some s \<Rightarrow> s)))
     else idx b)"

definition indexed :: "('b \<rightharpoonup> 'a OrderedSet) \<Rightarrow> 'b \<Rightarrow> 'a set" where
  "indexed idx b = (case idx b of None \<Rightarrow> {} | Some s \<Rightarrow> os_members s)"

definition entries :: "('a \<rightharpoonup> 'b set) \<Rightarrow> 'a \<Rightarrow> 'b set" where
  "entries fwd a = (case fwd a of None \<Rightarrow> {} | Some bs \<Rightarrow> bs)"

definition inverse_index :: "('a \<rightharpoonup> 'b set) \<Rightarrow> ('b \<rightharpoonup> 'a OrderedSet) \<Rightarrow> bool" where
  [wf_defs]: "inverse_index fwd idx \<longleftrightarrow>
     (\<forall>a b. a \<in> indexed idx b \<longleftrightarrow> b \<in> entries fwd a) \<and>
     (\<forall>a. finite (entries fwd a)) \<and>
     (\<forall>b s. idx b = Some s \<longrightarrow> os_wf s \<and> os_members s \<noteq> {})"

lemma indexed_unindex:
  "(\<And>b s. idx b = Some s \<Longrightarrow> os_wf s) \<Longrightarrow>
   indexed (unindex idx bs a) b = (if b \<in> bs then indexed idx b - {a} else indexed idx b)"
  by (auto simp: indexed_def unindex_def Let_def os_is_empty_iff split: option.splits)

lemma indexed_index:
  "indexed (index idx bs a) b = (if b \<in> bs then insert a (indexed idx b) else indexed idx b)"
  by (auto simp: indexed_def index_def split: option.splits)

lemma entries_upd: "entries (fwd(a \<mapsto> bs)) a' = (if a' = a then bs else entries fwd a')"
  by (simp add: entries_def)

lemma unindex_nonempty:
  assumes "\<And>b s. idx b = Some s \<Longrightarrow> os_wf s \<and> os_members s \<noteq> {}" and "unindex idx bs a b = Some s"
  shows "os_wf s \<and> os_members s \<noteq> {}"
  using assms by (fastforce simp: unindex_def Let_def os_is_empty_iff split: if_splits option.splits)

lemma index_nonempty:
  assumes "\<And>b s. idx b = Some s \<Longrightarrow> os_wf s \<and> os_members s \<noteq> {}" and "index idx bs a b = Some s"
  shows "os_wf s \<and> os_members s \<noteq> {}"
  using assms by (auto simp: index_def split: if_splits option.splits)

lemma inverse_index_empty [simp]: "inverse_index Map.empty Map.empty"
  by (simp add: inverse_index_def indexed_def entries_def)

lemma inverse_index_drop:
  assumes "inverse_index fwd idx"
  shows "inverse_index (fwd(a := None)) (unindex idx (entries fwd a) a)"
proof -
  have wf: "\<And>b s. idx b = Some s \<Longrightarrow> os_wf s \<and> os_members s \<noteq> {}"
    and ix: "\<And>a b. a \<in> indexed idx b \<longleftrightarrow> b \<in> entries fwd a"
    and fin: "\<And>a. finite (entries fwd a)"
    using assms unfolding inverse_index_def by blast+
  have e: "entries (fwd(a := None)) a' = (if a' = a then {} else entries fwd a')" for a'
    by (simp add: entries_def)
  show ?thesis
    unfolding inverse_index_def
    using wf fin unindex_nonempty [of idx "entries fwd a" a, OF wf] by (auto simp: e indexed_unindex ix)
qed

lemma inverse_index_add:
  assumes "inverse_index fwd idx" and "finite bs"
  shows "inverse_index (fwd(a \<mapsto> entries fwd a \<union> bs)) (index idx bs a)"
proof -
  have wf: "\<And>b s. idx b = Some s \<Longrightarrow> os_wf s \<and> os_members s \<noteq> {}"
    and ix: "\<And>a b. a \<in> indexed idx b \<longleftrightarrow> b \<in> entries fwd a"
    and fin: "\<And>a. finite (entries fwd a)"
    using assms(1) unfolding inverse_index_def by blast+
  show ?thesis
    unfolding inverse_index_def
    using index_nonempty [of idx bs a, OF wf] fin assms(2) by (auto simp: entries_upd indexed_index ix)
qed

text \<open>The two steps of a replacement together.\<close>

lemma inverse_index_replace:
  assumes "inverse_index fwd idx" and "finite bs"
  shows "inverse_index (fwd(a \<mapsto> bs)) (index (unindex idx (entries fwd a) a) bs a)"
  using inverse_index_add [OF inverse_index_drop [OF assms(1), of a] assms(2), of a]
  by (simp add: entries_def)

section \<open>The dependency index\<close>

record ('p, 'j, 'f) DependencyIndex =
  dep_reads :: "'p \<rightharpoonup> 'f FactUse set"
  dep_subscribers :: "'f FactUse \<rightharpoonup> 'p OrderedSet"
  dep_waits :: "'j \<rightharpoonup> 'f FactUse set"
  dep_waiters :: "'f FactUse \<rightharpoonup> 'j OrderedSet"
  dep_outputs :: "'p \<rightharpoonup> 'f OrderedSet"
  dep_derivations :: "'j \<rightharpoonup> 'p OrderedSet"

record ('j, 'f) UnresolvedWait =
  uw_fact :: "'f FactUse"
  uw_jobs :: "'j list"

definition DependencyIndex_new :: "('p, 'j, 'f) DependencyIndex" where
  "DependencyIndex_new = \<lparr>dep_reads = Map.empty, dep_subscribers = Map.empty, dep_waits = Map.empty,
     dep_waiters = Map.empty, dep_outputs = Map.empty, dep_derivations = Map.empty\<rparr>"

definition nonempty_entry :: "('b \<rightharpoonup> 'a OrderedSet) \<Rightarrow> 'b \<Rightarrow> bool" where
  "nonempty_entry m b = (case m b of None \<Rightarrow> False | Some s \<Rightarrow> \<not> OrderedSet_is_empty s)"

definition has_consumers :: "('p, 'j, 'f) DependencyIndex \<Rightarrow> 'f \<Rightarrow> bool" where
  "has_consumers d key \<longleftrightarrow> (\<exists>usage \<in> {Current key, Settled key}.
     nonempty_entry (dep_subscribers d) usage \<or> nonempty_entry (dep_waiters d) usage)"

definition deps_reads :: "('p, 'j, 'f) DependencyIndex \<Rightarrow> 'p \<Rightarrow> 'f FactUse set option" where
  "deps_reads d publisher = dep_reads d publisher"

definition union_reads ::
  "'p \<Rightarrow> 'f FactUse set \<Rightarrow> ('p, 'j, 'f) DependencyIndex \<Rightarrow> ('p, 'j, 'f) DependencyIndex" where
  "union_reads publisher next_reads d =
     (let fresh = (case dep_reads d publisher of None \<Rightarrow> next_reads
                   | Some previous \<Rightarrow> {key \<in> next_reads. key \<notin> previous})
      in if fresh = {} then d
         else d\<lparr>dep_subscribers := index (dep_subscribers d) fresh publisher,
                dep_reads := (dep_reads d)(publisher \<mapsto> entries (dep_reads d) publisher \<union> fresh)\<rparr>)"

definition replace_reads ::
  "'p \<Rightarrow> 'f FactUse set \<Rightarrow> ('p, 'j, 'f) DependencyIndex \<Rightarrow> ('p, 'j, 'f) DependencyIndex" where
  "replace_reads publisher next_reads d =
     (let subs = (case dep_reads d publisher of None \<Rightarrow> dep_subscribers d
                  | Some previous \<Rightarrow> unindex (dep_subscribers d) previous publisher)
      in d\<lparr>dep_reads := (dep_reads d)(publisher \<mapsto> next_reads),
           dep_subscribers := index subs next_reads publisher\<rparr>)"

definition replace_waits ::
  "'j \<Rightarrow> 'f FactUse set \<Rightarrow> ('p, 'j, 'f) DependencyIndex \<Rightarrow> ('p, 'j, 'f) DependencyIndex" where
  "replace_waits job next_waits d =
     (let ws = (case dep_waits d job of None \<Rightarrow> dep_waiters d
                | Some previous \<Rightarrow> unindex (dep_waiters d) previous job)
      in d\<lparr>dep_waits := (dep_waits d)(job \<mapsto> next_waits),
           dep_waiters := index ws next_waits job\<rparr>)"

definition deps_replace_outputs ::
  "'p \<Rightarrow> 'f OrderedSet \<Rightarrow> ('p, 'j, 'f) DependencyIndex \<Rightarrow> ('p, 'j, 'f) DependencyIndex" where
  "deps_replace_outputs publisher next_outputs d =
     (if OrderedSet_is_empty next_outputs then d\<lparr>dep_outputs := (dep_outputs d)(publisher := None)\<rparr>
      else d\<lparr>dep_outputs := (dep_outputs d)(publisher \<mapsto> next_outputs)\<rparr>)"

definition deps_output_keys :: "('p, 'j, 'f) DependencyIndex \<Rightarrow> 'p \<Rightarrow> 'f OrderedSet" where
  "deps_output_keys d publisher =
     (case dep_outputs d publisher of None \<Rightarrow> OrderedSet_default | Some s \<Rightarrow> s)"

definition iter_entry :: "('b \<rightharpoonup> 'a OrderedSet) \<Rightarrow> 'b \<Rightarrow> 'a list" where
  "iter_entry m b = (case m b of None \<Rightarrow> [] | Some s \<Rightarrow> OrderedSet_iter s)"

definition subscribers :: "('p::linorder, 'j, 'f) DependencyIndex \<Rightarrow> 'f FactUse \<Rightarrow> 'p list" where
  "subscribers d fact_use = sort (iter_entry (dep_subscribers d) fact_use)"

definition waiters :: "('p, 'j::linorder, 'f) DependencyIndex \<Rightarrow> 'f FactUse \<Rightarrow> 'j list" where
  "waiters d fact_use = sort (iter_entry (dep_waiters d) fact_use)"

definition has_waiter :: "('p, 'j, 'f) DependencyIndex \<Rightarrow> 'f FactUse \<Rightarrow> bool" where
  "has_waiter d fact_use = nonempty_entry (dep_waiters d) fact_use"

definition readers_of :: "('p::linorder, 'j, 'f) DependencyIndex \<Rightarrow> 'f \<Rightarrow> 'p list" where
  "readers_of d key =
     sort (concat (map (iter_entry (dep_subscribers d)) [Current key, Settled key]))"

definition waits_for :: "('p, 'j, 'f) DependencyIndex \<Rightarrow> 'j \<Rightarrow> 'f FactUse set" where
  "waits_for d job = entries (dep_waits d) job"

definition deps_blocked :: "('p, 'j, 'f) DependencyIndex \<Rightarrow> 'j \<Rightarrow> bool" where
  "deps_blocked d job = (case dep_waits d job of None \<Rightarrow> False | Some ws \<Rightarrow> ws \<noteq> {})"

definition deps_has_run :: "('p, 'j, 'f) DependencyIndex \<Rightarrow> 'j \<Rightarrow> bool" where
  "deps_has_run d job \<longleftrightarrow> dep_waits d job \<noteq> None"

definition deps_has_unresolved :: "('p, 'j, 'f) DependencyIndex \<Rightarrow> bool" where
  "deps_has_unresolved d \<longleftrightarrow> dom (dep_waiters d) \<noteq> {}"

text \<open>The source returns a vector in the map's own iteration order; only its elements are meant.\<close>

definition deps_waited_settled_facts :: "('p, 'j, 'f) DependencyIndex \<Rightarrow> 'f set" where
  "deps_waited_settled_facts d =
     FactUse_fact ` {u \<in> dom (dep_waiters d). FactUse_readiness u = ReadinessSettled}"

definition deps_unresolved ::
  "('p, 'j::linorder, 'f::linorder) DependencyIndex \<Rightarrow> ('j, 'f) UnresolvedWait list" where
  "deps_unresolved d =
     map (\<lambda>u. \<lparr>uw_fact = u, uw_jobs = sort (iter_entry (dep_waiters d) u)\<rparr>)
       (sorted_list_of_set (dom (dep_waiters d)))"

definition derivations_of :: "('p, 'j, 'f) DependencyIndex \<Rightarrow> 'j \<Rightarrow> 'p OrderedSet" where
  "derivations_of d job = (case dep_derivations d job of None \<Rightarrow> OrderedSet_default | Some s \<Rightarrow> s)"

definition replace_derivations ::
  "'j \<Rightarrow> 'p OrderedSet \<Rightarrow> ('p, 'j, 'f) DependencyIndex \<Rightarrow> ('p, 'j, 'f) DependencyIndex" where
  "replace_derivations job next_set d =
     (if OrderedSet_is_empty next_set then d\<lparr>dep_derivations := (dep_derivations d)(job := None)\<rparr>
      else d\<lparr>dep_derivations := (dep_derivations d)(job \<mapsto> next_set)\<rparr>)"

definition forget :: "'p \<Rightarrow> ('p, 'j, 'f) DependencyIndex \<Rightarrow> ('p, 'j, 'f) DependencyIndex" where
  "forget publisher d =
     (let subs = (case dep_reads d publisher of None \<Rightarrow> dep_subscribers d
                  | Some previous \<Rightarrow> unindex (dep_subscribers d) previous publisher)
      in d\<lparr>dep_reads := (dep_reads d)(publisher := None), dep_subscribers := subs,
           dep_outputs := (dep_outputs d)(publisher := None)\<rparr>)"

section \<open>The invariant of the index\<close>

definition owned_sets :: "('a \<rightharpoonup> 'b OrderedSet) \<Rightarrow> bool" where
  [wf_defs]: "owned_sets m \<longleftrightarrow> (\<forall>a s. m a = Some s \<longrightarrow> os_wf s \<and> os_members s \<noteq> {})"

text \<open>
  Every subscription stands for a read and every waiter for a wait, with no empty entry left
  behind; stored output and derivation sets are non-empty.
\<close>

definition deps_wf :: "('p, 'j, 'f) DependencyIndex \<Rightarrow> bool" where
  [wf_defs]: "deps_wf d \<longleftrightarrow>
     inverse_index (dep_reads d) (dep_subscribers d) \<and>
     inverse_index (dep_waits d) (dep_waiters d) \<and>
     owned_sets (dep_outputs d) \<and> owned_sets (dep_derivations d)"

lemma owned_sets_upd:
  assumes "owned_sets m" and "os_wf s"
  shows "owned_sets (if OrderedSet_is_empty s then m(a := None) else m(a \<mapsto> s))"
  using assms by (auto simp: owned_sets_def os_is_empty_iff)

lemma owned_sets_drop: "owned_sets m \<Longrightarrow> owned_sets (m(a := None))"
  by (simp add: owned_sets_def)

lemma deps_wf_new: "deps_wf DependencyIndex_new"
  by (simp add: deps_wf_def DependencyIndex_new_def owned_sets_def)

lemma entries_None [simp]: "fwd a = None \<Longrightarrow> entries fwd a = {}"
  by (simp add: entries_def)

lemma entries_Some [simp]: "fwd a = Some bs \<Longrightarrow> entries fwd a = bs"
  by (simp add: entries_def)

lemma unindex_entries:
  "(case fwd a of None \<Rightarrow> m | Some previous \<Rightarrow> unindex m previous a) = unindex m (entries fwd a) a"
  by (auto simp: unindex_def split: option.splits)

lemma fresh_entries:
  "(case fwd a of None \<Rightarrow> bs | Some previous \<Rightarrow> {key \<in> bs. key \<notin> previous}) = bs - entries fwd a"
  by (auto split: option.splits)

lemma deps_wf_union_reads:
  "deps_wf d \<Longrightarrow> finite bs \<Longrightarrow> deps_wf (union_reads p bs d)"
  using inverse_index_add [of "dep_reads d" "dep_subscribers d" "bs - entries (dep_reads d) p" p]
  by (auto simp: deps_wf_def union_reads_def fresh_entries Let_def simp del: Un_Diff_cancel)

lemma deps_wf_replace_reads:
  "deps_wf d \<Longrightarrow> finite bs \<Longrightarrow> deps_wf (replace_reads p bs d)"
  by (simp add: deps_wf_def replace_reads_def unindex_entries inverse_index_replace)

lemma deps_wf_replace_waits:
  "deps_wf d \<Longrightarrow> finite bs \<Longrightarrow> deps_wf (replace_waits j bs d)"
  by (simp add: deps_wf_def replace_waits_def unindex_entries inverse_index_replace)

lemma deps_wf_replace_outputs:
  "deps_wf d \<Longrightarrow> os_wf s \<Longrightarrow> deps_wf (deps_replace_outputs p s d)"
  using owned_sets_upd [of "dep_outputs d" s p]
  by (auto simp: deps_wf_def deps_replace_outputs_def split: if_splits)

lemma deps_wf_replace_derivations:
  "deps_wf d \<Longrightarrow> os_wf s \<Longrightarrow> deps_wf (replace_derivations j s d)"
  using owned_sets_upd [of "dep_derivations d" s j]
  by (auto simp: deps_wf_def replace_derivations_def split: if_splits)

lemma deps_wf_forget: "deps_wf d \<Longrightarrow> deps_wf (forget p d)"
  by (simp add: deps_wf_def forget_def unindex_entries inverse_index_drop owned_sets_drop)

lemmas deps_wf_preserved = deps_wf_new deps_wf_union_reads deps_wf_replace_reads
  deps_wf_replace_waits deps_wf_replace_outputs deps_wf_replace_derivations deps_wf_forget

section \<open>What the operations read and leave\<close>

text \<open>The facts a publisher reads, and what it owns, seen through the lookups.\<close>

definition reads_of :: "('p, 'j, 'f) DependencyIndex \<Rightarrow> 'p \<Rightarrow> 'f FactUse set" where
  "reads_of d publisher = entries (dep_reads d) publisher"

lemma set_iter_entry:
  assumes "inverse_index fwd idx"
  shows "set (iter_entry idx b) = {a. b \<in> entries fwd a}" and "distinct (iter_entry idx b)"
proof -
  have wf: "\<And>b s. idx b = Some s \<Longrightarrow> os_wf s"
    and ix: "\<And>a. a \<in> indexed idx b \<longleftrightarrow> b \<in> entries fwd a"
    using assms unfolding inverse_index_def by blast+
  have "set (iter_entry idx b) = indexed idx b"
    using wf [of b] by (auto simp: iter_entry_def indexed_def OrderedSet_iter_def os_set_order split: option.splits)
  then show "set (iter_entry idx b) = {a. b \<in> entries fwd a}" using ix by auto
  show "distinct (iter_entry idx b)"
    using wf [of b] by (auto simp: iter_entry_def OrderedSet_iter_def os_wf_def split: option.splits)
qed

lemma nonempty_entry_iff:
  assumes "inverse_index fwd idx"
  shows "nonempty_entry idx b \<longleftrightarrow> (\<exists>a. b \<in> entries fwd a)"
proof -
  have wf: "\<And>b s. idx b = Some s \<Longrightarrow> os_wf s"
    and ix: "\<And>a. a \<in> indexed idx b \<longleftrightarrow> b \<in> entries fwd a"
    using assms unfolding inverse_index_def by blast+
  have "nonempty_entry idx b \<longleftrightarrow> indexed idx b \<noteq> {}"
    using wf [of b] by (simp add: nonempty_entry_def indexed_def os_is_empty_iff split: option.splits)
  then show ?thesis using ix by blast
qed

lemma dom_index_iff:
  assumes "inverse_index fwd idx"
  shows "b \<in> dom idx \<longleftrightarrow> (\<exists>a. b \<in> entries fwd a)"
proof -
  have wf: "\<And>b s. idx b = Some s \<Longrightarrow> os_members s \<noteq> {}"
    and ix: "\<And>a. a \<in> indexed idx b \<longleftrightarrow> b \<in> entries fwd a"
    using assms unfolding inverse_index_def by blast+
  have "b \<in> dom idx \<longleftrightarrow> indexed idx b \<noteq> {}"
    using wf [of b] by (auto simp: indexed_def split: option.splits)
  then show ?thesis using ix by blast
qed

lemma reads_of_new [simp]: "reads_of DependencyIndex_new p = {}"
  by (simp add: reads_of_def DependencyIndex_new_def)

lemma waits_for_new [simp]: "waits_for DependencyIndex_new j = {}"
  by (simp add: waits_for_def DependencyIndex_new_def)

lemma output_keys_new [simp]: "deps_output_keys DependencyIndex_new p = OrderedSet_default"
  by (simp add: deps_output_keys_def DependencyIndex_new_def)

lemma derivations_of_new [simp]: "derivations_of DependencyIndex_new j = OrderedSet_default"
  by (simp add: derivations_of_def DependencyIndex_new_def)

lemma reads_of_union_reads:
  "reads_of (union_reads p bs d) q = (if q = p then reads_of d p \<union> bs else reads_of d q)"
  by (auto simp: reads_of_def union_reads_def fresh_entries Let_def entries_upd)

lemma reads_of_replace_reads:
  "reads_of (replace_reads p bs d) q = (if q = p then bs else reads_of d q)"
  by (simp add: reads_of_def replace_reads_def entries_upd Let_def)

lemma reads_of_forget: "reads_of (forget p d) q = (if q = p then {} else reads_of d q)"
  by (auto simp: reads_of_def forget_def entries_def Let_def)

lemma waits_for_replace_waits:
  "waits_for (replace_waits j bs d) i = (if i = j then bs else waits_for d i)"
  by (simp add: waits_for_def replace_waits_def entries_upd Let_def)

lemma output_keys_replace_outputs:
  "os_wf s \<Longrightarrow> deps_output_keys (deps_replace_outputs p s d) q = (if q = p then s else deps_output_keys d q)"
  by (auto simp: deps_output_keys_def deps_replace_outputs_def OrderedSet_is_empty_def OrderedSet_default_def os_wf_def)

lemma output_keys_forget:
  "deps_output_keys (forget p d) q = (if q = p then OrderedSet_default else deps_output_keys d q)"
  by (simp add: deps_output_keys_def forget_def Let_def)

lemma derivations_of_replace_derivations:
  "os_wf s \<Longrightarrow> derivations_of (replace_derivations j s d) i = (if i = j then s else derivations_of d i)"
  by (auto simp: derivations_of_def replace_derivations_def OrderedSet_is_empty_def OrderedSet_default_def os_wf_def)

text \<open>What an operation leaves alone.\<close>

lemma deps_frames [simp]:
  "reads_of (replace_waits j ws d) q = reads_of d q"
  "reads_of (deps_replace_outputs p s d) q = reads_of d q"
  "reads_of (replace_derivations j ps d) q = reads_of d q"
  "waits_for (union_reads p bs d) i = waits_for d i"
  "waits_for (replace_reads p bs d) i = waits_for d i"
  "waits_for (deps_replace_outputs p s d) i = waits_for d i"
  "waits_for (replace_derivations j ps d) i = waits_for d i"
  "waits_for (forget p d) i = waits_for d i"
  "deps_output_keys (union_reads p bs d) q = deps_output_keys d q"
  "deps_output_keys (replace_reads p bs d) q = deps_output_keys d q"
  "deps_output_keys (replace_waits j ws d) q = deps_output_keys d q"
  "deps_output_keys (replace_derivations j ps d) q = deps_output_keys d q"
  "derivations_of (union_reads p bs d) i = derivations_of d i"
  "derivations_of (replace_reads p bs d) i = derivations_of d i"
  "derivations_of (replace_waits j ws d) i = derivations_of d i"
  "derivations_of (deps_replace_outputs p s d) i = derivations_of d i"
  "derivations_of (forget p d) i = derivations_of d i"
  by (simp_all add: reads_of_def waits_for_def deps_output_keys_def derivations_of_def
      replace_waits_def deps_replace_outputs_def replace_derivations_def union_reads_def
      replace_reads_def forget_def Let_def)

lemmas deps_effects = reads_of_union_reads reads_of_replace_reads reads_of_forget
  waits_for_replace_waits output_keys_replace_outputs output_keys_forget
  derivations_of_replace_derivations

lemma os_wf_output_keys [simp]: "deps_wf d \<Longrightarrow> os_wf (deps_output_keys d p)"
  by (auto simp: deps_wf_def owned_sets_def deps_output_keys_def split: option.splits)

lemma os_wf_derivations_of [simp]: "deps_wf d \<Longrightarrow> os_wf (derivations_of d j)"
  by (auto simp: deps_wf_def owned_sets_def derivations_of_def split: option.splits)

lemma finite_reads_of [simp]: "deps_wf d \<Longrightarrow> finite (reads_of d p)"
  by (simp add: deps_wf_def inverse_index_def reads_of_def)

lemma finite_waits_for [simp]: "deps_wf d \<Longrightarrow> finite (waits_for d j)"
  by (simp add: deps_wf_def inverse_index_def waits_for_def)

lemma set_subscribers [simp]: "deps_wf d \<Longrightarrow> set (subscribers d u) = {p. u \<in> reads_of d p}"
  by (simp add: subscribers_def deps_wf_def reads_of_def set_iter_entry(1))

lemma distinct_subscribers [simp]: "deps_wf d \<Longrightarrow> distinct (subscribers d u)"
  by (auto simp: subscribers_def deps_wf_def intro: set_iter_entry(2))

lemma set_waiters [simp]: "deps_wf d \<Longrightarrow> set (waiters d u) = {j. u \<in> waits_for d j}"
  by (simp add: waiters_def deps_wf_def waits_for_def set_iter_entry(1))

lemma distinct_waiters [simp]: "deps_wf d \<Longrightarrow> distinct (waiters d u)"
  by (auto simp: waiters_def deps_wf_def intro: set_iter_entry(2))

lemma mset_readers_of:
  "mset (readers_of d k) = mset (subscribers d (Current k)) + mset (subscribers d (Settled k))"
  by (simp add: readers_of_def subscribers_def)

lemma count_mset_distinct: "distinct xs \<Longrightarrow> count (mset xs) x = (if x \<in> set xs then 1 else 0)"
  by (simp add: distinct_count_atmost_1)

text \<open>The uses of one fact in a read set.\<close>

lemma FactUse_fact_iff: "FactUse_fact u = k \<longleftrightarrow> u = Current k \<or> u = Settled k"
  by (cases u) auto

lemma FactUse_settled_iff: "FactUse_readiness u = ReadinessSettled \<longleftrightarrow> (\<exists>f. u = Settled f)"
  by (cases u) auto

lemma uses_of_fact:
  "card {u \<in> R. FactUse_fact u = k} = (if Current k \<in> R then 1 else 0) + (if Settled k \<in> R then 1 else 0)"
proof -
  have "{u \<in> R. FactUse_fact u = k} =
      (if Current k \<in> R then {Current k} else {}) \<union> (if Settled k \<in> R then {Settled k} else {})"
    by (auto simp: FactUse_fact_iff)
  then show ?thesis by auto
qed

lemma count_readers_of:
  "deps_wf d \<Longrightarrow> count (mset (readers_of d k)) p = card {u \<in> reads_of d p. FactUse_fact u = k}"
  by (simp add: mset_readers_of count_mset_distinct uses_of_fact)

lemma set_readers_of:
  "deps_wf d \<Longrightarrow> set (readers_of d k) = {p. Current k \<in> reads_of d p \<or> Settled k \<in> reads_of d p}"
  using arg_cong [OF mset_readers_of [of d k], of set_mset] by auto

section \<open>Properties\<close>

text \<open>
  C22. Every operation of the dependency index keeps it consistent (subscriptions are exactly
  the reads, waiters exactly the waits, no empty entry), and changes exactly its own part:
  \<open>union_reads\<close> adds to one publisher's reads, \<open>replace_reads\<close> replaces them,
  \<open>replace_waits\<close> replaces one job's waits, \<open>replace_outputs\<close> and
  \<open>replace_derivations\<close> one owned set, and \<open>forget\<close> leaves a publisher with no
  read and no claim.
\<close>

theorem DependencyIndex_operations_consistent:
  fixes d :: "('p, 'j, 'f) DependencyIndex"
  assumes "deps_wf d" and "finite bs" and "os_wf s" and "os_wf ps"
  shows "deps_wf (DependencyIndex_new :: ('p, 'j, 'f) DependencyIndex) \<and>
    deps_wf (union_reads p bs d) \<and> reads_of (union_reads p bs d) = (reads_of d)(p := reads_of d p \<union> bs) \<and>
    deps_wf (replace_reads p bs d) \<and> reads_of (replace_reads p bs d) = (reads_of d)(p := bs) \<and>
    deps_wf (replace_waits j bs d) \<and> waits_for (replace_waits j bs d) = (waits_for d)(j := bs) \<and>
    deps_wf (deps_replace_outputs p s d) \<and>
      deps_output_keys (deps_replace_outputs p s d) = (deps_output_keys d)(p := s) \<and>
    deps_wf (replace_derivations j ps d) \<and>
      derivations_of (replace_derivations j ps d) = (derivations_of d)(j := ps) \<and>
    deps_wf (forget p d) \<and> reads_of (forget p d) = (reads_of d)(p := {}) \<and>
      deps_output_keys (forget p d) = (deps_output_keys d)(p := OrderedSet_default)"
  using assms by (simp add: deps_wf_preserved deps_effects fun_eq_iff)

definition example_deps :: "(nat, nat, nat) DependencyIndex" where
  "example_deps = replace_waits 2 {Settled 7}
     (union_reads 1 {Settled 5} (replace_reads 1 {Current 5, Current 6} DependencyIndex_new))"

lemma deps_wf_example: "deps_wf example_deps"
  unfolding example_deps_def by (intro deps_wf_preserved) simp_all

theorem DependencyIndex_operations_consistent_witness:
  "deps_wf (forget 1 example_deps) \<and> reads_of (forget 1 example_deps) = (reads_of example_deps)(1 := {}) \<and>
   reads_of example_deps 1 = {Current 5, Current 6, Settled 5}"
proof -
  have r: "reads_of example_deps 1 = {Current 5, Current 6, Settled 5}"
    by (auto simp: example_deps_def deps_effects)
  show ?thesis
    using DependencyIndex_operations_consistent
      [OF deps_wf_example finite.emptyI os_wf_default [where 'a = nat] os_wf_default [where 'a = nat], of 1 0] r
    by blast
qed

text \<open>
  Each lookup of a consistent index answers exactly for the standing reads and waits, in
  semantic order: \<open>subscribers\<close> and \<open>waiters\<close> list every reader and waiter of a
  fact use once, \<open>readers_of\<close> lists a publisher once per use under which it reads the
  fact, \<open>has_consumers\<close> and \<open>has_unresolved\<close> hold exactly when somebody reads or
  waits, and \<open>waited_settled_facts\<close> are the facts some job waits to see settled.
\<close>

theorem DependencyIndex_lookups_exact:
  fixes d :: "('p::linorder, 'j::linorder, 'f) DependencyIndex"
  assumes "deps_wf d"
  shows "sorted (subscribers d u) \<and> distinct (subscribers d u) \<and>
      set (subscribers d u) = {p. u \<in> reads_of d p} \<and>
    sorted (waiters d u) \<and> distinct (waiters d u) \<and> set (waiters d u) = {j. u \<in> waits_for d j} \<and>
    sorted (readers_of d k) \<and>
      count (mset (readers_of d k)) p = card {v \<in> reads_of d p. FactUse_fact v = k} \<and>
    (has_waiter d u \<longleftrightarrow> (\<exists>j. u \<in> waits_for d j)) \<and>
    (has_consumers d k \<longleftrightarrow>
      (\<exists>v \<in> {Current k, Settled k}. (\<exists>p. v \<in> reads_of d p) \<or> (\<exists>j. v \<in> waits_for d j))) \<and>
    (deps_has_unresolved d \<longleftrightarrow> (\<exists>j. deps_blocked d j)) \<and>
    deps_waited_settled_facts d = {f. \<exists>j. Settled f \<in> waits_for d j}"
proof -
  have ixs: "inverse_index (dep_reads d) (dep_subscribers d)" "inverse_index (dep_waits d) (dep_waiters d)"
    using assms by (simp_all add: deps_wf_def)
  have blocked: "deps_blocked d j \<longleftrightarrow> waits_for d j \<noteq> {}" for j
    by (simp add: deps_blocked_def waits_for_def entries_def split: option.splits)
  have dom: "dom (dep_waiters d) = {u. \<exists>j. u \<in> waits_for d j}"
    using dom_index_iff [OF ixs(2)] by (auto simp: waits_for_def)
  have unresolved: "deps_has_unresolved d \<longleftrightarrow> (\<exists>j. deps_blocked d j)"
    by (auto simp: deps_has_unresolved_def dom blocked)
  have settled: "deps_waited_settled_facts d = {f. \<exists>j. Settled f \<in> waits_for d j}"
    unfolding deps_waited_settled_facts_def dom
    by (force simp: FactUse_settled_iff)
  have sorted: "sorted (subscribers d u)" "sorted (waiters d u)" "sorted (readers_of d k)"
    by (simp_all add: subscribers_def waiters_def readers_of_def)
  show ?thesis
    using assms sorted
    by (simp add: has_waiter_def has_consumers_def nonempty_entry_iff [OF ixs(1)]
        nonempty_entry_iff [OF ixs(2)] count_readers_of unresolved settled flip: reads_of_def waits_for_def)
qed

theorem DependencyIndex_lookups_exact_witness:
  "set (subscribers example_deps (Settled 5)) = {1} \<and> count (mset (readers_of example_deps 5)) 1 = 2 \<and>
   set (waiters example_deps (Settled 7)) = {2} \<and> has_consumers example_deps 6"
proof -
  have r: "reads_of example_deps p = (if p = 1 then {Current 5, Current 6, Settled 5} else {})"
    and w: "waits_for example_deps j = (if j = 2 then {Settled 7} else {})" for p j
    by (auto simp: example_deps_def deps_effects)
  have "set (subscribers example_deps (Settled 5)) = {1}"
    using DependencyIndex_lookups_exact [OF deps_wf_example, of "Settled 5"] by (auto simp: r)
  moreover have "count (mset (readers_of example_deps 5)) 1 = 2"
    using DependencyIndex_lookups_exact [OF deps_wf_example, of _ 5 1] uses_of_fact [of "reads_of example_deps 1" 5]
    by (simp add: r)
  moreover have "set (waiters example_deps (Settled 7)) = {2}"
    using DependencyIndex_lookups_exact [OF deps_wf_example, of "Settled 7"] by (auto simp: w)
  moreover have "has_consumers example_deps 6"
    using DependencyIndex_lookups_exact [OF deps_wf_example, of _ 6] by (auto simp: r)
  ultimately show ?thesis by blast
qed

end
