(* ===== verification/Fz_Scheduler.thy ===== *)
theory Fz_Scheduler
  imports Fz_Agenda Fz_Deps
begin

text \<open>
  The work graph of \<open>src/compiler2/scheduler.rs\<close>: it owns the agenda, the fact table and
  the dependency index, applies what a job run concluded, carries finality through the graph
  and wakes the readers and waiters of every fact that moved.

  The trait \<open>Publisher\<close> (the job of an answer, and the answer that is a job's own) and
  \<open>ClaimShape\<close> are the record \<open>shape\<close>; \<open>ExternalDependencyStates\<close> is the
  argument \<open>ext\<close>. Counters are natural numbers. Vectors are lists with the newest element
  last, so a stack is popped at its end. Arguments the source passes as mutable references are
  returned updated. A hash map is finite while a partial function need not be, so the two
  loops whose end rests on the table being finite test it first; the invariant of the fact
  table makes the test true.
\<close>

section \<open>Work starts and wakes\<close>

datatype WorkStartReason =
  Ignition | ChangedRevisionWake | ActivationFrontier | BlockedWaiterExpansion | Unclassified

record WorkStartTally =
  ignition :: nat
  changed_revision_wake :: nat
  activation_frontier :: nat
  blocked_waiter_expansion :: nat
  unclassified :: nat
  tally_root_scans :: nat
  tally_drain_discovery_sweeps :: nat

definition unsanctioned_work_starts :: "WorkStartTally \<Rightarrow> nat" where
  "unsanctioned_work_starts t = unclassified t"

definition checked_sub :: "nat \<Rightarrow> nat \<Rightarrow> nat option" where
  "checked_sub a b = (if b \<le> a then Some (a - b) else None)"

text \<open>\<open>None\<close> is the panic of a counter that moved backwards.\<close>

definition delta_since :: "WorkStartTally \<Rightarrow> WorkStartTally \<Rightarrow> WorkStartTally option" where
  "delta_since t earlier =
     Option.bind (checked_sub (ignition t) (ignition earlier)) (\<lambda>a.
     Option.bind (checked_sub (changed_revision_wake t) (changed_revision_wake earlier)) (\<lambda>b.
     Option.bind (checked_sub (activation_frontier t) (activation_frontier earlier)) (\<lambda>c.
     Option.bind (checked_sub (blocked_waiter_expansion t) (blocked_waiter_expansion earlier)) (\<lambda>d.
     Option.bind (checked_sub (unclassified t) (unclassified earlier)) (\<lambda>e.
     Option.bind (checked_sub (tally_root_scans t) (tally_root_scans earlier)) (\<lambda>f.
     Option.bind (checked_sub (tally_drain_discovery_sweeps t) (tally_drain_discovery_sweeps earlier)) (\<lambda>g.
       Some \<lparr>ignition = a, changed_revision_wake = b, activation_frontier = c,
             blocked_waiter_expansion = d, unclassified = e, tally_root_scans = f,
             tally_drain_discovery_sweeps = g\<rparr>)))))))"

definition tally_add :: "WorkStartTally \<Rightarrow> WorkStartTally \<Rightarrow> WorkStartTally" where
  "tally_add t other =
     \<lparr>ignition = ignition t + ignition other,
      changed_revision_wake = changed_revision_wake t + changed_revision_wake other,
      activation_frontier = activation_frontier t + activation_frontier other,
      blocked_waiter_expansion = blocked_waiter_expansion t + blocked_waiter_expansion other,
      unclassified = unclassified t + unclassified other,
      tally_root_scans = tally_root_scans t + tally_root_scans other,
      tally_drain_discovery_sweeps = tally_drain_discovery_sweeps t + tally_drain_discovery_sweeps other\<rparr>"

datatype WakeDisposition = Enqueued | Coalesced

record ('j, 'f) Wake =
  wake_cause :: "'f FactUse"
  wake_job :: 'j
  wake_disposition :: WakeDisposition
  wake_shift :: bool

record ('j, 'f) AppliedStep =
  as_changed :: "'f FactChange list"
  as_movements :: "'f FactMovement list"
  as_wakes :: "('j, 'f) Wake list"
  as_blocked :: "'f FactUse list"

record ('p, 'f) DerivationEffects =
  de_publisher :: 'p
  de_reads :: "'f FactUse set"
  de_outputs :: "'f list"
  de_changed :: "'f list"

record ('p, 'f) CompletionEffects =
  ce_derivations :: "('p, 'f) DerivationEffects list"
  ce_waits :: "'f FactUse set"

definition CompletionEffects_single ::
  "'p \<Rightarrow> 'f FactUse set \<Rightarrow> 'f FactUse set \<Rightarrow> 'f list \<Rightarrow> 'f list \<Rightarrow> ('p, 'f) CompletionEffects" where
  "CompletionEffects_single publisher reads waits outputs changed =
     \<lparr>ce_derivations = [\<lparr>de_publisher = publisher, de_reads = reads, de_outputs = outputs, de_changed = changed\<rparr>],
      ce_waits = waits\<rparr>"

section \<open>The next change of a wave\<close>

text \<open>\<open>Iterator::min_by\<close>: the first of the least elements.\<close>

fun min_by :: "('a \<Rightarrow> 'a \<Rightarrow> ordering) \<Rightarrow> 'a list \<Rightarrow> 'a option" where
  "min_by cmp [] = None"
| "min_by cmp (x # xs) = Some (fold (\<lambda>y m. if cmp m y = Greater then y else m) xs x)"

definition change_order :: "nat \<times> 'f::linorder FactChange \<Rightarrow> nat \<times> 'f FactChange \<Rightarrow> ordering" where
  "change_order l r =
     ordering_then (cmp_of (fc_key (snd l)) (fc_key (snd r))) (cmp_of (fst r) (fst l))"

definition take_next_fact_change ::
  "'f::linorder FactChange list \<Rightarrow> ('f FactChange \<times> 'f FactChange list) option" where
  "take_next_fact_change pending =
     (case min_by change_order (enumerate 0 pending) of
        None \<Rightarrow> None
      | Some (i, _) \<Rightarrow> Some (pending ! i, take i pending @ drop (Suc i) pending))"

section \<open>The scheduler\<close>

datatype ReadFinality = Pending nat | Quiescent nat

primrec ReadFinality_count :: "ReadFinality \<Rightarrow> nat" where
  "ReadFinality_count (Pending n) = n"
| "ReadFinality_count (Quiescent n) = n"

primrec ReadFinality_is_pending :: "ReadFinality \<Rightarrow> bool" where
  "ReadFinality_is_pending (Pending n) = True"
| "ReadFinality_is_pending (Quiescent n) = False"

text \<open>\<open>saturating_sub\<close> is the subtraction of natural numbers.\<close>

definition after_edge :: "ReadFinality \<Rightarrow> bool \<Rightarrow> ReadFinality" where
  "after_edge st became_quiet =
     (if \<not> became_quiet then Pending (ReadFinality_count st + 1)
      else let n = ReadFinality_count st - 1
           in case st of Pending _ \<Rightarrow> Pending n | Quiescent _ \<Rightarrow> Quiescent n)"

record ('p, 'j, 'f) Scheduler =
  sch_agenda :: "'j Agenda"
  sch_facts :: "('p, 'f) FactTable"
  sch_deps :: "('p, 'j, 'f) DependencyIndex"
  sch_rebased :: "'p set"
  read_finality :: "'p \<rightharpoonup> ReadFinality"
  work_starts :: "WorkStartReason \<rightharpoonup> nat"
  root_scans :: nat
  drain_discovery_sweeps :: nat

text \<open>The traits \<open>Publisher\<close> and \<open>ClaimShape\<close> as a record of their methods.\<close>

record ('p, 'j, 'f) shape =
  sh_run :: "'p \<Rightarrow> 'j"
  sh_of_run :: "'j \<Rightarrow> 'p"
  sh_is_cumulative :: "'f \<Rightarrow> bool"

datatype sched_panic = FactPanic fact_panic | ExternalPublished | NotExternal

definition NoExternalDependencyStates :: "'f \<Rightarrow> FactState option" where
  "NoExternalDependencyStates key = None"

definition Scheduler_new :: "('p, 'j, 'f) Scheduler" where
  "Scheduler_new = \<lparr>sch_agenda = Agenda_new, sch_facts = FactTable_new, sch_deps = DependencyIndex_new,
     sch_rebased = {}, read_finality = Map.empty, work_starts = Map.empty, root_scans = 0,
     drain_discovery_sweeps = 0\<rparr>"

definition dependency_state ::
  "('p, 'j, 'f) Scheduler \<Rightarrow> 'f \<Rightarrow> ('f \<Rightarrow> FactState option) \<Rightarrow> FactState" where
  "dependency_state s key ext =
     (case ext key of Some state \<Rightarrow> state | None \<Rightarrow> FactTable_state (sch_facts s) key)"

definition dependency_is_quiet ::
  "('p, 'j, 'f) Scheduler \<Rightarrow> 'f \<Rightarrow> ('f \<Rightarrow> FactState option) \<Rightarrow> bool" where
  "dependency_is_quiet s key ext =
     (case ext key of None \<Rightarrow> FactTable_is_quiet (sch_facts s) key | Some state \<Rightarrow> fs_settled state)"

definition dependency_satisfies ::
  "('p, 'j, 'f) Scheduler \<Rightarrow> 'f FactUse \<Rightarrow> ('f \<Rightarrow> FactState option) \<Rightarrow> bool" where
  "dependency_satisfies s usage ext =
     (let state = dependency_state s (FactUse_fact usage) ext
      in case usage of Current _ \<Rightarrow> fs_revision state \<noteq> None
         | Settled _ \<Rightarrow> fs_revision state \<noteq> None \<and> fs_settled state)"

definition work_start_tally :: "('p, 'j, 'f) Scheduler \<Rightarrow> WorkStartTally" where
  "work_start_tally s =
     (let tally = (\<lambda>reason. case work_starts s reason of None \<Rightarrow> 0 | Some n \<Rightarrow> n)
      in \<lparr>ignition = tally Ignition, changed_revision_wake = tally ChangedRevisionWake,
          activation_frontier = tally ActivationFrontier,
          blocked_waiter_expansion = tally BlockedWaiterExpansion, unclassified = tally Unclassified,
          tally_root_scans = root_scans s, tally_drain_discovery_sweeps = drain_discovery_sweeps s\<rparr>)"

definition note_drain_discovery_sweep :: "('p, 'j, 'f) Scheduler \<Rightarrow> ('p, 'j, 'f) Scheduler" where
  "note_drain_discovery_sweep s = s\<lparr>drain_discovery_sweeps := drain_discovery_sweeps s + 1\<rparr>"

definition Scheduler_rebased :: "('p, 'j, 'f) Scheduler \<Rightarrow> 'j \<Rightarrow> bool" where
  "Scheduler_rebased s job \<longleftrightarrow>
     (\<exists>publisher \<in> set (OrderedSet_iter (derivations_of (sch_deps s) job)). publisher \<in> sch_rebased s)"

definition pending_jobs :: "('p, 'j, 'f) Scheduler \<Rightarrow> nat" where
  "pending_jobs s = Agenda_len (sch_agenda s)"

text \<open>The whole-table scan, tallied; the keys are returned as a set.\<close>

definition fact_keys :: "('p, 'j, 'f) Scheduler \<Rightarrow> 'f set \<times> ('p, 'j, 'f) Scheduler" where
  "fact_keys s = (dom (slots (sch_facts s)), s\<lparr>root_scans := root_scans s + 1\<rparr>)"

definition Scheduler_output_keys :: "('p, 'j, 'f) Scheduler \<Rightarrow> 'j \<Rightarrow> 'f OrderedSet" where
  "Scheduler_output_keys s job =
     fold (\<lambda>publisher keys. OrderedSet_extend keys (OrderedSet_iter (deps_output_keys (sch_deps s) publisher)))
       (OrderedSet_iter (derivations_of (sch_deps s) job)) OrderedSet_default"

definition Scheduler_reads :: "('p, 'j, 'f) Scheduler \<Rightarrow> 'j \<Rightarrow> 'f FactUse set" where
  "Scheduler_reads s job =
     (\<Union>publisher \<in> set (OrderedSet_iter (derivations_of (sch_deps s) job)).
        case deps_reads (sch_deps s) publisher of None \<Rightarrow> {} | Some reads \<Rightarrow> reads)"

text \<open>The source chains the reads and the waits into a vector; only its elements are meant.\<close>

definition dependency_uses :: "('p, 'j, 'f) Scheduler \<Rightarrow> 'j \<Rightarrow> 'f FactUse set" where
  "dependency_uses s job = Scheduler_reads s job \<union> waits_for (sch_deps s) job"

definition bump_work_start :: "WorkStartReason \<Rightarrow> ('p, 'j, 'f) Scheduler \<Rightarrow> ('p, 'j, 'f) Scheduler" where
  "bump_work_start reason s =
     s\<lparr>work_starts := (work_starts s)(reason \<mapsto> (case work_starts s reason of None \<Rightarrow> 0 | Some n \<Rightarrow> n) + 1)\<rparr>"

definition Scheduler_enqueue ::
  "'j \<Rightarrow> WorkStartReason \<Rightarrow> ('p, 'j, 'f) Scheduler \<Rightarrow> bool \<times> ('p, 'j, 'f) Scheduler" where
  "Scheduler_enqueue job reason s =
     (let (started, agenda) = Agenda_enqueue job (sch_agenda s);
          s1 = s\<lparr>sch_agenda := agenda\<rparr>
      in (started, if started then bump_work_start reason s1 else s1))"

definition Scheduler_pop :: "('p, 'j, 'f) Scheduler \<Rightarrow> 'j option \<times> ('p, 'j, 'f) Scheduler" where
  "Scheduler_pop s = (let (job, agenda) = Agenda_pop (sch_agenda s) in (job, s\<lparr>sch_agenda := agenda\<rparr>))"

section \<open>Finality\<close>

definition is_unfinal :: "('p, 'j, 'f) Scheduler \<Rightarrow> 'p \<Rightarrow> bool" where
  "is_unfinal s publisher =
     (case read_finality s publisher of None \<Rightarrow> False | Some state \<Rightarrow> ReadFinality_is_pending state)"

definition count_unfinal_reads ::
  "('p, 'j, 'f) Scheduler \<Rightarrow> 'p \<Rightarrow> ('f \<Rightarrow> FactState option) \<Rightarrow> nat" where
  "count_unfinal_reads s publisher ext =
     (case deps_reads (sch_deps s) publisher of None \<Rightarrow> 0
      | Some reads \<Rightarrow> card {read \<in> reads. \<not> dependency_is_quiet s (FactUse_fact read) ext})"

definition set_read_finality ::
  "'p \<Rightarrow> ReadFinality \<Rightarrow> ('p, 'j, 'f) Scheduler \<Rightarrow> ('p, 'j, 'f) Scheduler" where
  "set_read_finality publisher state s =
     (if ReadFinality_count state = 0 then s\<lparr>read_finality := (read_finality s)(publisher := None)\<rparr>
      else s\<lparr>read_finality := (read_finality s)(publisher \<mapsto> state)\<rparr>)"

definition set_unfinal_reads :: "'p \<Rightarrow> nat \<Rightarrow> ('p, 'j, 'f) Scheduler \<Rightarrow> ('p, 'j, 'f) Scheduler" where
  "set_unfinal_reads publisher n s = set_read_finality publisher (Pending n) s"

definition quiet_snapshot :: "('p, 'j, 'f) Scheduler \<Rightarrow> 'f OrderedSet \<Rightarrow> bool list" where
  "quiet_snapshot s keys = map (FactTable_is_quiet (sch_facts s)) (OrderedSet_iter keys)"

text \<open>The loop that flags a publisher on each of its claims and collects the changes.\<close>

fun set_keys_unfinal ::
  "'p \<Rightarrow> bool \<Rightarrow> 'f list \<Rightarrow> ('p, 'f) FactTable \<Rightarrow> 'f FactChange list \<Rightarrow>
   'f FactChange list \<times> ('p, 'f) FactTable" where
  "set_keys_unfinal publisher unfinal [] t changes = (changes, t)"
| "set_keys_unfinal publisher unfinal (key # keys) t changes =
     (let (change, t') = FactTable_set_publisher_unfinal key publisher unfinal t
      in set_keys_unfinal publisher unfinal keys t'
           (case change of None \<Rightarrow> changes | Some c \<Rightarrow> changes @ [c]))"

text \<open>The same loop inside a wave, where a claim that flips joins the frontier.\<close>

fun flip_keys ::
  "'p \<Rightarrow> bool \<Rightarrow> 'f list \<Rightarrow> ('p, 'f) FactTable \<Rightarrow> 'f FactChange list \<Rightarrow> 'f list \<Rightarrow>
   'f FactChange list \<times> 'f list \<times> ('p, 'f) FactTable" where
  "flip_keys publisher unfinal [] t changes frontier = (changes, frontier, t)"
| "flip_keys publisher unfinal (key # keys) t changes frontier =
     (let was_quiet = FactTable_is_quiet t key;
          (change, t') = FactTable_set_publisher_unfinal key publisher unfinal t
      in flip_keys publisher unfinal keys t'
           (case change of None \<Rightarrow> changes | Some c \<Rightarrow> changes @ [c])
           (if FactTable_is_quiet t' key \<noteq> was_quiet then frontier @ [key] else frontier))"

definition wave_reader ::
  "bool \<Rightarrow> 'p \<Rightarrow> ('p, 'j, 'f) Scheduler \<times> 'f FactChange list \<times> 'f list \<Rightarrow>
   ('p, 'j, 'f) Scheduler \<times> 'f FactChange list \<times> 'f list" where
  "wave_reader became_quiet reader = (\<lambda>(s, changes, frontier).
     let was_unfinal = is_unfinal s reader;
         previous = (case read_finality s reader of None \<Rightarrow> Pending 0 | Some state \<Rightarrow> state);
         s1 = set_read_finality reader (after_edge previous became_quiet) s;
         now_unfinal = is_unfinal s1 reader
     in if now_unfinal = was_unfinal then (s1, changes, frontier)
        else let keys = deps_output_keys (sch_deps s1) reader;
                 (changes', frontier', t) =
                   flip_keys reader now_unfinal (OrderedSet_iter keys) (sch_facts s1) changes frontier
             in (s1\<lparr>sch_facts := t\<rparr>, changes', frontier'))"

subsection \<open>A wave flips each fact at most once\<close>

definition unfinal_slot :: "'p \<Rightarrow> bool \<Rightarrow> 'p FactSlot \<Rightarrow> 'p FactSlot" where
  "unfinal_slot p u s = (if p \<in> publishers s
     then s\<lparr>unfinal_publishers := set_membership (unfinal_publishers s) p u\<rparr> else s)"

lemma set_unfinal_slots:
  "slots (snd (FactTable_set_publisher_unfinal key p u t)) k =
     (if k = key then map_option (unfinal_slot p u) (slots t k) else slots t k)"
  by (simp add: set_publisher_unfinal_slots unfinal_slot_def [abs_def])

lemma unfinal_slot_idem [simp]: "unfinal_slot p u (unfinal_slot p u s) = unfinal_slot p u s"
  by (simp add: unfinal_slot_def set_membership_def)

text \<open>The facts of the table that a wave of the given sign could still flip.\<close>

definition unlike :: "bool \<Rightarrow> ('p, 'f) FactTable \<Rightarrow> 'f set" where
  "unlike became_quiet t = {k \<in> dom (slots t). FactTable_is_quiet t k \<noteq> became_quiet}"

lemma FactTable_is_quiet_slots:
  "slots t k = slots t' k' \<Longrightarrow> FactTable_is_quiet t k = FactTable_is_quiet t' k'"
  by (simp add: FactTable_is_quiet_def)

lemma quiet_unfinal_slot:
  "FactSlot_is_quiet (unfinal_slot p u s) \<longrightarrow> \<not> u \<or> p \<notin> publishers s"
  "u \<Longrightarrow> FactSlot_is_quiet (unfinal_slot p u s) \<Longrightarrow> FactSlot_is_quiet s"
  "\<not> u \<Longrightarrow> FactSlot_is_quiet s \<Longrightarrow> FactSlot_is_quiet (unfinal_slot p u s)"
  by (auto simp: unfinal_slot_def FactSlot_is_quiet_def set_membership_def split: if_splits)

lemma unlike_iff: "k \<in> unlike bq t \<longleftrightarrow> (\<exists>s. slots t k = Some s \<and> FactSlot_is_quiet s \<noteq> bq)"
  by (auto simp: unlike_def FactTable_is_quiet_def)

lemma unlike_set_unfinal:
  assumes t': "t' = snd (FactTable_set_publisher_unfinal key p (\<not> bq) t)"
  shows "unlike bq t - unlike bq t' = (if FactTable_is_quiet t' key \<noteq> FactTable_is_quiet t key then {key} else {})"
    and "unlike bq t' \<subseteq> unlike bq t"
proof -
  have sl: "slots t' k = (if k = key then map_option (unfinal_slot p (\<not> bq)) (slots t k) else slots t k)" for k
    by (simp add: t' set_unfinal_slots)
  then have off: "k \<in> unlike bq t' \<longleftrightarrow> k \<in> unlike bq t" if "k \<noteq> key" for k
    using that by (simp add: unlike_iff)
  have on: "FactSlot_is_quiet s = bq \<Longrightarrow> FactSlot_is_quiet (unfinal_slot p (\<not> bq) s) = bq" for s
    using quiet_unfinal_slot(2) [of "\<not> bq" p s] quiet_unfinal_slot(3) [of "\<not> bq" s p] by (cases bq) auto
  have le: "key \<in> unlike bq t' \<Longrightarrow> key \<in> unlike bq t"
    using on by (fastforce simp: unlike_iff sl)
  have flip: "key \<in> unlike bq t \<and> key \<notin> unlike bq t' \<longleftrightarrow> FactTable_is_quiet t' key \<noteq> FactTable_is_quiet t key"
    using on by (cases "slots t key") (auto simp: unlike_iff sl FactTable_is_quiet_def)
  show "unlike bq t' \<subseteq> unlike bq t"
  proof
    fix k assume "k \<in> unlike bq t'"
    then show "k \<in> unlike bq t" using off le by (cases "k = key") auto
  qed
  show "unlike bq t - unlike bq t' = (if FactTable_is_quiet t' key \<noteq> FactTable_is_quiet t key then {key} else {})"
  proof (rule set_eqI)
    fix k
    show "k \<in> unlike bq t - unlike bq t' \<longleftrightarrow>
        k \<in> (if FactTable_is_quiet t' key \<noteq> FactTable_is_quiet t key then {key} else {})"
      using off [of k] flip by (cases "k = key") simp_all
  qed
qed

lemma flip_keys_frontier:
  assumes "flip_keys p (\<not> bq) keys t ch fr = (ch', fr', t')"
  shows "\<exists>fl. fr' = fr @ fl \<and> distinct fl \<and> set fl = unlike bq t - unlike bq t' \<and> unlike bq t' \<subseteq> unlike bq t"
  using assms
proof (induction keys arbitrary: t ch fr)
  case (Cons key keys)
  let ?t1 = "snd (FactTable_set_publisher_unfinal key p (\<not> bq) t)"
  let ?fl0 = "if FactTable_is_quiet ?t1 key \<noteq> FactTable_is_quiet t key then [key] else []"
  obtain ch1 where "flip_keys p (\<not> bq) keys ?t1 ch1 (fr @ ?fl0) = (ch', fr', t')"
    using Cons.prems by (auto simp: Let_def split: prod.splits if_splits)
  from Cons.IH [OF this] obtain fl where
    fl: "fr' = fr @ ?fl0 @ fl" "distinct fl" "set fl = unlike bq ?t1 - unlike bq t'" "unlike bq t' \<subseteq> unlike bq ?t1"
    by auto
  have "set ?fl0 = unlike bq t - unlike bq ?t1"
    by (simp add: unlike_set_unfinal(1) [OF refl])
  then have "distinct (?fl0 @ fl)" "set (?fl0 @ fl) = unlike bq t - unlike bq t'"
    using fl unlike_set_unfinal(2) [OF refl, of bq key p t] by auto
  then show ?case
    using fl(1,4) unlike_set_unfinal(2) [OF refl, of bq key p t] by blast
qed auto

lemma flip_keys_slots:
  "flip_keys p u keys t ch fr = (ch', fr', t') \<Longrightarrow>
   slots t' k = (if k \<in> set keys then map_option (unfinal_slot p u) (slots t k) else slots t k)"
proof (induction keys arbitrary: t ch fr)
  case (Cons key keys)
  let ?t1 = "snd (FactTable_set_publisher_unfinal key p u t)"
  obtain ch1 fr1 where "flip_keys p u keys ?t1 ch1 fr1 = (ch', fr', t')"
    using Cons.prems by (auto simp: Let_def split: prod.splits)
  from Cons.IH [OF this] show ?case
    by (auto simp: set_unfinal_slots option.map_comp comp_def option.map_ident)
qed auto

text \<open>An edge moves a publisher's finality only in the wave's own direction.\<close>

lemma is_unfinal_set:
  "is_unfinal (set_read_finality p st s) q =
     (if q = p then ReadFinality_is_pending st \<and> ReadFinality_count st \<noteq> 0 else is_unfinal s q)"
  by (auto simp: is_unfinal_def set_read_finality_def)

lemma wave_reader_sign:
  assumes "is_unfinal (set_read_finality p (after_edge (case read_finality s p of None \<Rightarrow> Pending 0 | Some st \<Rightarrow> st) bq) s) p \<noteq>
    is_unfinal s p"
  shows "is_unfinal (set_read_finality p (after_edge (case read_finality s p of None \<Rightarrow> Pending 0 | Some st \<Rightarrow> st) bq) s) p = (\<not> bq)"
  using assms
  unfolding is_unfinal_set by (auto simp: is_unfinal_def after_edge_def Let_def split: if_splits option.splits ReadFinality.splits)

lemma frame_set_read_finality [simp]:
  "sch_agenda (set_read_finality p st s) = sch_agenda s" "sch_facts (set_read_finality p st s) = sch_facts s"
  "sch_deps (set_read_finality p st s) = sch_deps s" "sch_rebased (set_read_finality p st s) = sch_rebased s"
  "work_starts (set_read_finality p st s) = work_starts s"
  by (simp_all add: set_read_finality_def)

text \<open>What one reader's step does to everything but the counts.\<close>

lemma wave_reader_step:
  assumes "wave_reader bq p (s, ch, fr) = (s', ch', fr')"
  shows "sch_agenda s' = sch_agenda s \<and> sch_deps s' = sch_deps s \<and> sch_rebased s' = sch_rebased s \<and>
    dom (slots (sch_facts s')) = dom (slots (sch_facts s)) \<and>
    (\<exists>fl. fr' = fr @ fl \<and> distinct fl \<and>
       set fl = unlike bq (sch_facts s) - unlike bq (sch_facts s') \<and>
       unlike bq (sch_facts s') \<subseteq> unlike bq (sch_facts s))"
proof -
  let ?prev = "case read_finality s p of None \<Rightarrow> Pending 0 | Some st \<Rightarrow> st"
  let ?s1 = "set_read_finality p (after_edge ?prev bq) s"
  show ?thesis
  proof (cases "is_unfinal ?s1 p = is_unfinal s p")
    case True
    then show ?thesis using assms by (auto simp: wave_reader_def Let_def)
  next
    case False
    obtain t where flip: "flip_keys p (\<not> bq) (OrderedSet_iter (deps_output_keys (sch_deps s) p))
        (sch_facts s) ch fr = (ch', fr', t)" and s': "s' = ?s1\<lparr>sch_facts := t\<rparr>"
      using assms False wave_reader_sign [OF False] by (auto simp: wave_reader_def Let_def split: prod.splits)
    have "dom (slots t) = dom (slots (sch_facts s))"
      using flip_keys_slots [OF flip] by (auto simp: dom_def split: if_splits)
    then show ?thesis using flip_keys_frontier [OF flip] by (simp add: s')
  qed
qed

lemma wave_readers_step:
  assumes "fold (wave_reader bq) ps (s, ch, fr) = (s', ch', fr')"
  shows "sch_agenda s' = sch_agenda s \<and> sch_deps s' = sch_deps s \<and> sch_rebased s' = sch_rebased s \<and>
    dom (slots (sch_facts s')) = dom (slots (sch_facts s)) \<and>
    (\<exists>fl. fr' = fr @ fl \<and> distinct fl \<and>
       set fl = unlike bq (sch_facts s) - unlike bq (sch_facts s') \<and>
       unlike bq (sch_facts s') \<subseteq> unlike bq (sch_facts s))"
  using assms
proof (induction ps arbitrary: s ch fr)
  case (Cons p ps)
  obtain s1 ch1 fr1 where st: "wave_reader bq p (s, ch, fr) = (s1, ch1, fr1)" by (metis prod_cases3)
  from wave_reader_step [OF st] obtain fl1 where 1: "fr1 = fr @ fl1" "distinct fl1"
      "set fl1 = unlike bq (sch_facts s) - unlike bq (sch_facts s1)"
      "unlike bq (sch_facts s1) \<subseteq> unlike bq (sch_facts s)" by blast
  from Cons.IH [of s1 ch1 fr1] Cons.prems st obtain fl2 where 2: "fr' = fr1 @ fl2" "distinct fl2"
      "set fl2 = unlike bq (sch_facts s1) - unlike bq (sch_facts s')"
      "unlike bq (sch_facts s') \<subseteq> unlike bq (sch_facts s1)" by auto
  from 1 2 have "fr' = fr @ (fl1 @ fl2)" "distinct (fl1 @ fl2)"
    "set (fl1 @ fl2) = unlike bq (sch_facts s) - unlike bq (sch_facts s')"
    "unlike bq (sch_facts s') \<subseteq> unlike bq (sch_facts s)" by auto
  moreover have "sch_agenda s' = sch_agenda s \<and> sch_deps s' = sch_deps s \<and> sch_rebased s' = sch_rebased s \<and>
    dom (slots (sch_facts s')) = dom (slots (sch_facts s))"
    using Cons.IH [of s1 ch1 fr1] Cons.prems st wave_reader_step [OF st] by simp
  ultimately show ?case by blast
qed auto

definition wave_measure :: "bool \<Rightarrow> ('p, 'j, 'f) Scheduler \<Rightarrow> 'f list \<Rightarrow> nat" where
  "wave_measure bq s fr = card (unlike bq (sch_facts s)) + length fr"

lemma finite_unlike [simp]: "finite (dom (slots t)) \<Longrightarrow> finite (unlike bq t)"
  by (simp add: unlike_def)

lemma wave_measure_readers:
  assumes st: "fold (wave_reader bq) ps (s, ch, fr) = (s', ch', fr')"
    and fin: "finite (dom (slots (sch_facts s)))"
  shows "wave_measure bq s' fr' = wave_measure bq s fr"
proof -
  from wave_readers_step [OF st] obtain fl where fl: "fr' = fr @ fl" "distinct fl"
      "set fl = unlike bq (sch_facts s) - unlike bq (sch_facts s')"
      "unlike bq (sch_facts s') \<subseteq> unlike bq (sch_facts s)" by blast
  have "finite (unlike bq (sch_facts s))" using fin by simp
  then have "card (unlike bq (sch_facts s)) = card (unlike bq (sch_facts s')) + length fl"
    using fl card_Diff_subset [of "unlike bq (sch_facts s')" "unlike bq (sch_facts s)"]
      card_mono [of "unlike bq (sch_facts s)" "unlike bq (sch_facts s')"] distinct_card [OF fl(2)]
    by (simp add: finite_subset)
  then show ?thesis using fl(1) by (simp add: wave_measure_def)
qed

text \<open>
  \<open>propagate_quiet_wave\<close>. A flipped fact leaves the set of facts the wave could flip, so
  the size of that set and the length of the frontier bound the loop.
\<close>

function propagate_quiet_wave ::
  "'f list \<Rightarrow> bool \<Rightarrow> ('p::linorder, 'j, 'f) Scheduler \<Rightarrow> 'f FactChange list \<Rightarrow>
   ('p, 'j, 'f) Scheduler \<times> 'f FactChange list" where
  "propagate_quiet_wave frontier became_quiet s changes =
     (if frontier = [] \<or> infinite (dom (slots (sch_facts s))) then (s, changes)
      else case fold (wave_reader became_quiet) (readers_of (sch_deps s) (last frontier))
                  (s, changes, butlast frontier) of
           (s', changes', frontier') \<Rightarrow> propagate_quiet_wave frontier' became_quiet s' changes')"
  by pat_completeness auto

termination
proof (relation "measure (\<lambda>(fr, bq, s, ch). wave_measure bq s fr)", goal_cases)
  case (2 frontier bq s ch s' y ch' frontier')
  then have "wave_measure bq s' frontier' = wave_measure bq s (butlast frontier)"
    using wave_measure_readers by metis
  then show ?case using 2 by (auto simp: wave_measure_def)
qed simp

declare propagate_quiet_wave.simps [simp del]

definition propagate_quiet_flips ::
  "'f OrderedSet \<Rightarrow> bool list \<Rightarrow> ('p::linorder, 'j, 'f) Scheduler \<Rightarrow> 'f FactChange list \<Rightarrow>
   ('p, 'j, 'f) Scheduler \<times> 'f FactChange list" where
  "propagate_quiet_flips keys quiet_before s changes =
     (let flips = zip (OrderedSet_iter keys) quiet_before;
          became_quiet = map fst (filter (\<lambda>(key, was_quiet). \<not> was_quiet \<and> FactTable_is_quiet (sch_facts s) key) flips);
          became_unquiet = map fst (filter (\<lambda>(key, was_quiet). was_quiet \<and> \<not> FactTable_is_quiet (sch_facts s) key) flips);
          (s1, changes1) = propagate_quiet_wave became_unquiet False s changes
      in propagate_quiet_wave became_quiet True s1 changes1)"

definition refresh_finality ::
  "'p::linorder \<Rightarrow> ('f \<Rightarrow> FactState option) \<Rightarrow> ('p, 'j, 'f) Scheduler \<Rightarrow> 'f FactChange list \<Rightarrow>
   ('p, 'j, 'f) Scheduler \<times> 'f FactChange list" where
  "refresh_finality publisher ext s changes =
     (let n = count_unfinal_reads s publisher ext;
          was_unfinal = is_unfinal s publisher;
          s1 = set_unfinal_reads publisher n s
      in if (n > 0) = was_unfinal then (s1, changes)
         else let keys = deps_output_keys (sch_deps s1) publisher;
                  quiet_before = quiet_snapshot s1 keys;
                  (changes', t) = set_keys_unfinal publisher (n > 0) (OrderedSet_iter keys) (sch_facts s1) changes
              in propagate_quiet_flips keys quiet_before (s1\<lparr>sch_facts := t\<rparr>) changes')"

definition dirty_claims ::
  "'p::linorder \<Rightarrow> ('p, 'j, 'f) Scheduler \<Rightarrow> 'f FactChange list \<Rightarrow>
   ('p, 'j, 'f) Scheduler \<times> 'f FactChange list" where
  "dirty_claims publisher s pending =
     (let keys = deps_output_keys (sch_deps s) publisher;
          quiet_before = quiet_snapshot s keys;
          (dirtied, t) = FactTable_mark_dirty publisher keys (sch_facts s)
      in propagate_quiet_flips keys quiet_before (s\<lparr>sch_facts := t\<rparr>) (pending @ dirtied))"

subsection \<open>Frames of the finality operations\<close>

lemma propagate_quiet_wave_Nil [simp]: "propagate_quiet_wave [] bq s ch = (s, ch)"
  by (simp add: propagate_quiet_wave.simps)

text \<open>What every round keeps, the wave keeps; the table being finite, it ends with no frontier.\<close>

lemma wave_loop_invariant:
  assumes round: "\<And>s ch fr s' ch' fr'. P s ch fr \<Longrightarrow> fr \<noteq> [] \<Longrightarrow> finite (dom (slots (sch_facts s))) \<Longrightarrow>
      fold (wave_reader bq) (readers_of (sch_deps s) (last fr)) (s, ch, butlast fr) = (s', ch', fr') \<Longrightarrow>
      P s' ch' fr'"
    and init: "P s ch fr" "finite (dom (slots (sch_facts s)))"
  shows "case propagate_quiet_wave fr bq s ch of (s', ch') \<Rightarrow> P s' ch' []"
  using init
proof (induction "wave_measure bq s fr" arbitrary: s ch fr rule: less_induct)
  case less
  show ?case
  proof (cases "fr = []")
    case True
    with less.prems show ?thesis by simp
  next
    case False
    obtain s' ch' fr' where f:
      "fold (wave_reader bq) (readers_of (sch_deps s) (last fr)) (s, ch, butlast fr) = (s', ch', fr')"
      by (metis prod_cases3)
    have "wave_measure bq s' fr' < wave_measure bq s fr"
      using wave_measure_readers [OF f less.prems(2)] False by (auto simp: wave_measure_def)
    moreover have "finite (dom (slots (sch_facts s')))"
      using wave_readers_step [OF f] less.prems(2) by simp
    ultimately show ?thesis
      using less.hyps round [OF less.prems(1) False less.prems(2) f] False less.prems(2)
      by (subst propagate_quiet_wave.simps) (simp add: f)
  qed
qed

lemma wave_readers_invariant:
  assumes step: "\<And>p s ch fr s' ch' fr'. wave_reader bq p (s, ch, fr) = (s', ch', fr') \<Longrightarrow> P s ch \<Longrightarrow> P s' ch'"
    and "fold (wave_reader bq) ps (s, ch, fr) = (s', ch', fr')" and "P s ch"
  shows "P s' ch'"
  using assms(2,3)
proof (induction ps arbitrary: s ch fr)
  case (Cons p ps)
  obtain s1 ch1 fr1 where st: "wave_reader bq p (s, ch, fr) = (s1, ch1, fr1)" by (metis prod_cases3)
  from Cons.IH [of s1 ch1 fr1] Cons.prems st step [OF st] show ?case by simp
qed auto

lemma wave_invariant:
  assumes step: "\<And>p s ch fr s' ch' fr'. wave_reader bq p (s, ch, fr) = (s', ch', fr') \<Longrightarrow> P s ch \<Longrightarrow> P s' ch'"
    and init: "P s ch"
  shows "case propagate_quiet_wave fr bq s ch of (s', ch') \<Rightarrow> P s' ch'"
proof (cases "finite (dom (slots (sch_facts s)))")
  case True
  show ?thesis
  proof (rule wave_loop_invariant [where P = "\<lambda>s ch fr. P s ch", OF _ init True])
    fix s ch fr s' ch' fr'
    assume "P s ch"
      and "fold (wave_reader bq) (readers_of (sch_deps s) (last fr)) (s, ch, butlast fr) = (s', ch', fr')"
    then show "P s' ch'" using wave_readers_invariant [of bq P] step by blast
  qed
next
  case False
  with init show ?thesis by (simp add: propagate_quiet_wave.simps)
qed

definition same_graph :: "('p, 'j, 'f) Scheduler \<Rightarrow> ('p, 'j, 'f) Scheduler \<Rightarrow> bool" where
  "same_graph s s' \<longleftrightarrow> sch_agenda s' = sch_agenda s \<and> sch_deps s' = sch_deps s \<and>
     sch_rebased s' = sch_rebased s \<and> dom (slots (sch_facts s')) = dom (slots (sch_facts s))"

lemma same_graph_refl [simp]: "same_graph s s"
  by (simp add: same_graph_def)

lemma same_graph_trans: "same_graph s s1 \<Longrightarrow> same_graph s1 s2 \<Longrightarrow> same_graph s s2"
  by (simp add: same_graph_def)

lemma same_graph_reader: "wave_reader bq p (s, ch, fr) = (s', ch', fr') \<Longrightarrow> same_graph s s'"
  using wave_reader_step [of bq p s ch fr s' ch' fr'] by (simp add: same_graph_def)

lemma same_graph_wave: "propagate_quiet_wave fr bq s ch = (s', ch') \<Longrightarrow> same_graph s s'"
  using wave_invariant [of bq "\<lambda>s1 _. same_graph s s1" s ch fr] same_graph_reader same_graph_trans by fastforce

lemma same_graph_flips: "propagate_quiet_flips keys qb s ch = (s', ch') \<Longrightarrow> same_graph s s'"
  by (auto simp: propagate_quiet_flips_def Let_def split: prod.splits dest!: same_graph_wave intro: same_graph_trans)

lemma mark_dirty_loop_slot:
  "slots (snd (mark_dirty_loop p keys t)) k =
     (if k \<in> set keys then map_option (dirtied_slot p) (slots t k) else slots t k)"
proof (induction keys arbitrary: t)
  case (Cons key keys)
  have "dirtied_slot p (dirtied_slot p sl) = dirtied_slot p sl" for sl
    by (simp add: dirtied_slot_def)
  then show ?case
    using Cons by (simp add: mark_dirty_loop_Cons dirtied_table_def option.map_comp comp_def)
qed simp

lemma mark_dirty_loop_dom: "dom (slots (snd (mark_dirty_loop p keys t))) = dom (slots t)"
  by (auto simp: mark_dirty_loop_slot dom_def split: if_splits)

lemma same_graph_dirty: "dirty_claims p s ch = (s', ch') \<Longrightarrow> same_graph s s'"
proof -
  assume "dirty_claims p s ch = (s', ch')"
  then obtain ds t where md: "FactTable_mark_dirty p (deps_output_keys (sch_deps s) p) (sch_facts s) = (ds, t)"
    and fl: "propagate_quiet_flips (deps_output_keys (sch_deps s) p)
      (quiet_snapshot s (deps_output_keys (sch_deps s) p)) (s\<lparr>sch_facts := t\<rparr>) (ch @ ds) = (s', ch')"
    by (auto simp: dirty_claims_def Let_def split: prod.splits)
  have "dom (slots t) = dom (slots (sch_facts s))"
    using md mark_dirty_loop_dom by (metis FactTable_mark_dirty_def snd_conv)
  then show ?thesis using same_graph_flips [OF fl] by (simp add: same_graph_def)
qed

subsection \<open>A dirtying wave only ever unsettles\<close>

definition settled_facts :: "('p, 'f) FactTable \<Rightarrow> 'f set" where
  "settled_facts t = {k. FactTable_is_settled t k}"

lemma settled_facts_dom: "settled_facts t \<subseteq> dom (slots t)"
  by (auto simp: settled_facts_def FactTable_is_settled_def split: option.splits)

text \<open>
  The changes appended are one for each fact that stopped being settled, so the settled
  facts and the pending changes together do not grow.
\<close>

definition unsettles ::
  "('p, 'f) FactTable \<Rightarrow> 'f FactChange list \<Rightarrow> ('p, 'f) FactTable \<Rightarrow> 'f FactChange list \<Rightarrow> bool" where
  "unsettles t ch t' ch' \<longleftrightarrow> dom (slots t') = dom (slots t) \<and>
     settled_facts t' \<subseteq> settled_facts t \<and>
     (\<exists>cs. ch' = ch @ cs \<and> distinct (map fc_key cs) \<and> fc_key ` set cs = settled_facts t - settled_facts t')"

lemma unsettles_refl [simp]: "unsettles t ch t ch"
  by (simp add: unsettles_def)

lemma unsettles_trans:
  assumes "unsettles t ch t1 ch1" and "unsettles t1 ch1 t2 ch2"
  shows "unsettles t ch t2 ch2"
proof -
  from assms obtain cs1 cs2 where
    1: "ch1 = ch @ cs1" "distinct (map fc_key cs1)" "fc_key ` set cs1 = settled_facts t - settled_facts t1" and
    2: "ch2 = ch1 @ cs2" "distinct (map fc_key cs2)" "fc_key ` set cs2 = settled_facts t1 - settled_facts t2" and
    sub: "settled_facts t1 \<subseteq> settled_facts t" "settled_facts t2 \<subseteq> settled_facts t1" and
    dom: "dom (slots t2) = dom (slots t)"
    by (auto simp: unsettles_def)
  have "ch2 = ch @ (cs1 @ cs2)" "fc_key ` set (cs1 @ cs2) = settled_facts t - settled_facts t2"
    using 1 2 sub unfolding set_append image_Un by (simp, blast)
  moreover have "distinct (map fc_key (cs1 @ cs2))"
    using 1 2 by auto
  ultimately show ?thesis using sub dom unfolding unsettles_def by blast
qed

lemma unsettles_measure:
  assumes "unsettles t ch t' ch'" and "finite (dom (slots t))"
  shows "card (settled_facts t') + length ch' = card (settled_facts t) + length ch"
proof -
  from assms(1) obtain cs where cs: "ch' = ch @ cs" "distinct (map fc_key cs)"
    "fc_key ` set cs = settled_facts t - settled_facts t'" "settled_facts t' \<subseteq> settled_facts t"
    unfolding unsettles_def by (elim conjE exE) (rule that)
  have fin: "finite (settled_facts t)" by (rule finite_subset [OF settled_facts_dom assms(2)])
  have "length cs = card (settled_facts t - settled_facts t')"
    using distinct_card [OF cs(2)] cs(3) by simp
  also have "\<dots> = card (settled_facts t) - card (settled_facts t')"
    using cs(4) fin by (simp add: card_Diff_subset finite_subset)
  finally show ?thesis using cs(1) card_mono [OF fin cs(4)] by simp
qed

lemma unsettles_slot:
  assumes t': "t' = t\<lparr>slots := (slots t)(key \<mapsto> s')\<rparr>" and s: "slots t key = Some s"
    and sub: "FactSlot_is_settled s' \<Longrightarrow> FactSlot_is_settled s"
  shows "unsettles t ch t' (ch @ (if FactSlot_is_settled s \<noteq> FactSlot_is_settled s'
     then [\<lparr>fc_key = key, fc_old_revision = r1, fc_new_revision = r2,
            fc_old_settled = b1, fc_new_settled = b2, fc_content_movement = m\<rparr>] else []))"
proof -
  have set': "k \<in> settled_facts t' \<longleftrightarrow> (if k = key then FactSlot_is_settled s' else k \<in> settled_facts t)" for k
    by (simp add: settled_facts_def FactTable_is_settled_def t')
  have key: "key \<in> settled_facts t \<longleftrightarrow> FactSlot_is_settled s"
    by (simp add: settled_facts_def FactTable_is_settled_def s)
  have "settled_facts t' \<subseteq> settled_facts t" using set' key sub by (auto split: if_splits)
  moreover have "dom (slots t') = dom (slots t)" using s by (auto simp: t')
  moreover have "settled_facts t - settled_facts t' = (if FactSlot_is_settled s \<noteq> FactSlot_is_settled s' then {key} else {})"
    (is "?D = ?K")
  proof (rule set_eqI)
    fix k show "k \<in> ?D \<longleftrightarrow> k \<in> ?K" using set' [of k] key sub by (cases "k = key") auto
  qed
  ultimately show ?thesis unfolding unsettles_def by simp
qed

lemma set_unfinal_Some:
  assumes "slots t key = Some s"
  shows "FactTable_set_publisher_unfinal key p u t =
    (if p \<notin> publishers s then (None, t)
     else (if FactSlot_is_settled s \<noteq> FactSlot_is_settled (unfinal_slot p u s)
           then Some \<lparr>fc_key = key, fc_old_revision = FactSlot_revision s, fc_new_revision = FactSlot_revision s,
                      fc_old_settled = FactSlot_is_settled s,
                      fc_new_settled = FactSlot_is_settled (unfinal_slot p u s), fc_content_movement = None\<rparr>
           else None,
           t\<lparr>slots := (slots t)(key \<mapsto> unfinal_slot p u s)\<rparr>))"
  using assms by (simp add: FactTable_set_publisher_unfinal_def Let_def unfinal_slot_def FactSlot_revision_def)

lemma unsettles_set_unfinal:
  "unsettles t ch (snd (FactTable_set_publisher_unfinal key p True t))
     (case fst (FactTable_set_publisher_unfinal key p True t) of None \<Rightarrow> ch | Some c \<Rightarrow> ch @ [c])"
proof (cases "slots t key")
  case None
  then show ?thesis by (simp add: FactTable_set_publisher_unfinal_def)
next
  case (Some s)
  have sub: "FactSlot_is_settled (unfinal_slot p True s) \<Longrightarrow> FactSlot_is_settled s"
    by (auto simp: unfinal_slot_def FactSlot_is_settled_def FactSlot_is_locally_settled_def set_membership_def split: if_splits)
  show ?thesis
    using unsettles_slot [OF refl Some, of "unfinal_slot p True s" ch "FactSlot_revision s" "FactSlot_revision s"
        "FactSlot_is_settled s" "FactSlot_is_settled (unfinal_slot p True s)" None] sub
    by (auto simp: set_unfinal_Some [OF Some] split: if_splits)
qed

lemma unsettles_flip_keys:
  "flip_keys p True keys t ch fr = (ch', fr', t') \<Longrightarrow> unsettles t ch t' ch'"
proof (induction keys arbitrary: t ch fr)
  case (Cons key keys)
  from Cons.prems show ?case
    using Cons.IH unsettles_set_unfinal [of t ch key p]
    by (auto simp: Let_def split: prod.splits intro: unsettles_trans)
qed auto

lemma unsettles_wave_reader:
  assumes "wave_reader False p (s, ch, fr) = (s', ch', fr')"
  shows "unsettles (sch_facts s) ch (sch_facts s') ch'"
  using assms wave_reader_sign [of p s False]
  by (auto simp: wave_reader_def Let_def split: prod.splits if_splits dest: unsettles_flip_keys)

lemma unsettles_wave:
  "propagate_quiet_wave fr False s ch = (s', ch') \<Longrightarrow> unsettles (sch_facts s) ch (sch_facts s') ch'"
  using wave_invariant [of False "\<lambda>s1 ch1. unsettles (sch_facts s) ch (sch_facts s1) ch1" s ch fr]
    unsettles_wave_reader unsettles_trans by fastforce

lemma dirtied_slot_settled: "FactSlot_is_settled (dirtied_slot p s) \<Longrightarrow> FactSlot_is_settled s"
  by (auto simp: dirtied_slot_def FactSlot_is_settled_def FactSlot_is_locally_settled_def split: if_splits)

lemma revision_dirtied [simp]: "FactSlot_revision (dirtied_slot p s) = FactSlot_revision s"
  by (simp add: dirtied_slot_def FactSlot_revision_def)

lemma unsettles_dirtied:
  "unsettles t ch (dirtied_table p key t) (ch @ dirtied_report p t key)"
proof (cases "slots t key")
  case None
  then show ?thesis
    by (simp add: dirtied_table_def dirtied_report_def slot_or_default_def FactSlot_default_def dirtied_slot_def fun_upd_idem)
next
  case (Some s)
  show ?thesis
    using unsettles_slot [OF refl Some, of "dirtied_slot p s" ch "FactSlot_revision s" "FactSlot_revision s"
        "FactSlot_is_settled s" "FactSlot_is_settled (dirtied_slot p s)" None] Some dirtied_slot_settled [of p s]
    by (auto simp: dirtied_table_def dirtied_report_def slot_or_default_def report_change_def)
qed

lemma unsettles_mark_dirty_loop:
  "mark_dirty_loop p keys t = (cs, t') \<Longrightarrow> unsettles t ch t' (ch @ cs)"
proof (induction keys arbitrary: t ch cs)
  case (Cons key keys)
  obtain cs1 where "mark_dirty_loop p keys (dirtied_table p key t) = (cs1, t')" "cs = dirtied_report p t key @ cs1"
    using Cons.prems by (auto simp: mark_dirty_loop_Cons prod_eq_iff)
  then show ?case
    using Cons.IH [of "dirtied_table p key t" cs1 "ch @ dirtied_report p t key"] unsettles_dirtied [of t ch p key]
    by (auto intro: unsettles_trans)
qed auto

lemma mark_dirty_quiet:
  "FactTable_is_quiet (snd (FactTable_mark_dirty p keys t)) k \<Longrightarrow> FactTable_is_quiet t k"
  by (auto simp: FactTable_mark_dirty_def FactTable_is_quiet_def mark_dirty_loop_slot dirtied_slot_def
      FactSlot_is_quiet_def split: if_splits option.splits)

text \<open>Where no claim became quiet, the second wave of the flips is empty.\<close>

lemma flips_unquiet:
  assumes "\<And>k. FactTable_is_quiet (sch_facts s) k \<Longrightarrow> FactTable_is_quiet t0 k"
  shows "propagate_quiet_flips keys (map (FactTable_is_quiet t0) (OrderedSet_iter keys)) s ch =
    propagate_quiet_wave (filter (\<lambda>k. FactTable_is_quiet t0 k \<and> \<not> FactTable_is_quiet (sch_facts s) k)
      (OrderedSet_iter keys)) False s ch"
proof -
  have z: "map fst (filter (\<lambda>(k, w). Q k w) (zip ks (map q ks))) = filter (\<lambda>k. Q k (q k)) ks"
    for Q q and ks :: "'a list"
    by (induction ks) auto
  have none: "filter (\<lambda>k. \<not> FactTable_is_quiet t0 k \<and> FactTable_is_quiet (sch_facts s) k) (OrderedSet_iter keys) = []"
    using assms by (auto simp: filter_empty_conv)
  show ?thesis
    unfolding propagate_quiet_flips_def Let_def z none by (simp split: prod.splits)
qed

lemma dirty_claims_wave:
  assumes "FactTable_mark_dirty p (deps_output_keys (sch_deps s) p) (sch_facts s) = (ds, t)"
  shows "dirty_claims p s ch = propagate_quiet_wave
     (filter (\<lambda>k. FactTable_is_quiet (sch_facts s) k \<and> \<not> FactTable_is_quiet t k)
       (OrderedSet_iter (deps_output_keys (sch_deps s) p))) False (s\<lparr>sch_facts := t\<rparr>) (ch @ ds)"
proof -
  have "FactTable_is_quiet (sch_facts (s\<lparr>sch_facts := t\<rparr>)) k \<Longrightarrow> FactTable_is_quiet (sch_facts s) k" for k
    using mark_dirty_quiet [of p "deps_output_keys (sch_deps s) p" "sch_facts s" k] assms by simp
  then show ?thesis
    using flips_unquiet [of "s\<lparr>sch_facts := t\<rparr>" "sch_facts s"] assms
    by (simp add: dirty_claims_def quiet_snapshot_def Let_def)
qed

lemma unsettles_dirty:
  assumes "dirty_claims p s ch = (s', ch')"
  shows "unsettles (sch_facts s) ch (sch_facts s') ch'"
proof -
  obtain ds t where md: "FactTable_mark_dirty p (deps_output_keys (sch_deps s) p) (sch_facts s) = (ds, t)"
    by fastforce
  have "unsettles (sch_facts s) ch t (ch @ ds)"
    using md unsettles_mark_dirty_loop by (auto simp: FactTable_mark_dirty_def)
  then show ?thesis
    using assms unsettles_wave [of _ "s\<lparr>sch_facts := t\<rparr>" "ch @ ds" s' ch'] unsettles_trans
    by (fastforce simp: dirty_claims_wave [OF md])
qed

section \<open>Waking dependents\<close>

definition enqueue_step ::
  "'j \<Rightarrow> 'f FactUse \<Rightarrow> bool \<Rightarrow> ('p, 'j, 'f) Scheduler \<times> ('j, 'f) Wake list \<Rightarrow>
   ('p, 'j, 'f) Scheduler \<times> ('j, 'f) Wake list" where
  "enqueue_step job cause shift = (\<lambda>(s, wakes).
     let (started, agenda) = Agenda_enqueue job (sch_agenda s);
         s1 = s\<lparr>sch_agenda := agenda\<rparr>;
         s2 = (if started then bump_work_start ChangedRevisionWake s1 else s1);
         disposition = (if started then Enqueued else Coalesced)
     in (s2, wakes @ [\<lparr>wake_cause = cause, wake_job = job, wake_disposition = disposition, wake_shift = shift\<rparr>]))"

text \<open>The loop body over the waiters of \<open>fact_use\<close>.\<close>

definition wake_waiter ::
  "('p::linorder, 'j, 'f) shape \<Rightarrow> ('f \<Rightarrow> FactState option) \<Rightarrow> 'f FactUse \<Rightarrow> bool \<Rightarrow> 'j \<Rightarrow>
   ('p, 'j, 'f) Scheduler \<times> 'f FactChange list \<times> ('j, 'f) Wake list \<Rightarrow>
   ('p, 'j, 'f) Scheduler \<times> 'f FactChange list \<times> ('j, 'f) Wake list" where
  "wake_waiter sh ext fact_use shift job = (\<lambda>(s, pending, wakes).
     if \<not> (\<forall>wait \<in> waits_for (sch_deps s) job. dependency_satisfies s wait ext) then (s, pending, wakes)
     else let own = sh_of_run sh job;
              (s1, pending1) = dirty_claims own s pending;
              s2 = (if shift then s1\<lparr>sch_rebased := insert own (sch_rebased s1)\<rparr> else s1);
              (s3, wakes1) = enqueue_step job fact_use shift (s2, wakes)
          in (s3, pending1, wakes1))"

definition wake_satisfied_waiters ::
  "('p::linorder, 'j::linorder, 'f) shape \<Rightarrow> ('f \<Rightarrow> FactState option) \<Rightarrow> 'f FactUse \<Rightarrow> bool \<Rightarrow>
   ('p, 'j, 'f) Scheduler \<times> 'f FactChange list \<times> ('j, 'f) Wake list \<Rightarrow>
   ('p, 'j, 'f) Scheduler \<times> 'f FactChange list \<times> ('j, 'f) Wake list" where
  "wake_satisfied_waiters sh ext fact_use shift = (\<lambda>(s, pending, wakes).
     fold (wake_waiter sh ext fact_use shift) (waiters (sch_deps s) fact_use) (s, pending, wakes))"

text \<open>The loop body over the subscribers, which also collects the jobs to wake.\<close>

definition reopen_subscriber ::
  "('p::linorder, 'j, 'f) shape \<Rightarrow> bool \<Rightarrow> 'p \<Rightarrow>
   ('p, 'j, 'f) Scheduler \<times> 'f FactChange list \<times> 'j OrderedSet \<Rightarrow>
   ('p, 'j, 'f) Scheduler \<times> 'f FactChange list \<times> 'j OrderedSet" where
  "reopen_subscriber sh shift publisher = (\<lambda>(s, pending, woken).
     let s1 = (if shift then s\<lparr>sch_rebased := insert publisher (sch_rebased s)\<rparr> else s);
         (s2, pending1) = dirty_claims publisher s1 pending
     in (s2, pending1, snd (OrderedSet_insert (sh_run sh publisher) woken)))"

definition enqueue_dependents ::
  "('p::linorder, 'j::linorder, 'f) shape \<Rightarrow> ('f \<Rightarrow> FactState option) \<Rightarrow> 'f FactUse \<Rightarrow> bool \<Rightarrow>
   ('p, 'j, 'f) Scheduler \<times> 'f FactChange list \<times> ('j, 'f) Wake list \<Rightarrow>
   ('p, 'j, 'f) Scheduler \<times> 'f FactChange list \<times> ('j, 'f) Wake list" where
  "enqueue_dependents sh ext fact_use shift = (\<lambda>(s, pending, wakes).
     let (s1, pending1, woken) =
           fold (reopen_subscriber sh shift) (subscribers (sch_deps s) fact_use) (s, pending, OrderedSet_default);
         (s2, wakes1) = fold (\<lambda>job. enqueue_step job fact_use shift) (OrderedSet_iter woken) (s1, wakes)
     in wake_satisfied_waiters sh ext fact_use shift (s2, pending1, wakes1))"

text \<open>The body of the dispatch loop for one change.\<close>

definition dispatch_change ::
  "('p::linorder, 'j::linorder, 'f) shape \<Rightarrow> ('f \<Rightarrow> FactState option) \<Rightarrow> 'f FactChange \<Rightarrow>
   ('p, 'j, 'f) Scheduler \<times> 'f FactChange list \<times> ('j, 'f) Wake list \<Rightarrow>
   ('p, 'j, 'f) Scheduler \<times> 'f FactChange list \<times> ('j, 'f) Wake list" where
  "dispatch_change sh ext change st =
     (let key = fc_key change
      in case fc_content_movement change of
           Some movement \<Rightarrow>
             let shift = (movement = Shift)
             in enqueue_dependents sh ext (Settled key) shift (enqueue_dependents sh ext (Current key) shift st)
         | None \<Rightarrow>
             let st1 = (if fc_old_revision change = None \<and> fc_new_revision change \<noteq> None
                        then wake_satisfied_waiters sh ext (Current key) False st else st)
             in if FactChange_readiness_changed change
                then enqueue_dependents sh ext (Settled key) False st1 else st1)"

subsection \<open>A dispatch step only unsettles and enqueues\<close>

definition advances ::
  "('p, 'j, 'f) Scheduler \<Rightarrow> 'f FactChange list \<Rightarrow> ('p, 'j, 'f) Scheduler \<Rightarrow> 'f FactChange list \<Rightarrow> bool" where
  "advances s ch s' ch' \<longleftrightarrow> unsettles (sch_facts s) ch (sch_facts s') ch' \<and> sch_deps s' = sch_deps s \<and>
     sch_rebased s \<subseteq> sch_rebased s' \<and> ag_queued (sch_agenda s) \<subseteq> ag_queued (sch_agenda s')"

lemma advances_refl [simp]: "advances s ch s ch"
  by (simp add: advances_def)

lemma advances_trans: "advances s ch s1 ch1 \<Longrightarrow> advances s1 ch1 s2 ch2 \<Longrightarrow> advances s ch s2 ch2"
  by (auto simp: advances_def intro: unsettles_trans)

lemma advances_dirty: "dirty_claims p s ch = (s', ch') \<Longrightarrow> advances s ch s' ch'"
  using same_graph_dirty [of p s ch s' ch'] unsettles_dirty [of p s ch s' ch']
  by (simp add: advances_def same_graph_def)

lemma enqueue_step_effect:
  assumes "enqueue_step job cause shift (s, wakes) = (s', wakes')"
  shows "sch_facts s' = sch_facts s" "sch_deps s' = sch_deps s" "sch_rebased s' = sch_rebased s"
    "read_finality s' = read_finality s" "sch_agenda s' = snd (Agenda_enqueue job (sch_agenda s))"
  using assms by (auto simp: enqueue_step_def bump_work_start_def Let_def split: prod.splits if_splits)

lemma advances_enqueue_step: "enqueue_step job cause shift (s, wakes) = (s', wakes') \<Longrightarrow> advances s ch s' ch"
  using enqueue_step_effect [of job cause shift s wakes s' wakes'] Agenda_queued_enqueue [of job "sch_agenda s"]
  by (auto simp: advances_def)

lemma advances_rebase: "advances s ch (s\<lparr>sch_rebased := insert p (sch_rebased s)\<rparr>) ch"
  by (auto simp: advances_def)

lemma advances_wake_waiter:
  assumes "wake_waiter sh ext u shift job (s, ch, wakes) = (s', ch', wakes')"
  shows "advances s ch s' ch'"
proof (cases "\<forall>wait \<in> waits_for (sch_deps s) job. dependency_satisfies s wait ext")
  case True
  obtain s1 ch1 where d: "dirty_claims (sh_of_run sh job) s ch = (s1, ch1)" by fastforce
  let ?s2 = "if shift then s1\<lparr>sch_rebased := insert (sh_of_run sh job) (sch_rebased s1)\<rparr> else s1"
  have e: "enqueue_step job u shift (?s2, wakes) = (s', wakes')" and "ch' = ch1"
    using assms True d by (auto simp: wake_waiter_def Let_def split: prod.splits)
  moreover have "advances s1 ch1 ?s2 ch1" by (simp add: advances_rebase)
  ultimately show ?thesis
    using advances_dirty [OF d] advances_enqueue_step [OF e] advances_trans by blast
qed (use assms in \<open>auto simp: wake_waiter_def\<close>)

lemma advances_fold:
  assumes "\<And>x s ch w s' ch' w'. f x (s, ch, w) = (s', ch', w') \<Longrightarrow> advances s ch s' ch'"
    and "fold f xs (s, ch, w) = (s', ch', w')"
  shows "advances s ch s' ch'"
  using assms(2)
proof (induction xs arbitrary: s ch w)
  case (Cons x xs)
  obtain s1 ch1 w1 where st: "f x (s, ch, w) = (s1, ch1, w1)" by (metis prod_cases3)
  with Cons.IH [of s1 ch1 w1] Cons.prems assms(1) [OF st] show ?case
    by (auto intro: advances_trans)
qed auto

lemma advances_waiters:
  "wake_satisfied_waiters sh ext u shift (s, ch, wakes) = (s', ch', wakes') \<Longrightarrow> advances s ch s' ch'"
  unfolding wake_satisfied_waiters_def using advances_fold advances_wake_waiter
  by (metis (no_types, lifting) case_prod_conv)

lemma advances_reopen:
  assumes "reopen_subscriber sh shift p (s, ch, woken) = (s', ch', woken')"
  shows "advances s ch s' ch'"
  using assms advances_dirty [of p _ ch s' ch'] advances_rebase [of s ch p] advances_trans
  by (fastforce simp: reopen_subscriber_def Let_def split: prod.splits if_splits)

lemma advances_enqueue_fold:
  assumes "fold (\<lambda>job. enqueue_step job u shift) jobs (s, wakes) = (s', wakes')"
  shows "advances s ch s' ch"
  using assms
proof (induction jobs arbitrary: s wakes)
  case (Cons job jobs)
  obtain s1 w1 where st: "enqueue_step job u shift (s, wakes) = (s1, w1)" by fastforce
  with Cons.IH [of s1 w1] Cons.prems advances_enqueue_step [OF st] show ?case
    by (auto intro: advances_trans)
qed auto

lemma advances_dependents:
  assumes "enqueue_dependents sh ext u shift (s, ch, wakes) = (s', ch', wakes')"
  shows "advances s ch s' ch'"
proof -
  obtain s1 ch1 woken where 1: "fold (reopen_subscriber sh shift) (subscribers (sch_deps s) u)
      (s, ch, OrderedSet_default) = (s1, ch1, woken)" by (metis prod_cases3)
  obtain s2 wakes1 where 2: "fold (\<lambda>job. enqueue_step job u shift) (OrderedSet_iter woken) (s1, wakes) = (s2, wakes1)"
    by fastforce
  have 3: "wake_satisfied_waiters sh ext u shift (s2, ch1, wakes1) = (s', ch', wakes')"
    using assms 1 2 by (simp add: enqueue_dependents_def)
  have "advances s ch s1 ch1" by (rule advances_fold [OF advances_reopen 1])
  then show ?thesis
    using advances_enqueue_fold [OF 2] advances_waiters [OF 3] advances_trans by blast
qed

lemma advances_dispatch_change:
  assumes "dispatch_change sh ext change (s, ch, wakes) = (s', ch', wakes')"
  shows "advances s ch s' ch'"
proof (cases "fc_content_movement change")
  case None
  let ?a = "fc_old_revision change = None \<and> fc_new_revision change \<noteq> None"
  obtain s1 ch1 w1 where 1: "(if ?a then wake_satisfied_waiters sh ext (Current (fc_key change)) False (s, ch, wakes)
      else (s, ch, wakes)) = (s1, ch1, w1)" by (metis prod_cases3)
  then have "advances s ch s1 ch1" by (auto split: if_splits dest: advances_waiters)
  moreover have "advances s1 ch1 s' ch'"
    using assms None 1 by (auto simp: dispatch_change_def Let_def split: if_splits dest: advances_dependents)
  ultimately show ?thesis by (rule advances_trans)
next
  case (Some m)
  obtain s1 ch1 w1 where 1: "enqueue_dependents sh ext (Current (fc_key change)) (m = Shift) (s, ch, wakes) = (s1, ch1, w1)"
    by (metis prod_cases3)
  with assms Some have 2: "enqueue_dependents sh ext (Settled (fc_key change)) (m = Shift) (s1, ch1, w1) = (s', ch', wakes')"
    by (simp add: dispatch_change_def)
  show ?thesis using advances_dependents [OF 1] advances_dependents [OF 2] by (rule advances_trans)
qed

text \<open>The next change of a wave is taken out of it.\<close>

lemma min_by_mem: "min_by cmp xs = Some x \<Longrightarrow> x \<in> set xs"
proof (cases xs)
  case (Cons y ys)
  have "fold (\<lambda>y m. if cmp m y = Greater then y else m) ys z \<in> insert z (set ys)" for z
    by (induction ys arbitrary: z) auto
  then show "min_by cmp xs = Some x \<Longrightarrow> x \<in> set xs" using Cons by auto
qed simp

lemma take_next_length:
  assumes "take_next_fact_change pending = Some (c, rest)"
  shows "length pending = Suc (length rest)"
proof -
  obtain i c' where m: "min_by change_order (enumerate 0 pending) = Some (i, c')" and
    rest: "rest = take i pending @ drop (Suc i) pending"
    using assms by (auto simp: take_next_fact_change_def split: option.splits prod.splits)
  have "i < length pending" using min_by_mem [OF m] by (simp add: in_set_enumerate_eq)
  then show ?thesis by (simp add: rest)
qed

function dispatch_loop ::
  "('p::linorder, 'j::linorder, 'f::linorder) shape \<Rightarrow> ('f \<Rightarrow> FactState option) \<Rightarrow>
   ('p, 'j, 'f) Scheduler \<Rightarrow> 'f FactChange list \<Rightarrow> ('j, 'f) Wake list \<Rightarrow> 'f set \<Rightarrow>
   ('p, 'j, 'f) Scheduler \<times> ('j, 'f) Wake list \<times> 'f set" where
  "dispatch_loop sh ext s pending wakes moved_keys =
     (if infinite (dom (slots (sch_facts s))) then (s, wakes, moved_keys)
      else case take_next_fact_change pending of
             None \<Rightarrow> (s, wakes, moved_keys)
           | Some (change, rest) \<Rightarrow>
               (case dispatch_change sh ext change (s, rest, wakes) of
                  (s', pending', wakes') \<Rightarrow>
                    dispatch_loop sh ext s' pending' wakes' (insert (fc_key change) moved_keys)))"
  by pat_completeness auto

termination
proof (relation "measure (\<lambda>(sh, ext, s, ch, wakes, moved). card (settled_facts (sch_facts s)) + length ch)", goal_cases)
  case (2 sh ext s ch wakes moved y change rest s' y' ch' wakes')
  then show ?case
    using advances_dispatch_change [of sh ext change s rest wakes s' ch' wakes']
      unsettles_measure [of "sch_facts s" rest "sch_facts s'" ch'] take_next_length [of ch change rest]
    by (auto simp: advances_def)
qed simp

declare dispatch_loop.simps [simp del]

definition dispatch_changes ::
  "('p::linorder, 'j::linorder, 'f::linorder) shape \<Rightarrow> ('f \<Rightarrow> FactState option) \<Rightarrow>
   ('p, 'j, 'f) Scheduler \<Rightarrow> 'f FactChange list \<Rightarrow>
   ('j, 'f) Wake list \<times> 'f FactMovement list \<times> ('p, 'j, 'f) Scheduler" where
  "dispatch_changes sh ext s pending =
     (let (s', wakes, moved_keys) = dispatch_loop sh ext s pending [] {};
          movements = map (\<lambda>key. \<lparr>fm_key = key, fm_state = dependency_state s' key ext\<rparr>)
                        (sorted_list_of_set moved_keys)
      in (wakes, movements, s'))"

section \<open>External movements\<close>

text \<open>The loop over external changes, with the assertion that each names an external dependency.\<close>

fun external_loop ::
  "('f \<Rightarrow> FactState option) \<Rightarrow> 'f FactChange list \<Rightarrow> ('p::linorder, 'j, 'f) Scheduler \<Rightarrow> 'f FactChange list \<Rightarrow>
   sched_panic + ('p, 'j, 'f) Scheduler \<times> 'f FactChange list" where
  "external_loop ext [] s pending = Inr (s, pending)"
| "external_loop ext (change # changes) s pending =
     (if ext (fc_key change) = None then Inl NotExternal
      else if FactChange_readiness_changed change
      then case propagate_quiet_wave [fc_key change] (fc_new_settled change) s pending of
             (s', pending') \<Rightarrow> external_loop ext changes s' pending'
      else external_loop ext changes s pending)"

definition apply_external_changes_ordered ::
  "('p::linorder, 'j::linorder, 'f::linorder) shape \<Rightarrow> ('f \<Rightarrow> FactState option) \<Rightarrow> 'f FactChange list \<Rightarrow>
   ('p, 'j, 'f) Scheduler \<Rightarrow> sched_panic + ('j, 'f) AppliedStep \<times> ('p, 'j, 'f) Scheduler" where
  "apply_external_changes_ordered sh ext changes0 s =
     (let changes = sort_key fc_key changes0
      in case external_loop ext changes s changes of
           Inl e \<Rightarrow> Inl e
         | Inr (s1, pending) \<Rightarrow>
             (case dispatch_changes sh ext s1 pending of
                (wakes, movements, s2) \<Rightarrow>
                  Inr (\<lparr>as_changed = changes, as_movements = movements, as_wakes = wakes, as_blocked = []\<rparr>, s2)))"

section \<open>The drain arbiter\<close>

text \<open>
  The walk of \<open>quiescent_cone\<close>. The reads of a publisher come out of a hash set; they are
  pushed here in their order as facts uses, and only the set of facts visited matters.
\<close>

definition cone_reads :: "('p::linorder, 'j, 'f::linorder) Scheduler \<Rightarrow> 'f \<Rightarrow> 'f list" where
  "cone_reads s key =
     concat (map (\<lambda>publisher. case deps_reads (sch_deps s) publisher of None \<Rightarrow> []
                    | Some reads \<Rightarrow> map FactUse_fact (sorted_list_of_set reads))
       (sorted_list_of_set (FactTable_publishers (sch_facts s) key)))"

lemma card_unseen_insert:
  assumes "finite D"
  shows "card (D - insert k S) \<le> card (D - S)" and "k \<in> D \<Longrightarrow> k \<notin> S \<Longrightarrow> card (D - insert k S) < card (D - S)"
proof -
  show "card (D - insert k S) \<le> card (D - S)" using assms by (intro card_mono) auto
  show "card (D - insert k S) < card (D - S)" if "k \<in> D" "k \<notin> S"
    using assms that by (intro psubset_card_mono) auto
qed

lemma unquiet_dom: "\<not> FactTable_is_quiet t k \<Longrightarrow> k \<in> dom (slots t)"
  by (auto simp: FactTable_is_quiet_def split: option.splits)

function cone_walk ::
  "('p::linorder, 'j, 'f::linorder) Scheduler \<Rightarrow> ('f \<Rightarrow> FactState option) \<Rightarrow> 'f list \<Rightarrow> 'f set \<Rightarrow> 'f list \<Rightarrow>
   'f list option" where
  "cone_walk s ext pending seen cone =
     (if pending = [] \<or> infinite (dom (slots (sch_facts s))) then Some cone
      else let key = last pending; pending1 = butlast pending
           in if key \<in> seen then cone_walk s ext pending1 seen cone
              else let seen1 = insert key seen
                   in case ext key of
                        Some state \<Rightarrow>
                          if \<not> fs_settled state then None else cone_walk s ext pending1 seen1 cone
                      | None \<Rightarrow>
                          if FactTable_is_quiet (sch_facts s) key then cone_walk s ext pending1 seen1 cone
                          else if \<not> FactTable_is_locally_settled (sch_facts s) key then None
                          else cone_walk s ext (pending1 @ cone_reads s key) seen1 (cone @ [key]))"
  by pat_completeness auto

termination
proof (relation "measures [\<lambda>(s, ext, pending, seen, cone). card (dom (slots (sch_facts s)) - seen),
    \<lambda>(s, ext, pending, seen, cone). length pending]", goal_cases)
  case (3 s ext pending seen cone)
  then show ?case using card_unseen_insert(1) [of "dom (slots (sch_facts s))" "last pending" seen]
    by (auto simp: le_less)
next
  case (5 s ext pending seen cone)
  then show ?case using card_unseen_insert(1) [of "dom (slots (sch_facts s))" "last pending" seen]
    by (auto simp: le_less)
next
  case (4 s ext pending seen cone)
  then have "last pending \<in> dom (slots (sch_facts s))" by (intro unquiet_dom) simp
  then have "card (dom (slots (sch_facts s)) - insert (last pending) seen) < card (dom (slots (sch_facts s)) - seen)"
    using 4 by (intro card_unseen_insert(2)) simp_all
  then show ?case using 4 by simp
qed auto

declare cone_walk.simps [simp del]

definition quiescent_cone ::
  "('p::linorder, 'j, 'f::linorder) Scheduler \<Rightarrow> 'f \<Rightarrow> ('f \<Rightarrow> FactState option) \<Rightarrow> 'f list option" where
  "quiescent_cone s key ext = cone_walk s ext [key] {} []"

text \<open>Certifying one publisher of the cone.\<close>

definition settle_publisher ::
  "'p::linorder \<Rightarrow> ('p, 'j, 'f) Scheduler \<times> 'f FactChange list \<Rightarrow> ('p, 'j, 'f) Scheduler \<times> 'f FactChange list" where
  "settle_publisher publisher = (\<lambda>(s, changes).
     let keys = deps_output_keys (sch_deps s) publisher;
         quiet_before = quiet_snapshot s keys;
         s1 = (case read_finality s publisher of None \<Rightarrow> s
               | Some state \<Rightarrow> s\<lparr>read_finality := (read_finality s)(publisher \<mapsto> Quiescent (ReadFinality_count state))\<rparr>);
         (changes1, t) = set_keys_unfinal publisher False (OrderedSet_iter keys) (sch_facts s1) changes
     in propagate_quiet_flips keys quiet_before (s1\<lparr>sch_facts := t\<rparr>) changes1)"

definition settle_quiescent_fact ::
  "('f \<Rightarrow> FactState option) \<Rightarrow> 'f \<Rightarrow> ('p::linorder, 'j, 'f::linorder) Scheduler \<times> 'f FactChange list \<Rightarrow>
   ('p, 'j, 'f) Scheduler \<times> 'f FactChange list" where
  "settle_quiescent_fact ext key = (\<lambda>(s, changes).
     if FactTable_is_quiet (sch_facts s) key \<or> \<not> FactTable_is_locally_settled (sch_facts s) key then (s, changes)
     else case quiescent_cone s key ext of
            None \<Rightarrow> (s, changes)
          | Some cone \<Rightarrow>
              let publishers = sorted_list_of_set (\<Union>k \<in> set cone. FactTable_publishers (sch_facts s) k)
              in fold settle_publisher publishers (s, changes))"

definition settle_quiescent_ordered_with_external ::
  "('p::linorder, 'j::linorder, 'f::linorder) shape \<Rightarrow> ('f \<Rightarrow> FactState option) \<Rightarrow> 'f list \<Rightarrow>
   ('p, 'j, 'f) Scheduler \<Rightarrow> ('j, 'f) AppliedStep \<times> ('p, 'j, 'f) Scheduler" where
  "settle_quiescent_ordered_with_external sh ext facts s =
     (let (s1, changes) =
            (if Agenda_is_empty (sch_agenda s) then fold (settle_quiescent_fact ext) facts (s, []) else (s, []));
          (wakes, movements, s2) = dispatch_changes sh ext s1 changes
      in (\<lparr>as_changed = changes, as_movements = movements, as_wakes = wakes, as_blocked = []\<rparr>, s2))"

definition settle_quiescent_ordered ::
  "('p::linorder, 'j::linorder, 'f::linorder) shape \<Rightarrow> 'f list \<Rightarrow>
   ('p, 'j, 'f) Scheduler \<Rightarrow> ('j, 'f) AppliedStep \<times> ('p, 'j, 'f) Scheduler" where
  "settle_quiescent_ordered sh facts s =
     settle_quiescent_ordered_with_external sh NoExternalDependencyStates facts s"

section \<open>Completing a run\<close>

record ('p, 'f) conclusion =
  con_derivation :: "('p, 'f) DerivationEffects"
  con_concluding :: bool
  con_rebased :: bool
  con_unfinal :: bool

text \<open>The first loop: record each answer's reads and refresh its finality.\<close>

definition record_derivation ::
  "('f \<Rightarrow> FactState option) \<Rightarrow> bool \<Rightarrow> 'p \<Rightarrow> ('p::linorder, 'f::linorder) DerivationEffects \<Rightarrow>
   ('p, 'j, 'f) Scheduler \<times> 'f FactChange list \<times> ('p, 'f) conclusion list \<times> 'p OrderedSet \<Rightarrow>
   ('p, 'j, 'f) Scheduler \<times> 'f FactChange list \<times> ('p, 'f) conclusion list \<times> 'p OrderedSet" where
  "record_derivation ext waiting own derivation0 = (\<lambda>(s, pending, conclusions, listed).
     let p = de_publisher derivation0;
         concluding = (\<not> (waiting \<and> p = own));
         derivation = derivation0\<lparr>de_outputs := sort (de_outputs derivation0),
                                  de_changed := sort (de_changed derivation0)\<rparr>;
         s1 = s\<lparr>sch_deps := (if concluding then replace_reads p (de_reads derivation0) (sch_deps s)
                             else union_reads p (de_reads derivation0) (sch_deps s))\<rparr>;
         rebased = (p \<in> sch_rebased s1);
         s2 = (if concluding then s1\<lparr>sch_rebased := sch_rebased s1 - {p}\<rparr> else s1);
         (s3, pending1) = refresh_finality p ext s2 pending;
         unfinal = is_unfinal s3 p
     in (s3, pending1,
         conclusions @ [\<lparr>con_derivation = derivation, con_concluding = concluding, con_rebased = rebased,
                         con_unfinal = unfinal\<rparr>],
         snd (OrderedSet_insert p listed)))"

definition touched_keys ::
  "('p, 'j, 'f) Scheduler \<Rightarrow> ('p, 'f) conclusion list \<Rightarrow> 'p list \<Rightarrow> 'f OrderedSet" where
  "touched_keys s conclusions unreached =
     (let touched1 = fold (\<lambda>c touched.
            OrderedSet_extend (OrderedSet_extend touched (de_outputs (con_derivation c)))
              (OrderedSet_iter (deps_output_keys (sch_deps s) (de_publisher (con_derivation c)))))
            conclusions OrderedSet_default
      in fold (\<lambda>publisher touched.
            OrderedSet_extend touched (OrderedSet_iter (deps_output_keys (sch_deps s) publisher)))
            unreached touched1)"

text \<open>The second loop: publish each answer.\<close>

fun publish_loop ::
  "('f \<Rightarrow> bool) \<Rightarrow> ('p, 'f) conclusion list \<Rightarrow> ('p, 'j, 'f) Scheduler \<Rightarrow> 'f FactChange list \<Rightarrow> 'f FactChange list \<Rightarrow>
   sched_panic + ('p, 'j, 'f) Scheduler \<times> 'f FactChange list \<times> 'f FactChange list" where
  "publish_loop cum [] s pending changed = Inr (s, pending, changed)"
| "publish_loop cum (c # cs) s pending changed =
     (let derivation = con_derivation c;
          publisher = de_publisher derivation;
          previous_keys = deps_output_keys (sch_deps s) publisher
      in if con_concluding c
         then case FactTable_replace_outputs_after_run cum publisher previous_keys (de_outputs derivation)
                     (de_changed derivation) (con_unfinal c) (con_rebased c) (sch_facts s) of
                Inl e \<Rightarrow> Inl (FactPanic e)
              | Inr (concluded, t) \<Rightarrow>
                  publish_loop cum cs
                    (s\<lparr>sch_facts := t, sch_deps := deps_replace_outputs publisher (fr_output_keys concluded) (sch_deps s)\<rparr>)
                    pending (changed @ fr_changed concluded)
         else case FactTable_extend_outputs_after_run cum publisher (de_outputs derivation)
                     (de_changed derivation) (con_unfinal c) (con_rebased c) (sch_facts s) of
                Inl e \<Rightarrow> Inl (FactPanic e)
              | Inr (extended, t) \<Rightarrow>
                  let claims = OrderedSet_extend previous_keys (OrderedSet_iter (fr_output_keys extended));
                      (dirtied, t') = FactTable_mark_dirty publisher claims t
                  in publish_loop cum cs
                       (s\<lparr>sch_facts := t', sch_deps := deps_replace_outputs publisher claims (sch_deps s)\<rparr>)
                       (pending @ dirtied) (changed @ fr_changed extended))"

text \<open>The third loop: an answer this run did not reach stays dirty, or is retracted.\<close>

fun unreached_loop ::
  "('f \<Rightarrow> bool) \<Rightarrow> bool \<Rightarrow> 'p list \<Rightarrow> ('p, 'j, 'f) Scheduler \<Rightarrow> 'f FactChange list \<Rightarrow> 'f FactChange list \<Rightarrow>
   sched_panic + ('p, 'j, 'f) Scheduler \<times> 'f FactChange list \<times> 'f FactChange list" where
  "unreached_loop cum waiting [] s pending changed = Inr (s, pending, changed)"
| "unreached_loop cum waiting (publisher # ps) s pending changed =
     (let previous_keys = deps_output_keys (sch_deps s) publisher
      in if waiting
         then case FactTable_mark_dirty publisher previous_keys (sch_facts s) of
                (dirtied, t) \<Rightarrow> unreached_loop cum waiting ps (s\<lparr>sch_facts := t\<rparr>) (pending @ dirtied) changed
         else case FactTable_replace_outputs_after_run cum publisher previous_keys [] [] False True (sch_facts s) of
                Inl e \<Rightarrow> Inl (FactPanic e)
              | Inr (retracted, t) \<Rightarrow>
                  unreached_loop cum waiting ps
                    (s\<lparr>sch_facts := t, sch_deps := forget publisher (sch_deps s),
                       sch_rebased := sch_rebased s - {publisher},
                       read_finality := (read_finality s)(publisher := None)\<rparr>)
                    pending (changed @ fr_changed retracted))"

definition complete_ordered_with_external ::
  "('p::linorder, 'j::linorder, 'f::linorder) shape \<Rightarrow> ('f \<Rightarrow> FactState option) \<Rightarrow> 'j \<Rightarrow> ('p, 'f) CompletionEffects \<Rightarrow>
   ('p, 'j, 'f) Scheduler \<Rightarrow> sched_panic + ('j, 'f) AppliedStep \<times> ('p, 'j, 'f) Scheduler" where
  "complete_ordered_with_external sh ext job effects s0 =
     (if \<not> (\<forall>d \<in> set (ce_derivations effects). \<forall>key \<in> set (de_outputs d) \<union> set (de_changed d). ext key = None)
      then Inl ExternalPublished
      else let waiting = (ce_waits effects \<noteq> {});
               own = sh_of_run sh job;
               blocked = sorted_list_of_set (ce_waits effects);
               s1 = s0\<lparr>sch_deps := replace_waits job (ce_waits effects) (sch_deps s0)\<rparr>;
               previously_owned = derivations_of (sch_deps s1) job;
               (s2, pending, conclusions, listed) =
                 fold (record_derivation ext waiting own) (ce_derivations effects) (s1, [], [], OrderedSet_default);
               unreached = filter (\<lambda>publisher. \<not> OrderedSet_contains listed publisher) (OrderedSet_iter previously_owned);
               touched = touched_keys s2 conclusions unreached;
               quiet_before = quiet_snapshot s2 touched
           in case publish_loop (sh_is_cumulative sh) conclusions s2 pending [] of
                Inl e \<Rightarrow> Inl e
              | Inr (s3, pending3, changed3) \<Rightarrow>
           (case unreached_loop (sh_is_cumulative sh) waiting unreached s3 pending3 changed3 of
                Inl e \<Rightarrow> Inl e
              | Inr (s4, pending4, changed) \<Rightarrow>
                  let owned = (if waiting
                        then OrderedSet_from_iter (OrderedSet_iter previously_owned @ OrderedSet_iter listed) else listed);
                      s5 = s4\<lparr>sch_deps := replace_derivations job owned (sch_deps s4)\<rparr>;
                      (s6, pending6) = propagate_quiet_flips touched quiet_before s5 (pending4 @ changed);
                      (wakes, movements, s7) = dispatch_changes sh ext s6 pending6
                  in Inr (\<lparr>as_changed = changed, as_movements = movements, as_wakes = wakes, as_blocked = blocked\<rparr>, s7)))"

definition complete_ordered ::
  "('p::linorder, 'j::linorder, 'f::linorder) shape \<Rightarrow> 'j \<Rightarrow> ('p, 'f) CompletionEffects \<Rightarrow>
   ('p, 'j, 'f) Scheduler \<Rightarrow> sched_panic + ('j, 'f) AppliedStep \<times> ('p, 'j, 'f) Scheduler" where
  "complete_ordered sh job effects s =
     complete_ordered_with_external sh NoExternalDependencyStates job effects s"

end
