(* ===== verification/Fz_Finality.thy ===== *)
theory Fz_Finality
  imports Fz_Scheduler
begin

text \<open>
  Transitive finality of the work graph (\<open>src/compiler2/scheduler.rs\<close>): the counts the
  waves maintain edge by edge are the counts a recount of every read set would give, and the
  flags in the fact table follow them.
\<close>

section \<open>The counts a recount would give\<close>

definition unquiet_reads :: "('p, 'j, 'f) Scheduler \<Rightarrow> ('f \<Rightarrow> FactState option) \<Rightarrow> 'p \<Rightarrow> 'f FactUse set" where
  "unquiet_reads s ext p = {u \<in> reads_of (sch_deps s) p. \<not> dependency_is_quiet s (FactUse_fact u) ext}"

definition finality_count :: "('p, 'j, 'f) Scheduler \<Rightarrow> 'p \<Rightarrow> nat" where
  "finality_count s p = (case read_finality s p of None \<Rightarrow> 0 | Some st \<Rightarrow> ReadFinality_count st)"

definition counts_exact :: "('p, 'j, 'f) Scheduler \<Rightarrow> ('f \<Rightarrow> FactState option) \<Rightarrow> bool" where
  "counts_exact s ext \<longleftrightarrow> (\<forall>p. finality_count s p = card (unquiet_reads s ext p))"

text \<open>How many uses of a list of facts a publisher reads.\<close>

definition uses :: "('p, 'j, 'f) Scheduler \<Rightarrow> 'p \<Rightarrow> 'f list \<Rightarrow> nat" where
  "uses s p fs = sum_list (map (\<lambda>f. card {u \<in> reads_of (sch_deps s) p. FactUse_fact u = f}) fs)"

lemma uses_simps [simp]:
  "uses s p [] = 0" "uses s p (fs @ gs) = uses s p fs + uses s p gs"
  "uses s p [f] = card {u \<in> reads_of (sch_deps s) p. FactUse_fact u = f}"
  by (simp_all add: uses_def)

lemma uses_deps: "sch_deps s' = sch_deps s \<Longrightarrow> uses s' = uses s"
  by (simp add: uses_def fun_eq_iff)

lemma uses_card:
  assumes "finite (reads_of (sch_deps s) p)" and "distinct fs"
  shows "uses s p fs = card {u \<in> reads_of (sch_deps s) p. FactUse_fact u \<in> set fs}"
  using assms(2)
proof (induction fs)
  case (Cons f fs)
  let ?R = "reads_of (sch_deps s) p"
  have "{u \<in> ?R. FactUse_fact u \<in> set (f # fs)} =
      {u \<in> ?R. FactUse_fact u = f} \<union> {u \<in> ?R. FactUse_fact u \<in> set fs}" by auto
  moreover have "card \<dots> = card {u \<in> ?R. FactUse_fact u = f} + card {u \<in> ?R. FactUse_fact u \<in> set fs}"
    using Cons.prems assms(1) by (intro card_Un_disjoint) auto
  ultimately show ?case using Cons by (simp add: uses_def)
qed (simp add: uses_def)

text \<open>External dependencies have no slot.\<close>

definition ext_disjoint :: "('f \<Rightarrow> FactState option) \<Rightarrow> ('p, 'f) FactTable \<Rightarrow> bool" where
  "ext_disjoint ext t \<longleftrightarrow> (\<forall>k \<in> dom (slots t). ext k = None)"

lemma quiet_flip:
  assumes "dom (slots t') = dom (slots t)" and "set fl = unlike bq t - unlike bq t'"
    and "unlike bq t' \<subseteq> unlike bq t"
  shows "FactTable_is_quiet t' k = (if k \<in> set fl then bq else FactTable_is_quiet t k)"
    and "k \<in> set fl \<Longrightarrow> FactTable_is_quiet t k = (\<not> bq)"
    and "set fl \<subseteq> dom (slots t)"
proof -
  have m: "k \<in> set fl \<longleftrightarrow> k \<in> unlike bq t \<and> k \<notin> unlike bq t'" for k using assms(2) by blast
  have sub: "k \<in> unlike bq t' \<Longrightarrow> k \<in> unlike bq t" for k using assms(3) by blast
  have d: "k \<in> dom (slots t') \<longleftrightarrow> k \<in> dom (slots t)" for k using assms(1) by simp
  have off: "k \<notin> dom (slots t) \<Longrightarrow> FactTable_is_quiet t k \<and> FactTable_is_quiet t' k" for k
    using d [of k] by (auto simp: FactTable_is_quiet_def split: option.splits)
  show "set fl \<subseteq> dom (slots t)" using assms(2) by (auto simp: unlike_def)
  show "k \<in> set fl \<Longrightarrow> FactTable_is_quiet t k = (\<not> bq)"
    using m [of k] by (auto simp: unlike_def)
  show "FactTable_is_quiet t' k = (if k \<in> set fl then bq else FactTable_is_quiet t k)"
  proof (cases "k \<in> dom (slots t)")
    case True
    then show ?thesis using m [of k] sub [of k] d [of k] unfolding unlike_def mem_Collect_eq by (cases "k \<in> set fl") auto
  next
    case False
    then show ?thesis using off [of k] m [of k] by (auto simp: unlike_def)
  qed
qed

lemma card_unquiet_flip:
  assumes t: "dom (slots (sch_facts s')) = dom (slots (sch_facts s))" "distinct fl"
      "set fl = unlike bq (sch_facts s) - unlike bq (sch_facts s')"
      "unlike bq (sch_facts s') \<subseteq> unlike bq (sch_facts s)"
    and deps: "sch_deps s' = sch_deps s" and fin: "finite (reads_of (sch_deps s) p)"
    and ext: "ext_disjoint ext (sch_facts s)"
  shows "if bq then card (unquiet_reads s' ext p) + uses s p fl = card (unquiet_reads s ext p)
    else card (unquiet_reads s' ext p) = card (unquiet_reads s ext p) + uses s p fl"
proof -
  let ?R = "reads_of (sch_deps s) p" and ?F = "{u \<in> reads_of (sch_deps s) p. FactUse_fact u \<in> set fl}"
  note q = quiet_flip [OF t(1,3,4)]
  have none: "k \<in> set fl \<Longrightarrow> ext k = None" for k using q(3) ext by (auto simp: ext_disjoint_def)
  have dq: "dependency_is_quiet s' k ext = (if k \<in> set fl then bq else dependency_is_quiet s k ext)" for k
    using q(1) [of k] none [of k] by (simp add: dependency_is_quiet_def split: option.splits)
  have was: "k \<in> set fl \<Longrightarrow> dependency_is_quiet s k ext = (\<not> bq)" for k
    using q(2) none by (simp add: dependency_is_quiet_def)
  have F: "uses s p fl = card ?F" by (rule uses_card [OF fin t(2)])
  show ?thesis
  proof (cases bq)
    case True
    have "unquiet_reads s ext p = unquiet_reads s' ext p \<union> ?F" "unquiet_reads s' ext p \<inter> ?F = {}"
      using dq was True by (auto simp: unquiet_reads_def deps)
    then show ?thesis using True F fin by (simp add: card_Un_disjoint unquiet_reads_def deps)
  next
    case False
    have "unquiet_reads s' ext p = unquiet_reads s ext p \<union> ?F" "unquiet_reads s ext p \<inter> ?F = {}"
      using dq was False by (auto simp: unquiet_reads_def deps)
    then show ?thesis using False F fin by (simp add: card_Un_disjoint unquiet_reads_def)
  qed
qed

section \<open>The books of a wave\<close>

text \<open>
  During a wave the counts differ from the recount by the facts still on the frontier and
  by the readers of the current fact not visited yet; \<open>Q\<close> are the facts whose turn to
  be quiet comes in the following wave.
\<close>

definition balanced ::
  "bool \<Rightarrow> ('f \<Rightarrow> FactState option) \<Rightarrow> 'f list \<Rightarrow> ('p, 'j, 'f) Scheduler \<Rightarrow> 'f list \<Rightarrow> 'p list \<Rightarrow> bool" where
  "balanced bq ext Q s fr rem \<longleftrightarrow> (\<forall>p.
     if bq then finality_count s p = card (unquiet_reads s ext p) + uses s p fr + count (mset rem) p
     else finality_count s p + uses s p fr + count (mset rem) p = card (unquiet_reads s ext p) + uses s p Q)"

lemma finality_count_set:
  "finality_count (set_read_finality p st s) q = (if q = p then ReadFinality_count st else finality_count s q)"
  by (simp add: finality_count_def set_read_finality_def)

lemma count_after_edge:
  "ReadFinality_count (after_edge st bq) = (if bq then ReadFinality_count st - 1 else ReadFinality_count st + 1)"
  by (cases st) (simp_all add: after_edge_def Let_def)

lemma wave_reader_count:
  assumes "wave_reader bq p (s, ch, fr) = (s', ch', fr')"
  shows "finality_count s' q = (if q = p then (if bq then finality_count s p - 1 else finality_count s p + 1)
    else finality_count s q)"
proof -
  let ?prev = "case read_finality s p of None \<Rightarrow> Pending 0 | Some st \<Rightarrow> st"
  have "read_finality s' = read_finality (set_read_finality p (after_edge ?prev bq) s)"
    using assms by (auto simp: wave_reader_def Let_def split: prod.splits if_splits)
  then have "finality_count s' q = finality_count (set_read_finality p (after_edge ?prev bq) s) q"
    by (simp add: finality_count_def)
  moreover have "ReadFinality_count ?prev = finality_count s p"
    by (simp add: finality_count_def split: option.splits)
  ultimately show ?thesis by (simp add: finality_count_set count_after_edge)
qed

lemma balanced_reader:
  assumes st: "wave_reader bq p (s, ch, fr) = (s', ch', fr')" and b: "balanced bq ext Q s fr (p # rem)"
    and fin: "\<And>q. finite (reads_of (sch_deps s) q)" and ext: "ext_disjoint ext (sch_facts s)"
  shows "balanced bq ext Q s' fr' rem"
proof -
  from wave_reader_step [OF st] obtain fl where fl: "fr' = fr @ fl" "distinct fl"
      "set fl = unlike bq (sch_facts s) - unlike bq (sch_facts s')"
      "unlike bq (sch_facts s') \<subseteq> unlike bq (sch_facts s)"
    and same: "sch_deps s' = sch_deps s" "dom (slots (sch_facts s')) = dom (slots (sch_facts s))" by blast
  have u: "uses s' = uses s" using same(1) by (rule uses_deps)
  show ?thesis
    unfolding balanced_def
  proof (intro allI)
    fix q
    note c = card_unquiet_flip [OF same(2) fl(2-4) same(1) fin [of q] ext]
    from b have "if bq then finality_count s q = card (unquiet_reads s ext q) + uses s q fr + count (mset (p # rem)) q
      else finality_count s q + uses s q fr + count (mset (p # rem)) q = card (unquiet_reads s ext q) + uses s q Q"
      unfolding balanced_def by blast
    then show "if bq then finality_count s' q = card (unquiet_reads s' ext q) + uses s' q fr' + count (mset rem) q
      else finality_count s' q + uses s' q fr' + count (mset rem) q = card (unquiet_reads s' ext q) + uses s' q Q"
      using c wave_reader_count [OF st, of q] fl(1) by (cases bq; cases "q = p") (simp_all add: u)
  qed
qed

lemma balanced_readers:
  assumes "fold (wave_reader bq) ps (s, ch, fr) = (s', ch', fr')" and "balanced bq ext Q s fr ps"
    and "\<And>q. finite (reads_of (sch_deps s) q)" and "ext_disjoint ext (sch_facts s)"
  shows "balanced bq ext Q s' fr' []"
  using assms
proof (induction ps arbitrary: s ch fr)
  case (Cons p ps)
  obtain s1 ch1 fr1 where st: "wave_reader bq p (s, ch, fr) = (s1, ch1, fr1)" by (metis prod_cases3)
  note step = wave_reader_step [OF st]
  show ?case
  proof (rule Cons.IH [of s1 ch1 fr1])
    show "fold (wave_reader bq) ps (s1, ch1, fr1) = (s', ch', fr')" using Cons.prems(1) st by simp
    show "balanced bq ext Q s1 fr1 ps" by (rule balanced_reader [OF st Cons.prems(2-4)])
    show "finite (reads_of (sch_deps s1) q)" for q using step Cons.prems(3) by simp
    show "ext_disjoint ext (sch_facts s1)" using step Cons.prems(4) by (simp add: ext_disjoint_def)
  qed
qed auto

text \<open>A wave that starts with balanced books ends with none outstanding.\<close>

lemma wave_balanced:
  assumes w: "propagate_quiet_wave fr bq s ch = (s', ch')" and b: "balanced bq ext Q s fr []"
    and wf: "deps_wf (sch_deps s)" "finite (dom (slots (sch_facts s)))" "ext_disjoint ext (sch_facts s)"
  shows "balanced bq ext Q s' [] []"
proof -
  let ?P = "\<lambda>s1 ch1 fr1. balanced bq ext Q s1 fr1 [] \<and> same_graph s s1"
  have "case propagate_quiet_wave fr bq s ch of (s', ch') \<Rightarrow> ?P s' ch' []"
  proof (rule wave_loop_invariant [where P = ?P])
    fix s1 ch1 fr1 s2 ch2 fr2
    assume P: "?P s1 ch1 fr1" and ne: "fr1 \<noteq> []"
      and f: "fold (wave_reader bq) (readers_of (sch_deps s1) (last fr1)) (s1, ch1, butlast fr1) = (s2, ch2, fr2)"
    have g: "sch_deps s1 = sch_deps s" "dom (slots (sch_facts s1)) = dom (slots (sch_facts s))"
      using P by (simp_all add: same_graph_def)
    have pop: "uses s1 p fr1 = uses s1 p (butlast fr1) + count (mset (readers_of (sch_deps s1) (last fr1))) p" for p
      using uses_simps(2) [of s1 p "butlast fr1" "[last fr1]"] append_butlast_last_id [OF ne]
      by (simp add: g(1) count_readers_of [OF wf(1)])
    have "balanced bq ext Q s1 fr1 []" using P by blast
    then have "balanced bq ext Q s1 (butlast fr1) (readers_of (sch_deps s1) (last fr1))"
      unfolding balanced_def pop by (cases bq) (simp_all add: add.assoc)
    then have "balanced bq ext Q s2 fr2 []"
      using balanced_readers [OF f] wf g by (simp add: ext_disjoint_def)
    moreover have "same_graph s1 s2" using wave_readers_step [OF f] by (simp add: same_graph_def)
    ultimately show "?P s2 ch2 fr2" using P same_graph_trans by blast
  qed (use b wf in auto)
  then show ?thesis using w by simp
qed

section \<open>The invariant of the work graph\<close>

text \<open>The table and the index agree on who claims what.\<close>

definition owns :: "('p, 'j, 'f) Scheduler \<Rightarrow> bool" where
  [wf_defs]: "owns s \<longleftrightarrow> (\<forall>p k. p \<in> FactTable_publishers (sch_facts s) k \<longleftrightarrow>
     k \<in> os_members (deps_output_keys (sch_deps s) p))"

text \<open>A publisher is flagged unfinal on a claim exactly while its reads are unfinal.\<close>

definition flags_follow :: "('p, 'j, 'f) Scheduler \<Rightarrow> bool" where
  "flags_follow s \<longleftrightarrow> (\<forall>k sl p. slots (sch_facts s) k = Some sl \<longrightarrow> p \<in> publishers sl \<longrightarrow>
     (p \<in> unfinal_publishers sl \<longleftrightarrow> is_unfinal s p))"

definition finality_pos :: "('p, 'j, 'f) Scheduler \<Rightarrow> bool" where
  [wf_defs]: "finality_pos s \<longleftrightarrow> (\<forall>p st. read_finality s p = Some st \<longrightarrow> 0 < ReadFinality_count st)"

definition graph_wf :: "('p, 'j, 'f) Scheduler \<Rightarrow> bool" where
  [wf_defs]: "graph_wf s \<longleftrightarrow> agenda_wf (sch_agenda s) \<and> ft_wf (sch_facts s) \<and> deps_wf (sch_deps s) \<and>
     owns s \<and> finality_pos s"

text \<open>Two tables that differ in their finality flags only.\<close>

definition reflag :: "('p, 'f) FactTable \<Rightarrow> ('p, 'f) FactTable \<Rightarrow> bool" where
  "reflag t t' \<longleftrightarrow> (\<forall>k. map_option (\<lambda>sl. sl\<lparr>unfinal_publishers := {}\<rparr>) (slots t' k) =
     map_option (\<lambda>sl. sl\<lparr>unfinal_publishers := {}\<rparr>) (slots t k))"

lemma reflag_refl [simp]: "reflag t t"
  by (simp add: reflag_def)

lemma reflag_trans: "reflag t t1 \<Longrightarrow> reflag t1 t2 \<Longrightarrow> reflag t t2"
  by (simp add: reflag_def)

lemma unfinal_slot_unfinal [simp]:
  "(unfinal_slot p u sl)\<lparr>unfinal_publishers := {}\<rparr> = sl\<lparr>unfinal_publishers := {}\<rparr>"
  "publishers (unfinal_slot p u sl) = publishers sl" "dirty_publishers (unfinal_slot p u sl) = dirty_publishers sl"
  by (simp_all add: unfinal_slot_def)

lemma reflag_unfinal_slots:
  assumes "\<And>k. slots t' k = (if k \<in> K then map_option (unfinal_slot p u) (slots t k) else slots t k)"
  shows "reflag t t'"
  unfolding reflag_def by (auto simp: assms option.map_comp comp_def)

lemma reflag_fields:
  assumes "reflag t t'"
  shows "FactTable_publishers t' k = FactTable_publishers t k"
    and "slots t' k = Some sl' \<Longrightarrow> \<exists>sl. slots t k = Some sl \<and> publishers sl' = publishers sl \<and>
      dirty_publishers sl' = dirty_publishers sl \<and> slot_revision sl' = slot_revision sl"
proof -
  have e: "map_option (\<lambda>sl. sl\<lparr>unfinal_publishers := {}\<rparr>) (slots t' k) =
      map_option (\<lambda>sl. sl\<lparr>unfinal_publishers := {}\<rparr>) (slots t k)"
    using assms by (simp add: reflag_def)
  have f: "publishers a = publishers b \<and> dirty_publishers a = dirty_publishers b \<and> slot_revision a = slot_revision b"
    if "a\<lparr>unfinal_publishers := {}\<rparr> = b\<lparr>unfinal_publishers := {}\<rparr>" for a b :: "'a FactSlot"
    using that by (cases a; cases b) simp
  show slot: "\<exists>sl. slots t k = Some sl \<and> publishers sl' = publishers sl \<and>
      dirty_publishers sl' = dirty_publishers sl \<and> slot_revision sl' = slot_revision sl"
    if "slots t' k = Some sl'" for sl'
  proof (cases "slots t k")
    case None
    with e that show ?thesis by simp
  next
    case (Some sl)
    with e that have "sl'\<lparr>unfinal_publishers := {}\<rparr> = sl\<lparr>unfinal_publishers := {}\<rparr>" by simp
    from f [OF this] Some show ?thesis by simp
  qed
  show "FactTable_publishers t' k = FactTable_publishers t k"
  proof (cases "slots t' k")
    case None
    with e have "slots t k = None" by simp
    with None show ?thesis by (simp add: FactTable_publishers_def)
  next
    case (Some sl')
    with slot [OF Some] show ?thesis by (auto simp: FactTable_publishers_def)
  qed
qed

lemma slot_wf_unfinal_slot: "slot_wf sl \<Longrightarrow> slot_wf (unfinal_slot p u sl)"
  by (simp add: unfinal_slot_def)

lemma ft_wf_unfinal_slots:
  assumes "ft_wf t" and "\<And>k. slots t' k = (if k \<in> K then map_option (unfinal_slot p u) (slots t k) else slots t k)"
  shows "ft_wf t'"
proof -
  have "dom (slots t') = dom (slots t)" by (auto simp: assms(2) dom_def split: if_splits)
  moreover have "slot_wf sl \<and> publishers sl \<noteq> {}" if "slots t' k = Some sl" for k sl
    using that assms(1) by (cases "k \<in> K") (auto simp: assms(2) ft_wf_def slot_wf_unfinal_slot)
  ultimately show ?thesis using assms(1) by (simp add: ft_wf_def)
qed

text \<open>What a reader's step does to the table and the flags.\<close>

lemma wave_reader_table:
  assumes st: "wave_reader bq p (s, ch, fr) = (s', ch', fr')"
  obtains K u where
    "\<And>k. slots (sch_facts s') k = (if k \<in> K then map_option (unfinal_slot p u) (slots (sch_facts s) k) else slots (sch_facts s) k)"
    "\<And>q. is_unfinal s' q = (if q = p then is_unfinal s' p else is_unfinal s q)"
    "K = {} \<and> is_unfinal s' p = is_unfinal s p \<or>
     K = set (OrderedSet_iter (deps_output_keys (sch_deps s) p)) \<and> u = is_unfinal s' p"
    "finality_pos s \<Longrightarrow> finality_pos s'"
proof -
  let ?prev = "case read_finality s p of None \<Rightarrow> Pending 0 | Some st \<Rightarrow> st"
  let ?s1 = "set_read_finality p (after_edge ?prev bq) s"
  have unf: "is_unfinal s' q = is_unfinal ?s1 q" for q
    using st by (auto simp: wave_reader_def is_unfinal_def Let_def split: prod.splits if_splits)
  have "read_finality s' = read_finality ?s1"
    using st by (auto simp: wave_reader_def Let_def split: prod.splits if_splits)
  then have pos: "finality_pos s \<Longrightarrow> finality_pos s'"
    by (auto simp: finality_pos_def set_read_finality_def split: if_splits)
  have others: "is_unfinal s' q = (if q = p then is_unfinal s' p else is_unfinal s q)" for q
    by (simp add: unf is_unfinal_set)
  show thesis
  proof (cases "is_unfinal ?s1 p = is_unfinal s p")
    case True
    then have "s' = ?s1" using st by (auto simp: wave_reader_def Let_def)
    then have "slots (sch_facts s') k = (if k \<in> {} then map_option (unfinal_slot p True) (slots (sch_facts s) k)
        else slots (sch_facts s) k)" for k by simp
    from that [OF this others _ pos] True \<open>s' = ?s1\<close> show thesis by blast
  next
    case False
    obtain t where flip: "flip_keys p (is_unfinal ?s1 p) (OrderedSet_iter (deps_output_keys (sch_deps s) p))
        (sch_facts s) ch fr = (ch', fr', t)" and s': "s' = ?s1\<lparr>sch_facts := t\<rparr>"
      using st False by (auto simp: wave_reader_def Let_def split: prod.splits)
    have "slots (sch_facts s') k = (if k \<in> set (OrderedSet_iter (deps_output_keys (sch_deps s) p))
        then map_option (unfinal_slot p (is_unfinal ?s1 p)) (slots (sch_facts s) k) else slots (sch_facts s) k)" for k
      using flip_keys_slots [OF flip, of k] by (simp add: s')
    from that [OF this others _ pos] unf show thesis by blast
  qed
qed

lemma owns_keys:
  assumes "owns s" and "deps_wf (sch_deps s)" and "slots (sch_facts s) k = Some sl" and "p \<in> publishers sl"
  shows "k \<in> set (OrderedSet_iter (deps_output_keys (sch_deps s) p))"
proof -
  have "p \<in> FactTable_publishers (sch_facts s) k" using assms(3,4) by (simp add: FactTable_publishers_def)
  then have "k \<in> os_members (deps_output_keys (sch_deps s) p)" using assms(1) by (simp add: owns_def)
  then show ?thesis using os_set_order [OF os_wf_output_keys [OF assms(2)]] by (simp add: OrderedSet_iter_def)
qed

lemma graph_wf_reader:
  assumes st: "wave_reader bq p (s, ch, fr) = (s', ch', fr')" and wf: "graph_wf s"
  shows "graph_wf s'" and "reflag (sch_facts s) (sch_facts s')" and "flags_follow s \<Longrightarrow> flags_follow s'"
proof -
  obtain K u where K:
    "\<And>k. slots (sch_facts s') k = (if k \<in> K then map_option (unfinal_slot p u) (slots (sch_facts s) k) else slots (sch_facts s) k)"
    "\<And>q. is_unfinal s' q = (if q = p then is_unfinal s' p else is_unfinal s q)"
    "K = {} \<and> is_unfinal s' p = is_unfinal s p \<or>
     K = set (OrderedSet_iter (deps_output_keys (sch_deps s) p)) \<and> u = is_unfinal s' p"
    "finality_pos s \<Longrightarrow> finality_pos s'"
    using wave_reader_table [OF st] by blast
  note step = wave_reader_step [OF st]
  show rf: "reflag (sch_facts s) (sch_facts s')" by (rule reflag_unfinal_slots [OF K(1)])
  have "owns s'" using wf step reflag_fields(1) [OF rf] by (simp add: graph_wf_def owns_def)
  then show "graph_wf s'"
    using wf step K(4) ft_wf_unfinal_slots [OF _ K(1)] by (simp add: graph_wf_def)
  show "flags_follow s'" if fl: "flags_follow s"
    unfolding flags_follow_def
  proof (intro allI impI)
    fix k sl' q assume k: "slots (sch_facts s') k = Some sl'" and q: "q \<in> publishers sl'"
    obtain sl where sl: "slots (sch_facts s) k = Some sl"
        "sl' = (if k \<in> K then unfinal_slot p u sl else sl)" "q \<in> publishers sl"
      using k q K(1) [of k] by (cases "k \<in> K") auto
    have "q \<in> unfinal_publishers sl \<longleftrightarrow> is_unfinal s q" using fl sl by (simp add: flags_follow_def)
    moreover have "q = p \<Longrightarrow> k \<notin> K \<and> is_unfinal s' p = is_unfinal s p \<or> k \<in> K \<and> u = is_unfinal s' p"
      using K(3) owns_keys [of s k sl p] wf sl by (auto simp: graph_wf_def)
    ultimately show "q \<in> unfinal_publishers sl' \<longleftrightarrow> is_unfinal s' q"
      using K(2) [of q] K(3) sl by (auto simp: unfinal_slot_def set_membership_def split: if_splits)
  qed
qed

text \<open>Everything a wave keeps, at once.\<close>

definition wave_keeps :: "('p, 'j, 'f) Scheduler \<Rightarrow> ('p, 'j, 'f) Scheduler \<Rightarrow> bool" where
  "wave_keeps s s' \<longleftrightarrow> same_graph s s' \<and> graph_wf s' \<and> reflag (sch_facts s) (sch_facts s') \<and>
     (flags_follow s \<longrightarrow> flags_follow s')"

lemma wave_keeps_refl [simp]: "wave_keeps s s \<longleftrightarrow> graph_wf s"
  by (simp add: wave_keeps_def)

lemma wave_keeps_trans: "wave_keeps s s1 \<Longrightarrow> wave_keeps s1 s2 \<Longrightarrow> wave_keeps s s2"
  by (auto simp: wave_keeps_def intro: same_graph_trans reflag_trans)

lemma wave_keeps_wave:
  assumes "propagate_quiet_wave fr bq s ch = (s', ch')" and "graph_wf s"
  shows "wave_keeps s s'"
proof -
  have "case propagate_quiet_wave fr bq s ch of (s', ch') \<Rightarrow> wave_keeps s s'"
  proof (rule wave_invariant [where P = "\<lambda>s1 _. wave_keeps s s1"])
    fix p s1 ch1 fr1 s2 ch2 fr2
    assume st: "wave_reader bq p (s1, ch1, fr1) = (s2, ch2, fr2)" and P: "wave_keeps s s1"
    then have "wave_keeps s1 s2"
      using graph_wf_reader [OF st] same_graph_reader [OF st] by (simp add: wave_keeps_def)
    with P show "wave_keeps s s2" by (rule wave_keeps_trans)
  qed (use assms in simp)
  then show ?thesis using assms by simp
qed

lemma wave_keeps_flips:
  assumes "propagate_quiet_flips keys qb s ch = (s', ch')" and "graph_wf s"
  shows "wave_keeps s s'"
proof -
  obtain fr1 fr2 s1 ch1 where 1: "propagate_quiet_wave fr1 False s ch = (s1, ch1)"
    and 2: "propagate_quiet_wave fr2 True s1 ch1 = (s', ch')"
    using assms(1) by (auto simp: propagate_quiet_flips_def Let_def split: prod.splits)
  have k1: "wave_keeps s s1" by (rule wave_keeps_wave [OF 1 assms(2)])
  then have "wave_keeps s1 s'" by (intro wave_keeps_wave [OF 2]) (simp add: wave_keeps_def)
  with k1 show ?thesis by (rule wave_keeps_trans)
qed

section \<open>Flips of a set of claims\<close>

text \<open>The reads of \<open>p\<close> that a table leaves unquiet.\<close>

definition unquiet_under ::
  "('f \<Rightarrow> FactState option) \<Rightarrow> ('p, 'f) FactTable \<Rightarrow> 'f FactUse set \<Rightarrow> 'f FactUse set" where
  "unquiet_under ext t R = {u \<in> R. \<not> (case ext (FactUse_fact u) of None \<Rightarrow> FactTable_is_quiet t (FactUse_fact u)
     | Some state \<Rightarrow> fs_settled state)}"

lemma unquiet_reads_under: "unquiet_reads s ext p = unquiet_under ext (sch_facts s) (reads_of (sch_deps s) p)"
  by (auto simp: unquiet_reads_def unquiet_under_def dependency_is_quiet_def split: option.splits)

lemma card_unquiet_flips:
  fixes R :: "'f FactUse set"
  assumes "finite R" and "\<And>k. k \<notin> K \<Longrightarrow> FactTable_is_quiet t k = FactTable_is_quiet t0 k" and "\<And>k. k \<in> K \<Longrightarrow> ext k = None"
  shows "card (unquiet_under ext t0 R) + card {u \<in> R. FactUse_fact u \<in> {k \<in> K. FactTable_is_quiet t0 k \<and> \<not> FactTable_is_quiet t k}} =
    card (unquiet_under ext t R) + card {u \<in> R. FactUse_fact u \<in> {k \<in> K. \<not> FactTable_is_quiet t0 k \<and> FactTable_is_quiet t k}}"
proof -
  let ?A = "unquiet_under ext t0 R" and ?B = "unquiet_under ext t R"
  have "{u \<in> R. FactUse_fact u \<in> {k \<in> K. FactTable_is_quiet t0 k \<and> \<not> FactTable_is_quiet t k}} = ?B - ?A"
    using assms(2,3) by (fastforce simp: unquiet_under_def split: option.splits)
  moreover have "{u \<in> R. FactUse_fact u \<in> {k \<in> K. \<not> FactTable_is_quiet t0 k \<and> FactTable_is_quiet t k}} = ?A - ?B"
    using assms(2,3) by (fastforce simp: unquiet_under_def split: option.splits)
  moreover have "finite ?A" "finite ?B" using assms(1) by (simp_all add: unquiet_under_def)
  ultimately show ?thesis
    using card_Un_disjoint [of ?A "?B - ?A"] card_Un_disjoint [of ?B "?A - ?B"] by (simp add: Un_commute)
qed

lemma flips_counts:
  assumes fl: "propagate_quiet_flips keys (map (FactTable_is_quiet t0) (OrderedSet_iter keys)) s ch = (s', ch')"
    and count: "\<And>p. finality_count s p = card (unquiet_under ext t0 (reads_of (sch_deps s) p))"
    and off: "\<And>k. k \<notin> os_members keys \<Longrightarrow> FactTable_is_quiet (sch_facts s) k = FactTable_is_quiet t0 k"
    and ext: "\<And>k. k \<in> os_members keys \<Longrightarrow> ext k = None" "ext_disjoint ext (sch_facts s)"
    and wf: "os_wf keys" "deps_wf (sch_deps s)" "finite (dom (slots (sch_facts s)))"
  shows "counts_exact s' ext"
proof -
  let ?was = "FactTable_is_quiet t0" and ?now = "FactTable_is_quiet (sch_facts s)" and ?ks = "OrderedSet_iter keys"
  let ?U = "filter (\<lambda>k. ?was k \<and> \<not> ?now k) ?ks" and ?Q = "filter (\<lambda>k. \<not> ?was k \<and> ?now k) ?ks"
  have z: "map fst (filter (\<lambda>(k, w). P k w) (zip ks (map q ks))) = filter (\<lambda>k. P k (q k)) ks"
    for P q and ks :: "'c list" by (induction ks) auto
  obtain s1 ch1 where 1: "propagate_quiet_wave ?U False s ch = (s1, ch1)" by fastforce
  have 2: "propagate_quiet_wave ?Q True s1 ch1 = (s', ch')"
    using fl [unfolded propagate_quiet_flips_def Let_def z] 1 by - simp
  have ks: "distinct ?ks" "set ?ks = os_members keys"
    using wf(1) by (simp_all add: OrderedSet_iter_def os_wf_def)
  have "balanced False ext ?Q s ?U []"
    unfolding balanced_def
  proof (intro allI)
    fix p
    let ?R = "reads_of (sch_deps s) p"
    have fin: "finite ?R" using wf(2) by simp
    have "uses s p ?U = card {u \<in> ?R. FactUse_fact u \<in> {k \<in> os_members keys. ?was k \<and> \<not> ?now k}}"
      and "uses s p ?Q = card {u \<in> ?R. FactUse_fact u \<in> {k \<in> os_members keys. \<not> ?was k \<and> ?now k}}"
      using uses_card [OF fin] ks by simp_all
    then show "if False then finality_count s p = card (unquiet_reads s ext p) + uses s p ?U + count (mset []) p
      else finality_count s p + uses s p ?U + count (mset []) p = card (unquiet_reads s ext p) + uses s p ?Q"
      using card_unquiet_flips [OF fin off ext(1)] count [of p] by (simp add: unquiet_reads_under)
  qed
  from wave_balanced [OF 1 this wf(2,3) ext(2)] have "balanced False ext ?Q s1 [] []" .
  then have b: "balanced True ext [] s1 ?Q []" by (simp add: balanced_def)
  have g: "same_graph s s1" by (rule same_graph_wave [OF 1])
  have "balanced True ext [] s' [] []"
    by (rule wave_balanced [OF 2 b]) (use g wf ext in \<open>simp_all add: same_graph_def ext_disjoint_def\<close>)
  then show ?thesis by (simp add: balanced_def counts_exact_def)
qed

section \<open>Finality operations keep the invariant\<close>

definition sched_inv :: "('f \<Rightarrow> FactState option) \<Rightarrow> ('p, 'j, 'f) Scheduler \<Rightarrow> bool" where
  "sched_inv ext s \<longleftrightarrow> graph_wf s \<and> ext_disjoint ext (sch_facts s) \<and> counts_exact s ext"

lemma ft_wf_finite [simp]: "ft_wf t \<Longrightarrow> finite (dom (slots t))"
  by (simp add: ft_wf_def)

lemma ext_disjoint_reflag: "reflag t t' \<Longrightarrow> ext_disjoint ext t' = ext_disjoint ext t"
proof -
  assume r: "reflag t t'"
  have "slots t' k = None \<longleftrightarrow> slots t k = None" for k
    using r by (metis reflag_def option.map_disc_iff)
  then have "dom (slots t') = dom (slots t)" by (simp add: dom_def)
  then show ?thesis by (simp add: ext_disjoint_def)
qed

text \<open>The common case: a table change that is then propagated through the flips of some keys.\<close>

lemma flips_keep:
  assumes fl: "propagate_quiet_flips keys (map (FactTable_is_quiet t0) (OrderedSet_iter keys)) s ch = (s', ch')"
    and wf: "graph_wf s" "os_wf keys" "ext_disjoint ext (sch_facts s)"
    and count: "\<And>p. finality_count s p = card (unquiet_under ext t0 (reads_of (sch_deps s) p))"
    and off: "\<And>k. k \<notin> os_members keys \<Longrightarrow> FactTable_is_quiet (sch_facts s) k = FactTable_is_quiet t0 k"
    and ext: "\<And>k. k \<in> os_members keys \<Longrightarrow> ext k = None"
  shows "sched_inv ext s' \<and> wave_keeps s s'"
proof -
  have k: "wave_keeps s s'" by (rule wave_keeps_flips [OF fl wf(1)])
  have "counts_exact s' ext"
    by (rule flips_counts [OF fl count off ext wf(3) wf(2)]) (use wf in \<open>simp_all add: graph_wf_def\<close>)
  then show ?thesis
    using k wf ext_disjoint_reflag by (auto simp: sched_inv_def wave_keeps_def)
qed

lemma owned_dom:
  assumes "graph_wf s" and "k \<in> os_members (deps_output_keys (sch_deps s) p)"
  shows "k \<in> dom (slots (sch_facts s))"
proof -
  have "p \<in> FactTable_publishers (sch_facts s) k" using assms by (simp add: graph_wf_def owns_def)
  then show ?thesis by (auto simp: FactTable_publishers_def split: option.splits)
qed

lemma owned_not_external:
  "sched_inv ext s \<Longrightarrow> k \<in> os_members (deps_output_keys (sch_deps s) p) \<Longrightarrow> ext k = None"
  using owned_dom [of s k p] by (auto simp: sched_inv_def ext_disjoint_def)

lemma mark_dirty_slots:
  "slots (snd (FactTable_mark_dirty p keys t)) k =
     (if k \<in> set (OrderedSet_iter keys) then map_option (dirtied_slot p) (slots t k) else slots t k)"
  by (simp add: FactTable_mark_dirty_def mark_dirty_loop_slot)

lemma publishers_mark_dirty:
  "FactTable_publishers (snd (FactTable_mark_dirty p keys t)) k = FactTable_publishers t k"
  by (auto simp: FactTable_publishers_def mark_dirty_slots split: option.splits)

lemma graph_wf_mark_dirty:
  assumes "graph_wf s" and "os_wf keys"
  shows "graph_wf (s\<lparr>sch_facts := snd (FactTable_mark_dirty p keys (sch_facts s))\<rparr>)"
  using assms ft_wf_mark_dirty [of "sch_facts s" keys p]
  by (simp add: graph_wf_def owns_def finality_pos_def publishers_mark_dirty)

lemma flags_mark_dirty:
  assumes "flags_follow s"
  shows "flags_follow (s\<lparr>sch_facts := snd (FactTable_mark_dirty p keys (sch_facts s))\<rparr>)"
  using assms
  by (auto simp: flags_follow_def is_unfinal_def mark_dirty_slots dirtied_slot_def split: if_splits)

lemma finality_count_facts [simp]: "finality_count (s\<lparr>sch_facts := t\<rparr>) = finality_count s"
  by (simp add: finality_count_def fun_eq_iff)

lemma dom_mark_dirty: "dom (slots (snd (FactTable_mark_dirty p keys t))) = dom (slots t)"
  by (auto simp: mark_dirty_slots dom_def split: if_splits)

lemma dirty_claims_inv:
  assumes d: "dirty_claims p s ch = (s', ch')" and inv: "sched_inv ext s"
  shows "sched_inv ext s'" and "flags_follow s \<Longrightarrow> flags_follow s'" and "same_graph s s'"
    and "reflag (snd (FactTable_mark_dirty p (deps_output_keys (sch_deps s) p) (sch_facts s))) (sch_facts s')"
proof -
  let ?keys = "deps_output_keys (sch_deps s) p"
  let ?t = "snd (FactTable_mark_dirty p ?keys (sch_facts s))"
  have wf: "graph_wf s" "ext_disjoint ext (sch_facts s)" "os_wf ?keys"
    using inv by (simp_all add: sched_inv_def graph_wf_def)
  obtain ch1 where fl: "propagate_quiet_flips ?keys (map (FactTable_is_quiet (sch_facts s)) (OrderedSet_iter ?keys))
      (s\<lparr>sch_facts := ?t\<rparr>) ch1 = (s', ch')"
    using d by (auto simp: dirty_claims_def quiet_snapshot_def Let_def split: prod.splits)
  have ks: "set (OrderedSet_iter ?keys) = os_members ?keys"
    using wf(3) by (simp add: OrderedSet_iter_def os_set_order)
  have k: "sched_inv ext s' \<and> wave_keeps (s\<lparr>sch_facts := ?t\<rparr>) s'"
  proof (rule flips_keep [OF fl graph_wf_mark_dirty [OF wf(1,3)] wf(3)])
    show "finality_count (s\<lparr>sch_facts := ?t\<rparr>) q =
        card (unquiet_under ext (sch_facts s) (reads_of (sch_deps (s\<lparr>sch_facts := ?t\<rparr>)) q))" for q
      using inv by (simp add: sched_inv_def counts_exact_def unquiet_reads_under)
    show "ext_disjoint ext (sch_facts (s\<lparr>sch_facts := ?t\<rparr>))"
      using wf(2) by (simp add: ext_disjoint_def dom_mark_dirty)
    show "FactTable_is_quiet (sch_facts (s\<lparr>sch_facts := ?t\<rparr>)) k = FactTable_is_quiet (sch_facts s) k"
      if "k \<notin> os_members ?keys" for k
      using that by (simp add: FactTable_is_quiet_def mark_dirty_slots ks)
    show "ext k = None" if "k \<in> os_members ?keys" for k using owned_not_external [OF inv that] .
  qed
  then show "sched_inv ext s'" by blast
  show "flags_follow s'" if "flags_follow s"
    using k flags_mark_dirty [OF that] by (auto simp: wave_keeps_def)
  show "reflag ?t (sch_facts s')" using k by (simp add: wave_keeps_def)
  show "same_graph s s'" by (rule same_graph_dirty [OF d])
qed

lemma set_keys_unfinal_slots:
  "set_keys_unfinal p u keys t ch = (ch', t') \<Longrightarrow>
   slots t' k = (if k \<in> set keys then map_option (unfinal_slot p u) (slots t k) else slots t k)"
proof (induction keys arbitrary: t ch)
  case (Cons key keys)
  let ?t1 = "snd (FactTable_set_publisher_unfinal key p u t)"
  obtain ch1 where "set_keys_unfinal p u keys ?t1 ch1 = (ch', t')"
    using Cons.prems by (auto simp: Let_def split: prod.splits)
  from Cons.IH [OF this] show ?case
    by (auto simp: set_unfinal_slots option.map_comp comp_def option.map_ident)
qed auto

text \<open>Flagging one publisher on all of its claims, after its finality moved to \<open>u\<close>.\<close>

lemma flag_claims:
  assumes sl: "set_keys_unfinal p u (OrderedSet_iter (deps_output_keys (sch_deps s) p)) (sch_facts s) ch = (ch1, t)"
    and wf: "graph_wf s"
  shows "graph_wf (s\<lparr>sch_facts := t\<rparr>)" and "reflag (sch_facts s) t"
    and "(\<And>q k sl. q \<noteq> p \<Longrightarrow> slots (sch_facts s) k = Some sl \<Longrightarrow> q \<in> publishers sl \<Longrightarrow>
          (q \<in> unfinal_publishers sl \<longleftrightarrow> is_unfinal s q)) \<Longrightarrow> is_unfinal s p = u \<Longrightarrow>
        flags_follow (s\<lparr>sch_facts := t\<rparr>)"
    and "k \<notin> os_members (deps_output_keys (sch_deps s) p) \<Longrightarrow> slots t k = slots (sch_facts s) k"
proof -
  let ?K = "set (OrderedSet_iter (deps_output_keys (sch_deps s) p))"
  have st: "slots t k = (if k \<in> ?K then map_option (unfinal_slot p u) (slots (sch_facts s) k) else slots (sch_facts s) k)" for k
    by (rule set_keys_unfinal_slots [OF sl])
  show rf: "reflag (sch_facts s) t" by (rule reflag_unfinal_slots [OF st])
  show "graph_wf (s\<lparr>sch_facts := t\<rparr>)"
    using wf ft_wf_unfinal_slots [OF _ st] reflag_fields(1) [OF rf]
    by (simp add: graph_wf_def owns_def finality_pos_def)
  show "k \<notin> os_members (deps_output_keys (sch_deps s) p) \<Longrightarrow> slots t k = slots (sch_facts s) k"
    using wf by (simp add: st OrderedSet_iter_def os_set_order graph_wf_def)
  show "flags_follow (s\<lparr>sch_facts := t\<rparr>)"
    if others: "\<And>q k sl. q \<noteq> p \<Longrightarrow> slots (sch_facts s) k = Some sl \<Longrightarrow> q \<in> publishers sl \<Longrightarrow>
          (q \<in> unfinal_publishers sl \<longleftrightarrow> is_unfinal s q)" and own: "is_unfinal s p = u"
    unfolding flags_follow_def
  proof (intro allI impI)
    fix k sl' q assume k: "slots (sch_facts (s\<lparr>sch_facts := t\<rparr>)) k = Some sl'" and q: "q \<in> publishers sl'"
    obtain sl where s1: "slots (sch_facts s) k = Some sl"
        "sl' = (if k \<in> ?K then unfinal_slot p u sl else sl)" "q \<in> publishers sl"
      using k q st [of k] by (cases "k \<in> ?K") auto
    have "is_unfinal (s\<lparr>sch_facts := t\<rparr>) q = is_unfinal s q" by (simp add: is_unfinal_def)
    moreover have "q = p \<Longrightarrow> k \<in> ?K" using owns_keys [of s k sl p] wf s1 by (simp add: graph_wf_def)
    ultimately show "q \<in> unfinal_publishers sl' \<longleftrightarrow> is_unfinal (s\<lparr>sch_facts := t\<rparr>) q"
      using others [OF _ s1(1,3)] own s1
      by (cases "q = p") (auto simp: unfinal_slot_def set_membership_def split: if_splits)
  qed
qed

lemma count_unfinal_reads_card:
  "deps_wf (sch_deps s) \<Longrightarrow> count_unfinal_reads s p ext = card (unquiet_reads s ext p)"
  by (auto simp: count_unfinal_reads_def unquiet_reads_def reads_of_def deps_reads_def split: option.splits)

lemma graph_wf_set_read_finality:
  "graph_wf s \<Longrightarrow> graph_wf (set_read_finality p st s)"
  by (auto simp: graph_wf_def owns_def finality_pos_def set_read_finality_def split: if_splits)

lemma refresh_finality_inv:
  assumes r: "refresh_finality p ext s ch = (s', ch')" and wf: "graph_wf s" "ext_disjoint ext (sch_facts s)"
    and others: "\<And>q. q \<noteq> p \<Longrightarrow> finality_count s q = card (unquiet_reads s ext q)"
  shows "sched_inv ext s'" and "flags_follow s \<Longrightarrow> flags_follow s'" and "same_graph s s'"
    and "reflag (sch_facts s) (sch_facts s')"
proof -
  let ?n = "count_unfinal_reads s p ext"
  let ?s1 = "set_unfinal_reads p ?n s"
  have s1: "graph_wf ?s1" "sch_facts ?s1 = sch_facts s" "sch_deps ?s1 = sch_deps s"
      "sch_agenda ?s1 = sch_agenda s" "sch_rebased ?s1 = sch_rebased s"
    using graph_wf_set_read_finality [OF wf(1)] by (simp_all add: set_unfinal_reads_def)
  have n: "?n = card (unquiet_reads s ext p)"
    using wf(1) by (simp add: count_unfinal_reads_card graph_wf_def)
  have u: "unquiet_reads ?s1 ext q = unquiet_reads s ext q" for q by (simp add: unquiet_reads_under s1)
  have cnt: "finality_count ?s1 q = card (unquiet_reads s ext q)" for q
    using others n by (simp add: set_unfinal_reads_def finality_count_set)
  have unf: "is_unfinal ?s1 q = (if q = p then 0 < ?n else is_unfinal s q)" for q
    by (simp add: set_unfinal_reads_def is_unfinal_set)
  have inv1: "sched_inv ext ?s1"
    using s1 wf(2) cnt u by (simp add: sched_inv_def counts_exact_def)
  have "sched_inv ext s' \<and> (flags_follow s \<longrightarrow> flags_follow s') \<and> same_graph s s' \<and> reflag (sch_facts s) (sch_facts s')"
  proof (cases "(0 < ?n) = is_unfinal s p")
    case True
    then have "s' = ?s1" using r by (simp add: refresh_finality_def Let_def)
    moreover have "is_unfinal ?s1 q = is_unfinal s q" for q using unf True by simp
    ultimately show ?thesis using inv1 s1 by (simp add: flags_follow_def same_graph_def)
  next
    case False
    let ?keys = "deps_output_keys (sch_deps ?s1) p"
    obtain ch1 t where sk: "set_keys_unfinal p (0 < ?n) (OrderedSet_iter ?keys) (sch_facts ?s1) ch = (ch1, t)"
      by fastforce
    have fl: "propagate_quiet_flips ?keys (map (FactTable_is_quiet (sch_facts s)) (OrderedSet_iter ?keys))
        (?s1\<lparr>sch_facts := t\<rparr>) ch1 = (s', ch')"
      using r False sk by (simp add: refresh_finality_def Let_def quiet_snapshot_def s1)
    note fc = flag_claims [OF sk s1(1)]
    have "sched_inv ext s' \<and> wave_keeps (?s1\<lparr>sch_facts := t\<rparr>) s'"
    proof (rule flips_keep [OF fl fc(1)])
      show "os_wf ?keys" using s1(1) by (simp add: graph_wf_def)
      show "ext_disjoint ext (sch_facts (?s1\<lparr>sch_facts := t\<rparr>))"
        using ext_disjoint_reflag [OF fc(2)] wf(2) s1(2) by simp
      show "finality_count (?s1\<lparr>sch_facts := t\<rparr>) q =
          card (unquiet_under ext (sch_facts s) (reads_of (sch_deps (?s1\<lparr>sch_facts := t\<rparr>)) q))" for q
        using cnt [of q] by (simp add: unquiet_reads_under s1)
      show "FactTable_is_quiet (sch_facts (?s1\<lparr>sch_facts := t\<rparr>)) k = FactTable_is_quiet (sch_facts s) k"
        if "k \<notin> os_members ?keys" for k
        using fc(4) [OF that] by (simp add: FactTable_is_quiet_def s1)
      show "ext k = None" if "k \<in> os_members ?keys" for k using owned_not_external [OF inv1 that] .
    qed
    moreover have "flags_follow (?s1\<lparr>sch_facts := t\<rparr>)" if "flags_follow s"
      by (rule fc(3)) (use that unf s1(2) in \<open>auto simp: flags_follow_def\<close>)
    moreover have "dom (slots t) = dom (slots (sch_facts s))"
      using fc(2) s1(2) by (auto simp: reflag_def domIff) (metis option.map_disc_iff not_Some_eq)+
    ultimately show ?thesis
      using fc(2) s1 by (auto simp: wave_keeps_def same_graph_def intro: reflag_trans)
  qed
  then show "sched_inv ext s'" "flags_follow s \<Longrightarrow> flags_follow s'" "same_graph s s'"
    "reflag (sch_facts s) (sch_facts s')" by blast+
qed

lemma reflag_dom: "reflag t t' \<Longrightarrow> dom (slots t') = dom (slots t)"
  unfolding reflag_def by (auto simp: domIff) (metis option.map_disc_iff not_Some_eq)+

definition certify :: "'p \<Rightarrow> ('p, 'j, 'f) Scheduler \<Rightarrow> ('p, 'j, 'f) Scheduler" where
  "certify p s = (case read_finality s p of None \<Rightarrow> s
     | Some st \<Rightarrow> s\<lparr>read_finality := (read_finality s)(p \<mapsto> Quiescent (ReadFinality_count st))\<rparr>)"

lemma certify_simps [simp]:
  "sch_facts (certify p s) = sch_facts s" "sch_deps (certify p s) = sch_deps s"
  "sch_agenda (certify p s) = sch_agenda s" "sch_rebased (certify p s) = sch_rebased s"
  "finality_count (certify p s) q = finality_count s q"
  "is_unfinal (certify p s) q = (q \<noteq> p \<and> is_unfinal s q)"
  by (auto simp: certify_def finality_count_def is_unfinal_def split: option.splits)

lemma graph_wf_certify: "graph_wf s \<Longrightarrow> graph_wf (certify p s)"
  by (auto simp: graph_wf_def owns_def finality_pos_def certify_def split: option.splits if_splits)

lemma settle_publisher_inv:
  assumes r: "settle_publisher p (s, ch) = (s', ch')" and inv: "sched_inv ext s"
  shows "sched_inv ext s'" and "flags_follow s \<Longrightarrow> flags_follow s'" and "same_graph s s'"
    and "reflag (sch_facts s) (sch_facts s')"
proof -
  let ?s1 = "certify p s" and ?keys = "deps_output_keys (sch_deps s) p"
  have wf: "graph_wf s" using inv by (simp add: sched_inv_def)
  have wf1: "graph_wf ?s1" using graph_wf_certify [OF wf] .
  obtain ch1 t where sk: "set_keys_unfinal p False (OrderedSet_iter ?keys) (sch_facts s) ch = (ch1, t)"
    by fastforce
  have fl: "propagate_quiet_flips ?keys (map (FactTable_is_quiet (sch_facts s)) (OrderedSet_iter ?keys))
      (?s1\<lparr>sch_facts := t\<rparr>) ch1 = (s', ch')"
    using r sk unfolding settle_publisher_def certify_def [symmetric]
    by (simp add: quiet_snapshot_def Let_def)
  note fc = flag_claims [of p False ?s1 ch ch1 t, simplified, OF sk wf1]
  have k: "sched_inv ext s' \<and> wave_keeps (?s1\<lparr>sch_facts := t\<rparr>) s'"
  proof (rule flips_keep [OF fl fc(1)])
    show "os_wf ?keys" using wf by (simp add: graph_wf_def)
    show "ext_disjoint ext (sch_facts (?s1\<lparr>sch_facts := t\<rparr>))"
      using ext_disjoint_reflag [OF fc(2)] inv by (simp add: sched_inv_def)
    show "finality_count (?s1\<lparr>sch_facts := t\<rparr>) q =
        card (unquiet_under ext (sch_facts s) (reads_of (sch_deps (?s1\<lparr>sch_facts := t\<rparr>)) q))" for q
      using inv by (simp add: sched_inv_def counts_exact_def unquiet_reads_under)
    show "FactTable_is_quiet (sch_facts (?s1\<lparr>sch_facts := t\<rparr>)) k = FactTable_is_quiet (sch_facts s) k"
      if "k \<notin> os_members ?keys" for k
      using fc(4) [OF that] by (simp add: FactTable_is_quiet_def)
    show "ext k = None" if "k \<in> os_members ?keys" for k using owned_not_external [OF inv that] .
  qed
  then show "sched_inv ext s'" by blast
  show "flags_follow s'" if "flags_follow s"
  proof -
    have "flags_follow (?s1\<lparr>sch_facts := t\<rparr>)"
      by (rule fc(3)) (use that in \<open>auto simp: flags_follow_def\<close>)
    then show ?thesis using k by (simp add: wave_keeps_def)
  qed
  show "reflag (sch_facts s) (sch_facts s')"
    using k fc(2) by (auto simp: wave_keeps_def intro: reflag_trans)
  show "same_graph s s'"
    using k reflag_dom [OF fc(2)] by (simp add: wave_keeps_def same_graph_def)
qed

section \<open>Dispatch keeps the invariant\<close>

text \<open>Both halves of the invariant, as dispatch carries them.\<close>

definition graph_inv :: "('f \<Rightarrow> FactState option) \<Rightarrow> bool \<Rightarrow> ('p, 'j, 'f) Scheduler \<Rightarrow> bool" where
  "graph_inv ext flags s \<longleftrightarrow> sched_inv ext s \<and> (flags \<longrightarrow> flags_follow s)"

lemma graph_inv_dirty: "dirty_claims p s ch = (s', ch') \<Longrightarrow> graph_inv ext fl s \<Longrightarrow> graph_inv ext fl s'"
  using dirty_claims_inv [of p s ch s' ch' ext] by (auto simp: graph_inv_def)

lemma graph_inv_rebase [simp]: "graph_inv ext fl (s\<lparr>sch_rebased := R\<rparr>) = graph_inv ext fl s"
  by (simp add: graph_inv_def sched_inv_def graph_wf_def owns_def finality_pos_def counts_exact_def
      finality_count_def unquiet_reads_under flags_follow_def is_unfinal_def)

lemma graph_inv_enqueue_step:
  assumes "enqueue_step job cause shift (s, wakes) = (s', wakes')" and "graph_inv ext fl s"
  shows "graph_inv ext fl s'"
  using assms(2) agenda_wf_enqueue [of "sch_agenda s" job]
  by (simp add: graph_inv_def sched_inv_def graph_wf_def owns_def finality_pos_def counts_exact_def
      finality_count_def unquiet_reads_under flags_follow_def is_unfinal_def enqueue_step_effect [OF assms(1)])

lemma fold3_invariant:
  assumes step: "\<And>x s ch w s' ch' w'. f x (s, ch, w) = (s', ch', w') \<Longrightarrow> P s \<Longrightarrow> P s'"
    and "fold f xs (s, ch, w) = (s', ch', w')" and "P s"
  shows "P s'"
  using assms(2,3)
proof (induction xs arbitrary: s ch w)
  case (Cons x xs)
  obtain s1 ch1 w1 where st: "f x (s, ch, w) = (s1, ch1, w1)" by (metis prod_cases3)
  with Cons.IH [of s1 ch1 w1] Cons.prems step [OF st] show ?case by simp
qed auto

lemma fold2_invariant:
  assumes step: "\<And>x s w s' w'. f x (s, w) = (s', w') \<Longrightarrow> P s \<Longrightarrow> P s'"
    and "fold f xs (s, w) = (s', w')" and "P s"
  shows "P s'"
  using assms(2,3)
proof (induction xs arbitrary: s w)
  case (Cons x xs)
  obtain s1 w1 where st: "f x (s, w) = (s1, w1)" by fastforce
  with Cons.IH [of s1 w1] Cons.prems step [OF st] show ?case by simp
qed auto

lemma graph_inv_waiter:
  assumes "wake_waiter sh ext u shift job (s, ch, wakes) = (s', ch', wakes')" and "graph_inv ext fl s"
  shows "graph_inv ext fl s'"
proof (cases "\<forall>wait \<in> waits_for (sch_deps s) job. dependency_satisfies s wait ext")
  case True
  obtain s1 ch1 where d: "dirty_claims (sh_of_run sh job) s ch = (s1, ch1)" by fastforce
  let ?s2 = "if shift then s1\<lparr>sch_rebased := insert (sh_of_run sh job) (sch_rebased s1)\<rparr> else s1"
  have e: "enqueue_step job u shift (?s2, wakes) = (s', wakes')"
    using assms True d by (auto simp: wake_waiter_def Let_def split: prod.splits)
  have "graph_inv ext fl ?s2" using graph_inv_dirty [OF d assms(2)] by simp
  then show ?thesis by (rule graph_inv_enqueue_step [OF e])
qed (use assms in \<open>auto simp: wake_waiter_def\<close>)

lemma graph_inv_waiters:
  assumes "wake_satisfied_waiters sh ext u shift (s, ch, wakes) = (s', ch', wakes')" and "graph_inv ext fl s"
  shows "graph_inv ext fl s'"
  using fold3_invariant [where P = "graph_inv ext fl" and f = "wake_waiter sh ext u shift", OF graph_inv_waiter] assms
  by (auto simp: wake_satisfied_waiters_def)

lemma graph_inv_reopen:
  assumes "reopen_subscriber sh shift p (s, ch, woken) = (s', ch', woken')" and "graph_inv ext fl s"
  shows "graph_inv ext fl s'"
proof -
  let ?s1 = "if shift then s\<lparr>sch_rebased := insert p (sch_rebased s)\<rparr> else s"
  have "dirty_claims p ?s1 ch = (s', ch')"
    using assms(1) by (auto simp: reopen_subscriber_def Let_def split: prod.splits)
  then show ?thesis by (rule graph_inv_dirty) (use assms(2) in simp)
qed

lemma graph_inv_dependents:
  assumes "enqueue_dependents sh ext u shift (s, ch, wakes) = (s', ch', wakes')" and "graph_inv ext fl s"
  shows "graph_inv ext fl s'"
proof -
  obtain s1 ch1 woken where 1: "fold (reopen_subscriber sh shift) (subscribers (sch_deps s) u)
      (s, ch, OrderedSet_default) = (s1, ch1, woken)" by (metis prod_cases3)
  obtain s2 wakes1 where 2: "fold (\<lambda>job. enqueue_step job u shift) (OrderedSet_iter woken) (s1, wakes) = (s2, wakes1)"
    by fastforce
  have 3: "wake_satisfied_waiters sh ext u shift (s2, ch1, wakes1) = (s', ch', wakes')"
    using assms 1 2 by (simp add: enqueue_dependents_def)
  have "graph_inv ext fl s1"
    by (rule fold3_invariant [where P = "graph_inv ext fl", OF graph_inv_reopen 1 assms(2)])
  from fold2_invariant [where P = "graph_inv ext fl" and f = "\<lambda>job. enqueue_step job u shift",
      OF graph_inv_enqueue_step 2 this]
  have "graph_inv ext fl s2" .
  then show ?thesis by (rule graph_inv_waiters [OF 3])
qed

lemma graph_inv_dispatch_change:
  assumes "dispatch_change sh ext change (s, ch, wakes) = (s', ch', wakes')" and "graph_inv ext fl s"
  shows "graph_inv ext fl s'"
proof (cases "fc_content_movement change")
  case None
  let ?a = "fc_old_revision change = None \<and> fc_new_revision change \<noteq> None"
  obtain s1 ch1 w1 where 1: "(if ?a then wake_satisfied_waiters sh ext (Current (fc_key change)) False (s, ch, wakes)
      else (s, ch, wakes)) = (s1, ch1, w1)" by (metis prod_cases3)
  then have "graph_inv ext fl s1" using assms(2) by (auto split: if_splits dest: graph_inv_waiters)
  then show ?thesis
    using assms None 1 by (auto simp: dispatch_change_def Let_def split: if_splits dest: graph_inv_dependents)
next
  case (Some m)
  obtain s1 ch1 w1 where 1: "enqueue_dependents sh ext (Current (fc_key change)) (m = Shift) (s, ch, wakes) = (s1, ch1, w1)"
    by (metis prod_cases3)
  with assms Some have 2: "enqueue_dependents sh ext (Settled (fc_key change)) (m = Shift) (s1, ch1, w1) = (s', ch', wakes')"
    by (simp add: dispatch_change_def)
  show ?thesis by (rule graph_inv_dependents [OF 2 graph_inv_dependents [OF 1 assms(2)]])
qed

text \<open>What each dispatched change keeps, the dispatch loop keeps.\<close>

lemma dispatch_loop_invariant:
  assumes "\<And>change s ch w s' ch' w'. dispatch_change sh ext change (s, ch, w) = (s', ch', w') \<Longrightarrow> P s \<Longrightarrow> P s'"
    and "dispatch_loop sh ext s ch wakes moved = (s', wakes', moved')" and "P s"
  shows "P s'"
  using assms
proof (induction sh ext s ch wakes moved rule: dispatch_loop.induct)
  case (1 sh ext s ch wakes moved)
  show ?case
  proof (cases "infinite (dom (slots (sch_facts s))) \<or> take_next_fact_change ch = None")
    case True
    then show ?thesis using "1.prems" by (subst (asm) dispatch_loop.simps) (auto split: if_splits)
  next
    case False
    then obtain change rest where n: "take_next_fact_change ch = Some (change, rest)"
      and fin: "finite (dom (slots (sch_facts s)))" by auto
    obtain s1 ch1 w1 where d: "dispatch_change sh ext change (s, rest, wakes) = (s1, ch1, w1)" by (metis prod_cases3)
    have "dispatch_loop sh ext s1 ch1 w1 (insert (fc_key change) moved) = (s', wakes', moved')"
      using "1.prems"(2) n d fin by (subst (asm) dispatch_loop.simps) simp
    with "1.IH" [of "(change, rest)" change rest s1 "(ch1, w1)" ch1 w1] "1.prems"(1) [OF d "1.prems"(3)]
    show ?thesis using n d fin "1.prems"(1) by simp
  qed
qed

lemma graph_inv_dispatch:
  assumes "dispatch_changes sh ext s ch = (wakes, movements, s')" and "graph_inv ext fl s"
  shows "graph_inv ext fl s'"
proof -
  obtain wakes1 moved where "dispatch_loop sh ext s ch [] {} = (s', wakes1, moved)"
    using assms(1) by (auto simp: dispatch_changes_def Let_def split: prod.splits)
  from dispatch_loop_invariant [where P = "graph_inv ext fl", OF graph_inv_dispatch_change this assms(2)]
  show ?thesis .
qed

section \<open>The drain arbiter keeps the invariant\<close>

lemma graph_inv_settle_publisher:
  "settle_publisher p (s, ch) = (s', ch') \<Longrightarrow> graph_inv ext fl s \<Longrightarrow> graph_inv ext fl s'"
  using settle_publisher_inv [of p s ch s' ch' ext] by (auto simp: graph_inv_def)

lemma graph_inv_settle_fact:
  assumes "settle_quiescent_fact ext k (s, ch) = (s', ch')" and "graph_inv ext fl s"
  shows "graph_inv ext fl s'"
proof (cases "FactTable_is_quiet (sch_facts s) k \<or> \<not> FactTable_is_locally_settled (sch_facts s) k \<or>
    quiescent_cone s k ext = None")
  case True
  then show ?thesis using assms by (auto simp: settle_quiescent_fact_def split: if_splits)
next
  case False
  then obtain cone where c: "quiescent_cone s k ext = Some cone" by blast
  have f: "fold settle_publisher (sorted_list_of_set (\<Union>k \<in> set cone. FactTable_publishers (sch_facts s) k)) (s, ch) = (s', ch')"
    using assms(1) c False by (simp add: settle_quiescent_fact_def Let_def)
  show ?thesis
    by (rule fold2_invariant [where P = "graph_inv ext fl" and f = settle_publisher, OF graph_inv_settle_publisher f assms(2)])
qed

lemma graph_inv_settle:
  assumes "settle_quiescent_ordered_with_external sh ext facts s = (step, s')" and "graph_inv ext fl s"
  shows "graph_inv ext fl s'"
proof -
  obtain s1 ch where 1: "(if Agenda_is_empty (sch_agenda s) then fold (settle_quiescent_fact ext) facts (s, [])
      else (s, [])) = (s1, ch)" by fastforce
  obtain wakes movements s2 where 2: "dispatch_changes sh ext s1 ch = (wakes, movements, s2)" by (metis prod_cases3)
  have "s' = s2" using assms(1) unfolding settle_quiescent_ordered_with_external_def 1 by (simp add: 2)
  moreover have "graph_inv ext fl s1"
    using 1 assms(2) fold2_invariant [where P = "graph_inv ext fl" and f = "settle_quiescent_fact ext", OF graph_inv_settle_fact]
    by (auto split: if_splits)
  ultimately show ?thesis using graph_inv_dispatch [OF 2] by blast
qed

end
