(* ===== verification/Fz_Complete.thy ===== *)
theory Fz_Complete
  imports Fz_Finality
begin

text \<open>
  What \<open>Scheduler::complete_ordered_with_external\<close> keeps: the whole invariant of the work
  graph through the three loops of a completion, the flips and the dispatch that follow.
\<close>

section \<open>Recording the answers\<close>

lemma graph_inv_new: "graph_inv NoExternalDependencyStates True (Scheduler_new :: ('p, 'j, 'f) Scheduler)"
  by (simp add: graph_inv_def sched_inv_def graph_wf_def owns_def finality_pos_def counts_exact_def
      finality_count_def unquiet_reads_def flags_follow_def Scheduler_new_def deps_wf_new agenda_wf_def
      Agenda_new_def ext_disjoint_def FactTable_new_def FactTable_publishers_def ft_wf_def)

lemma graph_inv_waits:
  assumes "graph_inv ext fl s" and "finite ws"
  shows "graph_inv ext fl (s\<lparr>sch_deps := replace_waits job ws (sch_deps s)\<rparr>)"
  using assms
  by (simp add: graph_inv_def sched_inv_def graph_wf_def owns_def finality_pos_def counts_exact_def
      finality_count_def unquiet_reads_under flags_follow_def is_unfinal_def deps_wf_replace_waits)

lemma graph_inv_derivations:
  assumes "graph_inv ext fl s" and "os_wf ps"
  shows "graph_inv ext fl (s\<lparr>sch_deps := replace_derivations job ps (sch_deps s)\<rparr>)"
  using assms
  by (simp add: graph_inv_def sched_inv_def graph_wf_def owns_def finality_pos_def counts_exact_def
      finality_count_def unquiet_reads_under flags_follow_def is_unfinal_def deps_wf_replace_derivations)

text \<open>What the loops of a completion leave alone.\<close>

definition same_jobs :: "('p, 'j, 'f) Scheduler \<Rightarrow> ('p, 'j, 'f) Scheduler \<Rightarrow> bool" where
  "same_jobs s s' \<longleftrightarrow> sch_agenda s' = sch_agenda s \<and> derivations_of (sch_deps s') = derivations_of (sch_deps s) \<and>
     waits_for (sch_deps s') = waits_for (sch_deps s)"

text \<open>The state of the index after one answer's reads are recorded.\<close>

definition reads_recorded ::
  "bool \<Rightarrow> ('p, 'f) DerivationEffects \<Rightarrow> ('p, 'j, 'f) Scheduler \<Rightarrow> ('p, 'j, 'f) Scheduler" where
  "reads_recorded concluding d s =
     (let p = de_publisher d;
          s1 = s\<lparr>sch_deps := (if concluding then replace_reads p (de_reads d) (sch_deps s)
                             else union_reads p (de_reads d) (sch_deps s))\<rparr>
      in if concluding then s1\<lparr>sch_rebased := sch_rebased s1 - {p}\<rparr> else s1)"

lemma record_derivation_eq:
  assumes "record_derivation ext waiting own d (s, ch, cs, listed) = (s', ch', cs', listed')"
  shows "refresh_finality (de_publisher d) ext (reads_recorded (\<not> (waiting \<and> de_publisher d = own)) d s) ch = (s', ch')"
    and "cs' = cs @ [\<lparr>con_derivation = d\<lparr>de_outputs := sort (de_outputs d), de_changed := sort (de_changed d)\<rparr>,
      con_concluding = (\<not> (waiting \<and> de_publisher d = own)), con_rebased = (de_publisher d \<in> sch_rebased s),
      con_unfinal = is_unfinal s' (de_publisher d)\<rparr>]"
    and "listed' = snd (OrderedSet_insert (de_publisher d) listed)"
  using assms by (auto simp: record_derivation_def reads_recorded_def Let_def split: prod.splits if_splits)

lemma reads_recorded_facts [simp]:
  "sch_facts (reads_recorded c d s) = sch_facts s" "sch_agenda (reads_recorded c d s) = sch_agenda s"
  "finality_count (reads_recorded c d s) = finality_count s" "is_unfinal (reads_recorded c d s) = is_unfinal s"
  "deps_output_keys (sch_deps (reads_recorded c d s)) = deps_output_keys (sch_deps s)"
  "derivations_of (sch_deps (reads_recorded c d s)) = derivations_of (sch_deps s)"
  "waits_for (sch_deps (reads_recorded c d s)) = waits_for (sch_deps s)"
  by (auto simp: reads_recorded_def finality_count_def is_unfinal_def fun_eq_iff Let_def)

lemma reads_recorded_reads:
  "q \<noteq> de_publisher d \<Longrightarrow> reads_of (sch_deps (reads_recorded c d s)) q = reads_of (sch_deps s) q"
  by (simp add: reads_recorded_def Let_def reads_of_replace_reads reads_of_union_reads)

lemma graph_wf_reads_recorded:
  assumes "graph_wf s" and "finite (de_reads d)"
  shows "graph_wf (reads_recorded c d s)"
proof -
  have "deps_wf (sch_deps (reads_recorded c d s))"
    using assms by (simp add: reads_recorded_def Let_def graph_wf_def deps_wf_replace_reads deps_wf_union_reads)
  moreover have "read_finality (reads_recorded c d s) = read_finality s"
    by (simp add: reads_recorded_def Let_def)
  ultimately show ?thesis using assms(1) by (simp add: graph_wf_def owns_def finality_pos_def)
qed

lemma record_derivation_inv:
  assumes r: "record_derivation ext waiting own d (s, ch, cs, listed) = (s', ch', cs', listed')"
    and inv: "graph_inv ext fl s" and fin: "finite (de_reads d)"
  shows "graph_inv ext fl s'"
    and "deps_output_keys (sch_deps s') = deps_output_keys (sch_deps s)"
    and "same_jobs s s'"
    and "reflag (sch_facts s) (sch_facts s')"
proof -
  let ?s1 = "reads_recorded (\<not> (waiting \<and> de_publisher d = own)) d s"
  note rf = record_derivation_eq(1) [OF r]
  have wf: "graph_wf ?s1" "ext_disjoint ext (sch_facts ?s1)"
    using graph_wf_reads_recorded [of s d, OF _ fin] inv by (simp_all add: graph_inv_def sched_inv_def)
  have others: "q \<noteq> de_publisher d \<Longrightarrow> finality_count ?s1 q = card (unquiet_reads ?s1 ext q)" for q
    using inv by (simp add: graph_inv_def sched_inv_def counts_exact_def unquiet_reads_under reads_recorded_reads)
  note r' = refresh_finality_inv [OF rf wf others]
  have "flags_follow s \<Longrightarrow> flags_follow ?s1" by (simp add: flags_follow_def)
  then show "graph_inv ext fl s'" using r'(1,2) inv by (auto simp: graph_inv_def)
  show "deps_output_keys (sch_deps s') = deps_output_keys (sch_deps s)" "same_jobs s s'"
    using r'(3) by (simp_all add: same_graph_def same_jobs_def)
  show "reflag (sch_facts s) (sch_facts s')" using r'(4) by simp
qed

text \<open>The loop over all answers.\<close>

lemma record_derivations_inv:
  assumes "fold (record_derivation ext waiting own) ds (s, ch, cs, listed) = (s', ch', cs', listed')"
    and "graph_inv ext fl s" and "\<And>d. d \<in> set ds \<Longrightarrow> finite (de_reads d)" and "os_wf listed"
  shows "graph_inv ext fl s' \<and> deps_output_keys (sch_deps s') = deps_output_keys (sch_deps s) \<and>
    same_jobs s s' \<and> reflag (sch_facts s) (sch_facts s') \<and>
    os_wf listed' \<and> os_members listed' = os_members listed \<union> de_publisher ` set ds \<and>
    (\<exists>cs1. cs' = cs @ cs1 \<and>
       map (\<lambda>c. (de_publisher (con_derivation c), de_outputs (con_derivation c), de_changed (con_derivation c), con_concluding c)) cs1 =
       map (\<lambda>d. (de_publisher d, sort (de_outputs d), sort (de_changed d), \<not> (waiting \<and> de_publisher d = own))) ds)"
  using assms
proof (induction ds arbitrary: s ch cs listed)
  case (Cons d ds)
  obtain s1 ch1 cs1 l1 where st: "record_derivation ext waiting own d (s, ch, cs, listed) = (s1, ch1, cs1, l1)"
    by (metis prod_cases4)
  note r = record_derivation_inv [OF st Cons.prems(2) Cons.prems(3)] record_derivation_eq(2,3) [OF st]
  have "fold (record_derivation ext waiting own) ds (s1, ch1, cs1, l1) = (s', ch', cs', listed')"
    using Cons.prems(1) st by simp
  from Cons.IH [OF this] r Cons.prems(3,4) show ?case by (auto simp: same_jobs_def intro: reflag_trans)
qed (auto simp: same_jobs_def)

section \<open>Publishing\<close>

text \<open>
  While the answers are published the counts still speak of the table \<open>t0\<close> the
  publication started from; everything else of the invariant holds.
\<close>

definition publishing ::
  "('f \<Rightarrow> FactState option) \<Rightarrow> bool \<Rightarrow> ('p, 'f) FactTable \<Rightarrow> ('p, 'j, 'f) Scheduler \<Rightarrow> bool" where
  "publishing ext fl t0 s \<longleftrightarrow> graph_wf s \<and> ext_disjoint ext (sch_facts s) \<and>
     (\<forall>p. finality_count s p = card (unquiet_under ext t0 (reads_of (sch_deps s) p))) \<and> (fl \<longrightarrow> flags_follow s)"

lemma publishing_start: "graph_inv ext fl s \<Longrightarrow> publishing ext fl (sch_facts s) s"
  by (simp add: publishing_def graph_inv_def sched_inv_def counts_exact_def unquiet_reads_under)

lemma owns_prev:
  "owns s \<Longrightarrow> \<forall>k. p \<in> FactTable_publishers (sch_facts s) k \<longrightarrow> k \<in> os_members (deps_output_keys (sch_deps s) p)"
  by (simp add: owns_def)

lemma unfinal_claim: "unfinal_publishers (claim_slot cum p u k l sl) = set_membership (unfinal_publishers sl) p u"
  by (simp add: claim_slot_def Let_def)

lemma unfinal_withdraw: "unfinal_publishers (withdraw_slot p l sl) = unfinal_publishers sl - {p}"
  by (simp add: withdraw_slot_def Let_def)

lemma unfinal_extend: "unfinal_publishers (extend_slot cum p u k l sl) = set_membership (unfinal_publishers sl) p u"
  by (simp add: extend_slot_def Let_def)

text \<open>A conclusion of one answer.\<close>

lemma flags_replace:
  assumes run: "FactTable_replace_outputs_after_run cum p prev outs listed u r (sch_facts s) = Inr (fr, t)"
    and "os_wf prev" and fl: "flags_follow s" and own: "owns s" "deps_wf (sch_deps s)"
    and prev: "prev = deps_output_keys (sch_deps s) p"
    and k: "slots t k = Some sl'" and q: "q \<in> publishers sl'" and u: "q = p \<Longrightarrow> u = is_unfinal s p"
  shows "q \<in> unfinal_publishers sl' \<longleftrightarrow> is_unfinal s q"
proof (cases "k \<in> set outs \<union> os_members prev")
  case True
  let ?sl = "slot_or_default (sch_facts s) k"
  have sl': "sl' = replaced_slot cum p (set outs) u (set listed) (sch_facts s) k"
    using k True by (simp add: replace_slots [OF run assms(2)] nonempty_slot_def split: if_splits)
  have old: "q \<in> publishers ?sl \<Longrightarrow> q \<in> unfinal_publishers ?sl \<longleftrightarrow> is_unfinal s q"
    using fl by (cases "slots (sch_facts s) k") (auto simp: slot_or_default_def flags_follow_def FactSlot_default_def)
  show ?thesis
    using q u old by (auto simp: sl' replaced_slot_def unfinal_claim unfinal_withdraw set_membership_def split: if_splits)
next
  case False
  then have "slots (sch_facts s) k = Some sl'" using k by (simp add: replace_slots [OF run assms(2)])
  then show ?thesis using fl q by (simp add: flags_follow_def)
qed

lemma ext_disjoint_replace:
  assumes run: "FactTable_replace_outputs_after_run cum p prev outs listed u r t = Inr (fr, t')"
    and "os_wf prev" and "ext_disjoint ext t" and "\<And>k. k \<in> set outs \<Longrightarrow> ext k = None"
    and "\<And>k. k \<in> os_members prev \<Longrightarrow> ext k = None"
  shows "ext_disjoint ext t'"
  unfolding ext_disjoint_def
proof
  fix k assume "k \<in> dom (slots t')"
  then show "ext k = None"
    using assms(3-5) by (cases "k \<in> set outs \<union> os_members prev")
      (auto simp: replace_slots [OF run assms(2)] ext_disjoint_def)
qed

lemma publishing_replace:
  assumes run: "FactTable_replace_outputs_after_run cum p (deps_output_keys (sch_deps s) p) outs listed u r (sch_facts s) = Inr (fr, t)"
    and inv: "publishing ext fl t0 s" and u: "fl \<Longrightarrow> u = is_unfinal s p"
    and ext: "\<And>k. k \<in> set outs \<Longrightarrow> ext k = None"
  shows "publishing ext fl t0 (s\<lparr>sch_facts := t, sch_deps := deps_replace_outputs p (fr_output_keys fr) (sch_deps s)\<rparr>)"
    and "k \<notin> set outs \<Longrightarrow> k \<notin> os_members (deps_output_keys (sch_deps s) p) \<Longrightarrow> slots t k = slots (sch_facts s) k"
proof -
  let ?prev = "deps_output_keys (sch_deps s) p"
  have wf: "graph_wf s" "owns s" "deps_wf (sch_deps s)" "os_wf ?prev" "ft_wf (sch_facts s)"
    using inv by (simp_all add: publishing_def graph_wf_def)
  have fr: "os_wf (fr_output_keys fr)" "os_members (fr_output_keys fr) = set outs"
    using replace_outputs_Inr [OF run] by blast+
  note pubs = replace_publishers [OF run wf(4) owns_prev [OF wf(2)]]
  have owns': "owns (s\<lparr>sch_facts := t, sch_deps := deps_replace_outputs p (fr_output_keys fr) (sch_deps s)\<rparr>)"
    using pubs wf(2) fr by (auto simp: owns_def output_keys_replace_outputs)
  have ed: "ext_disjoint ext t"
  proof (rule ext_disjoint_replace [OF run wf(4)])
    show "ext_disjoint ext (sch_facts s)" using inv by (simp add: publishing_def)
    then show "ext k = None" if "k \<in> os_members ?prev" for k
      using owned_dom [OF wf(1) that] by (auto simp: ext_disjoint_def)
  qed (rule ext)
  have "flags_follow (s\<lparr>sch_facts := t, sch_deps := deps_replace_outputs p (fr_output_keys fr) (sch_deps s)\<rparr>)" if f: fl
    unfolding flags_follow_def
    using flags_replace [OF run wf(4) _ wf(2,3) refl] u inv f by (auto simp: publishing_def is_unfinal_def)
  then show "publishing ext fl t0 (s\<lparr>sch_facts := t, sch_deps := deps_replace_outputs p (fr_output_keys fr) (sch_deps s)\<rparr>)"
    using inv owns' ed ft_wf_replace_outputs [OF wf(5) run] fr(1)
    by (simp add: publishing_def graph_wf_def finality_pos_def finality_count_def deps_wf_replace_outputs)
  show "k \<notin> set outs \<Longrightarrow> k \<notin> os_members ?prev \<Longrightarrow> slots t k = slots (sch_facts s) k"
    by (simp add: replace_slots [OF run wf(4)])
qed

text \<open>An unfinished answer: its claims grow and are all dirty.\<close>

lemma flags_extend:
  assumes run: "FactTable_extend_outputs_after_run cum p outs listed u r (sch_facts s) = Inr (fr, t)"
    and fl: "flags_follow s"
    and k: "slots t k = Some sl'" and q: "q \<in> publishers sl'" and u: "q = p \<Longrightarrow> u = is_unfinal s p"
  shows "q \<in> unfinal_publishers sl' \<longleftrightarrow> is_unfinal s q"
proof (cases "k \<in> set outs")
  case True
  let ?sl = "slot_or_default (sch_facts s) k"
  have sl': "sl' = extend_slot cum p u k (k \<in> set listed) ?sl"
    using k True by (simp add: extend_slots [OF run])
  have "q \<in> publishers ?sl \<Longrightarrow> q \<in> unfinal_publishers ?sl \<longleftrightarrow> is_unfinal s q"
    using fl by (cases "slots (sch_facts s) k") (auto simp: slot_or_default_def flags_follow_def FactSlot_default_def)
  then show ?thesis using q u by (auto simp: sl' unfinal_extend set_membership_def split: if_splits)
next
  case False
  then have "slots (sch_facts s) k = Some sl'" using k by (simp add: extend_slots [OF run])
  then show ?thesis using fl q by (simp add: flags_follow_def)
qed

lemma extend_publishers:
  assumes run: "FactTable_extend_outputs_after_run cum p outs listed u r t = Inr (fr, t')"
  shows "q \<in> FactTable_publishers t' k \<longleftrightarrow> q \<in> FactTable_publishers t k \<or> (q = p \<and> k \<in> set outs)"
  by (auto simp: FactTable_publishers_def extend_slots [OF run] slot_or_default_def FactSlot_default_def split: option.splits)

lemma publishing_extend:
  assumes run: "FactTable_extend_outputs_after_run cum p outs listed u r (sch_facts s) = Inr (fr, t)"
    and claims: "claims = OrderedSet_extend (deps_output_keys (sch_deps s) p) (OrderedSet_iter (fr_output_keys fr))"
    and t': "t' = snd (FactTable_mark_dirty p claims t)"
    and inv: "publishing ext fl t0 s" and u: "fl \<Longrightarrow> u = is_unfinal s p"
    and ext: "\<And>k. k \<in> set outs \<Longrightarrow> ext k = None"
  shows "publishing ext fl t0 (s\<lparr>sch_facts := t', sch_deps := deps_replace_outputs p claims (sch_deps s)\<rparr>)"
    and "os_wf claims" and "os_members claims = os_members (deps_output_keys (sch_deps s) p) \<union> set outs"
    and "k \<notin> set outs \<Longrightarrow> k \<notin> os_members (deps_output_keys (sch_deps s) p) \<Longrightarrow> slots t' k = slots (sch_facts s) k"
proof -
  let ?prev = "deps_output_keys (sch_deps s) p"
  let ?s1 = "s\<lparr>sch_facts := t, sch_deps := deps_replace_outputs p claims (sch_deps s)\<rparr>"
  have wf: "graph_wf s" "owns s" "deps_wf (sch_deps s)" "os_wf ?prev" "ft_wf (sch_facts s)"
    using inv by (simp_all add: publishing_def graph_wf_def)
  have fr: "OrderedSet_iter (fr_output_keys fr) = outs"
    using extend_outputs_Inr [OF run] by (simp add: OrderedSet_iter_def)
  show cl: "os_wf claims" and mem: "os_members claims = os_members ?prev \<union> set outs"
    using wf(4) by (simp_all add: claims fr)
  have cs: "set (OrderedSet_iter claims) = os_members ?prev \<union> set outs"
    using cl mem by (simp add: OrderedSet_iter_def os_set_order)
  have "owns ?s1"
    using wf(2) mem cl by (auto simp: owns_def output_keys_replace_outputs extend_publishers [OF run])
  then have g1: "graph_wf ?s1"
    using wf ft_wf_extend_outputs [OF wf(5) run] cl
    by (simp add: graph_wf_def finality_pos_def deps_wf_replace_outputs)
  have "flags_follow ?s1" if f: fl
    unfolding flags_follow_def using flags_extend [OF run] u inv f by (auto simp: publishing_def is_unfinal_def)
  then have f2: "fl \<Longrightarrow> flags_follow (?s1\<lparr>sch_facts := t'\<rparr>)"
    using flags_mark_dirty [of ?s1 p claims] by (simp add: t')
  have d1: "dom (slots t) \<subseteq> dom (slots (sch_facts s)) \<union> set outs"
    by (auto simp: extend_slots [OF run] split: if_splits)
  have swap: "s\<lparr>sch_deps := deps_replace_outputs p claims (sch_deps s), sch_facts := snd (FactTable_mark_dirty p claims t)\<rparr> =
      s\<lparr>sch_facts := snd (FactTable_mark_dirty p claims t), sch_deps := deps_replace_outputs p claims (sch_deps s)\<rparr>"
    by (cases s) simp
  have "ext_disjoint ext t'"
    using inv d1 ext by (auto simp: t' ext_disjoint_def dom_mark_dirty publishing_def)
  then show "publishing ext fl t0 (s\<lparr>sch_facts := t', sch_deps := deps_replace_outputs p claims (sch_deps s)\<rparr>)"
    using inv graph_wf_mark_dirty [OF g1 cl, of p] f2 swap by (simp add: publishing_def t' finality_count_def)
  show "k \<notin> set outs \<Longrightarrow> k \<notin> os_members ?prev \<Longrightarrow> slots t' k = slots (sch_facts s) k"
    by (simp add: t' mark_dirty_slots cs extend_slots [OF run])
qed

text \<open>An unreached answer: dirtied while the run waits, retracted otherwise.\<close>

lemma publishing_mark_dirty:
  assumes inv: "publishing ext fl t0 s" and keys: "keys = deps_output_keys (sch_deps s) p"
  shows "publishing ext fl t0 (s\<lparr>sch_facts := snd (FactTable_mark_dirty p keys (sch_facts s))\<rparr>)"
    and "k \<notin> os_members keys \<Longrightarrow> slots (snd (FactTable_mark_dirty p keys (sch_facts s))) k = slots (sch_facts s) k"
proof -
  have wf: "graph_wf s" "os_wf keys" using inv keys by (simp_all add: publishing_def graph_wf_def)
  show "publishing ext fl t0 (s\<lparr>sch_facts := snd (FactTable_mark_dirty p keys (sch_facts s))\<rparr>)"
    using inv graph_wf_mark_dirty [OF wf, of p] flags_mark_dirty [of s p keys]
    by (auto simp: publishing_def finality_count_def ext_disjoint_def dom_mark_dirty)
  show "k \<notin> os_members keys \<Longrightarrow> slots (snd (FactTable_mark_dirty p keys (sch_facts s))) k = slots (sch_facts s) k"
    using wf(2) by (simp add: mark_dirty_slots OrderedSet_iter_def os_set_order)
qed

lemma publishing_retract:
  assumes run: "FactTable_replace_outputs_after_run cum p (deps_output_keys (sch_deps s) p) [] [] False True (sch_facts s) = Inr (fr, t)"
    and inv: "publishing ext fl t0 s"
  shows "publishing ext fl t0 (s\<lparr>sch_facts := t, sch_deps := forget p (sch_deps s),
      sch_rebased := sch_rebased s - {p}, read_finality := (read_finality s)(p := None)\<rparr>)" (is "publishing ext fl t0 ?s'")
    and "k \<notin> os_members (deps_output_keys (sch_deps s) p) \<Longrightarrow> slots t k = slots (sch_facts s) k"
proof -
  let ?prev = "deps_output_keys (sch_deps s) p"
  have wf: "graph_wf s" "owns s" "deps_wf (sch_deps s)" "os_wf ?prev" "ft_wf (sch_facts s)"
    using inv by (simp_all add: publishing_def graph_wf_def)
  note pubs = replace_publishers [OF run wf(4) owns_prev [OF wf(2)]]
  have nop: "slots t k = Some sl \<Longrightarrow> p \<notin> publishers sl" for k sl
    using pubs by (auto simp: FactTable_publishers_def dest: spec [of _ k])
  have "owns ?s'" using pubs wf(2) by (auto simp: owns_def output_keys_forget OrderedSet_default_def)
  moreover have "ext_disjoint ext t"
  proof (rule ext_disjoint_replace [OF run wf(4)])
    show "ext_disjoint ext (sch_facts s)" using inv by (simp add: publishing_def)
    then show "ext k = None" if "k \<in> os_members ?prev" for k
      using owned_dom [OF wf(1) that] by (auto simp: ext_disjoint_def)
  qed simp
  moreover have "finality_count ?s' q = card (unquiet_under ext t0 (reads_of (sch_deps ?s') q))" for q
    using inv by (simp add: publishing_def finality_count_def reads_of_forget unquiet_under_def)
  moreover have "flags_follow ?s'" if fl
    unfolding flags_follow_def
  proof (intro allI impI)
    fix k sl q assume k: "slots (sch_facts ?s') k = Some sl" and q: "q \<in> publishers sl"
    then have "q \<noteq> p" using nop by auto
    moreover have "q \<in> unfinal_publishers sl \<longleftrightarrow> is_unfinal s q"
      by (rule flags_replace [OF run wf(4) _ wf(2,3) refl]) (use k q \<open>q \<noteq> p\<close> inv that in \<open>auto simp: publishing_def\<close>)
    ultimately show "q \<in> unfinal_publishers sl \<longleftrightarrow> is_unfinal ?s' q" by (simp add: is_unfinal_def)
  qed
  ultimately show "publishing ext fl t0 ?s'"
    using wf inv ft_wf_replace_outputs [OF wf(5) run]
    by (auto simp: publishing_def graph_wf_def finality_pos_def deps_wf_forget)
  show "k \<notin> os_members ?prev \<Longrightarrow> slots t k = slots (sch_facts s) k"
    by (simp add: replace_slots [OF run wf(4)])
qed

section \<open>Who is left dirty\<close>

definition dirty_pubs :: "('p, 'f) FactTable \<Rightarrow> 'p set" where
  "dirty_pubs t = {p. \<exists>k sl. slots t k = Some sl \<and> p \<in> dirty_publishers sl}"

lemma dirty_pubs_reflag: "reflag t t' \<Longrightarrow> dirty_pubs t' \<subseteq> dirty_pubs t"
  unfolding dirty_pubs_def using reflag_fields(2) by fastforce

lemma dirty_pubs_mark: "dirty_pubs (snd (FactTable_mark_dirty p keys t)) \<subseteq> insert p (dirty_pubs t)"
  by (fastforce simp: dirty_pubs_def mark_dirty_slots dirtied_slot_def split: if_splits)

lemma dirty_claim: "dirty_publishers (claim_slot cum p u k l sl) = dirty_publishers sl - {p}"
  by (simp add: claim_slot_def Let_def)

lemma dirty_withdraw: "dirty_publishers (withdraw_slot p l sl) = dirty_publishers sl - {p}"
  by (simp add: withdraw_slot_def Let_def)

lemma dirty_extend: "dirty_publishers (extend_slot cum p u k l sl) = dirty_publishers sl"
  by (simp add: extend_slot_def Let_def)

lemma dirty_or_default: "q \<in> dirty_publishers (slot_or_default t k) \<Longrightarrow> q \<in> dirty_pubs t"
  by (cases "slots t k") (auto simp: slot_or_default_def FactSlot_default_def dirty_pubs_def)

lemma owned_claim:
  assumes "graph_wf s" and "slots (sch_facts s) k = Some sl" and "p \<in> publishers sl"
  shows "k \<in> os_members (deps_output_keys (sch_deps s) p)"
proof -
  have "p \<in> FactTable_publishers (sch_facts s) k" using assms(2,3) by (simp add: FactTable_publishers_def)
  then show ?thesis using assms(1) by (simp add: graph_wf_def owns_def)
qed

lemma dirty_pubs_replace:
  assumes run: "FactTable_replace_outputs_after_run cum p (deps_output_keys (sch_deps s) p) outs listed u r (sch_facts s) = Inr (fr, t)"
    and wf: "graph_wf s"
  shows "dirty_pubs t \<subseteq> dirty_pubs (sch_facts s) - {p}"
proof
  fix q assume "q \<in> dirty_pubs t"
  then obtain k sl where k: "slots t k = Some sl" "q \<in> dirty_publishers sl" by (auto simp: dirty_pubs_def)
  have os: "os_wf (deps_output_keys (sch_deps s) p)" using wf by (simp add: graph_wf_def)
  show "q \<in> dirty_pubs (sch_facts s) - {p}"
  proof (cases "k \<in> set outs \<union> os_members (deps_output_keys (sch_deps s) p)")
    case True
    then show ?thesis
      using k dirty_or_default [of q "sch_facts s" k]
      by (auto simp: replace_slots [OF run os] nonempty_slot_def replaced_slot_def dirty_claim dirty_withdraw split: if_splits)
  next
    case False
    then have sl: "slots (sch_facts s) k = Some sl" using k by (simp add: replace_slots [OF run os])
    then have "q \<in> publishers sl" using wf k by (auto simp: graph_wf_def ft_wf_def slot_wf_def)
    then have "q \<noteq> p" using owned_claim [OF wf sl, of p] False by auto
    with sl k show ?thesis by (auto simp: dirty_pubs_def)
  qed
qed

lemma dirty_pubs_extend:
  assumes "FactTable_extend_outputs_after_run cum p outs listed u r t = Inr (fr, t')"
  shows "dirty_pubs t' \<subseteq> dirty_pubs t"
proof
  fix q assume "q \<in> dirty_pubs t'"
  then obtain k sl where k: "slots t' k = Some sl" "q \<in> dirty_publishers sl" by (auto simp: dirty_pubs_def)
  then show "q \<in> dirty_pubs t"
    using dirty_or_default [of q t k]
    by (cases "k \<in> set outs") (auto simp: extend_slots [OF assms] dirty_extend dirty_pubs_def)
qed

text \<open>Who claims anything at all.\<close>

definition claimants :: "('p, 'f) FactTable \<Rightarrow> 'p set" where
  "claimants t = {p. \<exists>k. p \<in> FactTable_publishers t k}"

lemma claimants_replace:
  assumes run: "FactTable_replace_outputs_after_run cum p (deps_output_keys (sch_deps s) p) outs listed u r (sch_facts s) = Inr (fr, t)"
    and wf: "graph_wf s"
  shows "claimants t \<subseteq> insert p (claimants (sch_facts s))"
    and "outs = [] \<Longrightarrow> claimants t \<subseteq> claimants (sch_facts s) - {p}"
proof -
  have "os_wf (deps_output_keys (sch_deps s) p)" "owns s" using wf by (simp_all add: graph_wf_def)
  note pubs = replace_publishers [OF run this(1) owns_prev [OF this(2)]]
  show 1: "claimants t \<subseteq> insert p (claimants (sch_facts s))" unfolding claimants_def using pubs by blast
  show "outs = [] \<Longrightarrow> claimants t \<subseteq> claimants (sch_facts s) - {p}" using 1 pubs by (auto simp: claimants_def)
qed

section \<open>The loops of a completion\<close>

text \<open>The claims of the publishers in \<open>S\<close> stay within the touched facts \<open>T\<close>.\<close>

definition claims_within :: "'p set \<Rightarrow> 'f set \<Rightarrow> ('p, 'j, 'f) Scheduler \<Rightarrow> bool" where
  "claims_within S T s \<longleftrightarrow> (\<forall>p \<in> S. os_members (deps_output_keys (sch_deps s) p) \<subseteq> T)"

lemma publish_loop_inv:
  assumes "publish_loop cum cs s pending changed = Inr (s', pending', changed')"
    and "publishing ext fl t0 s" and "claims_within S T s"
    and "\<And>c. c \<in> set cs \<Longrightarrow> de_publisher (con_derivation c) \<in> S \<and> set (de_outputs (con_derivation c)) \<subseteq> T"
    and "\<And>c. fl \<Longrightarrow> c \<in> set cs \<Longrightarrow> con_unfinal c = is_unfinal s (de_publisher (con_derivation c))"
    and "\<And>k. k \<in> T \<Longrightarrow> ext k = None"
  shows "publishing ext fl t0 s' \<and> claims_within S T s' \<and> (\<forall>k. k \<notin> T \<longrightarrow> slots (sch_facts s') k = slots (sch_facts s) k) \<and>
    same_jobs s s' \<and> claimants (sch_facts s') \<subseteq> claimants (sch_facts s) \<union> de_publisher ` con_derivation ` set cs \<and>
    dirty_pubs (sch_facts s') \<subseteq> dirty_pubs (sch_facts s) \<union> de_publisher ` con_derivation ` set cs \<and>
    ((\<forall>c \<in> set cs. con_concluding c) \<longrightarrow>
      dirty_pubs (sch_facts s') \<subseteq> dirty_pubs (sch_facts s) - de_publisher ` con_derivation ` set cs)"
  using assms
proof (induction cs arbitrary: s pending changed)
  case (Cons c cs)
  let ?d = "con_derivation c"
  let ?p = "de_publisher ?d"
  let ?prev = "deps_output_keys (sch_deps s) ?p"
  have c: "?p \<in> S" "set (de_outputs ?d) \<subseteq> T" "os_members ?prev \<subseteq> T"
    using Cons.prems(3,4) by (auto simp: claims_within_def)
  have e: "\<And>k. k \<in> set (de_outputs ?d) \<Longrightarrow> ext k = None" using c Cons.prems(6) by blast
  have u: "fl \<Longrightarrow> con_unfinal c = is_unfinal s ?p" using Cons.prems(5) by simp
  have wf: "graph_wf s" "os_wf ?prev" "owns s" using Cons.prems(2) by (simp_all add: publishing_def graph_wf_def)
  obtain s1 pending1 changed1 where rest: "publish_loop cum cs s1 pending1 changed1 = Inr (s', pending', changed')"
    and s1: "publishing ext fl t0 s1" "claims_within S T s1" "read_finality s1 = read_finality s"
      "\<And>k. k \<notin> T \<Longrightarrow> slots (sch_facts s1) k = slots (sch_facts s) k" "same_jobs s s1"
      "claimants (sch_facts s1) \<subseteq> insert ?p (claimants (sch_facts s))"
      "dirty_pubs (sch_facts s1) \<subseteq> insert ?p (dirty_pubs (sch_facts s))"
      "con_concluding c \<Longrightarrow> dirty_pubs (sch_facts s1) \<subseteq> dirty_pubs (sch_facts s) - {?p}"
  proof (cases "con_concluding c")
    case True
    obtain fr t where run: "FactTable_replace_outputs_after_run cum ?p ?prev (de_outputs ?d) (de_changed ?d)
        (con_unfinal c) (con_rebased c) (sch_facts s) = Inr (fr, t)"
      using Cons.prems(1) True by (auto simp: Let_def split: sum.splits)
    let ?s1 = "s\<lparr>sch_facts := t, sch_deps := deps_replace_outputs ?p (fr_output_keys fr) (sch_deps s)\<rparr>"
    note pr = publishing_replace [OF run Cons.prems(2) u e]
    have w: "claims_within S T ?s1"
      using Cons.prems(3) c replace_outputs_Inr [OF run] by (auto simp: claims_within_def output_keys_replace_outputs)
    have l: "publish_loop cum cs ?s1 pending (changed @ fr_changed fr) = Inr (s', pending', changed')"
      using Cons.prems(1) True run by (simp add: Let_def)
    have off: "slots (sch_facts ?s1) k = slots (sch_facts s) k" if "k \<notin> T" for k
      using pr(2) [of k] that c(2,3) by auto
    have j: "same_jobs s ?s1" by (simp add: same_jobs_def fun_eq_iff)
    have cl: "claimants (sch_facts ?s1) \<subseteq> insert ?p (claimants (sch_facts s))"
      using claimants_replace(1) [OF run wf(1)] by simp
    have di: "dirty_pubs (sch_facts ?s1) \<subseteq> dirty_pubs (sch_facts s) - {?p}"
      using dirty_pubs_replace [OF run wf(1)] by simp
    show thesis by (rule that [OF l pr(1) w _ off j cl]) (use di in auto)
  next
    case False
    obtain fr t where run: "FactTable_extend_outputs_after_run cum ?p (de_outputs ?d) (de_changed ?d)
        (con_unfinal c) (con_rebased c) (sch_facts s) = Inr (fr, t)"
      using Cons.prems(1) False by (auto simp: Let_def split: sum.splits)
    let ?claims = "OrderedSet_extend ?prev (OrderedSet_iter (fr_output_keys fr))"
    obtain ds t' where md: "FactTable_mark_dirty ?p ?claims t = (ds, t')" by fastforce
    let ?s1 = "s\<lparr>sch_facts := t', sch_deps := deps_replace_outputs ?p ?claims (sch_deps s)\<rparr>"
    have t': "t' = snd (FactTable_mark_dirty ?p ?claims t)" using md by simp
    note pr = publishing_extend [OF run refl t' Cons.prems(2) u e]
    have w: "claims_within S T ?s1"
      using Cons.prems(3) c pr(2,3) by (auto simp: claims_within_def output_keys_replace_outputs)
    have l: "publish_loop cum cs ?s1 (pending @ ds) (changed @ fr_changed fr) = Inr (s', pending', changed')"
      using Cons.prems(1) False run md by (simp add: Let_def)
    have off: "slots (sch_facts ?s1) k = slots (sch_facts s) k" if "k \<notin> T" for k
      using pr(4) [of k] that c(2,3) by auto
    have j: "same_jobs s ?s1" by (simp add: same_jobs_def fun_eq_iff)
    have cl: "claimants (sch_facts ?s1) \<subseteq> insert ?p (claimants (sch_facts s))"
      by (auto simp: claimants_def t' publishers_mark_dirty extend_publishers [OF run])
    have di: "dirty_pubs (sch_facts ?s1) \<subseteq> insert ?p (dirty_pubs (sch_facts s))"
      using dirty_pubs_extend [OF run] dirty_pubs_mark [of ?p ?claims t] by (auto simp: t')
    show thesis by (rule that [OF l pr(1) w _ off j cl]) (use di False in auto)
  qed
  have "fl \<Longrightarrow> c' \<in> set cs \<Longrightarrow> con_unfinal c' = is_unfinal s1 (de_publisher (con_derivation c'))" for c'
    using Cons.prems(5) [of c'] s1(3) by (simp add: is_unfinal_def)
  with Cons.IH [OF rest s1(1,2)] Cons.prems(4,6) have
    "publishing ext fl t0 s'" "claims_within S T s'" "\<forall>k. k \<notin> T \<longrightarrow> slots (sch_facts s') k = slots (sch_facts s1) k"
    "same_jobs s1 s'" "claimants (sch_facts s') \<subseteq> claimants (sch_facts s1) \<union> de_publisher ` con_derivation ` set cs"
    "dirty_pubs (sch_facts s') \<subseteq> dirty_pubs (sch_facts s1) \<union> de_publisher ` con_derivation ` set cs"
    "(\<forall>c \<in> set cs. con_concluding c) \<Longrightarrow>
      dirty_pubs (sch_facts s') \<subseteq> dirty_pubs (sch_facts s1) - de_publisher ` con_derivation ` set cs" by simp_all
  with s1(4-) show ?case by (intro conjI) (auto simp: same_jobs_def)
qed (auto simp: same_jobs_def)

lemma unreached_loop_inv:
  assumes "unreached_loop cum waiting ps s pending changed = Inr (s', pending', changed')"
    and "publishing ext fl t0 s" and "claims_within (set ps) T s"
  shows "publishing ext fl t0 s' \<and> (\<forall>k. k \<notin> T \<longrightarrow> slots (sch_facts s') k = slots (sch_facts s) k) \<and> same_jobs s s' \<and>
    claimants (sch_facts s') \<subseteq> (if waiting then claimants (sch_facts s) else claimants (sch_facts s) - set ps) \<and>
    dirty_pubs (sch_facts s') \<subseteq> (if waiting then dirty_pubs (sch_facts s) \<union> set ps else dirty_pubs (sch_facts s) - set ps)"
  using assms
proof (induction ps arbitrary: s pending changed)
  case (Cons p ps)
  let ?prev = "deps_output_keys (sch_deps s) p"
  have c: "os_members ?prev \<subseteq> T" using Cons.prems(3) by (simp add: claims_within_def)
  have wf: "graph_wf s" "os_wf ?prev" "owns s" using Cons.prems(2) by (simp_all add: publishing_def graph_wf_def)
  obtain s1 pending1 changed1 where rest: "unreached_loop cum waiting ps s1 pending1 changed1 = Inr (s', pending', changed')"
    and s1: "publishing ext fl t0 s1" "claims_within (set ps) T s1"
      "\<And>k. k \<notin> T \<Longrightarrow> slots (sch_facts s1) k = slots (sch_facts s) k" "same_jobs s s1"
      "claimants (sch_facts s1) \<subseteq> (if waiting then claimants (sch_facts s) else claimants (sch_facts s) - {p})"
      "dirty_pubs (sch_facts s1) \<subseteq> (if waiting then insert p (dirty_pubs (sch_facts s)) else dirty_pubs (sch_facts s) - {p})"
  proof (cases waiting)
    case True
    obtain ds t where md: "FactTable_mark_dirty p ?prev (sch_facts s) = (ds, t)" by fastforce
    let ?s1 = "s\<lparr>sch_facts := t\<rparr>"
    note pr = publishing_mark_dirty [OF Cons.prems(2), of ?prev p, OF refl]
    have l: "unreached_loop cum waiting ps ?s1 (pending @ ds) changed = Inr (s', pending', changed')"
      using Cons.prems(1) True md by (simp add: Let_def)
    have w: "claims_within (set ps) T ?s1" using Cons.prems(3) by (simp add: claims_within_def)
    have off: "slots (sch_facts ?s1) k = slots (sch_facts s) k" if "k \<notin> T" for k
      using pr(2) [of k] that c md by auto
    have t: "t = snd (FactTable_mark_dirty p ?prev (sch_facts s))" using md by simp
    have j: "same_jobs s ?s1" by (simp add: same_jobs_def fun_eq_iff)
    have cl: "claimants (sch_facts ?s1) \<subseteq> (if waiting then claimants (sch_facts s) else claimants (sch_facts s) - {p})"
      using True by (simp add: claimants_def t publishers_mark_dirty)
    have di: "dirty_pubs (sch_facts ?s1) \<subseteq> (if waiting then insert p (dirty_pubs (sch_facts s)) else dirty_pubs (sch_facts s) - {p})"
      using True dirty_pubs_mark [of p ?prev "sch_facts s"] by (simp add: t)
    have pu: "publishing ext fl t0 ?s1" using pr(1) t by simp
    show thesis by (rule that [OF l pu w off j cl di])
  next
    case False
    obtain fr t where run: "FactTable_replace_outputs_after_run cum p ?prev [] [] False True (sch_facts s) = Inr (fr, t)"
      using Cons.prems(1) False by (auto simp: Let_def split: sum.splits)
    let ?s1 = "s\<lparr>sch_facts := t, sch_deps := forget p (sch_deps s), sch_rebased := sch_rebased s - {p},
        read_finality := (read_finality s)(p := None)\<rparr>"
    note pr = publishing_retract [OF run Cons.prems(2)]
    have l: "unreached_loop cum waiting ps ?s1 pending (changed @ fr_changed fr) = Inr (s', pending', changed')"
      using Cons.prems(1) False run by (simp add: Let_def)
    have w: "claims_within (set ps) T ?s1"
      using Cons.prems(3) by (auto simp: claims_within_def output_keys_forget OrderedSet_default_def)
    have off: "slots (sch_facts ?s1) k = slots (sch_facts s) k" if "k \<notin> T" for k
      using pr(2) [of k] that c by auto
    have j: "same_jobs s ?s1" by (simp add: same_jobs_def fun_eq_iff)
    have cl: "claimants (sch_facts ?s1) \<subseteq> (if waiting then claimants (sch_facts s) else claimants (sch_facts s) - {p})"
      using False claimants_replace(2) [OF run wf(1)] by simp
    have di: "dirty_pubs (sch_facts ?s1) \<subseteq> (if waiting then insert p (dirty_pubs (sch_facts s)) else dirty_pubs (sch_facts s) - {p})"
      using False dirty_pubs_replace [OF run wf(1)] by simp
    show thesis by (rule that [OF l pr(1) w off j cl di])
  qed
  from Cons.IH [OF rest s1(1,2)] s1(3-) show ?case
    by (intro conjI) (auto simp: same_jobs_def split: if_splits)
qed (auto simp: same_jobs_def)

lemma touched_keys_members:
  assumes "deps_wf (sch_deps s)"
  shows "os_wf (touched_keys s cs ps)"
    and "os_members (touched_keys s cs ps) =
      (\<Union>c \<in> set cs. set (de_outputs (con_derivation c)) \<union> os_members (deps_output_keys (sch_deps s) (de_publisher (con_derivation c)))) \<union>
      (\<Union>p \<in> set ps. os_members (deps_output_keys (sch_deps s) p))"
proof -
  have it: "set (OrderedSet_iter (deps_output_keys (sch_deps s) p)) = os_members (deps_output_keys (sch_deps s) p)" for p
    using assms by (simp add: OrderedSet_iter_def os_set_order)
  let ?f = "\<lambda>c touched. OrderedSet_extend (OrderedSet_extend touched (de_outputs (con_derivation c)))
      (OrderedSet_iter (deps_output_keys (sch_deps s) (de_publisher (con_derivation c))))"
  let ?g = "\<lambda>p touched. OrderedSet_extend touched (OrderedSet_iter (deps_output_keys (sch_deps s) p))"
  have f: "os_wf a \<Longrightarrow> os_wf (fold ?f cs a) \<and> os_members (fold ?f cs a) = os_members a \<union>
      (\<Union>c \<in> set cs. set (de_outputs (con_derivation c)) \<union> os_members (deps_output_keys (sch_deps s) (de_publisher (con_derivation c))))" for a
    by (induction cs arbitrary: a) (auto simp: it)
  have g: "os_wf a \<Longrightarrow> os_wf (fold ?g ps a) \<and> os_members (fold ?g ps a) = os_members a \<union>
      (\<Union>p \<in> set ps. os_members (deps_output_keys (sch_deps s) p))" for a
    by (induction ps arbitrary: a) (auto simp: it)
  note f0 = f [of OrderedSet_default, simplified]
  show "os_wf (touched_keys s cs ps)" using f0 g by (simp add: touched_keys_def)
  show "os_members (touched_keys s cs ps) =
      (\<Union>c \<in> set cs. set (de_outputs (con_derivation c)) \<union> os_members (deps_output_keys (sch_deps s) (de_publisher (con_derivation c)))) \<union>
      (\<Union>p \<in> set ps. os_members (deps_output_keys (sch_deps s) p))"
    using f0 g by (simp add: touched_keys_def)
qed

section \<open>A completion keeps the invariant\<close>

lemma graph_inv_flips:
  assumes fl: "propagate_quiet_flips keys (map (FactTable_is_quiet t0) (OrderedSet_iter keys)) s ch = (s', ch')"
    and inv: "publishing ext flags t0 s" and keys: "os_wf keys"
    and off: "\<And>k. k \<notin> os_members keys \<Longrightarrow> slots (sch_facts s) k = slots t0 k"
    and ext: "\<And>k. k \<in> os_members keys \<Longrightarrow> ext k = None"
  shows "graph_inv ext flags s'"
proof -
  have "sched_inv ext s' \<and> wave_keeps s s'"
    by (rule flips_keep [OF fl _ keys])
      (use inv off ext in \<open>auto simp: publishing_def intro!: FactTable_is_quiet_slots\<close>)
  then show ?thesis using inv by (auto simp: graph_inv_def wave_keeps_def publishing_def)
qed

text \<open>The phases of a completion that returns.\<close>

lemma complete_phases:
  assumes "complete_ordered_with_external sh ext job eff s = Inr (step, s')"
  obtains s2 pending conclusions listed s3 pending3 changed3 s4 pending4 changed s6 pending6 wakes movements
    where "\<forall>d \<in> set (ce_derivations eff). \<forall>k \<in> set (de_outputs d) \<union> set (de_changed d). ext k = None"
    and "fold (record_derivation ext (ce_waits eff \<noteq> {}) (sh_of_run sh job)) (ce_derivations eff)
        (s\<lparr>sch_deps := replace_waits job (ce_waits eff) (sch_deps s)\<rparr>, [], [], OrderedSet_default) =
        (s2, pending, conclusions, listed)"
    and "publish_loop (sh_is_cumulative sh) conclusions s2 pending [] = Inr (s3, pending3, changed3)"
    and "unreached_loop (sh_is_cumulative sh) (ce_waits eff \<noteq> {})
        (filter (\<lambda>p. p \<notin> os_members listed) (OrderedSet_iter (derivations_of (sch_deps s) job)))
        s3 pending3 changed3 = Inr (s4, pending4, changed)"
    and "propagate_quiet_flips
        (touched_keys s2 conclusions (filter (\<lambda>p. p \<notin> os_members listed) (OrderedSet_iter (derivations_of (sch_deps s) job))))
        (map (FactTable_is_quiet (sch_facts s2)) (OrderedSet_iter
          (touched_keys s2 conclusions (filter (\<lambda>p. p \<notin> os_members listed) (OrderedSet_iter (derivations_of (sch_deps s) job))))))
        (s4\<lparr>sch_deps := replace_derivations job (if ce_waits eff \<noteq> {}
           then OrderedSet_from_iter (OrderedSet_iter (derivations_of (sch_deps s) job) @ OrderedSet_iter listed)
           else listed) (sch_deps s4)\<rparr>) (pending4 @ changed) = (s6, pending6)"
    and "dispatch_changes sh ext s6 pending6 = (wakes, movements, s')"
    and "step = \<lparr>as_changed = changed, as_movements = movements, as_wakes = wakes,
      as_blocked = sorted_list_of_set (ce_waits eff)\<rparr>"
proof -
  have ok: "\<forall>d \<in> set (ce_derivations eff). \<forall>k \<in> set (de_outputs d) \<union> set (de_changed d). ext k = None"
    using assms unfolding complete_ordered_with_external_def by (rule contrapos_pp) (simp only: if_True not_not simp_thms, simp)
  obtain s2 pending conclusions listed where f:
    "fold (record_derivation ext (ce_waits eff \<noteq> {}) (sh_of_run sh job)) (ce_derivations eff)
        (s\<lparr>sch_deps := replace_waits job (ce_waits eff) (sch_deps s)\<rparr>, [], [], OrderedSet_default) =
        (s2, pending, conclusions, listed)" by (metis prod_cases4)
  let ?un = "filter (\<lambda>p. p \<notin> os_members listed) (OrderedSet_iter (derivations_of (sch_deps s) job))"
  let ?touched = "touched_keys s2 conclusions ?un"
  have dv: "derivations_of (sch_deps (s\<lparr>sch_deps := replace_waits job (ce_waits eff) (sch_deps s)\<rparr>)) job =
      derivations_of (sch_deps s) job" by simp
  have eq: "(case publish_loop (sh_is_cumulative sh) conclusions s2 pending [] of
        Inl e \<Rightarrow> Inl e
      | Inr (s3, pending3, changed3) \<Rightarrow>
        (case unreached_loop (sh_is_cumulative sh) (ce_waits eff \<noteq> {}) ?un s3 pending3 changed3 of
          Inl e \<Rightarrow> Inl e
        | Inr (s4, pending4, changed) \<Rightarrow>
          (case propagate_quiet_flips ?touched (map (FactTable_is_quiet (sch_facts s2)) (OrderedSet_iter ?touched))
            (s4\<lparr>sch_deps := replace_derivations job (if ce_waits eff \<noteq> {}
              then OrderedSet_from_iter (OrderedSet_iter (derivations_of (sch_deps s) job) @ OrderedSet_iter listed)
              else listed) (sch_deps s4)\<rparr>) (pending4 @ changed) of (s6, pending6) \<Rightarrow>
          (case dispatch_changes sh ext s6 pending6 of (wakes, movements, s7) \<Rightarrow>
            Inr (\<lparr>as_changed = changed, as_movements = movements, as_wakes = wakes,
              as_blocked = sorted_list_of_set (ce_waits eff)\<rparr>, s7))))) = Inr (step, s')"
    using assms unfolding complete_ordered_with_external_def Let_def quiet_snapshot_def OrderedSet_contains_def dv f prod.case
    using ok by (simp split del: if_split)
  obtain s3 pending3 changed3 where p: "publish_loop (sh_is_cumulative sh) conclusions s2 pending [] = Inr (s3, pending3, changed3)"
    using eq by (cases "publish_loop (sh_is_cumulative sh) conclusions s2 pending []") auto
  obtain s4 pending4 changed where u: "unreached_loop (sh_is_cumulative sh) (ce_waits eff \<noteq> {}) ?un s3 pending3 changed3 =
      Inr (s4, pending4, changed)"
    using eq by (cases "unreached_loop (sh_is_cumulative sh) (ce_waits eff \<noteq> {}) ?un s3 pending3 changed3") (auto simp: p)
  let ?s5 = "s4\<lparr>sch_deps := replace_derivations job (if ce_waits eff \<noteq> {}
      then OrderedSet_from_iter (OrderedSet_iter (derivations_of (sch_deps s) job) @ OrderedSet_iter listed)
      else listed) (sch_deps s4)\<rparr>"
  obtain s6 pending6 where fl: "propagate_quiet_flips ?touched
      (map (FactTable_is_quiet (sch_facts s2)) (OrderedSet_iter ?touched)) ?s5 (pending4 @ changed) = (s6, pending6)"
    by fastforce
  obtain wakes movements s7 where d: "dispatch_changes sh ext s6 pending6 = (wakes, movements, s7)" by (metis prod_cases3)
  from eq have "s7 = s'" "step = \<lparr>as_changed = changed, as_movements = movements, as_wakes = wakes,
      as_blocked = sorted_list_of_set (ce_waits eff)\<rparr>"
    unfolding p u sum.case prod.case fl d by simp_all
  from that [OF ok f p u fl d [unfolded this(1)] this(2)] show thesis .
qed

text \<open>
  The finality of each answer is captured when the answer is recorded. The captured bits are current when recording
  the later answers of the run has not changed them.
\<close>

definition answers_current ::
  "('p::linorder, 'j::linorder, 'f::linorder) shape \<Rightarrow> ('f \<Rightarrow> FactState option) \<Rightarrow> 'j \<Rightarrow> ('p, 'f) CompletionEffects
     \<Rightarrow> ('p, 'j, 'f) Scheduler \<Rightarrow> bool" where
  "answers_current sh ext job eff s \<longleftrightarrow>
     (case fold (record_derivation ext (ce_waits eff \<noteq> {}) (sh_of_run sh job)) (ce_derivations eff)
        (s\<lparr>sch_deps := replace_waits job (ce_waits eff) (sch_deps s)\<rparr>, [], [], OrderedSet_default) of
      (s2, _, conclusions, _) \<Rightarrow> \<forall>c \<in> set conclusions. con_unfinal c = is_unfinal s2 (de_publisher (con_derivation c)))"

lemma answers_current_one:
  assumes "length (ce_derivations eff) \<le> 1"
  shows "answers_current sh ext job eff s"
proof (cases "ce_derivations eff")
  case (Cons d ds)
  let ?s1 = "s\<lparr>sch_deps := replace_waits job (ce_waits eff) (sch_deps s)\<rparr>"
  obtain s2 ch cs l where r: "record_derivation ext (ce_waits eff \<noteq> {}) (sh_of_run sh job) d (?s1, [], [], OrderedSet_default) = (s2, ch, cs, l)"
    by (metis prod_cases4)
  from record_derivation_eq(2) [OF this] show ?thesis
    using assms Cons r by (simp add: answers_current_def)
qed (simp add: answers_current_def)

lemma map_eq_memD: "map f xs = map g ys \<Longrightarrow> x \<in> set xs \<Longrightarrow> \<exists>y \<in> set ys. f x = g y"
  by (metis (no_types, lifting) imageE image_eqI image_set)

lemma publishing_derivations:
  assumes "publishing ext fl t0 s" and "os_wf ps"
  shows "publishing ext fl t0 (s\<lparr>sch_deps := replace_derivations job ps (sch_deps s)\<rparr>)"
  using assms
  by (simp add: publishing_def graph_wf_def owns_def finality_pos_def finality_count_def
      flags_follow_def is_unfinal_def deps_wf_replace_derivations)

text \<open>
  A completion up to its dispatch: the state \<open>s6\<close> that is dispatched satisfies the
  invariant, and only this job's answers changed hands.
\<close>

lemma complete_core:
  fixes s :: "('p::linorder, 'j::linorder, 'f::linorder) Scheduler"
  assumes run: "complete_ordered_with_external sh ext job eff s = Inr (step, s')"
    and inv: "graph_inv ext fl s" and fin: "finite (ce_waits eff)"
    and reads: "\<And>d. d \<in> set (ce_derivations eff) \<Longrightarrow> finite (de_reads d)"
    and current: "fl \<Longrightarrow> answers_current sh ext job eff s"
    and L: "L = de_publisher ` set (ce_derivations eff)" and U: "U = os_members (derivations_of (sch_deps s) job) - L"
  obtains s6 pending6 wakes movements where "dispatch_changes sh ext s6 pending6 = (wakes, movements, s')"
    and "graph_inv ext fl s6" and "sch_agenda s6 = sch_agenda s"
    and "waits_for (sch_deps s6) = (waits_for (sch_deps s))(job := ce_waits eff)"
    and "os_members (derivations_of (sch_deps s6) job) = (if ce_waits eff \<noteq> {} then L \<union> U else L)"
    and "\<And>j. j \<noteq> job \<Longrightarrow> derivations_of (sch_deps s6) j = derivations_of (sch_deps s) j"
    and "claimants (sch_facts s6) \<subseteq> (if ce_waits eff \<noteq> {} then claimants (sch_facts s) \<union> L
      else claimants (sch_facts s) \<union> L - U)"
    and "dirty_pubs (sch_facts s6) \<subseteq> (if ce_waits eff \<noteq> {} then dirty_pubs (sch_facts s) \<union> L \<union> U
      else dirty_pubs (sch_facts s) - L - U)"
  using run
proof (rule complete_phases)
  fix s2 s3 s4 s6 :: "('p, 'j, 'f) Scheduler" and conclusions :: "('p, 'f) conclusion list"
    and pending pending3 pending4 pending6 changed3 changed :: "'f FactChange list"
    and listed :: "'p OrderedSet" and wakes movements
  let ?prev = "derivations_of (sch_deps s) job"
  let ?un = "filter (\<lambda>p. p \<notin> os_members listed) (OrderedSet_iter ?prev)"
  let ?T = "touched_keys s2 conclusions ?un"
  let ?ds = "ce_derivations eff"
  let ?s1 = "s\<lparr>sch_deps := replace_waits job (ce_waits eff) (sch_deps s)\<rparr>"
  let ?owned = "if ce_waits eff \<noteq> {} then OrderedSet_from_iter (OrderedSet_iter ?prev @ OrderedSet_iter listed) else listed"
  let ?s5 = "s4\<lparr>sch_deps := replace_derivations job ?owned (sch_deps s4)\<rparr>"
  assume ext: "\<forall>d \<in> set ?ds. \<forall>k \<in> set (de_outputs d) \<union> set (de_changed d). ext k = None"
    and rec: "fold (record_derivation ext (ce_waits eff \<noteq> {}) (sh_of_run sh job)) ?ds (?s1, [], [], OrderedSet_default) =
        (s2, pending, conclusions, listed)"
    and pub: "publish_loop (sh_is_cumulative sh) conclusions s2 pending [] = Inr (s3, pending3, changed3)"
    and unr: "unreached_loop (sh_is_cumulative sh) (ce_waits eff \<noteq> {}) ?un s3 pending3 changed3 = Inr (s4, pending4, changed)"
    and flip: "propagate_quiet_flips ?T (map (FactTable_is_quiet (sch_facts s2)) (OrderedSet_iter ?T)) ?s5 (pending4 @ changed) = (s6, pending6)"
    and disp: "dispatch_changes sh ext s6 pending6 = (wakes, movements, s')"
  have r: "graph_inv ext fl s2" "os_wf listed" "same_jobs ?s1 s2" "reflag (sch_facts s) (sch_facts s2)" "os_members listed = L"
    and cs: "map (\<lambda>c. (de_publisher (con_derivation c), de_outputs (con_derivation c), de_changed (con_derivation c), con_concluding c)) conclusions =
      map (\<lambda>d. (de_publisher d, sort (de_outputs d), sort (de_changed d), \<not> (ce_waits eff \<noteq> {} \<and> de_publisher d = sh_of_run sh job))) ?ds"
    using record_derivations_inv [OF rec graph_inv_waits [OF inv fin] reads] L by (auto simp: OrderedSet_default_def os_wf_def)
  have mem: "\<exists>d \<in> set ?ds. de_publisher (con_derivation c) = de_publisher d \<and> de_outputs (con_derivation c) = sort (de_outputs d) \<and>
      con_concluding c = (\<not> (ce_waits eff \<noteq> {} \<and> de_publisher d = sh_of_run sh job))"
    if "c \<in> set conclusions" for c
    using map_eq_memD [OF cs that] by auto
  have P: "de_publisher ` con_derivation ` set conclusions = L"
    using arg_cong [OF cs, of "\<lambda>xs. set (map fst xs)"] by (simp add: L comp_def image_image)
  have un: "set ?un = U"
    using inv r(5) by (auto simp: U OrderedSet_iter_def os_set_order graph_inv_def sched_inv_def graph_wf_def)
  have unfinal: "con_unfinal c = is_unfinal s2 (de_publisher (con_derivation c))" if fl "c \<in> set conclusions" for c
    using current [OF that(1)] that(2) by (simp add: answers_current_def rec)
  have wf2: "deps_wf (sch_deps s2)" "sched_inv ext s2" using r(1) by (simp_all add: graph_inv_def sched_inv_def graph_wf_def)
  note T = touched_keys_members [OF wf2(1), of conclusions ?un]
  have extT: "ext k = None" if "k \<in> os_members ?T" for k
    using that ext owned_not_external [OF wf2(2)] unfolding T(2) by (fastforce dest!: mem)
  have p3: "publishing ext fl (sch_facts s2) s3 \<and> claims_within (L \<union> U) (os_members ?T) s3 \<and>
      (\<forall>k. k \<notin> os_members ?T \<longrightarrow> slots (sch_facts s3) k = slots (sch_facts s2) k) \<and>
      same_jobs s2 s3 \<and> claimants (sch_facts s3) \<subseteq> claimants (sch_facts s2) \<union> L \<and>
      dirty_pubs (sch_facts s3) \<subseteq> dirty_pubs (sch_facts s2) \<union> L \<and>
      ((\<forall>c \<in> set conclusions. con_concluding c) \<longrightarrow> dirty_pubs (sch_facts s3) \<subseteq> dirty_pubs (sch_facts s2) - L)"
  proof (rule publish_loop_inv [OF pub publishing_start [OF r(1)] _ _ unfinal extT, unfolded P])
    show "claims_within (L \<union> U) (os_members ?T) s2"
      unfolding claims_within_def T(2) P [symmetric] un [symmetric] by auto
    show "de_publisher (con_derivation c) \<in> L \<union> U \<and> set (de_outputs (con_derivation c)) \<subseteq> os_members ?T" if "c \<in> set conclusions" for c
      using that unfolding T(2) P [symmetric] by auto
  qed
  have p4: "publishing ext fl (sch_facts s2) s4 \<and> (\<forall>k. k \<notin> os_members ?T \<longrightarrow> slots (sch_facts s4) k = slots (sch_facts s3) k) \<and>
      same_jobs s3 s4 \<and>
      claimants (sch_facts s4) \<subseteq> (if ce_waits eff \<noteq> {} then claimants (sch_facts s3) else claimants (sch_facts s3) - U) \<and>
      dirty_pubs (sch_facts s4) \<subseteq> (if ce_waits eff \<noteq> {} then dirty_pubs (sch_facts s3) \<union> U else dirty_pubs (sch_facts s3) - U)"
    by (rule unreached_loop_inv [OF unr, unfolded un]) (use p3 un in \<open>auto simp: claims_within_def\<close>)
  have owned: "os_wf ?owned" "os_members ?owned = (if ce_waits eff \<noteq> {} then L \<union> U else L)"
    using r(2,5) inv by (auto simp: U OrderedSet_iter_def os_set_order graph_inv_def sched_inv_def graph_wf_def)
  have p5: "publishing ext fl (sch_facts s2) ?s5" using p4 owned(1) by (intro publishing_derivations) auto
  have inv6: "graph_inv ext fl s6"
    by (rule graph_inv_flips [OF flip p5 T(1) _ extT]) (use p3 p4 in simp)
  have k6: "wave_keeps ?s5 s6" by (rule wave_keeps_flips [OF flip]) (use p5 in \<open>simp add: publishing_def\<close>)
  have s6: "sch_agenda s6 = sch_agenda s4" "sch_deps s6 = sch_deps ?s5" "reflag (sch_facts s4) (sch_facts s6)"
    using k6 by (simp_all add: wave_keeps_def same_graph_def)
  have cl: "claimants t' = claimants t" if "reflag t t'" for t t' :: "('p, 'f) FactTable"
    using reflag_fields(1) [OF that] by (simp add: claimants_def)
  note jobs = r(3) p3 p4
  show thesis
  proof (rule that [OF disp inv6])
    show "sch_agenda s6 = sch_agenda s" using jobs s6(1) by (simp add: same_jobs_def)
    show "waits_for (sch_deps s6) = (waits_for (sch_deps s))(job := ce_waits eff)"
      using jobs by (simp add: s6(2) same_jobs_def fun_eq_iff waits_for_replace_waits)
    show "os_members (derivations_of (sch_deps s6) job) = (if ce_waits eff \<noteq> {} then L \<union> U else L)"
      using owned by (simp add: s6(2) derivations_of_replace_derivations)
    show "derivations_of (sch_deps s6) j = derivations_of (sch_deps s) j" if "j \<noteq> job" for j
      using owned(1) that jobs by (simp add: s6(2) derivations_of_replace_derivations same_jobs_def)
    show "claimants (sch_facts s6) \<subseteq> (if ce_waits eff \<noteq> {} then claimants (sch_facts s) \<union> L else claimants (sch_facts s) \<union> L - U)"
      using p3 p4 cl [OF r(4)] cl [OF s6(3)] by (auto split: if_splits)
    have "ce_waits eff = {} \<Longrightarrow> \<forall>c \<in> set conclusions. con_concluding c" using mem by auto
    then have "dirty_pubs (sch_facts s3) \<subseteq> (if ce_waits eff \<noteq> {} then dirty_pubs (sch_facts s2) \<union> L else dirty_pubs (sch_facts s2) - L)"
      using p3 by simp
    moreover have "dirty_pubs (sch_facts s4) \<subseteq> (if ce_waits eff \<noteq> {} then dirty_pubs (sch_facts s3) \<union> U else dirty_pubs (sch_facts s3) - U)"
      using p4 by blast
    ultimately show "dirty_pubs (sch_facts s6) \<subseteq> (if ce_waits eff \<noteq> {} then dirty_pubs (sch_facts s) \<union> L \<union> U
        else dirty_pubs (sch_facts s) - L - U)"
      using dirty_pubs_reflag [OF r(4)] dirty_pubs_reflag [OF s6(3)] by (cases "ce_waits eff = {}") (simp_all, blast+)
  qed
qed

lemma complete_graph_inv:
  fixes s :: "('p::linorder, 'j::linorder, 'f::linorder) Scheduler"
  assumes run: "complete_ordered_with_external sh ext job eff s = Inr (step, s')"
    and inv: "graph_inv ext fl s" and fin: "finite (ce_waits eff)"
    and reads: "\<And>d. d \<in> set (ce_derivations eff) \<Longrightarrow> finite (de_reads d)"
    and current: "fl \<Longrightarrow> answers_current sh ext job eff s"
  shows "graph_inv ext fl s'"
  using complete_core [OF run inv fin reads current refl refl] graph_inv_dispatch by metis

section \<open>A completion returns\<close>

text \<open>
  What the assertions of the source ask of a run: one entry per answer, no repeated output
  or changed key, nothing reported as changed that the answer neither publishes nor owned,
  no external dependency among them. Hash sets are finite.
\<close>

definition effects_ok ::
  "('f \<Rightarrow> FactState option) \<Rightarrow> ('p, 'j, 'f) Scheduler \<Rightarrow> ('p, 'f) CompletionEffects \<Rightarrow> bool" where
  "effects_ok ext s eff \<longleftrightarrow> finite (ce_waits eff) \<and> distinct (map de_publisher (ce_derivations eff)) \<and>
     (\<forall>d \<in> set (ce_derivations eff). finite (de_reads d) \<and> distinct (de_outputs d) \<and> distinct (de_changed d) \<and>
        set (de_changed d) \<subseteq> set (de_outputs d) \<union> os_members (deps_output_keys (sch_deps s) (de_publisher d)) \<and>
        (\<forall>k \<in> set (de_outputs d) \<union> set (de_changed d). ext k = None))"

lemma publish_loop_returns:
  assumes "distinct (map (\<lambda>c. de_publisher (con_derivation c)) cs)"
    and "\<And>c. c \<in> set cs \<Longrightarrow> distinct (de_outputs (con_derivation c)) \<and> distinct (de_changed (con_derivation c)) \<and>
      set (de_changed (con_derivation c)) \<subseteq> set (de_outputs (con_derivation c)) \<union>
        os_members (deps_output_keys (sch_deps s) (de_publisher (con_derivation c)))"
    and "deps_wf (sch_deps s)"
  shows "\<exists>r. publish_loop cum cs s pending changed = Inr r"
  using assms
proof (induction cs arbitrary: s pending changed)
  case (Cons c cs)
  let ?d = "con_derivation c"
  let ?p = "de_publisher ?d"
  let ?prev = "deps_output_keys (sch_deps s) ?p"
  have ok: "distinct (de_outputs ?d)" "distinct (de_changed ?d)" "set (de_changed ?d) \<subseteq> set (de_outputs ?d) \<union> os_members ?prev"
    using Cons.prems(2) by auto
  have go: "\<exists>r. publish_loop cum cs (s\<lparr>sch_facts := t, sch_deps := deps_replace_outputs ?p ks (sch_deps s)\<rparr>) pe ch = Inr r"
    if ks: "os_wf ks" for t ks pe ch
  proof (rule Cons.IH)
    show "distinct (map (\<lambda>c. de_publisher (con_derivation c)) cs)" using Cons.prems(1) by simp
    show "deps_wf (sch_deps (s\<lparr>sch_facts := t, sch_deps := deps_replace_outputs ?p ks (sch_deps s)\<rparr>))"
      using Cons.prems(3) ks by (simp add: deps_wf_replace_outputs)
    fix c' assume c': "c' \<in> set cs"
    then have "de_publisher (con_derivation c') \<noteq> ?p" using Cons.prems(1) by (auto simp: image_iff)
    then show "distinct (de_outputs (con_derivation c')) \<and> distinct (de_changed (con_derivation c')) \<and>
      set (de_changed (con_derivation c')) \<subseteq> set (de_outputs (con_derivation c')) \<union>
        os_members (deps_output_keys (sch_deps (s\<lparr>sch_facts := t, sch_deps := deps_replace_outputs ?p ks (sch_deps s)\<rparr>))
          (de_publisher (con_derivation c')))"
      using Cons.prems(2) [of c'] c' ks by (simp add: output_keys_replace_outputs)
  qed
  show ?case
  proof (cases "con_concluding c")
    case True
    obtain fr t where run: "FactTable_replace_outputs_after_run cum ?p ?prev (de_outputs ?d) (de_changed ?d)
        (con_unfinal c) (con_rebased c) (sch_facts s) = Inr (fr, t)"
      using replace_outputs_returns [OF ok, of cum ?p "con_unfinal c" "con_rebased c" "sch_facts s"] by blast
    then show ?thesis using True go replace_outputs_Inr [OF run] by (simp add: Let_def)
  next
    case False
    obtain fr t where run: "FactTable_extend_outputs_after_run cum ?p (de_outputs ?d) (de_changed ?d)
        (con_unfinal c) (con_rebased c) (sch_facts s) = Inr (fr, t)"
      using extend_outputs_returns [OF ok(1,2), of cum ?p "con_unfinal c" "con_rebased c" "sch_facts s"] by blast
    then show ?thesis using False go Cons.prems(3) by (simp add: Let_def split: prod.splits)
  qed
qed simp

lemma unreached_loop_returns: "\<exists>r. unreached_loop cum waiting ps s pending changed = Inr r"
proof (induction ps arbitrary: s pending changed)
  case (Cons p ps)
  obtain fr t where "FactTable_replace_outputs_after_run cum p (deps_output_keys (sch_deps s) p) [] [] False True (sch_facts s) = Inr (fr, t)"
    using replace_outputs_returns [of "[]" "[]"] by fastforce
  with Cons show ?case by (cases waiting) (simp_all add: Let_def split: prod.splits)
qed simp

lemma complete_returns:
  fixes s :: "('p::linorder, 'j::linorder, 'f::linorder) Scheduler"
  assumes inv: "graph_inv ext fl s" and ok: "effects_ok ext s eff"
  shows "\<exists>step s'. complete_ordered_with_external sh ext job eff s = Inr (step, s')"
proof -
  let ?ds = "ce_derivations eff"
  have fin: "finite (ce_waits eff)" "\<And>d. d \<in> set ?ds \<Longrightarrow> finite (de_reads d)" using ok by (auto simp: effects_ok_def)
  have assertion: "\<forall>d \<in> set ?ds. \<forall>key \<in> set (de_outputs d) \<union> set (de_changed d). ext key = None"
    using ok by (auto simp: effects_ok_def)
  obtain s2 pending conclusions listed where rec:
    "fold (record_derivation ext (ce_waits eff \<noteq> {}) (sh_of_run sh job)) ?ds
        (s\<lparr>sch_deps := replace_waits job (ce_waits eff) (sch_deps s)\<rparr>, [], [], OrderedSet_default) =
        (s2, pending, conclusions, listed)" by (metis prod_cases4)
  note r = record_derivations_inv [OF rec graph_inv_waits [OF inv fin(1)] fin(2) os_wf_default, simplified]
  then have cs: "map (\<lambda>c. (de_publisher (con_derivation c), de_outputs (con_derivation c), de_changed (con_derivation c), con_concluding c)) conclusions =
      map (\<lambda>d. (de_publisher d, sort (de_outputs d), sort (de_changed d), \<not> (ce_waits eff \<noteq> {} \<and> de_publisher d = sh_of_run sh job))) ?ds"
    by auto
  have "map (\<lambda>c. de_publisher (con_derivation c)) conclusions = map de_publisher ?ds"
    using arg_cong [OF cs, of "map fst"] by (simp add: comp_def)
  then have dist: "distinct (map (\<lambda>c. de_publisher (con_derivation c)) conclusions)"
    using ok by (simp add: effects_ok_def)
  have each: "distinct (de_outputs (con_derivation c)) \<and> distinct (de_changed (con_derivation c)) \<and>
      set (de_changed (con_derivation c)) \<subseteq> set (de_outputs (con_derivation c)) \<union>
        os_members (deps_output_keys (sch_deps s2) (de_publisher (con_derivation c)))" if c: "c \<in> set conclusions" for c
  proof -
    obtain d where d: "d \<in> set ?ds" "de_publisher (con_derivation c) = de_publisher d"
      "de_outputs (con_derivation c) = sort (de_outputs d)" "de_changed (con_derivation c) = sort (de_changed d)"
      using map_eq_memD [OF cs c] by auto
    have "deps_output_keys (sch_deps s2) = deps_output_keys (sch_deps s)" using r by (simp add: fun_eq_iff)
    then show ?thesis using ok d by (simp add: effects_ok_def)
  qed
  have "deps_wf (sch_deps s2)" using r by (simp add: graph_inv_def sched_inv_def graph_wf_def)
  then obtain s3 pending3 changed3 where pub:
    "publish_loop (sh_is_cumulative sh) conclusions s2 pending [] = Inr (s3, pending3, changed3)"
    using publish_loop_returns [OF dist each] by (metis prod_cases3)
  obtain s4 pending4 changed where unr: "unreached_loop (sh_is_cumulative sh) (ce_waits eff \<noteq> {})
      (filter (\<lambda>p. \<not> OrderedSet_contains listed p) (OrderedSet_iter (derivations_of
        (sch_deps (s\<lparr>sch_deps := replace_waits job (ce_waits eff) (sch_deps s)\<rparr>)) job))) s3 pending3 changed3 =
      Inr (s4, pending4, changed)"
    using unreached_loop_returns by (metis prod_cases3)
  show ?thesis
    unfolding complete_ordered_with_external_def Let_def rec prod.case pub sum.case unr
    using assertion by (auto split: prod.splits)
qed

section \<open>External movements keep the invariant\<close>

text \<open>
  The changes name exactly the external dependencies whose settled bit the owner moved, each
  once, with the bits before and after.
\<close>

definition external_move ::
  "('f \<Rightarrow> FactState option) \<Rightarrow> 'f FactChange list \<Rightarrow> ('f \<Rightarrow> FactState option) \<Rightarrow> bool" where
  "external_move ext0 changes ext \<longleftrightarrow> distinct (map fc_key changes) \<and>
     (\<forall>k. map_option fs_settled (ext k) \<noteq> map_option fs_settled (ext0 k) \<longrightarrow> k \<in> fc_key ` set changes) \<and>
     (\<forall>c \<in> set changes. map_option fs_settled (ext0 (fc_key c)) = Some (fc_old_settled c) \<and>
        map_option fs_settled (ext (fc_key c)) = Some (fc_new_settled c))"

lemma unquiet_under_cong:
  assumes "\<And>k. map_option fs_settled (ext k) = map_option fs_settled (ext' k)"
  shows "unquiet_under ext t R = unquiet_under ext' t R"
proof -
  have "(case ext k of None \<Rightarrow> b | Some st \<Rightarrow> fs_settled st) = (case ext' k of None \<Rightarrow> b | Some st \<Rightarrow> fs_settled st)" for k b
    using assms [of k] by (cases "ext k"; cases "ext' k") auto
  then show ?thesis by (simp add: unquiet_under_def)
qed

lemma graph_inv_ext_cong:
  assumes "\<And>k. map_option fs_settled (ext k) = map_option fs_settled (ext' k)"
  shows "graph_inv ext fl s = graph_inv ext' fl s"
proof -
  have "ext k = None \<longleftrightarrow> ext' k = None" for k using assms [of k] by (metis option.map_disc_iff)
  then show ?thesis
    by (simp add: graph_inv_def sched_inv_def ext_disjoint_def counts_exact_def unquiet_reads_under
        unquiet_under_cong [of ext ext', OF assms])
qed

lemma card_unquiet_external:
  assumes "finite R" and "ext0 k = Some st0" "ext k = Some st" "fs_settled st0 \<noteq> fs_settled st"
    and "\<And>k'. k' \<noteq> k \<Longrightarrow> ext k' = ext0 k'"
  shows "if fs_settled st then card (unquiet_under ext0 t R) = card (unquiet_under ext t R) + card {u \<in> R. FactUse_fact u = k}
    else card (unquiet_under ext0 t R) + card {u \<in> R. FactUse_fact u = k} = card (unquiet_under ext t R)"
proof -
  let ?F = "{u \<in> R. FactUse_fact u = k}"
  have now: "u \<in> unquiet_under ext t R \<longleftrightarrow> u \<in> R \<and> (if FactUse_fact u = k then \<not> fs_settled st else u \<in> unquiet_under ext0 t R)"
    and was: "FactUse_fact u = k \<Longrightarrow> u \<in> unquiet_under ext0 t R \<longleftrightarrow> u \<in> R \<and> \<not> fs_settled st0"
    and sub: "u \<in> unquiet_under ext0 t R \<Longrightarrow> u \<in> R" for u
    using assms(2,3) assms(5) [of "FactUse_fact u"] by (auto simp: unquiet_under_def)
  have fin: "finite (unquiet_under e t R)" for e using assms(1) by (simp add: unquiet_under_def)
  show ?thesis
  proof (cases "fs_settled st")
    case True
    have "unquiet_under ext0 t R = unquiet_under ext t R \<union> ?F" "unquiet_under ext t R \<inter> ?F = {}"
      using assms(4) now was sub True by (auto split: if_splits)
    then show ?thesis using True fin assms(1) by (simp add: card_Un_disjoint)
  next
    case False
    have "unquiet_under ext t R = unquiet_under ext0 t R \<union> ?F" "unquiet_under ext0 t R \<inter> ?F = {}"
      using assms(4) now was sub False by (auto split: if_splits)
    then show ?thesis using False fin assms(1) by (simp add: card_Un_disjoint)
  qed
qed

lemma external_step:
  assumes w: "propagate_quiet_wave [k] (fs_settled st) s ch = (s', ch')" and inv: "graph_inv ext0 fl s"
    and ext: "ext0 k = Some st0" "ext k = Some st" "fs_settled st0 \<noteq> fs_settled st" "\<And>k'. k' \<noteq> k \<Longrightarrow> ext k' = ext0 k'"
  shows "graph_inv ext fl s'"
proof -
  have wf: "graph_wf s" "deps_wf (sch_deps s)" "finite (dom (slots (sch_facts s)))"
    using inv by (simp_all add: graph_inv_def sched_inv_def graph_wf_def)
  have ed: "ext_disjoint ext (sch_facts s)"
    unfolding ext_disjoint_def
  proof
    fix k' assume "k' \<in> dom (slots (sch_facts s))"
    then have "ext0 k' = None" using inv by (simp add: graph_inv_def sched_inv_def ext_disjoint_def)
    then show "ext k' = None" using ext(1) ext(4) [of k'] by (cases "k' = k") auto
  qed
  have c: "finality_count s p = card (unquiet_under ext0 (sch_facts s) (reads_of (sch_deps s) p))" for p
    using inv by (simp add: graph_inv_def sched_inv_def counts_exact_def unquiet_reads_under)
  have "balanced (fs_settled st) ext [] s [k] []"
    unfolding balanced_def
  proof (intro allI)
    fix p
    have "finite (reads_of (sch_deps s) p)" using wf(2) by simp
    from card_unquiet_external [where k = k and ?ext0.0 = ext0 and ext = ext, OF this ext, of "sch_facts s"] c [of p]
    show "if fs_settled st then finality_count s p = card (unquiet_reads s ext p) + uses s p [k] + count (mset []) p
      else finality_count s p + uses s p [k] + count (mset []) p = card (unquiet_reads s ext p) + uses s p []"
      by (simp add: unquiet_reads_under split: if_splits)
  qed
  from wave_balanced [OF w this wf(2,3) ed] have "counts_exact s' ext"
    by (cases "fs_settled st") (simp_all add: balanced_def counts_exact_def)
  moreover have k: "wave_keeps s s'" by (rule wave_keeps_wave [OF w wf(1)])
  moreover have "ext_disjoint ext (sch_facts s')" using k ed ext_disjoint_reflag by (auto simp: wave_keeps_def)
  ultimately show ?thesis using inv by (auto simp: graph_inv_def sched_inv_def wave_keeps_def)
qed

lemma external_loop_inv:
  assumes "graph_inv ext0 fl s" and "external_move ext0 changes ext" and "external_loop ext changes s ch = Inr (s', ch')"
  shows "graph_inv ext fl s'"
  using assms
proof (induction changes arbitrary: ext0 s ch)
  case Nil
  then show ?case using graph_inv_ext_cong [of ext ext0 fl s] by (auto simp: external_move_def)
next
  case (Cons c changes)
  let ?k = "fc_key c" and ?ext1 = "ext0(fc_key c := ext (fc_key c))"
  obtain st0 st where st: "ext0 ?k = Some st0" "ext ?k = Some st" "fs_settled st0 = fc_old_settled c" "fs_settled st = fc_new_settled c"
    using Cons.prems(2) by (auto simp: external_move_def)
  have move: "external_move ?ext1 changes ext"
    using Cons.prems(2) by (auto simp: external_move_def image_iff)
  show ?case
  proof (cases "FactChange_readiness_changed c")
    case True
    obtain s1 ch1 where w: "propagate_quiet_wave [?k] (fc_new_settled c) s ch = (s1, ch1)" by fastforce
    have "graph_inv ?ext1 fl s1"
      by (rule external_step [of ?k st, OF _ Cons.prems(1) st(1)])
        (use w st True in \<open>auto simp: FactChange_readiness_changed_def\<close>)
    from Cons.IH [OF this move, of ch1] show ?thesis using Cons.prems(3) True st(2) w by simp
  next
    case False
    have "graph_inv ?ext1 fl s"
      using graph_inv_ext_cong [of ?ext1 ext0 fl s] Cons.prems(1) st False by (simp add: FactChange_readiness_changed_def)
    from Cons.IH [OF this move, of ch] show ?thesis using Cons.prems(3) False st(2) by simp
  qed
qed

lemma external_move_sort: "external_move ext0 changes ext \<Longrightarrow> external_move ext0 (sort_key fc_key changes) ext"
  by (simp add: external_move_def distinct_map inj_on_def)

lemma external_loop_returns:
  "external_move ext0 changes ext \<Longrightarrow> set cs \<subseteq> set changes \<Longrightarrow> \<exists>r. external_loop ext cs s ch = Inr r"
proof (induction cs arbitrary: s ch)
  case (Cons c cs)
  then have "ext (fc_key c) \<noteq> None" by (auto simp: external_move_def)
  with Cons show ?case by (auto split: prod.splits)
qed simp

lemma external_graph_inv:
  assumes "graph_inv ext0 fl s" and "external_move ext0 changes ext"
  shows "\<exists>step s'. apply_external_changes_ordered sh ext changes s = Inr (step, s') \<and> graph_inv ext fl s'"
proof -
  let ?cs = "sort_key fc_key changes"
  obtain s1 ch where l: "external_loop ext ?cs s ?cs = Inr (s1, ch)"
    using external_loop_returns [OF assms(2), of ?cs s ?cs] by auto
  obtain wakes movements s2 where d: "dispatch_changes sh ext s1 ch = (wakes, movements, s2)" by (metis prod_cases3)
  have "graph_inv ext fl s2"
    by (rule graph_inv_dispatch [OF d external_loop_inv [OF assms(1) external_move_sort [OF assms(2)] l]])
  then show ?thesis by (simp add: apply_external_changes_ordered_def l d)
qed

end
