(* ===== verification/Fz_Machine.thy ===== *)
theory Fz_Machine
  imports Fz_Complete
begin

text \<open>
  The work graph as a state machine: the operations its driver interleaves, the states they
  reach, and what holds in all of them. The driver pops a job, runs it and completes it; the
  jobs popped and not completed yet are the running ones.
\<close>

section \<open>Dispatch enqueues what it dirties\<close>

definition covered :: "('p, 'j, 'f) shape \<Rightarrow> 'j set \<Rightarrow> ('p, 'j, 'f) Scheduler \<Rightarrow> bool" where
  "covered sh R s \<longleftrightarrow> (\<forall>p \<in> dirty_pubs (sch_facts s).
     sh_run sh p \<in> ag_queued (sch_agenda s) \<union> R \<union> {j. waits_for (sch_deps s) j \<noteq> {}})"

definition shape_ok :: "('p, 'j, 'f) shape \<Rightarrow> bool" where
  "shape_ok sh \<longleftrightarrow> (\<forall>j. sh_run sh (sh_of_run sh j) = j)"

lemma dirty_claims_dirty:
  assumes "dirty_claims p s ch = (s', ch')" and "graph_inv ext fl s"
  shows "dirty_pubs (sch_facts s') \<subseteq> insert p (dirty_pubs (sch_facts s))"
  using dirty_pubs_reflag [OF dirty_claims_inv(4) [OF assms(1)]] dirty_pubs_mark assms(2)
  by (fastforce simp: graph_inv_def)

lemma dirty_pubs_claimants: "ft_wf t \<Longrightarrow> dirty_pubs t \<subseteq> claimants t"
proof
  fix p assume wf: "ft_wf t" and "p \<in> dirty_pubs t"
  then obtain k sl where "slots t k = Some sl" "p \<in> dirty_publishers sl" by (auto simp: dirty_pubs_def)
  with wf have "p \<in> FactTable_publishers t k" by (auto simp: FactTable_publishers_def ft_wf_def slot_wf_def)
  then show "p \<in> claimants t" by (auto simp: claimants_def)
qed

lemma dispatch_deps:
  assumes "dispatch_changes sh ext s ch = (wakes, movements, s')"
  shows "sch_deps s' = sch_deps s"
proof -
  obtain wakes1 moved where l: "dispatch_loop sh ext s ch [] {} = (s', wakes1, moved)"
    using assms by (auto simp: dispatch_changes_def Let_def split: prod.splits)
  show ?thesis
    by (rule dispatch_loop_invariant [where P = "\<lambda>s1. sch_deps s1 = sch_deps s", OF _ l refl])
      (auto dest!: advances_dispatch_change simp: advances_def)
qed

text \<open>Every answer that claims something is on its job's list.\<close>

definition job_owned :: "('p, 'j, 'f) shape \<Rightarrow> ('p, 'j, 'f) Scheduler \<Rightarrow> bool" where
  "job_owned sh s \<longleftrightarrow> (\<forall>p \<in> claimants (sch_facts s). p \<in> os_members (derivations_of (sch_deps s) (sh_run sh p)))"

lemma claimants_reflag: "reflag t t' \<Longrightarrow> claimants t' = claimants t"
  using reflag_fields(1) [of t t'] by (simp add: claimants_def)

lemma claimants_mark_dirty [simp]: "claimants (snd (FactTable_mark_dirty p keys t)) = claimants t"
  by (simp add: claimants_def publishers_mark_dirty)

lemma dirty_claims_claimants:
  assumes "dirty_claims p s ch = (s', ch')" and "graph_inv ext fl s"
  shows "claimants (sch_facts s') = claimants (sch_facts s)"
  using claimants_reflag [OF dirty_claims_inv(4) [OF assms(1)]] assms(2) by (auto simp: graph_inv_def)

text \<open>The invariants as dispatch carries them, with the publishers still to be enqueued.\<close>

definition covered_but ::
  "('p, 'j, 'f) shape \<Rightarrow> 'j set \<Rightarrow> 'p set \<Rightarrow> ('f \<Rightarrow> FactState option) \<Rightarrow> bool \<Rightarrow> ('p, 'j, 'f) Scheduler \<Rightarrow> bool" where
  "covered_but sh R P ext fl s \<longleftrightarrow> graph_inv ext fl s \<and> job_owned sh s \<and> (\<forall>p \<in> dirty_pubs (sch_facts s) - P.
     sh_run sh p \<in> ag_queued (sch_agenda s) \<union> R \<union> {j. waits_for (sch_deps s) j \<noteq> {}})"

lemma covered_but_empty: "covered_but sh R {} ext fl s \<longleftrightarrow> graph_inv ext fl s \<and> job_owned sh s \<and> covered sh R s"
  by (simp add: covered_but_def covered_def)

lemma covered_but_dirty:
  assumes "dirty_claims p s ch = (s', ch')" and "covered_but sh R P ext fl s"
  shows "covered_but sh R (insert p P) ext fl s'"
proof -
  have g: "graph_inv ext fl s" using assms(2) by (simp add: covered_but_def)
  have d: "sch_deps s' = sch_deps s" "sch_agenda s' = sch_agenda s"
    using same_graph_dirty [OF assms(1)] by (simp_all add: same_graph_def)
  show ?thesis
    using assms(2) dirty_claims_dirty [OF assms(1) g] graph_inv_dirty [OF assms(1) g] dirty_claims_claimants [OF assms(1) g]
    unfolding covered_but_def job_owned_def d by auto
qed

lemma covered_but_rebase [simp]:
  "covered_but sh R P ext fl (s\<lparr>sch_rebased := B\<rparr>) = covered_but sh R P ext fl s"
  by (simp add: covered_but_def job_owned_def)

lemma covered_but_enqueue_step:
  assumes "enqueue_step job cause shift (s, wakes) = (s', wakes')" and "covered_but sh R P ext fl s"
  shows "covered_but sh R (P - {p. sh_run sh p = job}) ext fl s'"
  using assms graph_inv_enqueue_step [OF assms(1)] Agenda_queued_enqueue [of job "sch_agenda s"]
  by (auto simp: covered_but_def job_owned_def enqueue_step_effect [OF assms(1)])

lemma covered_waiter:
  assumes st: "wake_waiter sh ext u shift job (s, ch, wakes) = (s', ch', wakes')" and "covered_but sh R {} ext fl s"
    and sh: "shape_ok sh"
  shows "covered_but sh R {} ext fl s'"
proof (cases "\<forall>wait \<in> waits_for (sch_deps s) job. dependency_satisfies s wait ext")
  case True
  let ?own = "sh_of_run sh job"
  obtain s1 ch1 where d: "dirty_claims ?own s ch = (s1, ch1)" by fastforce
  let ?s2 = "if shift then s1\<lparr>sch_rebased := insert ?own (sch_rebased s1)\<rparr> else s1"
  have e: "enqueue_step job u shift (?s2, wakes) = (s', wakes')"
    using st True d by (auto simp: wake_waiter_def Let_def split: prod.splits)
  have "covered_but sh R {?own} ext fl ?s2" using covered_but_dirty [OF d assms(2)] by simp
  from covered_but_enqueue_step [OF e this] sh show ?thesis by (simp add: shape_ok_def)
qed (use assms in \<open>auto simp: wake_waiter_def\<close>)

lemma covered_waiters:
  assumes "wake_satisfied_waiters sh ext u shift (s, ch, wakes) = (s', ch', wakes')"
    and "covered_but sh R {} ext fl s" and "shape_ok sh"
  shows "covered_but sh R {} ext fl s'"
  using fold3_invariant [where P = "covered_but sh R {} ext fl" and f = "wake_waiter sh ext u shift"]
    covered_waiter assms
  by (metis (no_types, lifting) wake_satisfied_waiters_def case_prod_conv)

lemma covered_reopen:
  assumes "reopen_subscriber sh shift p (s, ch, woken) = (s', ch', woken')"
    and "covered_but sh R {q. sh_run sh q \<in> os_members woken} ext fl s"
  shows "covered_but sh R {q. sh_run sh q \<in> os_members woken'} ext fl s'"
proof -
  let ?s1 = "if shift then s\<lparr>sch_rebased := insert p (sch_rebased s)\<rparr> else s"
  have d: "dirty_claims p ?s1 ch = (s', ch')" and w: "woken' = snd (OrderedSet_insert (sh_run sh p) woken)"
    using assms(1) by (auto simp: reopen_subscriber_def Let_def split: prod.splits)
  have "covered_but sh R {q. sh_run sh q \<in> os_members woken} ext fl ?s1" using assms(2) by simp
  from covered_but_dirty [OF d this] show ?thesis by (auto simp: covered_but_def w)
qed

lemma covered_reopens:
  assumes "fold (reopen_subscriber sh shift) ps (s, ch, woken) = (s', ch', woken')" and "os_wf woken"
    and "covered_but sh R {q. sh_run sh q \<in> os_members woken} ext fl s"
  shows "covered_but sh R {q. sh_run sh q \<in> os_members woken'} ext fl s' \<and> os_wf woken'"
  using assms
proof (induction ps arbitrary: s ch woken)
  case (Cons p ps)
  obtain s1 ch1 w1 where st: "reopen_subscriber sh shift p (s, ch, woken) = (s1, ch1, w1)" by (metis prod_cases3)
  have "os_wf w1" using st Cons.prems(2) by (auto simp: reopen_subscriber_def Let_def split: prod.splits)
  with Cons.IH [of s1 ch1 w1] covered_reopen [OF st Cons.prems(3)] Cons.prems(1) st show ?case by simp
qed auto

lemma covered_enqueues:
  assumes "fold (\<lambda>job. enqueue_step job u shift) jobs (s, wakes) = (s', wakes')"
    and "covered_but sh R {q. sh_run sh q \<in> set jobs} ext fl s"
  shows "covered_but sh R {} ext fl s'"
  using assms
proof (induction jobs arbitrary: s wakes)
  case (Cons job jobs)
  obtain s1 w1 where st: "enqueue_step job u shift (s, wakes) = (s1, w1)" by fastforce
  have "{q. sh_run sh q \<in> set (job # jobs)} - {p. sh_run sh p = job} \<subseteq> {q. sh_run sh q \<in> set jobs}" by auto
  with covered_but_enqueue_step [OF st Cons.prems(2)] have "covered_but sh R {q. sh_run sh q \<in> set jobs} ext fl s1"
    by (auto simp: covered_but_def)
  with Cons.IH [of s1 w1] Cons.prems(1) st show ?case by simp
qed auto

lemma covered_dependents:
  assumes "enqueue_dependents sh ext u shift (s, ch, wakes) = (s', ch', wakes')"
    and "covered_but sh R {} ext fl s" and "shape_ok sh"
  shows "covered_but sh R {} ext fl s'"
proof -
  obtain s1 ch1 woken where 1: "fold (reopen_subscriber sh shift) (subscribers (sch_deps s) u)
      (s, ch, OrderedSet_default) = (s1, ch1, woken)" by (metis prod_cases3)
  obtain s2 wakes1 where 2: "fold (\<lambda>job. enqueue_step job u shift) (OrderedSet_iter woken) (s1, wakes) = (s2, wakes1)"
    by fastforce
  have 3: "wake_satisfied_waiters sh ext u shift (s2, ch1, wakes1) = (s', ch', wakes')"
    using assms 1 2 by (simp add: enqueue_dependents_def)
  have c1: "covered_but sh R {q. sh_run sh q \<in> os_members woken} ext fl s1 \<and> os_wf woken"
    by (rule covered_reopens [OF 1]) (use assms(2) in \<open>simp_all add: OrderedSet_default_def covered_but_def os_wf_def\<close>)
  then have "covered_but sh R {q. sh_run sh q \<in> set (OrderedSet_iter woken)} ext fl s1"
    by (simp add: OrderedSet_iter_def os_set_order)
  from covered_waiters [OF 3 covered_enqueues [OF 2 this] assms(3)] show ?thesis .
qed

lemma covered_dispatch_change:
  assumes "dispatch_change sh ext change (s, ch, wakes) = (s', ch', wakes')"
    and "covered_but sh R {} ext fl s" and "shape_ok sh"
  shows "covered_but sh R {} ext fl s'"
proof (cases "fc_content_movement change")
  case None
  let ?a = "fc_old_revision change = None \<and> fc_new_revision change \<noteq> None"
  obtain s1 ch1 w1 where 1: "(if ?a then wake_satisfied_waiters sh ext (Current (fc_key change)) False (s, ch, wakes)
      else (s, ch, wakes)) = (s1, ch1, w1)" by (metis prod_cases3)
  then have "covered_but sh R {} ext fl s1" using assms(2,3) by (auto split: if_splits dest: covered_waiters)
  then show ?thesis
    using assms None 1 by (auto simp: dispatch_change_def Let_def split: if_splits dest: covered_dependents)
next
  case (Some m)
  obtain s1 ch1 w1 where 1: "enqueue_dependents sh ext (Current (fc_key change)) (m = Shift) (s, ch, wakes) = (s1, ch1, w1)"
    by (metis prod_cases3)
  with assms Some have 2: "enqueue_dependents sh ext (Settled (fc_key change)) (m = Shift) (s1, ch1, w1) = (s', ch', wakes')"
    by (simp add: dispatch_change_def)
  show ?thesis by (rule covered_dependents [OF 2 covered_dependents [OF 1 assms(2,3)] assms(3)])
qed

lemma covered_dispatch:
  assumes "dispatch_changes sh ext s ch = (wakes, movements, s')" and "covered_but sh R {} ext fl s" and "shape_ok sh"
  shows "covered_but sh R {} ext fl s'"
proof -
  obtain wakes1 moved where l: "dispatch_loop sh ext s ch [] {} = (s', wakes1, moved)"
    using assms(1) by (auto simp: dispatch_changes_def Let_def split: prod.splits)
  show ?thesis
    by (rule dispatch_loop_invariant [where P = "covered_but sh R {} ext fl", OF _ l assms(2)])
      (rule covered_dispatch_change [OF _ _ assms(3)])
qed

text \<open>A step that only moves finality flags keeps what is covered.\<close>

lemma covered_reflag:
  assumes "covered_but sh R P ext0 fl s" and "same_graph s s'" and "reflag (sch_facts s) (sch_facts s')" and "graph_inv ext fl s'"
  shows "covered_but sh R P ext fl s'"
proof -
  have d: "sch_deps s' = sch_deps s" "sch_agenda s' = sch_agenda s" using assms(2) by (simp_all add: same_graph_def)
  show ?thesis
    using assms(1,4) dirty_pubs_reflag [OF assms(3)] claimants_reflag [OF assms(3)]
    unfolding covered_but_def job_owned_def d by auto
qed

lemma covered_settle_publisher:
  assumes "settle_publisher p (s, ch) = (s', ch')" and "covered_but sh R {} ext fl s"
  shows "covered_but sh R {} ext fl s'"
proof -
  have g: "graph_inv ext fl s" using assms(2) by (simp add: covered_but_def)
  then have "sched_inv ext s" by (simp add: graph_inv_def)
  from settle_publisher_inv(3,4) [OF assms(1) this] show ?thesis
    using covered_reflag [OF assms(2)] graph_inv_settle_publisher [OF assms(1) g] by blast
qed

lemma covered_settle_fact:
  assumes "settle_quiescent_fact ext k (s, ch) = (s', ch')" and "covered_but sh R {} ext fl s"
  shows "covered_but sh R {} ext fl s'"
proof (cases "FactTable_is_quiet (sch_facts s) k \<or> \<not> FactTable_is_locally_settled (sch_facts s) k \<or>
    quiescent_cone s k ext = None")
  case True
  then show ?thesis using assms by (auto simp: settle_quiescent_fact_def split: if_splits)
next
  case False
  then obtain cone where c: "quiescent_cone s k ext = Some cone" by blast
  have f: "fold settle_publisher (sorted_list_of_set (\<Union>k \<in> set cone. FactTable_publishers (sch_facts s) k)) (s, ch) = (s', ch')"
    using assms(1) c False by (simp add: settle_quiescent_fact_def Let_def)
  show ?thesis
    by (rule fold2_invariant [where P = "covered_but sh R {} ext fl" and f = settle_publisher, OF covered_settle_publisher f assms(2)])
qed

lemma covered_settle:
  assumes "settle_quiescent_ordered_with_external sh ext facts s = (step, s')" and "covered_but sh R {} ext fl s" and "shape_ok sh"
  shows "covered_but sh R {} ext fl s'"
proof -
  obtain s1 ch where 1: "(if Agenda_is_empty (sch_agenda s) then fold (settle_quiescent_fact ext) facts (s, [])
      else (s, [])) = (s1, ch)" by fastforce
  obtain wakes movements s2 where 2: "dispatch_changes sh ext s1 ch = (wakes, movements, s2)" by (metis prod_cases3)
  have "s' = s2" using assms(1) unfolding settle_quiescent_ordered_with_external_def 1 by (simp add: 2)
  moreover have "covered_but sh R {} ext fl s1"
    using 1 assms(2) fold2_invariant [where P = "covered_but sh R {} ext fl" and f = "settle_quiescent_fact ext", OF covered_settle_fact]
    by (auto split: if_splits)
  ultimately show ?thesis using covered_dispatch [OF 2 _ assms(3)] by blast
qed

lemma external_loop_same:
  assumes "external_loop ext changes s ch = Inr (s', ch')" and "graph_wf s"
  shows "wave_keeps s s'"
  using assms
proof (induction changes arbitrary: s ch)
  case (Cons c changes)
  show ?case
  proof (cases "FactChange_readiness_changed c")
    case True
    obtain s1 ch1 where w: "propagate_quiet_wave [fc_key c] (fc_new_settled c) s ch = (s1, ch1)" by fastforce
    have k: "wave_keeps s s1" by (rule wave_keeps_wave [OF w Cons.prems(2)])
    then have "wave_keeps s1 s'"
      using Cons.IH [of s1 ch1] Cons.prems(1) True w by (auto simp: wave_keeps_def split: if_splits)
    with k show ?thesis by (rule wave_keeps_trans)
  next
    case False
    then show ?thesis using Cons by (auto split: if_splits)
  qed
qed simp

lemma covered_external:
  assumes run: "apply_external_changes_ordered sh ext changes s = Inr (step, s')" and move: "external_move ext0 changes ext"
    and inv: "covered_but sh R {} ext0 fl s" and "shape_ok sh"
  shows "covered_but sh R {} ext fl s'"
proof -
  let ?cs = "sort_key fc_key changes"
  obtain s1 ch where l: "external_loop ext ?cs s ?cs = Inr (s1, ch)"
    using external_loop_returns [OF move, of ?cs s ?cs] by auto
  obtain wakes movements s2 where d: "dispatch_changes sh ext s1 ch = (wakes, movements, s2)" by (metis prod_cases3)
  have s2: "s' = s2" using run l d by (simp add: apply_external_changes_ordered_def Let_def)
  have g: "graph_inv ext0 fl s" using inv by (simp add: covered_but_def)
  have "wave_keeps s s1" by (rule external_loop_same [OF l]) (use g in \<open>simp add: graph_inv_def sched_inv_def\<close>)
  moreover have "graph_inv ext fl s1" by (rule external_loop_inv [OF g external_move_sort [OF move] l])
  ultimately have "covered_but sh R {} ext fl s1" using covered_reflag [OF inv] by (auto simp: wave_keeps_def)
  then show ?thesis using covered_dispatch [OF d _ assms(4)] s2 by blast
qed

text \<open>A completion leaves the completed job's claims clean, or the job waiting.\<close>

lemma covered_complete:
  fixes s :: "('p::linorder, 'j::linorder, 'f::linorder) Scheduler"
  assumes run: "complete_ordered_with_external sh ext job eff s = Inr (step, s')"
    and inv: "covered_but sh R {} ext fl s" and ok: "effects_ok ext s eff"
    and current: "fl \<Longrightarrow> answers_current sh ext job eff s"
    and mine: "\<And>d. d \<in> set (ce_derivations eff) \<Longrightarrow> sh_run sh (de_publisher d) = job" and "shape_ok sh"
    and prev: "\<And>p. p \<in> os_members (derivations_of (sch_deps s) job) \<Longrightarrow> sh_run sh p = job"
  shows "covered_but sh (R - {job}) {} ext fl s'"
    and "os_members (derivations_of (sch_deps s') j) \<subseteq> os_members (derivations_of (sch_deps s) j) \<union>
      (if j = job then de_publisher ` set (ce_derivations eff) else {})"
proof -
  let ?L = "de_publisher ` set (ce_derivations eff)"
  let ?U = "os_members (derivations_of (sch_deps s) job) - ?L"
  let ?W = "ce_waits eff \<noteq> {}"
  have g: "graph_inv ext fl s" "job_owned sh s" and cov: "covered sh R s" using inv by (simp_all add: covered_but_empty)
  have fin: "finite (ce_waits eff)" "\<And>d. d \<in> set (ce_derivations eff) \<Longrightarrow> finite (de_reads d)"
    using ok by (auto simp: effects_ok_def)
  obtain s6 pending6 wakes movements where d: "dispatch_changes sh ext s6 pending6 = (wakes, movements, s')"
    and g6: "graph_inv ext fl s6" and ag: "sch_agenda s6 = sch_agenda s"
    and ws: "waits_for (sch_deps s6) = (waits_for (sch_deps s))(job := ce_waits eff)"
    and ow: "os_members (derivations_of (sch_deps s6) job) = (if ?W then ?L \<union> ?U else ?L)"
    and oth: "\<And>j. j \<noteq> job \<Longrightarrow> derivations_of (sch_deps s6) j = derivations_of (sch_deps s) j"
    and cl: "claimants (sch_facts s6) \<subseteq> (if ?W then claimants (sch_facts s) \<union> ?L else claimants (sch_facts s) \<union> ?L - ?U)"
    and di: "dirty_pubs (sch_facts s6) \<subseteq> (if ?W then dirty_pubs (sch_facts s) \<union> ?L \<union> ?U else dirty_pubs (sch_facts s) - ?L - ?U)"
    using complete_core [OF run g(1) fin current refl refl] by blast
  have "job_owned sh s6"
    unfolding job_owned_def
  proof
    fix p assume p: "p \<in> claimants (sch_facts s6)"
    show "p \<in> os_members (derivations_of (sch_deps s6) (sh_run sh p))"
      using p cl g(2) mine oth [of "sh_run sh p"] ow
      by (cases "sh_run sh p = job") (auto simp: job_owned_def split: if_splits)
  qed
  moreover have "covered sh (R - {job}) s6"
    unfolding covered_def
  proof
    fix p assume p: "p \<in> dirty_pubs (sch_facts s6)"
    have "p \<in> claimants (sch_facts s6)" using p g6 dirty_pubs_claimants by (auto simp: graph_inv_def sched_inv_def graph_wf_def)
    show "sh_run sh p \<in> ag_queued (sch_agenda s6) \<union> (R - {job}) \<union> {j. waits_for (sch_deps s6) j \<noteq> {}}"
    proof (cases "sh_run sh p = job")
      case True
      then have "p \<in> dirty_pubs (sch_facts s) \<Longrightarrow> p \<in> ?L \<union> ?U"
        using g dirty_pubs_claimants [of "sch_facts s"] by (auto simp: job_owned_def graph_inv_def sched_inv_def graph_wf_def)
      then have ?W using p di by (auto split: if_splits)
      then show ?thesis using True by (simp add: ws)
    next
      case False
      then have "p \<in> dirty_pubs (sch_facts s)" using p di mine prev by (auto split: if_splits)
      then show ?thesis using cov False unfolding covered_def ag ws by auto
    qed
  qed
  ultimately have "covered_but sh (R - {job}) {} ext fl s6" using g6 by (simp add: covered_but_empty)
  then show "covered_but sh (R - {job}) {} ext fl s'" by (rule covered_dispatch [OF d _ assms(6)])
  have "sch_deps s' = sch_deps s6" using dispatch_deps [OF d] .
  then show "os_members (derivations_of (sch_deps s') j) \<subseteq> os_members (derivations_of (sch_deps s) j) \<union>
      (if j = job then ?L else {})"
    using oth [of j] ow by (cases "j = job") auto
qed

text \<open>Neither the arbiter nor an external movement touches the index.\<close>

lemma settle_publisher_deps: "settle_publisher p (s, ch) = (s', ch') \<Longrightarrow> sch_deps s' = sch_deps s"
  by (auto simp: settle_publisher_def Let_def same_graph_def split: prod.splits option.splits dest!: same_graph_flips)

lemma settle_fact_deps:
  assumes "settle_quiescent_fact ext k (s, ch) = (s', ch')"
  shows "sch_deps s' = sch_deps s"
proof -
  have f: "fold settle_publisher ps (s, ch) = (s', ch') \<Longrightarrow> sch_deps s' = sch_deps s" for ps
    by (rule fold2_invariant [where P = "\<lambda>s1. sch_deps s1 = sch_deps s" and f = settle_publisher])
      (auto dest: settle_publisher_deps)
  show ?thesis
    using assms by (auto simp: settle_quiescent_fact_def Let_def split: if_splits option.splits dest: f)
qed

lemma settle_deps:
  assumes "settle_quiescent_ordered_with_external sh ext facts s = (step, s')"
  shows "sch_deps s' = sch_deps s"
proof -
  obtain s1 ch where 1: "(if Agenda_is_empty (sch_agenda s) then fold (settle_quiescent_fact ext) facts (s, [])
      else (s, [])) = (s1, ch)" by fastforce
  obtain wakes movements s2 where 2: "dispatch_changes sh ext s1 ch = (wakes, movements, s2)" by (metis prod_cases3)
  have "s' = s2" using assms(1) unfolding settle_quiescent_ordered_with_external_def 1 by (simp add: 2)
  moreover have "sch_deps s1 = sch_deps s"
  proof (cases "Agenda_is_empty (sch_agenda s)")
    case True
    then have "fold (settle_quiescent_fact ext) facts (s, []) = (s1, ch)" using 1 by simp
    then show ?thesis
      by (rule fold2_invariant [where P = "\<lambda>s1. sch_deps s1 = sch_deps s" and f = "settle_quiescent_fact ext", rotated])
        (auto dest: settle_fact_deps)
  qed (use 1 in simp)
  ultimately show ?thesis using dispatch_deps [OF 2] by simp
qed

lemma external_deps:
  assumes run: "apply_external_changes_ordered sh ext changes s = Inr (step, s')" and "external_move ext0 changes ext"
    and "graph_inv ext0 fl s"
  shows "sch_deps s' = sch_deps s"
proof -
  obtain s1 ch where l: "external_loop ext (sort_key fc_key changes) s (sort_key fc_key changes) = Inr (s1, ch)"
    using external_loop_returns [OF assms(2), of "sort_key fc_key changes" s "sort_key fc_key changes"] by auto
  obtain wakes movements s2 where d: "dispatch_changes sh ext s1 ch = (wakes, movements, s2)" by (metis prod_cases3)
  have "s' = s2" using run l d by (simp add: apply_external_changes_ordered_def Let_def)
  moreover have "wave_keeps s s1"
    by (rule external_loop_same [OF l]) (use assms(3) in \<open>simp add: graph_inv_def sched_inv_def\<close>)
  ultimately show ?thesis using dispatch_deps [OF d] by (simp add: wave_keeps_def same_graph_def)
qed

section \<open>The machine\<close>

record ('p, 'j, 'f) WorkMachine =
  wm_external :: "'f \<Rightarrow> FactState option"
  wm_running :: "'j set"
  wm_graph :: "('p, 'j, 'f) Scheduler"

text \<open>
  The steps of the driver, in any order: demand a job, take the next one, complete a running
  one with effects that meet the source's assertions, arbitrate a drain, deliver external
  movements. With \<open>current\<close> the finality bits that a run captures are current when it publishes them.
\<close>

inductive work_step ::
  "('p::linorder, 'j::linorder, 'f::linorder) shape \<Rightarrow> bool \<Rightarrow> ('p, 'j, 'f) WorkMachine \<Rightarrow> ('p, 'j, 'f) WorkMachine \<Rightarrow> bool"
  for sh current where
  demand: "work_step sh current m (m\<lparr>wm_graph := snd (Scheduler_enqueue job reason (wm_graph m))\<rparr>)"
| take_job: "Scheduler_pop (wm_graph m) = (Some job, s') \<Longrightarrow>
    work_step sh current m (m\<lparr>wm_graph := s', wm_running := insert job (wm_running m)\<rparr>)"
| complete: "job \<in> wm_running m \<Longrightarrow> effects_ok (wm_external m) (wm_graph m) eff \<Longrightarrow>
    (\<forall>d \<in> set (ce_derivations eff). sh_run sh (de_publisher d) = job) \<Longrightarrow>
    (current \<longrightarrow> answers_current sh (wm_external m) job eff (wm_graph m)) \<Longrightarrow>
    complete_ordered_with_external sh (wm_external m) job eff (wm_graph m) = Inr (applied, s') \<Longrightarrow>
    work_step sh current m (m\<lparr>wm_graph := s', wm_running := wm_running m - {job}\<rparr>)"
| arbitrate: "settle_quiescent_ordered_with_external sh (wm_external m) facts (wm_graph m) = (applied, s') \<Longrightarrow>
    work_step sh current m (m\<lparr>wm_graph := s'\<rparr>)"
| external: "external_move (wm_external m) changes ext \<Longrightarrow>
    apply_external_changes_ordered sh ext changes (wm_graph m) = Inr (applied, s') \<Longrightarrow>
    work_step sh current m (m\<lparr>wm_graph := s', wm_external := ext\<rparr>)"

inductive_cases work_stepE: "work_step sh current m m'"

definition work_init :: "('p, 'j, 'f) WorkMachine \<Rightarrow> bool" where
  "work_init m \<longleftrightarrow> wm_running m = {} \<and> wm_graph m = Scheduler_new"

definition own_answers :: "('p, 'j, 'f) shape \<Rightarrow> ('p, 'j, 'f) Scheduler \<Rightarrow> bool" where
  "own_answers sh s \<longleftrightarrow> (\<forall>j. \<forall>p \<in> os_members (derivations_of (sch_deps s) j). sh_run sh p = j)"

definition work_inv :: "('p, 'j, 'f) shape \<Rightarrow> bool \<Rightarrow> ('p, 'j, 'f) WorkMachine \<Rightarrow> bool" where
  "work_inv sh current m \<longleftrightarrow> covered_but sh (wm_running m) {} (wm_external m) current (wm_graph m) \<and>
     own_answers sh (wm_graph m)"

lemma work_inv_init: "work_init m \<Longrightarrow> work_inv sh current m"
  by (simp add: work_init_def work_inv_def covered_but_empty covered_def job_owned_def own_answers_def
      dirty_pubs_def claimants_def graph_inv_def sched_inv_def graph_wf_def owns_def finality_pos_def
      counts_exact_def finality_count_def unquiet_reads_def flags_follow_def Scheduler_new_def deps_wf_new
      agenda_wf_def Agenda_new_def ext_disjoint_def FactTable_new_def FactTable_publishers_def ft_wf_def
      OrderedSet_default_def)

lemma enqueue_effect:
  "sch_facts (snd (Scheduler_enqueue job reason s)) = sch_facts s"
  "sch_deps (snd (Scheduler_enqueue job reason s)) = sch_deps s"
  "read_finality (snd (Scheduler_enqueue job reason s)) = read_finality s"
  "sch_agenda (snd (Scheduler_enqueue job reason s)) = snd (Agenda_enqueue job (sch_agenda s))"
  by (simp_all add: Scheduler_enqueue_def bump_work_start_def Let_def split: prod.splits)

lemma graph_inv_same:
  assumes "graph_inv ext fl s" and "sch_facts s' = sch_facts s" "sch_deps s' = sch_deps s"
    "read_finality s' = read_finality s" "agenda_wf (sch_agenda s')"
  shows "graph_inv ext fl s'"
  using assms by (simp add: graph_inv_def sched_inv_def graph_wf_def owns_def finality_pos_def counts_exact_def
      finality_count_def unquiet_reads_under flags_follow_def is_unfinal_def)

lemma work_inv_demand:
  assumes "work_inv sh current m"
  shows "work_inv sh current (m\<lparr>wm_graph := snd (Scheduler_enqueue job reason (wm_graph m))\<rparr>)"
proof -
  let ?s = "wm_graph m"
  have "graph_inv (wm_external m) current (snd (Scheduler_enqueue job reason ?s))"
    by (rule graph_inv_same [of _ _ ?s])
      (use assms in \<open>simp_all add: work_inv_def covered_but_def enqueue_effect agenda_wf_enqueue graph_inv_def sched_inv_def graph_wf_def\<close>)
  then show ?thesis
    using assms Agenda_queued_enqueue [of job "sch_agenda ?s"]
    by (auto simp: work_inv_def covered_but_def job_owned_def own_answers_def enqueue_effect)
qed

lemma work_inv_take:
  assumes "work_inv sh current m" and "Scheduler_pop (wm_graph m) = (Some job, s')"
  shows "work_inv sh current (m\<lparr>wm_graph := s', wm_running := insert job (wm_running m)\<rparr>)"
proof -
  let ?s = "wm_graph m"
  obtain a where a: "Agenda_pop (sch_agenda ?s) = (Some job, a)" and s': "s' = ?s\<lparr>sch_agenda := a\<rparr>"
    using assms(2) by (auto simp: Scheduler_pop_def split: prod.splits)
  have wf: "agenda_wf (sch_agenda ?s)"
    using assms(1) by (simp add: work_inv_def covered_but_def graph_inv_def sched_inv_def graph_wf_def)
  have q: "ag_queued a = ag_queued (sch_agenda ?s) - {job}"
    using a by (auto simp: Agenda_pop_def split: list.splits)
  have aw: "agenda_wf a" using agenda_wf_pop [OF wf] a by simp
  have "graph_inv (wm_external m) current ?s" using assms(1) by (simp add: work_inv_def covered_but_def)
  then have "graph_inv (wm_external m) current s'" by (rule graph_inv_same) (simp_all add: s' aw)
  moreover have "sch_facts s' = sch_facts ?s" "sch_deps s' = sch_deps ?s"
      "ag_queued (sch_agenda s') \<union> insert job (wm_running m) \<union> W =
       insert job (ag_queued (sch_agenda ?s) \<union> wm_running m \<union> W)" for W
    using q by (auto simp: s')
  ultimately show ?thesis
    using assms(1) by (simp add: work_inv_def covered_but_def job_owned_def own_answers_def)
qed

lemma work_inv_step:
  assumes "work_step sh current m m'" and inv: "work_inv sh current m" and "shape_ok sh"
  shows "work_inv sh current m'"
  using assms(1)
proof cases
  case (complete job eff applied s')
  have c: "covered_but sh (wm_running m) {} (wm_external m) current (wm_graph m)" and o: "own_answers sh (wm_graph m)"
    using inv by (simp_all add: work_inv_def)
  note cc = covered_complete [OF complete(6) c complete(3) _ _ assms(3)]
  have "covered_but sh (wm_running m - {job}) {} (wm_external m) current s'"
    by (rule cc(1)) (use complete(4,5) o in \<open>auto simp: own_answers_def\<close>)
  moreover have "os_members (derivations_of (sch_deps s') j) \<subseteq> os_members (derivations_of (sch_deps (wm_graph m)) j) \<union>
      (if j = job then de_publisher ` set (ce_derivations eff) else {})" for j
    by (rule cc(2)) (use complete(4,5) o in \<open>auto simp: own_answers_def\<close>)
  then have "own_answers sh s'" using o complete(4) by (force simp: own_answers_def split: if_splits)
  ultimately show ?thesis by (simp add: work_inv_def complete(1))
next
  case (arbitrate facts applied s')
  have "covered_but sh (wm_running m) {} (wm_external m) current s'"
    by (rule covered_settle [OF arbitrate(2)]) (use inv assms(3) in \<open>simp_all add: work_inv_def\<close>)
  moreover have "sch_deps s' = sch_deps (wm_graph m)" by (rule settle_deps [OF arbitrate(2)])
  ultimately show ?thesis using inv by (simp add: work_inv_def own_answers_def arbitrate(1))
next
  case (external changes ext applied s')
  have "covered_but sh (wm_running m) {} ext current s'"
    by (rule covered_external [OF external(3,2)]) (use inv assms(3) in \<open>simp_all add: work_inv_def\<close>)
  moreover have "sch_deps s' = sch_deps (wm_graph m)"
    by (rule external_deps [OF external(3,2), where fl = current]) (use inv in \<open>simp add: work_inv_def covered_but_def\<close>)
  ultimately show ?thesis using inv by (simp add: work_inv_def own_answers_def external(1))
qed (use inv in \<open>auto intro: work_inv_demand work_inv_take\<close>)

text \<open>The machine meets the interface of a machine with an invariant.\<close>

interpretation wm: invariant_machine work_init "\<lambda>m m'. shape_ok sh \<and> work_step sh current m m'" "work_inv sh current"
  for sh current
  by unfold_locales (auto intro: work_inv_init work_inv_step)

lemma work_reachable:
  assumes "shape_ok sh" and "work_init m" and "(work_step sh current)\<^sup>*\<^sup>* m m'"
  shows "work_inv sh current m'"
proof -
  have "(\<lambda>m m'. shape_ok sh \<and> work_step sh current m m') = work_step sh current" using assms(1) by (simp add: fun_eq_iff)
  with wm.reachable_inv [of sh current m m'] assms show ?thesis by simp
qed

lemmas work_inv_defs = work_inv_def covered_but_def graph_inv_def sched_inv_def graph_wf_def

section \<open>A small machine\<close>

text \<open>Answers are numbered so that answer \<open>2 j\<close> is job \<open>j\<close>'s own and \<open>2 j + 1\<close> its other one.\<close>

definition example_shape :: "(nat, nat, nat) shape" where
  "example_shape = \<lparr>sh_run = (\<lambda>p. p div 2), sh_of_run = (\<lambda>j. 2 * j), sh_is_cumulative = (\<lambda>_. False)\<rparr>"

definition example_start :: "(nat, nat, nat) WorkMachine" where
  "example_start = \<lparr>wm_external = NoExternalDependencyStates, wm_running = {}, wm_graph = Scheduler_new\<rparr>"

definition example_effects :: "(nat, nat) CompletionEffects" where
  "example_effects = CompletionEffects_single 2 {Current 7} {Settled 9} [5] [5]"

lemma example_ok:
  "shape_ok example_shape" "work_init example_start"
  "effects_ok NoExternalDependencyStates (Scheduler_new :: (nat, nat, nat) Scheduler) example_effects"
  by (simp_all add: shape_ok_def example_shape_def work_init_def example_start_def effects_ok_def example_effects_def
      CompletionEffects_single_def NoExternalDependencyStates_def)

definition example_taken :: "(nat, nat, nat) WorkMachine" where
  "example_taken = example_start\<lparr>wm_running := {1},
     wm_graph := Scheduler_new\<lparr>work_starts := [Ignition \<mapsto> 1]\<rparr>\<rparr>"

lemma example_take: "(work_step example_shape True)\<^sup>*\<^sup>* example_start example_taken"
proof -
  let ?m1 = "example_start\<lparr>wm_graph := snd (Scheduler_enqueue 1 Ignition (wm_graph example_start))\<rparr>"
  have 1: "work_step example_shape True example_start ?m1" by (rule work_step.demand)
  have g: "wm_graph ?m1 = Scheduler_new\<lparr>sch_agenda := \<lparr>ag_queue = [1], ag_queued = {1}\<rparr>, work_starts := [Ignition \<mapsto> 1]\<rparr>"
    by (simp add: example_start_def Scheduler_enqueue_def Agenda_enqueue_def bump_work_start_def Scheduler_new_def Agenda_new_def)
  have "Scheduler_pop (wm_graph ?m1) = (Some 1, Scheduler_new\<lparr>work_starts := [Ignition \<mapsto> 1]\<rparr>)"
    unfolding g by (simp add: Scheduler_pop_def Agenda_pop_def Scheduler_new_def Agenda_new_def)
  from work_step.take_job [of ?m1 1 _ example_shape True, OF this]
  have "work_step example_shape True ?m1 example_taken" by (simp add: example_taken_def example_start_def)
  with 1 show ?thesis by (meson r_into_rtranclp rtranclp.rtrancl_into_rtrancl)
qed

lemma example_taken_ok: "effects_ok (wm_external example_taken) (wm_graph example_taken) example_effects"
  using example_ok(3) by (simp add: effects_ok_def example_taken_def example_start_def)

section \<open>Properties\<close>

text \<open>
  C18. A completion whose effects meet the source's assertions always returns, whatever the
  state of a reachable work graph: the loops of the completion, its quiet waves and the
  dispatch of its changes all end, and no panic is raised.
\<close>

theorem Scheduler_complete_returns:
  assumes "shape_ok sh" and "work_init m" and "(work_step sh current)\<^sup>*\<^sup>* m m'"
    and "effects_ok (wm_external m') (wm_graph m') eff"
  shows "\<exists>applied s'. complete_ordered_with_external sh (wm_external m') job eff (wm_graph m') = Inr (applied, s')"
  using work_reachable [OF assms(1-3)] complete_returns [OF _ assms(4)] by (auto simp: work_inv_def covered_but_def)

theorem Scheduler_complete_returns_witness:
  "\<exists>applied s'. complete_ordered_with_external example_shape (wm_external example_taken) 1 example_effects
     (wm_graph example_taken) = Inr (applied, s')"
  by (rule Scheduler_complete_returns [OF example_ok(1,2) example_take example_taken_ok])

text \<open>A state reached by a run that waits, for the witnesses below.\<close>

lemma example_completed:
  "\<exists>s' applied. complete_ordered_with_external example_shape (wm_external example_taken) 1 example_effects
     (wm_graph example_taken) = Inr (applied, s') \<and>
   (work_step example_shape True)\<^sup>*\<^sup>* example_start (example_taken\<lparr>wm_graph := s', wm_running := {}\<rparr>)"
proof -
  have "work_inv example_shape True example_taken" by (rule work_reachable [OF example_ok(1,2) example_take])
  then have g: "graph_inv (wm_external example_taken) True (wm_graph example_taken)"
    by (simp add: work_inv_def covered_but_def)
  obtain applied s' where c: "complete_ordered_with_external example_shape (wm_external example_taken) 1 example_effects
     (wm_graph example_taken) = Inr (applied, s')"
    using complete_returns [OF g example_taken_ok] by blast
  have "work_step example_shape True example_taken (example_taken\<lparr>wm_graph := s', wm_running := wm_running example_taken - {1}\<rparr>)"
    by (rule work_step.complete [OF _ example_taken_ok _ _ c])
      (simp_all add: answers_current_one example_taken_def example_start_def example_effects_def CompletionEffects_single_def example_shape_def)
  moreover have "wm_running example_taken - {1} = {}" by (simp add: example_taken_def)
  ultimately show ?thesis using c example_take by (metis rtranclp.rtrancl_into_rtrancl)
qed

text \<open>
  C1. In every reachable state of the work graph, whatever the interleaving of demands, runs,
  drains and external movements, the parts agree: the fact table, the dependency index and
  the agenda are well formed, the index's output sets are exactly the claims of the table,
  no external dependency has a slot, and the unfinal-read count kept for each publisher edge
  by edge equals a full recount of its read set.
\<close>

theorem WorkGraph_reachable_consistent:
  assumes "shape_ok sh" and "work_init m" and "(work_step sh current)\<^sup>*\<^sup>* m m'" and "s = wm_graph m'"
  shows "ft_wf (sch_facts s) \<and> deps_wf (sch_deps s) \<and> agenda_wf (sch_agenda s) \<and>
    (\<forall>p k. p \<in> FactTable_publishers (sch_facts s) k \<longleftrightarrow> k \<in> os_members (deps_output_keys (sch_deps s) p)) \<and>
    (\<forall>k. slots (sch_facts s) k \<noteq> None \<longrightarrow> wm_external m' k = None) \<and>
    (\<forall>p. (case read_finality s p of None \<Rightarrow> 0 | Some st \<Rightarrow> ReadFinality_count st) = count_unfinal_reads s p (wm_external m'))"
proof -
  have "graph_wf s" "ext_disjoint (wm_external m') (sch_facts s)" "counts_exact s (wm_external m')"
    using work_reachable [OF assms(1-3)] by (simp_all add: work_inv_defs assms(4))
  then show ?thesis
    by (auto simp: graph_wf_def owns_def ext_disjoint_def counts_exact_def finality_count_def count_unfinal_reads_card)
qed

theorem WorkGraph_reachable_consistent_witness:
  "\<exists>s' applied. complete_ordered_with_external example_shape (wm_external example_taken) 1 example_effects
     (wm_graph example_taken) = Inr (applied, s') \<and> ft_wf (sch_facts s') \<and> deps_wf (sch_deps s')"
proof -
  obtain s' applied where c: "complete_ordered_with_external example_shape (wm_external example_taken) 1 example_effects
     (wm_graph example_taken) = Inr (applied, s')"
    and r: "(work_step example_shape True)\<^sup>*\<^sup>* example_start (example_taken\<lparr>wm_graph := s', wm_running := {}\<rparr>)"
    using example_completed by blast
  from WorkGraph_reachable_consistent [OF example_ok(1,2) r refl] c show ?thesis by auto
qed

text \<open>
  C9. No reopened answer is forgotten: in every reachable state, an answer that is dirty on
  some fact belongs to a job that is queued, running, or standing on a wait. When the agenda
  is drained and nothing runs, every dirty answer is a waiting job's.
\<close>

theorem WorkGraph_dirty_jobs_scheduled:
  assumes "shape_ok sh" and "work_init m" and "(work_step sh current)\<^sup>*\<^sup>* m m'" and "s = wm_graph m'"
    and "slots (sch_facts s) k = Some sl" and "p \<in> dirty_publishers sl"
  shows "(sh_run sh p \<in> set (ag_queue (sch_agenda s)) \<or> sh_run sh p \<in> wm_running m' \<or> deps_blocked (sch_deps s) (sh_run sh p)) \<and>
    (Agenda_is_empty (sch_agenda s) \<and> wm_running m' = {} \<longrightarrow> deps_blocked (sch_deps s) (sh_run sh p))"
proof -
  have inv: "covered sh (wm_running m') s" "agenda_wf (sch_agenda s)"
    using work_reachable [OF assms(1-3)] by (simp_all add: work_inv_def covered_but_empty assms(4) graph_inv_def sched_inv_def graph_wf_def)
  have "p \<in> dirty_pubs (sch_facts s)" using assms(5,6) by (auto simp: dirty_pubs_def)
  then have "sh_run sh p \<in> ag_queued (sch_agenda s) \<union> wm_running m' \<union> {j. waits_for (sch_deps s) j \<noteq> {}}"
    using inv(1) by (simp add: covered_def)
  moreover have "deps_blocked (sch_deps s) j \<longleftrightarrow> waits_for (sch_deps s) j \<noteq> {}" for j
    by (simp add: deps_blocked_def waits_for_def entries_def split: option.splits)
  moreover have "set (ag_queue (sch_agenda s)) = ag_queued (sch_agenda s)" using inv(2) by (simp add: agenda_wf_def)
  ultimately show ?thesis using Agenda_is_empty_iff [OF inv(2)] by (simp, blast)
qed

text \<open>
  C8. What a quiet fact promises. In every state reached by runs whose captured finality bits are
  current when they are published, a present fact is quiet exactly when no publisher of it is
  queued to re-run and each publisher either reads quiet dependencies only or holds the drain's
  certificate. Every run of at most one answer is such a run, and so is a run of several answers
  none of which turns an earlier one unfinal while it is recorded; a run that is not breaks the
  equivalence.
\<close>

theorem WorkGraph_quiet_iff:
  assumes "shape_ok sh" and "work_init m" and "(work_step sh True)\<^sup>*\<^sup>* m m'" and "s = wm_graph m'"
    and "slots (sch_facts s) k = Some sl"
  shows "FactTable_is_quiet (sch_facts s) k \<longleftrightarrow> dirty_publishers sl = {} \<and>
    (\<forall>p \<in> publishers sl. (\<forall>u \<in> reads_of (sch_deps s) p. dependency_is_quiet s (FactUse_fact u) (wm_external m')) \<or>
       (\<exists>n. read_finality s p = Some (Quiescent n)))"
proof -
  have wf: "graph_wf s" "counts_exact s (wm_external m')" "flags_follow s"
    using work_reachable [OF assms(1-3)] by (simp_all add: work_inv_defs assms(4))
  have sl: "unfinal_publishers sl \<subseteq> publishers sl" "\<And>p. p \<in> publishers sl \<Longrightarrow> p \<in> unfinal_publishers sl \<longleftrightarrow> is_unfinal s p"
    using wf assms(5) by (auto simp: graph_wf_def ft_wf_def slot_wf_def flags_follow_def)
  have "\<not> is_unfinal s p \<longleftrightarrow> (\<forall>u \<in> reads_of (sch_deps s) p. dependency_is_quiet s (FactUse_fact u) (wm_external m')) \<or>
       (\<exists>n. read_finality s p = Some (Quiescent n))" for p
  proof -
    have "finite (unquiet_reads s (wm_external m') p)" using wf(1) by (simp add: graph_wf_def unquiet_reads_def)
    then have "finality_count s p = 0 \<longleftrightarrow> (\<forall>u \<in> reads_of (sch_deps s) p. dependency_is_quiet s (FactUse_fact u) (wm_external m'))"
      using wf(2) by (auto simp: counts_exact_def unquiet_reads_def)
    moreover have "read_finality s p = Some st \<Longrightarrow> 0 < ReadFinality_count st" for st
      using wf(1) by (simp add: graph_wf_def finality_pos_def)
    ultimately show ?thesis
      by (cases "read_finality s p"; cases "the (read_finality s p)") (auto simp: is_unfinal_def finality_count_def)
  qed
  moreover have "unfinal_publishers sl = {} \<longleftrightarrow> (\<forall>p \<in> publishers sl. \<not> is_unfinal s p)" using sl by blast
  ultimately show ?thesis using assms(5) by (simp add: FactTable_is_quiet_def FactSlot_is_quiet_def)
qed

end
