(* ===== verification/Fz_Scenario.thy ===== *)
theory Fz_Scenario
  imports Fz_Machine
begin

text \<open>
  A concrete run of the work graph, evaluated step by step: a job with two answers of which
  one reads the other's fact, and a job that waits. It gives the witnesses of properties that
  need a dirty or an unfinal fact, and shows what happens to the finality flag of an answer
  when a later answer of the same run becomes unfinal.
\<close>

lemmas graph_eval = complete_ordered_with_external_def Let_def record_derivation_def refresh_finality_def
  count_unfinal_reads_def deps_reads_def dependency_is_quiet_def set_unfinal_reads_def set_read_finality_def
  is_unfinal_def replace_reads_def union_reads_def replace_waits_def unindex_def index_def deps_output_keys_def
  OrderedSet_iter_def touched_keys_def quiet_snapshot_def FactTable_replace_outputs_after_run_def
  collect_unique_Cons OrderedSet_insert_def OrderedSet_contains_def OrderedSet_default_def
  OrderedSet_is_empty_def OrderedSet_from_iter_def OrderedSet_remove_def FactTable_extend_outputs_after_run_def
  extend_loop.simps extend_slot_def FactTable_mark_dirty_def mark_dirty_loop.simps replace_loop.simps
  claim_slot_def withdraw_slot_def put_slot_def slot_or_default_def report_change_def content_movement_def
  appearance_revision_def set_membership_def FactSlot_default_def FactSlot_revision_def
  FactSlot_is_settled_def FactSlot_is_locally_settled_def FactSlot_is_quiet_def FactTable_is_quiet_def
  deps_replace_outputs_def replace_derivations_def derivations_of_def propagate_quiet_flips_def
  propagate_quiet_wave.simps dispatch_changes_def dispatch_loop.simps take_next_fact_change_def
  change_order_def dispatch_change_def enqueue_dependents_def subscribers_def waiters_def readers_of_def
  iter_entry_def wake_satisfied_waiters_def reopen_subscriber_def FactTable_state_def dependency_state_def
  NoExternalDependencyStates_def entries_def FactChange_readiness_changed_def dirty_claims_def
  enqueue_step_def Agenda_enqueue_def bump_work_start_def wave_reader_def after_edge_def
  FactTable_set_publisher_unfinal_def

abbreviation slot1 :: "nat \<Rightarrow> nat set \<Rightarrow> nat set \<Rightarrow> nat FactSlot" where
  "slot1 p dirty unfinal \<equiv> \<lparr>publishers = {p}, dirty_publishers = dirty, unfinal_publishers = unfinal, slot_revision = 1\<rparr>"

abbreviation one :: "nat \<Rightarrow> nat OrderedSet" where
  "one x \<equiv> \<lparr>os_order = [x], os_members = {x}\<rparr>"

section \<open>Two answers, one reading the other\<close>

definition two_answers :: "nat FactUse set \<Rightarrow> nat list \<Rightarrow> nat list \<Rightarrow> (nat, nat) CompletionEffects" where
  "two_answers reads changed10 changed20 =
     \<lparr>ce_derivations = [\<lparr>de_publisher = 3, de_reads = {Current 20}, de_outputs = [10], de_changed = changed10\<rparr>,
        \<lparr>de_publisher = 2, de_reads = reads, de_outputs = [20], de_changed = changed20\<rparr>], ce_waits = {}\<rparr>"

definition graph1 :: "nat Agenda \<Rightarrow> (WorkStartReason \<rightharpoonup> nat) \<Rightarrow> nat set \<Rightarrow> (nat, nat, nat) Scheduler" where
  "graph1 agenda starts dirty =
     \<lparr>sch_agenda = agenda,
      sch_facts = \<lparr>slots = [20 \<mapsto> slot1 2 {} {}, 10 \<mapsto> slot1 3 dirty {}]\<rparr>,
      sch_deps = \<lparr>dep_reads = [3 \<mapsto> {Current 20}, 2 \<mapsto> {}], dep_subscribers = [Current 20 \<mapsto> one 3],
        dep_waits = [1 \<mapsto> {}], dep_waiters = Map.empty, dep_outputs = [3 \<mapsto> one 10, 2 \<mapsto> one 20],
        dep_derivations = [1 \<mapsto> \<lparr>os_order = [3, 2], os_members = {2, 3}\<rparr>]\<rparr>,
      sch_rebased = {}, read_finality = Map.empty, work_starts = starts,
      root_scans = 0, drain_discovery_sweeps = 0\<rparr>"

lemma first_run:
  "\<exists>a. complete_ordered_with_external example_shape NoExternalDependencyStates 1 (two_answers {} [10] [20])
     (Scheduler_new\<lparr>work_starts := starts\<rparr>) =
   Inr (a, graph1 \<lparr>ag_queue = [1], ag_queued = {1}\<rparr>
     (starts(ChangedRevisionWake \<mapsto> (case starts ChangedRevisionWake of None \<Rightarrow> 0 | Some n \<Rightarrow> n) + 1)) {3})"
  unfolding two_answers_def example_shape_def Scheduler_new_def graph1_def DependencyIndex_new_def FactTable_new_def Agenda_new_def
  by (simp add: graph_eval fun_eq_iff del: One_nat_def)

lemma second_run:
  "\<exists>a. complete_ordered_with_external example_shape NoExternalDependencyStates 1 (two_answers {} [] [])
     (graph1 \<lparr>ag_queue = [], ag_queued = {}\<rparr> starts {3}) =
   Inr (a, graph1 \<lparr>ag_queue = [], ag_queued = {}\<rparr> starts {})"
  unfolding two_answers_def example_shape_def graph1_def
  by (simp add: graph_eval fun_eq_iff del: One_nat_def)

section \<open>A run that waits\<close>

definition waiting_run :: "(nat, nat) CompletionEffects" where
  "waiting_run = CompletionEffects_single 4 {} {Settled 99} [30] [30]"

definition graph2 ::
  "(WorkStartReason \<rightharpoonup> nat) \<Rightarrow> nat FactUse set \<Rightarrow> (nat FactUse \<rightharpoonup> nat OrderedSet) \<Rightarrow> nat set \<Rightarrow> (nat \<rightharpoonup> ReadFinality) \<Rightarrow>
   (nat, nat, nat) Scheduler" where
  "graph2 starts reads subs unfinal finality =
     \<lparr>sch_agenda = \<lparr>ag_queue = [], ag_queued = {}\<rparr>,
      sch_facts = \<lparr>slots = [20 \<mapsto> slot1 2 {} unfinal, 10 \<mapsto> slot1 3 {} {}, 30 \<mapsto> slot1 4 {4} {}]\<rparr>,
      sch_deps = \<lparr>dep_reads = [3 \<mapsto> {Current 20}, 2 \<mapsto> reads], dep_subscribers = subs,
        dep_waits = [1 \<mapsto> {}, 2 \<mapsto> {Settled 99}], dep_waiters = [Settled 99 \<mapsto> one 2],
        dep_outputs = [3 \<mapsto> one 10, 2 \<mapsto> one 20, 4 \<mapsto> one 30],
        dep_derivations = [1 \<mapsto> \<lparr>os_order = [3, 2], os_members = {2, 3}\<rparr>, 2 \<mapsto> one 4]\<rparr>,
      sch_rebased = {}, read_finality = finality, work_starts = starts,
      root_scans = 0, drain_discovery_sweeps = 0\<rparr>"

lemma third_run:
  "\<exists>a. complete_ordered_with_external example_shape NoExternalDependencyStates 2 waiting_run
     (graph1 \<lparr>ag_queue = [], ag_queued = {}\<rparr> starts {}) =
   Inr (a, graph2 starts {} [Current 20 \<mapsto> one 3] {} Map.empty)"
  unfolding waiting_run_def CompletionEffects_single_def example_shape_def graph1_def graph2_def
  by (simp add: graph_eval fun_eq_iff del: One_nat_def)

section \<open>A later answer becomes unfinal\<close>

lemma one_use: "{read. read = Current k \<and> P read} = (if P (Current k) then {Current k} else {})"
  by auto

lemma fourth_run:
  "\<exists>a. complete_ordered_with_external example_shape NoExternalDependencyStates 1 (two_answers {Current 30} [] [])
     (graph2 starts {} [Current 20 \<mapsto> one 3] {} Map.empty) =
   Inr (a, graph2 starts {Current 30} [Current 20 \<mapsto> one 3, Current 30 \<mapsto> one 2] {2} [2 \<mapsto> Pending 1, 3 \<mapsto> Pending 1])"
  unfolding two_answers_def example_shape_def graph2_def
  by (simp add: graph_eval fun_eq_iff one_use del: One_nat_def)

section \<open>The runs as steps of the machine\<close>

abbreviation at_graph :: "(nat, nat, nat) Scheduler \<Rightarrow> (nat, nat, nat) WorkMachine" where
  "at_graph s \<equiv> \<lparr>wm_external = NoExternalDependencyStates, wm_running = {}, wm_graph = s\<rparr>"

lemma take_and_run:
  assumes "Scheduler_pop s = (Some job, s1)"
    and "\<exists>a. complete_ordered_with_external example_shape NoExternalDependencyStates job eff s1 = Inr (a, s2)"
    and "effects_ok NoExternalDependencyStates s1 eff" and "\<forall>d \<in> set (ce_derivations eff). de_publisher d div 2 = job"
    and "cur \<Longrightarrow> answers_current example_shape NoExternalDependencyStates job eff s1"
  shows "(work_step example_shape cur)\<^sup>*\<^sup>* (at_graph s) (at_graph s2)"
proof -
  let ?m1 = "(at_graph s)\<lparr>wm_graph := s1, wm_running := insert job (wm_running (at_graph s))\<rparr>"
  have 1: "work_step example_shape cur (at_graph s) ?m1" by (rule work_step.take_job) (simp add: assms(1))
  obtain a where c: "complete_ordered_with_external example_shape (wm_external ?m1) job eff (wm_graph ?m1) = Inr (a, s2)"
    using assms(2) by auto
  have 2: "work_step example_shape cur ?m1 (?m1\<lparr>wm_graph := s2, wm_running := wm_running ?m1 - {job}\<rparr>)"
    by (rule work_step.complete [OF _ _ _ _ c]) (use assms(3-5) in \<open>simp_all add: example_shape_def\<close>)
  have "?m1\<lparr>wm_graph := s2, wm_running := wm_running ?m1 - {job}\<rparr> = at_graph s2" by simp
  with 1 2 show ?thesis by (metis r_into_rtranclp rtranclp.rtrancl_into_rtrancl)
qed

lemma demand_at: "(work_step example_shape cur)\<^sup>*\<^sup>* (at_graph s) (at_graph (snd (Scheduler_enqueue job Ignition s)))"
  using work_step.demand [of example_shape cur "at_graph s" job Ignition] by auto

lemma demand_and_run:
  assumes "sch_agenda s = Agenda_new"
    and "\<And>starts. \<exists>a. complete_ordered_with_external example_shape NoExternalDependencyStates job eff
       (s\<lparr>work_starts := starts\<rparr>) = Inr (a, s2 starts)"
    and "\<And>starts. effects_ok NoExternalDependencyStates (s\<lparr>work_starts := starts\<rparr>) eff"
    and "\<forall>d \<in> set (ce_derivations eff). de_publisher d div 2 = job"
    and "\<And>starts. cur \<Longrightarrow> answers_current example_shape NoExternalDependencyStates job eff (s\<lparr>work_starts := starts\<rparr>)"
  shows "\<exists>starts. (work_step example_shape cur)\<^sup>*\<^sup>* (at_graph s) (at_graph (s2 starts))"
proof -
  let ?started = "(work_starts s)(Ignition \<mapsto> (case work_starts s Ignition of None \<Rightarrow> 0 | Some n \<Rightarrow> n) + 1)"
  have "Scheduler_pop (snd (Scheduler_enqueue job Ignition s)) = (Some job, s\<lparr>work_starts := ?started\<rparr>)"
    using assms(1) by (simp add: Scheduler_enqueue_def Scheduler_pop_def Agenda_pop_def Agenda_enqueue_def Agenda_new_def
        bump_work_start_def)
  from take_and_run [OF this assms(2-5)] demand_at [of cur s job] show ?thesis by (meson rtranclp_trans)
qed

lemmas scenario_ok = effects_ok_def two_answers_def waiting_run_def CompletionEffects_single_def
  NoExternalDependencyStates_def

lemma example_start_graph: "example_start = at_graph Scheduler_new"
  by (simp add: example_start_def)

lemma idle_agenda: "\<lparr>ag_queue = [], ag_queued = {}\<rparr> = Agenda_new"
  by (simp add: Agenda_new_def)

text \<open>The four runs, each on what the one before left.\<close>

lemma first_run_current:
  "answers_current example_shape NoExternalDependencyStates 1 (two_answers {} [10] [20]) (Scheduler_new\<lparr>work_starts := starts\<rparr>)"
  unfolding two_answers_def example_shape_def Scheduler_new_def DependencyIndex_new_def FactTable_new_def Agenda_new_def answers_current_def
  by (simp add: graph_eval del: One_nat_def)

abbreviation queued1 :: "nat Agenda" where
  "queued1 \<equiv> \<lparr>ag_queue = [1], ag_queued = {1}\<rparr>"

lemma reach_first: "\<exists>starts. (work_step example_shape cur)\<^sup>*\<^sup>* example_start (at_graph (graph1 queued1 starts {3}))"
proof -
  have "\<exists>starts. (work_step example_shape cur)\<^sup>*\<^sup>* (at_graph Scheduler_new)
      (at_graph (graph1 queued1 (starts(ChangedRevisionWake \<mapsto> (case starts ChangedRevisionWake of None \<Rightarrow> 0 | Some n \<Rightarrow> n) + 1)) {3}))"
    by (rule demand_and_run [OF _ first_run _ _ first_run_current]) (simp_all add: scenario_ok, simp add: Scheduler_new_def)
  then show ?thesis
    unfolding example_start_graph by blast
qed

lemma reach_second:
  "\<exists>starts. (work_step example_shape False)\<^sup>*\<^sup>* example_start (at_graph (graph1 Agenda_new starts {}))"
proof -
  obtain starts where 1: "(work_step example_shape False)\<^sup>*\<^sup>* example_start (at_graph (graph1 queued1 starts {3}))"
    using reach_first [of False] by blast
  have "(work_step example_shape False)\<^sup>*\<^sup>* (at_graph (graph1 queued1 starts {3}))
      (at_graph (graph1 \<lparr>ag_queue = [], ag_queued = {}\<rparr> starts {}))"
    by (rule take_and_run [OF _ second_run]) (simp_all add: scenario_ok, simp add: graph1_def Scheduler_pop_def Agenda_pop_def)
  with 1 show ?thesis unfolding idle_agenda by (meson rtranclp_trans)
qed

lemma graph1_starts: "(graph1 a s0 d)\<lparr>work_starts := starts\<rparr> = graph1 a starts d"
  by (simp add: graph1_def)

lemma graph2_starts: "(graph2 s0 r b u f)\<lparr>work_starts := starts\<rparr> = graph2 starts r b u f"
  by (simp add: graph2_def)

lemma reach_third:
  "\<exists>starts. (work_step example_shape False)\<^sup>*\<^sup>* example_start (at_graph (graph2 starts {} [Current 20 \<mapsto> one 3] {} Map.empty))"
proof -
  obtain s0 where 1: "(work_step example_shape False)\<^sup>*\<^sup>* example_start (at_graph (graph1 Agenda_new s0 {}))"
    using reach_second by blast
  have "\<exists>starts. (work_step example_shape False)\<^sup>*\<^sup>* (at_graph (graph1 Agenda_new s0 {}))
      (at_graph (graph2 starts {} [Current 20 \<mapsto> one 3] {} Map.empty))"
    by (rule demand_and_run [where job = 2 and eff = waiting_run])
      (simp_all add: graph1_starts third_run [unfolded idle_agenda], simp_all add: scenario_ok graph1_def)
  with 1 show ?thesis by (meson rtranclp_trans)
qed

lemma reach_fourth:
  "\<exists>starts. (work_step example_shape False)\<^sup>*\<^sup>* example_start
     (at_graph (graph2 starts {Current 30} [Current 20 \<mapsto> one 3, Current 30 \<mapsto> one 2] {2} [2 \<mapsto> Pending 1, 3 \<mapsto> Pending 1]))"
proof -
  obtain s0 where 1: "(work_step example_shape False)\<^sup>*\<^sup>* example_start
      (at_graph (graph2 s0 {} [Current 20 \<mapsto> one 3] {} Map.empty))"
    using reach_third by blast
  have "\<exists>starts. (work_step example_shape False)\<^sup>*\<^sup>* (at_graph (graph2 s0 {} [Current 20 \<mapsto> one 3] {} Map.empty))
     (at_graph (graph2 starts {Current 30} [Current 20 \<mapsto> one 3, Current 30 \<mapsto> one 2] {2} [2 \<mapsto> Pending 1, 3 \<mapsto> Pending 1]))"
    by (rule demand_and_run [where job = 1 and eff = "two_answers {Current 30} [] []"], unfold graph2_starts)
      (simp add: graph2_def Agenda_new_def, rule fourth_run, simp_all add: scenario_ok)
  with 1 show ?thesis by (meson rtranclp_trans)
qed

section \<open>A run that waits, on its own\<close>

definition waiting_graph :: "(nat, nat, nat) Scheduler" where
  "waiting_graph = Scheduler_new\<lparr>work_starts := [Ignition \<mapsto> 1],
     sch_facts := \<lparr>slots = [5 \<mapsto> slot1 2 {2} {}]\<rparr>,
     sch_deps := \<lparr>dep_reads = [2 \<mapsto> {Current 7}], dep_subscribers = [Current 7 \<mapsto> one 2],
        dep_waits = [1 \<mapsto> {Settled 9}], dep_waiters = [Settled 9 \<mapsto> one 1],
        dep_outputs = [2 \<mapsto> one 5], dep_derivations = [1 \<mapsto> one 2]\<rparr>\<rparr>"

lemma waiting_graph_run:
  "\<exists>a. complete_ordered_with_external example_shape (wm_external example_taken) 1 example_effects (wm_graph example_taken) =
   Inr (a, waiting_graph)"
  unfolding example_effects_def CompletionEffects_single_def example_shape_def example_taken_def example_start_def
    waiting_graph_def Scheduler_new_def DependencyIndex_new_def FactTable_new_def Agenda_new_def
  by (simp add: graph_eval fun_eq_iff one_use del: One_nat_def)

lemma waiting_graph_reached: "(work_step example_shape True)\<^sup>*\<^sup>* example_start (at_graph waiting_graph)"
proof -
  obtain a where "complete_ordered_with_external example_shape (wm_external example_taken) 1 example_effects
      (wm_graph example_taken) = Inr (a, waiting_graph)"
    using waiting_graph_run by blast
  with example_completed have "(work_step example_shape True)\<^sup>*\<^sup>* example_start
      (example_taken\<lparr>wm_graph := waiting_graph, wm_running := {}\<rparr>)" by auto
  then show ?thesis by (simp add: example_taken_def example_start_def)
qed

lemma waiting_graph_slot: "slots (sch_facts waiting_graph) 5 = Some (slot1 2 {2} {})"
  by (simp add: waiting_graph_def)

theorem WorkGraph_dirty_jobs_scheduled_witness:
  "deps_blocked (sch_deps waiting_graph) 1"
  using WorkGraph_dirty_jobs_scheduled [OF example_ok(1,2) waiting_graph_reached refl, of 5 "slot1 2 {2} {}" 2]
  by (simp add: waiting_graph_slot) (simp add: waiting_graph_def Scheduler_new_def Agenda_new_def Agenda_is_empty_def example_shape_def)

text \<open>After the run of two answers: the fact that the other answer reads is quiet, the other's own fact is to be derived again.\<close>

theorem WorkGraph_quiet_iff_witness:
  "\<exists>starts. (work_step example_shape True)\<^sup>*\<^sup>* example_start (at_graph (graph1 queued1 starts {3}))
    \<and> FactTable_is_quiet (sch_facts (graph1 queued1 starts {3})) 20 \<and> \<not> FactTable_is_quiet (sch_facts (graph1 queued1 starts {3})) 10"
proof -
  obtain starts where r: "(work_step example_shape True)\<^sup>*\<^sup>* example_start (at_graph (graph1 queued1 starts {3}))"
    using reach_first [of True] by blast
  have "FactTable_is_quiet (sch_facts (graph1 queued1 starts {3})) 20"
    using WorkGraph_quiet_iff [OF example_ok(1,2) r, of "graph1 queued1 starts {3}" 20 "slot1 2 {} {}"]
    by (simp add: graph1_def reads_of_def)
  moreover have "\<not> FactTable_is_quiet (sch_facts (graph1 queued1 starts {3})) 10"
    using WorkGraph_quiet_iff [OF example_ok(1,2) r, of "graph1 queued1 starts {3}" 10 "slot1 3 {3} {}"] by (simp add: graph1_def)
  ultimately show ?thesis
    using r by blast
qed

section \<open>Properties\<close>

text \<open>
  C39. The finality flag of an answer can be lost when a later answer of the same run becomes
  unfinal. A run's answers are recorded one by one and the unfinal bit of each is captured
  when it is recorded; publication then writes the captured bits. If a later answer's new
  reads make an earlier answer's ground unquiet, the wave has flagged the earlier answer's
  facts, and publication clears the flag again. A state is reachable, with the agenda empty,
  in which answer 3 is unfinal and reads a fact that is not quiet while the fact it
  publishes is settled.
\<close>

theorem WorkGraph_settled_on_unquiet_ground:
  "\<exists>m'. (work_step example_shape False)\<^sup>*\<^sup>* example_start m' \<and>
     Agenda_is_empty (sch_agenda (wm_graph m')) \<and>
     FactTable_publishers (sch_facts (wm_graph m')) 10 = {3} \<and>
     is_unfinal (wm_graph m') 3 \<and>
     FactTable_is_settled (sch_facts (wm_graph m')) 10 \<and>
     deps_reads (sch_deps (wm_graph m')) 3 = Some {Current 20} \<and>
     \<not> dependency_is_quiet (wm_graph m') 20 (wm_external m')"
proof -
  obtain starts where "(work_step example_shape False)\<^sup>*\<^sup>* example_start
     (at_graph (graph2 starts {Current 30} [Current 20 \<mapsto> one 3, Current 30 \<mapsto> one 2] {2} [2 \<mapsto> Pending 1, 3 \<mapsto> Pending 1]))"
    using reach_fourth by blast
  then show ?thesis
    by (intro exI conjI, assumption)
      (simp_all add: graph2_def graph_eval Agenda_is_empty_def Agenda_len_def FactTable_publishers_def FactTable_is_settled_def)
qed

end
