(* ===== verification/Fz_FiniteSet.thy ===== *)
theory Fz_FiniteSet
  imports Fz_Prelude
begin

text \<open>
  The value-level axes of the type lattice: finite-or-cofinite sets of literals
  (\<open>src/src/finite_set.rs\<close>) and the bitmap of basic kinds
  (\<open>src/src/compiler2/types/bits.rs\<close>). Both are boolean algebras of sets of values; the
  interface \<open>boolean_axis\<close> states that once, and every axis of a type descriptor
  interprets it. A \<open>BTreeSet\<close> is a set; it is finite because it was built by insertions.
\<close>

unbundle bit_operations_syntax

section \<open>What an axis promises\<close>

locale boolean_axis =
  fixes holds :: "'s \<Rightarrow> 'v \<Rightarrow> bool"
    and join :: "'s \<Rightarrow> 's \<Rightarrow> 's"
    and meet :: "'s \<Rightarrow> 's \<Rightarrow> 's"
    and complement :: "'s \<Rightarrow> 's"
    and full :: 's
    and nothing :: 's
  assumes holds_join: "holds (join a b) v \<longleftrightarrow> holds a v \<or> holds b v"
    and holds_meet: "holds (meet a b) v \<longleftrightarrow> holds a v \<and> holds b v"
    and holds_complement: "holds (complement a) v \<longleftrightarrow> \<not> holds a v"
    and holds_full: "holds full v"
    and holds_nothing: "\<not> holds nothing v"
begin

lemmas holds_simps = holds_join holds_meet holds_complement holds_full holds_nothing

lemma holds_difference: "holds (meet a (complement b)) v \<longleftrightarrow> holds a v \<and> \<not> holds b v"
  by (simp add: holds_simps)

lemma difference_empty_iff: "(\<forall>v. \<not> holds (meet a (complement b)) v) \<longleftrightarrow> (\<forall>v. holds a v \<longrightarrow> holds b v)"
  by (simp add: holds_simps)

lemma de_morgan: "holds (complement (join a b)) v \<longleftrightarrow> holds (meet (complement a) (complement b)) v"
  by (simp add: holds_simps)

end

section \<open>Finite and cofinite sets\<close>

record 'a FiniteSet =
  fs_values :: "'a set"
  fs_cofinite :: bool

definition FiniteSet_none :: "'a FiniteSet" where
  "FiniteSet_none = \<lparr>fs_values = {}, fs_cofinite = False\<rparr>"

definition FiniteSet_any :: "'a FiniteSet" where
  "FiniteSet_any = \<lparr>fs_values = {}, fs_cofinite = True\<rparr>"

definition FiniteSet_finite :: "'a set \<Rightarrow> 'a FiniteSet" where
  "FiniteSet_finite values = \<lparr>fs_values = values, fs_cofinite = False\<rparr>"

definition FiniteSet_cofinite :: "'a set \<Rightarrow> 'a FiniteSet" where
  "FiniteSet_cofinite values = \<lparr>fs_values = values, fs_cofinite = True\<rparr>"

definition FiniteSet_lit :: "'a \<Rightarrow> 'a FiniteSet" where
  "FiniteSet_lit v = FiniteSet_finite {v}"

definition FiniteSet_is_none :: "'a FiniteSet \<Rightarrow> bool" where
  "FiniteSet_is_none s \<longleftrightarrow> \<not> fs_cofinite s \<and> fs_values s = {}"

definition FiniteSet_is_any :: "'a FiniteSet \<Rightarrow> bool" where
  "FiniteSet_is_any s \<longleftrightarrow> fs_cofinite s \<and> fs_values s = {}"

definition FiniteSet_contains :: "'a FiniteSet \<Rightarrow> 'a \<Rightarrow> bool" where
  "FiniteSet_contains s v \<longleftrightarrow> (v \<in> fs_values s) \<noteq> fs_cofinite s"

definition FiniteSet_finite_len :: "'a FiniteSet \<Rightarrow> nat option" where
  "FiniteSet_finite_len s = (if \<not> fs_cofinite s then Some (card (fs_values s)) else None)"

definition FiniteSet_finite_elems :: "'a::linorder FiniteSet \<Rightarrow> 'a list option" where
  "FiniteSet_finite_elems s = (if \<not> fs_cofinite s then Some (sorted_list_of_set (fs_values s)) else None)"

definition FiniteSet_union :: "'a FiniteSet \<Rightarrow> 'a FiniteSet \<Rightarrow> 'a FiniteSet" where
  "FiniteSet_union s t = (case (fs_cofinite s, fs_cofinite t) of
       (False, False) \<Rightarrow> FiniteSet_finite (fs_values s \<union> fs_values t)
     | (True, False) \<Rightarrow> FiniteSet_cofinite (fs_values s - fs_values t)
     | (False, True) \<Rightarrow> FiniteSet_cofinite (fs_values t - fs_values s)
     | (True, True) \<Rightarrow> FiniteSet_cofinite (fs_values s \<inter> fs_values t))"

definition FiniteSet_intersect :: "'a FiniteSet \<Rightarrow> 'a FiniteSet \<Rightarrow> 'a FiniteSet" where
  "FiniteSet_intersect s t = (case (fs_cofinite s, fs_cofinite t) of
       (False, False) \<Rightarrow> FiniteSet_finite (fs_values s \<inter> fs_values t)
     | (True, False) \<Rightarrow> FiniteSet_finite (fs_values t - fs_values s)
     | (False, True) \<Rightarrow> FiniteSet_finite (fs_values s - fs_values t)
     | (True, True) \<Rightarrow> FiniteSet_cofinite (fs_values s \<union> fs_values t))"

definition FiniteSet_neg :: "'a FiniteSet \<Rightarrow> 'a FiniteSet" where
  "FiniteSet_neg s = \<lparr>fs_values = fs_values s, fs_cofinite = (\<not> fs_cofinite s)\<rparr>"

definition FiniteSet_contains_all :: "'a FiniteSet \<Rightarrow> 'a FiniteSet \<Rightarrow> bool" where
  "FiniteSet_contains_all s t = (case (fs_cofinite s, fs_cofinite t) of
       (False, False) \<Rightarrow> fs_values t \<subseteq> fs_values s
     | (False, True) \<Rightarrow> False
     | (True, False) \<Rightarrow> (\<forall>v \<in> fs_values t. v \<notin> fs_values s)
     | (True, True) \<Rightarrow> fs_values s \<subseteq> fs_values t)"

definition FiniteSet_overlaps :: "'a FiniteSet \<Rightarrow> 'a FiniteSet \<Rightarrow> bool" where
  "FiniteSet_overlaps s t = (case (fs_cofinite s, fs_cofinite t) of
       (False, False) \<Rightarrow> (\<exists>v \<in> fs_values s. v \<in> fs_values t)
     | (False, True) \<Rightarrow> (\<exists>v \<in> fs_values s. v \<notin> fs_values t)
     | (True, False) \<Rightarrow> (\<exists>v \<in> fs_values t. v \<notin> fs_values s)
     | (True, True) \<Rightarrow> True)"

lemmas finite_set_defs = FiniteSet_none_def FiniteSet_any_def FiniteSet_finite_def FiniteSet_cofinite_def
  FiniteSet_lit_def FiniteSet_union_def FiniteSet_intersect_def FiniteSet_neg_def FiniteSet_contains_def

interpretation fs: boolean_axis FiniteSet_contains FiniteSet_union FiniteSet_intersect FiniteSet_neg
    FiniteSet_any FiniteSet_none
  by unfold_locales (auto simp: finite_set_defs split: bool.splits)

lemmas finite_set_holds [simp] = fs.holds_simps

definition fs_wf :: "'a FiniteSet \<Rightarrow> bool" where
  "fs_wf s \<longleftrightarrow> finite (fs_values s)"

lemma fs_wf_ops [simp]:
  "fs_wf FiniteSet_none" "fs_wf FiniteSet_any" "fs_wf (FiniteSet_lit v)"
  "fs_wf s \<Longrightarrow> fs_wf (FiniteSet_neg s)"
  "fs_wf s \<Longrightarrow> fs_wf t \<Longrightarrow> fs_wf (FiniteSet_union s t)"
  "fs_wf s \<Longrightarrow> fs_wf t \<Longrightarrow> fs_wf (FiniteSet_intersect s t)"
  by (auto simp: fs_wf_def finite_set_defs split: bool.splits)

text \<open>Which element a finite-or-cofinite set leaves out, over an infinite domain.\<close>

lemma fresh_value:
  assumes "infinite (UNIV :: 'a set)" and "finite (A :: 'a set)"
  obtains v where "v \<notin> A"
  using ex_new_if_finite assms by blast

lemma is_none_iff:
  assumes "infinite (UNIV :: 'a set)" and "fs_wf (s :: 'a FiniteSet)"
  shows "FiniteSet_is_none s \<longleftrightarrow> (\<forall>v. \<not> FiniteSet_contains s v)"
  using fresh_value [OF assms(1), of "fs_values s"] assms(2)
  by (auto simp: FiniteSet_is_none_def FiniteSet_contains_def fs_wf_def)

lemma is_none_sound: "FiniteSet_is_none s \<Longrightarrow> \<not> FiniteSet_contains s v"
  by (simp add: FiniteSet_is_none_def FiniteSet_contains_def)

lemma is_any_iff:
  assumes "infinite (UNIV :: 'a set)" and "fs_wf (s :: 'a FiniteSet)"
  shows "FiniteSet_is_any s \<longleftrightarrow> (\<forall>v. FiniteSet_contains s v)"
  using fresh_value [OF assms(1), of "fs_values s"] assms(2)
  by (auto simp: FiniteSet_is_any_def FiniteSet_contains_def fs_wf_def)

lemma contains_all_sound: "FiniteSet_contains_all s t \<Longrightarrow> FiniteSet_contains t v \<Longrightarrow> FiniteSet_contains s v"
  by (auto simp: FiniteSet_contains_all_def FiniteSet_contains_def split: bool.splits)

lemma contains_all_iff:
  assumes "infinite (UNIV :: 'a set)" and "fs_wf s" "fs_wf (t :: 'a FiniteSet)"
  shows "FiniteSet_contains_all s t \<longleftrightarrow> (\<forall>v. FiniteSet_contains t v \<longrightarrow> FiniteSet_contains s v)"
  using fresh_value [OF assms(1), of "fs_values s \<union> fs_values t"] assms(2,3)
  by (auto simp: FiniteSet_contains_all_def FiniteSet_contains_def fs_wf_def split: bool.splits)

lemma overlaps_iff:
  assumes "infinite (UNIV :: 'a set)" and "fs_wf s" "fs_wf (t :: 'a FiniteSet)"
  shows "FiniteSet_overlaps s t \<longleftrightarrow> (\<exists>v. FiniteSet_contains s v \<and> FiniteSet_contains t v)"
  using fresh_value [OF assms(1), of "fs_values s \<union> fs_values t"] assms(2,3)
  by (auto simp: FiniteSet_overlaps_def FiniteSet_contains_def fs_wf_def split: bool.splits)

lemma not_overlaps_disjoint:
  "\<not> FiniteSet_overlaps s t \<Longrightarrow> FiniteSet_contains s v \<Longrightarrow> \<not> FiniteSet_contains t v"
  by (auto simp: FiniteSet_overlaps_def FiniteSet_contains_def split: bool.splits)

section \<open>The bitmap of basic kinds\<close>

type_synonym BasicBits = "32 word"

definition BasicBits_BINARY :: BasicBits where "BasicBits_BINARY = push_bit 0 1"

definition BasicBits_INT :: BasicBits where "BasicBits_INT = push_bit 1 1"

definition BasicBits_FLOAT :: BasicBits where "BasicBits_FLOAT = push_bit 2 1"

definition BasicBits_NONE :: BasicBits where "BasicBits_NONE = 0"

definition BasicBits_ALL :: BasicBits where "BasicBits_ALL = push_bit 3 1 - 1"

definition BasicBits_contains_all :: "BasicBits \<Rightarrow> BasicBits \<Rightarrow> bool" where
  "BasicBits_contains_all b o' \<longleftrightarrow> b AND o' = o'"

definition BasicBits_is_empty :: "BasicBits \<Rightarrow> bool" where
  "BasicBits_is_empty b \<longleftrightarrow> b = 0"

definition BasicBits_union :: "BasicBits \<Rightarrow> BasicBits \<Rightarrow> BasicBits" where
  "BasicBits_union b o' = b OR o'"

definition BasicBits_intersect :: "BasicBits \<Rightarrow> BasicBits \<Rightarrow> BasicBits" where
  "BasicBits_intersect b o' = b AND o'"

definition BasicBits_neg :: "BasicBits \<Rightarrow> BasicBits" where
  "BasicBits_neg b = BasicBits_ALL AND NOT b"

definition BASIC_NAMES :: "(BasicBits \<times> string) list" where
  "BASIC_NAMES = [(BasicBits_INT, ''int''), (BasicBits_FLOAT, ''float''), (BasicBits_BINARY, ''binary'')]"

text \<open>A bitmap only ever carries the three bits of \<open>ALL\<close>; each is one basic kind.\<close>

datatype basic_kind = KBinary | KInt | KFloat

primrec kind_bit :: "basic_kind \<Rightarrow> nat" where
  "kind_bit KBinary = 0"
| "kind_bit KInt = 1"
| "kind_bit KFloat = 2"

definition basic_holds :: "BasicBits \<Rightarrow> basic_kind \<Rightarrow> bool" where
  "basic_holds b k \<longleftrightarrow> bit b (kind_bit k)"

definition basic_wf :: "BasicBits \<Rightarrow> bool" where
  "basic_wf b \<longleftrightarrow> BasicBits_contains_all BasicBits_ALL b"

lemma BasicBits_ALL_mask: "BasicBits_ALL = mask 3"
  by (simp add: BasicBits_ALL_def mask_eq_exp_minus_1 push_bit_eq_mult)

lemma kind_bit_less [simp]: "kind_bit k < 3" "kind_bit k < 32"
  by (cases k; simp)+

lemma kind_bit_onto: "i < 3 \<Longrightarrow> \<exists>k. i = kind_bit k"
  by (metis kind_bit.simps One_nat_def less_2_cases less_antisym numeral_2_eq_2 numeral_3_eq_3)

interpretation bb: boolean_axis basic_holds BasicBits_union BasicBits_intersect BasicBits_neg BasicBits_ALL BasicBits_NONE
  by unfold_locales
    (auto simp: basic_holds_def BasicBits_union_def BasicBits_intersect_def BasicBits_neg_def BasicBits_NONE_def
      BasicBits_ALL_mask bit_simps)

lemmas basic_bits_holds [simp] = bb.holds_simps

lemma basic_wf_bits: "basic_wf b \<longleftrightarrow> (\<forall>i. bit b i \<longrightarrow> i < 3)"
proof -
  have "basic_wf b \<longleftrightarrow> take_bit 3 b = b"
    by (simp add: basic_wf_def BasicBits_contains_all_def BasicBits_ALL_mask take_bit_eq_mask ac_simps)
  also have "\<dots> \<longleftrightarrow> (\<forall>i. bit b i \<longrightarrow> i < 3)"
    using bit_imp_le_length [of b] by (auto simp: bit_eq_iff bit_simps)
  finally show ?thesis .
qed

lemma basic_wf_ops [simp]:
  "basic_wf BasicBits_ALL" "basic_wf BasicBits_NONE" "basic_wf (BasicBits_neg b)"
  "basic_wf a \<Longrightarrow> basic_wf (BasicBits_intersect a b)"
  "basic_wf a \<Longrightarrow> basic_wf b \<Longrightarrow> basic_wf (BasicBits_union a b)"
  by (auto simp: basic_wf_bits BasicBits_ALL_mask BasicBits_NONE_def BasicBits_neg_def BasicBits_intersect_def
      BasicBits_union_def bit_simps)

lemma basic_is_empty_iff:
  assumes "basic_wf b"
  shows "BasicBits_is_empty b \<longleftrightarrow> (\<forall>k. \<not> basic_holds b k)"
proof
  assume none: "\<forall>k. \<not> basic_holds b k"
  have "\<not> bit b i" for i
  proof
    assume i: "bit b i"
    then obtain k where "i = kind_bit k" using assms kind_bit_onto by (auto simp: basic_wf_bits)
    then show False using none i by (simp add: basic_holds_def)
  qed
  then show "BasicBits_is_empty b" by (simp add: BasicBits_is_empty_def bit_eq_iff)
qed (simp add: BasicBits_is_empty_def basic_holds_def)

section \<open>Properties\<close>

text \<open>
  The queries of a finite-or-cofinite set decide membership questions exactly over an
  infinite domain: emptiness, fullness, containment and overlap.
\<close>

theorem FiniteSet_queries_exact:
  assumes "infinite (UNIV :: 'a set)" and "finite (fs_values s)" and "finite (fs_values (t :: 'a FiniteSet))"
  shows "(FiniteSet_is_none s \<longleftrightarrow> (\<nexists>v. FiniteSet_contains s v)) \<and>
    (FiniteSet_is_any s \<longleftrightarrow> (\<forall>v. FiniteSet_contains s v)) \<and>
    (FiniteSet_contains_all s t \<longleftrightarrow> (\<forall>v. FiniteSet_contains t v \<longrightarrow> FiniteSet_contains s v)) \<and>
    (FiniteSet_overlaps s t \<longleftrightarrow> (\<exists>v. FiniteSet_contains s v \<and> FiniteSet_contains t v)) \<and>
    (FiniteSet_overlaps s t \<longleftrightarrow> \<not> FiniteSet_is_none (FiniteSet_intersect s t))"
proof -
  have wf: "fs_wf s" "fs_wf t" using assms by (simp_all add: fs_wf_def)
  show ?thesis
    using is_none_iff [OF assms(1) wf(1)] is_any_iff [OF assms(1) wf(1)] contains_all_iff [OF assms(1) wf]
      overlaps_iff [OF assms(1) wf] is_none_iff [OF assms(1) fs_wf_ops(6) [OF wf]] by simp
qed

theorem FiniteSet_queries_exact_witness:
  "FiniteSet_overlaps (FiniteSet_cofinite {1, 2}) (FiniteSet_finite {2, 3 :: nat}) \<and>
   \<not> FiniteSet_is_none (FiniteSet_intersect (FiniteSet_cofinite {1, 2}) (FiniteSet_finite {2, 3 :: nat}))"
proof -
  let ?s = "FiniteSet_cofinite {1, 2 :: nat}" and ?t = "FiniteSet_finite {2, 3 :: nat}"
  have "FiniteSet_contains ?s 3 \<and> FiniteSet_contains ?t 3" by (simp add: finite_set_defs)
  moreover have "finite (fs_values ?s)" "finite (fs_values ?t)" by (simp_all add: finite_set_defs)
  ultimately show ?thesis using FiniteSet_queries_exact [OF infinite_UNIV_nat, of ?s ?t] by blast
qed

end
