(* ===== verification/Fz_Dnf.thy ===== *)
theory Fz_Dnf
  imports Fz_FiniteSet
begin

text \<open>
  The structural axes of the type lattice: disjunctions of clauses over signatures
  (\<open>src/src/compiler2/types/conj.rs\<close> and \<open>dnf.rs\<close>). What a signature means is a parameter
  \<open>sat\<close> of the meaning of a clause; the operations never read it, and the laws hold for
  every \<open>sat\<close>. A vector a loop appends to is a list extended at its end.
\<close>

section \<open>Clauses\<close>

record 't Conj =
  conj_pos :: "'t list"
  conj_neg :: "'t list"

definition Conj_top :: "'t Conj" where
  "Conj_top = \<lparr>conj_pos = [], conj_neg = []\<rparr>"

definition Conj_is_top :: "'t Conj \<Rightarrow> bool" where
  "Conj_is_top c \<longleftrightarrow> conj_pos c = [] \<and> conj_neg c = []"

definition Conj_pos_of :: "'t \<Rightarrow> 't Conj" where
  "Conj_pos_of t = \<lparr>conj_pos = [t], conj_neg = []\<rparr>"

section \<open>Operations\<close>

text \<open>The step every loop of the module makes: append unless already there.\<close>

definition push_new :: "'a \<Rightarrow> 'a list \<Rightarrow> 'a list" where
  "push_new x out = (if x \<in> set out then out else out @ [x])"

definition dnf_union :: "'t Conj list \<Rightarrow> 't Conj list \<Rightarrow> 't Conj list" where
  "dnf_union a b = fold push_new b (fold push_new a [])"

definition merge_clauses :: "'t Conj \<Rightarrow> 't Conj \<Rightarrow> 't Conj" where
  "merge_clauses a b =
     \<lparr>conj_pos = fold push_new (conj_pos b) (conj_pos a), conj_neg = fold push_new (conj_neg b) (conj_neg a)\<rparr>"

definition dnf_push_merged :: "'t Conj option \<Rightarrow> 't Conj list \<Rightarrow> 't Conj list" where
  "dnf_push_merged m out = (case m of
       None \<Rightarrow> out
     | Some merged \<Rightarrow>
         if list_ex (\<lambda>p. p \<in> set (conj_neg merged)) (conj_pos merged) then out
         else push_new merged out)"

definition dnf_intersect_with ::
  "('t Conj \<Rightarrow> 't Conj \<Rightarrow> 't Conj option) \<Rightarrow> 't Conj list \<Rightarrow> 't Conj list \<Rightarrow> 't Conj list" where
  "dnf_intersect_with merge a b = fold (\<lambda>c1 out. fold (\<lambda>c2. dnf_push_merged (merge c1 c2)) b out) a []"

definition dnf_intersect :: "'t Conj list \<Rightarrow> 't Conj list \<Rightarrow> 't Conj list" where
  "dnf_intersect a b = dnf_intersect_with (\<lambda>c1 c2. Some (merge_clauses c1 c2)) a b"

definition neg_clause :: "'t Conj \<Rightarrow> 't Conj list" where
  "neg_clause c =
     map (\<lambda>p. \<lparr>conj_pos = [], conj_neg = [p]\<rparr>) (conj_pos c) @
     map (\<lambda>n. \<lparr>conj_pos = [n], conj_neg = []\<rparr>) (conj_neg c)"

fun dnf_neg_loop :: "'t Conj list \<Rightarrow> 't Conj list \<Rightarrow> 't Conj list \<Rightarrow> 't Conj list" where
  "dnf_neg_loop [] seen acc = acc"
| "dnf_neg_loop (c # cs) seen acc =
     (if c \<in> set seen then dnf_neg_loop cs seen acc
      else dnf_neg_loop cs (seen @ [c]) (dnf_intersect acc (neg_clause c)))"

definition dnf_neg :: "'t Conj list \<Rightarrow> 't Conj list" where
  "dnf_neg d = dnf_neg_loop d [] [Conj_top]"

definition is_dnf_top :: "'t Conj list \<Rightarrow> bool" where
  "is_dnf_top d \<longleftrightarrow> length d = 1 \<and> Conj_is_top (d ! 0)"

section \<open>Meaning\<close>

definition clause_holds :: "('t \<Rightarrow> 'v \<Rightarrow> bool) \<Rightarrow> 't Conj \<Rightarrow> 'v \<Rightarrow> bool" where
  "clause_holds sat c v \<longleftrightarrow> (\<forall>p \<in> set (conj_pos c). sat p v) \<and> (\<forall>n \<in> set (conj_neg c). \<not> sat n v)"

definition dnf_holds :: "('t \<Rightarrow> 'v \<Rightarrow> bool) \<Rightarrow> 't Conj list \<Rightarrow> 'v \<Rightarrow> bool" where
  "dnf_holds sat d v \<longleftrightarrow> (\<exists>c \<in> set d. clause_holds sat c v)"

definition clause_sigs :: "'t Conj \<Rightarrow> 't set" where
  "clause_sigs c = set (conj_pos c) \<union> set (conj_neg c)"

definition dnf_sigs :: "'t Conj list \<Rightarrow> 't set" where
  "dnf_sigs d = (\<Union>c \<in> set d. clause_sigs c)"

lemma set_push_new [simp]: "set (push_new x out) = insert x (set out)"
  by (auto simp: push_new_def)

lemma set_fold_push_new [simp]: "set (fold push_new xs out) = set xs \<union> set out"
  by (induction xs arbitrary: out) auto

lemma distinct_push_new: "distinct out \<Longrightarrow> distinct (push_new x out)"
  by (simp add: push_new_def)

lemma distinct_fold_push_new: "distinct out \<Longrightarrow> distinct (fold push_new xs out)"
  by (induction xs arbitrary: out) (auto intro: distinct_push_new)

lemma clause_holds_merge [simp]:
  "clause_holds sat (merge_clauses a b) v \<longleftrightarrow> clause_holds sat a v \<and> clause_holds sat b v"
  by (auto simp: clause_holds_def merge_clauses_def)

lemma clause_holds_contradiction:
  "list_ex (\<lambda>p. p \<in> set (conj_neg c)) (conj_pos c) \<Longrightarrow> \<not> clause_holds sat c v"
  by (auto simp: clause_holds_def list_ex_iff)

lemma set_push_merged:
  "set (dnf_push_merged m out) = set out \<union>
     {c. m = Some c \<and> \<not> list_ex (\<lambda>p. p \<in> set (conj_neg c)) (conj_pos c)}"
  by (auto simp: dnf_push_merged_def split: option.splits)

lemma set_fold_push_merged:
  "set (fold (\<lambda>c2. dnf_push_merged (f c2)) b out) = set out \<union>
     {c. \<exists>c2 \<in> set b. f c2 = Some c \<and> \<not> list_ex (\<lambda>p. p \<in> set (conj_neg c)) (conj_pos c)}"
  by (induction b arbitrary: out) (auto simp: set_push_merged)

lemma set_intersect_fold:
  "set (fold (\<lambda>c1 out. fold (\<lambda>c2. dnf_push_merged (merge c1 c2)) b out) a out) = set out \<union>
     {c. \<exists>c1 \<in> set a. \<exists>c2 \<in> set b. merge c1 c2 = Some c \<and> \<not> list_ex (\<lambda>p. p \<in> set (conj_neg c)) (conj_pos c)}"
  by (induction a arbitrary: out) (auto simp: set_fold_push_merged)

lemma set_dnf_intersect_with:
  "set (dnf_intersect_with merge a b) =
     {c. \<exists>c1 \<in> set a. \<exists>c2 \<in> set b. merge c1 c2 = Some c \<and> \<not> list_ex (\<lambda>p. p \<in> set (conj_neg c)) (conj_pos c)}"
  by (simp add: dnf_intersect_with_def set_intersect_fold)

text \<open>
  The clause product means the intersection for every way of merging two clauses that means
  their conjunction, an absent merge meaning a contradiction.
\<close>

lemma dnf_holds_intersect_with:
  assumes "\<And>c1 c2. c1 \<in> set a \<Longrightarrow> c2 \<in> set b \<Longrightarrow>
    (clause_holds sat c1 v \<and> clause_holds sat c2 v \<longleftrightarrow> (\<exists>c. merge c1 c2 = Some c \<and> clause_holds sat c v))"
  shows "dnf_holds sat (dnf_intersect_with merge a b) v \<longleftrightarrow> dnf_holds sat a v \<and> dnf_holds sat b v"
proof
  assume "dnf_holds sat (dnf_intersect_with merge a b) v"
  then show "dnf_holds sat a v \<and> dnf_holds sat b v"
    unfolding dnf_holds_def set_dnf_intersect_with using assms by blast
next
  assume "dnf_holds sat a v \<and> dnf_holds sat b v"
  then obtain c1 c2 where c: "c1 \<in> set a" "c2 \<in> set b" "clause_holds sat c1 v" "clause_holds sat c2 v"
    by (auto simp: dnf_holds_def)
  then obtain c where m: "merge c1 c2 = Some c" "clause_holds sat c v" using assms by blast
  with clause_holds_contradiction [of c sat v] have "c \<in> set (dnf_intersect_with merge a b)"
    unfolding set_dnf_intersect_with using c by auto
  with m show "dnf_holds sat (dnf_intersect_with merge a b) v" by (auto simp: dnf_holds_def)
qed

lemma dnf_holds_union [simp]: "dnf_holds sat (dnf_union a b) v \<longleftrightarrow> dnf_holds sat a v \<or> dnf_holds sat b v"
  by (auto simp: dnf_holds_def dnf_union_def)

lemma dnf_holds_intersect [simp]:
  "dnf_holds sat (dnf_intersect a b) v \<longleftrightarrow> dnf_holds sat a v \<and> dnf_holds sat b v"
  unfolding dnf_intersect_def by (rule dnf_holds_intersect_with) simp

lemma dnf_holds_neg_clause [simp]: "dnf_holds sat (neg_clause c) v \<longleftrightarrow> \<not> clause_holds sat c v"
  by (simp add: dnf_holds_def neg_clause_def bex_Un) (auto simp: clause_holds_def)

lemma dnf_holds_Cons: "dnf_holds sat (c # d) v \<longleftrightarrow> clause_holds sat c v \<or> dnf_holds sat d v"
  by (simp add: dnf_holds_def)

lemma dnf_holds_Nil [simp]: "\<not> dnf_holds sat [] v"
  by (simp add: dnf_holds_def)

lemma dnf_holds_neg_loop:
  "dnf_holds sat acc v \<longrightarrow> (\<forall>c \<in> set seen. \<not> clause_holds sat c v) \<Longrightarrow>
   dnf_holds sat (dnf_neg_loop cs seen acc) v \<longleftrightarrow> dnf_holds sat acc v \<and> \<not> dnf_holds sat cs v"
  by (induction cs seen acc rule: dnf_neg_loop.induct) (auto simp: dnf_holds_Cons)

lemma dnf_holds_top [simp]: "dnf_holds sat [Conj_top] v"
  by (simp add: dnf_holds_def clause_holds_def Conj_top_def)

lemma dnf_holds_neg [simp]: "dnf_holds sat (dnf_neg d) v \<longleftrightarrow> \<not> dnf_holds sat d v"
  by (simp add: dnf_neg_def dnf_holds_neg_loop)

interpretation dnf: boolean_axis "dnf_holds sat" dnf_union dnf_intersect dnf_neg "[Conj_top]" "[]" for sat
  by unfold_locales simp_all

lemma is_dnf_top_iff: "is_dnf_top d \<longleftrightarrow> d = [Conj_top]"
  by (cases d) (auto simp: is_dnf_top_def Conj_is_top_def Conj_top_def)

section \<open>Which signatures the results mention\<close>

lemma clause_sigs_simps [simp]:
  "clause_sigs (merge_clauses a b) = clause_sigs a \<union> clause_sigs b"
  "clause_sigs Conj_top = {}" "clause_sigs (Conj_pos_of t) = {t}"
  by (auto simp: clause_sigs_def merge_clauses_def Conj_top_def Conj_pos_of_def)

lemma dnf_sigs_simps [simp]:
  "dnf_sigs [] = {}" "dnf_sigs (c # d) = clause_sigs c \<union> dnf_sigs d"
  "dnf_sigs (dnf_union a b) = dnf_sigs a \<union> dnf_sigs b" "dnf_sigs (neg_clause c) = clause_sigs c"
  by (auto simp: dnf_sigs_def dnf_union_def neg_clause_def clause_sigs_def)

text \<open>No clause repeats a positive signature.\<close>

definition pos_distinct :: "'t Conj list \<Rightarrow> bool" where
  "pos_distinct d \<longleftrightarrow> (\<forall>c \<in> set d. distinct (conj_pos c))"

lemma pos_distinct_intersect: "pos_distinct a \<Longrightarrow> pos_distinct (dnf_intersect a b)"
  by (auto simp: pos_distinct_def dnf_intersect_def set_dnf_intersect_with merge_clauses_def intro!: distinct_fold_push_new)

lemma pos_distinct_neg_loop: "pos_distinct acc \<Longrightarrow> pos_distinct (dnf_neg_loop cs seen acc)"
  by (induction cs seen acc rule: dnf_neg_loop.induct) (simp_all add: pos_distinct_intersect)

lemma pos_distinct_neg: "pos_distinct (dnf_neg d)"
  using pos_distinct_neg_loop [of "[Conj_top]" d "[]"] by (simp add: dnf_neg_def pos_distinct_def Conj_top_def)

lemma pos_distinct_union: "pos_distinct a \<Longrightarrow> pos_distinct b \<Longrightarrow> pos_distinct (dnf_union a b)"
  by (auto simp: pos_distinct_def dnf_union_def)

lemma finite_dnf_sigs: "finite (dnf_sigs d)"
  by (simp add: dnf_sigs_def clause_sigs_def)

lemma dnf_sigs_intersect: "dnf_sigs (dnf_intersect a b) \<subseteq> dnf_sigs a \<union> dnf_sigs b"
  by (fastforce simp: dnf_sigs_def dnf_intersect_def set_dnf_intersect_with)

lemma dnf_sigs_neg_loop: "dnf_sigs (dnf_neg_loop cs seen acc) \<subseteq> dnf_sigs cs \<union> dnf_sigs acc"
proof (induction cs seen acc rule: dnf_neg_loop.induct)
  case (2 c cs seen acc)
  then show ?case using dnf_sigs_intersect [of acc "neg_clause c"] by auto
qed auto

lemma dnf_sigs_neg: "dnf_sigs (dnf_neg d) \<subseteq> dnf_sigs d"
  using dnf_sigs_neg_loop [of d "[]" "[Conj_top]"] by (simp add: dnf_neg_def)

section \<open>Hygiene\<close>

lemma dnf_neg_Nil [simp]: "dnf_neg [] = [Conj_top]"
  by (simp add: dnf_neg_def)

lemma dnf_intersect_simps [simp]:
  "dnf_intersect [] b = []" "dnf_intersect a [] = []" "dnf_intersect [Conj_top] [Conj_top] = [Conj_top]"
proof -
  have "set (dnf_intersect a []) = {}" by (simp add: dnf_intersect_def set_dnf_intersect_with)
  then show "dnf_intersect a [] = []" by simp
qed (simp_all add: dnf_intersect_def dnf_intersect_with_def dnf_push_merged_def merge_clauses_def Conj_top_def push_new_def)

lemma dnf_neg_top [simp]: "dnf_neg [Conj_top] = []"
  by (simp add: dnf_neg_def neg_clause_def) (simp add: Conj_top_def)

lemma distinct_fold_step:
  assumes "\<And>x out. distinct out \<Longrightarrow> distinct (f x out)"
  shows "distinct out \<Longrightarrow> distinct (fold f xs out)"
  by (induction xs arbitrary: out) (auto intro: assms)

lemma distinct_push_merged: "distinct out \<Longrightarrow> distinct (dnf_push_merged m out)"
  by (auto simp: dnf_push_merged_def intro: distinct_push_new split: option.splits)

lemma distinct_intersect_with: "distinct (dnf_intersect_with merge a b)"
  unfolding dnf_intersect_with_def by (intro distinct_fold_step distinct_push_merged) simp_all

section \<open>Properties\<close>

text \<open>
  C30. The clause algebra is a boolean algebra of sets whatever the signatures mean: a union
  holds of a value when either side does, an intersection when both do, a negation when its
  operand does not, and the product keeps no duplicate and no clause with a signature on
  both sides.
\<close>

theorem Dnf_boolean_algebra:
  "(dnf_holds sat (dnf_union a b) v \<longleftrightarrow> dnf_holds sat a v \<or> dnf_holds sat b v) \<and>
   (dnf_holds sat (dnf_intersect a b) v \<longleftrightarrow> dnf_holds sat a v \<and> dnf_holds sat b v) \<and>
   (dnf_holds sat (dnf_neg a) v \<longleftrightarrow> \<not> dnf_holds sat a v) \<and>
   distinct (dnf_union a b) \<and> distinct (dnf_intersect a b) \<and>
   (\<nexists>c p. c \<in> set (dnf_intersect a b) \<and> p \<in> set (conj_pos c) \<and> p \<in> set (conj_neg c))"
proof -
  have "\<nexists>c p. c \<in> set (dnf_intersect a b) \<and> p \<in> set (conj_pos c) \<and> p \<in> set (conj_neg c)"
    by (auto simp: dnf_intersect_def set_dnf_intersect_with list_ex_iff)
  moreover have "distinct (dnf_union a b)" unfolding dnf_union_def by (intro distinct_fold_push_new) simp
  moreover have "distinct (dnf_intersect a b)" unfolding dnf_intersect_def by (rule distinct_intersect_with)
  ultimately show ?thesis by simp
qed

end
