(* ===== verification/Fz_Descr.thy ===== *)
theory Fz_Descr
  imports Fz_Dnf
begin

text \<open>
  Type descriptors (\<open>src/src/compiler2/types/descr.rs\<close> and the signatures of
  \<open>sigs.rs\<close>): their construction, their set operations, and what they mean. An interned
  type is its index in the arena of descriptors; a \<open>BTreeMap\<close> is a partial function.

  The meaning is the specification side. A value is a shape, possibly under one brand; a
  descriptor holds of a value when its brand slot admits the brand and the axis of the
  value's shape admits the shape. A callable is its finite graph of argument and result
  values, and an identity; which closure literals an identity matches is a parameter.
\<close>

section \<open>Signatures\<close>

type_synonym Ty = nat
type_synonym ModuleName = string
type_synonym FnId = nat
type_synonym TypeVarId = nat

datatype MapKey = MapKeyAtom string | MapKeyInt "64 word"

datatype CallableValueKind = FnRef | Closure

datatype BuiltinOpaque = Pid | Ref | CPointer

datatype OpaqueTag = OpaqueBuiltin BuiltinOpaque | OpaqueNamed string | OpaqueProtocolTarget ModuleName

datatype MapTag = MapPlain | MapStruct ModuleName

record TupleSig =
  ts_elems :: "Ty list"

record ListSig =
  ls_empty :: bool
  ls_elem :: "Ty option"

record ResourceSig =
  rs_payload :: Ty

record ClosureLit =
  cl_kind :: CallableValueKind
  cl_fn_id :: "FnId option"
  cl_captures :: "Ty list"

record ArrowSig =
  ar_args :: "Ty list"
  ar_ret :: Ty
  ar_lit :: "ClosureLit option"

record MapSig =
  ms_tag :: MapTag
  ms_fields :: "MapKey \<rightharpoonup> Ty"

definition ListSig_empty :: ListSig where
  "ListSig_empty = \<lparr>ls_empty = True, ls_elem = None\<rparr>"

definition ListSig_possibly_empty :: "Ty \<Rightarrow> ListSig" where
  "ListSig_possibly_empty elem = \<lparr>ls_empty = True, ls_elem = Some elem\<rparr>"

definition ListSig_non_empty :: "Ty \<Rightarrow> ListSig" where
  "ListSig_non_empty elem = \<lparr>ls_empty = False, ls_elem = Some elem\<rparr>"

definition ListSig_is_exact_empty :: "ListSig \<Rightarrow> bool" where
  "ListSig_is_exact_empty sig \<longleftrightarrow> ls_empty sig \<and> ls_elem sig = None"

definition ListSig_is_exact_non_empty :: "ListSig \<Rightarrow> bool" where
  "ListSig_is_exact_non_empty sig \<longleftrightarrow> \<not> ls_empty sig \<and> ls_elem sig \<noteq> None"

definition ListSig_allow_empty :: "ListSig \<Rightarrow> ListSig" where
  "ListSig_allow_empty sig = sig\<lparr>ls_empty := True\<rparr>"

section \<open>Descriptors\<close>

record Descr =
  d_basic :: BasicBits
  d_atoms :: "string FiniteSet"
  d_opaques :: "OpaqueTag FiniteSet"
  d_brands :: "string FiniteSet"
  d_vars :: "TypeVarId FiniteSet"
  d_tuples :: "TupleSig Conj list"
  d_lists :: "ListSig Conj list"
  d_resources :: "ResourceSig Conj list"
  d_funcs :: "ArrowSig Conj list"
  d_maps :: "MapSig Conj list"

definition Descr_any :: Descr where
  "Descr_any = \<lparr>d_basic = BasicBits_ALL, d_atoms = FiniteSet_any, d_opaques = FiniteSet_any,
     d_brands = FiniteSet_any, d_vars = FiniteSet_any, d_tuples = [Conj_top], d_lists = [Conj_top],
     d_resources = [Conj_top], d_funcs = [Conj_top], d_maps = [Conj_top]\<rparr>"

definition Descr_none :: Descr where
  "Descr_none = \<lparr>d_basic = BasicBits_NONE, d_atoms = FiniteSet_none, d_opaques = FiniteSet_none,
     d_brands = FiniteSet_none, d_vars = FiniteSet_none, d_tuples = [], d_lists = [],
     d_resources = [], d_funcs = [], d_maps = []\<rparr>"

definition Descr_unbranded :: Descr where
  "Descr_unbranded = Descr_none\<lparr>d_brands := FiniteSet_any\<rparr>"

definition opaque_of :: "string \<Rightarrow> Descr" where
  "opaque_of name = Descr_unbranded\<lparr>d_opaques := FiniteSet_lit (OpaqueNamed name)\<rparr>"

definition builtin_opaque :: "BuiltinOpaque \<Rightarrow> Descr" where
  "builtin_opaque b = Descr_unbranded\<lparr>d_opaques := FiniteSet_lit (OpaqueBuiltin b)\<rparr>"

definition Descr_record :: "MapTag \<Rightarrow> (MapKey \<rightharpoonup> Ty) \<Rightarrow> Descr" where
  "Descr_record tag entries =
     Descr_unbranded\<lparr>d_maps := d_maps Descr_unbranded @ [Conj_pos_of \<lparr>ms_tag = tag, ms_fields = entries\<rparr>]\<rparr>"

definition struct_map :: "ModuleName \<Rightarrow> (MapKey \<rightharpoonup> Ty) \<Rightarrow> Descr" where
  "struct_map tag entries =
     Descr_unbranded\<lparr>d_maps := d_maps Descr_unbranded @ [Conj_pos_of \<lparr>ms_tag = MapStruct tag, ms_fields = entries\<rparr>]\<rparr>"

definition Descr_var :: "TypeVarId \<Rightarrow> Descr" where
  "Descr_var i = Descr_unbranded\<lparr>d_vars := FiniteSet_lit i\<rparr>"

definition atom_lit :: "string \<Rightarrow> Descr" where
  "atom_lit name = Descr_unbranded\<lparr>d_atoms := FiniteSet_lit name\<rparr>"

definition Descr_nil :: Descr where
  "Descr_nil = atom_lit ''nil''"

definition bool_t :: Descr where
  "bool_t = Descr_unbranded\<lparr>d_atoms := FiniteSet_union (FiniteSet_lit ''true'') (FiniteSet_lit ''false'')\<rparr>"

definition atom_top :: Descr where
  "atom_top = Descr_unbranded\<lparr>d_atoms := FiniteSet_any\<rparr>"

definition fun_top :: Descr where
  "fun_top = Descr_unbranded\<lparr>d_funcs := [Conj_top]\<rparr>"

definition from_basic :: "BasicBits \<Rightarrow> Descr" where
  "from_basic basic = Descr_unbranded\<lparr>d_basic := basic\<rparr>"

definition Descr_int :: Descr where
  "Descr_int = from_basic BasicBits_INT"

definition Descr_float :: Descr where
  "Descr_float = from_basic BasicBits_FLOAT"

definition str_t :: Descr where
  "str_t = from_basic BasicBits_BINARY"

definition resource_of :: "Ty \<Rightarrow> Descr" where
  "resource_of payload = Descr_unbranded\<lparr>d_resources := [Conj_pos_of \<lparr>rs_payload = payload\<rparr>]\<rparr>"

definition tuple_of :: "Ty list \<Rightarrow> Descr" where
  "tuple_of elems = Descr_unbranded\<lparr>d_tuples := d_tuples Descr_unbranded @ [Conj_pos_of \<lparr>ts_elems = elems\<rparr>]\<rparr>"

definition list_sig :: "ListSig \<Rightarrow> Descr" where
  "list_sig sig = Descr_unbranded\<lparr>d_lists := d_lists Descr_unbranded @ [Conj_pos_of sig]\<rparr>"

definition list_of :: "Ty \<Rightarrow> Descr" where
  "list_of elem = list_sig (ListSig_possibly_empty elem)"

definition non_empty_list_of :: "Ty \<Rightarrow> Descr" where
  "non_empty_list_of elem = list_sig (ListSig_non_empty elem)"

definition empty_list :: Descr where
  "empty_list = list_sig ListSig_empty"

definition Descr_arrow :: "Ty list \<Rightarrow> Ty \<Rightarrow> Descr" where
  "Descr_arrow args ret = Descr_unbranded\<lparr>d_funcs := d_funcs Descr_unbranded @
     [Conj_pos_of \<lparr>ar_args = args, ar_ret = ret, ar_lit = None\<rparr>]\<rparr>"

definition map_top :: Descr where
  "map_top = Descr_record MapPlain Map.empty"

definition Descr_map_of :: "(MapKey \<rightharpoonup> Ty) \<Rightarrow> Descr" where
  "Descr_map_of entries =
     Descr_unbranded\<lparr>d_maps := d_maps Descr_unbranded @ [Conj_pos_of \<lparr>ms_tag = MapPlain, ms_fields = entries\<rparr>]\<rparr>"

section \<open>Readers\<close>

definition single_positive :: "'t Conj list \<Rightarrow> 't option" where
  "single_positive clauses = (case clauses of
       [clause] \<Rightarrow> if conj_neg clause \<noteq> [] then None
                   else (case conj_pos clause of [sig] \<Rightarrow> Some sig | _ \<Rightarrow> None)
     | _ \<Rightarrow> None)"

definition axis_free :: "Descr \<Rightarrow> bool" where
  "axis_free d \<longleftrightarrow> BasicBits_is_empty (d_basic d) \<and> FiniteSet_is_none (d_atoms d) \<and> FiniteSet_is_none (d_opaques d) \<and>
     FiniteSet_is_any (d_brands d) \<and> FiniteSet_is_none (d_vars d)"

definition pure_axis :: "Descr \<Rightarrow> 't Conj list \<Rightarrow> 't \<Rightarrow> 't option" where
  "pure_axis d clauses widest =
     (if \<not> axis_free d then None
      else case clauses of
        [clause] \<Rightarrow> if Conj_is_top clause then Some widest else single_positive clauses
      | _ \<Rightarrow> single_positive clauses)"

definition as_atom_singleton :: "Descr \<Rightarrow> string option" where
  "as_atom_singleton d = (if \<not> fs_cofinite (d_atoms d) \<and> card (fs_values (d_atoms d)) = 1
     then Some (the_elem (fs_values (d_atoms d))) else None)"

definition as_opaque_singleton :: "Descr \<Rightarrow> string option" where
  "as_opaque_singleton d = (if \<not> fs_cofinite (d_opaques d) \<and> card (fs_values (d_opaques d)) = 1
     then (case the_elem (fs_values (d_opaques d)) of OpaqueNamed name \<Rightarrow> Some name | _ \<Rightarrow> None) else None)"

definition as_builtin_opaque_singleton :: "Descr \<Rightarrow> BuiltinOpaque option" where
  "as_builtin_opaque_singleton d = (if \<not> fs_cofinite (d_opaques d) \<and> card (fs_values (d_opaques d)) = 1
     then (case the_elem (fs_values (d_opaques d)) of OpaqueBuiltin b \<Rightarrow> Some b | _ \<Rightarrow> None) else None)"

definition as_closure_lit :: "Descr \<Rightarrow> ClosureLit option" where
  "as_closure_lit d = (if length (d_funcs d) = 1 \<and> conj_neg (d_funcs d ! 0) = [] \<and> length (conj_pos (d_funcs d ! 0)) = 1
     then ar_lit (conj_pos (d_funcs d ! 0) ! 0) else None)"

definition is_singleton_literal :: "Descr \<Rightarrow> bool" where
  "is_singleton_literal d \<longleftrightarrow> as_atom_singleton d \<noteq> None"

definition max_tuple_arity :: "Descr \<Rightarrow> nat" where
  "max_tuple_arity d = fold max (concat (map (\<lambda>c. map (\<lambda>sig. length (ts_elems sig)) (conj_pos c)) (d_tuples d))) 0"

definition refine_map_field :: "MapKey \<Rightarrow> Ty \<Rightarrow> Descr \<Rightarrow> Descr option" where
  "refine_map_field key vt d =
     (if \<not> list_ex (\<lambda>clause. list_ex (\<lambda>sig. ms_fields sig key \<noteq> Some vt) (conj_pos clause)) (d_maps d) then None
      else Some (d\<lparr>d_maps := map (\<lambda>clause. clause\<lparr>conj_pos :=
             map (\<lambda>sig. sig\<lparr>ms_fields := (ms_fields sig)(key \<mapsto> vt)\<rparr>) (conj_pos clause)\<rparr>) (d_maps d)\<rparr>))"

definition as_pure_list :: "Ty \<Rightarrow> Descr \<Rightarrow> ListSig option" where
  "as_pure_list any_ty d =
     (case pure_axis d (d_lists d) \<lparr>ls_empty = True, ls_elem = Some any_ty\<rparr> of
        None \<Rightarrow> None
      | Some sig \<Rightarrow> if d_tuples d = [] \<and> d_resources d = [] \<and> d_funcs d = [] \<and> d_maps d = [] then Some sig else None)"

definition is_pure_list_family :: "Descr \<Rightarrow> bool" where
  "is_pure_list_family d \<longleftrightarrow> axis_free d \<and> d_lists d \<noteq> [] \<and> d_tuples d = [] \<and> d_resources d = [] \<and>
     d_funcs d = [] \<and> d_maps d = []"

definition projection_alternatives :: "Descr \<Rightarrow> Descr list option" where
  "projection_alternatives d =
     (if \<not> axis_free d then None
      else if length (filter id [d_tuples d \<noteq> [], d_lists d \<noteq> [], d_resources d \<noteq> [], d_funcs d \<noteq> [], d_maps d \<noteq> []]) \<noteq> 1
      then None
      else if 1 < length (d_tuples d)
      then Some (map (\<lambda>clause. Descr_unbranded\<lparr>d_tuples := d_tuples Descr_unbranded @ [clause]\<rparr>) (d_tuples d))
      else if 1 < length (d_lists d)
      then Some (map (\<lambda>clause. Descr_unbranded\<lparr>d_lists := d_lists Descr_unbranded @ [clause]\<rparr>) (d_lists d))
      else None)"

definition pure_tuple :: "Descr \<Rightarrow> TupleSig option" where
  "pure_tuple d = (if axis_free d \<and> d_lists d = [] \<and> d_resources d = [] \<and> d_funcs d = [] \<and> d_maps d = []
     then single_positive (d_tuples d) else None)"

definition pure_resource :: "Ty \<Rightarrow> Descr \<Rightarrow> ResourceSig option" where
  "pure_resource any_ty d =
     (case pure_axis d (d_resources d) \<lparr>rs_payload = any_ty\<rparr> of
        None \<Rightarrow> None
      | Some sig \<Rightarrow> if d_tuples d = [] \<and> d_lists d = [] \<and> d_funcs d = [] \<and> d_maps d = [] then Some sig else None)"

definition pure_arrow :: "Descr \<Rightarrow> ArrowSig option" where
  "pure_arrow d = (if axis_free d \<and> d_tuples d = [] \<and> d_lists d = [] \<and> d_resources d = [] \<and> d_maps d = []
     then single_positive (d_funcs d) else None)"

definition is_pure_callable :: "Descr \<Rightarrow> bool" where
  "is_pure_callable d \<longleftrightarrow> axis_free d \<and> d_funcs d \<noteq> [] \<and> d_tuples d = [] \<and> d_lists d = [] \<and> d_resources d = [] \<and>
     d_maps d = []"

definition pure_record :: "Descr \<Rightarrow> MapSig option" where
  "pure_record d = (if axis_free d \<and> d_tuples d = [] \<and> d_lists d = [] \<and> d_resources d = [] \<and> d_funcs d = []
     then single_positive (d_maps d) else None)"

definition structure_looks_empty :: "Descr \<Rightarrow> bool" where
  "structure_looks_empty d \<longleftrightarrow> BasicBits_is_empty (d_basic d) \<and> FiniteSet_is_none (d_atoms d) \<and>
     FiniteSet_is_none (d_opaques d) \<and> FiniteSet_is_none (d_vars d) \<and> d_tuples d = [] \<and> d_lists d = [] \<and>
     d_resources d = [] \<and> d_funcs d = [] \<and> d_maps d = []"

definition looks_empty :: "Descr \<Rightarrow> bool" where
  "looks_empty d \<longleftrightarrow> FiniteSet_is_none (d_brands d) \<or> structure_looks_empty d"

definition looks_full :: "Descr \<Rightarrow> bool" where
  "looks_full d \<longleftrightarrow> d_basic d = BasicBits_ALL \<and> FiniteSet_is_any (d_atoms d) \<and> FiniteSet_is_any (d_opaques d) \<and>
     FiniteSet_is_any (d_brands d) \<and> FiniteSet_is_any (d_vars d) \<and> is_dnf_top (d_tuples d) \<and> is_dnf_top (d_lists d) \<and>
     is_dnf_top (d_resources d) \<and> is_dnf_top (d_funcs d) \<and> is_dnf_top (d_maps d)"

section \<open>Set operations\<close>

definition Descr_union :: "Descr \<Rightarrow> Descr \<Rightarrow> Descr" where
  "Descr_union a b =
     (if looks_empty a then (if looks_empty b then Descr_none else b)
      else if looks_empty b then a
      else \<lparr>d_basic = BasicBits_union (d_basic a) (d_basic b),
            d_atoms = FiniteSet_union (d_atoms a) (d_atoms b),
            d_opaques = FiniteSet_union (d_opaques a) (d_opaques b),
            d_brands = FiniteSet_union (d_brands a) (d_brands b),
            d_vars = FiniteSet_union (d_vars a) (d_vars b),
            d_tuples = dnf_union (d_tuples a) (d_tuples b),
            d_lists = dnf_union (d_lists a) (d_lists b),
            d_resources = dnf_union (d_resources a) (d_resources b),
            d_funcs = dnf_union (d_funcs a) (d_funcs b),
            d_maps = dnf_union (d_maps a) (d_maps b)\<rparr>)"

definition Descr_intersect :: "Descr \<Rightarrow> Descr \<Rightarrow> Descr" where
  "Descr_intersect a b =
     \<lparr>d_basic = BasicBits_intersect (d_basic a) (d_basic b),
      d_atoms = FiniteSet_intersect (d_atoms a) (d_atoms b),
      d_opaques = FiniteSet_intersect (d_opaques a) (d_opaques b),
      d_brands = FiniteSet_intersect (d_brands a) (d_brands b),
      d_vars = FiniteSet_intersect (d_vars a) (d_vars b),
      d_tuples = dnf_intersect (d_tuples a) (d_tuples b),
      d_lists = dnf_intersect (d_lists a) (d_lists b),
      d_resources = dnf_intersect (d_resources a) (d_resources b),
      d_funcs = dnf_intersect (d_funcs a) (d_funcs b),
      d_maps = dnf_intersect (d_maps a) (d_maps b)\<rparr>"

definition neg_structure :: "Descr \<Rightarrow> Descr" where
  "neg_structure d =
     \<lparr>d_basic = BasicBits_neg (d_basic d),
      d_atoms = FiniteSet_neg (d_atoms d),
      d_opaques = FiniteSet_neg (d_opaques d),
      d_brands = FiniteSet_any,
      d_vars = FiniteSet_neg (d_vars d),
      d_tuples = dnf_neg (d_tuples d),
      d_lists = dnf_neg (d_lists d),
      d_resources = dnf_neg (d_resources d),
      d_funcs = dnf_neg (d_funcs d),
      d_maps = dnf_neg (d_maps d)\<rparr>"

definition same_structure_by_construction :: "Descr \<Rightarrow> Descr \<Rightarrow> bool" where
  "same_structure_by_construction a b \<longleftrightarrow> d_basic a = d_basic b \<and> d_atoms a = d_atoms b \<and> d_opaques a = d_opaques b \<and>
     d_vars a = d_vars b \<and> d_tuples a = d_tuples b \<and> d_lists a = d_lists b \<and> d_resources a = d_resources b \<and>
     d_funcs a = d_funcs b \<and> d_maps a = d_maps b"

definition Descr_diff :: "Descr \<Rightarrow> Descr \<Rightarrow> Descr" where
  "Descr_diff a b =
     (if FiniteSet_contains_all (d_brands b) (d_brands a)
      then (Descr_intersect a (neg_structure b))\<lparr>d_brands := d_brands a\<rparr>
      else if \<not> FiniteSet_overlaps (d_brands a) (d_brands b) then a
      else if same_structure_by_construction a b
      then a\<lparr>d_brands := FiniteSet_intersect (d_brands a) (FiniteSet_neg (d_brands b))\<rparr>
      else a)"

section \<open>Values and the meaning of a descriptor\<close>

datatype val = Val (val_brand: "string option") (val_shape: shape)
and shape =
    SBasic basic_kind
  | SAtom string
  | SOpaque OpaqueTag
  | SVar TypeVarId
  | STuple "val list"
  | SList "val list"
  | SResource val
  | SFun nat "(val list \<times> val) list"
  | SMap MapTag "(MapKey \<times> val) list"

text \<open>A finite brand set names brands only; a cofinite one also admits the unbranded value.\<close>

definition brand_holds :: "string FiniteSet \<Rightarrow> string option \<Rightarrow> bool" where
  "brand_holds s b = (case b of None \<Rightarrow> fs_cofinite s | Some name \<Rightarrow> FiniteSet_contains s name)"

lemma size_part:
  "x \<in> set vs \<Longrightarrow> size x \<le> size_list size vs"
  "map_of kvs k = Some x \<Longrightarrow> size x \<le> size_list (size_prod (\<lambda>_. 0) size) kvs"
  "e \<in> set graph \<Longrightarrow> size_list size (fst e) + size (snd e) < Suc (size_list (size_prod (size_list size) size) graph)"
proof -
  show "x \<in> set vs \<Longrightarrow> size x \<le> size_list size vs" by (rule size_list_estimation') auto
  show "e \<in> set graph \<Longrightarrow> size_list size (fst e) + size (snd e) < Suc (size_list (size_prod (size_list size) size) graph)"
    by (induction graph) (auto simp: size_prod_def)
  assume "map_of kvs k = Some x"
  then have "(k, x) \<in> set kvs" by (rule map_of_SomeD)
  then show "size x \<le> size_list (size_prod (\<lambda>_. 0) size) kvs" by (rule size_list_estimation') simp
qed

lemma size_val_parts:
  "val_shape v = STuple vs \<Longrightarrow> i < length vs \<Longrightarrow> size (vs ! i) < size v"
  "val_shape v = SList vs \<Longrightarrow> x \<in> set vs \<Longrightarrow> size x < size v"
  "val_shape v = SResource x \<Longrightarrow> size x < size v"
  "val_shape v = SMap tag kvs \<Longrightarrow> map_of kvs k = Some x \<Longrightarrow> size x < size v"
  "val_shape v = SFun f graph \<Longrightarrow> e \<in> set graph \<Longrightarrow> size (snd e) < size v"
  "val_shape v = SFun f graph \<Longrightarrow> e \<in> set graph \<Longrightarrow> i < length (fst e) \<Longrightarrow> size (fst e ! i) < size v"
  using size_part(1) [of "vs ! i" vs] size_part(1) [of x vs] size_part(2) [of kvs k x] size_part(3) [of e graph]
    size_part(1) [of "fst e ! i" "fst e"]
  by (cases v; simp)+

function den :: "(ClosureLit \<Rightarrow> nat \<Rightarrow> bool) \<Rightarrow> Descr list \<Rightarrow> Descr \<Rightarrow> val \<Rightarrow> bool" where
  "den arr cx d v \<longleftrightarrow> brand_holds (d_brands d) (val_brand v) \<and> (case val_shape v of
       SBasic k \<Rightarrow> basic_holds (d_basic d) k
     | SAtom a \<Rightarrow> FiniteSet_contains (d_atoms d) a
     | SOpaque t \<Rightarrow> FiniteSet_contains (d_opaques d) t
     | SVar i \<Rightarrow> FiniteSet_contains (d_vars d) i
     | STuple vs \<Rightarrow> (\<exists>c \<in> set (d_tuples d).
         (\<forall>p \<in> set (conj_pos c). length (ts_elems p) = length vs \<and>
            (\<forall>i \<in> {..<length vs}. den arr cx (cx ! (ts_elems p ! i)) (vs ! i))) \<and>
         (\<forall>n \<in> set (conj_neg c). \<not> (length (ts_elems n) = length vs \<and>
            (\<forall>i \<in> {..<length vs}. den arr cx (cx ! (ts_elems n ! i)) (vs ! i)))))
     | SList vs \<Rightarrow> (\<exists>c \<in> set (d_lists d).
         (\<forall>p \<in> set (conj_pos c). if vs = [] then ls_empty p
            else case ls_elem p of None \<Rightarrow> False | Some t \<Rightarrow> \<forall>x \<in> set vs. den arr cx (cx ! t) x) \<and>
         (\<forall>n \<in> set (conj_neg c). \<not> (if vs = [] then ls_empty n
            else case ls_elem n of None \<Rightarrow> False | Some t \<Rightarrow> \<forall>x \<in> set vs. den arr cx (cx ! t) x)))
     | SResource x \<Rightarrow> (\<exists>c \<in> set (d_resources d).
         (\<forall>p \<in> set (conj_pos c). den arr cx (cx ! rs_payload p) x) \<and>
         (\<forall>n \<in> set (conj_neg c). \<not> den arr cx (cx ! rs_payload n) x))
     | SFun f graph \<Rightarrow> (\<exists>c \<in> set (d_funcs d).
         (\<forall>p \<in> set (conj_pos c). (case ar_lit p of None \<Rightarrow> True | Some l \<Rightarrow> arr l f) \<and>
            (\<forall>e \<in> set graph. length (ar_args p) = length (fst e) \<and>
               (\<forall>i \<in> {..<length (fst e)}. den arr cx (cx ! (ar_args p ! i)) (fst e ! i)) \<longrightarrow>
               den arr cx (cx ! ar_ret p) (snd e))) \<and>
         (\<forall>n \<in> set (conj_neg c). \<not> ((case ar_lit n of None \<Rightarrow> True | Some l \<Rightarrow> arr l f) \<and>
            (\<forall>e \<in> set graph. length (ar_args n) = length (fst e) \<and>
               (\<forall>i \<in> {..<length (fst e)}. den arr cx (cx ! (ar_args n ! i)) (fst e ! i)) \<longrightarrow>
               den arr cx (cx ! ar_ret n) (snd e)))))
     | SMap tag kvs \<Rightarrow> (\<exists>c \<in> set (d_maps d).
         (\<forall>p \<in> set (conj_pos c). ms_tag p = tag \<and> (\<forall>k. case ms_fields p k of None \<Rightarrow> True
            | Some t \<Rightarrow> (case map_of kvs k of None \<Rightarrow> False | Some x \<Rightarrow> den arr cx (cx ! t) x))) \<and>
         (\<forall>n \<in> set (conj_neg c). \<not> (ms_tag n = tag \<and> (\<forall>k. case ms_fields n k of None \<Rightarrow> True
            | Some t \<Rightarrow> (case map_of kvs k of None \<Rightarrow> False | Some x \<Rightarrow> den arr cx (cx ! t) x))))))"
  by pat_completeness auto
termination
  by (relation "measure (\<lambda>(arr, cx, d, v). size v)") (auto simp: size_val_parts)

declare den.simps [simp del]

text \<open>What one signature says of the parts of a value.\<close>

definition tuple_sat :: "(ClosureLit \<Rightarrow> nat \<Rightarrow> bool) \<Rightarrow> Descr list \<Rightarrow> TupleSig \<Rightarrow> val list \<Rightarrow> bool" where
  "tuple_sat arr cx sig vs \<longleftrightarrow> list_all2 (\<lambda>t x. den arr cx (cx ! t) x) (ts_elems sig) vs"

lemma tuple_sat_nth:
  "tuple_sat arr cx sig vs \<longleftrightarrow> length (ts_elems sig) = length vs \<and>
     (\<forall>i \<in> {..<length vs}. den arr cx (cx ! (ts_elems sig ! i)) (vs ! i))"
  by (auto simp: tuple_sat_def list_all2_conv_all_nth)

definition list_sat :: "(ClosureLit \<Rightarrow> nat \<Rightarrow> bool) \<Rightarrow> Descr list \<Rightarrow> ListSig \<Rightarrow> val list \<Rightarrow> bool" where
  "list_sat arr cx sig vs \<longleftrightarrow> (if vs = [] then ls_empty sig
     else case ls_elem sig of None \<Rightarrow> False | Some t \<Rightarrow> \<forall>x \<in> set vs. den arr cx (cx ! t) x)"

definition resource_sat :: "(ClosureLit \<Rightarrow> nat \<Rightarrow> bool) \<Rightarrow> Descr list \<Rightarrow> ResourceSig \<Rightarrow> val \<Rightarrow> bool" where
  "resource_sat arr cx sig x \<longleftrightarrow> den arr cx (cx ! rs_payload sig) x"

definition arrow_sat ::
  "(ClosureLit \<Rightarrow> nat \<Rightarrow> bool) \<Rightarrow> Descr list \<Rightarrow> ArrowSig \<Rightarrow> nat \<times> (val list \<times> val) list \<Rightarrow> bool" where
  "arrow_sat arr cx sig = (\<lambda>(f, graph). (case ar_lit sig of None \<Rightarrow> True | Some l \<Rightarrow> arr l f) \<and>
     (\<forall>e \<in> set graph. tuple_sat arr cx \<lparr>ts_elems = ar_args sig\<rparr> (fst e) \<longrightarrow> den arr cx (cx ! ar_ret sig) (snd e)))"

definition map_sat :: "(ClosureLit \<Rightarrow> nat \<Rightarrow> bool) \<Rightarrow> Descr list \<Rightarrow> MapSig \<Rightarrow> MapTag \<times> (MapKey \<rightharpoonup> val) \<Rightarrow> bool" where
  "map_sat arr cx sig m \<longleftrightarrow> ms_tag sig = fst m \<and>
     (\<forall>k t. ms_fields sig k = Some t \<longrightarrow> (\<exists>x. snd m k = Some x \<and> den arr cx (cx ! t) x))"

lemma map_sat_cases:
  "map_sat arr cx sig (tag, m) \<longleftrightarrow> ms_tag sig = tag \<and> (\<forall>k. case ms_fields sig k of None \<Rightarrow> True
     | Some t \<Rightarrow> (case m k of None \<Rightarrow> False | Some x \<Rightarrow> den arr cx (cx ! t) x))"
  unfolding map_sat_def fst_conv snd_conv
  by (intro conj_cong refl all_cong1) (auto split: option.split)

primrec shape_holds :: "(ClosureLit \<Rightarrow> nat \<Rightarrow> bool) \<Rightarrow> Descr list \<Rightarrow> Descr \<Rightarrow> shape \<Rightarrow> bool" where
  "shape_holds arr cx d (SBasic k) \<longleftrightarrow> basic_holds (d_basic d) k"
| "shape_holds arr cx d (SAtom a) \<longleftrightarrow> FiniteSet_contains (d_atoms d) a"
| "shape_holds arr cx d (SOpaque t) \<longleftrightarrow> FiniteSet_contains (d_opaques d) t"
| "shape_holds arr cx d (SVar i) \<longleftrightarrow> FiniteSet_contains (d_vars d) i"
| "shape_holds arr cx d (STuple vs) \<longleftrightarrow> dnf_holds (tuple_sat arr cx) (d_tuples d) vs"
| "shape_holds arr cx d (SList vs) \<longleftrightarrow> dnf_holds (list_sat arr cx) (d_lists d) vs"
| "shape_holds arr cx d (SResource x) \<longleftrightarrow> dnf_holds (resource_sat arr cx) (d_resources d) x"
| "shape_holds arr cx d (SFun f graph) \<longleftrightarrow> dnf_holds (arrow_sat arr cx) (d_funcs d) (f, graph)"
| "shape_holds arr cx d (SMap tag kvs) \<longleftrightarrow> dnf_holds (map_sat arr cx) (d_maps d) (tag, map_of kvs)"

lemma den_shape: "den arr cx d v \<longleftrightarrow> brand_holds (d_brands d) (val_brand v) \<and> shape_holds arr cx d (val_shape v)"
  unfolding den.simps [of arr cx d v]
  by (cases "val_shape v")
    (simp_all add: dnf_holds_def clause_holds_def tuple_sat_nth list_sat_def resource_sat_def arrow_sat_def map_sat_cases)

section \<open>The operations mean the set operations\<close>

interpretation br: boolean_axis brand_holds FiniteSet_union FiniteSet_intersect FiniteSet_neg FiniteSet_any FiniteSet_none
  by unfold_locales
    (auto simp: brand_holds_def split: option.splits, auto simp: finite_set_defs split: bool.splits)

lemmas brand_holds_ops [simp] = br.holds_simps

lemma brand_contains_all: "FiniteSet_contains_all s t \<Longrightarrow> brand_holds t b \<Longrightarrow> brand_holds s b"
  using contains_all_sound [of s t]
  by (auto simp: brand_holds_def FiniteSet_contains_all_def split: option.splits bool.splits)

lemma brand_disjoint: "\<not> FiniteSet_overlaps s t \<Longrightarrow> brand_holds s b \<Longrightarrow> \<not> brand_holds t b"
  using not_overlaps_disjoint [of s t]
  by (auto simp: brand_holds_def FiniteSet_overlaps_def split: option.splits bool.splits)

lemma brand_none: "FiniteSet_is_none s \<Longrightarrow> \<not> brand_holds s b"
  by (auto simp: brand_holds_def FiniteSet_is_none_def is_none_sound split: option.splits)

lemma brand_any: "FiniteSet_is_any s \<Longrightarrow> brand_holds s b"
  by (auto simp: brand_holds_def FiniteSet_is_any_def FiniteSet_contains_def split: option.splits)

lemma shape_holds_intersect [simp]:
  "shape_holds arr cx (Descr_intersect a b) s \<longleftrightarrow> shape_holds arr cx a s \<and> shape_holds arr cx b s"
  by (cases s) (simp_all add: Descr_intersect_def)

lemma shape_holds_neg_structure [simp]: "shape_holds arr cx (neg_structure d) s \<longleftrightarrow> \<not> shape_holds arr cx d s"
  by (cases s) (simp_all add: neg_structure_def)

lemma shape_holds_brands [simp]: "shape_holds arr cx (d\<lparr>d_brands := B\<rparr>) s \<longleftrightarrow> shape_holds arr cx d s"
  by (cases s) simp_all

lemma structure_looks_empty_sound: "structure_looks_empty d \<Longrightarrow> \<not> shape_holds arr cx d s"
  by (cases s) (auto simp: structure_looks_empty_def is_none_sound BasicBits_is_empty_def basic_holds_def)

lemma looks_empty_sound: "looks_empty d \<Longrightarrow> \<not> den arr cx d v"
  by (auto simp: looks_empty_def den_shape brand_none structure_looks_empty_sound)

lemma looks_full_sound: "looks_full d \<Longrightarrow> den arr cx d v"
  by (cases "val_shape v") (auto simp: looks_full_def den_shape brand_any is_dnf_top_iff FiniteSet_is_any_def FiniteSet_contains_def)

lemma den_any [simp]: "den arr cx Descr_any v"
  by (rule looks_full_sound)
    (simp add: looks_full_def Descr_any_def FiniteSet_is_any_def FiniteSet_any_def is_dnf_top_iff)

lemma den_none [simp]: "\<not> den arr cx Descr_none v"
  by (rule looks_empty_sound) (simp add: looks_empty_def Descr_none_def FiniteSet_is_none_def FiniteSet_none_def)

lemma den_intersect [simp]: "den arr cx (Descr_intersect a b) v \<longleftrightarrow> den arr cx a v \<and> den arr cx b v"
  by (auto simp: den_shape) (auto simp: Descr_intersect_def)

lemma same_structure_shape: "same_structure_by_construction a b \<Longrightarrow> shape_holds arr cx a s \<longleftrightarrow> shape_holds arr cx b s"
  by (cases s) (simp_all add: same_structure_by_construction_def)

lemma den_diff_upper: "den arr cx (Descr_diff a b) v \<Longrightarrow> den arr cx a v"
  by (auto simp: Descr_diff_def den_shape split: if_splits)

lemma den_diff_lower: "den arr cx a v \<Longrightarrow> \<not> den arr cx b v \<Longrightarrow> den arr cx (Descr_diff a b) v"
  using brand_contains_all [of "d_brands b" "d_brands a" "val_brand v"] same_structure_shape [of a b arr cx "val_shape v"]
  by (auto simp: Descr_diff_def den_shape)

definition diff_exact :: "Descr \<Rightarrow> Descr \<Rightarrow> bool" where
  "diff_exact a b \<longleftrightarrow> FiniteSet_contains_all (d_brands b) (d_brands a) \<or> \<not> FiniteSet_overlaps (d_brands a) (d_brands b) \<or>
     same_structure_by_construction a b"

lemma den_diff_exact:
  assumes "diff_exact a b"
  shows "den arr cx (Descr_diff a b) v \<longleftrightarrow> den arr cx a v \<and> \<not> den arr cx b v"
  using assms brand_contains_all [of "d_brands b" "d_brands a" "val_brand v"] same_structure_shape [of a b arr cx "val_shape v"]
    brand_disjoint [of "d_brands a" "d_brands b" "val_brand v"]
  by (auto simp: diff_exact_def Descr_diff_def den_shape)

lemma shape_holds_union:
  "\<not> looks_empty a \<Longrightarrow> \<not> looks_empty b \<Longrightarrow>
   shape_holds arr cx (Descr_union a b) s \<longleftrightarrow> shape_holds arr cx a s \<or> shape_holds arr cx b s"
  by (cases s) (simp_all add: Descr_union_def)

lemma brands_union:
  "\<not> looks_empty a \<Longrightarrow> \<not> looks_empty b \<Longrightarrow> d_brands (Descr_union a b) = FiniteSet_union (d_brands a) (d_brands b)"
  by (simp add: Descr_union_def)

lemma den_union_upper: "den arr cx a v \<or> den arr cx b v \<Longrightarrow> den arr cx (Descr_union a b) v"
proof (cases "looks_empty a \<or> looks_empty b")
  case True
  then show "den arr cx a v \<or> den arr cx b v \<Longrightarrow> den arr cx (Descr_union a b) v"
    using looks_empty_sound by (auto simp: Descr_union_def)
next
  case False
  then show "den arr cx a v \<or> den arr cx b v \<Longrightarrow> den arr cx (Descr_union a b) v"
    by (auto simp: den_shape shape_holds_union brands_union)
qed

lemma den_union_exact:
  assumes "d_brands a = d_brands b \<or> same_structure_by_construction a b \<or> looks_empty a \<or> looks_empty b"
  shows "den arr cx (Descr_union a b) v \<longleftrightarrow> den arr cx a v \<or> den arr cx b v"
proof (cases "looks_empty a \<or> looks_empty b")
  case True
  then show ?thesis using looks_empty_sound by (auto simp: Descr_union_def)
next
  case False
  moreover have "FiniteSet_union s s = s" for s :: "string FiniteSet"
    by (cases "fs_cofinite s") (simp_all add: FiniteSet_union_def FiniteSet_finite_def FiniteSet_cofinite_def)
  ultimately show ?thesis using assms same_structure_shape [of a b arr cx "val_shape v"]
    by (auto simp: den_shape shape_holds_union brands_union)
qed

end
