(* ===== verification/Fz_Emptiness.thy ===== *)
theory Fz_Emptiness
  imports Fz_Descr
begin

text \<open>
  Deciding emptiness and subtyping of descriptors
  (\<open>src/src/compiler2/types/emptiness.rs\<close> and the queries of \<open>descr.rs\<close>). The arena is
  the list \<open>cx\<close> of interned descriptors. The queries the clause algorithms make of the
  memoised emptiness test are their argument \<open>emp\<close>; the test itself passes the set of
  descriptors in flight down, which is what the source's insertion before and removal after
  the query amounts to. The arena only grows, so a descriptor names earlier entries only;
  the weight guard of the recursive query states this and never fails on such an arena. The
  subsets of a clause's positive arrows are counted by a 32-bit mask, as in the source. Its
  shifts are those of a build without overflow checks, which is what the release profile of
  \<open>Cargo.toml\<close> gives: the distance is taken modulo 32. A build with overflow checks stops
  with a panic at the first distance of 32 or more, and agrees with the model below it.
\<close>

section \<open>Tuples\<close>

definition split_at :: "Descr list \<Rightarrow> Descr list \<Rightarrow> nat \<Rightarrow> Descr list" where
  "split_at t head i = map (\<lambda>j. if j < i then Descr_intersect (t ! j) (head ! j)
     else if j = i then Descr_diff (t ! j) (head ! j) else t ! j) [0..<length t]"

fun phi_tuple :: "(Descr \<Rightarrow> bool) \<Rightarrow> Descr list \<Rightarrow> Descr list list \<Rightarrow> bool" where
  "phi_tuple emp t [] = list_ex emp t"
| "phi_tuple emp t (head # rest) =
     (if list_ex emp t then True
      else if list_ex (\<lambda>(h, ti). emp (Descr_intersect ti h)) (zip head t) then phi_tuple emp t rest
      else list_all (\<lambda>i. phi_tuple emp (split_at t head i) rest) [0..<length t])"

definition tuple_clause_empty :: "Descr list \<Rightarrow> (Descr \<Rightarrow> bool) \<Rightarrow> TupleSig Conj \<Rightarrow> bool" where
  "tuple_clause_empty cx emp c = (case conj_pos c of
       [] \<Rightarrow> False
     | p0 # ps \<Rightarrow>
         (let arity = length (ts_elems p0)
          in if list_ex (\<lambda>p. length (ts_elems p) \<noteq> arity) (conj_pos c) then True
             else let t = fold (\<lambda>p t. map2 (\<lambda>ti e. Descr_intersect ti (cx ! e)) t (ts_elems p)) ps
                            (map (\<lambda>ty. cx ! ty) (ts_elems p0));
                      negs = map (\<lambda>n. map (\<lambda>ty. cx ! ty) (ts_elems n))
                               (filter (\<lambda>n. length (ts_elems n) = arity) (conj_neg c))
                  in phi_tuple emp t negs))"

section \<open>Lists\<close>

datatype ElemEvidence = Unconstrained | EvidenceEmpty | Inhabited Descr

definition evidence_meet :: "Descr list \<Rightarrow> (Descr \<Rightarrow> bool) \<Rightarrow> Ty option \<Rightarrow> ElemEvidence \<Rightarrow> ElemEvidence" where
  "evidence_meet cx emp sig_elem ev = (case sig_elem of
       None \<Rightarrow> EvidenceEmpty
     | Some elem \<Rightarrow> (case ev of
           EvidenceEmpty \<Rightarrow> EvidenceEmpty
         | Unconstrained \<Rightarrow> (let n = cx ! elem in if emp n then EvidenceEmpty else Inhabited n)
         | Inhabited prev \<Rightarrow> (let n = Descr_intersect prev (cx ! elem) in if emp n then EvidenceEmpty else Inhabited n)))"

primrec evidence_fragment :: "ElemEvidence \<Rightarrow> Descr option" where
  "evidence_fragment Unconstrained = Some Descr_any"
| "evidence_fragment EvidenceEmpty = None"
| "evidence_fragment (Inhabited d) = Some d"

record NonEmptyLists =
  nel_elem :: Descr
  nel_minus :: "Descr list"

record ListDenotation =
  ld_holds_empty :: bool
  ld_non_empty :: "NonEmptyLists option"

definition clause_holds_empty :: "ListSig Conj \<Rightarrow> bool" where
  "clause_holds_empty c \<longleftrightarrow> list_all ls_empty (conj_pos c) \<and> \<not> list_ex ls_empty (conj_neg c)"

text \<open>The subtractions that survive, or none when one of them swallows the fragment.\<close>

fun list_minus :: "Descr list \<Rightarrow> (Descr \<Rightarrow> bool) \<Rightarrow> Descr \<Rightarrow> ListSig list \<Rightarrow> Descr list \<Rightarrow> Descr list option" where
  "list_minus cx emp elem [] cuts = Some cuts"
| "list_minus cx emp elem (n # ns) cuts = (case ls_elem n of
       None \<Rightarrow> list_minus cx emp elem ns cuts
     | Some ty \<Rightarrow>
         (let cut = Descr_intersect elem (cx ! ty)
          in if emp cut then list_minus cx emp elem ns cuts
             else if emp (Descr_diff elem cut) then None
             else list_minus cx emp elem ns (push_new cut cuts)))"

definition list_denotation :: "Descr list \<Rightarrow> (Descr \<Rightarrow> bool) \<Rightarrow> ListSig Conj \<Rightarrow> ListDenotation option" where
  "list_denotation cx emp c =
     (let holds_empty = clause_holds_empty c;
          just_empty = (if holds_empty then Some \<lparr>ld_holds_empty = True, ld_non_empty = None\<rparr> else None);
          evidence = fold (\<lambda>p. evidence_meet cx emp (ls_elem p)) (conj_pos c) Unconstrained
      in case evidence_fragment evidence of
           None \<Rightarrow> just_empty
         | Some elem \<Rightarrow> (case list_minus cx emp elem (conj_neg c) [] of
               None \<Rightarrow> just_empty
             | Some cuts \<Rightarrow> Some \<lparr>ld_holds_empty = holds_empty,
                 ld_non_empty = Some \<lparr>nel_elem = elem, nel_minus = cuts\<rparr>\<rparr>))"

definition list_clause_empty :: "Descr list \<Rightarrow> (Descr \<Rightarrow> bool) \<Rightarrow> ListSig Conj \<Rightarrow> bool" where
  "list_clause_empty cx emp c \<longleftrightarrow> list_denotation cx emp c = None"

section \<open>Resources\<close>

definition resource_clause_empty :: "Descr list \<Rightarrow> (Descr \<Rightarrow> bool) \<Rightarrow> ResourceSig Conj \<Rightarrow> bool" where
  "resource_clause_empty cx emp c =
     (let covered = (\<lambda>payload. if conj_neg c = [] then False
            else list_ex (\<lambda>n. emp (Descr_diff payload (cx ! rs_payload n))) (conj_neg c))
      in case conj_pos c of
           [] \<Rightarrow> covered Descr_any
         | p0 # ps \<Rightarrow>
             (let payload = fold (\<lambda>p d. Descr_intersect d (cx ! rs_payload p)) ps (cx ! rs_payload p0)
              in if emp payload then True else covered payload))"

section \<open>Callables\<close>

definition arrow_input :: "ArrowSig \<Rightarrow> Descr" where
  "arrow_input sig = tuple_of (ar_args sig)"

definition closure_brands_meet :: "FnId option \<Rightarrow> FnId option \<Rightarrow> bool" where
  "closure_brands_meet a b = (case (a, b) of (Some x, Some y) \<Rightarrow> x = y | _ \<Rightarrow> True)"

definition closure_brand_inside :: "FnId option \<Rightarrow> FnId option \<Rightarrow> bool" where
  "closure_brand_inside p n = (case (p, n) of (_, None) \<Rightarrow> True | (Some x, Some y) \<Rightarrow> x = y | (None, Some _) \<Rightarrow> False)"

definition closure_lits_clash :: "Descr list \<Rightarrow> (Descr \<Rightarrow> bool) \<Rightarrow> ClosureLit \<Rightarrow> ClosureLit \<Rightarrow> bool" where
  "closure_lits_clash cx emp a b \<longleftrightarrow> \<not> closure_brands_meet (cl_fn_id a) (cl_fn_id b) \<or>
     length (cl_captures a) \<noteq> length (cl_captures b) \<or>
     list_ex (\<lambda>(x, y). emp (Descr_intersect (cx ! x) (cx ! y))) (zip (cl_captures a) (cl_captures b))"

fun any_pair :: "('a \<Rightarrow> 'a \<Rightarrow> bool) \<Rightarrow> 'a list \<Rightarrow> bool" where
  "any_pair P [] = False"
| "any_pair P (x # xs) \<longleftrightarrow> list_ex (P x) xs \<or> any_pair P xs"

definition neg_lit_covers :: "Descr list \<Rightarrow> (Descr \<Rightarrow> bool) \<Rightarrow> ClosureLit \<Rightarrow> ArrowSig \<Rightarrow> bool" where
  "neg_lit_covers cx emp neg_lit posi = (case ar_lit posi of
       None \<Rightarrow> False
     | Some pos_lit \<Rightarrow> closure_brand_inside (cl_fn_id pos_lit) (cl_fn_id neg_lit) \<and>
         length (cl_captures pos_lit) = length (cl_captures neg_lit) \<and>
         list_all (\<lambda>(pc, nc). emp (Descr_diff (cx ! pc) (cx ! nc))) (zip (cl_captures pos_lit) (cl_captures neg_lit)))"

text \<open>\<open>1u32 << n_pos\<close> and \<open>(mask >> i) & 1 == 1\<close>.\<close>

definition mask_end :: "nat \<Rightarrow> 32 word" where
  "mask_end n_pos = push_bit (n_pos mod 32) 1"

definition mask_picks :: "32 word \<Rightarrow> nat \<Rightarrow> bool" where
  "mask_picks picked i \<longleftrightarrow> bit (drop_bit (i mod 32) picked) 0"

text \<open>The domain of the arrows a mask picks, and the result of the others.\<close>

definition mask_sides :: "Descr list \<Rightarrow> ArrowSig list \<Rightarrow> 32 word \<Rightarrow> Descr \<times> Descr" where
  "mask_sides cx p picked = fold (\<lambda>(i, pi) (union_in, inter_out).
       if mask_picks picked i then (Descr_union union_in (arrow_input pi), inter_out)
       else (union_in, Descr_intersect inter_out (cx ! ar_ret pi)))
     (enumerate 0 p) (Descr_none, Descr_any)"

definition arrow_covered :: "Descr list \<Rightarrow> (Descr \<Rightarrow> bool) \<Rightarrow> ArrowSig list \<Rightarrow> ArrowSig \<Rightarrow> bool" where
  "arrow_covered cx emp p negj =
     list_all (\<lambda>picked. let (union_in, inter_out) = mask_sides cx p picked
       in emp (Descr_diff (arrow_input negj) union_in) \<or> emp (Descr_diff inter_out (cx ! ar_ret negj)))
     (map word_of_nat [0..<unat (mask_end (length p))])"

definition func_clause_empty :: "Descr list \<Rightarrow> (Descr \<Rightarrow> bool) \<Rightarrow> ArrowSig Conj \<Rightarrow> bool" where
  "func_clause_empty cx emp c =
     (let p = conj_pos c; n = conj_neg c; pos_lits = List.map_filter ar_lit p
      in if list_ex (\<lambda>l. list_ex (\<lambda>ty. emp (cx ! ty)) (cl_captures l)) pos_lits then True
         else if any_pair (closure_lits_clash cx emp) pos_lits then True
         else if list_ex (\<lambda>neg_lit. list_ex (neg_lit_covers cx emp neg_lit) p) (List.map_filter ar_lit n) then True
         else list_ex (arrow_covered cx emp p) (filter (\<lambda>negj. ar_lit negj = None) n))"

section \<open>Maps\<close>

definition merge_fields :: "Descr list \<Rightarrow> MapSig \<Rightarrow> (MapKey \<rightharpoonup> Descr) \<Rightarrow> (MapKey \<rightharpoonup> Descr)" where
  "merge_fields cx p merged = (\<lambda>k. case ms_fields p k of
       None \<Rightarrow> merged k
     | Some v \<Rightarrow> (case merged k of None \<Rightarrow> Some (cx ! v) | Some e \<Rightarrow> Some (Descr_intersect e (cx ! v))))"

definition map_clause_empty :: "Descr list \<Rightarrow> (Descr \<Rightarrow> bool) \<Rightarrow> MapSig Conj \<Rightarrow> bool" where
  "map_clause_empty cx emp c = (case conj_pos c of
       [] \<Rightarrow> False
     | p0 # ps \<Rightarrow>
         if list_ex (\<lambda>p. ms_tag p \<noteq> ms_tag p0) ps then True
         else let merged = fold (merge_fields cx) ps (\<lambda>k. map_option (\<lambda>ty. cx ! ty) (ms_fields p0 k))
              in if \<exists>k \<in> dom merged. emp (the (merged k)) then True
                 else list_ex (\<lambda>n. ms_tag n = ms_tag p0 \<and> dom (ms_fields n) \<subseteq> dom merged \<and>
                   (\<forall>k \<in> dom (ms_fields n). case merged k of None \<Rightarrow> False
                      | Some pv \<Rightarrow> emp (Descr_diff pv (cx ! the (ms_fields n k))))) (conj_neg c))"

section \<open>The emptiness test\<close>

definition Descr_tys :: "Descr \<Rightarrow> Ty set" where
  "Descr_tys d =
     (\<Union>s \<in> dnf_sigs (d_tuples d). set (ts_elems s)) \<union>
     (\<Union>s \<in> dnf_sigs (d_lists d). set_option (ls_elem s)) \<union>
     rs_payload ` dnf_sigs (d_resources d) \<union>
     (\<Union>s \<in> dnf_sigs (d_funcs d). set (ar_args s) \<union> {ar_ret s} \<union>
        (case ar_lit s of None \<Rightarrow> {} | Some l \<Rightarrow> set (cl_captures l))) \<union>
     (\<Union>s \<in> dnf_sigs (d_maps d). ran (ms_fields s))"

definition weight :: "Descr \<Rightarrow> nat" where
  "weight d = 2 * (if Descr_tys d = {} then 0 else Suc (Max (Descr_tys d))) + (if d_funcs d = [] then 0 else 1)"

function is_empty_memo :: "Descr list \<Rightarrow> Descr set \<Rightarrow> Descr \<Rightarrow> bool" where
  "is_empty_memo cx in_flight d =
     (if d \<in> in_flight then True
      else FiniteSet_is_none (d_brands d) \<or>
        BasicBits_is_empty (d_basic d) \<and> FiniteSet_is_none (d_atoms d) \<and> FiniteSet_is_none (d_opaques d) \<and>
        FiniteSet_is_none (d_vars d) \<and>
        list_all (tuple_clause_empty cx (\<lambda>e. if weight e < weight d then is_empty_memo cx (insert d in_flight) e else False)) (d_tuples d) \<and>
        list_all (list_clause_empty cx (\<lambda>e. if weight e < weight d then is_empty_memo cx (insert d in_flight) e else False)) (d_lists d) \<and>
        list_all (resource_clause_empty cx (\<lambda>e. if weight e < weight d then is_empty_memo cx (insert d in_flight) e else False)) (d_resources d) \<and>
        list_all (func_clause_empty cx (\<lambda>e. if weight e < weight d then is_empty_memo cx (insert d in_flight) e else False)) (d_funcs d) \<and>
        list_all (map_clause_empty cx (\<lambda>e. if weight e < weight d then is_empty_memo cx (insert d in_flight) e else False)) (d_maps d))"
  by pat_completeness auto
termination
  by (relation "measure (\<lambda>(cx, in_flight, d). weight d)") simp_all

declare is_empty_memo.simps [simp del]

definition Descr_is_empty :: "Descr list \<Rightarrow> Descr \<Rightarrow> bool" where
  "Descr_is_empty cx d = is_empty_memo cx {} d"

definition is_subtype :: "Descr list \<Rightarrow> Descr \<Rightarrow> Descr \<Rightarrow> bool" where
  "is_subtype cx a b = Descr_is_empty cx (Descr_diff a b)"

definition is_equiv :: "Descr list \<Rightarrow> Descr \<Rightarrow> Descr \<Rightarrow> bool" where
  "is_equiv cx a b \<longleftrightarrow> a = b \<or> is_subtype cx a b \<and> is_subtype cx b a"

definition is_full :: "Descr list \<Rightarrow> Descr \<Rightarrow> bool" where
  "is_full cx d =
     (if looks_full d then True
      else d_basic d = BasicBits_ALL \<and> FiniteSet_is_any (d_atoms d) \<and> FiniteSet_is_any (d_opaques d) \<and>
        FiniteSet_is_any (d_brands d) \<and> FiniteSet_is_any (d_vars d) \<and> d_tuples d \<noteq> [] \<and> d_lists d \<noteq> [] \<and>
        d_resources d \<noteq> [] \<and> d_funcs d \<noteq> [] \<and> d_maps d \<noteq> [] \<and> is_subtype cx Descr_any d)"

definition erase_nominal :: "Descr \<Rightarrow> Descr" where
  "erase_nominal d =
     (if looks_empty d then Descr_none
      else let d1 = d\<lparr>d_brands := FiniteSet_any, d_opaques := FiniteSet_none\<rparr>
           in if \<not> FiniteSet_is_none (d_opaques d) then Descr_union d1 Descr_any else d1)"

definition value_disjoint :: "Descr list \<Rightarrow> Descr \<Rightarrow> Descr \<Rightarrow> bool" where
  "value_disjoint cx a b = Descr_is_empty cx (Descr_intersect (erase_nominal a) (erase_nominal b))"

section \<open>Sound queries\<close>

text \<open>
  What the clause algorithms rely on: the query answers only for descriptors that hold of no
  value.
\<close>

definition fields_fit ::
  "(ClosureLit \<Rightarrow> nat \<Rightarrow> bool) \<Rightarrow> Descr list \<Rightarrow> (MapKey \<rightharpoonup> Descr) \<Rightarrow> (MapKey \<rightharpoonup> val) \<Rightarrow> bool" where
  "fields_fit arr cx merged m \<longleftrightarrow> (\<forall>k d. merged k = Some d \<longrightarrow> (\<exists>x. m k = Some x \<and> den arr cx d x))"

locale sound_emptiness =
  fixes arr :: "ClosureLit \<Rightarrow> nat \<Rightarrow> bool" and cx :: "Descr list" and emp :: "Descr \<Rightarrow> bool"
  assumes emp_sound: "emp e \<Longrightarrow> \<not> den arr cx e v"
begin

abbreviation holds_all :: "Descr list \<Rightarrow> val list \<Rightarrow> bool" where
  "holds_all t vs \<equiv> list_all2 (den arr cx) t vs"

lemma holds_all_not_empty: "holds_all t vs \<Longrightarrow> \<not> list_ex emp t"
  by (auto simp: list_all2_conv_all_nth list_ex_iff in_set_conv_nth) (blast dest: emp_sound)

lemma split_at_holds:
  assumes "holds_all t vs" and "length head = length t" and "\<not> holds_all head vs"
  shows "\<exists>i < length t. holds_all (split_at t head i) vs"
proof -
  have len: "length t = length vs" using assms(1) by (rule list_all2_lengthD)
  then obtain k where "k < length t" "\<not> den arr cx (head ! k) (vs ! k)"
    using assms(2,3) by (auto simp: list_all2_conv_all_nth)
  then obtain i where i: "i < length t" "\<not> den arr cx (head ! i) (vs ! i)"
    and least: "\<And>j. j < i \<Longrightarrow> den arr cx (head ! j) (vs ! j)"
    using exists_least_iff [of "\<lambda>k. k < length t \<and> \<not> den arr cx (head ! k) (vs ! k)"] by auto
  have "holds_all (split_at t head i) vs"
    using assms(1) i least len by (auto simp: list_all2_conv_all_nth split_at_def den_diff_lower)
  with i show ?thesis by blast
qed

lemma phi_tuple_sound:
  assumes "phi_tuple emp t n" and "\<forall>m \<in> set n. length m = length t" and "holds_all t vs"
  shows "\<exists>m \<in> set n. holds_all m vs"
  using assms
proof (induction n arbitrary: t)
  case Nil
  then show ?case using holds_all_not_empty by simp
next
  case (Cons head rest)
  note ne = holds_all_not_empty [OF Cons.prems(3)]
  show ?case
  proof (cases "list_ex (\<lambda>(h, ti). emp (Descr_intersect ti h)) (zip head t)")
    case True
    then show ?thesis using Cons.IH [of t] Cons.prems ne by simp
  next
    case False
    show ?thesis
    proof (cases "holds_all head vs")
      case outside: False
      then obtain i where i: "i < length t" "holds_all (split_at t head i) vs"
        using split_at_holds [OF Cons.prems(3), of head] Cons.prems(2) by auto
      then have "phi_tuple emp (split_at t head i) rest" using Cons.prems(1) False ne by (simp add: list_all_iff)
      then show ?thesis using Cons.IH [of "split_at t head i"] i Cons.prems(2) by (simp add: split_at_def)
    qed simp
  qed
qed

lemma fold_meet_holds:
  assumes "holds_all t vs" and "\<forall>p \<in> set ps. tuple_sat arr cx p vs"
  shows "holds_all (fold (\<lambda>p t. map2 (\<lambda>ti e. Descr_intersect ti (cx ! e)) t (ts_elems p)) ps t) vs"
  using assms
  by (induction ps arbitrary: t) (auto simp: tuple_sat_def list_all2_conv_all_nth)

lemma length_fold_meet:
  "\<forall>p \<in> set ps. length (ts_elems p) = length t \<Longrightarrow>
   length (fold (\<lambda>p t. map2 (\<lambda>ti e. Descr_intersect ti (cx ! e)) t (ts_elems p)) ps t) = length t"
  by (induction ps arbitrary: t) auto

lemma holds_all_elems: "holds_all (map (\<lambda>ty. cx ! ty) (ts_elems n)) vs \<longleftrightarrow> tuple_sat arr cx n vs"
  by (simp add: tuple_sat_def list_all2_map1)

lemma tuple_clause_sound:
  assumes "tuple_clause_empty cx emp c"
  shows "\<not> clause_holds (tuple_sat arr cx) c vs"
proof
  assume holds: "clause_holds (tuple_sat arr cx) c vs"
  obtain p0 ps where c: "conj_pos c = p0 # ps" using assms by (auto simp: tuple_clause_empty_def split: list.splits)
  have sat: "\<forall>p \<in> set (p0 # ps). tuple_sat arr cx p vs" using holds c by (auto simp: clause_holds_def)
  then have len: "\<forall>p \<in> set (p0 # ps). length (ts_elems p) = length vs"
    by (auto simp: tuple_sat_def dest!: list_all2_lengthD)
  let ?first = "map (\<lambda>ty. cx ! ty) (ts_elems p0)"
  let ?t = "fold (\<lambda>p t. map2 (\<lambda>ti e. Descr_intersect ti (cx ! e)) t (ts_elems p)) ps ?first"
  let ?negs = "map (\<lambda>n. map (\<lambda>ty. cx ! ty) (ts_elems n)) (filter (\<lambda>n. length (ts_elems n) = length vs) (conj_neg c))"
  have phi: "phi_tuple emp ?t ?negs"
    using assms len unfolding tuple_clause_empty_def c by (simp add: Let_def list_ex_iff del: phi_tuple.simps split: if_splits)
  have "length ?t = length vs" using length_fold_meet [of ps ?first] len by simp
  moreover have "holds_all ?t vs" using fold_meet_holds [of ?first vs ps] sat by (simp add: holds_all_elems)
  ultimately obtain m where "m \<in> set ?negs" "holds_all m vs" using phi_tuple_sound [OF phi] by force
  then show False using holds by (auto simp: clause_holds_def holds_all_elems)
qed

lemma evidence_sound:
  assumes "\<forall>p \<in> set ps. list_sat arr cx p vs" and "vs \<noteq> []"
    and "\<exists>d. evidence_fragment ev = Some d \<and> (\<forall>x \<in> set vs. den arr cx d x)"
  shows "\<exists>d. evidence_fragment (fold (\<lambda>p. evidence_meet cx emp (ls_elem p)) ps ev) = Some d \<and> (\<forall>x \<in> set vs. den arr cx d x)"
  using assms
proof (induction ps arbitrary: ev)
  case (Cons p ps)
  obtain t where t: "ls_elem p = Some t" "\<forall>x \<in> set vs. den arr cx (cx ! t) x"
    using Cons.prems(1,2) by (auto simp: list_sat_def split: option.splits)
  obtain x where x: "x \<in> set vs" using \<open>vs \<noteq> []\<close> by (cases vs) auto
  obtain d where d: "evidence_fragment ev = Some d" "\<forall>x \<in> set vs. den arr cx d x" using Cons.prems(3) by blast
  have "\<not> emp (cx ! t)" "\<not> emp (Descr_intersect d (cx ! t))"
    using emp_sound [of "cx ! t" x] emp_sound [of "Descr_intersect d (cx ! t)" x] t(2) d(2) x by auto
  then have "evidence_fragment (evidence_meet cx emp (ls_elem p) ev) =
      Some (if ev = Unconstrained then cx ! t else Descr_intersect d (cx ! t))"
    using d(1) t(1) by (cases ev) (simp_all add: evidence_meet_def Let_def)
  moreover have "\<forall>x \<in> set vs. den arr cx (if ev = Unconstrained then cx ! t else Descr_intersect d (cx ! t)) x"
    using t(2) d(2) by simp
  ultimately show ?case using Cons.IH [of "evidence_meet cx emp (ls_elem p) ev"] Cons.prems(1,2) by simp
qed simp

lemma list_minus_sound:
  assumes "\<forall>n \<in> set ns. \<not> list_sat arr cx n vs" and "vs \<noteq> []" and "\<forall>x \<in> set vs. den arr cx elem x"
  shows "list_minus cx emp elem ns cuts \<noteq> None"
  using assms(1)
proof (induction ns arbitrary: cuts)
  case (Cons n ns)
  have "\<not> emp (Descr_diff elem (Descr_intersect elem (cx ! t)))" if t: "ls_elem n = Some t" for t
  proof
    assume empty: "emp (Descr_diff elem (Descr_intersect elem (cx ! t)))"
    have "den arr cx (cx ! t) x" if "x \<in> set vs" for x
      using emp_sound [OF empty, of x] den_diff_lower [of arr cx elem x "Descr_intersect elem (cx ! t)"] assms(3) that
      by auto
    then show False using Cons.prems t assms(2) by (simp add: list_sat_def)
  qed
  with Cons show ?case by (auto simp: Let_def split: option.splits)
qed simp

lemma clause_holds_empty_iff: "clause_holds_empty c \<longleftrightarrow> clause_holds (list_sat arr cx) c []"
  by (auto simp: clause_holds_empty_def clause_holds_def list_sat_def list_all_iff list_ex_iff)

lemma list_clause_sound:
  assumes "list_clause_empty cx emp c"
  shows "\<not> clause_holds (list_sat arr cx) c vs"
proof
  assume holds: "clause_holds (list_sat arr cx) c vs"
  show False
  proof (cases "vs = []")
    case True
    with holds have "clause_holds_empty c" by (simp add: clause_holds_empty_iff)
    then show False using assms
      by (simp add: list_clause_empty_def list_denotation_def Let_def split: option.splits)
  next
    case False
    obtain elem where e: "evidence_fragment (fold (\<lambda>p. evidence_meet cx emp (ls_elem p)) (conj_pos c) Unconstrained) = Some elem"
      "\<forall>x \<in> set vs. den arr cx elem x"
      using evidence_sound [of "conj_pos c" vs Unconstrained] holds False by (auto simp: clause_holds_def)
    have "list_minus cx emp elem (conj_neg c) [] \<noteq> None"
      using list_minus_sound [OF _ False e(2)] holds by (auto simp: clause_holds_def)
    then show False using assms e(1) by (auto simp: list_clause_empty_def list_denotation_def Let_def)
  qed
qed

lemma resource_clause_sound:
  assumes "resource_clause_empty cx emp c"
  shows "\<not> clause_holds (resource_sat arr cx) c x"
proof
  assume holds: "clause_holds (resource_sat arr cx) c x"
  have covered: False if "den arr cx d x" "n \<in> set (conj_neg c)" "emp (Descr_diff d (cx ! rs_payload n))" for d n
    using that(1,2) holds den_diff_lower [of arr cx d x "cx ! rs_payload n"] emp_sound [OF that(3), of x]
    by (auto simp: clause_holds_def resource_sat_def)
  have payload: "den arr cx (fold (\<lambda>p d. Descr_intersect d (cx ! rs_payload p)) ps d) x"
    if "den arr cx d x" "\<forall>p \<in> set ps. resource_sat arr cx p x" for ps d
    using that by (induction ps arbitrary: d) (auto simp: resource_sat_def)
  show False
  proof (cases "conj_pos c")
    case Nil
    then show False using assms covered [OF den_any] by (auto simp: resource_clause_empty_def list_ex_iff split: if_splits)
  next
    case (Cons p0 ps)
    have "den arr cx (fold (\<lambda>p d. Descr_intersect d (cx ! rs_payload p)) ps (cx ! rs_payload p0)) x"
      by (rule payload) (use holds Cons in \<open>auto simp: clause_holds_def resource_sat_def\<close>)
    then show False
      using assms Cons covered emp_sound by (auto simp: resource_clause_empty_def Let_def list_ex_iff split: if_splits)
  qed
qed

lemma merge_fields_holds:
  assumes "map_sat arr cx p (tag, m)" and "fields_fit arr cx merged m"
  shows "fields_fit arr cx (merge_fields cx p merged) m"
  unfolding fields_fit_def
proof (intro allI impI)
  fix k d assume "merge_fields cx p merged k = Some d"
  with assms show "\<exists>x. m k = Some x \<and> den arr cx d x"
    by (fastforce simp: merge_fields_def map_sat_def fields_fit_def split: option.splits)
qed

lemma fold_merge_fields_holds:
  assumes "\<forall>p \<in> set ps. map_sat arr cx p (tag, m)" and "fields_fit arr cx merged m"
  shows "fields_fit arr cx (fold (merge_fields cx) ps merged) m"
  using assms by (induction ps arbitrary: merged) (auto intro: merge_fields_holds)

lemma map_clause_sound:
  assumes "map_clause_empty cx emp c"
  shows "\<not> clause_holds (map_sat arr cx) c (tag, m)"
proof
  assume holds: "clause_holds (map_sat arr cx) c (tag, m)"
  obtain p0 ps where c: "conj_pos c = p0 # ps" using assms by (auto simp: map_clause_empty_def split: list.splits)
  have sat: "\<forall>p \<in> set (p0 # ps). map_sat arr cx p (tag, m)" using holds c by (auto simp: clause_holds_def)
  then have tags: "\<forall>p \<in> set (p0 # ps). ms_tag p = tag" by (auto simp: map_sat_def)
  let ?merged = "fold (merge_fields cx) ps (\<lambda>k. map_option (\<lambda>ty. cx ! ty) (ms_fields p0 k))"
  have "fields_fit arr cx ?merged m"
    by (rule fold_merge_fields_holds) (use sat in \<open>auto simp: map_sat_def fields_fit_def\<close>)
  then have merged: "\<exists>x. m k = Some x \<and> den arr cx d x" if "?merged k = Some d" for k d
    using that by (auto simp: fields_fit_def)
  have "\<not> (\<exists>k \<in> dom ?merged. emp (the (?merged k)))"
  proof
    assume "\<exists>k \<in> dom ?merged. emp (the (?merged k))"
    then obtain k d where "?merged k = Some d" "emp d" by auto
    with merged emp_sound show False by blast
  qed
  then obtain n where n: "n \<in> set (conj_neg c)" "ms_tag n = tag"
    and cover: "\<forall>k \<in> dom (ms_fields n). case ?merged k of None \<Rightarrow> False
       | Some pv \<Rightarrow> emp (Descr_diff pv (cx ! the (ms_fields n k)))"
    using assms c tags by (auto simp: map_clause_empty_def Let_def list_ex_iff split: if_splits)
  have "map_sat arr cx n (tag, m)"
    unfolding map_sat_def
  proof (intro conjI allI impI)
    fix k t assume t: "ms_fields n k = Some t"
    then obtain pv where pv: "?merged k = Some pv" "emp (Descr_diff pv (cx ! t))"
      using cover by (fastforce split: option.splits)
    then obtain x where "m k = Some x" "den arr cx pv x" using merged by blast
    then show "\<exists>x. snd (tag, m) k = Some x \<and> den arr cx (cx ! t) x"
      using den_diff_lower [of arr cx pv x "cx ! t"] emp_sound [OF pv(2)] by auto
  qed (simp add: n)
  then show False using holds n(1) by (auto simp: clause_holds_def)
qed

end

end
