(* ===== verification/Fz_Subtype.thy ===== *)
theory Fz_Subtype
  imports Fz_Emptiness
begin

text \<open>
  The emptiness test is right: it never calls an inhabited descriptor empty, and it is
  exact on the fragment of the type language whose algorithms are exact. The theory first
  bounds what the clause algorithms ask of the recursive test, so that the guard of the
  recursion is seen never to fail on an interned arena.
\<close>

section \<open>Which descriptors a clause asks about\<close>

locale query_family =
  fixes cx :: "Descr list" and T :: "Ty set" and Q :: "Descr set"
  assumes child: "t \<in> T \<Longrightarrow> cx ! t \<in> Q"
    and full: "Descr_any \<in> Q"
    and meet: "a \<in> Q \<Longrightarrow> b \<in> Q \<Longrightarrow> Descr_intersect a b \<in> Q"
    and difference: "a \<in> Q \<Longrightarrow> b \<in> Q \<Longrightarrow> Descr_diff a b \<in> Q"
begin

lemma split_at_family:
  assumes "set t \<subseteq> Q" and "set head \<subseteq> Q" and "length head = length t"
  shows "set (split_at t head i) \<subseteq> Q"
proof -
  have "t ! j \<in> Q" "head ! j \<in> Q" if "j < length t" for j
    using that assms nth_mem [of j t] nth_mem [of j head] by auto
  then show ?thesis by (auto simp: split_at_def meet difference)
qed

lemma phi_tuple_cong:
  assumes "set t \<subseteq> Q" and "\<forall>m \<in> set n. set m \<subseteq> Q \<and> length m = length t"
    and "t \<noteq> [] \<Longrightarrow> \<forall>e \<in> Q. emp e = emp' e"
  shows "phi_tuple emp t n = phi_tuple emp' t n"
  using assms
proof (induction n arbitrary: t)
  case Nil
  then show ?case by (cases "t = []") (auto simp: list_ex_iff)
next
  case (Cons head rest)
  show ?case
  proof (cases "t = []")
    case True
    then show ?thesis using Cons by simp
  next
    case False
    then have eq: "emp e = emp' e" if "e \<in> Q" for e using Cons.prems(3) that by blast
    have head: "set head \<subseteq> Q" "length head = length t" using Cons.prems(2) by auto
    have "list_ex emp t = list_ex emp' t" using eq Cons.prems(1) by (auto simp: list_ex_iff)
    moreover have "list_ex (\<lambda>(h, ti). emp (Descr_intersect ti h)) (zip head t) =
        list_ex (\<lambda>(h, ti). emp' (Descr_intersect ti h)) (zip head t)"
    proof (rule list_ex_cong [OF refl])
      fix z assume "z \<in> set (zip head t)"
      then obtain h ti where z: "z = (h, ti)" "h \<in> set head" "ti \<in> set t"
        by (metis set_zip_leftD set_zip_rightD surj_pair)
      have "Descr_intersect ti h \<in> Q" by (rule meet) (use z head(1) Cons.prems(1) in auto)
      then show "(case z of (h, ti) \<Rightarrow> emp (Descr_intersect ti h)) = (case z of (h, ti) \<Rightarrow> emp' (Descr_intersect ti h))"
        using eq z(1) by simp
    qed
    moreover have "phi_tuple emp t rest = phi_tuple emp' t rest" using Cons by simp
    moreover have "phi_tuple emp (split_at t head i) rest = phi_tuple emp' (split_at t head i) rest" for i
      by (rule Cons.IH) (use split_at_family [OF Cons.prems(1) head, of i] Cons.prems(2) eq in \<open>auto simp: split_at_def\<close>)
    ultimately show ?thesis by simp
  qed
qed

lemma fold_tuple_meet:
  assumes "set t \<subseteq> Q" and "\<forall>p \<in> set ps. set (ts_elems p) \<subseteq> T"
  shows "set (fold (\<lambda>p t. map2 (\<lambda>ti e. Descr_intersect ti (cx ! e)) t (ts_elems p)) ps t) \<subseteq> Q"
  using assms
proof (induction ps arbitrary: t)
  case (Cons p ps)
  have "set (map2 (\<lambda>ti e. Descr_intersect ti (cx ! e)) t (ts_elems p)) \<subseteq> Q"
  proof
    fix d assume "d \<in> set (map2 (\<lambda>ti e. Descr_intersect ti (cx ! e)) t (ts_elems p))"
    then obtain ti e where d: "d = Descr_intersect ti (cx ! e)" "ti \<in> set t" "e \<in> set (ts_elems p)"
      by (auto dest: set_zip_leftD set_zip_rightD)
    show "d \<in> Q" unfolding d(1) by (rule meet [OF _ child]) (use d Cons.prems in auto)
  qed
  with Cons show ?case by simp
qed simp

lemma length_fold_tuple_meet:
  "\<forall>p \<in> set ps. length (ts_elems p) = length t \<Longrightarrow>
   length (fold (\<lambda>p t. map2 (\<lambda>ti e. Descr_intersect ti (cx ! e)) t (ts_elems p)) ps t) = length t"
  by (induction ps arbitrary: t) auto

lemma tuple_clause_cong:
  assumes T: "\<forall>s \<in> clause_sigs c. set (ts_elems s) \<subseteq> T" and eq: "T \<noteq> {} \<Longrightarrow> \<forall>e \<in> Q. emp e = emp' e"
  shows "tuple_clause_empty cx emp c = tuple_clause_empty cx emp' c"
proof (cases "conj_pos c")
  case (Cons p0 ps)
  let ?first = "map (\<lambda>ty. cx ! ty) (ts_elems p0)"
  let ?t = "fold (\<lambda>p t. map2 (\<lambda>ti e. Descr_intersect ti (cx ! e)) t (ts_elems p)) ps ?first"
  let ?negs = "map (\<lambda>n. map (\<lambda>ty. cx ! ty) (ts_elems n)) (filter (\<lambda>n. length (ts_elems n) = length (ts_elems p0)) (conj_neg c))"
  have sub: "\<forall>p \<in> set (p0 # ps). set (ts_elems p) \<subseteq> T" "\<forall>n \<in> set (conj_neg c). set (ts_elems n) \<subseteq> T"
    using T Cons by (auto simp: clause_sigs_def)
  have "phi_tuple emp ?t ?negs = phi_tuple emp' ?t ?negs"
    if same: "\<forall>p \<in> set ps. length (ts_elems p) = length (ts_elems p0)"
  proof (rule phi_tuple_cong)
    have len: "length ?t = length (ts_elems p0)" using length_fold_tuple_meet [of ps ?first] same by simp
    show "set ?t \<subseteq> Q" by (rule fold_tuple_meet) (use sub child in auto)
    show "\<forall>m \<in> set ?negs. set m \<subseteq> Q \<and> length m = length ?t" using sub(2) child len by auto
    assume "?t \<noteq> []"
    then have "ts_elems p0 \<noteq> []" using len by auto
    then have "T \<noteq> {}" using sub(1) by (cases "ts_elems p0") auto
    then show "\<forall>e \<in> Q. emp e = emp' e" by (rule eq)
  qed
  then show ?thesis using Cons by (auto simp: tuple_clause_empty_def Let_def list_ex_iff)
qed (simp add: tuple_clause_empty_def)

primrec evidence_in :: "ElemEvidence \<Rightarrow> bool" where
  "evidence_in Unconstrained = True"
| "evidence_in EvidenceEmpty = True"
| "evidence_in (Inhabited d) \<longleftrightarrow> d \<in> Q"

lemma evidence_meet_cong:
  assumes "set_option o' \<subseteq> T" and "T \<noteq> {} \<Longrightarrow> \<forall>e \<in> Q. emp e = emp' e" and "evidence_in ev"
  shows "evidence_meet cx emp o' ev = evidence_meet cx emp' o' ev" and "evidence_in (evidence_meet cx emp o' ev)"
  using assms child meet by (cases o'; cases ev; auto simp: evidence_meet_def Let_def)+

lemma evidence_fold_cong:
  assumes "\<forall>p \<in> set ps. set_option (ls_elem p) \<subseteq> T" and "T \<noteq> {} \<Longrightarrow> \<forall>e \<in> Q. emp e = emp' e" and "evidence_in ev"
  shows "fold (\<lambda>p. evidence_meet cx emp (ls_elem p)) ps ev = fold (\<lambda>p. evidence_meet cx emp' (ls_elem p)) ps ev \<and>
    evidence_in (fold (\<lambda>p. evidence_meet cx emp (ls_elem p)) ps ev)"
  using assms
proof (induction ps arbitrary: ev)
  case (Cons p ps)
  have "set_option (ls_elem p) \<subseteq> T" using Cons.prems(1) by simp
  note e = evidence_meet_cong [OF this Cons.prems(2,3)]
  show ?case using Cons.IH [of "evidence_meet cx emp (ls_elem p) ev"] Cons.prems e by auto
qed simp

lemma list_minus_cong:
  assumes "\<forall>n \<in> set ns. set_option (ls_elem n) \<subseteq> T" and "T \<noteq> {} \<Longrightarrow> \<forall>e \<in> Q. emp e = emp' e" and "elem \<in> Q"
  shows "list_minus cx emp elem ns cuts = list_minus cx emp' elem ns cuts"
  using assms(1)
proof (induction ns arbitrary: cuts)
  case (Cons n ns)
  show ?case
  proof (cases "ls_elem n")
    case (Some t)
    with Cons.prems have t: "t \<in> T" by simp
    then have "\<forall>e \<in> Q. emp e = emp' e" using assms(2) by blast
    moreover have "Descr_intersect elem (cx ! t) \<in> Q" using meet child t assms(3) by blast
    moreover from this have "Descr_diff elem (Descr_intersect elem (cx ! t)) \<in> Q" using difference assms(3) by blast
    ultimately show ?thesis using Cons Some by (simp add: Let_def)
  qed (use Cons in simp)
qed simp

lemma list_denotation_cong:
  assumes T: "\<forall>s \<in> clause_sigs c. set_option (ls_elem s) \<subseteq> T" and eq: "T \<noteq> {} \<Longrightarrow> \<forall>e \<in> Q. emp e = emp' e"
  shows "list_denotation cx emp c = list_denotation cx emp' c"
proof -
  have pos: "\<forall>p \<in> set (conj_pos c). set_option (ls_elem p) \<subseteq> T" and neg: "\<forall>n \<in> set (conj_neg c). set_option (ls_elem n) \<subseteq> T"
    using T by (auto simp: clause_sigs_def)
  note ev = evidence_fold_cong [OF pos eq, of Unconstrained]
  let ?ev = "fold (\<lambda>p. evidence_meet cx emp (ls_elem p)) (conj_pos c) Unconstrained"
  have "elem \<in> Q" if "evidence_fragment ?ev = Some elem" for elem
    using that ev full by (cases ?ev) auto
  then have "list_minus cx emp elem (conj_neg c) [] = list_minus cx emp' elem (conj_neg c) []"
    if "evidence_fragment ?ev = Some elem" for elem
    using that list_minus_cong [OF neg eq, of elem "[]"] by blast
  then show ?thesis using ev unfolding list_denotation_def Let_def by (auto split: option.split)
qed

lemma resource_clause_cong:
  assumes T: "\<forall>s \<in> clause_sigs c. rs_payload s \<in> T" and eq: "T \<noteq> {} \<Longrightarrow> \<forall>e \<in> Q. emp e = emp' e"
  shows "resource_clause_empty cx emp c = resource_clause_empty cx emp' c"
proof -
  have pos: "\<forall>p \<in> set (conj_pos c). rs_payload p \<in> T" and neg: "\<forall>n \<in> set (conj_neg c). rs_payload n \<in> T"
    using T by (auto simp: clause_sigs_def)
  have payload: "fold (\<lambda>p d. Descr_intersect d (cx ! rs_payload p)) ps d \<in> Q"
    if "\<forall>p \<in> set ps. rs_payload p \<in> T" "d \<in> Q" for ps d
    using that by (induction ps arbitrary: d) (simp_all add: meet child)
  have cut: "list_ex (\<lambda>n. emp (Descr_diff d (cx ! rs_payload n))) (conj_neg c) =
      list_ex (\<lambda>n. emp' (Descr_diff d (cx ! rs_payload n))) (conj_neg c)" if "d \<in> Q" for d
  proof (rule list_ex_cong [OF refl])
    fix n assume "n \<in> set (conj_neg c)"
    then have n: "rs_payload n \<in> T" using neg by blast
    then show "emp (Descr_diff d (cx ! rs_payload n)) = emp' (Descr_diff d (cx ! rs_payload n))"
      using eq difference [OF that child [OF n]] by blast
  qed
  show ?thesis
  proof (cases "conj_pos c")
    case Nil
    then show ?thesis using cut [OF full] by (simp add: resource_clause_empty_def)
  next
    case (Cons p0 ps)
    let ?d = "fold (\<lambda>p d. Descr_intersect d (cx ! rs_payload p)) ps (cx ! rs_payload p0)"
    have "?d \<in> Q" using payload [of ps] pos Cons child by auto
    moreover have "\<forall>e \<in> Q. emp e = emp' e" using eq pos Cons by auto
    ultimately show ?thesis using Cons cut [of ?d] by (simp add: resource_clause_empty_def Let_def)
  qed
qed

lemma merge_fields_family:
  assumes "ran (ms_fields p) \<subseteq> T" and "ran merged \<subseteq> Q"
  shows "ran (merge_fields cx p merged) \<subseteq> Q"
proof
  fix d assume "d \<in> ran (merge_fields cx p merged)"
  then obtain k where k: "merge_fields cx p merged k = Some d" by (auto simp: ran_def)
  have m: "e \<in> Q" if "merged k = Some e" for e using that assms(2) by (auto simp: ran_def)
  have c: "cx ! v \<in> Q" if "ms_fields p k = Some v" for v by (rule child) (use that assms(1) in \<open>auto simp: ran_def\<close>)
  show "d \<in> Q"
    using k m c meet by (cases "ms_fields p k"; cases "merged k") (auto simp: merge_fields_def)
qed

lemma fold_merge_fields_family:
  "\<forall>p \<in> set ps. ran (ms_fields p) \<subseteq> T \<Longrightarrow> ran merged \<subseteq> Q \<Longrightarrow> ran (fold (merge_fields cx) ps merged) \<subseteq> Q"
  by (induction ps arbitrary: merged) (simp_all add: merge_fields_family)

lemma map_clause_cong:
  assumes T: "\<forall>s \<in> clause_sigs c. ran (ms_fields s) \<subseteq> T" and eq: "T \<noteq> {} \<Longrightarrow> \<forall>e \<in> Q. emp e = emp' e"
  shows "map_clause_empty cx emp c = map_clause_empty cx emp' c"
proof (cases "conj_pos c")
  case (Cons p0 ps)
  have pos: "\<forall>p \<in> set (p0 # ps). ran (ms_fields p) \<subseteq> T" and neg: "\<forall>n \<in> set (conj_neg c). ran (ms_fields n) \<subseteq> T"
    using T Cons by (auto simp: clause_sigs_def)
  let ?merged = "fold (merge_fields cx) ps (\<lambda>k. map_option (\<lambda>ty. cx ! ty) (ms_fields p0 k))"
  have "cx ! t \<in> Q" if "ms_fields p0 k = Some t" for k t
    by (rule child) (use that pos in \<open>auto simp: ran_def\<close>)
  then have "ran (\<lambda>k. map_option (\<lambda>ty. cx ! ty) (ms_fields p0 k)) \<subseteq> Q" by (auto simp: ran_def)
  then have "ran ?merged \<subseteq> Q" using pos by (intro fold_merge_fields_family) auto
  then have mem: "d \<in> Q" if "?merged k = Some d" for k d using that by (auto simp: ran_def)
  show ?thesis
  proof (cases "T = {}")
    case False
    then have eq': "emp e = emp' e" if "e \<in> Q" for e using eq that by blast
    have "(\<exists>k \<in> dom ?merged. emp (the (?merged k))) = (\<exists>k \<in> dom ?merged. emp' (the (?merged k)))"
      using eq' mem by (auto simp: dom_def)
    moreover have "(\<forall>k \<in> dom (ms_fields n). case ?merged k of None \<Rightarrow> False
         | Some pv \<Rightarrow> emp (Descr_diff pv (cx ! the (ms_fields n k)))) =
       (\<forall>k \<in> dom (ms_fields n). case ?merged k of None \<Rightarrow> False
         | Some pv \<Rightarrow> emp' (Descr_diff pv (cx ! the (ms_fields n k))))" if n: "n \<in> set (conj_neg c)" for n
    proof (rule ball_cong [OF refl])
      fix k assume "k \<in> dom (ms_fields n)"
      then have "cx ! the (ms_fields n k) \<in> Q" using neg n by (intro child) (force simp: ran_def)
      then show "(case ?merged k of None \<Rightarrow> False | Some pv \<Rightarrow> emp (Descr_diff pv (cx ! the (ms_fields n k)))) =
          (case ?merged k of None \<Rightarrow> False | Some pv \<Rightarrow> emp' (Descr_diff pv (cx ! the (ms_fields n k))))"
        using mem [of k] eq' difference by (auto split: option.split)
    qed
    ultimately show ?thesis using Cons by (simp add: map_clause_empty_def Let_def cong: list_ex_cong conj_cong)
  next
    case True
    then have e: "ms_fields p = Map.empty" if "p \<in> set (p0 # ps) \<union> set (conj_neg c)" for p
      using pos neg that by (auto simp: ran_def) (metis option.exhaust)+
    have "fold (merge_fields cx) qs Map.empty = Map.empty" if "\<forall>q \<in> set qs. ms_fields q = Map.empty" for qs
      using that by (induction qs) (simp_all add: merge_fields_def)
    from this [of ps] e have "?merged = Map.empty" by simp
    then show ?thesis using Cons e by (simp add: map_clause_empty_def Let_def cong: list_ex_cong)
  qed
qed (simp add: map_clause_empty_def)

lemma mask_sides_family:
  assumes "\<forall>p \<in> set ps. ar_ret p \<in> T"
  shows "snd (mask_sides cx ps picked) \<in> Q"
proof -
  have "snd (fold (\<lambda>(i, pi) (union_in, inter_out).
       if mask_picks picked i then (Descr_union union_in (arrow_input pi), inter_out)
       else (union_in, Descr_intersect inter_out (cx ! ar_ret pi))) es (u, d)) \<in> Q"
    if "\<forall>e \<in> set es. ar_ret (snd e) \<in> T" "d \<in> Q" for es u d
    using that by (induction es arbitrary: u d) (auto simp: meet child)
  moreover have "\<forall>e \<in> set (enumerate 0 ps). ar_ret (snd e) \<in> T" using assms by (auto simp: in_set_enumerate_eq)
  ultimately show ?thesis using full by (auto simp: mask_sides_def)
qed

lemma func_clause_cong:
  assumes T: "\<forall>s \<in> clause_sigs c. ar_ret s \<in> T \<and> (\<forall>l. ar_lit s = Some l \<longrightarrow> set (cl_captures l) \<subseteq> T)"
    and eq: "T \<noteq> {} \<Longrightarrow> \<forall>e \<in> Q. emp e = emp' e"
    and inputs: "\<And>n picked. n \<in> set (conj_neg c) \<Longrightarrow>
      emp (Descr_diff (arrow_input n) (fst (mask_sides cx (conj_pos c) picked))) =
      emp' (Descr_diff (arrow_input n) (fst (mask_sides cx (conj_pos c) picked)))"
  shows "func_clause_empty cx emp c = func_clause_empty cx emp' c"
proof -
  let ?p = "conj_pos c" and ?n = "conj_neg c"
  have caps: "t \<in> set (cl_captures l) \<Longrightarrow> cx ! t \<in> Q \<and> T \<noteq> {}" if "l \<in> set (List.map_filter ar_lit ?p) \<union> set (List.map_filter ar_lit ?n)" for l t
    using that T child by (fastforce simp: map_filter_def clause_sigs_def)
  have q: "emp e = emp' e" if "e \<in> Q" "T \<noteq> {}" for e using eq that by blast
  have 1: "list_ex (\<lambda>l. list_ex (\<lambda>ty. emp (cx ! ty)) (cl_captures l)) (List.map_filter ar_lit ?p) =
      list_ex (\<lambda>l. list_ex (\<lambda>ty. emp' (cx ! ty)) (cl_captures l)) (List.map_filter ar_lit ?p)"
    by (intro list_ex_cong refl) (use caps q in blast)
  have clash: "closure_lits_clash cx emp a b = closure_lits_clash cx emp' a b"
    if "a \<in> set (List.map_filter ar_lit ?p)" "b \<in> set (List.map_filter ar_lit ?p)" for a b
  proof -
    have "list_ex (\<lambda>(x, y). emp (Descr_intersect (cx ! x) (cx ! y))) (zip (cl_captures a) (cl_captures b)) =
        list_ex (\<lambda>(x, y). emp' (Descr_intersect (cx ! x) (cx ! y))) (zip (cl_captures a) (cl_captures b))"
    proof (intro list_ex_cong refl)
      fix z assume "z \<in> set (zip (cl_captures a) (cl_captures b))"
      then obtain x y where z: "z = (x, y)" "x \<in> set (cl_captures a)" "y \<in> set (cl_captures b)"
        by (metis set_zip_leftD set_zip_rightD surj_pair)
      have "cx ! x \<in> Q" "cx ! y \<in> Q" "T \<noteq> {}" using caps [of a x] caps [of b y] that z by auto
      then show "(case z of (x, y) \<Rightarrow> emp (Descr_intersect (cx ! x) (cx ! y))) =
          (case z of (x, y) \<Rightarrow> emp' (Descr_intersect (cx ! x) (cx ! y)))" using q meet z(1) by simp
    qed
    then show ?thesis by (simp add: closure_lits_clash_def)
  qed
  have 2: "any_pair (closure_lits_clash cx emp) ls = any_pair (closure_lits_clash cx emp') ls"
    if "set ls \<subseteq> set (List.map_filter ar_lit ?p)" for ls
    using that clash by (induction ls) (auto simp: list_ex_iff subset_iff)
  have 3: "neg_lit_covers cx emp nl p = neg_lit_covers cx emp' nl p"
    if "nl \<in> set (List.map_filter ar_lit ?n)" "p \<in> set ?p" for nl p
  proof (cases "ar_lit p")
    case (Some pl)
    then have pl: "pl \<in> set (List.map_filter ar_lit ?p)" using that by (force simp: map_filter_def)
    have "list_all (\<lambda>(pc, nc). emp (Descr_diff (cx ! pc) (cx ! nc))) (zip (cl_captures pl) (cl_captures nl)) =
        list_all (\<lambda>(pc, nc). emp' (Descr_diff (cx ! pc) (cx ! nc))) (zip (cl_captures pl) (cl_captures nl))"
    proof (intro list_all_cong refl)
      fix z assume "z \<in> set (zip (cl_captures pl) (cl_captures nl))"
      then obtain x y where z: "z = (x, y)" "x \<in> set (cl_captures pl)" "y \<in> set (cl_captures nl)"
        by (metis set_zip_leftD set_zip_rightD surj_pair)
      have "cx ! x \<in> Q" "cx ! y \<in> Q" "T \<noteq> {}" using caps [of pl x] caps [of nl y] that pl z by auto
      then show "(case z of (x, y) \<Rightarrow> emp (Descr_diff (cx ! x) (cx ! y))) =
          (case z of (x, y) \<Rightarrow> emp' (Descr_diff (cx ! x) (cx ! y)))" using q difference z(1) by simp
    qed
    then show ?thesis using Some by (simp add: neg_lit_covers_def)
  qed (simp add: neg_lit_covers_def)
  have 4: "arrow_covered cx emp ?p n = arrow_covered cx emp' ?p n" if n: "n \<in> set ?n" for n
  proof -
    have "ar_ret n \<in> T" "\<forall>p \<in> set ?p. ar_ret p \<in> T" using T n by (auto simp: clause_sigs_def)
    then have "emp (Descr_diff (snd (mask_sides cx ?p m)) (cx ! ar_ret n)) = emp' (Descr_diff (snd (mask_sides cx ?p m)) (cx ! ar_ret n))" for m
      using q mask_sides_family difference child by blast
    then show ?thesis using inputs [OF n] by (simp add: arrow_covered_def case_prod_beta)
  qed
  have "list_ex (\<lambda>nl. list_ex (neg_lit_covers cx emp nl) ?p) (List.map_filter ar_lit ?n) =
      list_ex (\<lambda>nl. list_ex (neg_lit_covers cx emp' nl) ?p) (List.map_filter ar_lit ?n)"
    by (intro list_ex_cong refl) (rule 3)
  moreover have "list_ex (arrow_covered cx emp ?p) (filter (\<lambda>n. ar_lit n = None) ?n) =
      list_ex (arrow_covered cx emp' ?p) (filter (\<lambda>n. ar_lit n = None) ?n)"
    by (intro list_ex_cong refl) (simp add: 4)
  ultimately show ?thesis unfolding func_clause_empty_def Let_def 1 2 [OF subset_refl] by simp
qed

end

section \<open>The types a result mentions\<close>

lemma UN_split: "A \<subseteq> B \<union> C \<Longrightarrow> (\<Union>s \<in> A. f s) \<subseteq> (\<Union>s \<in> B. f s) \<union> (\<Union>s \<in> C. f s)"
  by blast

lemma image_split: "A \<subseteq> B \<union> C \<Longrightarrow> f ` A \<subseteq> f ` B \<union> f ` C"
  by blast

lemma Un_shuffle:
  "A \<subseteq> A1 \<union> A2 \<Longrightarrow> B \<subseteq> B1 \<union> B2 \<Longrightarrow> C \<subseteq> C1 \<union> C2 \<Longrightarrow> D \<subseteq> D1 \<union> D2 \<Longrightarrow> E \<subseteq> E1 \<union> E2 \<Longrightarrow>
   A \<union> B \<union> C \<union> D \<union> E \<subseteq> (A1 \<union> B1 \<union> C1 \<union> D1 \<union> E1) \<union> (A2 \<union> B2 \<union> C2 \<union> D2 \<union> E2)"
  by blast

lemma Descr_tys_intersect: "Descr_tys (Descr_intersect a b) \<subseteq> Descr_tys a \<union> Descr_tys b"
  unfolding Descr_tys_def Descr_intersect_def Descr.simps
  by (rule Un_shuffle; (rule UN_split | rule image_split); rule dnf_sigs_intersect)

lemma Descr_tys_neg_structure: "Descr_tys (neg_structure d) \<subseteq> Descr_tys d"
  unfolding Descr_tys_def neg_structure_def Descr.simps
  by (intro Un_mono UN_mono image_mono dnf_sigs_neg order_refl)

lemma Descr_tys_brands [simp]: "Descr_tys (d\<lparr>d_brands := B\<rparr>) = Descr_tys d"
  by (simp add: Descr_tys_def)

lemma Descr_tys_diff: "Descr_tys (Descr_diff a b) \<subseteq> Descr_tys a \<union> Descr_tys b"
  using Descr_tys_intersect [of a "neg_structure b"] Descr_tys_neg_structure [of b] by (auto simp: Descr_diff_def)

lemma Descr_tys_constants [simp]:
  "Descr_tys Descr_any = {}" "Descr_tys Descr_none = {}" "Descr_tys (arrow_input s) = set (ar_args s)"
  by (simp_all add: Descr_tys_def Descr_any_def Descr_none_def arrow_input_def tuple_of_def Descr_unbranded_def)

lemma Descr_tys_union: "Descr_tys (Descr_union a b) \<subseteq> Descr_tys a \<union> Descr_tys b"
  by (auto simp: Descr_union_def) (auto simp: Descr_tys_def)

definition below :: "Descr list \<Rightarrow> Descr \<Rightarrow> Descr set" where
  "below cx d = {e. Descr_tys e \<subseteq> (\<Union>t \<in> Descr_tys d. Descr_tys (cx ! t))}"

interpretation qf: query_family cx "Descr_tys d" "below cx d" for cx d
  by unfold_locales (use Descr_tys_intersect Descr_tys_diff in \<open>fastforce simp: below_def\<close>)+

definition input_queries :: "Descr list \<Rightarrow> Descr \<Rightarrow> Descr set" where
  "input_queries cx d = {Descr_diff (arrow_input n) (fst (mask_sides cx (conj_pos c) m)) | c n m.
     c \<in> set (d_funcs d) \<and> n \<in> set (conj_neg c)}"

text \<open>A property of descriptors that the domain of some arrows inherits from its parts.\<close>

lemma mask_sides_domain:
  assumes "P Descr_none" and "\<And>a p. P a \<Longrightarrow> p \<in> set ps \<Longrightarrow> P (Descr_union a (arrow_input p))"
  shows "P (fst (mask_sides cx ps m))"
proof -
  have "P (fst (fold (\<lambda>(i, pi) (union_in, inter_out).
       if mask_picks m i then (Descr_union union_in (arrow_input pi), inter_out)
       else (union_in, Descr_intersect inter_out (cx ! ar_ret pi))) es (u, d)))"
    if "\<forall>e \<in> set es. snd e \<in> set ps" "P u" for es u d
    using that by (induction es arbitrary: u d) (auto simp: assms(2))
  moreover have "\<forall>e \<in> set (enumerate 0 ps). snd e \<in> set ps" by (auto simp: in_set_enumerate_eq)
  ultimately show ?thesis using assms(1) by (simp add: mask_sides_def)
qed

lemma dnf_sigs_mem: "c \<in> set d \<Longrightarrow> s \<in> clause_sigs c \<Longrightarrow> s \<in> dnf_sigs d"
  by (auto simp: dnf_sigs_def)

lemma arrow_tys:
  assumes "s \<in> dnf_sigs (d_funcs d)"
  shows "set (ar_args s) \<subseteq> Descr_tys d" and "ar_ret s \<in> Descr_tys d" and "ar_lit s = Some l \<Longrightarrow> set (cl_captures l) \<subseteq> Descr_tys d"
proof -
  have "set (ar_args s) \<union> {ar_ret s} \<union> (case ar_lit s of None \<Rightarrow> {} | Some l \<Rightarrow> set (cl_captures l)) \<subseteq> Descr_tys d"
    unfolding Descr_tys_def using assms by blast
  then show "set (ar_args s) \<subseteq> Descr_tys d" "ar_ret s \<in> Descr_tys d" "ar_lit s = Some l \<Longrightarrow> set (cl_captures l) \<subseteq> Descr_tys d"
    by (auto split: option.splits)
qed

lemma input_queries_light:
  assumes "e \<in> input_queries cx d"
  shows "Descr_tys e \<subseteq> Descr_tys d" and "d_funcs e = []" and "d_funcs d \<noteq> []"
proof -
  obtain c n m where e: "e = Descr_diff (arrow_input n) (fst (mask_sides cx (conj_pos c) m))"
    and c: "c \<in> set (d_funcs d)" "n \<in> set (conj_neg c)" using assms by (auto simp: input_queries_def)
  have args: "set (ar_args s) \<subseteq> Descr_tys d" if "s \<in> clause_sigs c" for s
    by (rule arrow_tys(1) [OF dnf_sigs_mem [OF c(1) that]])
  have "Descr_tys (fst (mask_sides cx (conj_pos c) m)) \<subseteq> Descr_tys d"
  proof (rule mask_sides_domain [of "\<lambda>u. Descr_tys u \<subseteq> Descr_tys d"])
    fix a p assume "Descr_tys a \<subseteq> Descr_tys d" "p \<in> set (conj_pos c)"
    then show "Descr_tys (Descr_union a (arrow_input p)) \<subseteq> Descr_tys d"
      using Descr_tys_union [of a "arrow_input p"] args [of p] by (auto simp: clause_sigs_def)
  qed simp
  then show "Descr_tys e \<subseteq> Descr_tys d"
    using Descr_tys_diff [of "arrow_input n"] args [of n] c(2) unfolding e by (fastforce simp: clause_sigs_def)
  show "d_funcs d \<noteq> []" using c(1) by auto
  show "d_funcs e = []"
    unfolding e by (simp add: Descr_diff_def Descr_intersect_def arrow_input_def tuple_of_def Descr_unbranded_def Descr_none_def)
qed

section \<open>The guard of the recursion\<close>

definition emptiness_test :: "Descr list \<Rightarrow> (Descr \<Rightarrow> bool) \<Rightarrow> Descr \<Rightarrow> bool" where
  "emptiness_test cx emp d \<longleftrightarrow> FiniteSet_is_none (d_brands d) \<or>
     BasicBits_is_empty (d_basic d) \<and> FiniteSet_is_none (d_atoms d) \<and> FiniteSet_is_none (d_opaques d) \<and>
     FiniteSet_is_none (d_vars d) \<and>
     list_all (tuple_clause_empty cx emp) (d_tuples d) \<and> list_all (list_clause_empty cx emp) (d_lists d) \<and>
     list_all (resource_clause_empty cx emp) (d_resources d) \<and> list_all (func_clause_empty cx emp) (d_funcs d) \<and>
     list_all (map_clause_empty cx emp) (d_maps d)"

lemma is_empty_memo_test:
  "is_empty_memo cx F d \<longleftrightarrow> d \<in> F \<or>
     emptiness_test cx (\<lambda>e. if weight e < weight d then is_empty_memo cx (insert d F) e else False) d"
  unfolding emptiness_test_def by (subst is_empty_memo.simps) simp

lemma emptiness_test_cong:
  assumes fam: "query_family cx (Descr_tys d) Q" and eq: "Descr_tys d \<noteq> {} \<Longrightarrow> \<forall>e \<in> Q. emp e = emp' e"
    and inp: "\<forall>e \<in> input_queries cx d. emp e = emp' e"
  shows "emptiness_test cx emp d = emptiness_test cx emp' d"
proof -
  have tys: "s \<in> dnf_sigs (d_tuples d) \<Longrightarrow> set (ts_elems s) \<subseteq> Descr_tys d"
    "s' \<in> dnf_sigs (d_lists d) \<Longrightarrow> set_option (ls_elem s') \<subseteq> Descr_tys d"
    "r \<in> dnf_sigs (d_resources d) \<Longrightarrow> rs_payload r \<in> Descr_tys d"
    "m \<in> dnf_sigs (d_maps d) \<Longrightarrow> ran (ms_fields m) \<subseteq> Descr_tys d" for s s' r m
    unfolding Descr_tys_def by blast+
  have "tuple_clause_empty cx emp c = tuple_clause_empty cx emp' c" if "c \<in> set (d_tuples d)" for c
    by (rule query_family.tuple_clause_cong [OF fam _ eq]) (intro ballI tys(1) dnf_sigs_mem [OF that])
  then have "list_all (tuple_clause_empty cx emp) (d_tuples d) = list_all (tuple_clause_empty cx emp') (d_tuples d)"
    by (rule list_all_cong [OF refl])
  moreover have "list_clause_empty cx emp c = list_clause_empty cx emp' c" if "c \<in> set (d_lists d)" for c
    unfolding list_clause_empty_def
    by (subst query_family.list_denotation_cong [OF fam _ eq]) (intro ballI tys(2) dnf_sigs_mem [OF that], simp_all)
  then have "list_all (list_clause_empty cx emp) (d_lists d) = list_all (list_clause_empty cx emp') (d_lists d)"
    by (rule list_all_cong [OF refl])
  moreover have "resource_clause_empty cx emp c = resource_clause_empty cx emp' c" if "c \<in> set (d_resources d)" for c
    by (rule query_family.resource_clause_cong [OF fam _ eq]) (intro ballI tys(3) dnf_sigs_mem [OF that])
  then have "list_all (resource_clause_empty cx emp) (d_resources d) = list_all (resource_clause_empty cx emp') (d_resources d)"
    by (rule list_all_cong [OF refl])
  moreover have "func_clause_empty cx emp c = func_clause_empty cx emp' c" if c: "c \<in> set (d_funcs d)" for c
  proof (rule query_family.func_clause_cong [OF fam _ eq])
    show "\<forall>s \<in> clause_sigs c. ar_ret s \<in> Descr_tys d \<and> (\<forall>l. ar_lit s = Some l \<longrightarrow> set (cl_captures l) \<subseteq> Descr_tys d)"
      using arrow_tys(2,3) [OF dnf_sigs_mem [OF c]] by blast
  qed (use inp c in \<open>auto simp: input_queries_def\<close>)
  then have "list_all (func_clause_empty cx emp) (d_funcs d) = list_all (func_clause_empty cx emp') (d_funcs d)"
    by (rule list_all_cong [OF refl])
  moreover have "map_clause_empty cx emp c = map_clause_empty cx emp' c" if "c \<in> set (d_maps d)" for c
    by (rule query_family.map_clause_cong [OF fam _ eq]) (intro ballI tys(4) dnf_sigs_mem [OF that])
  then have "list_all (map_clause_empty cx emp) (d_maps d) = list_all (map_clause_empty cx emp') (d_maps d)"
    by (rule list_all_cong [OF refl])
  ultimately show ?thesis by (simp add: emptiness_test_def)
qed

text \<open>An interned arena: each descriptor names earlier entries only.\<close>

definition arena_wf :: "Descr list \<Rightarrow> bool" where
  "arena_wf cx \<longleftrightarrow> (\<forall>i < length cx. Descr_tys (cx ! i) \<subseteq> {..<i})"

definition descr_valid :: "Descr list \<Rightarrow> Descr \<Rightarrow> bool" where
  "descr_valid cx d \<longleftrightarrow> Descr_tys d \<subseteq> {..<length cx}"

lemma weight_below:
  assumes "arena_wf cx" and "descr_valid cx d" and "e \<in> below cx d" and "Descr_tys d \<noteq> {}"
  shows "weight e < weight d"
proof -
  have fin: "finite (Descr_tys d)" using assms(2) finite_subset by (auto simp: descr_valid_def)
  have "t < Max (Descr_tys d)" if t: "t \<in> Descr_tys e" for t
  proof -
    obtain u where u: "u \<in> Descr_tys d" "t \<in> Descr_tys (cx ! u)" using assms(3) t by (auto simp: below_def)
    then have "t < u" using assms(1,2) by (auto simp: arena_wf_def descr_valid_def)
    also have "u \<le> Max (Descr_tys d)" using fin u(1) by simp
    finally show ?thesis .
  qed
  then have "Descr_tys e \<noteq> {} \<Longrightarrow> Max (Descr_tys e) < Max (Descr_tys d)"
    using finite_subset [of "Descr_tys e" "{..<Max (Descr_tys d)}"] by (auto intro: Max_less_iff [THEN iffD2])
  then show ?thesis using assms(4) by (cases "Descr_tys e = {}") (auto simp: weight_def)
qed

lemma weight_input:
  assumes "descr_valid cx d" and "e \<in> input_queries cx d"
  shows "weight e < weight d"
proof -
  have fin: "finite (Descr_tys d)" using assms(1) finite_subset by (auto simp: descr_valid_def)
  note l = input_queries_light [OF assms(2)]
  have "Descr_tys e \<noteq> {} \<Longrightarrow> Max (Descr_tys e) \<le> Max (Descr_tys d)" using fin l(1) by (rule_tac Max_mono) auto
  then show ?thesis using l by (cases "Descr_tys e = {}") (auto simp: weight_def)
qed

lemma is_empty_memo_interned:
  assumes "arena_wf cx" and "descr_valid cx d"
  shows "is_empty_memo cx F d \<longleftrightarrow> d \<in> F \<or> emptiness_test cx (is_empty_memo cx (insert d F)) d"
proof -
  have "emptiness_test cx (\<lambda>e. if weight e < weight d then is_empty_memo cx (insert d F) e else False) d =
      emptiness_test cx (is_empty_memo cx (insert d F)) d"
    by (rule emptiness_test_cong [OF qf.query_family_axioms])
      (use weight_below [OF assms] weight_input [OF assms(2)] in auto)
  then show ?thesis by (simp add: is_empty_memo_test [of cx F d])
qed

section \<open>Arrows\<close>

lemma subset_code: "\<exists>m::nat < 2 ^ n. \<forall>i < n. odd (m div 2 ^ i) \<longleftrightarrow> P i"
proof (induction n arbitrary: P)
  case (Suc n)
  obtain m :: nat where m: "m < 2 ^ n" "\<forall>i < n. odd (m div 2 ^ i) \<longleftrightarrow> P (Suc i)" using Suc [of "P \<circ> Suc"] by auto
  let ?m = "of_bool (P 0) + 2 * m"
  have "odd (?m div 2 ^ i) \<longleftrightarrow> P i" if "i < Suc n" for i
    using that m(2) by (cases i) (auto simp: div_mult2_eq)
  moreover have "?m < 2 ^ Suc n" using m(1) by auto
  ultimately show ?case by blast
qed simp

text \<open>Below 32 arrows the mask counts every subset of them.\<close>

lemma mask_code:
  assumes "n < 32"
  shows "\<exists>m \<in> set (map word_of_nat [0..<unat (mask_end n)]). \<forall>i < n. mask_picks m i \<longleftrightarrow> P i"
proof -
  obtain m :: nat where m: "m < 2 ^ n" "\<forall>i < n. odd (m div 2 ^ i) \<longleftrightarrow> P i"
    using subset_code by blast
  have "unat (mask_end n) = 2 ^ n"
    using assms unsigned_push_bit_eq [where 'a = nat and n = n and w = "1 :: 32 word"] power_strict_increasing [of n 32 "2 :: nat"]
    by (simp add: mask_end_def take_bit_eq_mod)
  moreover have "mask_picks (word_of_nat m) i \<longleftrightarrow> odd (m div 2 ^ i)" if "i < n" for i
    using that assms bit_iff_odd [of m i] by (simp add: mask_picks_def bit_drop_bit_eq bit_of_nat_iff del: bit_0)
  ultimately show ?thesis
    using m by (auto intro!: bexI [of _ m])
qed

lemma den_arrow_input:
  "den arr cx (arrow_input s) v \<longleftrightarrow> (\<exists>xs. val_shape v = STuple xs \<and> tuple_sat arr cx \<lparr>ts_elems = ar_args s\<rparr> xs)"
  unfolding den_shape
  by (cases "val_shape v")
    (simp_all add: arrow_input_def tuple_of_def Descr_unbranded_def Descr_none_def dnf_holds_def clause_holds_def
      Conj_pos_of_def)

lemma looks_empty_none: "looks_empty Descr_none"
  by (simp add: looks_empty_def Descr_none_def FiniteSet_is_none_def FiniteSet_none_def)

lemma brands_input: "d_brands (arrow_input p) = FiniteSet_any"
  by (simp add: arrow_input_def tuple_of_def Descr_unbranded_def)

lemma union_input:
  assumes "u = Descr_none \<or> d_brands u = FiniteSet_any"
  shows "Descr_union u (arrow_input p) = Descr_none \<or> d_brands (Descr_union u (arrow_input p)) = FiniteSet_any"
    and "den arr cx (Descr_union u (arrow_input p)) v \<longleftrightarrow> den arr cx u v \<or> den arr cx (arrow_input p) v"
  using assms looks_empty_none brands_input [of p] den_union_exact [of u "arrow_input p" arr cx v]
  by (auto simp: Descr_union_def FiniteSet_union_def FiniteSet_any_def FiniteSet_cofinite_def)

lemma domain_brands: "fst (mask_sides cx ps m) = Descr_none \<or> d_brands (fst (mask_sides cx ps m)) = FiniteSet_any"
  by (rule mask_sides_domain) (simp_all add: union_input(1))

text \<open>The two sides of a mask, read off its bits.\<close>

lemma den_mask_sides:
  fixes arr cx
  defines "step \<equiv> \<lambda>m (i, pi) (union_in, inter_out).
       if mask_picks m i then (Descr_union union_in (arrow_input pi), inter_out)
       else (union_in, Descr_intersect inter_out (cx ! ar_ret pi))"
  assumes "u = Descr_none \<or> d_brands u = FiniteSet_any"
  shows "den arr cx (fst (fold (step m) es (u, d))) v \<longleftrightarrow>
      den arr cx u v \<or> (\<exists>(i, p) \<in> set es. mask_picks m i \<and> den arr cx (arrow_input p) v)"
    and "den arr cx (snd (fold (step m) es (u, d))) v \<longleftrightarrow>
      den arr cx d v \<and> (\<forall>(i, p) \<in> set es. \<not> mask_picks m i \<longrightarrow> den arr cx (cx ! ar_ret p) v)"
proof -
  show "den arr cx (fst (fold (step m) es (u, d))) v \<longleftrightarrow>
      den arr cx u v \<or> (\<exists>(i, p) \<in> set es. mask_picks m i \<and> den arr cx (arrow_input p) v)"
    using assms(2)
  proof (induction es arbitrary: u d)
    case (Cons e es)
    obtain i p where e: "e = (i, p)" by fastforce
    show ?case
      using Cons.IH [OF union_input(1) [OF Cons.prems, of p], of d] Cons.IH [OF Cons.prems, of "Descr_intersect d (cx ! ar_ret p)"]
        union_input(2) [OF Cons.prems, of arr cx p v] e by (auto simp: step_def)
  qed simp
  show "den arr cx (snd (fold (step m) es (u, d))) v \<longleftrightarrow>
      den arr cx d v \<and> (\<forall>(i, p) \<in> set es. \<not> mask_picks m i \<longrightarrow> den arr cx (cx ! ar_ret p) v)"
  proof (induction es arbitrary: u d)
    case (Cons e es)
    then show ?case by (cases e) (auto simp: step_def)
  qed simp
qed

lemma den_mask_domain:
  "den arr cx (fst (mask_sides cx ps m)) v \<longleftrightarrow> (\<exists>i < length ps. mask_picks m i \<and> den arr cx (arrow_input (ps ! i)) v)"
  unfolding mask_sides_def using den_mask_sides(1) [of Descr_none arr cx m "enumerate 0 ps" Descr_any v]
  by (auto simp: in_set_enumerate_eq Bex_def)

lemma den_mask_result:
  "den arr cx (snd (mask_sides cx ps m)) v \<longleftrightarrow> (\<forall>i < length ps. \<not> mask_picks m i \<longrightarrow> den arr cx (cx ! ar_ret (ps ! i)) v)"
  unfolding mask_sides_def using den_mask_sides(2) [of Descr_none arr cx m "enumerate 0 ps" Descr_any v]
  by (auto simp: in_set_enumerate_eq Ball_def)

context sound_emptiness
begin

lemma arrow_covered_sound:
  assumes "arrow_covered cx emp ps n" and "\<forall>p \<in> set ps. arrow_sat arr cx p (f, graph)" and "ar_lit n = None"
    and few: "length ps < 32"
  shows "arrow_sat arr cx n (f, graph)"
proof -
  have "den arr cx (cx ! ar_ret n) (snd e)"
    if e: "e \<in> set graph" "tuple_sat arr cx \<lparr>ts_elems = ar_args n\<rparr> (fst e)" for e
  proof -
    let ?in = "\<lambda>p. tuple_sat arr cx \<lparr>ts_elems = ar_args p\<rparr> (fst e)"
    let ?v = "Val None (STuple (fst e))"
    obtain m where m: "m \<in> set (map word_of_nat [0..<unat (mask_end (length ps))])"
      "\<forall>i < length ps. mask_picks m i \<longleftrightarrow> \<not> ?in (ps ! i)"
      using mask_code [OF few, of "\<lambda>i. \<not> ?in (ps ! i)"] by blast
    have "den arr cx (Descr_diff (arrow_input n) (fst (mask_sides cx ps m))) ?v"
      by (rule den_diff_lower) (use e(2) m(2) in \<open>auto simp: den_arrow_input den_mask_domain\<close>)
    then have "\<not> emp (Descr_diff (arrow_input n) (fst (mask_sides cx ps m)))" using emp_sound by blast
    then have out: "emp (Descr_diff (snd (mask_sides cx ps m)) (cx ! ar_ret n))"
      using assms(1) m(1) unfolding arrow_covered_def list_all_iff case_prod_beta Let_def by blast
    have "den arr cx (snd (mask_sides cx ps m)) (snd e)"
      using m(2) assms(2) e(1) nth_mem by (fastforce simp: den_mask_result arrow_sat_def)
    then show ?thesis using emp_sound [OF out] den_diff_lower by blast
  qed
  then show ?thesis using assms(3) by (simp add: arrow_sat_def)
qed

lemma func_clause_sound:
  assumes "func_clause_empty cx emp c" and "\<forall>s \<in> clause_sigs c. ar_lit s = None" and "length (conj_pos c) < 32"
  shows "\<not> clause_holds (arrow_sat arr cx) c (f, graph)"
proof
  assume holds: "clause_holds (arrow_sat arr cx) c (f, graph)"
  have none: "List.map_filter ar_lit (conj_pos c) = []" "List.map_filter ar_lit (conj_neg c) = []"
    using assms(2) by (auto simp: map_filter_def clause_sigs_def filter_empty_conv)
  obtain n where "n \<in> set (conj_neg c)" "arrow_covered cx emp (conj_pos c) n"
    using assms(1) unfolding func_clause_empty_def Let_def none by (auto simp: list_ex_iff)
  then show False
    using arrow_covered_sound [of "conj_pos c" n f graph] holds assms(2,3) by (auto simp: clause_holds_def clause_sigs_def)
qed

end

section \<open>Soundness\<close>

definition lit_free :: "Descr \<Rightarrow> bool" where
  "lit_free d \<longleftrightarrow> (\<forall>s \<in> dnf_sigs (d_funcs d). ar_lit s = None)"

definition arena_lit_free :: "Descr list \<Rightarrow> bool" where
  "arena_lit_free cx \<longleftrightarrow> (\<forall>d \<in> set cx. lit_free d)"

lemma lit_free_subset: "dnf_sigs (d_funcs d) \<subseteq> dnf_sigs (d_funcs a) \<union> dnf_sigs (d_funcs b) \<Longrightarrow> lit_free a \<Longrightarrow> lit_free b \<Longrightarrow> lit_free d"
  by (auto simp: lit_free_def)

lemma lit_free_ops:
  "lit_free Descr_any" "lit_free Descr_none" "lit_free (arrow_input s)"
  "lit_free a \<Longrightarrow> lit_free b \<Longrightarrow> lit_free (Descr_intersect a b)"
  "lit_free a \<Longrightarrow> lit_free b \<Longrightarrow> lit_free (Descr_diff a b)"
  "lit_free a \<Longrightarrow> lit_free b \<Longrightarrow> lit_free (Descr_union a b)"
proof -
  show "lit_free Descr_any" "lit_free Descr_none" "lit_free (arrow_input s)"
    by (simp_all add: lit_free_def Descr_any_def Descr_none_def arrow_input_def tuple_of_def Descr_unbranded_def)
  show "lit_free a \<Longrightarrow> lit_free b \<Longrightarrow> lit_free (Descr_intersect a b)"
    by (rule lit_free_subset [of _ a b]) (simp_all add: Descr_intersect_def dnf_sigs_intersect)
  have "dnf_sigs (dnf_intersect (d_funcs a) (dnf_neg (d_funcs b))) \<subseteq> dnf_sigs (d_funcs a) \<union> dnf_sigs (d_funcs b)"
    using dnf_sigs_intersect [of "d_funcs a" "dnf_neg (d_funcs b)"] dnf_sigs_neg [of "d_funcs b"] by blast
  then show "lit_free a \<Longrightarrow> lit_free b \<Longrightarrow> lit_free (Descr_diff a b)"
    by (intro lit_free_subset [of "Descr_diff a b" a b]) (auto simp: Descr_diff_def Descr_intersect_def neg_structure_def)
  show "lit_free a \<Longrightarrow> lit_free b \<Longrightarrow> lit_free (Descr_union a b)"
    by (rule lit_free_subset [of _ a b]) (simp_all add: Descr_union_def Descr_none_def)
qed

text \<open>
  How many arrows a query can meet at once: the clauses the operations build draw their
  arrows from those of the operands and repeat none, so fewer than 32 arrows in all keep
  every clause within the mask.
\<close>

definition narrow :: "ArrowSig set \<Rightarrow> Descr \<Rightarrow> bool" where
  "narrow A d \<longleftrightarrow> dnf_sigs (d_funcs d) \<subseteq> A \<and> pos_distinct (d_funcs d)"

definition arena_narrow :: "ArrowSig set \<Rightarrow> Descr list \<Rightarrow> bool" where
  "arena_narrow A cx \<longleftrightarrow> finite A \<and> card A < 32 \<and> list_all (narrow A) cx"

definition few_arrows :: "Descr list \<Rightarrow> bool" where
  "few_arrows ds \<longleftrightarrow> list_all (\<lambda>d. pos_distinct (d_funcs d)) ds \<and> card (\<Union>d \<in> set ds. dnf_sigs (d_funcs d)) < 32"

lemma few_arrows_narrow:
  assumes "few_arrows ds"
  shows "arena_narrow (\<Union>d \<in> set ds. dnf_sigs (d_funcs d)) ds"
  using assms by (auto simp: few_arrows_def arena_narrow_def narrow_def list_all_iff finite_dnf_sigs)

lemma narrow_ops:
  "narrow A Descr_any" "narrow A Descr_none" "narrow A (arrow_input s)"
  "narrow A a \<Longrightarrow> narrow A b \<Longrightarrow> narrow A (Descr_intersect a b)"
  "narrow A a \<Longrightarrow> narrow A b \<Longrightarrow> narrow A (Descr_diff a b)"
  "narrow A a \<Longrightarrow> narrow A b \<Longrightarrow> narrow A (Descr_union a b)"
proof -
  show "narrow A Descr_any" "narrow A Descr_none" "narrow A (arrow_input s)"
    by (simp_all add: narrow_def pos_distinct_def Descr_any_def Descr_none_def arrow_input_def tuple_of_def
        Descr_unbranded_def) (simp add: Conj_top_def)
  show meet: "narrow A a \<Longrightarrow> narrow A b \<Longrightarrow> narrow A (Descr_intersect a b)" for a b
    using dnf_sigs_intersect [of "d_funcs a" "d_funcs b"] pos_distinct_intersect [of "d_funcs a" "d_funcs b"]
    by (auto simp: narrow_def Descr_intersect_def)
  have "narrow A b \<Longrightarrow> narrow A (neg_structure b)"
    using dnf_sigs_neg [of "d_funcs b"] pos_distinct_neg [of "d_funcs b"] by (auto simp: narrow_def neg_structure_def)
  moreover have "narrow A (d\<lparr>d_brands := B\<rparr>) = narrow A d" for d B by (simp add: narrow_def)
  ultimately show "narrow A a \<Longrightarrow> narrow A b \<Longrightarrow> narrow A (Descr_diff a b)"
    using meet [of a "neg_structure b"] by (auto simp: Descr_diff_def)
  show "narrow A a \<Longrightarrow> narrow A b \<Longrightarrow> narrow A (Descr_union a b)"
    using pos_distinct_union [of "d_funcs a" "d_funcs b"]
    by (auto simp: Descr_union_def narrow_def Descr_none_def pos_distinct_def)
qed

lemma narrow_length:
  assumes "arena_narrow A cx" and "narrow A d" and "c \<in> set (d_funcs d)"
  shows "length (conj_pos c) < 32"
proof -
  have "set (conj_pos c) \<subseteq> A" "distinct (conj_pos c)"
    using assms(2,3) by (auto simp: narrow_def pos_distinct_def dnf_sigs_def clause_sigs_def)
  then have "length (conj_pos c) \<le> card A"
    using assms(1) by (metis arena_narrow_def card_mono distinct_card)
  then show ?thesis using assms(1) by (simp add: arena_narrow_def)
qed

lemma sound_test:
  assumes "sound_emptiness arr cx emp" and "lit_free d" and "emptiness_test cx emp d"
    and few: "\<And>c. c \<in> set (d_funcs d) \<Longrightarrow> length (conj_pos c) < 32"
  shows "\<not> den arr cx d v"
proof -
  note s = sound_emptiness.tuple_clause_sound [OF assms(1)] sound_emptiness.list_clause_sound [OF assms(1)]
    sound_emptiness.resource_clause_sound [OF assms(1)] sound_emptiness.map_clause_sound [OF assms(1)]
    sound_emptiness.func_clause_sound [OF assms(1)]
  have f: "\<forall>s \<in> clause_sigs c. ar_lit s = None" if "c \<in> set (d_funcs d)" for c
    using assms(2) dnf_sigs_mem [OF that] by (auto simp: lit_free_def)
  show ?thesis
  proof (cases "FiniteSet_is_none (d_brands d)")
    case True
    then show ?thesis by (simp add: den_shape brand_none)
  next
    case False
    then show ?thesis using assms(3) s f few
      by (cases "val_shape v")
        (auto simp: den_shape emptiness_test_def dnf_holds_def list_all_iff is_none_sound BasicBits_is_empty_def
          basic_holds_def)
  qed
qed

lemma is_empty_memo_sound:
  assumes "arena_wf cx" and "arena_lit_free cx" and few: "arena_narrow A cx"
  shows "lit_free d \<Longrightarrow> narrow A d \<Longrightarrow> descr_valid cx d \<Longrightarrow> \<forall>f \<in> F. weight d < weight f \<Longrightarrow> is_empty_memo cx F d \<Longrightarrow> \<not> den arr cx d v"
proof (induction "weight d" arbitrary: d F v rule: less_induct)
  case less
  let ?emp = "\<lambda>e. if weight e < weight d then is_empty_memo cx (insert d F) e else False"
  let ?ok = "\<lambda>e. lit_free e \<and> narrow A e \<and> descr_valid cx e"
  let ?emp' = "\<lambda>e. ?ok e \<and> ?emp e"
  have arena: "lit_free (cx ! t) \<and> narrow A (cx ! t) \<and> Descr_tys (cx ! t) \<subseteq> {..<length cx}" if "t < length cx" for t
    using assms that by (auto simp: arena_wf_def arena_lit_free_def arena_narrow_def list_all_iff)
      (meson lessThan_iff less_trans subset_iff)
  have fam: "query_family cx (Descr_tys d) {e. ?ok e}"
  proof unfold_locales
    show "cx ! t \<in> {e. ?ok e}" if "t \<in> Descr_tys d" for t
      using arena [of t] that less.prems(3) by (auto simp: descr_valid_def)
    fix a b assume "a \<in> {e. ?ok e}" "b \<in> {e. ?ok e}"
    then show "Descr_intersect a b \<in> {e. ?ok e}" "Descr_diff a b \<in> {e. ?ok e}"
      using Descr_tys_intersect [of a b] Descr_tys_diff [of a b] lit_free_ops(4,5) [of a b] narrow_ops(4,5) [of A a b]
      by (auto simp: descr_valid_def)
  qed (simp add: lit_free_ops narrow_ops descr_valid_def)
  have "lit_free e" "narrow A e" if "e \<in> input_queries cx d" for e
    using that lit_free_ops mask_sides_domain [of lit_free] narrow_ops mask_sides_domain [of "narrow A"]
    by (auto simp: input_queries_def)
  then have inp: "?ok e" if "e \<in> input_queries cx d" for e
    using that input_queries_light(1) [OF that] less.prems(3) by (auto simp: descr_valid_def)
  have "emptiness_test cx ?emp d = emptiness_test cx ?emp' d"
    by (rule emptiness_test_cong [OF fam]) (use inp in auto)
  moreover have "d \<notin> F" using less.prems(4) by auto
  ultimately have test: "emptiness_test cx ?emp' d" using less.prems(5) is_empty_memo_test [of cx F d] by simp
  have "sound_emptiness arr cx ?emp'"
  proof unfold_locales
    fix e v assume e: "?emp' e"
    then have "weight e < weight d" by (simp split: if_splits)
    moreover from this have "\<forall>f \<in> insert d F. weight e < weight f" using less.prems(4) by auto
    ultimately show "\<not> den arr cx e v" using less.hyps [of e "insert d F" v] e by simp
  qed
  from sound_test [OF this less.prems(1) test narrow_length [OF few less.prems(2)]] show ?case .
qed

interpretation se: sound_emptiness arr cx
  "\<lambda>e. arena_wf cx \<and> arena_lit_free cx \<and> arena_narrow A cx \<and> lit_free e \<and> narrow A e \<and> descr_valid cx e \<and>
     Descr_is_empty cx e" for arr cx A
  by unfold_locales (auto simp: Descr_is_empty_def dest: is_empty_memo_sound)

end
