(* ===== verification/Fz_Exact.thy ===== *)
theory Fz_Exact
  imports Fz_Subtype
begin

text \<open>
  Where the emptiness test is exact: descriptors with an unconstrained brand slot, no
  closure literal, and resource and map axes that are empty or full. On these the tuple,
  list and arrow algorithms are complete: a descriptor they do not call empty has a value,
  which the proofs build.
\<close>

section \<open>Exact queries\<close>

locale exact_emptiness = sound_emptiness arr cx emp + query_family cx T Q
  for arr :: "ClosureLit \<Rightarrow> nat \<Rightarrow> bool" and cx :: "Descr list" and emp :: "Descr \<Rightarrow> bool" and T :: "Ty set" and Q :: "Descr set" +
  assumes emp_complete: "e \<in> Q \<Longrightarrow> T \<noteq> {} \<Longrightarrow> \<not> emp e \<Longrightarrow> \<exists>v. den arr cx e v"
    and unbranded: "e \<in> Q \<Longrightarrow> d_brands e = FiniteSet_any"
begin

lemma diff_den: "a \<in> Q \<Longrightarrow> b \<in> Q \<Longrightarrow> den arr cx (Descr_diff a b) v \<longleftrightarrow> den arr cx a v \<and> \<not> den arr cx b v"
  by (rule den_diff_exact) (simp add: diff_exact_def unbranded FiniteSet_contains_all_def FiniteSet_any_def)

lemma split_at_den:
  assumes "set t \<subseteq> Q" and "set head \<subseteq> Q" and "length head = length t" and "i < length t"
    and "holds_all (split_at t head i) vs"
  shows "holds_all t vs" and "\<not> holds_all head vs"
proof -
  have q: "t ! j \<in> Q" "head ! j \<in> Q" if "j < length t" for j
    using that assms(1-3) nth_mem [of j t] nth_mem [of j head] by auto
  have len: "length vs = length t" using assms(5) by (auto simp: split_at_def dest: list_all2_lengthD)
  have part: "den arr cx (split_at t head i ! j) (vs ! j)" if "j < length t" for j
    using assms(5) that by (auto simp: list_all2_conv_all_nth split_at_def)
  have "den arr cx (t ! j) (vs ! j)" if "j < length t" for j
    using part [OF that] that den_diff_upper by (auto simp: split_at_def split: if_splits)
  then show "holds_all t vs" using len by (simp add: list_all2_conv_all_nth)
  have "\<not> den arr cx (head ! i) (vs ! i)"
    using part [OF assms(4)] assms(4) diff_den [OF q [OF assms(4)]] by (simp add: split_at_def)
  then show "\<not> holds_all head vs" using assms(3,4) by (auto simp: list_all2_conv_all_nth)
qed

lemma phi_tuple_complete:
  assumes "\<not> phi_tuple emp t n" and "set t \<subseteq> Q" and "\<forall>m \<in> set n. set m \<subseteq> Q \<and> length m = length t" and "t \<noteq> [] \<Longrightarrow> T \<noteq> {}"
  shows "\<exists>vs. holds_all t vs \<and> (\<forall>m \<in> set n. \<not> holds_all m vs)"
  using assms
proof (induction n arbitrary: t)
  case Nil
  have "\<exists>v. den arr cx e v" if "e \<in> set t" for e
    using Nil that emp_complete [of e] by (cases t) (auto simp: list_ex_iff)
  then have "\<exists>vs. holds_all t vs"
  proof (induction t)
    case (Cons e t)
    obtain v where "den arr cx e v" using Cons.prems [of e] by auto
    moreover obtain vs where "holds_all t vs" using Cons.IH Cons.prems by (meson list.set_intros(2))
    ultimately show ?case by (auto intro!: exI [of _ "v # vs"])
  qed auto
  then show ?case by simp
next
  case (Cons head rest)
  have head: "set head \<subseteq> Q" "length head = length t" using Cons.prems(3) by auto
  have ne: "\<not> list_ex emp t" using Cons.prems(1) by (auto split: if_splits)
  show ?case
  proof (cases "list_ex (\<lambda>(h, ti). emp (Descr_intersect ti h)) (zip head t)")
    case True
    then obtain i where i: "i < length t" "emp (Descr_intersect (t ! i) (head ! i))"
      using head(2) by (auto simp: list_ex_iff set_zip)
    obtain vs where vs: "holds_all t vs" "\<forall>m \<in> set rest. \<not> holds_all m vs"
      using Cons.IH [of t] Cons.prems True ne by auto
    have "\<not> den arr cx (head ! i) (vs ! i)"
      using emp_sound [OF i(2), of "vs ! i"] vs(1) i(1) by (auto simp: list_all2_conv_all_nth)
    then have "\<not> holds_all head vs" using i(1) head(2) by (auto simp: list_all2_conv_all_nth)
    with vs show ?thesis by auto
  next
    case False
    then obtain i where i: "i < length t" "\<not> phi_tuple emp (split_at t head i) rest"
      using Cons.prems(1) ne by (auto simp: list_all_iff)
    obtain vs where vs: "holds_all (split_at t head i) vs" "\<forall>m \<in> set rest. \<not> holds_all m vs"
      using Cons.IH [OF i(2)] split_at_family [OF Cons.prems(2) head, of i] Cons.prems(3,4) i(1) by (auto simp: split_at_def)
    with split_at_den [OF Cons.prems(2) head i(1) vs(1)] show ?thesis by auto
  qed
qed

lemma fold_meet_den:
  assumes "\<forall>p \<in> set ps. length (ts_elems p) = length t"
  shows "holds_all (fold (\<lambda>p t. map2 (\<lambda>ti e. Descr_intersect ti (cx ! e)) t (ts_elems p)) ps t) vs \<longleftrightarrow>
    holds_all t vs \<and> (\<forall>p \<in> set ps. tuple_sat arr cx p vs)"
  using assms
proof (induction ps arbitrary: t)
  case (Cons p ps)
  have "holds_all (map2 (\<lambda>ti e. Descr_intersect ti (cx ! e)) t (ts_elems p)) vs \<longleftrightarrow> holds_all t vs \<and> tuple_sat arr cx p vs"
    using Cons.prems by (auto simp: list_all2_conv_all_nth tuple_sat_def)
  then show ?case using Cons by auto
qed simp

lemma fresh_length: "\<exists>vs :: val list. \<forall>n \<in> set ns. length (ts_elems n) \<noteq> length vs"
proof -
  obtain k where "k \<notin> (\<lambda>n. length (ts_elems n)) ` set ns" using ex_new_if_finite [of "(\<lambda>n. length (ts_elems n)) ` set ns"] by auto
  then show ?thesis by (intro exI [of _ "replicate k (Val None (SAtom []))"]) auto
qed

lemma tuple_clause_complete:
  assumes "\<not> tuple_clause_empty cx emp c" and "\<forall>s \<in> clause_sigs c. set (ts_elems s) \<subseteq> T"
  shows "\<exists>vs. clause_holds (tuple_sat arr cx) c vs"
proof (cases "conj_pos c")
  case Nil
  obtain vs :: "val list" where "\<forall>n \<in> set (conj_neg c). length (ts_elems n) \<noteq> length vs" using fresh_length by blast
  then have "clause_holds (tuple_sat arr cx) c vs"
    using Nil by (auto simp: clause_holds_def tuple_sat_def dest: list_all2_lengthD)
  then show ?thesis by blast
next
  case (Cons p0 ps)
  let ?first = "map (\<lambda>ty. cx ! ty) (ts_elems p0)"
  let ?t = "fold (\<lambda>p t. map2 (\<lambda>ti e. Descr_intersect ti (cx ! e)) t (ts_elems p)) ps ?first"
  let ?negs = "map (\<lambda>n. map (\<lambda>ty. cx ! ty) (ts_elems n)) (filter (\<lambda>n. length (ts_elems n) = length (ts_elems p0)) (conj_neg c))"
  have sub: "\<forall>p \<in> set (p0 # ps). set (ts_elems p) \<subseteq> T" "\<forall>n \<in> set (conj_neg c). set (ts_elems n) \<subseteq> T"
    using assms(2) Cons by (auto simp: clause_sigs_def)
  have same: "\<forall>p \<in> set ps. length (ts_elems p) = length ?first" and phi: "\<not> phi_tuple emp ?t ?negs"
    using assms(1) Cons by (auto simp: tuple_clause_empty_def Let_def list_ex_iff split: if_splits)
  have len: "length ?t = length (ts_elems p0)" using length_fold_tuple_meet [OF same] by simp
  have "\<exists>vs. holds_all ?t vs \<and> (\<forall>m \<in> set ?negs. \<not> holds_all m vs)"
  proof (rule phi_tuple_complete [OF phi])
    show "set ?t \<subseteq> Q" by (rule fold_tuple_meet) (use sub child in auto)
    show "\<forall>m \<in> set ?negs. set m \<subseteq> Q \<and> length m = length ?t" using sub(2) child len by auto
    show "T \<noteq> {}" if "?t \<noteq> []" using that len sub(1) by (cases "ts_elems p0") auto
  qed
  then obtain vs where vs: "holds_all ?t vs" "\<forall>m \<in> set ?negs. \<not> holds_all m vs" by blast
  have lv: "length vs = length (ts_elems p0)" using vs(1) len list_all2_lengthD by fastforce
  have "\<forall>p \<in> set (conj_pos c). tuple_sat arr cx p vs"
    using vs(1) fold_meet_den [OF same, of vs] Cons by (auto simp: holds_all_elems)
  moreover have "\<not> tuple_sat arr cx n vs" if "n \<in> set (conj_neg c)" for n
    using vs(2) that lv by (cases "length (ts_elems n) = length (ts_elems p0)") (auto simp: holds_all_elems tuple_sat_def dest: list_all2_lengthD)
  ultimately show ?thesis by (auto simp: clause_holds_def)
qed

text \<open>The evidence is the meet of the positive element types.\<close>

lemma evidence_complete:
  assumes "\<forall>p \<in> set ps. set_option (ls_elem p) \<subseteq> T" and "evidence_in ev"
    and "evidence_fragment (fold (\<lambda>p. evidence_meet cx emp (ls_elem p)) ps ev) = Some d"
  shows "\<exists>d0. evidence_fragment ev = Some d0 \<and> (\<forall>x. den arr cx d x \<longleftrightarrow> den arr cx d0 x \<and>
    (\<forall>p \<in> set ps. \<exists>t. ls_elem p = Some t \<and> den arr cx (cx ! t) x))"
  using assms
proof (induction ps arbitrary: ev)
  case (Cons p ps)
  let ?ev = "evidence_meet cx emp (ls_elem p) ev"
  have "evidence_in ?ev" using Cons.prems(1,2) child meet by (cases "ls_elem p"; cases ev) (auto simp: evidence_meet_def Let_def)
  then obtain d1 where d1: "evidence_fragment ?ev = Some d1" "\<forall>x. den arr cx d x \<longleftrightarrow> den arr cx d1 x \<and>
      (\<forall>p \<in> set ps. \<exists>t. ls_elem p = Some t \<and> den arr cx (cx ! t) x)"
    using Cons.IH [of ?ev] Cons.prems(1,3) by auto
  then obtain t where t: "ls_elem p = Some t" by (cases "ls_elem p") (auto simp: evidence_meet_def)
  have "\<exists>d0. evidence_fragment ev = Some d0 \<and> (\<forall>x. den arr cx d1 x \<longleftrightarrow> den arr cx d0 x \<and> den arr cx (cx ! t) x)"
    using d1(1) t by (cases ev) (auto simp: evidence_meet_def Let_def split: if_splits)
  with d1(2) t show ?case by auto
qed simp

lemma evidence_inhabited:
  assumes "\<forall>p \<in> set ps. set_option (ls_elem p) \<subseteq> T"
    and "evidence_fragment (fold (\<lambda>p. evidence_meet cx emp (ls_elem p)) ps Unconstrained) = Some d"
  shows "d \<in> Q \<and> (\<exists>x. den arr cx d x)"
proof -
  have "(ev = Unconstrained \<or> (\<exists>e. ev = Inhabited e \<and> e \<in> Q \<and> \<not> emp e \<and> T \<noteq> {}) \<or> ev = EvidenceEmpty) \<Longrightarrow>
      \<forall>p \<in> set ps. set_option (ls_elem p) \<subseteq> T \<Longrightarrow>
      evidence_fragment (fold (\<lambda>p. evidence_meet cx emp (ls_elem p)) ps ev) = Some d \<Longrightarrow> d \<in> Q \<and> (\<exists>x. den arr cx d x)" for ev
  proof (induction ps arbitrary: ev)
    case Nil
    then show ?case
    proof (elim disjE exE conjE)
      fix e assume "ev = Inhabited e" "e \<in> Q" "\<not> emp e" "T \<noteq> {}"
      then show ?thesis using Nil emp_complete [of e] by auto
    qed (use Nil full den_any [of arr cx] in auto)
  next
    case (Cons p ps)
    let ?ev = "evidence_meet cx emp (ls_elem p) ev"
    have "?ev = Unconstrained \<or> (\<exists>e. ?ev = Inhabited e \<and> e \<in> Q \<and> \<not> emp e \<and> T \<noteq> {}) \<or> ?ev = EvidenceEmpty"
    proof (cases "ls_elem p")
      case (Some t)
      then have "t \<in> T" using Cons.prems(2) by simp
      then show ?thesis using Cons.prems(1) Some child [of t] meet [OF _ child [of t]]
        by (elim disjE exE conjE) (simp_all add: evidence_meet_def Let_def, blast+)
    qed (simp add: evidence_meet_def)
    from Cons.IH [OF this] Cons.prems(2,3) show ?case by simp
  qed
  from this [of Unconstrained] assms show ?thesis by simp
qed

lemma list_minus_complete:
  assumes "list_minus cx emp elem ns cuts = Some out" and "\<forall>n \<in> set ns. set_option (ls_elem n) \<subseteq> T" and "elem \<in> Q"
    and "n \<in> set ns" and "ls_elem n = Some t" and "\<exists>x. den arr cx elem x"
  shows "\<exists>x. den arr cx elem x \<and> \<not> den arr cx (cx ! t) x"
  using assms(1,2,4)
proof (induction ns arbitrary: cuts)
  case (Cons n' ns)
  show ?case
  proof (cases "n' = n")
    case True
    let ?cut = "Descr_intersect elem (cx ! t)"
    have q: "t \<in> T" "?cut \<in> Q" using Cons.prems(2) True assms(3,5) meet child by auto
    show ?thesis
    proof (cases "emp ?cut")
      case True
      then show ?thesis using emp_sound assms(6) by (metis den_intersect)
    next
      case False
      then have "\<not> emp (Descr_diff elem ?cut)" using Cons.prems(1) True assms(5) by (auto simp: Let_def split: if_splits)
      then obtain x where "den arr cx (Descr_diff elem ?cut) x"
        using emp_complete [of "Descr_diff elem ?cut"] difference [OF assms(3) q(2)] q(1) by blast
      then show ?thesis using diff_den [OF assms(3) q(2)] by auto
    qed
  next
    case False
    then show ?thesis using Cons by (auto simp: Let_def split: option.splits if_splits)
  qed
qed simp

lemma list_clause_complete:
  assumes "\<not> list_clause_empty cx emp c" and "\<forall>s \<in> clause_sigs c. set_option (ls_elem s) \<subseteq> T"
  shows "\<exists>vs. clause_holds (list_sat arr cx) c vs"
proof (cases "clause_holds_empty c")
  case True
  then show ?thesis using clause_holds_empty_iff by blast
next
  case False
  have pos: "\<forall>p \<in> set (conj_pos c). set_option (ls_elem p) \<subseteq> T" and neg: "\<forall>n \<in> set (conj_neg c). set_option (ls_elem n) \<subseteq> T"
    using assms(2) by (auto simp: clause_sigs_def)
  obtain elem cuts where e: "evidence_fragment (fold (\<lambda>p. evidence_meet cx emp (ls_elem p)) (conj_pos c) Unconstrained) = Some elem"
    and m: "list_minus cx emp elem (conj_neg c) [] = Some cuts"
    using assms(1) False by (auto simp: list_clause_empty_def list_denotation_def Let_def split: option.splits)
  note inh = evidence_inhabited [OF pos e]
  have den: "den arr cx elem x \<longleftrightarrow> (\<forall>p \<in> set (conj_pos c). \<exists>t. ls_elem p = Some t \<and> den arr cx (cx ! t) x)" for x
    using evidence_complete [OF pos _ e] by auto
  define pick where "pick = (\<lambda>n :: ListSig. SOME x. den arr cx elem x \<and> (\<forall>t. ls_elem n = Some t \<longrightarrow> \<not> den arr cx (cx ! t) x))"
  have pick: "den arr cx elem (pick n) \<and> (\<forall>t. ls_elem n = Some t \<longrightarrow> \<not> den arr cx (cx ! t) (pick n))" if "n \<in> set (conj_neg c)" for n
  proof -
    have "\<exists>x. den arr cx elem x \<and> (\<forall>t. ls_elem n = Some t \<longrightarrow> \<not> den arr cx (cx ! t) x)"
      using inh list_minus_complete [OF m neg _ that] by (cases "ls_elem n") auto
    then show ?thesis unfolding pick_def by (rule someI_ex)
  qed
  obtain x where x: "den arr cx elem x" using inh by blast
  let ?vs = "x # map pick (conj_neg c)"
  have all: "\<forall>y \<in> set ?vs. den arr cx elem y" using x pick by auto
  have "list_sat arr cx p ?vs" if p: "p \<in> set (conj_pos c)" for p
  proof -
    obtain t where t: "ls_elem p = Some t" using den [of x] x p by auto
    then show ?thesis using all den p by (fastforce simp: list_sat_def)
  qed
  moreover have "\<not> list_sat arr cx n ?vs" if n: "n \<in> set (conj_neg c)" for n
    using pick [OF n] n by (auto simp: list_sat_def split: option.splits)
  ultimately show ?thesis by (auto simp: clause_holds_def)
qed

lemma func_clause_complete:
  assumes "\<not> func_clause_empty cx emp c" and lits: "\<forall>s \<in> clause_sigs c. ar_lit s = None \<and> ar_ret s \<in> T"
    and inputs: "\<And>n m. n \<in> set (conj_neg c) \<Longrightarrow> \<not> emp (Descr_diff (arrow_input n) (fst (mask_sides cx (conj_pos c) m))) \<Longrightarrow>
      \<exists>v. den arr cx (Descr_diff (arrow_input n) (fst (mask_sides cx (conj_pos c) m))) v"
  shows "\<exists>graph. clause_holds (arrow_sat arr cx) c (f, graph)"
proof -
  let ?p = "conj_pos c"
  let ?good = "\<lambda>n e. tuple_sat arr cx \<lparr>ts_elems = ar_args n\<rparr> (fst e) \<and> \<not> den arr cx (cx ! ar_ret n) (snd e) \<and>
    (\<forall>p \<in> set ?p. tuple_sat arr cx \<lparr>ts_elems = ar_args p\<rparr> (fst e) \<longrightarrow> den arr cx (cx ! ar_ret p) (snd e))"
  have none: "List.map_filter ar_lit ?p = []" "List.map_filter ar_lit (conj_neg c) = []"
      "filter (\<lambda>n. ar_lit n = None) (conj_neg c) = conj_neg c"
    using lits by (auto simp: map_filter_def clause_sigs_def filter_empty_conv)
  have ex: "\<exists>e. ?good n e" if n: "n \<in> set (conj_neg c)" for n
  proof -
    obtain m where "\<not> emp (Descr_diff (arrow_input n) (fst (mask_sides cx ?p m)))"
      and out: "\<not> emp (Descr_diff (snd (mask_sides cx ?p m)) (cx ! ar_ret n))"
      using assms(1) n unfolding func_clause_empty_def Let_def none
      by (auto simp: list_ex_iff arrow_covered_def list_all_iff case_prod_beta)
    then obtain v where "den arr cx (Descr_diff (arrow_input n) (fst (mask_sides cx ?p m))) v" using inputs [OF n] by blast
    moreover have "diff_exact (arrow_input n) (fst (mask_sides cx ?p m))"
      using domain_brands [of cx ?p m] brands_input [of n]
      by (auto simp: diff_exact_def Descr_none_def FiniteSet_overlaps_def FiniteSet_contains_all_def FiniteSet_any_def
          FiniteSet_none_def)
    ultimately obtain xs where xs: "tuple_sat arr cx \<lparr>ts_elems = ar_args n\<rparr> xs"
      "\<forall>i < length ?p. mask_picks m i \<longrightarrow> \<not> tuple_sat arr cx \<lparr>ts_elems = ar_args (?p ! i)\<rparr> xs"
      by (auto simp: den_diff_exact den_arrow_input den_mask_domain)
    have q: "snd (mask_sides cx ?p m) \<in> Q" "cx ! ar_ret n \<in> Q" "T \<noteq> {}"
      using lits n mask_sides_family child by (auto simp: clause_sigs_def)
    then obtain y where y: "den arr cx (Descr_diff (snd (mask_sides cx ?p m)) (cx ! ar_ret n)) y"
      using emp_complete difference out by blast
    have y: "\<not> den arr cx (cx ! ar_ret n) y" "\<And>i. i < length ?p \<Longrightarrow> \<not> mask_picks m i \<Longrightarrow> den arr cx (cx ! ar_ret (?p ! i)) y"
      using y diff_den [OF q(1,2)] by (auto simp: den_mask_result)
    have "?good n (xs, y)"
    proof (intro conjI ballI impI)
      fix p assume p: "p \<in> set ?p" "tuple_sat arr cx \<lparr>ts_elems = ar_args p\<rparr> (fst (xs, y))"
      then obtain i where "i < length ?p" "p = ?p ! i" by (auto simp: in_set_conv_nth)
      then show "den arr cx (cx ! ar_ret p) (snd (xs, y))" using xs(2) y(2) p(2) by auto
    qed (use xs y in simp_all)
    then show ?thesis by blast
  qed
  define edge where "edge = (\<lambda>n :: ArrowSig. SOME e. ?good n e)"
  have edge: "?good n (edge n)" if "n \<in> set (conj_neg c)" for n unfolding edge_def by (rule someI_ex [OF ex [OF that]])
  have "clause_holds (arrow_sat arr cx) c (f, map edge (conj_neg c))"
    using lits edge by (auto simp: clause_holds_def arrow_sat_def clause_sigs_def)
  then show ?thesis by blast
qed

end

section \<open>The exact fragment\<close>

definition axis_trivial :: "'t Conj list \<Rightarrow> bool" where
  "axis_trivial d \<longleftrightarrow> d = [] \<or> d = [Conj_top]"

definition plain :: "Descr \<Rightarrow> bool" where
  "plain d \<longleftrightarrow> basic_wf (d_basic d) \<and> fs_wf (d_atoms d) \<and> fs_wf (d_opaques d) \<and> fs_wf (d_vars d) \<and>
     d_brands d = FiniteSet_any \<and> lit_free d \<and> axis_trivial (d_resources d) \<and> axis_trivial (d_maps d)"

definition arena_plain :: "Descr list \<Rightarrow> bool" where
  "arena_plain cx \<longleftrightarrow> (\<forall>d \<in> set cx. plain d)"

lemma axis_trivial_ops [simp]:
  "axis_trivial []" "axis_trivial [Conj_top]" "axis_trivial d \<Longrightarrow> axis_trivial (dnf_neg d)"
  "axis_trivial a \<Longrightarrow> axis_trivial b \<Longrightarrow> axis_trivial (dnf_intersect a b)"
  by (auto simp: axis_trivial_def)

lemma any_slot [simp]: "FiniteSet_intersect FiniteSet_any FiniteSet_any = FiniteSet_any"
  "FiniteSet_contains_all FiniteSet_any FiniteSet_any"
  by (simp_all add: FiniteSet_intersect_def FiniteSet_any_def FiniteSet_cofinite_def FiniteSet_contains_all_def)

lemma plain_any [simp]: "plain Descr_any"
  by (simp add: plain_def lit_free_ops) (simp add: Descr_any_def)

lemma plain_unbranded: "plain d \<Longrightarrow> d_brands d = FiniteSet_any"
  by (simp add: plain_def)

lemma plain_intersect: "plain a \<Longrightarrow> plain b \<Longrightarrow> plain (Descr_intersect a b)"
  by (simp add: plain_def lit_free_ops) (simp add: Descr_intersect_def)

lemma plain_diff: "plain a \<Longrightarrow> plain b \<Longrightarrow> plain (Descr_diff a b)"
  by (simp add: plain_def lit_free_ops) (simp add: Descr_diff_def Descr_intersect_def neg_structure_def)

lemma axis_trivial_union: "axis_trivial d \<Longrightarrow> axis_trivial (dnf_union d [])"
  by (auto simp: axis_trivial_def dnf_union_def push_new_def)

lemma plain_union:
  assumes "plain a" and "plain b" and "d_resources b = []" and "d_maps b = []"
  shows "Descr_union a b = Descr_none \<or> plain (Descr_union a b)"
proof (cases "looks_empty a \<or> looks_empty b")
  case True
  then show ?thesis using assms by (auto simp: Descr_union_def)
next
  case False
  have "lit_free (Descr_union a b)" using assms by (simp add: lit_free_ops plain_def)
  then show ?thesis using False assms
    by (simp add: plain_def Descr_union_def axis_trivial_union)
      (simp add: FiniteSet_union_def FiniteSet_any_def FiniteSet_cofinite_def)
qed

lemma plain_input_query:
  assumes "e \<in> input_queries cx d"
  shows "plain e"
proof -
  obtain c n m where e: "e = Descr_diff (arrow_input n) (fst (mask_sides cx (conj_pos c) m))" and "c \<in> set (d_funcs d)"
    using assms unfolding input_queries_def by blast
  have input: "plain (arrow_input p)" for p
    by (simp add: plain_def lit_free_ops)
      (simp add: arrow_input_def tuple_of_def Descr_unbranded_def Descr_none_def)
  have "fst (mask_sides cx (conj_pos c) m) = Descr_none \<or> plain (fst (mask_sides cx (conj_pos c) m))"
  proof (rule mask_sides_domain)
    fix a p assume "a = Descr_none \<or> plain a"
    then show "Descr_union a (arrow_input p) = Descr_none \<or> plain (Descr_union a (arrow_input p))"
    proof
      assume "a = Descr_none"
      then show ?thesis using input looks_empty_none by (simp add: Descr_union_def)
    next
      assume a: "plain a"
      have "d_resources (arrow_input p) = []" "d_maps (arrow_input p) = []"
        by (simp_all add: arrow_input_def tuple_of_def Descr_unbranded_def Descr_none_def)
      then show ?thesis by (rule plain_union [OF a input])
    qed
  qed simp
  then show ?thesis
  proof
    assume "fst (mask_sides cx (conj_pos c) m) = Descr_none"
    then show ?thesis
      using input [of n] unfolding e
      by (simp add: Descr_diff_def plain_def) (simp add: Descr_none_def FiniteSet_contains_all_def FiniteSet_overlaps_def FiniteSet_any_def FiniteSet_none_def)
  next
    assume "plain (fst (mask_sides cx (conj_pos c) m))"
    with input show ?thesis unfolding e by (rule plain_diff)
  qed
qed

lemma plain_lit_free: "plain d \<Longrightarrow> lit_free d" "arena_plain cx \<Longrightarrow> arena_lit_free cx"
  by (auto simp: plain_def arena_plain_def arena_lit_free_def)

lemma OpaqueTag_infinite: "infinite (UNIV :: OpaqueTag set)"
proof
  assume "finite (UNIV :: OpaqueTag set)"
  then have "finite (range OpaqueNamed)" by (rule finite_subset [rotated]) simp
  then have "finite (UNIV :: string set)" by (rule finite_imageD) (simp add: inj_def)
  then show False by (simp add: infinite_UNIV_listI)
qed

lemma exact_test:
  assumes ex: "exact_emptiness arr cx emp (Descr_tys d) Q" and p: "plain d" and test: "\<not> emptiness_test cx emp d"
    and inputs: "\<And>e. e \<in> input_queries cx d \<Longrightarrow> \<not> emp e \<Longrightarrow> \<exists>v. den arr cx e v"
  shows "\<exists>v. den arr cx d v"
proof -
  have shape: "shape_holds arr cx d s \<Longrightarrow> ?thesis" for s
    using p by (auto simp: den_shape plain_def intro!: exI [of _ "Val None s"])
  have tys: "t \<in> dnf_sigs (d_tuples d) \<Longrightarrow> set (ts_elems t) \<subseteq> Descr_tys d"
    "l \<in> dnf_sigs (d_lists d) \<Longrightarrow> set_option (ls_elem l) \<subseteq> Descr_tys d" for t l
    unfolding Descr_tys_def by blast+
  have inf: "infinite (UNIV :: string set)" by (simp add: infinite_UNIV_listI)
  consider "\<not> BasicBits_is_empty (d_basic d)" | "\<not> FiniteSet_is_none (d_atoms d)" | "\<not> FiniteSet_is_none (d_opaques d)"
    | "\<not> FiniteSet_is_none (d_vars d)"
    | c where "c \<in> set (d_tuples d)" "\<not> tuple_clause_empty cx emp c" | c where "c \<in> set (d_lists d)" "\<not> list_clause_empty cx emp c"
    | "d_resources d \<noteq> []" | c where "c \<in> set (d_funcs d)" "\<not> func_clause_empty cx emp c" | "d_maps d \<noteq> []"
    using test by (fastforce simp: emptiness_test_def list_all_iff)
  then show ?thesis
  proof cases
    case 1
    then obtain k where "basic_holds (d_basic d) k" using p basic_is_empty_iff by (auto simp: plain_def)
    then show ?thesis using shape [of "SBasic k"] by simp
  next
    case 2
    then obtain a where "FiniteSet_contains (d_atoms d) a" using p is_none_iff [OF inf] by (auto simp: plain_def)
    then show ?thesis using shape [of "SAtom a"] by simp
  next
    case 3
    then obtain t where "FiniteSet_contains (d_opaques d) t" using p is_none_iff [OF OpaqueTag_infinite] by (auto simp: plain_def)
    then show ?thesis using shape [of "SOpaque t"] by simp
  next
    case 4
    then obtain i where "FiniteSet_contains (d_vars d) i" using p is_none_iff [OF infinite_UNIV_nat] by (auto simp: plain_def)
    then show ?thesis using shape [of "SVar i"] by simp
  next
    case (5 c)
    have "\<forall>s \<in> clause_sigs c. set (ts_elems s) \<subseteq> Descr_tys d" using tys(1) dnf_sigs_mem [OF 5(1)] by blast
    from exact_emptiness.tuple_clause_complete [OF ex 5(2) this]
    show ?thesis using shape [of "STuple _"] 5(1) by (auto simp: dnf_holds_def)
  next
    case (6 c)
    have "\<forall>s \<in> clause_sigs c. set_option (ls_elem s) \<subseteq> Descr_tys d" using tys(2) dnf_sigs_mem [OF 6(1)] by blast
    from exact_emptiness.list_clause_complete [OF ex 6(2) this]
    show ?thesis using shape [of "SList _"] 6(1) by (auto simp: dnf_holds_def)
  next
    case 7
    then have "d_resources d = [Conj_top]" using p by (auto simp: plain_def axis_trivial_def)
    then show ?thesis using shape [of "SResource (Val None (SAtom []))"] by simp
  next
    case (8 c)
    have "\<forall>s \<in> clause_sigs c. ar_lit s = None \<and> ar_ret s \<in> Descr_tys d"
      using p arrow_tys(2) [OF dnf_sigs_mem [OF 8(1)]] dnf_sigs_mem [OF 8(1)] by (auto simp: plain_def lit_free_def)
    from exact_emptiness.func_clause_complete [OF ex 8(2) this, of 0]
    have "\<exists>graph. clause_holds (arrow_sat arr cx) c (0, graph)"
      using inputs 8(1) unfolding input_queries_def by blast
    then show ?thesis using shape [of "SFun 0 _"] 8(1) by (auto simp: dnf_holds_def)
  next
    case 9
    then have "d_maps d = [Conj_top]" using p by (auto simp: plain_def axis_trivial_def)
    then show ?thesis using shape [of "SMap MapPlain []"] by simp
  qed
qed

lemma is_empty_memo_complete:
  assumes "arena_wf cx" and "arena_plain cx" and few: "arena_narrow A cx"
  shows "plain d \<Longrightarrow> narrow A d \<Longrightarrow> descr_valid cx d \<Longrightarrow> \<forall>f \<in> F. weight d < weight f \<Longrightarrow> \<not> is_empty_memo cx F d \<Longrightarrow> \<exists>v. den arr cx d v"
proof (induction "weight d" arbitrary: d F rule: less_induct)
  case less
  let ?ok = "\<lambda>e. plain e \<and> narrow A e \<and> descr_valid cx e \<and> weight e < weight d"
  let ?emp = "is_empty_memo cx (insert d F)"
  let ?emp' = "\<lambda>e. ?ok e \<and> ?emp e"
  let ?Q = "{e \<in> below cx d. plain e \<and> narrow A e \<and> descr_valid cx e}"
  have F: "\<forall>f \<in> insert d F. weight e < weight f" if "weight e < weight d" for e using that less.prems(4) by auto
  have arena: "plain (cx ! t) \<and> narrow A (cx ! t) \<and> Descr_tys (cx ! t) \<subseteq> {..<length cx}" if "t < length cx" for t
    using assms that by (auto simp: arena_wf_def arena_plain_def arena_narrow_def list_all_iff) (meson lessThan_iff less_trans subset_iff)
  have fam: "query_family cx (Descr_tys d) ?Q"
  proof unfold_locales
    show "cx ! t \<in> ?Q" if "t \<in> Descr_tys d" for t
      using arena [of t] that less.prems(3) qf.child [OF that] by (auto simp: descr_valid_def)
    fix a b assume "a \<in> ?Q" "b \<in> ?Q"
    then show "Descr_intersect a b \<in> ?Q" "Descr_diff a b \<in> ?Q"
      using Descr_tys_intersect [of a b] Descr_tys_diff [of a b] plain_intersect [of a b] plain_diff [of a b] narrow_ops(4,5) [of A a b]
        qf.meet [of a cx d b] qf.difference [of a cx d b] by (auto simp: descr_valid_def)
  qed (simp add: descr_valid_def below_def narrow_ops)
  have light: "weight e < weight d" if "e \<in> ?Q" "Descr_tys d \<noteq> {}" for e
    using weight_below [OF assms(1) less.prems(3)] that by blast
  have "narrow A e" if "e \<in> input_queries cx d" for e
    using that narrow_ops mask_sides_domain [of "narrow A"] by (auto simp: input_queries_def)
  then  have inp: "?ok e" if "e \<in> input_queries cx d" for e
    using that plain_input_query weight_input [OF less.prems(3) that] input_queries_light(1) [OF that] less.prems(3)
    by (auto simp: descr_valid_def)
  have "emptiness_test cx ?emp d = emptiness_test cx ?emp' d"
    by (rule emptiness_test_cong [OF fam]) (use light inp in auto)
  then have test: "\<not> emptiness_test cx ?emp' d" using less.prems(5) is_empty_memo_interned [OF assms(1) less.prems(3), of F] by blast
  have "exact_emptiness arr cx ?emp' (Descr_tys d) ?Q"
  proof (intro exact_emptiness.intro exact_emptiness_axioms.intro fam)
    show "sound_emptiness arr cx ?emp'"
      by unfold_locales (use is_empty_memo_sound [OF assms(1) plain_lit_free(2) [OF assms(2)] few] plain_lit_free(1) F in blast)
    show "d_brands e = FiniteSet_any" if "e \<in> ?Q" for e using that by (simp add: plain_def)
    show "\<exists>v. den arr cx e v" if "e \<in> ?Q" "Descr_tys d \<noteq> {}" "\<not> ?emp' e" for e
      using less.hyps [of e "insert d F"] light [OF that(1,2)] that F by blast
  qed
  from exact_test [OF this less.prems(1) test] show ?case
    using less.hyps inp F by blast
qed

definition exact_arena :: "Descr list \<Rightarrow> bool" where
  "exact_arena cx \<longleftrightarrow> arena_wf cx \<and> arena_plain cx"

lemma Descr_is_empty_exact:
  assumes "exact_arena cx" and "arena_narrow A cx" and "plain d" and "narrow A d" and "descr_valid cx d"
  shows "Descr_is_empty cx d \<longleftrightarrow> (\<forall>v. \<not> den arr cx d v)"
  using is_empty_memo_sound [of cx A d "{}" arr] is_empty_memo_complete [of cx A d "{}" arr] assms plain_lit_free
  by (auto simp: Descr_is_empty_def exact_arena_def)

interpretation ee: exact_emptiness arr cx "\<lambda>e. exact_arena cx \<and> arena_narrow A cx \<and> plain e \<and> narrow A e \<and> descr_valid cx e \<and> Descr_is_empty cx e"
    "{t. exact_arena cx \<and> arena_narrow A cx \<and> t < length cx}" "{e. plain e \<and> narrow A e \<and> descr_valid cx e}" for arr cx A
proof unfold_locales
  show "cx ! t \<in> {e. plain e \<and> narrow A e \<and> descr_valid cx e}" if t: "t \<in> {t. exact_arena cx \<and> arena_narrow A cx \<and> t < length cx}" for t
    using t by (auto simp: exact_arena_def arena_wf_def arena_plain_def descr_valid_def arena_narrow_def list_all_iff) (meson lessThan_iff less_trans subset_iff)
  fix a b assume "a \<in> {e. plain e \<and> narrow A e \<and> descr_valid cx e}" "b \<in> {e. plain e \<and> narrow A e \<and> descr_valid cx e}"
  then show "Descr_intersect a b \<in> {e. plain e \<and> narrow A e \<and> descr_valid cx e}" "Descr_diff a b \<in> {e. plain e \<and> narrow A e \<and> descr_valid cx e}"
    using Descr_tys_intersect [of a b] Descr_tys_diff [of a b] plain_intersect [of a b] plain_diff [of a b] narrow_ops(4,5) [of A a b]
    by (auto simp: descr_valid_def)
qed (use Descr_is_empty_exact [of cx A _ arr] in \<open>auto simp: descr_valid_def plain_unbranded narrow_ops\<close>)

end
