(* ===== verification/Fz_Types.thy ===== *)
theory Fz_Types
  imports Fz_Exact
begin

text \<open>
  What the type kernel promises its clients: set operations that mean the set operations,
  a subtype test that is sound and, on the exact fragment, complete, brand-blind
  disjointness, and readers that lose nothing.
\<close>

section \<open>Readers\<close>

lemma axis_free_shape:
  assumes "axis_free d" and "val_shape v = s"
    and "s = SBasic k \<or> s = SAtom a \<or> s = SOpaque t \<or> s = SVar i"
  shows "\<not> den arr cx d v"
  using assms by (auto simp: axis_free_def den_shape is_none_sound BasicBits_is_empty_def basic_holds_def)

lemma axis_free_brands: "axis_free d \<Longrightarrow> brand_holds (d_brands d) b"
  by (simp add: axis_free_def brand_any)

lemma single_positive_holds: "single_positive clauses = Some sig \<Longrightarrow> dnf_holds sat clauses x \<longleftrightarrow> sat sig x"
  by (auto simp: single_positive_def dnf_holds_def clause_holds_def split: list.splits if_splits)

lemma pure_axis_cases:
  assumes "pure_axis d clauses widest = Some sig"
  shows "axis_free d \<and> (clauses = [Conj_top] \<and> sig = widest \<or> single_positive clauses = Some sig)"
  using assms by (auto simp: pure_axis_def Conj_is_top_def Conj_top_def split: if_splits list.splits)

lemma pure_axis_holds:
  assumes "pure_axis d clauses widest = Some sig" and "\<And>x. sat widest x"
  shows "axis_free d" and "dnf_holds sat clauses x \<longleftrightarrow> sat sig x"
  using pure_axis_cases [OF assms(1)] assms(2) single_positive_holds [of clauses sig sat x] by auto

lemma list_sat_widest: "(\<And>v. den arr cx (cx ! any_ty) v) \<Longrightarrow> list_sat arr cx \<lparr>ls_empty = True, ls_elem = Some any_ty\<rparr> vs"
  by (simp add: list_sat_def)

lemma as_pure_list_den:
  assumes "as_pure_list any_ty d = Some sig" and "\<And>v. den arr cx (cx ! any_ty) v"
  shows "den arr cx d v \<longleftrightarrow> (\<exists>vs. val_shape v = SList vs \<and> list_sat arr cx sig vs)"
proof -
  have p: "pure_axis d (d_lists d) \<lparr>ls_empty = True, ls_elem = Some any_ty\<rparr> = Some sig"
    and e: "d_tuples d = []" "d_resources d = []" "d_funcs d = []" "d_maps d = []"
    using assms(1) by (auto simp: as_pure_list_def split: option.splits if_splits)
  note h = pure_axis_holds [OF p, of "list_sat arr cx", OF list_sat_widest [OF assms(2)]]
  show ?thesis using h axis_free_brands [OF h(1)] axis_free_shape [OF h(1) refl, of v] e
    by (cases "val_shape v") (auto simp: den_shape)
qed

lemma pure_resource_den:
  assumes "pure_resource any_ty d = Some sig" and "\<And>v. den arr cx (cx ! any_ty) v"
  shows "den arr cx d v \<longleftrightarrow> (\<exists>x. val_shape v = SResource x \<and> resource_sat arr cx sig x)"
proof -
  have p: "pure_axis d (d_resources d) \<lparr>rs_payload = any_ty\<rparr> = Some sig"
    and e: "d_tuples d = []" "d_lists d = []" "d_funcs d = []" "d_maps d = []"
    using assms(1) by (auto simp: pure_resource_def split: option.splits if_splits)
  have w: "resource_sat arr cx \<lparr>rs_payload = any_ty\<rparr> x" for x by (simp add: resource_sat_def assms(2))
  note h = pure_axis_holds [OF p, of "resource_sat arr cx", OF w]
  show ?thesis using h axis_free_brands [OF h(1)] axis_free_shape [OF h(1) refl, of v] e
    by (cases "val_shape v") (auto simp: den_shape)
qed

lemma pure_tuple_den:
  assumes "pure_tuple d = Some sig"
  shows "den arr cx d v \<longleftrightarrow> (\<exists>vs. val_shape v = STuple vs \<and> tuple_sat arr cx sig vs)"
proof -
  have h: "axis_free d" "d_lists d = []" "d_resources d = []" "d_funcs d = []" "d_maps d = []"
      "single_positive (d_tuples d) = Some sig"
    using assms by (auto simp: pure_tuple_def split: if_splits)
  show ?thesis using h axis_free_brands [OF h(1)] axis_free_shape [OF h(1) refl, of v]
    by (cases "val_shape v") (auto simp: den_shape single_positive_holds [OF h(6)])
qed

lemma pure_record_den:
  assumes "pure_record d = Some sig"
  shows "den arr cx d v \<longleftrightarrow> (\<exists>tag kvs. val_shape v = SMap tag kvs \<and> map_sat arr cx sig (tag, map_of kvs))"
proof -
  have h: "axis_free d" "d_tuples d = []" "d_lists d = []" "d_resources d = []" "d_funcs d = []"
      "single_positive (d_maps d) = Some sig"
    using assms by (auto simp: pure_record_def split: if_splits)
  show ?thesis using h axis_free_brands [OF h(1)] axis_free_shape [OF h(1) refl, of v]
    by (cases "val_shape v") (auto simp: den_shape single_positive_holds [OF h(6)])
qed

lemma pure_arrow_den:
  assumes "pure_arrow d = Some sig"
  shows "den arr cx d v \<longleftrightarrow> (\<exists>f graph. val_shape v = SFun f graph \<and> arrow_sat arr cx sig (f, graph))"
proof -
  have h: "axis_free d" "d_tuples d = []" "d_lists d = []" "d_resources d = []" "d_maps d = []"
      "single_positive (d_funcs d) = Some sig"
    using assms by (auto simp: pure_arrow_def split: if_splits)
  show ?thesis using h axis_free_brands [OF h(1)] axis_free_shape [OF h(1) refl, of v]
    by (cases "val_shape v") (auto simp: den_shape single_positive_holds [OF h(6)])
qed

lemma projection_alternatives_den:
  assumes "projection_alternatives d = Some alts"
  shows "den arr cx d v \<longleftrightarrow> (\<exists>a \<in> set alts. den arr cx a v)"
proof -
  have free: "axis_free d" using assms by (auto simp: projection_alternatives_def split: if_splits)
  have empty: "d_tuples Descr_unbranded = []" "d_lists Descr_unbranded = []" "d_brands Descr_unbranded = FiniteSet_any"
    by (simp_all add: Descr_unbranded_def Descr_none_def)
  consider "d_lists d = []" "d_resources d = []" "d_funcs d = []" "d_maps d = []"
      "alts = map (\<lambda>clause. Descr_unbranded\<lparr>d_tuples := [clause]\<rparr>) (d_tuples d)"
    | "d_tuples d = []" "d_resources d = []" "d_funcs d = []" "d_maps d = []"
      "alts = map (\<lambda>clause. Descr_unbranded\<lparr>d_lists := [clause]\<rparr>) (d_lists d)"
    using assms empty by (auto simp: projection_alternatives_def split: if_splits)
  then show ?thesis
  proof cases
    case 1
    then show ?thesis
      using axis_free_brands [OF free] axis_free_shape [OF free refl, of v]
      by (cases "val_shape v") (simp_all add: den_shape dnf_holds_def Descr_unbranded_def Descr_none_def)
  next
    case 2
    then show ?thesis
      using axis_free_brands [OF free] axis_free_shape [OF free refl, of v]
      by (cases "val_shape v") (simp_all add: den_shape dnf_holds_def Descr_unbranded_def Descr_none_def)
  qed
qed

section \<open>Brand-blind disjointness\<close>

lemma erase_nominal_cases:
  obtains "erase_nominal d = Descr_none" | "erase_nominal d = d\<lparr>d_brands := FiniteSet_any, d_opaques := FiniteSet_none\<rparr>"
    | "erase_nominal d = Descr_union (d\<lparr>d_brands := FiniteSet_any, d_opaques := FiniteSet_none\<rparr>) Descr_any"
  unfolding erase_nominal_def Let_def by (metis (full_types))

lemma lit_free_erase: "lit_free d \<Longrightarrow> lit_free (erase_nominal d)"
proof -
  assume "lit_free d"
  then have "lit_free (d\<lparr>d_brands := FiniteSet_any, d_opaques := FiniteSet_none\<rparr>)" by (simp add: lit_free_def)
  then show ?thesis by (cases rule: erase_nominal_cases [of d]) (simp_all add: lit_free_ops)
qed

lemma valid_erase: "descr_valid cx d \<Longrightarrow> descr_valid cx (erase_nominal d)"
proof -
  assume v: "descr_valid cx d"
  have t: "Descr_tys (d\<lparr>d_brands := FiniteSet_any, d_opaques := FiniteSet_none\<rparr>) = Descr_tys d" by (simp add: Descr_tys_def)
  show ?thesis
    using Descr_tys_union [of "d\<lparr>d_brands := FiniteSet_any, d_opaques := FiniteSet_none\<rparr>" Descr_any] v
    by (cases rule: erase_nominal_cases [of d]) (auto simp: descr_valid_def t)
qed

lemma erase_nominal_den:
  assumes "den arr cx d v"
  shows "den arr cx (erase_nominal d) (Val b (val_shape v))"
proof -
  have ne: "\<not> looks_empty d" using assms looks_empty_sound by blast
  show ?thesis
  proof (cases "FiniteSet_is_none (d_opaques d)")
    case True
    then have "\<not> (\<exists>t. val_shape v = SOpaque t)" using assms by (auto simp: den_shape is_none_sound)
    then show ?thesis using assms ne True by (cases "val_shape v") (auto simp: erase_nominal_def den_shape)
  next
    case False
    then show ?thesis using ne den_union_upper [of arr cx _ _ Descr_any] by (simp add: erase_nominal_def)
  qed
qed

section \<open>A small arena\<close>

text \<open>Entry 0 is \<open>int\<close>, entry 1 is \<open>int | float\<close>.\<close>

definition small_arena :: "Descr list" where
  "small_arena = [Descr_int, Descr_union Descr_int Descr_float]"

lemma number_den:
  "den arr cx Descr_int v \<longleftrightarrow> val_shape v = SBasic KInt"
  "den arr cx (Descr_union Descr_int Descr_float) v \<longleftrightarrow> val_shape v = SBasic KInt \<or> val_shape v = SBasic KFloat"
proof -
  have k: "basic_holds BasicBits_INT k \<longleftrightarrow> k = KInt" "basic_holds BasicBits_FLOAT k \<longleftrightarrow> k = KFloat" for k
    by (cases k; simp add: basic_holds_def BasicBits_INT_def BasicBits_FLOAT_def bit_simps)+
  have d: "den arr cx (from_basic b) v \<longleftrightarrow> (\<exists>k. val_shape v = SBasic k \<and> basic_holds b k)" for b
    by (cases "val_shape v") (simp_all add: den_shape from_basic_def Descr_unbranded_def Descr_none_def)
  show i: "den arr cx Descr_int v \<longleftrightarrow> val_shape v = SBasic KInt" by (auto simp: Descr_int_def d k)
  have "d_brands Descr_int = d_brands Descr_float" by (simp add: Descr_int_def Descr_float_def from_basic_def)
  then show "den arr cx (Descr_union Descr_int Descr_float) v \<longleftrightarrow> val_shape v = SBasic KInt \<or> val_shape v = SBasic KFloat"
    using i by (auto simp: den_union_exact Descr_float_def d k)
qed

lemma list_of_den:
  "den arr cx (list_of t) v \<longleftrightarrow> (\<exists>vs. val_shape v = SList vs \<and> (\<forall>x \<in> set vs. den arr cx (cx ! t) x))"
  by (cases "val_shape v")
    (auto simp: den_shape list_of_def list_sig_def ListSig_possibly_empty_def list_sat_def dnf_holds_def clause_holds_def
      Conj_pos_of_def Descr_unbranded_def Descr_none_def)

lemma numbers_plain: "plain Descr_int" "plain (Descr_union Descr_int Descr_float)"
proof -
  have w: "basic_wf BasicBits_INT" "basic_wf BasicBits_FLOAT"
    by (simp_all add: basic_wf_def BasicBits_contains_all_def BasicBits_ALL_def BasicBits_INT_def BasicBits_FLOAT_def push_bit_eq_mult)
  have p: "plain Descr_int" "plain Descr_float"
    using w by (simp_all add: plain_def Descr_int_def Descr_float_def from_basic_def lit_free_def Descr_unbranded_def Descr_none_def)
  then show "plain Descr_int" by blast
  have "Descr_union Descr_int Descr_float \<noteq> Descr_none"
    using number_den(2) [of _ _ "Val None (SBasic KInt)"] den_none [of _ _ "Val None (SBasic KInt)"] by (metis val.sel(2))
  then show "plain (Descr_union Descr_int Descr_float)"
    using plain_union [OF p] by (simp add: Descr_float_def from_basic_def Descr_unbranded_def Descr_none_def)
qed

lemma list_of_plain: "plain (list_of t)" "Descr_tys (list_of t) = {t}"
  by (simp_all add: plain_def list_of_def list_sig_def ListSig_possibly_empty_def lit_free_def Descr_unbranded_def
      Descr_none_def Descr_tys_def)

lemma small_arena_ok: "exact_arena small_arena" "t < 2 \<Longrightarrow> descr_valid small_arena (list_of t)"
proof -
  have "Descr_tys Descr_int = {}" "Descr_tys Descr_float = {}"
    by (simp_all add: Descr_tys_def Descr_int_def Descr_float_def from_basic_def Descr_unbranded_def Descr_none_def)
  then have "Descr_tys (Descr_union Descr_int Descr_float) = {}" using Descr_tys_union [of Descr_int Descr_float] by simp
  then have "arena_wf small_arena"
    using \<open>Descr_tys Descr_int = {}\<close> by (auto simp: arena_wf_def small_arena_def less_Suc_eq)
  then show "exact_arena small_arena" using numbers_plain by (simp add: exact_arena_def arena_plain_def small_arena_def)
  show "t < 2 \<Longrightarrow> descr_valid small_arena (list_of t)" by (simp add: descr_valid_def list_of_plain small_arena_def)
qed

text \<open>Descriptors without arrows are narrow for every bound.\<close>

lemma arrow_free_narrow: "d_funcs d = [] \<Longrightarrow> narrow A d"
  by (simp add: narrow_def pos_distinct_def)

lemma arrow_free_few: "list_all (\<lambda>d. d_funcs d = []) ds \<Longrightarrow> few_arrows ds"
  by (auto simp: few_arrows_def list_all_iff pos_distinct_def)

lemma number_arrow_free:
  "d_funcs Descr_int = []" "d_funcs (Descr_union Descr_int Descr_float) = []" "d_funcs (list_of t) = []" "d_funcs atom_top = []"
  by (simp_all add: Descr_union_def Descr_int_def Descr_float_def from_basic_def list_of_def list_sig_def atom_top_def
      Descr_unbranded_def Descr_none_def dnf_union_def)

lemma small_arena_narrow: "arena_narrow {} small_arena"
  by (simp add: arena_narrow_def small_arena_def arrow_free_narrow number_arrow_free)

lemma few_arrows_operands:
  assumes "few_arrows (a # b # cx)"
  obtains A where "arena_narrow A cx" "narrow A a" "narrow A b"
  by (rule that [of "\<Union>d \<in> set (a # b # cx). dnf_sigs (d_funcs d)"])
    (use few_arrows_narrow [OF assms] in \<open>simp_all add: arena_narrow_def\<close>)

lemma valid_diff: "descr_valid cx a \<Longrightarrow> descr_valid cx b \<Longrightarrow> descr_valid cx (Descr_diff a b)"
  using Descr_tys_diff [of a b] by (auto simp: descr_valid_def)

lemma plain_diff_exact: "plain a \<Longrightarrow> plain b \<Longrightarrow> diff_exact a b"
  by (simp add: diff_exact_def plain_unbranded)

lemma small_subtype: "is_subtype small_arena (list_of 0) (list_of 1)"
proof -
  have "\<not> den arr small_arena (Descr_diff (list_of 0) (list_of 1)) v" for arr v
    by (auto simp: den_diff_exact plain_diff_exact list_of_plain list_of_den small_arena_def number_den)
  then show ?thesis
    unfolding is_subtype_def
    using Descr_is_empty_exact [OF small_arena_ok(1) small_arena_narrow plain_diff [OF list_of_plain(1) list_of_plain(1)]
        narrow_ops(5) [OF arrow_free_narrow arrow_free_narrow] valid_diff [OF small_arena_ok(2) small_arena_ok(2)],
        of 0 1 "\<lambda>_ _. False"] by (simp add: number_arrow_free)
qed

section \<open>Arrows over a small arena\<close>

lemma arrow_funcs: "d_funcs (Descr_arrow args ret) = [Conj_pos_of \<lparr>ar_args = args, ar_ret = ret, ar_lit = None\<rparr>]"
  by (simp add: Descr_arrow_def Descr_unbranded_def Descr_none_def)

lemma Descr_arrow_den:
  "den arr cx (Descr_arrow args ret) v \<longleftrightarrow>
     (\<exists>f graph. val_shape v = SFun f graph \<and> arrow_sat arr cx \<lparr>ar_args = args, ar_ret = ret, ar_lit = None\<rparr> (f, graph))"
  by (cases "val_shape v")
    (simp_all add: den_shape Descr_arrow_def Descr_unbranded_def Descr_none_def dnf_holds_def clause_holds_def Conj_pos_of_def)

lemma arrow_plain: "plain (Descr_arrow args ret)"
  by (simp add: plain_def Descr_arrow_def lit_free_def Descr_unbranded_def Descr_none_def)

lemma arrow_valid: "set (ret # args) \<subseteq> {..<length cx} \<Longrightarrow> descr_valid cx (Descr_arrow args ret)"
  by (simp add: descr_valid_def Descr_tys_def Descr_arrow_def Descr_unbranded_def Descr_none_def)

text \<open>
  An arena of \<open>int\<close> and \<open>atom\<close>, the meet of the arrows that take \<open>i < n\<close> integers to an
  integer, and a function that takes an atom to an atom.
\<close>

definition mixed_arena :: "Descr list" where
  "mixed_arena = [Descr_int, atom_top]"

definition int_arrow :: "nat \<Rightarrow> Descr" where
  "int_arrow n = Descr_arrow (replicate n 0) 0"

primrec int_arrows :: "nat \<Rightarrow> Descr" where
  "int_arrows 0 = fun_top"
| "int_arrows (Suc n) = Descr_intersect (int_arrows n) (int_arrow n)"

definition atom_function :: val where
  "atom_function = Val None (SFun 0 [([Val None (SAtom ''ok'')], Val None (SAtom ''ok''))])"

abbreviation int_sig :: "nat \<Rightarrow> ArrowSig" where
  "int_sig n \<equiv> \<lparr>ar_args = replicate n 0, ar_ret = 0, ar_lit = None\<rparr>"

lemma atom_top_den: "den arr cx atom_top v \<longleftrightarrow> (\<exists>a. val_shape v = SAtom a)"
  by (cases "val_shape v") (simp_all add: den_shape atom_top_def Descr_unbranded_def Descr_none_def)

lemma mixed_arena_ok: "exact_arena mixed_arena" "arena_narrow {} mixed_arena"
proof -
  have "Descr_tys Descr_int = {}" "Descr_tys atom_top = {}"
    by (simp_all add: Descr_tys_def Descr_int_def from_basic_def atom_top_def Descr_unbranded_def Descr_none_def)
  moreover have "plain atom_top" by (simp add: plain_def atom_top_def lit_free_def Descr_unbranded_def Descr_none_def)
  ultimately show "exact_arena mixed_arena"
    using numbers_plain(1) by (auto simp: exact_arena_def arena_plain_def arena_wf_def mixed_arena_def less_Suc_eq)
  show "arena_narrow {} mixed_arena"
    by (simp add: arena_narrow_def mixed_arena_def arrow_free_narrow number_arrow_free)
qed

lemma atom_function_arrow:
  "\<not> den arr mixed_arena (Descr_arrow [1] 0) atom_function" "den arr mixed_arena (int_arrow n) atom_function"
proof -
  show "\<not> den arr mixed_arena (Descr_arrow [1] 0) atom_function"
    by (simp add: Descr_arrow_den arrow_sat_def tuple_sat_def mixed_arena_def atom_function_def number_den atom_top_den)
  show "den arr mixed_arena (int_arrow n) atom_function"
    by (cases n)
      (simp_all add: int_arrow_def Descr_arrow_den arrow_sat_def tuple_sat_def mixed_arena_def atom_function_def number_den)
qed

lemma int_arrows_den: "den arr mixed_arena (int_arrows n) atom_function"
proof (induction n)
  case 0
  then show ?case by (simp add: den_shape fun_top_def atom_function_def Descr_unbranded_def)
qed (simp add: atom_function_arrow)

lemma int_arrows_eq:
  "int_arrows n = Descr_unbranded\<lparr>d_funcs := [\<lparr>conj_pos = map int_sig [0..<n], conj_neg = []\<rparr>]\<rparr>"
proof (induction n)
  case (Suc n)
  have "int_sig n \<notin> set (map int_sig [0..<n])" by (auto dest: arg_cong [of _ _ length])
  then have "dnf_intersect [\<lparr>conj_pos = map int_sig [0..<n], conj_neg = []\<rparr>] [Conj_pos_of (int_sig n)] =
      [\<lparr>conj_pos = map int_sig [0..<Suc n], conj_neg = []\<rparr>]"
    by (simp add: dnf_intersect_def dnf_intersect_with_def dnf_push_merged_def merge_clauses_def push_new_def
        Conj_pos_of_def list_ex_iff)
  then show ?case
    using Suc by (simp add: Descr_intersect_def int_arrow_def arrow_funcs)
      (simp add: Descr_arrow_def Descr_unbranded_def Descr_none_def BasicBits_intersect_def BasicBits_NONE_def
        dnf_intersect_def dnf_intersect_with_def finite_set_defs)
qed (simp add: fun_top_def Conj_top_def)

text \<open>The difference the test asks about: functions only, one clause.\<close>

lemma wide_difference:
  fixes n defines "d \<equiv> Descr_diff (int_arrows n) (Descr_arrow [1] 0)"
  shows "d_funcs d = [\<lparr>conj_pos = map int_sig [0..<n], conj_neg = [\<lparr>ar_args = [1], ar_ret = 0, ar_lit = None\<rparr>]\<rparr>]"
    and "descr_valid mixed_arena d"
    and "emptiness_test mixed_arena emp d \<longleftrightarrow> list_all (func_clause_empty mixed_arena emp) (d_funcs d)"
proof -
  let ?n = "\<lparr>ar_args = [1], ar_ret = 0, ar_lit = None\<rparr>"
  have neg: "dnf_neg [Conj_pos_of ?n] = [\<lparr>conj_pos = [], conj_neg = [?n]\<rparr>]"
    by (simp add: dnf_neg_def neg_clause_def Conj_pos_of_def dnf_intersect_def dnf_intersect_with_def dnf_push_merged_def
        merge_clauses_def push_new_def Conj_top_def)
  have "?n \<notin> set (map int_sig [0..<n])" by (auto dest!: arg_cong [of _ _ set] split: if_splits)
  then have meet: "dnf_intersect [\<lparr>conj_pos = map int_sig [0..<n], conj_neg = []\<rparr>] [\<lparr>conj_pos = [], conj_neg = [?n]\<rparr>] =
      [\<lparr>conj_pos = map int_sig [0..<n], conj_neg = [?n]\<rparr>]"
    by (simp add: dnf_intersect_def dnf_intersect_with_def dnf_push_merged_def merge_clauses_def push_new_def list_ex_iff)
  have d: "d = (Descr_intersect (int_arrows n) (neg_structure (Descr_arrow [1] 0)))\<lparr>d_brands := FiniteSet_any\<rparr>"
    by (simp add: d_def Descr_diff_def int_arrows_eq)
      (simp add: Descr_arrow_def Descr_unbranded_def FiniteSet_contains_all_def FiniteSet_any_def)
  show funcs: "d_funcs d = [\<lparr>conj_pos = map int_sig [0..<n], conj_neg = [?n]\<rparr>]"
    using neg meet by (simp add: d Descr_intersect_def neg_structure_def int_arrows_eq arrow_funcs)
  have "descr_valid mixed_arena (int_arrows n)"
    by (auto simp: int_arrows_eq descr_valid_def Descr_tys_def Descr_unbranded_def Descr_none_def clause_sigs_def mixed_arena_def)
  moreover have "descr_valid mixed_arena (Descr_arrow [1] 0)" by (rule arrow_valid) (simp add: mixed_arena_def)
  ultimately show "descr_valid mixed_arena d" unfolding d_def by (rule valid_diff)
  show "emptiness_test mixed_arena emp d \<longleftrightarrow> list_all (func_clause_empty mixed_arena emp) (d_funcs d)"
    unfolding emptiness_test_def funcs
    by (simp add: d Descr_intersect_def int_arrows_eq Descr_unbranded_def Descr_none_def BasicBits_intersect_def
        BasicBits_is_empty_def BasicBits_NONE_def dnf_intersect_def dnf_intersect_with_def finite_set_defs
        FiniteSet_is_none_def split: bool.splits)
qed

lemma wide_subtype: "is_subtype mixed_arena (int_arrows 32) (Descr_arrow [1] 0)"
proof -
  let ?n = "\<lparr>ar_args = [1], ar_ret = 0, ar_lit = None\<rparr>" and ?ps = "map int_sig [0..<32]"
  define d where "d = Descr_diff (int_arrows 32) (Descr_arrow [1] 0)"
  note w = wide_difference [where n = 32, folded d_def]
  define e where "e = Descr_diff (snd (mask_sides mixed_arena ?ps 0)) (mixed_arena ! 0)"
  have "int_sig 0 \<in> dnf_sigs (d_funcs d)" by (simp add: w(1) clause_sigs_def)
  then have zero: "0 \<in> Descr_tys d" using arrow_tys(2) by fastforce
  have "e \<in> below mixed_arena d"
    unfolding e_def by (intro qf.difference qf.mask_sides_family qf.child ballI) (use zero in auto)
  then have light: "weight e < weight d" using weight_below [OF _ w(2)] mixed_arena_ok(1) zero by (auto simp: exact_arena_def)
  let ?Q = "{e. plain e \<and> narrow {} e \<and> descr_valid mixed_arena e}"
  have side: "snd (mask_sides mixed_arena ?ps 0) \<in> ?Q" "mixed_arena ! 0 \<in> ?Q"
    by (intro ee.mask_sides_family ee.child ballI; use mixed_arena_ok in \<open>auto simp: mixed_arena_def\<close>)+
  then have "e \<in> ?Q" unfolding e_def by (rule ee.difference)
  then have e: "plain e" "narrow {} e" "descr_valid mixed_arena e" by auto
  have "diff_exact (snd (mask_sides mixed_arena ?ps 0)) (mixed_arena ! 0)" using side by (intro plain_diff_exact) auto
  then have "\<not> den (\<lambda>_ _. False) mixed_arena e v" for v
    by (auto simp: e_def den_diff_exact den_mask_result mask_picks_def intro: exI [of _ "0 :: nat"])
  then have "is_empty_memo mixed_arena {d} e"
    using is_empty_memo_complete [OF _ _ mixed_arena_ok(2) e, of "{d}" "\<lambda>_ _. False"] mixed_arena_ok(1) light
    by (auto simp: exact_arena_def)
  moreover have "mask_end 32 = 1" by (simp add: mask_end_def)
  ultimately have "arrow_covered mixed_arena (is_empty_memo mixed_arena {d}) ?ps ?n"
    by (simp add: arrow_covered_def case_prod_beta e_def)
  then have "emptiness_test mixed_arena (is_empty_memo mixed_arena {d}) d"
    by (simp add: w(3) w(1) func_clause_empty_def map_filter_def)
  then show ?thesis
    using is_empty_memo_interned [OF _ w(2), of "{}"] mixed_arena_ok(1)
    by (simp add: is_subtype_def Descr_is_empty_def d_def exact_arena_def)
qed

section \<open>Properties\<close>

text \<open>
  C2. Subtyping is sound: over an interned arena (each descriptor names earlier entries
  only) without closure literals, for operands without closure literals that name entries
  of the arena, and when arena and operands together have fewer than 32 arrow signatures and
  no clause repeats one, what the test calls a subtype is one: every value of the first
  descriptor is a value of the second, whatever the brands, maps, resources, tuples, lists
  and arrows they are made of.
\<close>

theorem Descr_subtype_sound:
  assumes "arena_wf cx" and "arena_lit_free cx" and "lit_free a" "lit_free b" and "descr_valid cx a" "descr_valid cx b"
    and "few_arrows (a # b # cx)" and "is_subtype cx a b" and "den arr cx a v"
  shows "den arr cx b v"
proof -
  obtain A where A: "arena_narrow A cx" "narrow A a" "narrow A b" by (rule few_arrows_operands [OF assms(7)])
  from is_empty_memo_sound [OF assms(1,2) A(1) lit_free_ops(5) [OF assms(3,4)] narrow_ops(5) [OF A(2,3)]
      valid_diff [OF assms(5,6)], of "{}" arr v]
  show ?thesis using assms(8,9) den_diff_lower [of arr cx a v b] by (auto simp: is_subtype_def Descr_is_empty_def)
qed

theorem Descr_subtype_sound_witness:
  "den (\<lambda>_ _. False) small_arena (list_of 1) (Val None (SList [Val None (SBasic KInt)]))"
proof (rule Descr_subtype_sound [OF _ _ _ _ _ _ _ small_subtype])
  show "arena_wf small_arena" "arena_lit_free small_arena"
    using small_arena_ok(1) plain_lit_free by (auto simp: exact_arena_def)
  show "descr_valid small_arena (list_of 0)" "descr_valid small_arena (list_of 1)" by (simp_all add: small_arena_ok(2))
  show "few_arrows (list_of 0 # list_of 1 # small_arena)"
    by (rule arrow_free_few) (simp add: small_arena_def number_arrow_free)
qed (simp_all add: plain_lit_free list_of_plain list_of_den small_arena_def number_den)

text \<open>
  C10. Subtyping is exact on tuples, lists and arrows: over an interned arena of unbranded
  descriptors without closure literals whose resource and map axes are empty or full, for
  operands of the same kind that name entries of the arena, and when arena and operands
  together have fewer than 32 arrow signatures and no clause repeats one, the test answers
  precisely whether every value of the first descriptor is one of the second.
\<close>

theorem Descr_subtype_exact:
  assumes "exact_arena cx" and "plain a" "plain b" and "descr_valid cx a" "descr_valid cx b" and "few_arrows (a # b # cx)"
  shows "is_subtype cx a b \<longleftrightarrow> (\<forall>v. den arr cx a v \<longrightarrow> den arr cx b v)"
proof -
  obtain A where A: "arena_narrow A cx" "narrow A a" "narrow A b" by (rule few_arrows_operands [OF assms(6)])
  show ?thesis
    using Descr_is_empty_exact [OF assms(1) A(1) plain_diff [OF assms(2,3)] narrow_ops(5) [OF A(2,3)]
        valid_diff [OF assms(4,5)], of arr]
      den_diff_exact [OF plain_diff_exact [OF assms(2,3)], of arr cx] by (auto simp: is_subtype_def)
qed

theorem Descr_subtype_exact_witness:
  "\<not> is_subtype small_arena (Descr_arrow [0] 1) (Descr_arrow [0] 0)"
proof -
  let ?a = "Descr_arrow [0] 1" and ?b = "Descr_arrow [0] 0"
  let ?v = "Val None (SFun 0 [([Val None (SBasic KInt)], Val None (SBasic KFloat))])"
  have "den (\<lambda>_ _. False) small_arena ?a ?v" "\<not> den (\<lambda>_ _. False) small_arena ?b ?v"
    by (simp_all add: Descr_arrow_den arrow_sat_def tuple_sat_def small_arena_def number_den)
  moreover have "few_arrows (?a # ?b # small_arena)"
    by (simp add: few_arrows_def small_arena_def number_arrow_free pos_distinct_def arrow_funcs Conj_pos_of_def clause_sigs_def)
  ultimately show ?thesis
    using Descr_subtype_exact [of small_arena ?a ?b "\<lambda>_ _. False"] small_arena_ok(1) arrow_plain
      arrow_valid [of 1 "[0]" small_arena] arrow_valid [of 0 "[0]" small_arena] by (auto simp: small_arena_def)
qed

text \<open>
  C21. The bound of 32 arrows is sharp: on the meet of 32 arrows, all of whose domains miss
  an atom, the mask's shift wraps around, a single subset of the arrows is looked at, and
  the test calls the meet a subtype of an arrow from atoms to integers, although a function
  that takes an atom to an atom belongs to the meet and not to that arrow.
\<close>

theorem Descr_subtype_wraps_at_32_arrows:
  "is_subtype mixed_arena (int_arrows 32) (Descr_arrow [1] 0) \<and>
   den arr mixed_arena (int_arrows 32) atom_function \<and> \<not> den arr mixed_arena (Descr_arrow [1] 0) atom_function"
  using wide_subtype int_arrows_den [of arr 32] atom_function_arrow [of arr] by simp

text \<open>
  C29. The set operations of descriptors mean the set operations of values: intersection
  always; union and difference never lose a value, and are exact when the brand slots agree,
  respectively when the slots are nested or disjoint or the structures are equal.
\<close>

theorem Descr_set_operations:
  "(den arr cx (Descr_intersect a b) v \<longleftrightarrow> den arr cx a v \<and> den arr cx b v) \<and>
   (den arr cx a v \<or> den arr cx b v \<longrightarrow> den arr cx (Descr_union a b) v) \<and>
   (d_brands a = d_brands b \<longrightarrow> (den arr cx (Descr_union a b) v \<longleftrightarrow> den arr cx a v \<or> den arr cx b v)) \<and>
   (den arr cx a v \<and> \<not> den arr cx b v \<longrightarrow> den arr cx (Descr_diff a b) v) \<and>
   (den arr cx (Descr_diff a b) v \<longrightarrow> den arr cx a v) \<and>
   (diff_exact a b \<longrightarrow> (den arr cx (Descr_diff a b) v \<longleftrightarrow> den arr cx a v \<and> \<not> den arr cx b v))"
  using den_union_upper [of arr cx a v b] den_union_exact [of a b arr cx v] den_diff_lower [of arr cx a v b]
    den_diff_upper [of arr cx a b v] den_diff_exact [of a b arr cx v] by (simp only: den_intersect) blast

theorem Descr_set_operations_witness:
  "den (\<lambda>_ _. False) small_arena (Descr_diff (list_of 1) (list_of 0)) (Val None (SList [Val None (SBasic KFloat)])) \<and>
   \<not> den (\<lambda>_ _. False) small_arena (Descr_diff (list_of 1) (list_of 0)) (Val None (SList [Val None (SBasic KInt)]))"
proof -
  let ?den = "den (\<lambda>_ _. False) small_arena" and ?d = "Descr_diff (list_of 1) (list_of 0)"
  have "diff_exact (list_of 1) (list_of 0)" by (simp add: plain_diff_exact list_of_plain)
  then have "?den ?d v \<longleftrightarrow> ?den (list_of 1) v \<and> \<not> ?den (list_of 0) v" for v
    using Descr_set_operations [of "\<lambda>_ _. False" small_arena "list_of 1" "list_of 0" v] by blast
  then show ?thesis by (simp add: list_of_den small_arena_def number_den)
qed

text \<open>
  Disjointness that ignores nominal information is sound: when the test calls two
  descriptors value-disjoint, no two values of the same shape belong one to each, whatever
  brands the values carry.
\<close>

theorem Descr_value_disjoint_sound:
  assumes "arena_wf cx" and "arena_lit_free cx" and "lit_free a" "lit_free b" and "descr_valid cx a" "descr_valid cx b"
    and "few_arrows (erase_nominal a # erase_nominal b # cx)"
    and "value_disjoint cx a b" and "den arr cx a v" and "den arr cx b w"
  shows "val_shape v \<noteq> val_shape w"
proof
  assume same: "val_shape v = val_shape w"
  let ?e = "Descr_intersect (erase_nominal a) (erase_nominal b)"
  have "descr_valid cx ?e" using valid_erase [OF assms(5)] valid_erase [OF assms(6)] Descr_tys_intersect [of "erase_nominal a" "erase_nominal b"]
    by (auto simp: descr_valid_def)
  moreover have "lit_free ?e" using lit_free_erase assms(3,4) lit_free_ops(4) by blast
  moreover obtain A where "arena_narrow A cx" "narrow A ?e"
    by (rule few_arrows_operands [OF assms(7)]) (blast intro: narrow_ops(4))
  ultimately have "\<not> den arr cx ?e (Val None (val_shape v))"
    using is_empty_memo_sound [OF assms(1,2), of A ?e "{}" arr "Val None (val_shape v)"] assms(8)
    unfolding value_disjoint_def Descr_is_empty_def by blast
  then show False using erase_nominal_den [OF assms(9), of None] erase_nominal_den [OF assms(10), of None] same by simp
qed

text \<open>A branded integer beside an atom: the erased descriptors share no value.\<close>

definition meters :: Descr where
  "meters = Descr_int\<lparr>d_brands := FiniteSet_lit ''Meters''\<rparr>"

lemma meters_erased: "erase_nominal meters = Descr_int" "erase_nominal atom_top = atom_top"
proof -
  have ne: "\<not> looks_empty meters" "\<not> looks_empty atom_top"
    by (simp_all add: looks_empty_def meters_def atom_top_def Descr_int_def from_basic_def structure_looks_empty_def
        FiniteSet_is_none_def FiniteSet_lit_def FiniteSet_finite_def BasicBits_is_empty_def BasicBits_INT_def
        Descr_unbranded_def FiniteSet_any_def)
  then show "erase_nominal meters = Descr_int" "erase_nominal atom_top = atom_top"
    using ne by (simp_all add: erase_nominal_def meters_def Descr_int_def from_basic_def atom_top_def Descr_unbranded_def
        Descr_none_def FiniteSet_is_none_def FiniteSet_none_def)
qed

lemma meters_disjoint: "value_disjoint small_arena meters atom_top"
proof -
  have p: "plain atom_top" by (simp add: plain_def atom_top_def lit_free_def Descr_unbranded_def Descr_none_def)
  have "\<not> den arr small_arena (Descr_intersect Descr_int atom_top) v" for arr v
    by (auto simp: number_den) (simp add: den_shape atom_top_def Descr_unbranded_def Descr_none_def)
  moreover have "descr_valid small_arena (Descr_intersect Descr_int atom_top)"
    using Descr_tys_intersect [of Descr_int atom_top]
    by (simp add: descr_valid_def Descr_tys_def Descr_int_def from_basic_def atom_top_def Descr_unbranded_def Descr_none_def)
  ultimately show ?thesis
    using Descr_is_empty_exact [OF small_arena_ok(1) small_arena_narrow plain_intersect [OF numbers_plain(1) p]
        narrow_ops(4) [OF arrow_free_narrow arrow_free_narrow]] number_arrow_free by (simp add: value_disjoint_def meters_erased)
qed

theorem Descr_value_disjoint_sound_witness:
  "val_shape (Val (Some ''Meters'') (SBasic KInt)) \<noteq> val_shape (Val None (SAtom ''ok''))"
proof (rule Descr_value_disjoint_sound [OF _ _ _ _ _ _ _ meters_disjoint])
  show "few_arrows (erase_nominal meters # erase_nominal atom_top # small_arena)"
    by (rule arrow_free_few) (simp add: meters_erased small_arena_def number_arrow_free)
  show "arena_wf small_arena" "arena_lit_free small_arena"
    using small_arena_ok(1) plain_lit_free by (auto simp: exact_arena_def)
  show "lit_free meters" "lit_free atom_top" "descr_valid small_arena meters" "descr_valid small_arena atom_top"
    by (simp_all add: lit_free_def meters_def atom_top_def Descr_int_def from_basic_def Descr_unbranded_def Descr_none_def
        descr_valid_def Descr_tys_def)
  show "den (\<lambda>_ _. False) small_arena atom_top (Val None (SAtom ''ok''))"
    by (simp add: den_shape atom_top_def Descr_unbranded_def)
  have "den (\<lambda>_ _. False) small_arena Descr_int (Val (Some ''Meters'') (SBasic KInt))" by (simp add: number_den)
  then show "den (\<lambda>_ _. False) small_arena meters (Val (Some ''Meters'') (SBasic KInt))"
    by (auto simp: meters_def den_shape brand_holds_def finite_set_defs)
qed

text \<open>
  The readers that give one signature for a descriptor lose nothing: when a reader
  answers, the descriptor holds exactly of the values of that axis its signature admits,
  and the alternatives of a projection are together the descriptor.
\<close>

theorem Descr_pure_readers:
  assumes "\<forall>v. den arr cx (cx ! any_ty) v"
  shows "(as_pure_list any_ty d = Some l \<longrightarrow> (den arr cx d v \<longleftrightarrow> (\<exists>vs. val_shape v = SList vs \<and> list_sat arr cx l vs))) \<and>
    (pure_resource any_ty d = Some r \<longrightarrow> (den arr cx d v \<longleftrightarrow> (\<exists>x. val_shape v = SResource x \<and> resource_sat arr cx r x))) \<and>
    (pure_tuple d = Some t \<longrightarrow> (den arr cx d v \<longleftrightarrow> (\<exists>vs. val_shape v = STuple vs \<and> tuple_sat arr cx t vs))) \<and>
    (pure_record d = Some m \<longrightarrow>
       (den arr cx d v \<longleftrightarrow> (\<exists>tag kvs. val_shape v = SMap tag kvs \<and> map_sat arr cx m (tag, map_of kvs)))) \<and>
    (pure_arrow d = Some s \<longrightarrow> (den arr cx d v \<longleftrightarrow> (\<exists>f graph. val_shape v = SFun f graph \<and> arrow_sat arr cx s (f, graph)))) \<and>
    (projection_alternatives d = Some alts \<longrightarrow> (den arr cx d v \<longleftrightarrow> (\<exists>a \<in> set alts. den arr cx a v)))"
  using as_pure_list_den [of any_ty d l arr cx v] pure_resource_den [of any_ty d r arr cx v] pure_tuple_den [of d t arr cx v]
    pure_record_den [of d m arr cx v] pure_arrow_den [of d s arr cx v] projection_alternatives_den [of d alts arr cx v] assms
  by blast

theorem Descr_pure_readers_witness:
  "den (\<lambda>_ _. False) [Descr_any] (list_of 0) (Val None (SList [])) \<and>
   as_pure_list 0 (list_of 0) = Some (ListSig_possibly_empty 0)"
proof -
  have r: "as_pure_list 0 (list_of 0) = Some (ListSig_possibly_empty 0)"
    by (simp add: as_pure_list_def pure_axis_def list_of_def list_sig_def Descr_unbranded_def Descr_none_def axis_free_def
        single_positive_def Conj_pos_of_def Conj_is_top_def FiniteSet_is_none_def FiniteSet_none_def FiniteSet_is_any_def
        FiniteSet_any_def BasicBits_is_empty_def BasicBits_NONE_def)
  have "\<forall>v. den (\<lambda>_ _. False) [Descr_any] ([Descr_any] ! 0) v" by simp
  from Descr_pure_readers [OF this, of "list_of 0" "ListSig_possibly_empty 0" "Val None (SList [])"] r
  show ?thesis by (simp add: list_sat_def ListSig_possibly_empty_def)
qed

end
