(* ===== verification/Fz_Memory.thy ===== *)
theory Fz_Memory
  imports Fz_Prelude
begin

unbundle bit_operations_syntax

text \<open>
  The machine below the runtime's \<open>unsafe\<close> code: a byte-addressed memory of 64-bit
  addresses, the little-endian loads and stores of \<open>ptr::read\<close> and \<open>ptr::write\<close> on both
  supported targets (\<open>aarch64\<close>, \<open>x86_64\<close>), and the outcome of a Rust function that may
  return \<open>Err\<close> or panic.  The lemmas say what a load sees after a store to the same or to a
  disjoint range; ranges are given as offsets from one base address, so they hold wherever
  the object lies.
\<close>

section \<open>Outcomes of fallible Rust code\<close>

datatype 'e fault = Panic | Err 'e

type_synonym ('e, 'a) outcome = "'e fault + 'a"

primrec and_then :: "('e, 'a) outcome \<Rightarrow> ('a \<Rightarrow> ('e, 'b) outcome) \<Rightarrow> ('e, 'b) outcome" where
  "and_then (Inl e) f = Inl e"
| "and_then (Inr x) f = f x"

lemma and_then_ok_iff [simp]:
  "and_then r f = Inr y \<longleftrightarrow> (\<exists>x. r = Inr x \<and> f x = Inr y)"
  by (cases r) auto

text \<open>\<open>Result::expect\<close> and \<open>Option::expect\<close>: the error becomes a panic.\<close>

primrec expect_ok :: "('e, 'a) outcome \<Rightarrow> ('f, 'a) outcome" where
  "expect_ok (Inl e) = Inl Panic"
| "expect_ok (Inr x) = Inr x"

primrec expect_some :: "'a option \<Rightarrow> ('e, 'a) outcome" where
  "expect_some None = Inl Panic"
| "expect_some (Some x) = Inr x"

lemma expect_ok_iff [simp]: "expect_ok r = Inr x \<longleftrightarrow> r = Inr x"
  by (cases r) auto

lemma expect_some_iff [simp]: "expect_some r = Inr x \<longleftrightarrow> r = Some x"
  by (cases r) auto

section \<open>Words as sequences of bytes\<close>

definition byte_of :: "'a::len word \<Rightarrow> nat \<Rightarrow> u8" where
  "byte_of w i = ucast (drop_bit (8 * i) w)"

definition to_bytes :: "nat \<Rightarrow> 'a::len word \<Rightarrow> u8 list" where
  "to_bytes n w = map (byte_of w) [0..<n]"

fun of_bytes :: "u8 list \<Rightarrow> 'a::len word" where
  "of_bytes [] = 0"
| "of_bytes (b # bs) = ucast b OR push_bit 8 (of_bytes bs)"

lemma length_to_bytes [simp]: "length (to_bytes n w) = n"
  by (simp add: to_bytes_def)

lemma bit_byte_of: "bit (byte_of w i) n \<longleftrightarrow> n < 8 \<and> bit w (8 * i + n)"
  by (auto simp: byte_of_def bit_simps ac_simps)

lemma bit_of_bytes:
  "bit (of_bytes bs :: 'a::len word) n \<longleftrightarrow>
     n < LENGTH('a) \<and> n div 8 < length bs \<and> bit (bs ! (n div 8)) (n mod 8)"
proof (induction bs arbitrary: n)
  case (Cons b bs)
  show ?case
  proof (cases "n < 8")
    case True
    then show ?thesis by (auto simp: bit_simps)
  next
    case False
    then have "n div 8 = Suc ((n - 8) div 8)" "n mod 8 = (n - 8) mod 8"
      by (simp_all add: div_if le_mod_geq)
    moreover have "\<not> bit b n"
      using False by (auto dest: bit_imp_le_length)
    ultimately show ?thesis
      using False by (auto simp: bit_simps Cons.IH)
  qed
qed simp

lemma of_to_bytes: "LENGTH('a) \<le> 8 * n \<Longrightarrow> of_bytes (to_bytes n w) = (w :: 'a::len word)"
  by (rule bit_word_eqI) (auto simp: bit_of_bytes to_bytes_def bit_byte_of div_less_iff_less_mult)

section \<open>Loads and stores\<close>

type_synonym memory = "u64 \<Rightarrow> u8"

definition load :: "memory \<Rightarrow> u64 \<Rightarrow> nat \<Rightarrow> u8 list" where
  "load m a n = map (\<lambda>i. m (a + of_nat i)) [0..<n]"

definition store :: "memory \<Rightarrow> u64 \<Rightarrow> u8 list \<Rightarrow> memory" where
  "store m a bs = (\<lambda>x. if unat (x - a) < length bs then bs ! unat (x - a) else m x)"

definition read_u8 :: "memory \<Rightarrow> u64 \<Rightarrow> u8" where
  "read_u8 m a = m a"

definition read_u32 :: "memory \<Rightarrow> u64 \<Rightarrow> u32" where
  "read_u32 m a = of_bytes (load m a 4)"

definition read_u64 :: "memory \<Rightarrow> u64 \<Rightarrow> u64" where
  "read_u64 m a = of_bytes (load m a 8)"

definition write_u8 :: "memory \<Rightarrow> u64 \<Rightarrow> u8 \<Rightarrow> memory" where
  "write_u8 m a b = store m a [b]"

definition write_u32 :: "memory \<Rightarrow> u64 \<Rightarrow> u32 \<Rightarrow> memory" where
  "write_u32 m a w = store m a (to_bytes 4 w)"

definition write_u64 :: "memory \<Rightarrow> u64 \<Rightarrow> u64 \<Rightarrow> memory" where
  "write_u64 m a w = store m a (to_bytes 8 w)"

text \<open>
  Two ranges at offsets from one base are apart when one ends where the other begins or
  earlier; neither may reach around the address space.
\<close>

definition apart :: "nat \<Rightarrow> nat \<Rightarrow> nat \<Rightarrow> nat \<Rightarrow> bool" where
  "apart x n y k \<longleftrightarrow> (x + n \<le> y \<or> y + k \<le> x) \<and> x + n \<le> 2 ^ 64 \<and> y + k \<le> 2 ^ 64"

lemma length_load [simp]: "length (load m a n) = n"
  by (simp add: load_def)

lemma unat_of_nat_small: "n < 2 ^ 64 \<Longrightarrow> unat (of_nat n :: u64) = n"
  by (simp add: unat_of_nat take_bit_nat_eq_self)

lemma unat_offset_diff:
  assumes "x < 2 ^ 64" and "y < 2 ^ 64"
  shows "unat ((of_nat x :: u64) - of_nat y) = (if y \<le> x then x - y else 2 ^ 64 - (y - x))"
proof (cases "y \<le> x")
  case True
  then have "(of_nat x :: u64) - of_nat y = of_nat (x - y)"
    by (simp add: of_nat_diff)
  then show ?thesis
    using assms True unat_of_nat_small [of "x - y"] by simp
next
  case False
  have "(of_nat (2 ^ 64) :: u64) = 0"
    by simp
  moreover have "of_nat (2 ^ 64 - (y - x)) = (of_nat (2 ^ 64) :: u64) - of_nat (y - x)"
    using assms by (intro of_nat_diff) simp
  ultimately have "(of_nat x :: u64) - of_nat y = of_nat (2 ^ 64 - (y - x))"
    using False by (simp add: of_nat_diff del: of_nat_numeral)
  moreover have "2 ^ 64 - (y - x) < (2 ^ 64 :: nat)"
    using False by simp
  ultimately show ?thesis
    using False unat_of_nat_small [of "2 ^ 64 - (y - x)"] by simp
qed

lemma store_at:
  assumes "x < 2 ^ 64" and "y < 2 ^ 64" and "y + length bs \<le> 2 ^ 64"
  shows "store m (a + of_nat y) bs (a + of_nat x) =
     (if y \<le> x \<and> x < y + length bs then bs ! (x - y) else m (a + of_nat x))"
proof -
  have "unat ((a + of_nat x) - (a + of_nat y) :: u64) = (if y \<le> x then x - y else 2 ^ 64 - (y - x))"
    using unat_offset_diff [OF assms(1,2)] by simp
  then show ?thesis
    using assms by (auto simp: store_def simp del: add_diff_cancel_left)
qed

lemma load_store_same: "length bs < 2 ^ 64 \<Longrightarrow> load (store m a bs) a (length bs) = bs"
  by (rule nth_equalityI) (simp_all add: load_def store_def unat_of_nat_small)

lemma load_store_apart:
  assumes "apart x n y (length bs)"
  shows "load (store m (a + of_nat y) bs) (a + of_nat x) n = load m (a + of_nat x) n"
proof (cases "n = 0 \<or> bs = []")
  case True
  then show ?thesis by (auto simp: load_def store_def)
next
  case False
  have "store m (a + of_nat y) bs (a + of_nat (x + i)) = m (a + of_nat (x + i))" if "i < n" for i
    using assms False that by (subst store_at) (auto simp: apart_def neq_Nil_conv)
  then show ?thesis
    by (auto simp: load_def add.assoc)
qed

lemma read_write_same [simp]:
  "read_u8 (write_u8 m a b) a = b"
  "read_u32 (write_u32 m a v) a = v"
  "read_u64 (write_u64 m a w) a = w"
  using load_store_same [of "to_bytes 4 v" m a] load_store_same [of "to_bytes 8 w" m a]
  by (simp_all add: read_u8_def write_u8_def store_def read_u32_def write_u32_def
      read_u64_def write_u64_def of_to_bytes)

lemma read_u8_load: "read_u8 m a = hd (load m a 1)"
  by (simp add: read_u8_def load_def)

lemma read_write_apart:
  "apart x 1 y 1 \<Longrightarrow> read_u8 (write_u8 m (a + of_nat y) b) (a + of_nat x) = read_u8 m (a + of_nat x)"
  "apart x 1 y 4 \<Longrightarrow> read_u8 (write_u32 m (a + of_nat y) v) (a + of_nat x) = read_u8 m (a + of_nat x)"
  "apart x 1 y 8 \<Longrightarrow> read_u8 (write_u64 m (a + of_nat y) w) (a + of_nat x) = read_u8 m (a + of_nat x)"
  "apart x 4 y 1 \<Longrightarrow> read_u32 (write_u8 m (a + of_nat y) b) (a + of_nat x) = read_u32 m (a + of_nat x)"
  "apart x 4 y 4 \<Longrightarrow> read_u32 (write_u32 m (a + of_nat y) v) (a + of_nat x) = read_u32 m (a + of_nat x)"
  "apart x 4 y 8 \<Longrightarrow> read_u32 (write_u64 m (a + of_nat y) w) (a + of_nat x) = read_u32 m (a + of_nat x)"
  "apart x 8 y 1 \<Longrightarrow> read_u64 (write_u8 m (a + of_nat y) b) (a + of_nat x) = read_u64 m (a + of_nat x)"
  "apart x 8 y 4 \<Longrightarrow> read_u64 (write_u32 m (a + of_nat y) v) (a + of_nat x) = read_u64 m (a + of_nat x)"
  "apart x 8 y 8 \<Longrightarrow> read_u64 (write_u64 m (a + of_nat y) w) (a + of_nat x) = read_u64 m (a + of_nat x)"
  by (simp_all add: read_u8_load read_u32_def read_u64_def write_u8_def write_u32_def write_u64_def
      load_store_apart)

end
