(* ===== verification/Fz_AnyValue.thy ===== *)
theory Fz_AnyValue
  imports Fz_Memory
begin

unbundle bit_operations_syntax

text \<open>
  Runtime values, from \<open>runtime/src/any_value.rs\<close>: kinds and their tags, the tagged
  64-bit reference word with its architecture-dependent packing, and the two storage forms
  of a value (reference word; raw payload beside a kind byte).  The target architecture,
  a compile-time choice of the source, is an argument.  An invalid tag, a wrong kind, a null
  address and a non-finite float are the error branches of the code; debug assertions are
  modelled as in a debug build, as panics.  \<open>INTEGER\<close> is the code's \<open>ValueKind::INT\<close>
  (that name is a HOL quantifier).
\<close>

section \<open>Kinds and tags\<close>

definition TAG_MASK :: u64 where [word_layout]: "TAG_MASK = 0xF"
definition TAG_LIST :: u64 where [word_layout]: "TAG_LIST = 0x1"
definition TAG_RESOURCE :: u64 where [word_layout]: "TAG_RESOURCE = 0x7"
definition TAG_FWD :: u64 where [word_layout]: "TAG_FWD = 0x8"
definition NIL_ATOM_ID :: u32 where [word_layout]: "NIL_ATOM_ID = 0"
definition TRUE_ATOM_ID :: u32 where [word_layout]: "TRUE_ATOM_ID = 1"
definition FALSE_ATOM_ID :: u32 where [word_layout]: "FALSE_ATOM_ID = 2"
definition NIL_BITS :: u64 where [word_layout]: "NIL_BITS = 0"
definition EMPTY_LIST :: u64 where [word_layout]: "EMPTY_LIST = 0x8"

datatype ValueKind =
  NULL | LIST | MAP | STRUCT | CLOSURE | BITSTRING | PROCBIN | RESOURCE | INTEGER | FLOAT | ATOM

primrec ValueKind_tag :: "ValueKind \<Rightarrow> u8" where
  "ValueKind_tag NULL = 0x0"
| "ValueKind_tag LIST = 0x1"
| "ValueKind_tag MAP = 0x2"
| "ValueKind_tag STRUCT = 0x3"
| "ValueKind_tag CLOSURE = 0x4"
| "ValueKind_tag BITSTRING = 0x5"
| "ValueKind_tag PROCBIN = 0x6"
| "ValueKind_tag RESOURCE = 0x7"
| "ValueKind_tag INTEGER = 0xD"
| "ValueKind_tag FLOAT = 0xE"
| "ValueKind_tag ATOM = 0xF"

definition ValueKind_new :: "u8 \<Rightarrow> ValueKind option" where
  "ValueKind_new tag =
     (if tag = 0x0 then Some NULL else if tag = 0x1 then Some LIST
      else if tag = 0x2 then Some MAP else if tag = 0x3 then Some STRUCT
      else if tag = 0x4 then Some CLOSURE else if tag = 0x5 then Some BITSTRING
      else if tag = 0x6 then Some PROCBIN else if tag = 0x7 then Some RESOURCE
      else if tag = 0xD then Some INTEGER else if tag = 0xE then Some FLOAT
      else if tag = 0xF then Some ATOM else None)"

definition is_heap :: "ValueKind \<Rightarrow> bool" where
  "is_heap k \<longleftrightarrow> ucast TAG_LIST \<le> ValueKind_tag k \<and> ValueKind_tag k \<le> ucast TAG_RESOURCE"

definition is_scalar :: "ValueKind \<Rightarrow> bool" where
  "is_scalar k \<longleftrightarrow> k = INTEGER \<or> k = FLOAT \<or> k = ATOM"

definition is_binary_repr :: "ValueKind \<Rightarrow> bool" where
  "is_binary_repr k \<longleftrightarrow> k = BITSTRING \<or> k = PROCBIN"

definition from_heap_tag :: "u64 \<Rightarrow> ValueKind option" where
  "from_heap_tag tag = (if TAG_LIST \<le> tag \<and> tag \<le> TAG_RESOURCE then ValueKind_new (ucast tag) else None)"

datatype AnyValueRefError =
  UnknownTag u8
| ExpectedTag ValueKind ValueKind
| ExpectedScalarTag ValueKind
| ExpectedHeapObjectTag ValueKind
| NullAddress ValueKind

type_synonym 'a ref_outcome = "(AnyValueRefError, 'a) outcome"

section \<open>Packing of a reference word\<close>

datatype TaggedRefArch = Arm64Tbi | X86_64Canonical57

record AnyValueRefPacking =
  tag_shift :: nat
  address_mask :: u64

definition packing_new :: "nat \<Rightarrow> AnyValueRefPacking" where
  "packing_new shift = \<lparr> tag_shift = shift, address_mask = push_bit shift 1 - 1 \<rparr>"

primrec for_arch :: "TaggedRefArch \<Rightarrow> AnyValueRefPacking" where
  "for_arch Arm64Tbi = packing_new 56"
| "for_arch X86_64Canonical57 = packing_new 57"

type_synonym AnyValueRef = u64

definition pack :: "AnyValueRefPacking \<Rightarrow> ValueKind \<Rightarrow> u64 \<Rightarrow> AnyValueRef" where
  "pack p tag address =
     push_bit (tag_shift p) (ucast (ValueKind_tag tag)) OR (address AND address_mask p)"

definition packing_tag :: "AnyValueRefPacking \<Rightarrow> AnyValueRef \<Rightarrow> ValueKind ref_outcome" where
  "packing_tag p value =
     (let raw = ucast (drop_bit (tag_shift p) value)
      in case ValueKind_new raw of None \<Rightarrow> Inl (Err (UnknownTag raw)) | Some k \<Rightarrow> Inr k)"

definition packing_address :: "AnyValueRefPacking \<Rightarrow> AnyValueRef \<Rightarrow> u64" where
  "packing_address p value = value AND address_mask p"

section \<open>Reference words\<close>

definition from_raw_word :: "TaggedRefArch \<Rightarrow> u64 \<Rightarrow> AnyValueRef ref_outcome" where
  "from_raw_word arch word = and_then (packing_tag (for_arch arch) word) (\<lambda>_. Inr word)"

definition ref_null :: "TaggedRefArch \<Rightarrow> AnyValueRef" where
  "ref_null arch = pack (for_arch arch) NULL 0"

definition ref_empty_list :: "TaggedRefArch \<Rightarrow> AnyValueRef" where
  "ref_empty_list arch = pack (for_arch arch) LIST 0"

definition from_scalar_slot :: "TaggedRefArch \<Rightarrow> ValueKind \<Rightarrow> u64 \<Rightarrow> AnyValueRef ref_outcome" where
  "from_scalar_slot arch tag slot =
     (if \<not> is_scalar tag then Inl (Err (ExpectedScalarTag tag))
      else if slot = 0 then Inl (Err (NullAddress tag))
      else Inr (pack (for_arch arch) tag slot))"

definition from_heap_object :: "TaggedRefArch \<Rightarrow> ValueKind \<Rightarrow> u64 \<Rightarrow> AnyValueRef ref_outcome" where
  "from_heap_object arch tag addr =
     (if \<not> is_heap tag then Inl (Err (ExpectedHeapObjectTag tag))
      else if addr = 0 \<and> tag \<noteq> LIST then Inl (Err (NullAddress tag))
      else Inr (pack (for_arch arch) tag addr))"

definition ref_tag :: "TaggedRefArch \<Rightarrow> AnyValueRef \<Rightarrow> ValueKind ref_outcome" where
  "ref_tag arch value = expect_ok (packing_tag (for_arch arch) value)"

definition cleared_addr :: "TaggedRefArch \<Rightarrow> AnyValueRef \<Rightarrow> u64" where
  "cleared_addr arch value = packing_address (for_arch arch) value"

definition expect_tag :: "TaggedRefArch \<Rightarrow> AnyValueRef \<Rightarrow> ValueKind \<Rightarrow> unit ref_outcome" where
  "expect_tag arch value expected =
     and_then (ref_tag arch value)
       (\<lambda>found. if found = expected then Inr () else Inl (Err (ExpectedTag expected found)))"

definition is_empty_list :: "TaggedRefArch \<Rightarrow> AnyValueRef \<Rightarrow> bool ref_outcome" where
  "is_empty_list arch value =
     and_then (ref_tag arch value) (\<lambda>k. Inr (k = LIST \<and> cleared_addr arch value = 0))"

definition is_heap_root :: "TaggedRefArch \<Rightarrow> AnyValueRef \<Rightarrow> bool ref_outcome" where
  "is_heap_root arch value =
     and_then (ref_tag arch value) (\<lambda>k.
       if is_heap k then and_then (is_empty_list arch value) (\<lambda>e. Inr (\<not> e)) else Inr False)"

text \<open>The three scalar loads read the eight bytes the reference addresses.\<close>

definition load_scalar :: "TaggedRefArch \<Rightarrow> ValueKind \<Rightarrow> memory \<Rightarrow> AnyValueRef \<Rightarrow> u64 ref_outcome" where
  "load_scalar arch k m value =
     and_then (expect_tag arch value k) (\<lambda>_. Inr (read_u64 m (cleared_addr arch value)))"

abbreviation "load_int arch \<equiv> load_scalar arch INTEGER"
abbreviation "load_float arch \<equiv> load_scalar arch FLOAT"
abbreviation "load_atom arch \<equiv> load_scalar arch ATOM"

definition ref_heap_addr :: "TaggedRefArch \<Rightarrow> AnyValueRef \<Rightarrow> ValueKind \<Rightarrow> u64 ref_outcome" where
  "ref_heap_addr arch value expected =
     (if \<not> is_heap expected then Inl (Err (ExpectedHeapObjectTag expected))
      else and_then (expect_tag arch value expected) (\<lambda>_. Inr (cleared_addr arch value)))"

definition storage_raw :: "TaggedRefArch \<Rightarrow> memory \<Rightarrow> AnyValueRef \<Rightarrow> u64 ref_outcome" where
  "storage_raw arch m value =
     and_then (is_empty_list arch value) (\<lambda>e. if e then Inr 0 else
       and_then (ref_tag arch value) (\<lambda>k.
         case k of NULL \<Rightarrow> Inr 0
         | INTEGER \<Rightarrow> load_int arch m value
         | FLOAT \<Rightarrow> load_float arch m value
         | ATOM \<Rightarrow> load_atom arch m value
         | _ \<Rightarrow> Inr (cleared_addr arch value)))"

section \<open>Object-local tagged words\<close>

definition heap_kind_from_tagged :: "u64 \<Rightarrow> ValueKind option" where
  "heap_kind_from_tagged bits = from_heap_tag (bits AND TAG_MASK)"

definition heap_addr_from_tagged :: "u64 \<Rightarrow> u64 option" where
  "heap_addr_from_tagged bits = map_option (\<lambda>_. bits AND NOT TAG_MASK) (heap_kind_from_tagged bits)"

definition heap_object_word :: "u64 \<Rightarrow> ValueKind \<Rightarrow> u64 ref_outcome" where
  "heap_object_word addr kind =
     (if is_heap kind \<and> addr AND TAG_MASK = 0 then Inr (addr OR ucast (ValueKind_tag kind)) else Inl Panic)"

definition addr_from_tagged :: "ValueKind \<Rightarrow> u64 \<Rightarrow> u64 option" where
  "addr_from_tagged k bits =
     (if bits AND TAG_MASK = ucast (ValueKind_tag k) then Some (bits AND NOT TAG_MASK) else None)"

abbreviation "list_addr_from_tagged \<equiv> addr_from_tagged LIST"
abbreviation "map_addr_from_tagged \<equiv> addr_from_tagged MAP"
abbreviation "struct_addr_from_tagged \<equiv> addr_from_tagged STRUCT"
abbreviation "closure_addr_from_tagged \<equiv> addr_from_tagged CLOSURE"
abbreviation "bitstring_addr_from_tagged \<equiv> addr_from_tagged BITSTRING"
abbreviation "procbin_addr_from_tagged \<equiv> addr_from_tagged PROCBIN"
abbreviation "resource_addr_from_tagged \<equiv> addr_from_tagged RESOURCE"

definition is_forwarded :: "memory \<Rightarrow> u64 \<Rightarrow> u64 option" where
  "is_forwarded m addr =
     (let marker = read_u64 m addr
      in if marker AND TAG_MASK = TAG_FWD then Some (marker AND NOT TAG_MASK) else None)"

section \<open>Values\<close>

datatype AnyValue = Null | EmptyList | Integer u64 | Float u64 | Atom u32 | HeapRef AnyValueRef

text \<open>\<open>f64::is_finite\<close> on the bits of the float: the exponent field is not all ones.\<close>

definition is_finite :: "u64 \<Rightarrow> bool" where
  "is_finite bits \<longleftrightarrow> drop_bit 52 bits AND 0x7FF \<noteq> 0x7FF"

definition AnyValue_float :: "u64 \<Rightarrow> AnyValue ref_outcome" where
  "AnyValue_float bits = (if is_finite bits then Inr (Float bits) else Inl Panic)"

definition bool_atom :: "bool \<Rightarrow> AnyValue" where
  "bool_atom value = (if value then Atom TRUE_ATOM_ID else Atom FALSE_ATOM_ID)"

definition heap_ptr :: "TaggedRefArch \<Rightarrow> u64 \<Rightarrow> ValueKind \<Rightarrow> AnyValue ref_outcome" where
  "heap_ptr arch addr kind =
     (if \<not> is_heap kind then Inl Panic
      else and_then (expect_ok (from_heap_object arch kind addr)) (\<lambda>r. Inr (HeapRef r)))"

definition from_ref :: "TaggedRefArch \<Rightarrow> memory \<Rightarrow> AnyValueRef \<Rightarrow> AnyValue ref_outcome" where
  "from_ref arch m value =
     and_then (is_empty_list arch value) (\<lambda>e. if e then Inr EmptyList else
       and_then (ref_tag arch value) (\<lambda>k.
         case k of NULL \<Rightarrow> Inr Null
         | INTEGER \<Rightarrow> and_then (load_int arch m value) (\<lambda>x. Inr (Integer x))
         | FLOAT \<Rightarrow> and_then (load_float arch m value) AnyValue_float
         | ATOM \<Rightarrow> and_then (load_atom arch m value) (\<lambda>x. Inr (Atom (ucast x)))
         | _ \<Rightarrow> Inr (HeapRef value)))"

definition decode_parts :: "TaggedRefArch \<Rightarrow> u64 \<Rightarrow> u8 \<Rightarrow> AnyValue option ref_outcome" where
  "decode_parts arch raw kind_tag =
     (case ValueKind_new (kind_tag AND ucast TAG_MASK) of None \<Rightarrow> Inr None
      | Some kind \<Rightarrow>
         (case kind of NULL \<Rightarrow> Inr (Some Null)
          | INTEGER \<Rightarrow> Inr (Some (Integer raw))
          | FLOAT \<Rightarrow> and_then (AnyValue_float raw) (\<lambda>v. Inr (Some v))
          | ATOM \<Rightarrow> Inr (Some (Atom (ucast raw)))
          | _ \<Rightarrow> if kind = LIST \<and> raw = 0 then Inr (Some EmptyList)
                 else and_then (heap_ptr arch raw kind) (\<lambda>v. Inr (Some v))))"

definition decode_tagged_heap_bits :: "TaggedRefArch \<Rightarrow> u64 \<Rightarrow> AnyValue option ref_outcome" where
  "decode_tagged_heap_bits arch bits =
     (case heap_kind_from_tagged bits of None \<Rightarrow> Inr None
      | Some kind \<Rightarrow>
         if kind = LIST \<and> bits AND NOT TAG_MASK = 0 then Inr (Some EmptyList)
         else and_then (heap_ptr arch (bits AND NOT TAG_MASK) kind) (\<lambda>v. Inr (Some v)))"

primrec AnyValue_raw :: "TaggedRefArch \<Rightarrow> memory \<Rightarrow> AnyValue \<Rightarrow> u64 ref_outcome" where
  "AnyValue_raw arch m Null = Inr 0"
| "AnyValue_raw arch m EmptyList = Inr 0"
| "AnyValue_raw arch m (Integer value) = Inr value"
| "AnyValue_raw arch m (Float bits) = Inr bits"
| "AnyValue_raw arch m (Atom atom_id) = Inr (ucast atom_id)"
| "AnyValue_raw arch m (HeapRef value) = expect_ok (storage_raw arch m value)"

primrec AnyValue_kind :: "TaggedRefArch \<Rightarrow> AnyValue \<Rightarrow> ValueKind ref_outcome" where
  "AnyValue_kind arch Null = Inr NULL"
| "AnyValue_kind arch EmptyList = Inr LIST"
| "AnyValue_kind arch (Integer value) = Inr INTEGER"
| "AnyValue_kind arch (Float bits) = Inr FLOAT"
| "AnyValue_kind arch (Atom atom_id) = Inr ATOM"
| "AnyValue_kind arch (HeapRef value) = ref_tag arch value"

definition AnyValue_heap_object_word :: "TaggedRefArch \<Rightarrow> memory \<Rightarrow> AnyValue \<Rightarrow> u64 option ref_outcome" where
  "AnyValue_heap_object_word arch m v =
     and_then (AnyValue_kind arch v) (\<lambda>k.
       if is_heap k then and_then (AnyValue_raw arch m v) (\<lambda>raw.
            and_then (heap_object_word raw k) (\<lambda>w. Inr (Some w)))
       else Inr None)"

primrec ref_word :: "TaggedRefArch \<Rightarrow> AnyValue \<Rightarrow> AnyValueRef ref_outcome" where
  "ref_word arch Null = Inr (ref_null arch)"
| "ref_word arch EmptyList = Inr (ref_empty_list arch)"
| "ref_word arch (HeapRef value) = Inr value"
| "ref_word arch (Integer _) = Inl Panic"
| "ref_word arch (Float _) = Inl Panic"
| "ref_word arch (Atom _) = Inl Panic"

section \<open>Kinds and their tags\<close>

lemma ValueKind_new_tag [simp]: "ValueKind_new (ValueKind_tag k) = Some k"
  by (cases k) (simp_all add: ValueKind_new_def)

lemma ValueKind_new_eq: "ValueKind_new t = Some k \<longleftrightarrow> t = ValueKind_tag k"
proof
  assume "ValueKind_new t = Some k"
  then show "t = ValueKind_tag k"
    by (auto simp: ValueKind_new_def split: if_splits)
qed simp

lemma ValueKind_tag_inject [simp]: "ValueKind_tag j = ValueKind_tag k \<longleftrightarrow> j = k"
  by (metis ValueKind_new_tag option.inject)

lemma tag_nibble: "take_bit 4 (ValueKind_tag k) = ValueKind_tag k"
  by (cases k) simp_all

lemma bit_tag: "bit (ValueKind_tag k) n \<Longrightarrow> n < 4"
  by (metis bit_take_bit_iff tag_nibble)

lemma is_heap_cases: "is_heap k \<longleftrightarrow> k \<notin> {NULL, INTEGER, FLOAT, ATOM}"
  by (cases k) (simp_all add: is_heap_def word_layout)

lemma heap_or_scalar: "is_heap k \<or> is_scalar k \<or> k = NULL"
  by (cases k) (simp_all add: is_heap_cases is_scalar_def)

lemma scalar_not_heap: "is_scalar k \<Longrightarrow> \<not> is_heap k"
  by (auto simp: is_heap_cases is_scalar_def)

section \<open>Reading a packed word back\<close>

abbreviation tag_bits :: "TaggedRefArch \<Rightarrow> nat" where
  "tag_bits arch \<equiv> tag_shift (for_arch arch)"

lemma tag_shift_cases: "tag_shift (for_arch arch) = 56 \<or> tag_shift (for_arch arch) = 57"
  by (cases arch) (simp_all add: packing_new_def)

lemma address_mask_eq: "address_mask (for_arch arch) = mask (tag_bits arch)"
  by (cases arch) (simp_all add: packing_new_def mask_eq_exp_minus_1 push_bit_eq_mult)

lemma pack_eq:
  "pack (for_arch arch) k a = push_bit (tag_bits arch) (ucast (ValueKind_tag k)) OR take_bit (tag_bits arch) a"
  by (simp add: pack_def address_mask_eq take_bit_eq_mask)

lemma cleared_addr_eq: "cleared_addr arch w = take_bit (tag_bits arch) w"
  by (simp add: cleared_addr_def packing_address_def address_mask_eq take_bit_eq_mask)

lemma tag_of_pack: "(ucast (drop_bit (tag_bits arch) (pack (for_arch arch) k a)) :: u8) = ValueKind_tag k"
  using tag_shift_cases [of arch]
  by (intro bit_word_eqI) (auto simp: pack_eq bit_simps dest: bit_tag)

lemma cleared_addr_pack [simp]: "cleared_addr arch (pack (for_arch arch) k a) = take_bit (tag_bits arch) a"
  using tag_shift_cases [of arch]
  by (intro bit_word_eqI) (auto simp: cleared_addr_eq pack_eq bit_simps)

lemma packing_tag_pack [simp]: "packing_tag (for_arch arch) (pack (for_arch arch) k a) = Inr k"
  by (simp add: packing_tag_def tag_of_pack)

lemma ref_tag_pack [simp]: "ref_tag arch (pack (for_arch arch) k a) = Inr k"
  by (simp add: ref_tag_def)

lemma packing_tag_ok: "packing_tag p w = Inr k \<longleftrightarrow> ucast (drop_bit (tag_shift p) w) = ValueKind_tag k"
  by (auto simp: packing_tag_def Let_def ValueKind_new_eq split: option.splits)

lemma pack_of_parts:
  assumes "packing_tag (for_arch arch) w = Inr k"
  shows "pack (for_arch arch) k (cleared_addr arch w) = w"
proof -
  have "ValueKind_tag k = ucast (drop_bit (tag_bits arch) w)"
    using assms by (simp add: packing_tag_ok)
  then have "ucast (ValueKind_tag k) = drop_bit (tag_bits arch) w"
    using tag_shift_cases [of arch]
    by (intro bit_word_eqI) (auto simp: bit_simps dest: bit_imp_le_length)
  then show ?thesis
    using tag_shift_cases [of arch]
    by (intro bit_word_eqI) (auto simp: cleared_addr_eq pack_eq bit_simps)
qed

section \<open>References made by the checked constructors\<close>

text \<open>The addresses that fit the packing: below the tag field.\<close>

definition addressable :: "TaggedRefArch \<Rightarrow> u64 \<Rightarrow> bool" where
  "addressable arch a \<longleftrightarrow> take_bit (tag_bits arch) a = a"

lemma addressable_iff: "addressable arch a \<longleftrightarrow> unat a < 2 ^ tag_shift (for_arch arch)"
  by (simp add: addressable_def word_unat_eq_iff unsigned_take_bit_eq take_bit_nat_eq_self_iff)

lemma from_heap_object_ok:
  "from_heap_object arch k a = Inr r \<longleftrightarrow>
     is_heap k \<and> (a = 0 \<longrightarrow> k = LIST) \<and> r = pack (for_arch arch) k a"
  by (auto simp: from_heap_object_def)

lemma from_scalar_slot_ok:
  "from_scalar_slot arch k a = Inr r \<longleftrightarrow> is_scalar k \<and> a \<noteq> 0 \<and> r = pack (for_arch arch) k a"
  by (auto simp: from_scalar_slot_def)

lemma expect_tag_pack:
  "expect_tag arch (pack (for_arch arch) k a) e =
     (if e = k then Inr () else Inl (Err (ExpectedTag e k)))"
  by (auto simp: expect_tag_def)

lemma load_scalar_pack:
  "addressable arch a \<Longrightarrow> load_scalar arch e m (pack (for_arch arch) k a) =
     (if e = k then Inr (read_u64 m a) else Inl (Err (ExpectedTag e k)))"
  by (simp add: load_scalar_def expect_tag_pack addressable_def)

lemma is_empty_list_pack:
  "addressable arch a \<Longrightarrow> is_empty_list arch (pack (for_arch arch) k a) = Inr (k = LIST \<and> a = 0)"
  by (simp add: is_empty_list_def addressable_def)

lemma storage_raw_pack:
  assumes "addressable arch a" and "k = NULL \<longrightarrow> a = 0"
  shows "storage_raw arch m (pack (for_arch arch) k a) = Inr (if is_scalar k then read_u64 m a else a)"
  using assms
  by (cases k)
     (simp_all add: storage_raw_def is_empty_list_pack load_scalar_pack is_scalar_def addressable_def)

text \<open>
  C26.  The reference words the runtime accepts are exactly the packed ones: a word passes
  \<open>from_raw_word\<close> exactly when it is the packing of its own tag and address, and packing any
  kind with an address below the tag field gives a word that passes and reads back as that
  kind and that address.
\<close>

lemma AnyValueRef_words_exact:
  assumes "unat a < 2 ^ tag_shift (for_arch arch)"
  shows "from_raw_word arch (pack (for_arch arch) k a) = Inr (pack (for_arch arch) k a)
    \<and> ref_tag arch (pack (for_arch arch) k a) = Inr k
    \<and> cleared_addr arch (pack (for_arch arch) k a) = a
    \<and> (from_raw_word arch w = Inr v \<longleftrightarrow>
         v = w \<and> (\<exists>j. w = pack (for_arch arch) j (cleared_addr arch w)))"
proof (intro conjI)
  show "from_raw_word arch w = Inr v \<longleftrightarrow>
      v = w \<and> (\<exists>j. w = pack (for_arch arch) j (cleared_addr arch w))"
    by (auto simp: from_raw_word_def pack_of_parts intro: exI dest: pack_of_parts [symmetric])
       (metis packing_tag_pack)
qed (use assms in \<open>simp_all add: from_raw_word_def addressable_iff [symmetric] addressable_def\<close>)

lemma AnyValueRef_words_exact_witness:
  "from_raw_word Arm64Tbi 0x0D00000000001230 = Inr 0x0D00000000001230
    \<and> ref_tag Arm64Tbi 0x0D00000000001230 = Inr INTEGER
    \<and> cleared_addr Arm64Tbi 0x0D00000000001230 = 0x1230
    \<and> from_raw_word Arm64Tbi 0x0900000000001230 = Inl (Err (UnknownTag 9))"
proof -
  have "pack (for_arch Arm64Tbi) INTEGER 0x1230 = 0x0D00000000001230"
    by (simp add: pack_def packing_new_def)
  then show ?thesis
    using AnyValueRef_words_exact [of "0x1230" Arm64Tbi INTEGER 0 0]
    by (simp add: packing_new_def from_raw_word_def packing_tag_def ValueKind_new_def)
qed

text \<open>
  C27.  Every access to a reference built by the checked constructors is checked: asked
  for its own kind it gives the address (heap kinds) or the eight bytes stored there (scalar
  kinds), asked for another kind it gives the error that names both kinds; only a list with
  address zero is the empty list, and the stored payload is the scalar itself or the address.
\<close>

lemma AnyValueRef_access_checked:
  assumes "from_heap_object arch k a = Inr r \<or> from_scalar_slot arch k a = Inr r"
    and "unat a < 2 ^ tag_shift (for_arch arch)"
  shows "(is_heap e \<longrightarrow> ref_heap_addr arch r e = (if e = k then Inr a else Inl (Err (ExpectedTag e k))))
    \<and> (is_scalar e \<longrightarrow>
         load_scalar arch e m r = (if e = k then Inr (read_u64 m a) else Inl (Err (ExpectedTag e k))))
    \<and> is_empty_list arch r = Inr (k = LIST \<and> a = 0)
    \<and> storage_raw arch m r = Inr (if is_scalar k then read_u64 m a else a)"
proof -
  have r: "r = pack (for_arch arch) k a" and k: "k \<noteq> NULL"
    using assms(1) by (auto simp: from_heap_object_ok from_scalar_slot_ok is_heap_cases is_scalar_def)
  have a: "addressable arch a"
    using assms(2) by (simp add: addressable_iff)
  then have "cleared_addr arch r = a"
    by (simp add: r addressable_def)
  then show ?thesis
    using a k by (auto simp: r ref_heap_addr_def expect_tag_pack load_scalar_pack is_empty_list_pack
        storage_raw_pack)
qed

lemma AnyValueRef_access_checked_witness:
  "ref_heap_addr Arm64Tbi (pack (for_arch Arm64Tbi) MAP 0x40) MAP = Inr 0x40
    \<and> ref_heap_addr Arm64Tbi (pack (for_arch Arm64Tbi) MAP 0x40) LIST = Inl (Err (ExpectedTag LIST MAP))
    \<and> storage_raw Arm64Tbi (\<lambda>_. 0) (pack (for_arch Arm64Tbi) MAP 0x40) = Inr 0x40"
  using AnyValueRef_access_checked [of Arm64Tbi MAP "0x40" "pack (for_arch Arm64Tbi) MAP 0x40" MAP "\<lambda>_. 0"]
    AnyValueRef_access_checked [of Arm64Tbi MAP "0x40" "pack (for_arch Arm64Tbi) MAP 0x40" LIST "\<lambda>_. 0"]
  by (simp add: from_heap_object_def is_heap_def is_scalar_def word_layout packing_new_def)

section \<open>Storage of a value\<close>

text \<open>
  The values the language has: finite floats, and heap references with a non-null address
  (the empty list is its own constructor).
\<close>

definition heap_ref_of :: "TaggedRefArch \<Rightarrow> ValueKind \<Rightarrow> u64 \<Rightarrow> AnyValue" where
  "heap_ref_of arch k a = HeapRef (pack (for_arch arch) k a)"

definition valid_value :: "TaggedRefArch \<Rightarrow> AnyValue \<Rightarrow> bool" where
  "valid_value arch v =
     (case v of Float bits \<Rightarrow> is_finite bits
      | HeapRef r \<Rightarrow> (case ref_tag arch r of Inl _ \<Rightarrow> False
                    | Inr k \<Rightarrow> is_heap k \<and> cleared_addr arch r \<noteq> 0)
      | _ \<Rightarrow> True)"

lemma valid_heap_ref:
  assumes "valid_value arch (HeapRef r)"
  obtains k a where "r = pack (for_arch arch) k a" and "is_heap k" and "a \<noteq> 0" and "addressable arch a"
proof -
  obtain k where k: "ref_tag arch r = Inr k" "is_heap k" "cleared_addr arch r \<noteq> 0"
    using assms by (auto simp: valid_value_def split: sum.splits)
  show ?thesis
  proof (rule that)
    show "r = pack (for_arch arch) k (cleared_addr arch r)"
      using k(1) by (simp add: ref_tag_def pack_of_parts)
    show "addressable arch (cleared_addr arch r)"
      by (simp add: cleared_addr_eq addressable_def)
  qed (use k in auto)
qed

lemma valid_heap_ref_pack:
  "addressable arch a \<Longrightarrow> valid_value arch (HeapRef (pack (for_arch arch) k a)) \<longleftrightarrow> is_heap k \<and> a \<noteq> 0"
  by (simp add: valid_value_def addressable_def)

lemma heap_not_scalar_null: "is_heap k \<Longrightarrow> \<not> is_scalar k \<and> k \<noteq> NULL"
  by (auto simp: is_heap_cases is_scalar_def)

lemma AnyValue_raw_heap:
  "is_heap k \<Longrightarrow> addressable arch a \<Longrightarrow> AnyValue_raw arch m (HeapRef (pack (for_arch arch) k a)) = Inr a"
  by (simp add: storage_raw_pack heap_not_scalar_null)

lemma heap_ptr_ok:
  "is_heap k \<Longrightarrow> a \<noteq> 0 \<Longrightarrow> heap_ptr arch a k = Inr (HeapRef (pack (for_arch arch) k a))"
  by (simp add: heap_ptr_def from_heap_object_def)

lemma tag_and_mask [simp]: "ValueKind_tag k AND ucast TAG_MASK = ValueKind_tag k"
  by (cases k) (simp_all add: word_layout)

lemma decode_parts_tag:
  "decode_parts arch raw (ValueKind_tag k) =
     (case k of NULL \<Rightarrow> Inr (Some Null)
      | INTEGER \<Rightarrow> Inr (Some (Integer raw))
      | FLOAT \<Rightarrow> and_then (AnyValue_float raw) (\<lambda>v. Inr (Some v))
      | ATOM \<Rightarrow> Inr (Some (Atom (ucast raw)))
      | _ \<Rightarrow> if k = LIST \<and> raw = 0 then Inr (Some EmptyList)
             else and_then (heap_ptr arch raw k) (\<lambda>v. Inr (Some v)))"
  by (simp add: decode_parts_def)

lemma decode_parts_heap:
  "is_heap k \<Longrightarrow> a \<noteq> 0 \<Longrightarrow>
   decode_parts arch a (ValueKind_tag k) = Inr (Some (HeapRef (pack (for_arch arch) k a)))"
  unfolding decode_parts_tag by (cases k) (simp_all add: heap_ptr_ok is_heap_cases)

lemma ucast_ucast_u32 [simp]: "(ucast (ucast (x :: u32) :: u64) :: u32) = x"
  by (rule bit_word_eqI) (simp add: bit_simps)

lemma decode_stored:
  assumes "valid_value arch v"
  shows "\<exists>raw k. AnyValue_raw arch m v = Inr raw \<and> AnyValue_kind arch v = Inr k
    \<and> decode_parts arch raw (ValueKind_tag k) = Inr (Some v)"
proof (cases v)
  case (HeapRef r)
  then obtain k a where "r = pack (for_arch arch) k a" "is_heap k" "a \<noteq> 0" "addressable arch a"
    using assms valid_heap_ref by blast
  then show ?thesis
    using HeapRef by (auto simp: AnyValue_raw_heap decode_parts_heap simp del: AnyValue_raw.simps(6))
qed (use assms in \<open>auto simp: decode_parts_tag valid_value_def AnyValue_float_def simp del: ValueKind_tag.simps\<close>)

lemma and_not_tag_mask:
  assumes "a AND TAG_MASK = 0"
  shows "a AND NOT TAG_MASK = (a :: u64)"
proof -
  have "(a AND TAG_MASK) OR (a AND NOT TAG_MASK) = a"
    by (simp flip: bit.conj_disj_distrib)
  then show ?thesis
    using assms by simp
qed

lemma tagged_word_parts:
  assumes "a AND TAG_MASK = 0"
  shows "(a OR ucast (ValueKind_tag k)) AND TAG_MASK = ucast (ValueKind_tag k)"
    and "(a OR ucast (ValueKind_tag k)) AND NOT TAG_MASK = a"
proof -
  have "(ucast (ValueKind_tag k) :: u64) AND TAG_MASK = ucast (ValueKind_tag k)"
    "(ucast (ValueKind_tag k) :: u64) AND NOT TAG_MASK = 0"
    by (cases k; simp add: word_layout)+
  then show "(a OR ucast (ValueKind_tag k)) AND TAG_MASK = ucast (ValueKind_tag k)"
    "(a OR ucast (ValueKind_tag k)) AND NOT TAG_MASK = a"
    using assms and_not_tag_mask [OF assms] by (simp_all add: bit.conj_disj_distrib2)
qed

lemma from_heap_tag_tag: "is_heap k \<Longrightarrow> from_heap_tag (ucast (ValueKind_tag k)) = Some k"
  by (cases k) (simp_all add: from_heap_tag_def is_heap_cases word_layout ValueKind_new_def)

lemma heap_kind_of_word:
  "a AND TAG_MASK = 0 \<Longrightarrow> is_heap k \<Longrightarrow> heap_kind_from_tagged (a OR ucast (ValueKind_tag k)) = Some k"
  unfolding heap_kind_from_tagged_def by (simp only: tagged_word_parts from_heap_tag_tag)

text \<open>
  C17.  A value survives both of its storage forms: written as a raw payload beside its
  kind byte it decodes to itself, and a heap value written as an object-local tagged word
  (address sixteen-byte aligned) decodes to itself too, its tag naming its kind.
\<close>

lemma AnyValue_storage_roundtrip:
  assumes "valid_value arch v"
  shows "(\<exists>raw k. AnyValue_raw arch m v = Inr raw \<and> AnyValue_kind arch v = Inr k
      \<and> decode_parts arch raw (ValueKind_tag k) = Inr (Some v))
    \<and> (\<forall>w. AnyValue_heap_object_word arch m v = Inr (Some w) \<longrightarrow>
         decode_tagged_heap_bits arch w = Inr (Some v)
         \<and> map_option Inr (heap_kind_from_tagged w) = Some (AnyValue_kind arch v))"
proof (rule conjI, rule decode_stored [OF assms], intro allI impI)
  fix w
  assume w: "AnyValue_heap_object_word arch m v = Inr (Some w)"
  show "decode_tagged_heap_bits arch w = Inr (Some v)
    \<and> map_option Inr (heap_kind_from_tagged w) = Some (AnyValue_kind arch v)"
  proof (cases v)
    case (HeapRef r)
    then obtain k a where r: "r = pack (for_arch arch) k a" "is_heap k" "a \<noteq> 0" "addressable arch a"
      using assms valid_heap_ref by blast
    then have "a AND TAG_MASK = 0" "w = a OR ucast (ValueKind_tag k)"
      using w HeapRef
      by (auto simp: AnyValue_heap_object_word_def AnyValue_raw_heap heap_object_word_def
          simp del: AnyValue_raw.simps(6) split: if_splits)
    then show ?thesis
      using r HeapRef by (simp add: decode_tagged_heap_bits_def heap_kind_of_word tagged_word_parts heap_ptr_ok)
  next
    case EmptyList
    then have "w = ucast (ValueKind_tag LIST)"
      using w by (auto simp: AnyValue_heap_object_word_def heap_object_word_def split: if_splits)
    then show ?thesis
      using EmptyList heap_kind_of_word [of 0 LIST] tagged_word_parts(2) [of 0 LIST]
      by (simp add: decode_tagged_heap_bits_def is_heap_cases)
  qed (use w in \<open>simp_all add: AnyValue_heap_object_word_def is_heap_cases\<close>)
qed

lemma AnyValue_storage_roundtrip_witness:
  "decode_tagged_heap_bits X86_64Canonical57 0x1242
     = Inr (Some (HeapRef (pack (for_arch X86_64Canonical57) MAP 0x1240)))"
proof -
  let ?v = "HeapRef (pack (for_arch X86_64Canonical57) MAP 0x1240)"
  have a: "addressable X86_64Canonical57 0x1240"
    by (simp add: addressable_iff packing_new_def)
  then have "valid_value X86_64Canonical57 ?v"
    by (simp add: valid_heap_ref_pack is_heap_cases del: for_arch.simps)
  moreover have "AnyValue_heap_object_word X86_64Canonical57 (\<lambda>_. 0) ?v = Inr (Some 0x1242)"
    using a by (simp add: AnyValue_heap_object_word_def AnyValue_raw_heap is_heap_cases heap_object_word_def
        word_layout del: AnyValue_raw.simps(6) for_arch.simps)
  ultimately show ?thesis
    using AnyValue_storage_roundtrip [of X86_64Canonical57 ?v "\<lambda>_. 0"] by blast
qed

end
