(* ===== verification/Fz_Closure.thy ===== *)
theory Fz_Closure
  imports Fz_AnyValue
begin

unbundle bit_operations_syntax

text \<open>
  Closure objects in memory, from \<open>runtime/src/any_value.rs\<close>: the packed header word, the
  code pointer, the capture slots (payload words first, kind bytes after them) and the size
  of the object.  Indices, counts and sizes (\<open>usize\<close>) are natural numbers: the counts come
  from fourteen-bit fields, so the arithmetic stays far below the width.  Clearing low bits
  with \<open>& !7\<close> and \<open>& !15\<close> is \<open>clear_low\<close>.
\<close>

section \<open>Rounding\<close>

definition clear_low :: "nat \<Rightarrow> nat \<Rightarrow> nat" where
  "clear_low k n = push_bit k (drop_bit k n)"

lemma clear_low_eq: "clear_low k n = n - n mod 2 ^ k"
  by (simp add: clear_low_def push_bit_eq_mult drop_bit_eq_div minus_mod_eq_div_mult)

lemma clear_low_dvd [simp]: "2 ^ k dvd clear_low k n"
  by (simp add: clear_low_def push_bit_eq_mult)

lemma clear_low_bounds: "clear_low k n \<le> n" "n < clear_low k n + 2 ^ k"
proof -
  have "n mod 2 ^ k < 2 ^ k" "n mod 2 ^ k \<le> n"
    by simp_all
  then show "clear_low k n \<le> n" "n < clear_low k n + 2 ^ k"
    unfolding clear_low_eq by linarith+
qed

lemma round_up_8: "n \<le> clear_low 3 (n + 7)" "clear_low 3 (n + 7) \<le> n + 7" "8 dvd clear_low 3 (n + 7)"
  using clear_low_bounds [where k = 3 and n = "n + 7"] clear_low_dvd [of 3 "n + 7"] by simp_all

lemma round_up_16: "n \<le> clear_low 4 (n + 15)" "clear_low 4 (n + 15) \<le> n + 15" "16 dvd clear_low 4 (n + 15)"
  using clear_low_bounds [where k = 4 and n = "n + 15"] clear_low_dvd [of 4 "n + 15"] by simp_all

section \<open>The header\<close>

definition CLOSURE_FLAGS_CAPTURED_MASK :: u16 where
  [word_layout]: "CLOSURE_FLAGS_CAPTURED_MASK = 0x3FFF"

definition CLOSURE_FLAGS_HALT_KIND_SHIFT :: nat where
  [word_layout]: "CLOSURE_FLAGS_HALT_KIND_SHIFT = 14"

definition closure_flags_pack :: "u16 \<Rightarrow> u16 \<Rightarrow> u16 option" where
  "closure_flags_pack captured_count halt_kind =
     (if captured_count \<le> CLOSURE_FLAGS_CAPTURED_MASK \<and> halt_kind \<le> 3
      then Some ((captured_count AND CLOSURE_FLAGS_CAPTURED_MASK)
                 OR push_bit CLOSURE_FLAGS_HALT_KIND_SHIFT halt_kind)
      else None)"

definition closure_flags_captured :: "u16 \<Rightarrow> u16" where
  "closure_flags_captured flags = flags AND CLOSURE_FLAGS_CAPTURED_MASK"

definition closure_flags_halt_kind :: "u16 \<Rightarrow> u16" where
  "closure_flags_halt_kind flags = drop_bit CLOSURE_FLAGS_HALT_KIND_SHIFT flags"

definition closure_header_word :: "u16 \<Rightarrow> u16 \<Rightarrow> u16 \<Rightarrow> u32 option" where
  "closure_header_word captured_count halt_kind arity =
     map_option (\<lambda>flags. ucast flags OR push_bit 16 (ucast arity))
       (closure_flags_pack captured_count halt_kind)"

definition closure_size_for_count :: "nat \<Rightarrow> nat" where
  "closure_size_for_count captured_count =
     (let raw_bytes = (captured_count + 1) * 8; kind_bytes = clear_low 3 (captured_count + 7)
      in clear_low 4 (8 + raw_bytes + kind_bytes + 15))"

datatype ClosureDenotationId = ClosureDenotationId (as_u32: u32)

definition ClosureDenotationId_INTERNAL :: ClosureDenotationId where
  "ClosureDenotationId_INTERNAL = ClosureDenotationId 0xFFFFFFFF"

definition ClosureDenotationId_user :: "u32 \<Rightarrow> ClosureDenotationId option" where
  "ClosureDenotationId_user index = (if index = 0xFFFFFFFF then None else Some (ClosureDenotationId index))"

definition ClosureDenotationId_user_index :: "ClosureDenotationId \<Rightarrow> u32 option" where
  "ClosureDenotationId_user_index d = (if d = ClosureDenotationId_INTERNAL then None else Some (as_u32 d))"

definition closure_denotation :: "memory \<Rightarrow> u64 \<Rightarrow> ClosureDenotationId" where
  "closure_denotation m addr = ClosureDenotationId (read_u32 m addr)"

definition closure_flags :: "memory \<Rightarrow> u64 \<Rightarrow> u16" where
  "closure_flags m addr = ucast (read_u32 m (addr + of_nat 4))"

definition closure_arity :: "memory \<Rightarrow> u64 \<Rightarrow> u16" where
  "closure_arity m addr = ucast (drop_bit 16 (read_u32 m (addr + of_nat 4)))"

definition closure_captured_count :: "memory \<Rightarrow> u64 \<Rightarrow> nat" where
  "closure_captured_count m addr = unat (closure_flags_captured (closure_flags m addr))"

definition closure_halt_kind :: "memory \<Rightarrow> u64 \<Rightarrow> u16" where
  "closure_halt_kind m addr = closure_flags_halt_kind (closure_flags m addr)"

definition closure_fn_ptr :: "memory \<Rightarrow> u64 \<Rightarrow> u64" where
  "closure_fn_ptr m addr = read_u64 m (addr + of_nat 8)"

section \<open>Capture slots\<close>

definition closure_capture_raw_slot :: "u64 \<Rightarrow> nat \<Rightarrow> u64" where
  "closure_capture_raw_slot addr idx = addr + of_nat (16 + idx * 8)"

definition closure_capture_kind_slot :: "memory \<Rightarrow> u64 \<Rightarrow> nat \<Rightarrow> u64" where
  "closure_capture_kind_slot m addr idx = addr + of_nat (16 + closure_captured_count m addr * 8 + idx)"

definition closure_capture_raw_kind :: "memory \<Rightarrow> u64 \<Rightarrow> nat \<Rightarrow> (u64 \<times> ValueKind) ref_outcome" where
  "closure_capture_raw_kind m addr idx =
     (let kind_tag = read_u8 m (closure_capture_kind_slot m addr idx);
          raw = read_u64 m (closure_capture_raw_slot addr idx)
      in and_then (expect_some (ValueKind_new kind_tag)) (\<lambda>kind. Inr (raw, kind)))"

definition closure_capture_set_raw_kind :: "memory \<Rightarrow> u64 \<Rightarrow> nat \<Rightarrow> u64 \<Rightarrow> ValueKind \<Rightarrow> memory" where
  "closure_capture_set_raw_kind m addr idx raw kind =
     (let raw = (if is_heap kind then raw AND NOT TAG_MASK else raw);
          m1 = write_u64 m (closure_capture_raw_slot addr idx) raw
      in write_u8 m1 (closure_capture_kind_slot m1 addr idx) (ValueKind_tag kind))"

definition closure_capture_value :: "TaggedRefArch \<Rightarrow> memory \<Rightarrow> u64 \<Rightarrow> nat \<Rightarrow> AnyValue ref_outcome" where
  "closure_capture_value arch m addr idx =
     and_then (closure_capture_raw_kind m addr idx) (\<lambda>(raw, kind).
       and_then (decode_parts arch raw (ValueKind_tag kind)) expect_some)"

definition closure_capture_set :: "TaggedRefArch \<Rightarrow> memory \<Rightarrow> u64 \<Rightarrow> nat \<Rightarrow> AnyValue \<Rightarrow> memory ref_outcome" where
  "closure_capture_set arch m addr idx value =
     and_then (AnyValue_raw arch m value) (\<lambda>raw.
       and_then (AnyValue_kind arch value) (\<lambda>kind.
         Inr (closure_capture_set_raw_kind m addr idx raw kind)))"

definition closure_capture_ref_word :: "TaggedRefArch \<Rightarrow> memory \<Rightarrow> u64 \<Rightarrow> nat \<Rightarrow> u64 ref_outcome" where
  "closure_capture_ref_word arch m addr idx =
     (let raw_slot = closure_capture_raw_slot addr idx
      in and_then (closure_capture_raw_kind m addr idx) (\<lambda>(raw, kind).
           if kind = NULL then Inr (ref_null arch)
           else if kind = LIST \<and> raw = 0 then Inr (ref_empty_list arch)
           else if is_scalar kind then expect_ok (from_scalar_slot arch kind raw_slot)
           else heap_object_word raw kind))"

definition closure_capture_set_ref_word ::
  "TaggedRefArch \<Rightarrow> memory \<Rightarrow> u64 \<Rightarrow> nat \<Rightarrow> u64 \<Rightarrow> memory ref_outcome" where
  "closure_capture_set_ref_word arch m addr idx word =
     and_then (expect_ok (from_raw_word arch word)) (\<lambda>value.
       and_then (expect_ok (from_ref arch m value)) (\<lambda>any.
         closure_capture_set arch m addr idx any))"

definition closure_capture_copy :: "memory \<Rightarrow> u64 \<Rightarrow> nat \<Rightarrow> u64 \<Rightarrow> nat \<Rightarrow> memory" where
  "closure_capture_copy m src_addr src_idx dst_addr dst_idx =
     (let raw = read_u64 m (closure_capture_raw_slot src_addr src_idx);
          kind = read_u8 m (closure_capture_kind_slot m src_addr src_idx);
          m1 = write_u64 m (closure_capture_raw_slot dst_addr dst_idx) raw
      in write_u8 m1 (closure_capture_kind_slot m1 dst_addr dst_idx) kind)"

section \<open>The header reads back\<close>

lemma closure_flags_fields:
  assumes "closure_flags_pack c h = Some flags"
  shows "closure_flags_captured flags = c" and "closure_flags_halt_kind flags = h"
proof -
  have c: "take_bit 14 c = c" and h: "take_bit 2 h = h"
    using assms
    by (simp_all add: closure_flags_pack_def word_layout word_unat_eq_iff unsigned_take_bit_eq
        take_bit_nat_eq_self_iff word_le_nat_alt split: if_splits)
  have flags: "flags = take_bit 14 c OR push_bit 14 (take_bit 2 h)"
    using assms c h
    by (simp add: closure_flags_pack_def word_layout split: if_splits)
       (simp add: take_bit_eq_mask mask_numeral)
  have "closure_flags_captured flags = take_bit 14 flags"
    by (simp add: closure_flags_captured_def word_layout take_bit_eq_mask mask_numeral)
  then show "closure_flags_captured flags = c"
    by (subst c [symmetric]) (auto simp: flags bit_simps intro!: bit_word_eqI)
  show "closure_flags_halt_kind flags = h"
    by (subst h [symmetric]) (auto simp: closure_flags_halt_kind_def word_layout flags bit_simps intro!: bit_word_eqI)
qed

lemma closure_header_fields:
  assumes "closure_header_word c h a = Some w"
  shows "closure_flags_captured (ucast w) = c" and "closure_flags_halt_kind (ucast w) = h"
    and "(ucast (drop_bit 16 w) :: u16) = a"
proof -
  obtain flags where f: "closure_flags_pack c h = Some flags" "w = ucast flags OR push_bit 16 (ucast a)"
    using assms by (auto simp: closure_header_word_def)
  have "(ucast w :: u16) = flags"
    by (rule bit_word_eqI) (simp add: f(2) bit_simps)
  then show "closure_flags_captured (ucast w) = c" "closure_flags_halt_kind (ucast w) = h"
    using closure_flags_fields [OF f(1)] by simp_all
  show "(ucast (drop_bit 16 w) :: u16) = a"
    by (rule bit_word_eqI) (auto simp: f(2) bit_simps dest: bit_imp_le_length)
qed

lemma closure_captured_count_less: "closure_captured_count m addr < 2 ^ 14"
proof -
  have "closure_flags_captured f = take_bit 14 f" for f
    by (simp add: closure_flags_captured_def word_layout take_bit_eq_mask mask_numeral)
  then show ?thesis
    using take_bit_nat_less_exp [of 14 "unat (closure_flags m addr)"]
    by (simp add: closure_captured_count_def unsigned_take_bit_eq)
qed

lemma closure_size_covers:
  "16 dvd closure_size_for_count n \<and> 16 + 9 * n \<le> closure_size_for_count n
   \<and> closure_size_for_count n \<le> 9 * n + 38"
  using round_up_8 [of n] round_up_16 [of "16 + 8 * n + clear_low 3 (n + 7)"]
  by (simp add: closure_size_for_count_def Let_def algebra_simps)

section \<open>Storing a capture\<close>

text \<open>
  Both ways to fill a slot write the payload word and then the kind byte; \<open>n\<close> is the
  closure's capture count.
\<close>

definition put_capture :: "memory \<Rightarrow> u64 \<Rightarrow> nat \<Rightarrow> nat \<Rightarrow> u64 \<Rightarrow> u8 \<Rightarrow> memory" where
  "put_capture m addr n i raw b =
     write_u8 (write_u64 m (addr + of_nat (16 + i * 8)) raw) (addr + of_nat (16 + n * 8 + i)) b"

lemma put_capture_header:
  assumes "n < 2 ^ 14" and "i < n"
  shows "read_u32 (put_capture m addr n i raw b) addr = read_u32 m addr"
    and "read_u32 (put_capture m addr n i raw b) (addr + of_nat 4) = read_u32 m (addr + of_nat 4)"
    and "read_u64 (put_capture m addr n i raw b) (addr + of_nat 8) = read_u64 m (addr + of_nat 8)"
  using assms read_write_apart(4) [where x = 0 and a = addr] read_write_apart(6) [where x = 0 and a = addr]
  by (simp_all add: put_capture_def read_write_apart apart_def del: of_nat_add of_nat_mult of_nat_numeral)

lemma put_capture_slots:
  assumes "n < 2 ^ 14" and "i < n" and "j < n"
  shows "read_u64 (put_capture m addr n i raw b) (addr + of_nat (16 + j * 8))
      = (if j = i then raw else read_u64 m (addr + of_nat (16 + j * 8)))"
    and "read_u8 (put_capture m addr n i raw b) (addr + of_nat (16 + n * 8 + j))
      = (if j = i then b else read_u8 m (addr + of_nat (16 + n * 8 + j)))"
proof -
  have "apart (16 + j * 8) 8 (16 + n * 8 + i) 1" "apart (16 + n * 8 + j) 1 (16 + i * 8) 8"
    "j \<noteq> i \<Longrightarrow> apart (16 + j * 8) 8 (16 + i * 8) 8" "j \<noteq> i \<Longrightarrow> apart (16 + n * 8 + j) 1 (16 + n * 8 + i) 1"
    using assms by (auto simp: apart_def)
  then show "read_u64 (put_capture m addr n i raw b) (addr + of_nat (16 + j * 8))
      = (if j = i then raw else read_u64 m (addr + of_nat (16 + j * 8)))"
    "read_u8 (put_capture m addr n i raw b) (addr + of_nat (16 + n * 8 + j))
      = (if j = i then b else read_u8 m (addr + of_nat (16 + n * 8 + j)))"
    by (simp_all add: put_capture_def read_write_apart del: of_nat_add of_nat_mult of_nat_numeral)
qed

lemma put_capture_count:
  assumes "n = closure_captured_count m addr" and "i < n"
  shows "closure_captured_count (put_capture m addr n i raw b) addr = n"
  using assms put_capture_header(2) [of n i m addr raw b] closure_captured_count_less [of m addr]
  by (simp add: closure_captured_count_def closure_flags_def)

definition aligned_value :: "TaggedRefArch \<Rightarrow> AnyValue \<Rightarrow> bool" where
  "aligned_value arch v = (case v of HeapRef r \<Rightarrow> cleared_addr arch r AND TAG_MASK = 0 | _ \<Rightarrow> True)"

lemma set_raw_kind_put:
  assumes "n = closure_captured_count m addr" and "i < n"
  shows "closure_capture_set_raw_kind m addr i raw k =
    put_capture m addr n i (if is_heap k then raw AND NOT TAG_MASK else raw) (ValueKind_tag k)"
proof -
  have "closure_captured_count (write_u64 m (addr + of_nat (16 + i * 8)) w) addr = n" for w
    using assms closure_captured_count_less [of m addr]
      read_write_apart(6) [of 4 "16 + i * 8" m addr w]
    by (simp add: closure_captured_count_def closure_flags_def apart_def)
  then show ?thesis
    by (simp add: closure_capture_set_raw_kind_def put_capture_def Let_def closure_capture_raw_slot_def
        closure_capture_kind_slot_def del: of_nat_add of_nat_mult of_nat_numeral)
qed

lemma put_capture_raw_kind:
  assumes "n = closure_captured_count m addr" and "i < n" and "j < n"
  shows "closure_capture_raw_kind (put_capture m addr n i raw (ValueKind_tag k)) addr j =
    (if j = i then Inr (raw, k) else closure_capture_raw_kind m addr j)"
  using put_capture_slots [of n i j m addr raw "ValueKind_tag k"] put_capture_count [OF assms(1,2)] assms
    closure_captured_count_less [of m addr]
  by (simp add: closure_capture_raw_kind_def closure_capture_raw_slot_def closure_capture_kind_slot_def
      Let_def del: of_nat_add of_nat_mult of_nat_numeral)

lemma capture_set_ok:
  assumes v: "valid_value arch v" "aligned_value arch v" and i: "n = closure_captured_count m addr" "i < n"
  obtains raw k where "closure_capture_set arch m addr i v = Inr (put_capture m addr n i raw (ValueKind_tag k))"
    and "decode_parts arch raw (ValueKind_tag k) = Inr (Some v)" and "AnyValue_kind arch v = Inr k"
proof -
  obtain raw k where rk: "AnyValue_raw arch m v = Inr raw" "AnyValue_kind arch v = Inr k"
    "decode_parts arch raw (ValueKind_tag k) = Inr (Some v)"
    using decode_stored [OF v(1)] by blast
  have "raw AND NOT TAG_MASK = raw" if "is_heap k"
  proof (cases v)
    case (HeapRef r)
    then obtain j a where "r = pack (for_arch arch) j a" "is_heap j" "addressable arch a"
      using v(1) valid_heap_ref by blast
    then show ?thesis
      using v(2) HeapRef rk and_not_tag_mask [of a]
      by (simp add: AnyValue_raw_heap aligned_value_def addressable_def storage_raw_pack heap_not_scalar_null)
  qed (use that rk in \<open>auto simp: is_heap_cases\<close>)
  then have "closure_capture_set arch m addr i v = Inr (put_capture m addr n i raw (ValueKind_tag k))"
    using rk(1,2) by (simp add: closure_capture_set_def set_raw_kind_put [OF i])
  then show thesis
    using that rk(2,3) by blast
qed

lemma put_capture_fields:
  assumes "n = closure_captured_count m addr" and "i < n"
  shows "closure_denotation (put_capture m addr n i raw b) addr = closure_denotation m addr"
    and "closure_arity (put_capture m addr n i raw b) addr = closure_arity m addr"
    and "closure_halt_kind (put_capture m addr n i raw b) addr = closure_halt_kind m addr"
    and "closure_fn_ptr (put_capture m addr n i raw b) addr = closure_fn_ptr m addr"
  using put_capture_header [of n i m addr raw b] assms closure_captured_count_less [of m addr]
  by (simp_all add: closure_denotation_def closure_arity_def closure_halt_kind_def closure_flags_def
      closure_fn_ptr_def)

text \<open>
  C23.  Storing a value into a capture slot of a closure always succeeds for an aligned
  language value; the slot then reads back as that value, every other capture reads as before,
  and so do the closure's identity, arity, halt kind, capture count and code pointer.
\<close>

lemma closure_capture_set_get:
  assumes "valid_value arch v" and "aligned_value arch v" and "i < closure_captured_count m addr"
  shows "\<exists>m'. closure_capture_set arch m addr i v = Inr m'
    \<and> closure_capture_value arch m' addr i = Inr v
    \<and> (\<forall>j < closure_captured_count m addr. j \<noteq> i \<longrightarrow>
         closure_capture_value arch m' addr j = closure_capture_value arch m addr j)
    \<and> closure_captured_count m' addr = closure_captured_count m addr
    \<and> closure_denotation m' addr = closure_denotation m addr
    \<and> closure_arity m' addr = closure_arity m addr
    \<and> closure_halt_kind m' addr = closure_halt_kind m addr
    \<and> closure_fn_ptr m' addr = closure_fn_ptr m addr"
proof -
  let ?n = "closure_captured_count m addr"
  obtain raw k where set: "closure_capture_set arch m addr i v = Inr (put_capture m addr ?n i raw (ValueKind_tag k))"
    and dec: "decode_parts arch raw (ValueKind_tag k) = Inr (Some v)"
    using capture_set_ok [OF assms(1,2) refl assms(3)] by blast
  let ?m = "put_capture m addr ?n i raw (ValueKind_tag k)"
  have "closure_capture_value arch ?m addr i = Inr v"
    using dec assms(3) by (simp add: closure_capture_value_def put_capture_raw_kind)
  moreover have "\<forall>j < ?n. j \<noteq> i \<longrightarrow> closure_capture_value arch ?m addr j = closure_capture_value arch m addr j"
    using assms(3) by (simp add: closure_capture_value_def put_capture_raw_kind)
  ultimately show ?thesis
    using set put_capture_count [OF refl assms(3)] put_capture_fields [OF refl assms(3)] by blast
qed

text \<open>A closure with two captures at address 0x1000, for the examples.\<close>

definition two_captures :: memory where
  "two_captures = write_u32 (\<lambda>_. 0) (0x1000 + of_nat 4) 0x00010002"

lemma two_captures_count: "closure_captured_count two_captures 0x1000 = 2"
proof -
  have "read_u32 two_captures (0x1000 + of_nat 4) = 0x00010002"
    unfolding two_captures_def by (rule read_write_same)
  then show ?thesis
    by (simp add: closure_captured_count_def closure_flags_def closure_flags_captured_def word_layout)
qed

lemma closure_capture_set_get_witness:
  "\<exists>m'. closure_capture_set Arm64Tbi two_captures 0x1000 1 (Integer 7) = Inr m'
    \<and> closure_capture_value Arm64Tbi m' 0x1000 1 = Inr (Integer 7)
    \<and> closure_captured_count m' 0x1000 = 2"
  using closure_capture_set_get [of Arm64Tbi "Integer 7" 1 two_captures "0x1000"]
  by (auto simp: valid_value_def aligned_value_def two_captures_count)

text \<open>
  The closure header packs losslessly: whenever the packing's assertions hold (at most
  16383 captures, a two-bit halt kind) the count, the halt kind and the arity read back from
  the header word, and they hold for no other input; the object's size is a multiple of sixteen
  that has room for the header, the code pointer and every capture's payload and kind byte,
  with less than a cache line to spare.
\<close>

lemma closure_header_roundtrip:
  "(case closure_header_word c h a of
      None \<Rightarrow> 0x3FFF < c \<or> 3 < h
    | Some w \<Rightarrow> c \<le> 0x3FFF \<and> h \<le> 3 \<and> closure_flags_captured (ucast w) = c
        \<and> closure_flags_halt_kind (ucast w) = h \<and> (ucast (drop_bit 16 w) :: u16) = a)
   \<and> 16 dvd closure_size_for_count n \<and> 16 + 9 * n \<le> closure_size_for_count n
   \<and> closure_size_for_count n \<le> 9 * n + 38"
proof (cases "closure_header_word c h a")
  case None
  then show ?thesis
    using closure_size_covers [of n]
    by (auto simp: closure_header_word_def closure_flags_pack_def word_layout not_le split: if_splits)
next
  case (Some w)
  then have "c \<le> 0x3FFF" "h \<le> 3"
    by (auto simp: closure_header_word_def closure_flags_pack_def word_layout split: if_splits)
  then show ?thesis
    using Some closure_size_covers [of n] closure_header_fields [OF Some] by simp
qed

lemma object_word_reads_null:
  assumes "addressable arch a"
  shows "from_raw_word arch (a OR ucast (ValueKind_tag k)) = Inr (a OR ucast (ValueKind_tag k))"
    and "from_ref arch m (a OR ucast (ValueKind_tag k)) = Inr Null"
proof -
  have "drop_bit (tag_bits arch) (ucast (ValueKind_tag k) :: u64) = 0"
    using tag_shift_cases [of arch] by (cases k) (auto simp: drop_bit_eq_div)
  moreover have "drop_bit (tag_bits arch) a = 0"
    using assms by (metis addressable_def drop_bit_take_bit diff_self_eq_0 take_bit_0)
  ultimately have "packing_tag (for_arch arch) (a OR ucast (ValueKind_tag k)) = Inr NULL"
    by (simp add: packing_tag_ok drop_bit_or)
  then show "from_raw_word arch (a OR ucast (ValueKind_tag k)) = Inr (a OR ucast (ValueKind_tag k))"
    "from_ref arch m (a OR ucast (ValueKind_tag k)) = Inr Null"
    by (simp_all add: from_raw_word_def from_ref_def is_empty_list_def ref_tag_def)
qed

text \<open>
  C40.  \<open>closure_capture_ref_word\<close> gives no reference word for a heap capture.  On either architecture, for every
  closure, every slot and every aligned heap object stored there, whatever its kind and address, the word it returns is
  the object-local tagged word; the reference decoder accepts that word as \<open>Null\<close>, so storing it back through
  \<open>closure_capture_set_ref_word\<close> replaces the object by \<open>Null\<close>.
\<close>

lemma closure_capture_ref_word_loses_heap_capture:
  assumes "is_heap k" and "addressable arch a" and "a \<noteq> 0" and "a AND TAG_MASK = 0" and "i < closure_captured_count m addr"
  shows "\<exists>m1 m2. closure_capture_set arch m addr i (HeapRef (pack (for_arch arch) k a)) = Inr m1
    \<and> closure_capture_ref_word arch m1 addr i = Inr (a OR ucast (ValueKind_tag k))
    \<and> closure_capture_set_ref_word arch m1 addr i (a OR ucast (ValueKind_tag k)) = Inr m2
    \<and> closure_capture_value arch m2 addr i = Inr Null"
proof -
  let ?n = "closure_captured_count m addr"
  let ?m1 = "put_capture m addr ?n i a (ValueKind_tag k)"
  let ?m2 = "put_capture ?m1 addr ?n i 0 (ValueKind_tag NULL)"
  have n1: "?n = closure_captured_count ?m1 addr"
    using put_capture_count [OF refl assms(5)] by simp
  have "AnyValue_kind arch (HeapRef (pack (for_arch arch) k a)) = Inr k"
    using assms(1,2) by simp
  then have "closure_capture_set arch m addr i (HeapRef (pack (for_arch arch) k a)) = Inr ?m1"
    using set_raw_kind_put [OF refl assms(5), of a k] assms(1,2,4) and_not_tag_mask [of a]
    by (simp add: closure_capture_set_def AnyValue_raw_heap del: AnyValue_raw.simps(6) for_arch.simps)
  moreover have "closure_capture_ref_word arch ?m1 addr i = Inr (a OR ucast (ValueKind_tag k))"
    using put_capture_raw_kind [OF refl assms(5) assms(5), of a k] assms
    by (auto simp: closure_capture_ref_word_def heap_object_word_def heap_not_scalar_null)
  moreover have "closure_capture_set_ref_word arch ?m1 addr i (a OR ucast (ValueKind_tag k)) = Inr ?m2"
    using set_raw_kind_put [OF n1 assms(5), of 0 NULL] object_word_reads_null [OF assms(2)]
    by (simp add: closure_capture_set_ref_word_def closure_capture_set_def is_heap_cases del: ValueKind_tag.simps)
  moreover have "closure_capture_value arch ?m2 addr i = Inr Null"
    using put_capture_raw_kind [OF n1 assms(5) assms(5), of 0 NULL]
    by (simp add: closure_capture_value_def decode_parts_tag del: ValueKind_tag.simps)
  ultimately show ?thesis
    by blast
qed

lemma closure_capture_ref_word_loses_heap_capture_witness:
  "\<exists>m1 m2. closure_capture_set X86_64Canonical57 two_captures 0x1000 1 (HeapRef (pack (for_arch X86_64Canonical57) MAP 0x40)) = Inr m1
    \<and> closure_capture_ref_word X86_64Canonical57 m1 0x1000 1 = Inr (0x40 OR ucast (ValueKind_tag MAP))
    \<and> closure_capture_set_ref_word X86_64Canonical57 m1 0x1000 1 (0x40 OR ucast (ValueKind_tag MAP)) = Inr m2
    \<and> closure_capture_value X86_64Canonical57 m2 0x1000 1 = Inr Null"
proof (rule closure_capture_ref_word_loses_heap_capture)
  show "addressable X86_64Canonical57 0x40"
    by (simp add: addressable_iff packing_new_def)
qed (simp_all add: is_heap_cases word_layout two_captures_count)

end
