(* ===== verification/Fz_Heap.thy ===== *)
theory Fz_Heap
  imports Fz_Closure
begin

unbundle bit_operations_syntax

text \<open>
  The process heap's allocator, from \<open>runtime/src/heap/block_pool.rs\<close> and the allocation and
  sizing parts of \<open>runtime/src/heap/imp.rs\<close>: the table of block sizes, the pool of recycled
  blocks, bump allocation with growth and oversized fragments, the pressure flag, and the choice
  of the collector's to-space.  The system allocator (\<open>alloc_zeroed\<close>) is a parameter: a function
  of the blocks it has handed out and the size asked for, zero when it fails.
\<close>

section \<open>Block sizes\<close>

definition div_ceil :: "nat \<Rightarrow> nat \<Rightarrow> nat" where
  "div_ceil n d = (if n mod d = 0 then n div d else n div d + 1)"

definition next_size :: "nat \<Rightarrow> nat" where
  "next_size prev = clear_low 4 (div_ceil (prev * 6) 5 + 15)"

fun size_tail :: "nat \<Rightarrow> nat \<Rightarrow> nat list" where
  "size_tail 0 prev = []"
| "size_tail (Suc k) prev = (let t = next_size prev in t # size_tail k t)"

definition build_size_table :: "nat list" where
  "build_size_table =
     [1024, 1536, 2560, 4096, 6656, 10752, 17408, 28160, 45568, 73728, 119296, 192768]
     @ size_tail 20 192768"

definition SIZE_TABLE :: "nat list" where
  "SIZE_TABLE = build_size_table"

fun pick_from :: "nat \<Rightarrow> nat list \<Rightarrow> nat \<Rightarrow> nat option" where
  "pick_from idx [] bytes = None"
| "pick_from idx (sz # rest) bytes = (if bytes \<le> sz then Some idx else pick_from (idx + 1) rest bytes)"

definition pick_size_class :: "nat \<Rightarrow> nat" where
  "pick_size_class bytes =
     (case pick_from 0 SIZE_TABLE bytes of Some idx \<Rightarrow> idx | None \<Rightarrow> length SIZE_TABLE - 1)"

definition FRAGMENT_THRESHOLD :: nat where
  "FRAGMENT_THRESHOLD = SIZE_TABLE ! (length SIZE_TABLE - 1)"

section \<open>The block pool and the system allocator\<close>

type_synonym region = "u64 \<times> nat"
type_synonym alloc_zeroed = "region list \<Rightarrow> nat \<Rightarrow> u64"

record World =
  mem :: memory
  free_lists :: "u64 list list"
  sys_blocks :: "region list"

definition zero_bytes :: "memory \<Rightarrow> u64 \<Rightarrow> nat \<Rightarrow> memory" where
  "zero_bytes m a n = store m a (replicate n 0)"

definition sys_alloc :: "alloc_zeroed \<Rightarrow> World \<Rightarrow> nat \<Rightarrow> (u64 \<times> World) option" where
  "sys_alloc sys w sz =
     (let p = sys (sys_blocks w) sz
      in if p = 0 then None
         else Some (p, w\<lparr> mem := zero_bytes (mem w) p sz, sys_blocks := (p, sz) # sys_blocks w \<rparr>))"

definition pool_alloc :: "alloc_zeroed \<Rightarrow> World \<Rightarrow> nat \<Rightarrow> (u64 \<times> World) option" where
  "pool_alloc sys w class =
     (let sz = SIZE_TABLE ! class; list = free_lists w ! class
      in if list \<noteq> [] then
           let p = last list
           in Some (p, w\<lparr> mem := zero_bytes (mem w) p sz, free_lists := (free_lists w)[class := butlast list] \<rparr>)
         else sys_alloc sys w sz)"

definition pool_free :: "World \<Rightarrow> u64 \<Rightarrow> nat \<Rightarrow> World" where
  "pool_free w p class = w\<lparr> free_lists := (free_lists w)[class := free_lists w ! class @ [p]] \<rparr>"

section \<open>The heap\<close>

datatype HeapAllocKind =
  ListConsAlloc | StructAlloc | ClosureAlloc | MapAlloc | BitstringAlloc | ProcBinAlloc
| ScalarBoxAlloc | FrameAlloc | ResourceAlloc | OtherAlloc

record AllocStat =
  stat_allocs :: nat
  stat_bytes :: nat

definition AllocStat_record :: "nat \<Rightarrow> AllocStat \<Rightarrow> AllocStat" where
  "AllocStat_record n s = s\<lparr> stat_allocs := stat_allocs s + 1, stat_bytes := stat_bytes s + n \<rparr>"

record HeapAllocStats =
  stat_total :: AllocStat
  stat_kind :: "HeapAllocKind \<Rightarrow> AllocStat"

definition HeapAllocStats_record :: "HeapAllocKind \<Rightarrow> nat \<Rightarrow> HeapAllocStats \<Rightarrow> HeapAllocStats" where
  "HeapAllocStats_record kind n s =
     s\<lparr> stat_total := AllocStat_record n (stat_total s),
        stat_kind := (stat_kind s)(kind := AllocStat_record n (stat_kind s kind)) \<rparr>"

record Fragment =
  frag_ptr :: u64
  frag_size :: nat
  frag_mark :: bool

record Heap =
  block_start :: u64
  bump_top :: u64
  block_end :: u64
  block_size :: nat
  size_class :: nat
  last_gc_live_bytes :: nat
  abandoned_blocks :: "(u64 \<times> nat) list"
  pressure :: bool
  gc_threshold_bytes :: nat
  alloc_count :: nat
  alloc_stats :: HeapAllocStats
  fragments :: "Fragment list"

definition Heap_with_node :: "alloc_zeroed \<Rightarrow> World \<Rightarrow> nat \<Rightarrow> (Heap \<times> World) option" where
  "Heap_with_node sys w capacity =
     (if 0 < capacity \<and> capacity mod 16 = 0 then
        let class = pick_size_class capacity; sz = SIZE_TABLE ! class
        in map_option (\<lambda>(p, w'). (\<lparr> block_start = p, bump_top = p, block_end = p + of_nat sz,
             block_size = sz, size_class = class, last_gc_live_bytes = 0, abandoned_blocks = [],
             pressure = False, gc_threshold_bytes = sz div 2, alloc_count = 0,
             alloc_stats = \<lparr> stat_total = \<lparr> stat_allocs = 0, stat_bytes = 0 \<rparr>,
               stat_kind = (\<lambda>_. \<lparr> stat_allocs = 0, stat_bytes = 0 \<rparr>) \<rparr>,
             fragments = [] \<rparr>, w')) (pool_alloc sys w class)
      else None)"

definition bytes_used :: "Heap \<Rightarrow> nat" where
  "bytes_used h =
     unat (bump_top h - block_start h)
     + sum_list (map (\<lambda>(_, c). SIZE_TABLE ! c) (abandoned_blocks h))
     + sum_list (map frag_size (fragments h))"

definition bytes_remaining_in_block :: "Heap \<Rightarrow> nat" where
  "bytes_remaining_in_block h = unat (block_end h - bump_top h)"

definition note_alloc_pressure :: "Heap \<Rightarrow> Heap" where
  "note_alloc_pressure h = (if gc_threshold_bytes h \<le> bytes_used h then h\<lparr> pressure := True \<rparr> else h)"

definition clear_should_gc_flag :: "Heap \<Rightarrow> Heap" where
  "clear_should_gc_flag h = h\<lparr> pressure := False \<rparr>"

definition grow_block :: "alloc_zeroed \<Rightarrow> World \<Rightarrow> Heap \<Rightarrow> nat \<Rightarrow> (World \<times> Heap) option" where
  "grow_block sys w h sz =
     (let want_for_alloc = pick_size_class sz;
          bumped = min (size_class h + 1) (length SIZE_TABLE - 1);
          new_class = max want_for_alloc bumped;
          new_size = SIZE_TABLE ! new_class
      in map_option (\<lambda>(new_block, w'). (w', h\<lparr>
             abandoned_blocks := abandoned_blocks h @ [(block_start h, size_class h)],
             block_start := new_block, bump_top := new_block, block_end := new_block + of_nat new_size,
             block_size := new_size, size_class := new_class \<rparr>)) (pool_alloc sys w new_class))"

definition bump :: "Heap \<Rightarrow> nat \<Rightarrow> u64 \<times> Heap" where
  "bump h sz =
     (bump_top h,
      note_alloc_pressure (h\<lparr> bump_top := bump_top h + of_nat sz, alloc_count := alloc_count h + 1 \<rparr>))"

definition alloc_kind :: "alloc_zeroed \<Rightarrow> World \<Rightarrow> Heap \<Rightarrow> HeapAllocKind \<Rightarrow> nat \<Rightarrow> (u64 \<times> World \<times> Heap) option" where
  "alloc_kind sys w h kind requested =
     (let sz = clear_low 4 (requested + 15)
      in if sz < 16 then None
         else let h = h\<lparr> alloc_stats := HeapAllocStats_record kind sz (alloc_stats h) \<rparr>
         in if FRAGMENT_THRESHOLD < sz then
              map_option (\<lambda>(p, w'). (p, w', note_alloc_pressure (h\<lparr>
                  fragments := fragments h @ [\<lparr> frag_ptr = p, frag_size = sz, frag_mark = False \<rparr>],
                  alloc_count := alloc_count h + 1 \<rparr>))) (sys_alloc sys w sz)
            else if block_end h < bump_top h + of_nat sz then
              map_option (\<lambda>(w', h'). let (p, h'') = bump h' sz in (p, w', h'')) (grow_block sys w h sz)
            else let (p, h') = bump h sz in Some (p, w, h'))"

section \<open>Facts of the size table\<close>

lemma next_size_values:
  "next_size 192768 = 231328"
  "next_size 231328 = 277600"
  "next_size 277600 = 333120"
  "next_size 333120 = 399744"
  "next_size 399744 = 479696"
  "next_size 479696 = 575648"
  "next_size 575648 = 690784"
  "next_size 690784 = 828944"
  "next_size 828944 = 994736"
  "next_size 994736 = 1193696"
  "next_size 1193696 = 1432448"
  "next_size 1432448 = 1718944"
  "next_size 1718944 = 2062736"
  "next_size 2062736 = 2475296"
  "next_size 2475296 = 2970368"
  "next_size 2970368 = 3564448"
  "next_size 3564448 = 4277344"
  "next_size 4277344 = 5132816"
  "next_size 5132816 = 6159392"
  "next_size 6159392 = 7391280"
  by (simp_all add: next_size_def div_ceil_def clear_low_eq)

lemma size_tail_numeral:
  "size_tail (numeral k) prev = next_size prev # size_tail (pred_numeral k) (next_size prev)"
  by (simp add: numeral_eq_Suc Let_def)

lemma SIZE_TABLE_eq: "SIZE_TABLE =
  [1024, 1536, 2560, 4096, 6656, 10752, 17408, 28160, 45568, 73728, 119296, 192768,
   231328, 277600, 333120, 399744, 479696, 575648, 690784, 828944, 994736, 1193696, 1432448,
   1718944, 2062736, 2475296, 2970368, 3564448, 4277344, 5132816, 6159392, 7391280]"
  by (simp add: SIZE_TABLE_def build_size_table_def size_tail_numeral next_size_values)

lemma length_SIZE_TABLE [simp]: "length SIZE_TABLE = 32"
  by (simp add: SIZE_TABLE_eq)

lemma FRAGMENT_THRESHOLD_eq: "FRAGMENT_THRESHOLD = 7391280"
  by (simp add: FRAGMENT_THRESHOLD_def SIZE_TABLE_eq)

lemma SIZE_TABLE_bounds:
  assumes "c < 32"
  shows "0 < SIZE_TABLE ! c" and "SIZE_TABLE ! c \<le> FRAGMENT_THRESHOLD" and "SIZE_TABLE ! c mod 16 = 0"
proof -
  have "\<forall>s \<in> set SIZE_TABLE. 0 < s \<and> s \<le> 7391280 \<and> s mod 16 = 0"
    by (simp add: SIZE_TABLE_eq)
  moreover have "SIZE_TABLE ! c \<in> set SIZE_TABLE"
    using assms by simp
  ultimately show "0 < SIZE_TABLE ! c" "SIZE_TABLE ! c \<le> FRAGMENT_THRESHOLD" "SIZE_TABLE ! c mod 16 = 0"
    by (simp_all add: FRAGMENT_THRESHOLD_eq)
qed

lemma SIZE_TABLE_mono: "b < 32 \<Longrightarrow> a \<le> b \<Longrightarrow> SIZE_TABLE ! a \<le> SIZE_TABLE ! b"
proof -
  have "sorted SIZE_TABLE"
    by (simp add: SIZE_TABLE_eq)
  then show "b < 32 \<Longrightarrow> a \<le> b \<Longrightarrow> SIZE_TABLE ! a \<le> SIZE_TABLE ! b"
    by (simp add: sorted_nth_mono)
qed

lemma pick_from_Some:
  "pick_from i xs n = Some j \<Longrightarrow> i \<le> j \<and> j < i + length xs \<and> n \<le> xs ! (j - i) \<and> (\<forall>k < j - i. xs ! k < n)"
proof (induction i xs n rule: pick_from.induct)
  case (2 i s xs n)
  show ?case
  proof (cases "n \<le> s")
    case False
    then have ih: "Suc i \<le> j" "j < Suc i + length xs" "n \<le> xs ! (j - Suc i)" "\<forall>k < j - Suc i. xs ! k < n"
      using 2 by simp_all
    then have d: "j - i = Suc (j - Suc i)" by simp
    have "(s # xs) ! k < n" if "k < j - i" for k
      using that ih(4) False by (cases k) (auto simp: d)
    then show ?thesis
      using ih by (simp add: d)
  qed (use 2 in simp)
qed simp

lemma pick_from_None: "pick_from i xs n = None \<longleftrightarrow> (\<forall>s \<in> set xs. s < n)"
  by (induction i xs n rule: pick_from.induct) auto

lemma pick_size_class_less: "pick_size_class n < 32"
  by (auto simp: pick_size_class_def split: option.splits dest: pick_from_Some)

lemma pick_size_class_fits: "n \<le> FRAGMENT_THRESHOLD \<Longrightarrow> n \<le> SIZE_TABLE ! pick_size_class n"
proof -
  assume n: "n \<le> FRAGMENT_THRESHOLD"
  have "FRAGMENT_THRESHOLD \<in> set SIZE_TABLE"
    by (simp add: FRAGMENT_THRESHOLD_def)
  then have "pick_from 0 SIZE_TABLE n \<noteq> None"
    using n by (auto simp: pick_from_None not_less)
  then obtain j where "pick_from 0 SIZE_TABLE n = Some j"
    by blast
  then show "n \<le> SIZE_TABLE ! pick_size_class n"
    using pick_from_Some [of 0 SIZE_TABLE n j] by (simp add: pick_size_class_def)
qed

lemma pick_size_class_least:
  assumes "k < pick_size_class n"
  shows "SIZE_TABLE ! k < n"
proof (cases "pick_from 0 SIZE_TABLE n")
  case None
  moreover have "SIZE_TABLE ! k \<in> set SIZE_TABLE"
    using assms pick_size_class_less [of n] by simp
  ultimately show ?thesis
    by (simp add: pick_from_None)
next
  case (Some j)
  then show ?thesis
    using assms pick_from_Some [OF Some] by (simp add: pick_size_class_def)
qed

section \<open>Regions\<close>

definition region_ok :: "region \<Rightarrow> bool" where
  "region_ok r = (fst r \<noteq> 0 \<and> unat (fst r) mod 16 = 0 \<and> unat (fst r) + snd r < 2 ^ 56)"

definition apart_regions :: "region \<Rightarrow> region \<Rightarrow> bool" where
  "apart_regions r s \<longleftrightarrow> unat (fst r) + snd r \<le> unat (fst s) \<or> unat (fst s) + snd s \<le> unat (fst r)"

definition inside :: "region \<Rightarrow> region \<Rightarrow> bool" where
  "inside r s \<longleftrightarrow> unat (fst s) \<le> unat (fst r) \<and> unat (fst r) + snd r \<le> unat (fst s) + snd s"

text \<open>
  The system allocator's documented contract for blocks of alignment sixteen: a block it
  returns is aligned, lies in the user half of the address space, and overlaps no block it has
  handed out before.
\<close>

definition allocator_ok :: "alloc_zeroed \<Rightarrow> bool" where
  "allocator_ok sys \<longleftrightarrow> (\<forall>blocks n. sys blocks n \<noteq> 0 \<longrightarrow>
     region_ok (sys blocks n, n) \<and> (\<forall>r \<in> set blocks. apart_regions r (sys blocks n, n)))"

lemma apart_regions_sym: "apart_regions r s \<longleftrightarrow> apart_regions s r"
  by (auto simp: apart_regions_def)

lemma apart_inside: "apart_regions r s \<Longrightarrow> inside t s \<Longrightarrow> apart_regions r t"
  by (auto simp: apart_regions_def inside_def)

definition separated :: "region list \<Rightarrow> bool" where
  "separated rs \<longleftrightarrow> distinct rs \<and> pairwise apart_regions (set rs)"

lemma separated_mset: "mset rs = mset ss \<Longrightarrow> separated rs = separated ss"
  by (auto simp: separated_def dest: mset_eq_setD mset_eq_imp_distinct_iff)

lemma separated_Cons:
  "0 < snd r \<Longrightarrow> separated (r # rs) \<longleftrightarrow> separated rs \<and> (\<forall>s \<in> set rs. apart_regions r s)"
  by (auto simp: separated_def pairwise_insert apart_regions_sym) (auto simp: apart_regions_def)

fun pool_regions_from :: "nat \<Rightarrow> u64 list list \<Rightarrow> region list" where
  "pool_regions_from c [] = []"
| "pool_regions_from c (ps # rest) = map (\<lambda>p. (p, SIZE_TABLE ! c)) ps @ pool_regions_from (c + 1) rest"

definition pool_regions :: "World \<Rightarrow> region list" where
  "pool_regions w = pool_regions_from 0 (free_lists w)"

lemma pool_regions_pop:
  "c < length xs \<Longrightarrow> xs ! c \<noteq> [] \<Longrightarrow>
   mset (pool_regions_from i xs) =
     add_mset (last (xs ! c), SIZE_TABLE ! (i + c)) (mset (pool_regions_from i (xs[c := butlast (xs ! c)])))"
proof (induction xs arbitrary: i c)
  case (Cons ps xs)
  show ?case
  proof (cases c)
    case 0
    then have "ps = butlast ps @ [last ps]"
      using Cons.prems by simp
    then have "mset (map (\<lambda>p. (p, SIZE_TABLE ! i)) ps) =
        add_mset (last ps, SIZE_TABLE ! i) (mset (map (\<lambda>p. (p, SIZE_TABLE ! i)) (butlast ps)))"
      by (metis (no_types, lifting) add_mset_add_single list.simps(8,9) map_append mset.simps mset_append)
    then show ?thesis
      using 0 by simp
  next
    case (Suc k)
    then show ?thesis
      using Cons.IH [of k "i + 1"] Cons.prems by simp
  qed
qed simp

definition heap_regions :: "Heap \<Rightarrow> region list" where
  "heap_regions h = (block_start h, SIZE_TABLE ! size_class h)
     # map (\<lambda>(p, c). (p, SIZE_TABLE ! c)) (abandoned_blocks h)
     @ map (\<lambda>f. (frag_ptr f, frag_size f)) (fragments h)"

text \<open>The parts of the heap's regions that hold objects.\<close>

definition used_regions :: "Heap \<Rightarrow> region list" where
  "used_regions h = (block_start h, unat (bump_top h - block_start h))
     # map (\<lambda>(p, c). (p, SIZE_TABLE ! c)) (abandoned_blocks h)
     @ map (\<lambda>f. (frag_ptr f, frag_size f)) (fragments h)"

definition block_wf :: "Heap \<Rightarrow> bool" where
  "block_wf h \<longleftrightarrow> size_class h < 32 \<and> block_size h = SIZE_TABLE ! size_class h
     \<and> block_end h = block_start h + of_nat (SIZE_TABLE ! size_class h)
     \<and> unat (block_start h) \<le> unat (bump_top h) \<and> bump_top h \<le> block_end h
     \<and> unat (bump_top h) mod 16 = 0"

text \<open>Regions held beside the pool: all of them and the pool's come from the system and overlap nowhere.\<close>

definition held :: "World \<Rightarrow> region list \<Rightarrow> bool" where
  "held w rs \<longleftrightarrow> length (free_lists w) = 32
     \<and> separated (rs @ pool_regions w)
     \<and> set (rs @ pool_regions w) \<subseteq> set (sys_blocks w)
     \<and> (\<forall>r \<in> set (sys_blocks w). region_ok r)"

definition owned :: "World \<Rightarrow> Heap \<Rightarrow> bool" where
  "owned w h \<longleftrightarrow> block_wf h \<and> held w (heap_regions h)"

section \<open>Allocating a block\<close>

definition in_region :: "u64 \<Rightarrow> region \<Rightarrow> bool" where
  "in_region x r \<longleftrightarrow> unat (fst r) \<le> unat x \<and> unat x < unat (fst r) + snd r"

lemma zero_bytes_frame:
  assumes "region_ok (p, n)" and "\<not> in_region x (p, n)"
  shows "zero_bytes m p n x = m x"
proof -
  have "n \<le> unat (x - p)"
    using assms unsigned_less [of x, where ?'a = nat]
    by (auto simp: region_ok_def in_region_def unat_sub_if' word_size)
  then show ?thesis
    by (simp add: zero_bytes_def store_def)
qed

lemma in_region_apart: "in_region x r \<Longrightarrow> apart_regions r s \<Longrightarrow> \<not> in_region x s"
  by (auto simp: in_region_def apart_regions_def)

text \<open>
  What a block allocation gives: a new region, separated from the heap's and the pool's, in a
  world whose memory is unchanged on the heap's regions.
\<close>

definition block_given :: "World \<Rightarrow> region list \<Rightarrow> region \<Rightarrow> World \<Rightarrow> bool" where
  "block_given w rs r w' \<longleftrightarrow> region_ok r \<and> length (free_lists w') = 32
     \<and> separated (r # rs @ pool_regions w')
     \<and> set (r # rs @ pool_regions w') \<subseteq> set (sys_blocks w')
     \<and> (\<forall>s \<in> set (sys_blocks w'). region_ok s)
     \<and> (\<forall>s \<in> set rs. \<forall>x. in_region x s \<longrightarrow> mem w' x = mem w x)"

lemma sys_alloc_given:
  assumes sys: "allocator_ok sys" and w: "held w rs" and a: "sys_alloc sys w n = Some (p, w')" and n: "0 < n"
  shows "block_given w rs (p, n) w'"
proof -
  have p: "p = sys (sys_blocks w) n" "p \<noteq> 0"
    and w': "w' = w\<lparr> mem := zero_bytes (mem w) p n, sys_blocks := (p, n) # sys_blocks w \<rparr>"
    using a by (auto simp: sys_alloc_def Let_def split: if_splits)
  then have r: "region_ok (p, n)" "\<forall>s \<in> set (sys_blocks w). apart_regions s (p, n)"
    using sys by (auto simp: allocator_ok_def)
  moreover have "set (rs @ pool_regions w) \<subseteq> set (sys_blocks w)"
    using w by (simp add: held_def)
  ultimately have ap: "\<forall>s \<in> set (rs @ pool_regions w). apart_regions s (p, n)"
    by blast
  then have "separated ((p, n) # rs @ pool_regions w)"
    using w n by (subst separated_Cons) (auto simp: held_def apart_regions_sym)
  moreover have "mem w' x = mem w x" if "s \<in> set rs" "in_region x s" for s x
    using that ap r(1) w' by (auto intro!: zero_bytes_frame dest: in_region_apart)
  ultimately show ?thesis
    using w r by (auto simp: block_given_def held_def w' pool_regions_def)
qed

lemma pool_alloc_given:
  assumes sys: "allocator_ok sys" and w: "held w rs" and c: "c < 32" and a: "pool_alloc sys w c = Some (p, w')"
  shows "block_given w rs (p, SIZE_TABLE ! c) w'"
proof (cases "free_lists w ! c = []")
  case True
  then show ?thesis
    using a sys_alloc_given [OF sys w] SIZE_TABLE_bounds(1) [OF c] by (simp add: pool_alloc_def)
next
  case False
  let ?n = "SIZE_TABLE ! c"
  have p: "p = last (free_lists w ! c)"
    and w': "w' = w\<lparr> mem := zero_bytes (mem w) p ?n, free_lists := (free_lists w)[c := butlast (free_lists w ! c)] \<rparr>"
    using a False by (auto simp: pool_alloc_def Let_def)
  have m: "mset (pool_regions w) = add_mset (p, ?n) (mset (pool_regions w'))"
    using pool_regions_pop [of c "free_lists w" 0] c False w by (simp add: pool_regions_def w' p held_def)
  then have m': "mset (rs @ pool_regions w) = mset ((p, ?n) # rs @ pool_regions w')"
    by simp
  then have s: "separated ((p, ?n) # rs @ pool_regions w')"
    using w separated_mset [OF m'] by (simp add: held_def)
  have sub: "set ((p, ?n) # rs @ pool_regions w') \<subseteq> set (sys_blocks w)"
    unfolding mset_eq_setD [OF m', symmetric] using w by (simp add: held_def)
  then have r: "region_ok (p, ?n)"
    using w by (auto simp: held_def)
  have "mem w' x = mem w x" if "t \<in> set rs" "in_region x t" for t x
  proof -
    have "apart_regions t (p, ?n)"
      using s that SIZE_TABLE_bounds(1) [OF c] by (auto simp: separated_Cons apart_regions_sym)
    then show ?thesis
      using that r by (auto simp: w' intro!: zero_bytes_frame dest: in_region_apart)
  qed
  then show ?thesis
    using w s sub r by (auto simp: block_given_def held_def w')
qed

lemma owned_from_given:
  assumes b: "block_given w (heap_regions h) r w'" and wf: "block_wf h'"
    and m: "mset (heap_regions h') = add_mset r (mset (heap_regions h))"
  shows "owned w' h'"
proof -
  have mm: "mset (heap_regions h' @ pool_regions w') = mset (r # heap_regions h @ pool_regions w')"
    using m by simp
  have "separated (heap_regions h' @ pool_regions w')"
    using b separated_mset [OF mm] by (simp add: block_given_def)
  moreover have "set (heap_regions h' @ pool_regions w') \<subseteq> set (sys_blocks w')"
    unfolding mset_eq_setD [OF mm] using b by (simp add: block_given_def)
  ultimately show ?thesis
    using b wf by (simp add: owned_def held_def block_given_def)
qed

section \<open>Allocating an object\<close>

text \<open>
  What \<open>alloc_kind\<close> promises: the invariant again, a sixteen-byte aligned region inside the
  heap that overlaps nothing in use before, and unchanged memory on all that was in use.
\<close>

definition object_given :: "World \<Rightarrow> Heap \<Rightarrow> region \<Rightarrow> World \<Rightarrow> Heap \<Rightarrow> bool" where
  "object_given w h r w' h' \<longleftrightarrow> owned w' h' \<and> region_ok r
     \<and> (\<exists>s \<in> set (heap_regions h'). inside r s)
     \<and> (\<forall>s \<in> set (used_regions h). apart_regions s r)
     \<and> (\<forall>s \<in> set (used_regions h). \<forall>x. in_region x s \<longrightarrow> mem w' x = mem w x)
     \<and> bytes_used h + snd r \<le> bytes_used h'"

lemma heap_regions_pressure [simp]: "heap_regions (note_alloc_pressure h) = heap_regions h"
  by (simp add: note_alloc_pressure_def heap_regions_def)

lemma heap_regions_bump [simp]:
  "heap_regions (h\<lparr> bump_top := t, alloc_count := k \<rparr>) = heap_regions h"
  by (simp add: heap_regions_def)

lemma block_wf_pressure [simp]: "block_wf (note_alloc_pressure h) = block_wf h"
  by (simp add: note_alloc_pressure_def block_wf_def)

lemma owned_pressure [simp]: "owned w (note_alloc_pressure h) = owned w h"
  by (simp add: owned_def held_def)

lemma bytes_used_pressure [simp]: "bytes_used (note_alloc_pressure h) = bytes_used h"
  by (simp add: note_alloc_pressure_def bytes_used_def)

lemma unat_diff_le: "unat a \<le> unat b \<Longrightarrow> unat (b - a :: u64) = unat b - unat a"
  by (simp add: unat_sub_if')

lemma unat_add_of_nat: "unat a + n < 2 ^ 64 \<Longrightarrow> unat (a + of_nat n :: u64) = unat a + n"
  by (simp add: unat_plus_if' unat_of_nat_small)

lemma block_end_unat:
  assumes "owned w h"
  shows "unat (block_end h) = unat (block_start h) + SIZE_TABLE ! size_class h"
    and "unat (block_start h) + SIZE_TABLE ! size_class h < 2 ^ 56"
proof -
  show b: "unat (block_start h) + SIZE_TABLE ! size_class h < 2 ^ 56"
    using assms by (auto simp: owned_def held_def heap_regions_def region_ok_def)
  then show "unat (block_end h) = unat (block_start h) + SIZE_TABLE ! size_class h"
    using assms by (simp add: owned_def held_def block_wf_def unat_add_of_nat)
qed

lemma used_inside:
  assumes "owned w h" and "s \<in> set (used_regions h)"
  shows "\<exists>t \<in> set (heap_regions h). inside s t"
proof -
  have "inside (block_start h, unat (bump_top h - block_start h)) (block_start h, SIZE_TABLE ! size_class h)"
    using assms(1) block_end_unat [OF assms(1)]
    by (simp add: inside_def owned_def held_def block_wf_def unat_diff_le word_le_nat_alt)
  then show ?thesis
    using assms(2) by (auto simp: used_regions_def heap_regions_def inside_def)
qed

lemma in_region_inside: "in_region x s \<Longrightarrow> inside s t \<Longrightarrow> in_region x t"
  by (auto simp: in_region_def inside_def)

text \<open>Bumping within the block.\<close>

lemma bump_given:
  assumes w: "owned w h" and n: "n mod 16 = 0" "0 < n" and fits: "bump_top h + of_nat n \<le> block_end h"
    and small: "n \<le> FRAGMENT_THRESHOLD" and b: "bump h n = (p, h')"
  shows "object_given w h (p, n) w h'"
proof -
  let ?t = "unat (bump_top h)"
  have p: "p = bump_top h"
    and h': "h' = note_alloc_pressure (h\<lparr> bump_top := bump_top h + of_nat n, alloc_count := alloc_count h + 1 \<rparr>)"
    using b by (auto simp: bump_def)
  have wf: "block_wf h" and t: "unat (block_start h) \<le> ?t" "?t \<le> unat (block_end h)" "?t mod 16 = 0"
    using w by (auto simp: owned_def held_def block_wf_def word_le_nat_alt)
  have e: "unat (block_end h) = unat (block_start h) + SIZE_TABLE ! size_class h"
    "unat (block_start h) + SIZE_TABLE ! size_class h < 2 ^ 56"
    using block_end_unat [OF w] by blast+
  have top: "unat (bump_top h + of_nat n) = ?t + n" "?t + n \<le> unat (block_end h)"
    using t e small fits by (simp_all add: unat_add_of_nat FRAGMENT_THRESHOLD_eq word_le_nat_alt)
  have st: "block_start h \<noteq> 0" "unat (block_start h) mod 16 = 0"
    using w by (auto simp: owned_def held_def heap_regions_def region_ok_def)
  then have ne: "bump_top h \<noteq> 0"
    using t(1) by (metis le_zero_eq unat_0 unat_eq_zero)
  have in_block: "inside (p, n) (block_start h, SIZE_TABLE ! size_class h)"
    using t(1) top e by (simp add: inside_def p)
  have "block_wf (h\<lparr> bump_top := bump_top h + of_nat n, alloc_count := alloc_count h + 1 \<rparr>)"
    using wf n t top fits by (auto simp: block_wf_def)
  then have "owned w h'"
    using w by (simp add: h' owned_def held_def)
  moreover have "region_ok (p, n)"
    using ne t top e by (simp add: region_ok_def p)
  moreover have "apart_regions s (p, n)" if "s \<in> set (used_regions h)" for s
  proof (cases "s = (block_start h, unat (bump_top h - block_start h))")
    case True
    then show ?thesis
      using t(1) by (simp add: apart_regions_def p unat_diff_le)
  next
    case False
    then have "s \<in> set (tl (heap_regions h))"
      using that by (auto simp: used_regions_def heap_regions_def)
    moreover have "separated ((block_start h, SIZE_TABLE ! size_class h) # tl (heap_regions h) @ pool_regions w)"
      using w by (simp add: owned_def held_def heap_regions_def)
    moreover have "0 < SIZE_TABLE ! size_class h"
      using wf SIZE_TABLE_bounds(1) by (simp add: block_wf_def)
    ultimately have "apart_regions s (block_start h, SIZE_TABLE ! size_class h)"
      by (subst (asm) separated_Cons) (auto simp: apart_regions_sym)
    then show ?thesis
      using in_block by (rule apart_inside)
  qed
  moreover have "bytes_used h' = bytes_used h + n"
    unfolding h' bytes_used_pressure using t(1) top by (simp add: bytes_used_def unat_diff_le)
  ultimately show ?thesis
    using in_block by (auto simp: object_given_def h') (simp add: heap_regions_def)
qed

text \<open>Growing: the old block is abandoned, the new one is empty and large enough.\<close>

lemma grow_given:
  assumes sys: "allocator_ok sys" and w: "owned w h" and n: "n \<le> FRAGMENT_THRESHOLD"
    and g: "grow_block sys w h n = Some (w', h')"
  shows "owned w' h'" and "n \<le> SIZE_TABLE ! size_class h'" and "bump_top h' = block_start h'"
    and "set (heap_regions h) \<subseteq> set (used_regions h')"
    and "\<forall>s \<in> set (heap_regions h). \<forall>x. in_region x s \<longrightarrow> mem w' x = mem w x"
    and "bytes_used h \<le> bytes_used h'"
proof -
  define c where "c = max (pick_size_class n) (min (size_class h + 1) (length SIZE_TABLE - 1))"
  have c: "c < 32"
    using pick_size_class_less [of n] by (simp add: c_def)
  obtain p where a: "pool_alloc sys w c = Some (p, w')"
    and h': "h' = h\<lparr> abandoned_blocks := abandoned_blocks h @ [(block_start h, size_class h)],
         block_start := p, bump_top := p, block_end := p + of_nat (SIZE_TABLE ! c),
         block_size := SIZE_TABLE ! c, size_class := c \<rparr>"
    using g by (auto simp: grow_block_def Let_def c_def)
  have b: "block_given w (heap_regions h) (p, SIZE_TABLE ! c) w'"
    using w by (intro pool_alloc_given [OF sys _ c a]) (simp add: owned_def)
  then have p: "region_ok (p, SIZE_TABLE ! c)"
    by (simp add: block_given_def)
  have m: "mset (heap_regions h') = add_mset (p, SIZE_TABLE ! c) (mset (heap_regions h))"
    by (simp add: h' heap_regions_def)
  have "block_wf h'"
    using p c by (simp add: block_wf_def h' region_ok_def word_le_nat_alt unat_add_of_nat)
  then show "owned w' h'"
    using m by (rule owned_from_given [OF b])
  have "n \<le> SIZE_TABLE ! pick_size_class n"
    using n by (rule pick_size_class_fits)
  also have "\<dots> \<le> SIZE_TABLE ! c"
    using c by (intro SIZE_TABLE_mono) (auto simp: c_def)
  finally show "n \<le> SIZE_TABLE ! size_class h'"
    by (simp add: h')
  show "bump_top h' = block_start h'" "set (heap_regions h) \<subseteq> set (used_regions h')"
    by (auto simp: h' heap_regions_def used_regions_def)
  show "\<forall>s \<in> set (heap_regions h). \<forall>x. in_region x s \<longrightarrow> mem w' x = mem w x"
    using b by (simp add: block_given_def)
  have "unat (bump_top h - block_start h) \<le> SIZE_TABLE ! size_class h"
    using w block_end_unat [OF w] by (auto simp: owned_def held_def block_wf_def unat_diff_le word_le_nat_alt)
  then show "bytes_used h \<le> bytes_used h'"
    by (simp add: bytes_used_def h')
qed

lemma owned_stats [simp]: "owned w (h\<lparr> alloc_stats := s \<rparr>) = owned w h"
  by (simp add: owned_def held_def heap_regions_def block_wf_def)

lemma object_given_stats [simp]: "object_given w (h\<lparr> alloc_stats := s \<rparr>) r w' h' = object_given w h r w' h'"
  by (simp add: object_given_def used_regions_def bytes_used_def)

lemma fragment_given:
  assumes sys: "allocator_ok sys" and w: "owned w h" and a: "sys_alloc sys w n = Some (p, w')" and n: "0 < n"
    and h': "h' = note_alloc_pressure (h\<lparr>
      fragments := fragments h @ [\<lparr> frag_ptr = p, frag_size = n, frag_mark = False \<rparr>],
      alloc_count := k \<rparr>)"
  shows "object_given w h (p, n) w' h'"
proof -
  let ?h = "h\<lparr> fragments := fragments h @ [\<lparr> frag_ptr = p, frag_size = n, frag_mark = False \<rparr>], alloc_count := k \<rparr>"
  have b: "block_given w (heap_regions h) (p, n) w'"
    using w by (intro sys_alloc_given [OF sys _ a n]) (simp add: owned_def)
  have m: "mset (heap_regions ?h) = add_mset (p, n) (mset (heap_regions h))"
    by (simp add: heap_regions_def)
  have "block_wf ?h"
    using w by (auto simp: owned_def held_def block_wf_def)
  then have "owned w' h'"
    unfolding h' owned_pressure using m by (rule owned_from_given [OF b])
  moreover have "apart_regions s (p, n)" if s: "s \<in> set (used_regions h)" for s
  proof -
    obtain t where t: "t \<in> set (heap_regions h)" "inside s t"
      using used_inside [OF w s] by blast
    then have "apart_regions (p, n) t"
      using b n by (auto simp: block_given_def separated_Cons)
    then show ?thesis
      using t(2) apart_inside apart_regions_sym by blast
  qed
  moreover have "mem w' x = mem w x" if "s \<in> set (used_regions h)" "in_region x s" for s x
    using used_inside [OF w that(1)] that(2) b in_region_inside unfolding block_given_def by blast
  moreover have "inside (p, n) (p, n)" "(p, n) \<in> set (heap_regions h')"
    by (simp_all add: inside_def h' heap_regions_def note_alloc_pressure_def)
  moreover have "bytes_used h' = bytes_used h + n"
    unfolding h' bytes_used_pressure by (simp add: bytes_used_def)
  ultimately show ?thesis
    using b by (auto simp: object_given_def block_given_def)
qed

lemma alloc_kind_given:
  assumes sys: "allocator_ok sys" and w: "owned w h"
    and a: "alloc_kind sys w h kind req = Some (p, w', h')"
  shows "object_given w h (p, clear_low 4 (req + 15)) w' h'"
proof -
  let ?n = "clear_low 4 (req + 15)"
  let ?h = "h\<lparr> alloc_stats := HeapAllocStats_record kind ?n (alloc_stats h) \<rparr>"
  have n: "16 \<le> ?n" "?n mod 16 = 0"
    using a round_up_16(3) [of req] by (auto simp: alloc_kind_def Let_def split: if_splits)
  have w1: "owned w ?h"
    using w by simp
  consider (frag) "FRAGMENT_THRESHOLD < ?n"
    | (grow) "?n \<le> FRAGMENT_THRESHOLD" "block_end ?h < bump_top ?h + of_nat ?n"
    | (bump) "?n \<le> FRAGMENT_THRESHOLD" "bump_top ?h + of_nat ?n \<le> block_end ?h"
    by (meson not_le)
  then have "object_given w ?h (p, ?n) w' h'"
  proof cases
    case frag
    then have "sys_alloc sys w ?n = Some (p, w')"
      "h' = note_alloc_pressure (?h\<lparr>
        fragments := fragments ?h @ [\<lparr> frag_ptr = p, frag_size = ?n, frag_mark = False \<rparr>],
        alloc_count := alloc_count h + 1 \<rparr>)"
      using a n by (auto simp: alloc_kind_def Let_def)
    then show ?thesis
      using fragment_given [OF sys w1] n(1) by simp
  next
    case grow
    then obtain hg where g: "grow_block sys w ?h ?n = Some (w', hg)" and b: "bump hg ?n = (p, h')"
      using a n by (auto simp: alloc_kind_def Let_def case_prod_beta prod_eq_iff)
    note gg = grow_given [OF sys w1 grow(1) g]
    have "bump_top hg + of_nat ?n \<le> block_end hg"
      using gg(2,3) block_end_unat [OF gg(1)] by (simp add: word_le_nat_alt unat_add_of_nat)
    then have o: "object_given w' hg (p, ?n) w' h'"
      using bump_given [OF gg(1) n(2) _ _ grow(1) b] n(1) by simp
    have sub: "\<exists>t \<in> set (used_regions hg). inside s t" if "s \<in> set (used_regions ?h)" for s
      using used_inside [OF w1 that] gg(4) by blast
    have "apart_regions s (p, ?n)" if "s \<in> set (used_regions ?h)" for s
      using sub [OF that] o apart_inside apart_regions_sym unfolding object_given_def by metis
    moreover have "mem w' x = mem w x" if "s \<in> set (used_regions ?h)" "in_region x s" for s x
      using used_inside [OF w1 that(1)] that(2) gg(5) in_region_inside by blast
    ultimately show ?thesis
      using o gg(6) by (auto simp: object_given_def)
  next
    case bump
    then have "\<not> block_end ?h < bump_top ?h + of_nat ?n"
      by simp
    then have "bump ?h ?n = (p, h')" "w' = w"
      using a n bump(1) by (auto simp: alloc_kind_def Let_def split: prod.splits)
    then show ?thesis
      using bump_given [OF w1 n(2) _ bump(2) bump(1)] n(1) by simp
  qed
  then show ?thesis by simp
qed

lemma pool_alloc_ok: "(\<And>b n. sys b n \<noteq> 0) \<Longrightarrow> \<exists>p w'. pool_alloc sys w c = Some (p, w')"
  by (simp add: pool_alloc_def sys_alloc_def Let_def)

lemma alloc_kind_ok:
  assumes "\<And>b n. sys b n \<noteq> 0" and "0 < req"
  shows "\<exists>p w' h'. alloc_kind sys w h kind req = Some (p, w', h')"
proof -
  have "16 \<le> clear_low 4 (req + 15)"
    using assms(2) round_up_16 [of req] by (auto simp: dvd_def)
  moreover have "grow_block sys w hh n \<noteq> None" for hh n
    using pool_alloc_ok [of sys w] assms(1)
    by (simp add: grow_block_def Let_def del: not_None_eq) auto
  ultimately have "alloc_kind sys w h kind req \<noteq> None"
    using assms(1) by (simp add: alloc_kind_def Let_def sys_alloc_def case_prod_beta del: not_None_eq)
  then show ?thesis
    by (cases "alloc_kind sys w h kind req") auto
qed

lemma Heap_with_node_owned:
  assumes sys: "allocator_ok sys" and w: "held w []" and h: "Heap_with_node sys w capacity = Some (h, w')"
  shows "owned w' h" and "used_regions h = [(block_start h, 0)]"
proof -
  let ?c = "pick_size_class capacity"
  obtain p where a: "pool_alloc sys w ?c = Some (p, w')"
    and f: "block_start h = p" "bump_top h = p" "block_end h = p + of_nat (SIZE_TABLE ! ?c)"
      "block_size h = SIZE_TABLE ! ?c" "size_class h = ?c" "abandoned_blocks h = []" "fragments h = []"
    using h by (auto simp: Heap_with_node_def Let_def split: if_splits)
  have b: "block_given w [] (p, SIZE_TABLE ! ?c) w'"
    by (rule pool_alloc_given [OF sys w pick_size_class_less a])
  then have "region_ok (p, SIZE_TABLE ! ?c)"
    by (simp add: block_given_def)
  then have "block_wf h"
    by (simp add: block_wf_def f region_ok_def word_le_nat_alt unat_add_of_nat pick_size_class_less)
  then show "owned w' h"
    using b by (simp add: owned_def held_def block_given_def heap_regions_def f)
  show "used_regions h = [(block_start h, 0)]"
    by (simp add: used_regions_def f)
qed

section \<open>A concrete system allocator\<close>

text \<open>It hands out addresses upward from 0x1000; the example of an allocator that keeps the contract.\<close>

definition upward :: alloc_zeroed where
  "upward blocks n =
     (let top = fold max (map (\<lambda>(p, k). clear_low 4 (unat p + k + 15)) blocks) 0x1000
      in if top + n < 2 ^ 56 then of_nat top else 0)"

lemma fold_max_ge: "(y :: nat) \<le> fold max xs y \<and> (\<forall>x \<in> set xs. x \<le> fold max xs y)"
proof (induction xs arbitrary: y)
  case (Cons a xs)
  show ?case
    using Cons.IH [of "max a y"] by simp
qed simp

lemma fold_max_in: "fold max xs (y :: nat) \<in> set (y # xs)"
proof (induction xs arbitrary: y)
  case (Cons a xs)
  then show ?case
    using Cons.IH [of "max a y"] by (auto simp: max_def split: if_splits)
qed simp

lemma allocator_ok_upward: "allocator_ok upward"
  unfolding allocator_ok_def
proof (intro allI impI)
  fix blocks :: "region list" and n
  let ?ends = "map (\<lambda>(p, k). clear_low 4 (unat p + k + 15)) blocks"
  define top where "top = fold max ?ends 0x1000"
  assume "upward blocks n \<noteq> 0"
  then have p: "upward blocks n = of_nat top" and lt: "top + n < 2 ^ 56"
    by (auto simp: upward_def Let_def top_def split: if_splits)
  have u: "unat (of_nat top :: u64) = top"
    using lt by (simp add: unat_of_nat_small)
  have "top = 0x1000 \<or> top \<in> set ?ends"
    using fold_max_in [of ?ends "0x1000"] by (auto simp: top_def)
  then have "top mod 16 = 0"
    using round_up_16(3) by (auto simp: mod_eq_0_iff_dvd)
  moreover have "0x1000 \<le> top"
    unfolding top_def using fold_max_ge by blast
  ultimately have "region_ok (of_nat top, n)"
    using lt u by (auto simp: region_ok_def)
  moreover have "apart_regions r (of_nat top, n)" if "r \<in> set blocks" for r
  proof -
    have "clear_low 4 (unat (fst r) + snd r + 15) \<in> set ?ends"
      using that by (auto simp: case_prod_beta intro!: rev_image_eqI)
    then have "clear_low 4 (unat (fst r) + snd r + 15) \<le> top"
      unfolding top_def using fold_max_ge by blast
    then show ?thesis
      using round_up_16(1) [of "unat (fst r) + snd r"] u by (simp add: apart_regions_def)
  qed
  ultimately show "region_ok (upward blocks n, n) \<and> (\<forall>r \<in> set blocks. apart_regions r (upward blocks n, n))"
    by (simp add: p)
qed

definition empty_world :: World where
  "empty_world = \<lparr> mem = (\<lambda>_. 0), free_lists = replicate 32 [], sys_blocks = [] \<rparr>"

lemma pool_regions_replicate: "pool_regions_from c (replicate n []) = []"
  by (induction n arbitrary: c) auto

lemma held_empty_world: "held empty_world []"
  by (simp add: held_def empty_world_def pool_regions_def pool_regions_replicate separated_def)

text \<open>
  C3.  Every allocation is sound.  From a heap that owns its blocks (they and the pool's come
  from the system allocator and overlap nowhere) \<open>alloc_kind\<close> gives a sixteen-byte aligned,
  non-null region of at least the requested size that lies inside one of the heap's regions and
  overlaps nothing that was in use, in the bump, grow and fragment cases alike; the bytes in use
  keep their contents and the heap owns its blocks again.
\<close>

theorem Heap_alloc_sound:
  assumes "allocator_ok sys" and "owned w h" and "alloc_kind sys w h kind req = Some (p, w', h')"
  shows "owned w' h' \<and> p \<noteq> 0 \<and> unat p mod 16 = 0
    \<and> (\<exists>n \<ge> req. (\<exists>s \<in> set (heap_regions h'). inside (p, n) s)
         \<and> (\<forall>s \<in> set (used_regions h). apart_regions s (p, n)))
    \<and> (\<forall>s \<in> set (used_regions h). \<forall>x. in_region x s \<longrightarrow> mem w' x = mem w x)"
proof -
  have "object_given w h (p, clear_low 4 (req + 15)) w' h'"
    by (rule alloc_kind_given [OF assms])
  then show ?thesis
    using round_up_16(1) [of req] unfolding object_given_def region_ok_def by auto
qed

lemma first_heap:
  obtains h w where "Heap_with_node upward empty_world 1024 = Some (h, w)"
    and "bump_top h = 0x1000" and "block_end h = 0x1400"
proof -
  have "pick_size_class 1024 = 0"
    by (simp add: pick_size_class_def SIZE_TABLE_eq)
  then show thesis
    using that
    by (simp add: Heap_with_node_def pool_alloc_def sys_alloc_def empty_world_def upward_def SIZE_TABLE_eq Let_def)
qed

theorem Heap_alloc_sound_witness:
  "\<exists>h w p w' h'. Heap_with_node upward empty_world 1024 = Some (h, w)
    \<and> alloc_kind upward w h ListConsAlloc 16 = Some (p, w', h') \<and> owned w' h' \<and> p \<noteq> 0"
proof -
  obtain h w where h: "Heap_with_node upward empty_world 1024 = Some (h, w)"
    and top: "bump_top h = 0x1000" "block_end h = 0x1400"
    using first_heap .
  have o: "owned w h"
    by (rule Heap_with_node_owned [OF allocator_ok_upward held_empty_world h])
  obtain p w' h' where "alloc_kind upward w h ListConsAlloc 16 = Some (p, w', h')"
    using top by (simp add: alloc_kind_def Let_def clear_low_eq FRAGMENT_THRESHOLD_eq bump_def)
  then show ?thesis
    using Heap_alloc_sound [OF allocator_ok_upward o] h by blast
qed

end
