(* ===== verification/Fz_ListCell.thy ===== *)
theory Fz_ListCell
  imports Fz_AnyValue
begin

unbundle bit_operations_syntax

text \<open>
  Cons cells, from \<open>runtime/src/any_value.rs\<close>: a cell holds its head's payload and a link
  word that packs the tail's address with the head's kind and an alias bit.  The alias bit
  forbids rewriting in place; \<open>share_spine\<close> sets it on a whole list when the list is
  published.
\<close>

section \<open>Link words\<close>

definition LIST_LINK_KIND_SHIFT :: "TaggedRefArch \<Rightarrow> nat" where
  "LIST_LINK_KIND_SHIFT arch = tag_shift (for_arch arch)"

definition LIST_LINK_ALIAS_SHIFT :: "TaggedRefArch \<Rightarrow> nat" where
  "LIST_LINK_ALIAS_SHIFT arch = LIST_LINK_KIND_SHIFT arch + 4"

definition LIST_LINK_KIND_MASK :: "TaggedRefArch \<Rightarrow> u64" where
  "LIST_LINK_KIND_MASK arch = push_bit (LIST_LINK_KIND_SHIFT arch) TAG_MASK"

definition LIST_LINK_ALIAS_MASK :: "TaggedRefArch \<Rightarrow> u64" where
  "LIST_LINK_ALIAS_MASK arch = push_bit (LIST_LINK_ALIAS_SHIFT arch) 1"

definition LIST_LINK_ADDR_MASK :: "TaggedRefArch \<Rightarrow> u64" where
  "LIST_LINK_ADDR_MASK arch = address_mask (for_arch arch) AND NOT TAG_MASK"

definition LIST_LINK_METADATA_MASK :: "TaggedRefArch \<Rightarrow> u64" where
  "LIST_LINK_METADATA_MASK arch = LIST_LINK_KIND_MASK arch OR LIST_LINK_ALIAS_MASK arch"

type_synonym ListLink = u64

definition list_tail_addr_from_bits :: "u64 \<Rightarrow> u64 ref_outcome" where
  "list_tail_addr_from_bits bits =
     (if bits = EMPTY_LIST \<or> bits = NIL_BITS \<or> bits = 0 then Inr 0
      else if bits AND TAG_MASK = TAG_LIST then Inr (bits AND NOT TAG_MASK)
      else Inl Panic)"

definition ListLink_new :: "TaggedRefArch \<Rightarrow> u64 \<Rightarrow> ValueKind \<Rightarrow> ListLink ref_outcome" where
  "ListLink_new arch tail_bits head_kind =
     and_then (list_tail_addr_from_bits tail_bits) (\<lambda>addr.
       Inr (addr OR push_bit (LIST_LINK_KIND_SHIFT arch) (ucast (ValueKind_tag head_kind))))"

definition ListLink_head_kind :: "TaggedRefArch \<Rightarrow> ListLink \<Rightarrow> ValueKind ref_outcome" where
  "ListLink_head_kind arch link =
     expect_some (ValueKind_new (ucast (drop_bit (LIST_LINK_KIND_SHIFT arch) (link AND LIST_LINK_KIND_MASK arch))))"

definition ListLink_tail_addr :: "TaggedRefArch \<Rightarrow> ListLink \<Rightarrow> u64" where
  "ListLink_tail_addr arch link = link AND LIST_LINK_ADDR_MASK arch"

definition ListLink_tail_bits :: "TaggedRefArch \<Rightarrow> ListLink \<Rightarrow> u64" where
  "ListLink_tail_bits arch link =
     (let addr = ListLink_tail_addr arch link in if addr = 0 then EMPTY_LIST else addr OR TAG_LIST)"

definition ListLink_aliased :: "TaggedRefArch \<Rightarrow> ListLink \<Rightarrow> bool" where
  "ListLink_aliased arch link \<longleftrightarrow> link AND LIST_LINK_ALIAS_MASK arch \<noteq> 0"

definition ListLink_mark_aliased :: "TaggedRefArch \<Rightarrow> ListLink \<Rightarrow> ListLink" where
  "ListLink_mark_aliased arch link = link OR LIST_LINK_ALIAS_MASK arch"

definition ListLink_with_tail :: "TaggedRefArch \<Rightarrow> ListLink \<Rightarrow> u64 \<Rightarrow> ListLink ref_outcome" where
  "ListLink_with_tail arch link tail_bits =
     (let metadata = link AND LIST_LINK_METADATA_MASK arch
      in and_then (list_tail_addr_from_bits tail_bits) (\<lambda>addr. Inr (metadata OR addr)))"

definition ListLink_with_head_kind :: "TaggedRefArch \<Rightarrow> ListLink \<Rightarrow> ValueKind \<Rightarrow> ListLink" where
  "ListLink_with_head_kind arch link head_kind =
     (let metadata = link AND NOT (LIST_LINK_KIND_MASK arch)
      in metadata OR push_bit (LIST_LINK_KIND_SHIFT arch) (ucast (ValueKind_tag head_kind)))"

section \<open>Cells\<close>

record ListCons =
  cons_head :: u64
  cons_link :: ListLink

definition ListCons_new :: "TaggedRefArch \<Rightarrow> u64 \<Rightarrow> ValueKind \<Rightarrow> u64 \<Rightarrow> ListCons ref_outcome" where
  "ListCons_new arch head_raw head_kind tail_bits =
     and_then (ListLink_new arch tail_bits head_kind) (\<lambda>link. Inr \<lparr> cons_head = head_raw, cons_link = link \<rparr>)"

definition head_raw_kind :: "TaggedRefArch \<Rightarrow> ListCons \<Rightarrow> (u64 \<times> ValueKind) ref_outcome" where
  "head_raw_kind arch c =
     and_then (ListLink_head_kind arch (cons_link c)) (\<lambda>k. Inr (cons_head c, k))"

definition head_value :: "TaggedRefArch \<Rightarrow> ListCons \<Rightarrow> AnyValue ref_outcome" where
  "head_value arch c =
     and_then (ListLink_head_kind arch (cons_link c)) (\<lambda>k.
       and_then (decode_parts arch (cons_head c) (ValueKind_tag k)) expect_some)"

definition relocate_tail_for_gc :: "TaggedRefArch \<Rightarrow> ListCons \<Rightarrow> u64 \<Rightarrow> ListCons ref_outcome" where
  "relocate_tail_for_gc arch c tail_bits =
     and_then (ListLink_with_tail arch (cons_link c) tail_bits) (\<lambda>link. Inr (c\<lparr> cons_link := link \<rparr>))"

definition set_head_raw_kind_tail ::
  "TaggedRefArch \<Rightarrow> ListCons \<Rightarrow> u64 \<Rightarrow> ValueKind \<Rightarrow> u64 \<Rightarrow> ListCons ref_outcome" where
  "set_head_raw_kind_tail arch c head_raw head_kind tail_bits =
     and_then (ListLink_with_tail arch (ListLink_with_head_kind arch (cons_link c) head_kind) tail_bits)
       (\<lambda>link. Inr (c\<lparr> cons_head := head_raw, cons_link := link \<rparr>))"

definition rewrite_if_unaliased ::
  "TaggedRefArch \<Rightarrow> ListCons \<Rightarrow> u64 \<Rightarrow> ValueKind \<Rightarrow> u64 \<Rightarrow> (ListCons \<times> bool) ref_outcome" where
  "rewrite_if_unaliased arch c head_raw head_kind tail_bits =
     (if ListLink_aliased arch (cons_link c) then Inr (c, False)
      else and_then (set_head_raw_kind_tail arch c head_raw head_kind tail_bits) (\<lambda>c'. Inr (c', True)))"

text \<open>A cell in memory: the head word, then the link word.\<close>

definition cons_at :: "memory \<Rightarrow> u64 \<Rightarrow> ListCons" where
  "cons_at m addr = \<lparr> cons_head = read_u64 m addr, cons_link = read_u64 m (addr + of_nat 8) \<rparr>"

definition mark_cell :: "TaggedRefArch \<Rightarrow> memory \<Rightarrow> u64 \<Rightarrow> memory" where
  "mark_cell arch m addr =
     write_u64 m (addr + of_nat 8) (ListLink_mark_aliased arch (cons_link (cons_at m addr)))"

partial_function (option) share_spine ::
  "TaggedRefArch \<Rightarrow> memory \<Rightarrow> u64 \<Rightarrow> nat \<Rightarrow> (memory \<times> nat) option" where
  "share_spine arch m addr marked =
     (if addr = 0 then Some (m, marked)
      else let c = cons_at m addr
           in if ListLink_aliased arch (cons_link c) then Some (m, marked)
              else let m' = mark_cell arch m addr
                   in share_spine arch m' (ListLink_tail_addr arch (cons_link (cons_at m' addr))) (marked + 1))"

section \<open>Fields of a link word\<close>

lemma TAG_MASK_eq: "TAG_MASK = mask 4"
  by (simp add: word_layout mask_numeral)

lemma bit_TAG_MASK [simp]: "bit TAG_MASK n \<longleftrightarrow> n < 4"
  unfolding TAG_MASK_eq bit_mask_iff by auto

lemma kind_shift_cases: "LIST_LINK_KIND_SHIFT arch = 56 \<or> LIST_LINK_KIND_SHIFT arch = 57"
  using tag_shift_cases by (simp add: LIST_LINK_KIND_SHIFT_def)

lemma link_masks:
  "bit (LIST_LINK_KIND_MASK arch) n \<longleftrightarrow> LIST_LINK_KIND_SHIFT arch \<le> n \<and> n < LIST_LINK_KIND_SHIFT arch + 4"
  "bit (LIST_LINK_ALIAS_MASK arch) n \<longleftrightarrow> n = LIST_LINK_KIND_SHIFT arch + 4"
  "bit (LIST_LINK_ADDR_MASK arch) n \<longleftrightarrow> 4 \<le> n \<and> n < LIST_LINK_KIND_SHIFT arch"
  using kind_shift_cases [of arch]
  by (auto simp: LIST_LINK_KIND_MASK_def LIST_LINK_ALIAS_MASK_def LIST_LINK_ALIAS_SHIFT_def
      LIST_LINK_ADDR_MASK_def address_mask_eq LIST_LINK_KIND_SHIFT_def [symmetric] bit_simps
      bit_1_iff not_less)

lemma aliased_bit: "ListLink_aliased arch link \<longleftrightarrow> bit link (LIST_LINK_KIND_SHIFT arch + 4)"
proof -
  have "LIST_LINK_ALIAS_MASK arch = push_bit (LIST_LINK_KIND_SHIFT arch + 4) 1"
    by (simp add: LIST_LINK_ALIAS_MASK_def LIST_LINK_ALIAS_SHIFT_def)
  then show ?thesis
    by (simp add: ListLink_aliased_def and_exp_eq_0_iff_not_bit push_bit_eq_mult)
qed

lemma bit_tail_addr:
  "bit (ListLink_tail_addr arch link) n \<longleftrightarrow> bit link n \<and> 4 \<le> n \<and> n < LIST_LINK_KIND_SHIFT arch"
  by (auto simp: ListLink_tail_addr_def bit_and_iff link_masks)

definition kind_field :: "TaggedRefArch \<Rightarrow> ListLink \<Rightarrow> u8" where
  "kind_field arch link = ucast (drop_bit (LIST_LINK_KIND_SHIFT arch) (link AND LIST_LINK_KIND_MASK arch))"

lemma bit_kind_field: "bit (kind_field arch link) n \<longleftrightarrow> n < 4 \<and> bit link (LIST_LINK_KIND_SHIFT arch + n)"
  using kind_shift_cases [of arch] by (auto simp: kind_field_def bit_simps link_masks)

lemma head_kind_field: "ListLink_head_kind arch link = expect_some (ValueKind_new (kind_field arch link))"
  by (simp add: ListLink_head_kind_def kind_field_def)

text \<open>Tails that fit a link: \<open>[]\<close>, or a tagged list pointer with an addressable address.\<close>

definition tail_fits :: "TaggedRefArch \<Rightarrow> u64 \<Rightarrow> u64 \<Rightarrow> bool" where
  "tail_fits arch tail_bits a \<longleftrightarrow> list_tail_addr_from_bits tail_bits = Inr a \<and> addressable arch a"

lemma tail_fits_bit:
  assumes "tail_fits arch t a" and "bit a n"
  shows "4 \<le> n \<and> n < LIST_LINK_KIND_SHIFT arch"
proof -
  have "take_bit (LIST_LINK_KIND_SHIFT arch) a = a"
    using assms(1) by (simp add: tail_fits_def addressable_def LIST_LINK_KIND_SHIFT_def)
  then have "n < LIST_LINK_KIND_SHIFT arch"
    using assms(2) by (metis bit_take_bit_iff)
  moreover have "a = 0 \<or> a = t AND NOT TAG_MASK"
    using assms(1) by (auto simp: tail_fits_def list_tail_addr_from_bits_def split: if_splits)
  then have "4 \<le> n"
    using assms(2) by (auto simp: bit_simps)
  ultimately show ?thesis by simp
qed

definition link_reads :: "TaggedRefArch \<Rightarrow> ListLink \<Rightarrow> ValueKind ref_outcome \<Rightarrow> u64 \<Rightarrow> bool \<Rightarrow> bool" where
  "link_reads arch link k a al \<longleftrightarrow>
     ListLink_head_kind arch link = k \<and> ListLink_tail_addr arch link = a \<and> ListLink_aliased arch link = al"

lemma link_reads_new:
  assumes t: "tail_fits arch t a"
  obtains link where "ListLink_new arch t k = Inr link" and "link_reads arch link (Inr k) a False"
proof
  let ?s = "LIST_LINK_KIND_SHIFT arch"
  let ?l = "a OR push_bit ?s (ucast (ValueKind_tag k))"
  show "ListLink_new arch t k = Inr ?l"
    using t by (simp add: ListLink_new_def tail_fits_def)
  have "kind_field arch ?l = ValueKind_tag k"
    using kind_shift_cases [of arch]
    by (intro bit_word_eqI) (auto simp: bit_kind_field bit_simps dest: bit_tag tail_fits_bit [OF t])
  moreover have "ListLink_tail_addr arch ?l = a"
    by (intro bit_word_eqI) (auto simp: bit_tail_addr bit_simps dest: tail_fits_bit [OF t])
  moreover have "\<not> ListLink_aliased arch ?l"
    by (auto simp: aliased_bit bit_simps dest: bit_tag tail_fits_bit [OF t])
  ultimately show "link_reads arch ?l (Inr k) a False"
    by (simp add: link_reads_def head_kind_field)
qed

lemma link_reads_mark:
  "link_reads arch (ListLink_mark_aliased arch link)
     (ListLink_head_kind arch link) (ListLink_tail_addr arch link) True"
proof -
  have "kind_field arch (ListLink_mark_aliased arch link) = kind_field arch link"
    "ListLink_tail_addr arch (ListLink_mark_aliased arch link) = ListLink_tail_addr arch link"
    by (auto intro!: bit_word_eqI simp: bit_kind_field bit_tail_addr ListLink_mark_aliased_def bit_or_iff link_masks)
  then show ?thesis
    by (simp add: link_reads_def head_kind_field aliased_bit ListLink_mark_aliased_def bit_or_iff link_masks)
qed

lemma link_reads_with_tail:
  assumes t: "tail_fits arch t a"
  obtains link' where "ListLink_with_tail arch link t = Inr link'"
    and "link_reads arch link' (ListLink_head_kind arch link) a (ListLink_aliased arch link)"
proof
  let ?l = "(link AND LIST_LINK_METADATA_MASK arch) OR a"
  show "ListLink_with_tail arch link t = Inr ?l"
    using t by (simp add: ListLink_with_tail_def tail_fits_def)
  have meta: "bit (LIST_LINK_METADATA_MASK arch) n \<longleftrightarrow>
      LIST_LINK_KIND_SHIFT arch \<le> n \<and> n < LIST_LINK_KIND_SHIFT arch + 5" for n
    by (auto simp: LIST_LINK_METADATA_MASK_def bit_or_iff link_masks)
  have "kind_field arch ?l = kind_field arch link" "ListLink_tail_addr arch ?l = a"
    by (auto intro!: bit_word_eqI simp: bit_kind_field bit_tail_addr bit_or_iff bit_and_iff meta
        dest: tail_fits_bit [OF t])
  then show "link_reads arch ?l (ListLink_head_kind arch link) a (ListLink_aliased arch link)"
    by (auto simp: link_reads_def head_kind_field aliased_bit bit_or_iff bit_and_iff meta
        dest: tail_fits_bit [OF t])
qed

lemma link_reads_with_head_kind:
  "link_reads arch (ListLink_with_head_kind arch link k)
     (Inr k) (ListLink_tail_addr arch link) (ListLink_aliased arch link)"
proof -
  let ?l = "ListLink_with_head_kind arch link k"
  have l: "bit ?l n \<longleftrightarrow> (if LIST_LINK_KIND_SHIFT arch \<le> n \<and> n < LIST_LINK_KIND_SHIFT arch + 4
      then bit (ValueKind_tag k) (n - LIST_LINK_KIND_SHIFT arch) else bit link n)" if "n < 64" for n
    using that
    by (auto simp: ListLink_with_head_kind_def Let_def bit_simps link_masks dest: bit_tag)
  have "kind_field arch ?l = ValueKind_tag k"
  proof (rule bit_word_eqI)
    fix n
    show "bit (kind_field arch ?l) n = bit (ValueKind_tag k) n"
      using kind_shift_cases [of arch] l [of "LIST_LINK_KIND_SHIFT arch + n"] bit_tag [of k n]
      by (auto simp: bit_kind_field)
  qed
  moreover have "ListLink_tail_addr arch ?l = ListLink_tail_addr arch link"
    by (auto intro!: bit_word_eqI simp: bit_tail_addr l)
  ultimately show ?thesis
    using kind_shift_cases [of arch] by (auto simp: link_reads_def head_kind_field aliased_bit l)
qed

section \<open>Writing cells\<close>

lemma rewrite_reads:
  assumes t: "tail_fits arch t a"
  shows "\<exists>c' b. rewrite_if_unaliased arch c raw k t = Inr (c', b)
    \<and> (if ListLink_aliased arch (cons_link c) then \<not> b \<and> c' = c
        else b \<and> cons_head c' = raw \<and> link_reads arch (cons_link c') (Inr k) a False)"
proof (cases "ListLink_aliased arch (cons_link c)")
  case False
  let ?l = "ListLink_with_head_kind arch (cons_link c) k"
  obtain link where "ListLink_with_tail arch ?l t = Inr link"
    "link_reads arch link (ListLink_head_kind arch ?l) a (ListLink_aliased arch ?l)"
    using link_reads_with_tail [OF t] by blast
  then show ?thesis
    using False link_reads_with_head_kind [of arch "cons_link c" k]
    by (auto simp: rewrite_if_unaliased_def set_head_raw_kind_tail_def link_reads_def)
qed (auto simp: rewrite_if_unaliased_def)

lemma relocate_reads:
  assumes t: "tail_fits arch t a"
  shows "\<exists>c'. relocate_tail_for_gc arch c t = Inr c' \<and> cons_head c' = cons_head c
    \<and> link_reads arch (cons_link c') (ListLink_head_kind arch (cons_link c)) a (ListLink_aliased arch (cons_link c))"
proof -
  obtain link where "ListLink_with_tail arch (cons_link c) t = Inr link"
    "link_reads arch link (ListLink_head_kind arch (cons_link c)) a (ListLink_aliased arch (cons_link c))"
    using link_reads_with_tail [OF t] by blast
  then show ?thesis
    by (simp add: relocate_tail_for_gc_def)
qed

text \<open>
  Cons cells keep their contract.  For a tail that is \<open>[]\<close> or a list pointer with an
  addressable address: a new cell reads back its head, the head's kind and the tail, and is not
  aliased; a rewrite in place leaves an aliased cell untouched and reports so, and gives an
  unaliased one exactly the new contents; the collector's relocation changes the tail alone,
  keeping head, kind and alias bit.
\<close>

lemma ListCons_contract:
  assumes "tail_fits arch t a"
  shows "(\<exists>c. ListCons_new arch raw k t = Inr c \<and> head_raw_kind arch c = Inr (raw, k)
      \<and> ListLink_tail_addr arch (cons_link c) = a \<and> \<not> ListLink_aliased arch (cons_link c))
    \<and> (\<exists>c' b. rewrite_if_unaliased arch c0 raw k t = Inr (c', b)
      \<and> (if ListLink_aliased arch (cons_link c0) then \<not> b \<and> c' = c0
          else b \<and> head_raw_kind arch c' = Inr (raw, k)
            \<and> ListLink_tail_addr arch (cons_link c') = a \<and> \<not> ListLink_aliased arch (cons_link c')))
    \<and> (\<exists>c'. relocate_tail_for_gc arch c0 t = Inr c' \<and> head_raw_kind arch c' = head_raw_kind arch c0
      \<and> ListLink_tail_addr arch (cons_link c') = a
      \<and> ListLink_aliased arch (cons_link c') = ListLink_aliased arch (cons_link c0))"
proof -
  obtain link where "ListLink_new arch t k = Inr link" "link_reads arch link (Inr k) a False"
    using link_reads_new [OF assms] by blast
  then have "\<exists>c. ListCons_new arch raw k t = Inr c \<and> head_raw_kind arch c = Inr (raw, k)
      \<and> ListLink_tail_addr arch (cons_link c) = a \<and> \<not> ListLink_aliased arch (cons_link c)"
    by (simp add: ListCons_new_def head_raw_kind_def link_reads_def)
  moreover obtain c1 b where "rewrite_if_unaliased arch c0 raw k t = Inr (c1, b)"
    "if ListLink_aliased arch (cons_link c0) then \<not> b \<and> c1 = c0
        else b \<and> cons_head c1 = raw \<and> link_reads arch (cons_link c1) (Inr k) a False"
    using rewrite_reads [OF assms] by blast
  moreover obtain c2 where "relocate_tail_for_gc arch c0 t = Inr c2" "cons_head c2 = cons_head c0"
    "link_reads arch (cons_link c2) (ListLink_head_kind arch (cons_link c0)) a (ListLink_aliased arch (cons_link c0))"
    using relocate_reads [OF assms] by blast
  ultimately show ?thesis
    by (simp add: head_raw_kind_def link_reads_def split: if_splits)
qed

lemma ListCons_contract_witness:
  "\<exists>c. ListCons_new Arm64Tbi 5 INTEGER 0x2001 = Inr c \<and> head_raw_kind Arm64Tbi c = Inr (5, INTEGER)
      \<and> ListLink_tail_addr Arm64Tbi (cons_link c) = 0x2000"
  using ListCons_contract [of Arm64Tbi "0x2001" "0x2000" 5 INTEGER "\<lparr> cons_head = 0, cons_link = 0 \<rparr>"]
  by (auto simp: tail_fits_def list_tail_addr_from_bits_def word_layout addressable_iff packing_new_def)

section \<open>Publishing a list\<close>

lemma aligned_unat: "a AND TAG_MASK = 0 \<longleftrightarrow> unat a mod 16 = 0"
proof -
  have "a AND TAG_MASK = take_bit 4 a"
    by (simp add: TAG_MASK_eq take_bit_eq_mask)
  moreover have "unat (take_bit 4 a) = unat a mod 16"
    by (subst unsigned_take_bit_eq) (simp add: take_bit_eq_mod)
  ultimately have "unat (a AND TAG_MASK) = unat a mod 16"
    by simp
  then show ?thesis
    by (metis unat_eq_zero)
qed

lemma tail_addr_aligned: "ListLink_tail_addr arch link AND TAG_MASK = 0"
  by (rule bit_word_eqI) (auto simp: bit_and_iff bit_tail_addr)

lemma cell_frame:
  assumes "a AND TAG_MASK = 0" and "b AND TAG_MASK = 0" and "a \<noteq> b"
  shows "cons_at (write_u64 m (b + of_nat 8) w) a = cons_at m a"
proof -
  have "unat a \<noteq> unat b" "unat a mod 16 = 0" "unat b mod 16 = 0"
    using assms by (auto simp: aligned_unat simp flip: word_unat_eq_iff)
  moreover have "unat a < 2 ^ 64" "unat b < 2 ^ 64"
    using unsigned_less [of a, where ?'a = nat] unsigned_less [of b, where ?'a = nat] by simp_all
  moreover obtain x y where "unat a = 16 * x" "unat b = 16 * y"
    using calculation by (meson dvdE mod_0_imp_dvd)
  ultimately have "apart (unat a) 8 (unat b + 8) 8" "apart (unat a + 8) 8 (unat b + 8) 8"
    by (auto simp: apart_def)
  then show ?thesis
    using read_write_apart(9) [of "unat a" "unat b + 8" m 0 w]
      read_write_apart(9) [of "unat a + 8" "unat b + 8" m 0 w]
    by (simp add: cons_at_def)
qed

lemma cell_head_frame: "read_u64 (write_u64 m (a + of_nat 8) w) a = read_u64 m a"
  using read_write_apart(9) [of 0 8 m a w] by (simp add: apart_def)

lemma cons_at_mark:
  assumes "a AND TAG_MASK = 0" and "b AND TAG_MASK = 0"
  shows "cons_at (mark_cell arch m b) a =
    (if a = b then (cons_at m a)\<lparr> cons_link := ListLink_mark_aliased arch (cons_link (cons_at m a)) \<rparr>
     else cons_at m a)"
proof (cases "a = b")
  case True
  then show ?thesis
    using cell_head_frame [of m b]
    by (simp add: mark_cell_def cons_at_def del: of_nat_numeral)
qed (use cell_frame [OF assms] in \<open>simp add: mark_cell_def\<close>)

text \<open>The cells of a finite list, from its address to the null tail.\<close>

inductive spine :: "TaggedRefArch \<Rightarrow> memory \<Rightarrow> u64 \<Rightarrow> u64 list \<Rightarrow> bool" for arch m where
  spine_nil: "spine arch m 0 []"
| spine_cons: "a \<noteq> 0 \<Longrightarrow> a AND TAG_MASK = 0 \<Longrightarrow>
    spine arch m (ListLink_tail_addr arch (cons_link (cons_at m a))) as \<Longrightarrow> spine arch m a (a # as)"

inductive_cases spine_zeroE: "spine arch m 0 as"
inductive_cases spine_consE: "spine arch m a (b # as)"

lemma spine_unique: "spine arch m a as \<Longrightarrow> spine arch m a bs \<Longrightarrow> as = bs"
proof (induction arbitrary: bs rule: spine.induct)
  case spine_nil
  then show ?case by (auto elim: spine.cases)
next
  case (spine_cons a as)
  from spine_cons.prems spine_cons.hyps(1) obtain cs where
    "bs = a # cs" "spine arch m (ListLink_tail_addr arch (cons_link (cons_at m a))) cs"
    by (auto elim: spine.cases)
  then show ?case
    using spine_cons.IH by simp
qed

lemma spine_suffix: "spine arch m a as \<Longrightarrow> b \<in> set as \<Longrightarrow> \<exists>bs. spine arch m b (b # bs) \<and> length bs < length as"
  by (induction rule: spine.induct) (auto intro: spine.intros simp: less_Suc_eq)

lemma spine_distinct: "spine arch m a as \<Longrightarrow> distinct as"
proof (induction rule: spine.induct)
  case (spine_cons a as)
  have "a \<notin> set as"
  proof
    assume "a \<in> set as"
    then obtain bs where "spine arch m a (a # bs)" "length bs < length as"
      using spine_suffix spine_cons.hyps(3) by blast
    then show False
      using spine_unique [OF spine.spine_cons [OF spine_cons.hyps]] by blast
  qed
  then show ?case
    using spine_cons.IH by simp
qed simp

lemma spine_aligned: "spine arch m a as \<Longrightarrow> b \<in> set as \<Longrightarrow> b AND TAG_MASK = 0"
  by (induction rule: spine.induct) auto

abbreviation aliased_at :: "TaggedRefArch \<Rightarrow> memory \<Rightarrow> u64 \<Rightarrow> bool" where
  "aliased_at arch m a \<equiv> ListLink_aliased arch (cons_link (cons_at m a))"

text \<open>The invariant publication relies on: an aliased cell certifies an aliased tail.\<close>

fun alias_closed :: "TaggedRefArch \<Rightarrow> memory \<Rightarrow> u64 list \<Rightarrow> bool" where
  "alias_closed arch m [] \<longleftrightarrow> True"
| "alias_closed arch m (a # as) \<longleftrightarrow>
     (aliased_at arch m a \<longrightarrow> (\<forall>b \<in> set as. aliased_at arch m b)) \<and> alias_closed arch m as"

lemma spine_cong:
  "spine arch m a as \<Longrightarrow> (\<And>b. b \<in> set as \<Longrightarrow>
      ListLink_tail_addr arch (cons_link (cons_at m' b)) = ListLink_tail_addr arch (cons_link (cons_at m b))) \<Longrightarrow>
    spine arch m' a as"
  by (induction rule: spine.induct) (auto intro: spine.intros)

lemma alias_closed_cong:
  "(\<And>b. b \<in> set as \<Longrightarrow> aliased_at arch m' b = aliased_at arch m b) \<Longrightarrow>
   alias_closed arch m' as = alias_closed arch m as"
  by (induction as) auto

lemma mark_cell_frame: "8 \<le> unat (x - (a + of_nat 8)) \<Longrightarrow> mark_cell arch m a x = m x"
  by (simp add: mark_cell_def write_u64_def store_def)

lemma cons_at_mark_self:
  "a AND TAG_MASK = 0 \<Longrightarrow> head_raw_kind arch (cons_at (mark_cell arch m a) a) = head_raw_kind arch (cons_at m a)"
  "a AND TAG_MASK = 0 \<Longrightarrow> ListLink_tail_addr arch (cons_link (cons_at (mark_cell arch m a) a))
     = ListLink_tail_addr arch (cons_link (cons_at m a))"
  "a AND TAG_MASK = 0 \<Longrightarrow> aliased_at arch (mark_cell arch m a) a"
  using link_reads_mark [of arch "cons_link (cons_at m a)"]
  by (simp_all add: cons_at_mark head_raw_kind_def link_reads_def)

text \<open>What publishing leaves alone: heads, kinds, tails, and every byte outside the links.\<close>

definition same_cells :: "TaggedRefArch \<Rightarrow> u64 list \<Rightarrow> memory \<Rightarrow> memory \<Rightarrow> bool" where
  "same_cells arch as m m' \<longleftrightarrow>
     (\<forall>b \<in> set as. head_raw_kind arch (cons_at m' b) = head_raw_kind arch (cons_at m b)
        \<and> ListLink_tail_addr arch (cons_link (cons_at m' b)) = ListLink_tail_addr arch (cons_link (cons_at m b)))
     \<and> (\<forall>x. (\<forall>b \<in> set as. 8 \<le> unat (x - (b + of_nat 8))) \<longrightarrow> m' x = m x)"

lemma share_spine_marks:
  assumes "spine arch m a as" and "alias_closed arch m as"
  shows "\<exists>m'. share_spine arch m a n = Some (m', n + length (filter (\<lambda>b. \<not> aliased_at arch m b) as))
    \<and> (\<forall>b \<in> set as. aliased_at arch m' b) \<and> same_cells arch as m m'
    \<and> (\<forall>c. c AND TAG_MASK = 0 \<and> c \<notin> set as \<longrightarrow> cons_at m' c = cons_at m c)"
  using assms
proof (induction as arbitrary: m a n rule: list.induct)
  case Nil
  then have "a = 0" by (auto elim: spine.cases)
  then show ?case
    by (subst share_spine.simps) (simp add: same_cells_def)
next
  case (Cons b as)
  then have a: "a = b" "a \<noteq> 0" "a AND TAG_MASK = 0"
    and tl: "spine arch m (ListLink_tail_addr arch (cons_link (cons_at m a))) as"
    by (auto elim: spine_consE)
  have dist: "b \<notin> set as"
    using spine_distinct [OF Cons.prems(1)] by simp
  show ?case
  proof (cases "aliased_at arch m a")
    case True
    then have "\<forall>c \<in> set (b # as). aliased_at arch m c"
      using Cons.prems(2) a by simp
    then show ?thesis
      using a True by (subst share_spine.simps) (simp add: same_cells_def filter_empty_conv)
  next
    case False
    let ?m = "mark_cell arch m a"
    have same: "cons_at ?m c = cons_at m c" if "c \<in> set as" for c
      using that a dist spine_aligned [OF tl that] by (auto simp: cons_at_mark)
    have "spine arch ?m (ListLink_tail_addr arch (cons_link (cons_at m a))) as"
      using spine_cong [OF tl, of ?m] same by simp
    moreover have "alias_closed arch ?m as"
      using alias_closed_cong [of as arch ?m m] same Cons.prems(2) by simp
    ultimately obtain m' where m':
      "share_spine arch ?m (ListLink_tail_addr arch (cons_link (cons_at m a))) (n + 1)
        = Some (m', n + 1 + length (filter (\<lambda>b. \<not> aliased_at arch ?m b) as))"
      "\<forall>b \<in> set as. aliased_at arch m' b" "same_cells arch as ?m m'"
      "\<forall>c. c AND TAG_MASK = 0 \<and> c \<notin> set as \<longrightarrow> cons_at m' c = cons_at ?m c"
      using Cons.IH by blast
    have cnt: "filter (\<lambda>b. \<not> aliased_at arch ?m b) as = filter (\<lambda>b. \<not> aliased_at arch m b) as"
      using same by (intro filter_cong) auto
    have "share_spine arch m a n = Some (m', n + length (filter (\<lambda>b. \<not> aliased_at arch m b) (b # as)))"
      using a False m'(1) cons_at_mark_self(2) [OF a(3), of arch m] cnt
      by (subst share_spine.simps) (simp add: Let_def)
    moreover have b: "cons_at m' b = cons_at ?m b"
      using m'(4) a dist by simp
    then have "\<forall>c \<in> set (b # as). aliased_at arch m' c"
      using m'(2) a cons_at_mark_self(3) by simp
    moreover have "same_cells arch (b # as) m m'"
      using m'(3) b same a cons_at_mark_self(1,2) [OF a(3), of arch m] mark_cell_frame
      by (auto simp: same_cells_def)
    moreover have "\<forall>c. c AND TAG_MASK = 0 \<and> c \<notin> set (b # as) \<longrightarrow> cons_at m' c = cons_at m c"
      using m'(4) a by (auto simp: cons_at_mark)
    ultimately show ?thesis by blast
  qed
qed

text \<open>
  C11.  Publishing a list protects all of it and nothing else: on every finite list whose
  aliased cells have aliased tails, \<open>share_spine\<close> returns, counts the cells it newly marked, and
  leaves every cell of the list aliased with its head, head kind and tail unchanged; no byte
  outside the cells' link words changes.
\<close>

lemma share_spine_protects:
  assumes "spine arch m a as" and "alias_closed arch m as"
  shows "\<exists>m'. share_spine arch m a 0 = Some (m', length (filter (\<lambda>b. \<not> aliased_at arch m b) as))
    \<and> spine arch m' a as \<and> (\<forall>b \<in> set as. aliased_at arch m' b)
    \<and> (\<forall>b \<in> set as. head_raw_kind arch (cons_at m' b) = head_raw_kind arch (cons_at m b))
    \<and> (\<forall>x. (\<forall>b \<in> set as. 8 \<le> unat (x - (b + of_nat 8))) \<longrightarrow> m' x = m x)"
proof -
  obtain m' where m': "share_spine arch m a 0 = Some (m', length (filter (\<lambda>b. \<not> aliased_at arch m b) as))"
    "\<forall>b \<in> set as. aliased_at arch m' b" "same_cells arch as m m'"
    using share_spine_marks [OF assms, of 0] by auto
  then have "spine arch m' a as"
    using spine_cong [OF assms(1), of m'] by (simp add: same_cells_def)
  then show ?thesis
    using m' by (auto simp: same_cells_def)
qed

text \<open>Two unaliased cells, 0x20 then 0x10, for the example.\<close>

definition two_cells :: memory where
  "two_cells = write_u64 (\<lambda>_. 0) (0x20 + of_nat 8) 0x10"

lemma two_cells_reads:
  "cons_link (cons_at two_cells 0x20) = 0x10" "cons_link (cons_at two_cells 0x10) = 0"
proof -
  show "cons_link (cons_at two_cells 0x20) = 0x10"
    by (simp add: two_cells_def cons_at_def del: of_nat_numeral)
  have "cons_at two_cells 0x10 = cons_at (\<lambda>_. 0) 0x10"
    unfolding two_cells_def by (rule cell_frame) (simp_all add: word_layout)
  then show "cons_link (cons_at two_cells 0x10) = 0"
    by (simp add: cons_at_def read_u64_def load_def upt_rec)
qed

lemma two_cells_spine:
  "spine Arm64Tbi two_cells 0x20 [0x20, 0x10]" "alias_closed Arm64Tbi two_cells [0x20, 0x10]"
proof -
  have "ListLink_tail_addr Arm64Tbi 0x10 = 0x10" "ListLink_tail_addr Arm64Tbi 0 = 0"
    "\<not> ListLink_aliased Arm64Tbi 0x10" "\<not> ListLink_aliased Arm64Tbi 0"
    by (simp_all add: ListLink_tail_addr_def LIST_LINK_ADDR_MASK_def ListLink_aliased_def
        LIST_LINK_ALIAS_MASK_def LIST_LINK_ALIAS_SHIFT_def LIST_LINK_KIND_SHIFT_def packing_new_def word_layout)
  then show "spine Arm64Tbi two_cells 0x20 [0x20, 0x10]" "alias_closed Arm64Tbi two_cells [0x20, 0x10]"
    by (auto intro!: spine.intros simp: two_cells_reads word_layout)
qed

lemma share_spine_protects_witness:
  "\<exists>m'. share_spine Arm64Tbi two_cells 0x20 0 = Some (m', 2)
    \<and> aliased_at Arm64Tbi m' 0x20 \<and> aliased_at Arm64Tbi m' 0x10"
proof -
  have "\<not> ListLink_aliased Arm64Tbi 0x10" "\<not> ListLink_aliased Arm64Tbi 0"
    by (simp_all add: ListLink_aliased_def LIST_LINK_ALIAS_MASK_def LIST_LINK_ALIAS_SHIFT_def
        LIST_LINK_KIND_SHIFT_def packing_new_def)
  then show ?thesis
    using share_spine_protects [OF two_cells_spine] by (auto simp: two_cells_reads)
qed

end
