(* ===== verification/Fz_Forward.thy ===== *)
theory Fz_Forward
  imports Fz_Heap Fz_ListCell
begin

unbundle bit_operations_syntax

text \<open>
  The collector's building blocks, from \<open>runtime/src/heap/imp.rs\<close> (the choice of the to-space)
  and \<open>runtime/src/heap/gc/\<close> (copying an object and leaving a forwarding marker behind): how large
  the to-space is, when it is large enough, what a copy leaves in both spaces, and which objects
  the marker test can tell from forwarded ones.
\<close>

section \<open>The size of the to-space\<close>

definition fragment_bytes :: "Heap \<Rightarrow> nat" where
  "fragment_bytes h = sum_list (map frag_size (fragments h))"

definition occupied_before_gc :: "Heap \<Rightarrow> nat" where
  "occupied_before_gc h = bytes_used h - fragment_bytes h"

definition was_pressured :: "Heap \<Rightarrow> bool" where
  "was_pressured h \<longleftrightarrow> abandoned_blocks h \<noteq> [] \<or> gc_threshold_bytes h \<le> occupied_before_gc h"

definition gc_target_bytes :: "Heap \<Rightarrow> nat" where
  "gc_target_bytes h =
     (let prev_live = last_gc_live_bytes h;
          fit_to_live = (if 0 < prev_live then prev_live * 2 else bytes_used h - fragment_bytes h)
      in if was_pressured h then
           let footprint = bytes_used h - fragment_bytes h in max fit_to_live (footprint * 2)
         else if prev_live = 0 \<or> prev_live * 4 \<le> block_size h then fit_to_live
         else block_size h)"

definition gc_size_class :: "Heap \<Rightarrow> nat" where
  "gc_size_class h =
     (let class = pick_size_class (max (gc_target_bytes h) (SIZE_TABLE ! 0))
      in if was_pressured h then
           let grown = min (size_class h + 1) (length SIZE_TABLE - 1) in max class grown
         else class)"

section \<open>Copying and forwarding\<close>

definition copy_object_to_space :: "memory \<Rightarrow> u64 \<Rightarrow> nat \<Rightarrow> u64 \<Rightarrow> u64 \<Rightarrow> (u64 \<times> u64 \<times> memory) option" where
  "copy_object_to_space m p n free to_end =
     (let dst = free; new_top = dst + of_nat n
      in if new_top \<le> to_end then Some (dst, new_top, store m dst (load m p n)) else None)"

definition write_forwarding_marker :: "memory \<Rightarrow> u64 \<Rightarrow> u64 \<Rightarrow> memory" where
  "write_forwarding_marker m from to = write_u64 m from ((to AND NOT TAG_MASK) OR TAG_FWD)"

definition is_forwarded_list :: "memory \<Rightarrow> u64 \<Rightarrow> u64 option" where
  "is_forwarded_list m addr =
     (let marker = read_u64 m addr
      in if marker AND TAG_MASK \<noteq> TAG_FWD then None
         else let link_marker = read_u64 m (addr + of_nat 8)
              in if link_marker AND TAG_MASK = TAG_FWD then Some (marker AND NOT TAG_MASK) else None)"

definition is_forwarded_headerless :: "memory \<Rightarrow> u64 \<Rightarrow> u64 option" where
  "is_forwarded_headerless m addr =
     (let marker = read_u64 m addr
      in if marker AND TAG_MASK \<noteq> TAG_FWD then None
         else let confirm = read_u64 m (addr + of_nat 8); forwarded = marker AND NOT TAG_MASK
              in if confirm = TAG_FWD \<and> forwarded \<noteq> 0 then Some forwarded else None)"

definition is_forwarded_procbin :: "memory \<Rightarrow> u64 \<Rightarrow> u64 option" where
  "is_forwarded_procbin m addr =
     (let marker = read_u64 m addr; forwarded = marker AND NOT TAG_MASK
      in if marker AND TAG_MASK = TAG_FWD \<and> forwarded \<noteq> 0 then Some forwarded else None)"

definition copy_to_space_with_confirmed_forwarding ::
  "memory \<Rightarrow> u64 \<Rightarrow> nat \<Rightarrow> u64 \<Rightarrow> u64 \<Rightarrow> (u64 \<times> u64 \<times> memory) option" where
  "copy_to_space_with_confirmed_forwarding m p n free to_end =
     map_option (\<lambda>(dst, free', m1).
         (dst, free', write_u64 (write_forwarding_marker m1 p dst) (p + of_nat 8) TAG_FWD))
       (copy_object_to_space m p n free to_end)"

definition copy_to_space_with_first_word_forwarding ::
  "memory \<Rightarrow> u64 \<Rightarrow> nat \<Rightarrow> u64 \<Rightarrow> u64 \<Rightarrow> (u64 \<times> u64 \<times> memory) option" where
  "copy_to_space_with_first_word_forwarding m p n free to_end =
     map_option (\<lambda>(dst, free', m1). (dst, free', write_forwarding_marker m1 p dst))
       (copy_object_to_space m p n free to_end)"

section \<open>Inline bitstrings in memory\<close>

definition bitstring_size_for_bit_len :: "u64 \<Rightarrow> nat" where
  "bitstring_size_for_bit_len bit_len =
     (let bytes_len = div_ceil (unat bit_len) 8 in clear_low 4 (8 + bytes_len + 1 + 15))"

text \<open>The stores of \<open>alloc_bitstring\<close> into the object it allocated (at most 64 bytes of payload).\<close>

definition write_bitstring :: "memory \<Rightarrow> u64 \<Rightarrow> u8 list \<Rightarrow> u64 \<Rightarrow> memory" where
  "write_bitstring m p bs bit_len =
     (let total = bitstring_size_for_bit_len bit_len;
          m1 = write_u64 m p bit_len;
          m2 = store m1 (p + of_nat 8) bs;
          pad_start = 8 + length bs
      in if pad_start < total then zero_bytes m2 (p + of_nat pad_start) (total - pad_start) else m2)"

section \<open>When the to-space is large enough\<close>

lemma occupied_eq:
  "occupied_before_gc h = unat (bump_top h - block_start h)
     + sum_list (map (\<lambda>(_, c). SIZE_TABLE ! c) (abandoned_blocks h))"
  by (simp add: occupied_before_gc_def bytes_used_def fragment_bytes_def)

lemma pick_covers:
  assumes "x \<le> FRAGMENT_THRESHOLD" and "x \<le> y"
  shows "x \<le> SIZE_TABLE ! pick_size_class y"
proof (cases "y \<le> FRAGMENT_THRESHOLD")
  case True
  then show ?thesis
    using assms pick_size_class_fits [of y] by simp
next
  case False
  have "\<not> pick_size_class y < 31"
  proof
    assume "pick_size_class y < 31"
    then have "pick_from 0 SIZE_TABLE y \<noteq> None"
      by (auto simp: pick_size_class_def split: option.splits)
    then obtain s where "s \<in> set SIZE_TABLE" "y \<le> s"
      by (auto simp: pick_from_None not_less)
    moreover have "s \<le> FRAGMENT_THRESHOLD" if "s \<in> set SIZE_TABLE" for s
      using that SIZE_TABLE_bounds(2) by (auto simp: in_set_conv_nth)
    ultimately show False
      using False by fastforce
  qed
  then have "pick_size_class y = 31"
    using pick_size_class_less [of y] by simp
  then show ?thesis
    using assms(1) by (simp add: FRAGMENT_THRESHOLD_def)
qed

lemma gc_size_class_less: "gc_size_class h < 32"
  using pick_size_class_less by (simp add: gc_size_class_def Let_def min_less_iff_disj)

lemma block_used_le: "owned w h \<Longrightarrow> abandoned_blocks h = [] \<Longrightarrow> occupied_before_gc h \<le> block_size h"
  using block_end_unat [of w h]
  by (auto simp: occupied_eq owned_def block_wf_def unat_diff_le word_le_nat_alt)

text \<open>
  C28.  The to-space holds everything the collector may copy, when the occupied bytes do not
  exceed the largest block and the heap is under pressure (a block was abandoned, or half the
  block is in use), or was never collected, or held more than a quarter of the block alive after
  the last collection, or has at most doubled since: the block chosen is then at least as large
  as all occupied bytes outside fragments.
\<close>

theorem gc_to_space_fits:
  assumes "owned w h" and "occupied_before_gc h \<le> FRAGMENT_THRESHOLD"
    and "was_pressured h \<or> last_gc_live_bytes h = 0 \<or> block_size h < 4 * last_gc_live_bytes h
       \<or> occupied_before_gc h \<le> 2 * last_gc_live_bytes h"
  shows "occupied_before_gc h \<le> SIZE_TABLE ! gc_size_class h"
proof -
  have "occupied_before_gc h \<le> gc_target_bytes h"
    using assms(3) block_used_le [OF assms(1)]
    by (auto simp: gc_target_bytes_def Let_def was_pressured_def occupied_before_gc_def max_def)
  then have "occupied_before_gc h \<le> SIZE_TABLE ! pick_size_class (max (gc_target_bytes h) (SIZE_TABLE ! 0))"
    using assms(2) by (intro pick_covers) auto
  also have "\<dots> \<le> SIZE_TABLE ! gc_size_class h"
    using gc_size_class_less by (intro SIZE_TABLE_mono) (auto simp: gc_size_class_def Let_def)
  finally show ?thesis .
qed

text \<open>A heap that kept 1008 bytes alive at its last collection and now has 10000 in use.\<close>

definition doubled_heap :: Heap where
  "doubled_heap = \<lparr> block_start = 0x1000, bump_top = 0x1000 + 10000, block_end = 0x1000 + 28160,
     block_size = 28160, size_class = 7, last_gc_live_bytes = 1008, abandoned_blocks = [],
     pressure = True, gc_threshold_bytes = 14080, alloc_count = 0,
     alloc_stats = \<lparr> stat_total = \<lparr> stat_allocs = 0, stat_bytes = 0 \<rparr>,
       stat_kind = (\<lambda>_. \<lparr> stat_allocs = 0, stat_bytes = 0 \<rparr>) \<rparr>,
     fragments = [] \<rparr>"

text \<open>
  C38.  Outside those bounds it does not.  The to-space is never larger than the largest block
  (7391280 bytes), whatever the heap holds; and a heap that is not under pressure by the
  collector's measure and has more than doubled its live bytes gets one smaller than its contents:
  with a 28160-byte block, 1008 bytes alive at the last collection and 10000 in use, the to-space
  has 2560 bytes.  Copying stops at the assertion in \<open>copy_object_to_space\<close> once it is full.
\<close>

theorem gc_to_space_exhaustible:
  "SIZE_TABLE ! gc_size_class h \<le> 7391280
   \<and> block_wf doubled_heap \<and> pressure doubled_heap
   \<and> occupied_before_gc doubled_heap = 10000 \<and> SIZE_TABLE ! gc_size_class doubled_heap = 2560
   \<and> copy_object_to_space m p 2576 0x10000 (0x10000 + 2560) = None"
proof (intro conjI)
  show "SIZE_TABLE ! gc_size_class h \<le> 7391280"
    using SIZE_TABLE_bounds(2) [OF gc_size_class_less, of h] by (simp add: FRAGMENT_THRESHOLD_eq)
  show o: "occupied_before_gc doubled_heap = 10000"
    by (simp add: occupied_eq doubled_heap_def)
  have "gc_target_bytes doubled_heap = 2016" "\<not> was_pressured doubled_heap"
    using o by (simp_all add: gc_target_bytes_def was_pressured_def doubled_heap_def)
  moreover have "pick_size_class 2016 = 2"
    by (simp add: pick_size_class_def SIZE_TABLE_eq)
  ultimately show "SIZE_TABLE ! gc_size_class doubled_heap = 2560"
    by (simp add: gc_size_class_def SIZE_TABLE_eq)
qed (simp_all add: block_wf_def doubled_heap_def SIZE_TABLE_eq copy_object_to_space_def)

theorem gc_to_space_fits_witness:
  "\<exists>h w. Heap_with_node upward empty_world 1024 = Some (h, w) \<and> last_gc_live_bytes h = 0
    \<and> occupied_before_gc h \<le> SIZE_TABLE ! gc_size_class h"
proof -
  obtain h w where h: "Heap_with_node upward empty_world 1024 = Some (h, w)"
    using first_heap by blast
  have o: "owned w h"
    by (rule Heap_with_node_owned [OF allocator_ok_upward held_empty_world h])
  have f: "last_gc_live_bytes h = 0" "abandoned_blocks h = []" "bump_top h = block_start h"
    using h by (auto simp: Heap_with_node_def Let_def)
  then show ?thesis
    using gc_to_space_fits [OF o] h by (simp add: occupied_eq)
qed

section \<open>Forwarding markers\<close>

lemma at_unat: "(a :: u64) = 0 + of_nat (unat a)" "(a :: u64) + of_nat k = 0 + of_nat (unat a + k)"
  by simp_all

lemma load_store_regions:
  assumes "region_ok (p, n)" and "region_ok (q, length bs)" and "apart_regions (p, n) (q, length bs)"
  shows "load (store m q bs) p n = load m p n"
proof -
  have "apart (unat p) n (unat q) (length bs)"
    using assms by (auto simp: apart_def region_ok_def apart_regions_def)
  then show ?thesis
    using load_store_apart [of "unat p" n "unat q" bs m 0] by simp
qed

lemma load_write_u64_regions:
  assumes "region_ok (p, n)" and "unat q + 8 < 2 ^ 56" and "apart_regions (p, n) (q, 8)"
  shows "load (write_u64 m q v) p n = load m p n"
proof -
  have "apart (unat p) n (unat q) 8"
    using assms by (auto simp: apart_def region_ok_def apart_regions_def)
  then show ?thesis
    using load_store_apart [of "unat p" n "unat q" "to_bytes 8 v" m 0] by (simp add: write_u64_def)
qed

lemma marker_fields:
  assumes "dst AND TAG_MASK = 0"
  shows "((dst AND NOT TAG_MASK) OR TAG_FWD) AND TAG_MASK = TAG_FWD"
    and "((dst AND NOT TAG_MASK) OR TAG_FWD) AND NOT TAG_MASK = dst"
proof -
  have "TAG_FWD AND TAG_MASK = TAG_FWD" "TAG_FWD AND NOT TAG_MASK = 0"
    by (simp_all add: word_layout)
  then show "((dst AND NOT TAG_MASK) OR TAG_FWD) AND TAG_MASK = TAG_FWD"
    "((dst AND NOT TAG_MASK) OR TAG_FWD) AND NOT TAG_MASK = dst"
    using assms and_not_tag_mask [OF assms] by (simp_all add: bit.conj_disj_distrib2)
qed

lemma tag_fwd_self: "TAG_FWD AND TAG_MASK = TAG_FWD"
  by (simp add: word_layout)

lemma marker_kept: "read_u64 (write_u64 m (p + of_nat 8) v) p = read_u64 m p"
  using read_write_apart(9) [of 0 8 m p v] by (simp add: apart_def)

lemma copy_object_keeps:
  assumes p: "region_ok (p, n)" and q: "region_ok (q, n)" and ap: "apart_regions (p, n) (q, n)"
  shows "load (store m q (load m p n)) q n = load m p n"
    and "load (store m q (load m p n)) p n = load m p n"
proof -
  have "n < 2 ^ 64"
    using q by (simp add: region_ok_def)
  then show "load (store m q (load m p n)) q n = load m p n"
    using load_store_same [of "load m p n" m q] by simp
  show "load (store m q (load m p n)) p n = load m p n"
    using assms by (intro load_store_regions) simp_all
qed

text \<open>
  C25.  A copy is faithful and leaves a readable marker: the object's bytes stand in the
  to-space at the old free pointer, which advances by the size, and both marker tests that the
  copy serves find exactly that address in the from-space object.
\<close>

theorem forwarding_copy_exact:
  assumes n: "16 \<le> n" and p: "region_ok (p, n)" and q: "region_ok (free, n)"
    and ap: "apart_regions (p, n) (free, n)" and room: "free + of_nat n \<le> to_end"
  shows "\<exists>m'. copy_to_space_with_confirmed_forwarding m p n free to_end = Some (free, free + of_nat n, m')
    \<and> load m' free n = load m p n
    \<and> is_forwarded_list m' p = Some free \<and> is_forwarded_headerless m' p = Some free
    \<and> is_forwarded_procbin m' p = Some free"
proof -
  let ?m1 = "store m free (load m p n)"
  let ?m2 = "write_forwarding_marker ?m1 p free"
  let ?m3 = "write_u64 ?m2 (p + of_nat 8) TAG_FWD"
  have al: "free AND TAG_MASK = 0" "free \<noteq> 0"
    using q by (auto simp: region_ok_def aligned_unat)
  have u: "unat (p + of_nat 8) = unat p + 8"
    using p n by (intro unat_add_of_nat) (simp add: region_ok_def)
  have "apart_regions (free, n) (p, 8)" "apart_regions (free, n) (p + of_nat 8, 8)"
    "unat p + 8 < 2 ^ 56" "unat (p + of_nat 8) + 8 < 2 ^ 56"
    using ap p n u by (auto simp: apart_regions_def region_ok_def)
  then have "load ?m3 free n = load ?m1 free n"
    using q by (simp add: load_write_u64_regions write_forwarding_marker_def del: of_nat_numeral)
  moreover have "read_u64 ?m3 p = (free AND NOT TAG_MASK) OR TAG_FWD"
    unfolding marker_kept by (simp add: write_forwarding_marker_def)
  moreover have "read_u64 ?m3 (p + of_nat 8) = TAG_FWD"
    by (rule read_write_same)
  moreover have "copy_to_space_with_confirmed_forwarding m p n free to_end = Some (free, free + of_nat n, ?m3)"
    using room by (simp add: copy_to_space_with_confirmed_forwarding_def copy_object_to_space_def)
  ultimately show ?thesis
    using copy_object_keeps(1) [OF p q ap] al
    by (simp add: is_forwarded_list_def is_forwarded_headerless_def is_forwarded_procbin_def
        marker_fields [OF al(1)] tag_fwd_self del: of_nat_numeral)
qed

theorem forwarding_copy_exact_witness:
  "\<exists>m'. copy_to_space_with_confirmed_forwarding (\<lambda>_. 5) 0x1000 16 0x2000 0x3000 = Some (0x2000, 0x2010, m')
    \<and> is_forwarded_list m' 0x1000 = Some 0x2000"
  using forwarding_copy_exact [of 16 "0x1000" "0x2000" "0x3000" "\<lambda>_. 5"]
  by (auto simp: region_ok_def apart_regions_def)

text \<open>
  The marker test never takes a list cell for a forwarded one: whatever head, kind and
  tail \<open>ListCons_new\<close> gives the cell, even a head whose word looks like a marker, the link
  word's clear low bits refuse it.
\<close>

theorem list_cell_not_forwarded:
  assumes "tail_fits arch t a" and "ListCons_new arch raw k t = Inr c" and "cons_at m p = c"
  shows "is_forwarded_list m p = None"
proof -
  have l: "cons_link c = a OR push_bit (LIST_LINK_KIND_SHIFT arch) (ucast (ValueKind_tag k))"
    using assms(1,2) by (auto simp: ListCons_new_def ListLink_new_def tail_fits_def)
  have "\<not> bit (cons_link c) 3"
    using tail_fits_bit [OF assms(1), of 3] kind_shift_cases [of arch] by (auto simp: l bit_simps)
  then have "\<not> bit (cons_link c AND TAG_MASK) 3"
    by (simp add: bit_and_iff)
  moreover have "bit TAG_FWD 3"
    by (simp add: word_layout bit_numeral_rec)
  ultimately have "cons_link c AND TAG_MASK \<noteq> TAG_FWD"
    by metis
  then show ?thesis
    using assms(3) by (auto simp: is_forwarded_list_def cons_at_def Let_def simp del: of_nat_numeral)
qed

theorem list_cell_not_forwarded_witness:
  "is_forwarded_list (write_u64 (write_u64 (\<lambda>_. 0) 0x20 0x18) (0x20 + of_nat 8) 0x0D00000000000000) 0x20 = None"
proof -
  let ?m = "write_u64 (write_u64 (\<lambda>_. 0) 0x20 0x18) (0x20 + of_nat 8) 0x0D00000000000000"
  have "tail_fits Arm64Tbi EMPTY_LIST 0"
    by (simp add: tail_fits_def list_tail_addr_from_bits_def addressable_def)
  moreover have "ListCons_new Arm64Tbi 0x18 INTEGER EMPTY_LIST
      = Inr \<lparr> cons_head = 0x18, cons_link = 0x0D00000000000000 \<rparr>"
    by (simp add: ListCons_new_def ListLink_new_def list_tail_addr_from_bits_def LIST_LINK_KIND_SHIFT_def
        packing_new_def)
  moreover have "cons_at ?m 0x20 = \<lparr> cons_head = 0x18, cons_link = 0x0D00000000000000 \<rparr>"
    unfolding cons_at_def marker_kept by (simp del: of_nat_numeral)
  ultimately show ?thesis
    by (rule list_cell_not_forwarded)
qed

text \<open>
  C33.  The test is not exact on inline bitstrings: the three-byte binary \<open>8, 0, 0\<close>,
  written by the allocator at any address, is taken for an object forwarded to address 0x10.  Its
  length word 24 has the marker's low bits, and its payload with the zeroed padding is the
  confirmation word.
\<close>

theorem bitstring_read_as_forwarded:
  "is_forwarded_headerless (write_bitstring m p [8, 0, 0] 24) p = Some 0x10"
proof -
  let ?m2 = "store (write_u64 m p 24) (p + of_nat 8) [8, 0, 0]"
  let ?m3 = "store ?m2 (p + of_nat 11) (replicate 5 0)"
  have w: "write_bitstring m p [8, 0, 0] 24 = ?m3"
    by (simp add: write_bitstring_def bitstring_size_for_bit_len_def div_ceil_def clear_low_eq zero_bytes_def
        Let_def)
  have "load ?m3 p 8 = load (write_u64 m p 24) p 8"
    using load_store_apart [of 0 8 11 "replicate 5 0" ?m2 p] load_store_apart [of 0 8 8 "[8, 0, 0]" "write_u64 m p 24" p]
    by (simp add: apart_def)
  then have len: "read_u64 ?m3 p = 24"
    using read_write_same(3) [of m p 24] by (simp add: read_u64_def)
  have "?m3 (p + of_nat (8 + i)) = (if i = 0 then 8 else 0)" if "i < 8" for i
    using that store_at [of "8 + i" 11 "replicate 5 0" ?m2 p] store_at [of "8 + i" 8 "[8, 0, 0]" "write_u64 m p 24" p]
    by (auto simp: nth_Cons' simp del: of_nat_add of_nat_numeral)
  then have "load ?m3 (p + of_nat 8) 8 = map (\<lambda>i. if i = 0 then 8 else 0) [0..<8]"
    by (auto simp: load_def add.assoc)
  then have "read_u64 ?m3 (p + of_nat 8) = TAG_FWD"
    unfolding read_u64_def by (simp add: upt_rec word_layout)
  then show ?thesis
    unfolding w is_forwarded_headerless_def len by (simp add: Let_def word_layout del: of_nat_numeral)
qed

end
