(* ===== verification/Fz_Bitstr.thy ===== *)
theory Fz_Bitstr
  imports Fz_Prelude
begin

unbundle bit_operations_syntax

text \<open>
  Bit-level primitives of bitstrings, from \<open>runtime/src/bitstr.rs\<close>: the writer that appends bits
  most significant first, the reader over a byte buffer, byte order, sign extension, and the
  UTF-8, UTF-16 and UTF-32 codecs.  Positions and lengths are natural numbers; values keep their
  width.  Reading past the end is \<open>None\<close>, and so is the index panic of a reader whose length
  exceeds its buffer.
\<close>

section \<open>Writer\<close>

datatype Endian = Big | Little | Native

record BitWriter =
  w_bytes :: "u8 list"
  w_bit_len :: nat

definition BitWriter_new :: BitWriter where
  "BitWriter_new = \<lparr> w_bytes = [], w_bit_len = 0 \<rparr>"

definition append_bit :: "u8 \<Rightarrow> BitWriter \<Rightarrow> BitWriter" where
  "append_bit b w =
     (let byte_idx = w_bit_len w div 8; bit_idx = 7 - w_bit_len w mod 8;
          bytes = (if length (w_bytes w) \<le> byte_idx then w_bytes w @ [0] else w_bytes w);
          bytes = (if b \<noteq> 0 then bytes[byte_idx := bytes ! byte_idx OR push_bit bit_idx 1] else bytes)
      in \<lparr> w_bytes = bytes, w_bit_len = w_bit_len w + 1 \<rparr>)"

definition write_bits :: "u64 \<Rightarrow> nat \<Rightarrow> BitWriter \<Rightarrow> BitWriter" where
  "write_bits value n w =
     fold (\<lambda>i. append_bit (ucast (drop_bit (n - 1 - i) value AND 1))) [0..<n] w"

definition write_bytes :: "u8 list \<Rightarrow> BitWriter \<Rightarrow> BitWriter" where
  "write_bytes bs w =
     (if w_bit_len w mod 8 = 0
      then \<lparr> w_bytes = w_bytes w @ bs, w_bit_len = w_bit_len w + length bs * 8 \<rparr>
      else fold (\<lambda>byte. write_bits (ucast byte) 8) bs w)"

section \<open>Reader\<close>

record BitReader =
  r_bytes :: "u8 list"
  r_bit_len :: nat
  r_pos :: nat

definition remaining :: "BitReader \<Rightarrow> nat" where
  "remaining r = r_bit_len r - r_pos r"

definition read_bit :: "BitReader \<Rightarrow> (u8 \<times> BitReader) option" where
  "read_bit r =
     (if r_bit_len r \<le> r_pos r \<or> length (r_bytes r) \<le> r_pos r div 8 then None
      else let byte = r_bytes r ! (r_pos r div 8);
               bit = drop_bit (7 - r_pos r mod 8) byte AND 1
           in Some (bit, r\<lparr> r_pos := r_pos r + 1 \<rparr>))"

fun read_bits_loop :: "nat \<Rightarrow> u64 \<Rightarrow> BitReader \<Rightarrow> (u64 \<times> BitReader) option" where
  "read_bits_loop 0 out r = Some (out, r)"
| "read_bits_loop (Suc n) out r =
     (case read_bit r of None \<Rightarrow> None
      | Some (b, r') \<Rightarrow> read_bits_loop n (push_bit 1 out OR ucast b) r')"

definition read_bits :: "nat \<Rightarrow> BitReader \<Rightarrow> (u64 \<times> BitReader) option" where
  "read_bits n r = (if remaining r < n then None else read_bits_loop n 0 r)"

section \<open>Byte order and sign\<close>

text \<open>Both supported targets are little-endian (\<open>cfg!(target_endian)\<close>).\<close>

definition host_is_little_endian :: bool where
  "host_is_little_endian = True"

definition is_little :: "Endian \<Rightarrow> bool" where
  "is_little endian \<longleftrightarrow> endian = Little \<or> endian = Native \<and> host_is_little_endian"

definition apply_endian_for_write :: "u64 \<Rightarrow> nat \<Rightarrow> Endian \<Rightarrow> u64" where
  "apply_endian_for_write value n endian =
     (if n = 0 \<or> 64 < n then value
      else if \<not> is_little endian then value
      else if n mod 8 \<noteq> 0 then value
      else let bytes = n div 8
           in fold (\<lambda>i acc. acc OR push_bit ((bytes - 1 - i) * 8) (drop_bit (i * 8) value AND 0xff)) [0..<bytes] 0)"

definition apply_endian_for_read :: "u64 \<Rightarrow> nat \<Rightarrow> Endian \<Rightarrow> u64" where
  "apply_endian_for_read value total_bits endian = apply_endian_for_write value total_bits endian"

text \<open>The \<open>i64\<close> result is the word whose signed reading it is.\<close>

definition sign_extend :: "u64 \<Rightarrow> nat \<Rightarrow> u64" where
  "sign_extend value total_bits =
     (if total_bits = 0 \<or> 64 \<le> total_bits then value
      else let mask = push_bit (total_bits - 1) 1
           in if value AND mask \<noteq> 0 then value OR push_bit total_bits (NOT 0) else value)"

section \<open>UTF codecs\<close>

definition is_scalar_value :: "u32 \<Rightarrow> bool" where
  "is_scalar_value cp \<longleftrightarrow> \<not> (0x10ffff < cp \<or> 0xd800 \<le> cp \<and> cp \<le> 0xdfff)"

definition encode_utf8 :: "u32 \<Rightarrow> u8 list option" where
  "encode_utf8 cp =
     (if \<not> is_scalar_value cp then None
      else Some (
        if cp < 0x80 then [ucast cp]
        else if cp < 0x800 then [0xc0 OR ucast (drop_bit 6 cp), 0x80 OR ucast (cp AND 0x3f)]
        else if cp < 0x10000 then
          [0xe0 OR ucast (drop_bit 12 cp), 0x80 OR ucast (drop_bit 6 cp AND 0x3f), 0x80 OR ucast (cp AND 0x3f)]
        else [0xf0 OR ucast (drop_bit 18 cp), 0x80 OR ucast (drop_bit 12 cp AND 0x3f),
              0x80 OR ucast (drop_bit 6 cp AND 0x3f), 0x80 OR ucast (cp AND 0x3f)]))"

definition read_byte :: "BitReader \<Rightarrow> (u32 \<times> BitReader) option" where
  "read_byte r = map_option (\<lambda>(b, r'). (ucast b, r')) (read_bits 8 r)"

fun utf8_extras :: "nat \<Rightarrow> u32 \<Rightarrow> BitReader \<Rightarrow> (u32 \<times> BitReader) option" where
  "utf8_extras 0 cp r = Some (cp, r)"
| "utf8_extras (Suc k) cp r =
     (case read_byte r of None \<Rightarrow> None
      | Some (b, r') \<Rightarrow> if b AND 0xc0 \<noteq> 0x80 then None
                       else utf8_extras k (push_bit 6 cp OR (b AND 0x3f)) r')"

definition decode_utf8 :: "BitReader \<Rightarrow> (u32 \<times> BitReader) option" where
  "decode_utf8 r =
     (if r_pos r mod 8 \<noteq> 0 then None
      else case read_byte r of None \<Rightarrow> None
        | Some (b0, r') \<Rightarrow>
            if b0 < 0x80 then Some (b0, r')
            else if b0 AND 0xe0 = 0xc0 then utf8_extras 1 (b0 AND 0x1f) r'
            else if b0 AND 0xf0 = 0xe0 then utf8_extras 2 (b0 AND 0x0f) r'
            else if b0 AND 0xf8 = 0xf0 then utf8_extras 3 (b0 AND 0x07) r'
            else None)"

definition utf16_units :: "u32 \<Rightarrow> u16 list" where
  "utf16_units cp =
     (if cp < 0x10000 then [ucast cp]
      else let v = cp - 0x10000 in [0xd800 OR ucast (drop_bit 10 v), 0xdc00 OR ucast (v AND 0x3ff)])"

definition encode_utf16 :: "u32 \<Rightarrow> Endian \<Rightarrow> u8 list option" where
  "encode_utf16 cp endian =
     (if \<not> is_scalar_value cp then None
      else Some (concat (map (\<lambda>u. if is_little endian then [ucast (u AND 0xff), ucast (drop_bit 8 u)]
                                  else [ucast (drop_bit 8 u), ucast (u AND 0xff)]) (utf16_units cp))))"

definition read_u16 :: "Endian \<Rightarrow> BitReader \<Rightarrow> (u16 \<times> BitReader) option" where
  "read_u16 endian r =
     (case read_byte r of None \<Rightarrow> None
      | Some (lo, r1) \<Rightarrow> (case read_byte r1 of None \<Rightarrow> None
          | Some (hi, r2) \<Rightarrow>
              Some (if is_little endian then push_bit 8 (ucast hi) OR ucast lo
                    else push_bit 8 (ucast lo) OR ucast hi, r2)))"

definition decode_utf16 :: "BitReader \<Rightarrow> Endian \<Rightarrow> (u32 \<times> BitReader) option" where
  "decode_utf16 r endian =
     (case read_u16 endian r of None \<Rightarrow> None
      | Some (u1, r1) \<Rightarrow>
          if \<not> (0xd800 \<le> u1 \<and> u1 \<le> 0xdbff) then Some (ucast u1, r1)
          else (case read_u16 endian r1 of None \<Rightarrow> None
            | Some (u2, r2) \<Rightarrow>
                if \<not> (0xdc00 \<le> u2 \<and> u2 \<le> 0xdfff) then None
                else Some (0x10000 + (push_bit 10 (ucast u1 AND 0x3ff) OR (ucast u2 AND 0x3ff)), r2)))"

definition encode_utf32 :: "u32 \<Rightarrow> Endian \<Rightarrow> u8 list option" where
  "encode_utf32 cp endian =
     (if \<not> is_scalar_value cp then None
      else Some (if is_little endian
        then [ucast (cp AND 0xff), ucast (drop_bit 8 cp AND 0xff), ucast (drop_bit 16 cp AND 0xff), ucast (drop_bit 24 cp AND 0xff)]
        else [ucast (drop_bit 24 cp AND 0xff), ucast (drop_bit 16 cp AND 0xff), ucast (drop_bit 8 cp AND 0xff), ucast (cp AND 0xff)]))"

definition decode_utf32 :: "BitReader \<Rightarrow> Endian \<Rightarrow> (u32 \<times> BitReader) option" where
  "decode_utf32 r endian =
     (case read_byte r of None \<Rightarrow> None | Some (b0, r0) \<Rightarrow>
      (case read_byte r0 of None \<Rightarrow> None | Some (b1, r1) \<Rightarrow>
      (case read_byte r1 of None \<Rightarrow> None | Some (b2, r2) \<Rightarrow>
      (case read_byte r2 of None \<Rightarrow> None | Some (b3, r3) \<Rightarrow>
        Some (if is_little endian
              then push_bit 24 b3 OR push_bit 16 b2 OR push_bit 8 b1 OR b0
              else push_bit 24 b0 OR push_bit 16 b1 OR push_bit 8 b2 OR b3, r3)))))"

section \<open>Buffers as sequences of bits\<close>

definition bit_at :: "u8 list \<Rightarrow> nat \<Rightarrow> bool" where
  "bit_at bs i \<longleftrightarrow> bit (bs ! (i div 8)) (7 - i mod 8)"

definition bits_of :: "u8 list \<Rightarrow> nat \<Rightarrow> bool list" where
  "bits_of bs len = map (bit_at bs) [0..<len]"

abbreviation w_bits :: "BitWriter \<Rightarrow> bool list" where
  "w_bits w \<equiv> bits_of (w_bytes w) (w_bit_len w)"

text \<open>The writer's invariant: as many bytes as the bits need, and zeros after the last bit.\<close>

definition writer_wf :: "BitWriter \<Rightarrow> bool" where
  "writer_wf w \<longleftrightarrow> length (w_bytes w) = (w_bit_len w + 7) div 8
     \<and> (\<forall>i. w_bit_len w \<le> i \<longrightarrow> i < 8 * length (w_bytes w) \<longrightarrow> \<not> bit_at (w_bytes w) i)"

lemma length_bits_of [simp]: "length (bits_of bs n) = n"
  by (simp add: bits_of_def)

lemma nth_bits_of [simp]: "i < n \<Longrightarrow> bits_of bs n ! i = bit_at bs i"
  by (simp add: bits_of_def)

lemma bits_of_eqI:
  "length xs = n \<Longrightarrow> (\<And>i. i < n \<Longrightarrow> bit_at bs i = xs ! i) \<Longrightarrow> bits_of bs n = xs"
  by (rule nth_equalityI) simp_all

lemma writer_wf_new [simp]: "writer_wf BitWriter_new" "w_bits BitWriter_new = []"
  by (simp_all add: writer_wf_def BitWriter_new_def bits_of_def)

lemma bit_at_update:
  assumes "i < 8 * length bs" and "j < 8 * length bs"
  shows "bit_at (bs[j div 8 := bs ! (j div 8) OR push_bit (7 - j mod 8) 1]) i \<longleftrightarrow> i = j \<or> bit_at bs i"
proof (cases "i div 8 = j div 8")
  case True
  have "7 - i mod 8 = 7 - j mod 8 \<longleftrightarrow> i mod 8 = j mod 8"
    using mod_less_divisor [of 8 i] mod_less_divisor [of 8 j] by linarith
  then have "i = j \<longleftrightarrow> 7 - i mod 8 = 7 - j mod 8"
    using True by (metis mult_div_mod_eq)
  moreover have "j div 8 < length bs"
    using assms by (simp add: div_less_iff_less_mult mult.commute)
  ultimately show ?thesis
    using True by (auto simp: bit_at_def bit_simps bit_1_iff)
next
  case False
  then show ?thesis
    by (auto simp: bit_at_def)
qed

lemma append_bit_wf:
  assumes "writer_wf w"
  shows "writer_wf (append_bit b w)" and "w_bits (append_bit b w) = w_bits w @ [b \<noteq> 0]"
proof -
  let ?l = "w_bit_len w"
  define bs where "bs = (if length (w_bytes w) \<le> ?l div 8 then w_bytes w @ [0] else w_bytes w)"
  have len: "length bs = (?l + 1 + 7) div 8"
    using assms by (auto simp: bs_def writer_wf_def)
  then have l: "?l < 8 * length bs"
    by (simp add: less_mult_imp_div_less dividend_less_times_div mult.commute)
  have old: "bit_at bs i = bit_at (w_bytes w) i" if "i < ?l" for i
  proof -
    have "i div 8 < length (w_bytes w)"
      using that assms by (simp add: writer_wf_def div_less_iff_less_mult)
    then show ?thesis
      by (auto simp: bs_def bit_at_def nth_append)
  qed
  have zero: "\<not> bit_at bs i" if "?l \<le> i" "i < 8 * length bs" for i
  proof (cases "i < 8 * length (w_bytes w)")
    case True
    then have "i div 8 < length (w_bytes w)"
      by (simp add: div_less_iff_less_mult mult.commute)
    then have "bit_at bs i = bit_at (w_bytes w) i"
      by (auto simp: bs_def bit_at_def nth_append)
    then show ?thesis
      using assms that True by (simp add: writer_wf_def)
  next
    case False
    then have "i div 8 = length (w_bytes w)" "bs = w_bytes w @ [0]"
      using that by (auto simp: bs_def split: if_splits)
    then show ?thesis
      by (simp add: bit_at_def)
  qed
  let ?bs = "if b \<noteq> 0 then bs[?l div 8 := bs ! (?l div 8) OR push_bit (7 - ?l mod 8) 1] else bs"
  have new: "append_bit b w = \<lparr> w_bytes = ?bs, w_bit_len = ?l + 1 \<rparr>"
    by (simp add: append_bit_def Let_def bs_def)
  have at: "bit_at ?bs i \<longleftrightarrow> (i = ?l \<and> b \<noteq> 0) \<or> bit_at bs i" if "i < 8 * length bs" for i
    using bit_at_update [OF that l] by simp
  show "writer_wf (append_bit b w)"
    using len zero at by (auto simp: new writer_wf_def)
  show "w_bits (append_bit b w) = w_bits w @ [b \<noteq> 0]"
    unfolding new using old zero at l
    by (intro bits_of_eqI) (auto simp: nth_append less_Suc_eq)
qed

lemma ucast_bit_nonzero: "(ucast (drop_bit k v AND 1 :: u64) :: u8) \<noteq> 0 \<longleftrightarrow> bit v k"
proof -
  have "(ucast (of_bool P :: u64) :: u8) \<noteq> 0 \<longleftrightarrow> P" for P
    by simp
  moreover have "drop_bit k v AND 1 = of_bool (bit v k)"
    by (simp add: and_one_eq mod_2_eq_odd bit_iff_odd_drop_bit)
  ultimately show ?thesis
    by simp
qed

lemma fold_append_bits:
  "writer_wf w \<Longrightarrow> writer_wf (fold (\<lambda>i. append_bit (f i)) is w)
     \<and> w_bits (fold (\<lambda>i. append_bit (f i)) is w) = w_bits w @ map (\<lambda>i. f i \<noteq> 0) is"
  by (induction "is" arbitrary: w) (simp_all add: append_bit_wf)

definition value_bits :: "'a::len word \<Rightarrow> nat \<Rightarrow> bool list" where
  "value_bits v n = map (\<lambda>i. bit v (n - 1 - i)) [0..<n]"

lemma write_bits_wf:
  assumes "writer_wf w"
  shows "writer_wf (write_bits v n w)" and "w_bits (write_bits v n w) = w_bits w @ value_bits v n"
  using fold_append_bits [OF assms, of "\<lambda>i. ucast (drop_bit (n - 1 - i) v AND 1)" "[0..<n]"]
  by (simp_all add: write_bits_def value_bits_def ucast_bit_nonzero)

lemma write_bits_len: "w_bit_len (write_bits v n w) = w_bit_len w + n"
proof -
  have "w_bit_len (fold (\<lambda>i. append_bit (f i)) is w) = w_bit_len w + length is" for f :: "nat \<Rightarrow> u8" and "is" w
    by (induction "is" arbitrary: w) (simp_all add: append_bit_def Let_def)
  then show ?thesis
    by (simp add: write_bits_def)
qed

lemma bits_of_append: "bits_of (bs @ cs) (8 * length bs + n) = bits_of bs (8 * length bs) @ bits_of cs n"
proof (rule bits_of_eqI)
  fix i
  assume i: "i < 8 * length bs + n"
  show "bit_at (bs @ cs) i = (bits_of bs (8 * length bs) @ bits_of cs n) ! i"
  proof (cases "i < 8 * length bs")
    case True
    then have "i div 8 < length bs"
      by (simp add: div_less_iff_less_mult mult.commute)
    then show ?thesis
      using True by (simp add: bit_at_def nth_append)
  next
    case False
    then obtain j where j: "i = 8 * length bs + j"
      using le_Suc_ex not_less by blast
    then have "i div 8 = length bs + j div 8" "i mod 8 = j mod 8"
      by simp_all
    then show ?thesis
      using i j by (simp add: bit_at_def nth_append)
  qed
qed simp

lemma bits_of_byte: "bits_of (b # bs) 8 = value_bits b 8"
  by (rule bits_of_eqI) (auto simp: bit_at_def value_bits_def)

lemma value_bits_ucast: "value_bits (ucast (b :: u8) :: u64) 8 = value_bits b 8"
  by (auto simp: value_bits_def bit_simps)

lemma bits_of_bytes: "bits_of bs (8 * length bs) = concat (map (\<lambda>b. value_bits b 8) bs)"
proof (induction bs)
  case (Cons b bs)
  have "bits_of (b # bs) (8 * length (b # bs)) = bits_of [b] 8 @ bits_of bs (8 * length bs)"
    using bits_of_append [of "[b]" bs "8 * length bs"] by simp
  then show ?case
    using Cons.IH by (simp add: bits_of_byte)
qed (simp add: bits_of_def)

lemma fold_write_bits:
  "writer_wf w \<Longrightarrow> writer_wf (fold (\<lambda>byte. write_bits (ucast byte) 8) bs w)
     \<and> w_bits (fold (\<lambda>byte. write_bits (ucast byte) 8) bs w) = w_bits w @ concat (map (\<lambda>b. value_bits b 8) bs)" for bs :: "u8 list"
  by (induction bs arbitrary: w) (simp_all add: write_bits_wf value_bits_ucast)

lemma write_bytes_wf:
  assumes "writer_wf w"
  shows "writer_wf (write_bytes bs w)" and "w_bits (write_bytes bs w) = w_bits w @ concat (map (\<lambda>b. value_bits b 8) bs)"
proof -
  have *: "writer_wf (write_bytes bs w) \<and> w_bits (write_bytes bs w) = w_bits w @ concat (map (\<lambda>b. value_bits b 8) bs)"
  proof (cases "w_bit_len w mod 8 = 0")
    case True
    then have len: "w_bit_len w = 8 * length (w_bytes w)"
      using assms by (auto simp: writer_wf_def)
    then have "w_bits (write_bytes bs w) = w_bits w @ bits_of bs (8 * length bs)"
      using True bits_of_append [of "w_bytes w" bs "8 * length bs"]
      by (simp add: write_bytes_def mult.commute)
    then show ?thesis
      using True len by (auto simp: write_bytes_def writer_wf_def bits_of_bytes)
  qed (use fold_write_bits [OF assms] in \<open>simp add: write_bytes_def\<close>)
  show "writer_wf (write_bytes bs w)" "w_bits (write_bytes bs w) = w_bits w @ concat (map (\<lambda>b. value_bits b 8) bs)"
    using * by blast+
qed

section \<open>Reading bits back\<close>

definition of_bits :: "u64 \<Rightarrow> bool list \<Rightarrow> u64" where
  "of_bits acc bs = fold (\<lambda>b acc. push_bit 1 acc OR of_bool b) bs acc"

definition reader_wf :: "BitReader \<Rightarrow> bool" where
  "reader_wf r \<longleftrightarrow> r_bit_len r \<le> 8 * length (r_bytes r)"

lemma read_bit_eq:
  assumes "reader_wf r" and "r_pos r < r_bit_len r"
  shows "read_bit r = Some (of_bool (bit_at (r_bytes r) (r_pos r)), r\<lparr> r_pos := r_pos r + 1 \<rparr>)"
proof -
  have "r_pos r div 8 < length (r_bytes r)"
    using assms by (simp add: reader_wf_def div_less_iff_less_mult mult.commute)
  then show ?thesis
    using assms by (simp add: read_bit_def bit_at_def and_one_eq mod_2_eq_odd bit_iff_odd_drop_bit)
qed

lemma read_bits_loop_eq:
  "reader_wf r \<Longrightarrow> r_pos r + n \<le> r_bit_len r \<Longrightarrow>
   read_bits_loop n out r =
     Some (of_bits out (map (\<lambda>i. bit_at (r_bytes r) (r_pos r + i)) [0..<n]), r\<lparr> r_pos := r_pos r + n \<rparr>)"
proof (induction n arbitrary: out r)
  case (Suc n)
  let ?r = "r\<lparr> r_pos := r_pos r + 1 \<rparr>"
  have "map (\<lambda>i. bit_at (r_bytes r) (r_pos r + i)) [0..<Suc n] =
      bit_at (r_bytes r) (r_pos r) # map (\<lambda>i. bit_at (r_bytes r) (Suc (r_pos r) + i)) [0..<n]"
    unfolding map_upt_Suc by simp
  moreover have "reader_wf ?r" "r_pos ?r + n \<le> r_bit_len ?r"
    using Suc.prems by (simp_all add: reader_wf_def)
  moreover have "(ucast (of_bool b :: u8) :: u64) = of_bool b" for b
    by simp
  ultimately show ?case
    using Suc.IH [of ?r] Suc.prems read_bit_eq [of r]
    by (simp add: of_bits_def del: upt_Suc)
qed (simp add: of_bits_def)

lemma bits_of_upt: "p + n \<le> len \<Longrightarrow> map (\<lambda>i. bit_at bs (p + i)) [0..<n] = take n (drop p (bits_of bs len))"
  by (rule nth_equalityI) simp_all

lemma read_bits_eq:
  assumes "reader_wf r" and "r_pos r + n \<le> r_bit_len r"
  shows "read_bits n r = Some (of_bits 0 (take n (drop (r_pos r) (bits_of (r_bytes r) (r_bit_len r)))),
    r\<lparr> r_pos := r_pos r + n \<rparr>)"
  using assms read_bits_loop_eq [OF assms, of 0] by (simp add: read_bits_def remaining_def bits_of_upt)

lemma of_bits_append: "of_bits acc (xs @ ys) = of_bits (of_bits acc xs) ys"
  by (simp add: of_bits_def)

lemma bit_shift_in: "bit (push_bit 1 w OR of_bool x) k \<longleftrightarrow> (if k = 0 then x else k < 64 \<and> bit w (k - 1))" for w :: u64
proof -
  have "bit (of_bool x :: u64) k \<longleftrightarrow> k = 0 \<and> x"
    by (cases x) (auto simp: bit_1_iff)
  moreover have "bit (push_bit 1 w) k \<longleftrightarrow> 1 \<le> k \<and> k < 64 \<and> bit w (k - 1)"
    unfolding bit_push_bit_iff by auto
  ultimately show ?thesis
    unfolding bit_or_iff by auto
qed

lemma bit_of_bits:
  "bit (of_bits acc xs) k \<longleftrightarrow>
     k < 64 \<and> (if k < length xs then xs ! (length xs - 1 - k) else bit acc (k - length xs))"
proof (induction xs arbitrary: k rule: rev_induct)
  case (snoc x xs)
  have "of_bits acc (xs @ [x]) = push_bit 1 (of_bits acc xs) OR of_bool x"
    by (simp add: of_bits_def)
  then have "bit (of_bits acc (xs @ [x])) k \<longleftrightarrow> (if k = 0 then x else k < 64 \<and> bit (of_bits acc xs) (k - 1))"
    by (simp only: bit_shift_in)
  then show ?case
    by (cases k) (auto simp: snoc.IH nth_append)
qed (auto simp: of_bits_def dest: bit_imp_le_length)

lemma of_bits_value: "of_bits 0 (value_bits v n) = take_bit n (v :: u64)"
  by (rule bit_word_eqI) (auto simp: bit_of_bits value_bits_def bit_simps)

lemma take_drop_append: "length xs = p \<Longrightarrow> length ys = n \<Longrightarrow> take n (drop p (xs @ ys @ zs)) = ys"
  by simp

lemma writer_determined:
  assumes "writer_wf w1" and "writer_wf w2" and "w_bits w1 = w_bits w2"
  shows "w1 = w2"
proof -
  have len: "w_bit_len w1 = w_bit_len w2"
    using assms(3) by (metis length_bits_of)
  then have bl: "length (w_bytes w1) = length (w_bytes w2)"
    using assms(1,2) by (simp add: writer_wf_def)
  have at: "bit_at (w_bytes w1) p = bit_at (w_bytes w2) p" if "p < 8 * length (w_bytes w1)" for p
  proof (cases "p < w_bit_len w1")
    case True
    then show ?thesis
      using assms(3) len by (metis nth_bits_of)
  next
    case False
    then show ?thesis
      using assms(1,2) that len bl by (simp add: writer_wf_def)
  qed
  have "w_bytes w1 = w_bytes w2"
  proof (rule nth_equalityI [OF bl], rule bit_word_eqI)
    fix i j
    assume i: "i < length (w_bytes w1)" and j: "j < LENGTH(8)"
    obtain k where k: "k < 8" "j = 7 - k"
      using j that [of "7 - j"] by auto
    then have "(8 * i + k) div 8 = i" "(8 * i + k) mod 8 = k"
      by simp_all
    then show "bit (w_bytes w1 ! i) j = bit (w_bytes w2 ! i) j"
      using at [of "8 * i + k"] i k by (simp add: bit_at_def)
  qed
  then show ?thesis
    using len by simp
qed

definition write_fields :: "(u64 \<times> nat) list \<Rightarrow> BitWriter \<Rightarrow> BitWriter" where
  "write_fields fs = fold (\<lambda>(v, n). write_bits v n) fs"

fun read_fields :: "nat list \<Rightarrow> BitReader \<Rightarrow> (u64 list \<times> BitReader) option" where
  "read_fields [] r = Some ([], r)"
| "read_fields (n # ns) r =
     (case read_bits n r of None \<Rightarrow> None
      | Some (v, r') \<Rightarrow> map_option (\<lambda>(vs, r''). (v # vs, r'')) (read_fields ns r'))"

lemma write_fields_wf:
  "writer_wf w \<Longrightarrow> writer_wf (write_fields fs w)
     \<and> w_bits (write_fields fs w) = w_bits w @ concat (map (\<lambda>(v, n). value_bits v n) fs)"
  by (induction fs arbitrary: w) (auto simp: write_fields_def write_bits_wf)

definition reader_at :: "BitWriter \<Rightarrow> nat \<Rightarrow> BitReader" where
  "reader_at w p = \<lparr> r_bytes = w_bytes w, r_bit_len = w_bit_len w, r_pos = p \<rparr>"

lemma length_value_bits [simp]: "length (value_bits v n) = n"
  by (simp add: value_bits_def)

lemma reader_at_wf: "writer_wf w \<Longrightarrow> reader_wf (reader_at w p)"
  by (simp add: reader_wf_def reader_at_def writer_wf_def)

lemma read_bits_at:
  assumes "writer_wf w" and "w_bits w = xs @ value_bits v n @ ys"
  shows "read_bits n (reader_at w (length xs)) = Some (take_bit n v, reader_at w (length xs + n))"
proof -
  have "w_bit_len w = length xs + n + length ys"
    using arg_cong [OF assms(2), of length] by simp
  then show ?thesis
    using read_bits_eq [OF reader_at_wf [OF assms(1)], of "length xs" n] assms(2)
    by (simp add: reader_at_def of_bits_value)
qed

lemma read_fields_at:
  assumes "writer_wf w"
  shows "w_bits w = xs @ concat (map (\<lambda>(v, n). value_bits v n) fs) @ ys \<Longrightarrow>
    read_fields (map snd fs) (reader_at w (length xs)) =
      Some (map (\<lambda>(v, n). take_bit n v) fs, reader_at w (length xs + sum_list (map snd fs)))"
proof (induction fs arbitrary: xs)
  case (Cons f fs)
  obtain v n where f: "f = (v, n)" by fastforce
  have "read_bits n (reader_at w (length xs)) = Some (take_bit n v, reader_at w (length (xs @ value_bits v n)))"
    using read_bits_at [OF assms, of xs v n "concat (map (\<lambda>(v, n). value_bits v n) fs) @ ys"] Cons.prems
    by (simp add: f)
  moreover have "w_bits w = (xs @ value_bits v n) @ concat (map (\<lambda>(v, n). value_bits v n) fs) @ ys"
    using Cons.prems by (simp add: f)
  ultimately show ?case
    using Cons.IH [of "xs @ value_bits v n"] by (simp add: f add.assoc)
qed simp

text \<open>
  Bit fields survive the buffer: whatever the writer holds, of any length in bits, writing
  a sequence of fields of at most 64 bits and reading the same widths from where they begin gives
  back each field's low bits and stops exactly at the end, and one more bit cannot be read.
\<close>

theorem BitWriter_fields_roundtrip:
  assumes "writer_wf w" and "\<forall>f \<in> set fs. snd f \<le> 64"
  shows "read_fields (map snd fs) (reader_at (write_fields fs w) (w_bit_len w)) =
      Some (map (\<lambda>(v, n). take_bit n v) fs, reader_at (write_fields fs w) (w_bit_len (write_fields fs w)))
    \<and> read_bit (reader_at (write_fields fs w) (w_bit_len (write_fields fs w))) = None
    \<and> writer_wf (write_fields fs w)"
proof -
  have b: "w_bits (write_fields fs w) = w_bits w @ concat (map (\<lambda>(v, n). value_bits v n) fs)"
    and wf: "writer_wf (write_fields fs w)"
    using write_fields_wf [OF assms(1)] by blast+
  have "w_bit_len (write_fields fs w) = w_bit_len w + sum_list (map snd fs)"
    using arg_cong [OF b, of length] by (simp add: length_concat comp_def case_prod_beta)
  then show ?thesis
    using read_fields_at [OF wf, of "w_bits w" fs "[]"] b wf by (simp add: read_bit_def reader_at_def)
qed

theorem BitWriter_fields_roundtrip_witness:
  "read_fields [3, 13] (reader_at (write_fields [(5, 3), (0x1234, 13)] BitWriter_new) 0) =
     Some ([5, 0x1234], reader_at (write_fields [(5, 3), (0x1234, 13)] BitWriter_new) 16)"
proof -
  have "w_bit_len (write_fields [(5, 3), (0x1234, 13)] BitWriter_new) = 16"
    by (simp add: write_fields_def write_bits_len BitWriter_new_def)
  then show ?thesis
    using BitWriter_fields_roundtrip [OF writer_wf_new(1), of "[(5, 3), (0x1234, 13)]"]
    by (simp add: BitWriter_new_def)
qed

text \<open>
  The byte-aligned fast path of \<open>write_bytes\<close> is the bit-by-bit path: from every buffer
  the writer can hold, copying whole bytes gives the same buffer as writing each byte's eight bits.
\<close>

theorem write_bytes_is_bitwise:
  assumes "writer_wf w"
  shows "write_bytes bs w = fold (\<lambda>byte. write_bits (ucast byte) 8) bs w"
  using write_bytes_wf [OF assms] fold_write_bits [OF assms] by (intro writer_determined) auto

theorem write_bytes_is_bitwise_witness:
  "write_bytes [0xAB, 0xCD] BitWriter_new = fold (\<lambda>byte. write_bits (ucast byte) 8) [0xAB, 0xCD :: u8] BitWriter_new"
  by (rule write_bytes_is_bitwise [OF writer_wf_new(1)])

section \<open>Byte order and sign\<close>

lemma bit_fold_or:
  "bit (fold (\<lambda>i acc. acc OR f i) is (z :: u64)) k \<longleftrightarrow> bit z k \<or> (\<exists>i \<in> set is. bit (f i) k)"
  by (induction "is" arbitrary: z) (auto simp: bit_or_iff)

lemma bit_low_byte: "bit (x AND 0xff :: u64) k \<longleftrightarrow> k < 8 \<and> bit x k"
proof -
  have "(0xff :: u64) = mask 8"
    by (simp add: mask_numeral)
  then show ?thesis
    by (simp only: bit_and_iff bit_mask_iff) (auto dest: bit_imp_le_length)
qed

lemma bit_swapped:
  assumes "n = 8 * b" and "0 < b" and "b \<le> 8" and "is_little e"
  shows "bit (apply_endian_for_write v n e) k \<longleftrightarrow> k < n \<and> bit v ((b - 1 - k div 8) * 8 + k mod 8)"
proof -
  have eq: "apply_endian_for_write v n e =
      fold (\<lambda>i acc. acc OR push_bit ((b - 1 - i) * 8) (drop_bit (i * 8) v AND 0xff)) [0..<b] 0"
    using assms by (simp add: apply_endian_for_write_def)
  have "bit (push_bit ((b - 1 - i) * 8) (drop_bit (i * 8) v AND 0xff)) k \<longleftrightarrow>
      k < n \<and> i = b - 1 - k div 8 \<and> bit v ((b - 1 - k div 8) * 8 + k mod 8)" if "i < b" for i
  proof -
    have "(b - 1 - i) * 8 \<le> k \<and> k - (b - 1 - i) * 8 < 8 \<longleftrightarrow> k div 8 = b - 1 - i"
      by (auto simp: div_nat_eqI)
    moreover have "k div 8 = b - 1 - i \<Longrightarrow> k - (b - 1 - i) * 8 = k mod 8"
      by (metis minus_div_mult_eq_mod mult.commute)
    moreover have "bit (push_bit t (x AND 0xff) :: u64) k \<longleftrightarrow> k < 64 \<and> t \<le> k \<and> k - t < 8 \<and> bit x (k - t)" for t x
      unfolding bit_push_bit_iff bit_low_byte by auto
    moreover have "k div 8 = b - 1 - i \<longleftrightarrow> k < n \<and> i = b - 1 - k div 8"
      using that assms(1) by auto
    moreover have "k < n \<Longrightarrow> k < 64"
      using assms(1,3) by simp
    ultimately show ?thesis
      by (auto simp: bit_drop_bit_eq mult.commute)
  qed
  then show ?thesis
    unfolding eq bit_fold_or using assms(1,2) by auto
qed

lemma endian_involution:
  assumes "take_bit n v = v"
  shows "apply_endian_for_read (apply_endian_for_write v n e) n e = v"
proof (cases "0 < n \<and> n \<le> 64 \<and> is_little e \<and> n mod 8 = 0")
  case True
  then obtain b where b: "n = 8 * b" "0 < b" "b \<le> 8"
    by (auto simp: mod_eq_0_iff_dvd elim!: dvdE)
  have "bit (apply_endian_for_write (apply_endian_for_write v n e) n e) k = bit v k" for k
  proof (cases "k < n")
    case k: True
    define q r where "q = k div 8" and "r = k mod 8"
    have qr: "k = 8 * q + r" "r < 8" "q < b"
      using k b by (auto simp: q_def r_def)
    let ?j = "(b - 1 - q) * 8 + r"
    have j: "?j div 8 = b - 1 - q" "?j mod 8 = r" "?j < n"
      using qr b(1) by auto
    have "bit (apply_endian_for_write (apply_endian_for_write v n e) n e) k
        = bit (apply_endian_for_write v n e) ?j"
      using bit_swapped [OF b conjunct1 [OF conjunct2 [OF conjunct2 [OF True]]], of "apply_endian_for_write v n e" k] k
      by (simp add: q_def r_def)
    also have "\<dots> = bit v ((b - 1 - (b - 1 - q)) * 8 + r)"
      using bit_swapped [OF b conjunct1 [OF conjunct2 [OF conjunct2 [OF True]]], of v ?j] j by simp
    also have "(b - 1 - (b - 1 - q)) * 8 + r = k"
      using qr by simp
    finally show ?thesis .
  next
    case k: False
    then have "\<not> bit v k"
      using assms by (metis bit_take_bit_iff)
    then show ?thesis
      using bit_swapped [OF b conjunct1 [OF conjunct2 [OF conjunct2 [OF True]]]] k by simp
  qed
  then show ?thesis
    unfolding apply_endian_for_read_def by (simp add: bit_eq_iff)
next
  case False
  then show ?thesis
    by (auto simp: apply_endian_for_read_def apply_endian_for_write_def)
qed

lemma sign_extend_bits:
  assumes "take_bit n v = v" and "0 < n"
  shows "k < 64 \<Longrightarrow> bit (sign_extend v n) k \<longleftrightarrow> bit v (min (n - 1) k)"
proof -
  assume k: "k < 64"
  have top: "bit v j \<Longrightarrow> j < n" for j
    using assms(1) by (metis bit_take_bit_iff)
  have m: "v AND push_bit (n - 1) 1 \<noteq> 0 \<longleftrightarrow> bit v (n - 1)" if "n < 64"
    using that by (simp add: and_exp_eq_0_iff_not_bit push_bit_eq_mult)
  show "bit (sign_extend v n) k \<longleftrightarrow> bit v (min (n - 1) k)"
  proof (cases "n < 64")
    case n: True
    show ?thesis
    proof (cases "bit v (n - 1)")
      case True
      then have "sign_extend v n = v OR push_bit n (NOT 0)"
        using n assms(2) m [OF n] by (simp add: sign_extend_def)
      then have "bit (sign_extend v n) k \<longleftrightarrow> bit v k \<or> n \<le> k"
        using k by (simp only: bit_or_iff bit_push_bit_iff bit_not_iff) auto
      moreover have "n - 1 \<le> k \<longleftrightarrow> k = n - 1 \<or> n \<le> k"
        using assms(2) by auto
      ultimately show ?thesis
        using True by (auto simp: min_def)
    next
      case False
      then have "sign_extend v n = v"
        using n assms(2) m [OF n] by (simp add: sign_extend_def)
      moreover have "n - 1 \<le> k \<Longrightarrow> \<not> bit v k"
        using False top [of k] assms(2) by (cases "k = n - 1") auto
      ultimately show ?thesis
        using False by (auto simp: min_def)
    qed
  next
    case False
    then have "n - 1 \<le> k \<Longrightarrow> k = n - 1"
      using k by simp
    then show ?thesis
      using False by (auto simp: sign_extend_def min_def)
  qed
qed

text \<open>
  Integer fields keep their value.  For a value that fits the field's width, undoing the
  byte order on read restores it, for every byte order and width; and sign extension reads it as
  a two's-complement number of that width: its unsigned value, less the width's power of two when
  the top bit is set.
\<close>

theorem bit_integer_fields:
  assumes "take_bit n v = v" and "0 < n" and "n \<le> 64"
  shows "apply_endian_for_read (apply_endian_for_write v n e) n e = v
    \<and> sint (sign_extend v n) = uint v - (if bit v (n - 1) then 2 ^ n else 0)"
proof -
  have "bit (sint (sign_extend v n)) k = bit (signed_take_bit (n - 1) (uint v)) k" for k
  proof (cases "k < 64")
    case True
    then show ?thesis
      using sign_extend_bits [OF assms(1,2) True]
      by (auto simp: bit_sint_iff bit_signed_take_bit_iff bit_uint_iff min.commute)
  next
    case False
    have "bit (sign_extend v n) 63 \<longleftrightarrow> bit v (n - 1)"
      using sign_extend_bits [OF assms(1,2), of 63] assms(3) by (simp add: min_def split: if_splits)
    then show ?thesis
      using False assms(3) by (auto simp: bit_sint_iff bit_signed_take_bit_iff bit_uint_iff min_def
          dest: bit_imp_le_length)
  qed
  then have "sint (sign_extend v n) = signed_take_bit (n - 1) (uint v)"
    by (simp add: bit_eq_iff)
  also have "\<dots> = take_bit n (uint v) - 2 ^ n * of_bool (bit (uint v) (n - 1))"
    using assms(2) signed_take_bit_eq_take_bit_minus [of "n - 1" "uint v"] by simp
  also have "take_bit n (uint v) = uint v"
    using assms(1) by (metis unsigned_take_bit_eq)
  finally show ?thesis
    using endian_involution [OF assms(1)] by (simp add: bit_uint_iff bit_imp_le_length)
       (auto dest: bit_imp_le_length)
qed

theorem bit_integer_fields_witness:
  "apply_endian_for_read (apply_endian_for_write 0xFF38 16 Little) 16 Little = 0xFF38
    \<and> sint (sign_extend 0xFF38 16) = - 200"
  using bit_integer_fields [of 16 "0xFF38" Little] by (simp add: bit_numeral_rec)

end
