(* ===== verification/Fz_Utf.thy ===== *)
theory Fz_Utf
  imports Fz_Bitstr
begin

unbundle bit_operations_syntax

text \<open>
  The UTF codecs of \<open>runtime/src/bitstr.rs\<close> round trip: every Unicode scalar value that an
  encoder accepts is what the decoder reads from the encoded bytes, wherever they stand in a
  buffer of whole bytes.  The proofs compare words bit by bit; the masks of the codecs are listed
  once, as ranges of bits.
\<close>

section \<open>Readers at a byte\<close>

definition rdr :: "u8 list \<Rightarrow> nat \<Rightarrow> BitReader" where
  "rdr bs i = \<lparr> r_bytes = bs, r_bit_len = 8 * length bs, r_pos = 8 * i \<rparr>"

lemma of_bits_byte: "of_bits 0 (value_bits (b :: u8) 8) = ucast b"
  by (rule bit_word_eqI) (auto simp: bit_of_bits value_bits_def bit_ucast_iff dest: bit_imp_le_length)

lemma ucast_byte: "(ucast (ucast (b :: u8) :: u64) :: u32) = ucast b"
  by (rule bit_word_eqI) (auto simp: bit_ucast_iff dest: bit_imp_le_length)

lemma read_byte_rdr: "i < length bs \<Longrightarrow> read_byte (rdr bs i) = Some (ucast (bs ! i), rdr bs (i + 1))"
proof -
  assume i: "i < length bs"
  have "take 8 (drop (8 * i) (bits_of bs (8 * length bs))) = value_bits (bs ! i) 8"
    using i by (intro nth_equalityI) (auto simp: bit_at_def value_bits_def)
  then have "read_bits 8 (rdr bs i) = Some (ucast (bs ! i), rdr bs (i + 1))"
    using read_bits_eq [of "rdr bs i" 8] i by (simp add: rdr_def reader_wf_def of_bits_byte)
  then show ?thesis
    by (simp add: read_byte_def ucast_byte)
qed

lemma read_byte_within:
  "k < length es \<Longrightarrow> read_byte (rdr (pre @ es @ post) (length pre + k))
     = Some (ucast (es ! k), rdr (pre @ es @ post) (length pre + k + 1))"
  by (subst read_byte_rdr) (auto simp: nth_append)

section \<open>Masks as ranges of bits\<close>

lemma unat_bit_bound: "unat (x :: 'a::len word) < 2 ^ n \<Longrightarrow> bit x m \<Longrightarrow> m < n"
proof -
  assume x: "unat x < 2 ^ n" and b: "bit x m"
  have "take_bit n (unat x) = unat x"
    using x by (simp add: take_bit_nat_eq_self)
  moreover have "bit (unat x) m"
    using b by (simp add: bit_unsigned_iff)
  ultimately show "m < n"
    by (metis bit_take_bit_iff)
qed

lemma range_mask: "bit (push_bit s (mask k) :: 'a::len word) n \<longleftrightarrow> s \<le> n \<and> n < s + k \<and> n < LENGTH('a)"
  by (auto simp: bit_push_bit_iff bit_mask_iff)

lemma masks32_eq:
  "(0x80 :: u32) = push_bit 7 (mask 1)" "(0xc0 :: u32) = push_bit 6 (mask 2)" "(0xe0 :: u32) = push_bit 5 (mask 3)"
  "(0xf0 :: u32) = push_bit 4 (mask 4)" "(0xf8 :: u32) = push_bit 3 (mask 5)" "(0x3f :: u32) = mask 6"
  "(0x1f :: u32) = mask 5" "(0x0f :: u32) = mask 4" "(0x07 :: u32) = mask 3" "(0xff :: u32) = mask 8"
  "(0x3ff :: u32) = mask 10"
  by (simp_all add: mask_numeral)

lemma masks32:
  "bit (0x80 :: u32) n \<longleftrightarrow> 7 \<le> n \<and> n < 8" "bit (0xc0 :: u32) n \<longleftrightarrow> 6 \<le> n \<and> n < 8"
  "bit (0xe0 :: u32) n \<longleftrightarrow> 5 \<le> n \<and> n < 8" "bit (0xf0 :: u32) n \<longleftrightarrow> 4 \<le> n \<and> n < 8"
  "bit (0xf8 :: u32) n \<longleftrightarrow> 3 \<le> n \<and> n < 8" "bit (0x3f :: u32) n \<longleftrightarrow> n < 6" "bit (0x1f :: u32) n \<longleftrightarrow> n < 5"
  "bit (0x0f :: u32) n \<longleftrightarrow> n < 4" "bit (0x07 :: u32) n \<longleftrightarrow> n < 3" "bit (0xff :: u32) n \<longleftrightarrow> n < 8"
  "bit (0x3ff :: u32) n \<longleftrightarrow> n < 10"
  unfolding masks32_eq range_mask bit_mask_iff by auto

lemma masks8_eq:
  "(0x80 :: u8) = push_bit 7 (mask 1)" "(0xc0 :: u8) = push_bit 6 (mask 2)"
  "(0xe0 :: u8) = push_bit 5 (mask 3)" "(0xf0 :: u8) = push_bit 4 (mask 4)"
  by (simp_all add: mask_numeral)

lemma masks8:
  "bit (0x80 :: u8) n \<longleftrightarrow> 7 \<le> n \<and> n < 8" "bit (0xc0 :: u8) n \<longleftrightarrow> 6 \<le> n \<and> n < 8"
  "bit (0xe0 :: u8) n \<longleftrightarrow> 5 \<le> n \<and> n < 8" "bit (0xf0 :: u8) n \<longleftrightarrow> 4 \<le> n \<and> n < 8"
  unfolding masks8_eq range_mask by auto

lemma not_less_80: "bit (b :: u32) 7 \<Longrightarrow> \<not> b < 0x80"
  using unat_bit_bound [of b 7 7] by (auto simp: word_less_nat_alt)

section \<open>UTF-8\<close>

lemmas bitwise = bit_or_iff bit_and_iff bit_ucast_iff bit_drop_bit_eq bit_push_bit_iff masks32 masks8
  o_apply len_of_numeral_defs possible_bit_word

lemma utf8_cont:
  "(ucast (0x80 OR ucast (x AND 0x3f) :: u8) :: u32) AND 0xc0 = 0x80"
  "(ucast (0x80 OR ucast (x AND 0x3f) :: u8) :: u32) AND 0x3f = (x :: u32) AND 0x3f"
  by (rule bit_word_eqI, auto simp only: bitwise)+

lemma utf8_extras_within:
  assumes "k < length es" and "es ! k = 0x80 OR ucast ((x :: u32) AND 0x3f)"
  shows "utf8_extras (Suc j) cp (rdr (pre @ es @ post) (length pre + k))
    = utf8_extras j (push_bit 6 cp OR (x AND 0x3f)) (rdr (pre @ es @ post) (length pre + (k + 1)))"
  using assms by (simp add: read_byte_within utf8_cont)

lemma small_bits: "(cp :: u32) < 2 ^ n \<Longrightarrow> bit cp m \<Longrightarrow> m < n"
  by (metis bit_and_iff bit_mask_iff less_mask_eq)

text \<open>The lead byte tells the length and keeps the high bits.\<close>

lemma utf8_lead2:
  assumes "(cp :: u32) < 2 ^ 11"
  shows "(ucast (0xc0 OR ucast (drop_bit 6 cp) :: u8) :: u32) AND 0xe0 = 0xc0"
    and "(ucast (0xc0 OR ucast (drop_bit 6 cp) :: u8) :: u32) AND 0x1f = drop_bit 6 cp"
    and "\<not> (ucast (0xc0 OR ucast (drop_bit 6 cp) :: u8) :: u32) < 0x80"
proof -
  show "(ucast (0xc0 OR ucast (drop_bit 6 cp) :: u8) :: u32) AND 0xe0 = 0xc0"
    by (rule bit_word_eqI) (auto simp only: bitwise dest!: small_bits [OF assms])
  show "(ucast (0xc0 OR ucast (drop_bit 6 cp) :: u8) :: u32) AND 0x1f = drop_bit 6 cp"
    by (rule bit_word_eqI) (auto simp only: bitwise dest: small_bits [OF assms])
  show "\<not> (ucast (0xc0 OR ucast (drop_bit 6 cp) :: u8) :: u32) < 0x80"
    by (rule not_less_80) (simp only: bitwise, simp)
qed

lemma utf8_lead3:
  assumes "(cp :: u32) < 2 ^ 16"
  shows "(ucast (0xe0 OR ucast (drop_bit 12 cp) :: u8) :: u32) AND 0xf0 = 0xe0"
    and "(ucast (0xe0 OR ucast (drop_bit 12 cp) :: u8) :: u32) AND 0x0f = drop_bit 12 cp"
    and "\<not> (ucast (0xe0 OR ucast (drop_bit 12 cp) :: u8) :: u32) < 0x80"
proof -
  show "(ucast (0xe0 OR ucast (drop_bit 12 cp) :: u8) :: u32) AND 0xf0 = 0xe0"
    by (rule bit_word_eqI) (auto simp only: bitwise dest!: small_bits [OF assms])
  show "(ucast (0xe0 OR ucast (drop_bit 12 cp) :: u8) :: u32) AND 0x0f = drop_bit 12 cp"
    by (rule bit_word_eqI) (auto simp only: bitwise dest: small_bits [OF assms])
  show "\<not> (ucast (0xe0 OR ucast (drop_bit 12 cp) :: u8) :: u32) < 0x80"
    by (rule not_less_80) (simp only: bitwise, simp)
qed

lemma utf8_lead4:
  assumes "(cp :: u32) < 2 ^ 21"
  shows "(ucast (0xf0 OR ucast (drop_bit 18 cp) :: u8) :: u32) AND 0xf8 = 0xf0"
    and "(ucast (0xf0 OR ucast (drop_bit 18 cp) :: u8) :: u32) AND 0x07 = drop_bit 18 cp"
    and "\<not> (ucast (0xf0 OR ucast (drop_bit 18 cp) :: u8) :: u32) < 0x80"
proof -
  show "(ucast (0xf0 OR ucast (drop_bit 18 cp) :: u8) :: u32) AND 0xf8 = 0xf0"
    by (rule bit_word_eqI) (auto simp only: bitwise dest!: small_bits [OF assms])
  show "(ucast (0xf0 OR ucast (drop_bit 18 cp) :: u8) :: u32) AND 0x07 = drop_bit 18 cp"
    by (rule bit_word_eqI) (auto simp only: bitwise dest: small_bits [OF assms])
  show "\<not> (ucast (0xf0 OR ucast (drop_bit 18 cp) :: u8) :: u32) < 0x80"
    by (rule not_less_80) (simp only: bitwise, simp)
qed

lemma join6: "push_bit 6 (drop_bit (k + 6) (cp :: u32)) OR (drop_bit k cp AND 0x3f) = drop_bit k cp"
  by (rule bit_word_eqI) (auto simp only: bitwise not_less le_add_diff_inverse ac_simps)

lemma decode_utf8_1:
  assumes "cp < 2 ^ 7" and "es = [ucast cp]"
  shows "decode_utf8 (rdr (pre @ es @ post) (length pre)) = Some (cp, rdr (pre @ es @ post) (length pre + 1))"
proof -
  have "(ucast (ucast cp :: u8) :: u32) = cp"
    by (rule bit_word_eqI) (auto simp only: bitwise dest: small_bits [OF assms(1)])
  then show ?thesis
    using assms read_byte_within [of 0 es pre post] by (simp add: decode_utf8_def) (simp add: rdr_def)
qed

lemma decode_utf8_start:
  "0 < length es \<Longrightarrow> decode_utf8 (rdr (pre @ es @ post) (length pre)) =
    (let b0 = ucast (es ! 0); r' = rdr (pre @ es @ post) (length pre + 1)
     in if b0 < 0x80 then Some (b0, r')
        else if b0 AND 0xe0 = 0xc0 then utf8_extras 1 (b0 AND 0x1f) r'
        else if b0 AND 0xf0 = 0xe0 then utf8_extras 2 (b0 AND 0x0f) r'
        else if b0 AND 0xf8 = 0xf0 then utf8_extras 3 (b0 AND 0x07) r'
        else None)"
  using read_byte_within [of 0 es pre post] by (simp add: decode_utf8_def) (simp add: rdr_def)

text \<open>The lead patterns exclude each other.\<close>

lemma utf8_lead_excl3: "(x :: u32) AND 0xf0 = 0xe0 \<Longrightarrow> x AND 0xe0 \<noteq> 0xc0"
proof
  assume "x AND 0xf0 = 0xe0" and "x AND 0xe0 = 0xc0"
  then have "bit (x AND 0xf0) 5 = bit (0xe0 :: u32) 5" and "bit (x AND 0xe0) 5 = bit (0xc0 :: u32) 5"
    by simp_all
  then show False
    by (simp only: bitwise) simp
qed

lemma utf8_lead_excl4: "(x :: u32) AND 0xf8 = 0xf0 \<Longrightarrow> x AND 0xe0 \<noteq> 0xc0 \<and> x AND 0xf0 \<noteq> 0xe0"
proof -
  assume "x AND 0xf8 = 0xf0"
  then have "bit (x AND 0xf8) 5 = bit (0xf0 :: u32) 5" and "bit (x AND 0xf8) 4 = bit (0xf0 :: u32) 4"
    by simp_all
  then have "bit (x AND 0xe0) 5 \<noteq> bit (0xc0 :: u32) 5" and "bit (x AND 0xf0) 4 \<noteq> bit (0xe0 :: u32) 4"
    by (simp_all only: bitwise) simp_all
  then show ?thesis
    by metis
qed

lemma decode_utf8_2:
  assumes cp: "cp < 2 ^ 11" and len: "length es = 2"
    and lead: "es ! 0 = 0xc0 OR ucast (drop_bit 6 cp)"
    and cont: "es ! 1 = 0x80 OR ucast (cp AND 0x3f)"
  shows "decode_utf8 (rdr (pre @ es @ post) (length pre)) = Some (cp, rdr (pre @ es @ post) (length pre + length es))"
proof -
  have "utf8_extras 1 (drop_bit 6 cp) (rdr (pre @ es @ post) (length pre + 1)) = Some (cp, rdr (pre @ es @ post) (length pre + 2))"
    using utf8_extras_within [of 1 es "cp" 0 "drop_bit 6 cp" pre post] join6 [of 0 cp] cont(1) len
    by (simp add: eval_nat_numeral del: utf8_extras.simps(2))
  then show ?thesis
    using utf8_lead2 [OF cp] len by (simp add: decode_utf8_start lead Let_def del: utf8_extras.simps(2))
qed

lemma decode_utf8_3:
  assumes cp: "cp < 2 ^ 16" and len: "length es = 3"
    and lead: "es ! 0 = 0xe0 OR ucast (drop_bit 12 cp)"
    and cont: "es ! 1 = 0x80 OR ucast (drop_bit 6 cp AND 0x3f)" "es ! 2 = 0x80 OR ucast (cp AND 0x3f)"
  shows "decode_utf8 (rdr (pre @ es @ post) (length pre)) = Some (cp, rdr (pre @ es @ post) (length pre + length es))"
proof -
  have "utf8_extras 1 (drop_bit 6 cp) (rdr (pre @ es @ post) (length pre + 2)) = Some (cp, rdr (pre @ es @ post) (length pre + 3))"
    using utf8_extras_within [of 2 es "cp" 0 "drop_bit 6 cp" pre post] join6 [of 0 cp] cont(2) len
    by (simp add: eval_nat_numeral del: utf8_extras.simps(2))
  then have "utf8_extras 2 (drop_bit 12 cp) (rdr (pre @ es @ post) (length pre + 1)) = Some (cp, rdr (pre @ es @ post) (length pre + 3))"
    using utf8_extras_within [of 1 es "drop_bit 6 cp" 1 "drop_bit 12 cp" pre post] join6 [of 6 cp] cont(1) len
    by (simp add: eval_nat_numeral del: utf8_extras.simps(2))
  then show ?thesis
    using utf8_lead3 [OF cp] utf8_lead_excl3 [OF utf8_lead3(1) [OF cp]] len by (simp add: decode_utf8_start lead Let_def del: utf8_extras.simps(2))
qed

lemma decode_utf8_4:
  assumes cp: "cp < 2 ^ 21" and len: "length es = 4"
    and lead: "es ! 0 = 0xf0 OR ucast (drop_bit 18 cp)"
    and cont: "es ! 1 = 0x80 OR ucast (drop_bit 12 cp AND 0x3f)" "es ! 2 = 0x80 OR ucast (drop_bit 6 cp AND 0x3f)" "es ! 3 = 0x80 OR ucast (cp AND 0x3f)"
  shows "decode_utf8 (rdr (pre @ es @ post) (length pre)) = Some (cp, rdr (pre @ es @ post) (length pre + length es))"
proof -
  have "utf8_extras 1 (drop_bit 6 cp) (rdr (pre @ es @ post) (length pre + 3)) = Some (cp, rdr (pre @ es @ post) (length pre + 4))"
    using utf8_extras_within [of 3 es "cp" 0 "drop_bit 6 cp" pre post] join6 [of 0 cp] cont(3) len
    by (simp add: eval_nat_numeral del: utf8_extras.simps(2))
  then have "utf8_extras 2 (drop_bit 12 cp) (rdr (pre @ es @ post) (length pre + 2)) = Some (cp, rdr (pre @ es @ post) (length pre + 4))"
    using utf8_extras_within [of 2 es "drop_bit 6 cp" 1 "drop_bit 12 cp" pre post] join6 [of 6 cp] cont(2) len
    by (simp add: eval_nat_numeral del: utf8_extras.simps(2))
  then have "utf8_extras 3 (drop_bit 18 cp) (rdr (pre @ es @ post) (length pre + 1)) = Some (cp, rdr (pre @ es @ post) (length pre + 4))"
    using utf8_extras_within [of 1 es "drop_bit 12 cp" 2 "drop_bit 18 cp" pre post] join6 [of 12 cp] cont(1) len
    by (simp add: eval_nat_numeral del: utf8_extras.simps(2))
  then show ?thesis
    using utf8_lead4 [OF cp] utf8_lead_excl4 [OF utf8_lead4(1) [OF cp]] len by (simp add: decode_utf8_start lead Let_def del: utf8_extras.simps(2))
qed

lemma utf8_decodes:
  assumes "encode_utf8 cp = Some es"
  shows "decode_utf8 (rdr (pre @ es @ post) (length pre)) = Some (cp, rdr (pre @ es @ post) (length pre + length es))"
proof -
  have "\<not> 0x10ffff < cp"
    using assms by (simp add: encode_utf8_def is_scalar_value_def split: if_splits)
  then have "cp < 2 ^ 21"
    by (simp add: not_less) (erule order.strict_trans1, simp)
  then consider "cp < 2 ^ 7" "es = [ucast cp]"
    | "cp < 2 ^ 11" "es = [0xc0 OR ucast (drop_bit 6 cp), 0x80 OR ucast (cp AND 0x3f)]"
    | "cp < 2 ^ 16" "es = [0xe0 OR ucast (drop_bit 12 cp), 0x80 OR ucast (drop_bit 6 cp AND 0x3f), 0x80 OR ucast (cp AND 0x3f)]"
    | "cp < 2 ^ 21" "es = [0xf0 OR ucast (drop_bit 18 cp), 0x80 OR ucast (drop_bit 12 cp AND 0x3f),
              0x80 OR ucast (drop_bit 6 cp AND 0x3f), 0x80 OR ucast (cp AND 0x3f)]"
    using assms by (auto simp: encode_utf8_def split: if_splits)
  then show ?thesis
  proof cases
    case 1
    then show ?thesis
      using decode_utf8_1 [OF 1] by simp
  next
    case 2
    then show ?thesis
      by (intro decode_utf8_2) auto
  next
    case 3
    then show ?thesis
      by (intro decode_utf8_3) auto
  next
    case 4
    then show ?thesis
      by (intro decode_utf8_4) auto
  qed
qed

section \<open>UTF-16 and UTF-32\<close>

lemma masks16_eq:
  "(0xd800 :: u16) = push_bit 14 (mask 2) OR push_bit 11 (mask 2)" "(0xdc00 :: u16) = push_bit 14 (mask 2) OR push_bit 10 (mask 3)"
  "(0xff :: u16) = mask 8" "(0x36 :: u16) = push_bit 4 (mask 2) OR push_bit 1 (mask 2)"
  "(0x37 :: u16) = push_bit 4 (mask 2) OR mask 3"
  by (simp_all add: mask_numeral)

lemma masks16:
  "bit (0xd800 :: u16) n \<longleftrightarrow> 14 \<le> n \<and> n < 16 \<or> 11 \<le> n \<and> n < 13"
  "bit (0xdc00 :: u16) n \<longleftrightarrow> 14 \<le> n \<and> n < 16 \<or> 10 \<le> n \<and> n < 13"
  "bit (0xff :: u16) n \<longleftrightarrow> n < 8"
  "bit (0x36 :: u16) n \<longleftrightarrow> 4 \<le> n \<and> n < 6 \<or> 1 \<le> n \<and> n < 3"
  "bit (0x37 :: u16) n \<longleftrightarrow> 4 \<le> n \<and> n < 6 \<or> n < 3"
  unfolding masks16_eq bit_or_iff range_mask bit_mask_iff by auto

definition unit_bytes :: "Endian \<Rightarrow> u16 \<Rightarrow> u8 list" where
  "unit_bytes endian u = (if is_little endian then [ucast (u AND 0xff), ucast (drop_bit 8 u)]
                          else [ucast (drop_bit 8 u), ucast (u AND 0xff)])"

lemma unit_join:
  "push_bit 8 (ucast (ucast (ucast (drop_bit 8 u) :: u8) :: u32)) OR ucast (ucast (ucast (u AND 0xff) :: u8) :: u32) = (u :: u16)"
  by (rule bit_word_eqI) (auto simp only: bitwise masks16 not_less le_add_diff_inverse)

lemma read_u16_within:
  assumes "k + 1 < length es" and "unit_bytes e u = [es ! k, es ! (k + 1)]"
  shows "read_u16 e (rdr (pre @ es @ post) (length pre + k)) = Some (u, rdr (pre @ es @ post) (length pre + (k + 2)))"
  using assms read_byte_within [of k es pre post] read_byte_within [of "k + 1" es pre post] unit_join [of u]
  by (auto simp: read_u16_def unit_bytes_def split: if_splits)

lemma high_surrogate: "(0xd800 \<le> u \<and> u \<le> 0xdbff) \<longleftrightarrow> drop_bit 10 u = (0x36 :: u16)"
  by (auto simp: word_le_nat_alt word_unat_eq_iff drop_bit_eq_div unat_div_distrib)

lemma low_surrogate: "(0xdc00 \<le> u \<and> u \<le> 0xdfff) \<longleftrightarrow> drop_bit 10 u = (0x37 :: u16)"
  by (auto simp: word_le_nat_alt word_unat_eq_iff drop_bit_eq_div unat_div_distrib)

lemma surrogates:
  assumes "(v :: u32) < 2 ^ 20"
  shows "drop_bit 10 (0xd800 OR ucast (drop_bit 10 v) :: u16) = 0x36"
    and "drop_bit 10 (0xdc00 OR ucast (v AND 0x3ff) :: u16) = 0x37"
    and "push_bit 10 (ucast (0xd800 OR ucast (drop_bit 10 v) :: u16) AND 0x3ff)
      OR (ucast (0xdc00 OR ucast (v AND 0x3ff) :: u16) AND 0x3ff) = v"
  by (rule bit_word_eqI, auto simp only: bitwise masks16 not_less le_add_diff_inverse dest: small_bits [OF assms])+

lemma encode_utf16_units:
  "encode_utf16 cp e = (if is_scalar_value cp then Some (concat (map (unit_bytes e) (utf16_units cp))) else None)"
  by (simp add: encode_utf16_def unit_bytes_def [abs_def])

lemma unit_bytes_two: "length (unit_bytes e u) = 2" "unit_bytes e u = [unit_bytes e u ! 0, unit_bytes e u ! 1]"
  by (simp_all add: unit_bytes_def)

lemma decode_utf16_bmp:
  assumes "cp < 0x10000" and "is_scalar_value cp"
  shows "decode_utf16 (rdr (pre @ unit_bytes e (ucast cp) @ post) (length pre)) e
    = Some (cp, rdr (pre @ unit_bytes e (ucast cp) @ post) (length pre + 2))"
proof -
  have "cp < 2 ^ 16"
    using assms(1) by simp
  then have cp: "(ucast (ucast cp :: u16) :: u32) = cp"
    by (intro bit_word_eqI) (auto simp only: bitwise dest: small_bits [of cp 16])
  then have u: "unat (ucast cp :: u16) = unat cp"
    using assms(1) by (simp add: unsigned_ucast_eq take_bit_nat_eq_self word_less_nat_alt)
  have "\<not> (0xd800 \<le> (ucast cp :: u16) \<and> (ucast cp :: u16) \<le> 0xdbff)"
    using assms(2) by (auto simp: is_scalar_value_def word_le_nat_alt word_less_nat_alt u)
  moreover have "read_u16 e (rdr (pre @ unit_bytes e (ucast cp) @ post) (length pre))
    = Some (ucast cp, rdr (pre @ unit_bytes e (ucast cp) @ post) (length pre + 2))"
    using read_u16_within [of 0 "unit_bytes e (ucast cp)" e "ucast cp" pre post] unit_bytes_two [of e "ucast cp"] by simp
  ultimately show ?thesis
    by (simp add: decode_utf16_def cp)
qed

lemma decode_utf16_surrogates:
  assumes "drop_bit 10 h = 0x36" and "drop_bit 10 l = 0x37" and "es = unit_bytes e h @ unit_bytes e l"
  shows "decode_utf16 (rdr (pre @ es @ post) (length pre)) e
    = Some (0x10000 + (push_bit 10 (ucast h AND 0x3ff) OR (ucast l AND 0x3ff)), rdr (pre @ es @ post) (length pre + 4))"
proof -
  have len: "length es = 4" and es: "unit_bytes e h = [es ! 0, es ! (0 + 1)]" "unit_bytes e l = [es ! 2, es ! (2 + 1)]"
    using assms(3) by (simp_all add: unit_bytes_def)
  have "read_u16 e (rdr (pre @ es @ post) (length pre)) = Some (h, rdr (pre @ es @ post) (length pre + 2))"
    and "read_u16 e (rdr (pre @ es @ post) (length pre + 2)) = Some (l, rdr (pre @ es @ post) (length pre + 4))"
    using read_u16_within [OF _ es(1), of pre post] read_u16_within [OF _ es(2), of pre post] len by simp_all
  then show ?thesis
    using assms(1,2) by (simp add: decode_utf16_def high_surrogate low_surrogate)
qed

lemma decode_utf16_pair:
  assumes "v < 2 ^ 20" and "es = unit_bytes e (0xd800 OR ucast (drop_bit 10 v)) @ unit_bytes e (0xdc00 OR ucast (v AND 0x3ff))"
  shows "decode_utf16 (rdr (pre @ es @ post) (length pre)) e = Some (0x10000 + v, rdr (pre @ es @ post) (length pre + 4))"
  using decode_utf16_surrogates [OF surrogates(1,2) [OF assms(1)] assms(2), of pre post]
  unfolding surrogates(3) [OF assms(1)] .

lemma utf16_decodes:
  assumes "encode_utf16 cp e = Some es"
  shows "decode_utf16 (rdr (pre @ es @ post) (length pre)) e = Some (cp, rdr (pre @ es @ post) (length pre + length es))"
proof (cases "cp < 0x10000")
  case True
  then show ?thesis
    using assms decode_utf16_bmp [of cp pre e post]
    by (simp add: encode_utf16_units utf16_units_def split: if_splits) (auto simp: unit_bytes_two(1))
next
  case False
  have "cp \<le> 0x10ffff"
    using assms by (simp add: encode_utf16_units is_scalar_value_def split: if_splits)
  then have "cp - 0x10000 < 2 ^ 20"
    using False by (simp add: word_le_nat_alt word_less_nat_alt unat_sub not_less)
  then show ?thesis
    using decode_utf16_pair [OF _ refl, of "cp - 0x10000" pre e post] assms False
    by (auto simp: encode_utf16_units utf16_units_def Let_def unit_bytes_two(1) split: if_splits)
qed

lemma utf32_join:
  "push_bit 24 (ucast (ucast (drop_bit 24 cp AND 0xff) :: u8)) OR push_bit 16 (ucast (ucast (drop_bit 16 cp AND 0xff) :: u8))
     OR push_bit 8 (ucast (ucast (drop_bit 8 cp AND 0xff) :: u8)) OR ucast (ucast (cp AND 0xff) :: u8) = (cp :: u32)"
proof (rule bit_word_eqI)
  fix n :: nat
  assume n: "n < LENGTH(32)"
  consider "n < 8" | "8 \<le> n" "n < 16" | "16 \<le> n" "n < 24" | "24 \<le> n"
    by linarith
  then show "bit (push_bit 24 (ucast (ucast (drop_bit 24 cp AND 0xff) :: u8)) OR push_bit 16 (ucast (ucast (drop_bit 16 cp AND 0xff) :: u8))
     OR push_bit 8 (ucast (ucast (drop_bit 8 cp AND 0xff) :: u8)) OR ucast (ucast (cp AND 0xff) :: u8) :: u32) n = bit cp n"
    by cases (use n in \<open>auto simp only: bitwise not_less le_add_diff_inverse\<close>)
qed

lemma decode_utf32_four:
  assumes "length es = 4"
  shows "decode_utf32 (rdr (pre @ es @ post) (length pre)) e =
    Some (if is_little e then push_bit 24 (ucast (es ! 3)) OR push_bit 16 (ucast (es ! 2)) OR push_bit 8 (ucast (es ! 1)) OR ucast (es ! 0)
          else push_bit 24 (ucast (es ! 0)) OR push_bit 16 (ucast (es ! 1)) OR push_bit 8 (ucast (es ! 2)) OR ucast (es ! 3),
          rdr (pre @ es @ post) (length pre + 4))"
  using assms read_byte_within [of 0 es pre post] read_byte_within [of 1 es pre post] read_byte_within [of 2 es pre post]
    read_byte_within [of 3 es pre post]
  by (simp add: decode_utf32_def numeral_eq_Suc)

lemma utf32_decodes:
  assumes "encode_utf32 cp e = Some es"
  shows "decode_utf32 (rdr (pre @ es @ post) (length pre)) e = Some (cp, rdr (pre @ es @ post) (length pre + length es))"
proof -
  have "length es = 4"
    using assms by (auto simp: encode_utf32_def split: if_splits)
  then show ?thesis
    using assms utf32_join [of cp] by (auto simp: decode_utf32_four encode_utf32_def split: if_splits)
qed

section \<open>The codecs round trip\<close>

text \<open>
  C31.  Every Unicode scalar value is accepted by the three encoders of \<open>bitstr.rs\<close> and decoded
  again from its bytes, in UTF-8 and, for every byte order, in UTF-16 and UTF-32, wherever the bytes
  stand in a buffer; the reader is left exactly behind them.
\<close>

theorem utf_roundtrip:
  assumes "is_scalar_value cp"
  shows "(\<exists>es. encode_utf8 cp = Some es \<and>
      decode_utf8 (rdr (pre @ es @ post) (length pre)) = Some (cp, rdr (pre @ es @ post) (length pre + length es)))
    \<and> (\<exists>es. encode_utf16 cp e = Some es \<and>
      decode_utf16 (rdr (pre @ es @ post) (length pre)) e = Some (cp, rdr (pre @ es @ post) (length pre + length es)))
    \<and> (\<exists>es. encode_utf32 cp e = Some es \<and>
      decode_utf32 (rdr (pre @ es @ post) (length pre)) e = Some (cp, rdr (pre @ es @ post) (length pre + length es)))"
proof (intro conjI)
  obtain a b c where "encode_utf8 cp = Some a" "encode_utf16 cp e = Some b" "encode_utf32 cp e = Some c"
    using assms by (simp add: encode_utf8_def encode_utf16_def encode_utf32_def)
  then show "\<exists>es. encode_utf8 cp = Some es \<and>
      decode_utf8 (rdr (pre @ es @ post) (length pre)) = Some (cp, rdr (pre @ es @ post) (length pre + length es))"
    and "\<exists>es. encode_utf16 cp e = Some es \<and>
      decode_utf16 (rdr (pre @ es @ post) (length pre)) e = Some (cp, rdr (pre @ es @ post) (length pre + length es))"
    and "\<exists>es. encode_utf32 cp e = Some es \<and>
      decode_utf32 (rdr (pre @ es @ post) (length pre)) e = Some (cp, rdr (pre @ es @ post) (length pre + length es))"
    using utf8_decodes utf16_decodes utf32_decodes by blast+
qed

theorem utf_roundtrip_witness:
  "encode_utf8 0x1F600 = Some [0xF0, 0x9F, 0x98, 0x80]
   \<and> decode_utf8 (rdr [1, 0xF0, 0x9F, 0x98, 0x80, 2] 1) = Some (0x1F600, rdr [1, 0xF0, 0x9F, 0x98, 0x80, 2] 5)"
proof -
  have e: "encode_utf8 0x1F600 = Some [0xF0, 0x9F, 0x98, 0x80]" and c: "is_scalar_value 0x1F600"
    by (simp_all add: encode_utf8_def is_scalar_value_def)
  obtain es where es: "encode_utf8 0x1F600 = Some es"
    "decode_utf8 (rdr ([1] @ es @ [2]) (length [1 :: u8])) = Some (0x1F600, rdr ([1] @ es @ [2]) (length [1 :: u8] + length es))"
    using utf_roundtrip [OF c, of "[1]" "[2]"] by blast
  have "es = [0xF0, 0x9F, 0x98, 0x80]"
    using es(1) e by simp
  then show ?thesis
    using es(2) e by (simp add: eval_nat_numeral)
qed

end
