(* ===== verification/Fz_Timer.thy ===== *)
theory Fz_Timer
  imports Fz_Prelude
begin

text \<open>
  The timer wheel of the process schedulers (\<open>runtime/src/timer.rs\<close>): a vector of timers sorted by
  deadline and, within a deadline, by identifier, with the binary search of the standard library
  that finds the place of a new timer.  Instants are natural numbers; the current instant is an
  argument where the code calls \<open>Instant::now\<close>.
\<close>

section \<open>Binary search\<close>

text \<open>\<open>slice::binary_search_by\<close>: \<open>Inl\<close> is \<open>Ok\<close>, an index that compares equal; \<open>Inr\<close> is \<open>Err\<close>,
  the place to insert.\<close>

function binary_search_loop :: "('a \<Rightarrow> ordering) \<Rightarrow> 'a list \<Rightarrow> nat \<Rightarrow> nat \<Rightarrow> nat" where
  "binary_search_loop f xs sz base =
     (if sz \<le> 1 then base
      else let half = sz div 2; mid = base + half
           in binary_search_loop f xs (sz - half) (if f (xs ! mid) = Greater then base else mid))"
  by pat_completeness auto
termination
  by (relation "measure (\<lambda>(f, xs, sz, base). sz)") auto

declare binary_search_loop.simps [simp del]

definition binary_search_by :: "('a \<Rightarrow> ordering) \<Rightarrow> 'a list \<Rightarrow> nat + nat" where
  "binary_search_by f xs =
     (if xs = [] then Inr 0
      else let base = binary_search_loop f xs (length xs) 0
           in case f (xs ! base) of Equal \<Rightarrow> Inl base | Less \<Rightarrow> Inr (base + 1) | Greater \<Rightarrow> Inr base)"

text \<open>The list is partitioned by the comparison, as a sorted list is.\<close>

definition partitioned :: "('a \<Rightarrow> ordering) \<Rightarrow> 'a list \<Rightarrow> bool" where
  "partitioned f xs \<longleftrightarrow> sorted_wrt (\<lambda>x y. (f x = Greater \<longrightarrow> f y = Greater) \<and> (f y = Less \<longrightarrow> f x = Less)) xs"

lemma partitionedD:
  "partitioned f xs \<Longrightarrow> i \<le> j \<Longrightarrow> j < length xs \<Longrightarrow> f (xs ! i) = Greater \<Longrightarrow> f (xs ! j) = Greater"
  "partitioned f xs \<Longrightarrow> i \<le> j \<Longrightarrow> j < length xs \<Longrightarrow> f (xs ! j) = Less \<Longrightarrow> f (xs ! i) = Less"
  unfolding partitioned_def sorted_wrt_iff_nth_less by (metis le_neq_implies_less)+

lemma binary_search_loop_bounds:
  assumes "partitioned f xs" and "0 < sz" and "base + sz \<le> length xs"
    and "\<And>k. base + sz \<le> k \<Longrightarrow> k < length xs \<Longrightarrow> f (xs ! k) = Greater"
    and "base = 0 \<or> f (xs ! base) \<noteq> Greater"
  shows "binary_search_loop f xs sz base < length xs
    \<and> (\<forall>k. binary_search_loop f xs sz base < k \<longrightarrow> k < length xs \<longrightarrow> f (xs ! k) = Greater)
    \<and> (binary_search_loop f xs sz base = 0 \<or> f (xs ! binary_search_loop f xs sz base) \<noteq> Greater)"
  using assms
proof (induction f xs sz base rule: binary_search_loop.induct)
  case (1 f xs sz base)
  show ?case
  proof (cases "sz \<le> 1")
    case True
    then show ?thesis
      using "1.prems" by (subst (1 2 3 4) binary_search_loop.simps) auto
  next
    case False
    let ?base = "if f (xs ! (base + sz div 2)) = Greater then base else base + sz div 2"
    have eq: "binary_search_loop f xs sz base = binary_search_loop f xs (sz - sz div 2) ?base"
      using False by (subst binary_search_loop.simps) (simp add: Let_def)
    have above: "f (xs ! k) = Greater" if "?base + (sz - sz div 2) \<le> k" "k < length xs" for k
      using that "1.prems"(4) [of k] partitionedD(1) [OF "1.prems"(1), of "base + sz div 2" k]
      by (auto split: if_splits)
    have fits: "?base + (sz - sz div 2) \<le> length xs" and pos: "0 < sz - sz div 2"
      using "1.prems"(3) False by (auto split: if_splits)
    have "?base = 0 \<or> f (xs ! ?base) \<noteq> Greater"
      using "1.prems"(5) by auto
    then show ?thesis
      unfolding eq by (intro "1.IH" [OF False refl refl "1.prems"(1) pos fits above])
  qed
qed

theorem binary_search_by_exact:
  assumes "partitioned f xs"
  shows "case binary_search_by f xs of
      Inl i \<Rightarrow> i < length xs \<and> f (xs ! i) = Equal
    | Inr i \<Rightarrow> i \<le> length xs \<and> (\<forall>k < i. f (xs ! k) = Less) \<and> (\<forall>k. i \<le> k \<longrightarrow> k < length xs \<longrightarrow> f (xs ! k) = Greater)"
proof (cases "xs = []")
  case False
  let ?b = "binary_search_loop f xs (length xs) 0"
  have b: "?b < length xs" "\<And>k. ?b < k \<Longrightarrow> k < length xs \<Longrightarrow> f (xs ! k) = Greater" "?b = 0 \<or> f (xs ! ?b) \<noteq> Greater"
    using binary_search_loop_bounds [OF assms, of "length xs" 0] False by auto
  moreover have "f (xs ! k) = Less" if "f (xs ! ?b) = Less" "k \<le> ?b" for k
    using partitionedD(2) [OF assms that(2) b(1) that(1)] .
  ultimately show ?thesis
    using False by (cases "f (xs ! ?b)") (auto simp: binary_search_by_def Let_def le_less Suc_le_eq less_Suc_eq)
qed (simp add: binary_search_by_def)

section \<open>The wheel\<close>

record TimerEntry =
  te_id :: nat
  te_deadline :: nat
  te_pid :: nat

record TimerWheel =
  tw_entries :: "TimerEntry list"
  tw_next_id :: nat

definition TimerWheel_new :: TimerWheel where
  "TimerWheel_new = \<lparr> tw_entries = [], tw_next_id = 1 \<rparr>"

definition entry_cmp :: "TimerEntry \<Rightarrow> TimerEntry \<Rightarrow> ordering" where
  "entry_cmp entry e = ordering_then (cmp_of (te_deadline e) (te_deadline entry)) (cmp_of (te_id e) (te_id entry))"

definition TimerWheel_schedule :: "nat \<Rightarrow> nat \<Rightarrow> nat \<Rightarrow> TimerWheel \<Rightarrow> nat \<times> TimerWheel" where
  "TimerWheel_schedule now pid after w =
     (let i = tw_next_id w;
          entry = \<lparr> te_id = i, te_deadline = now + after, te_pid = pid \<rparr>;
          pos = (case binary_search_by (entry_cmp entry) (tw_entries w) of Inl k \<Rightarrow> k | Inr k \<Rightarrow> k)
      in (i, \<lparr> tw_entries = take pos (tw_entries w) @ entry # drop pos (tw_entries w), tw_next_id = i + 1 \<rparr>))"

fun position :: "('a \<Rightarrow> bool) \<Rightarrow> 'a list \<Rightarrow> nat option" where
  "position P [] = None"
| "position P (x # xs) = (if P x then Some 0 else map_option Suc (position P xs))"

definition TimerWheel_cancel :: "nat \<Rightarrow> TimerWheel \<Rightarrow> TimerWheel" where
  "TimerWheel_cancel i w =
     (case position (\<lambda>e. te_id e = i) (tw_entries w) of
        Some pos \<Rightarrow> w\<lparr> tw_entries := take pos (tw_entries w) @ drop (pos + 1) (tw_entries w) \<rparr>
      | None \<Rightarrow> w)"

definition TimerWheel_drain_expired :: "nat \<Rightarrow> TimerWheel \<Rightarrow> TimerEntry list \<times> TimerWheel" where
  "TimerWheel_drain_expired now w =
     (let cut = (case position (\<lambda>e. now < te_deadline e) (tw_entries w) of Some k \<Rightarrow> k | None \<Rightarrow> length (tw_entries w))
      in (take cut (tw_entries w), w\<lparr> tw_entries := drop cut (tw_entries w) \<rparr>))"

definition TimerWheel_next_deadline :: "TimerWheel \<Rightarrow> nat option" where
  "TimerWheel_next_deadline w = (case tw_entries w of [] \<Rightarrow> None | e # _ \<Rightarrow> Some (te_deadline e))"

section \<open>The invariant and the contract\<close>

definition entry_before :: "TimerEntry \<Rightarrow> TimerEntry \<Rightarrow> bool" where
  "entry_before a b \<longleftrightarrow> te_deadline a < te_deadline b \<or> te_deadline a = te_deadline b \<and> te_id a < te_id b"

definition wheel_wf :: "TimerWheel \<Rightarrow> bool" where
  "wheel_wf w \<longleftrightarrow> sorted_wrt entry_before (tw_entries w) \<and> distinct (map te_id (tw_entries w))
     \<and> (\<forall>e \<in> set (tw_entries w). te_id e < tw_next_id w)"

lemma wheel_wf_new: "wheel_wf TimerWheel_new"
  by (simp add: wheel_wf_def TimerWheel_new_def)

lemma entry_cmp_iff:
  "entry_cmp entry e = Less \<longleftrightarrow> entry_before e entry"
  "entry_cmp entry e = Greater \<longleftrightarrow> entry_before entry e"
  "entry_cmp entry e = Equal \<longleftrightarrow> te_deadline e = te_deadline entry \<and> te_id e = te_id entry"
  by (auto simp: entry_cmp_def entry_before_def)

lemma entry_before_trans: "entry_before a b \<Longrightarrow> entry_before b c \<Longrightarrow> entry_before a c"
  by (auto simp: entry_before_def)

lemma partitioned_entry_cmp: "sorted_wrt entry_before es \<Longrightarrow> partitioned (entry_cmp entry) es"
  unfolding partitioned_def entry_cmp_iff
  by (rule sorted_wrt_mono_rel) (auto intro: entry_before_trans)

lemma schedule_entries:
  assumes "wheel_wf w" and "TimerWheel_schedule now pid after w = (i, w')"
  obtains before rest where "tw_entries w = before @ rest"
    and "tw_entries w' = before @ \<lparr> te_id = i, te_deadline = now + after, te_pid = pid \<rparr> # rest"
    and "i = tw_next_id w" and "tw_next_id w' = i + 1" and "wheel_wf w'"
proof -
  let ?e = "\<lparr> te_id = tw_next_id w, te_deadline = now + after, te_pid = pid \<rparr>"
  let ?r = "binary_search_by (entry_cmp ?e) (tw_entries w)"
  have sorted: "sorted_wrt entry_before (tw_entries w)" and new: "\<forall>e \<in> set (tw_entries w). te_id e < tw_next_id w"
    using assms(1) by (simp_all add: wheel_wf_def)
  note exact = binary_search_by_exact [OF partitioned_entry_cmp [OF sorted], of ?e]
  have "?r \<noteq> Inl k" for k
  proof
    assume "?r = Inl k"
    then have "k < length (tw_entries w)" and "te_id (tw_entries w ! k) = tw_next_id w"
      using exact by (simp_all add: entry_cmp_iff)
    then show False
      using new nth_mem by fastforce
  qed
  then obtain k where k: "?r = Inr k"
    by (cases ?r) auto
  define before rest where "before = take k (tw_entries w)" and "rest = drop k (tw_entries w)"
  have split: "tw_entries w = before @ rest"
    by (simp add: before_def rest_def)
  have "\<forall>x \<in> set before. entry_before x ?e" "\<forall>x \<in> set rest. entry_before ?e x"
    using exact k by (auto simp: entry_cmp_iff set_conv_nth before_def rest_def)
  then have "sorted_wrt entry_before (before @ ?e # rest)"
    using sorted split by (auto simp: sorted_wrt_append)
  moreover have "distinct (map te_id (before @ ?e # rest))" "\<forall>e \<in> set (before @ ?e # rest). te_id e < tw_next_id w + 1"
    using assms(1) new split by (auto simp: wheel_wf_def less_Suc_eq)
  moreover have w': "w' = \<lparr> tw_entries = before @ ?e # rest, tw_next_id = tw_next_id w + 1 \<rparr>" "i = tw_next_id w"
    using assms(2) k by (auto simp: TimerWheel_schedule_def Let_def before_def rest_def)
  ultimately show thesis
    using that [OF split] by (simp add: wheel_wf_def)
qed

lemma position_split:
  "position P xs = Some k \<Longrightarrow> k < length xs \<and> P (xs ! k) \<and> (\<forall>x \<in> set (take k xs). \<not> P x)"
  "position P xs = None \<longleftrightarrow> (\<forall>x \<in> set xs. \<not> P x)"
  by (induction xs arbitrary: k) (auto split: if_splits)

lemma cancel_entries:
  "distinct (map te_id es) \<Longrightarrow> position (\<lambda>e. te_id e = i) es = Some k \<Longrightarrow>
    take k es @ drop (k + 1) es = filter (\<lambda>e. te_id e \<noteq> i) es"
proof (induction es arbitrary: k)
  case (Cons e es)
  then show ?case
  proof (cases "te_id e = i")
    case True
    then have "\<forall>x \<in> set es. te_id x \<noteq> i"
      using Cons.prems(1) by (auto simp: image_iff)
    then show ?thesis
      using True Cons.prems by (simp add: filter_id_conv)
  next
    case False
    then show ?thesis
      using Cons by auto
  qed
qed simp

lemma cancel_filter:
  assumes "wheel_wf w"
  shows "TimerWheel_cancel i w = w\<lparr> tw_entries := filter (\<lambda>e. te_id e \<noteq> i) (tw_entries w) \<rparr>"
proof (cases "position (\<lambda>e. te_id e = i) (tw_entries w)")
  case None
  then have "filter (\<lambda>e. te_id e \<noteq> i) (tw_entries w) = tw_entries w"
    by (simp add: position_split(2) filter_id_conv)
  then show ?thesis
    using None by (simp add: TimerWheel_cancel_def)
next
  case (Some k)
  then show ?thesis
    using cancel_entries [OF _ Some] assms by (simp add: TimerWheel_cancel_def wheel_wf_def)
qed

lemma drain_cut:
  "sorted_wrt entry_before es \<Longrightarrow>
    (case position (\<lambda>e. now < te_deadline e) es of Some k \<Rightarrow> k | None \<Rightarrow> length es)
      = length (takeWhile (\<lambda>e. te_deadline e \<le> now) es)"
  by (induction es) (auto split: option.splits simp: not_less)

lemma sorted_takeWhile_filter:
  "sorted_wrt entry_before es \<Longrightarrow>
    takeWhile (\<lambda>e. te_deadline e \<le> now) es = filter (\<lambda>e. te_deadline e \<le> now) es
    \<and> dropWhile (\<lambda>e. te_deadline e \<le> now) es = filter (\<lambda>e. now < te_deadline e) es"
proof (induction es)
  case (Cons e es)
  show ?case
  proof (cases "te_deadline e \<le> now")
    case False
    then have "\<forall>x \<in> set es. now < te_deadline x"
      using Cons.prems by (auto simp: entry_before_def)
    then show ?thesis
      using False by (auto simp: filter_empty_conv filter_id_conv not_le intro: sym)
  qed (use Cons in auto)
qed simp

lemma drain_filter:
  assumes "wheel_wf w"
  shows "TimerWheel_drain_expired now w = (filter (\<lambda>e. te_deadline e \<le> now) (tw_entries w),
    w\<lparr> tw_entries := filter (\<lambda>e. now < te_deadline e) (tw_entries w) \<rparr>)"
proof -
  have "sorted_wrt entry_before (tw_entries w)"
    using assms by (simp add: wheel_wf_def)
  then show ?thesis
    unfolding TimerWheel_drain_expired_def Let_def drain_cut [OF \<open>sorted_wrt entry_before (tw_entries w)\<close>]
    unfolding takeWhile_eq_take [symmetric] dropWhile_eq_drop [symmetric]
    by (simp add: sorted_takeWhile_filter)
qed

lemma wheel_wf_filter: "wheel_wf w \<Longrightarrow> wheel_wf (w\<lparr> tw_entries := filter P (tw_entries w) \<rparr>)"
  by (auto simp: wheel_wf_def sorted_wrt_filter distinct_map_filter)

lemma next_deadline_least:
  assumes "wheel_wf w"
  shows "TimerWheel_next_deadline w = (if tw_entries w = [] then None else Some (Min (te_deadline ` set (tw_entries w))))"
proof (cases "tw_entries w")
  case (Cons e es)
  then have "\<forall>x \<in> set es. te_deadline e \<le> te_deadline x"
    using assms by (auto simp: wheel_wf_def entry_before_def)
  then have "Min (te_deadline ` set (e # es)) = te_deadline e"
    by (intro Min_eqI) auto
  then show ?thesis
    using Cons by (simp add: TimerWheel_next_deadline_def)
qed (simp add: TimerWheel_next_deadline_def)

text \<open>
  C20.  The sorted vector is a set of pending timers.  Scheduling adds exactly the new timer, under
  an identifier no pending timer has; cancelling removes exactly the timer of that identifier, and
  nothing when there is none; draining returns exactly the timers due, earliest first and in
  scheduling order within a deadline, and leaves the others; the next deadline is the least one.
  Every operation keeps the vector sorted with distinct identifiers.
\<close>

theorem TimerWheel_contract:
  assumes "wheel_wf w"
  shows "(case TimerWheel_schedule now pid after w of (i, w') \<Rightarrow>
        wheel_wf w' \<and> i \<notin> te_id ` set (tw_entries w)
        \<and> set (tw_entries w') = insert \<lparr> te_id = i, te_deadline = now + after, te_pid = pid \<rparr> (set (tw_entries w)))
    \<and> wheel_wf (TimerWheel_cancel i w)
    \<and> tw_entries (TimerWheel_cancel i w) = filter (\<lambda>e. te_id e \<noteq> i) (tw_entries w)
    \<and> (case TimerWheel_drain_expired now w of (due, w') \<Rightarrow>
        wheel_wf w' \<and> sorted_wrt entry_before due
        \<and> set due = {e \<in> set (tw_entries w). te_deadline e \<le> now}
        \<and> tw_entries w' = filter (\<lambda>e. now < te_deadline e) (tw_entries w))
    \<and> TimerWheel_next_deadline w = (if tw_entries w = [] then None else Some (Min (te_deadline ` set (tw_entries w))))"
proof -
  obtain i' w' where s: "TimerWheel_schedule now pid after w = (i', w')"
    by (cases "TimerWheel_schedule now pid after w")
  obtain before rest where "tw_entries w = before @ rest"
    "tw_entries w' = before @ \<lparr> te_id = i', te_deadline = now + after, te_pid = pid \<rparr> # rest"
    "i' = tw_next_id w" "wheel_wf w'"
    using schedule_entries [OF assms s] by metis
  moreover have "\<forall>e \<in> set (tw_entries w). te_id e < tw_next_id w"
      "sorted_wrt entry_before (filter (\<lambda>e. te_deadline e \<le> now) (tw_entries w))"
    using assms by (simp_all add: wheel_wf_def sorted_wrt_filter)
  ultimately show ?thesis
    using s wheel_wf_filter [OF assms] by (auto simp: cancel_filter [OF assms] drain_filter [OF assms]
        next_deadline_least [OF assms])
qed

definition two_timers :: TimerWheel where
  "two_timers = \<lparr> tw_entries = [\<lparr> te_id = 2, te_deadline = 15, te_pid = 7 \<rparr>, \<lparr> te_id = 1, te_deadline = 25, te_pid = 7 \<rparr>],
     tw_next_id = 3 \<rparr>"

lemma two_timers_scheduled:
  "snd (TimerWheel_schedule 5 7 10 (snd (TimerWheel_schedule 5 7 20 TimerWheel_new))) = two_timers"
  by (simp add: TimerWheel_schedule_def TimerWheel_new_def binary_search_by_def binary_search_loop.simps entry_cmp_def
      cmp_of_def two_timers_def)

theorem TimerWheel_contract_witness:
  "wheel_wf two_timers \<and> TimerWheel_next_deadline two_timers = Some 15
   \<and> tw_entries (TimerWheel_cancel 2 two_timers) = [\<lparr> te_id = 1, te_deadline = 25, te_pid = 7 \<rparr>]"
proof -
  have wf: "wheel_wf two_timers"
    by (simp add: wheel_wf_def two_timers_def entry_before_def)
  show ?thesis
    using TimerWheel_contract [OF wf, of 0 0 0 2] wf by (simp add: two_timers_def)
qed

end
