(* ===== verification/Fz_Receive.thy ===== *)
theory Fz_Receive
  imports Fz_Timer Fz_AnyValue "HOL-Library.Monad_Syntax"
begin

unbundle bit_operations_syntax

text \<open>
  Selective receive: the process record and its scheduling fields (\<open>runtime/src/process.rs\<close>), the
  park record and its matcher (\<open>park.rs\<close>), the sender's probe, the initial scan of the mailbox and
  the after-timer (\<open>sched.rs\<close>), the timer services of the execution context (\<open>exec_ctx.rs\<close>) and the
  park and yield entries of compiled code (\<open>ir_runtime.rs\<close>).

  Messages and closures are the words the code passes around.  The process heaps are a state
  \<open>'w\<close> that these functions touch only through the heap operations they call, which are fields of
  \<open>HeapServices\<close>; what is proved holds for all of them.  The matcher is compiled code: a function of
  the message, the pinned values and the scratch buffer.  A panic is \<open>None\<close>.
\<close>

section \<open>Processes\<close>

datatype ProcessState = New | Ready | Running | Blocked | Exited

type_synonym MatcherFn = "AnyValueRef \<Rightarrow> AnyValueRef list \<Rightarrow> AnyValueRef list \<Rightarrow> nat \<times> AnyValueRef list"

record ParkRecord =
  matcher_fn :: MatcherFn
  pinned :: "AnyValueRef list"
  clause_bodies :: "u64 list"
  clause_bound_counts :: "nat list"
  bound_arity :: nat
  after_deadline_ms :: "nat option"
  after_cont :: u64
  after_timer_id :: "nat option"

text \<open>Of the execution context, the timer hooks: whether each is installed.\<close>

record ExecCtx =
  ctx_timer_schedule :: bool
  ctx_timer_cancel :: bool

record Process =
  proc_pid :: nat
  proc_state :: ProcessState
  mailbox :: "AnyValueRef list"
  wait :: "ParkRecord option"
  runnable :: "u64 option"
  proc_ctx :: "ExecCtx option"
  halt_value :: int
  exit_fault :: "u32 option"
  quiet_quanta :: nat
  scheduler_yields :: nat
  reductions_remaining :: int
  reductions_per_quantum :: int
  reductions_executed :: nat
  reduction_yields :: nat
  yield_reasons :: u8
  pending_yield_continuation_margin_before_bytes :: nat
  max_yield_continuation_bytes :: nat
  min_yield_continuation_margin_before_bytes :: nat
  min_yield_continuation_margin_after_bytes :: nat

record 'w HeapServices =
  materialize_outcome :: "nat \<Rightarrow> u64 \<Rightarrow> AnyValueRef list \<Rightarrow> 'w \<Rightarrow> (u64 \<times> 'w) option"
  deep_copy :: "nat \<Rightarrow> nat \<Rightarrow> AnyValueRef \<Rightarrow> 'w \<Rightarrow> (AnyValueRef \<times> 'w) option"
  new_heap :: "nat \<Rightarrow> 'w \<Rightarrow> 'w option"
  entry_thunk :: "nat \<Rightarrow> u64 \<Rightarrow> 'w \<Rightarrow> (u64 \<times> 'w) option"
  main_inner :: "nat \<Rightarrow> 'w \<Rightarrow> (u64 \<times> 'w) option"
  should_gc :: "nat \<Rightarrow> 'w \<Rightarrow> bool"
  clear_should_gc :: "nat \<Rightarrow> 'w \<Rightarrow> 'w"
  gc_process_roots :: "nat \<Rightarrow> u64 \<Rightarrow> AnyValueRef list \<Rightarrow> 'w \<Rightarrow> (u64 \<times> AnyValueRef list \<times> 'w) option"
  gc_value_roots :: "nat \<Rightarrow> u64 list \<Rightarrow> AnyValueRef list \<Rightarrow> 'w \<Rightarrow> (u64 list \<times> AnyValueRef list \<times> 'w) option"
  continuation_size :: "nat \<Rightarrow> u64 \<Rightarrow> 'w \<Rightarrow> nat"
  block_margin :: "nat \<Rightarrow> 'w \<Rightarrow> nat"

definition U64_MAX :: nat where "U64_MAX = 2 ^ 64 - 1"
definition U8_MAX :: nat where "U8_MAX = 255"
definition YIELD_REASON_REDUCTIONS :: u8 where "YIELD_REASON_REDUCTIONS = 1"
definition DEFAULT_REDUCTIONS_PER_QUANTUM :: int where "DEFAULT_REDUCTIONS_PER_QUANTUM = 4000"

definition saturating_add :: "nat \<Rightarrow> nat \<Rightarrow> nat \<Rightarrow> nat" where
  "saturating_add bound a b = min bound (a + b)"

definition Process_new :: "nat \<Rightarrow> int \<Rightarrow> Process" where
  "Process_new pid quantum =
     \<lparr> proc_pid = pid, proc_state = New, mailbox = [], wait = None, runnable = None, proc_ctx = None,
        halt_value = 0, exit_fault = None, quiet_quanta = 0, scheduler_yields = 0,
        reductions_remaining = quantum, reductions_per_quantum = quantum, reductions_executed = 0,
        reduction_yields = 0, yield_reasons = 0, pending_yield_continuation_margin_before_bytes = 0,
        max_yield_continuation_bytes = 0, min_yield_continuation_margin_before_bytes = 0,
        min_yield_continuation_margin_after_bytes = 0 \<rparr>"

definition ClosureRef_new :: "u64 \<Rightarrow> u64 option" where
  "ClosureRef_new p = (if p = 0 then None else Some p)"

definition set_runnable_closure :: "u64 \<Rightarrow> Process \<Rightarrow> Process" where
  "set_runnable_closure closure p = p\<lparr> runnable := ClosureRef_new closure \<rparr>"

definition take_runnable_closure :: "Process \<Rightarrow> u64 option \<times> Process" where
  "take_runnable_closure p = (runnable p, p\<lparr> runnable := None \<rparr>)"

definition runnable_ptr :: "Process \<Rightarrow> u64" where
  "runnable_ptr p = (case runnable p of Some c \<Rightarrow> c | None \<Rightarrow> 0)"

definition reset_reduction_budget :: "Process \<Rightarrow> Process" where
  "reset_reduction_budget p = p\<lparr> reductions_remaining := reductions_per_quantum p, yield_reasons := 0 \<rparr>"

definition clear_yield_reasons :: "Process \<Rightarrow> Process" where
  "clear_yield_reasons p = p\<lparr> yield_reasons := 0 \<rparr>"

definition finish_yield_report :: "int \<Rightarrow> u8 \<Rightarrow> Process \<Rightarrow> Process" where
  "finish_yield_report remaining reason p =
     (let burned = reductions_per_quantum p - remaining;
          p1 = p\<lparr> reductions_remaining := remaining \<rparr>;
          p2 = (if 0 < burned then p1\<lparr> reductions_executed := saturating_add U64_MAX (reductions_executed p1) (nat burned) \<rparr> else p1);
          p3 = p2\<lparr> yield_reasons := yield_reasons p2 OR reason \<rparr>
      in if yield_reasons p3 AND YIELD_REASON_REDUCTIONS = YIELD_REASON_REDUCTIONS
         then p3\<lparr> reduction_yields := saturating_add U64_MAX (reduction_yields p3) 1 \<rparr> else p3)"

definition min_nonzero :: "nat \<Rightarrow> nat \<Rightarrow> nat" where
  "min_nonzero current candidate = (if current = 0 then candidate else min current candidate)"

definition begin_yield_continuation_allocation :: "nat \<Rightarrow> Process \<Rightarrow> Process" where
  "begin_yield_continuation_allocation margin p = p\<lparr> pending_yield_continuation_margin_before_bytes := margin \<rparr>"

definition note_yield_continuation_allocation :: "nat \<Rightarrow> nat \<Rightarrow> Process \<Rightarrow> Process" where
  "note_yield_continuation_allocation observed margin_after p =
     (let sampled = pending_yield_continuation_margin_before_bytes p;
          margin_before = (if sampled = 0 then saturating_add U64_MAX margin_after observed else sampled);
          bytes = max (margin_before - margin_after) observed
      in p\<lparr> pending_yield_continuation_margin_before_bytes := 0,
            max_yield_continuation_bytes := max (max_yield_continuation_bytes p) bytes,
            min_yield_continuation_margin_before_bytes :=
              min_nonzero (min_yield_continuation_margin_before_bytes p) margin_before,
            min_yield_continuation_margin_after_bytes :=
              min_nonzero (min_yield_continuation_margin_after_bytes p) margin_after \<rparr>)"

definition boundary_maintenance ::
  "'w HeapServices \<Rightarrow> Process \<Rightarrow> 'w \<Rightarrow> (Process \<times> 'w) option" where
  "boundary_maintenance hs p w =
     do { (p', w') \<leftarrow>
            (if should_gc hs (proc_pid p) w
             then do { (root, mb, w1) \<leftarrow> gc_process_roots hs (proc_pid p) (runnable_ptr p) (mailbox p) w;
                       Some (set_runnable_closure root (p\<lparr> mailbox := mb \<rparr>)\<lparr> quiet_quanta := 0 \<rparr>, w1) }
             else Some (p\<lparr> quiet_quanta := saturating_add U8_MAX (quiet_quanta p) 1 \<rparr>, w));
          Some (clear_yield_reasons p', clear_should_gc hs (proc_pid p) w') }"

section \<open>Timer services of the execution context\<close>

definition timer_schedule :: "nat \<Rightarrow> Process \<Rightarrow> nat \<Rightarrow> nat \<Rightarrow> TimerWheel \<Rightarrow> nat option \<times> TimerWheel" where
  "timer_schedule now p pid after_ms tw =
     (case proc_ctx p of None \<Rightarrow> (None, tw)
      | Some ctx \<Rightarrow> if ctx_timer_schedule ctx
                   then let (i, tw') = TimerWheel_schedule now pid after_ms tw in (Some i, tw') else (None, tw))"

definition timer_cancel :: "Process \<Rightarrow> nat \<Rightarrow> TimerWheel \<Rightarrow> TimerWheel" where
  "timer_cancel p timer_id tw =
     (case proc_ctx p of None \<Rightarrow> tw
      | Some ctx \<Rightarrow> if ctx_timer_cancel ctx then TimerWheel_cancel timer_id tw else tw)"

section \<open>The park record\<close>

definition try_match :: "TaggedRefArch \<Rightarrow> ParkRecord \<Rightarrow> AnyValueRef \<Rightarrow> (nat \<times> AnyValueRef list) option" where
  "try_match arch park msg =
     (let (k, out_buf) = matcher_fn park msg (pinned park) (replicate (bound_arity park) (ref_null arch))
      in if k = 0 then None
         else let clause_idx = k - 1;
                  bound_count = (if clause_idx < length (clause_bound_counts park)
                                 then clause_bound_counts park ! clause_idx else bound_arity park)
              in Some (clause_idx, take bound_count out_buf))"

section \<open>The three wake-ups\<close>

datatype ProbeOutcome = ProbeHit | ProbeMiss
datatype ScanOutcome = ScanHit | ScanMiss | NotApplicable

text \<open>What a hit does in the probe and in the scan: build the continuation, leave the wait, cancel
  the timer, queue the continuation.\<close>

definition resume_hit ::
  "'w HeapServices \<Rightarrow> Process \<Rightarrow> ParkRecord \<Rightarrow> nat \<Rightarrow> AnyValueRef list \<Rightarrow> TimerWheel \<Rightarrow> 'w
     \<Rightarrow> (Process \<times> TimerWheel \<times> 'w) option" where
  "resume_hit hs task park clause_idx bound_vals tw w =
     (if length (clause_bodies park) \<le> clause_idx then None
      else do { (cont, w') \<leftarrow> materialize_outcome hs (proc_pid task) (clause_bodies park ! clause_idx) bound_vals w;
                let task1 = task\<lparr> wait := None \<rparr>;
                let tw' = (case after_timer_id park of Some i \<Rightarrow> timer_cancel task1 i tw | None \<Rightarrow> tw);
                Some (set_runnable_closure cont task1, tw', w') })"

definition probe_sender ::
  "TaggedRefArch \<Rightarrow> 'w HeapServices \<Rightarrow> Process \<Rightarrow> AnyValueRef \<Rightarrow> TimerWheel \<Rightarrow> 'w
     \<Rightarrow> (ProbeOutcome \<times> Process \<times> TimerWheel \<times> 'w) option" where
  "probe_sender arch hs task msg tw w =
     (case wait task of
        Some park \<Rightarrow>
          (case try_match arch park msg of
             Some (clause_idx, bound_vals) \<Rightarrow>
               do { (task', tw', w') \<leftarrow> resume_hit hs task park clause_idx bound_vals tw w;
                    Some (ProbeHit, task'\<lparr> proc_state := Ready \<rparr>, tw', w') }
           | None \<Rightarrow> Some (ProbeMiss, task\<lparr> mailbox := mailbox task @ [msg] \<rparr>, tw, w))
      | None \<Rightarrow> Some (ProbeMiss, task\<lparr> mailbox := mailbox task @ [msg] \<rparr>, tw, w))"

fun scan_loop ::
  "TaggedRefArch \<Rightarrow> ParkRecord \<Rightarrow> AnyValueRef list \<Rightarrow> AnyValueRef list
     \<Rightarrow> (nat \<times> AnyValueRef list) option \<times> AnyValueRef list \<times> AnyValueRef list" where
  "scan_loop arch park [] scanned = (None, scanned, [])"
| "scan_loop arch park (msg # rest) scanned =
     (case try_match arch park msg of
        Some h \<Rightarrow> (Some h, scanned, rest)
      | None \<Rightarrow> scan_loop arch park rest (scanned @ [msg]))"

definition restore_scanned :: "AnyValueRef list \<Rightarrow> AnyValueRef list \<Rightarrow> AnyValueRef list" where
  "restore_scanned scanned mb = fold (\<lambda>m mb. m # mb) (rev scanned) mb"

definition initial_scan ::
  "TaggedRefArch \<Rightarrow> 'w HeapServices \<Rightarrow> Process \<Rightarrow> TimerWheel \<Rightarrow> 'w
     \<Rightarrow> (ScanOutcome \<times> Process \<times> TimerWheel \<times> 'w) option" where
  "initial_scan arch hs task tw w =
     (case wait task of
        None \<Rightarrow> Some (NotApplicable, task, tw, w)
      | Some park \<Rightarrow>
          if mailbox task = [] then Some (NotApplicable, task, tw, w)
          else let (hit, scanned, rest) = scan_loop arch park (mailbox task) [];
                   task1 = task\<lparr> mailbox := restore_scanned scanned rest \<rparr>
               in case hit of
                    Some (clause_idx, bound_vals) \<Rightarrow>
                      do { (task', tw', w') \<leftarrow> resume_hit hs task1 park clause_idx bound_vals tw w;
                           Some (ScanHit, task', tw', w') }
                  | None \<Rightarrow> Some (ScanMiss, task1\<lparr> proc_state := Blocked \<rparr>, tw, w))"

definition fire_after_timer :: "Process \<Rightarrow> nat \<Rightarrow> bool \<times> Process" where
  "fire_after_timer task i =
     (case wait task of
        None \<Rightarrow> (False, task)
      | Some park \<Rightarrow>
          if after_timer_id park \<noteq> Some i then (False, task)
          else (True, (set_runnable_closure (after_cont park) (task\<lparr> wait := None \<rparr>))\<lparr> proc_state := Ready \<rparr>))"

section \<open>Entries of compiled code\<close>

definition to_option :: "('e, 'a) outcome \<Rightarrow> 'a option" where
  "to_option r = (case r of Inl _ \<Rightarrow> None | Inr x \<Rightarrow> Some x)"

definition closure_addr_from_ref_word :: "TaggedRefArch \<Rightarrow> u64 \<Rightarrow> u64 option" where
  "closure_addr_from_ref_word arch word =
     do { r \<leftarrow> to_option (from_raw_word arch word); to_option (ref_heap_addr arch r CLOSURE) }"

definition fz_receive_park_matched ::
  "TaggedRefArch \<Rightarrow> nat \<Rightarrow> MatcherFn \<Rightarrow> AnyValueRef list \<Rightarrow> u64 list \<Rightarrow> nat list option \<Rightarrow> nat \<Rightarrow> int \<Rightarrow> u64
     \<Rightarrow> Process \<Rightarrow> TimerWheel \<Rightarrow> (Process \<times> TimerWheel) option" where
  "fz_receive_park_matched arch now matcher pins bodies counts arity after_deadline_or_neg1 after_cont_bits p tw =
     do { body_addrs \<leftarrow> those (map (closure_addr_from_ref_word arch) bodies);
          let bound_counts = (if bodies = [] then []
                              else case counts of None \<Rightarrow> replicate (length bodies) (arity mod 2 ^ 16)
                                   | Some ns \<Rightarrow> map (\<lambda>n. n mod 2 ^ 16) ns);
          let deadline = (if after_deadline_or_neg1 < 0 then None else Some (nat after_deadline_or_neg1));
          let (timer, tw') = (case deadline of Some after_ms \<Rightarrow> timer_schedule now p (proc_pid p) after_ms tw
                              | None \<Rightarrow> (None, tw));
          cont \<leftarrow> (if after_cont_bits = 0 then Some 0 else closure_addr_from_ref_word arch after_cont_bits);
          let park = \<lparr> matcher_fn = matcher, pinned = pins, clause_bodies = body_addrs,
                       clause_bound_counts = bound_counts, bound_arity = arity mod 2 ^ 16,
                       after_deadline_ms = deadline, after_cont = cont, after_timer_id = timer \<rparr>;
          Some (p\<lparr> wait := Some park, proc_state := (if mailbox p = [] then Blocked else Ready) \<rparr>, tw') }"

definition fz_yield_mid_flight_report ::
  "TaggedRefArch \<Rightarrow> 'w HeapServices \<Rightarrow> u64 \<Rightarrow> int \<Rightarrow> u8 \<Rightarrow> Process \<Rightarrow> 'w \<Rightarrow> Process option" where
  "fz_yield_mid_flight_report arch hs cont_closure_bits remaining reason p w =
     do { let p1 = p\<lparr> scheduler_yields := saturating_add U64_MAX (scheduler_yields p) 1 \<rparr>;
          let p2 = finish_yield_report remaining reason p1;
          closure \<leftarrow> closure_addr_from_ref_word arch cont_closure_bits;
          let p3 = note_yield_continuation_allocation (continuation_size hs (proc_pid p) closure w)
                     (block_margin hs (proc_pid p) w) p2;
          Some (set_runnable_closure closure p3) }"

definition fz_halt_implicit_i64 :: "int \<Rightarrow> Process \<Rightarrow> Process" where
  "fz_halt_implicit_i64 val p = p\<lparr> halt_value := val \<rparr>"

definition fz_exit_fault :: "Process \<Rightarrow> Process" where
  "fz_exit_fault p = p\<lparr> exit_fault := Some (word_of_int (halt_value p)) \<rparr>"

section \<open>The scan finds the first match\<close>

lemma restore_scanned_append [simp]: "restore_scanned scanned mb = scanned @ mb"
  by (induction scanned arbitrary: mb rule: rev_induct) (auto simp: restore_scanned_def)

lemma scan_loop_none:
  "\<forall>m \<in> set mb. try_match arch park m = None \<Longrightarrow> scan_loop arch park mb scanned = (None, scanned @ mb, [])"
  by (induction mb arbitrary: scanned) auto

lemma scan_loop_first:
  "\<forall>m \<in> set pre. try_match arch park m = None \<Longrightarrow> try_match arch park msg = Some h \<Longrightarrow>
    scan_loop arch park (pre @ msg # post) scanned = (Some h, scanned @ pre, post)"
  by (induction pre arbitrary: scanned) auto

lemma first_match_cases:
  obtains (none) "\<forall>m \<in> set mb. try_match arch park m = None"
  | (first) pre msg post h where "mb = pre @ msg # post" "\<forall>m \<in> set pre. try_match arch park m = None"
      "try_match arch park msg = Some h"
proof (cases "\<forall>m \<in> set mb. try_match arch park m = None")
  case False
  then have "\<exists>m \<in> set mb. try_match arch park m \<noteq> None"
    by blast
  then obtain pre msg post where "mb = pre @ msg # post" "\<forall>m \<in> set pre. \<not> try_match arch park m \<noteq> None"
      "try_match arch park msg \<noteq> None"
    by (auto dest!: split_list_first_prop)
  moreover from this obtain h where "try_match arch park msg = Some h"
    by blast
  ultimately show thesis
    using first [of pre msg post h] by blast
qed (rule none)

text \<open>The specification of a selective receive on a mailbox: the first message that matches, taken
  out, the others in their order.\<close>

fun receive_first :: "('m \<Rightarrow> 'h option) \<Rightarrow> 'm list \<Rightarrow> ('h \<times> 'm list) option" where
  "receive_first match [] = None"
| "receive_first match (m # ms) =
     (case match m of Some h \<Rightarrow> Some (h, ms) | None \<Rightarrow> map_option (\<lambda>(h, rest). (h, m # rest)) (receive_first match ms))"

lemma receive_first_none: "receive_first match ms = None \<longleftrightarrow> (\<forall>m \<in> set ms. match m = None)"
  by (induction ms) (auto split: option.splits)

lemma receive_first_at:
  "\<forall>m \<in> set pre. match m = None \<Longrightarrow> match msg = Some h \<Longrightarrow> receive_first match (pre @ msg # post) = Some (h, pre @ post)"
  by (induction pre) auto

definition after_hit ::
  "'w HeapServices \<Rightarrow> Process \<Rightarrow> ParkRecord \<Rightarrow> nat \<Rightarrow> AnyValueRef list \<Rightarrow> TimerWheel \<Rightarrow> 'w
     \<Rightarrow> (Process \<times> TimerWheel \<times> 'w) option" where
  "after_hit hs task park i bs tw w =
     (if i < length (clause_bodies park)
      then map_option (\<lambda>(cont, w').
             (task\<lparr> wait := None, runnable := (if cont = 0 then None else Some cont) \<rparr>,
              case after_timer_id park of None \<Rightarrow> tw | Some t \<Rightarrow> TimerWheel_cancel t tw, w'))
             (materialize_outcome hs (proc_pid task) (clause_bodies park ! i) bs w)
      else None)"

lemma resume_hit_eq:
  assumes "proc_ctx task = Some ctx" and "ctx_timer_cancel ctx"
  shows "resume_hit hs task park i bs tw w = after_hit hs task park i bs tw w"
  using assms
  by (cases "materialize_outcome hs (proc_pid task) (clause_bodies park ! i) bs w")
    (auto simp: resume_hit_def after_hit_def set_runnable_closure_def ClosureRef_new_def timer_cancel_def
      split: option.split)

lemma initial_scan_eq:
  assumes "wait task = Some park" and "mailbox task \<noteq> []"
  shows "initial_scan arch hs task tw w =
    (case receive_first (try_match arch park) (mailbox task) of
       None \<Rightarrow> Some (ScanMiss, task\<lparr> proc_state := Blocked \<rparr>, tw, w)
     | Some ((i, bs), rest) \<Rightarrow>
         map_option (Pair ScanHit) (resume_hit hs (task\<lparr> mailbox := rest \<rparr>) park i bs tw w))"
proof (rule first_match_cases [of "mailbox task" arch park])
  assume none: "\<forall>m \<in> set (mailbox task). try_match arch park m = None"
  then have "receive_first (try_match arch park) (mailbox task) = None"
    by (simp add: receive_first_none)
  then show ?thesis
    using assms none by (simp add: initial_scan_def scan_loop_none)
next
  fix pre msg post h
  assume "mailbox task = pre @ msg # post" "\<forall>m \<in> set pre. try_match arch park m = None" "try_match arch park msg = Some h"
  then show ?thesis
    using assms by (cases h; cases "resume_hit hs (task\<lparr> mailbox := pre @ post \<rparr>) park (fst h) (snd h) tw w")
      (auto simp: initial_scan_def scan_loop_first receive_first_at)
qed

text \<open>
  C12.  What the two ways of a parked receive take, for a task with a wait whose context can cancel timers.  The scan of
  a non-empty mailbox takes the first message that the matcher accepts: it leaves the rejected messages and the later
  ones in their order, ends the wait and its timer and queues the outcome of the accepted clause; when no message
  is accepted it leaves mailbox and wait as they are and blocks the process.  The probe of a sender judges the
  new message alone, whatever the mailbox holds: an accepted one is taken at once, ahead of any message that still
  waits in the mailbox, and any other is appended at the end.  Both fail only where the matcher names a clause that does
  not exist or the heap cannot build the outcome.
\<close>

theorem selective_receive_first_match:
  assumes "wait task = Some park" and "proc_ctx task = Some ctx" and "ctx_timer_cancel ctx"
  shows "(mailbox task \<noteq> [] \<longrightarrow> initial_scan arch hs task tw w =
      (case receive_first (try_match arch park) (mailbox task) of
         None \<Rightarrow> Some (ScanMiss, task\<lparr> proc_state := Blocked \<rparr>, tw, w)
       | Some ((i, bs), rest) \<Rightarrow>
           map_option (Pair ScanHit) (after_hit hs (task\<lparr> mailbox := rest \<rparr>) park i bs tw w)))
    \<and> probe_sender arch hs task msg tw w =
      (case receive_first (try_match arch park) [msg] of
         None \<Rightarrow> Some (ProbeMiss, task\<lparr> mailbox := mailbox task @ [msg] \<rparr>, tw, w)
       | Some ((i, bs), _) \<Rightarrow>
           map_option (Pair ProbeHit) (after_hit hs (task\<lparr> proc_state := Ready \<rparr>) park i bs tw w))"
proof -
  have "resume_hit hs task park i bs tw w \<bind> (\<lambda>(t, tw', w'). Some (ProbeHit, t\<lparr> proc_state := Ready \<rparr>, tw', w'))
      = map_option (Pair ProbeHit) (after_hit hs (task\<lparr> proc_state := Ready \<rparr>) park i bs tw w)" for i bs
    unfolding resume_hit_eq [OF assms(2,3)]
    by (cases "materialize_outcome hs (proc_pid task) (clause_bodies park ! i) bs w") (auto simp: after_hit_def)
  then have "probe_sender arch hs task msg tw w =
      (case receive_first (try_match arch park) [msg] of
         None \<Rightarrow> Some (ProbeMiss, task\<lparr> mailbox := mailbox task @ [msg] \<rparr>, tw, w)
       | Some ((i, bs), _) \<Rightarrow>
           map_option (Pair ProbeHit) (after_hit hs (task\<lparr> proc_state := Ready \<rparr>) park i bs tw w))"
    using assms(1) by (auto simp: probe_sender_def split: option.split)
  then show ?thesis
    using assms by (auto simp: initial_scan_eq resume_hit_eq split: option.split)
qed

section \<open>A concrete receive\<close>

text \<open>Services without a heap: copies keep the word, an outcome is its template.\<close>

definition plain_services :: "unit HeapServices" where
  "plain_services =
     \<lparr> materialize_outcome = (\<lambda>pid template bs w. Some (template, w)),
        deep_copy = (\<lambda>src dst r w. Some (r, w)), new_heap = (\<lambda>pid w. Some w),
        entry_thunk = (\<lambda>pid inner w. Some (inner, w)), main_inner = (\<lambda>pid w. Some (0x1000, w)),
        should_gc = (\<lambda>pid w. False), clear_should_gc = (\<lambda>pid w. w),
        gc_process_roots = (\<lambda>pid r mb w. Some (r, mb, w)), gc_value_roots = (\<lambda>pid rs mb w. Some (rs, mb, w)),
        continuation_size = (\<lambda>pid c w. 0),
        block_margin = (\<lambda>pid w. 0) \<rparr>"

definition match_word :: "AnyValueRef \<Rightarrow> MatcherFn" where
  "match_word v msg pins out = (if msg = v then (1, [msg]) else (0, out))"

definition park_on :: "AnyValueRef \<Rightarrow> u64 \<Rightarrow> ParkRecord" where
  "park_on v body = \<lparr> matcher_fn = match_word v, pinned = [], clause_bodies = [body], clause_bound_counts = [1],
     bound_arity = 1, after_deadline_ms = None, after_cont = 0, after_timer_id = None \<rparr>"

lemma try_match_park_on: "try_match arch (park_on v body) msg = (if msg = v then Some (0, [msg]) else None)"
  by (simp add: try_match_def park_on_def match_word_def)

lemma park_on_simps [simp]:
  "clause_bodies (park_on v body) = [body]" "after_timer_id (park_on v body) = None" "after_cont (park_on v body) = 0"
  by (simp_all add: park_on_def)

definition wired :: ExecCtx where
  "wired = \<lparr> ctx_timer_schedule = True, ctx_timer_cancel = True \<rparr>"

theorem selective_receive_first_match_witness:
  "initial_scan Arm64Tbi plain_services
     ((Process_new 1 4000)\<lparr> mailbox := [1, 2, 42, 3], wait := Some (park_on 42 0x2000), proc_ctx := Some wired \<rparr>)
     TimerWheel_new ()
   = Some (ScanHit, (Process_new 1 4000)\<lparr> mailbox := [1, 2, 3], runnable := Some 0x2000, proc_ctx := Some wired \<rparr>,
       TimerWheel_new, ())"
proof -
  let ?t = "(Process_new 1 4000)\<lparr> mailbox := [1, 2, 42, 3], wait := Some (park_on 42 0x2000), proc_ctx := Some wired \<rparr>"
  have "initial_scan Arm64Tbi plain_services ?t TimerWheel_new () =
      map_option (Pair ScanHit) (after_hit plain_services (?t\<lparr> mailbox := [1, 2, 3] \<rparr>) (park_on 42 0x2000) 0 [42] TimerWheel_new ())"
    using selective_receive_first_match [of ?t "park_on 42 0x2000" wired Arm64Tbi plain_services TimerWheel_new "()" 0]
    by (simp add: wired_def try_match_park_on)
  then show ?thesis
    by (simp add: after_hit_def plain_services_def Process_new_def)
qed

end
