(* ===== verification/Fz_Aot.thy ===== *)
theory Fz_Aot
  imports Fz_Receive
begin

text \<open>
  The cooperative process scheduler of compiled programs (\<open>runtime/src/aot_shim.rs\<close>): the task
  table, the run queue, the timer wheel, and the hooks through which running code spawns, sends,
  parks and yields.  Running code is compiled code: a quantum is the list of the runtime calls it
  makes.  A call that parks or yields returns to the scheduler, so it is the last of its quantum.
  The scheduler is a step relation, one step per turn of the run-queue loop.
\<close>

section \<open>The scheduler and its hooks\<close>

record 'w AotScheduler =
  next_pid :: nat
  tasks :: "nat \<rightharpoonup> Process"
  run_queue :: "nat list"
  timers :: TimerWheel
  world :: 'w
  drain_dtor_entry :: bool

datatype 'w Call =
  Work "'w \<Rightarrow> 'w"
| Spawn u64
| Send nat u64
| Halt int
| ExitFault
| Park nat MatcherFn "AnyValueRef list" "u64 list" "nat list option" nat int u64
| YieldMidFlight u64 int u8

definition fz_aot_setup :: "'w HeapServices \<Rightarrow> 'w \<Rightarrow> 'w AotScheduler option" where
  "fz_aot_setup hs w0 =
     do { w \<leftarrow> new_heap hs 1 w0;
          Some \<lparr> next_pid = 2,
                 tasks = [1 \<mapsto> (Process_new 1 DEFAULT_REDUCTIONS_PER_QUANTUM)\<lparr> proc_ctx := Some wired \<rparr>],
                 run_queue = [], timers = TimerWheel_new, world = w, drain_dtor_entry = False \<rparr> }"

definition fz_aot_set_drain_dtor_entry :: "'w AotScheduler \<Rightarrow> 'w AotScheduler" where
  "fz_aot_set_drain_dtor_entry s = s\<lparr> drain_dtor_entry := True \<rparr>"

text \<open>\<open>fz_aot_run_main\<close> up to the loop: main becomes a closure behind an entry thunk.\<close>

definition enqueue_main :: "'w HeapServices \<Rightarrow> 'w AotScheduler \<Rightarrow> 'w AotScheduler option" where
  "enqueue_main hs s =
     do { process \<leftarrow> tasks s 1;
          (inner, w1) \<leftarrow> main_inner hs 1 (world s);
          (thunk, w2) \<leftarrow> entry_thunk hs 1 inner w1;
          Some (s\<lparr> tasks := (tasks s)(1 \<mapsto> set_runnable_closure thunk process), world := w2,
                  run_queue := run_queue s @ [1] \<rparr>) }"

definition aot_spawn_hook ::
  "TaggedRefArch \<Rightarrow> 'w HeapServices \<Rightarrow> nat \<Rightarrow> u64 \<Rightarrow> 'w AotScheduler \<Rightarrow> 'w AotScheduler option" where
  "aot_spawn_hook arch hs sender closure_bits s =
     do { let pid = next_pid s;
          w1 \<leftarrow> new_heap hs pid (world s);
          closure_ref \<leftarrow> to_option (from_raw_word arch closure_bits);
          (copied, w2) \<leftarrow> deep_copy hs sender pid closure_ref w1;
          copied_addr \<leftarrow> to_option (ref_heap_addr arch copied CLOSURE);
          (thunk, w3) \<leftarrow> entry_thunk hs pid copied_addr w2;
          let child = (set_runnable_closure thunk (Process_new pid DEFAULT_REDUCTIONS_PER_QUANTUM))\<lparr> proc_state := Ready \<rparr>;
          Some (s\<lparr> next_pid := pid + 1, tasks := (tasks s)(pid \<mapsto> child), world := w3,
                  run_queue := run_queue s @ [pid] \<rparr>) }"

definition aot_send_hook ::
  "TaggedRefArch \<Rightarrow> 'w HeapServices \<Rightarrow> nat \<Rightarrow> nat \<Rightarrow> u64 \<Rightarrow> 'w AotScheduler \<Rightarrow> 'w AotScheduler option" where
  "aot_send_hook arch hs sender receiver msg_ref_word s =
     do { msg \<leftarrow> to_option (from_raw_word arch msg_ref_word);
          case tasks s receiver of None \<Rightarrow> Some s
          | Some task \<Rightarrow>
              if proc_state task = Exited then Some s
              else do { (msg', w1) \<leftarrow> deep_copy hs sender (proc_pid task) msg (world s);
                        if wait task \<noteq> None then
                          do { (out, task', tw', w2) \<leftarrow> probe_sender arch hs task msg' (timers s) w1;
                               let s' = s\<lparr> tasks := (tasks s)(receiver \<mapsto> task'), timers := tw', world := w2 \<rparr>;
                               Some (if out = ProbeHit then s'\<lparr> run_queue := run_queue s' @ [receiver] \<rparr> else s') }
                        else
                          let task1 = task\<lparr> mailbox := mailbox task @ [msg'] \<rparr>
                          in if proc_state task1 = Blocked
                             then Some (s\<lparr> tasks := (tasks s)(receiver \<mapsto> task1\<lparr> proc_state := Ready \<rparr>), world := w1,
                                          run_queue := run_queue s @ [receiver] \<rparr>)
                             else Some (s\<lparr> tasks := (tasks s)(receiver \<mapsto> task1), world := w1 \<rparr>) } }"

section \<open>A quantum\<close>

fun run_call ::
  "TaggedRefArch \<Rightarrow> 'w HeapServices \<Rightarrow> nat \<Rightarrow> 'w Call \<Rightarrow> 'w AotScheduler \<Rightarrow> 'w AotScheduler option" where
  "run_call arch hs pid (Work f) s = Some (s\<lparr> world := f (world s) \<rparr>)"
| "run_call arch hs pid (Spawn closure) s = aot_spawn_hook arch hs pid closure s"
| "run_call arch hs pid (Send receiver msg) s = aot_send_hook arch hs pid receiver msg s"
| "run_call arch hs pid (Halt val) s =
     do { p \<leftarrow> tasks s pid; Some (s\<lparr> tasks := (tasks s)(pid \<mapsto> fz_halt_implicit_i64 val p) \<rparr>) }"
| "run_call arch hs pid ExitFault s =
     do { p \<leftarrow> tasks s pid; Some (s\<lparr> tasks := (tasks s)(pid \<mapsto> fz_exit_fault p) \<rparr>) }"
| "run_call arch hs pid (Park now matcher pins bodies counts arity after cont) s =
     do { p \<leftarrow> tasks s pid;
          (p', tw') \<leftarrow> fz_receive_park_matched arch now matcher pins bodies counts arity after cont p (timers s);
          Some (s\<lparr> tasks := (tasks s)(pid \<mapsto> p'), timers := tw' \<rparr>) }"
| "run_call arch hs pid (YieldMidFlight cont remaining reason) s =
     do { p \<leftarrow> tasks s pid;
          p' \<leftarrow> fz_yield_mid_flight_report arch hs cont remaining reason p (world s);
          Some (s\<lparr> tasks := (tasks s)(pid \<mapsto> p') \<rparr>) }"

fun run_calls ::
  "TaggedRefArch \<Rightarrow> 'w HeapServices \<Rightarrow> nat \<Rightarrow> 'w Call list \<Rightarrow> 'w AotScheduler \<Rightarrow> 'w AotScheduler option" where
  "run_calls arch hs pid [] s = Some s"
| "run_calls arch hs pid (c # cs) s = do { s' \<leftarrow> run_call arch hs pid c s; run_calls arch hs pid cs s' }"

text \<open>Collection at the boundary of a yield: the continuation and the mailbox are the roots.\<close>

definition aot_boundary_gc :: "'w HeapServices \<Rightarrow> nat \<Rightarrow> Process \<Rightarrow> 'w \<Rightarrow> (Process \<times> 'w) option" where
  "aot_boundary_gc hs pid p w =
     (if should_gc hs pid w
      then do { (root, mb, w1) \<leftarrow> gc_process_roots hs pid (runnable_ptr p) (mailbox p) w;
                Some ((set_runnable_closure root (p\<lparr> mailbox := mb \<rparr>))\<lparr> quiet_quanta := 0 \<rparr>, w1) }
      else Some (p\<lparr> quiet_quanta := saturating_add U8_MAX (quiet_quanta p) 1 \<rparr>, w))"

text \<open>The state check behind a quantum: a yield, a receive that may already be satisfied, an exit
  with its destructors, or a block.\<close>

definition post_quantum ::
  "TaggedRefArch \<Rightarrow> 'w HeapServices \<Rightarrow> nat \<Rightarrow> 'w Call list \<Rightarrow> 'w AotScheduler \<Rightarrow> 'w AotScheduler option" where
  "post_quantum arch hs pid dtor_calls s =
     do { p \<leftarrow> tasks s pid;
          if proc_state p = Running \<and> runnable p \<noteq> None then
            do { (p1, w1) \<leftarrow> aot_boundary_gc hs pid p (world s);
                 Some (s\<lparr> tasks := (tasks s)(pid \<mapsto> (clear_yield_reasons p1)\<lparr> proc_state := Ready \<rparr>), world := w1,
                         run_queue := run_queue s @ [pid] \<rparr>) }
          else if proc_state p = Ready then Some (s\<lparr> run_queue := run_queue s @ [pid] \<rparr>)
          else if proc_state p = Running \<and> wait p = None then
            let s' = s\<lparr> tasks := (tasks s)(pid \<mapsto> p\<lparr> proc_state := Exited \<rparr>) \<rparr>
            in if drain_dtor_entry s then run_calls arch hs pid dtor_calls s' else Some s'
          else Some s }"

definition dispatch_quantum ::
  "TaggedRefArch \<Rightarrow> 'w HeapServices \<Rightarrow> nat \<Rightarrow> 'w Call list \<Rightarrow> 'w Call list \<Rightarrow> 'w AotScheduler \<Rightarrow> 'w AotScheduler option" where
  "dispatch_quantum arch hs pid calls dtor_calls s =
     do { p \<leftarrow> tasks s pid;
          let p1 = (reset_reduction_budget (p\<lparr> proc_state := Running \<rparr>))\<lparr> proc_ctx := Some wired \<rparr>;
          (out, p2, tw2, w2) \<leftarrow> initial_scan arch hs p1 (timers s) (world s);
          let s2 = s\<lparr> tasks := (tasks s)(pid \<mapsto> p2), timers := tw2, world := w2 \<rparr>;
          if out = ScanMiss then Some s2
          else case take_runnable_closure p2 of (closure, p3) \<Rightarrow>
            do { let s3 = s2\<lparr> tasks := (tasks s2)(pid \<mapsto> p3) \<rparr>;
                 s4 \<leftarrow> (case closure of None \<Rightarrow> Some s3
                       | Some c \<Rightarrow> do { _ \<leftarrow> to_option (from_heap_object arch CLOSURE c); run_calls arch hs pid calls s3 });
                 post_quantum arch hs pid dtor_calls s4 } }"

section \<open>The run-queue loop\<close>

fun fire_expired :: "TimerEntry list \<Rightarrow> 'w AotScheduler \<Rightarrow> 'w AotScheduler" where
  "fire_expired [] s = s"
| "fire_expired (e # es) s =
     (case tasks s (te_pid e) of None \<Rightarrow> fire_expired es s
      | Some task \<Rightarrow>
          let (woke, task') = fire_after_timer task (te_id e);
              s' = s\<lparr> tasks := (tasks s)(te_pid e \<mapsto> task') \<rparr>
          in fire_expired es (if woke then s'\<lparr> run_queue := run_queue s' @ [te_pid e] \<rparr> else s'))"

definition drain_after_timers_aot :: "nat \<Rightarrow> 'w AotScheduler \<Rightarrow> 'w AotScheduler" where
  "drain_after_timers_aot now s =
     (let (expired, tw) = TimerWheel_drain_expired now (timers s) in fire_expired expired (s\<lparr> timers := tw \<rparr>))"

fun returns_to_scheduler :: "'w Call \<Rightarrow> bool" where
  "returns_to_scheduler (Park _ _ _ _ _ _ _ _) \<longleftrightarrow> True"
| "returns_to_scheduler (YieldMidFlight _ _ _) \<longleftrightarrow> True"
| "returns_to_scheduler _ \<longleftrightarrow> False"

text \<open>The calls of a quantum: the compiled code of a park or a yield returns at once.\<close>

definition quantum_calls :: "'w Call list \<Rightarrow> bool" where
  "quantum_calls cs \<longleftrightarrow> (\<forall>c \<in> set (butlast cs). \<not> returns_to_scheduler c)"

text \<open>
  A turn of the loop.  The destructors of a task that ends are code of the program: they may make any calls, parks and
  yields too, whose results the scheduler drops.  The label of a step is the task whose destructors gave the
  control back in that way, if one did.
\<close>

inductive aot_step :: "TaggedRefArch \<Rightarrow> 'w HeapServices \<Rightarrow> nat set \<Rightarrow> 'w AotScheduler \<Rightarrow> 'w AotScheduler \<Rightarrow> bool"
  for arch hs where
  dispatch: "run_queue (drain_after_timers_aot now s) = pid # rest \<Longrightarrow> quantum_calls calls \<Longrightarrow>
    dispatch_quantum arch hs pid calls dtors ((drain_after_timers_aot now s)\<lparr> run_queue := rest \<rparr>) = Some s' \<Longrightarrow>
    aot_step arch hs (if \<exists>c \<in> set dtors. returns_to_scheduler c then {pid} else {}) s s'"
| sleep: "run_queue (drain_after_timers_aot now s) = [] \<Longrightarrow>
    TimerWheel_next_deadline (timers (drain_after_timers_aot now s)) = Some deadline \<Longrightarrow>
    aot_step arch hs {} s (drain_after_timers_aot now s)"

text \<open>The states of the scheduler, each with the tasks whose destructors have parked or yielded so far.\<close>

definition aot_trace :: "TaggedRefArch \<Rightarrow> 'w HeapServices \<Rightarrow> nat set \<times> 'w AotScheduler \<Rightarrow> nat set \<times> 'w AotScheduler \<Rightarrow> bool" where
  "aot_trace arch hs = (\<lambda>(Z, s) (Z', s'). \<exists>L. aot_step arch hs L s s' \<and> Z' = Z \<union> L)"

definition aot_init :: "'w HeapServices \<Rightarrow> 'w AotScheduler \<Rightarrow> bool" where
  "aot_init hs s \<longleftrightarrow> (\<exists>w s0. fz_aot_setup hs w = Some s0
     \<and> (enqueue_main hs s0 = Some s \<or> enqueue_main hs (fz_aot_set_drain_dtor_entry s0) = Some s))"

end
