(* ===== verification/Fz_AotInv.thy ===== *)
theory Fz_AotInv
  imports Fz_Aot
begin

text \<open>
  The invariant of the process scheduler and its proof.  No wake-up is lost: a task that waits in a
  receive and is not queued has no message its matcher accepts, and its timer is in the wheel; a
  task that is ready or has a continuation is queued.  While a task runs its quantum these clauses
  are suspended for it alone.
\<close>

section \<open>The invariant\<close>

definition timer_ok :: "TimerEntry set \<Rightarrow> Process \<Rightarrow> bool" where
  "timer_ok E t \<longleftrightarrow> (\<forall>park i. wait t = Some park \<longrightarrow> after_timer_id park = Some i \<longrightarrow>
     (\<exists>e \<in> E. te_id e = i \<and> te_pid e = proc_pid t))"

definition settled :: "TaggedRefArch \<Rightarrow> nat set \<Rightarrow> Process \<Rightarrow> bool" where
  "settled arch Q t \<longleftrightarrow>
     (proc_state t = New \<or> proc_state t = Ready \<longrightarrow> proc_pid t \<in> Q) \<and>
     (proc_state t = Running \<or> proc_state t = Blocked \<longrightarrow> wait t \<noteq> None) \<and>
     (proc_state t = Exited \<longrightarrow> wait t = None \<and> runnable t = None) \<and>
     (runnable t \<noteq> None \<longrightarrow> proc_pid t \<in> Q \<and> wait t = None) \<and>
     (\<forall>park. wait t = Some park \<longrightarrow> proc_pid t \<in> Q \<or> (\<forall>m \<in> set (mailbox t). try_match arch park m = None))"

definition core :: "TaggedRefArch \<Rightarrow> TimerEntry set \<Rightarrow> nat set \<Rightarrow> 'w AotScheduler \<Rightarrow> bool" where
  "core arch E X s \<longleftrightarrow> set (run_queue s) \<subseteq> dom (tasks s) \<and>
     (\<forall>pid t. tasks s pid = Some t \<longrightarrow> proc_pid t = pid \<and> pid < next_pid s \<and> timer_ok E t
        \<and> (pid \<notin> X \<longrightarrow> settled arch (set (run_queue s)) t))"

definition sched_inv :: "TaggedRefArch \<Rightarrow> nat set \<Rightarrow> 'w AotScheduler \<Rightarrow> bool" where
  "sched_inv arch X s \<longleftrightarrow> wheel_wf (timers s) \<and> core arch (set (tw_entries (timers s))) X s"

lemma settled_mono: "settled arch Q t \<Longrightarrow> Q \<subseteq> Q' \<Longrightarrow> settled arch Q' t"
  by (auto simp: settled_def)

lemma coreD:
  assumes "core arch E X s" and "tasks s pid = Some t"
  shows "proc_pid t = pid" "pid < next_pid s" "timer_ok E t" "pid \<notin> X \<Longrightarrow> settled arch (set (run_queue s)) t"
  using assms by (auto simp: core_def)

text \<open>The one way every operation changes the state: one task is replaced, the queue may gain it.\<close>

lemma core_update:
  assumes core: "core arch E X s" and t: "tasks s pid = Some t"
    and s': "tasks s' = (tasks s)(pid \<mapsto> t')" "next_pid s' = next_pid s"
    and Q: "set (run_queue s) \<subseteq> set (run_queue s')" "set (run_queue s') \<subseteq> insert pid (set (run_queue s))"
    and t': "proc_pid t' = proc_pid t" "timer_ok E' t'"
    and settled: "pid \<notin> X \<Longrightarrow> settled arch (set (run_queue s')) t'"
    and E: "\<And>e. e \<in> E \<Longrightarrow> te_pid e \<noteq> pid \<Longrightarrow> e \<in> E'"
  shows "core arch E' X s'"
proof -
  have "set (run_queue s') \<subseteq> dom (tasks s')"
    using core Q(2) s'(1) by (auto simp: core_def)
  moreover have "proc_pid u = q \<and> q < next_pid s' \<and> timer_ok E' u \<and> (q \<notin> X \<longrightarrow> settled arch (set (run_queue s')) u)"
    if u: "tasks s' q = Some u" for q u
  proof (cases "q = pid")
    case True
    then show ?thesis
      using u s' t' settled coreD [OF core t] by auto
  next
    case False
    then have "tasks s q = Some u"
      using u s'(1) by simp
    note old = coreD [OF core this]
    have "timer_ok E' u"
      using old(1,3) E False unfolding timer_ok_def by metis
    then show ?thesis
      using old settled_mono [OF old(4) Q(1)] s'(2) by auto
  qed
  ultimately show ?thesis
    by (simp add: core_def)
qed

lemma sched_inv_update:
  assumes "sched_inv arch X s" and "tasks s pid = Some t"
    and "tasks s' = (tasks s)(pid \<mapsto> t')" "next_pid s' = next_pid s"
    and "set (run_queue s) \<subseteq> set (run_queue s')" "set (run_queue s') \<subseteq> insert pid (set (run_queue s))"
    and "proc_pid t' = proc_pid t" "timer_ok (set (tw_entries (timers s'))) t'"
    and "pid \<notin> X \<Longrightarrow> settled arch (set (run_queue s')) t'"
    and "wheel_wf (timers s')"
    and "\<And>e. e \<in> set (tw_entries (timers s)) \<Longrightarrow> te_pid e \<noteq> pid \<Longrightarrow> e \<in> set (tw_entries (timers s'))"
  shows "sched_inv arch X s'"
  using core_update [of arch "set (tw_entries (timers s))" X s pid t s' t' "set (tw_entries (timers s'))"] assms
  by (simp add: sched_inv_def)

lemma sched_invD:
  assumes "sched_inv arch X s" and "tasks s pid = Some t"
  shows "proc_pid t = pid" "pid < next_pid s" "timer_ok (set (tw_entries (timers s))) t"
    "pid \<notin> X \<Longrightarrow> settled arch (set (run_queue s)) t" "wheel_wf (timers s)"
  using coreD [OF _ assms(2)] assms(1) by (auto simp: sched_inv_def)

section \<open>Hits\<close>

lemma timer_cancel_keeps:
  assumes "wheel_wf tw" and "e0 \<in> set (tw_entries tw)" and "te_id e0 = i"
    and "e \<in> set (tw_entries tw)" and "te_pid e \<noteq> te_pid e0"
  shows "e \<in> set (tw_entries (timer_cancel p i tw))"
proof -
  have "e \<noteq> e0"
    using assms(5) by auto
  then have "te_id e \<noteq> i"
    using assms(1-4) unfolding wheel_wf_def distinct_map by (metis inj_onD)
  then show ?thesis
    using assms(1,4) by (auto simp: timer_cancel_def cancel_filter split: option.split)
qed

lemma timer_cancel_wf: "wheel_wf tw \<Longrightarrow> wheel_wf (timer_cancel p i tw)"
  by (auto simp: timer_cancel_def cancel_filter wheel_wf_filter split: option.split)

lemma resume_hit_effect:
  assumes "resume_hit hs task park i bs tw w = Some (task', tw', w')"
  obtains cont where "task' = task\<lparr> wait := None, runnable := ClosureRef_new cont \<rparr>"
    and "tw' = (case after_timer_id park of Some i \<Rightarrow> timer_cancel (task\<lparr> wait := None \<rparr>) i tw | None \<Rightarrow> tw)"
  using assms by (auto simp: resume_hit_def set_runnable_closure_def Let_def split: if_splits Option.bind_splits)

lemma resume_hit_timers:
  assumes "resume_hit hs task park i bs tw w = Some (task', tw', w')" and "wheel_wf tw"
    and "wait task = Some park" and "timer_ok (set (tw_entries tw)) task"
  shows "wheel_wf tw'" and "\<And>e. e \<in> set (tw_entries tw) \<Longrightarrow> te_pid e \<noteq> proc_pid task \<Longrightarrow> e \<in> set (tw_entries tw')"
proof -
  obtain cont where tw': "tw' = (case after_timer_id park of Some i \<Rightarrow> timer_cancel (task\<lparr> wait := None \<rparr>) i tw | None \<Rightarrow> tw)"
    using resume_hit_effect [OF assms(1)] by metis
  show "wheel_wf tw'"
    using tw' assms(2) timer_cancel_wf by (auto split: option.split)
  show "e \<in> set (tw_entries tw')" if "e \<in> set (tw_entries tw)" "te_pid e \<noteq> proc_pid task" for e
  proof (cases "after_timer_id park")
    case (Some j)
    then obtain e0 where "e0 \<in> set (tw_entries tw)" "te_id e0 = j" "te_pid e0 = proc_pid task"
      using assms(3,4) by (auto simp: timer_ok_def)
    then show ?thesis
      using timer_cancel_keeps [OF assms(2)] that tw' Some by simp
  qed (use that tw' in simp)
qed

lemma timer_ok_no_wait: "wait t = None \<Longrightarrow> timer_ok E t"
  by (simp add: timer_ok_def)

section \<open>The hooks keep the invariant\<close>

lemma send_probe_inv:
  assumes inv: "sched_inv arch X s" and t: "tasks s r = Some t"
    and probe: "probe_sender arch hs t m (timers s) w = Some (out, t', tw', w')"
    and park: "wait t = Some park"
  shows "sched_inv arch X (s\<lparr> tasks := (tasks s)(r \<mapsto> t'), timers := tw', world := w',
    run_queue := run_queue s @ (if out = ProbeHit then [r] else []) \<rparr>)"
proof (cases "try_match arch park m")
  case None
  then have out: "out = ProbeMiss" "t' = t\<lparr> mailbox := mailbox t @ [m] \<rparr>" "tw' = timers s"
    using probe park by (auto simp: probe_sender_def)
  have "settled arch (set (run_queue s)) t'" if "r \<notin> X"
    using sched_invD(4) [OF inv t that] None park out(2) by (auto simp: settled_def)
  then show ?thesis
    using inv t out sched_invD(1,3,5) [OF inv t] by (intro sched_inv_update [OF inv t, where t' = t']) (auto simp: timer_ok_def)
next
  case (Some h)
  then obtain i bs t1 where hit: "resume_hit hs t park i bs (timers s) w = Some (t1, tw', w')" "out = ProbeHit"
      "t' = t1\<lparr> proc_state := Ready \<rparr>"
    using probe park by (cases h) (auto simp: probe_sender_def split: Option.bind_splits)
  obtain cont where t1: "t1 = t\<lparr> wait := None, runnable := ClosureRef_new cont \<rparr>"
    using resume_hit_effect [OF hit(1)] by metis
  note timers = resume_hit_timers [OF hit(1) sched_invD(5) [OF inv t] park sched_invD(3) [OF inv t]]
  show ?thesis
    using hit(2,3) t1 timers sched_invD(1) [OF inv t]
    by (intro sched_inv_update [OF inv t, where t' = t']) (auto simp: settled_def timer_ok_no_wait)
qed

lemma aot_send_inv:
  assumes inv: "sched_inv arch X s" and send: "aot_send_hook arch hs sender r word s = Some s'"
  shows "sched_inv arch X s'"
proof (cases "tasks s r")
  case None
  then show ?thesis
    using inv send by (auto simp: aot_send_hook_def split: Option.bind_splits)
next
  case (Some t)
  obtain msg where msg: "to_option (from_raw_word arch word) = Some msg"
    using send by (auto simp: aot_send_hook_def split: Option.bind_splits)
  show ?thesis
  proof (cases "proc_state t = Exited")
    case True
    then show ?thesis
      using inv send Some msg by (simp add: aot_send_hook_def)
  next
    case False
    then obtain m w1 where copy: "deep_copy hs sender (proc_pid t) msg (world s) = Some (m, w1)"
      using send Some msg by (auto simp: aot_send_hook_def split: Option.bind_splits)
    show ?thesis
    proof (cases "wait t")
      case None
      define t2 where "t2 = t\<lparr> mailbox := mailbox t @ [m], proc_state := (if proc_state t = Blocked then Ready else proc_state t) \<rparr>"
      define rq where "rq = run_queue s @ (if proc_state t = Blocked then [r] else [])"
      have s': "s' = s\<lparr> tasks := (tasks s)(r \<mapsto> t2), world := w1, run_queue := rq \<rparr>"
        using send Some msg False copy None by (auto simp: aot_send_hook_def Let_def t2_def rq_def)
      have q: "set (run_queue s) \<subseteq> set rq" "set rq \<subseteq> insert r (set (run_queue s))"
        by (auto simp: rq_def)
      have "settled arch (set rq) t2" if "r \<notin> X"
      proof (rule settled_mono [OF _ q(1)])
        show "settled arch (set (run_queue s)) t2"
          using sched_invD(4) [OF inv Some that] None by (auto simp: settled_def t2_def)
      qed
      then have "settled arch (set (run_queue s')) t2" if "r \<notin> X"
        using that s' by simp
      moreover have "proc_pid t2 = proc_pid t" "timer_ok (set (tw_entries (timers s'))) t2"
        using None by (simp_all add: t2_def timer_ok_def)
      moreover have "tasks s' = (tasks s)(r \<mapsto> t2)" "next_pid s' = next_pid s" "timers s' = timers s" "run_queue s' = rq"
        using s' by simp_all
      ultimately show ?thesis
        using sched_inv_update [OF inv Some, of s' t2] q sched_invD(5) [OF inv Some] by simp
    next
      case (Some park)
      then obtain out t' tw' w2 where probe: "probe_sender arch hs t m (timers s) w1 = Some (out, t', tw', w2)"
          "s' = s\<lparr> tasks := (tasks s)(r \<mapsto> t'), timers := tw', world := w2,
              run_queue := run_queue s @ (if out = ProbeHit then [r] else []) \<rparr>"
        using send \<open>tasks s r = Some t\<close> msg False copy Some
        by (auto simp: aot_send_hook_def Let_def split: Option.bind_splits if_splits)
      show ?thesis
        unfolding probe(2) by (rule send_probe_inv [OF inv \<open>tasks s r = Some t\<close> probe(1) Some])
    qed
  qed
qed

lemma aot_spawn_inv:
  assumes inv: "sched_inv arch X s" and spawn: "aot_spawn_hook arch hs sender closure s = Some s'"
  shows "sched_inv arch X s'"
proof -
  obtain thunk w where s': "s' = s\<lparr> next_pid := next_pid s + 1,
      tasks := (tasks s)(next_pid s \<mapsto> (set_runnable_closure thunk (Process_new (next_pid s) DEFAULT_REDUCTIONS_PER_QUANTUM))
        \<lparr> proc_state := Ready \<rparr>), world := w, run_queue := run_queue s @ [next_pid s] \<rparr>"
    using spawn by (auto simp: aot_spawn_hook_def Let_def split: Option.bind_splits)
  define c where "c = (set_runnable_closure thunk (Process_new (next_pid s) DEFAULT_REDUCTIONS_PER_QUANTUM))\<lparr> proc_state := Ready \<rparr>"
  have c: "proc_pid c = next_pid s" "timer_ok E c" "settled arch (insert (next_pid s) (set (run_queue s))) c" for E
    by (simp_all add: c_def settled_def timer_ok_def Process_new_def set_runnable_closure_def)
  have core: "core arch (set (tw_entries (timers s))) X s" and wf: "wheel_wf (timers s)"
    using inv by (simp_all add: sched_inv_def)
  have "proc_pid u = q \<and> q < next_pid s + 1 \<and> timer_ok (set (tw_entries (timers s))) u
      \<and> (q \<notin> X \<longrightarrow> settled arch (insert (next_pid s) (set (run_queue s))) u)"
    if u: "((tasks s)(next_pid s \<mapsto> c)) q = Some u" for q u
  proof (cases "q = next_pid s")
    case True
    then show ?thesis
      using u c by simp
  next
    case False
    then have "tasks s q = Some u"
      using u by simp
    note old = coreD [OF core this]
    have "settled arch (insert (next_pid s) (set (run_queue s))) u" if "q \<notin> X"
      by (rule settled_mono [OF old(4) [OF that]]) blast
    then show ?thesis
      using old by simp
  qed
  moreover have "set (run_queue s) \<subseteq> dom (tasks s)"
    using core by (simp add: core_def)
  ultimately show ?thesis
    using wf unfolding s' c_def [symmetric] sched_inv_def core_def by auto
qed

section \<open>A running task\<close>

text \<open>The fields of the running task that the calls before a park or a yield leave alone.\<close>

definition same_turn :: "Process \<Rightarrow> Process \<Rightarrow> bool" where
  "same_turn t t' \<longleftrightarrow> proc_state t' = proc_state t \<and> wait t' = wait t \<and> runnable t' = runnable t"

lemma aot_send_self:
  assumes "aot_send_hook arch hs sender r word s = Some s'" and "tasks s pid = Some t"
    and "wait t = None" and "proc_state t \<noteq> Blocked"
  shows "\<exists>t'. tasks s' pid = Some t' \<and> same_turn t t'"
proof (cases "r = pid")
  case True
  then show ?thesis
    using assms by (auto simp: aot_send_hook_def same_turn_def Let_def split: Option.bind_splits if_splits)
next
  case False
  then have "tasks s' pid = tasks s pid"
    using assms(1) by (auto simp: aot_send_hook_def Let_def split: Option.bind_splits option.splits if_splits)
  then show ?thesis
    using assms(2) by (simp add: same_turn_def)
qed

lemma timer_schedule_wheel:
  assumes "timer_schedule now p pid after tw = (i, tw')" and "wheel_wf tw"
  shows "wheel_wf tw'" and "set (tw_entries tw) \<subseteq> set (tw_entries tw')"
    and "i = Some j \<Longrightarrow> \<exists>e \<in> set (tw_entries tw'). te_id e = j \<and> te_pid e = pid"
proof -
  consider "i = None" "tw' = tw" | j where "i = Some j" "TimerWheel_schedule now pid after tw = (j, tw')"
    using assms(1) by (auto simp: timer_schedule_def split: option.splits if_splits prod.splits)
  then have "wheel_wf tw' \<and> set (tw_entries tw) \<subseteq> set (tw_entries tw')
      \<and> (i = Some j \<longrightarrow> (\<exists>e \<in> set (tw_entries tw'). te_id e = j \<and> te_pid e = pid))"
  proof cases
    case (2 k)
    obtain before rest where "tw_entries tw = before @ rest" "wheel_wf tw'"
      "tw_entries tw' = before @ \<lparr> te_id = k, te_deadline = now + after, te_pid = pid \<rparr> # rest"
      using schedule_entries [OF assms(2) 2(2)] by metis
    then show ?thesis
      using 2(1) by auto
  qed (use assms(2) in simp)
  then show "wheel_wf tw'" "set (tw_entries tw) \<subseteq> set (tw_entries tw')"
    "i = Some j \<Longrightarrow> \<exists>e \<in> set (tw_entries tw'). te_id e = j \<and> te_pid e = pid"
    by blast+
qed

lemma park_effect:
  assumes "fz_receive_park_matched arch now matcher pins bodies counts arity after cont p tw = Some (p', tw')"
  shows "\<exists>park. p' = p\<lparr> wait := Some park, proc_state := (if mailbox p = [] then Blocked else Ready) \<rparr>
    \<and> ((after_timer_id park, tw') = (None, tw) \<or> (\<exists>ms. timer_schedule now p (proc_pid p) ms tw = (after_timer_id park, tw')))"
proof -
  define ms where "ms = (if after < 0 then None else Some (nat after))"
  obtain i tw2 where i: "(case ms of Some ms \<Rightarrow> timer_schedule now p (proc_pid p) ms tw | None \<Rightarrow> (None, tw)) = (i, tw2)"
    by fastforce
  then have "(i, tw2) = (None, tw) \<or> (\<exists>ms. timer_schedule now p (proc_pid p) ms tw = (i, tw2))"
    by (cases ms) auto
  moreover have "\<exists>park. p' = p\<lparr> wait := Some park, proc_state := (if mailbox p = [] then Blocked else Ready) \<rparr>
      \<and> after_timer_id park = i \<and> tw' = tw2"
    using assms unfolding fz_receive_park_matched_def ms_def [symmetric] Let_def i
    by (auto split: Option.bind_splits)
  ultimately show ?thesis
    by auto
qed

lemma yield_report_fields [simp]:
  "proc_pid (finish_yield_report remaining reason p) = proc_pid p"
  "proc_state (finish_yield_report remaining reason p) = proc_state p"
  "wait (finish_yield_report remaining reason p) = wait p"
  "proc_pid (note_yield_continuation_allocation observed margin p) = proc_pid p"
  "proc_state (note_yield_continuation_allocation observed margin p) = proc_state p"
  "wait (note_yield_continuation_allocation observed margin p) = wait p"
  by (simp_all add: finish_yield_report_def note_yield_continuation_allocation_def Let_def)

text \<open>While a task runs nothing is asked of it, so no call of it disturbs the others.\<close>

lemma run_call_keeps:
  assumes "run_call arch hs pid c s = Some s'" and inv: "sched_inv arch X s" and t: "tasks s pid = Some t" and "pid \<in> X"
  shows "sched_inv arch X s' \<and> tasks s' pid \<noteq> None"
proof (cases c)
  case (Work f)
  then show ?thesis
    using assms(1) inv t by (auto simp: sched_inv_def core_def)
next
  case (Spawn closure)
  then have "tasks s' pid \<noteq> None"
    using assms(1) t by (auto simp: aot_spawn_hook_def Let_def split: Option.bind_splits)
  then show ?thesis
    using assms(1) Spawn aot_spawn_inv [OF inv] by auto
next
  case (Send r word)
  then have "tasks s' pid \<noteq> None"
    using assms(1) t by (auto simp: aot_send_hook_def Let_def split: Option.bind_splits option.splits if_splits)
  then show ?thesis
    using assms(1) Send aot_send_inv [OF inv] by auto
next
  case (Halt val)
  then have "s' = s\<lparr> tasks := (tasks s)(pid \<mapsto> t\<lparr> halt_value := val \<rparr>) \<rparr>"
    using assms(1) t by (simp add: fz_halt_implicit_i64_def)
  then show ?thesis
    using sched_inv_update [OF inv t, of s' "t\<lparr> halt_value := val \<rparr>"] sched_invD(3,5) [OF inv t] assms(4)
    by (simp add: timer_ok_def subset_insertI)
next
  case ExitFault
  then have "s' = s\<lparr> tasks := (tasks s)(pid \<mapsto> t\<lparr> exit_fault := Some (word_of_int (halt_value t)) \<rparr>) \<rparr>"
    using assms(1) t by (simp add: fz_exit_fault_def)
  then show ?thesis
    using sched_inv_update [OF inv t, of s' "t\<lparr> exit_fault := Some (word_of_int (halt_value t)) \<rparr>"] sched_invD(3,5) [OF inv t] assms(4)
    by (simp add: timer_ok_def subset_insertI)
next
  case (Park now matcher pins bodies counts arity after cont)
  obtain t' tw' where p: "fz_receive_park_matched arch now matcher pins bodies counts arity after cont t (timers s) = Some (t', tw')"
      "s' = s\<lparr> tasks := (tasks s)(pid \<mapsto> t'), timers := tw' \<rparr>"
    using assms(1) Park t by (auto split: Option.bind_splits)
  obtain park where park: "t' = t\<lparr> wait := Some park, proc_state := (if mailbox t = [] then Blocked else Ready) \<rparr>"
      "(after_timer_id park, tw') = (None, timers s) \<or> (\<exists>ms. timer_schedule now t (proc_pid t) ms (timers s) = (after_timer_id park, tw'))"
    using park_effect [OF p(1)] by blast
  have wheel: "wheel_wf tw'" "set (tw_entries (timers s)) \<subseteq> set (tw_entries tw')"
      "\<And>j. after_timer_id park = Some j \<Longrightarrow> \<exists>e \<in> set (tw_entries tw'). te_id e = j \<and> te_pid e = proc_pid t"
    using park(2) timer_schedule_wheel [OF _ sched_invD(5) [OF inv t]] sched_invD(5) [OF inv t] by fastforce+
  have "timer_ok (set (tw_entries tw')) t'"
    using wheel(3) park(1) by (auto simp: timer_ok_def)
  then have "sched_inv arch X s'"
    using p(2) park(1) wheel(1) subsetD [OF wheel(2)] assms(4) by (intro sched_inv_update [OF inv t, of s' t']) auto
  then show ?thesis
    using p(2) by simp
next
  case (YieldMidFlight cont remaining reason)
  then obtain t' where s': "s' = s\<lparr> tasks := (tasks s)(pid \<mapsto> t') \<rparr>"
      "fz_yield_mid_flight_report arch hs cont remaining reason t (world s) = Some t'"
    using assms(1) t by (auto split: Option.bind_splits)
  then have t': "proc_pid t' = proc_pid t" "wait t' = wait t"
    by (auto simp: fz_yield_mid_flight_report_def Let_def set_runnable_closure_def split: Option.bind_splits)
  then have "sched_inv arch X s'"
    using sched_inv_update [OF inv t, of s' t'] s'(1) sched_invD(3,5) [OF inv t] assms(4)
    by (simp add: timer_ok_def subset_insertI)
  then show ?thesis
    using s'(1) by simp
qed

lemma run_calls_keeps:
  assumes "run_calls arch hs pid cs s = Some s'" and "sched_inv arch X s" and "tasks s pid \<noteq> None" and "pid \<in> X"
  shows "sched_inv arch X s' \<and> tasks s' pid \<noteq> None"
  using assms
proof (induction cs arbitrary: s)
  case (Cons c cs)
  then obtain s1 where s1: "run_call arch hs pid c s = Some s1" "run_calls arch hs pid cs s1 = Some s'"
    by (auto split: Option.bind_splits)
  then have "sched_inv arch X s1 \<and> tasks s1 pid \<noteq> None"
    using run_call_keeps Cons.prems(2-4) by blast
  then show ?case
    using Cons.IH [OF s1(2)] Cons.prems(4) by blast
qed auto

lemma run_call_turn:
  assumes "\<not> returns_to_scheduler c" and "run_call arch hs pid c s = Some s'" and "pid < next_pid s"
    and t: "tasks s pid = Some t" "wait t = None" "proc_state t \<noteq> Blocked"
  shows "\<exists>t'. tasks s' pid = Some t' \<and> same_turn t t'"
proof (cases c)
  case (Send r word)
  then show ?thesis
    using aot_send_self [of arch hs pid r word s s' pid t] assms(2) t by simp
qed (use assms in \<open>auto simp: same_turn_def aot_spawn_hook_def fz_halt_implicit_i64_def fz_exit_fault_def Let_def split: Option.bind_splits\<close>)

lemma run_calls_turn:
  assumes "\<forall>c \<in> set cs. \<not> returns_to_scheduler c" and "run_calls arch hs pid cs s = Some s'" and "sched_inv arch X s" "pid \<in> X"
    and "tasks s pid = Some t" "wait t = None" "proc_state t \<noteq> Blocked"
  shows "\<exists>t'. tasks s' pid = Some t' \<and> same_turn t t'"
  using assms
proof (induction cs arbitrary: s t)
  case (Cons c cs)
  obtain s1 where s1: "run_call arch hs pid c s = Some s1" "run_calls arch hs pid cs s1 = Some s'"
    using Cons.prems(2) by (auto split: Option.bind_splits)
  have inv1: "sched_inv arch X s1"
    using run_call_keeps [OF s1(1) Cons.prems(3,5,4)] by simp
  obtain t1 where t1: "tasks s1 pid = Some t1" "same_turn t t1"
    using run_call_turn [OF _ s1(1) sched_invD(2) [OF Cons.prems(3,5)] Cons.prems(5-7)] Cons.prems(1) by auto
  then have "\<exists>t'. tasks s' pid = Some t' \<and> same_turn t1 t'"
    using Cons.IH [OF _ s1(2) inv1 Cons.prems(4) t1(1)] Cons.prems(1,6,7) by (simp add: same_turn_def)
  then show ?case
    using t1(2) by (auto simp: same_turn_def)
qed (auto simp: same_turn_def)

lemma run_calls_append:
  "run_calls arch hs pid (cs @ ds) s = Option.bind (run_calls arch hs pid cs s) (run_calls arch hs pid ds)"
  by (induction cs arbitrary: s) (auto split: Option.bind_split)

section \<open>The end of a quantum\<close>

text \<open>How a task may look when its quantum ends.\<close>

definition turn_over :: "Process \<Rightarrow> bool" where
  "turn_over t \<longleftrightarrow> proc_state t = Running \<and> wait t = None
     \<or> wait t \<noteq> None \<and> runnable t = None \<and>
         (proc_state t = Ready \<or> (proc_state t = Blocked \<or> proc_state t = Running) \<and> mailbox t = [])"

lemma last_call_turn:
  assumes "returns_to_scheduler c" and "run_call arch hs pid c s = Some s'"
    and t: "tasks s pid = Some t" "proc_state t = Running" "wait t = None" "runnable t = None"
  shows "\<exists>t'. tasks s' pid = Some t' \<and> turn_over t'"
proof (cases c)
  case (Park now matcher pins bodies counts arity after cont)
  obtain t' tw' where p: "fz_receive_park_matched arch now matcher pins bodies counts arity after cont t (timers s) = Some (t', tw')"
      "s' = s\<lparr> tasks := (tasks s)(pid \<mapsto> t'), timers := tw' \<rparr>"
    using assms(2) Park t(1) by (auto split: Option.bind_splits)
  then show ?thesis
    using park_effect [OF p(1)] t by (auto simp: turn_over_def split: if_splits)
next
  case (YieldMidFlight cont remaining reason)
  then obtain t' where s': "s' = s\<lparr> tasks := (tasks s)(pid \<mapsto> t') \<rparr>"
      "fz_yield_mid_flight_report arch hs cont remaining reason t (world s) = Some t'"
    using assms(2) t(1) by (auto split: Option.bind_splits)
  then have "proc_state t' = Running" "wait t' = None"
    using t by (auto simp: fz_yield_mid_flight_report_def Let_def set_runnable_closure_def split: Option.bind_splits)
  then show ?thesis
    using s'(1) by (simp add: turn_over_def)
qed (use assms(1) in simp_all)

lemma quantum_turn:
  assumes "quantum_calls cs" and "run_calls arch hs pid cs s = Some s'" and inv: "sched_inv arch X s" "pid \<in> X"
    and t: "tasks s pid = Some t" "proc_state t = Running" "wait t = None" "runnable t = None"
  shows "\<exists>t'. tasks s' pid = Some t' \<and> turn_over t'"
proof (cases cs rule: rev_cases)
  case Nil
  then show ?thesis
    using assms(2) t by (auto simp: turn_over_def)
next
  case (snoc ds c)
  obtain s1 where s1: "run_calls arch hs pid ds s = Some s1" "run_call arch hs pid c s1 = Some s'"
    using assms(2) snoc by (auto simp: run_calls_append split: Option.bind_splits)
  have "\<forall>d \<in> set ds. \<not> returns_to_scheduler d"
    using assms(1) snoc by (simp add: quantum_calls_def)
  then obtain t1 where t1: "tasks s1 pid = Some t1" "same_turn t t1"
    using run_calls_turn [OF _ s1(1) inv t(1)] t by auto
  have inv1: "sched_inv arch X s1"
    using run_calls_keeps [OF s1(1) inv(1) _ inv(2)] t(1) by simp
  show ?thesis
  proof (cases "returns_to_scheduler c")
    case True
    then show ?thesis
      using last_call_turn [OF True s1(2) t1(1)] t1(2) t by (simp add: same_turn_def)
  next
    case False
    then show ?thesis
      using run_call_turn [OF False s1(2) sched_invD(2) [OF inv1 t1(1)] t1(1)] t1(2) t by (auto simp: same_turn_def turn_over_def)
  qed
qed

lemma sched_inv_close:
  assumes "sched_inv arch (insert pid X) s" and "tasks s pid = Some t" and "settled arch (set (run_queue s)) t"
  shows "sched_inv arch X s"
  using assms unfolding sched_inv_def core_def by (metis insert_iff option.inject)

lemma aot_boundary_fields:
  "aot_boundary_gc hs pid p w = Some (p', w') \<Longrightarrow> proc_pid p' = proc_pid p \<and> wait p' = wait p"
  by (auto simp: aot_boundary_gc_def set_runnable_closure_def split: Option.bind_splits if_splits)

text \<open>The branches behind a quantum.\<close>

lemma post_quantum_cases:
  assumes "post_quantum arch hs pid dtors s = Some s'" and "tasks s pid = Some t"
  obtains (yield) t' w1 where "proc_state t = Running" "runnable t \<noteq> None" "proc_pid t' = proc_pid t" "wait t' = wait t"
      "s' = s\<lparr> tasks := (tasks s)(pid \<mapsto> t'\<lparr> proc_state := Ready \<rparr>), world := w1, run_queue := run_queue s @ [pid] \<rparr>"
  | (ready) "proc_state t = Ready" "s' = s\<lparr> run_queue := run_queue s @ [pid] \<rparr>"
  | (exit) "proc_state t = Running" "runnable t = None" "wait t = None"
      "s' = s\<lparr> tasks := (tasks s)(pid \<mapsto> t\<lparr> proc_state := Exited \<rparr>) \<rparr>
       \<or> run_calls arch hs pid dtors (s\<lparr> tasks := (tasks s)(pid \<mapsto> t\<lparr> proc_state := Exited \<rparr>) \<rparr>) = Some s'"
  | (blocked) "s' = s" "proc_state t \<noteq> Ready" "proc_state t = Running \<longrightarrow> runnable t = None \<and> wait t \<noteq> None"
proof -
  consider "proc_state t = Running" "runnable t \<noteq> None" | "proc_state t = Ready"
    | "proc_state t = Running" "runnable t = None" "wait t = None"
    | "proc_state t \<noteq> Ready" "proc_state t = Running \<longrightarrow> runnable t = None \<and> wait t \<noteq> None"
    by (cases "proc_state t"; cases "runnable t"; cases "wait t") auto
  then show thesis
  proof cases
    case 1
    then obtain p1 w1 where gc: "aot_boundary_gc hs pid t (world s) = Some (p1, w1)"
      and s': "s' = s\<lparr> tasks := (tasks s)(pid \<mapsto> (clear_yield_reasons p1)\<lparr> proc_state := Ready \<rparr>), world := w1, run_queue := run_queue s @ [pid] \<rparr>"
      using assms by (auto simp: post_quantum_def split: Option.bind_splits)
    show thesis
      by (rule yield [OF 1 _ _ s']) (use aot_boundary_fields [OF gc] in \<open>simp_all add: clear_yield_reasons_def\<close>)
  next
    case 2
    then show thesis
      using assms ready by (simp add: post_quantum_def)
  next
    case 3
    then show thesis
      using assms exit by (simp add: post_quantum_def Let_def split: if_splits)
  next
    case 4
    then show thesis
      using assms blocked by (auto simp: post_quantum_def split: if_splits)
  qed
qed

lemma post_quantum_keeps:
  assumes inv: "sched_inv arch X s" "pid \<in> X" and t: "tasks s pid = Some t" and post: "post_quantum arch hs pid dtors s = Some s'"
  shows "sched_inv arch X s'"
  using post t
proof (cases rule: post_quantum_cases)
  case (yield t' w1)
  then show ?thesis
    using sched_inv_update [OF inv(1) t, of s' "t'\<lparr> proc_state := Ready \<rparr>"] sched_invD(3,5) [OF inv(1) t] inv(2)
    by (auto simp: timer_ok_def)
next
  case ready
  then show ?thesis
    using sched_inv_update [OF inv(1) t, of s' t] sched_invD(3,5) [OF inv(1) t] inv(2) t by (auto simp: fun_upd_idem)
next
  case exit
  let ?s = "s\<lparr> tasks := (tasks s)(pid \<mapsto> t\<lparr> proc_state := Exited \<rparr>) \<rparr>"
  have "sched_inv arch X ?s"
    using sched_inv_update [OF inv(1) t, of ?s "t\<lparr> proc_state := Exited \<rparr>"] sched_invD(5) [OF inv(1) t] exit(3) inv(2)
    by (simp add: timer_ok_no_wait subset_insertI)
  then show ?thesis
    using exit(4) run_calls_keeps [of arch hs pid dtors ?s s' X] inv(2) by auto
qed (use inv in simp)

text \<open>Where its destructors return, the task that ends its quantum is settled again.\<close>

lemma post_quantum_settles:
  assumes inv: "sched_inv arch X s" "pid \<in> X" and t: "tasks s pid = Some t" "turn_over t"
    and post: "post_quantum arch hs pid dtors s = Some s'" and "\<forall>c \<in> set dtors. \<not> returns_to_scheduler c"
  shows "\<exists>t'. tasks s' pid = Some t' \<and> settled arch (set (run_queue s')) t'"
proof -
  have pid: "proc_pid t = pid"
    using sched_invD(1) [OF inv(1) t(1)] .
  from post t(1) show ?thesis
  proof (cases rule: post_quantum_cases)
    case (yield t' w1)
    then show ?thesis
      using t(2) pid by (auto simp: settled_def turn_over_def)
  next
    case ready
    then show ?thesis
      using t pid by (auto simp: settled_def turn_over_def)
  next
    case exit
    let ?s = "s\<lparr> tasks := (tasks s)(pid \<mapsto> t\<lparr> proc_state := Exited \<rparr>) \<rparr>"
    have "sched_inv arch X ?s"
      using sched_inv_update [OF inv(1) t(1), of ?s "t\<lparr> proc_state := Exited \<rparr>"] sched_invD(5) [OF inv(1) t(1)] exit(3) inv(2)
      by (simp add: timer_ok_no_wait subset_insertI)
    then have "\<exists>t'. tasks s' pid = Some t' \<and> same_turn (t\<lparr> proc_state := Exited \<rparr>) t'"
      using exit(3,4) run_calls_turn [OF assms(6), of arch hs pid ?s s' X "t\<lparr> proc_state := Exited \<rparr>"] inv(2) by (auto simp: same_turn_def)
    then show ?thesis
      using exit(2,3) by (auto simp: settled_def same_turn_def)
  next
    case blocked
    then show ?thesis
      using t by (auto simp: settled_def turn_over_def)
  qed
qed

section \<open>A turn of the loop\<close>

lemma sched_inv_pop:
  assumes "sched_inv arch X s" and "run_queue s = pid # rest"
  shows "sched_inv arch (insert pid X) (s\<lparr> run_queue := rest \<rparr>)"
proof -
  have "settled arch (set rest) u" if "tasks s q = Some u" "q \<noteq> pid" "q \<notin> X" for q u
    using sched_invD(1,4) [OF assms(1) that(1)] that(2,3) assms(2) by (auto simp: settled_def)
  then show ?thesis
    using assms by (auto simp: sched_inv_def core_def)
qed

lemma scan_cases:
  assumes "initial_scan arch hs p tw w = Some (out, p', tw', w')"
  obtains (none) "out = NotApplicable" "p' = p" "tw' = tw" "wait p = None \<or> mailbox p = []"
  | (miss) park where "out = ScanMiss" "wait p = Some park" "p' = p\<lparr> proc_state := Blocked \<rparr>" "tw' = tw"
      "\<forall>m \<in> set (mailbox p). try_match arch park m = None"
  | (hit) park i bs rest where "out = ScanHit" "wait p = Some park"
      "resume_hit hs (p\<lparr> mailbox := rest \<rparr>) park i bs tw w = Some (p', tw', w')"
proof (cases "wait p = None \<or> mailbox p = []")
  case True
  then show thesis
    using assms none by (auto simp: initial_scan_def split: option.splits)
next
  case False
  then obtain park where park: "wait p = Some park" "mailbox p \<noteq> []"
    by auto
  show thesis
  proof (cases "receive_first (try_match arch park) (mailbox p)")
    case None
    then have "\<forall>m \<in> set (mailbox p). try_match arch park m = None"
      by (simp add: receive_first_none)
    then show thesis
      using assms miss [OF _ park(1)] None by (simp add: initial_scan_eq [OF park])
  next
    case (Some r)
    obtain i bs rest where "r = ((i, bs), rest)"
      by (metis surj_pair)
    then show thesis
      using assms hit [OF _ park(1), of rest i bs] Some by (auto simp: initial_scan_eq [OF park])
  qed
qed

text \<open>A quantum up to the run of the task's code.\<close>

lemma dispatch_quantum_phases:
  assumes inv: "sched_inv arch X s" "pid \<in> X" and t: "tasks s pid = Some t"
    and run: "dispatch_quantum arch hs pid calls dtors s = Some s'"
  obtains (missed) p2 where "sched_inv arch X s'" "tasks s' pid = Some p2" "run_queue s' = run_queue s"
      "proc_state p2 = Blocked" "wait p2 = wait t" "wait t \<noteq> None" "runnable p2 = runnable t"
      "\<And>park. wait p2 = Some park \<Longrightarrow> \<forall>m \<in> set (mailbox p2). try_match arch park m = None"
  | (ran) s3 p3 s4 where "sched_inv arch X s3" "tasks s3 pid = Some p3" "proc_state p3 = Running" "runnable p3 = None"
      "s4 = s3 \<and> ((wait t = None \<or> runnable t = None) \<longrightarrow> turn_over p3)
       \<or> run_calls arch hs pid calls s3 = Some s4 \<and> ((wait t = None \<or> runnable t = None) \<longrightarrow> wait p3 = None)"
      "post_quantum arch hs pid dtors s4 = Some s'"
proof -
  define p1 where "p1 = (reset_reduction_budget (t\<lparr> proc_state := Running \<rparr>))\<lparr> proc_ctx := Some wired \<rparr>"
  have p1: "proc_pid p1 = proc_pid t" "proc_state p1 = Running" "wait p1 = wait t" "runnable p1 = runnable t" "mailbox p1 = mailbox t"
    by (simp_all add: p1_def reset_reduction_budget_def)
  obtain out p2 tw2 w2 where scan: "initial_scan arch hs p1 (timers s) (world s) = Some (out, p2, tw2, w2)"
    using run t by (auto simp: dispatch_quantum_def p1_def Let_def split: Option.bind_splits)
  define s2 where "s2 = s\<lparr> tasks := (tasks s)(pid \<mapsto> p2), timers := tw2, world := w2 \<rparr>"
  define s3 where "s3 = s2\<lparr> tasks := (tasks s2)(pid \<mapsto> p2\<lparr> runnable := None \<rparr>) \<rparr>"
  note old = sched_invD [OF inv(1) t]
  have ok1: "timer_ok (set (tw_entries (timers s))) p1"
    using old(3) p1 by (simp add: timer_ok_def)
  have scanned: "sched_inv arch X s2 \<and> (out \<noteq> ScanMiss \<longrightarrow> proc_state p2 = Running \<and>
      ((wait t = None \<or> runnable t = None) \<longrightarrow> wait p2 = None \<or> runnable p2 = None \<and> mailbox p2 = [])) \<and>
      (out = ScanMiss \<longrightarrow> proc_state p2 = Blocked \<and> wait p2 = wait t \<and> wait t \<noteq> None \<and> runnable p2 = runnable t \<and>
        (\<forall>park. wait p2 = Some park \<longrightarrow> (\<forall>m \<in> set (mailbox p2). try_match arch park m = None)))"
    using scan
  proof (cases rule: scan_cases)
    case none
    then have "sched_inv arch X s2"
      using sched_inv_update [OF inv(1) t, of s2 p1] ok1 old(5) p1 inv(2) by (simp add: s2_def subset_insertI)
    then show ?thesis
      using none p1 by auto
  next
    case (miss park)
    then have "sched_inv arch X s2"
      using sched_inv_update [OF inv(1) t, of s2 p2] ok1 old(5) p1 inv(2) by (simp add: s2_def subset_insertI timer_ok_def)
    then show ?thesis
      using miss p1 by auto
  next
    case (hit park i bs rest)
    let ?p = "p1\<lparr> mailbox := rest \<rparr>"
    obtain cont where p2: "p2 = ?p\<lparr> wait := None, runnable := ClosureRef_new cont \<rparr>"
      using resume_hit_effect [OF hit(3)] by metis
    have "timer_ok (set (tw_entries (timers s))) ?p"
      using ok1 by (simp add: timer_ok_def)
    then have "wheel_wf tw2" "\<And>e. e \<in> set (tw_entries (timers s)) \<Longrightarrow> te_pid e \<noteq> pid \<Longrightarrow> e \<in> set (tw_entries tw2)"
      using resume_hit_timers [OF hit(3) old(5)] hit(2) p1(1) old(1) by auto
    then have "sched_inv arch X s2"
      using sched_inv_update [OF inv(1) t, of s2 p2] p2 p1 inv(2) by (simp add: s2_def subset_insertI timer_ok_no_wait)
    then show ?thesis
      using hit(1) p2 p1 by simp
  qed
  then have s2: "sched_inv arch X s2" and p2: "out \<noteq> ScanMiss \<Longrightarrow> proc_state p2 = Running \<and>
      ((wait t = None \<or> runnable t = None) \<longrightarrow> wait p2 = None \<or> runnable p2 = None \<and> mailbox p2 = [])"
    by blast+
  show thesis
  proof (cases "out = ScanMiss")
    case True
    then have "s' = s2"
      using run t scan by (simp add: dispatch_quantum_def p1_def Let_def s2_def)
    then show thesis
      using missed [of p2] scanned True by (simp add: s2_def)
  next
    case False
    let ?p3 = "p2\<lparr> runnable := None \<rparr>"
    have t2: "tasks s2 pid = Some p2" and t3: "tasks s3 pid = Some ?p3"
      by (simp_all add: s2_def s3_def)
    have s3: "sched_inv arch X s3"
      using s2 sched_inv_update [OF _ t2, of arch X s3 ?p3] sched_invD(3,5) [OF _ t2, of arch X] inv(2)
      by (simp add: s3_def subset_insertI timer_ok_def)
    have "dispatch_quantum arch hs pid calls dtors s = (case runnable p2 of None \<Rightarrow> Some s3
          | Some c \<Rightarrow> to_option (from_heap_object arch CLOSURE c) \<bind> (\<lambda>_. run_calls arch hs pid calls s3))
        \<bind> post_quantum arch hs pid dtors"
      using t scan False by (simp add: dispatch_quantum_def p1_def Let_def take_runnable_closure_def s2_def s3_def split: option.split)
    then have "(case runnable p2 of None \<Rightarrow> Some s3
          | Some c \<Rightarrow> to_option (from_heap_object arch CLOSURE c) \<bind> (\<lambda>_. run_calls arch hs pid calls s3))
        \<bind> post_quantum arch hs pid dtors = Some s'"
      using run by simp
    then obtain s4 where s4: "(case runnable p2 of None \<Rightarrow> Some s3
          | Some c \<Rightarrow> to_option (from_heap_object arch CLOSURE c) \<bind> (\<lambda>_. run_calls arch hs pid calls s3)) = Some s4"
        "post_quantum arch hs pid dtors s4 = Some s'"
      unfolding bind_eq_Some_conv by blast
    show thesis
    proof (rule ran [OF s3 t3 _ _ _ s4(2)])
      show "s4 = s3 \<and> ((wait t = None \<or> runnable t = None) \<longrightarrow> turn_over ?p3)
         \<or> run_calls arch hs pid calls s3 = Some s4 \<and> ((wait t = None \<or> runnable t = None) \<longrightarrow> wait ?p3 = None)"
        using s4(1) p2 [OF False] by (cases "runnable p2") (auto simp: turn_over_def split: Option.bind_splits)
    qed (use p2 [OF False] in simp_all)
  qed
qed

lemma dispatch_quantum_keeps:
  assumes inv: "sched_inv arch X s" "pid \<in> X" and t: "tasks s pid = Some t"
    and run: "dispatch_quantum arch hs pid calls dtors s = Some s'"
  shows "sched_inv arch X s'"
proof (rule dispatch_quantum_phases [OF inv t run])
  fix s3 p3 s4
  assume s3: "sched_inv arch X s3" "tasks s3 pid = Some p3" and post: "post_quantum arch hs pid dtors s4 = Some s'"
    and s4: "s4 = s3 \<and> ((wait t = None \<or> runnable t = None) \<longrightarrow> turn_over p3)
      \<or> run_calls arch hs pid calls s3 = Some s4 \<and> ((wait t = None \<or> runnable t = None) \<longrightarrow> wait p3 = None)"
  have "sched_inv arch X s4 \<and> tasks s4 pid \<noteq> None"
    using s4 s3 run_calls_keeps [OF _ s3(1) _ inv(2)] by auto
  then show ?thesis
    using post_quantum_keeps [OF _ inv(2) _ post] by blast
qed

lemma dispatch_quantum_settles:
  assumes inv: "sched_inv arch X s" "pid \<in> X" and t: "tasks s pid = Some t" "wait t = None \<or> runnable t = None"
    and run: "dispatch_quantum arch hs pid calls dtors s = Some s'"
    and calls: "quantum_calls calls" "\<forall>c \<in> set dtors. \<not> returns_to_scheduler c"
  shows "\<exists>t'. tasks s' pid = Some t' \<and> settled arch (set (run_queue s')) t'"
proof (rule dispatch_quantum_phases [OF inv t(1) run])
  fix p2
  assume "tasks s' pid = Some p2" "run_queue s' = run_queue s" "proc_state p2 = Blocked" "wait p2 = wait t" "wait t \<noteq> None" "runnable p2 = runnable t"
    "\<And>park. wait p2 = Some park \<Longrightarrow> \<forall>m \<in> set (mailbox p2). try_match arch park m = None"
  then show ?thesis
    using t(2) by (auto simp: settled_def)
next
  fix s3 p3 s4
  assume s3: "sched_inv arch X s3" "tasks s3 pid = Some p3" "proc_state p3 = Running" "runnable p3 = None"
    and s4: "s4 = s3 \<and> ((wait t = None \<or> runnable t = None) \<longrightarrow> turn_over p3)
      \<or> run_calls arch hs pid calls s3 = Some s4 \<and> ((wait t = None \<or> runnable t = None) \<longrightarrow> wait p3 = None)"
    and post: "post_quantum arch hs pid dtors s4 = Some s'"
  have "sched_inv arch X s4 \<and> (\<exists>t'. tasks s4 pid = Some t' \<and> turn_over t')"
    using s4 s3 t(2) run_calls_keeps [OF _ s3(1) _ inv(2)] quantum_turn [OF calls(1) _ s3(1) inv(2) s3(2,3)] by auto
  then show ?thesis
    using post_quantum_settles [OF _ inv(2) _ _ post calls(2)] by blast
qed

lemma fire_expired_core:
  assumes "core arch (E \<union> set es) X s"
  shows "core arch E X (fire_expired es s) \<and> timers (fire_expired es s) = timers s"
  using assms
proof (induction es arbitrary: s)
  case (Cons e es)
  show ?case
  proof (cases "tasks s (te_pid e)")
    case None
    then have "timer_ok (E \<union> set es) u" if "tasks s q = Some u" for q u
      using coreD(1,3) [OF Cons.prems that] that unfolding timer_ok_def by (metis Un_iff list.set_intros(2) option.distinct(1) set_ConsD)
    then have "core arch (E \<union> set es) X s"
      using Cons.prems unfolding core_def by blast
    then show ?thesis
      using Cons.IH None by simp
  next
    case (Some t)
    obtain woke t' where fire: "fire_after_timer t (te_id e) = (woke, t')"
      by fastforce
    define s1 where "s1 = s\<lparr> tasks := (tasks s)(te_pid e \<mapsto> t'), run_queue := run_queue s @ (if woke then [te_pid e] else []) \<rparr>"
    note old = coreD [OF Cons.prems Some]
    consider (woke) woke "wait t' = None" "proc_pid t' = proc_pid t" "proc_state t' = Ready"
      | (stale) "\<not> woke" "t' = t" "\<forall>park. wait t = Some park \<longrightarrow> after_timer_id park \<noteq> Some (te_id e)"
      using fire by (auto simp: fire_after_timer_def set_runnable_closure_def split: option.splits if_splits)
    then have "proc_pid t' = proc_pid t \<and> timer_ok (E \<union> set es) t' \<and> (te_pid e \<notin> X \<longrightarrow> settled arch (set (run_queue s1)) t')"
    proof cases
      case woke
      then show ?thesis
        using old(1) by (simp add: timer_ok_def settled_def s1_def)
    next
      case stale
      have "timer_ok (E \<union> set es) t"
        using old(3) stale(3) unfolding timer_ok_def by (metis UnE UnI1 UnI2 set_ConsD)
      then show ?thesis
        using stale(1,2) old(4) by (simp add: s1_def)
    qed
    then have "core arch (E \<union> set es) X s1"
      by (intro core_update [OF Cons.prems Some, of s1 t']) (auto simp: s1_def)
    moreover have "fire_expired (e # es) s = fire_expired es s1"
      using Some fire by (simp add: s1_def)
    ultimately show ?thesis
      using Cons.IH [of s1] by (simp add: s1_def)
  qed
qed simp

lemma drain_inv:
  assumes "sched_inv arch X s"
  shows "sched_inv arch X (drain_after_timers_aot now s)"
proof -
  obtain due tw where d: "TimerWheel_drain_expired now (timers s) = (due, tw)"
    by fastforce
  have wf: "wheel_wf (timers s)" "core arch (set (tw_entries (timers s))) X s"
    using assms by (simp_all add: sched_inv_def)
  have "set (tw_entries tw) \<union> set due = set (tw_entries (timers s))" "wheel_wf tw"
    using d wheel_wf_filter [OF wf(1)] by (auto simp: drain_filter [OF wf(1)])
  moreover from this have "core arch (set (tw_entries tw) \<union> set due) X (s\<lparr> timers := tw \<rparr>)"
    using wf(2) by (simp add: core_def)
  ultimately show ?thesis
    using fire_expired_core [of arch "set (tw_entries tw)" due X "s\<lparr> timers := tw \<rparr>"] d
    by (simp add: drain_after_timers_aot_def sched_inv_def)
qed

lemma aot_step_inv:
  assumes "aot_step arch hs L s s'" and "sched_inv arch X s"
  shows "sched_inv arch (X \<union> L) s'"
  using assms
proof (induction rule: aot_step.induct)
  case (dispatch now s pid rest calls dtors s')
  let ?s = "drain_after_timers_aot now s" and ?L = "if \<exists>c \<in> set dtors. returns_to_scheduler c then {pid} else {}"
  have inv: "sched_inv arch X ?s"
    using dispatch.prems by (rule drain_inv)
  from this dispatch.hyps(1) obtain t where t: "tasks ?s pid = Some t"
    by (auto simp: sched_inv_def core_def)
  then have t': "tasks (?s\<lparr> run_queue := rest \<rparr>) pid = Some t"
    by simp
  note popped = sched_inv_pop [OF inv dispatch.hyps(1)]
  have keeps: "sched_inv arch (insert pid X) s'"
    by (rule dispatch_quantum_keeps [OF popped _ t' dispatch.hyps(3)]) simp
  show ?case
  proof (cases "pid \<in> X \<union> ?L")
    case True
    then show ?thesis
      using keeps by (auto simp: insert_absorb Un_absorb2 split: if_splits)
  next
    case False
    then have "wait t = None \<or> runnable t = None"
      using sched_invD(4) [OF inv t] by (auto simp: settled_def)
    then obtain u where "tasks s' pid = Some u" "settled arch (set (run_queue s')) u"
      using dispatch_quantum_settles [OF popped _ t' _ dispatch.hyps(3,2)] False by (auto split: if_splits)
    then show ?thesis
      using sched_inv_close [OF keeps] False by (auto split: if_splits)
  qed
qed (simp add: drain_inv)

lemma aot_init_inv:
  assumes "aot_init hs s"
  shows "sched_inv arch X s"
proof -
  have "sched_inv arch X s'" if "s' = \<lparr> next_pid = 2, tasks = [1 \<mapsto> set_runnable_closure thunk
      ((Process_new 1 DEFAULT_REDUCTIONS_PER_QUANTUM)\<lparr> proc_ctx := Some wired \<rparr>)],
      run_queue = [1], timers = TimerWheel_new, world = w, drain_dtor_entry = d \<rparr>" for s' :: "'a AotScheduler" and thunk w d
    using that wheel_wf_new by (simp add: sched_inv_def core_def settled_def timer_ok_def set_runnable_closure_def Process_new_def)
  then show ?thesis
    using assms by (auto simp: aot_init_def fz_aot_setup_def enqueue_main_def fz_aot_set_drain_dtor_entry_def bind_eq_Some_conv)
qed

interpretation aot: invariant_machine "\<lambda>(Z, s). Z = {} \<and> aot_init hs s" "aot_trace arch hs" "\<lambda>(Z, s). sched_inv arch Z s"
  by unfold_locales (auto simp: aot_trace_def aot_init_inv aot_step_inv)

end
