(* ===== verification/Fz_AotProps.thy ===== *)
theory Fz_AotProps
  imports Fz_AotInv
begin

text \<open>
  What the scheduler guarantees in every reachable state, and a run that shows what it does not:
  a message can overtake an earlier one.
\<close>

section \<open>A run of three quanta\<close>

text \<open>Services whose world records the bound values of each resumed receive.\<close>

definition logging_services :: "AnyValueRef list list HeapServices" where
  "logging_services =
     \<lparr> materialize_outcome = (\<lambda>pid template bs log. Some (template, log @ [bs])),
        deep_copy = (\<lambda>src dst r w. Some (r, w)), new_heap = (\<lambda>pid w. Some w),
        entry_thunk = (\<lambda>pid inner w. Some (inner, w)), main_inner = (\<lambda>pid w. Some (0x1000, w)),
        should_gc = (\<lambda>pid w. False), clear_should_gc = (\<lambda>pid w. w),
        gc_process_roots = (\<lambda>pid r mb w. Some (r, mb, w)), gc_value_roots = (\<lambda>pid rs mb w. Some (rs, mb, w)),
        continuation_size = (\<lambda>pid c w. 0),
        block_margin = (\<lambda>pid w. 0) \<rparr>"

definition match_any :: MatcherFn where
  "match_any msg pins out = (1, [msg])"

definition closure_word :: "u64 \<Rightarrow> u64" where
  "closure_word addr = pack (for_arch Arm64Tbi) CLOSURE addr"

definition message :: "u64 \<Rightarrow> u64" where
  "message addr = pack (for_arch Arm64Tbi) INTEGER addr"

lemma raw_word_pack [simp]: "from_raw_word arch (pack (for_arch arch) k a) = Inr (pack (for_arch arch) k a)"
  by (simp add: from_raw_word_def)

lemma ref_words [simp]:
  "to_option (from_raw_word Arm64Tbi (message a)) = Some (message a)"
  "to_option (from_raw_word Arm64Tbi (closure_word a)) = Some (closure_word a)"
  by (simp_all add: message_def closure_word_def to_option_def del: for_arch.simps)

lemma closure_word_addr:
  "unat a < 2 ^ 56 \<Longrightarrow> to_option (ref_heap_addr Arm64Tbi (closure_word a) CLOSURE) = Some a"
  "unat a < 2 ^ 56 \<Longrightarrow> closure_addr_from_ref_word Arm64Tbi (closure_word a) = Some a"
proof -
  assume "unat a < 2 ^ 56"
  then have "addressable Arm64Tbi a"
    by (simp add: addressable_iff packing_new_def)
  then show "to_option (ref_heap_addr Arm64Tbi (closure_word a) CLOSURE) = Some a"
    by (simp add: ref_heap_addr_def closure_word_def expect_tag_pack addressable_def to_option_def is_heap_def
        TAG_LIST_def TAG_RESOURCE_def del: for_arch.simps)
  then show "closure_addr_from_ref_word Arm64Tbi (closure_word a) = Some a"
    by (simp add: closure_addr_from_ref_word_def)
qed

lemma resumable: "a \<noteq> 0 \<Longrightarrow> to_option (from_heap_object Arm64Tbi CLOSURE a) = Some (closure_word a)"
  by (simp add: from_heap_object_def to_option_def closure_word_def is_heap_def TAG_LIST_def TAG_RESOURCE_def del: for_arch.simps)

lemma logging_simps:
  "materialize_outcome logging_services pid template bs log = Some (template, log @ [bs])"
  "deep_copy logging_services src dst r w = Some (r, w)" "new_heap logging_services pid w = Some w"
  "entry_thunk logging_services pid inner w = Some (inner, w)" "main_inner logging_services pid w = Some (0x1000, w)"
  "should_gc logging_services pid w = False" "continuation_size logging_services pid c w = 0"
  "block_margin logging_services pid w = 0"
  by (simp_all add: logging_services_def)

lemmas run_simps = dispatch_quantum_def reset_reduction_budget_def initial_scan_def take_runnable_closure_def resumable
  aot_spawn_hook_def aot_send_hook_def logging_simps closure_word_addr Process_new_def set_runnable_closure_def ClosureRef_new_def
  DEFAULT_REDUCTIONS_PER_QUANTUM_def fz_yield_mid_flight_report_def finish_yield_report_def note_yield_continuation_allocation_def
  min_nonzero_def saturating_add_def U64_MAX_def U8_MAX_def post_quantum_def aot_boundary_gc_def clear_yield_reasons_def
  YIELD_REASON_REDUCTIONS_def fz_receive_park_matched_def probe_sender_def resume_hit_def try_match_def match_any_def

definition overtaking_start :: "AnyValueRef list list AotScheduler" where
  "overtaking_start = \<lparr> next_pid = 2, tasks = [1 \<mapsto> (Process_new 1 4000)\<lparr> runnable := Some 0x1000, proc_ctx := Some wired \<rparr>],
     run_queue = [1], timers = TimerWheel_new, world = [], drain_dtor_entry = False \<rparr>"

definition turn :: "nat \<Rightarrow> AnyValueRef list list Call list \<Rightarrow> AnyValueRef list list AotScheduler \<Rightarrow> AnyValueRef list list AotScheduler option" where
  "turn pid calls s = dispatch_quantum Arm64Tbi logging_services pid calls [] (s\<lparr> run_queue := tl (run_queue s) \<rparr>)"

text \<open>Main spawns a receiver, sends it a first message and yields; the receiver parks with that
  message in its mailbox and is queued for its scan; main sends a second message and ends.\<close>

definition main_yielded :: Process where
  "main_yielded = (Process_new 1 4000)\<lparr> proc_state := Ready, runnable := Some 0x3000, proc_ctx := Some wired,
     quiet_quanta := 1, scheduler_yields := 1 \<rparr>"

definition any_park :: ParkRecord where
  "any_park = \<lparr> matcher_fn = match_any, pinned = [], clause_bodies = [0x4000], clause_bound_counts = [1], bound_arity = 1,
     after_deadline_ms = None, after_cont = 0, after_timer_id = None \<rparr>"

definition overtaking_1 :: "AnyValueRef list list AotScheduler" where
  "overtaking_1 = overtaking_start\<lparr> next_pid := 3, tasks := [1 \<mapsto> main_yielded,
     2 \<mapsto> (Process_new 2 4000)\<lparr> proc_state := Ready, mailbox := [message 0x100], runnable := Some 0x2000 \<rparr>],
     run_queue := [2, 1] \<rparr>"

definition overtaking_2 :: "AnyValueRef list list AotScheduler" where
  "overtaking_2 = overtaking_start\<lparr> next_pid := 3, tasks := [1 \<mapsto> main_yielded,
     2 \<mapsto> (Process_new 2 4000)\<lparr> proc_state := Ready, mailbox := [message 0x100], proc_ctx := Some wired, wait := Some any_park \<rparr>],
     run_queue := [1, 2] \<rparr>"

definition overtaking_3 :: "AnyValueRef list list AotScheduler" where
  "overtaking_3 = overtaking_start\<lparr> next_pid := 3, tasks := [1 \<mapsto> main_yielded\<lparr> proc_state := Exited, runnable := None \<rparr>,
     2 \<mapsto> (Process_new 2 4000)\<lparr> proc_state := Ready, mailbox := [message 0x100], proc_ctx := Some wired, runnable := Some 0x4000 \<rparr>],
     run_queue := [2, 2], world := [[message 0x200]] \<rparr>"

lemma turn_1:
  "turn 1 [Spawn (closure_word 0x2000), Send 2 (message 0x100), YieldMidFlight (closure_word 0x3000) 4000 0] overtaking_start
     = Some overtaking_1"
  by (simp add: turn_def overtaking_start_def overtaking_1_def main_yielded_def run_simps fun_upd_twist del: for_arch.simps)

lemma turn_2:
  "turn 2 [Park 0 match_any [] [closure_word 0x4000] (Some [1]) 1 (- 1) 0] overtaking_1 = Some overtaking_2"
  by (simp add: turn_def overtaking_start_def overtaking_1_def overtaking_2_def main_yielded_def any_park_def run_simps
      del: for_arch.simps)

lemma turn_3: "turn 1 [Send 2 (message 0x200)] overtaking_2 = Some overtaking_3"
  by (simp add: turn_def overtaking_start_def overtaking_2_def overtaking_3_def main_yielded_def any_park_def run_simps
      fun_upd_twist del: for_arch.simps)

lemma no_timers_drain:
  assumes "timers s = TimerWheel_new"
  shows "drain_after_timers_aot now s = s"
proof -
  have "s\<lparr> timers := TimerWheel_new \<rparr> = s"
    using assms by (metis AotScheduler.surjective AotScheduler.update_convs(4))
  then show ?thesis
    using assms by (simp add: drain_after_timers_aot_def TimerWheel_drain_expired_def TimerWheel_new_def)
qed

abbreviation reaches :: "AnyValueRef list list AotScheduler \<Rightarrow> nat set \<Rightarrow> AnyValueRef list list AotScheduler \<Rightarrow> bool" where
  "reaches s Z s' \<equiv> (aot_trace Arm64Tbi logging_services)\<^sup>*\<^sup>* ({}, s) (Z, s')"

lemma turn_step:
  assumes "turn pid calls s = Some s'" and "run_queue s = pid # rest" and "timers s = TimerWheel_new" and "quantum_calls calls"
  shows "aot_trace Arm64Tbi logging_services (Z, s) (Z, s')"
  using assms aot_step.dispatch [of 0 s pid rest calls Arm64Tbi logging_services "[]" s']
  by (auto simp: no_timers_drain turn_def aot_trace_def)

lemma overtaking_init: "aot_init logging_services overtaking_start"
  unfolding aot_init_def
  by (rule exI [where x = "[]"])
    (simp add: fz_aot_setup_def enqueue_main_def overtaking_start_def logging_simps DEFAULT_REDUCTIONS_PER_QUANTUM_def
      set_runnable_closure_def ClosureRef_new_def Process_new_def)

lemma overtaking_reachable:
  "reaches overtaking_start {} overtaking_2" "reaches overtaking_start {} overtaking_3"
proof -
  have "aot_trace Arm64Tbi logging_services ({}, overtaking_start) ({}, overtaking_1)"
    by (rule turn_step [OF turn_1]) (simp_all add: overtaking_start_def quantum_calls_def)
  moreover have "aot_trace Arm64Tbi logging_services ({}, overtaking_1) ({}, overtaking_2)"
    by (rule turn_step [OF turn_2]) (simp_all add: overtaking_start_def overtaking_1_def quantum_calls_def)
  moreover have "aot_trace Arm64Tbi logging_services ({}, overtaking_2) ({}, overtaking_3)"
    by (rule turn_step [OF turn_3]) (simp_all add: overtaking_start_def overtaking_2_def quantum_calls_def)
  ultimately show "reaches overtaking_start {} overtaking_2" "reaches overtaking_start {} overtaking_3"
    by (meson converse_rtranclp_into_rtranclp rtranclp.rtrancl_refl)+
qed

section \<open>Properties\<close>

text \<open>
  C4.  No wake-up is lost.  In every state the scheduler can reach, from any program, whatever its quanta and its
  destructors do: every queued identifier names a task, and a waiting task with an after-clause has its timer in the
  wheel.  A task whose destructors have not parked or yielded when it ended is queued when it is ready or has a
  continuation to run, and when it waits in a receive it is queued or no message in its mailbox is one its matcher accepts.
\<close>

theorem Aot_no_lost_wakeup:
  assumes "aot_init hs s0" and "(aot_trace arch hs)\<^sup>*\<^sup>* ({}, s0) (Z, s)" and "tasks s pid = Some t"
  shows "set (run_queue s) \<subseteq> dom (tasks s)
    \<and> (\<forall>park i. wait t = Some park \<longrightarrow> after_timer_id park = Some i \<longrightarrow>
         (\<exists>e \<in> set (tw_entries (timers s)). te_id e = i \<and> te_pid e = pid))
    \<and> (pid \<notin> Z \<longrightarrow> (proc_state t = Ready \<or> runnable t \<noteq> None \<longrightarrow> pid \<in> set (run_queue s))
         \<and> (\<forall>park. wait t = Some park \<longrightarrow> pid \<in> set (run_queue s) \<or> (\<forall>m \<in> set (mailbox t). try_match arch park m = None)))"
proof -
  have inv: "sched_inv arch Z s"
    using aot.reachable_inv [OF assms(2)] assms(1) by simp
  then show ?thesis
    using sched_invD [OF inv assms(3)] by (auto simp: settled_def timer_ok_def sched_inv_def core_def)
qed

theorem Aot_no_lost_wakeup_witness:
  "wait ((Process_new 2 4000)\<lparr> proc_state := Ready, mailbox := [message 0x100], proc_ctx := Some wired, wait := Some any_park \<rparr>)
     = Some any_park \<and> 2 \<in> set (run_queue overtaking_2)"
  using Aot_no_lost_wakeup [OF overtaking_init overtaking_reachable(1), of 2
      "(Process_new 2 4000)\<lparr> proc_state := Ready, mailbox := [message 0x100], proc_ctx := Some wired, wait := Some any_park \<rparr>"]
  by (simp add: overtaking_2_def)

text \<open>
  C19.  When the loop stops nothing is left undone: with the queue and the wheel empty after a drain, every task whose
  destructors have not parked or yielded has exited, or waits in a receive without an after-clause, has no continuation
  and no message its matcher accepts.
\<close>

theorem Aot_idle_is_done:
  assumes "aot_init hs s0" and "(aot_trace arch hs)\<^sup>*\<^sup>* ({}, s0) (Z, s)"
    and "run_queue (drain_after_timers_aot now s) = []"
    and "TimerWheel_next_deadline (timers (drain_after_timers_aot now s)) = None"
    and "tasks (drain_after_timers_aot now s) pid = Some t" and "pid \<notin> Z"
  shows "proc_state t = Exited \<or> (\<exists>park. wait t = Some park \<and> after_timer_id park = None \<and> runnable t = None
    \<and> (\<forall>m \<in> set (mailbox t). try_match arch park m = None))"
proof -
  have inv: "sched_inv arch Z (drain_after_timers_aot now s)"
    using drain_inv aot.reachable_inv [OF assms(2)] assms(1) by fastforce
  have "tw_entries (timers (drain_after_timers_aot now s)) = []"
    using assms(4) by (auto simp: TimerWheel_next_deadline_def split: list.splits)
  moreover have "settled arch {} t"
    using sched_invD(4) [OF inv assms(5,6)] assms(3) by simp
  ultimately show ?thesis
    using sched_invD(3) [OF inv assms(5)] by (cases "proc_state t"; cases "wait t") (auto simp: settled_def timer_ok_def)
qed

definition overtaking_4 :: "AnyValueRef list list AotScheduler" where
  "overtaking_4 = overtaking_3\<lparr> tasks := [1 \<mapsto> main_yielded\<lparr> proc_state := Exited, runnable := None \<rparr>,
     2 \<mapsto> (Process_new 2 4000)\<lparr> proc_state := Exited, mailbox := [message 0x100], proc_ctx := Some wired \<rparr>], run_queue := [2] \<rparr>"

lemma turn_4: "turn 2 [] overtaking_3 = Some overtaking_4"
  by (simp add: turn_def overtaking_start_def overtaking_3_def overtaking_4_def main_yielded_def run_simps
      fun_upd_twist del: for_arch.simps)

lemma turn_5: "turn 2 [] overtaking_4 = Some (overtaking_4\<lparr> run_queue := [] \<rparr>)"
  by (simp add: turn_def overtaking_start_def overtaking_3_def overtaking_4_def main_yielded_def run_simps
      fun_upd_twist del: for_arch.simps)

lemma overtaking_idle: "reaches overtaking_start {} (overtaking_4\<lparr> run_queue := [] \<rparr>)"
proof -
  have "aot_trace Arm64Tbi logging_services ({}, overtaking_3) ({}, overtaking_4)"
    by (rule turn_step [OF turn_4]) (simp_all add: overtaking_start_def overtaking_3_def quantum_calls_def)
  moreover have "aot_trace Arm64Tbi logging_services ({}, overtaking_4) ({}, overtaking_4\<lparr> run_queue := [] \<rparr>)"
    by (rule turn_step [OF turn_5]) (simp_all add: overtaking_start_def overtaking_3_def overtaking_4_def quantum_calls_def)
  ultimately show ?thesis
    using overtaking_reachable(2) by (meson rtranclp.rtrancl_into_rtrancl)
qed

theorem Aot_idle_is_done_witness:
  "proc_state ((Process_new 2 4000)\<lparr> proc_state := Exited, mailbox := [message 0x100], proc_ctx := Some wired \<rparr>) = Exited
   \<and> tasks overtaking_4 2 = Some ((Process_new 2 4000)\<lparr> proc_state := Exited, mailbox := [message 0x100], proc_ctx := Some wired \<rparr>)"
proof -
  let ?s = "overtaking_4\<lparr> run_queue := [] \<rparr>"
  have "timers ?s = TimerWheel_new"
    by (simp add: overtaking_4_def overtaking_3_def overtaking_start_def)
  then have "drain_after_timers_aot 0 ?s = ?s"
    by (rule no_timers_drain)
  then show ?thesis
    using Aot_idle_is_done [OF overtaking_init overtaking_idle, of 0 2 "(Process_new 2 4000)\<lparr> proc_state := Exited,
        mailbox := [message 0x100], proc_ctx := Some wired \<rparr>"]
    by (simp add: overtaking_4_def overtaking_3_def overtaking_start_def TimerWheel_new_def TimerWheel_next_deadline_def)
qed

text \<open>
  C35.  Messages do not always arrive in order.  A reachable state has a receiver that waits, queued
  for the scan of its mailbox, with a message its matcher accepts; the same sender's next message,
  accepted as well, is delivered first, the earlier one stays in the mailbox, and the receiver
  stands in the queue twice.
\<close>

theorem Aot_later_message_overtakes:
  "aot_init logging_services overtaking_start
   \<and> reaches overtaking_start {} overtaking_2
   \<and> (\<exists>t park. tasks overtaking_2 2 = Some t \<and> wait t = Some park \<and> mailbox t = [message 0x100]
        \<and> try_match Arm64Tbi park (message 0x100) = Some (0, [message 0x100])
        \<and> try_match Arm64Tbi park (message 0x200) = Some (0, [message 0x200]))
   \<and> dispatch_quantum Arm64Tbi logging_services 1 [Send 2 (message 0x200)] [] (overtaking_2\<lparr> run_queue := [2] \<rparr>) = Some overtaking_3
   \<and> world overtaking_3 = [[message 0x200]]
   \<and> map_option mailbox (tasks overtaking_3 2) = Some [message 0x100]
   \<and> run_queue overtaking_3 = [2, 2]"
  using overtaking_init overtaking_reachable(1) turn_3
  by (simp add: turn_def overtaking_2_def overtaking_3_def any_park_def try_match_def match_any_def)

section \<open>A destructor that yields\<close>

text \<open>Main ends at once and the destructor of a resource it held runs out of reductions in a loop.\<close>

definition dtor_start :: "AnyValueRef list list AotScheduler" where
  "dtor_start = overtaking_start\<lparr> drain_dtor_entry := True \<rparr>"

definition dtor_lost :: "AnyValueRef list list AotScheduler" where
  "dtor_lost = dtor_start\<lparr> tasks := [1 \<mapsto> (Process_new 1 4000)\<lparr> proc_state := Exited, runnable := Some 0x5000, proc_ctx := Some wired,
     scheduler_yields := 1 \<rparr>], run_queue := [] \<rparr>"

lemma dtor_turn:
  "dispatch_quantum Arm64Tbi logging_services 1 [] [YieldMidFlight (closure_word 0x5000) 4000 0] (dtor_start\<lparr> run_queue := [] \<rparr>) = Some dtor_lost"
  by (simp add: dtor_start_def overtaking_start_def dtor_lost_def run_simps del: for_arch.simps)

text \<open>
  A destructor that yields is never resumed.  From a start with the destructor entry registered, main ends in its
  first quantum and its destructor yields in the middle: the continuation is stored in the exited task, the scheduler
  drops the result of the call and queues nothing, so the loop is idle with the rest of the destructor undone.
\<close>

theorem Aot_destructor_yield_lost:
  "aot_init logging_services dtor_start
   \<and> reaches dtor_start {1} dtor_lost
   \<and> run_queue dtor_lost = [] \<and> TimerWheel_next_deadline (timers dtor_lost) = None
   \<and> map_option proc_state (tasks dtor_lost 1) = Some Exited \<and> Option.bind (tasks dtor_lost 1) runnable = Some 0x5000"
proof (intro conjI)
  show "aot_init logging_services dtor_start"
    unfolding aot_init_def
    by (rule exI [where x = "[]"])
      (simp add: fz_aot_setup_def enqueue_main_def fz_aot_set_drain_dtor_entry_def dtor_start_def overtaking_start_def logging_simps
        DEFAULT_REDUCTIONS_PER_QUANTUM_def set_runnable_closure_def ClosureRef_new_def Process_new_def)
  have "timers dtor_start = TimerWheel_new" "run_queue dtor_start = [1]"
    by (simp_all add: dtor_start_def overtaking_start_def)
  then have "aot_step Arm64Tbi logging_services {1} dtor_start dtor_lost"
    using aot_step.dispatch [of 0 dtor_start 1 "[]" "[]" Arm64Tbi logging_services "[YieldMidFlight (closure_word 0x5000) 4000 0]" dtor_lost] dtor_turn
    by (simp add: no_timers_drain quantum_calls_def)
  then show "reaches dtor_start {1} dtor_lost"
    by (intro r_into_rtranclp) (auto simp: aot_trace_def)
qed (simp_all add: dtor_lost_def dtor_start_def overtaking_start_def TimerWheel_next_deadline_def TimerWheel_new_def)

end
