(* ===== verification/Fz_Jit.thy ===== *)
theory Fz_Jit
  imports Fz_AotProps
begin

text \<open>
  The process scheduler of the in-process executor (\<open>src/exec/runtime.rs\<close>) and its quantum
  (\<open>run_quantum\<close> of \<open>src/ir_codegen/compiled.rs\<close>).  It shares processes, parks and timers with the
  scheduler of compiled programs, but takes the running task out of the registry, matches a
  message before it copies it, collects at a park, and re-queues a task it cannot classify.
  After every quantum the frame pointer of the task is null, so it is left out.
\<close>

section \<open>The runtime\<close>

record 'w Runtime =
  rt_tasks :: "nat \<rightharpoonup> Process"
  rt_run_queue :: "nat list"
  rt_next_pid :: nat
  rt_timers :: TimerWheel
  rt_world :: 'w
  rt_exits :: "nat list"

definition Runtime_new :: "nat \<Rightarrow> 'w \<Rightarrow> 'w Runtime option" where
  "Runtime_new workers w =
     (if workers = 1 then Some \<lparr> rt_tasks = Map.empty, rt_run_queue = [], rt_next_pid = 1, rt_timers = TimerWheel_new,
        rt_world = w, rt_exits = [] \<rparr> else None)"

definition Runtime_exit_fault :: "'w Runtime \<Rightarrow> nat \<Rightarrow> u32 option" where
  "Runtime_exit_fault rt pid = Option.bind (rt_tasks rt pid) exit_fault"

definition Runtime_spawn :: "'w HeapServices \<Rightarrow> 'w Runtime \<Rightarrow> (nat \<times> 'w Runtime) option" where
  "Runtime_spawn hs rt =
     do { let pid = rt_next_pid rt;
          w1 \<leftarrow> new_heap hs pid (rt_world rt);
          (inner, w2) \<leftarrow> main_inner hs pid w1;
          (thunk, w3) \<leftarrow> entry_thunk hs pid inner w2;
          let process = (set_runnable_closure thunk (Process_new pid DEFAULT_REDUCTIONS_PER_QUANTUM))\<lparr> proc_state := Ready \<rparr>;
          Some (pid, rt\<lparr> rt_next_pid := pid + 1, rt_tasks := (rt_tasks rt)(pid \<mapsto> process), rt_world := w3,
                        rt_run_queue := rt_run_queue rt @ [pid] \<rparr>) }"

definition spawn_closure ::
  "TaggedRefArch \<Rightarrow> 'w HeapServices \<Rightarrow> nat \<Rightarrow> u64 \<Rightarrow> 'w Runtime \<Rightarrow> 'w Runtime option" where
  "spawn_closure arch hs sender closure_ref_word rt =
     do { let pid = rt_next_pid rt;
          w1 \<leftarrow> new_heap hs pid (rt_world rt);
          closure_ref \<leftarrow> to_option (from_raw_word arch closure_ref_word);
          _ \<leftarrow> to_option (ref_heap_addr arch closure_ref CLOSURE);
          (copied, w2) \<leftarrow> deep_copy hs sender pid closure_ref w1;
          copied_addr \<leftarrow> to_option (ref_heap_addr arch copied CLOSURE);
          (thunk, w3) \<leftarrow> entry_thunk hs pid copied_addr w2;
          let process = (set_runnable_closure thunk (Process_new pid DEFAULT_REDUCTIONS_PER_QUANTUM))\<lparr> proc_state := Ready \<rparr>;
          Some (rt\<lparr> rt_next_pid := pid + 1, rt_tasks := (rt_tasks rt)(pid \<mapsto> process), rt_world := w3,
                   rt_run_queue := rt_run_queue rt @ [pid] \<rparr>) }"

fun deep_copy_all ::
  "'w HeapServices \<Rightarrow> nat \<Rightarrow> nat \<Rightarrow> AnyValueRef list \<Rightarrow> 'w \<Rightarrow> (AnyValueRef list \<times> 'w) option" where
  "deep_copy_all hs src dst [] w = Some ([], w)"
| "deep_copy_all hs src dst (v # vs) w =
     do { (v', w1) \<leftarrow> deep_copy hs src dst v w; (vs', w2) \<leftarrow> deep_copy_all hs src dst vs w1; Some (v' # vs', w2) }"

definition send_via ::
  "TaggedRefArch \<Rightarrow> 'w HeapServices \<Rightarrow> nat \<Rightarrow> AnyValueRef \<Rightarrow> Process \<Rightarrow> 'w Runtime \<Rightarrow> (Process \<times> 'w Runtime) option" where
  "send_via arch hs receiver_pid msg sender rt =
     (let src = proc_pid sender in
      if src = receiver_pid then
        do { (copied, w1) \<leftarrow> deep_copy hs src src msg (rt_world rt);
             Some (sender\<lparr> mailbox := mailbox sender @ [copied] \<rparr>, rt\<lparr> rt_world := w1 \<rparr>) }
      else case rt_tasks rt receiver_pid of
        None \<Rightarrow> Some (sender, rt)
      | Some receiver \<Rightarrow>
          if proc_state receiver = Exited then Some (sender, rt)
          else case wait receiver of
            Some park \<Rightarrow>
              (case try_match arch park msg of
                 Some (clause_idx, bound_vals) \<Rightarrow>
                   if length (clause_bodies park) \<le> clause_idx then None
                   else do { (copied, w1) \<leftarrow> deep_copy_all hs src receiver_pid bound_vals (rt_world rt);
                             (cont, w2) \<leftarrow> materialize_outcome hs receiver_pid (clause_bodies park ! clause_idx) copied w1;
                             let r1 = receiver\<lparr> wait := None \<rparr>;
                             let tw' = (case after_timer_id park of Some i \<Rightarrow> timer_cancel r1 i (rt_timers rt) | None \<Rightarrow> rt_timers rt);
                             Some (sender, rt\<lparr> rt_tasks := (rt_tasks rt)(receiver_pid \<mapsto> (set_runnable_closure cont r1)\<lparr> proc_state := Ready \<rparr>),
                                              rt_timers := tw', rt_world := w2, rt_run_queue := rt_run_queue rt @ [receiver_pid] \<rparr>) }
               | None \<Rightarrow>
                   do { (copied, w1) \<leftarrow> deep_copy hs src receiver_pid msg (rt_world rt);
                        Some (sender, rt\<lparr> rt_tasks := (rt_tasks rt)(receiver_pid \<mapsto> receiver\<lparr> mailbox := mailbox receiver @ [copied] \<rparr>),
                                         rt_world := w1 \<rparr>) })
          | None \<Rightarrow>
              do { (copied, w1) \<leftarrow> deep_copy hs src receiver_pid msg (rt_world rt);
                   let r1 = receiver\<lparr> mailbox := mailbox receiver @ [copied] \<rparr>;
                   Some (sender,
                     if proc_state r1 = Blocked
                     then rt\<lparr> rt_tasks := (rt_tasks rt)(receiver_pid \<mapsto> r1\<lparr> proc_state := Ready \<rparr>), rt_world := w1,
                             rt_run_queue := rt_run_queue rt @ [receiver_pid] \<rparr>
                     else rt\<lparr> rt_tasks := (rt_tasks rt)(receiver_pid \<mapsto> r1), rt_world := w1 \<rparr>) })"

section \<open>A quantum\<close>

fun jit_call ::
  "TaggedRefArch \<Rightarrow> 'w HeapServices \<Rightarrow> 'w Call \<Rightarrow> Process \<times> 'w Runtime \<Rightarrow> (Process \<times> 'w Runtime) option" where
  "jit_call arch hs (Work f) (p, rt) = Some (p, rt\<lparr> rt_world := f (rt_world rt) \<rparr>)"
| "jit_call arch hs (Spawn closure) (p, rt) = map_option (Pair p) (spawn_closure arch hs (proc_pid p) closure rt)"
| "jit_call arch hs (Send receiver word) (p, rt) =
     do { msg \<leftarrow> to_option (from_raw_word arch word); send_via arch hs receiver msg p rt }"
| "jit_call arch hs (Halt val) (p, rt) = Some (fz_halt_implicit_i64 val p, rt)"
| "jit_call arch hs ExitFault (p, rt) = Some (fz_exit_fault p, rt)"
| "jit_call arch hs (Park now matcher pins bodies counts arity after cont) (p, rt) =
     do { (p', tw') \<leftarrow> fz_receive_park_matched arch now matcher pins bodies counts arity after cont p (rt_timers rt);
          Some (p', rt\<lparr> rt_timers := tw' \<rparr>) }"
| "jit_call arch hs (YieldMidFlight cont remaining reason) (p, rt) =
     do { p' \<leftarrow> fz_yield_mid_flight_report arch hs cont remaining reason p (rt_world rt); Some (p', rt) }"

fun jit_calls ::
  "TaggedRefArch \<Rightarrow> 'w HeapServices \<Rightarrow> 'w Call list \<Rightarrow> Process \<times> 'w Runtime \<Rightarrow> (Process \<times> 'w Runtime) option" where
  "jit_calls arch hs [] st = Some st"
| "jit_calls arch hs (c # cs) st = do { st' \<leftarrow> jit_call arch hs c st; jit_calls arch hs cs st' }"

text \<open>The collection behind a quantum: the roots are the clause bodies and the after-continuation of
  a park, the continuation to run, and the mailbox.\<close>

definition park_time_gc :: "'w HeapServices \<Rightarrow> Process \<Rightarrow> 'w \<Rightarrow> (Process \<times> 'w) option" where
  "park_time_gc hs p w =
     (if \<not> should_gc hs (proc_pid p) w then Some (p, w)
      else let park_roots = (case wait p of Some park \<Rightarrow> clause_bodies park @ [after_cont park] | None \<Rightarrow> []);
               roots = park_roots @ (case runnable p of Some c \<Rightarrow> [c] | None \<Rightarrow> [])
           in do { (roots', mb, w1) \<leftarrow> gc_value_roots hs (proc_pid p) roots (mailbox p) w;
                   let p1 = p\<lparr> mailbox := mb \<rparr>;
                   let p2 = p1\<lparr> wait := map_option (\<lambda>park.
                              park\<lparr> clause_bodies := map (\<lambda>i. roots' ! i) [0..<length (clause_bodies park)],
                                    after_cont := roots' ! length (clause_bodies park) \<rparr>) (wait p1) \<rparr>;
                   let p3 = (case runnable p of Some c \<Rightarrow> set_runnable_closure (roots' ! length park_roots) p2 | None \<Rightarrow> p2);
                   Some (clear_yield_reasons p3, clear_should_gc hs (proc_pid p) w1) })"

definition run_quantum ::
  "TaggedRefArch \<Rightarrow> 'w HeapServices \<Rightarrow> 'w Call list \<Rightarrow> Process \<Rightarrow> 'w Runtime \<Rightarrow> (Process \<times> 'w Runtime) option" where
  "run_quantum arch hs calls p rt =
     do { (out, p1, tw1, w1) \<leftarrow> initial_scan arch hs p (rt_timers rt) (rt_world rt);
          let rt1 = rt\<lparr> rt_timers := tw1, rt_world := w1 \<rparr>;
          if out = ScanMiss then Some (p1, rt1)
          else case take_runnable_closure p1 of
            (None, p2) \<Rightarrow> Some (p2, rt1)
          | (Some c, p2) \<Rightarrow>
              do { _ \<leftarrow> to_option (from_heap_object arch CLOSURE c);
                   (p3, rt2) \<leftarrow> jit_calls arch hs calls (p2, rt1);
                   (p4, w2) \<leftarrow> park_time_gc hs p3 (rt_world rt2);
                   Some (p4, rt2\<lparr> rt_world := w2 \<rparr>) } }"

section \<open>The loop\<close>

fun rt_fire_expired :: "TimerEntry list \<Rightarrow> 'w Runtime \<Rightarrow> 'w Runtime" where
  "rt_fire_expired [] rt = rt"
| "rt_fire_expired (e # es) rt =
     (case rt_tasks rt (te_pid e) of None \<Rightarrow> rt_fire_expired es rt
      | Some task \<Rightarrow>
          let (woke, task') = fire_after_timer task (te_id e);
              rt' = rt\<lparr> rt_tasks := (rt_tasks rt)(te_pid e \<mapsto> task') \<rparr>
          in rt_fire_expired es (if woke then rt'\<lparr> rt_run_queue := rt_run_queue rt' @ [te_pid e] \<rparr> else rt'))"

definition drain_expired_timers :: "nat \<Rightarrow> 'w Runtime \<Rightarrow> 'w Runtime" where
  "drain_expired_timers now rt =
     (let (expired, tw) = TimerWheel_drain_expired now (rt_timers rt) in rt_fire_expired expired (rt\<lparr> rt_timers := tw \<rparr>))"

definition quieter :: "Process \<Rightarrow> Process" where
  "quieter p = p\<lparr> quiet_quanta := saturating_add U8_MAX (quiet_quanta p) 1 \<rparr>"

definition requeue :: "nat \<Rightarrow> Process \<Rightarrow> 'w Runtime \<Rightarrow> 'w Runtime" where
  "requeue pid p rt = rt\<lparr> rt_tasks := (rt_tasks rt)(pid \<mapsto> p), rt_run_queue := rt_run_queue rt @ [pid] \<rparr>"

text \<open>One turn of \<open>run_until_idle\<close> behind the drain: \<open>None\<close> a panic, \<open>Some (Inl _)\<close> the queue is
  empty and the loop ends, \<open>Some (Inr _)\<close> it goes on.\<close>

definition run_turn ::
  "TaggedRefArch \<Rightarrow> 'w HeapServices \<Rightarrow> nat \<Rightarrow> 'w Call list \<Rightarrow> 'w Call list \<Rightarrow> 'w Runtime \<Rightarrow> ('w Runtime + 'w Runtime) option" where
  "run_turn arch hs now calls dtor_calls rt0 =
     (let rt = drain_expired_timers now rt0 in
      case rt_run_queue rt of
        [] \<Rightarrow> Some (Inl rt)
      | pid # rest \<Rightarrow>
          do { task \<leftarrow> rt_tasks rt pid;
               let rt1 = rt\<lparr> rt_run_queue := rest, rt_tasks := (rt_tasks rt)(pid := None) \<rparr>;
               let task1 = (reset_reduction_budget (task\<lparr> proc_state := Running \<rparr>))\<lparr> proc_ctx := Some wired \<rparr>;
               (task2, rt2) \<leftarrow> run_quantum arch hs calls task1 rt1;
               if proc_state task2 = Running \<and> runnable task2 \<noteq> None then
                 do { (task3, w3) \<leftarrow> boundary_maintenance hs task2 (rt_world rt2);
                      Some (Inr (requeue pid (task3\<lparr> proc_state := Ready \<rparr>) (rt2\<lparr> rt_world := w3 \<rparr>))) }
               else if wait task2 = None then
                 do { (task3, rt3) \<leftarrow> jit_calls arch hs dtor_calls (quieter (task2\<lparr> proc_state := Exited \<rparr>), rt2);
                      Some (Inr (rt3\<lparr> rt_tasks := (rt_tasks rt3)(pid \<mapsto> task3), rt_exits := rt_exits rt3 @ [pid] \<rparr>)) }
               else if proc_state task2 = Blocked then
                 Some (Inr (rt2\<lparr> rt_tasks := (rt_tasks rt2)(pid \<mapsto> quieter task2) \<rparr>))
               else if proc_state task2 = Ready then Some (Inr (requeue pid (quieter task2) rt2))
               else if proc_state task2 = Running then
                 Some (Inr (requeue pid ((quieter task2)\<lparr> proc_state := Ready \<rparr>) rt2))
               else Some (Inr (rt2\<lparr> rt_tasks := (rt_tasks rt2)(pid \<mapsto> task2) \<rparr>)) })"

text \<open>The loop under a clock and a program: at turn \<open>k\<close> the clock shows \<open>clock k\<close>, and the running
  task makes the calls the program gives for the state.\<close>

fun run_until_idle ::
  "TaggedRefArch \<Rightarrow> 'w HeapServices \<Rightarrow> (nat \<Rightarrow> nat) \<Rightarrow> ('w Runtime \<Rightarrow> 'w Call list \<times> 'w Call list) \<Rightarrow> nat \<Rightarrow> nat \<Rightarrow> 'w Runtime
     \<Rightarrow> 'w Runtime option option" where
  "run_until_idle arch hs clock program k 0 rt = Some None"
| "run_until_idle arch hs clock program k (Suc fuel) rt =
     (case program rt of (calls, dtor_calls) \<Rightarrow>
        do { r \<leftarrow> run_turn arch hs (clock k) calls dtor_calls rt;
             case r of Inl done \<Rightarrow> Some (Some done) | Inr rt' \<Rightarrow> run_until_idle arch hs clock program (k + 1) fuel rt' })"

section \<open>A queued receiver that waits is re-queued for ever\<close>

definition idle_receiver :: "nat \<Rightarrow> 'w Runtime \<Rightarrow> bool" where
  "idle_receiver pid rt \<longleftrightarrow> rt_run_queue rt = [pid] \<and> tw_entries (rt_timers rt) = []
     \<and> (\<exists>t. rt_tasks rt pid = Some t \<and> wait t \<noteq> None \<and> mailbox t = [] \<and> runnable t = None)"

lemma no_timers_drain_rt:
  assumes "tw_entries (rt_timers rt) = []"
  shows "drain_expired_timers now rt = rt"
proof -
  have "(rt_timers rt)\<lparr> tw_entries := [] \<rparr> = rt_timers rt"
    using assms by (metis TimerWheel.surjective TimerWheel.update_convs(1) TimerWheel.select_convs(1))
  then show ?thesis
    using assms by (simp add: drain_expired_timers_def TimerWheel_drain_expired_def)
qed

lemma idle_receiver_turn:
  assumes "idle_receiver pid rt"
  shows "\<exists>rt'. run_turn arch hs now calls dtors rt = Some (Inr rt') \<and> idle_receiver pid rt'"
proof -
  obtain t park where t: "rt_run_queue rt = [pid]" "tw_entries (rt_timers rt) = []" "rt_tasks rt pid = Some t"
      "wait t = Some park" "mailbox t = []" "runnable t = None"
    using assms by (auto simp: idle_receiver_def)
  then show ?thesis
    by (simp add: run_turn_def no_timers_drain_rt run_quantum_def initial_scan_def reset_reduction_budget_def
        take_runnable_closure_def quieter_def requeue_def idle_receiver_def)
qed

lemma idle_receiver_spins:
  "idle_receiver pid rt \<Longrightarrow> run_until_idle arch hs clock program k fuel rt = Some None"
proof (induction fuel arbitrary: k rt)
  case (Suc fuel)
  obtain calls dtors where p: "program rt = (calls, dtors)"
    by fastforce
  obtain rt' where "run_turn arch hs (clock k) calls dtors rt = Some (Inr rt')" "idle_receiver pid rt'"
    using idle_receiver_turn [OF Suc.prems] by blast
  then show ?case
    using Suc.IH p by simp
qed simp

text \<open>The program: main spawns a receiver, sends it a message, yields, sends it another and ends; the
  receiver receives for ever.\<close>

definition receiver_program :: "AnyValueRef list list Runtime \<Rightarrow> AnyValueRef list list Call list \<times> AnyValueRef list list Call list" where
  "receiver_program rt =
     (if rt_run_queue rt = [1] then [Spawn (closure_word 0x2000), Send 2 (message 0x100), YieldMidFlight (closure_word 0x3000) 4000 0]
      else if hd (rt_run_queue rt) = 1 then [Send 2 (message 0x200)]
      else [Park 0 match_any [] [closure_word 0x4000] (Some [1]) 1 (- 1) 0], [])"

definition receiver_start :: "AnyValueRef list list Runtime" where
  "receiver_start = \<lparr> rt_tasks = [1 \<mapsto> (Process_new 1 4000)\<lparr> proc_state := Ready, runnable := Some 0x1000 \<rparr>],
     rt_run_queue = [1], rt_next_pid = 2, rt_timers = TimerWheel_new, rt_world = [], rt_exits = [] \<rparr>"

lemma receiver_start_spawned: "map_option snd (Option.bind (Runtime_new 1 []) (Runtime_spawn logging_services)) = Some receiver_start"
  by (simp add: Runtime_new_def Runtime_spawn_def logging_simps receiver_start_def set_runnable_closure_def ClosureRef_new_def
      Process_new_def DEFAULT_REDUCTIONS_PER_QUANTUM_def)

lemma logging_clear: "clear_should_gc logging_services pid w = w"
  by (simp add: logging_services_def)

lemmas jit_simps = run_turn_def receiver_program_def run_quantum_def spawn_closure_def send_via_def boundary_maintenance_def
  park_time_gc_def requeue_def quieter_def logging_clear no_timers_drain_rt TimerWheel_new_def

lemma spins_step:
  assumes "\<And>now. run_turn arch hs now (fst (program rt)) (snd (program rt)) rt = Some (Inr rt')"
    and "\<And>k fuel. run_until_idle arch hs clock program k fuel rt' = Some None"
  shows "run_until_idle arch hs clock program k fuel rt = Some None"
  using assms by (cases fuel) (auto simp: case_prod_beta)

definition receiver_waits :: "AnyValueRef list \<Rightarrow> nat \<Rightarrow> Process" where
  "receiver_waits mb quanta = (Process_new 2 4000)\<lparr> proc_state := (if mb = [] then Blocked else Ready), mailbox := mb, proc_ctx := Some wired,
     wait := Some any_park, quiet_quanta := quanta \<rparr>"

definition receiver_1 :: "AnyValueRef list list Runtime" where
  "receiver_1 = receiver_start\<lparr> rt_next_pid := 3, rt_tasks := [1 \<mapsto> main_yielded,
     2 \<mapsto> (Process_new 2 4000)\<lparr> proc_state := Ready, mailbox := [message 0x100], runnable := Some 0x2000 \<rparr>], rt_run_queue := [2, 1] \<rparr>"

definition receiver_2 :: "AnyValueRef list list Runtime" where
  "receiver_2 = receiver_1\<lparr> rt_tasks := [1 \<mapsto> main_yielded, 2 \<mapsto> receiver_waits [message 0x100] 1], rt_run_queue := [1, 2] \<rparr>"

definition receiver_3 :: "AnyValueRef list list Runtime" where
  "receiver_3 = receiver_1\<lparr> rt_tasks := [1 \<mapsto> main_yielded\<lparr> proc_state := Exited, runnable := None, quiet_quanta := Suc (Suc 0) \<rparr>,
     2 \<mapsto> (receiver_waits [message 0x100] 1)\<lparr> wait := None, runnable := Some 0x4000 \<rparr>], rt_run_queue := [2, 2],
     rt_world := [[message 0x200]], rt_exits := [1] \<rparr>"

definition receiver_4 :: "AnyValueRef list list Runtime" where
  "receiver_4 = receiver_3\<lparr> rt_tasks := (rt_tasks receiver_3)(2 \<mapsto> receiver_waits [message 0x100] (Suc (Suc 0))), rt_run_queue := [2, 2] \<rparr>"

definition receiver_5 :: "AnyValueRef list list Runtime" where
  "receiver_5 = receiver_3\<lparr> rt_tasks := (rt_tasks receiver_3)(2 \<mapsto> receiver_waits [] (Suc (Suc (Suc 0)))), rt_run_queue := [2],
     rt_world := [[message 0x200], [message 0x100]] \<rparr>"

lemmas receiver_defs = receiver_start_def receiver_1_def receiver_2_def receiver_3_def receiver_4_def receiver_5_def
  main_yielded_def receiver_waits_def any_park_def

lemma receiver_turn_1:
  "run_turn Arm64Tbi logging_services now (fst (receiver_program receiver_start)) (snd (receiver_program receiver_start)) receiver_start
     = Some (Inr receiver_1)"
  by (simp add: receiver_defs jit_simps run_simps fun_upd_twist del: for_arch.simps)

lemma receiver_turn_2:
  "run_turn Arm64Tbi logging_services now (fst (receiver_program receiver_1)) (snd (receiver_program receiver_1)) receiver_1
     = Some (Inr receiver_2)"
  by (simp add: receiver_defs jit_simps run_simps fun_upd_twist del: for_arch.simps)

lemma receiver_turn_3:
  "run_turn Arm64Tbi logging_services now (fst (receiver_program receiver_2)) (snd (receiver_program receiver_2)) receiver_2
     = Some (Inr receiver_3)"
  by (simp add: receiver_defs jit_simps run_simps fun_upd_twist del: for_arch.simps)

lemma receiver_turn_4:
  "run_turn Arm64Tbi logging_services now (fst (receiver_program receiver_3)) (snd (receiver_program receiver_3)) receiver_3
     = Some (Inr receiver_4)"
  by (simp add: receiver_defs jit_simps run_simps fun_upd_twist del: for_arch.simps)

lemma receiver_turn_5:
  "run_turn Arm64Tbi logging_services now (fst (receiver_program receiver_4)) (snd (receiver_program receiver_4)) receiver_4
     = Some (Inr receiver_5)"
  by (simp add: receiver_defs jit_simps run_simps fun_upd_twist restore_scanned_append del: for_arch.simps)

text \<open>
  C36.  The in-process loop need not become idle.  Main sends a receiver two messages and ends, the
  receiver receives both and waits for a third that nobody can send: the second message queued the
  receiver a second time, and the turn that finds it waiting on an empty mailbox marks it ready and
  queues it again, for ever.  No number of turns ends the loop, at any time of the clock.
\<close>

theorem Jit_loop_never_idle:
  "map_option snd (Option.bind (Runtime_new 1 []) (Runtime_spawn logging_services)) = Some receiver_start
   \<and> run_until_idle Arm64Tbi logging_services clock receiver_program 0 fuel receiver_start = Some None"
proof
  show "map_option snd (Option.bind (Runtime_new 1 []) (Runtime_spawn logging_services)) = Some receiver_start"
    by (rule receiver_start_spawned)
  have idle: "idle_receiver 2 receiver_5"
    by (simp add: idle_receiver_def receiver_defs TimerWheel_new_def Process_new_def)
  show "run_until_idle Arm64Tbi logging_services clock receiver_program 0 fuel receiver_start = Some None"
    by (rule spins_step [of Arm64Tbi logging_services receiver_program, OF receiver_turn_1],
        rule spins_step [of Arm64Tbi logging_services receiver_program, OF receiver_turn_2],
        rule spins_step [of Arm64Tbi logging_services receiver_program, OF receiver_turn_3],
        rule spins_step [of Arm64Tbi logging_services receiver_program, OF receiver_turn_4],
        rule spins_step [of Arm64Tbi logging_services receiver_program, OF receiver_turn_5], rule idle_receiver_spins [OF idle])
qed

section \<open>Pending timers\<close>

lemma closure_word_nonzero: "closure_word a \<noteq> 0"
proof
  assume "closure_word a = 0"
  then have "packing_tag (for_arch Arm64Tbi) 0 = Inr CLOSURE"
    by (metis closure_word_def packing_tag_pack)
  then show False
    by (simp add: packing_tag_def ValueKind_new_def)
qed

definition never_match :: MatcherFn where
  "never_match msg pins out = (0, out)"

definition sleeper_rt :: "AnyValueRef list list Runtime" where
  "sleeper_rt = receiver_start\<lparr> rt_run_queue := [], rt_timers := \<lparr> tw_entries = [\<lparr> te_id = 1, te_deadline = 100, te_pid = 1 \<rparr>], tw_next_id = 2 \<rparr>,
     rt_tasks := [1 \<mapsto> (Process_new 1 4000)\<lparr> proc_state := Blocked, proc_ctx := Some wired, quiet_quanta := 1,
       wait := Some \<lparr> matcher_fn = never_match, pinned = [], clause_bodies = [], clause_bound_counts = [], bound_arity = 0,
         after_deadline_ms = Some 100, after_cont = 0x3000, after_timer_id = Some 1 \<rparr> \<rparr>] \<rparr>"

text \<open>
  C37.  The in-process loop does not wait for timers.  A main process that only sleeps, a receive
  with an after-clause of 100, blocks with its timer in the wheel; at every instant before the
  deadline the next turn ends the loop, with the process still waiting and its timer pending, where
  the loop of compiled programs sleeps and then runs the after-clause.
\<close>

theorem Jit_loop_drops_pending_timers:
  assumes "now < 100"
  shows "run_turn Arm64Tbi logging_services 0 [Park 0 never_match [] [] (Some []) 0 100 (closure_word 0x3000)] [] receiver_start
      = Some (Inr sleeper_rt)
    \<and> run_turn Arm64Tbi logging_services now calls dtors sleeper_rt = Some (Inl sleeper_rt)
    \<and> TimerWheel_next_deadline (rt_timers sleeper_rt) = Some 100"
proof (intro conjI)
  show "run_turn Arm64Tbi logging_services 0 [Park 0 never_match [] [] (Some []) 0 100 (closure_word 0x3000)] [] receiver_start
      = Some (Inr sleeper_rt)"
    by (simp add: receiver_start_def sleeper_rt_def jit_simps run_simps timer_schedule_def wired_def TimerWheel_schedule_def
        binary_search_by_def closure_word_nonzero del: for_arch.simps)
  show "run_turn Arm64Tbi logging_services now calls dtors sleeper_rt = Some (Inl sleeper_rt)"
    using assms by (simp add: sleeper_rt_def receiver_start_def run_turn_def drain_expired_timers_def TimerWheel_drain_expired_def)
qed (simp add: sleeper_rt_def TimerWheel_next_deadline_def)

theorem Jit_loop_drops_pending_timers_witness:
  "run_turn Arm64Tbi logging_services 0 [] [] sleeper_rt = Some (Inl sleeper_rt)"
  using Jit_loop_drops_pending_timers [of 0 "[]" "[]"] by simp

section \<open>Collection at a park\<close>

text \<open>The collector is not given the pinned values of a park: after a collection the closures are the
  forwarded ones, the pinned references are the ones from before it.\<close>

lemma park_time_gc_keeps_pinned:
  assumes "park_time_gc hs p w = Some (p', w')" and "wait p = Some park"
  shows "\<exists>park'. wait p' = Some park' \<and> pinned park' = pinned park"
  using assms by (auto simp: park_time_gc_def Let_def clear_yield_reasons_def set_runnable_closure_def
      split: if_splits option.splits Option.bind_splits)

end
