(* ===== verification/Fz_Outcome.thy ===== *)
theory Fz_Outcome
  imports Fz_Heap Fz_ListCell Fz_Receive
begin

unbundle bit_operations_syntax

text \<open>
  Closures built by the runtime: allocation of a closure object (\<open>alloc_closure_slots\<close> and
  \<open>alloc_closure\<close> of \<open>heap/imp.rs\<close>), the outcome closure of a matched receive
  (\<open>materialize_outcome_closure\<close> of \<open>park.rs\<close>) and the entry thunks of new tasks (\<open>sched.rs\<close>), over the
  byte memory and the allocator.  The theorem gives the environment of an outcome closure.
\<close>

section \<open>Allocation of a closure\<close>

definition alloc_closure_slots ::
  "alloc_zeroed \<Rightarrow> World \<Rightarrow> Heap \<Rightarrow> ClosureDenotationId \<Rightarrow> u16 \<Rightarrow> nat \<Rightarrow> u16 \<Rightarrow> (u64 \<times> World \<times> Heap) option" where
  "alloc_closure_slots sys w h denotation arity captured_count halt_kind =
     (if unat CLOSURE_FLAGS_CAPTURED_MASK < captured_count then None
      else let total = closure_size_for_count captured_count
           in do { (p, w', h') \<leftarrow> alloc_kind sys w h ClosureAlloc total;
                   header \<leftarrow> closure_header_word (of_nat captured_count) halt_kind arity;
                   let m1 = write_u32 (mem w') p (as_u32 denotation);
                   let m2 = write_u32 m1 (p + of_nat 4) header;
                   let m3 = write_u64 m2 (p + of_nat 8) 0;
                   let m4 = (if 16 < total then zero_bytes m3 (p + of_nat 16) (total - 16) else m3);
                   bits \<leftarrow> to_option (heap_object_word p CLOSURE);
                   Some (bits, w'\<lparr> mem := m4 \<rparr>, h') })"

fun set_captures :: "TaggedRefArch \<Rightarrow> u64 \<Rightarrow> nat \<Rightarrow> AnyValue list \<Rightarrow> memory \<Rightarrow> memory option" where
  "set_captures arch p i [] m = Some m"
| "set_captures arch p i (v # vs) m =
     do { m' \<leftarrow> to_option (closure_capture_set arch m p i v); set_captures arch p (i + 1) vs m' }"

definition alloc_closure ::
  "TaggedRefArch \<Rightarrow> alloc_zeroed \<Rightarrow> World \<Rightarrow> Heap \<Rightarrow> ClosureDenotationId \<Rightarrow> u16 \<Rightarrow> nat \<Rightarrow> u16 \<Rightarrow> u64 \<Rightarrow> AnyValue list
     \<Rightarrow> (u64 \<times> World \<times> Heap) option" where
  "alloc_closure arch sys w h denotation arity captured_count halt_kind fn_ptr captures =
     (if captured_count < length captures then None
      else do { (bits, w', h') \<leftarrow> alloc_closure_slots sys w h denotation arity captured_count halt_kind;
                p \<leftarrow> closure_addr_from_tagged bits;
                m \<leftarrow> set_captures arch p 0 captures (write_u64 (mem w') (p + of_nat 8) fn_ptr);
                Some (bits, w'\<lparr> mem := m \<rparr>, h') })"

section \<open>The outcome of a receive\<close>

fun set_bounds :: "TaggedRefArch \<Rightarrow> u64 \<Rightarrow> nat \<Rightarrow> AnyValueRef list \<Rightarrow> memory \<Rightarrow> memory option" where
  "set_bounds arch p i [] m = Some m"
| "set_bounds arch p i (v # vs) m =
     do { m' \<leftarrow> to_option (closure_capture_set_ref_word arch m p (i + 1) v); set_bounds arch p (i + 1) vs m' }"

definition copy_captures :: "u64 \<Rightarrow> u64 \<Rightarrow> nat \<Rightarrow> nat \<Rightarrow> memory \<Rightarrow> memory" where
  "copy_captures template outcome caps bounds m =
     fold (\<lambda>i m. closure_capture_copy m template (i + 1) outcome (1 + bounds + i)) [0..<caps] m"

definition materialize_outcome_closure ::
  "TaggedRefArch \<Rightarrow> alloc_zeroed \<Rightarrow> World \<Rightarrow> Heap \<Rightarrow> u64 \<Rightarrow> AnyValueRef list \<Rightarrow> (u64 \<times> World \<times> Heap) option" where
  "materialize_outcome_closure arch sys w h template bound_vals =
     (let t = (case closure_addr_from_tagged template of Some a \<Rightarrow> a | None \<Rightarrow> template);
          flags = closure_flags (mem w) t;
          template_slots = unat (closure_flags_captured flags)
      in if template_slots < 1 then None
         else do { (bits, w1, h1) \<leftarrow> alloc_closure_slots sys w h (closure_denotation (mem w) t) (closure_arity (mem w) t)
                     (template_slots + length bound_vals) (closure_flags_halt_kind flags);
                   p \<leftarrow> closure_addr_from_tagged bits;
                   let m1 = write_u64 (mem w1) (p + of_nat 8) (read_u64 (mem w1) (t + of_nat 8));
                   let m2 = closure_capture_copy m1 t 0 p 0;
                   m3 \<leftarrow> set_bounds arch p 0 bound_vals m2;
                   let m4 = copy_captures t p (template_slots - 1) (length bound_vals) m3;
                   Some (p, w1\<lparr> mem := m4 \<rparr>, h1) })"

section \<open>Entry thunks\<close>

definition SCAFFOLDING_ARITY :: u16 where "SCAFFOLDING_ARITY = 0"

definition mint_entry_thunk ::
  "TaggedRefArch \<Rightarrow> alloc_zeroed \<Rightarrow> World \<Rightarrow> Heap \<Rightarrow> u64 \<Rightarrow> u64 \<Rightarrow> (u64 \<times> World \<times> Heap) option" where
  "mint_entry_thunk arch sys w h entry_thunk_addr inner =
     do { (bits, w1, h1) \<leftarrow> alloc_closure_slots sys w h ClosureDenotationId_INTERNAL SCAFFOLDING_ARITY 1 0;
          p \<leftarrow> closure_addr_from_tagged bits;
          inner_ref \<leftarrow> to_option (from_heap_object arch CLOSURE inner);
          let m1 = write_u64 (mem w1) (p + of_nat 8) entry_thunk_addr;
          m2 \<leftarrow> to_option (closure_capture_set arch m1 p 0 (HeapRef inner_ref));
          Some (p, w1\<lparr> mem := m2 \<rparr>, h1) }"

definition mint_main_inner ::
  "TaggedRefArch \<Rightarrow> alloc_zeroed \<Rightarrow> World \<Rightarrow> Heap \<Rightarrow> u64 \<Rightarrow> u64 \<Rightarrow> u16 \<Rightarrow> (u64 \<times> World \<times> Heap) option" where
  "mint_main_inner arch sys w h main_trampoline_addr main_fp halt_kind =
     do { (bits, w1, h1) \<leftarrow> alloc_closure_slots sys w h ClosureDenotationId_INTERNAL SCAFFOLDING_ARITY 1 halt_kind;
          p \<leftarrow> closure_addr_from_tagged bits;
          let m1 = write_u64 (mem w1) (p + of_nat 8) main_trampoline_addr;
          m2 \<leftarrow> to_option (closure_capture_set arch m1 p 0 (Integer main_fp));
          Some (p, w1\<lparr> mem := m2 \<rparr>, h1) }"

section \<open>Memory in use\<close>

definition agree :: "Heap \<Rightarrow> memory \<Rightarrow> memory \<Rightarrow> bool" where
  "agree h m m' \<longleftrightarrow> (\<forall>s \<in> set (used_regions h). \<forall>x. in_region x s \<longrightarrow> m' x = m x)"

definition live :: "Heap \<Rightarrow> region \<Rightarrow> bool" where
  "live h r \<longleftrightarrow> region_ok r \<and> (\<exists>s \<in> set (used_regions h). inside r s)"

definition fresh :: "Heap \<Rightarrow> region \<Rightarrow> bool" where
  "fresh h r \<longleftrightarrow> region_ok r \<and> (\<forall>s \<in> set (used_regions h). apart_regions s r)"

lemma store_outside:
  assumes "region_ok (p, n)" and "off + length bs \<le> n" and "\<not> in_region x (p, n)"
  shows "store m (p + of_nat off) bs x = m x"
proof (cases "bs = []")
  case False
  have p: "unat p + n < 2 ^ 56"
    using assms(1) by (simp add: region_ok_def)
  then have q: "unat (p + of_nat off) = unat p + off"
    using assms(2) by (intro unat_add_of_nat) simp
  have "length bs \<le> unat (x - (p + of_nat off))"
    using assms(2,3) p q False unsigned_less [of x, where ?'a = nat]
    by (auto simp: in_region_def unat_sub_if' word_size)
  then show ?thesis
    by (simp add: store_def)
qed (simp add: store_def)

lemma agree_store:
  assumes "agree h m m1" and "fresh h (p, n)" and "off + length bs \<le> n"
  shows "agree h m (store m1 (p + of_nat off) bs)"
  using assms store_outside [OF _ assms(3)] in_region_apart unfolding agree_def fresh_def by metis

lemma agree_writes:
  assumes "agree h m m1" and "fresh h (p, n)"
  shows "off + 1 \<le> n \<Longrightarrow> agree h m (write_u8 m1 (p + of_nat off) b)"
    and "off + 4 \<le> n \<Longrightarrow> agree h m (write_u32 m1 (p + of_nat off) d)"
    and "off + 8 \<le> n \<Longrightarrow> agree h m (write_u64 m1 (p + of_nat off) q)"
    and "off + k \<le> n \<Longrightarrow> agree h m (zero_bytes m1 (p + of_nat off) k)"
  using agree_store [OF assms] by (simp_all add: write_u8_def write_u32_def write_u64_def zero_bytes_def)

lemma agree_load:
  assumes "agree h m m'" and "live h (t, n)" and "off + k \<le> n"
  shows "load m' (t + of_nat off) k = load m (t + of_nat off) k"
proof -
  obtain s where s: "s \<in> set (used_regions h)" "inside (t, n) s" and t: "unat t + n < 2 ^ 56"
    using assms(2) by (auto simp: live_def region_ok_def)
  have "m' (t + of_nat off + of_nat i) = m (t + of_nat off + of_nat i)" if "i < k" for i
  proof -
    have "unat (t + of_nat (off + i)) = unat t + (off + i)"
      using t assms(3) that by (intro unat_add_of_nat) simp
    then have "in_region (t + of_nat (off + i)) s"
      using s(2) assms(3) that by (auto simp: in_region_def inside_def)
    then show ?thesis
      using assms(1) s(1) by (simp add: agree_def add.assoc)
  qed
  then show ?thesis
    by (simp add: load_def)
qed

lemma agree_reads:
  assumes "agree h m m'" and "live h (t, n)"
  shows "off + 1 \<le> n \<Longrightarrow> read_u8 m' (t + of_nat off) = read_u8 m (t + of_nat off)"
    and "off + 4 \<le> n \<Longrightarrow> read_u32 m' (t + of_nat off) = read_u32 m (t + of_nat off)"
    and "off + 8 \<le> n \<Longrightarrow> read_u64 m' (t + of_nat off) = read_u64 m (t + of_nat off)"
  using agree_load [OF assms] by (simp_all add: read_u8_load read_u32_def read_u64_def)

section \<open>A closure under construction\<close>

definition cap :: "u64 \<Rightarrow> nat \<Rightarrow> memory \<Rightarrow> nat \<Rightarrow> u64 \<times> u8" where
  "cap p n m i = (read_u64 m (p + of_nat (16 + i * 8)), read_u8 m (p + of_nat (16 + n * 8 + i)))"

definition cap_value :: "TaggedRefArch \<Rightarrow> u64 \<times> u8 \<Rightarrow> AnyValue ref_outcome" where
  "cap_value arch c =
     and_then (expect_some (ValueKind_new (snd c))) (\<lambda>kind. and_then (decode_parts arch (fst c) (ValueKind_tag kind)) expect_some)"

lemma closure_capture_value_cap:
  "n = closure_captured_count m p \<Longrightarrow> closure_capture_value arch m p i = cap_value arch (cap p n m i)"
  by (cases "ValueKind_new (snd (cap p n m i))")
    (simp_all add: closure_capture_value_def closure_capture_raw_kind_def closure_capture_raw_slot_def closure_capture_kind_slot_def
      cap_def cap_value_def Let_def del: of_nat_add of_nat_mult of_nat_numeral)

text \<open>What holds of the memory while the closure at \<open>p\<close> is filled: memory in use is as in \<open>m0\<close>, the
  header and the code pointer are written, and the slots hold \<open>c\<close>.\<close>

definition built :: "Heap \<Rightarrow> memory \<Rightarrow> u64 \<Rightarrow> nat \<Rightarrow> u32 \<Rightarrow> u32 \<Rightarrow> u64 \<Rightarrow> memory \<Rightarrow> (nat \<Rightarrow> u64 \<times> u8) \<Rightarrow> bool" where
  "built h m0 p n denot header code m c \<longleftrightarrow> agree h m0 m \<and> closure_captured_count m p = n
     \<and> read_u32 m p = denot \<and> read_u32 m (p + of_nat 4) = header \<and> read_u64 m (p + of_nat 8) = code
     \<and> (\<forall>i < n. cap p n m i = c i)"

lemma built_put:
  assumes "built h m0 p n denot header code m c" and "fresh h (p, sz)" and "16 + 9 * n \<le> sz" and "i < n"
  shows "built h m0 p n denot header code (put_capture m p n i raw b) (c(i := (raw, b)))"
proof -
  have n: "n = closure_captured_count m p" "n < 2 ^ 14"
    using assms(1) closure_captured_count_less [of m p] by (simp_all add: built_def)
  have "agree h m0 (put_capture m p n i raw b)"
    unfolding put_capture_def using assms(1,3,4)
    by (intro agree_writes(1) [OF agree_writes(3)] assms(2)) (auto simp: built_def assms(2) intro: assms(2))
  then show ?thesis
    using assms(1,4) put_capture_count [OF n(1) assms(4)] put_capture_header [OF n(2) assms(4)] put_capture_slots [OF n(2) assms(4)]
    by (simp add: built_def cap_def del: of_nat_add of_nat_mult of_nat_numeral)
qed

lemma closure_capture_copy_put:
  assumes "built h m0 p n denot header code m c" and "fresh h (p, sz)" and "16 + 9 * n \<le> sz" and "di < n"
    and live: "live h (t, closure_size_for_count k)" "k = closure_captured_count m0 t" and "si < k"
  shows "closure_capture_copy m t si p di = put_capture m p n di (fst (cap t k m0 si)) (snd (cap t k m0 si))"
proof -
  have agree: "agree h m0 m" and n: "n = closure_captured_count m p" "n < 2 ^ 14"
    using assms(1) closure_captured_count_less [of m p] by (simp_all add: built_def)
  have size: "16 + 9 * k \<le> closure_size_for_count k"
    using closure_size_covers by simp
  have "closure_captured_count m t = k"
    using agree_reads(2) [OF agree live(1), of 4] size live(2) \<open>si < k\<close>
    by (simp add: closure_captured_count_def closure_flags_def)
  moreover have "cap t k m si = cap t k m0 si"
    using agree_reads(1,3) [OF agree live(1)] size \<open>si < k\<close> by (simp add: cap_def del: of_nat_add of_nat_mult of_nat_numeral)
  moreover have "closure_captured_count (write_u64 m (p + of_nat (16 + di * 8)) w) p = n" for w
    using n \<open>di < n\<close> read_write_apart(6) [of 4 "16 + di * 8" m p w]
    by (simp add: closure_captured_count_def closure_flags_def apart_def)
  ultimately show ?thesis
    by (simp add: closure_capture_copy_def put_capture_def Let_def closure_capture_raw_slot_def closure_capture_kind_slot_def
        cap_def del: of_nat_add of_nat_mult of_nat_numeral)
qed

text \<open>A bound reference whose value does not depend on memory outside the heap in use.\<close>

definition stable_ref :: "TaggedRefArch \<Rightarrow> Heap \<Rightarrow> memory \<Rightarrow> AnyValueRef \<Rightarrow> AnyValue \<Rightarrow> bool" where
  "stable_ref arch h m0 b v \<longleftrightarrow> from_raw_word arch b = Inr b \<and> valid_value arch v \<and> aligned_value arch v
     \<and> (\<forall>m. agree h m0 m \<longrightarrow> from_ref arch m b = Inr v)"

lemma set_bounds_built:
  assumes "list_all2 (stable_ref arch h m0) bs vs" and "built h m0 p n denot header code m c"
    and "fresh h (p, sz)" and "16 + 9 * n \<le> sz" and "i + length bs < n"
  shows "\<exists>m' c'. set_bounds arch p i bs m = Some m' \<and> built h m0 p n denot header code m' c'
    \<and> (\<forall>j. j \<le> i \<or> i + length bs < j \<longrightarrow> c' j = c j) \<and> (\<forall>j < length bs. cap_value arch (c' (i + 1 + j)) = Inr (vs ! j))"
  using assms
proof (induction bs vs arbitrary: i m c rule: list_all2_induct)
  case (Cons b bs v vs)
  have agree: "agree h m0 m" and n: "n = closure_captured_count m p"
    using Cons.prems(1) by (simp_all add: built_def)
  have b: "from_raw_word arch b = Inr b" "from_ref arch m b = Inr v" "valid_value arch v" "aligned_value arch v"
    using Cons.hyps(1) agree by (simp_all add: stable_ref_def)
  obtain raw k where set: "closure_capture_set arch m p (i + 1) v = Inr (put_capture m p n (i + 1) raw (ValueKind_tag k))"
    and dec: "decode_parts arch raw (ValueKind_tag k) = Inr (Some v)"
  proof (rule capture_set_ok [OF b(3,4) n, of "i + 1"])
    show "i + 1 < n"
      using Cons.prems(4) by simp
  qed blast
  let ?m = "put_capture m p n (i + 1) raw (ValueKind_tag k)" and ?c = "c(i + 1 := (raw, ValueKind_tag k))"
  have "i + 1 < n" and lt: "i + 1 + length bs < n"
    using Cons.prems(4) by simp_all
  note IH = Cons.IH [OF built_put [OF Cons.prems(1,2,3) this(1)] Cons.prems(2,3) lt]
  obtain m' c' where m': "set_bounds arch p (i + 1) bs ?m = Some m'" "built h m0 p n denot header code m' c'"
      "\<forall>j. j \<le> i + 1 \<or> i + 1 + length bs < j \<longrightarrow> c' j = ?c j" "\<forall>j < length bs. cap_value arch (c' (i + 1 + 1 + j)) = Inr (vs ! j)"
    using IH [of raw "ValueKind_tag k"] by blast
  have "cap_value arch (c' (i + 1)) = Inr v"
    using m'(3) dec by (simp add: cap_value_def)
  then have "\<forall>j < length (b # bs). cap_value arch (c' (i + 1 + j)) = Inr ((v # vs) ! j)"
    using m'(4) by (auto simp: less_Suc_eq_0_disj)
  moreover have "set_bounds arch p i (b # bs) m = Some m'"
    using set b(1,2) m'(1) by (simp add: closure_capture_set_ref_word_def to_option_def)
  moreover have "\<forall>j. j \<le> i \<or> i + length (b # bs) < j \<longrightarrow> c' j = c j"
    using m'(3) by auto
  ultimately show ?case
    using m'(2) by blast
qed auto

lemma copy_captures_built:
  assumes "built h m0 p n denot header code m c" and "fresh h (p, sz)" and "16 + 9 * n \<le> sz" and "1 + bounds + caps \<le> n"
    and "live h (t, closure_size_for_count k)" "k = closure_captured_count m0 t" and "caps < k"
  shows "built h m0 p n denot header code (copy_captures t p caps bounds m)
    (\<lambda>j. if 1 + bounds \<le> j \<and> j < 1 + bounds + caps then cap t k m0 (j - bounds) else c j)"
  using assms(4,7)
proof (induction caps)
  case 0
  have "(\<lambda>j. if 1 + bounds \<le> j \<and> j < 1 + bounds + 0 then cap t k m0 (j - bounds) else c j) = c"
    by (rule ext) auto
  then show ?case
    using assms(1) by (simp add: copy_captures_def)
next
  case (Suc caps)
  let ?c = "\<lambda>j. if 1 + bounds \<le> j \<and> j < 1 + bounds + caps then cap t k m0 (j - bounds) else c j"
  let ?x = "cap t k m0 (caps + 1)"
  have IH: "built h m0 p n denot header code (copy_captures t p caps bounds m) ?c"
    using Suc by simp
  have "copy_captures t p (Suc caps) bounds m = put_capture (copy_captures t p caps bounds m) p n (1 + bounds + caps) (fst ?x) (snd ?x)"
    using closure_capture_copy_put [OF IH assms(2,3) _ assms(5,6), of "1 + bounds + caps" "caps + 1"] Suc.prems
    by (simp add: copy_captures_def)
  moreover have "built h m0 p n denot header code (put_capture (copy_captures t p caps bounds m) p n (1 + bounds + caps) (fst ?x) (snd ?x))
      (?c(1 + bounds + caps := (fst ?x, snd ?x)))"
    using Suc.prems by (intro built_put [OF IH assms(2,3)]) simp
  moreover have "?c(1 + bounds + caps := (fst ?x, snd ?x)) =
      (\<lambda>j. if 1 + bounds \<le> j \<and> j < 1 + bounds + Suc caps then cap t k m0 (j - bounds) else c j)"
    by (auto simp: fun_eq_iff)
  ultimately show ?case
    by simp
qed

section \<open>The new object\<close>

lemma closure_tagged_roundtrip:
  assumes "unat p mod 16 = 0"
  shows "heap_object_word p CLOSURE = Inr (p OR 4)" and "closure_addr_from_tagged (p OR 4) = Some p"
    and "closure_addr_from_tagged p = None"
proof -
  have p: "p AND TAG_MASK = 0"
    using assms by (simp add: aligned_unat)
  show "heap_object_word p CLOSURE = Inr (p OR 4)"
    using p by (simp add: heap_object_word_def is_heap_cases)
  have bits: "\<not> bit p n" if "n < 4" for n
    using arg_cong [OF p, of "\<lambda>w. bit w n"] that by (simp add: bit_and_iff)
  have four: "bit (4 :: u64) n \<longleftrightarrow> n = 2" for n
    using bit_exp_iff [of 2 n, where ?'a = "64 word"] by auto
  have "(p OR 4) AND TAG_MASK = 4"
    by (rule bit_word_eqI) (auto simp only: bit_and_iff bit_or_iff four bit_TAG_MASK dest: bits)
  moreover have "(p OR 4) AND NOT TAG_MASK = p"
    by (rule bit_word_eqI) (auto simp only: bit_and_iff bit_or_iff bit_not_iff possible_bit_word four bit_TAG_MASK dest: bits)
  ultimately show "closure_addr_from_tagged (p OR 4) = Some p"
    by (simp add: addr_from_tagged_def)
  show "closure_addr_from_tagged p = None"
    using p by (simp add: addr_from_tagged_def)
qed

lemma alloc_closure_slots_built:
  assumes alloc: "alloc_kind sys w h ClosureAlloc (closure_size_for_count n) = Some (p, w1, h1)"
    and "allocator_ok sys" and "owned w h" and n: "n \<le> 0x3FFF" and header: "closure_header_word (of_nat n) halt arity = Some header"
  shows "\<exists>m. alloc_closure_slots sys w h d arity n halt = Some (p OR 4, w1\<lparr> mem := m \<rparr>, h1)
    \<and> fresh h (p, closure_size_for_count n) \<and> unat p mod 16 = 0 \<and> owned w1 h1
    \<and> built h (mem w) p n (as_u32 d) header 0 m (cap p n m)"
proof -
  let ?sz = "closure_size_for_count n"
  have given: "object_given w h (p, clear_low 4 (?sz + 15)) w1 h1"
    by (rule alloc_kind_given [OF assms(2,3) alloc])
  have size: "16 + 9 * n \<le> ?sz" "?sz \<le> clear_low 4 (?sz + 15)"
    using closure_size_covers [of n] round_up_16(1) [of ?sz] by auto
  have p: "unat p mod 16 = 0" and own: "owned w1 h1" and fresh: "fresh h (p, ?sz)"
    using given size(2) by (auto simp: object_given_def fresh_def region_ok_def apart_regions_def)
  have agree: "agree h (mem w) (mem w1)"
    using given by (simp add: object_given_def agree_def)
  define m1 where "m1 = write_u32 (mem w1) p (as_u32 d)"
  define m2 where "m2 = write_u32 m1 (p + of_nat 4) header"
  define m3 where "m3 = write_u64 m2 (p + of_nat 8) 0"
  define m where "m = (if 16 < ?sz then zero_bytes m3 (p + of_nat 16) (?sz - 16) else m3)"
  have slots: "alloc_closure_slots sys w h d arity n halt = Some (p OR 4, w1\<lparr> mem := m \<rparr>, h1)"
    using alloc header n closure_tagged_roundtrip(1) [OF p]
    by (simp add: alloc_closure_slots_def m_def m3_def m2_def m1_def Let_def to_option_def CLOSURE_FLAGS_CAPTURED_MASK_def)
  have "agree h (mem w) m1"
    using agree_writes(2) [OF agree fresh, of 0] size by (simp add: m1_def)
  then have "agree h (mem w) m2"
    using agree_writes(2) [OF _ fresh, of "mem w" m1 4] size by (simp add: m2_def)
  then have "agree h (mem w) m3"
    using agree_writes(3) [OF _ fresh, of "mem w" m2 8] size by (simp add: m3_def)
  then have "agree h (mem w) m"
    using agree_writes(4) [OF _ fresh, of "mem w" m3 16 "?sz - 16"] by (simp add: m_def)
  moreover have "load m (p + of_nat i) k = load m3 (p + of_nat i) k" if "i + k \<le> 16" for i k
    using load_store_apart [of i k 16 "replicate (?sz - 16) 0" m3 p] that fresh
    by (auto simp: m_def zero_bytes_def apart_def fresh_def region_ok_def)
  from this [of 0 4] this [of 4 4] this [of 8 8]
  have "read_u32 m p = read_u32 m3 p" "read_u32 m (p + of_nat 4) = read_u32 m3 (p + of_nat 4)"
    "read_u64 m (p + of_nat 8) = read_u64 m3 (p + of_nat 8)"
    by (simp_all add: read_u32_def read_u64_def)
  then have "read_u32 m p = as_u32 d" "read_u32 m (p + of_nat 4) = header" "read_u64 m (p + of_nat 8) = 0"
    using read_write_apart(6) [of 0 8 m2 p 0] read_write_apart(6) [of 4 8 m2 p 0] read_write_apart(5) [of 0 4 m1 p header]
    by (simp_all add: m3_def m2_def m1_def apart_def)
  moreover from this have "closure_captured_count m p = n"
    using closure_header_fields(1) [OF header] n by (simp add: closure_captured_count_def closure_flags_def unat_of_nat)
  ultimately have "built h (mem w) p n (as_u32 d) header 0 m (cap p n m)"
    by (simp add: built_def)
  then show ?thesis
    by (intro exI [of _ m] conjI slots p own fresh)
qed

lemma built_code:
  assumes "built h m0 p n denot header code m c" and "fresh h (p, sz)" and "16 + 9 * n \<le> sz"
  shows "built h m0 p n denot header code' (write_u64 m (p + of_nat 8) code') c"
proof -
  have "agree h m0 (write_u64 m (p + of_nat 8) code')"
    using assms(1,3) by (intro agree_writes(3) [OF _ assms(2)]) (simp_all add: built_def)
  moreover have "read_u32 (write_u64 m (p + of_nat 8) code') (p + of_nat i) = read_u32 m (p + of_nat i)" if "i \<le> 4" for i
    using that by (intro read_write_apart) (simp add: apart_def)
  note this [of 0] this [of 4]
  moreover have "n < 2 ^ 14"
    using assms(1) closure_captured_count_less [of m p] by (simp add: built_def)
  then have "cap p n (write_u64 m (p + of_nat 8) code') i = cap p n m i" if "i < n" for i
    using that read_write_apart(9) [of "16 + i * 8" 8 m p code'] read_write_apart(3) [of "16 + n * 8 + i" 8 m p code']
    by (simp add: cap_def apart_def del: of_nat_add of_nat_mult of_nat_numeral)
  ultimately show ?thesis
    using assms(1) by (auto simp: built_def closure_captured_count_def closure_flags_def)
qed

lemma header_of_template:
  assumes "n \<le> 0x3FFF"
  obtains header where "closure_header_word (of_nat n) (closure_halt_kind m t) (closure_arity m t) = Some header"
proof -
  have "unat (closure_halt_kind m t) \<le> 3"
    using unsigned_less [of "closure_flags m t", where ?'a = nat]
    by (simp add: closure_halt_kind_def closure_flags_halt_kind_def CLOSURE_FLAGS_HALT_KIND_SHIFT_def drop_bit_eq_div unat_div)
  moreover have "(of_nat n :: u16) \<le> CLOSURE_FLAGS_CAPTURED_MASK"
    using assms by (simp add: word_le_nat_alt unat_of_nat CLOSURE_FLAGS_CAPTURED_MASK_def)
  ultimately show thesis
    using that by (auto simp: closure_header_word_def closure_flags_pack_def word_le_nat_alt)
qed

lemma outcome_built:
  assumes "allocator_ok sys" and "owned w h" and "unat t mod 16 = 0"
    and live: "live h (t, closure_size_for_count k)" and k: "k = closure_captured_count (mem w) t"
    and "1 \<le> k" and n: "n = k + length bs" "n \<le> 0x3FFF" and bs: "list_all2 (stable_ref arch h (mem w)) bs vs"
    and alloc: "alloc_kind sys w h ClosureAlloc (closure_size_for_count n) = Some (p, w1, h1)"
    and header: "closure_header_word (of_nat n) (closure_halt_kind (mem w) t) (closure_arity (mem w) t) = Some header"
  shows "\<exists>m c. materialize_outcome_closure arch sys w h t bs = Some (p, w1\<lparr> mem := m \<rparr>, h1)
    \<and> built h (mem w) p n (read_u32 (mem w) t) header (closure_fn_ptr (mem w) t) m c
    \<and> c 0 = cap t k (mem w) 0 \<and> (\<forall>j < length bs. cap_value arch (c (1 + j)) = Inr (vs ! j))
    \<and> (\<forall>j < k - 1. c (1 + length bs + j) = cap t k (mem w) (1 + j))"
proof -
  have size: "16 + 9 * n \<le> closure_size_for_count n" "16 + 9 * k \<le> closure_size_for_count k"
    using closure_size_covers by auto
  obtain m where slots: "alloc_closure_slots sys w h (closure_denotation (mem w) t) (closure_arity (mem w) t) n (closure_halt_kind (mem w) t)
        = Some (p OR 4, w1\<lparr> mem := m \<rparr>, h1)"
      and fresh: "fresh h (p, closure_size_for_count n)" and p: "unat p mod 16 = 0"
      and built: "built h (mem w) p n (read_u32 (mem w) t) header 0 m (cap p n m)"
    using alloc_closure_slots_built [OF alloc assms(1,2) n(2) header, of "closure_denotation (mem w) t"]
    by (auto simp: closure_denotation_def)
  have code: "read_u64 m (t + of_nat 8) = closure_fn_ptr (mem w) t"
    using agree_reads(3) [OF _ live, of "mem w" m 8] built size by (simp add: built_def closure_fn_ptr_def)
  note b1 = built_code [OF built fresh size(1), of "closure_fn_ptr (mem w) t"]
  have "0 < n" "0 < k"
    using n \<open>1 \<le> k\<close> by simp_all
  note cp = closure_capture_copy_put [OF b1 fresh size(1) this(1) live k this(2)]
  note b2 = built_put [OF b1 fresh size(1) \<open>0 < n\<close>, of "fst (cap t k (mem w) 0)" "snd (cap t k (mem w) 0)", folded cp]
  have "0 + length bs < n"
    using n \<open>1 \<le> k\<close> by simp
  then obtain m3 c3 where m3: "set_bounds arch p 0 bs (closure_capture_copy (write_u64 m (p + of_nat 8) (closure_fn_ptr (mem w) t)) t 0 p 0) = Some m3"
      and b3: "built h (mem w) p n (read_u32 (mem w) t) header (closure_fn_ptr (mem w) t) m3 c3"
      and c3: "c3 0 = cap t k (mem w) 0" "\<forall>j < length bs. cap_value arch (c3 (1 + j)) = Inr (vs ! j)"
    using set_bounds_built [OF bs b2 fresh size(1), of 0] by auto
  have "1 + length bs + (k - 1) \<le> n" "k - 1 < k"
    using n \<open>1 \<le> k\<close> by simp_all
  note b4 = copy_captures_built [OF b3 fresh size(1) this(1) live k this(2)]
  have "materialize_outcome_closure arch sys w h t bs = Some (p, w1\<lparr> mem := copy_captures t p (k - 1) (length bs) m3 \<rparr>, h1)"
    using slots code m3 \<open>1 \<le> k\<close> k n(1) closure_tagged_roundtrip(2) [OF p] closure_tagged_roundtrip(3) [OF assms(3)]
    by (simp add: materialize_outcome_closure_def Let_def closure_halt_kind_def closure_captured_count_def)
  then show ?thesis
    using c3 by (intro exI conjI) (assumption, rule b4, auto)
qed

lemma built_closure:
  assumes "built h m0 p n (read_u32 m0 t) header (closure_fn_ptr m0 t) m c"
    and "closure_header_word (of_nat n) (closure_halt_kind m0 t) (closure_arity m0 t) = Some header"
  shows "agree h m0 m" and "closure_captured_count m p = n"
    and "closure_denotation m p = closure_denotation m0 t" and "closure_arity m p = closure_arity m0 t"
    and "closure_halt_kind m p = closure_halt_kind m0 t" and "closure_fn_ptr m p = closure_fn_ptr m0 t"
    and "i < n \<Longrightarrow> closure_capture_value arch m p i = cap_value arch (c i)"
  using assms(1) closure_header_fields [OF assms(2)] closure_capture_value_cap [of n m p arch i]
  by (simp_all add: built_def closure_denotation_def closure_arity_def closure_halt_kind_def closure_flags_def closure_fn_ptr_def)

text \<open>
  C13.  The outcome closure of a matched receive.  For a template closure of the heap in use with \<open>k\<close>
  captures, at least the continuation, and bound references \<open>bs\<close> whose values are \<open>vs\<close>: when the
  allocator finds room, \<open>materialize_outcome_closure\<close> succeeds and returns a fresh closure with the
  denotation, arity, halt kind and code pointer of the template, whose environment is the template's
  continuation, then the bound values in order, then the template's own captures in order; no byte of
  the heap in use changes, so the template can be used again for the next message.
\<close>

theorem outcome_closure_environment:
  assumes "allocator_ok sys" and "owned w h" and "unat t mod 16 = 0"
    and "k = closure_captured_count (mem w) t" and "live h (t, closure_size_for_count k)"
    and "1 \<le> k" and "k + length bs \<le> 0x3FFF" and "list_all2 (stable_ref arch h (mem w)) bs vs"
    and "alloc_kind sys w h ClosureAlloc (closure_size_for_count (k + length bs)) = Some (p, w1, h1)"
  shows "\<exists>m. materialize_outcome_closure arch sys w h t bs = Some (p, w1\<lparr> mem := m \<rparr>, h1)
    \<and> fresh h (p, closure_size_for_count (k + length bs)) \<and> agree h (mem w) m
    \<and> closure_captured_count m p = k + length bs
    \<and> closure_denotation m p = closure_denotation (mem w) t \<and> closure_arity m p = closure_arity (mem w) t
    \<and> closure_halt_kind m p = closure_halt_kind (mem w) t \<and> closure_fn_ptr m p = closure_fn_ptr (mem w) t
    \<and> closure_capture_value arch m p 0 = closure_capture_value arch (mem w) t 0
    \<and> (\<forall>i < length bs. closure_capture_value arch m p (1 + i) = Inr (vs ! i))
    \<and> (\<forall>j < k - 1. closure_capture_value arch m p (1 + length bs + j) = closure_capture_value arch (mem w) t (1 + j))"
proof -
  obtain header where header:
      "closure_header_word (of_nat (k + length bs)) (closure_halt_kind (mem w) t) (closure_arity (mem w) t) = Some header"
    using header_of_template [OF assms(7)] by blast
  have fresh: "fresh h (p, closure_size_for_count (k + length bs))"
    using alloc_closure_slots_built [OF assms(9,1,2,7) header] by blast
  obtain m c where m: "materialize_outcome_closure arch sys w h t bs = Some (p, w1\<lparr> mem := m \<rparr>, h1)"
      "built h (mem w) p (k + length bs) (read_u32 (mem w) t) header (closure_fn_ptr (mem w) t) m c"
      "c 0 = cap t k (mem w) 0" "\<forall>j < length bs. cap_value arch (c (1 + j)) = Inr (vs ! j)"
      "\<forall>j < k - 1. c (1 + length bs + j) = cap t k (mem w) (1 + j)"
    using outcome_built [OF assms(1-3,5,4,6) refl assms(7-9) header] by blast
  note built_closure [OF m(2) header]
  moreover have "closure_capture_value arch (mem w) t i = cap_value arch (cap t k (mem w) i)" for i
    using closure_capture_value_cap [OF assms(4)] .
  ultimately show ?thesis
    using m(1,3-5) fresh assms(6) by (intro exI [of _ m]) auto
qed


lemma owned_mem [simp]: "owned (w\<lparr> mem := m \<rparr>) h = owned w h"
  by (simp add: owned_def held_def pool_regions_def)

lemma stable_ref_null: "stable_ref Arm64Tbi h m (ref_null Arm64Tbi) Null"
  by (simp add: stable_ref_def ref_null_def from_raw_word_def from_ref_def is_empty_list_def addressable_iff [symmetric]
      addressable_def valid_value_def aligned_value_def del: for_arch.simps)

lemma alloc_kind_bump:
  assumes "clear_low 4 (req + 15) = sz" and "16 \<le> sz" and "sz \<le> FRAGMENT_THRESHOLD" and "bump_top h + of_nat sz \<le> block_end h"
  obtains h' where "alloc_kind sys w h kind req = Some (bump_top h, w, h')" and "block_start h' = block_start h"
    and "bump_top h' = bump_top h + of_nat sz" and "block_end h' = block_end h"
proof (rule that [of "snd (bump (h\<lparr> alloc_stats := HeapAllocStats_record kind sz (alloc_stats h) \<rparr>) sz)"])
  show "alloc_kind sys w h kind req = Some (bump_top h, w, snd (bump (h\<lparr> alloc_stats := HeapAllocStats_record kind sz (alloc_stats h) \<rparr>) sz))"
    using assms by (auto simp: alloc_kind_def Let_def bump_def)
qed (simp_all add: bump_def note_alloc_pressure_def)

theorem outcome_closure_environment_witness:
  "\<exists>w h t p w1 h1 m. closure_captured_count (mem w) t = 1
    \<and> materialize_outcome_closure Arm64Tbi upward w h t [ref_null Arm64Tbi] = Some (p, w1\<lparr> mem := m \<rparr>, h1)
    \<and> closure_captured_count m p = 2 \<and> closure_capture_value Arm64Tbi m p 1 = Inr Null"
proof -
  obtain h w where h: "Heap_with_node upward empty_world 1024 = Some (h, w)"
    and top: "bump_top h = 0x1000" "block_end h = 0x1400"
    using first_heap .
  have o: "owned w h"
    by (rule Heap_with_node_owned [OF allocator_ok_upward held_empty_world h])
  have start: "block_start h = 0x1000"
    using h top by (auto simp: Heap_with_node_def Let_def split: if_splits)
  have size: "closure_size_for_count (Suc 0) = 32" "closure_size_for_count (Suc (Suc 0)) = 48"
    by (simp_all add: closure_size_for_count_def clear_low_eq)
  obtain h1 where a1: "alloc_kind upward w h ClosureAlloc (closure_size_for_count 1) = Some (0x1000, w, h1)"
    and h1: "block_start h1 = 0x1000" "bump_top h1 = 0x1020" "block_end h1 = 0x1400"
    using alloc_kind_bump [of 32 32 h upward w ClosureAlloc] top start size
    by (auto simp: clear_low_eq FRAGMENT_THRESHOLD_eq)
  have "closure_header_word (of_nat 1) 0 0 = Some 1"
    by (simp add: closure_header_word_def closure_flags_pack_def word_layout)
  then obtain m where m: "owned w h1" "closure_captured_count m 0x1000 = 1"
    using alloc_closure_slots_built [OF a1 allocator_ok_upward o, of 0 0 1] by (auto simp: built_def)
  have live: "live h1 (0x1000, closure_size_for_count 1)"
    using h1 size by (simp add: live_def region_ok_def used_regions_def inside_def)
  obtain h2 where a2: "alloc_kind upward (w\<lparr> mem := m \<rparr>) h1 ClosureAlloc (closure_size_for_count (1 + length [ref_null Arm64Tbi]))
      = Some (0x1020, w\<lparr> mem := m \<rparr>, h2)"
    using alloc_kind_bump [of 48 48 h1 upward "w\<lparr> mem := m \<rparr>" ClosureAlloc] h1 size
    by (auto simp: clear_low_eq FRAGMENT_THRESHOLD_eq)
  note outcome_closure_environment [OF allocator_ok_upward _ _ _ live _ _ _ a2, of Arm64Tbi "[Null]"]
  then obtain m' where "materialize_outcome_closure Arm64Tbi upward (w\<lparr> mem := m \<rparr>) h1 0x1000 [ref_null Arm64Tbi]
        = Some (0x1020, w\<lparr> mem := m' \<rparr>, h2)" "closure_captured_count m' 0x1020 = 2"
      "closure_capture_value Arm64Tbi m' 0x1020 1 = Inr Null"
    using m stable_ref_null by auto
  then show ?thesis
    using m(2) by (intro exI [of _ "w\<lparr> mem := m \<rparr>"] exI [of _ h1] exI [of _ "0x1000"] exI [of _ "0x1020"] exI [of _ w] exI [of _ h2]
        exI [of _ m'] conjI) simp_all
qed

end
