(* ===== verification/Fz_Demand.thy ===== *)
theory Fz_Demand
  imports Fz_Prelude
begin

text \<open>
  Ground constants (\<open>ground_value.rs\<close>), the subjects a dispatch asks about (\<open>dispatch_matrix/mod.rs\<close>)
  and the lattice of what a question asks of a value (\<open>dispatch_matrix/demand.rs\<close>).  The demands are
  a bounded join-semilattice whose join is \<open>join_assign\<close>; identifiers and ordinals are natural numbers.
\<close>

section \<open>Ground constants\<close>

datatype GroundValue =
    GroundInt u64
  | GroundFloat u64
  | GroundAtom string
  | GroundBool bool
  | GroundNil
  | GroundBinary "u8 list"
  | GroundUtf8Binary "u8 list"

datatype GroundMapKey = KeyAtom string | KeyInt u64

fun as_map_key :: "GroundValue \<Rightarrow> GroundMapKey option" where
  "as_map_key (GroundAtom name) = Some (KeyAtom name)"
| "as_map_key (GroundInt value) = Some (KeyInt value)"
| "as_map_key _ = None"

datatype BodyLiteral =
    LiteralInt u64 | LiteralFloat u64 | LiteralAtom string | LiteralBool bool | LiteralNil | LiteralBinary "u8 list"

fun as_body_literal :: "GroundValue \<Rightarrow> BodyLiteral option" where
  "as_body_literal (GroundInt value) = Some (LiteralInt value)"
| "as_body_literal (GroundFloat bits) = Some (LiteralFloat bits)"
| "as_body_literal (GroundAtom name) = Some (LiteralAtom name)"
| "as_body_literal (GroundBool value) = Some (LiteralBool value)"
| "as_body_literal GroundNil = Some LiteralNil"
| "as_body_literal (GroundBinary bytes) = Some (LiteralBinary bytes)"
| "as_body_literal (GroundUtf8Binary _) = None"

datatype DispatchShape =
    ShapeInt u64 | ShapeFloat u64 | ShapeAtom string | ShapeBool bool | ShapeNil | ShapeUtf8Binary "u8 list"

fun as_dispatch_shape :: "GroundValue \<Rightarrow> DispatchShape option" where
  "as_dispatch_shape (GroundInt value) = Some (ShapeInt value)"
| "as_dispatch_shape (GroundFloat bits) = Some (ShapeFloat bits)"
| "as_dispatch_shape (GroundAtom name) = Some (ShapeAtom name)"
| "as_dispatch_shape (GroundBool value) = Some (ShapeBool value)"
| "as_dispatch_shape GroundNil = Some ShapeNil"
| "as_dispatch_shape (GroundUtf8Binary bytes) = Some (ShapeUtf8Binary bytes)"
| "as_dispatch_shape (GroundBinary _) = None"

section \<open>Subjects\<close>

type_synonym SubjectId = nat
type_synonym ArmId = nat
type_synonym OutcomeId = nat
type_synonym GraphNodeId = nat
type_synonym GuardId = nat
type_synonym PinnedValueId = nat
type_synonym PreparedKeyId = nat

datatype BitstringFieldKind =
    FieldInteger | FieldFloat | FieldBinary | FieldBits | FieldUtf8 | FieldUtf16 | FieldUtf32

datatype BitstringEndian = EndianBig | EndianLittle | EndianNative

datatype BitstringFieldSize = SizeLiteral nat | SizeBinding SubjectId | SizePinned PinnedValueId

record BitstringFieldShape =
  field_kind :: BitstringFieldKind
  field_size :: "BitstringFieldSize option"
  field_endian :: BitstringEndian
  field_signed :: bool
  field_unit :: "nat option"

record BitstringExtraction =
  ex_previous :: "SubjectId option"
  ex_spec :: BitstringFieldShape
  ex_is_last :: bool

datatype ProjectionKind =
    TupleField nat
  | StructField string
  | ListHead
  | ListTail
  | MapValue GroundValue
  | BitstringField BitstringExtraction

record SubjectProjection =
  proj_source :: SubjectId
  proj_kind :: ProjectionKind

datatype SubjectSource = SubjectInput nat | SubjectProjected SubjectProjection

record Subject =
  subject_id :: SubjectId
  subject_source :: SubjectSource

section \<open>Demands\<close>

datatype DispatchDemand =
    Ignore
  | Whole
  | TupleFields "nat \<rightharpoonup> DispatchDemand"
  | ListShape DispatchDemand

definition asks_anything :: "DispatchDemand \<Rightarrow> bool" where
  "asks_anything d \<longleftrightarrow> d \<noteq> Ignore"

text \<open>A field the receiver does not have yet starts as \<open>Ignore\<close>, and joining a demand to that gives the demand.\<close>

primrec join_assign :: "DispatchDemand \<Rightarrow> DispatchDemand \<Rightarrow> DispatchDemand" where
  "join_assign Ignore other = other"
| "join_assign Whole other = Whole"
| "join_assign (TupleFields current) other =
     (case other of
        Ignore \<Rightarrow> TupleFields current
      | Whole \<Rightarrow> Whole
      | TupleFields nxt \<Rightarrow> TupleFields (\<lambda>field.
          case nxt field of
            None \<Rightarrow> current field
          | Some demand \<Rightarrow> (case map_option join_assign (current field) of
                              None \<Rightarrow> Some demand
                            | Some join \<Rightarrow> Some (join demand)))
      | ListShape _ \<Rightarrow> Whole)"
| "join_assign (ListShape current) other =
     (case other of
        Ignore \<Rightarrow> ListShape current
      | Whole \<Rightarrow> Whole
      | TupleFields _ \<Rightarrow> Whole
      | ListShape nxt \<Rightarrow> ListShape (join_assign current nxt))"

datatype DemandPathStep =
    StepStructField | StepTupleField nat | StepListHead | StepListTail | StepMapValue | StepBitstringField

fun DemandPathStep_from :: "ProjectionKind \<Rightarrow> DemandPathStep" where
  "DemandPathStep_from (TupleField index) = StepTupleField index"
| "DemandPathStep_from (StructField _) = StepStructField"
| "DemandPathStep_from ListHead = StepListHead"
| "DemandPathStep_from ListTail = StepListTail"
| "DemandPathStep_from (MapValue _) = StepMapValue"
| "DemandPathStep_from (BitstringField _) = StepBitstringField"

fun demand_at_step :: "DemandPathStep \<Rightarrow> DispatchDemand \<Rightarrow> DispatchDemand" where
  "demand_at_step (StepTupleField field) demand = TupleFields [field \<mapsto> demand]"
| "demand_at_step StepListHead demand = ListShape demand"
| "demand_at_step _ demand = Whole"

definition demand_at_path :: "DemandPathStep list \<Rightarrow> DispatchDemand \<Rightarrow> DispatchDemand" where
  "demand_at_path path demand = fold demand_at_step (rev path) demand"

section \<open>Demands form a lattice\<close>

lemma join_Ignore [simp]: "join_assign d Ignore = d"
  by (cases d) simp_all

lemma join_Whole [simp]: "join_assign d Whole = Whole"
  by (cases d) simp_all

lemma join_idem [simp]: "join_assign d d = d"
proof (induction d)
  case (TupleFields m)
  then have "join_assign d' d' = d'" if "m k = Some d'" for k d'
    using that by (metis option.set_intros rangeI)
  then show ?case
    by (auto simp: fun_eq_iff split: option.split)
qed simp_all

lemma join_TupleFields:
  "join_assign (TupleFields m) (TupleFields n) = TupleFields (\<lambda>k.
     case n k of None \<Rightarrow> m k | Some e \<Rightarrow> (case m k of None \<Rightarrow> Some e | Some d \<Rightarrow> Some (join_assign d e)))"
  by (auto simp: fun_eq_iff split: option.split)

lemma join_commute: "join_assign d e = join_assign e d"
proof (induction d arbitrary: e)
  case (TupleFields m)
  then have "join_assign d' e' = join_assign e' d'" if "m k = Some d'" for k d' e'
    using that by (metis option.set_intros rangeI)
  then show ?case
    by (cases e) (auto simp: fun_eq_iff split: option.split)
next
  case (ListShape d)
  then show ?case
    by (cases e) simp_all
qed (auto split: DispatchDemand.split)

lemma join_assoc: "join_assign (join_assign d e) f = join_assign d (join_assign e f)"
proof (induction d arbitrary: e f)
  case (TupleFields m)
  then have IH: "join_assign (join_assign d' e') f' = join_assign d' (join_assign e' f')" if "m k = Some d'" for k d' e' f'
    using that by (metis option.set_intros rangeI)
  show ?case
    by (cases e; cases f) (auto simp: fun_eq_iff IH split: option.split)
next
  case (ListShape d)
  then show ?case
    by (cases e; cases f) simp_all
qed (auto split: DispatchDemand.split)

instantiation DispatchDemand :: "{semilattice_sup, order_bot, order_top}"
begin

definition sup_DispatchDemand where "(sup :: DispatchDemand \<Rightarrow> _) = join_assign"
definition less_eq_DispatchDemand where "(d :: DispatchDemand) \<le> e \<longleftrightarrow> join_assign d e = e"
definition less_DispatchDemand where "(d :: DispatchDemand) < e \<longleftrightarrow> d \<le> e \<and> \<not> e \<le> d"
definition bot_DispatchDemand where "bot = Ignore"
definition top_DispatchDemand where "top = Whole"

instance
proof
  fix d e f :: DispatchDemand
  show "d < e \<longleftrightarrow> d \<le> e \<and> \<not> e \<le> d"
    by (simp add: less_DispatchDemand_def)
  show "d \<le> d"
    by (simp add: less_eq_DispatchDemand_def)
  show "d \<le> e \<Longrightarrow> e \<le> f \<Longrightarrow> d \<le> f"
    unfolding less_eq_DispatchDemand_def by (metis join_assoc)
  show "d \<le> e \<Longrightarrow> e \<le> d \<Longrightarrow> d = e"
    unfolding less_eq_DispatchDemand_def by (metis join_commute)
  show "d \<le> sup d e" "e \<le> sup d e"
    unfolding less_eq_DispatchDemand_def sup_DispatchDemand_def by (metis join_assoc join_commute join_idem)+
  show "d \<le> f \<Longrightarrow> e \<le> f \<Longrightarrow> sup d e \<le> f"
    unfolding less_eq_DispatchDemand_def sup_DispatchDemand_def by (metis join_assoc)
  show "bot \<le> d" "d \<le> top"
    by (simp_all add: less_eq_DispatchDemand_def bot_DispatchDemand_def top_DispatchDemand_def)
qed

end

lemma demand_le_simps [simp]:
  "Ignore \<le> d" "d \<le> Whole" "Whole \<le> d \<longleftrightarrow> d = Whole" "d \<le> Ignore \<longleftrightarrow> d = Ignore"
  "ListShape d \<le> ListShape e \<longleftrightarrow> d \<le> e" "\<not> ListShape d \<le> TupleFields m" "\<not> TupleFields m \<le> ListShape d"
  by (auto simp: less_eq_DispatchDemand_def)

lemma demand_le_TupleFields:
  "TupleFields m \<le> TupleFields n \<longleftrightarrow> (\<forall>k d. m k = Some d \<longrightarrow> (\<exists>e. n k = Some e \<and> d \<le> e))"
proof -
  have "TupleFields m \<le> TupleFields n \<longleftrightarrow> (\<forall>k. case m k of None \<Rightarrow> True | Some d \<Rightarrow> (case n k of None \<Rightarrow> False | Some e \<Rightarrow> d \<le> e))"
    unfolding less_eq_DispatchDemand_def join_TupleFields DispatchDemand.inject fun_eq_iff
    by (intro iff_allI) (simp split: option.split)
  then show ?thesis
    by (fastforce split: option.splits)
qed

lemma demand_at_step_mono: "d \<le> e \<Longrightarrow> demand_at_step st d \<le> demand_at_step st e"
  by (cases st) (auto simp: demand_le_TupleFields)

end
