(* ===== verification/Fz_Dispatch.thy ===== *)
theory Fz_Dispatch
  imports Fz_Demand "HOL-Library.Monad_Syntax"
begin

text \<open>
  The dispatch compiler (\<open>dispatch_matrix/mod.rs\<close>): region questions and the evidence of their
  edges, the matrix builder, the graph builder that charges the inputs a question reads, and the
  compilation of source-ordered arms into a decision graph with shared prefixes.  A panic is \<open>None\<close>.
\<close>

section \<open>Questions and evidence\<close>

datatype ListRegion = RegionEmpty | RegionCons

datatype ComparisonValue = ComparisonConst GroundValue | ComparisonPinned PinnedValueId

record BitstringShape =
  shape_fields :: "SubjectId list"
  shape_require_done :: bool

datatype 't Region =
    RegionType 't
  | RegionEqual ComparisonValue
  | RegionTupleArity nat
  | RegionList ListRegion
  | RegionMapKind
  | RegionMapKeyPresent GroundValue
  | RegionBitstring BitstringShape
  | RegionGuard GuardId

record 't RegionPredicate =
  pred_subject :: SubjectId
  pred_region :: "'t Region"

definition RegionPredicate_new :: "SubjectId \<Rightarrow> 't Region \<Rightarrow> 't RegionPredicate" where
  "RegionPredicate_new subject region = \<lparr> pred_subject = subject, pred_region = region \<rparr>"

datatype ProofSense = Holds | DoesNotHold

record 't Proof =
  proof_predicate :: "'t RegionPredicate"
  proof_sense :: ProofSense

record 't EdgeEvidence =
  ev_proofs :: "'t Proof list"
  ev_projections :: "SubjectId list"

definition EdgeEvidence_empty :: "'t EdgeEvidence" where
  "EdgeEvidence_empty = \<lparr> ev_proofs = [], ev_projections = [] \<rparr>"

definition from_proof :: "'t RegionPredicate \<Rightarrow> ProofSense \<Rightarrow> 't EdgeEvidence" where
  "from_proof predicate sense =
     \<lparr> ev_proofs = [\<lparr> proof_predicate = predicate, proof_sense = sense \<rparr>], ev_projections = [] \<rparr>"

definition with_projection :: "SubjectId \<Rightarrow> 't EdgeEvidence \<Rightarrow> 't EdgeEvidence" where
  "with_projection projection ev = ev\<lparr> ev_projections := ev_projections ev @ [projection] \<rparr>"

record 't RegionQuestion =
  q_predicate :: "'t RegionPredicate"
  q_match_evidence :: "'t EdgeEvidence"
  q_miss_evidence :: "'t EdgeEvidence"

definition RegionQuestion_new :: "'t RegionPredicate \<Rightarrow> 't RegionQuestion" where
  "RegionQuestion_new predicate =
     \<lparr> q_predicate = predicate, q_match_evidence = from_proof predicate Holds,
       q_miss_evidence = from_proof predicate DoesNotHold \<rparr>"

definition type_region :: "SubjectId \<Rightarrow> 't \<Rightarrow> 't RegionQuestion" where
  "type_region subject ty = RegionQuestion_new (RegionPredicate_new subject (RegionType ty))"

definition equality :: "SubjectId \<Rightarrow> ComparisonValue \<Rightarrow> 't RegionQuestion" where
  "equality subject value =
     (let predicate = RegionPredicate_new subject (RegionEqual value)
      in \<lparr> q_predicate = predicate, q_match_evidence = from_proof predicate Holds,
           q_miss_evidence = from_proof predicate DoesNotHold \<rparr>)"

definition list_empty :: "SubjectId \<Rightarrow> 't RegionQuestion" where
  "list_empty subject =
     (let predicate = RegionPredicate_new subject (RegionList RegionEmpty)
      in \<lparr> q_predicate = predicate, q_match_evidence = from_proof predicate Holds,
           q_miss_evidence = from_proof predicate DoesNotHold \<rparr>)"

definition tuple_arity :: "SubjectId \<Rightarrow> nat \<Rightarrow> SubjectId list \<Rightarrow> 't RegionQuestion" where
  "tuple_arity subject arity field_ids =
     (let predicate = RegionPredicate_new subject (RegionTupleArity arity)
      in \<lparr> q_predicate = predicate, q_match_evidence = fold with_projection field_ids (from_proof predicate Holds),
           q_miss_evidence = from_proof predicate DoesNotHold \<rparr>)"

definition list_cons :: "SubjectId \<Rightarrow> SubjectId \<Rightarrow> SubjectId \<Rightarrow> 't RegionQuestion" where
  "list_cons subject head tail =
     (let predicate = RegionPredicate_new subject (RegionList RegionCons)
      in \<lparr> q_predicate = predicate,
           q_match_evidence = with_projection tail (with_projection head (from_proof predicate Holds)),
           q_miss_evidence = from_proof predicate DoesNotHold \<rparr>)"

definition map_key_present :: "SubjectId \<Rightarrow> GroundValue \<Rightarrow> SubjectId \<Rightarrow> 't RegionQuestion" where
  "map_key_present subject key value =
     (let predicate = RegionPredicate_new subject (RegionMapKeyPresent key)
      in \<lparr> q_predicate = predicate, q_match_evidence = with_projection value (from_proof predicate Holds),
           q_miss_evidence = from_proof predicate DoesNotHold \<rparr>)"

section \<open>Matrices\<close>

record 't DispatchArm =
  arm_id :: ArmId
  arm_questions :: "'t RegionQuestion list"
  arm_evidence :: "'t EdgeEvidence"
  arm_outcome :: OutcomeId

datatype OutcomeMultiplicity = Unique

record Outcome =
  outcome_id :: OutcomeId
  outcome_multiplicity :: OutcomeMultiplicity

record 't DispatchMatrix =
  mx_subjects :: "Subject list"
  mx_outcomes :: "Outcome list"
  mx_arms :: "'t DispatchArm list"

datatype DispatchMatrixError =
    UnknownSubject SubjectId
  | ExpectedProjection SubjectId
  | UnknownOutcome OutcomeId
  | UniqueOutcomeReused OutcomeId

record 't DispatchMatrixBuilder =
  mb_subjects :: "Subject list"
  mb_input_count :: nat
  mb_outcomes :: "Outcome list"
  mb_arms :: "'t DispatchArm list"
  mb_outcome_uses :: "OutcomeId \<Rightarrow> nat"

definition DispatchMatrixBuilder_typed :: "'t DispatchMatrixBuilder" where
  "DispatchMatrixBuilder_typed =
     \<lparr> mb_subjects = [], mb_input_count = 0, mb_outcomes = [], mb_arms = [], mb_outcome_uses = (\<lambda>_. 0) \<rparr>"

definition add_input_subject :: "'t DispatchMatrixBuilder \<Rightarrow> SubjectId \<times> 't DispatchMatrixBuilder" where
  "add_input_subject b =
     (let ident = length (mb_subjects b)
      in (ident, b\<lparr> mb_input_count := mb_input_count b + 1,
                 mb_subjects := mb_subjects b @ [\<lparr> subject_id = ident, subject_source = SubjectInput (mb_input_count b) \<rparr>] \<rparr>))"

definition ensure_subject :: "'t DispatchMatrixBuilder \<Rightarrow> SubjectId \<Rightarrow> DispatchMatrixError + unit" where
  "ensure_subject b ident = (if ident < length (mb_subjects b) then Inr () else Inl (UnknownSubject ident))"

definition add_projected_subject ::
  "'t DispatchMatrixBuilder \<Rightarrow> SubjectId \<Rightarrow> ProjectionKind \<Rightarrow> DispatchMatrixError + (SubjectId \<times> 't DispatchMatrixBuilder)" where
  "add_projected_subject b source kind =
     (case ensure_subject b source of
        Inl e \<Rightarrow> Inl e
      | Inr _ \<Rightarrow>
          let ident = length (mb_subjects b)
          in Inr (ident, b\<lparr> mb_subjects := mb_subjects b @
               [\<lparr> subject_id = ident, subject_source = SubjectProjected \<lparr> proj_source = source, proj_kind = kind \<rparr> \<rparr>] \<rparr>))"

definition add_outcome :: "'t DispatchMatrixBuilder \<Rightarrow> OutcomeMultiplicity \<Rightarrow> OutcomeId \<times> 't DispatchMatrixBuilder" where
  "add_outcome b multiplicity =
     (let ident = length (mb_outcomes b)
      in (ident, b\<lparr> mb_outcomes := mb_outcomes b @ [\<lparr> outcome_id = ident, outcome_multiplicity = multiplicity \<rparr>] \<rparr>))"

definition ensure_outcome :: "'t DispatchMatrixBuilder \<Rightarrow> OutcomeId \<Rightarrow> DispatchMatrixError + Outcome" where
  "ensure_outcome b ident = (if ident < length (mb_outcomes b) then Inr (mb_outcomes b ! ident) else Inl (UnknownOutcome ident))"

fun ensure_all :: "('a \<Rightarrow> 'e + unit) \<Rightarrow> 'a list \<Rightarrow> 'e + unit" where
  "ensure_all f [] = Inr ()"
| "ensure_all f (x # xs) = (case f x of Inl e \<Rightarrow> Inl e | Inr _ \<Rightarrow> ensure_all f xs)"

definition ensure_projection :: "'t DispatchMatrixBuilder \<Rightarrow> SubjectId \<Rightarrow> DispatchMatrixError + unit" where
  "ensure_projection b projection =
     (case ensure_subject b projection of
        Inl e \<Rightarrow> Inl e
      | Inr _ \<Rightarrow> (case subject_source (mb_subjects b ! projection) of
                    SubjectProjected _ \<Rightarrow> Inr ()
                  | SubjectInput _ \<Rightarrow> Inl (ExpectedProjection projection)))"

definition ensure_evidence_subjects :: "'t DispatchMatrixBuilder \<Rightarrow> 't EdgeEvidence \<Rightarrow> DispatchMatrixError + unit" where
  "ensure_evidence_subjects b ev =
     (case ensure_all (\<lambda>p. ensure_subject b (pred_subject (proof_predicate p))) (ev_proofs ev) of
        Inl e \<Rightarrow> Inl e
      | Inr _ \<Rightarrow> ensure_all (ensure_projection b) (ev_projections ev))"

definition ensure_question_subjects :: "'t DispatchMatrixBuilder \<Rightarrow> 't RegionQuestion \<Rightarrow> DispatchMatrixError + unit" where
  "ensure_question_subjects b q =
     (case ensure_subject b (pred_subject (q_predicate q)) of
        Inl e \<Rightarrow> Inl e
      | Inr _ \<Rightarrow> (case ensure_evidence_subjects b (q_match_evidence q) of
                    Inl e \<Rightarrow> Inl e
                  | Inr _ \<Rightarrow> ensure_evidence_subjects b (q_miss_evidence q)))"

definition add_arm_questions ::
  "'t DispatchMatrixBuilder \<Rightarrow> 't RegionQuestion list \<Rightarrow> 't EdgeEvidence \<Rightarrow> OutcomeId
     \<Rightarrow> DispatchMatrixError + (ArmId \<times> 't DispatchMatrixBuilder)" where
  "add_arm_questions b questions evidence outcome =
     (case ensure_all (ensure_question_subjects b) questions of
        Inl e \<Rightarrow> Inl e
      | Inr _ \<Rightarrow>
     (case ensure_evidence_subjects b evidence of
        Inl e \<Rightarrow> Inl e
      | Inr _ \<Rightarrow>
     (case ensure_outcome b outcome of
        Inl e \<Rightarrow> Inl e
      | Inr o' \<Rightarrow>
          if outcome_multiplicity o' = Unique \<and> 0 < mb_outcome_uses b outcome then Inl (UniqueOutcomeReused outcome)
          else let ident = length (mb_arms b)
               in Inr (ident, b\<lparr> mb_arms := mb_arms b @
                      [\<lparr> arm_id = ident, arm_questions = questions, arm_evidence = evidence, arm_outcome = outcome \<rparr>],
                    mb_outcome_uses := (mb_outcome_uses b)(outcome := mb_outcome_uses b outcome + 1) \<rparr>))))"

definition DispatchMatrixBuilder_build :: "'t DispatchMatrixBuilder \<Rightarrow> DispatchMatrixError + 't DispatchMatrix" where
  "DispatchMatrixBuilder_build b =
     Inr \<lparr> mx_subjects = mb_subjects b, mx_outcomes = mb_outcomes b, mx_arms = mb_arms b \<rparr>"

section \<open>Graphs\<close>

record 't DispatchEdge =
  edge_target :: GraphNodeId
  edge_evidence :: "'t EdgeEvidence"

datatype 't DispatchNode =
    NodeFail
  | NodeOutcome OutcomeId "'t EdgeEvidence"
  | NodeTest "'t RegionPredicate" "'t DispatchEdge" "'t DispatchEdge"

definition with_evidence :: "GraphNodeId \<Rightarrow> 't EdgeEvidence \<Rightarrow> 't DispatchEdge" where
  "with_evidence target evidence = \<lparr> edge_target = target, edge_evidence = evidence \<rparr>"

definition into_test_node :: "'t RegionQuestion \<Rightarrow> GraphNodeId \<Rightarrow> GraphNodeId \<Rightarrow> 't DispatchNode" where
  "into_test_node q on_match on_miss =
     NodeTest (q_predicate q) (with_evidence on_match (q_match_evidence q)) (with_evidence on_miss (q_miss_evidence q))"

record 't DispatchGraph =
  graph_subjects :: "Subject list"
  graph_nodes :: "'t DispatchNode list"
  graph_root :: GraphNodeId
  graph_input_demand :: "DispatchDemand list"

definition graph_subject :: "'t DispatchGraph \<Rightarrow> SubjectId \<Rightarrow> Subject option" where
  "graph_subject g ident = (if ident < length (graph_subjects g) then Some (graph_subjects g ! ident) else None)"

definition graph_node :: "'t DispatchGraph \<Rightarrow> GraphNodeId \<Rightarrow> 't DispatchNode option" where
  "graph_node g ident = (if ident < length (graph_nodes g) then Some (graph_nodes g ! ident) else None)"

datatype GuardLeaf = LeafSubject SubjectId | LeafPinned PinnedValueId

record PlanInputs =
  in_count :: nat
  in_pinned :: "nat option list"
  in_guard_leaves :: "GuardLeaf list list"

datatype DispatchGraphError = UnknownNode GraphNodeId

datatype DispatchCompileError = InvalidGraph DispatchGraphError

record 't DispatchGraphBuilder =
  gb_subjects :: "Subject list"
  gb_nodes :: "'t DispatchNode list"
  gb_inputs :: PlanInputs
  gb_input_demand :: "DispatchDemand list"

definition DispatchGraphBuilder_typed :: "Subject list \<Rightarrow> PlanInputs \<Rightarrow> 't DispatchGraphBuilder" where
  "DispatchGraphBuilder_typed subjects inputs =
     \<lparr> gb_subjects = subjects, gb_nodes = [], gb_inputs = inputs, gb_input_demand = replicate (in_count inputs) Ignore \<rparr>"

definition demand_for_region :: "'t Region \<Rightarrow> DispatchDemand" where
  "demand_for_region region =
     (case region of
        RegionList _ \<Rightarrow> ListShape Ignore
      | RegionTupleArity _ \<Rightarrow> TupleFields (\<lambda>_. None)
      | _ \<Rightarrow> Whole)"

text \<open>The two walks up a projection chain: the outer option is \<open>None\<close> when the walk does not end,
  the inner one when it meets a subject the list does not hold.\<close>

partial_function (option) subject_root :: "Subject list \<Rightarrow> SubjectId \<Rightarrow> nat option option" where
  "subject_root subjects subject =
     (if length subjects \<le> subject then Some None
      else case subject_source (subjects ! subject) of
        SubjectInput ordinal \<Rightarrow> Some (Some ordinal)
      | SubjectProjected projection \<Rightarrow> subject_root subjects (proj_source projection))"

partial_function (option) subject_demand ::
  "Subject list \<Rightarrow> SubjectId \<Rightarrow> DispatchDemand \<Rightarrow> (nat \<times> DispatchDemand) option option" where
  "subject_demand subjects subject demand =
     (if length subjects \<le> subject then Some None
      else case subject_source (subjects ! subject) of
        SubjectInput ordinal \<Rightarrow> Some (Some (ordinal, demand))
      | SubjectProjected projection \<Rightarrow>
          subject_demand subjects (proj_source projection)
            (demand_at_step (DemandPathStep_from (proj_kind projection)) demand))"

definition charge_input :: "nat \<Rightarrow> DispatchDemand \<Rightarrow> 't DispatchGraphBuilder \<Rightarrow> 't DispatchGraphBuilder option" where
  "charge_input ordinal demand b =
     (if ordinal < length (gb_input_demand b)
      then Some (b\<lparr> gb_input_demand := (gb_input_demand b)[ordinal := join_assign (gb_input_demand b ! ordinal) demand] \<rparr>)
      else None)"

definition charge_subject :: "SubjectId \<Rightarrow> DispatchDemand \<Rightarrow> 't DispatchGraphBuilder \<Rightarrow> 't DispatchGraphBuilder option" where
  "charge_subject subject demand b =
     do { found \<leftarrow> subject_demand (gb_subjects b) subject demand;
          (ordinal, demand') \<leftarrow> found;
          charge_input ordinal demand' b }"

definition charge_pin :: "PinnedValueId \<Rightarrow> 't DispatchGraphBuilder \<Rightarrow> 't DispatchGraphBuilder option" where
  "charge_pin pinned b =
     (if pinned < length (in_pinned (gb_inputs b))
      then (case in_pinned (gb_inputs b) ! pinned of Some inp \<Rightarrow> charge_input inp Whole b | None \<Rightarrow> Some b)
      else Some b)"

fun charge_leaf :: "GuardLeaf \<Rightarrow> 't DispatchGraphBuilder \<Rightarrow> 't DispatchGraphBuilder option" where
  "charge_leaf (LeafSubject subject) b = charge_subject subject Whole b"
| "charge_leaf (LeafPinned pinned) b = charge_pin pinned b"

fun charge_each :: "('a \<Rightarrow> 'b \<Rightarrow> 'b option) \<Rightarrow> 'a list \<Rightarrow> 'b \<Rightarrow> 'b option" where
  "charge_each f [] b = Some b"
| "charge_each f (x # xs) b = do { b' \<leftarrow> f x b; charge_each f xs b' }"

definition charge_guard :: "GuardId \<Rightarrow> 't DispatchGraphBuilder \<Rightarrow> 't DispatchGraphBuilder option" where
  "charge_guard guard b =
     (if guard < length (in_guard_leaves (gb_inputs b))
      then charge_each charge_leaf (in_guard_leaves (gb_inputs b) ! guard) b
      else Some b)"

definition pinned_size :: "Subject list \<Rightarrow> SubjectId \<Rightarrow> PinnedValueId option" where
  "pinned_size subjects field =
     (if field < length subjects
      then (case subject_source (subjects ! field) of
              SubjectProjected projection \<Rightarrow>
                (case proj_kind projection of
                   BitstringField extraction \<Rightarrow>
                     (case field_size (ex_spec extraction) of Some (SizePinned pinned) \<Rightarrow> Some pinned | _ \<Rightarrow> None)
                 | _ \<Rightarrow> None)
            | _ \<Rightarrow> None)
      else None)"

definition charge_bitstring_sizes :: "BitstringShape \<Rightarrow> 't DispatchGraphBuilder \<Rightarrow> 't DispatchGraphBuilder option" where
  "charge_bitstring_sizes shape b =
     charge_each (\<lambda>field b. case pinned_size (gb_subjects b) field of Some pinned \<Rightarrow> charge_pin pinned b | None \<Rightarrow> Some b)
       (shape_fields shape) b"

definition charge_node :: "'t DispatchNode \<Rightarrow> 't DispatchGraphBuilder \<Rightarrow> 't DispatchGraphBuilder option" where
  "charge_node node b =
     (case node of
        NodeTest predicate _ _ \<Rightarrow>
          (case pred_region predicate of
             RegionGuard guard \<Rightarrow> charge_guard guard b
           | region \<Rightarrow>
               do { b' \<leftarrow> charge_subject (pred_subject predicate) (demand_for_region region) b;
                    (case region of
                       RegionEqual (ComparisonPinned pinned) \<Rightarrow> charge_pin pinned b'
                     | RegionBitstring shape \<Rightarrow> charge_bitstring_sizes shape b'
                     | _ \<Rightarrow> Some b') })
      | _ \<Rightarrow> Some b)"

definition add_node :: "'t DispatchNode \<Rightarrow> 't DispatchGraphBuilder \<Rightarrow> (GraphNodeId \<times> 't DispatchGraphBuilder) option" where
  "add_node node b =
     do { b' \<leftarrow> charge_node node b;
          Some (length (gb_nodes b'), b'\<lparr> gb_nodes := gb_nodes b' @ [node] \<rparr>) }"

definition ensure_node :: "'t DispatchGraphBuilder \<Rightarrow> GraphNodeId \<Rightarrow> DispatchGraphError + unit" where
  "ensure_node b ident = (if ident < length (gb_nodes b) then Inr () else Inl (UnknownNode ident))"

definition ensure_targets :: "'t DispatchGraphBuilder \<Rightarrow> 't DispatchNode \<Rightarrow> DispatchGraphError + unit" where
  "ensure_targets b node =
     (case node of
        NodeTest _ on_match on_miss \<Rightarrow>
          (case ensure_node b (edge_target on_match) of Inl e \<Rightarrow> Inl e | Inr _ \<Rightarrow> ensure_node b (edge_target on_miss))
      | _ \<Rightarrow> Inr ())"

definition node_projections :: "'t DispatchNode \<Rightarrow> SubjectId list" where
  "node_projections node =
     (case node of
        NodeFail \<Rightarrow> []
      | NodeOutcome _ evidence \<Rightarrow> ev_projections evidence
      | NodeTest _ on_match on_miss \<Rightarrow> ev_projections (edge_evidence on_match) @ ev_projections (edge_evidence on_miss))"

definition rides_charged_input :: "'t DispatchGraphBuilder \<Rightarrow> SubjectId \<Rightarrow> bool" where
  "rides_charged_input b projection =
     (case subject_root (gb_subjects b) projection of
        Some (Some ordinal) \<Rightarrow> ordinal < length (gb_input_demand b) \<and> asks_anything (gb_input_demand b ! ordinal)
      | _ \<Rightarrow> False)"

definition ensure_projections_ride_a_charged_input :: "'t DispatchGraphBuilder \<Rightarrow> unit option" where
  "ensure_projections_ride_a_charged_input b =
     (if \<forall>node \<in> set (gb_nodes b). \<forall>projection \<in> set (node_projections node). rides_charged_input b projection
      then Some () else None)"

definition DispatchGraphBuilder_build ::
  "GraphNodeId \<Rightarrow> 't DispatchGraphBuilder \<Rightarrow> (DispatchGraphError + 't DispatchGraph) option" where
  "DispatchGraphBuilder_build root b =
     (case ensure_node b root of
        Inl e \<Rightarrow> Some (Inl e)
      | Inr _ \<Rightarrow>
     (case ensure_all (ensure_targets b) (gb_nodes b) of
        Inl e \<Rightarrow> Some (Inl e)
      | Inr _ \<Rightarrow>
          do { ensure_projections_ride_a_charged_input b;
               Some (Inr \<lparr> graph_subjects = gb_subjects b, graph_nodes = gb_nodes b, graph_root = root,
                           graph_input_demand = gb_input_demand b \<rparr>) }))"

section \<open>Compilation\<close>

record DispatchCompileStats =
  st_arms :: nat
  st_test_nodes :: nat
  st_outcome_nodes :: nat
  st_fail_nodes :: nat
  st_shared_prefix_tests :: nat

definition DispatchCompileStats_default :: DispatchCompileStats where
  "DispatchCompileStats_default =
     \<lparr> st_arms = 0, st_test_nodes = 0, st_outcome_nodes = 0, st_fail_nodes = 0, st_shared_prefix_tests = 0 \<rparr>"

record 't CompiledDispatchGraph =
  compiled_graph :: "'t DispatchGraph"
  compiled_stats :: DispatchCompileStats

record 't ArmCompileState =
  acs_arm :: "'t DispatchArm"
  acs_questions :: "'t RegionQuestion list"

type_synonym 't compiling = "'t DispatchGraphBuilder \<times> DispatchCompileStats"

definition outcome_node :: "'t DispatchArm \<Rightarrow> 't compiling \<Rightarrow> (GraphNodeId \<times> 't compiling) option" where
  "outcome_node arm s =
     (case s of (b, st) \<Rightarrow>
        do { (ident, b') \<leftarrow> add_node (NodeOutcome (arm_outcome arm) (arm_evidence arm)) b;
             Some (ident, b', st\<lparr> st_outcome_nodes := st_outcome_nodes st + 1 \<rparr>) })"

definition test_node ::
  "'t RegionQuestion \<Rightarrow> GraphNodeId \<Rightarrow> GraphNodeId \<Rightarrow> 't compiling \<Rightarrow> (GraphNodeId \<times> 't compiling) option" where
  "test_node question on_match on_miss s =
     (case s of (b, st) \<Rightarrow>
        do { (ident, b') \<leftarrow> add_node (into_test_node question on_match on_miss) b;
             Some (ident, b', st\<lparr> st_test_nodes := st_test_nodes st + 1 \<rparr>) })"

definition fallback_node :: "'t compiling \<Rightarrow> (GraphNodeId \<times> 't compiling) option" where
  "fallback_node s =
     (case s of (b, st) \<Rightarrow>
        do { (ident, b') \<leftarrow> add_node NodeFail b;
             Some (ident, b', st\<lparr> st_fail_nodes := st_fail_nodes st + 1 \<rparr>) })"

fun test_chain ::
  "'t RegionQuestion list \<Rightarrow> GraphNodeId \<Rightarrow> GraphNodeId \<Rightarrow> 't compiling \<Rightarrow> (GraphNodeId \<times> 't compiling) option" where
  "test_chain [] current on_miss s = Some (current, s)"
| "test_chain (question # questions) current on_miss s =
     do { (current', s') \<leftarrow> test_node question current on_miss s; test_chain questions current' on_miss s' }"

definition compile_single_arm ::
  "'t ArmCompileState \<Rightarrow> GraphNodeId \<Rightarrow> 't compiling \<Rightarrow> (GraphNodeId \<times> 't compiling) option" where
  "compile_single_arm arm on_miss s =
     do { (current, s') \<leftarrow> outcome_node (acs_arm arm) s; test_chain (rev (acs_questions arm)) current on_miss s' }"

definition asks_first :: "'t RegionQuestion \<Rightarrow> 't ArmCompileState \<Rightarrow> bool" where
  "asks_first question arm = (case acs_questions arm of [] \<Rightarrow> False | q # _ \<Rightarrow> q = question)"

definition strip_first :: "'t ArmCompileState \<Rightarrow> 't ArmCompileState" where
  "strip_first arm = arm\<lparr> acs_questions := tl (acs_questions arm) \<rparr>"

definition pending :: "'t ArmCompileState list \<Rightarrow> nat" where
  "pending arms = sum_list (map (\<lambda>arm. Suc (length (acs_questions arm))) arms)"

lemma pending_simps [simp]:
  "pending [] = 0" "pending (arm # arms) = Suc (length (acs_questions arm)) + pending arms"
  by (simp_all add: pending_def)

lemma pending_append: "pending (xs @ ys) = pending xs + pending ys"
  by (simp add: pending_def)

lemma pending_strip: "\<forall>arm \<in> set arms. asks_first q arm \<Longrightarrow> pending (map strip_first arms) + length arms = pending arms"
  by (induction arms) (auto simp: asks_first_def strip_first_def split: list.splits)

function compile_arm_sequence ::
  "'t ArmCompileState list \<Rightarrow> GraphNodeId \<Rightarrow> 't compiling \<Rightarrow> (GraphNodeId \<times> 't compiling) option" where
  "compile_arm_sequence [] fallback s = Some (fallback, s)"
| "compile_arm_sequence (first # rest) fallback s =
     (case acs_questions first of
        [] \<Rightarrow> outcome_node (acs_arm first) s
      | first_question # _ \<Rightarrow>
          let shared = takeWhile (asks_first first_question) (first # rest)
          in if 1 < length shared then
               (case s of (b, st) \<Rightarrow>
                  do { (after_shared, s1) \<leftarrow> compile_arm_sequence (drop (length shared) (first # rest)) fallback
                         (b, st\<lparr> st_shared_prefix_tests := st_shared_prefix_tests st + 1 \<rparr>);
                       (on_match, s2) \<leftarrow> compile_arm_sequence (map strip_first shared) after_shared s1;
                       test_node first_question on_match after_shared s2 })
             else do { (on_miss, s1) \<leftarrow> compile_arm_sequence rest fallback s; compile_single_arm first on_miss s1 })"
  by pat_completeness auto
termination
proof (relation "measure (\<lambda>(arms, _). pending arms)"; (simp; fail)?)
  fix first :: "'t ArmCompileState" and rest fallback s x qs shared b st
  assume q: "acs_questions first = x # qs" and shared: "shared = takeWhile (asks_first x) (first # rest)"
  have whole: "pending shared + pending (drop (length shared) (first # rest)) = pending (first # rest)"
    unfolding shared by (metis pending_append takeWhile_dropWhile_id dropWhile_eq_drop)
  have "asks_first x first"
    using q by (simp add: asks_first_def)
  then have pos: "0 < length shared" "0 < pending shared"
    using shared by simp_all
  then show "((drop (length shared) (first # rest), fallback, b, st), first # rest, fallback, s) \<in> measure (\<lambda>(arms, _). pending arms)"
    using whole by simp
  have "pending (map strip_first shared) + length shared = pending shared"
    by (rule pending_strip [of _ x]) (auto simp: shared dest: set_takeWhileD)
  then show "((map strip_first shared, after, s1), first # rest, fallback, s) \<in> measure (\<lambda>(arms, _). pending arms)" for after s1
    using whole pos by (simp del: length_greater_0_conv)
qed

definition compile_ordered_arms ::
  "'t DispatchArm list \<Rightarrow> Subject list \<Rightarrow> PlanInputs \<Rightarrow> (DispatchCompileError + 't CompiledDispatchGraph) option" where
  "compile_ordered_arms ordered_arms subjects inputs =
     do { (fallback, s) \<leftarrow> fallback_node (DispatchGraphBuilder_typed subjects inputs,
            DispatchCompileStats_default\<lparr> st_arms := length ordered_arms \<rparr>);
          (root, b, st) \<leftarrow> compile_arm_sequence (map (\<lambda>arm. \<lparr> acs_arm = arm, acs_questions = arm_questions arm \<rparr>) ordered_arms) fallback s;
          built \<leftarrow> DispatchGraphBuilder_build root b;
          Some (case built of
                  Inl e \<Rightarrow> Inl (InvalidGraph e)
                | Inr graph \<Rightarrow> Inr \<lparr> compiled_graph = graph, compiled_stats = st \<rparr>) }"

definition compile_dispatch_matrix ::
  "'t DispatchMatrix \<Rightarrow> PlanInputs \<Rightarrow> (DispatchCompileError + 't CompiledDispatchGraph) option" where
  "compile_dispatch_matrix matrix inputs = compile_ordered_arms (mx_arms matrix) (mx_subjects matrix) inputs"

end
