(* ===== verification/Fz_Pattern.thy ===== *)
theory Fz_Pattern
  imports Fz_Dispatch
begin

text \<open>
  The producer of dispatch matrices from source patterns (\<open>dispatch_matrix/pattern.rs\<close>, \<open>pattern/source.rs\<close>)
  over the pattern and guard syntax of \<open>ast/mod.rs\<close>: pins, subjects named by paths, the questions of
  every pattern form, guards and rows.  Source positions are left out.  Name resolution of structs
  and guard calls is an argument, and a guard helper is an opaque value with its prepared keys.
\<close>

section \<open>Syntax\<close>

datatype BitType = BitInteger | BitFloat | BitBinary | BitBits | BitUtf8 | BitUtf16 | BitUtf32

datatype BitSize = BitSizeLiteral nat | BitSizeVar string

record BitFieldSpec =
  bs_ty :: BitType
  bs_size :: "BitSize option"
  bs_endian :: BitstringEndian
  bs_signed :: bool
  bs_unit :: "nat option"

datatype 'v BitField = BitField (bf_value: 'v) (bf_spec: BitFieldSpec)

datatype 'm Pattern =
    PatWildcard
  | PatVar string
  | PatInt u64
  | PatFloat u64
  | PatBinary "u8 list"
  | PatAtom string
  | PatBool bool
  | PatNil
  | PatTuple "'m Pattern list"
  | PatList "'m Pattern list" "'m Pattern option"
  | PatMap "('m Pattern \<times> 'm Pattern) list"
  | PatStruct 'm "(string \<times> 'm Pattern) list"
  | PatPinned string
  | PatAs string "'m Pattern"
  | PatBitstring "'m Pattern BitField list"

datatype UnOp = UnNot | UnNeg

datatype BinOp =
    OpAdd | OpSub | OpMul | OpDiv | OpRem | OpEq | OpNeq | OpLt | OpLtEq | OpGt | OpGtEq | OpAnd | OpOr
  | OpPipe | OpCons | OpListConcat | OpListSubtract | OpBinConcat | OpRange | OpRangeStep | OpIn | OpNotIn

text \<open>The expression forms a guard can have; every other form is \<open>ExprOther\<close>, which guards refuse.\<close>

datatype 'x Expr =
    ExprInt u64
  | ExprFloat u64
  | ExprBinary "u8 list"
  | ExprAtom string
  | ExprBool bool
  | ExprNil
  | ExprVar string
  | ExprAscribe "'x Expr"
  | ExprUnOp UnOp "'x Expr"
  | ExprBinOp BinOp "'x Expr" "'x Expr"
  | ExprCall "'x Expr" "'x Expr list"
  | ExprOther 'x

section \<open>Rows\<close>

type_synonym PatternBodyId = nat

datatype PatternSubjectRef =
    RefInput nat
  | RefTupleField PatternSubjectRef nat
  | RefStructField PatternSubjectRef string
  | RefListHead PatternSubjectRef
  | RefListTail PatternSubjectRef
  | RefMapValue PatternSubjectRef GroundValue
  | RefSubject SubjectId

record ('m, 'x, 't) PatternRow =
  row_patterns :: "'m Pattern list"
  row_preconditions :: "(PatternSubjectRef \<times> 't) list"
  row_guard :: "'x Expr option"
  row_body_id :: PatternBodyId

datatype Prematch = Lexical | PrematchInputs "(string \<times> nat) list"

record ('m, 'x, 't) SourcePatternRows =
  sp_input_count :: nat
  sp_rows :: "('m, 'x, 't) PatternRow list"
  sp_prematch :: Prematch

definition SourcePatternRows_lexical :: "nat \<Rightarrow> ('m, 'x, 't) PatternRow list \<Rightarrow> ('m, 'x, 't) SourcePatternRows" where
  "SourcePatternRows_lexical input_count rows = \<lparr> sp_input_count = input_count, sp_rows = rows, sp_prematch = Lexical \<rparr>"

definition SourcePatternRows_entry :: "nat \<Rightarrow> ('m, 'x, 't) PatternRow list \<Rightarrow> (string \<times> nat) list \<Rightarrow> ('m, 'x, 't) SourcePatternRows" where
  "SourcePatternRows_entry input_count rows inputs =
     \<lparr> sp_input_count = input_count, sp_rows = rows, sp_prematch = PrematchInputs inputs \<rparr>"

fun input_for :: "Prematch \<Rightarrow> string \<Rightarrow> nat option" where
  "input_for Lexical name = None"
| "input_for (PrematchInputs inputs) name = map_of inputs name"

datatype PinnedKind = KindPin | KindVariable

record PatternPinnedInput =
  pin_name :: string
  pin_input :: "nat option"
  pin_kind :: PinnedKind

fun undefined_pins :: "Prematch \<Rightarrow> PatternPinnedInput list \<Rightarrow> PatternPinnedInput list" where
  "undefined_pins Lexical pinned = []"
| "undefined_pins (PrematchInputs _) pinned = filter (\<lambda>pin. pin_input pin = None) pinned"

datatype 'm SourcePatternError =
    UnresolvedStruct 'm
  | UnsupportedGuardExpr
  | UnsupportedMapKey
  | UnknownSubjectRef PatternSubjectRef
  | UnknownPinned string
  | UnknownGuardVar string
  | UndefinedPins "PatternPinnedInput list"
  | GuardCallCycle string nat
  | DispatchMatrixFailed DispatchMatrixError
  | RowPatternArity nat nat PatternBodyId
  | NonMonotonicBodyId PatternBodyId PatternBodyId

definition and_ok :: "'e + 'a \<Rightarrow> ('a \<Rightarrow> 'e + 'b) \<Rightarrow> 'e + 'b" where
  "and_ok x f = (case x of Inl e \<Rightarrow> Inl e | Inr a \<Rightarrow> f a)"

lemma and_ok_simps [simp]: "and_ok (Inl e) f = Inl e" "and_ok (Inr a) f = f a"
  by (simp_all add: and_ok_def)

lemma and_ok_Inr: "and_ok x f = Inr b \<longleftrightarrow> (\<exists>a. x = Inr a \<and> f a = Inr b)"
  by (cases x) simp_all

lemma and_ok_cong [fundef_cong]: "x = y \<Longrightarrow> (\<And>a. y = Inr a \<Longrightarrow> f a = g a) \<Longrightarrow> and_ok x f = and_ok y g"
  by (cases y) simp_all

lemma size_BitField_eq: "size_BitField f x = Suc (f (bf_value x))"
  by (cases x) simp

lemma size_bit_value [termination_simp]: "x \<in> set bits \<Longrightarrow> size (bf_value x) < Suc (size_list (size_BitField size) bits)"
proof (induction bits)
  case (Cons b bits)
  then show ?case
    by (cases b) auto
qed simp

section \<open>Names a row reaches for\<close>

definition record_pinned_name :: "string \<Rightarrow> PinnedKind \<Rightarrow> PatternPinnedInput list \<Rightarrow> PatternPinnedInput list" where
  "record_pinned_name name kind out =
     (if \<exists>pin \<in> set out. pin_name pin = name then out
      else out @ [\<lparr> pin_name = name, pin_input = None, pin_kind = kind \<rparr>])"

fun collect_bound_names_in_pattern :: "'m Pattern \<Rightarrow> string set \<Rightarrow> string set" where
  "collect_bound_names_in_pattern (PatVar name) out = insert name out"
| "collect_bound_names_in_pattern (PatAs name inner) out = collect_bound_names_in_pattern inner (insert name out)"
| "collect_bound_names_in_pattern (PatTuple elems) out = fold collect_bound_names_in_pattern elems out"
| "collect_bound_names_in_pattern (PatList elems tail) out =
     (let out' = fold collect_bound_names_in_pattern elems out
      in case tail of Some t \<Rightarrow> collect_bound_names_in_pattern t out' | None \<Rightarrow> out')"
| "collect_bound_names_in_pattern (PatMap entries) out =
     fold (\<lambda>(key, val) out. collect_bound_names_in_pattern val (collect_bound_names_in_pattern key out)) entries out"
| "collect_bound_names_in_pattern (PatStruct _ field_pats) out =
     fold (\<lambda>(_, val) out. collect_bound_names_in_pattern val out) field_pats out"
| "collect_bound_names_in_pattern (PatBitstring bits) out =
     fold (\<lambda>field out. collect_bound_names_in_pattern (bf_value field) out) bits out"
| "collect_bound_names_in_pattern _ out = out"

fun collect_pinned_names_in_pattern :: "'m Pattern \<Rightarrow> PatternPinnedInput list \<Rightarrow> PatternPinnedInput list" where
  "collect_pinned_names_in_pattern (PatPinned name) out = record_pinned_name name KindPin out"
| "collect_pinned_names_in_pattern (PatTuple elems) out = fold collect_pinned_names_in_pattern elems out"
| "collect_pinned_names_in_pattern (PatList elems tail) out =
     (let out' = fold collect_pinned_names_in_pattern elems out
      in case tail of Some t \<Rightarrow> collect_pinned_names_in_pattern t out' | None \<Rightarrow> out')"
| "collect_pinned_names_in_pattern (PatMap entries) out =
     fold (\<lambda>(key, val) out. collect_pinned_names_in_pattern val (collect_pinned_names_in_pattern key out)) entries out"
| "collect_pinned_names_in_pattern (PatStruct _ field_pats) out =
     fold (\<lambda>(_, val) out. collect_pinned_names_in_pattern val out) field_pats out"
| "collect_pinned_names_in_pattern (PatAs _ inner) out = collect_pinned_names_in_pattern inner out"
| "collect_pinned_names_in_pattern (PatBitstring bits) out =
     fold (\<lambda>field out. collect_pinned_names_in_pattern (bf_value field) out) bits out"
| "collect_pinned_names_in_pattern _ out = out"

type_synonym ('x, 'c) for_call = "'x Expr \<Rightarrow> nat \<Rightarrow> 'c option"

fun collect_guard_capture_names :: "('x, 'c) for_call \<Rightarrow> 'x Expr \<Rightarrow> string set \<Rightarrow> PatternPinnedInput list \<Rightarrow> PatternPinnedInput list" where
  "collect_guard_capture_names fc (ExprVar name) bound out =
     (if name \<notin> bound then record_pinned_name name KindVariable out else out)"
| "collect_guard_capture_names fc (ExprBinOp _ a b) bound out =
     collect_guard_capture_names fc b bound (collect_guard_capture_names fc a bound out)"
| "collect_guard_capture_names fc (ExprUnOp _ a) bound out = collect_guard_capture_names fc a bound out"
| "collect_guard_capture_names fc (ExprAscribe a) bound out = collect_guard_capture_names fc a bound out"
| "collect_guard_capture_names fc (ExprCall target args) bound out =
     fold (\<lambda>arg out. collect_guard_capture_names fc arg bound out) args
       (if fc target (length args) = None then collect_guard_capture_names fc target bound out else out)"
| "collect_guard_capture_names fc _ bound out = out"

definition collect_row_names :: "('x, 'c) for_call \<Rightarrow> ('m, 'x, 't) PatternRow \<Rightarrow> PatternPinnedInput list \<Rightarrow> PatternPinnedInput list" where
  "collect_row_names fc row out =
     (let (out', bound) = fold (\<lambda>pattern (out, bound). (collect_pinned_names_in_pattern pattern out, collect_bound_names_in_pattern pattern bound))
        (row_patterns row) (out, {})
      in case row_guard row of Some guard \<Rightarrow> collect_guard_capture_names fc guard bound out' | None \<Rightarrow> out')"

definition collect_pinned_names :: "('x, 'c) for_call \<Rightarrow> ('m, 'x, 't) SourcePatternRows \<Rightarrow> PatternPinnedInput list" where
  "collect_pinned_names fc patterns =
     map (\<lambda>pin. pin\<lparr> pin_input := input_for (sp_prematch patterns) (pin_name pin) \<rparr>)
       (fold (collect_row_names fc) (sp_rows patterns) [])"

fun direct_bitfield_bindings :: "'m Pattern \<Rightarrow> string list" where
  "direct_bitfield_bindings (PatVar name) = [name]"
| "direct_bitfield_bindings (PatAs name inner) = name # direct_bitfield_bindings inner"
| "direct_bitfield_bindings _ = []"

end
