(* ===== verification/Fz_Producer.thy ===== *)
theory Fz_Producer
  imports Fz_Pattern
begin

text \<open>
  The producer proper (\<open>dispatch_matrix/pattern.rs\<close>): guard expressions, the interning of subjects,
  pins and prepared keys, the questions of a pattern, rows, and the compilation of the plan.
\<close>

section \<open>Guards\<close>

datatype PatternGuardUnaryOp = GuardNot | GuardNeg

datatype PatternGuardBinOp =
    GuardAdd | GuardSub | GuardMul | GuardDiv | GuardRem | GuardEq | GuardNeq | GuardLt | GuardLtEq | GuardGt | GuardGtEq | GuardAnd | GuardOr

datatype 'h PatternGuardExpr =
    GuardConst GroundValue
  | GuardSubject SubjectId
  | GuardPinned PinnedValueId
  | GuardUnary PatternGuardUnaryOp "'h PatternGuardExpr"
  | GuardBinary PatternGuardBinOp "'h PatternGuardExpr" "'h PatternGuardExpr"
  | GuardDispatch "'h PatternGuardExpr list" "PreparedKeyId list" 'h

fun collect_leaves :: "'h PatternGuardExpr \<Rightarrow> GuardLeaf list \<Rightarrow> GuardLeaf list" where
  "collect_leaves (GuardConst _) leaves = leaves"
| "collect_leaves (GuardSubject subject) leaves = leaves @ [LeafSubject subject]"
| "collect_leaves (GuardPinned pinned) leaves = leaves @ [LeafPinned pinned]"
| "collect_leaves (GuardUnary _ expr) leaves = collect_leaves expr leaves"
| "collect_leaves (GuardBinary _ lhs rhs) leaves = collect_leaves rhs (collect_leaves lhs leaves)"
| "collect_leaves (GuardDispatch inputs _ _) leaves = fold collect_leaves inputs leaves"

definition guard_leaves :: "'h PatternGuardExpr \<Rightarrow> GuardLeaf list" where
  "guard_leaves expr = collect_leaves expr []"

fun position :: "'a \<Rightarrow> 'a list \<Rightarrow> nat option" where
  "position x [] = None"
| "position x (y # ys) = (if y = x then Some 0 else map_option Suc (position x ys))"

definition intern_prepared_key :: "GroundValue list \<Rightarrow> GroundValue \<Rightarrow> PreparedKeyId \<times> GroundValue list" where
  "intern_prepared_key keys key =
     (case position key keys of Some index \<Rightarrow> (index, keys) | None \<Rightarrow> (length keys, keys @ [key]))"

fun intern_prepared_keys :: "GroundValue list \<Rightarrow> GroundValue list \<Rightarrow> PreparedKeyId list \<times> GroundValue list" where
  "intern_prepared_keys [] keys = ([], keys)"
| "intern_prepared_keys (key # rest) keys =
     (let (index, keys') = intern_prepared_key keys key; (indices, keys'') = intern_prepared_keys rest keys'
      in (index # indices, keys''))"

fun guard_binop :: "BinOp \<Rightarrow> PatternGuardBinOp option" where
  "guard_binop OpAdd = Some GuardAdd"
| "guard_binop OpSub = Some GuardSub"
| "guard_binop OpMul = Some GuardMul"
| "guard_binop OpDiv = Some GuardDiv"
| "guard_binop OpRem = Some GuardRem"
| "guard_binop OpEq = Some GuardEq"
| "guard_binop OpNeq = Some GuardNeq"
| "guard_binop OpLt = Some GuardLt"
| "guard_binop OpLtEq = Some GuardLtEq"
| "guard_binop OpGt = Some GuardGt"
| "guard_binop OpGtEq = Some GuardGtEq"
| "guard_binop OpAnd = Some GuardAnd"
| "guard_binop OpOr = Some GuardOr"
| "guard_binop _ = None"

text \<open>What the resolver answers, and what a helper's plan prepares.\<close>

record ('m, 'x, 't, 'c, 'h) Resolver =
  rs_struct_type :: "'m \<Rightarrow> 'm SourcePatternError + 't"
  rs_for_call :: "('x, 'c) for_call"
  rs_guard_call :: "'c \<Rightarrow> nat \<Rightarrow> 'm SourcePatternError + 'h option"
  rs_helper_keys :: "'h \<Rightarrow> GroundValue list"

fun guard_expr_from_ast ::
  "('m, 'x, 't, 'c, 'h) Resolver \<Rightarrow> (string \<rightharpoonup> SubjectId) \<Rightarrow> (string \<rightharpoonup> PinnedValueId) \<Rightarrow> 'x Expr \<Rightarrow> GroundValue list
     \<Rightarrow> 'm SourcePatternError + ('h PatternGuardExpr \<times> GroundValue list)"
and guard_args_from_ast ::
  "('m, 'x, 't, 'c, 'h) Resolver \<Rightarrow> (string \<rightharpoonup> SubjectId) \<Rightarrow> (string \<rightharpoonup> PinnedValueId) \<Rightarrow> 'x Expr list \<Rightarrow> GroundValue list
     \<Rightarrow> 'm SourcePatternError + ('h PatternGuardExpr list \<times> GroundValue list)" where
  "guard_expr_from_ast rs bindings pins (ExprInt value) keys = Inr (GuardConst (GroundInt value), keys)"
| "guard_expr_from_ast rs bindings pins (ExprFloat bits) keys = Inr (GuardConst (GroundFloat bits), keys)"
| "guard_expr_from_ast rs bindings pins (ExprBinary bytes) keys = Inr (GuardConst (GroundUtf8Binary bytes), keys)"
| "guard_expr_from_ast rs bindings pins (ExprAtom name) keys = Inr (GuardConst (GroundAtom name), keys)"
| "guard_expr_from_ast rs bindings pins (ExprBool value) keys = Inr (GuardConst (GroundBool value), keys)"
| "guard_expr_from_ast rs bindings pins ExprNil keys = Inr (GuardConst GroundNil, keys)"
| "guard_expr_from_ast rs bindings pins (ExprVar name) keys =
     (case bindings name of
        Some subject \<Rightarrow> Inr (GuardSubject subject, keys)
      | None \<Rightarrow> (case pins name of Some pinned \<Rightarrow> Inr (GuardPinned pinned, keys) | None \<Rightarrow> Inl (UnknownGuardVar name)))"
| "guard_expr_from_ast rs bindings pins (ExprAscribe inner) keys = guard_expr_from_ast rs bindings pins inner keys"
| "guard_expr_from_ast rs bindings pins (ExprUnOp UnNot arg) keys =
     and_ok (guard_expr_from_ast rs bindings pins arg keys) (\<lambda>(e, keys'). Inr (GuardUnary GuardNot e, keys'))"
| "guard_expr_from_ast rs bindings pins (ExprUnOp UnNeg arg) keys =
     and_ok (guard_expr_from_ast rs bindings pins arg keys) (\<lambda>(e, keys'). Inr (GuardUnary GuardNeg e, keys'))"
| "guard_expr_from_ast rs bindings pins (ExprBinOp op lhs rhs) keys =
     (case guard_binop op of
        None \<Rightarrow> Inl UnsupportedGuardExpr
      | Some gop \<Rightarrow> and_ok (guard_expr_from_ast rs bindings pins lhs keys) (\<lambda>(l, keys').
          and_ok (guard_expr_from_ast rs bindings pins rhs keys') (\<lambda>(r, keys''). Inr (GuardBinary gop l r, keys''))))"
| "guard_expr_from_ast rs bindings pins (ExprCall target args) keys =
     (case rs_for_call rs target (length args) of
        None \<Rightarrow> Inl UnsupportedGuardExpr
      | Some callee \<Rightarrow> and_ok (guard_args_from_ast rs bindings pins args keys) (\<lambda>(inputs, keys').
          and_ok (rs_guard_call rs callee (length args)) (\<lambda>found.
            case found of
              None \<Rightarrow> Inl UnsupportedGuardExpr
            | Some helper \<Rightarrow>
                let (prepared, keys'') = intern_prepared_keys (rs_helper_keys rs helper) keys'
                in Inr (GuardDispatch inputs prepared helper, keys''))))"
| "guard_expr_from_ast rs bindings pins (ExprOther _) keys = Inl UnsupportedGuardExpr"
| "guard_args_from_ast rs bindings pins [] keys = Inr ([], keys)"
| "guard_args_from_ast rs bindings pins (arg # args) keys =
     and_ok (guard_expr_from_ast rs bindings pins arg keys) (\<lambda>(e, keys').
       and_ok (guard_args_from_ast rs bindings pins args keys') (\<lambda>(es, keys''). Inr (e # es, keys'')))"

section \<open>The producer's state\<close>

record PatternDispatchBinding =
  binding_name :: string
  binding_source :: SubjectId

record PatternDispatchOutcome =
  po_body_id :: PatternBodyId
  po_bindings :: "PatternDispatchBinding list"

record ('t, 'h) PatternDispatchProducer =
  pp_builder :: "'t DispatchMatrixBuilder"
  pp_input_count :: nat
  pp_prematch :: Prematch
  pp_subjects :: "PatternSubjectRef \<rightharpoonup> SubjectId"
  pp_guard_subject :: SubjectId
  pp_pinned :: "PatternPinnedInput list"
  pp_pinned_by_name :: "string \<rightharpoonup> PinnedValueId"
  pp_prepared_keys :: "GroundValue list"
  pp_outcomes :: "PatternDispatchOutcome list"
  pp_guards :: "'h PatternGuardExpr list"
  pp_projections :: "SubjectId \<times> ProjectionKind \<rightharpoonup> SubjectId"

record ('t, 'h) PatternDispatchPlan =
  plan_graph :: "'t DispatchGraph"
  plan_input_count :: nat
  plan_outcomes :: "PatternDispatchOutcome list"
  plan_guards :: "'h PatternGuardExpr list"
  plan_pinned :: "PatternPinnedInput list"
  plan_prepared_keys :: "GroundValue list"

datatype 'm PatternDispatchError =
    SourcePatternFailed "'m SourcePatternError"
  | MatrixBuildFailed DispatchMatrixError
  | CompileFailed DispatchCompileError

definition plan_outcome :: "('t, 'h) PatternDispatchPlan \<Rightarrow> OutcomeId \<Rightarrow> PatternDispatchOutcome option" where
  "plan_outcome plan ident = (if ident < length (plan_outcomes plan) then Some (plan_outcomes plan ! ident) else None)"

definition plan_body_id :: "('t, 'h) PatternDispatchPlan \<Rightarrow> OutcomeId \<Rightarrow> PatternBodyId option" where
  "plan_body_id plan outcome = map_option po_body_id (plan_outcome plan outcome)"

definition required_input :: "('t, 'h) PatternDispatchPlan \<Rightarrow> nat \<Rightarrow> bool" where
  "required_input plan ordinal =
     (ordinal < length (graph_input_demand (plan_graph plan)) \<and> asks_anything (graph_input_demand (plan_graph plan) ! ordinal))"

definition prepared_key_id :: "('t, 'h) PatternDispatchPlan \<Rightarrow> GroundValue \<Rightarrow> PreparedKeyId option" where
  "prepared_key_id plan key = position key (plan_prepared_keys plan)"

fun validate_arities :: "nat \<Rightarrow> ('m, 'x, 't) PatternRow list \<Rightarrow> 'm SourcePatternError + unit" where
  "validate_arities expected [] = Inr ()"
| "validate_arities expected (row # rows) =
     (if length (row_patterns row) \<noteq> expected then Inl (RowPatternArity expected (length (row_patterns row)) (row_body_id row))
      else validate_arities expected rows)"

fun validate_order :: "('m, 'x, 't) PatternRow list \<Rightarrow> 'm SourcePatternError + unit" where
  "validate_order (r1 # r2 # rows) =
     (if row_body_id r2 \<le> row_body_id r1 then Inl (NonMonotonicBodyId (row_body_id r1) (row_body_id r2))
      else validate_order (r2 # rows))"
| "validate_order _ = Inr ()"

definition validate_source_rows :: "('m, 'x, 't) SourcePatternRows \<Rightarrow> 'm SourcePatternError + unit" where
  "validate_source_rows patterns =
     and_ok (validate_arities (sp_input_count patterns) (sp_rows patterns)) (\<lambda>_. validate_order (sp_rows patterns))"

fun add_inputs :: "nat \<Rightarrow> nat \<Rightarrow> 't DispatchMatrixBuilder \<Rightarrow> (PatternSubjectRef \<rightharpoonup> SubjectId) \<Rightarrow> 't DispatchMatrixBuilder \<times> (PatternSubjectRef \<rightharpoonup> SubjectId)" where
  "add_inputs ordinal 0 b subjects = (b, subjects)"
| "add_inputs ordinal (Suc n) b subjects =
     (let (subject, b') = add_input_subject b in add_inputs (ordinal + 1) n b' (subjects(RefInput ordinal \<mapsto> subject)))"

fun pins_by_name :: "nat \<Rightarrow> PatternPinnedInput list \<Rightarrow> (string \<rightharpoonup> PinnedValueId) \<Rightarrow> (string \<rightharpoonup> PinnedValueId)" where
  "pins_by_name index [] names = names"
| "pins_by_name index (pin # pinned) names = pins_by_name (index + 1) pinned (names(pin_name pin \<mapsto> index))"

definition PatternDispatchProducer_new ::
  "('m, 'x, 't, 'c, 'h) Resolver \<Rightarrow> ('m, 'x, 't) SourcePatternRows \<Rightarrow> 'm SourcePatternError + ('t, 'h) PatternDispatchProducer" where
  "PatternDispatchProducer_new rs patterns =
     and_ok (validate_source_rows patterns) (\<lambda>_.
       let (b, subjects) = add_inputs 0 (sp_input_count patterns) DispatchMatrixBuilder_typed (\<lambda>_. None);
           (guard_subject, b') = (case subjects (RefInput 0) of Some s \<Rightarrow> (s, b) | None \<Rightarrow> add_input_subject b);
           pinned = collect_pinned_names (rs_for_call rs) patterns
       in Inr \<lparr> pp_builder = b', pp_input_count = sp_input_count patterns, pp_prematch = sp_prematch patterns, pp_subjects = subjects,
                pp_guard_subject = guard_subject, pp_pinned = pinned, pp_pinned_by_name = pins_by_name 0 pinned (\<lambda>_. None),
                pp_prepared_keys = [], pp_outcomes = [], pp_guards = [], pp_projections = (\<lambda>_. None) \<rparr>)"

section \<open>Subjects, pins and keys\<close>

definition mint_subject ::
  "PatternSubjectRef \<Rightarrow> SubjectId \<Rightarrow> ProjectionKind \<Rightarrow> ('t, 'h) PatternDispatchProducer
     \<Rightarrow> 'm SourcePatternError + (SubjectId \<times> ('t, 'h) PatternDispatchProducer)" where
  "mint_subject ref source kind p =
     (case add_projected_subject (pp_builder p) source kind of
        Inl e \<Rightarrow> Inl (DispatchMatrixFailed e)
      | Inr (ident, b) \<Rightarrow> Inr (ident, p\<lparr> pp_builder := b, pp_subjects := (pp_subjects p)(ref \<mapsto> ident) \<rparr>))"

definition known_or ::
  "PatternSubjectRef \<Rightarrow> ('t, 'h) PatternDispatchProducer \<Rightarrow> 'm SourcePatternError + (SubjectId \<times> ('t, 'h) PatternDispatchProducer)
     \<Rightarrow> 'm SourcePatternError + (SubjectId \<times> ('t, 'h) PatternDispatchProducer)" where
  "known_or ref p r = (case pp_subjects p ref of Some ident \<Rightarrow> Inr (ident, p) | None \<Rightarrow> r)"

fun subject_id_of :: "PatternSubjectRef \<Rightarrow> ('t, 'h) PatternDispatchProducer \<Rightarrow> 'm SourcePatternError + (SubjectId \<times> ('t, 'h) PatternDispatchProducer)" where
  "subject_id_of (RefInput n) p = known_or (RefInput n) p (Inl (UnknownSubjectRef (RefInput n)))"
| "subject_id_of (RefTupleField tup index) p = known_or (RefTupleField tup index) p
     (and_ok (subject_id_of tup p) (\<lambda>(source, p'). mint_subject (RefTupleField tup index) source (TupleField index) p'))"
| "subject_id_of (RefStructField rec name) p = known_or (RefStructField rec name) p
     (and_ok (subject_id_of rec p) (\<lambda>(source, p'). mint_subject (RefStructField rec name) source (StructField name) p'))"
| "subject_id_of (RefListHead lst) p = known_or (RefListHead lst) p
     (and_ok (subject_id_of lst p) (\<lambda>(source, p'). mint_subject (RefListHead lst) source ListHead p'))"
| "subject_id_of (RefListTail lst) p = known_or (RefListTail lst) p
     (and_ok (subject_id_of lst p) (\<lambda>(source, p'). mint_subject (RefListTail lst) source ListTail p'))"
| "subject_id_of (RefMapValue mp key) p = known_or (RefMapValue mp key) p
     (and_ok (subject_id_of mp p) (\<lambda>(source, p'). mint_subject (RefMapValue mp key) source (MapValue key) p'))"
| "subject_id_of (RefSubject ident) p = known_or (RefSubject ident) p
     (Inr (ident, p\<lparr> pp_subjects := (pp_subjects p)(RefSubject ident \<mapsto> ident) \<rparr>))"

definition project_subject ::
  "SubjectId \<Rightarrow> ProjectionKind \<Rightarrow> ('t, 'h) PatternDispatchProducer \<Rightarrow> 'm SourcePatternError + (SubjectId \<times> ('t, 'h) PatternDispatchProducer)" where
  "project_subject source kind p =
     (case pp_projections p (source, kind) of
        Some ident \<Rightarrow> Inr (ident, p)
      | None \<Rightarrow> (case add_projected_subject (pp_builder p) source kind of
                   Inl e \<Rightarrow> Inl (DispatchMatrixFailed e)
                 | Inr (ident, b) \<Rightarrow> Inr (ident, p\<lparr> pp_builder := b, pp_projections := (pp_projections p)((source, kind) \<mapsto> ident) \<rparr>)))"

definition pin_for_name :: "string \<Rightarrow> ('t, 'h) PatternDispatchProducer \<Rightarrow> PinnedValueId \<times> ('t, 'h) PatternDispatchProducer" where
  "pin_for_name name p =
     (case pp_pinned_by_name p name of
        Some ident \<Rightarrow> (ident, p)
      | None \<Rightarrow>
          let ident = length (pp_pinned p)
          in (ident, p\<lparr> pp_pinned := pp_pinned p @ [\<lparr> pin_name = name, pin_input = input_for (pp_prematch p) name, pin_kind = KindVariable \<rparr>],
                        pp_pinned_by_name := (pp_pinned_by_name p)(name \<mapsto> ident) \<rparr>))"

fun map_key :: "'m Pattern \<Rightarrow> 'm SourcePatternError + GroundValue" where
  "map_key (PatInt value) = Inr (GroundInt value)"
| "map_key (PatFloat bits) = Inr (GroundFloat bits)"
| "map_key (PatBinary bytes) = Inr (GroundUtf8Binary bytes)"
| "map_key (PatAtom name) = Inr (GroundAtom name)"
| "map_key (PatBool value) = Inr (GroundBool value)"
| "map_key PatNil = Inr GroundNil"
| "map_key _ = Inl UnsupportedMapKey"

definition prepare_heap_key :: "GroundValue \<Rightarrow> ('t, 'h) PatternDispatchProducer \<Rightarrow> ('t, 'h) PatternDispatchProducer" where
  "prepare_heap_key key p =
     (case key of
        GroundFloat _ \<Rightarrow> p\<lparr> pp_prepared_keys := snd (intern_prepared_key (pp_prepared_keys p) key) \<rparr>
      | GroundAtom _ \<Rightarrow> p\<lparr> pp_prepared_keys := snd (intern_prepared_key (pp_prepared_keys p) key) \<rparr>
      | GroundUtf8Binary _ \<Rightarrow> p\<lparr> pp_prepared_keys := snd (intern_prepared_key (pp_prepared_keys p) key) \<rparr>
      | _ \<Rightarrow> p)"

section \<open>Questions of a pattern\<close>

type_synonym ('t, 'h) producing = "'t RegionQuestion list \<times> PatternDispatchBinding list \<times> ('t, 'h) PatternDispatchProducer"

definition ask :: "PatternSubjectRef \<Rightarrow> (SubjectId \<Rightarrow> 't RegionQuestion) \<Rightarrow> ('t, 'h) producing \<Rightarrow> 'm SourcePatternError + ('t, 'h) producing" where
  "ask ref question s =
     (case s of (qs, bs, p) \<Rightarrow> and_ok (subject_id_of ref p) (\<lambda>(subject, p'). Inr (qs @ [question subject], bs, p')))"

definition bind_name :: "string \<Rightarrow> PatternSubjectRef \<Rightarrow> ('t, 'h) producing \<Rightarrow> 'm SourcePatternError + ('t, 'h) producing" where
  "bind_name name ref s =
     (case s of (qs, bs, p) \<Rightarrow>
        and_ok (subject_id_of ref p) (\<lambda>(source, p'). Inr (qs, bs @ [\<lparr> binding_name = name, binding_source = source \<rparr>], p')))"

definition const_question :: "PatternSubjectRef \<Rightarrow> GroundValue \<Rightarrow> ('t, 'h) producing \<Rightarrow> 'm SourcePatternError + ('t, 'h) producing" where
  "const_question ref value = ask ref (\<lambda>subject. equality subject (ComparisonConst value))"

fun subject_ids :: "PatternSubjectRef list \<Rightarrow> ('t, 'h) PatternDispatchProducer \<Rightarrow> 'm SourcePatternError + (SubjectId list \<times> ('t, 'h) PatternDispatchProducer)" where
  "subject_ids [] p = Inr ([], p)"
| "subject_ids (ref # refs) p =
     and_ok (subject_id_of ref p) (\<lambda>(ident, p'). and_ok (subject_ids refs p') (\<lambda>(idents, p''). Inr (ident # idents, p'')))"

fun bitstring_field_kind :: "BitType \<Rightarrow> BitstringFieldKind" where
  "bitstring_field_kind BitInteger = FieldInteger"
| "bitstring_field_kind BitFloat = FieldFloat"
| "bitstring_field_kind BitBinary = FieldBinary"
| "bitstring_field_kind BitBits = FieldBits"
| "bitstring_field_kind BitUtf8 = FieldUtf8"
| "bitstring_field_kind BitUtf16 = FieldUtf16"
| "bitstring_field_kind BitUtf32 = FieldUtf32"

definition field_size_of ::
  "(string \<rightharpoonup> SubjectId) \<Rightarrow> BitSize option \<Rightarrow> ('t, 'h) PatternDispatchProducer \<Rightarrow> BitstringFieldSize option \<times> ('t, 'h) PatternDispatchProducer" where
  "field_size_of binding_subjects sz p =
     (case sz of
        None \<Rightarrow> (None, p)
      | Some (BitSizeLiteral value) \<Rightarrow> (Some (SizeLiteral value), p)
      | Some (BitSizeVar name) \<Rightarrow>
          (case binding_subjects name of
             Some subject \<Rightarrow> (Some (SizeBinding subject), p)
           | None \<Rightarrow> (let (pin, p') = pin_for_name name p in (Some (SizePinned pin), p'))))"

fun bitstring_fields ::
  "SubjectId \<Rightarrow> 'm Pattern BitField list \<Rightarrow> (string \<rightharpoonup> SubjectId) \<Rightarrow> SubjectId list \<Rightarrow> ('t, 'h) PatternDispatchProducer
     \<Rightarrow> 'm SourcePatternError + (SubjectId list \<times> ('t, 'h) PatternDispatchProducer)" where
  "bitstring_fields source [] binding_subjects shapes p = Inr (shapes, p)"
| "bitstring_fields source (field # rest) binding_subjects shapes p =
     (let (sz, p1) = field_size_of binding_subjects (bs_size (bf_spec field)) p;
          extraction = \<lparr> ex_previous = (if shapes = [] then None else Some (last shapes)),
            ex_spec = \<lparr> field_kind = bitstring_field_kind (bs_ty (bf_spec field)), field_size = sz, field_endian = bs_endian (bf_spec field),
                        field_signed = bs_signed (bf_spec field), field_unit = bs_unit (bf_spec field) \<rparr>,
            ex_is_last = (rest = []) \<rparr>
      in and_ok (project_subject source (BitstringField extraction) p1) (\<lambda>(field_id, p2).
           bitstring_fields source rest
             (fold (\<lambda>name names. names(name \<mapsto> field_id)) (direct_bitfield_bindings (bf_value field)) binding_subjects)
             (shapes @ [field_id]) p2))"

definition bitstring_question ::
  "PatternSubjectRef \<Rightarrow> 'm Pattern BitField list \<Rightarrow> ('t, 'h) PatternDispatchProducer
     \<Rightarrow> 'm SourcePatternError + (SubjectId list \<times> 't RegionQuestion \<times> ('t, 'h) PatternDispatchProducer)" where
  "bitstring_question ref bits p =
     and_ok (subject_id_of ref p) (\<lambda>(subject, p').
       and_ok (bitstring_fields subject bits (\<lambda>_. None) [] p') (\<lambda>(shapes, p'').
         let predicate = RegionPredicate_new subject (RegionBitstring \<lparr> shape_fields = shapes, shape_require_done = True \<rparr>)
         in Inr (shapes,
              \<lparr> q_predicate = predicate, q_match_evidence = (from_proof predicate Holds)\<lparr> ev_projections := shapes \<rparr>,
                q_miss_evidence = from_proof predicate DoesNotHold \<rparr>, p'')))"

definition struct_question :: "SubjectId \<Rightarrow> 't \<Rightarrow> SubjectId list \<Rightarrow> 't RegionQuestion" where
  "struct_question source ty results =
     (let question = type_region source ty
      in question\<lparr> q_match_evidence := fold with_projection results (q_match_evidence question) \<rparr>)"

function (sequential) append_pattern ::
  "('m, 'x, 't, 'c, 'h) Resolver \<Rightarrow> 'm Pattern \<Rightarrow> PatternSubjectRef \<Rightarrow> ('t, 'h) producing \<Rightarrow> 'm SourcePatternError + ('t, 'h) producing"
and append_fields ::
  "('m, 'x, 't, 'c, 'h) Resolver \<Rightarrow> 'm Pattern list \<Rightarrow> nat \<Rightarrow> PatternSubjectRef \<Rightarrow> ('t, 'h) producing \<Rightarrow> 'm SourcePatternError + ('t, 'h) producing"
and append_list_pattern ::
  "('m, 'x, 't, 'c, 'h) Resolver \<Rightarrow> 'm Pattern list \<Rightarrow> 'm Pattern option \<Rightarrow> PatternSubjectRef \<Rightarrow> ('t, 'h) producing \<Rightarrow> 'm SourcePatternError + ('t, 'h) producing"
and append_entries ::
  "('m, 'x, 't, 'c, 'h) Resolver \<Rightarrow> SubjectId \<Rightarrow> ('m Pattern \<times> 'm Pattern) list \<Rightarrow> PatternSubjectRef \<Rightarrow> ('t, 'h) producing \<Rightarrow> 'm SourcePatternError + ('t, 'h) producing"
and append_struct_fields ::
  "('m, 'x, 't, 'c, 'h) Resolver \<Rightarrow> (string \<times> 'm Pattern) list \<Rightarrow> PatternSubjectRef \<Rightarrow> ('t, 'h) producing \<Rightarrow> 'm SourcePatternError + ('t, 'h) producing"
and append_bit_fields ::
  "('m, 'x, 't, 'c, 'h) Resolver \<Rightarrow> SubjectId list \<Rightarrow> 'm Pattern BitField list \<Rightarrow> ('t, 'h) producing \<Rightarrow> 'm SourcePatternError + ('t, 'h) producing" where
  "append_pattern rs PatWildcard ref s = Inr s"
| "append_pattern rs (PatVar name) ref s = bind_name name ref s"
| "append_pattern rs (PatAs name inner) ref s = and_ok (bind_name name ref s) (append_pattern rs inner ref)"
| "append_pattern rs (PatPinned name) ref (qs, bs, p) =
     (case pp_pinned_by_name p name of
        None \<Rightarrow> Inl (UnknownPinned name)
      | Some pinned \<Rightarrow> ask ref (\<lambda>subject. equality subject (ComparisonPinned pinned)) (qs, bs, p))"
| "append_pattern rs (PatInt value) ref s = const_question ref (GroundInt value) s"
| "append_pattern rs (PatFloat bits) ref s = const_question ref (GroundFloat bits) s"
| "append_pattern rs (PatBinary bytes) ref s = const_question ref (GroundUtf8Binary bytes) s"
| "append_pattern rs (PatAtom name) ref s = const_question ref (GroundAtom name) s"
| "append_pattern rs (PatBool value) ref s = const_question ref (GroundBool value) s"
| "append_pattern rs PatNil ref s = const_question ref GroundNil s"
| "append_pattern rs (PatTuple pats) ref (qs, bs, p) =
     and_ok (subject_id_of ref p) (\<lambda>(subject, p').
       and_ok (subject_ids (map (RefTupleField ref) [0..<length pats]) p') (\<lambda>(field_ids, p'').
         append_fields rs pats 0 ref (qs @ [tuple_arity subject (length pats) field_ids], bs, p'')))"
| "append_pattern rs (PatList elems tail) ref s = append_list_pattern rs elems tail ref s"
| "append_pattern rs (PatMap entries) ref (qs, bs, p) =
     and_ok (subject_id_of ref p) (\<lambda>(subject, p').
       append_entries rs subject entries ref (qs @ [RegionQuestion_new (RegionPredicate_new subject RegionMapKind)], bs, p'))"
| "append_pattern rs (PatStruct module field_pats) ref (qs, bs, p) =
     and_ok (rs_struct_type rs module) (\<lambda>ty.
       and_ok (subject_id_of ref p) (\<lambda>(source, p').
         and_ok (subject_ids (map (\<lambda>(name, _). RefStructField ref name) field_pats) p') (\<lambda>(results, p'').
           append_struct_fields rs field_pats ref (qs @ [struct_question source ty results], bs, p''))))"
| "append_pattern rs (PatBitstring bits) ref (qs, bs, p) =
     and_ok (bitstring_question ref bits p) (\<lambda>(field_subjects, question, p').
       append_bit_fields rs field_subjects bits (qs @ [question], bs, p'))"
| "append_fields rs [] index ref s = Inr s"
| "append_fields rs (pat # pats) index ref s =
     and_ok (append_pattern rs pat (RefTupleField ref index) s) (append_fields rs pats (index + 1) ref)"
| "append_list_pattern rs [] tail ref s =
     (case tail of Some t \<Rightarrow> append_pattern rs t ref s | None \<Rightarrow> ask ref list_empty s)"
| "append_list_pattern rs (elem # elems) tail ref (qs, bs, p) =
     and_ok (subject_id_of ref p) (\<lambda>(subject, p1).
     and_ok (subject_id_of (RefListHead ref) p1) (\<lambda>(head, p2).
     and_ok (subject_id_of (RefListTail ref) p2) (\<lambda>(tail_id, p3).
     and_ok (append_pattern rs elem (RefListHead ref) (qs @ [list_cons subject head tail_id], bs, p3)) (\<lambda>(qs', bs', p').
       if elems = [] then
         (case tail of
            Some t \<Rightarrow> append_pattern rs t (RefListTail ref) (qs', bs', p')
          | None \<Rightarrow> Inr (qs' @ [list_empty tail_id], bs', p'))
       else append_list_pattern rs elems tail (RefListTail ref) (qs', bs', p')))))"
| "append_entries rs subject [] ref s = Inr s"
| "append_entries rs subject ((key_pat, val_pat) # entries) ref (qs, bs, p) =
     and_ok (map_key key_pat) (\<lambda>key.
     and_ok (subject_id_of (RefMapValue ref key) (prepare_heap_key key p)) (\<lambda>(value_id, p').
     and_ok (append_pattern rs val_pat (RefMapValue ref key) (qs @ [map_key_present subject key value_id], bs, p'))
       (append_entries rs subject entries ref)))"
| "append_struct_fields rs [] ref s = Inr s"
| "append_struct_fields rs ((name, pat) # field_pats) ref s =
     and_ok (append_pattern rs pat (RefStructField ref name) s) (append_struct_fields rs field_pats ref)"
| "append_bit_fields rs (ident # idents) (field # bits) s =
     and_ok (append_pattern rs (bf_value field) (RefSubject ident) s) (append_bit_fields rs idents bits)"
| "append_bit_fields rs _ _ s = Inr s"
  by pat_completeness auto
termination
  by (relation "measure (\<lambda>x. case x of
      Inl (Inl (_, pat, _)) \<Rightarrow> size pat
    | Inl (Inr (Inl (_, pats, _))) \<Rightarrow> size_list size pats
    | Inl (Inr (Inr (_, elems, tail, _))) \<Rightarrow> size_list size elems + size_option size tail
    | Inr (Inl (_, _, entries, _)) \<Rightarrow> size_list (size_prod size size) entries
    | Inr (Inr (Inl (_, field_pats, _))) \<Rightarrow> size_list (size_prod (\<lambda>_. 0) size) field_pats
    | Inr (Inr (Inr (_, _, bits, _))) \<Rightarrow> size_list (\<lambda>x. Suc (size (bf_value x))) bits)") (auto simp: size_BitField_eq)

section \<open>Rows and plans\<close>

fun append_columns ::
  "('m, 'x, 't, 'c, 'h) Resolver \<Rightarrow> 'm Pattern list \<Rightarrow> nat \<Rightarrow> ('t, 'h) producing \<Rightarrow> 'm SourcePatternError + ('t, 'h) producing" where
  "append_columns rs [] ordinal s = Inr s"
| "append_columns rs (pattern # patterns) ordinal s =
     and_ok (append_pattern rs pattern (RefInput ordinal) s) (append_columns rs patterns (ordinal + 1))"

fun append_preconditions :: "(PatternSubjectRef \<times> 't) list \<Rightarrow> ('t, 'h) producing \<Rightarrow> 'm SourcePatternError + ('t, 'h) producing" where
  "append_preconditions [] s = Inr s"
| "append_preconditions ((ref, ty) # rest) s = and_ok (ask ref (\<lambda>subject. type_region subject ty) s) (append_preconditions rest)"

definition append_guard ::
  "('m, 'x, 't, 'c, 'h) Resolver \<Rightarrow> 'x Expr option \<Rightarrow> ('t, 'h) producing \<Rightarrow> 'm SourcePatternError + ('t, 'h) producing" where
  "append_guard rs guard s =
     (case s of (qs, bs, p) \<Rightarrow>
        (case guard of
           None \<Rightarrow> Inr (qs, bs, p)
         | Some g \<Rightarrow>
             let bound = fold (\<lambda>b names. names(binding_name b \<mapsto> binding_source b)) bs (\<lambda>_. None)
             in and_ok (guard_expr_from_ast rs bound (pp_pinned_by_name p) g (pp_prepared_keys p)) (\<lambda>(expr, keys).
                  Inr (qs @ [RegionQuestion_new (RegionPredicate_new (pp_guard_subject p) (RegionGuard (length (pp_guards p))))], bs,
                       p\<lparr> pp_prepared_keys := keys, pp_guards := pp_guards p @ [expr] \<rparr>))))"

definition add_row ::
  "('m, 'x, 't, 'c, 'h) Resolver \<Rightarrow> ('m, 'x, 't) PatternRow \<Rightarrow> ('t, 'h) PatternDispatchProducer
     \<Rightarrow> 'm SourcePatternError + ('t, 'h) PatternDispatchProducer" where
  "add_row rs row p =
     and_ok (append_columns rs (row_patterns row) 0 ([], [], p)) (\<lambda>s.
     and_ok (append_preconditions (row_preconditions row) s) (\<lambda>s'.
     and_ok (append_guard rs (row_guard row) s') (\<lambda>(qs, bs, p').
       let (outcome, b) = add_outcome (pp_builder p') Unique
       in case add_arm_questions b qs EdgeEvidence_empty outcome of
            Inl e \<Rightarrow> Inl (DispatchMatrixFailed e)
          | Inr (_, b') \<Rightarrow> Inr (p'\<lparr> pp_builder := b', pp_outcomes := pp_outcomes p' @ [\<lparr> po_body_id = row_body_id row, po_bindings = bs \<rparr>] \<rparr>))))"

fun add_rows ::
  "('m, 'x, 't, 'c, 'h) Resolver \<Rightarrow> ('m, 'x, 't) PatternRow list \<Rightarrow> ('t, 'h) PatternDispatchProducer
     \<Rightarrow> 'm SourcePatternError + ('t, 'h) PatternDispatchProducer" where
  "add_rows rs [] p = Inr p"
| "add_rows rs (row # rows) p = and_ok (add_row rs row p) (add_rows rs rows)"

definition plan_inputs :: "('t, 'h) PatternDispatchProducer \<Rightarrow> PlanInputs" where
  "plan_inputs p = \<lparr> in_count = pp_input_count p, in_pinned = map pin_input (pp_pinned p), in_guard_leaves = map guard_leaves (pp_guards p) \<rparr>"

definition producer_finish :: "('t, 'h) PatternDispatchProducer \<Rightarrow> ('m PatternDispatchError + ('t, 'h) PatternDispatchPlan) option" where
  "producer_finish p =
     (if undefined_pins (pp_prematch p) (pp_pinned p) \<noteq> []
      then Some (Inl (SourcePatternFailed (UndefinedPins (undefined_pins (pp_prematch p) (pp_pinned p)))))
      else case DispatchMatrixBuilder_build (pp_builder p) of
        Inl e \<Rightarrow> Some (Inl (MatrixBuildFailed e))
      | Inr matrix \<Rightarrow>
          if length (mx_outcomes matrix) \<noteq> length (pp_outcomes p)
             \<or> \<not> list_all (\<lambda>(index, outcome). outcome_id outcome = index) (enumerate 0 (mx_outcomes matrix)) then None
          else do { compiled \<leftarrow> compile_dispatch_matrix matrix (plan_inputs p);
                    Some (case compiled of
                            Inl e \<Rightarrow> Inl (CompileFailed e)
                          | Inr c \<Rightarrow> Inr \<lparr> plan_graph = compiled_graph c, plan_input_count = pp_input_count p, plan_outcomes = pp_outcomes p,
                                plan_guards = pp_guards p, plan_pinned = pp_pinned p, plan_prepared_keys = pp_prepared_keys p \<rparr>) })"

definition pattern_dispatch_from_source_with_resolver ::
  "('m, 'x, 't, 'c, 'h) Resolver \<Rightarrow> ('m, 'x, 't) SourcePatternRows \<Rightarrow> ('m PatternDispatchError + ('t, 'h) PatternDispatchPlan) option" where
  "pattern_dispatch_from_source_with_resolver rs patterns =
     (case PatternDispatchProducer_new rs patterns of
        Inl e \<Rightarrow> Some (Inl (SourcePatternFailed e))
      | Inr producer \<Rightarrow>
     (case add_rows rs (sp_rows patterns) producer of
        Inl e \<Rightarrow> Some (Inl (SourcePatternFailed e))
      | Inr producer' \<Rightarrow> producer_finish producer'))"

definition normalize_guards_for_analysis :: "('m, 'x, 't) SourcePatternRows \<Rightarrow> ('m, 'x, 't) SourcePatternRows" where
  "normalize_guards_for_analysis patterns =
     patterns\<lparr> sp_rows := map (\<lambda>row. case row_guard row of Some _ \<Rightarrow> row\<lparr> row_guard := Some (ExprBool True) \<rparr> | None \<Rightarrow> row) (sp_rows patterns) \<rparr>"

text \<open>The search for a reachable failure; it does not end on a graph with a cycle.\<close>

partial_function (option) has_reachable_fail_in_graph :: "('t, 'h) PatternDispatchPlan \<Rightarrow> GraphNodeId \<Rightarrow> bool option" where
  "has_reachable_fail_in_graph plan node =
     (case graph_node (plan_graph plan) node of
        None \<Rightarrow> Some False
      | Some NodeFail \<Rightarrow> Some True
      | Some (NodeOutcome _ _) \<Rightarrow> Some False
      | Some (NodeTest _ on_match on_miss) \<Rightarrow>
          Option.bind (has_reachable_fail_in_graph plan (edge_target on_match)) (\<lambda>found.
            if found then Some True else has_reachable_fail_in_graph plan (edge_target on_miss)))"

definition is_inexhaustive_with_resolver :: "('m, 'x, 't, 'c, 'h) Resolver \<Rightarrow> ('m, 'x, 't) SourcePatternRows \<Rightarrow> bool option" where
  "is_inexhaustive_with_resolver rs patterns =
     (case pattern_dispatch_from_source_with_resolver rs (normalize_guards_for_analysis patterns) of
        Some (Inr plan) \<Rightarrow> has_reachable_fail_in_graph plan (graph_root (plan_graph plan))
      | _ \<Rightarrow> None)"

end
