(* ===== verification/Fz_DispatchProps.thy ===== *)
theory Fz_DispatchProps
  imports Fz_Dispatch
begin

text \<open>
  Correctness of the dispatch compiler: a matrix with well-formed subjects always compiles, the
  graph has no cycle and no more nodes than the arms have questions and outcomes, and whatever the
  questions answer, the walk from the root ends at the outcome of the first arm all of whose
  questions hold, or at the failure node when there is none.
\<close>

section \<open>What the arms mean\<close>

definition all_hold :: "('t RegionPredicate \<Rightarrow> bool) \<Rightarrow> 't RegionQuestion list \<Rightarrow> bool" where
  "all_hold ans qs \<longleftrightarrow> (\<forall>q \<in> set qs. ans (q_predicate q))"

fun first_match :: "('t RegionPredicate \<Rightarrow> bool) \<Rightarrow> 't DispatchArm list \<Rightarrow> OutcomeId option" where
  "first_match ans [] = None"
| "first_match ans (arm # arms) = (if all_hold ans (arm_questions arm) then Some (arm_outcome arm) else first_match ans arms)"

fun first_or :: "('t RegionPredicate \<Rightarrow> bool) \<Rightarrow> 't ArmCompileState list \<Rightarrow> OutcomeId option \<Rightarrow> OutcomeId option" where
  "first_or ans [] r = r"
| "first_or ans (a # as) r = (if all_hold ans (acs_questions a) then Some (arm_outcome (acs_arm a)) else first_or ans as r)"

lemma first_or_arms:
  "first_or ans (map (\<lambda>arm. \<lparr> acs_arm = arm, acs_questions = arm_questions arm \<rparr>) arms) None = first_match ans arms"
  by (induction arms) simp_all

lemma first_or_append: "first_or ans (xs @ ys) r = first_or ans xs (first_or ans ys r)"
  by (induction xs) simp_all

lemma first_or_shared:
  assumes "\<forall>a \<in> set as. asks_first q a"
  shows "first_or ans as r = (if ans (q_predicate q) then first_or ans (map strip_first as) r else r)"
  using assms
proof (induction as)
  case (Cons a as)
  obtain qs where "acs_questions a = q # qs"
    using Cons.prems by (auto simp: asks_first_def split: list.splits)
  then have "acs_questions a = q # qs" "acs_questions (strip_first a) = qs" "acs_arm (strip_first a) = acs_arm a"
    by (simp_all add: strip_first_def)
  then show ?case
    using Cons by (simp add: all_hold_def)
qed simp

section \<open>Walks through a graph\<close>

inductive decides :: "'t DispatchNode list \<Rightarrow> ('t RegionPredicate \<Rightarrow> bool) \<Rightarrow> GraphNodeId \<Rightarrow> OutcomeId option \<Rightarrow> bool"
  for nodes ans where
  fail: "n < length nodes \<Longrightarrow> nodes ! n = NodeFail \<Longrightarrow> decides nodes ans n None"
| outcome: "n < length nodes \<Longrightarrow> nodes ! n = NodeOutcome oc ev \<Longrightarrow> decides nodes ans n (Some oc)"
| matched: "n < length nodes \<Longrightarrow> nodes ! n = NodeTest p yes no \<Longrightarrow> ans p \<Longrightarrow> decides nodes ans (edge_target yes) r
    \<Longrightarrow> decides nodes ans n r"
| missed: "n < length nodes \<Longrightarrow> nodes ! n = NodeTest p yes no \<Longrightarrow> \<not> ans p \<Longrightarrow> decides nodes ans (edge_target no) r
    \<Longrightarrow> decides nodes ans n r"

lemma decides_append: "decides xs ans n r \<Longrightarrow> decides (xs @ ys) ans n r"
  by (induction rule: decides.induct) (auto intro: decides.intros simp: nth_append)

lemma decides_bound: "decides nodes ans n r \<Longrightarrow> n < length nodes"
  by (cases rule: decides.cases) auto

inductive_cases decidesE: "decides nodes ans n r"

lemma decides_unique: "decides nodes ans n r \<Longrightarrow> decides nodes ans n r' \<Longrightarrow> r' = r"
proof (induction arbitrary: r' rule: decides.induct)
  case (fail n)
  from fail.prems show ?case
    by (rule decidesE) (use fail.hyps in simp_all)
next
  case (outcome n oc ev)
  from outcome.prems show ?case
    by (rule decidesE) (use outcome.hyps in simp_all)
next
  case (matched n p yes no r)
  from matched.prems show ?case
    by (rule decidesE) (use matched.hyps in \<open>auto dest: matched.IH\<close>)
next
  case (missed n p yes no r)
  from missed.prems show ?case
    by (rule decidesE) (use missed.hyps in \<open>auto dest: missed.IH\<close>)
qed

definition below :: "'t DispatchNode \<Rightarrow> GraphNodeId \<Rightarrow> bool" where
  "below node i = (case node of NodeTest _ yes no \<Rightarrow> edge_target yes < i \<and> edge_target no < i | _ \<Rightarrow> True)"

definition acyclic_nodes :: "'t DispatchNode list \<Rightarrow> bool" where
  "acyclic_nodes nodes \<longleftrightarrow> (\<forall>i < length nodes. below (nodes ! i) i)"

lemma acyclic_nodes_append_one: "acyclic_nodes (nodes @ [node]) \<longleftrightarrow> acyclic_nodes nodes \<and> below node (length nodes)"
  by (auto simp: acyclic_nodes_def nth_append less_Suc_eq)

section \<open>Charging\<close>

text \<open>Charging raises the demands on the inputs and changes nothing else.\<close>

definition raised :: "'t DispatchGraphBuilder \<Rightarrow> 't DispatchGraphBuilder \<Rightarrow> bool" where
  "raised b b' \<longleftrightarrow> gb_subjects b' = gb_subjects b \<and> gb_nodes b' = gb_nodes b \<and> gb_inputs b' = gb_inputs b
     \<and> list_all2 (\<le>) (gb_input_demand b) (gb_input_demand b')"

lemma raised_refl [simp]: "raised b b"
  by (simp add: raised_def list.rel_refl)

lemma raised_trans: "raised b b' \<Longrightarrow> raised b' b'' \<Longrightarrow> raised b b''"
  unfolding raised_def by (auto elim: list_all2_trans [rotated] intro: order_trans)

lemma raised_input: "charge_input o' d b = Some b' \<Longrightarrow> raised b b'"
  by (auto simp: charge_input_def raised_def list_all2_conv_all_nth nth_list_update split: if_splits)
    (metis sup_DispatchDemand_def sup_ge1)

lemma raised_subject: "charge_subject s d b = Some b' \<Longrightarrow> raised b b'"
  by (auto simp: charge_subject_def split: Option.bind_splits intro: raised_input)

lemma raised_pin: "charge_pin p b = Some b' \<Longrightarrow> raised b b'"
  by (auto simp: charge_pin_def split: if_splits option.splits intro: raised_input)

lemma raised_each:
  assumes "\<And>x b b'. f x b = Some b' \<Longrightarrow> raised b b'" and "charge_each f xs b = Some b'"
  shows "raised b b'"
  using assms(2)
proof (induction xs arbitrary: b)
  case (Cons x xs)
  then show ?case
    by (auto split: Option.bind_splits intro: raised_trans assms(1))
qed simp

lemma raised_leaf: "charge_leaf l b = Some b' \<Longrightarrow> raised b b'"
  by (cases l) (auto intro: raised_subject raised_pin)

lemma raised_node: "charge_node node b = Some b' \<Longrightarrow> raised b b'"
proof (cases node)
  case (NodeTest p yes no)
  assume *: "charge_node node b = Some b'"
  have sizes: "charge_bitstring_sizes sh c = Some c' \<Longrightarrow> raised c c'" for sh and c c' :: "'a DispatchGraphBuilder"
    unfolding charge_bitstring_sizes_def
    by (erule raised_each [rotated]) (auto split: option.splits intro: raised_pin)
  have guard: "charge_guard g c = Some c' \<Longrightarrow> raised c c'" for g and c c' :: "'a DispatchGraphBuilder"
    by (auto simp: charge_guard_def split: if_splits intro: raised_each raised_leaf)
  show ?thesis
    using * NodeTest
    by (cases "pred_region p")
      (auto simp: charge_node_def split: Option.bind_splits ComparisonValue.splits
        intro: guard raised_subject raised_trans [OF raised_subject raised_pin] raised_trans [OF raised_subject sizes])
qed (simp_all add: charge_node_def)

lemma add_node_spec:
  assumes "add_node node b = Some (ident, b')"
  shows "ident = length (gb_nodes b)" and "gb_nodes b' = gb_nodes b @ [node]" and "gb_subjects b' = gb_subjects b"
    and "gb_inputs b' = gb_inputs b" and "list_all2 (\<le>) (gb_input_demand b) (gb_input_demand b')"
  using assms raised_node [of node b] by (auto simp: add_node_def raised_def split: Option.bind_splits)

lemma add_node_nodes:
  "add_node node b = Some (ident, b') \<Longrightarrow> ident = length (gb_nodes b) \<and> gb_nodes b' = gb_nodes b @ [node]"
  using add_node_spec(1,2) by blast

section \<open>Compilation of the arms\<close>

abbreviation nodes_of :: "'t compiling \<Rightarrow> 't DispatchNode list" where
  "nodes_of s \<equiv> gb_nodes (fst s)"

text \<open>One step of the compiler: it appends at most \<open>k\<close> nodes, keeps edges pointing backwards, and the
  node it returns decides what \<open>f\<close> makes of the fallback's decision.\<close>

definition compiles :: "'t compiling \<Rightarrow> GraphNodeId \<Rightarrow> nat \<Rightarrow> (('t RegionPredicate \<Rightarrow> bool) \<Rightarrow> OutcomeId option \<Rightarrow> OutcomeId option)
    \<Rightarrow> GraphNodeId \<times> 't compiling \<Rightarrow> bool" where
  "compiles s fallback k f res \<longleftrightarrow> (case res of (n, s') \<Rightarrow>
     (\<exists>new. nodes_of s' = nodes_of s @ new \<and> length new \<le> k) \<and> n < length (nodes_of s')
     \<and> (acyclic_nodes (nodes_of s) \<longrightarrow> acyclic_nodes (nodes_of s'))
     \<and> (\<forall>ans r. decides (nodes_of s) ans fallback r \<longrightarrow> decides (nodes_of s') ans n (f ans r)))"

lemma outcome_node_compiles:
  "outcome_node arm s = Some res \<Longrightarrow> compiles s fallback 1 (\<lambda>_ _. Some (arm_outcome arm)) res"
  by (auto simp: outcome_node_def compiles_def acyclic_nodes_append_one below_def split: prod.splits Option.bind_splits
      dest!: add_node_nodes intro: decides.outcome)

lemma test_node_spec:
  assumes "test_node q yes no s = Some (n, s')"
  shows "n = length (nodes_of s)" and "nodes_of s' = nodes_of s @ [into_test_node q yes no]"
  using assms by (auto simp: test_node_def split: prod.splits Option.bind_splits dest!: add_node_nodes)

lemma test_node_decides:
  assumes "test_node q yes no s = Some (n, s')"
    and "decides (nodes_of s) ans (if ans (q_predicate q) then yes else no) r"
  shows "decides (nodes_of s') ans n r"
proof -
  have n: "n < length (nodes_of s')" "nodes_of s' ! n = NodeTest (q_predicate q) (with_evidence yes (q_match_evidence q)) (with_evidence no (q_miss_evidence q))"
    using test_node_spec [OF assms(1)] by (simp_all add: into_test_node_def)
  show ?thesis
    using assms(2) decides.matched [OF n, of ans r] decides.missed [OF n, of ans r]
    by (auto simp: with_evidence_def test_node_spec(2) [OF assms(1)] intro: decides_append split: if_splits)
qed

lemma test_node_acyclic:
  assumes "test_node q yes no s = Some (n, s')" and "yes < length (nodes_of s)" and "no < length (nodes_of s)"
    and "acyclic_nodes (nodes_of s)"
  shows "acyclic_nodes (nodes_of s')"
  using assms test_node_spec [OF assms(1)]
  by (simp add: acyclic_nodes_append_one below_def into_test_node_def with_evidence_def)

lemma test_chain_compiles:
  assumes "test_chain qs current on_miss s = Some (n, s')" and "current < length (nodes_of s)" and "on_miss < length (nodes_of s)"
  shows "\<exists>new. nodes_of s' = nodes_of s @ new \<and> length new = length qs \<and> n < length (nodes_of s')
    \<and> (acyclic_nodes (nodes_of s) \<longrightarrow> acyclic_nodes (nodes_of s'))
    \<and> (\<forall>ans r m. decides (nodes_of s) ans on_miss m \<longrightarrow> decides (nodes_of s) ans current r
         \<longrightarrow> decides (nodes_of s') ans n (if all_hold ans qs then r else m))"
  using assms
proof (induction qs arbitrary: current s)
  case Nil
  then show ?case by (simp add: all_hold_def)
next
  case (Cons q qs)
  obtain c t where t: "test_node q current on_miss s = Some (c, t)" and rest: "test_chain qs c on_miss t = Some (n, s')"
    using Cons.prems(1) by (auto split: Option.bind_splits)
  note spec = test_node_spec [OF t]
  have "c < length (nodes_of t)" "on_miss < length (nodes_of t)"
    using spec Cons.prems by simp_all
  note IH = Cons.IH [OF rest this]
  have "decides (nodes_of s') ans n (if all_hold ans (q # qs) then r else m)"
    if "decides (nodes_of s) ans on_miss m" "decides (nodes_of s) ans current r" for ans r m
  proof -
    have "decides (nodes_of t) ans c (if ans (q_predicate q) then r else m)"
      using test_node_decides [OF t] that by simp
    moreover have "decides (nodes_of t) ans on_miss m"
      using that(1) by (simp add: spec(2) decides_append)
    ultimately have "decides (nodes_of s') ans n (if all_hold ans qs then if ans (q_predicate q) then r else m else m)"
      using IH by blast
    moreover have "(if all_hold ans qs then if ans (q_predicate q) then r else m else m) = (if all_hold ans (q # qs) then r else m)"
      by (simp add: all_hold_def)
    ultimately show ?thesis
      by simp
  qed
  moreover have "acyclic_nodes (nodes_of t)" if "acyclic_nodes (nodes_of s)"
    using test_node_acyclic [OF t Cons.prems(2,3) that] .
  ultimately show ?case
    using IH spec(2) by auto
qed

lemma compile_single_arm_compiles:
  assumes "compile_single_arm arm on_miss s = Some (n, s')" and "on_miss < length (nodes_of s)"
  shows "compiles s on_miss (Suc (length (acs_questions arm)))
    (\<lambda>ans m. if all_hold ans (acs_questions arm) then Some (arm_outcome (acs_arm arm)) else m) (n, s')"
proof -
  obtain c t where o: "outcome_node (acs_arm arm) s = Some (c, t)"
    and chain: "test_chain (rev (acs_questions arm)) c on_miss t = Some (n, s')"
    using assms(1) by (auto simp: compile_single_arm_def split: Option.bind_splits)
  note oc = outcome_node_compiles [OF o, of on_miss, unfolded compiles_def, simplified]
  have "on_miss < length (nodes_of t)"
    using oc assms(2) by auto
  note ch = test_chain_compiles [OF chain _ this]
  have "all_hold ans (rev qs) = all_hold ans qs" for ans :: "'a RegionPredicate \<Rightarrow> bool" and qs
    by (simp add: all_hold_def)
  note ch = ch [unfolded this]
  obtain new1 where new1: "nodes_of t = nodes_of s @ new1" "length new1 \<le> Suc 0"
    using oc by blast
  obtain new2 where "nodes_of s' = nodes_of t @ new2" "length new2 = length (acs_questions arm)"
    using ch oc by auto
  then have "\<exists>new. nodes_of s' = nodes_of s @ new \<and> length new \<le> Suc (length (acs_questions arm))"
    using new1 by simp
  moreover have "decides (nodes_of s') ans n (if all_hold ans (acs_questions arm) then Some (arm_outcome (acs_arm arm)) else m)"
    if "decides (nodes_of s) ans on_miss m" for ans m
    using ch oc that decides_append [OF that, of new1] new1(1) by metis
  ultimately show ?thesis
    unfolding compiles_def using ch oc by auto
qed


text \<open>Steps compose: the second starts from the state of the first, with the first's node as its fallback
  or with a fallback already there.\<close>

lemma compiles_then:
  assumes "compiles s fallback k f (n, t)" and "compiles t n k' g (n', u)" and "k + k' \<le> l"
  shows "compiles s fallback l (\<lambda>ans r. g ans (f ans r)) (n', u)"
  using assms unfolding compiles_def by fastforce

lemma test_node_compiles:
  assumes on_match: "compiles s no k f (yes, t)" and "no < length (nodes_of s)" and test: "test_node q yes no t = Some (n, u)"
  shows "compiles s no (Suc k) (\<lambda>ans r. if ans (q_predicate q) then f ans r else r) (n, u)"
proof -
  obtain new where new: "nodes_of t = nodes_of s @ new" "length new \<le> k" "yes < length (nodes_of t)"
    using on_match by (auto simp: compiles_def)
  have "decides (nodes_of u) ans n (if ans (q_predicate q) then f ans r else r)" if "decides (nodes_of s) ans no r" for ans r
    using test_node_decides [OF test, of ans "if ans (q_predicate q) then f ans r else r"] that on_match decides_append [OF that, of new]
    by (auto simp: compiles_def new(1))
  moreover have "acyclic_nodes (nodes_of s) \<longrightarrow> acyclic_nodes (nodes_of u)"
    using test_node_acyclic [OF test] new assms(2) on_match by (auto simp: compiles_def)
  ultimately show ?thesis
    using new test_node_spec [OF test] by (auto simp: compiles_def)
qed

lemma compile_arm_sequence_compiles:
  assumes "compile_arm_sequence arms fallback s = Some res" and "fallback < length (nodes_of s)"
  shows "compiles s fallback (pending arms) (\<lambda>ans. first_or ans arms) res"
  using assms
proof (induction arms fallback s arbitrary: res rule: compile_arm_sequence.induct)
  case (1 fallback s)
  then show ?case
    by (auto simp: compiles_def)
next
  case (2 first rest fallback s)
  show ?case
  proof (cases "acs_questions first")
    case Nil
    then show ?thesis
      using 2(4,5) outcome_node_compiles [of "acs_arm first" s res fallback]
      by (auto simp: all_hold_def compiles_def)
  next
    case (Cons q qs)
    define shared where "shared = takeWhile (asks_first q) (first # rest)"
    have unfold: "compile_arm_sequence (first # rest) fallback s =
      (if 1 < length shared then
         (case s of (b, st) \<Rightarrow>
            do { (after_shared, s1) \<leftarrow> compile_arm_sequence (drop (length shared) (first # rest)) fallback
                   (b, st\<lparr> st_shared_prefix_tests := st_shared_prefix_tests st + 1 \<rparr>);
                 (on_match, s2) \<leftarrow> compile_arm_sequence (map strip_first shared) after_shared s1;
                 test_node q on_match after_shared s2 })
       else do { (on_miss, s1) \<leftarrow> compile_arm_sequence rest fallback s; compile_single_arm first on_miss s1 })"
      unfolding compile_arm_sequence.simps(2) Cons list.case Let_def shared_def by (rule refl)
    show ?thesis
    proof (cases "1 < length shared")
      case True
      obtain b st where s: "s = (b, st)"
        by (cases s)
      let ?s = "(b, st\<lparr> st_shared_prefix_tests := st_shared_prefix_tests st + 1 \<rparr>)" and ?rest = "drop (length shared) (first # rest)"
      obtain after s1 on_match s2 n u where c1: "compile_arm_sequence ?rest fallback ?s = Some (after, s1)"
        and c2: "compile_arm_sequence (map strip_first shared) after s1 = Some (on_match, s2)"
        and c3: "test_node q on_match after s2 = Some (n, u)" and res: "res = (n, u)"
        using "2.prems"(1) True unfolding unfold unfolding s by (cases res) (auto split: Option.bind_splits)
      have s1: "compiles ?s fallback (pending ?rest) (\<lambda>ans. first_or ans ?rest) (after, s1)"
        using "2.IH"(1) [OF Cons shared_def True] c1 s "2.prems"(2) by simp
      then have after: "after < length (nodes_of s1)"
        by (simp add: compiles_def)
      have "compiles s1 after (pending (map strip_first shared)) (\<lambda>ans. first_or ans (map strip_first shared)) (on_match, s2)"
        using "2.IH"(2) [OF Cons shared_def True _ c1] c2 s after by simp
      note t = test_node_compiles [OF this after c3]
      have asks: "\<forall>a \<in> set shared. asks_first q a"
        unfolding shared_def by (blast dest: set_takeWhileD)
      have "(\<lambda>ans r. if ans (q_predicate q) then first_or ans (map strip_first shared) r else r) = (\<lambda>ans. first_or ans shared)"
        by (simp add: fun_eq_iff first_or_shared [OF asks])
      note t = t [unfolded this]
      have all: "first # rest = shared @ ?rest"
        unfolding shared_def by (metis takeWhile_dropWhile_id dropWhile_eq_drop)
      have "pending (map strip_first shared) + length shared = pending shared"
        by (rule pending_strip [OF asks])
      then have "pending ?rest + Suc (pending (map strip_first shared)) \<le> pending (first # rest)"
        using True arg_cong [OF all, of pending] by (simp add: pending_append del: pending_simps)
      from compiles_then [OF s1 t this] show ?thesis
        unfolding res using first_or_append [of _ shared ?rest] all s by (simp add: compiles_def del: first_or.simps)
    next
      case False
      obtain on_miss s1 n u where c1: "compile_arm_sequence rest fallback s = Some (on_miss, s1)"
        and c2: "compile_single_arm first on_miss s1 = Some (n, u)" and res: "res = (n, u)"
        using "2.prems"(1) False unfolding unfold by (cases res) (auto split: Option.bind_splits)
      have s1: "compiles s fallback (pending rest) (\<lambda>ans. first_or ans rest) (on_miss, s1)"
        using "2.IH"(3) [OF Cons shared_def False c1] "2.prems"(2) by simp
      then have "on_miss < length (nodes_of s1)"
        by (simp add: compiles_def)
      from compiles_then [OF s1 compile_single_arm_compiles [OF c2 this], of "pending (first # rest)"]
      show ?thesis
        unfolding res by simp
    qed
  qed
qed

section \<open>What a node charges\<close>

definition subject_covered :: "Subject list \<Rightarrow> DispatchDemand list \<Rightarrow> SubjectId \<Rightarrow> DispatchDemand \<Rightarrow> bool" where
  "subject_covered subs dem s d \<longleftrightarrow>
     (\<exists>i d'. subject_demand subs s d = Some (Some (i, d')) \<and> i < length dem \<and> d' \<le> dem ! i)"

definition pin_covered :: "PlanInputs \<Rightarrow> DispatchDemand list \<Rightarrow> PinnedValueId \<Rightarrow> bool" where
  "pin_covered inputs dem p \<longleftrightarrow>
     (\<forall>i. p < length (in_pinned inputs) \<and> in_pinned inputs ! p = Some i \<longrightarrow> i < length dem \<and> dem ! i = Whole)"

fun leaf_covered :: "Subject list \<Rightarrow> PlanInputs \<Rightarrow> DispatchDemand list \<Rightarrow> GuardLeaf \<Rightarrow> bool" where
  "leaf_covered subs inputs dem (LeafSubject s) = subject_covered subs dem s Whole"
| "leaf_covered subs inputs dem (LeafPinned p) = pin_covered inputs dem p"

definition guard_covered :: "Subject list \<Rightarrow> PlanInputs \<Rightarrow> DispatchDemand list \<Rightarrow> GuardId \<Rightarrow> bool" where
  "guard_covered subs inputs dem g \<longleftrightarrow>
     (g < length (in_guard_leaves inputs) \<longrightarrow> (\<forall>l \<in> set (in_guard_leaves inputs ! g). leaf_covered subs inputs dem l))"

definition predicate_covered :: "Subject list \<Rightarrow> PlanInputs \<Rightarrow> DispatchDemand list \<Rightarrow> 't RegionPredicate \<Rightarrow> bool" where
  "predicate_covered subs inputs dem p \<longleftrightarrow>
     (case pred_region p of
        RegionGuard g \<Rightarrow> guard_covered subs inputs dem g
      | region \<Rightarrow> subject_covered subs dem (pred_subject p) (demand_for_region region)
          \<and> (case region of
               RegionEqual (ComparisonPinned q) \<Rightarrow> pin_covered inputs dem q
             | RegionBitstring shape \<Rightarrow> (\<forall>f \<in> set (shape_fields shape). \<forall>q. pinned_size subs f = Some q \<longrightarrow> pin_covered inputs dem q)
             | _ \<Rightarrow> True))"

definition node_covered :: "Subject list \<Rightarrow> PlanInputs \<Rightarrow> DispatchDemand list \<Rightarrow> 't DispatchNode \<Rightarrow> bool" where
  "node_covered subs inputs dem node = (case node of NodeTest p _ _ \<Rightarrow> predicate_covered subs inputs dem p | _ \<Rightarrow> True)"

lemma subject_covered_mono: "list_all2 (\<le>) dem dem' \<Longrightarrow> subject_covered subs dem s d \<Longrightarrow> subject_covered subs dem' s d"
  unfolding subject_covered_def by (metis list_all2_lengthD list_all2_nthD order_trans)

lemma pin_covered_mono: "list_all2 (\<le>) dem dem' \<Longrightarrow> pin_covered inputs dem p \<Longrightarrow> pin_covered inputs dem' p"
  unfolding pin_covered_def by (metis list_all2_lengthD list_all2_nthD demand_le_simps(3))

lemma leaf_covered_mono: "list_all2 (\<le>) dem dem' \<Longrightarrow> leaf_covered subs inputs dem l \<Longrightarrow> leaf_covered subs inputs dem' l"
  by (cases l) (auto intro: subject_covered_mono pin_covered_mono)

lemma predicate_covered_mono:
  "list_all2 (\<le>) dem dem' \<Longrightarrow> predicate_covered subs inputs dem p \<Longrightarrow> predicate_covered subs inputs dem' p"
  unfolding predicate_covered_def guard_covered_def
  by (cases "pred_region p")
    (auto intro: subject_covered_mono leaf_covered_mono pin_covered_mono split: ComparisonValue.splits)

lemma node_covered_mono: "list_all2 (\<le>) dem dem' \<Longrightarrow> node_covered subs inputs dem node \<Longrightarrow> node_covered subs inputs dem' node"
  unfolding node_covered_def by (cases node) (auto intro: predicate_covered_mono)

lemma charge_input_covers: "charge_input i d b = Some b' \<Longrightarrow> i < length (gb_input_demand b') \<and> d \<le> gb_input_demand b' ! i"
  by (auto simp: charge_input_def split: if_splits) (metis sup_DispatchDemand_def sup_ge2)

lemma charge_subject_covers: "charge_subject s d b = Some b' \<Longrightarrow> subject_covered (gb_subjects b) (gb_input_demand b') s d"
  by (auto simp: charge_subject_def subject_covered_def split: Option.bind_splits dest!: charge_input_covers)

lemma charge_pin_covers: "charge_pin p b = Some b' \<Longrightarrow> pin_covered (gb_inputs b) (gb_input_demand b') p"
  by (auto simp: charge_pin_def pin_covered_def split: if_splits option.splits dest!: charge_input_covers)

lemma charge_leaf_covers: "charge_leaf l b = Some b' \<Longrightarrow> leaf_covered (gb_subjects b) (gb_inputs b) (gb_input_demand b') l"
  by (cases l) (auto intro: charge_subject_covers charge_pin_covers)

lemma charge_each_covers:
  assumes "\<And>x b b'. f x b = Some b' \<Longrightarrow> raised b b' \<and> C (gb_subjects b) (gb_inputs b) (gb_input_demand b') x"
    and mono: "\<And>dem dem' subs inputs x. list_all2 (\<le>) dem dem' \<Longrightarrow> C subs inputs dem x \<Longrightarrow> C subs inputs dem' x"
    and "charge_each f xs b = Some b'"
  shows "\<forall>x \<in> set xs. C (gb_subjects b) (gb_inputs b) (gb_input_demand b') x"
  using assms(3)
proof (induction xs arbitrary: b)
  case (Cons x xs)
  obtain c where c: "f x b = Some c" "charge_each f xs c = Some b'"
    using Cons.prems by (auto split: Option.bind_splits)
  have "raised c b'"
    using raised_each [OF _ c(2)] assms(1) by blast
  then show ?case
    using Cons.IH [OF c(2)] assms(1) [OF c(1)] mono by (auto simp: raised_def)
qed simp

lemma charge_guard_covers:
  "charge_guard g b = Some b' \<Longrightarrow> guard_covered (gb_subjects b) (gb_inputs b) (gb_input_demand b') g"
  unfolding charge_guard_def guard_covered_def
  by (auto split: if_splits dest: charge_each_covers [where C = leaf_covered, rotated 2]
      intro: leaf_covered_mono raised_leaf charge_leaf_covers)

lemma charge_sizes_covers:
  assumes "charge_bitstring_sizes shape b = Some b'"
  shows "\<forall>f \<in> set (shape_fields shape). \<forall>q. pinned_size (gb_subjects b) f = Some q \<longrightarrow> pin_covered (gb_inputs b) (gb_input_demand b') q"
  using assms unfolding charge_bitstring_sizes_def
  by (intro charge_each_covers [where C = "\<lambda>subs inputs dem f. \<forall>q. pinned_size subs f = Some q \<longrightarrow> pin_covered inputs dem q"])
    (auto split: option.splits intro: raised_pin charge_pin_covers pin_covered_mono)

lemma charge_node_covers:
  assumes "charge_node node b = Some b'"
  shows "node_covered (gb_subjects b) (gb_inputs b) (gb_input_demand b') node"
proof (cases node)
  case (NodeTest p yes no)
  show ?thesis
  proof (cases "\<exists>g. pred_region p = RegionGuard g")
    case True
    then show ?thesis
      using assms NodeTest by (auto simp: charge_node_def node_covered_def predicate_covered_def intro: charge_guard_covers)
  next
    case False
    then obtain c where c: "charge_subject (pred_subject p) (demand_for_region (pred_region p)) b = Some c"
      and rest: "(case pred_region p of
                       RegionEqual (ComparisonPinned pinned) \<Rightarrow> charge_pin pinned c
                     | RegionBitstring shape \<Rightarrow> charge_bitstring_sizes shape c
                     | _ \<Rightarrow> Some c) = Some b'"
      using assms NodeTest by (cases "pred_region p") (auto simp: charge_node_def split: Option.bind_splits)
    have "raised b c"
      by (rule raised_subject [OF c])
    moreover have "raised c b'"
      using rest by (cases "pred_region p") (auto split: ComparisonValue.splits intro: raised_pin
          simp: charge_bitstring_sizes_def elim!: raised_each [rotated] split: option.splits)
    ultimately have "subject_covered (gb_subjects b) (gb_input_demand b') (pred_subject p) (demand_for_region (pred_region p))"
      and same: "gb_subjects c = gb_subjects b" "gb_inputs c = gb_inputs b"
      using charge_subject_covers [OF c] by (auto simp: raised_def intro: subject_covered_mono)
    then show ?thesis
      using rest False charge_sizes_covers [of _ c b'] charge_pin_covers [of _ c b'] NodeTest
      by (cases "pred_region p") (auto simp: node_covered_def predicate_covered_def split: ComparisonValue.splits)
  qed
qed (simp_all add: node_covered_def)

section \<open>Every well-formed matrix compiles\<close>

text \<open>A projection names a subject minted before it, which is how the matrix builder mints them.\<close>

definition subjects_ok :: "Subject list \<Rightarrow> bool" where
  "subjects_ok subs \<longleftrightarrow> (\<forall>i < length subs. case subject_source (subs ! i) of
     SubjectInput _ \<Rightarrow> True | SubjectProjected p \<Rightarrow> proj_source p < i)"

lemma subject_walk:
  assumes "subjects_ok subs" and "s < length subs"
  shows "\<exists>i. subject_root subs s = Some (Some i) \<and> (\<forall>d. \<exists>d'. subject_demand subs s d = Some (Some (i, d')) \<and> (d \<noteq> Ignore \<longrightarrow> d' \<noteq> Ignore))"
  using assms(2)
proof (induction s rule: less_induct)
  case (less s)
  show ?case
  proof (cases "subject_source (subs ! s)")
    case (SubjectInput i)
    then show ?thesis
      using less.prems by (subst subject_root.simps, subst subject_demand.simps) simp
  next
    case (SubjectProjected p)
    have *: "proj_source p < s"
      using assms(1) less.prems SubjectProjected by (force simp: subjects_ok_def)
    then obtain i where i: "subject_root subs (proj_source p) = Some (Some i)"
      "\<forall>d. \<exists>d'. subject_demand subs (proj_source p) d = Some (Some (i, d')) \<and> (d \<noteq> Ignore \<longrightarrow> d' \<noteq> Ignore)"
      using less.IH [OF *] less.prems by auto
    have "demand_at_step st d \<noteq> Ignore" for st d
      by (cases st) simp_all
    then show ?thesis
      using i less.prems SubjectProjected by (subst subject_root.simps, subst subject_demand.simps) (auto, metis)
  qed
qed

definition root_known :: "Subject list \<Rightarrow> PlanInputs \<Rightarrow> SubjectId \<Rightarrow> bool" where
  "root_known subs inputs s \<longleftrightarrow> s < length subs \<and> (\<forall>i. subject_root subs s = Some (Some i) \<longrightarrow> i < in_count inputs)"

fun leaf_known :: "Subject list \<Rightarrow> PlanInputs \<Rightarrow> GuardLeaf \<Rightarrow> bool" where
  "leaf_known subs inputs (LeafSubject s) = root_known subs inputs s"
| "leaf_known subs inputs (LeafPinned _) = True"

text \<open>A question asks about a known subject (a guard about known leaves), and the projections its edges
  give are taken from the input it asks about.\<close>

definition question_ok :: "Subject list \<Rightarrow> PlanInputs \<Rightarrow> 't RegionQuestion \<Rightarrow> bool" where
  "question_ok subs inputs q \<longleftrightarrow>
     (case pred_region (q_predicate q) of
        RegionGuard g \<Rightarrow> g < length (in_guard_leaves inputs) \<and> list_all (leaf_known subs inputs) (in_guard_leaves inputs ! g)
          \<and> ev_projections (q_match_evidence q) @ ev_projections (q_miss_evidence q) = []
      | _ \<Rightarrow> root_known subs inputs (pred_subject (q_predicate q))
          \<and> list_all (\<lambda>p. p < length subs \<and> subject_root subs p = subject_root subs (pred_subject (q_predicate q)))
               (ev_projections (q_match_evidence q) @ ev_projections (q_miss_evidence q)))"

definition arm_ok :: "Subject list \<Rightarrow> PlanInputs \<Rightarrow> 't DispatchArm \<Rightarrow> bool" where
  "arm_ok subs inputs arm \<longleftrightarrow> list_all (question_ok subs inputs) (arm_questions arm) \<and> ev_projections (arm_evidence arm) = []"

definition matrix_ok :: "'t DispatchMatrix \<Rightarrow> PlanInputs \<Rightarrow> bool" where
  "matrix_ok matrix inputs \<longleftrightarrow> subjects_ok (mx_subjects matrix)
     \<and> list_all (\<lambda>pin. case pin of Some i \<Rightarrow> i < in_count inputs | None \<Rightarrow> True) (in_pinned inputs)
     \<and> list_all (arm_ok (mx_subjects matrix) inputs) (mx_arms matrix)"

definition building :: "Subject list \<Rightarrow> PlanInputs \<Rightarrow> 't DispatchGraphBuilder \<Rightarrow> bool" where
  "building subs inputs b \<longleftrightarrow> gb_subjects b = subs \<and> gb_inputs b = inputs \<and> length (gb_input_demand b) = in_count inputs
     \<and> (\<forall>node \<in> set (gb_nodes b). node_covered subs inputs (gb_input_demand b) node
          \<and> (\<forall>p \<in> set (node_projections node). rides_charged_input b p))"

lemma rides_mono:
  assumes "raised b b'" and "rides_charged_input b p"
  shows "rides_charged_input b' p"
proof -
  obtain i where i: "subject_root (gb_subjects b) p = Some (Some i)" "i < length (gb_input_demand b)" "gb_input_demand b ! i \<noteq> Ignore"
    using assms(2) by (auto simp: rides_charged_input_def asks_anything_def split: option.splits)
  then have "i < length (gb_input_demand b')" "gb_input_demand b ! i \<le> gb_input_demand b' ! i"
    using assms(1) by (auto simp: raised_def list_all2_conv_all_nth)
  then show ?thesis
    using i assms(1) by (auto simp: rides_charged_input_def asks_anything_def raised_def)
qed

lemma rides_nodes [simp]: "rides_charged_input (b\<lparr> gb_nodes := ns \<rparr>) p = rides_charged_input b p"
  by (simp add: rides_charged_input_def split: option.split)

lemma add_node_building:
  assumes "building subs inputs b" and "charge_node node b = Some b'" and "\<forall>p \<in> set (node_projections node). rides_charged_input b' p"
  shows "\<exists>c. add_node node b = Some (length (gb_nodes b), c) \<and> building subs inputs c"
proof -
  note r = raised_node [OF assms(2)]
  have "building subs inputs (b'\<lparr> gb_nodes := gb_nodes b' @ [node] \<rparr>)"
    using assms r charge_node_covers [OF assms(2)] rides_mono [OF r]
    by (auto simp: building_def raised_def list_all2_lengthD intro: node_covered_mono dest: list_all2_lengthD)
  then show ?thesis
    using assms(2) r by (simp add: add_node_def raised_def)
qed

lemma charge_input_ok: "i < length (gb_input_demand b) \<Longrightarrow> \<exists>b'. charge_input i d b = Some b'"
  by (simp add: charge_input_def)

lemma charge_subject_ok:
  assumes "subjects_ok (gb_subjects b)" and "root_known (gb_subjects b) inputs s" and "in_count inputs \<le> length (gb_input_demand b)"
  shows "\<exists>b'. charge_subject s d b = Some b'"
proof -
  have "s < length (gb_subjects b)"
    using assms(2) by (simp add: root_known_def)
  from subject_walk [OF assms(1) this]
  obtain i d' where "subject_root (gb_subjects b) s = Some (Some i)" "subject_demand (gb_subjects b) s d = Some (Some (i, d'))"
    by blast
  then show ?thesis
    using assms(2,3) charge_input_ok [of i b d'] by (auto simp: charge_subject_def root_known_def)
qed

lemma charge_each_ok:
  assumes "\<And>x b. x \<in> set xs \<Longrightarrow> I b \<Longrightarrow> \<exists>b'. f x b = Some b' \<and> I b'" and "I b"
  shows "\<exists>b'. charge_each f xs b = Some b' \<and> I b'"
  using assms
proof (induction xs arbitrary: b)
  case (Cons x xs)
  obtain c where "f x b = Some c" "I c"
    using Cons.prems by (meson list.set_intros(1))
  then show ?case
    using Cons by simp
qed simp

definition chargeable :: "Subject list \<Rightarrow> PlanInputs \<Rightarrow> 't DispatchGraphBuilder \<Rightarrow> bool" where
  "chargeable subs inputs b \<longleftrightarrow> gb_subjects b = subs \<and> gb_inputs b = inputs \<and> length (gb_input_demand b) = in_count inputs
     \<and> subjects_ok subs \<and> list_all (\<lambda>pin. case pin of Some i \<Rightarrow> i < in_count inputs | None \<Rightarrow> True) (in_pinned inputs)"

lemma chargeable_raised: "chargeable subs inputs b \<Longrightarrow> raised b b' \<Longrightarrow> chargeable subs inputs b'"
  by (auto simp: chargeable_def raised_def dest: list_all2_lengthD)

lemma charge_subject_total:
  assumes "chargeable subs inputs b" and "root_known subs inputs s"
  shows "\<exists>b'. charge_subject s d b = Some b' \<and> chargeable subs inputs b'"
proof -
  obtain b' where "charge_subject s d b = Some b'"
    using charge_subject_ok [of b inputs s d] assms by (auto simp: chargeable_def)
  then show ?thesis
    using chargeable_raised [OF assms(1) raised_subject] by blast
qed

lemma charge_pin_total: "chargeable subs inputs b \<Longrightarrow> \<exists>b'. charge_pin p b = Some b' \<and> chargeable subs inputs b'"
proof -
  assume *: "chargeable subs inputs b"
  have "\<exists>b'. charge_pin p b = Some b'"
    using * by (fastforce simp: charge_pin_def chargeable_def list_all_length charge_input_def split: option.split)
  then show ?thesis
    using chargeable_raised [OF *] raised_pin by blast
qed

lemma charge_leaf_total:
  "chargeable subs inputs b \<Longrightarrow> leaf_known subs inputs l \<Longrightarrow> \<exists>b'. charge_leaf l b = Some b' \<and> chargeable subs inputs b'"
  by (cases l) (simp_all add: charge_subject_total charge_pin_total)

lemma charge_sizes_total: "chargeable subs inputs b \<Longrightarrow> \<exists>b'. charge_bitstring_sizes shape b = Some b' \<and> chargeable subs inputs b'"
  unfolding charge_bitstring_sizes_def
  by (rule charge_each_ok) (auto split: option.split intro: charge_pin_total)

lemma charge_question_total:
  assumes "chargeable subs inputs b" and "question_ok subs inputs q"
  shows "\<exists>b'. charge_node (into_test_node q yes no) b = Some b'"
proof (cases "\<exists>g. pred_region (q_predicate q) = RegionGuard g")
  case True
  then obtain g where g: "pred_region (q_predicate q) = RegionGuard g"
    by blast
  then have leaves: "l \<in> set (in_guard_leaves inputs ! g) \<Longrightarrow> leaf_known subs inputs l" for l
    using assms(2) by (simp add: question_ok_def list_all_iff)
  have "\<exists>b'. charge_each charge_leaf (in_guard_leaves inputs ! g) b = Some b' \<and> chargeable subs inputs b'"
    by (rule charge_each_ok [OF charge_leaf_total assms(1)]) (simp_all add: leaves)
  then show ?thesis
    using g assms(1) by (auto simp: charge_node_def into_test_node_def charge_guard_def chargeable_def)
next
  case False
  then have "root_known subs inputs (pred_subject (q_predicate q))"
    using assms(2) by (cases "pred_region (q_predicate q)") (auto simp: question_ok_def)
  from charge_subject_total [OF assms(1) this, of "demand_for_region (pred_region (q_predicate q))"] obtain c where c:
    "charge_subject (pred_subject (q_predicate q)) (demand_for_region (pred_region (q_predicate q))) b = Some c" "chargeable subs inputs c"
    by blast
  then show ?thesis
    using False charge_pin_total [OF c(2)] charge_sizes_total [OF c(2)]
    by (cases "pred_region (q_predicate q)") (auto simp: charge_node_def into_test_node_def split: ComparisonValue.split)
qed

lemma test_node_total:
  assumes "building subs inputs (fst s)" and "chargeable subs inputs (fst s)" and "question_ok subs inputs q"
  shows "\<exists>n s'. test_node q yes no s = Some (n, s') \<and> building subs inputs (fst s')"
proof -
  obtain b st where s: "s = (b, st)"
    by (cases s)
  obtain b' where b': "charge_node (into_test_node q yes no) b = Some b'"
    using charge_question_total assms(2,3) s by fastforce
  have "rides_charged_input b' p" if "p \<in> set (node_projections (into_test_node q yes no))" for p
  proof -
    let ?sub = "pred_subject (q_predicate q)" and ?d = "demand_for_region (pred_region (q_predicate q))"
    have proj: "p \<in> set (ev_projections (q_match_evidence q) @ ev_projections (q_miss_evidence q))"
      using that by (simp add: node_projections_def into_test_node_def with_evidence_def)
    then have region: "\<forall>g. pred_region (q_predicate q) \<noteq> RegionGuard g"
      using assms(3) by (auto simp: question_ok_def)
    then have "list_all (\<lambda>p. p < length subs \<and> subject_root subs p = subject_root subs ?sub)
        (ev_projections (q_match_evidence q) @ ev_projections (q_miss_evidence q))" and known: "root_known subs inputs ?sub"
      using assms(3) by (cases "pred_region (q_predicate q)"; simp add: question_ok_def)+
    then have root: "subject_root subs p = subject_root subs ?sub"
      using proj by (auto simp: list_all_iff)
    have subs: "subjects_ok subs" "gb_subjects b' = subs"
      using assms(2) raised_node [OF b'] by (simp_all add: chargeable_def raised_def s)
    have "?d \<noteq> Ignore"
      by (cases "pred_region (q_predicate q)") (simp_all add: demand_for_region_def)
    then obtain i d' where i: "subject_root subs ?sub = Some (Some i)" "subject_demand subs ?sub ?d = Some (Some (i, d'))" "d' \<noteq> Ignore"
      using subject_walk [OF subs(1)] known unfolding root_known_def by metis
    have "subject_covered subs (gb_input_demand b') ?sub ?d"
      using charge_node_covers [OF b'] region assms(2) s
      by (cases "pred_region (q_predicate q)") (auto simp: node_covered_def into_test_node_def predicate_covered_def chargeable_def)
    then show ?thesis
      using i root subs(2) by (auto simp: subject_covered_def rides_charged_input_def asks_anything_def)
  qed
  then obtain c where "add_node (into_test_node q yes no) b = Some (length (gb_nodes b), c)" "building subs inputs c"
    using add_node_building [of subs inputs b, OF _ b'] assms(1) s by auto
  then show ?thesis
    by (simp add: test_node_def s)
qed

definition plan_ok :: "Subject list \<Rightarrow> PlanInputs \<Rightarrow> bool" where
  "plan_ok subs inputs \<longleftrightarrow> subjects_ok subs
     \<and> list_all (\<lambda>pin. case pin of Some i \<Rightarrow> i < in_count inputs | None \<Rightarrow> True) (in_pinned inputs)"

lemma building_chargeable: "plan_ok subs inputs \<Longrightarrow> building subs inputs b \<Longrightarrow> chargeable subs inputs b"
  by (simp add: plan_ok_def building_def chargeable_def)

lemma outcome_node_total:
  assumes "building subs inputs (fst s)" and "ev_projections (arm_evidence arm) = []"
  shows "\<exists>n s'. outcome_node arm s = Some (n, s') \<and> building subs inputs (fst s')"
proof -
  obtain b st where s: "s = (b, st)"
    by (cases s)
  show ?thesis
    using add_node_building [of subs inputs b "NodeOutcome (arm_outcome arm) (arm_evidence arm)" b] assms s
    by (auto simp: outcome_node_def charge_node_def node_projections_def)
qed

lemma test_chain_total:
  assumes "plan_ok subs inputs" and "building subs inputs (fst s)" and "list_all (question_ok subs inputs) qs"
  shows "\<exists>n s'. test_chain qs current on_miss s = Some (n, s') \<and> building subs inputs (fst s')"
  using assms(2,3)
proof (induction qs arbitrary: current s)
  case (Cons q qs)
  obtain n t where "test_node q current on_miss s = Some (n, t)" "building subs inputs (fst t)"
    using test_node_total [OF Cons.prems(1) building_chargeable [OF assms(1) Cons.prems(1)], of q current on_miss] Cons.prems(2) by auto
  then show ?case
    using Cons by simp
qed simp

definition state_ok :: "Subject list \<Rightarrow> PlanInputs \<Rightarrow> 't ArmCompileState \<Rightarrow> bool" where
  "state_ok subs inputs a \<longleftrightarrow> list_all (question_ok subs inputs) (acs_questions a) \<and> ev_projections (arm_evidence (acs_arm a)) = []"

lemma state_ok_strip: "state_ok subs inputs a \<Longrightarrow> state_ok subs inputs (strip_first a)"
  by (cases "acs_questions a") (simp_all add: state_ok_def strip_first_def)

lemma compile_arm_sequence_total:
  assumes plan: "plan_ok subs inputs" and "building subs inputs (fst s)" and "\<forall>a \<in> set arms. state_ok subs inputs a"
  shows "\<exists>n s'. compile_arm_sequence arms fallback s = Some (n, s') \<and> building subs inputs (fst s')"
  using assms(2,3)
proof (induction arms fallback s rule: compile_arm_sequence.induct)
  case (1 fallback s)
  then show ?case by simp
next
  case (2 first rest fallback s)
  show ?case
  proof (cases "acs_questions first")
    case Nil
    then show ?thesis
      using outcome_node_total [OF "2.prems"(1), of "acs_arm first"] "2.prems"(2) by (simp add: state_ok_def)
  next
    case (Cons q qs)
    define shared where "shared = takeWhile (asks_first q) (first # rest)"
    have q: "question_ok subs inputs q"
      using "2.prems"(2) Cons by (simp add: state_ok_def)
    show ?thesis
    proof (cases "1 < length shared")
      case True
      obtain b st where s: "s = (b, st)"
        by (cases s)
      have sub: "set shared \<subseteq> set (first # rest)" "set (drop (length shared) (first # rest)) \<subseteq> set (first # rest)"
        unfolding shared_def by (blast dest: set_takeWhileD) (rule set_drop_subset)
      obtain after s1 where c1: "compile_arm_sequence (drop (length shared) (first # rest)) fallback
          (b, st\<lparr> st_shared_prefix_tests := st_shared_prefix_tests st + 1 \<rparr>) = Some (after, s1)" "building subs inputs (fst s1)"
        using "2.IH"(1) [OF Cons shared_def True s [symmetric]] "2.prems" s sub(2) by fastforce
      have "\<forall>a \<in> set (map strip_first shared). state_ok subs inputs a"
        using "2.prems"(2) sub(1) state_ok_strip by fastforce
      then obtain on_match s2 where c2: "compile_arm_sequence (map strip_first shared) after s1 = Some (on_match, s2)" "building subs inputs (fst s2)"
        using "2.IH"(2) [OF Cons shared_def True s [symmetric] c1(1) refl] c1(2) by blast
      obtain n u where "test_node q on_match after s2 = Some (n, u)" "building subs inputs (fst u)"
        using test_node_total [OF c2(2) building_chargeable [OF plan c2(2)] q] by blast
      then show ?thesis
        using c1(1) c2(1) True s Cons by (simp add: shared_def [symmetric] del: takeWhile.simps)
    next
      case False
      obtain on_miss s1 where c1: "compile_arm_sequence rest fallback s = Some (on_miss, s1)" "building subs inputs (fst s1)"
        using "2.IH"(3) [OF Cons shared_def False] "2.prems" by auto
      obtain c t where o: "outcome_node (acs_arm first) s1 = Some (c, t)" "building subs inputs (fst t)"
        using outcome_node_total [OF c1(2), of "acs_arm first"] "2.prems"(2) by (auto simp: state_ok_def)
      have "list_all (question_ok subs inputs) (rev (acs_questions first))"
        using "2.prems"(2) by (simp add: state_ok_def)
      from test_chain_total [OF plan o(2) this] show ?thesis
        using c1(1) o(1) False Cons by (simp add: shared_def [symmetric] compile_single_arm_def del: takeWhile.simps)
    qed
  qed
qed

lemma ensure_all_ok: "(\<And>x. x \<in> set xs \<Longrightarrow> f x = Inr ()) \<Longrightarrow> ensure_all f xs = Inr ()"
  by (induction xs) simp_all

lemma build_total:
  assumes "building subs inputs b" and "root < length (gb_nodes b)" and "acyclic_nodes (gb_nodes b)"
  shows "DispatchGraphBuilder_build root b = Some (Inr \<lparr> graph_subjects = gb_subjects b, graph_nodes = gb_nodes b, graph_root = root,
    graph_input_demand = gb_input_demand b \<rparr>)"
proof -
  have "ensure_targets b node = Inr ()" if node: "node \<in> set (gb_nodes b)" for node
  proof -
    obtain i where "i < length (gb_nodes b)" "gb_nodes b ! i = node"
      using node by (auto simp: in_set_conv_nth)
    then have "below node i"
      using assms(3) by (auto simp: acyclic_nodes_def)
    then show ?thesis
      using \<open>i < length (gb_nodes b)\<close> by (cases node) (auto simp: below_def ensure_targets_def ensure_node_def)
  qed
  then have "ensure_all (ensure_targets b) (gb_nodes b) = Inr ()"
    by (rule ensure_all_ok)
  then show ?thesis
    using assms by (simp add: DispatchGraphBuilder_build_def ensure_node_def ensure_projections_ride_a_charged_input_def building_def)
qed

lemma compile_ordered_arms_graph:
  assumes "matrix_ok matrix inputs"
  obtains root b st where "compile_dispatch_matrix matrix inputs = Some (Inr \<lparr> compiled_graph = \<lparr> graph_subjects = mx_subjects matrix,
      graph_nodes = gb_nodes b, graph_root = root, graph_input_demand = gb_input_demand b \<rparr>, compiled_stats = st \<rparr>)"
    and "building (mx_subjects matrix) inputs b" and "acyclic_nodes (gb_nodes b)"
    and "length (gb_nodes b) \<le> Suc (sum_list (map (\<lambda>arm. Suc (length (arm_questions arm))) (mx_arms matrix)))"
    and "\<And>ans. decides (gb_nodes b) ans root (first_match ans (mx_arms matrix))"
proof -
  let ?subs = "mx_subjects matrix" and ?states = "map (\<lambda>arm. \<lparr> acs_arm = arm, acs_questions = arm_questions arm \<rparr>) (mx_arms matrix)"
  let ?b0 = "DispatchGraphBuilder_typed ?subs inputs :: 'a DispatchGraphBuilder"
  let ?st0 = "DispatchCompileStats_default\<lparr> st_arms := length (mx_arms matrix) \<rparr>"
  have plan: "plan_ok ?subs inputs"
    using assms by (simp add: matrix_ok_def plan_ok_def)
  have "building ?subs inputs ?b0"
    by (simp add: building_def DispatchGraphBuilder_typed_def)
  then obtain b1 where b1: "add_node NodeFail ?b0 = Some (0, b1)" "building ?subs inputs b1"
    using add_node_building [of ?subs inputs ?b0 NodeFail ?b0]
    by (auto simp: charge_node_def node_projections_def DispatchGraphBuilder_typed_def)
  define s1 where "s1 = (b1, ?st0\<lparr> st_fail_nodes := st_fail_nodes ?st0 + 1 \<rparr>)"
  have fb: "fallback_node (?b0, ?st0) = Some (0, s1)"
    using b1(1) by (simp add: fallback_node_def s1_def)
  have n1: "nodes_of s1 = [NodeFail]"
    using add_node_nodes [OF b1(1)] by (simp add: s1_def DispatchGraphBuilder_typed_def)
  have ok: "\<forall>a \<in> set ?states. state_ok ?subs inputs a"
    using assms by (auto simp: matrix_ok_def list_all_iff arm_ok_def state_ok_def)
  obtain root s2 where c: "compile_arm_sequence ?states 0 s1 = Some (root, s2)" "building ?subs inputs (fst s2)"
    using compile_arm_sequence_total [OF plan _ ok, of s1 0] b1(2) by (auto simp: s1_def)
  obtain b st where s2: "s2 = (b, st)"
    by (cases s2)
  have comp: "compiles s1 0 (pending ?states) (\<lambda>ans. first_or ans ?states) (root, s2)"
    by (rule compile_arm_sequence_compiles [OF c(1)]) (simp add: n1)
  have facts: "acyclic_nodes (gb_nodes b)" "root < length (gb_nodes b)" "length (gb_nodes b) \<le> Suc (pending ?states)"
    using comp n1 by (auto simp: compiles_def s2 acyclic_nodes_def below_def)
  have "decides (gb_nodes b) ans root (first_match ans (mx_arms matrix))" for ans
    using comp decides.fail [of 0 "nodes_of s1" ans] n1 by (auto simp: compiles_def s2 first_or_arms [symmetric])
  moreover have "pending ?states = sum_list (map (\<lambda>arm. Suc (length (arm_questions arm))) (mx_arms matrix))"
    by (simp add: pending_def comp_def)
  moreover have "gb_subjects b = ?subs"
    using c(2) by (simp add: s2 building_def)
  ultimately show thesis
    using that [of b root st] facts c s2 fb build_total [of ?subs inputs b root]
    by (simp add: compile_dispatch_matrix_def compile_ordered_arms_def)
qed

text \<open>
  C5.  The dispatch compiler is correct.  A matrix whose subjects, questions and pins are well formed always
  compiles, without a panic and without an invalid graph, into an acyclic graph with at most one node per
  question and per outcome beside the failure node; and for every way the questions may answer, the walk
  from the root ends, at the outcome of the first arm in source order all of whose questions hold, or at
  failure exactly when no arm's questions all hold.
\<close>

theorem dispatch_graph_first_match:
  assumes "matrix_ok matrix inputs"
  shows "\<exists>c. compile_dispatch_matrix matrix inputs = Some (Inr c)
    \<and> (\<forall>ans r. decides (graph_nodes (compiled_graph c)) ans (graph_root (compiled_graph c)) r \<longleftrightarrow> r = first_match ans (mx_arms matrix))
    \<and> acyclic_nodes (graph_nodes (compiled_graph c))
    \<and> length (graph_nodes (compiled_graph c)) \<le> Suc (sum_list (map (\<lambda>arm. Suc (length (arm_questions arm))) (mx_arms matrix)))"
proof -
  show ?thesis
  proof (rule compile_ordered_arms_graph [OF assms])
    fix root b st
    assume c: "compile_dispatch_matrix matrix inputs = Some (Inr \<lparr> compiled_graph = \<lparr> graph_subjects = mx_subjects matrix,
        graph_nodes = gb_nodes b, graph_root = root, graph_input_demand = gb_input_demand b \<rparr>, compiled_stats = st \<rparr>)"
      and facts: "acyclic_nodes (gb_nodes b)"
        "length (gb_nodes b) \<le> Suc (sum_list (map (\<lambda>arm. Suc (length (arm_questions arm))) (mx_arms matrix)))"
      and first: "\<And>ans. decides (gb_nodes b) ans root (first_match ans (mx_arms matrix))"
    have "decides (gb_nodes b) ans root r \<longleftrightarrow> r = first_match ans (mx_arms matrix)" for ans r
      using first decides_unique [OF first] by blast
    then show ?thesis
      using c facts by simp
  qed
qed

text \<open>A pair whose first field is asked for an atom, then any pair: the arity test is shared.\<close>

definition pair_matrix :: "unit DispatchMatrix" where
  "pair_matrix =
     \<lparr> mx_subjects = [\<lparr> subject_id = 0, subject_source = SubjectInput 0 \<rparr>,
         \<lparr> subject_id = 1, subject_source = SubjectProjected \<lparr> proj_source = 0, proj_kind = TupleField 0 \<rparr> \<rparr>,
         \<lparr> subject_id = 2, subject_source = SubjectProjected \<lparr> proj_source = 0, proj_kind = TupleField 1 \<rparr> \<rparr>],
       mx_outcomes = [\<lparr> outcome_id = 0, outcome_multiplicity = Unique \<rparr>, \<lparr> outcome_id = 1, outcome_multiplicity = Unique \<rparr>],
       mx_arms = [\<lparr> arm_id = 0, arm_questions = [tuple_arity 0 2 [1, 2], equality 1 (ComparisonConst (GroundAtom ''ok''))],
                    arm_evidence = EdgeEvidence_empty, arm_outcome = 0 \<rparr>,
                  \<lparr> arm_id = 1, arm_questions = [tuple_arity 0 2 [1, 2]], arm_evidence = EdgeEvidence_empty, arm_outcome = 1 \<rparr>] \<rparr>"

definition one_input :: PlanInputs where
  "one_input = \<lparr> in_count = 1, in_pinned = [], in_guard_leaves = [] \<rparr>"

lemmas question_defs = tuple_arity_def equality_def list_cons_def list_empty_def map_key_present_def type_region_def
  RegionQuestion_new_def RegionPredicate_new_def from_proof_def with_projection_def EdgeEvidence_empty_def Let_def

lemma pair_matrix_ok: "matrix_ok pair_matrix one_input"
  by (simp add: matrix_ok_def pair_matrix_def one_input_def subjects_ok_def arm_ok_def question_ok_def root_known_def question_defs
      subject_root.simps less_Suc_eq)

theorem dispatch_graph_first_match_witness:
  "\<exists>c. compile_dispatch_matrix pair_matrix one_input = Some (Inr c)
    \<and> decides (graph_nodes (compiled_graph c)) (\<lambda>p. pred_region p = RegionTupleArity 2) (graph_root (compiled_graph c)) (Some 1)
    \<and> decides (graph_nodes (compiled_graph c)) (\<lambda>_. True) (graph_root (compiled_graph c)) (Some 0)
    \<and> decides (graph_nodes (compiled_graph c)) (\<lambda>_. False) (graph_root (compiled_graph c)) None"
  using dispatch_graph_first_match [OF pair_matrix_ok]
  by (auto simp: pair_matrix_def all_hold_def question_defs)

end
