(* ===== verification/Fz_DispatchSem.thy ===== *)
theory Fz_DispatchSem
  imports Fz_DispatchProps
begin

text \<open>
  What the questions of a dispatch mean of runtime values, and what the input demands of a graph
  promise.  The operations that read values are an argument (\<open>Reader\<close>); agreement of two values on a
  demand is agreement on the observations the demand names.
\<close>

section \<open>Reading values\<close>

record ('v, 'r, 't) Reader =
  rd_is_tuple :: "nat \<Rightarrow> 'v \<Rightarrow> bool"
  rd_tuple_field :: "nat \<Rightarrow> 'v \<Rightarrow> 'v option"
  rd_struct_field :: "string \<Rightarrow> 'v \<Rightarrow> 'v option"
  rd_is_empty :: "'v \<Rightarrow> bool"
  rd_is_cons :: "'v \<Rightarrow> bool"
  rd_head :: "'v \<Rightarrow> 'v option"
  rd_tail :: "'v \<Rightarrow> 'v option"
  rd_is_map :: "'v \<Rightarrow> bool"
  rd_map_get :: "GroundValue \<Rightarrow> 'v \<Rightarrow> 'v option"
  rd_type :: "'t \<Rightarrow> 'v \<Rightarrow> bool"
  rd_const_eq :: "GroundValue \<Rightarrow> 'v \<Rightarrow> bool"
  rd_value_eq :: "'v \<Rightarrow> 'v \<Rightarrow> bool"
  rd_as_size :: "'v \<Rightarrow> nat option"
  rd_bits_init :: "'v \<Rightarrow> 'r option"
  rd_bits_read :: "BitstringFieldKind \<Rightarrow> nat \<Rightarrow> BitstringEndian \<Rightarrow> bool \<Rightarrow> bool \<Rightarrow> nat option \<Rightarrow> 'r \<Rightarrow> ('v \<times> 'r) option"
  rd_bits_done :: "'r \<Rightarrow> bool"

text \<open>The size of a bitstring field: the outer option is \<open>None\<close> when a size is named and has no number.\<close>

definition bit_size :: "('v, 'r, 't) Reader \<Rightarrow> (PinnedValueId \<Rightarrow> 'v option) \<Rightarrow> (SubjectId \<Rightarrow> 'v option) \<Rightarrow> BitstringFieldSize option
    \<Rightarrow> nat option option" where
  "bit_size r pins env sz =
     (case sz of
        None \<Rightarrow> Some None
      | Some (SizeLiteral n) \<Rightarrow> Some (Some n)
      | Some (SizeBinding s) \<Rightarrow> map_option Some (Option.bind (env s) (rd_as_size r))
      | Some (SizePinned p) \<Rightarrow> map_option Some (Option.bind (pins p) (rd_as_size r)))"

fun default_dispatch_bit_unit :: "BitstringFieldKind \<Rightarrow> nat" where
  "default_dispatch_bit_unit FieldBinary = 8"
| "default_dispatch_bit_unit _ = 1"

definition read_field :: "('v, 'r, 't) Reader \<Rightarrow> BitstringExtraction \<Rightarrow> nat option \<Rightarrow> 'r \<Rightarrow> ('v \<times> 'r) option" where
  "read_field r ex sz =
     (let spec = ex_spec ex
      in rd_bits_read r (field_kind spec)
           (case field_unit spec of Some unit \<Rightarrow> unit | None \<Rightarrow> default_dispatch_bit_unit (field_kind spec))
           (field_endian spec) (field_signed spec) (ex_is_last ex) sz)"

text \<open>Reading the field \<open>f\<close> of the bitstring \<open>v\<close>: the fields before it, then its own.\<close>

function bits_upto :: "('v, 'r, 't) Reader \<Rightarrow> (PinnedValueId \<Rightarrow> 'v option) \<Rightarrow> Subject list \<Rightarrow> SubjectId \<Rightarrow> 'v
    \<Rightarrow> ('r \<times> (SubjectId \<rightharpoonup> 'v)) option" where
  "bits_upto r pins subs f v =
     (if f < length subs then
        (case subject_source (subs ! f) of
           SubjectProjected proj \<Rightarrow>
             (case proj_kind proj of
                BitstringField ex \<Rightarrow>
                  Option.bind
                    (case ex_previous ex of
                       None \<Rightarrow> map_option (\<lambda>rd. (rd, \<lambda>_. None)) (rd_bits_init r v)
                     | Some p \<Rightarrow> if p < f then bits_upto r pins subs p v else None)
                    (\<lambda>(rd, env). Option.bind (bit_size r pins env (field_size (ex_spec ex)))
                       (\<lambda>sz. map_option (\<lambda>(x, rd'). (rd', env(f \<mapsto> x))) (read_field r ex sz rd)))
              | _ \<Rightarrow> None)
         | _ \<Rightarrow> None)
      else None)"
  by pat_completeness auto
termination
  by (relation "measure (\<lambda>(_, _, _, f, _). f)") auto

function subject_value :: "('v, 'r, 't) Reader \<Rightarrow> (nat \<Rightarrow> 'v option) \<Rightarrow> (PinnedValueId \<Rightarrow> 'v option) \<Rightarrow> Subject list \<Rightarrow> SubjectId
    \<Rightarrow> 'v option" where
  "subject_value r inp pins subs s =
     (if s < length subs then
        (case subject_source (subs ! s) of
           SubjectInput i \<Rightarrow> inp i
         | SubjectProjected proj \<Rightarrow>
             (if proj_source proj < s then
                Option.bind (subject_value r inp pins subs (proj_source proj)) (\<lambda>v.
                  case proj_kind proj of
                    TupleField i \<Rightarrow> rd_tuple_field r i v
                  | StructField name \<Rightarrow> rd_struct_field r name v
                  | ListHead \<Rightarrow> rd_head r v
                  | ListTail \<Rightarrow> rd_tail r v
                  | MapValue key \<Rightarrow> rd_map_get r key v
                  | BitstringField _ \<Rightarrow> Option.bind (bits_upto r pins subs s v) (\<lambda>(_, env). env s))
              else None))
      else None)"
  by pat_completeness auto
termination
  by (relation "measure (\<lambda>(_, _, _, _, s). s)") auto

declare bits_upto.simps [simp del] subject_value.simps [simp del]

definition is_some_and :: "'a option \<Rightarrow> ('a \<Rightarrow> bool) \<Rightarrow> bool" where
  "is_some_and x P = (case x of None \<Rightarrow> False | Some v \<Rightarrow> P v)"

definition shape_holds :: "('v, 'r, 't) Reader \<Rightarrow> (PinnedValueId \<Rightarrow> 'v option) \<Rightarrow> Subject list \<Rightarrow> BitstringShape \<Rightarrow> 'v \<Rightarrow> bool" where
  "shape_holds r pins subs shape v =
     (case shape_fields shape of
        [] \<Rightarrow> is_some_and (rd_bits_init r v) (\<lambda>rd. shape_require_done shape \<longrightarrow> rd_bits_done r rd)
      | _ \<Rightarrow> is_some_and (bits_upto r pins subs (last (shape_fields shape)) v) (\<lambda>(rd, _). shape_require_done shape \<longrightarrow> rd_bits_done r rd))"

fun leaf_value :: "('v, 'r, 't) Reader \<Rightarrow> (nat \<Rightarrow> 'v option) \<Rightarrow> (PinnedValueId \<Rightarrow> 'v option) \<Rightarrow> Subject list \<Rightarrow> GuardLeaf \<Rightarrow> 'v option" where
  "leaf_value r inp pins subs (LeafSubject s) = subject_value r inp pins subs s"
| "leaf_value r inp pins subs (LeafPinned p) = pins p"

text \<open>A guard is a function of the values of its leaves.\<close>

definition predicate_holds ::
  "('v, 'r, 't) Reader \<Rightarrow> (GuardId \<Rightarrow> 'v option list \<Rightarrow> bool) \<Rightarrow> PlanInputs \<Rightarrow> Subject list \<Rightarrow> (nat \<Rightarrow> 'v option) \<Rightarrow> (PinnedValueId \<Rightarrow> 'v option)
     \<Rightarrow> 't RegionPredicate \<Rightarrow> bool" where
  "predicate_holds r guard inputs subs inp pins p =
     (let value = subject_value r inp pins subs (pred_subject p)
      in case pred_region p of
           RegionType ty \<Rightarrow> is_some_and value (rd_type r ty)
         | RegionEqual (ComparisonConst c) \<Rightarrow> is_some_and value (rd_const_eq r c)
         | RegionEqual (ComparisonPinned q) \<Rightarrow> is_some_and value (\<lambda>v. is_some_and (pins q) (\<lambda>want. rd_value_eq r want v))
         | RegionTupleArity n \<Rightarrow> is_some_and value (rd_is_tuple r n)
         | RegionList RegionEmpty \<Rightarrow> is_some_and value (rd_is_empty r)
         | RegionList RegionCons \<Rightarrow> is_some_and value (rd_is_cons r)
         | RegionMapKind \<Rightarrow> is_some_and value (rd_is_map r)
         | RegionMapKeyPresent key \<Rightarrow> is_some_and value (\<lambda>v. rd_map_get r key v \<noteq> None)
         | RegionBitstring shape \<Rightarrow> is_some_and value (shape_holds r pins subs shape)
         | RegionGuard g \<Rightarrow> g < length (in_guard_leaves inputs)
             \<and> guard g (map (leaf_value r inp pins subs) (in_guard_leaves inputs ! g)))"

definition pin_value :: "PlanInputs \<Rightarrow> (nat \<Rightarrow> 'v option) \<Rightarrow> (PinnedValueId \<Rightarrow> 'v option) \<Rightarrow> PinnedValueId \<Rightarrow> 'v option" where
  "pin_value inputs inp lexical p =
     (if p < length (in_pinned inputs)
      then (case in_pinned inputs ! p of Some i \<Rightarrow> inp i | None \<Rightarrow> lexical p)
      else lexical p)"

section \<open>Agreement on a demand\<close>

primrec agrees :: "DispatchDemand \<Rightarrow> ('v, 'r, 't) Reader \<Rightarrow> 'v option \<Rightarrow> 'v option \<Rightarrow> bool" where
  "agrees Ignore r x y = True"
| "agrees Whole r x y = (x = y)"
| "agrees (TupleFields m) r x y =
     (map_option (\<lambda>v n. rd_is_tuple r n v) x = map_option (\<lambda>v n. rd_is_tuple r n v) y
      \<and> (\<forall>k. case map_option agrees (m k) of
               None \<Rightarrow> True
             | Some agree \<Rightarrow> agree r (Option.bind x (rd_tuple_field r k)) (Option.bind y (rd_tuple_field r k))))"
| "agrees (ListShape d) r x y =
     (map_option (\<lambda>v. (rd_is_empty r v, rd_is_cons r v)) x = map_option (\<lambda>v. (rd_is_empty r v, rd_is_cons r v)) y
      \<and> agrees d r (Option.bind x (rd_head r)) (Option.bind y (rd_head r)))"

lemma agrees_refl [simp]: "agrees d r x x"
proof (induction d arbitrary: x)
  case (TupleFields m)
  then have "agrees d r x x" if "m k = Some d" for k d x
    using that by (metis option.set_intros rangeI)
  then show ?case
    by (auto split: option.split)
qed simp_all

lemma agrees_mono: "d \<le> e \<Longrightarrow> agrees e r x y \<Longrightarrow> agrees d r x y"
proof (induction d arbitrary: e x y)
  case (TupleFields m)
  have IH: "agrees d' r x' y'" if "m k = Some d'" "d' \<le> e'" "agrees e' r x' y'" for k d' e' x' y'
    using TupleFields.IH that by (metis option.set_intros rangeI)
  show ?case
  proof (cases e)
    case (TupleFields n)
    have "agrees d' r (Option.bind x (rd_tuple_field r k)) (Option.bind y (rd_tuple_field r k))" if k: "m k = Some d'" for k d'
    proof -
      obtain e' where e': "n k = Some e'" "d' \<le> e'"
        using TupleFields.prems(1) TupleFields k by (auto simp: demand_le_TupleFields)
      then show ?thesis
        using TupleFields.prems(2) TupleFields IH [OF k e'(2)] by (auto dest: spec [of _ k])
    qed
    then show ?thesis
      using TupleFields.prems(2) TupleFields by (auto split: option.split)
  qed (use TupleFields.prems in auto)
next
  case (ListShape d)
  then show ?case
    by (cases e) auto
next
  case Whole
  then show ?case by simp
qed simp

section \<open>A dispatch reads no more than its demand\<close>

text \<open>The pins that size the bitstring fields on the way to a subject.\<close>

function subject_pins :: "Subject list \<Rightarrow> SubjectId \<Rightarrow> PinnedValueId set" where
  "subject_pins subs s =
     (if s < length subs then
        (case subject_source (subs ! s) of
           SubjectInput _ \<Rightarrow> {}
         | SubjectProjected proj \<Rightarrow>
             (if proj_source proj < s then subject_pins subs (proj_source proj) else {})
             \<union> (case proj_kind proj of
                  BitstringField ex \<Rightarrow> set_option (pinned_size subs s)
                    \<union> (case ex_previous ex of Some p \<Rightarrow> if p < s then subject_pins subs p else {} | None \<Rightarrow> {})
                | _ \<Rightarrow> {}))
      else {})"
  by pat_completeness auto
termination
  by (relation "measure (\<lambda>(_, s). s)") auto

declare subject_pins.simps [simp del]

definition subjects_read :: "PlanInputs \<Rightarrow> 't RegionPredicate \<Rightarrow> SubjectId set" where
  "subjects_read inputs p =
     (case pred_region p of
        RegionGuard g \<Rightarrow> (if g < length (in_guard_leaves inputs) then {s. LeafSubject s \<in> set (in_guard_leaves inputs ! g)} else {})
      | RegionBitstring shape \<Rightarrow> insert (pred_subject p) (set (shape_fields shape))
      | _ \<Rightarrow> {pred_subject p})"

text \<open>A field with a pinned size is read only where its shape is tested, which is how the source patterns
  produce their questions: the shape first, then the questions on its fields.\<close>

definition sizes_tested :: "PlanInputs \<Rightarrow> 't DispatchGraph \<Rightarrow> bool" where
  "sizes_tested inputs g \<longleftrightarrow> (\<forall>p yes no. NodeTest p yes no \<in> set (graph_nodes g) \<longrightarrow>
     (\<forall>s \<in> subjects_read inputs p. \<forall>q \<in> subject_pins (graph_subjects g) s.
        \<exists>p' yes' no' shape. NodeTest p' yes' no' \<in> set (graph_nodes g) \<and> pred_region p' = RegionBitstring shape
          \<and> (\<exists>f \<in> set (shape_fields shape). pinned_size (graph_subjects g) f = Some q)))"

lemma bits_upto_pins:
  assumes "\<And>q. q \<in> subject_pins subs f \<Longrightarrow> pins q = pins' q"
  shows "bits_upto r pins subs f v = bits_upto r pins' subs f v"
  using assms
proof (induction f rule: less_induct)
  case (less f)
  show ?case
  proof (cases "f < length subs")
    case True
    show ?thesis
    proof (cases "subject_source (subs ! f)")
      case (SubjectProjected proj)
      show ?thesis
      proof (cases "proj_kind proj")
        case (BitstringField ex)
        have pins: "\<And>q. pinned_size subs f = Some q \<Longrightarrow> pins q = pins' q"
          and prev: "\<And>p. ex_previous ex = Some p \<Longrightarrow> p < f \<Longrightarrow> bits_upto r pins subs p v = bits_upto r pins' subs p v"
          using less SubjectProjected BitstringField True by (simp_all add: subject_pins.simps [of subs f])
        have "bit_size r pins env (field_size (ex_spec ex)) = bit_size r pins' env (field_size (ex_spec ex))" for env
          using pins SubjectProjected BitstringField True
          by (auto simp: bit_size_def pinned_size_def split: option.split BitstringFieldSize.split)
        then show ?thesis
          using SubjectProjected BitstringField prev
          by (subst (1 2) bits_upto.simps) (auto split: option.split)
      qed (simp_all add: bits_upto.simps SubjectProjected)
    qed (simp add: bits_upto.simps)
  qed (simp add: bits_upto.simps)
qed

lemma agrees_subject:
  assumes "subjects_ok subs" and "subject_demand subs s d = Some (Some (i, d'))" and "agrees d' r (inp i) (inp' i)"
    and "\<And>q. q \<in> subject_pins subs s \<Longrightarrow> pins q = pins' q"
  shows "agrees d r (subject_value r inp pins subs s) (subject_value r inp' pins' subs s)"
  using assms(2,4)
proof (induction s arbitrary: d rule: less_induct)
  case (less s)
  have s: "s < length subs"
    using less.prems(1) by (subst (asm) subject_demand.simps) (auto split: if_splits)
  show ?case
  proof (cases "subject_source (subs ! s)")
    case (SubjectInput j)
    then show ?thesis
      using less.prems(1) s assms(3) by (subst (asm) subject_demand.simps) (simp add: subject_value.simps)
  next
    case (SubjectProjected proj)
    let ?v = "subject_value r inp pins subs (proj_source proj)" and ?v' = "subject_value r inp' pins' subs (proj_source proj)"
    let ?step = "demand_at_step (DemandPathStep_from (proj_kind proj)) d"
    have lt: "proj_source proj < s"
      using assms(1) s SubjectProjected by (force simp: subjects_ok_def)
    have "subject_demand subs (proj_source proj) ?step = Some (Some (i, d'))"
      using less.prems(1) s SubjectProjected by (subst (asm) subject_demand.simps) simp
    moreover have "\<And>q. q \<in> subject_pins subs (proj_source proj) \<Longrightarrow> pins q = pins' q"
      using less.prems(2) s SubjectProjected lt by (simp add: subject_pins.simps [of subs s])
    ultimately have ag: "agrees ?step r ?v ?v'"
      by (rule less.IH [OF lt])
    have "bits_upto r pins subs s v = bits_upto r pins' subs s v" for v
      by (rule bits_upto_pins) (rule less.prems(2))
    then show ?thesis
      using ag s SubjectProjected lt
      by (subst (1 2) subject_value.simps) (cases "proj_kind proj"; auto split: option.splits dest: spec)
  qed
qed

lemma covered_subject:
  assumes "subjects_ok subs" and "subject_covered subs dem s d" and "\<And>i. i < length dem \<Longrightarrow> agrees (dem ! i) r (inp i) (inp' i)"
    and "\<And>q. q \<in> subject_pins subs s \<Longrightarrow> pins q = pins' q"
  shows "agrees d r (subject_value r inp pins subs s) (subject_value r inp' pins' subs s)"
proof -
  obtain i d' where "subject_demand subs s d = Some (Some (i, d'))" "i < length dem" "d' \<le> dem ! i"
    using assms(2) by (auto simp: subject_covered_def)
  then show ?thesis
    using agrees_subject [OF assms(1) _ agrees_mono] assms(3,4) by blast
qed

lemma covered_pin:
  assumes "pin_covered inputs dem q" and "\<And>i. i < length dem \<Longrightarrow> agrees (dem ! i) r (inp i) (inp' i)"
  shows "pin_value inputs inp lexical q = pin_value inputs inp' lexical q"
  using assms by (fastforce simp: pin_value_def pin_covered_def split: option.split)

lemma predicate_agrees:
  assumes "subjects_ok subs" and "predicate_covered subs inputs dem p" and ag: "\<And>i. i < length dem \<Longrightarrow> agrees (dem ! i) r (inp i) (inp' i)"
    and pins: "\<And>s q. s \<in> subjects_read inputs p \<Longrightarrow> q \<in> subject_pins subs s \<Longrightarrow> pin_value inputs inp lexical q = pin_value inputs inp' lexical q"
  shows "predicate_holds r guard inputs subs inp (pin_value inputs inp lexical) p =
    predicate_holds r guard inputs subs inp' (pin_value inputs inp' lexical) p"
proof -
  let ?pins = "pin_value inputs inp lexical" and ?pins' = "pin_value inputs inp' lexical"
  let ?v = "subject_value r inp ?pins subs (pred_subject p)" and ?v' = "subject_value r inp' ?pins' subs (pred_subject p)"
  note read = covered_subject [OF assms(1) _ ag, of _ _ ?pins ?pins']
  show ?thesis
  proof (cases "pred_region p")
    case (RegionGuard g)
    have "leaf_value r inp ?pins subs l = leaf_value r inp' ?pins' subs l" if "g < length (in_guard_leaves inputs)" "l \<in> set (in_guard_leaves inputs ! g)" for l
    proof (cases l)
      case (LeafSubject s)
      then have "subject_covered subs dem s Whole" "s \<in> subjects_read inputs p"
        using assms(2) RegionGuard that by (auto simp: predicate_covered_def guard_covered_def subjects_read_def)
      then show ?thesis
        using read [of s Whole] pins LeafSubject by simp
    next
      case (LeafPinned q)
      then have "pin_covered inputs dem q"
        using assms(2) RegionGuard that by (auto simp: predicate_covered_def guard_covered_def)
      then show ?thesis
        using covered_pin [OF _ ag] LeafPinned by simp
    qed
    then have "g < length (in_guard_leaves inputs) \<Longrightarrow>
        map (leaf_value r inp ?pins subs) (in_guard_leaves inputs ! g) = map (leaf_value r inp' ?pins' subs) (in_guard_leaves inputs ! g)"
      by simp
    then show ?thesis
      using RegionGuard by (simp add: predicate_holds_def del: map_eq_conv cong: conj_cong)
  next
    case (RegionBitstring shape)
    then have "subject_covered subs dem (pred_subject p) Whole" "pred_subject p \<in> subjects_read inputs p"
      using assms(2) by (simp_all add: predicate_covered_def subjects_read_def demand_for_region_def)
    then have "?v = ?v'"
      using read [of "pred_subject p" Whole] pins by simp
    moreover have "bits_upto r ?pins subs f v = bits_upto r ?pins' subs f v" if "f \<in> set (shape_fields shape)" for f v
      using that by (intro bits_upto_pins pins [of f]) (simp_all add: subjects_read_def RegionBitstring)
    then have "shape_holds r ?pins subs shape = shape_holds r ?pins' subs shape"
      by (cases "shape_fields shape") (simp_all add: shape_holds_def fun_eq_iff)
    ultimately show ?thesis
      using RegionBitstring by (simp add: predicate_holds_def)
  next
    case (RegionTupleArity n)
    then have "agrees (TupleFields (\<lambda>_. None)) r ?v ?v'"
      using read [of "pred_subject p" "TupleFields (\<lambda>_. None)"] assms(2) pins by (simp add: predicate_covered_def demand_for_region_def subjects_read_def)
    then show ?thesis
      using RegionTupleArity by (cases ?v; cases ?v') (auto simp: predicate_holds_def is_some_and_def fun_eq_iff)
  next
    case (RegionList l)
    then have "agrees (ListShape Ignore) r ?v ?v'"
      using read [of "pred_subject p" "ListShape Ignore"] assms(2) pins by (simp add: predicate_covered_def demand_for_region_def subjects_read_def)
    then show ?thesis
      using RegionList by (cases ?v; cases ?v'; cases l) (auto simp: predicate_holds_def is_some_and_def)
  next
    case (RegionEqual c)
    then have "?v = ?v'" "\<And>q. c = ComparisonPinned q \<Longrightarrow> ?pins q = ?pins' q"
      using read [of "pred_subject p" Whole] assms(2) pins covered_pin [OF _ ag]
      by (auto simp: predicate_covered_def demand_for_region_def subjects_read_def)
    then show ?thesis
      using RegionEqual by (cases c) (simp_all add: predicate_holds_def)
  qed (use read [of "pred_subject p" Whole] assms(2) pins in \<open>simp_all add: predicate_holds_def predicate_covered_def demand_for_region_def subjects_read_def\<close>)
qed

lemma decides_cong:
  assumes "decides nodes ans n r" and "\<And>p yes no. NodeTest p yes no \<in> set nodes \<Longrightarrow> ans' p = ans p"
  shows "decides nodes ans' n r"
  using assms(1)
proof (induction rule: decides.induct)
  case (matched n p yes no r)
  then show ?case
    using assms(2) [of p yes no] decides.matched [of n nodes p yes no ans' r] by (metis nth_mem)
next
  case (missed n p yes no r)
  then show ?case
    using assms(2) [of p yes no] decides.missed [of n nodes p yes no ans' r] by (metis nth_mem)
qed (auto intro: decides.intros)

text \<open>What the compiled graph of a well-formed matrix charges, and the pins its field sizes read.\<close>

lemma compiled_covered:
  assumes "matrix_ok matrix inputs" and "compile_dispatch_matrix matrix inputs = Some (Inr c)"
  shows "length (graph_input_demand (compiled_graph c)) = in_count inputs" and "graph_subjects (compiled_graph c) = mx_subjects matrix"
    and "NodeTest p yes no \<in> set (graph_nodes (compiled_graph c)) \<Longrightarrow>
      predicate_covered (mx_subjects matrix) inputs (graph_input_demand (compiled_graph c)) p"
    and "decides (graph_nodes (compiled_graph c)) ans (graph_root (compiled_graph c)) (first_match ans (mx_arms matrix))"
proof -
  obtain root b st where c: "compiled_graph c = \<lparr> graph_subjects = mx_subjects matrix, graph_nodes = gb_nodes b, graph_root = root, graph_input_demand = gb_input_demand b \<rparr>"
    and b: "building (mx_subjects matrix) inputs b" and first: "\<And>ans. decides (gb_nodes b) ans root (first_match ans (mx_arms matrix))"
    by (rule compile_ordered_arms_graph [OF assms(1)]) (use assms(2) in auto)
  show "length (graph_input_demand (compiled_graph c)) = in_count inputs" "graph_subjects (compiled_graph c) = mx_subjects matrix"
    "NodeTest p yes no \<in> set (graph_nodes (compiled_graph c)) \<Longrightarrow>
      predicate_covered (mx_subjects matrix) inputs (graph_input_demand (compiled_graph c)) p"
    "decides (graph_nodes (compiled_graph c)) ans (graph_root (compiled_graph c)) (first_match ans (mx_arms matrix))"
    using b first [of ans] by (auto simp: c building_def node_covered_def)
qed

lemma tested_pins_agree:
  assumes ok: "matrix_ok matrix inputs" "compile_dispatch_matrix matrix inputs = Some (Inr c)" and sizes: "sizes_tested inputs (compiled_graph c)"
    and ag: "\<And>i. i < in_count inputs \<Longrightarrow> agrees (graph_input_demand (compiled_graph c) ! i) r (inp i) (inp' i)"
    and node: "NodeTest p yes no \<in> set (graph_nodes (compiled_graph c))" and s: "s \<in> subjects_read inputs p" "q \<in> subject_pins (mx_subjects matrix) s"
  shows "pin_value inputs inp lexical q = pin_value inputs inp' lexical q"
proof -
  obtain p' yes' no' shape f where "NodeTest p' yes' no' \<in> set (graph_nodes (compiled_graph c))" "pred_region p' = RegionBitstring shape"
      "f \<in> set (shape_fields shape)" "pinned_size (mx_subjects matrix) f = Some q"
    using sizes node s unfolding sizes_tested_def compiled_covered(2) [OF ok] by blast
  then have "pin_covered inputs (graph_input_demand (compiled_graph c)) q"
    using compiled_covered(3) [OF ok, of p' yes' no'] by (auto simp: predicate_covered_def)
  then show ?thesis
    by (rule covered_pin [where r = r]) (simp add: ag compiled_covered(1) [OF ok])
qed

text \<open>Terms built from integers and tuples, with the readings a pair dispatch uses.\<close>

datatype small_term = Num nat | Tup "small_term list"

definition small_reader :: "(small_term, unit, unit) Reader" where
  "small_reader = \<lparr> rd_is_tuple = (\<lambda>n v. case v of Tup vs \<Rightarrow> length vs = n | _ \<Rightarrow> False),
     rd_tuple_field = (\<lambda>i v. case v of Tup vs \<Rightarrow> if i < length vs then Some (vs ! i) else None | _ \<Rightarrow> None),
     rd_struct_field = (\<lambda>_ _. None), rd_is_empty = (\<lambda>_. False), rd_is_cons = (\<lambda>_. False), rd_head = (\<lambda>_. None), rd_tail = (\<lambda>_. None),
     rd_is_map = (\<lambda>_. False), rd_map_get = (\<lambda>_ _. None), rd_type = (\<lambda>_ _. False),
     rd_const_eq = (\<lambda>c v. c = GroundAtom ''ok'' \<and> v = Num 0), rd_value_eq = (=), rd_as_size = (\<lambda>_. None), rd_bits_init = (\<lambda>_. None),
     rd_bits_read = (\<lambda>_ _ _ _ _ _ _. None), rd_bits_done = (\<lambda>_. False) \<rparr>"

end
