(* ===== verification/Fz_PatternSem.thy ===== *)
theory Fz_PatternSem
  imports Fz_Producer Fz_DispatchSem "HOL-Library.Signed_Division"
begin

text \<open>
  Source patterns against their plans.  The meaning of a pattern is read off the syntax alone: matching
  it against a value gives the bindings in source order, or fails.  The producer is then shown to emit
  questions that hold exactly when the pattern matches and bindings that denote what it bound.
\<close>

section \<open>What a source pattern means\<close>

type_synonym 'v bindings = "(string \<times> 'v option) list"

definition test :: "bool \<Rightarrow> 'v bindings option" where
  "test holds = (if holds then Some [] else None)"

definition both :: "'v bindings option \<Rightarrow> 'v bindings option \<Rightarrow> 'v bindings option" where
  "both first second = Option.bind first (\<lambda>bs. map_option ((@) bs) second)"

definition source_bit_size :: "('v, 'r, 't) Reader \<Rightarrow> (string \<Rightarrow> 'v option) \<Rightarrow> (string \<rightharpoonup> 'v) \<Rightarrow> BitSize option \<Rightarrow> nat option option" where
  "source_bit_size r pinv names sz =
     (case sz of
        None \<Rightarrow> Some None
      | Some (BitSizeLiteral n) \<Rightarrow> Some (Some n)
      | Some (BitSizeVar name) \<Rightarrow>
          map_option Some (Option.bind (case names name of Some v \<Rightarrow> Some v | None \<Rightarrow> pinv name) (rd_as_size r)))"

text \<open>The fields of a bitstring are read one after the other; a field's size may name a field read before it.\<close>

fun read_source_bits :: "('v, 'r, 't) Reader \<Rightarrow> (string \<Rightarrow> 'v option) \<Rightarrow> 'm Pattern BitField list \<Rightarrow> (string \<rightharpoonup> 'v) \<Rightarrow> 'r \<Rightarrow> ('v list \<times> 'r) option" where
  "read_source_bits r pinv [] names rd = Some ([], rd)"
| "read_source_bits r pinv (field # rest) names rd =
     (let spec = bf_spec field; kind = bitstring_field_kind (bs_ty spec)
      in Option.bind (source_bit_size r pinv names (bs_size spec)) (\<lambda>sz.
         Option.bind (rd_bits_read r kind (case bs_unit spec of Some unit \<Rightarrow> unit | None \<Rightarrow> default_dispatch_bit_unit kind)
             (bs_endian spec) (bs_signed spec) (rest = []) sz rd) (\<lambda>(v, rd').
           map_option (\<lambda>(vs, rd''). (v # vs, rd''))
             (read_source_bits r pinv rest (fold (\<lambda>name names. names(name \<mapsto> v)) (direct_bitfield_bindings (bf_value field)) names) rd'))))"

definition read_all_source_bits :: "('v, 'r, 't) Reader \<Rightarrow> (string \<Rightarrow> 'v option) \<Rightarrow> 'm Pattern BitField list \<Rightarrow> 'v option \<Rightarrow> 'v list option" where
  "read_all_source_bits r pinv bits x =
     Option.bind x (\<lambda>v. Option.bind (rd_bits_init r v) (\<lambda>rd. Option.bind (read_source_bits r pinv bits (\<lambda>_. None) rd) (\<lambda>(vs, rd').
       if rd_bits_done r rd' then Some vs else None)))"

function (sequential) pat_match ::
  "('m, 'x, 't, 'c, 'h) Resolver \<Rightarrow> ('v, 'r, 't) Reader \<Rightarrow> (string \<Rightarrow> 'v option) \<Rightarrow> 'm Pattern \<Rightarrow> 'v option \<Rightarrow> 'v bindings option"
and fields_match ::
  "('m, 'x, 't, 'c, 'h) Resolver \<Rightarrow> ('v, 'r, 't) Reader \<Rightarrow> (string \<Rightarrow> 'v option) \<Rightarrow> 'm Pattern list \<Rightarrow> nat \<Rightarrow> 'v option \<Rightarrow> 'v bindings option"
and list_match ::
  "('m, 'x, 't, 'c, 'h) Resolver \<Rightarrow> ('v, 'r, 't) Reader \<Rightarrow> (string \<Rightarrow> 'v option) \<Rightarrow> 'm Pattern list \<Rightarrow> 'm Pattern option \<Rightarrow> 'v option \<Rightarrow> 'v bindings option"
and entries_match ::
  "('m, 'x, 't, 'c, 'h) Resolver \<Rightarrow> ('v, 'r, 't) Reader \<Rightarrow> (string \<Rightarrow> 'v option) \<Rightarrow> ('m Pattern \<times> 'm Pattern) list \<Rightarrow> 'v option \<Rightarrow> 'v bindings option"
and struct_match ::
  "('m, 'x, 't, 'c, 'h) Resolver \<Rightarrow> ('v, 'r, 't) Reader \<Rightarrow> (string \<Rightarrow> 'v option) \<Rightarrow> (string \<times> 'm Pattern) list \<Rightarrow> 'v option \<Rightarrow> 'v bindings option"
and bits_match ::
  "('m, 'x, 't, 'c, 'h) Resolver \<Rightarrow> ('v, 'r, 't) Reader \<Rightarrow> (string \<Rightarrow> 'v option) \<Rightarrow> 'm Pattern BitField list \<Rightarrow> 'v option list \<Rightarrow> 'v bindings option" where
  "pat_match rs r pinv PatWildcard x = Some []"
| "pat_match rs r pinv (PatVar name) x = Some [(name, x)]"
| "pat_match rs r pinv (PatAs name inner) x = both (Some [(name, x)]) (pat_match rs r pinv inner x)"
| "pat_match rs r pinv (PatPinned name) x = test (is_some_and x (\<lambda>v. is_some_and (pinv name) (\<lambda>want. rd_value_eq r want v)))"
| "pat_match rs r pinv (PatInt value) x = test (is_some_and x (rd_const_eq r (GroundInt value)))"
| "pat_match rs r pinv (PatFloat bits) x = test (is_some_and x (rd_const_eq r (GroundFloat bits)))"
| "pat_match rs r pinv (PatBinary bytes) x = test (is_some_and x (rd_const_eq r (GroundUtf8Binary bytes)))"
| "pat_match rs r pinv (PatAtom name) x = test (is_some_and x (rd_const_eq r (GroundAtom name)))"
| "pat_match rs r pinv (PatBool value) x = test (is_some_and x (rd_const_eq r (GroundBool value)))"
| "pat_match rs r pinv PatNil x = test (is_some_and x (rd_const_eq r GroundNil))"
| "pat_match rs r pinv (PatTuple pats) x = both (test (is_some_and x (rd_is_tuple r (length pats)))) (fields_match rs r pinv pats 0 x)"
| "pat_match rs r pinv (PatList elems tail) x = list_match rs r pinv elems tail x"
| "pat_match rs r pinv (PatMap entries) x = both (test (is_some_and x (rd_is_map r))) (entries_match rs r pinv entries x)"
| "pat_match rs r pinv (PatStruct module field_pats) x =
     (case rs_struct_type rs module of
        Inl _ \<Rightarrow> None
      | Inr ty \<Rightarrow> both (test (is_some_and x (rd_type r ty))) (struct_match rs r pinv field_pats x))"
| "pat_match rs r pinv (PatBitstring bits) x =
     Option.bind (read_all_source_bits r pinv bits x) (\<lambda>vs. bits_match rs r pinv bits (map Some vs))"
| "fields_match rs r pinv [] index x = Some []"
| "fields_match rs r pinv (pat # pats) index x =
     both (pat_match rs r pinv pat (Option.bind x (rd_tuple_field r index))) (fields_match rs r pinv pats (index + 1) x)"
| "list_match rs r pinv [] tail x =
     (case tail of Some t \<Rightarrow> pat_match rs r pinv t x | None \<Rightarrow> test (is_some_and x (rd_is_empty r)))"
| "list_match rs r pinv (elem # elems) tail x =
     both (test (is_some_and x (rd_is_cons r)))
       (both (pat_match rs r pinv elem (Option.bind x (rd_head r))) (list_match rs r pinv elems tail (Option.bind x (rd_tail r))))"
| "entries_match rs r pinv [] x = Some []"
| "entries_match rs r pinv ((key_pat, val_pat) # entries) x =
     (case map_key key_pat :: 'm SourcePatternError + GroundValue of
        Inl _ \<Rightarrow> None
      | Inr key \<Rightarrow> both (test (is_some_and x (\<lambda>v. rd_map_get r key v \<noteq> None)))
          (both (pat_match rs r pinv val_pat (Option.bind x (rd_map_get r key))) (entries_match rs r pinv entries x)))"
| "struct_match rs r pinv [] x = Some []"
| "struct_match rs r pinv ((name, pat) # field_pats) x =
     both (pat_match rs r pinv pat (Option.bind x (rd_struct_field r name))) (struct_match rs r pinv field_pats x)"
| "bits_match rs r pinv (field # bits) (x # xs) = both (pat_match rs r pinv (bf_value field) x) (bits_match rs r pinv bits xs)"
| "bits_match rs r pinv _ _ = Some []"
  by pat_completeness auto
termination
  by (relation "measure (\<lambda>x. case x of
      Inl (Inl (_, _, _, pat, _)) \<Rightarrow> size pat
    | Inl (Inr (Inl (_, _, _, pats, _))) \<Rightarrow> size_list size pats
    | Inl (Inr (Inr (_, _, _, elems, tail, _))) \<Rightarrow> size_list size elems + size_option size tail
    | Inr (Inl (_, _, _, entries, _)) \<Rightarrow> size_list (size_prod size size) entries
    | Inr (Inr (Inl (_, _, _, field_pats, _))) \<Rightarrow> size_list (size_prod (\<lambda>_. 0) size) field_pats
    | Inr (Inr (Inr (_, _, _, bits, _))) \<Rightarrow> size_list (\<lambda>x. Suc (size (bf_value x))) bits)") (auto simp: size_BitField_eq)

section \<open>What a guard means\<close>

text \<open>
  Why a run of a plan stops: a subject or a value is missing and the test fails, the plan and its operands disagree, or
  the interpreter panics.
\<close>

datatype DispatchStop = NoMatch | Broken | Panicked

definition required :: "'a option \<Rightarrow> DispatchStop + 'a" where
  "required x = (case x of Some v \<Rightarrow> Inr v | None \<Rightarrow> Inl NoMatch)"

definition and_go :: "DispatchStop + 'a \<Rightarrow> ('a \<Rightarrow> DispatchStop + 'b) \<Rightarrow> DispatchStop + 'b" where
  "and_go x f = (case x of Inl stop \<Rightarrow> Inl stop | Inr v \<Rightarrow> f v)"

lemma and_go_simps [simp]: "and_go (Inl stop) f = Inl stop" "and_go (Inr v) f = f v"
  by (simp_all add: and_go_def)

fun gather :: "(DispatchStop + 'a) list \<Rightarrow> DispatchStop + 'a list" where
  "gather [] = Inr []"
| "gather (x # xs) = and_go x (\<lambda>v. and_go (gather xs) (\<lambda>vs. Inr (v # vs)))"

text \<open>
  The operations a guard runs on values: constants, the two false values, booleans, the sign of a float, integers,
  the two comparisons and the run of a helper.
\<close>

record ('v, 'h) GuardOps =
  gd_const :: "GroundValue \<Rightarrow> 'v option"
  gd_falsy :: "'v \<Rightarrow> bool"
  gd_bool :: "bool \<Rightarrow> 'v"
  gd_neg :: "'v \<Rightarrow> 'v option"
  gd_int :: "'v \<Rightarrow> int option"
  gd_of_int :: "int \<Rightarrow> 'v"
  gd_eq :: "'v \<Rightarrow> 'v \<Rightarrow> bool option"
  gd_cmp :: "'v \<Rightarrow> 'v \<Rightarrow> int option"
  gd_helper :: "'h \<Rightarrow> 'v list \<Rightarrow> DispatchStop + 'v"

text \<open>Arithmetic on 64-bit integers panics when it overflows and when it divides by zero.\<close>

definition i64_result :: "int \<Rightarrow> DispatchStop + int" where
  "i64_result n = (if - (2 ^ 63) \<le> n \<and> n < 2 ^ 63 then Inr n else Inl Panicked)"

fun i64_arith :: "PatternGuardBinOp \<Rightarrow> int \<Rightarrow> int \<Rightarrow> DispatchStop + int" where
  "i64_arith GuardAdd x y = i64_result (x + y)"
| "i64_arith GuardSub x y = i64_result (x - y)"
| "i64_arith GuardMul x y = i64_result (x * y)"
| "i64_arith GuardDiv x y = (if y = 0 then Inl Panicked else i64_result (x sdiv y))"
| "i64_arith GuardRem x y = (if y = 0 \<or> x = - (2 ^ 63) \<and> y = - 1 then Inl Panicked else Inr (x smod y))"
| "i64_arith _ x y = Inl NoMatch"

definition guard_strict :: "('v, 'h) GuardOps \<Rightarrow> PatternGuardBinOp \<Rightarrow> 'v \<Rightarrow> 'v \<Rightarrow> DispatchStop + 'v" where
  "guard_strict g op l r =
     (let ordered = (\<lambda>P. required (map_option (\<lambda>c. gd_bool g (P c)) (gd_cmp g l r)))
      in case op of
        GuardEq \<Rightarrow> required (map_option (gd_bool g) (gd_eq g l r))
      | GuardNeq \<Rightarrow> required (map_option (\<lambda>same. gd_bool g (\<not> same)) (gd_eq g l r))
      | GuardLt \<Rightarrow> ordered (\<lambda>c. c < 0)
      | GuardLtEq \<Rightarrow> ordered (\<lambda>c. c \<le> 0)
      | GuardGt \<Rightarrow> ordered (\<lambda>c. c > 0)
      | GuardGtEq \<Rightarrow> ordered (\<lambda>c. c \<ge> 0)
      | GuardAnd \<Rightarrow> Inr (gd_bool g (\<not> gd_falsy g r))
      | GuardOr \<Rightarrow> Inr (gd_bool g (\<not> gd_falsy g r))
      | _ \<Rightarrow> and_go (required (gd_int g l)) (\<lambda>x. and_go (required (gd_int g r)) (\<lambda>y.
               and_go (i64_arith op x y) (\<lambda>n. Inr (gd_of_int g n)))))"

definition guard_binary :: "('v, 'h) GuardOps \<Rightarrow> PatternGuardBinOp \<Rightarrow> DispatchStop + 'v \<Rightarrow> DispatchStop + 'v \<Rightarrow> DispatchStop + 'v" where
  "guard_binary g op lhs rhs =
     and_go lhs (\<lambda>l.
       if op = GuardAnd \<and> gd_falsy g l then Inr (gd_bool g False)
       else if op = GuardOr \<and> \<not> gd_falsy g l then Inr (gd_bool g True)
       else and_go rhs (\<lambda>r. guard_strict g op l r))"

fun guard_unary :: "('v, 'h) GuardOps \<Rightarrow> PatternGuardUnaryOp \<Rightarrow> 'v \<Rightarrow> DispatchStop + 'v" where
  "guard_unary g GuardNot v = Inr (gd_bool g (gd_falsy g v))"
| "guard_unary g GuardNeg v =
     (case gd_int g v of Some n \<Rightarrow> and_go (i64_result (- n)) (\<lambda>m. Inr (gd_of_int g m)) | None \<Rightarrow> required (gd_neg g v))"

fun eval_guard ::
  "('v, 'h) GuardOps \<Rightarrow> (SubjectId \<Rightarrow> 'v option) \<Rightarrow> (PinnedValueId \<Rightarrow> 'v option) \<Rightarrow> 'h PatternGuardExpr \<Rightarrow> DispatchStop + 'v" where
  "eval_guard g subj pins (GuardConst c) = required (gd_const g c)"
| "eval_guard g subj pins (GuardSubject s) = required (subj s)"
| "eval_guard g subj pins (GuardPinned p) = required (pins p)"
| "eval_guard g subj pins (GuardUnary op e) = and_go (eval_guard g subj pins e) (guard_unary g op)"
| "eval_guard g subj pins (GuardBinary op lhs rhs) = guard_binary g op (eval_guard g subj pins lhs) (eval_guard g subj pins rhs)"
| "eval_guard g subj pins (GuardDispatch inputs _ helper) =
     and_go (gather (map (eval_guard g subj pins) inputs)) (gd_helper g helper)"

text \<open>A guard as it stands in the source: a name is what the row bound it to last, or a captured value.\<close>

fun guard_source :: "('m, 'x, 't, 'c, 'h) Resolver \<Rightarrow> ('v, 'h) GuardOps \<Rightarrow> (string \<Rightarrow> 'v option) \<Rightarrow> 'x Expr \<Rightarrow> DispatchStop + 'v" where
  "guard_source rs g names (ExprInt value) = required (gd_const g (GroundInt value))"
| "guard_source rs g names (ExprFloat bits) = required (gd_const g (GroundFloat bits))"
| "guard_source rs g names (ExprBinary bytes) = required (gd_const g (GroundUtf8Binary bytes))"
| "guard_source rs g names (ExprAtom name) = required (gd_const g (GroundAtom name))"
| "guard_source rs g names (ExprBool value) = required (gd_const g (GroundBool value))"
| "guard_source rs g names ExprNil = required (gd_const g GroundNil)"
| "guard_source rs g names (ExprVar name) = required (names name)"
| "guard_source rs g names (ExprAscribe e) = guard_source rs g names e"
| "guard_source rs g names (ExprUnOp op e) =
     and_go (guard_source rs g names e) (guard_unary g (case op of UnNot \<Rightarrow> GuardNot | UnNeg \<Rightarrow> GuardNeg))"
| "guard_source rs g names (ExprBinOp op lhs rhs) =
     and_go (required (guard_binop op)) (\<lambda>gop. guard_binary g gop (guard_source rs g names lhs) (guard_source rs g names rhs))"
| "guard_source rs g names (ExprCall target args) =
     and_go (required (rs_for_call rs target (length args))) (\<lambda>callee.
       case rs_guard_call rs callee (length args) of
         Inr (Some helper) \<Rightarrow> and_go (gather (map (guard_source rs g names) args)) (gd_helper g helper)
       | _ \<Rightarrow> Inl NoMatch)"
| "guard_source rs g names (ExprOther _) = Inl NoMatch"

section \<open>What a row means\<close>

fun ref_value :: "('v, 'r, 't) Reader \<Rightarrow> (nat \<Rightarrow> 'v option) \<Rightarrow> (SubjectId \<Rightarrow> 'v option) \<Rightarrow> PatternSubjectRef \<Rightarrow> 'v option" where
  "ref_value r inp subj (RefInput n) = inp n"
| "ref_value r inp subj (RefTupleField tup index) = Option.bind (ref_value r inp subj tup) (rd_tuple_field r index)"
| "ref_value r inp subj (RefStructField rec name) = Option.bind (ref_value r inp subj rec) (rd_struct_field r name)"
| "ref_value r inp subj (RefListHead lst) = Option.bind (ref_value r inp subj lst) (rd_head r)"
| "ref_value r inp subj (RefListTail lst) = Option.bind (ref_value r inp subj lst) (rd_tail r)"
| "ref_value r inp subj (RefMapValue mp key) = Option.bind (ref_value r inp subj mp) (rd_map_get r key)"
| "ref_value r inp subj (RefSubject s) = subj s"

fun columns_match ::
  "('m, 'x, 't, 'c, 'h) Resolver \<Rightarrow> ('v, 'r, 't) Reader \<Rightarrow> (string \<Rightarrow> 'v option) \<Rightarrow> 'm Pattern list \<Rightarrow> nat \<Rightarrow> (nat \<Rightarrow> 'v option) \<Rightarrow> 'v bindings option" where
  "columns_match rs r pinv [] ordinal inp = Some []"
| "columns_match rs r pinv (pat # pats) ordinal inp =
     both (pat_match rs r pinv pat (inp ordinal)) (columns_match rs r pinv pats (ordinal + 1) inp)"

definition guard_names :: "'v bindings \<Rightarrow> (string \<Rightarrow> 'v option) \<Rightarrow> string \<Rightarrow> 'v option" where
  "guard_names bs pinv name = (case map_of (rev bs) name of Some x \<Rightarrow> x | None \<Rightarrow> pinv name)"

text \<open>A guard is true when it has a value that is neither false nor nil; one that stops is not.\<close>

definition truthy :: "('v, 'h) GuardOps \<Rightarrow> DispatchStop + 'v \<Rightarrow> bool" where
  "truthy g x = (case x of Inr v \<Rightarrow> \<not> gd_falsy g v | Inl _ \<Rightarrow> False)"

definition row_match ::
  "('m, 'x, 't, 'c, 'h) Resolver \<Rightarrow> ('v, 'r, 't) Reader \<Rightarrow> ('v, 'h) GuardOps \<Rightarrow> (string \<Rightarrow> 'v option) \<Rightarrow> (nat \<Rightarrow> 'v option)
     \<Rightarrow> ('m, 'x, 't) PatternRow \<Rightarrow> 'v bindings option" where
  "row_match rs r g pinv inp row =
     Option.bind (columns_match rs r pinv (row_patterns row) 0 inp) (\<lambda>bs.
       if list_all (\<lambda>(ref, ty). is_some_and (ref_value r inp (\<lambda>_. None) ref) (rd_type r ty)) (row_preconditions row)
          \<and> (case row_guard row of None \<Rightarrow> True | Some e \<Rightarrow> truthy g (guard_source rs g (guard_names bs pinv) e))
       then Some bs else None)"

fun first_row :: "(('m, 'x, 't) PatternRow \<Rightarrow> 'v bindings option) \<Rightarrow> ('m, 'x, 't) PatternRow list \<Rightarrow> nat option" where
  "first_row m [] = None"
| "first_row m (row # rows) = (if m row \<noteq> None then Some 0 else map_option Suc (first_row m rows))"

end
