(* ===== verification/Fz_PatternProps.thy ===== *)
theory Fz_PatternProps
  imports Fz_PatternSem
begin

text \<open>
  The producer is correct: what it keeps true of its subjects, pins and interned projections, and that
  every step emits questions and bindings with the meaning of the pattern it translates.
\<close>

section \<open>Subjects are only added\<close>

lemma subject_root_append:
  assumes "subjects_ok subs" and "s < length subs"
  shows "subject_root (subs @ extra) s = subject_root subs s"
  using assms(2)
proof (induction s rule: less_induct)
  case (less s)
  show ?case
  proof (cases "subject_source (subs ! s)")
    case (SubjectProjected p)
    then have "proj_source p < s"
      using assms(1) less.prems by (force simp: subjects_ok_def)
    then show ?thesis
      using less SubjectProjected by (subst (1 2) subject_root.simps) (simp add: nth_append)
  qed (subst (1 2) subject_root.simps; use less.prems in \<open>simp add: nth_append\<close>)
qed

lemma bits_upto_append: "f < length subs \<Longrightarrow> bits_upto r pv (subs @ extra) f v = bits_upto r pv subs f v"
proof (induction f rule: less_induct)
  case (less f)
  have *: "bits_upto r pv (subs @ extra) p v = bits_upto r pv subs p v" if "p < f" for p
    using less that by simp
  show ?case
    using less.prems
    by (subst (1 2) bits_upto.simps)
      (simp add: nth_append * split: SubjectSource.split ProjectionKind.split option.split)
qed

lemma subject_value_append: "s < length subs \<Longrightarrow> subject_value r inp pv (subs @ extra) s = subject_value r inp pv subs s"
proof (induction s rule: less_induct)
  case (less s)
  have "subject_value r inp pv (subs @ extra) p = subject_value r inp pv subs p" if "p < s" for p
    using less that by simp
  moreover have "bits_upto r pv (subs @ extra) s v = bits_upto r pv subs s v" for v
    using less.prems by (rule bits_upto_append)
  ultimately show ?case
    using less.prems
    by (subst (1 2) subject_value.simps) (simp add: nth_append cong: ProjectionKind.case_cong split: SubjectSource.split)
qed

section \<open>The invariant\<close>

abbreviation subs_of :: "('t, 'h) PatternDispatchProducer \<Rightarrow> Subject list" where
  "subs_of p \<equiv> mb_subjects (pp_builder p)"

text \<open>A subject stands for a path when its projection chain spells it.\<close>

fun denotes :: "Subject list \<Rightarrow> PatternSubjectRef \<Rightarrow> SubjectId \<Rightarrow> bool" where
  "denotes subs (RefInput n) s = (s < length subs \<and> subject_source (subs ! s) = SubjectInput n)"
| "denotes subs (RefTupleField ref index) s =
     (\<exists>src < s. s < length subs \<and> subject_source (subs ! s) = SubjectProjected \<lparr> proj_source = src, proj_kind = TupleField index \<rparr> \<and> denotes subs ref src)"
| "denotes subs (RefStructField ref name) s =
     (\<exists>src < s. s < length subs \<and> subject_source (subs ! s) = SubjectProjected \<lparr> proj_source = src, proj_kind = StructField name \<rparr> \<and> denotes subs ref src)"
| "denotes subs (RefListHead ref) s =
     (\<exists>src < s. s < length subs \<and> subject_source (subs ! s) = SubjectProjected \<lparr> proj_source = src, proj_kind = ListHead \<rparr> \<and> denotes subs ref src)"
| "denotes subs (RefListTail ref) s =
     (\<exists>src < s. s < length subs \<and> subject_source (subs ! s) = SubjectProjected \<lparr> proj_source = src, proj_kind = ListTail \<rparr> \<and> denotes subs ref src)"
| "denotes subs (RefMapValue ref key) s =
     (\<exists>src < s. s < length subs \<and> subject_source (subs ! s) = SubjectProjected \<lparr> proj_source = src, proj_kind = MapValue key \<rparr> \<and> denotes subs ref src)"
| "denotes subs (RefSubject t) s = (s = t \<and> s < length subs)"

lemma denotes_length: "denotes subs ref s \<Longrightarrow> s < length subs"
  by (cases ref) auto

lemma denotes_append: "denotes subs ref s \<Longrightarrow> denotes (subs @ extra) ref s"
proof (induction ref arbitrary: s)
  case (RefInput n)
  then show ?case by (auto simp: nth_append)
next
  case (RefTupleField ref x2)
  then show ?case by (auto simp: nth_append)
next
  case (RefStructField ref x2)
  then show ?case by (auto simp: nth_append)
next
  case (RefListHead ref)
  then show ?case by (auto simp: nth_append)
next
  case (RefListTail ref)
  then show ?case by (auto simp: nth_append)
next
  case (RefMapValue ref x2)
  then show ?case by (auto simp: nth_append)
qed auto

lemma denotes_value: "denotes subs ref s \<Longrightarrow> subject_value r inp pv subs s = ref_value r inp (subject_value r inp pv subs) ref"
proof (induction ref arbitrary: s)
  case (RefInput n)
  then show ?case by (auto simp: subject_value.simps)
next
  case (RefTupleField ref x2)
  then show ?case by (auto simp: subject_value.simps [of r inp pv subs s])
next
  case (RefStructField ref x2)
  then show ?case by (auto simp: subject_value.simps [of r inp pv subs s])
next
  case (RefListHead ref)
  then show ?case by (auto simp: subject_value.simps [of r inp pv subs s])
next
  case (RefListTail ref)
  then show ?case by (auto simp: subject_value.simps [of r inp pv subs s])
next
  case (RefMapValue ref x2)
  then show ?case by (auto simp: subject_value.simps [of r inp pv subs s])
qed auto

definition known :: "('t, 'h) PatternDispatchProducer \<Rightarrow> SubjectId \<Rightarrow> bool" where
  "known p s \<longleftrightarrow> s < length (subs_of p) \<and> (\<exists>i < pp_input_count p. subject_root (subs_of p) s = Some (Some i))"

definition fields_ok :: "Subject list \<Rightarrow> bool" where
  "fields_ok subs \<longleftrightarrow> (\<forall>i < length subs. \<forall>src ex q. subject_source (subs ! i) = SubjectProjected \<lparr> proj_source = src, proj_kind = BitstringField ex \<rparr> \<longrightarrow>
     ex_previous ex = Some q \<longrightarrow> q < i)"

definition producer_ok :: "('t, 'h) PatternDispatchProducer \<Rightarrow> bool" where
  "producer_ok p \<longleftrightarrow> subjects_ok (subs_of p) \<and> fields_ok (subs_of p)
     \<and> (\<forall>ref s. pp_subjects p ref = Some s \<longrightarrow> denotes (subs_of p) ref s \<and> known p s)
     \<and> (\<forall>src kind s. pp_projections p (src, kind) = Some s \<longrightarrow> s < length (subs_of p)
          \<and> subject_source (subs_of p ! s) = SubjectProjected \<lparr> proj_source = src, proj_kind = kind \<rparr>)
     \<and> (\<forall>name i. pp_pinned_by_name p name = Some i \<longrightarrow> i < length (pp_pinned p) \<and> pin_name (pp_pinned p ! i) = name)
     \<and> (\<forall>pin \<in> set (pp_pinned p). pin_input pin = input_for (pp_prematch p) (pin_name pin))"

record ('v, 'r, 't, 'h) Reading =
  w_reader :: "('v, 'r, 't) Reader"
  w_guard :: "('v, 'h) GuardOps"
  w_input :: "nat \<Rightarrow> 'v option"
  w_pin :: "PinnedValueId \<Rightarrow> 'v option"
  w_name :: "string \<Rightarrow> 'v option"

definition value_of :: "('v, 'r, 't, 'h) Reading \<Rightarrow> Subject list \<Rightarrow> SubjectId \<Rightarrow> 'v option" where
  "value_of w subs = subject_value (w_reader w) (w_input w) (w_pin w) subs"

text \<open>One state of the producer after another; within a row no arm and no outcome is added.\<close>

definition later :: "('t, 'h) PatternDispatchProducer \<Rightarrow> ('t, 'h) PatternDispatchProducer \<Rightarrow> bool" where
  "later p p' \<longleftrightarrow> (\<exists>extra. subs_of p' = subs_of p @ extra) \<and> (\<exists>extra. pp_pinned p' = pp_pinned p @ extra)
     \<and> (\<exists>extra. pp_guards p' = pp_guards p @ extra) \<and> pp_input_count p' = pp_input_count p \<and> pp_prematch p' = pp_prematch p"

definition grows :: "('t, 'h) PatternDispatchProducer \<Rightarrow> ('t, 'h) PatternDispatchProducer \<Rightarrow> bool" where
  "grows p p' \<longleftrightarrow> later p p' \<and> pp_outcomes p' = pp_outcomes p \<and> mb_arms (pp_builder p') = mb_arms (pp_builder p)
     \<and> mb_outcomes (pp_builder p') = mb_outcomes (pp_builder p) \<and> mb_outcome_uses (pp_builder p') = mb_outcome_uses (pp_builder p)"

lemma later_refl [simp]: "later p p"
  by (simp add: later_def)

lemma later_trans: "later p q \<Longrightarrow> later q s \<Longrightarrow> later p s"
  by (auto simp: later_def)

lemma grows_refl [simp]: "grows p p"
  by (simp add: grows_def)

lemma grows_trans: "grows p q \<Longrightarrow> grows q s \<Longrightarrow> grows p s"
  by (auto simp: grows_def intro: later_trans)

lemma grows_later: "grows p q \<Longrightarrow> later p q"
  by (simp add: grows_def)

lemma known_later: "producer_ok p \<Longrightarrow> later p q \<Longrightarrow> known p s \<Longrightarrow> known q s"
  by (auto simp: later_def known_def producer_ok_def subject_root_append)

lemma value_later: "later p q \<Longrightarrow> s < length (subs_of p) \<Longrightarrow> subject_value r inp pv (subs_of q) s = subject_value r inp pv (subs_of p) s"
  by (auto simp: later_def subject_value_append)

lemma value_of_later: "later p q \<Longrightarrow> s < length (subs_of p) \<Longrightarrow> value_of w (subs_of q) s = value_of w (subs_of p) s"
  by (simp add: value_of_def value_later)

lemma root_later: "producer_ok p \<Longrightarrow> later p q \<Longrightarrow> s < length (subs_of p) \<Longrightarrow> subject_root (subs_of q) s = subject_root (subs_of p) s"
  by (auto simp: later_def producer_ok_def subject_root_append)

lemma length_later: "later p q \<Longrightarrow> s < length (subs_of p) \<Longrightarrow> s < length (subs_of q)"
  by (auto simp: later_def)

section \<open>Interning subjects\<close>

lemma known_or_cases:
  assumes "known_or ref p r = Inr (s, p')"
  obtains "pp_subjects p ref = Some s" "p' = p" | "pp_subjects p ref = None" "r = Inr (s, p')"
  using assms by (auto simp: known_or_def split: option.splits)

lemma add_projected_subject_Inr:
  "add_projected_subject b source kind = Inr (s, b') \<longleftrightarrow> source < length (mb_subjects b) \<and> s = length (mb_subjects b)
     \<and> b' = b\<lparr> mb_subjects := mb_subjects b @ [\<lparr> subject_id = s, subject_source = SubjectProjected \<lparr> proj_source = source, proj_kind = kind \<rparr> \<rparr>] \<rparr>"
  by (auto simp: add_projected_subject_def ensure_subject_def Let_def)

lemma subject_root_new:
  assumes "subjects_ok subs" and "source < length subs"
  shows "subject_root (subs @ [\<lparr> subject_id = i, subject_source = SubjectProjected \<lparr> proj_source = source, proj_kind = kind \<rparr> \<rparr>]) (length subs)
    = subject_root subs source"
  by (subst subject_root.simps) (simp add: subject_root_append assms)

text \<open>A projection of a known subject, added to the builder: what stays true, and what the new subject is.\<close>

lemma minted:
  assumes ok: "producer_ok p" and source: "known p source"
    and prev: "\<And>ex q. kind = BitstringField ex \<Longrightarrow> ex_previous ex = Some q \<Longrightarrow> q < length (subs_of p)"
    and b: "add_projected_subject (pp_builder p) source kind = Inr (s, b)"
  shows "producer_ok (p\<lparr> pp_builder := b \<rparr>)" and "grows p (p\<lparr> pp_builder := b \<rparr>)" and "known (p\<lparr> pp_builder := b \<rparr>) s"
    and "s < length (mb_subjects b)" "source < s" "subject_source (mb_subjects b ! s) = SubjectProjected \<lparr> proj_source = source, proj_kind = kind \<rparr>"
proof -
  let ?subs = "subs_of p" and ?new = "\<lparr> subject_id = s, subject_source = SubjectProjected \<lparr> proj_source = source, proj_kind = kind \<rparr> \<rparr>"
  have facts: "source < length ?subs" "s = length ?subs" "mb_subjects b = ?subs @ [?new]" "b = (pp_builder p)\<lparr> mb_subjects := ?subs @ [?new] \<rparr>"
    using b by (simp_all add: add_projected_subject_Inr)
  have subs: "subjects_ok ?subs" "fields_ok ?subs"
    using ok by (simp_all add: producer_ok_def)
  show grows: "grows p (p\<lparr> pp_builder := b \<rparr>)"
    using facts by (auto simp: grows_def later_def)
  show known: "known (p\<lparr> pp_builder := b \<rparr>) s"
    using source subs facts(1,2) subject_root_new [OF subs(1) facts(1)] unfolding known_def by (simp add: facts(3))
  show "s < length (mb_subjects b)" "source < s" "subject_source (mb_subjects b ! s) = SubjectProjected \<lparr> proj_source = source, proj_kind = kind \<rparr>"
    using facts by simp_all
  have "subjects_ok (mb_subjects b)" "fields_ok (mb_subjects b)"
    using subs facts(1,2) prev
    unfolding facts(3) subjects_ok_def fields_ok_def by (auto simp: nth_append less_Suc_eq split: SubjectSource.splits)
  moreover have "denotes (mb_subjects b) ref t \<and> known (p\<lparr> pp_builder := b \<rparr>) t" if "pp_subjects p ref = Some t" for ref t
    using ok that known_later [OF ok grows_later [OF grows]] by (auto simp: producer_ok_def facts(3) denotes_append)
  moreover have "t < length (mb_subjects b) \<and> subject_source (mb_subjects b ! t) = SubjectProjected \<lparr> proj_source = src, proj_kind = k \<rparr>"
    if "pp_projections p (src, k) = Some t" for src k t
  proof -
    have "t < length ?subs" "subject_source (?subs ! t) = SubjectProjected \<lparr> proj_source = src, proj_kind = k \<rparr>"
      using ok that by (auto simp: producer_ok_def)
    then show ?thesis
      by (simp add: facts(3) nth_append)
  qed
  ultimately show "producer_ok (p\<lparr> pp_builder := b \<rparr>)"
    using ok by (simp add: producer_ok_def)
qed

lemma producer_ok_subjects:
  assumes "producer_ok p" and "denotes (subs_of p) ref s" "known p s"
  shows "producer_ok (p\<lparr> pp_subjects := (pp_subjects p)(ref \<mapsto> s) \<rparr>)" "grows p (p\<lparr> pp_subjects := (pp_subjects p)(ref \<mapsto> s) \<rparr>)"
    and "known (p\<lparr> pp_subjects := (pp_subjects p)(ref \<mapsto> s) \<rparr>) t = known p t"
  using assms by (auto simp: producer_ok_def grows_def later_def known_def)

fun ref_known :: "('t, 'h) PatternDispatchProducer \<Rightarrow> PatternSubjectRef \<Rightarrow> bool" where
  "ref_known p (RefInput n) = True"
| "ref_known p (RefTupleField ref _) = ref_known p ref"
| "ref_known p (RefStructField ref _) = ref_known p ref"
| "ref_known p (RefListHead ref) = ref_known p ref"
| "ref_known p (RefListTail ref) = ref_known p ref"
| "ref_known p (RefMapValue ref _) = ref_known p ref"
| "ref_known p (RefSubject s) = known p s"

lemma ref_known_later: "producer_ok p \<Longrightarrow> later p q \<Longrightarrow> ref_known p ref \<Longrightarrow> ref_known q ref"
  by (induction ref) (auto intro: known_later)

definition interned :: "('t, 'h) PatternDispatchProducer \<Rightarrow> ('t, 'h) PatternDispatchProducer \<Rightarrow> PatternSubjectRef \<Rightarrow> SubjectId \<Rightarrow> bool" where
  "interned p p' ref s \<longleftrightarrow> producer_ok p' \<and> grows p p' \<and> known p' s \<and> denotes (subs_of p') ref s"

lemma mint_spec:
  assumes ok: "producer_ok p" and parent: "interned p q parent source"
    and spells: "\<And>subs t. source < t \<Longrightarrow> t < length subs \<Longrightarrow> subject_source (subs ! t) = SubjectProjected \<lparr> proj_source = source, proj_kind = kind \<rparr>
      \<Longrightarrow> denotes subs parent source \<Longrightarrow> denotes subs ref t"
    and kind: "\<And>ex. kind \<noteq> BitstringField ex" and m: "mint_subject ref source kind q = Inr (s, p')"
  shows "interned p p' ref s"
proof -
  obtain b where b: "add_projected_subject (pp_builder q) source kind = Inr (s, b)"
    and p': "p' = (q\<lparr> pp_builder := b \<rparr>)\<lparr> pp_subjects := (pp_subjects (q\<lparr> pp_builder := b \<rparr>))(ref \<mapsto> s) \<rparr>"
    using m by (auto simp: mint_subject_def split: sum.splits)
  have q: "producer_ok q" "grows p q" "known q source" "denotes (subs_of q) parent source"
    using parent by (simp_all add: interned_def)
  note minted = minted [OF q(1,3) _ b]
  have "mb_subjects b = subs_of q @ [\<lparr> subject_id = s, subject_source = SubjectProjected \<lparr> proj_source = source, proj_kind = kind \<rparr> \<rparr>]"
    using b by (simp add: add_projected_subject_Inr)
  then have "denotes (mb_subjects b) parent source"
    using denotes_append [OF q(4)] by simp
  then have "denotes (mb_subjects b) ref s"
    using minted(4-6) kind by (intro spells) auto
  then have "producer_ok p'" "grows (q\<lparr> pp_builder := b \<rparr>) p'" "known p' s"
    using producer_ok_subjects [of "q\<lparr> pp_builder := b \<rparr>" ref s] minted(1,3) kind unfolding p' by simp_all
  then show ?thesis
    using minted(2) kind q(2) \<open>denotes (mb_subjects b) ref s\<close> by (auto simp: interned_def p' intro: grows_trans)
qed

lemma interned_known: "producer_ok p \<Longrightarrow> pp_subjects p ref = Some s \<Longrightarrow> interned p p ref s"
  by (auto simp: interned_def producer_ok_def)

lemma known_or_spec:
  fixes x :: "'m SourcePatternError + SubjectId \<times> ('t, 'h) PatternDispatchProducer"
  assumes "producer_ok p" and "known_or ref p (and_ok x (\<lambda>(source, q). mint_subject ref source kind q)) = Inr (s, p')"
    and "\<And>source q. x = Inr (source, q) \<Longrightarrow> interned p q parent source" and "\<And>ex. kind \<noteq> BitstringField ex"
    and "\<And>source subs t. source < t \<Longrightarrow> t < length subs \<Longrightarrow> subject_source (subs ! t) = SubjectProjected \<lparr> proj_source = source, proj_kind = kind \<rparr>
      \<Longrightarrow> denotes subs parent source \<Longrightarrow> denotes subs ref t"
  shows "interned p p' ref s"
  using assms(2)
proof (cases rule: known_or_cases)
  case 1
  then show ?thesis
    using assms(1) interned_known by blast
next
  case 2
  then obtain source q where "x = Inr (source, q)" "(mint_subject ref source kind q :: 'm SourcePatternError + _) = Inr (s, p')"
    by (auto simp: and_ok_Inr)
  then show ?thesis
    by (intro mint_spec [OF assms(1), of q parent source kind ref s p'] assms(3,4,5)) simp_all
qed

lemma subject_id_of_spec:
  assumes "producer_ok p" and "ref_known p ref" and "(subject_id_of ref p :: 'm SourcePatternError + _) = Inr (s, p')"
  shows "interned p p' ref s"
  using assms(2,3)
proof (induction ref arbitrary: s p')
  case (RefInput n)
  then show ?case
    using assms(1) by (auto elim: known_or_cases intro: interned_known)
next
  case (RefTupleField ref index)
  then show ?case
    by (intro known_or_spec [OF assms(1), of _ "subject_id_of ref p" "TupleField index" s p' ref]) auto
next
  case (RefStructField ref name)
  then show ?case
    by (intro known_or_spec [OF assms(1), of _ "subject_id_of ref p" "StructField name" s p' ref]) auto
next
  case (RefListHead ref)
  then show ?case
    by (intro known_or_spec [OF assms(1), of _ "subject_id_of ref p" ListHead s p' ref]) auto
next
  case (RefListTail ref)
  then show ?case
    by (intro known_or_spec [OF assms(1), of _ "subject_id_of ref p" ListTail s p' ref]) auto
next
  case (RefMapValue ref key)
  then show ?case
    by (intro known_or_spec [OF assms(1), of _ "subject_id_of ref p" "MapValue key" s p' ref]) auto
next
  case (RefSubject t)
  have "(known_or (RefSubject t) p (Inr (t, p\<lparr> pp_subjects := (pp_subjects p)(RefSubject t \<mapsto> t) \<rparr>)) :: 'm SourcePatternError + _) = Inr (s, p')"
    using RefSubject.prems(2) by simp
  then show ?case
  proof (cases rule: known_or_cases)
    case 1
    then show ?thesis
      using assms(1) interned_known by blast
  next
    case 2
    then show ?thesis
      using producer_ok_subjects [OF assms(1), of "RefSubject t" t] RefSubject.prems(1)
      by (auto simp: interned_def known_def)
  qed
qed

lemma project_subject_spec:
  assumes ok: "producer_ok p" and source: "known p source"
    and prev: "\<And>ex q. kind = BitstringField ex \<Longrightarrow> ex_previous ex = Some q \<Longrightarrow> q < length (subs_of p)"
    and m: "project_subject source kind p = Inr (s, p')"
  shows "producer_ok p'" "grows p p'" "known p' s" "s < length (subs_of p')"
    "subject_source (subs_of p' ! s) = SubjectProjected \<lparr> proj_source = source, proj_kind = kind \<rparr>"
proof -
  have "producer_ok p' \<and> grows p p' \<and> known p' s \<and> s < length (subs_of p')
    \<and> subject_source (subs_of p' ! s) = SubjectProjected \<lparr> proj_source = source, proj_kind = kind \<rparr>"
  proof (cases "pp_projections p (source, kind)")
    case (Some t)
    then have t: "t < length (subs_of p)" "subject_source (subs_of p ! t) = SubjectProjected \<lparr> proj_source = source, proj_kind = kind \<rparr>"
      using ok by (auto simp: producer_ok_def)
    then have "subject_root (subs_of p) t = subject_root (subs_of p) source"
      by (subst subject_root.simps) simp
    then show ?thesis
      using t Some m ok source by (simp add: project_subject_def known_def)
  next
    case None
    then obtain b where b: "add_projected_subject (pp_builder p) source kind = Inr (s, b)"
      and p': "p' = p\<lparr> pp_builder := b, pp_projections := (pp_projections p)((source, kind) \<mapsto> s) \<rparr>"
      using m by (auto simp: project_subject_def split: sum.splits)
    note minted = minted [OF ok source prev b]
    have "producer_ok p'"
      using minted(1,4,6) by (auto simp: producer_ok_def known_def p')
    then show ?thesis
      using minted by (auto simp: p' grows_def later_def known_def)
  qed
  then show "producer_ok p'" "grows p p'" "known p' s" "s < length (subs_of p')"
    "subject_source (subs_of p' ! s) = SubjectProjected \<lparr> proj_source = source, proj_kind = kind \<rparr>"
    by simp_all
qed

section \<open>Emitting questions and bindings\<close>

text \<open>How a question of a plan is answered: a guard evaluates its expression, every other region asks its subject.\<close>

definition answer :: "('v, 'r, 't, 'h) Reading \<Rightarrow> 'h PatternGuardExpr list \<Rightarrow> Subject list \<Rightarrow> 't RegionPredicate \<Rightarrow> bool" where
  "answer w guards subs pred =
     (case pred_region pred of
        RegionGuard k \<Rightarrow> k < length guards \<and> truthy (w_guard w) (eval_guard (w_guard w) (value_of w subs) (w_pin w) (guards ! k))
      | _ \<Rightarrow> predicate_holds (w_reader w) (\<lambda>_ _. False) \<lparr> in_count = 0, in_pinned = [], in_guard_leaves = [] \<rparr> subs (w_input w) (w_pin w) pred)"

abbreviation answers :: "('v, 'r, 't, 'h) Reading \<Rightarrow> ('t, 'h) PatternDispatchProducer \<Rightarrow> 't RegionQuestion \<Rightarrow> bool" where
  "answers w p q \<equiv> answer w (pp_guards p) (subs_of p) (q_predicate q)"

definition projections :: "'t RegionQuestion \<Rightarrow> SubjectId list" where
  "projections q = ev_projections (q_match_evidence q) @ ev_projections (q_miss_evidence q)"

definition leaf_ok :: "('t, 'h) PatternDispatchProducer \<Rightarrow> GuardLeaf \<Rightarrow> bool" where
  "leaf_ok p l \<longleftrightarrow> (\<forall>s. l = LeafSubject s \<longrightarrow> known p s)"

definition q_ok :: "('t, 'h) PatternDispatchProducer \<Rightarrow> 't RegionQuestion \<Rightarrow> bool" where
  "q_ok p q \<longleftrightarrow>
     (case pred_region (q_predicate q) of
        RegionGuard k \<Rightarrow> k < length (pp_guards p) \<and> list_all (leaf_ok p) (guard_leaves (pp_guards p ! k)) \<and> projections q = []
      | _ \<Rightarrow> known p (pred_subject (q_predicate q))
          \<and> (\<forall>s \<in> set (projections q). s < length (subs_of p) \<and> subject_root (subs_of p) s = subject_root (subs_of p) (pred_subject (q_predicate q))))
     \<and> (\<forall>shape. pred_region (q_predicate q) = RegionBitstring shape \<longrightarrow> (\<forall>f \<in> set (shape_fields shape). f < length (subs_of p)))"

lemma collect_leaves_append: "collect_leaves e ls = ls @ collect_leaves e []"
proof (induction e arbitrary: ls)
  case (GuardUnary op e)
  show ?case
    using GuardUnary.IH [of ls] by simp
next
  case (GuardBinary op l r)
  have "collect_leaves r (collect_leaves l ls) = (ls @ collect_leaves l []) @ collect_leaves r []"
    using GuardBinary.IH(2) [of "collect_leaves l ls"] GuardBinary.IH(1) [of ls] by simp
  then show ?case
    using GuardBinary.IH(2) [of "collect_leaves l []"] by simp
next
  case (GuardDispatch inputs prepared helper)
  have "fold collect_leaves es ls = ls @ fold collect_leaves es []" if "set es \<subseteq> set inputs" for es
    using that
  proof (induction es arbitrary: ls)
    case (Cons e es)
    have es: "fold collect_leaves es ms = ms @ fold collect_leaves es []" for ms
      by (rule Cons.IH) (use Cons.prems in simp)
    have "collect_leaves e ls = ls @ collect_leaves e []"
      by (rule GuardDispatch.IH) (use Cons.prems in simp)
    then show ?case
      using es [of "collect_leaves e ls"] es [of "collect_leaves e []"] by simp
  qed simp
  from this [of inputs] show ?case
    by simp
qed simp_all

lemma guard_leaves_simps [simp]:
  "guard_leaves (GuardConst c) = []" "guard_leaves (GuardSubject s) = [LeafSubject s]" "guard_leaves (GuardPinned q) = [LeafPinned q]"
  "guard_leaves (GuardUnary op e) = guard_leaves e" "guard_leaves (GuardBinary bop l r') = guard_leaves l @ guard_leaves r'"
  using collect_leaves_append [of r' "collect_leaves l []"] by (simp_all add: guard_leaves_def)

lemma guard_leaves_Dispatch [simp]: "guard_leaves (GuardDispatch inputs prepared helper) = concat (map guard_leaves inputs)"
proof -
  have "fold collect_leaves inputs ls = ls @ concat (map guard_leaves inputs)" for ls :: "GuardLeaf list"
  proof (induction inputs arbitrary: ls)
    case (Cons e es)
    show ?case
      using Cons [of "collect_leaves e ls"] collect_leaves_append [of e ls] by (simp add: guard_leaves_def)
  qed simp
  then show ?thesis
    by (simp add: guard_leaves_def)
qed

lemma eval_guard_cong:
  assumes "\<And>s. LeafSubject s \<in> set (guard_leaves e) \<Longrightarrow> subj s = subj' s"
  shows "eval_guard g subj pv e = eval_guard g subj' pv e"
  using assms
proof (induction e)
  case (GuardBinary op l r)
  then have "eval_guard g subj pv l = eval_guard g subj' pv l" "eval_guard g subj pv r = eval_guard g subj' pv r"
    by simp_all
  then show ?case by simp
next
  case (GuardDispatch inputs prepared helper)
  then have "map (eval_guard g subj pv) inputs = map (eval_guard g subj' pv) inputs"
    by (auto intro!: map_cong)
  then show ?case
    unfolding eval_guard.simps by (rule arg_cong)
qed simp_all

lemma shape_holds_append:
  assumes "\<forall>f \<in> set (shape_fields shape). f < length subs"
  shows "shape_holds r pv (subs @ extra) shape = shape_holds r pv subs shape"
proof (cases "shape_fields shape")
  case (Cons f fs)
  then have "last (shape_fields shape) < length subs"
    using assms by (metis last_in_set list.discI)
  then show ?thesis
    using Cons by (simp add: shape_holds_def bits_upto_append fun_eq_iff)
qed (simp add: shape_holds_def fun_eq_iff)

lemma answers_later:
  assumes "q_ok p q" and "later p p'"
  shows "answers w p' q = answers w p q"
proof -
  obtain extra guards where ext: "subs_of p' = subs_of p @ extra" "pp_guards p' = pp_guards p @ guards"
    using assms(2) by (auto simp: later_def)
  show ?thesis
  proof (cases "\<exists>k. pred_region (q_predicate q) = RegionGuard k")
    case True
    then obtain k where k: "pred_region (q_predicate q) = RegionGuard k"
      by blast
    then have "k < length (pp_guards p)" and leaves: "list_all (leaf_ok p) (guard_leaves (pp_guards p ! k))"
      using assms(1) by (simp_all add: q_ok_def)
    moreover have "eval_guard (w_guard w) (value_of w (subs_of p')) (w_pin w) (pp_guards p ! k)
        = eval_guard (w_guard w) (value_of w (subs_of p)) (w_pin w) (pp_guards p ! k)"
      using leaves by (intro eval_guard_cong) (auto simp: list_all_iff leaf_ok_def known_def ext value_of_def subject_value_append)
    ultimately show ?thesis
      using k ext by (simp add: answer_def nth_append)
  next
    case False
    then have "pred_subject (q_predicate q) < length (subs_of p)"
      using assms(1) by (auto simp: q_ok_def known_def split: Region.splits)
    moreover have "shape_holds (w_reader w) (w_pin w) (subs_of p @ extra) shape = shape_holds (w_reader w) (w_pin w) (subs_of p) shape"
      if "pred_region (q_predicate q) = RegionBitstring shape" for shape
      using assms(1) that by (intro shape_holds_append) (simp add: q_ok_def)
    ultimately show ?thesis
      using False by (auto simp: answer_def predicate_holds_def subject_value_append ext Let_def split: Region.split)
  qed
qed

lemma q_ok_later:
  assumes "producer_ok p" and "q_ok p q" and "later p p'"
  shows "q_ok p' q"
proof -
  have leaf: "leaf_ok p l \<Longrightarrow> leaf_ok p' l" for l
    using known_later [OF assms(1,3)] by (auto simp: leaf_ok_def)
  have k: "known p s \<Longrightarrow> known p' s" for s
    using known_later [OF assms(1,3)] .
  have guards: "k < length (pp_guards p) \<Longrightarrow> k < length (pp_guards p') \<and> pp_guards p' ! k = pp_guards p ! k" for k
    using assms(3) by (auto simp: later_def nth_append)
  have root: "s < length (subs_of p) \<Longrightarrow> subject_root (subs_of p') s = subject_root (subs_of p) s" for s
    using root_later [OF assms(1,3)] .
  have len: "s < length (subs_of p) \<Longrightarrow> s < length (subs_of p')" for s
    using length_later [OF assms(3)] .
  show ?thesis
  proof (cases "\<exists>k. pred_region (q_predicate q) = RegionGuard k")
    case True
    then show ?thesis
      using assms(2) guards leaf by (auto simp: q_ok_def list_all_iff)
  next
    case False
    then have subj: "known p (pred_subject (q_predicate q))"
      and proj: "\<forall>s \<in> set (projections q). s < length (subs_of p) \<and> subject_root (subs_of p) s = subject_root (subs_of p) (pred_subject (q_predicate q))"
      using assms(2) by (auto simp: q_ok_def split: Region.splits)
    have "\<forall>s \<in> set (projections q). s < length (subs_of p') \<and> subject_root (subs_of p') s = subject_root (subs_of p') (pred_subject (q_predicate q))"
      using proj subj root len by (simp add: known_def)
    then show ?thesis
      using False k [OF subj] assms(2) len by (auto simp: q_ok_def split: Region.splits)
  qed
qed

fun ref_root :: "Subject list \<Rightarrow> PatternSubjectRef \<Rightarrow> nat option option" where
  "ref_root subs (RefInput n) = Some (Some n)"
| "ref_root subs (RefTupleField ref _) = ref_root subs ref"
| "ref_root subs (RefStructField ref _) = ref_root subs ref"
| "ref_root subs (RefListHead ref) = ref_root subs ref"
| "ref_root subs (RefListTail ref) = ref_root subs ref"
| "ref_root subs (RefMapValue ref _) = ref_root subs ref"
| "ref_root subs (RefSubject s) = subject_root subs s"

lemma denotes_root: "denotes subs ref s \<Longrightarrow> subject_root subs s = ref_root subs ref"
proof (induction ref arbitrary: s)
  case (RefInput n)
  then show ?case by (auto simp: subject_root.simps)
next
  case (RefTupleField ref x2)
  then show ?case by (auto simp: subject_root.simps [of subs s])
next
  case (RefStructField ref x2)
  then show ?case by (auto simp: subject_root.simps [of subs s])
next
  case (RefListHead ref)
  then show ?case by (auto simp: subject_root.simps [of subs s])
next
  case (RefListTail ref)
  then show ?case by (auto simp: subject_root.simps [of subs s])
next
  case (RefMapValue ref x2)
  then show ?case by (auto simp: subject_root.simps [of subs s])
qed auto

definition ref_at :: "('v, 'r, 't, 'h) Reading \<Rightarrow> ('t, 'h) PatternDispatchProducer \<Rightarrow> PatternSubjectRef \<Rightarrow> 'v option \<Rightarrow> bool" where
  "ref_at w p ref x \<longleftrightarrow> ref_known p ref \<and> ref_value (w_reader w) (w_input w) (value_of w (subs_of p)) ref = x"

lemma ref_at_later:
  assumes "producer_ok p" and "later p p'" and "ref_at w p ref x"
  shows "ref_at w p' ref x"
proof -
  have "ref_value (w_reader w) (w_input w) (value_of w (subs_of p')) ref = ref_value (w_reader w) (w_input w) (value_of w (subs_of p)) ref"
    if "ref_known p ref"
    using that by (induction ref) (use value_later [OF assms(2)] in \<open>auto simp: value_of_def known_def\<close>)
  then show ?thesis
    using assms ref_known_later by (auto simp: ref_at_def)
qed

lemma ref_at_simps:
  "ref_at w p ref x \<Longrightarrow> ref_at w p (RefTupleField ref i) (Option.bind x (rd_tuple_field (w_reader w) i))"
  "ref_at w p ref x \<Longrightarrow> ref_at w p (RefStructField ref name) (Option.bind x (rd_struct_field (w_reader w) name))"
  "ref_at w p ref x \<Longrightarrow> ref_at w p (RefListHead ref) (Option.bind x (rd_head (w_reader w)))"
  "ref_at w p ref x \<Longrightarrow> ref_at w p (RefListTail ref) (Option.bind x (rd_tail (w_reader w)))"
  "ref_at w p ref x \<Longrightarrow> ref_at w p (RefMapValue ref key) (Option.bind x (rd_map_get (w_reader w) key))"
  by (auto simp: ref_at_def)

lemma interned_value:
  assumes "producer_ok p" and "ref_at w p ref x" and "interned p p' ref s"
  shows "value_of w (subs_of p') s = x"
  using ref_at_later [OF assms(1) _ assms(2), of p'] assms(3) denotes_value [of "subs_of p'" ref s]
  by (auto simp: interned_def grows_def ref_at_def value_of_def)

lemma subject_id_at:
  assumes "producer_ok p" and "ref_at w p ref x" and "subject_id_of ref p = Inr (s, p')"
  shows "producer_ok p'" "grows p p'" "known p' s" "denotes (subs_of p') ref s" "value_of w (subs_of p') s = x" "ref_at w p' ref x"
proof -
  have *: "interned p p' ref s"
    using subject_id_of_spec [OF assms(1) _ assms(3)] assms(2) by (simp add: ref_at_def)
  then show "producer_ok p'" "grows p p'" "known p' s" "denotes (subs_of p') ref s"
    by (simp_all add: interned_def)
  then show "ref_at w p' ref x"
    using ref_at_later [OF assms(1) _ assms(2)] grows_later by blast
  show "value_of w (subs_of p') s = x"
    using interned_value [OF assms(1,2) *] .
qed

definition pins_agree :: "('v, 'r, 't, 'h) Reading \<Rightarrow> ('t, 'h) PatternDispatchProducer \<Rightarrow> bool" where
  "pins_agree w p \<longleftrightarrow> (\<forall>i < length (pp_pinned p). w_pin w i = w_name w (pin_name (pp_pinned p ! i)))"

lemma pins_agree_later: "later p p' \<Longrightarrow> pins_agree w p' \<Longrightarrow> pins_agree w p"
  by (force simp: later_def pins_agree_def nth_append)

definition denoted :: "('v, 'r, 't, 'h) Reading \<Rightarrow> Subject list \<Rightarrow> PatternDispatchBinding list \<Rightarrow> 'v bindings" where
  "denoted w subs bs = map (\<lambda>b. (binding_name b, value_of w subs (binding_source b))) bs"

definition emitted :: "('v, 'r, 't, 'h) Reading \<Rightarrow> ('t, 'h) producing \<Rightarrow> ('t, 'h) producing \<Rightarrow> 'v bindings option \<Rightarrow> bool" where
  "emitted w s s' m \<longleftrightarrow> (case s of (qs, bs, p) \<Rightarrow> case s' of (qs', bs', p') \<Rightarrow> producer_ok p' \<and> grows p p'
     \<and> (\<exists>nq nb. qs' = qs @ nq \<and> bs' = bs @ nb \<and> (\<forall>q \<in> set nq. q_ok p' q) \<and> (\<forall>b \<in> set nb. known p' (binding_source b))
         \<and> (pins_agree w p' \<longrightarrow> (case m of
              None \<Rightarrow> \<exists>q \<in> set nq. \<not> answers w p' q
            | Some found \<Rightarrow> (\<forall>q \<in> set nq. answers w p' q) \<and> denoted w (subs_of p') nb = found))))"

lemma emittedI:
  assumes "producer_ok p'" and "grows p p'" and "\<And>q. q \<in> set nq \<Longrightarrow> q_ok p' q" and "\<And>b. b \<in> set nb \<Longrightarrow> known p' (binding_source b)"
    and "\<And>found. pins_agree w p' \<Longrightarrow> m = Some found \<Longrightarrow> (\<forall>q \<in> set nq. answers w p' q) \<and> denoted w (subs_of p') nb = found"
    and "pins_agree w p' \<Longrightarrow> m = None \<Longrightarrow> \<exists>q \<in> set nq. \<not> answers w p' q"
  shows "emitted w (qs, bs, p) (qs @ nq, bs @ nb, p') m"
  using assms by (auto simp: emitted_def split: option.split)

lemma denoted_later: "later p p' \<Longrightarrow> \<forall>b \<in> set bs. known p (binding_source b) \<Longrightarrow> denoted w (subs_of p') bs = denoted w (subs_of p) bs"
  by (auto simp: denoted_def value_of_def known_def value_later)

lemma emitted_seq:
  assumes ok: "emitted w s s1 m1" "emitted w s1 s2 m2"
  shows "emitted w s s2 (both m1 m2)"
proof -
  obtain qs bs p where s: "s = (qs, bs, p)" by (cases s)
  obtain p1 nq1 nb1 where s1: "s1 = (qs @ nq1, bs @ nb1, p1)" "producer_ok p1" "grows p p1"
    and ok1: "\<forall>q \<in> set nq1. q_ok p1 q" "\<forall>b \<in> set nb1. known p1 (binding_source b)"
    and m1: "pins_agree w p1 \<longrightarrow> (case m1 of None \<Rightarrow> \<exists>q \<in> set nq1. \<not> answers w p1 q
      | Some found \<Rightarrow> (\<forall>q \<in> set nq1. answers w p1 q) \<and> denoted w (subs_of p1) nb1 = found)"
    using ok(1) by (cases s1) (auto simp: emitted_def s)
  obtain p2 nq2 nb2 where s2: "s2 = ((qs @ nq1) @ nq2, (bs @ nb1) @ nb2, p2)" "producer_ok p2" "grows p1 p2"
    and ok2: "\<forall>q \<in> set nq2. q_ok p2 q" "\<forall>b \<in> set nb2. known p2 (binding_source b)"
    and m2: "pins_agree w p2 \<longrightarrow> (case m2 of None \<Rightarrow> \<exists>q \<in> set nq2. \<not> answers w p2 q
      | Some found \<Rightarrow> (\<forall>q \<in> set nq2. answers w p2 q) \<and> denoted w (subs_of p2) nb2 = found)"
    using ok(2) by (cases s2) (auto simp: emitted_def s1)
  have later: "later p1 p2"
    using s2(3) by (rule grows_later)
  have "\<forall>q \<in> set nq1. q_ok p2 q" "\<forall>b \<in> set nb1. known p2 (binding_source b)"
    using ok1 q_ok_later [OF s1(2) _ later] known_later [OF s1(2) later] by blast+
  moreover have "\<forall>q \<in> set nq1. answers w p2 q = answers w p1 q"
    using ok1 answers_later [OF _ later] by blast
  moreover have "denoted w (subs_of p2) nb1 = denoted w (subs_of p1) nb1"
    using denoted_later [OF later ok1(2)] .
  moreover have "pins_agree w p2 \<Longrightarrow> pins_agree w p1"
    using later by (rule pins_agree_later)
  ultimately have "emitted w (qs, bs, p) (qs @ (nq1 @ nq2), bs @ (nb1 @ nb2), p2) (both m1 m2)"
    using s1 s2 ok2 m1 m2
    by (intro emittedI) (auto intro: grows_trans simp: both_def denoted_def split: option.splits)
  then show ?thesis
    by (simp add: s s2(1))
qed

lemma emitted_none: "producer_ok p' \<Longrightarrow> grows p p' \<Longrightarrow> emitted w (qs, bs, p) (qs, bs, p') (Some [])"
  using emittedI [of p' p "[]" "[]" w "Some []" qs bs] by (simp add: denoted_def)

lemma emitted_ask:
  "producer_ok p' \<Longrightarrow> grows p p' \<Longrightarrow> q_ok p' q \<Longrightarrow> (pins_agree w p' \<Longrightarrow> answers w p' q = b) \<Longrightarrow> emitted w (qs, bs, p) (qs @ [q], bs, p') (test b)"
  using emittedI [of p' p "[q]" "[]" w "test b" qs bs] by (cases b) (simp_all add: denoted_def test_def)

lemma emitted_bind:
  "producer_ok p' \<Longrightarrow> grows p p' \<Longrightarrow> known p' s \<Longrightarrow> value_of w (subs_of p') s = x
   \<Longrightarrow> emitted w (qs, bs, p) (qs, bs @ [\<lparr> binding_name = name, binding_source = s \<rparr>], p') (Some [(name, x)])"
  using emittedI [of p' p "[]" "[\<lparr> binding_name = name, binding_source = s \<rparr>]" w "Some [(name, x)]" qs bs] by (simp add: denoted_def)

lemma emitted_cong: "emitted w s (qs, bs, p) m \<Longrightarrow> (pins_agree w p \<Longrightarrow> m = m') \<Longrightarrow> emitted w s (qs, bs, p) m'"
  by (cases "pins_agree w p") (auto simp: emitted_def)

lemma emitted_ok: "emitted w (qs, bs, p) (qs', bs', p') m \<Longrightarrow> producer_ok p' \<and> later p p'"
  by (auto simp: emitted_def grows_def)

lemma both_simps [simp]: "both (Some []) m = m" "both m (Some []) = m" "both None m = None"
  by (simp_all add: both_def map_option.id [unfolded id_def] split: bind_split) (cases m; simp)+

section \<open>The questions\<close>

lemma fold_with_projection [simp]: "ev_projections (fold with_projection ps ev) = ev_projections ev @ ps"
  by (induction ps arbitrary: ev) (simp_all add: with_projection_def)

lemma question_projections [simp]:
  "projections (RegionQuestion_new pred) = []" "projections (type_region s ty) = []" "projections (equality s c) = []" "projections (list_empty s) = []"
  "projections (tuple_arity s n ps) = ps" "projections (list_cons s h t) = [h, t]" "projections (map_key_present s key t) = [t]"
  "projections (struct_question s ty ps) = ps"
  by (simp_all add: projections_def struct_question_def question_defs)

lemma question_predicates [simp]:
  "q_predicate (RegionQuestion_new pred) = pred" "q_predicate (type_region s ty) = RegionPredicate_new s (RegionType ty)"
  "q_predicate (equality s c) = RegionPredicate_new s (RegionEqual c)" "q_predicate (list_empty s) = RegionPredicate_new s (RegionList RegionEmpty)"
  "q_predicate (tuple_arity s n ps) = RegionPredicate_new s (RegionTupleArity n)"
  "q_predicate (list_cons s h t) = RegionPredicate_new s (RegionList RegionCons)"
  "q_predicate (map_key_present s key t) = RegionPredicate_new s (RegionMapKeyPresent key)"
  "q_predicate (struct_question s ty ps) = RegionPredicate_new s (RegionType ty)"
  by (simp_all add: struct_question_def question_defs)

lemma RegionPredicate_new_simps [simp]:
  "pred_subject (RegionPredicate_new s region) = s" "pred_region (RegionPredicate_new s region) = region"
  by (simp_all add: RegionPredicate_new_def)

lemma answer_simps [simp]:
  "answer w guards subs (RegionPredicate_new s (RegionType ty)) = is_some_and (value_of w subs s) (rd_type (w_reader w) ty)"
  "answer w guards subs (RegionPredicate_new s (RegionEqual (ComparisonConst c))) = is_some_and (value_of w subs s) (rd_const_eq (w_reader w) c)"
  "answer w guards subs (RegionPredicate_new s (RegionEqual (ComparisonPinned q)))
     = is_some_and (value_of w subs s) (\<lambda>v. is_some_and (w_pin w q) (\<lambda>want. rd_value_eq (w_reader w) want v))"
  "answer w guards subs (RegionPredicate_new s (RegionTupleArity n)) = is_some_and (value_of w subs s) (rd_is_tuple (w_reader w) n)"
  "answer w guards subs (RegionPredicate_new s (RegionList RegionEmpty)) = is_some_and (value_of w subs s) (rd_is_empty (w_reader w))"
  "answer w guards subs (RegionPredicate_new s (RegionList RegionCons)) = is_some_and (value_of w subs s) (rd_is_cons (w_reader w))"
  "answer w guards subs (RegionPredicate_new s RegionMapKind) = is_some_and (value_of w subs s) (rd_is_map (w_reader w))"
  "answer w guards subs (RegionPredicate_new s (RegionMapKeyPresent key)) = is_some_and (value_of w subs s) (\<lambda>v. rd_map_get (w_reader w) key v \<noteq> None)"
  "answer w guards subs (RegionPredicate_new s (RegionBitstring shape)) = is_some_and (value_of w subs s) (shape_holds (w_reader w) (w_pin w) subs shape)"
  by (simp_all add: answer_def predicate_holds_def value_of_def)

lemma q_okI:
  assumes "known p s" and "q_predicate q = RegionPredicate_new s region" and "\<And>k. region \<noteq> RegionGuard k"
    and "\<And>t. t \<in> set (projections q) \<Longrightarrow> t < length (subs_of p) \<and> subject_root (subs_of p) t = subject_root (subs_of p) s"
    and "\<And>shape f. region = RegionBitstring shape \<Longrightarrow> f \<in> set (shape_fields shape) \<Longrightarrow> f < length (subs_of p)"
  shows "q_ok p q"
  using assms by (auto simp: q_ok_def split: Region.split)

lemma ask_emits:
  assumes "producer_ok p" and "ref_at w p ref x" and "(ask ref question (qs, bs, p) :: 'm SourcePatternError + _) = Inr s'"
    and "\<And>s. q_predicate (question s) = RegionPredicate_new s region" "\<And>s. projections (question s) = []"
    and "\<And>k. region \<noteq> RegionGuard k" "\<And>shape. region \<noteq> RegionBitstring shape"
    and "\<And>s guards subs. pins_agree w p \<Longrightarrow> answer w guards subs (RegionPredicate_new s region) = is_some_and (value_of w subs s) P"
  shows "emitted w (qs, bs, p) s' (test (is_some_and x P))"
proof -
  obtain s p' where s: "subject_id_of ref p = (Inr (s, p') :: 'm SourcePatternError + _)" and s': "s' = (qs @ [question s], bs, p')"
    using assms(3) by (auto simp: ask_def and_ok_Inr)
  note sid = subject_id_at [OF assms(1,2) s]
  show ?thesis
    unfolding s' using sid assms(4-8) pins_agree_later [OF grows_later [OF sid(2)], of w] by (intro emitted_ask q_okI [of _ s _ region]) auto
qed

lemma bind_emits:
  assumes "producer_ok p" and "ref_at w p ref x" and "(bind_name name ref (qs, bs, p) :: 'm SourcePatternError + _) = Inr s'"
  shows "emitted w (qs, bs, p) s' (Some [(name, x)])"
proof -
  obtain s p' where s: "subject_id_of ref p = (Inr (s, p') :: 'm SourcePatternError + _)"
    and s': "s' = (qs, bs @ [\<lparr> binding_name = name, binding_source = s \<rparr>], p')"
    using assms(3) by (auto simp: bind_name_def and_ok_Inr)
  note sid = subject_id_at [OF assms(1,2) s]
  show ?thesis
    unfolding s' using sid by (intro emitted_bind) auto
qed

lemma subject_ids_spec:
  assumes "producer_ok p" and "\<forall>ref \<in> set refs. ref_known p ref" and "(subject_ids refs p :: 'm SourcePatternError + _) = Inr (ids, p')"
  shows "producer_ok p' \<and> grows p p' \<and> list_all2 (denotes (subs_of p')) refs ids"
  using assms
proof (induction refs arbitrary: p ids)
  case (Cons ref refs)
  obtain s p1 ids' where s: "subject_id_of ref p = (Inr (s, p1) :: 'm SourcePatternError + _)"
    and ids: "subject_ids refs p1 = (Inr (ids', p') :: 'm SourcePatternError + _)" "ids = s # ids'"
    using Cons.prems(3) by (auto simp: and_ok_Inr)
  have s1: "producer_ok p1" "grows p p1" "denotes (subs_of p1) ref s"
    using subject_id_of_spec [OF Cons.prems(1) _ s] Cons.prems(2) by (simp_all add: interned_def)
  have "\<forall>ref \<in> set refs. ref_known p1 ref"
    using Cons.prems(2) ref_known_later [OF Cons.prems(1) grows_later [OF s1(2)]] by simp
  then have IH: "producer_ok p' \<and> grows p1 p' \<and> list_all2 (denotes (subs_of p')) refs ids'"
    using Cons.IH [OF s1(1) _ ids(1)] by blast
  then have "denotes (subs_of p') ref s"
    using s1(3) denotes_append by (auto simp: grows_def later_def)
  then show ?case
    using IH ids(2) s1 by (auto intro: grows_trans)
qed simp

lemma ref_known_keys [simp]: "ref_known (p\<lparr> pp_prepared_keys := keys \<rparr>) ref = ref_known p ref"
  by (induction ref) (simp_all add: known_def)

lemma keys_simps [simp]:
  "producer_ok (p\<lparr> pp_prepared_keys := keys \<rparr>) = producer_ok p" "grows p (p\<lparr> pp_prepared_keys := keys \<rparr>)"
  "ref_at w (p\<lparr> pp_prepared_keys := keys \<rparr>) ref x = ref_at w p ref x"
  by (simp_all add: producer_ok_def grows_def later_def known_def ref_at_def)

lemma prepare_heap_key_eq: "\<exists>keys. prepare_heap_key key p = p\<lparr> pp_prepared_keys := keys \<rparr>"
proof -
  have "\<exists>keys. p = p\<lparr> pp_prepared_keys := keys \<rparr>"
    by (rule exI [of _ "pp_prepared_keys p"]) simp
  then show ?thesis
    by (cases key) (auto simp: prepare_heap_key_def)
qed

lemma prepare_heap_key_simps [simp]:
  "producer_ok (prepare_heap_key key p) = producer_ok p" "grows p (prepare_heap_key key p)"
  "ref_at w (prepare_heap_key key p) ref x = ref_at w p ref x"
  using prepare_heap_key_eq [of key p] by auto

section \<open>Bitstrings\<close>

lemma pin_for_name_spec:
  assumes "producer_ok p" and "pin_for_name name p = (i, p')"
  shows "producer_ok p'" "grows p p'" "subs_of p' = subs_of p" "i < length (pp_pinned p')" "pin_name (pp_pinned p' ! i) = name"
proof -
  have "producer_ok p' \<and> grows p p' \<and> subs_of p' = subs_of p \<and> i < length (pp_pinned p') \<and> pin_name (pp_pinned p' ! i) = name"
  proof (cases "pp_pinned_by_name p name")
    case None
    let ?pin = "\<lparr> pin_name = name, pin_input = input_for (pp_prematch p) name, pin_kind = KindVariable \<rparr>"
    have p': "p' = p\<lparr> pp_pinned := pp_pinned p @ [?pin], pp_pinned_by_name := (pp_pinned_by_name p)(name \<mapsto> length (pp_pinned p)) \<rparr>"
      and i: "i = length (pp_pinned p)"
      using assms(2) None by (auto simp: pin_for_name_def Let_def)
    have "j < length (pp_pinned p') \<and> pin_name (pp_pinned p' ! j) = n" if "pp_pinned_by_name p' n = Some j" for n j
    proof (cases "n = name")
      case False
      then have "j < length (pp_pinned p)" "pin_name (pp_pinned p ! j) = n"
        using assms(1) that by (auto simp: p' producer_ok_def)
      then show ?thesis
        by (simp add: p' nth_append)
    qed (use that p' i in auto)
    then have "producer_ok p'"
      using assms(1) by (auto simp: producer_ok_def p' known_def)
    then show ?thesis
      by (auto simp: p' i grows_def later_def)
  qed (use assms in \<open>auto simp: pin_for_name_def producer_ok_def\<close>)
  then show "producer_ok p'" "grows p p'" "subs_of p' = subs_of p" "i < length (pp_pinned p')" "pin_name (pp_pinned p' ! i) = name"
    by simp_all
qed

lemma field_size_of_spec:
  assumes "producer_ok p" and "field_size_of names sz p = (sz', p')"
  shows "producer_ok p'" "grows p p'" "subs_of p' = subs_of p"
    "pins_agree w p' \<Longrightarrow> (\<And>name. map_option env (names name) = map_option Some (vals name))
      \<Longrightarrow> bit_size (w_reader w) (w_pin w) env sz' = source_bit_size (w_reader w) (w_name w) vals sz"
proof -
  have "producer_ok p' \<and> grows p p' \<and> subs_of p' = subs_of p"
    using assms pin_for_name_spec [OF assms(1)]
    by (auto simp: field_size_of_def split: option.splits BitSize.splits prod.splits)
  then show "producer_ok p'" "grows p p'" "subs_of p' = subs_of p"
    by simp_all
  assume agree: "pins_agree w p'" and names: "\<And>name. map_option env (names name) = map_option Some (vals name)"
  show "bit_size (w_reader w) (w_pin w) env sz' = source_bit_size (w_reader w) (w_name w) vals sz"
  proof (cases "\<exists>name. sz = Some (BitSizeVar name)")
    case True
    then obtain name where sz: "sz = Some (BitSizeVar name)"
      by blast
    show ?thesis
    proof (cases "names name")
      case None
      then obtain i where i: "pin_for_name name p = (i, p')" "sz' = Some (SizePinned i)"
        using assms(2) sz by (auto simp: field_size_of_def split: prod.splits)
      have "w_pin w i = w_name w name"
        using agree pin_for_name_spec(4,5) [OF assms(1) i(1)] by (auto simp: pins_agree_def)
      moreover have "vals name = None"
        using names [of name] None by simp
      ultimately show ?thesis
        by (simp add: i(2) sz bit_size_def source_bit_size_def)
    next
      case (Some f)
      then have "vals name = env f" "sz' = Some (SizeBinding f)"
        using names [of name] assms(2) sz by (cases "vals name"; auto simp: field_size_of_def)+
      then show ?thesis
        using names [of name] Some by (cases "env f") (auto simp: sz bit_size_def source_bit_size_def)
    qed
  next
    case False
    then show ?thesis
      using assms(2) by (auto simp: field_size_of_def bit_size_def source_bit_size_def split: option.splits BitSize.splits)
  qed
qed

text \<open>The reader after the fields of a shape, with the values read so far.\<close>

definition reader_after :: "('v, 'r, 't, 'h) Reading \<Rightarrow> Subject list \<Rightarrow> SubjectId list \<Rightarrow> 'v \<Rightarrow> ('r \<times> (SubjectId \<rightharpoonup> 'v)) option" where
  "reader_after w subs shapes v =
     (if shapes = [] then map_option (\<lambda>rd. (rd, \<lambda>_. None)) (rd_bits_init (w_reader w) v)
      else bits_upto (w_reader w) (w_pin w) subs (last shapes) v)"

lemma reader_after_later:
  "later p p' \<Longrightarrow> \<forall>f \<in> set shapes. f < length (subs_of p) \<Longrightarrow> reader_after w (subs_of p') shapes v = reader_after w (subs_of p) shapes v"
  by (auto simp: reader_after_def later_def bits_upto_append)

lemma reader_after_snoc:
  assumes "f < length subs" and "subject_source (subs ! f) = SubjectProjected \<lparr> proj_source = source, proj_kind = BitstringField ex \<rparr>"
    and "ex_previous ex = (if shapes = [] then None else Some (last shapes))" and "\<forall>g \<in> set shapes. g < f"
  shows "reader_after w subs (shapes @ [f]) v = Option.bind (reader_after w subs shapes v) (\<lambda>(rd, env).
    Option.bind (bit_size (w_reader w) (w_pin w) env (field_size (ex_spec ex))) (\<lambda>sz.
      map_option (\<lambda>(x, rd'). (rd', env(f \<mapsto> x))) (read_field (w_reader w) ex sz rd)))"
  using assms by (auto simp: reader_after_def bits_upto.simps [of _ _ subs f])

lemma fold_names: "fold (\<lambda>name names. names(name \<mapsto> y)) ns names = (\<lambda>n. if n \<in> set ns then Some y else names n)"
  by (induction ns arbitrary: names) auto

text \<open>What the chain of fields of a shape reads, against the reading of the source fields.\<close>

definition chain_reads :: "('v, 'r, 't, 'h) Reading \<Rightarrow> Subject list \<Rightarrow> SubjectId list \<Rightarrow> SubjectId list \<Rightarrow> 'v
    \<Rightarrow> ('v list \<times> 'r) option \<Rightarrow> (SubjectId \<rightharpoonup> 'v) \<Rightarrow> bool" where
  "chain_reads w subs shapes ids v reading env \<longleftrightarrow>
     (case reading of
        None \<Rightarrow> reader_after w subs (shapes @ ids) v = None
      | Some (vs, rd') \<Rightarrow> \<exists>env'. reader_after w subs (shapes @ ids) v = Some (rd', env') \<and> (\<forall>g \<in> set shapes. env' g = env g)
          \<and> map env' ids = map Some vs
          \<and> (\<forall>f \<in> set ids. Option.bind (bits_upto (w_reader w) (w_pin w) subs f v) (\<lambda>(_, e). e f) = env' f))"

definition chain_ok :: "('t, 'h) PatternDispatchProducer \<Rightarrow> SubjectId \<Rightarrow> SubjectId list \<Rightarrow> bool" where
  "chain_ok p source ids \<longleftrightarrow> (\<forall>f \<in> set ids. known p f \<and> source < f
     \<and> (\<exists>ex. subject_source (subs_of p ! f) = SubjectProjected \<lparr> proj_source = source, proj_kind = BitstringField ex \<rparr>))"

lemma chain_ok_later: "producer_ok p \<Longrightarrow> later p q \<Longrightarrow> chain_ok p source ids \<Longrightarrow> chain_ok q source ids"
  using known_later [of p q] by (fastforce simp: chain_ok_def later_def known_def nth_append)

lemma chain_reads_step:
  assumes "chain_reads w subs (shapes @ [f]) ids v reading (env(f \<mapsto> x))" and "f \<notin> set shapes"
    and "Option.bind (bits_upto (w_reader w) (w_pin w) subs f v) (\<lambda>(_, e). e f) = Some x"
  shows "chain_reads w subs shapes (f # ids) v (map_option (\<lambda>(vs, rd). (x # vs, rd)) reading) env"
  using assms by (auto simp: chain_reads_def split: option.splits prod.splits)

lemma bitstring_fields_spec:
  assumes "producer_ok p" and "known p source" and "\<forall>f \<in> set shapes. f < length (subs_of p)" and "sorted_wrt (<) shapes" and "ran names \<subseteq> set shapes"
    and "(bitstring_fields source bits names shapes p :: 'm SourcePatternError + _) = Inr (shapes', p')"
  shows "\<exists>ids. shapes' = shapes @ ids \<and> length ids = length bits \<and> producer_ok p' \<and> grows p p' \<and> chain_ok p' source ids
    \<and> (pins_agree w p' \<longrightarrow> (case reader_after w (subs_of p) shapes v of
         None \<Rightarrow> reader_after w (subs_of p') shapes' v = None
       | Some (rd, env) \<Rightarrow> \<forall>vals. (\<forall>name. map_option env (names name) = map_option Some (vals name)) \<longrightarrow>
           chain_reads w (subs_of p') shapes ids v (read_source_bits (w_reader w) (w_name w) bits vals rd) env))"
  using assms
proof (induction bits arbitrary: names shapes p)
  case Nil
  then show ?case
    by (auto simp: chain_ok_def chain_reads_def reader_after_later split: option.split)
next
  case (Cons field rest)
  let ?spec = "bf_spec field"
  obtain sz p1 where sz: "field_size_of names (bs_size ?spec) p = (sz, p1)"
    by fastforce
  define ex where "ex = \<lparr> ex_previous = (if shapes = [] then None else Some (last shapes)),
    ex_spec = \<lparr> field_kind = bitstring_field_kind (bs_ty ?spec), field_size = sz, field_endian = bs_endian ?spec,
                field_signed = bs_signed ?spec, field_unit = bs_unit ?spec \<rparr>, ex_is_last = (rest = []) \<rparr>"
  define names' where "names' f = fold (\<lambda>name names. names(name \<mapsto> f)) (direct_bitfield_bindings (bf_value field)) names" for f
  obtain f p2 where f: "(project_subject source (BitstringField ex) p1 :: 'm SourcePatternError + _) = Inr (f, p2)"
    and rest: "(bitstring_fields source rest (names' f) (shapes @ [f]) p2 :: 'm SourcePatternError + _) = Inr (shapes', p')"
    using Cons.prems(6) by (auto simp: sz and_ok_Inr Let_def ex_def names'_def)
  note p1 = field_size_of_spec [OF Cons.prems(1) sz]
  have known: "known p1 source"
    using Cons.prems(1,2) p1(2) known_later grows_later by blast
  have prev: "q < length (subs_of p1)" if "BitstringField ex = BitstringField ex'" "ex_previous ex' = Some q" for ex' q
    using that Cons.prems(3) p1(3) by (auto simp: ex_def split: if_splits)
  have p2: "producer_ok p2" "grows p1 p2" "known p2 f" "f < length (subs_of p2)"
      "subject_source (subs_of p2 ! f) = SubjectProjected \<lparr> proj_source = source, proj_kind = BitstringField ex \<rparr>"
    by (rule project_subject_spec [OF p1(1) known _ f]; use prev in blast)+
  have grows2: "grows p p2"
    using p1(2) p2(2) by (rule grows_trans)
  have "last shapes < f" if "shapes \<noteq> []"
    using p2(1,4,5) that unfolding producer_ok_def fields_ok_def by (auto simp: ex_def)
  moreover have "g \<le> last shapes" if "g \<in> set shapes" for g
    using that Cons.prems(4) by (induction shapes) (auto simp: less_imp_le)
  ultimately have below: "\<forall>g \<in> set shapes. g < f"
    by (metis empty_iff empty_set le_less_trans)
  have "source < f"
    using p2(1,4,5) by (force simp: producer_ok_def subjects_ok_def)
  obtain ids where ids: "shapes' = (shapes @ [f]) @ ids" "length ids = length rest" "producer_ok p'" "grows p2 p'" "chain_ok p' source ids"
    and reads: "pins_agree w p' \<longrightarrow> (case reader_after w (subs_of p2) (shapes @ [f]) v of
         None \<Rightarrow> reader_after w (subs_of p') shapes' v = None
       | Some (rd, env) \<Rightarrow> \<forall>vals. (\<forall>name. map_option env (names' f name) = map_option Some (vals name)) \<longrightarrow>
           chain_reads w (subs_of p') (shapes @ [f]) ids v (read_source_bits (w_reader w) (w_name w) rest vals rd) env)"
  proof -
    have "\<forall>g \<in> set (shapes @ [f]). g < length (subs_of p2)" "sorted_wrt (<) (shapes @ [f])" "ran (names' f) \<subseteq> set (shapes @ [f])" "known p2 source"
      using below p2(4) Cons.prems(4,5) known_later [OF Cons.prems(1) grows_later [OF grows2] Cons.prems(2)]
      by (auto simp: sorted_wrt_append names'_def fold_names ran_def split: if_splits)
    then show thesis
      using Cons.IH [OF p2(1), of "shapes @ [f]" "names' f"] rest that by blast
  qed
  have below_len: "\<forall>g \<in> set (shapes @ [f]). g < length (subs_of p2)"
    using below p2(4) by auto
  have f': "bits_upto (w_reader w) (w_pin w) (subs_of p') f v = reader_after w (subs_of p2) (shapes @ [f]) v"
    using reader_after_later [OF grows_later [OF ids(4)] below_len, of w v] by (simp add: reader_after_def)
  have step: "reader_after w (subs_of p2) (shapes @ [f]) v = Option.bind (reader_after w (subs_of p) shapes v) (\<lambda>(rd, env).
      Option.bind (bit_size (w_reader w) (w_pin w) env sz) (\<lambda>sz. map_option (\<lambda>(x, rd'). (rd', env(f \<mapsto> x))) (read_field (w_reader w) ex sz rd)))"
  proof -
    have "ex_previous ex = (if shapes = [] then None else Some (last shapes))" "field_size (ex_spec ex) = sz"
      by (simp_all add: ex_def)
    then show ?thesis
      using reader_after_snoc [OF p2(4,5) _ below, of w v] reader_after_later [OF grows_later [OF grows2] Cons.prems(3), of w v] by simp
  qed
  have "chain_ok p' source (f # ids)"
    using chain_ok_later [OF p2(1) grows_later [OF ids(4)], of source "[f]"] p2(3,5) \<open>source < f\<close> ids(5) by (simp add: chain_ok_def)
  moreover have "chain_reads w (subs_of p') shapes (f # ids) v (read_source_bits (w_reader w) (w_name w) (field # rest) vals rd) env"
    if agree: "pins_agree w p'" and at: "reader_after w (subs_of p) shapes v = Some (rd, env)"
      and vals: "\<forall>name. map_option env (names name) = map_option Some (vals name)" for rd env vals
  proof -
    have "later p1 p'"
      using p2(2) ids(4) grows_later later_trans by blast
    then have size_eq: "bit_size (w_reader w) (w_pin w) env sz = source_bit_size (w_reader w) (w_name w) vals (bs_size ?spec)"
      using p1(4) [of w env vals] agree vals pins_agree_later by blast
    have rf: "read_field (w_reader w) ex n rd = rd_bits_read (w_reader w) (bitstring_field_kind (bs_ty ?spec))
        (case bs_unit ?spec of Some unit \<Rightarrow> unit | None \<Rightarrow> default_dispatch_bit_unit (bitstring_field_kind (bs_ty ?spec)))
        (bs_endian ?spec) (bs_signed ?spec) (rest = []) n rd" for n
      by (simp add: read_field_def ex_def Let_def cong: option.case_cong)
    show ?thesis
    proof (cases "Option.bind (source_bit_size (w_reader w) (w_name w) vals (bs_size ?spec)) (\<lambda>sz. read_field (w_reader w) ex sz rd)")
      case None
      then have "reader_after w (subs_of p2) (shapes @ [f]) v = None"
        using step at size_eq by (cases "source_bit_size (w_reader w) (w_name w) vals (bs_size ?spec)") simp_all
      then have "reader_after w (subs_of p') shapes' v = None"
        using reads agree by simp
      then show ?thesis
        using None
        by (cases "source_bit_size (w_reader w) (w_name w) vals (bs_size ?spec)") (simp_all add: chain_reads_def rf Let_def ids(1))
    next
      case (Some res)
      obtain x rd1 where res: "res = (x, rd1)"
        by (cases res)
      define vals' where "vals' = fold (\<lambda>name names. names(name \<mapsto> x)) (direct_bitfield_bindings (bf_value field)) vals"
      have after: "reader_after w (subs_of p2) (shapes @ [f]) v = Some (rd1, env(f \<mapsto> x))"
        using Some step at size_eq res by (auto simp: bind_eq_Some_conv)
      have "map_option (env(f \<mapsto> x)) (names' f name) = map_option Some (vals' name)" for name
        using vals [rule_format, of name] below Cons.prems(5)
        by (cases "names name") (auto simp: names'_def vals'_def fold_names ran_def)
      then have "chain_reads w (subs_of p') (shapes @ [f]) ids v (read_source_bits (w_reader w) (w_name w) rest vals' rd1) (env(f \<mapsto> x))"
        using reads agree after by simp
      then have "chain_reads w (subs_of p') shapes (f # ids) v (map_option (\<lambda>(vs, rd). (x # vs, rd)) (read_source_bits (w_reader w) (w_name w) rest vals' rd1)) env"
        by (rule chain_reads_step) (use below f' after in auto)
      moreover have "read_source_bits (w_reader w) (w_name w) (field # rest) vals rd = map_option (\<lambda>(vs, rd). (x # vs, rd)) (read_source_bits (w_reader w) (w_name w) rest vals' rd1)"
        using Some by (auto simp: res vals'_def rf Let_def bind_eq_Some_conv)
      ultimately show ?thesis
        by simp
    qed
  qed
  moreover have "reader_after w (subs_of p') shapes' v = None" if "pins_agree w p'" "reader_after w (subs_of p) shapes v = None"
    using reads step that by simp
  ultimately show ?case
    using ids grows_trans [OF grows2 ids(4)] by (intro exI [of _ "f # ids"]) (auto split: option.split)
qed

lemma bitstring_question_emits:
  assumes "producer_ok p" and "ref_at w p ref x" and "(bitstring_question ref bits p :: 'm SourcePatternError + _) = Inr (ids, q, p')"
  shows "emitted w (qs, bs, p) (qs @ [q], bs, p') (test (read_all_source_bits (w_reader w) (w_name w) bits x \<noteq> None))"
    and "length ids = length bits" and "\<forall>f \<in> set ids. known p' f"
    and "pins_agree w p' \<Longrightarrow> read_all_source_bits (w_reader w) (w_name w) bits x = Some vs \<Longrightarrow> map (value_of w (subs_of p')) ids = map Some vs"
proof -
  obtain s p1 where s: "(subject_id_of ref p :: 'm SourcePatternError + _) = Inr (s, p1)"
    and fields: "(bitstring_fields s bits (\<lambda>_. None) [] p1 :: 'm SourcePatternError + _) = Inr (ids, p')"
    and q: "q = \<lparr> q_predicate = RegionPredicate_new s (RegionBitstring \<lparr> shape_fields = ids, shape_require_done = True \<rparr>),
      q_match_evidence = (from_proof (RegionPredicate_new s (RegionBitstring \<lparr> shape_fields = ids, shape_require_done = True \<rparr>)) Holds)\<lparr> ev_projections := ids \<rparr>,
      q_miss_evidence = from_proof (RegionPredicate_new s (RegionBitstring \<lparr> shape_fields = ids, shape_require_done = True \<rparr>)) DoesNotHold \<rparr>"
    using assms(3) by (auto simp: bitstring_question_def and_ok_Inr Let_def)
  note sid = subject_id_at [OF assms(1,2) s]
  have sp: "length ids = length bits \<and> producer_ok p' \<and> grows p1 p' \<and> chain_ok p' s ids
    \<and> (pins_agree w p' \<longrightarrow> (case reader_after w (subs_of p1) [] v of
         None \<Rightarrow> reader_after w (subs_of p') ids v = None
       | Some (rd, env) \<Rightarrow> \<forall>vals. (\<forall>name. map_option env None = map_option Some (vals name)) \<longrightarrow>
           chain_reads w (subs_of p') [] ids v (read_source_bits (w_reader w) (w_name w) bits vals rd) env))" for v
    using bitstring_fields_spec [OF sid(1,3) _ _ _ fields, of w v] by auto
  then have p': "length ids = length bits" "producer_ok p'" "grows p1 p'" "chain_ok p' s ids"
    by blast+
  have at_s: "value_of w (subs_of p') s = x"
    using sid(3,5) value_of_later [OF grows_later [OF p'(3)], of s w] by (simp add: known_def)
  have reads: "case Option.bind (rd_bits_init (w_reader w) v) (read_source_bits (w_reader w) (w_name w) bits (\<lambda>_. None)) of
        None \<Rightarrow> reader_after w (subs_of p') ids v = None
      | Some (vs, rd') \<Rightarrow> \<exists>env'. reader_after w (subs_of p') ids v = Some (rd', env') \<and> map env' ids = map Some vs
          \<and> (\<forall>f \<in> set ids. Option.bind (bits_upto (w_reader w) (w_pin w) (subs_of p') f v) (\<lambda>(_, e). e f) = env' f)"
    if "pins_agree w p'" for v
    using sp [of v] that
    by (cases "rd_bits_init (w_reader w) v")
      (simp_all add: reader_after_def [of w "subs_of p1" "[]"] chain_reads_def cong: option.case_cong)
  have root: "subject_root (subs_of p') f = subject_root (subs_of p') s" "f < length (subs_of p')" if "f \<in> set ids" for f
    using p'(4) that by (auto simp: chain_ok_def known_def subject_root.simps [of "subs_of p'" f])
  have "shape_holds (w_reader w) (w_pin w) (subs_of p') \<lparr> shape_fields = ids, shape_require_done = True \<rparr> v
      \<longleftrightarrow> is_some_and (reader_after w (subs_of p') ids v) (\<lambda>(rd, _). rd_bits_done (w_reader w) rd)" for v
    by (auto simp: shape_holds_def reader_after_def is_some_and_def split: option.split list.split)
  then have "answers w p' q = (read_all_source_bits (w_reader w) (w_name w) bits x \<noteq> None)" if "pins_agree w p'"
    using reads [OF that, of "the x"] at_s
    by (cases x) (auto simp: q is_some_and_def read_all_source_bits_def split: option.splits bind_splits)
  moreover have "q_ok p' q"
    using sid(3) known_later [OF sid(1) grows_later [OF p'(3)]] root by (intro q_okI [of _ s]) (auto simp: q projections_def from_proof_def)
  ultimately show "emitted w (qs, bs, p) (qs @ [q], bs, p') (test (read_all_source_bits (w_reader w) (w_name w) bits x \<noteq> None))"
    using p' sid(2) by (intro emitted_ask) (auto intro: grows_trans)
  show "length ids = length bits" "\<forall>f \<in> set ids. known p' f"
    using p' by (auto simp: chain_ok_def)
  assume agree: "pins_agree w p'" and vs: "read_all_source_bits (w_reader w) (w_name w) bits x = Some vs"
  then obtain v where v: "x = Some v"
    by (cases x) (auto simp: read_all_source_bits_def)
  have "value_of w (subs_of p') f = Option.bind (bits_upto (w_reader w) (w_pin w) (subs_of p') f v) (\<lambda>(_, e). e f)" if "f \<in> set ids" for f
    using p'(4) at_s that v by (auto simp: chain_ok_def known_def value_of_def subject_value.simps [of _ _ _ "subs_of p'" f])
  moreover obtain env' where "map env' ids = map Some vs"
    "\<forall>f \<in> set ids. Option.bind (bits_upto (w_reader w) (w_pin w) (subs_of p') f v) (\<lambda>(_, e). e f) = env' f"
    using reads [OF agree, of v] vs v by (auto simp: read_all_source_bits_def bind_eq_Some_conv split: if_splits)
  ultimately show "map (value_of w (subs_of p')) ids = map Some vs"
    by (metis map_cong)
qed

section \<open>Patterns emit their meaning\<close>

abbreviation state_of :: "('t, 'h) producing \<Rightarrow> ('t, 'h) PatternDispatchProducer" where
  "state_of s \<equiv> snd (snd s)"

abbreviation ready :: "('v, 'r, 't, 'h) Reading \<Rightarrow> ('t, 'h) producing \<Rightarrow> PatternSubjectRef \<Rightarrow> 'v option \<Rightarrow> bool" where
  "ready w s ref x \<equiv> producer_ok (state_of s) \<and> ref_at w (state_of s) ref x"

lemma ready_next: "emitted w s s' m \<Longrightarrow> ready w s ref x \<Longrightarrow> ready w s' ref x"
  by (cases s; cases s') (auto dest!: emitted_ok intro: ref_at_later)

lemma const_emits:
  assumes "ready w s ref x" and "(const_question ref c s :: 'm SourcePatternError + _) = Inr s'"
  shows "emitted w s s' (test (is_some_and x (rd_const_eq (w_reader w) c)))"
proof -
  obtain qs bs p where s: "s = (qs, bs, p)" by (cases s)
  show ?thesis
    unfolding s using assms unfolding s const_question_def
    by (intro ask_emits [of p w ref x "\<lambda>subject. equality subject (ComparisonConst c)" qs bs s' "RegionEqual (ComparisonConst c)"]) auto
qed

lemma interned_question:
  assumes "ready w (qs, bs, p) ref x" and "(subject_id_of ref p :: 'm SourcePatternError + _) = Inr (s, p1)"
    and "producer_ok p'" "grows p1 p'" "q_predicate q = RegionPredicate_new s region" "\<And>k. region \<noteq> RegionGuard k" "\<And>shape. region \<noteq> RegionBitstring shape"
    and "list_all2 (denotes (subs_of p')) refs (projections q)" "\<And>r. r \<in> set refs \<Longrightarrow> ref_root (subs_of p') r = ref_root (subs_of p') ref"
    and "\<And>guards subs. answer w guards subs (RegionPredicate_new s region) = is_some_and (value_of w subs s) P"
  shows "emitted w (qs, bs, p) (qs @ [q], bs, p') (test (is_some_and x P))"
proof -
  have p: "producer_ok p" "ref_at w p ref x"
    using assms(1) by simp_all
  note sid = subject_id_at [OF p assms(2)]
  have later: "later p1 p'"
    using assms(4) by (rule grows_later)
  have "value_of w (subs_of p') s = x" "denotes (subs_of p') ref s"
    using sid(3,4,5) later value_of_later [OF later, of s w] denotes_append by (auto simp: known_def later_def)
  moreover have "t < length (subs_of p') \<and> subject_root (subs_of p') t = ref_root (subs_of p') ref" if "t \<in> set (projections q)" for t
  proof -
    obtain r where "r \<in> set refs" "denotes (subs_of p') r t"
      using assms(8) \<open>t \<in> set (projections q)\<close> by (metis in_set_conv_nth list_all2_conv_all_nth)
    then show ?thesis
      using assms(9) denotes_root denotes_length by metis
  qed
  ultimately show ?thesis
    using assms(3-7,10) known_later [OF sid(1) later sid(3)] sid(2) denotes_root
    by (intro emitted_ask q_okI [of _ s _ region]) (auto intro: grows_trans)
qed

lemma patterns_emit:
  fixes w :: "('v, 'r, 't, 'h) Reading" and rs :: "('m, 'x, 't, 'c, 'h) Resolver"
  shows "ready w s ref x \<Longrightarrow> append_pattern rs pat ref s = Inr s' \<Longrightarrow> emitted w s s' (pat_match rs (w_reader w) (w_name w) pat x)"
    and "ready w s ref x \<Longrightarrow> append_fields rs pats index ref s = Inr s' \<Longrightarrow> emitted w s s' (fields_match rs (w_reader w) (w_name w) pats index x)"
    and "ready w s ref x \<Longrightarrow> append_list_pattern rs elems tail ref s = Inr s' \<Longrightarrow> emitted w s s' (list_match rs (w_reader w) (w_name w) elems tail x)"
    and "ready w s ref x \<Longrightarrow> known (state_of s) subject \<Longrightarrow> denotes (subs_of (state_of s)) ref subject \<Longrightarrow> append_entries rs subject entries ref s = Inr s'
      \<Longrightarrow> emitted w s s' (entries_match rs (w_reader w) (w_name w) entries x)"
    and "ready w s ref x \<Longrightarrow> append_struct_fields rs field_pats ref s = Inr s' \<Longrightarrow> emitted w s s' (struct_match rs (w_reader w) (w_name w) field_pats x)"
    and "producer_ok (state_of s) \<Longrightarrow> list_all2 (\<lambda>ident. ref_at w (state_of s) (RefSubject ident)) idents xs \<Longrightarrow> append_bit_fields rs idents bits s = Inr s'
      \<Longrightarrow> emitted w s s' (bits_match rs (w_reader w) (w_name w) bits xs)"
proof (induction rs pat ref s and rs pats index ref s and rs elems tail ref s and rs subject entries ref s and rs field_pats ref s and rs idents bits s
    arbitrary: x s' and x s' and x s' and x s' and x s' and xs s'
    rule: append_pattern_append_fields_append_list_pattern_append_entries_append_struct_fields_append_bit_fields.induct)
  case (1 rs ref s)
  then show ?case
    by (cases s) (auto intro: emitted_none)
next
  case (2 rs name ref s)
  then show ?case
    by (cases s) (auto intro: bind_emits)
next
  case (3 rs name inner ref s)
  then obtain s1 where s1: "bind_name name ref s = (Inr s1 :: 'm SourcePatternError + _)" "append_pattern rs inner ref s1 = Inr s'"
    by (auto simp: and_ok_Inr)
  then have e1: "emitted w s s1 (Some [(name, x)])"
    using "3.prems"(1) by (cases s) (auto intro: bind_emits)
  show ?case
    using emitted_seq [OF e1 "3.IH" [OF s1(1) ready_next [OF e1 "3.prems"(1)] s1(2)]] by simp
next
  case (4 rs name ref qs bs p)
  then obtain i where i: "pp_pinned_by_name p name = Some i"
    and ask: "ask ref (\<lambda>subject. equality subject (ComparisonPinned i)) (qs, bs, p) = (Inr s' :: 'm SourcePatternError + _)"
    by (auto split: option.splits)
  have "w_pin w i = w_name w name" if "pins_agree w p"
    using that i "4.prems"(1) by (auto simp: pins_agree_def producer_ok_def)
  then show ?case
    using ask_emits [OF _ _ ask, of w x "RegionEqual (ComparisonPinned i)"] "4.prems"(1) by simp
next
  case (11 rs pats ref qs bs p)
  obtain subject p1 ids p2 where s1: "(subject_id_of ref p :: 'm SourcePatternError + _) = Inr (subject, p1)"
    and ids: "(subject_ids (map (RefTupleField ref) [0..<length pats]) p1 :: 'm SourcePatternError + _) = Inr (ids, p2)"
    and rest: "append_fields rs pats 0 ref (qs @ [tuple_arity subject (length pats) ids], bs, p2) = Inr s'"
    using "11.prems"(2) by (auto simp: and_ok_Inr)
  have p: "producer_ok p" "ref_at w p ref x"
    using "11.prems"(1) by simp_all
  note sid = subject_id_at [OF p s1]
  have p2: "producer_ok p2" "grows p1 p2" "list_all2 (denotes (subs_of p2)) (map (RefTupleField ref) [0..<length pats]) ids"
    using subject_ids_spec [OF sid(1) _ ids] sid(6) by (simp_all add: ref_at_def)
  have e1: "emitted w (qs, bs, p) (qs @ [tuple_arity subject (length pats) ids], bs, p2) (test (is_some_and x (rd_is_tuple (w_reader w) (length pats))))"
    using p2(3) by (intro interned_question [OF "11.prems"(1) s1 p2(1,2), of _ "RegionTupleArity (length pats)" "map (RefTupleField ref) [0..<length pats]"]) auto
  show ?case
    using emitted_seq [OF e1 "11.IH" [OF s1 _ ids _ ready_next [OF e1 "11.prems"(1)] rest]] by simp
next
  case (13 rs entries ref qs bs p)
  obtain subject p1 where s1: "(subject_id_of ref p :: 'm SourcePatternError + _) = Inr (subject, p1)"
    and rest: "append_entries rs subject entries ref (qs @ [RegionQuestion_new (RegionPredicate_new subject RegionMapKind)], bs, p1) = Inr s'"
    using "13.prems"(2) by (auto simp: and_ok_Inr)
  have p: "producer_ok p" "ref_at w p ref x"
    using "13.prems"(1) by simp_all
  note sid = subject_id_at [OF p s1]
  have e1: "emitted w (qs, bs, p) (qs @ [RegionQuestion_new (RegionPredicate_new subject RegionMapKind)], bs, p1) (test (is_some_and x (rd_is_map (w_reader w))))"
    by (intro interned_question [OF "13.prems"(1) s1 sid(1) grows_refl, of _ RegionMapKind "[]"]) auto
  show ?case
    using emitted_seq [OF e1 "13.IH" [OF s1 _ ready_next [OF e1 "13.prems"(1)] _ _ rest]] sid(3,4) by simp
next
  case (14 rs module field_pats ref qs bs p)
  obtain ty subject p1 ids p2 where ty: "rs_struct_type rs module = Inr ty"
    and s1: "(subject_id_of ref p :: 'm SourcePatternError + _) = Inr (subject, p1)"
    and ids: "(subject_ids (map (\<lambda>(name, _). RefStructField ref name) field_pats) p1 :: 'm SourcePatternError + _) = Inr (ids, p2)"
    and rest: "append_struct_fields rs field_pats ref (qs @ [struct_question subject ty ids], bs, p2) = Inr s'"
    using "14.prems"(2) by (auto simp: and_ok_Inr)
  have p: "producer_ok p" "ref_at w p ref x"
    using "14.prems"(1) by simp_all
  note sid = subject_id_at [OF p s1]
  have refs: "\<forall>r \<in> set (map (\<lambda>(name, _). RefStructField ref name) field_pats). ref_known p1 r"
    using sid(6) by (auto simp: ref_at_def)
  have p2: "producer_ok p2" "grows p1 p2" "list_all2 (denotes (subs_of p2)) (map (\<lambda>(name, _). RefStructField ref name) field_pats) ids"
    using subject_ids_spec [OF sid(1) refs ids] by simp_all
  have e1: "emitted w (qs, bs, p) (qs @ [struct_question subject ty ids], bs, p2) (test (is_some_and x (rd_type (w_reader w) ty)))"
    using p2(3) by (intro interned_question [OF "14.prems"(1) s1 p2(1,2), of _ "RegionType ty" "map (\<lambda>(name, _). RefStructField ref name) field_pats"]) auto
  show ?case
    using emitted_seq [OF e1 "14.IH" [OF ty s1 _ ids _ ready_next [OF e1 "14.prems"(1)] rest]] ty by simp
next
  case (15 rs bits ref qs bs p)
  obtain ids q p1 where question: "(bitstring_question ref bits p :: 'm SourcePatternError + _) = Inr (ids, q, p1)"
    and rest: "append_bit_fields rs ids bits (qs @ [q], bs, p1) = Inr s'"
    using "15.prems"(2) by (auto simp: and_ok_Inr)
  have p: "producer_ok p" "ref_at w p ref x"
    using "15.prems"(1) by simp_all
  note emits = bitstring_question_emits [OF p question]
  define xs where "xs = map (value_of w (subs_of p1)) ids"
  have at: "list_all2 (\<lambda>ident. ref_at w p1 (RefSubject ident)) ids xs" "producer_ok p1"
    using emits(3) emitted_ok [OF emits(1)] by (auto simp: xs_def list_all2_conv_all_nth ref_at_def)
  obtain qs' bs' p' where s': "s' = (qs', bs', p')"
    by (cases s')
  have "emitted w (qs @ [q], bs, p1) s' (bits_match rs (w_reader w) (w_name w) bits xs)"
    using "15.IH" [OF question _ _ _ _ rest] at by simp
  then have whole: "emitted w (qs, bs, p) s' (both (test (read_all_source_bits (w_reader w) (w_name w) bits x \<noteq> None)) (bits_match rs (w_reader w) (w_name w) bits xs))"
    "later p1 p'"
    using emits(1) by (auto intro: emitted_seq simp: s' dest: emitted_ok)
  show ?case
    unfolding s'
  proof (rule emitted_cong [OF whole(1) [unfolded s']])
    assume "pins_agree w p'"
    then have "pins_agree w p1"
      using \<open>later p1 p'\<close> pins_agree_later by blast
    then show "both (test (read_all_source_bits (w_reader w) (w_name w) bits x \<noteq> None)) (bits_match rs (w_reader w) (w_name w) bits xs)
      = pat_match rs (w_reader w) (w_name w) (PatBitstring bits) x"
      using emits(4) by (cases "read_all_source_bits (w_reader w) (w_name w) bits x") (auto simp: test_def xs_def)
  qed
next
  case (16 rs index ref s)
  then show ?case
    by (cases s) (auto intro: emitted_none)
next
  case (17 rs pat pats index ref s)
  obtain s1 where s1: "append_pattern rs pat (RefTupleField ref index) s = Inr s1" and rest: "append_fields rs pats (index + 1) ref s1 = Inr s'"
    using "17.prems"(2) by (auto simp: and_ok_Inr)
  have e1: "emitted w s s1 (pat_match rs (w_reader w) (w_name w) pat (Option.bind x (rd_tuple_field (w_reader w) index)))"
    using "17.prems"(1) ref_at_simps(1) by (intro "17.IH"(1) [OF _ s1]) auto
  show ?case
    using emitted_seq [OF e1 "17.IH"(2) [OF s1 ready_next [OF e1 "17.prems"(1)] rest]] by simp
next
  case (18 rs tail ref s)
  show ?case
  proof (cases tail)
    case None
    then have ask: "ask ref list_empty s = (Inr s' :: 'm SourcePatternError + _)"
      using "18.prems"(2) by simp
    obtain qs bs p where s: "s = (qs, bs, p)"
      by (cases s)
    show ?thesis
      using "18.prems"(1) ask_emits [OF _ _ ask [unfolded s], of w x "RegionList RegionEmpty"] None unfolding s by simp
  next
    case (Some t)
    then show ?thesis
      using "18.IH" [OF Some "18.prems"(1)] "18.prems"(2) by simp
  qed
next
  case (19 rs elem elems tail ref qs bs p)
  obtain subject p1 head p2 tail_id p3 qs' bs' p' where s1: "(subject_id_of ref p :: 'm SourcePatternError + _) = Inr (subject, p1)"
    and s2: "(subject_id_of (RefListHead ref) p1 :: 'm SourcePatternError + _) = Inr (head, p2)"
    and s3: "(subject_id_of (RefListTail ref) p2 :: 'm SourcePatternError + _) = Inr (tail_id, p3)"
    and elem: "append_pattern rs elem (RefListHead ref) (qs @ [list_cons subject head tail_id], bs, p3) = Inr (qs', bs', p')"
    and rest: "(if elems = [] then (case tail of Some t \<Rightarrow> append_pattern rs t (RefListTail ref) (qs', bs', p')
        | None \<Rightarrow> Inr (qs' @ [list_empty tail_id], bs', p')) else append_list_pattern rs elems tail (RefListTail ref) (qs', bs', p')) = Inr s'"
    using "19.prems"(2) by (auto simp: and_ok_Inr)
  have p: "producer_ok p" "ref_at w p ref x"
    using "19.prems"(1) by simp_all
  note sid = subject_id_at [OF p s1]
  note sid2 = subject_id_at [OF sid(1) ref_at_simps(3) [OF sid(6)] s2]
  have tail_at: "ref_at w p2 (RefListTail ref) (Option.bind x (rd_tail (w_reader w)))"
    using ref_at_later [OF sid(1) grows_later [OF sid2(2)] ref_at_simps(4) [OF sid(6)]] .
  note sid3 = subject_id_at [OF sid2(1) tail_at s3]
  have "denotes (subs_of p3) (RefListHead ref) head"
    using sid2(4) sid3(2) denotes_append by (auto simp: grows_def later_def simp del: denotes.simps)
  then have e1: "emitted w (qs, bs, p) (qs @ [list_cons subject head tail_id], bs, p3) (test (is_some_and x (rd_is_cons (w_reader w))))"
    using sid3(4)
    by (intro interned_question [OF "19.prems"(1) s1 sid3(1) grows_trans [OF sid2(2) sid3(2)], of _ "RegionList RegionCons" "[RefListHead ref, RefListTail ref]"])
      (auto simp del: denotes.simps)
  note r1 = ready_next [OF e1 "19.prems"(1)]
  have e2: "emitted w (qs @ [list_cons subject head tail_id], bs, p3) (qs', bs', p') (pat_match rs (w_reader w) (w_name w) elem (Option.bind x (rd_head (w_reader w))))"
    using r1 ref_at_simps(3) by (intro "19.IH"(1) [OF s1 _ s2 _ s3 _ _ elem]) auto
  note r2 = ready_next [OF e2 r1]
  have r3: "ready w (qs', bs', p') (RefListTail ref) (Option.bind x (rd_tail (w_reader w)))"
    using r2 ref_at_simps(4) by auto
  have e3: "emitted w (qs', bs', p') s' (list_match rs (w_reader w) (w_name w) elems tail (Option.bind x (rd_tail (w_reader w))))"
  proof (cases "elems = []")
    case False
    then show ?thesis
      using "19.IH"(3) [OF s1 _ s2 _ s3 _ elem _ _ False r3] rest by simp
  next
    case elems: True
    show ?thesis
    proof (cases tail)
      case (Some t)
      then show ?thesis
        using "19.IH"(2) [OF s1 _ s2 _ s3 _ elem _ _ elems Some r3] rest elems by simp
    next
      case None
      have later: "later p3 p'"
        using emitted_ok [OF e2] by simp
      have "known p' tail_id" "value_of w (subs_of p') tail_id = Option.bind x (rd_tail (w_reader w))"
        using known_later [OF sid3(1) later sid3(3)] sid3(3,5) value_of_later [OF later, of tail_id w] by (simp_all add: known_def)
      then have "emitted w (qs', bs', p') (qs' @ [list_empty tail_id], bs', p') (test (is_some_and (Option.bind x (rd_tail (w_reader w))) (rd_is_empty (w_reader w))))"
        using r2 by (intro emitted_ask q_okI [of _ tail_id _ "RegionList RegionEmpty"]) auto
      then show ?thesis
        using rest elems None by simp
    qed
  qed
  show ?case
    using emitted_seq [OF e1 emitted_seq [OF e2 e3]] by simp
next
  case (20 rs subject ref s)
  then show ?case
    by (cases s) (auto intro: emitted_none)
next
  case (21 rs subject key_pat val_pat entries ref qs bs p)
  obtain key value_id p1 s1 where key: "(map_key key_pat :: 'm SourcePatternError + _) = Inr key"
    and val: "(subject_id_of (RefMapValue ref key) (prepare_heap_key key p) :: 'm SourcePatternError + _) = Inr (value_id, p1)"
    and s1: "append_pattern rs val_pat (RefMapValue ref key) (qs @ [map_key_present subject key value_id], bs, p1) = Inr s1"
    and rest: "append_entries rs subject entries ref s1 = Inr s'"
    using "21.prems"(4) by (auto simp: and_ok_Inr)
  have p: "producer_ok (prepare_heap_key key p)" "ref_at w (prepare_heap_key key p) ref x"
    using "21.prems"(1) by simp_all
  note sid = subject_id_at [OF p(1) ref_at_simps(5) [OF p(2)] val]
  have grows: "grows p p1"
    using sid(2) by (rule grows_trans [OF prepare_heap_key_simps(2)])
  have later: "later p p1"
    using grows by (rule grows_later)
  have subj: "known p1 subject" "denotes (subs_of p1) ref subject"
    using "21.prems"(1-3) known_later [OF _ later] later denotes_append by (auto simp: later_def)
  have "value_of w (subs_of p1) subject = x"
    using denotes_value [OF subj(2), of "w_reader w" "w_input w" "w_pin w"] ref_at_later [OF _ later] "21.prems"(1)
    by (auto simp: ref_at_def value_of_def)
  then have e1: "emitted w (qs, bs, p) (qs @ [map_key_present subject key value_id], bs, p1) (test (is_some_and x (\<lambda>v. rd_map_get (w_reader w) key v \<noteq> None)))"
    using sid(1,3,4) subj grows denotes_root [OF sid(4)] denotes_root [OF subj(2)]
    by (intro emitted_ask q_okI [of _ subject _ "RegionMapKeyPresent key"]) (auto simp: known_def)
  note r1 = ready_next [OF e1 "21.prems"(1)]
  have e2: "emitted w (qs @ [map_key_present subject key value_id], bs, p1) s1 (pat_match rs (w_reader w) (w_name w) val_pat (Option.bind x (rd_map_get (w_reader w) key)))"
    using r1 ref_at_simps(5) by (intro "21.IH"(1) [OF key val _ _ s1]) auto
  have "known (state_of s1) subject \<and> denotes (subs_of (state_of s1)) ref subject"
    using e2 subj known_later denotes_append r1 by (cases s1) (fastforce simp: later_def dest!: emitted_ok)
  then have "emitted w s1 s' (entries_match rs (w_reader w) (w_name w) entries x)"
    using "21.IH"(2) [OF key val _ s1 ready_next [OF e2 r1] _ _ rest] by simp
  then show ?case
    using emitted_seq [OF e1 emitted_seq [OF e2]] key by simp
next
  case (22 rs ref s)
  then show ?case
    by (cases s) (auto intro: emitted_none)
next
  case (23 rs name pat field_pats ref s)
  obtain s1 where s1: "append_pattern rs pat (RefStructField ref name) s = Inr s1" and rest: "append_struct_fields rs field_pats ref s1 = Inr s'"
    using "23.prems"(2) by (auto simp: and_ok_Inr)
  have e1: "emitted w s s1 (pat_match rs (w_reader w) (w_name w) pat (Option.bind x (rd_struct_field (w_reader w) name)))"
    using "23.prems"(1) ref_at_simps(2) by (intro "23.IH"(1) [OF _ s1]) auto
  show ?case
    using emitted_seq [OF e1 "23.IH"(2) [OF s1 ready_next [OF e1 "23.prems"(1)] rest]] by simp
next
  case (24 rs ident idents field bits s)
  obtain s1 where s1: "append_pattern rs (bf_value field) (RefSubject ident) s = Inr s1" and rest: "append_bit_fields rs idents bits s1 = Inr s'"
    using "24.prems"(3) by (auto simp: and_ok_Inr)
  obtain y ys where xs: "xs = y # ys" "ref_at w (state_of s) (RefSubject ident) y" "list_all2 (\<lambda>ident. ref_at w (state_of s) (RefSubject ident)) idents ys"
    using "24.prems"(2) by (auto simp: list_all2_Cons1)
  have e1: "emitted w s s1 (pat_match rs (w_reader w) (w_name w) (bf_value field) y)"
    using "24.prems"(1) xs by (intro "24.IH"(1) [OF _ s1]) auto
  have "list_all2 (\<lambda>ident. ref_at w (state_of s1) (RefSubject ident)) idents ys" "producer_ok (state_of s1)"
    using xs(3) ready_next [OF e1] "24.prems"(1) xs(2) by (auto elim: list_all2_mono)
  then show ?case
    using emitted_seq [OF e1 "24.IH"(2) [OF s1 _ _ rest]] xs(1) by simp
qed (auto intro: emitted_none const_emits)

end
