(* ===== verification/Fz_PatternRows.thy ===== *)
theory Fz_PatternRows
  imports Fz_PatternProps
begin

text \<open>
  Rows and plans: the columns, preconditions and guard of a row emit the meaning of the row, the rows
  become the arms of the matrix in source order, and the plan decides for the first row that matches.
\<close>

section \<open>Columns, preconditions and guards\<close>

lemma append_columns_emits:
  assumes "producer_ok (state_of s)" and "append_columns rs pats ordinal s = Inr s'"
  shows "emitted w s s' (columns_match rs (w_reader w) (w_name w) pats ordinal (w_input w))"
  using assms
proof (induction pats arbitrary: ordinal s)
  case Nil
  then show ?case
    by (cases s) (auto intro: emitted_none)
next
  case (Cons pat pats)
  then obtain s1 where s1: "append_pattern rs pat (RefInput ordinal) s = Inr s1" and rest: "append_columns rs pats (ordinal + 1) s1 = Inr s'"
    by (auto simp: and_ok_Inr)
  have at: "ready w s (RefInput ordinal) (w_input w ordinal)"
    using Cons.prems(1) by (simp add: ref_at_def)
  have e1: "emitted w s s1 (pat_match rs (w_reader w) (w_name w) pat (w_input w ordinal))"
    using at s1 by (rule patterns_emit(1))
  show ?case
    using emitted_seq [OF e1 Cons.IH [OF _ rest]] ready_next [OF e1 at] by simp
qed

fun source_ref :: "PatternSubjectRef \<Rightarrow> bool" where
  "source_ref (RefInput n) = True"
| "source_ref (RefTupleField ref _) = source_ref ref"
| "source_ref (RefStructField ref _) = source_ref ref"
| "source_ref (RefListHead ref) = source_ref ref"
| "source_ref (RefListTail ref) = source_ref ref"
| "source_ref (RefMapValue ref _) = source_ref ref"
| "source_ref (RefSubject s) = False"

lemma source_ref_at: "source_ref ref \<Longrightarrow> ref_at w p ref (ref_value (w_reader w) (w_input w) (\<lambda>_. None) ref)"
  by (induction ref) (simp_all add: ref_at_def)

lemma append_preconditions_emits:
  assumes "producer_ok (state_of s)" and "list_all (\<lambda>(ref, _). source_ref ref) conds"
    and "(append_preconditions conds s :: 'm SourcePatternError + _) = Inr s'"
  shows "emitted w s s' (test (list_all (\<lambda>(ref, ty). is_some_and (ref_value (w_reader w) (w_input w) (\<lambda>_. None) ref) (rd_type (w_reader w) ty)) conds))"
  using assms
proof (induction conds arbitrary: s)
  case Nil
  then show ?case
    by (cases s) (auto intro: emitted_none simp: test_def)
next
  case (Cons cond conds)
  obtain ref ty qs bs p where c: "cond = (ref, ty)" "s = (qs, bs, p)"
    by (cases cond; cases s)
  obtain s1 where s1: "(ask ref (\<lambda>subject. type_region subject ty) (qs, bs, p) :: 'm SourcePatternError + _) = Inr s1"
    and rest: "(append_preconditions conds s1 :: 'm SourcePatternError + _) = Inr s'"
    using Cons.prems(3) by (auto simp: c and_ok_Inr)
  let ?x = "ref_value (w_reader w) (w_input w) (\<lambda>_. None) ref"
  have at: "ready w s ref ?x"
    using Cons.prems(1,2) source_ref_at [of ref w p] by (simp add: c)
  have e1: "emitted w s s1 (test (is_some_and ?x (rd_type (w_reader w) ty)))"
    using at s1 unfolding c by (intro ask_emits [of p w ref ?x "\<lambda>subject. type_region subject ty" qs bs s1 "RegionType ty"]) auto
  show ?case
    using emitted_seq [OF e1 Cons.IH [OF _ _ rest]] ready_next [OF e1 at] Cons.prems(2) by (simp add: c both_def test_def split: if_splits)
qed

lemma guard_call_cases:
  assumes "guard_expr_from_ast rs bindings pins (ExprCall target args) keys = Inr (ge, keys')"
  obtains callee inputs keys1 helper prepared where "rs_for_call rs target (length args) = Some callee"
    "guard_args_from_ast rs bindings pins args keys = Inr (inputs, keys1)" "rs_guard_call rs callee (length args) = Inr (Some helper)"
    "ge = GuardDispatch inputs prepared helper"
  using assms by (auto simp: and_ok_Inr Let_def case_prod_unfold split: option.splits)

lemma guard_expr_meaning:
  assumes names: "\<And>name s. bindings name = Some s \<Longrightarrow> names name = subj s"
    "\<And>name i. bindings name = None \<Longrightarrow> pins name = Some i \<Longrightarrow> names name = pv i"
  shows "guard_expr_from_ast rs bindings pins e keys = Inr (ge, keys') \<Longrightarrow> eval_guard g subj pv ge = guard_source rs g names e"
    and "guard_args_from_ast rs bindings pins es keys = Inr (ges, keys') \<Longrightarrow> map (eval_guard g subj pv) ges = map (guard_source rs g names) es"
  using names
proof (induction rs bindings pins e keys and rs bindings pins es keys arbitrary: ge keys' and ges keys' rule: guard_expr_from_ast_guard_args_from_ast.induct)
  case (12 rs bindings pins target args keys)
  then obtain callee inputs keys1 helper prepared where call: "rs_for_call rs target (length args) = Some callee"
      "guard_args_from_ast rs bindings pins args keys = Inr (inputs, keys1)" "rs_guard_call rs callee (length args) = Inr (Some helper)"
      "ge = GuardDispatch inputs prepared helper"
    by (elim guard_call_cases)
  have "map (eval_guard g subj pv) inputs = map (guard_source rs g names) args"
    using "12.IH" [OF call(1) call(2)] "12.prems" by blast
  then have "gather (map (eval_guard g subj pv) inputs) = gather (map (guard_source rs g names) args)"
    by (rule arg_cong)
  then show ?case
    by (simp add: call required_def)
qed (auto simp: and_ok_Inr required_def split: option.splits)

lemma guard_expr_leaves:
  shows "guard_expr_from_ast rs bindings pins e keys = Inr (ge, keys') \<Longrightarrow> LeafSubject s \<in> set (guard_leaves ge) \<Longrightarrow> s \<in> ran bindings"
    and "guard_args_from_ast rs bindings pins es keys = Inr (ges, keys') \<Longrightarrow> LeafSubject s \<in> set (concat (map guard_leaves ges)) \<Longrightarrow> s \<in> ran bindings"
proof (induction rs bindings pins e keys and rs bindings pins es keys arbitrary: ge keys' and ges keys' rule: guard_expr_from_ast_guard_args_from_ast.induct)
  case (12 rs bindings pins target args keys)
  then obtain callee inputs keys1 helper prepared where call: "rs_for_call rs target (length args) = Some callee"
      "guard_args_from_ast rs bindings pins args keys = Inr (inputs, keys1)" "ge = GuardDispatch inputs prepared helper"
    by (elim guard_call_cases)
  then show ?case
    using "12.IH" [OF call(1,2)] "12.prems"(2) by simp
next
  case (15 rs bindings pins arg args keys)
  then obtain ge keys1 ges' where g: "guard_expr_from_ast rs bindings pins arg keys = Inr (ge, keys1)"
      "guard_args_from_ast rs bindings pins args keys1 = Inr (ges', keys')" "ges = ge # ges'"
    by (auto simp: and_ok_Inr)
  then show ?case
    using "15.IH"(1) [OF g(1)] "15.IH"(2) [OF g(1) refl g(2)] "15.prems"(2) by auto
qed (auto simp: and_ok_Inr ran_def split: option.splits)

lemma guard_emits:
  fixes p :: "('t, 'h) PatternDispatchProducer"
  assumes "producer_ok p" and "\<forall>b \<in> set bs. known p (binding_source b)" and "append_guard rs guard (qs, bs, p) = Inr s'"
  shows "emitted w (qs, bs, p) s' (test (case guard of None \<Rightarrow> True
    | Some e \<Rightarrow> truthy (w_guard w) (guard_source rs (w_guard w) (guard_names (denoted w (subs_of p) bs) (w_name w)) e)))"
proof (cases guard)
  case None
  then show ?thesis
    using assms by (auto simp: append_guard_def test_def intro: emitted_none)
next
  case (Some e)
  define bound where "bound = fold (\<lambda>b names. names(binding_name b \<mapsto> binding_source b)) bs (\<lambda>_. None)"
  obtain expr keys where expr: "guard_expr_from_ast rs bound (pp_pinned_by_name p) e (pp_prepared_keys p) = Inr (expr, keys)"
    and s': "s' = (qs @ [RegionQuestion_new (RegionPredicate_new (pp_guard_subject p) (RegionGuard (length (pp_guards p))))], bs,
      p\<lparr> pp_prepared_keys := keys, pp_guards := pp_guards p @ [expr] \<rparr>)"
    using assms(3) Some by (auto simp: append_guard_def bound_def and_ok_Inr Let_def)
  let ?q = "RegionQuestion_new (RegionPredicate_new (pp_guard_subject p) (RegionGuard (length (pp_guards p)))) :: 't RegionQuestion"
  let ?p = "p\<lparr> pp_prepared_keys := keys, pp_guards := pp_guards p @ [expr] \<rparr>"
  have "fold (\<lambda>b names. names(binding_name b \<mapsto> binding_source b)) bs m = m ++ map_of (rev (map (\<lambda>b. (binding_name b, binding_source b)) bs))" for m
    by (induction bs arbitrary: m) (auto simp: map_add_def fun_eq_iff split: option.splits)
  then have bound: "bound = map_of (rev (map (\<lambda>b. (binding_name b, binding_source b)) bs))"
    by (simp add: bound_def)
  have names: "guard_names (denoted w (subs_of p) bs) (w_name w) name = (case bound name of Some s \<Rightarrow> value_of w (subs_of p) s | None \<Rightarrow> w_name w name)" for name
  proof -
    have "map_of (map (\<lambda>b. (binding_name b, value_of w (subs_of p) (binding_source b))) xs) name
        = map_option (value_of w (subs_of p)) (map_of (map (\<lambda>b. (binding_name b, binding_source b)) xs) name)" for xs :: "PatternDispatchBinding list"
      by (induction xs) auto
    then show ?thesis
      by (simp add: guard_names_def denoted_def bound rev_map split: option.split)
  qed
  have ok: "producer_ok ?p" "grows p ?p"
    using assms(1) by (auto simp: producer_ok_def grows_def later_def known_def)
  have "known p s" if "s \<in> ran bound" for s
    using that assms(2) by (auto simp: bound ran_def dest!: map_of_SomeD)
  then have "q_ok ?p ?q"
    using guard_expr_leaves(1) [OF expr] by (auto simp: q_ok_def list_all_iff leaf_ok_def known_def)
  moreover have "answers w ?p ?q = truthy (w_guard w) (guard_source rs (w_guard w) (guard_names (denoted w (subs_of p) bs) (w_name w)) e)"
    if "pins_agree w ?p"
  proof -
    have "w_pin w i = w_name w name" if "pp_pinned_by_name p name = Some i" for name i
      using \<open>pins_agree w ?p\<close> that assms(1) by (auto simp: pins_agree_def producer_ok_def)
    then have "eval_guard (w_guard w) (value_of w (subs_of p)) (w_pin w) expr
        = guard_source rs (w_guard w) (guard_names (denoted w (subs_of p) bs) (w_name w)) e"
      by (intro guard_expr_meaning(1) [OF _ _ expr]) (simp_all add: names)
    then show ?thesis
      by (simp add: answer_def)
  qed
  ultimately show ?thesis
    unfolding s' Some using ok by (intro emitted_ask) simp_all
qed

section \<open>Rows\<close>

definition row_done ::
  "('v, 'r, 't, 'h) Reading \<Rightarrow> ('m, 'x, 't, 'c, 'h) Resolver \<Rightarrow> ('t, 'h) PatternDispatchProducer \<Rightarrow> ('m, 'x, 't) PatternRow
     \<Rightarrow> 't DispatchArm \<times> PatternDispatchOutcome \<Rightarrow> bool" where
  "row_done w rs p row done \<longleftrightarrow> (case done of (arm, out) \<Rightarrow>
     (\<forall>q \<in> set (arm_questions arm). q_ok p q) \<and> ev_projections (arm_evidence arm) = [] \<and> po_body_id out = row_body_id row
     \<and> (\<forall>b \<in> set (po_bindings out). known p (binding_source b))
     \<and> (pins_agree w p \<longrightarrow> (case row_match rs (w_reader w) (w_guard w) (w_name w) (w_input w) row of
          None \<Rightarrow> \<exists>q \<in> set (arm_questions arm). \<not> answers w p q
        | Some found \<Rightarrow> (\<forall>q \<in> set (arm_questions arm). answers w p q) \<and> denoted w (subs_of p) (po_bindings out) = found)))"

lemma row_done_later:
  assumes "producer_ok p" and "later p p'" and "row_done w rs p row done"
  shows "row_done w rs p' row done"
proof -
  obtain arm out where d: "done = (arm, out)"
    by (cases "done")
  have qs: "\<forall>q \<in> set (arm_questions arm). q_ok p q" "\<forall>b \<in> set (po_bindings out). known p (binding_source b)"
    using assms(3) by (simp_all add: row_done_def d)
  have "\<forall>q \<in> set (arm_questions arm). q_ok p' q \<and> answers w p' q = answers w p q"
    using qs q_ok_later [OF assms(1) _ assms(2)] answers_later [OF _ assms(2)] by blast
  moreover have "\<forall>b \<in> set (po_bindings out). known p' (binding_source b)"
    using qs known_later [OF assms(1,2)] by blast
  moreover have "denoted w (subs_of p') (po_bindings out) = denoted w (subs_of p) (po_bindings out)"
    using denoted_later [OF assms(2) qs(2)] .
  ultimately show ?thesis
    using assms(3) pins_agree_later [OF assms(2), of w] by (auto simp: row_done_def d split: option.splits)
qed

definition rows_done ::
  "('v, 'r, 't, 'h) Reading \<Rightarrow> ('m, 'x, 't, 'c, 'h) Resolver \<Rightarrow> ('t, 'h) PatternDispatchProducer \<Rightarrow> ('m, 'x, 't) PatternRow list \<Rightarrow> bool" where
  "rows_done w rs p rows \<longleftrightarrow> producer_ok p \<and> length (pp_outcomes p) = length rows
     \<and> list_all2 (row_done w rs p) rows (zip (mb_arms (pp_builder p)) (pp_outcomes p))
     \<and> map arm_outcome (mb_arms (pp_builder p)) = [0..<length rows] \<and> map outcome_id (mb_outcomes (pp_builder p)) = [0..<length rows]"

lemma add_arm_questions_Inr:
  "add_arm_questions b qs ev outcome = Inr (i, b') \<Longrightarrow>
     b' = b\<lparr> mb_arms := mb_arms b @ [\<lparr> arm_id = length (mb_arms b), arm_questions = qs, arm_evidence = ev, arm_outcome = outcome \<rparr>],
            mb_outcome_uses := (mb_outcome_uses b)(outcome := mb_outcome_uses b outcome + 1) \<rparr>"
  by (auto simp: add_arm_questions_def Let_def split: sum.splits if_splits)

lemma row_emits:
  fixes w :: "('v, 'r, 't, 'h) Reading" and rs :: "('m, 'x, 't, 'c, 'h) Resolver"
  assumes "producer_ok p" and "list_all (\<lambda>(ref, _). source_ref ref) (row_preconditions row)"
    and s1: "append_columns rs (row_patterns row) 0 ([], [], p) = Inr s1"
    and s2: "(append_preconditions (row_preconditions row) s1 :: 'm SourcePatternError + _) = Inr s2"
    and s3: "append_guard rs (row_guard row) s2 = Inr (qs, bs, p')"
  shows "emitted w ([], [], p) (qs, bs, p') (row_match rs (w_reader w) (w_guard w) (w_name w) (w_input w) row)"
proof -
  let ?columns = "columns_match rs (w_reader w) (w_name w) (row_patterns row) 0 (w_input w)"
    and ?pre = "list_all (\<lambda>(ref, ty). is_some_and (ref_value (w_reader w) (w_input w) (\<lambda>_. None) ref) (rd_type (w_reader w) ty)) (row_preconditions row)"
  obtain qs2 bs2 p2 where s2': "s2 = (qs2, bs2, p2)"
    by (cases s2)
  have e1: "emitted w ([], [], p) s1 ?columns"
    using append_columns_emits [OF _ s1] assms(1) by simp
  have "producer_ok (state_of s1)"
    using e1 by (cases s1) (auto dest: emitted_ok)
  then have e12: "emitted w ([], [], p) (qs2, bs2, p2) (both ?columns (test ?pre))"
    using emitted_seq [OF e1 append_preconditions_emits [OF _ assms(2) s2]] by (simp add: s2')
  then have ok2: "producer_ok p2" "\<forall>b \<in> set bs2. known p2 (binding_source b)"
    and found: "\<And>B. pins_agree w p2 \<Longrightarrow> both ?columns (test ?pre) = Some B \<Longrightarrow> denoted w (subs_of p2) bs2 = B"
    by (auto simp: emitted_def)
  let ?guard = "\<lambda>B. case row_guard row of None \<Rightarrow> True | Some e \<Rightarrow> truthy (w_guard w) (guard_source rs (w_guard w) (guard_names B (w_name w)) e)"
  have e3: "emitted w (qs2, bs2, p2) (qs, bs, p') (test (?guard (denoted w (subs_of p2) bs2)))"
    using guard_emits [OF ok2] s3 by (simp add: s2')
  show ?thesis
  proof (rule emitted_cong [OF emitted_seq [OF e12 e3]])
    assume "pins_agree w p'"
    then have agree: "pins_agree w p2"
      using e3 pins_agree_later by (blast dest: emitted_ok)
    show "both (both ?columns (test ?pre)) (test (?guard (denoted w (subs_of p2) bs2)))
      = row_match rs (w_reader w) (w_guard w) (w_name w) (w_input w) row"
    proof (cases "both ?columns (test ?pre)")
      case None
      then show ?thesis
        by (cases ?columns) (auto simp: row_match_def both_def test_def split: if_splits)
    next
      case (Some B)
      then have "?columns = Some B" "?pre"
        by (cases ?columns; simp add: both_def test_def split: if_splits)+
      then show ?thesis
        using Some unfolding found [OF agree Some] by (simp add: row_match_def test_def both_def)
    qed
  qed
qed

lemma add_row_spec:
  fixes w :: "('v, 'r, 't, 'h) Reading" and rs :: "('m, 'x, 't, 'c, 'h) Resolver"
  assumes "producer_ok p" and "list_all (\<lambda>(ref, _). source_ref ref) (row_preconditions row)" and "add_row rs row p = Inr p'"
  obtains arm out where "mb_arms (pp_builder p') = mb_arms (pp_builder p) @ [arm]" "arm_outcome arm = length (mb_outcomes (pp_builder p))"
    "map outcome_id (mb_outcomes (pp_builder p')) = map outcome_id (mb_outcomes (pp_builder p)) @ [length (mb_outcomes (pp_builder p))]"
    "pp_outcomes p' = pp_outcomes p @ [out]" "producer_ok p'" "later p p'" "row_done w rs p' row (arm, out)"
proof -
  obtain s1 s2 qs bs p3 where s: "append_columns rs (row_patterns row) 0 ([], [], p) = Inr s1"
    "(append_preconditions (row_preconditions row) s1 :: 'm SourcePatternError + _) = Inr s2"
    "append_guard rs (row_guard row) s2 = Inr (qs, bs, p3)"
    and last: "(case add_arm_questions (snd (add_outcome (pp_builder p3) Unique)) qs EdgeEvidence_empty (length (mb_outcomes (pp_builder p3))) of
        Inl e \<Rightarrow> Inl (DispatchMatrixFailed e :: 'm SourcePatternError)
      | Inr (_, b') \<Rightarrow> Inr (p3\<lparr> pp_builder := b', pp_outcomes := pp_outcomes p3 @ [\<lparr> po_body_id = row_body_id row, po_bindings = bs \<rparr>] \<rparr>)) = Inr p'"
    using assms(3) by (auto simp: add_row_def and_ok_Inr add_outcome_def Let_def)
  then obtain i b' where arm: "add_arm_questions (snd (add_outcome (pp_builder p3) Unique)) qs EdgeEvidence_empty (length (mb_outcomes (pp_builder p3))) = Inr (i, b')"
    and p': "p' = p3\<lparr> pp_builder := b', pp_outcomes := pp_outcomes p3 @ [\<lparr> po_body_id = row_body_id row, po_bindings = bs \<rparr>] \<rparr>"
    by (auto split: sum.splits)
  note b' = add_arm_questions_Inr [OF arm]
  have e: "emitted w ([], [], p) (qs, bs, p3) (row_match rs (w_reader w) (w_guard w) (w_name w) (w_input w) row)"
    using row_emits [OF assms(1,2) s] .
  have p3: "producer_ok p3" "later p p3" "pp_outcomes p3 = pp_outcomes p" "mb_arms (pp_builder p3) = mb_arms (pp_builder p)"
    "mb_outcomes (pp_builder p3) = mb_outcomes (pp_builder p)"
    using e by (simp_all add: emitted_def grows_def)
  let ?arm = "\<lparr> arm_id = length (mb_arms (pp_builder p)), arm_questions = qs, arm_evidence = EdgeEvidence_empty, arm_outcome = length (mb_outcomes (pp_builder p)) \<rparr>"
    and ?out = "\<lparr> po_body_id = row_body_id row, po_bindings = bs \<rparr>"
  have "row_done w rs p3 row (?arm, ?out)"
    using e by (auto simp: emitted_def row_done_def EdgeEvidence_empty_def cong: option.case_cong)
  moreover have same: "subs_of p' = subs_of p3" "later p3 p'"
    by (simp_all add: p' b' add_outcome_def later_def Let_def)
  ultimately have "row_done w rs p' row (?arm, ?out)"
    using row_done_later [OF p3(1)] by blast
  moreover have "producer_ok p'"
    using p3(1) by (auto simp: producer_ok_def known_def p' b' add_outcome_def Let_def)
  moreover have "later p p'"
    using p3(2) same(2) by (rule later_trans)
  ultimately show thesis
    using that [of ?arm ?out] p3 by (simp add: p' b' add_outcome_def Let_def)
qed

lemma add_rows_done:
  assumes "rows_done w rs p done" and "\<forall>row \<in> set rows. list_all (\<lambda>(ref, _). source_ref ref) (row_preconditions row)"
    and "add_rows rs rows p = Inr p'"
  shows "rows_done w rs p' (done @ rows) \<and> later p p'"
  using assms
proof (induction rows arbitrary: p "done")
  case (Cons row rows)
  obtain p1 where p1: "add_row rs row p = Inr p1" and rest: "add_rows rs rows p1 = Inr p'"
    using Cons.prems(3) by (auto simp: and_ok_Inr)
  have p: "producer_ok p" and pre: "list_all (\<lambda>(ref, _). source_ref ref) (row_preconditions row)"
    using Cons.prems by (simp_all add: rows_done_def)
  show ?case
  proof (rule add_row_spec [OF p pre p1, of w])
    fix arm out
    assume facts: "mb_arms (pp_builder p1) = mb_arms (pp_builder p) @ [arm]" "arm_outcome arm = length (mb_outcomes (pp_builder p))"
      "map outcome_id (mb_outcomes (pp_builder p1)) = map outcome_id (mb_outcomes (pp_builder p)) @ [length (mb_outcomes (pp_builder p))]"
      "pp_outcomes p1 = pp_outcomes p @ [out]" "producer_ok p1" "later p p1" "row_done w rs p1 row (arm, out)"
    have lengths: "length (mb_outcomes (pp_builder p)) = length done" "length (mb_arms (pp_builder p)) = length done" "length (pp_outcomes p) = length done"
      using Cons.prems(1) by (auto simp: rows_done_def dest!: arg_cong [where f = length])
    have "list_all2 (row_done w rs p1) done (zip (mb_arms (pp_builder p)) (pp_outcomes p))"
      using Cons.prems(1) row_done_later [OF p facts(6), of w rs] by (auto simp: rows_done_def elim!: list_all2_mono)
    then have "rows_done w rs p1 (done @ [row])"
      using facts lengths Cons.prems(1) by (simp add: rows_done_def list_all2_appendI)
    then have "rows_done w rs p' ((done @ [row]) @ rows) \<and> later p1 p'"
      using Cons.prems(2) by (intro Cons.IH [OF _ _ rest]) simp_all
    then show ?thesis
      using later_trans [OF facts(6)] by simp
  qed
qed simp

section \<open>The first state\<close>

lemma add_inputs_spec:
  assumes "add_inputs ordinal n b subjects = (b', subjects')" and "length (mb_subjects b) = ordinal" "mb_input_count b = ordinal"
  shows "b' = b\<lparr> mb_subjects := mb_subjects b @ map (\<lambda>k. \<lparr> subject_id = k, subject_source = SubjectInput k \<rparr>) [ordinal..<ordinal + n], mb_input_count := ordinal + n \<rparr>
    \<and> subjects' = (\<lambda>ref. case ref of RefInput k \<Rightarrow> if ordinal \<le> k \<and> k < ordinal + n then Some k else subjects ref | _ \<Rightarrow> subjects ref)"
  using assms
proof (induction n arbitrary: ordinal b subjects)
  case 0
  then show ?case
    by (auto simp: fun_eq_iff split: PatternSubjectRef.split)
next
  case (Suc n)
  let ?b = "snd (add_input_subject b)"
  have b: "?b = b\<lparr> mb_input_count := ordinal + 1, mb_subjects := mb_subjects b @ [\<lparr> subject_id = ordinal, subject_source = SubjectInput ordinal \<rparr>] \<rparr>"
    using Suc.prems(2,3) by (simp add: add_input_subject_def Let_def)
  have "add_inputs (ordinal + 1) n ?b (subjects(RefInput ordinal \<mapsto> ordinal)) = (b', subjects')"
    using Suc.prems by (simp add: add_input_subject_def Let_def)
  from Suc.IH [OF this] show ?case
    using Suc.prems(2,3) by (auto simp: b upt_conv_Cons fun_eq_iff split: PatternSubjectRef.split)
qed

lemma pins_by_name_spec:
  "pins_by_name index pins names name = Some i \<Longrightarrow> names name = Some i \<or> (index \<le> i \<and> i < index + length pins \<and> pin_name (pins ! (i - index)) = name)"
proof (induction pins arbitrary: index names)
  case (Cons pin pins)
  from Cons.IH [OF Cons.prems [unfolded pins_by_name.simps]] show ?case
    by (auto split: if_splits simp: nth_Cons')
qed simp

lemma first_state_ok:
  fixes rs :: "('m, 'x, 't, 'c, 'h) Resolver"
  assumes "PatternDispatchProducer_new rs patterns = Inr p"
  shows "producer_ok p" and "pp_outcomes p = []" "mb_arms (pp_builder p) = []" "mb_outcomes (pp_builder p) = []"
    "pp_input_count p = sp_input_count patterns" "pp_prematch p = sp_prematch patterns"
proof -
  let ?n = "sp_input_count patterns" and ?pinned = "collect_pinned_names (rs_for_call rs) patterns"
  obtain b :: "'t DispatchMatrixBuilder" and subjects where bs: "add_inputs 0 ?n DispatchMatrixBuilder_typed (\<lambda>_. None) = (b, subjects)"
    by fastforce
  obtain guard b' where gb: "(case subjects (RefInput 0) of Some s \<Rightarrow> (s, b) | None \<Rightarrow> add_input_subject b) = (guard, b')"
    by fastforce
  have p: "p = \<lparr> pp_builder = b', pp_input_count = ?n, pp_prematch = sp_prematch patterns, pp_subjects = subjects,
      pp_guard_subject = guard, pp_pinned = ?pinned, pp_pinned_by_name = pins_by_name 0 ?pinned (\<lambda>_. None),
      pp_prepared_keys = [], pp_outcomes = [], pp_guards = [], pp_projections = (\<lambda>_. None) \<rparr>"
    using assms bs gb by (auto simp: PatternDispatchProducer_new_def and_ok_Inr Let_def)
  have b: "b = DispatchMatrixBuilder_typed\<lparr> mb_subjects := map (\<lambda>k. \<lparr> subject_id = k, subject_source = SubjectInput k \<rparr>) [0..<?n], mb_input_count := ?n \<rparr>"
    and subjects: "subjects = (\<lambda>ref. case ref of RefInput k \<Rightarrow> if k < ?n then Some k else None | _ \<Rightarrow> None)"
    using add_inputs_spec [OF bs] by (simp_all add: DispatchMatrixBuilder_typed_def fun_eq_iff split: PatternSubjectRef.split)
  obtain extra where extra: "mb_subjects b' = map (\<lambda>k. \<lparr> subject_id = k, subject_source = SubjectInput k \<rparr>) [0..<?n] @ extra"
      "\<forall>sub \<in> set extra. \<exists>i. subject_source sub = SubjectInput i" and arms: "mb_arms b' = []" "mb_outcomes b' = []"
    using gb by (auto simp: b subjects add_input_subject_def DispatchMatrixBuilder_typed_def Let_def split: if_splits)
  have source: "\<exists>i. subject_source (mb_subjects b' ! k) = SubjectInput i" if "k < length (mb_subjects b')" for k
    using that extra by (auto simp: nth_append)
  have inputs: "k < length (mb_subjects b') \<and> subject_source (mb_subjects b' ! k) = SubjectInput k \<and> subject_root (mb_subjects b') k = Some (Some k)" if "k < ?n" for k
    using that by (auto simp: extra nth_append subject_root.simps)
  have "subjects_ok (mb_subjects b')" "fields_ok (mb_subjects b')"
    using source by (fastforce simp: subjects_ok_def fields_ok_def)+
  moreover have "denotes (mb_subjects b') ref s \<and> known p s" if "subjects ref = Some s" for ref s
    using that inputs by (auto simp: subjects known_def p split: PatternSubjectRef.splits if_splits)
  moreover have "i < length ?pinned \<and> pin_name (?pinned ! i) = name" if "pins_by_name 0 ?pinned (\<lambda>_. None) name = Some i" for name i
    using pins_by_name_spec [OF that] by simp
  moreover have "\<forall>pin \<in> set ?pinned. pin_input pin = input_for (sp_prematch patterns) (pin_name pin)"
    by (auto simp: collect_pinned_names_def)
  ultimately show "producer_ok p"
    unfolding producer_ok_def by (simp add: p)
  show "pp_outcomes p = []" "mb_arms (pp_builder p) = []" "mb_outcomes (pp_builder p) = []"
    "pp_input_count p = sp_input_count patterns" "pp_prematch p = sp_prematch patterns"
    using arms by (simp_all add: p)
qed

lemma question_ok_q_ok:
  assumes "producer_ok p" and "q_ok p q"
  shows "question_ok (subs_of p) (plan_inputs p) q"
proof -
  have root: "root_known (subs_of p) (plan_inputs p) s" if "known p s" for s
    using that by (auto simp: known_def root_known_def plan_inputs_def)
  have "leaf_known (subs_of p) (plan_inputs p) l" if "leaf_ok p l" for l
    using that root by (cases l) (auto simp: leaf_ok_def)
  then show ?thesis
    using assms(2) root by (auto simp: q_ok_def question_ok_def projections_def plan_inputs_def list_all_iff split: Region.splits)
qed

lemma rows_matrix_ok:
  assumes "rows_done w rs p rows" and "\<And>name i. input_for (pp_prematch p) name = Some i \<Longrightarrow> i < pp_input_count p"
  shows "matrix_ok \<lparr> mx_subjects = subs_of p, mx_outcomes = mb_outcomes (pp_builder p), mx_arms = mb_arms (pp_builder p) \<rparr> (plan_inputs p)"
proof -
  have p: "producer_ok p"
    using assms(1) by (simp add: rows_done_def)
  have "arm_ok (subs_of p) (plan_inputs p) arm" if arm: "arm \<in> set (mb_arms (pp_builder p))" for arm
  proof -
    have len: "length (mb_arms (pp_builder p)) = length rows" "length (pp_outcomes p) = length rows"
      using assms(1) by (auto simp: rows_done_def dest!: arg_cong [where f = length])
    obtain i where i: "i < length rows" "mb_arms (pp_builder p) ! i = arm"
      using arm len by (auto simp: in_set_conv_nth)
    then have "row_done w rs p (rows ! i) (arm, pp_outcomes p ! i)"
      using assms(1) len by (auto simp: rows_done_def list_all2_conv_all_nth)
    then show ?thesis
      using question_ok_q_ok [OF p] by (auto simp: arm_ok_def row_done_def list_all_iff)
  qed
  moreover have "list_all (\<lambda>pin. case pin of Some i \<Rightarrow> i < in_count (plan_inputs p) | None \<Rightarrow> True) (in_pinned (plan_inputs p))"
    using p assms(2) by (auto simp: producer_ok_def plan_inputs_def list_all_iff split: option.split)
  ultimately show ?thesis
    using p by (simp add: matrix_ok_def producer_ok_def list_all_iff)
qed

lemma first_match_rows:
  assumes "list_all2 (row_done w rs p) rows (zip arms outs)" and "length arms = length rows" "length outs = length rows" and "pins_agree w p"
    and "map arm_outcome arms = [k..<k + length rows]"
  shows "first_match (answer w (pp_guards p) (subs_of p)) arms
    = map_option ((+) k) (first_row (row_match rs (w_reader w) (w_guard w) (w_name w) (w_input w)) rows)"
  using assms
proof (induction rows arbitrary: arms outs k)
  case (Cons row rows)
  then obtain arm arms' out outs' where c: "arms = arm # arms'" "outs = out # outs'"
    by (metis length_Suc_conv)
  have "arm_outcome arm = k" "map arm_outcome arms' = [Suc k..<Suc k + length rows]"
    using Cons.prems(5) by (simp_all add: c upt_conv_Cons del: upt_Suc)
  moreover have "all_hold (answer w (pp_guards p) (subs_of p)) (arm_questions arm) \<longleftrightarrow> row_match rs (w_reader w) (w_guard w) (w_name w) (w_input w) row \<noteq> None"
    using Cons.prems(1,4) by (auto simp: c row_done_def all_hold_def split: option.splits)
  ultimately show ?case
    using Cons.IH [of arms' outs' "Suc k"] Cons.prems
    by (auto simp: c option.map_comp comp_def)
qed simp

section \<open>Plans\<close>

definition rows_wf :: "('m, 'x, 't) SourcePatternRows \<Rightarrow> bool" where
  "rows_wf patterns \<longleftrightarrow> (\<forall>row \<in> set (sp_rows patterns). list_all (\<lambda>(ref, _). source_ref ref) (row_preconditions row))
     \<and> (\<forall>name i. input_for (sp_prematch patterns) name = Some i \<longrightarrow> i < sp_input_count patterns)"

definition pin_of :: "(nat \<Rightarrow> 'v option) \<Rightarrow> (string \<Rightarrow> 'v option) \<Rightarrow> Prematch \<Rightarrow> string \<Rightarrow> 'v option" where
  "pin_of inp lexical prematch name = (case input_for prematch name of Some i \<Rightarrow> inp i | None \<Rightarrow> lexical name)"

text \<open>What a run of a plan reads: the inputs, and for every pin the input it names or the value in scope.\<close>

definition plan_reading ::
  "('v, 'r, 't) Reader \<Rightarrow> ('v, 'h) GuardOps \<Rightarrow> (nat \<Rightarrow> 'v option) \<Rightarrow> (string \<Rightarrow> 'v option) \<Rightarrow> ('m, 'x, 't) SourcePatternRows
     \<Rightarrow> ('t, 'h) PatternDispatchPlan \<Rightarrow> ('v, 'r, 't, 'h) Reading" where
  "plan_reading r g inp lexical patterns plan =
     \<lparr> w_reader = r, w_guard = g, w_input = inp,
       w_pin = (\<lambda>i. if i < length (plan_pinned plan)
                    then (case pin_input (plan_pinned plan ! i) of Some k \<Rightarrow> inp k | None \<Rightarrow> lexical (pin_name (plan_pinned plan ! i))) else None),
       w_name = pin_of inp lexical (sp_prematch patterns) \<rparr>"

lemma producer_finish_plan:
  fixes p :: "('t, 'h) PatternDispatchProducer"
  assumes "rows_done w rs p rows" and "\<And>name i. input_for (pp_prematch p) name = Some i \<Longrightarrow> i < pp_input_count p"
    and "undefined_pins (pp_prematch p) (pp_pinned p) = []"
  obtains graph where "producer_finish p = Some (Inr \<lparr> plan_graph = graph, plan_input_count = pp_input_count p, plan_outcomes = pp_outcomes p,
      plan_guards = pp_guards p, plan_pinned = pp_pinned p, plan_prepared_keys = pp_prepared_keys p \<rparr>)"
    and "graph_subjects graph = subs_of p"
    and "\<And>ans res. decides (graph_nodes graph) ans (graph_root graph) res \<longleftrightarrow> res = first_match ans (mb_arms (pp_builder p))"
proof (rule compile_ordered_arms_graph [OF rows_matrix_ok [OF assms(1,2)]])
  fix root and b :: "'t DispatchGraphBuilder" and st
  let ?matrix = "\<lparr> mx_subjects = subs_of p, mx_outcomes = mb_outcomes (pp_builder p), mx_arms = mb_arms (pp_builder p) \<rparr>"
  let ?graph = "\<lparr> graph_subjects = subs_of p, graph_nodes = gb_nodes b, graph_root = root, graph_input_demand = gb_input_demand b \<rparr>"
  assume c: "compile_dispatch_matrix ?matrix (plan_inputs p) = Some (Inr \<lparr> compiled_graph = \<lparr> graph_subjects = mx_subjects ?matrix,
      graph_nodes = gb_nodes b, graph_root = root, graph_input_demand = gb_input_demand b \<rparr>, compiled_stats = st \<rparr>)"
    and first: "\<And>ans. decides (gb_nodes b) ans root (first_match ans (mx_arms ?matrix))"
  have ids: "map outcome_id (mb_outcomes (pp_builder p)) = [0..<length (pp_outcomes p)]"
    using assms(1) by (simp add: rows_done_def)
  then have len: "length (mb_outcomes (pp_builder p)) = length (pp_outcomes p)"
    by (metis length_map length_upt diff_zero)
  have "outcome_id (mb_outcomes (pp_builder p) ! i) = i" if "i < length (mb_outcomes (pp_builder p))" for i
    using that ids len by (metis nth_map add_0 nth_upt)
  then have "list_all (\<lambda>(index, outcome). outcome_id outcome = index) (enumerate 0 (mb_outcomes (pp_builder p)))"
    by (auto simp: list_all_length nth_enumerate_eq)
  then have "producer_finish p = Some (Inr \<lparr> plan_graph = ?graph, plan_input_count = pp_input_count p, plan_outcomes = pp_outcomes p,
      plan_guards = pp_guards p, plan_pinned = pp_pinned p, plan_prepared_keys = pp_prepared_keys p \<rparr>)"
    using assms(3) len c by (simp add: producer_finish_def DispatchMatrixBuilder_build_def)
  moreover have "decides (gb_nodes b) ans root res \<longleftrightarrow> res = first_match ans (mb_arms (pp_builder p))" for ans res
  proof
    assume "decides (gb_nodes b) ans root res"
    then show "res = first_match ans (mb_arms (pp_builder p))"
      using decides_unique [OF first [of ans]] by simp
  next
    assume "res = first_match ans (mb_arms (pp_builder p))"
    then show "decides (gb_nodes b) ans root res"
      using first [of ans] by simp
  qed
  ultimately show thesis
    using that [of ?graph] by simp
qed

lemma plus_0_map: "map_option ((+) 0) x = (x :: nat option)"
  by (cases x) simp_all

lemma first_rows_done:
  assumes "PatternDispatchProducer_new rs patterns = Inr p"
  shows "rows_done w rs p []"
  using first_state_ok [OF assms] by (simp add: rows_done_def)

lemma added_rows:
  assumes "rows_wf patterns" and "PatternDispatchProducer_new rs patterns = Inr p0" and "add_rows rs (sp_rows patterns) p0 = Inr p"
  shows "rows_done w rs p (sp_rows patterns)" "pp_prematch p = sp_prematch patterns" "pp_input_count p = sp_input_count patterns"
proof -
  have "\<forall>row \<in> set (sp_rows patterns). list_all (\<lambda>(ref, _). source_ref ref) (row_preconditions row)"
    using assms(1) by (simp add: rows_wf_def)
  note rows = add_rows_done [OF first_rows_done [OF assms(2)] this assms(3), of w]
  then show "rows_done w rs p (sp_rows patterns)"
    by simp
  show "pp_prematch p = sp_prematch patterns" "pp_input_count p = sp_input_count patterns"
    using rows first_state_ok(5,6) [OF assms(2)] by (auto simp: later_def)
qed

lemma plan_reading_agrees:
  assumes "rows_done w rs p rows" and "pp_prematch p = sp_prematch patterns" "plan_pinned plan = pp_pinned p"
  shows "pins_agree (plan_reading r g inp lexical patterns plan) p"
  using assms by (auto simp: pins_agree_def plan_reading_def pin_of_def rows_done_def producer_ok_def cong: option.case_cong)

lemma plan_exists:
  assumes "rows_wf patterns" and "PatternDispatchProducer_new rs patterns = Inr p0" and "add_rows rs (sp_rows patterns) p0 = Inr p"
    and "undefined_pins (sp_prematch patterns) (pp_pinned p) = []"
  shows "\<exists>plan. pattern_dispatch_from_source_with_resolver rs patterns = Some (Inr plan)"
proof -
  note rows = added_rows [OF assms(1-3)]
  have inputs: "\<And>name i. input_for (pp_prematch p) name = Some i \<Longrightarrow> i < pp_input_count p"
    using assms(1) rows(2,3) by (simp add: rows_wf_def)
  show ?thesis
    by (rule producer_finish_plan [OF rows(1) inputs]) (use assms rows in \<open>auto simp: pattern_dispatch_from_source_with_resolver_def\<close>)
qed

lemma plan_compiled:
  assumes "pattern_dispatch_from_source_with_resolver rs patterns = Some (Inr plan)"
  obtains p0 p c where "PatternDispatchProducer_new rs patterns = Inr p0" "add_rows rs (sp_rows patterns) p0 = Inr p"
    "compile_dispatch_matrix \<lparr> mx_subjects = subs_of p, mx_outcomes = mb_outcomes (pp_builder p), mx_arms = mb_arms (pp_builder p) \<rparr> (plan_inputs p) = Some (Inr c)"
    "plan_graph plan = compiled_graph c" "plan_guards plan = pp_guards p" "plan_pinned plan = pp_pinned p"
  using assms
  by (auto simp: pattern_dispatch_from_source_with_resolver_def producer_finish_def DispatchMatrixBuilder_build_def
      split: sum.splits if_splits Option.bind_splits)

text \<open>
  C6.  Source patterns are compiled correctly.  For rows whose preconditions name parts of the inputs and whose
  pins name inputs, the producer never panics: it answers a plan, or an error of the source rows.  The graph of a
  plan decides, on any inputs and however values are read, for the first row in source order whose patterns match,
  whose preconditions hold and whose guard is true under the row's own bindings and the captured names, and it
  fails exactly when no row does.  A row's outcome carries the row's body, and the bindings of a row that matches
  denote what its patterns bound, name by name in source order.
\<close>

theorem source_rows_first_match:
  fixes r :: "('v, 'r, 't) Reader" and rs :: "('m, 'x, 't, 'c, 'h) Resolver"
  assumes "rows_wf patterns"
  shows "\<exists>res. pattern_dispatch_from_source_with_resolver rs patterns = Some res \<and> (case res of
      Inl e \<Rightarrow> \<exists>err. e = SourcePatternFailed err
    | Inr plan \<Rightarrow>
        let rows = sp_rows patterns; w = plan_reading r g inp lexical patterns plan; subjects = graph_subjects (plan_graph plan);
            meaning = row_match rs r g (pin_of inp lexical (sp_prematch patterns)) inp
        in (\<forall>res. decides (graph_nodes (plan_graph plan)) (answer w (plan_guards plan) subjects) (graph_root (plan_graph plan)) res
              \<longleftrightarrow> res = first_row meaning rows)
           \<and> length (plan_outcomes plan) = length rows
           \<and> (\<forall>i < length rows. plan_body_id plan i = Some (row_body_id (rows ! i))
                \<and> (\<forall>found. meaning (rows ! i) = Some found \<longrightarrow> denoted w subjects (po_bindings (plan_outcomes plan ! i)) = found)))"
proof (cases "\<exists>p0 p. PatternDispatchProducer_new rs patterns = Inr p0 \<and> add_rows rs (sp_rows patterns) p0 = Inr p")
  case False
  then show ?thesis
    by (auto simp: pattern_dispatch_from_source_with_resolver_def split: sum.split)
next
  case True
  then obtain p0 p where p: "PatternDispatchProducer_new rs patterns = Inr p0" "add_rows rs (sp_rows patterns) p0 = Inr p"
    by blast
  then have whole: "pattern_dispatch_from_source_with_resolver rs patterns = producer_finish p"
    by (simp add: pattern_dispatch_from_source_with_resolver_def)
  note rows = added_rows [OF assms p]
  show ?thesis
  proof (cases "undefined_pins (pp_prematch p) (pp_pinned p) = []")
    case False
    then show ?thesis
      by (simp add: whole producer_finish_def)
  next
    case True
    have inputs: "\<And>name i. input_for (pp_prematch p) name = Some i \<Longrightarrow> i < pp_input_count p"
      using assms rows(2,3) by (simp add: rows_wf_def)
    show ?thesis
    proof (rule producer_finish_plan [OF rows(1) inputs True])
      fix graph :: "'t DispatchGraph"
      let ?plan = "\<lparr> plan_graph = graph, plan_input_count = pp_input_count p, plan_outcomes = pp_outcomes p,
        plan_guards = pp_guards p, plan_pinned = pp_pinned p, plan_prepared_keys = pp_prepared_keys p \<rparr>"
      let ?w = "plan_reading r g inp lexical patterns ?plan"
      assume finish: "producer_finish p = Some (Inr ?plan :: 'm PatternDispatchError + _)" and subjects: "graph_subjects graph = subs_of p"
        and first: "\<And>ans res. decides (graph_nodes graph) ans (graph_root graph) res \<longleftrightarrow> res = first_match ans (mb_arms (pp_builder p))"
      have w: "w_reader ?w = r" "w_guard ?w = g" "w_input ?w = inp" "w_name ?w = pin_of inp lexical (sp_prematch patterns)"
        by (simp_all add: plan_reading_def)
      have agree: "pins_agree ?w p"
        by (rule plan_reading_agrees [OF rows(1,2)]) simp
      note rd = rows(1) [of ?w, unfolded rows_done_def]
      then have len: "length (mb_arms (pp_builder p)) = length (sp_rows patterns)" "length (pp_outcomes p) = length (sp_rows patterns)"
        by (auto dest!: arg_cong [where f = length])
      have "first_match (answer ?w (pp_guards p) (subs_of p)) (mb_arms (pp_builder p))
          = first_row (row_match rs r g (pin_of inp lexical (sp_prematch patterns)) inp) (sp_rows patterns)"
        using first_match_rows [of ?w rs p "sp_rows patterns" _ _ 0, OF _ len agree] rd w by (simp add: option.map_ident plus_0_map)
      moreover have "po_body_id (pp_outcomes p ! i) = row_body_id (sp_rows patterns ! i)"
        "\<And>found. row_match rs r g (pin_of inp lexical (sp_prematch patterns)) inp (sp_rows patterns ! i) = Some found
          \<Longrightarrow> denoted ?w (subs_of p) (po_bindings (pp_outcomes p ! i)) = found" if "i < length (sp_rows patterns)" for i
      proof -
        have "row_done ?w rs p (sp_rows patterns ! i) (mb_arms (pp_builder p) ! i, pp_outcomes p ! i)"
          using rd that len by (auto simp: list_all2_conv_all_nth)
        then show "po_body_id (pp_outcomes p ! i) = row_body_id (sp_rows patterns ! i)"
          "\<And>found. row_match rs r g (pin_of inp lexical (sp_prematch patterns)) inp (sp_rows patterns ! i) = Some found
            \<Longrightarrow> denoted ?w (subs_of p) (po_bindings (pp_outcomes p ! i)) = found"
          using agree w by (simp_all add: row_done_def)
      qed
      ultimately show ?thesis
        using finish subjects first len by (simp add: whole plan_body_id_def plan_outcome_def)
    qed
  qed
qed

text \<open>Two rows: a tagged pair whose payload is true, then anything.\<close>

definition tagged_rows :: "(unit, unit, unit) SourcePatternRows" where
  "tagged_rows = SourcePatternRows_lexical 1
     [\<lparr> row_patterns = [PatTuple [PatAtom ''ok'', PatVar ''n'']], row_preconditions = [], row_guard = Some (ExprVar ''n''), row_body_id = 0 \<rparr>,
      \<lparr> row_patterns = [PatVar ''x''], row_preconditions = [], row_guard = None, row_body_id = 1 \<rparr>]"

definition no_resolver :: "(unit, unit, unit, unit, unit) Resolver" where
  "no_resolver = \<lparr> rs_struct_type = (\<lambda>m. Inl (UnresolvedStruct m)), rs_for_call = (\<lambda>_ _. None), rs_guard_call = (\<lambda>_ _. Inr None), rs_helper_keys = (\<lambda>_. []) \<rparr>"

definition small_guard :: "(small_term, unit) GuardOps" where
  "small_guard = \<lparr> gd_const = (\<lambda>_. None), gd_falsy = (\<lambda>v. v = Num 0), gd_bool = (\<lambda>b. if b then Num 1 else Num 0), gd_neg = (\<lambda>_. None),
     gd_int = (\<lambda>v. case v of Num n \<Rightarrow> Some (int n) | _ \<Rightarrow> None), gd_of_int = (\<lambda>n. Num (nat n)), gd_eq = (\<lambda>v u. Some (v = u)), gd_cmp = (\<lambda>_ _. None),
     gd_helper = (\<lambda>_ _. Inl NoMatch) \<rparr>"

lemma tagged_rows_wf: "rows_wf tagged_rows"
  by (simp add: rows_wf_def tagged_rows_def SourcePatternRows_lexical_def)

lemmas producer_defs = PatternDispatchProducer_new_def validate_source_rows_def DispatchMatrixBuilder_typed_def add_input_subject_def add_row_def
  append_guard_def ask_def bind_name_def const_question_def known_or_def mint_subject_def add_projected_subject_def ensure_subject_def
  add_outcome_def add_arm_questions_def ensure_question_subjects_def ensure_evidence_subjects_def ensure_projection_def ensure_outcome_def
  collect_pinned_names_def collect_row_names_def record_pinned_name_def

lemma tagged_plan: "\<exists>plan. pattern_dispatch_from_source_with_resolver no_resolver tagged_rows = Some (Inr plan)"
proof -
  have "\<exists>p0 p. PatternDispatchProducer_new no_resolver tagged_rows = Inr p0 \<and> add_rows no_resolver (sp_rows tagged_rows) p0 = Inr p"
    by (simp add: tagged_rows_def SourcePatternRows_lexical_def no_resolver_def producer_defs question_defs)
  then show ?thesis
    using plan_exists [OF tagged_rows_wf] by (auto simp: tagged_rows_def SourcePatternRows_lexical_def)
qed

theorem source_rows_first_match_witness:
  "\<exists>plan. pattern_dispatch_from_source_with_resolver no_resolver tagged_rows = Some (Inr plan)
    \<and> (let w = plan_reading small_reader small_guard (\<lambda>_. Some (Tup [Num 0, Num 5])) (\<lambda>_. None) tagged_rows plan
       in decides (graph_nodes (plan_graph plan)) (answer w (plan_guards plan) (graph_subjects (plan_graph plan))) (graph_root (plan_graph plan)) (Some 0)
         \<and> denoted w (graph_subjects (plan_graph plan)) (po_bindings (plan_outcomes plan ! 0)) = [(''n'', Some (Num 5))])
    \<and> decides (graph_nodes (plan_graph plan))
        (answer (plan_reading small_reader small_guard (\<lambda>_. Some (Tup [Num 0, Num 0])) (\<lambda>_. None) tagged_rows plan) (plan_guards plan) (graph_subjects (plan_graph plan)))
        (graph_root (plan_graph plan)) (Some 1)"
proof -
  obtain plan where plan: "pattern_dispatch_from_source_with_resolver no_resolver tagged_rows = Some (Inr plan)"
    using tagged_plan by blast
  have rows: "length (sp_rows tagged_rows) = 2"
    by (simp add: tagged_rows_def SourcePatternRows_lexical_def)
  have yes: "row_match no_resolver small_reader small_guard (pin_of (\<lambda>_. Some (Tup [Num 0, Num 5])) (\<lambda>_. None) (sp_prematch tagged_rows)) (\<lambda>_. Some (Tup [Num 0, Num 5]))
      (sp_rows tagged_rows ! 0) = Some [(''n'', Some (Num 5))]"
    by (simp add: row_match_def tagged_rows_def SourcePatternRows_lexical_def small_reader_def small_guard_def test_def both_def is_some_and_def truthy_def guard_names_def required_def)
  have no: "first_row (row_match no_resolver small_reader small_guard (pin_of (\<lambda>_. Some (Tup [Num 0, Num 0])) (\<lambda>_. None) (sp_prematch tagged_rows)) (\<lambda>_. Some (Tup [Num 0, Num 0])))
      (sp_rows tagged_rows) = Some 1"
    by (simp add: row_match_def tagged_rows_def SourcePatternRows_lexical_def small_reader_def small_guard_def test_def both_def is_some_and_def truthy_def guard_names_def required_def)
  have "first_row (row_match no_resolver small_reader small_guard (pin_of (\<lambda>_. Some (Tup [Num 0, Num 5])) (\<lambda>_. None) (sp_prematch tagged_rows)) (\<lambda>_. Some (Tup [Num 0, Num 5])))
      (sp_rows tagged_rows) = Some 0"
    using yes rows by (cases "sp_rows tagged_rows") simp_all
  then show ?thesis
    using source_rows_first_match [OF tagged_rows_wf, of no_resolver small_reader small_guard "\<lambda>_. Some (Tup [Num 0, Num 5])" "\<lambda>_. None"]
      source_rows_first_match [OF tagged_rows_wf, of no_resolver small_reader small_guard "\<lambda>_. Some (Tup [Num 0, Num 0])" "\<lambda>_. None"] plan yes no rows
    by (simp add: Let_def)
qed

end
