(* ===== verification/Fz_Exhaustive.thy ===== *)
theory Fz_Exhaustive
  imports Fz_PatternRows
begin

text \<open>
  The exhaustiveness check (\<open>pattern/source.rs\<close>): the search for a reachable failure node ends on every
  compiled plan, and it answers exactly whether some row matches without asking anything.
\<close>

section \<open>Failure through a graph\<close>

inductive may_fail :: "'t DispatchNode list \<Rightarrow> GraphNodeId \<Rightarrow> bool" for nodes where
  here: "n < length nodes \<Longrightarrow> nodes ! n = NodeFail \<Longrightarrow> may_fail nodes n"
| on_match: "n < length nodes \<Longrightarrow> nodes ! n = NodeTest p yes no \<Longrightarrow> may_fail nodes (edge_target yes) \<Longrightarrow> may_fail nodes n"
| on_miss: "n < length nodes \<Longrightarrow> nodes ! n = NodeTest p yes no \<Longrightarrow> may_fail nodes (edge_target no) \<Longrightarrow> may_fail nodes n"

inductive_cases may_failE: "may_fail nodes n"

lemma may_fail_prefix:
  assumes "may_fail (xs @ ys) n" and "acyclic_nodes xs" and "n < length xs"
  shows "may_fail xs n"
  using assms(1,3)
proof (induction rule: may_fail.induct)
  case (here n)
  then show ?case
    by (auto intro: may_fail.here simp: nth_append)
next
  case (on_match n p yes no)
  then have "edge_target yes < n" "xs ! n = NodeTest p yes no"
    using assms(2) by (auto simp: acyclic_nodes_def nth_append below_def dest!: spec [of _ n])
  then show ?case
    using on_match by (auto intro: may_fail.on_match)
next
  case (on_miss n p yes no)
  then have "edge_target no < n" "xs ! n = NodeTest p yes no"
    using assms(2) by (auto simp: acyclic_nodes_def nth_append below_def dest!: spec [of _ n])
  then show ?case
    using on_miss by (auto intro: may_fail.on_miss)
qed

lemma decides_may_fail: "decides nodes ans n r \<Longrightarrow> r = None \<Longrightarrow> may_fail nodes n"
  by (induction rule: decides.induct) (auto intro: may_fail.intros)

lemma test_node_may_fail:
  assumes test: "test_node q yes no s = Some (n, s')" and "acyclic_nodes (nodes_of s)" "yes < length (nodes_of s)" "no < length (nodes_of s)"
    and "may_fail (nodes_of s') n"
  shows "may_fail (nodes_of s) yes \<or> may_fail (nodes_of s) no"
proof -
  note n = test_node_spec [OF test]
  from assms(5) have "may_fail (nodes_of s') yes \<or> may_fail (nodes_of s') no"
    by (rule may_failE) (auto simp: n into_test_node_def with_evidence_def)
  then show ?thesis
    using may_fail_prefix [OF _ assms(2,3)] may_fail_prefix [OF _ assms(2,4)] by (auto simp: n)
qed

lemma test_chain_may_fail:
  assumes "test_chain qs current on_miss s = Some (n, s')" and "acyclic_nodes (nodes_of s)" "current < length (nodes_of s)" "on_miss < length (nodes_of s)"
    and "may_fail (nodes_of s') n"
  shows "may_fail (nodes_of s) current \<or> may_fail (nodes_of s) on_miss"
  using assms
proof (induction qs arbitrary: current s)
  case (Cons q qs)
  obtain c t where t: "test_node q current on_miss s = Some (c, t)" and rest: "test_chain qs c on_miss t = Some (n, s')"
    using Cons.prems(1) by (auto split: Option.bind_splits)
  note spec = test_node_spec [OF t]
  have "may_fail (nodes_of t) c \<or> may_fail (nodes_of t) on_miss"
    using Cons.IH [OF rest test_node_acyclic [OF t Cons.prems(3,4,2)]] spec Cons.prems(4,5) by simp
  then show ?case
    using test_node_may_fail [OF t Cons.prems(2-4)] may_fail_prefix [OF _ Cons.prems(2,4)] by (auto simp: spec)
qed simp

lemma outcome_node_may_fail:
  assumes "outcome_node arm s = Some (n, s')"
  shows "\<not> may_fail (nodes_of s') n \<and> n < length (nodes_of s')"
proof -
  have n: "n < length (nodes_of s')" "nodes_of s' ! n = NodeOutcome (arm_outcome arm) (arm_evidence arm)"
    using assms by (auto simp: outcome_node_def split: prod.splits Option.bind_splits dest!: add_node_nodes)
  have "\<not> may_fail (nodes_of s') n"
  proof
    assume "may_fail (nodes_of s') n"
    then show False
      by (rule may_failE) (simp_all add: n)
  qed
  then show ?thesis
    using n by simp
qed

lemma compile_single_arm_may_fail:
  assumes "compile_single_arm arm on_miss s = Some (n, s')" and "acyclic_nodes (nodes_of s)" "on_miss < length (nodes_of s)" "may_fail (nodes_of s') n"
  shows "may_fail (nodes_of s) on_miss"
proof -
  obtain c t where o: "outcome_node (acs_arm arm) s = Some (c, t)" and chain: "test_chain (rev (acs_questions arm)) c on_miss t = Some (n, s')"
    using assms(1) by (auto simp: compile_single_arm_def split: Option.bind_splits)
  obtain new where t: "nodes_of t = nodes_of s @ new" "acyclic_nodes (nodes_of t)"
    using outcome_node_compiles [OF o, of on_miss] assms(2) by (auto simp: compiles_def)
  have "may_fail (nodes_of t) on_miss"
    using test_chain_may_fail [OF chain t(2) _ _ assms(4)] outcome_node_may_fail [OF o] assms(3) t(1) by auto
  then show ?thesis
    using may_fail_prefix [OF _ assms(2,3)] by (simp add: t(1))
qed

text \<open>Failure is reached from a compiled sequence only through its fallback, past arms that all ask something.\<close>

lemma compile_arm_sequence_may_fail:
  assumes "compile_arm_sequence arms fallback s = Some (n, s')" and "acyclic_nodes (nodes_of s)" "fallback < length (nodes_of s)" "may_fail (nodes_of s') n"
  shows "(\<forall>a \<in> set arms. acs_questions a \<noteq> []) \<and> may_fail (nodes_of s) fallback"
  using assms
proof (induction arms fallback s arbitrary: n s' rule: compile_arm_sequence.induct)
  case (2 first rest fallback s)
  show ?case
  proof (cases "acs_questions first")
    case Nil
    then show ?thesis
      using "2.prems"(1,4) outcome_node_may_fail by fastforce
  next
    case (Cons q qs)
    define shared where "shared = takeWhile (asks_first q) (first # rest)"
    have unfold: "compile_arm_sequence (first # rest) fallback s =
      (if 1 < length shared then
         (case s of (b, st) \<Rightarrow>
            do { (after_shared, s1) \<leftarrow> compile_arm_sequence (drop (length shared) (first # rest)) fallback
                   (b, st\<lparr> st_shared_prefix_tests := st_shared_prefix_tests st + 1 \<rparr>);
                 (on_match, s2) \<leftarrow> compile_arm_sequence (map strip_first shared) after_shared s1;
                 test_node q on_match after_shared s2 })
       else do { (on_miss, s1) \<leftarrow> compile_arm_sequence rest fallback s; compile_single_arm first on_miss s1 })"
      unfolding compile_arm_sequence.simps(2) Cons list.case Let_def shared_def by (rule refl)
    show ?thesis
    proof (cases "1 < length shared")
      case True
      obtain b st where s: "s = (b, st)"
        by (cases s)
      let ?s = "(b, st\<lparr> st_shared_prefix_tests := st_shared_prefix_tests st + 1 \<rparr>)" and ?rest = "drop (length shared) (first # rest)"
      obtain after s1 on_match s2 where c1: "compile_arm_sequence ?rest fallback ?s = Some (after, s1)"
        and c2: "compile_arm_sequence (map strip_first shared) after s1 = Some (on_match, s2)"
        and c3: "test_node q on_match after s2 = Some (n, s')"
        using "2.prems"(1) True unfolding unfold unfolding s by (auto split: Option.bind_splits)
      have s1: "acyclic_nodes (nodes_of s1)" "after < length (nodes_of s1)"
        using compile_arm_sequence_compiles [OF c1] "2.prems"(2,3) s by (auto simp: compiles_def)
      have s2: "acyclic_nodes (nodes_of s2)" "on_match < length (nodes_of s2)" "\<exists>new. nodes_of s2 = nodes_of s1 @ new"
        using compile_arm_sequence_compiles [OF c2 s1(2)] s1(1) by (auto simp: compiles_def)
      have "may_fail (nodes_of s2) on_match \<or> may_fail (nodes_of s2) after"
        using test_node_may_fail [OF c3 s2(1,2)] "2.prems"(4) s1(2) s2(3) by auto
      then have "may_fail (nodes_of s1) after"
        using "2.IH"(2) [OF Cons shared_def True _ c1 _ c2 s1] may_fail_prefix [OF _ s1] s2(3) s by auto
      then have "(\<forall>a \<in> set ?rest. acs_questions a \<noteq> []) \<and> may_fail (nodes_of ?s) fallback"
        using "2.IH"(1) [OF Cons shared_def True _ c1] "2.prems"(2,3) s by simp
      moreover have "\<forall>a \<in> set shared. acs_questions a \<noteq> []"
        by (auto simp: shared_def asks_first_def dest!: set_takeWhileD split: list.splits)
      moreover have "first # rest = shared @ ?rest"
        unfolding shared_def by (metis takeWhile_dropWhile_id dropWhile_eq_drop)
      ultimately show ?thesis
        using s by (metis Un_iff fst_conv set_append)
    next
      case False
      obtain on_miss s1 where c1: "compile_arm_sequence rest fallback s = Some (on_miss, s1)"
        and c2: "compile_single_arm first on_miss s1 = Some (n, s')"
        using "2.prems"(1) False unfolding unfold by (auto split: Option.bind_splits)
      have s1: "acyclic_nodes (nodes_of s1)" "on_miss < length (nodes_of s1)"
        using compile_arm_sequence_compiles [OF c1] "2.prems"(2,3) by (auto simp: compiles_def)
      show ?thesis
        using "2.IH"(3) [OF Cons shared_def False c1 "2.prems"(2,3)] compile_single_arm_may_fail [OF c2 s1 "2.prems"(4)] Cons by simp
    qed
  qed
qed simp

lemma compiled_may_fail:
  assumes "matrix_ok matrix inputs" and "compile_dispatch_matrix matrix inputs = Some (Inr c)"
  shows "acyclic_nodes (graph_nodes (compiled_graph c))" "graph_root (compiled_graph c) < length (graph_nodes (compiled_graph c))"
    "may_fail (graph_nodes (compiled_graph c)) (graph_root (compiled_graph c)) \<longleftrightarrow> (\<forall>arm \<in> set (mx_arms matrix). arm_questions arm \<noteq> [])"
proof -
  let ?nodes = "graph_nodes (compiled_graph c)" and ?root = "graph_root (compiled_graph c)"
  have first: "decides ?nodes ans ?root (first_match ans (mx_arms matrix))" for ans
    by (rule compile_ordered_arms_graph [OF assms(1)]) (use assms(2) in simp)
  have acyclic: "acyclic_nodes ?nodes"
    by (rule compile_ordered_arms_graph [OF assms(1)]) (use assms(2) in simp)
  show "acyclic_nodes ?nodes" "?root < length ?nodes"
    using acyclic decides_bound [OF first] by simp_all
  show "may_fail ?nodes ?root \<longleftrightarrow> (\<forall>arm \<in> set (mx_arms matrix). arm_questions arm \<noteq> [])"
  proof
    assume asks: "\<forall>arm \<in> set (mx_arms matrix). arm_questions arm \<noteq> []"
    have "first_match (\<lambda>_. False) arms = None" if "\<forall>arm \<in> set arms. arm_questions arm \<noteq> []" for arms :: "'a DispatchArm list"
      using that by (induction arms) (auto simp: all_hold_def)
    then show "may_fail ?nodes ?root"
      using first [of "\<lambda>_. False"] asks decides_may_fail by metis
  next
    assume fail: "may_fail ?nodes ?root"
    let ?states = "map (\<lambda>arm. \<lparr> acs_arm = arm, acs_questions = arm_questions arm \<rparr>) (mx_arms matrix)"
    obtain fb s1 root b st where f: "fallback_node (DispatchGraphBuilder_typed (mx_subjects matrix) inputs,
          DispatchCompileStats_default\<lparr> st_arms := length (mx_arms matrix) \<rparr>) = Some (fb, s1)"
      and arms: "compile_arm_sequence ?states fb s1 = Some (root, b, st)" and g: "?nodes = gb_nodes b" "?root = root"
      using assms(2) by (auto simp: compile_dispatch_matrix_def compile_ordered_arms_def DispatchGraphBuilder_build_def
          split: Option.bind_splits sum.splits)
    have "nodes_of s1 = [NodeFail]" "fb = 0"
      using f by (auto simp: fallback_node_def DispatchGraphBuilder_typed_def split: Option.bind_splits dest!: add_node_nodes)
    then show "\<forall>arm \<in> set (mx_arms matrix). arm_questions arm \<noteq> []"
      using compile_arm_sequence_may_fail [OF arms] fail g by (simp add: acyclic_nodes_def below_def)
  qed
qed

lemma has_reachable_fail_exact:
  assumes "acyclic_nodes (graph_nodes (plan_graph plan))" and "n < length (graph_nodes (plan_graph plan))"
  shows "has_reachable_fail_in_graph plan n = Some (may_fail (graph_nodes (plan_graph plan)) n)"
  using assms(2)
proof (induction n rule: less_induct)
  case (less n)
  let ?nodes = "graph_nodes (plan_graph plan)"
  have node: "graph_node (plan_graph plan) n = Some (?nodes ! n)"
    using less.prems by (simp add: graph_node_def)
  show ?case
  proof (cases "?nodes ! n")
    case NodeFail
    then show ?thesis
      using less.prems by (subst has_reachable_fail_in_graph.simps) (simp add: node may_fail.here)
  next
    case (NodeOutcome oc ev)
    then have "\<not> may_fail ?nodes n"
      by (auto elim: may_fail.cases)
    then show ?thesis
      by (subst has_reachable_fail_in_graph.simps) (simp add: node NodeOutcome)
  next
    case (NodeTest q yes no)
    then have less_n: "edge_target yes < n" "edge_target no < n"
      using assms(1) less.prems by (auto simp: acyclic_nodes_def below_def dest!: spec [of _ n])
    then have IH: "has_reachable_fail_in_graph plan (edge_target yes) = Some (may_fail ?nodes (edge_target yes))"
      "has_reachable_fail_in_graph plan (edge_target no) = Some (may_fail ?nodes (edge_target no))"
      using less by simp_all
    have "may_fail ?nodes n \<longleftrightarrow> may_fail ?nodes (edge_target yes) \<or> may_fail ?nodes (edge_target no)"
      using less.prems NodeTest by (auto intro: may_fail.intros elim: may_fail.cases)
    then show ?thesis
      by (subst has_reachable_fail_in_graph.simps) (simp add: node NodeTest IH)
  qed
qed

section \<open>Rows that ask nothing\<close>

fun irrefutable :: "'m Pattern \<Rightarrow> bool" where
  "irrefutable PatWildcard = True"
| "irrefutable (PatVar _) = True"
| "irrefutable (PatAs _ inner) = irrefutable inner"
| "irrefutable (PatList [] (Some tail)) = irrefutable tail"
| "irrefutable _ = False"

definition catch_all :: "('m, 'x, 't) PatternRow \<Rightarrow> bool" where
  "catch_all row \<longleftrightarrow> list_all irrefutable (row_patterns row) \<and> row_preconditions row = [] \<and> row_guard row = None"

abbreviation asked :: "('t, 'h) producing \<Rightarrow> nat" where
  "asked s \<equiv> length (fst s)"

lemma ask_asks: "ask ref question s = Inr s' \<Longrightarrow> asked s' = Suc (asked s)"
  by (auto simp: ask_def and_ok_Inr split: prod.splits)

lemma bind_asks: "bind_name name ref s = Inr s' \<Longrightarrow> asked s' = asked s"
  by (auto simp: bind_name_def and_ok_Inr split: prod.splits)

lemma patterns_ask:
  shows "append_pattern rs pat ref s = Inr s' \<Longrightarrow> asked s \<le> asked s' \<and> (asked s' = asked s \<longleftrightarrow> irrefutable pat)"
    and "append_fields rs pats index ref s = Inr s' \<Longrightarrow> asked s \<le> asked s'"
    and "append_list_pattern rs elems tail ref s = Inr s' \<Longrightarrow> asked s \<le> asked s' \<and> (asked s' = asked s \<longleftrightarrow> irrefutable (PatList elems tail))"
    and "append_entries rs subject entries ref s = Inr s' \<Longrightarrow> asked s \<le> asked s'"
    and "append_struct_fields rs field_pats ref s = Inr s' \<Longrightarrow> asked s \<le> asked s'"
    and "append_bit_fields rs idents bits s = Inr s' \<Longrightarrow> asked s \<le> asked s'"
proof (induction rs pat ref s and rs pats index ref s and rs elems tail ref s and rs subject entries ref s and rs field_pats ref s and rs idents bits s
    arbitrary: s' and s' and s' and s' and s' and s'
    rule: append_pattern_append_fields_append_list_pattern_append_entries_append_struct_fields_append_bit_fields.induct)
  case (3 rs name inner ref s)
  then obtain s1 where s1: "bind_name name ref s = (Inr s1 :: 'a SourcePatternError + _)" "append_pattern rs inner ref s1 = Inr s'"
    by (auto simp: and_ok_Inr)
  then show ?case
    using "3.IH" [OF s1] bind_asks [OF s1(1)] by simp
next
  case (11 rs pats ref qs bs p)
  then obtain subject p1 ids p2 where s1: "subject_id_of ref p = (Inr (subject, p1) :: 'a SourcePatternError + _)"
    and ids: "subject_ids (map (RefTupleField ref) [0..<length pats]) p1 = (Inr (ids, p2) :: 'a SourcePatternError + _)"
    and rest: "append_fields rs pats 0 ref (qs @ [tuple_arity subject (length pats) ids], bs, p2) = Inr s'"
    by (auto simp: and_ok_Inr)
  then show ?case
    using "11.IH" [OF s1 refl ids refl rest] by simp
next
  case (13 rs entries ref qs bs p)
  then obtain subject p1 where s1: "subject_id_of ref p = (Inr (subject, p1) :: 'a SourcePatternError + _)"
    and rest: "append_entries rs subject entries ref (qs @ [RegionQuestion_new (RegionPredicate_new subject RegionMapKind)], bs, p1) = Inr s'"
    by (auto simp: and_ok_Inr)
  then show ?case
    using "13.IH" [OF s1 refl rest] by simp
next
  case (14 rs module field_pats ref qs bs p)
  then obtain ty subject p1 ids p2 where ty: "rs_struct_type rs module = Inr ty"
    and s1: "subject_id_of ref p = (Inr (subject, p1) :: 'a SourcePatternError + _)"
    and ids: "subject_ids (map (\<lambda>(name, _). RefStructField ref name) field_pats) p1 = (Inr (ids, p2) :: 'a SourcePatternError + _)"
    and rest: "append_struct_fields rs field_pats ref (qs @ [struct_question subject ty ids], bs, p2) = Inr s'"
    by (auto simp: and_ok_Inr)
  then show ?case
    using "14.IH" [OF ty s1 refl ids refl rest] by simp
next
  case (15 rs bits ref qs bs p)
  then obtain ids q p1 where question: "bitstring_question ref bits p = (Inr (ids, q, p1) :: 'a SourcePatternError + _)"
    and rest: "append_bit_fields rs ids bits (qs @ [q], bs, p1) = Inr s'"
    by (auto simp: and_ok_Inr)
  then show ?case
    using "15.IH" [OF question refl refl rest] by simp
next
  case (17 rs pat pats index ref s)
  then obtain s1 where s1: "append_pattern rs pat (RefTupleField ref index) s = Inr s1" "append_fields rs pats (index + 1) ref s1 = Inr s'"
    by (auto simp: and_ok_Inr)
  then show ?case
    using "17.IH"(1) [OF s1(1)] "17.IH"(2) [OF s1] by simp
next
  case (18 rs tail ref s)
  then show ?case
    by (cases tail) (auto dest!: ask_asks)
next
  case (19 rs elem elems tail ref qs bs p)
  then obtain subject p1 head p2 tail_id p3 qs' bs' p' where s: "subject_id_of ref p = (Inr (subject, p1) :: 'a SourcePatternError + _)"
      "subject_id_of (RefListHead ref) p1 = (Inr (head, p2) :: 'a SourcePatternError + _)"
      "subject_id_of (RefListTail ref) p2 = (Inr (tail_id, p3) :: 'a SourcePatternError + _)"
    and elem: "append_pattern rs elem (RefListHead ref) (qs @ [list_cons subject head tail_id], bs, p3) = Inr (qs', bs', p')"
    and rest: "(if elems = [] then (case tail of Some t \<Rightarrow> append_pattern rs t (RefListTail ref) (qs', bs', p')
        | None \<Rightarrow> Inr (qs' @ [list_empty tail_id], bs', p')) else append_list_pattern rs elems tail (RefListTail ref) (qs', bs', p')) = Inr s'"
    by (auto simp: and_ok_Inr)
  have "asked (qs @ [list_cons subject head tail_id], bs, p3) \<le> asked (qs', bs', p')"
    using "19.IH"(1) [OF s(1) refl s(2) refl s(3) refl elem] by simp
  moreover have "asked (qs', bs', p') \<le> asked s'"
    using rest "19.IH"(2) [OF s(1) refl s(2) refl s(3) refl elem refl refl] "19.IH"(3) [OF s(1) refl s(2) refl s(3) refl elem refl refl]
    by (auto split: if_splits option.splits)
  ultimately show ?case
    by simp
next
  case (21 rs subject key_pat val_pat entries ref qs bs p)
  then obtain key value_id p1 s1 where key: "map_key key_pat = (Inr key :: 'a SourcePatternError + _)"
    and val: "subject_id_of (RefMapValue ref key) (prepare_heap_key key p) = (Inr (value_id, p1) :: 'a SourcePatternError + _)"
    and s1: "append_pattern rs val_pat (RefMapValue ref key) (qs @ [map_key_present subject key value_id], bs, p1) = Inr s1"
    and rest: "append_entries rs subject entries ref s1 = Inr s'"
    by (auto simp: and_ok_Inr)
  then show ?case
    using "21.IH"(1) [OF key val refl s1] "21.IH"(2) [OF key val refl s1 rest] by simp
next
  case (23 rs name pat field_pats ref s)
  then obtain s1 where s1: "append_pattern rs pat (RefStructField ref name) s = Inr s1" "append_struct_fields rs field_pats ref s1 = Inr s'"
    by (auto simp: and_ok_Inr)
  then show ?case
    using "23.IH"(1) [OF s1(1)] "23.IH"(2) [OF s1] by simp
next
  case (24 rs ident idents field bits s)
  then obtain s1 where s1: "append_pattern rs (bf_value field) (RefSubject ident) s = Inr s1" "append_bit_fields rs idents bits s1 = Inr s'"
    by (auto simp: and_ok_Inr)
  then show ?case
    using "24.IH"(1) [OF s1(1)] "24.IH"(2) [OF s1] by simp
qed (auto simp: const_question_def split: option.splits dest!: ask_asks bind_asks)

lemma columns_ask:
  "append_columns rs pats ordinal s = Inr s' \<Longrightarrow> asked s \<le> asked s' \<and> (asked s' = asked s \<longleftrightarrow> list_all irrefutable pats)"
proof (induction pats arbitrary: ordinal s)
  case (Cons pat pats)
  then obtain s1 where s1: "append_pattern rs pat (RefInput ordinal) s = Inr s1" "append_columns rs pats (ordinal + 1) s1 = Inr s'"
    by (auto simp: and_ok_Inr)
  then show ?case
    using patterns_ask(1) [OF s1(1)] Cons.IH [OF s1(2)] by auto
qed simp

lemma preconditions_ask: "append_preconditions conds s = Inr s' \<Longrightarrow> asked s' = asked s + length conds"
proof (induction conds arbitrary: s)
  case (Cons cond conds)
  then show ?case
    by (cases cond) (auto simp: and_ok_Inr dest!: ask_asks Cons.IH)
qed simp

lemma guard_asks: "append_guard rs guard s = Inr s' \<Longrightarrow> asked s' = asked s + (case guard of None \<Rightarrow> 0 | Some _ \<Rightarrow> 1)"
  by (auto simp: append_guard_def and_ok_Inr Let_def split: option.splits prod.splits)

lemma add_row_asks:
  fixes rs :: "('m, 'x, 't, 'c, 'h) Resolver"
  assumes "producer_ok p" and "list_all (\<lambda>(ref, _). source_ref ref) (row_preconditions row)" and "add_row rs row p = Inr p'"
  shows "\<exists>arm. mb_arms (pp_builder p') = mb_arms (pp_builder p) @ [arm] \<and> (arm_questions arm = [] \<longleftrightarrow> catch_all row)"
proof -
  obtain s1 s2 qs bs p3 where s: "append_columns rs (row_patterns row) 0 ([], [], p) = Inr s1"
    "(append_preconditions (row_preconditions row) s1 :: 'm SourcePatternError + _) = Inr s2"
    "append_guard rs (row_guard row) s2 = Inr (qs, bs, p3)"
    and last: "(case add_arm_questions (snd (add_outcome (pp_builder p3) Unique)) qs EdgeEvidence_empty (length (mb_outcomes (pp_builder p3))) of
        Inl e \<Rightarrow> Inl (DispatchMatrixFailed e :: 'm SourcePatternError)
      | Inr (_, b') \<Rightarrow> Inr (p3\<lparr> pp_builder := b', pp_outcomes := pp_outcomes p3 @ [\<lparr> po_body_id = row_body_id row, po_bindings = bs \<rparr>] \<rparr>)) = Inr p'"
    using assms(3) by (auto simp: add_row_def and_ok_Inr add_outcome_def Let_def)
  then obtain i b' where arm: "add_arm_questions (snd (add_outcome (pp_builder p3) Unique)) qs EdgeEvidence_empty (length (mb_outcomes (pp_builder p3))) = Inr (i, b')"
    and p': "pp_builder p' = b'"
    by (auto split: sum.splits)
  have "mb_arms (pp_builder p3) = mb_arms (pp_builder p)"
    using row_emits [OF assms(1,2) s, of undefined] by (auto simp: emitted_def grows_def)
  moreover have "qs = [] \<longleftrightarrow> catch_all row"
    using columns_ask [OF s(1)] preconditions_ask [OF s(2)] guard_asks [OF s(3)] by (auto simp: catch_all_def split: option.splits)
  ultimately show ?thesis
    using add_arm_questions_Inr [OF arm] by (simp add: p' add_outcome_def Let_def)
qed

lemma add_rows_ask:
  assumes "producer_ok p" and "\<forall>row \<in> set rows. list_all (\<lambda>(ref, _). source_ref ref) (row_preconditions row)" and "add_rows rs rows p = Inr p'"
  shows "\<exists>arms. mb_arms (pp_builder p') = mb_arms (pp_builder p) @ arms \<and> list_all2 (\<lambda>row arm. arm_questions arm = [] \<longleftrightarrow> catch_all row) rows arms"
  using assms
proof (induction rows arbitrary: p)
  case (Cons row rows)
  obtain p1 where p1: "add_row rs row p = Inr p1" and rest: "add_rows rs rows p1 = Inr p'"
    using Cons.prems(3) by (auto simp: and_ok_Inr)
  have pre: "list_all (\<lambda>(ref, _). source_ref ref) (row_preconditions row)"
    using Cons.prems(2) by simp
  have "producer_ok p1"
    by (rule add_row_spec [OF Cons.prems(1) pre p1])
  then show ?case
    using add_row_asks [OF Cons.prems(1) pre p1] Cons.IH [OF _ _ rest] Cons.prems(2) by fastforce
qed simp

section \<open>The check\<close>

lemma irrefutable_matches: "irrefutable pat \<Longrightarrow> \<exists>found. pat_match rs r pinv pat x = Some found"
proof (induction pat arbitrary: x rule: irrefutable.induct)
  case (3 name inner)
  then show ?case
    by (auto simp: both_def)
qed auto

lemma catch_all_matches:
  assumes "catch_all row"
  shows "row_match rs r g pinv inp row \<noteq> None"
proof -
  have "\<exists>found. columns_match rs r pinv pats ordinal inp = Some found" if "list_all irrefutable pats" for pats ordinal
    using that
  proof (induction pats arbitrary: ordinal)
    case (Cons pat pats)
    obtain f1 f2 where "pat_match rs r pinv pat (inp ordinal) = Some f1" "columns_match rs r pinv pats (ordinal + 1) inp = Some f2"
      using irrefutable_matches [of pat rs r pinv "inp ordinal"] Cons.IH [of "ordinal + 1"] Cons.prems by auto
    then show ?case
      by (simp add: both_def)
  qed simp
  then show ?thesis
    using assms by (auto simp: row_match_def catch_all_def)
qed

lemma first_row_found: "row \<in> set rows \<Longrightarrow> m row \<noteq> None \<Longrightarrow> first_row m rows \<noteq> None"
  by (induction rows) auto

lemma normalized_rows:
  "rows_wf (normalize_guards_for_analysis patterns) = rows_wf patterns"
  "(\<forall>row \<in> set (sp_rows (normalize_guards_for_analysis patterns)). \<not> catch_all row) \<longleftrightarrow> (\<forall>row \<in> set (sp_rows patterns). \<not> catch_all row)"
  by (auto simp: rows_wf_def normalize_guards_for_analysis_def catch_all_def split: option.splits)

text \<open>
  C15.  The exhaustiveness check ends and is exact about what it looks for.  Where the rows compile, the search of the
  plan's graph returns, and it calls the rows inexhaustive exactly when every row asks something: has a pattern that
  is not a variable or a wildcard, a precondition or a guard.  When it calls them exhaustive, some row matches every
  input, whatever the guards answer.
\<close>

theorem is_inexhaustive_exact:
  assumes "rows_wf patterns" and "pattern_dispatch_from_source_with_resolver rs (normalize_guards_for_analysis patterns) = Some (Inr plan)"
  shows "is_inexhaustive_with_resolver rs patterns = Some (\<forall>row \<in> set (sp_rows patterns). \<not> catch_all row)
    \<and> (is_inexhaustive_with_resolver rs patterns = Some False
        \<longrightarrow> first_row (row_match rs r g (pin_of inp lexical (sp_prematch patterns)) inp) (sp_rows patterns) \<noteq> None)"
proof -
  let ?patterns = "normalize_guards_for_analysis patterns"
  have wf: "rows_wf ?patterns"
    using assms(1) by (simp add: normalized_rows)
  obtain p0 p c where p: "PatternDispatchProducer_new rs ?patterns = Inr p0" "add_rows rs (sp_rows ?patterns) p0 = Inr p"
    and c: "compile_dispatch_matrix \<lparr> mx_subjects = subs_of p, mx_outcomes = mb_outcomes (pp_builder p), mx_arms = mb_arms (pp_builder p) \<rparr> (plan_inputs p) = Some (Inr c)"
      "plan_graph plan = compiled_graph c"
    using plan_compiled [OF assms(2)] by metis
  note rows = added_rows [OF wf p]
  have "matrix_ok \<lparr> mx_subjects = subs_of p, mx_outcomes = mb_outcomes (pp_builder p), mx_arms = mb_arms (pp_builder p) \<rparr> (plan_inputs p)"
    by (rule rows_matrix_ok [OF rows(1) [of undefined]]) (use wf rows(2,3) in \<open>simp add: rows_wf_def\<close>)
  note compiled = compiled_may_fail [OF this c(1)]
  have "list_all2 (\<lambda>row arm. arm_questions arm = [] \<longleftrightarrow> catch_all row) (sp_rows ?patterns) (mb_arms (pp_builder p))"
    using add_rows_ask [OF first_state_ok(1) [OF p(1)] _ p(2)] first_state_ok(3) [OF p(1)] wf by (auto simp: rows_wf_def)
  then have "(\<forall>arm \<in> set (mb_arms (pp_builder p)). arm_questions arm \<noteq> []) \<longleftrightarrow> (\<forall>row \<in> set (sp_rows ?patterns). \<not> catch_all row)"
    by (auto simp: list_all2_conv_all_nth all_set_conv_all_nth)
  then have exact: "is_inexhaustive_with_resolver rs patterns = Some (\<forall>row \<in> set (sp_rows patterns). \<not> catch_all row)"
    using has_reachable_fail_exact [of plan "graph_root (plan_graph plan)"] compiled assms(2) normalized_rows(2) [of patterns]
    by (simp add: is_inexhaustive_with_resolver_def c(2))
  have "first_row (row_match rs r g (pin_of inp lexical (sp_prematch patterns)) inp) (sp_rows patterns) \<noteq> None"
    if some: "\<exists>row \<in> set (sp_rows patterns). catch_all row"
  proof -
    obtain row where "row \<in> set (sp_rows patterns)" "catch_all row"
      using some by blast
    then show ?thesis
      by (intro first_row_found [of row]) (simp_all add: catch_all_matches)
  qed
  then show ?thesis
    using exact by simp
qed

theorem is_inexhaustive_exact_witness:
  "is_inexhaustive_with_resolver no_resolver tagged_rows = Some False
    \<and> first_row (row_match no_resolver small_reader small_guard (pin_of (\<lambda>_. Some (Num 7)) (\<lambda>_. None) (sp_prematch tagged_rows)) (\<lambda>_. Some (Num 7)))
        (sp_rows tagged_rows) \<noteq> None"
proof -
  let ?rows = "normalize_guards_for_analysis tagged_rows"
  have wf: "rows_wf ?rows"
    using tagged_rows_wf by (simp add: normalized_rows)
  have "\<exists>p0 p. PatternDispatchProducer_new no_resolver ?rows = Inr p0 \<and> add_rows no_resolver (sp_rows ?rows) p0 = Inr p"
    by (simp add: tagged_rows_def SourcePatternRows_lexical_def normalize_guards_for_analysis_def no_resolver_def producer_defs question_defs)
  then obtain p0 p where p: "PatternDispatchProducer_new no_resolver ?rows = Inr p0" "add_rows no_resolver (sp_rows ?rows) p0 = Inr p"
    by blast
  have "undefined_pins (sp_prematch ?rows) (pp_pinned p) = []"
    by (simp add: tagged_rows_def SourcePatternRows_lexical_def normalize_guards_for_analysis_def)
  then obtain plan where "pattern_dispatch_from_source_with_resolver no_resolver ?rows = Some (Inr plan)"
    using plan_exists [OF wf p] by blast
  note exact = is_inexhaustive_exact [OF tagged_rows_wf this, of small_reader small_guard "\<lambda>_. Some (Num 7)" "\<lambda>_. None"]
  have "\<exists>row \<in> set (sp_rows tagged_rows). catch_all row"
    by (simp add: tagged_rows_def SourcePatternRows_lexical_def catch_all_def)
  then show ?thesis
    using exact by auto
qed

end
