(* ===== verification/Fz_Exec.thy ===== *)
theory Fz_Exec
  imports Fz_PatternRows
begin

text \<open>
  The interpreter's run of a plan (\<open>ir_interp/dispatch_exec.rs\<close>): the slots of the subjects with the journal of
  what a branch wrote, the production of subjects, the questions and the walk.  Every input is one runtime
  value; the lane form of a tuple and the building of prepared keys belong to the reading of values, which is an
  argument, and so is the run of a guard helper.
\<close>

section \<open>State\<close>

record 'v DispatchExecState =
  es_values :: "'v option list"
  es_journal :: "SubjectId list"

definition DispatchExecState_new :: "nat \<Rightarrow> 'v DispatchExecState" where
  "DispatchExecState_new subjects = \<lparr> es_values = replicate subjects None, es_journal = [] \<rparr>"

definition exec_get :: "'v DispatchExecState \<Rightarrow> SubjectId \<Rightarrow> 'v option" where
  "exec_get st subject = (if subject < length (es_values st) then es_values st ! subject else None)"

type_synonym ('v, 'a) executed = "(DispatchStop + 'a) \<times> 'v DispatchExecState"

definition exec_set :: "SubjectId \<Rightarrow> 'v \<Rightarrow> 'v DispatchExecState \<Rightarrow> ('v, unit) executed" where
  "exec_set subject v st =
     (if subject < length (es_values st)
      then (Inr (), st\<lparr> es_values := (es_values st)[subject := Some v], es_journal := es_journal st @ [subject] \<rparr>)
      else (Inl Panicked, st))"

definition exec_branch :: "'v DispatchExecState \<Rightarrow> nat" where
  "exec_branch st = length (es_journal st)"

definition exec_undo :: "nat \<Rightarrow> 'v DispatchExecState \<Rightarrow> 'v DispatchExecState" where
  "exec_undo branch st =
     \<lparr> es_values = fold (\<lambda>subject values. values[subject := None]) (drop branch (es_journal st)) (es_values st),
       es_journal = take branch (es_journal st) \<rparr>"

definition or_miss :: "DispatchStop + 'a \<Rightarrow> DispatchStop + 'a option" where
  "or_miss result =
     (case result of Inr v \<Rightarrow> Inr (Some v) | Inl NoMatch \<Rightarrow> Inr None | Inl stop \<Rightarrow> Inl stop)"

record ('v, 'r, 't, 'h) Dispatch =
  d_reader :: "('v, 'r, 't) Reader"
  d_guard :: "('v, 'h) GuardOps"
  d_plan :: "('t, 'h) PatternDispatchPlan"
  d_inputs :: "'v option list"
  d_pinned :: "'v list"

abbreviation d_subjects :: "('v, 'r, 't, 'h) Dispatch \<Rightarrow> Subject list" where
  "d_subjects d \<equiv> graph_subjects (plan_graph (d_plan d))"

definition nth_or :: "'a list \<Rightarrow> nat \<Rightarrow> 'a option" where
  "nth_or xs i = (if i < length xs then Some (xs ! i) else None)"

text \<open>The rest of a computation, where a stop ends it.\<close>

definition continue_with :: "('v, 'a) executed option \<Rightarrow> ('a \<Rightarrow> 'v DispatchExecState \<Rightarrow> ('v, 'b) executed option) \<Rightarrow> ('v, 'b) executed option" where
  "continue_with x k = Option.bind x (\<lambda>(res, st). case res of Inl stop \<Rightarrow> Some (Inl stop, st) | Inr a \<Rightarrow> k a st)"

lemma continue_with_simps [simp]:
  "continue_with None k = None" "continue_with (Some (Inl stop, st)) k = Some (Inl stop, st)" "continue_with (Some (Inr a, st)) k = k a st"
  by (simp_all add: continue_with_def)

section \<open>Subjects\<close>

fun project_value :: "('v, 'r, 't) Reader \<Rightarrow> ProjectionKind \<Rightarrow> 'v \<Rightarrow> 'v option" where
  "project_value r (TupleField i) v = rd_tuple_field r i v"
| "project_value r (StructField name) v = rd_struct_field r name v"
| "project_value r ListHead v = rd_head r v"
| "project_value r ListTail v = rd_tail r v"
| "project_value r (MapValue key) v = rd_map_get r key v"
| "project_value r (BitstringField _) v = None"

partial_function (option) resolve_subject ::
  "('v, 'r, 't, 'h) Dispatch \<Rightarrow> SubjectId \<Rightarrow> 'v DispatchExecState \<Rightarrow> ('v, unit) executed option" where
  "resolve_subject d subject st =
     (if exec_get st subject \<noteq> None then Some (Inr (), st)
      else if length (d_subjects d) \<le> subject then Some (Inl NoMatch, st)
      else case subject_source (d_subjects d ! subject) of
        SubjectInput ordinal \<Rightarrow>
          (case nth_or (d_inputs d) ordinal of
             Some (Some v) \<Rightarrow> Some (exec_set subject v st)
           | _ \<Rightarrow> Some (Inl Broken, st))
      | SubjectProjected proj \<Rightarrow>
          (case proj_kind proj of
             BitstringField _ \<Rightarrow> Some (Inl NoMatch, st)
           | kind \<Rightarrow>
               Option.bind (resolve_subject d (proj_source proj) st) (\<lambda>(res, st').
                 case res of
                   Inl stop \<Rightarrow> Some (Inl stop, st')
                 | Inr _ \<Rightarrow>
                     (case Option.bind (exec_get st' (proj_source proj)) (project_value (d_reader d) kind) of
                        None \<Rightarrow> Some (Inl NoMatch, st')
                      | Some v \<Rightarrow> Some (exec_set subject v st')))))"

definition subject_word :: "('v, 'r, 't, 'h) Dispatch \<Rightarrow> SubjectId \<Rightarrow> 'v DispatchExecState \<Rightarrow> ('v, 'v) executed option" where
  "subject_word d subject st =
     continue_with (resolve_subject d subject st) (\<lambda>_ st'. Some (required (exec_get st' subject), st'))"

definition missed_ok :: "('v, 'a) executed option \<Rightarrow> ('v, 'a option) executed option" where
  "missed_ok x = map_option (\<lambda>(res, st). (or_miss res, st)) x"

section \<open>Guards\<close>

definition pin_at :: "('v, 'r, 't, 'h) Dispatch \<Rightarrow> PinnedValueId \<Rightarrow> 'v option" where
  "pin_at d pinned = nth_or (d_pinned d) pinned"

fun run_guard :: "('v, 'r, 't, 'h) Dispatch \<Rightarrow> 'h PatternGuardExpr \<Rightarrow> 'v DispatchExecState \<Rightarrow> ('v, 'v) executed option"
and run_guards :: "('v, 'r, 't, 'h) Dispatch \<Rightarrow> 'h PatternGuardExpr list \<Rightarrow> 'v DispatchExecState \<Rightarrow> ('v, 'v list) executed option" where
  "run_guard d (GuardConst c) st = Some (required (gd_const (d_guard d) c), st)"
| "run_guard d (GuardSubject subject) st = subject_word d subject st"
| "run_guard d (GuardPinned pinned) st = Some (required (pin_at d pinned), st)"
| "run_guard d (GuardUnary op expr) st =
     continue_with (run_guard d expr st) (\<lambda>v st'. Some (guard_unary (d_guard d) op v, st'))"
| "run_guard d (GuardBinary op lhs rhs) st =
     continue_with (run_guard d lhs st) (\<lambda>l st'.
       if op = GuardAnd \<and> gd_falsy (d_guard d) l then Some (Inr (gd_bool (d_guard d) False), st')
       else if op = GuardOr \<and> \<not> gd_falsy (d_guard d) l then Some (Inr (gd_bool (d_guard d) True), st')
       else continue_with (run_guard d rhs st') (\<lambda>r st''. Some (guard_strict (d_guard d) op l r, st'')))"
| "run_guard d (GuardDispatch inputs _ helper) st =
     continue_with (run_guards d inputs st) (\<lambda>vs st'. Some (gd_helper (d_guard d) helper vs, st'))"
| "run_guards d [] st = Some (Inr [], st)"
| "run_guards d (e # es) st =
     continue_with (run_guard d e st) (\<lambda>v st'. continue_with (run_guards d es st') (\<lambda>vs st''. Some (Inr (v # vs), st'')))"

section \<open>Questions\<close>

definition bitstring_extraction :: "('v, 'r, 't, 'h) Dispatch \<Rightarrow> SubjectId \<Rightarrow> BitstringExtraction option" where
  "bitstring_extraction d subject =
     (if subject < length (d_subjects d)
      then (case subject_source (d_subjects d ! subject) of
              SubjectProjected proj \<Rightarrow> (case proj_kind proj of BitstringField ex \<Rightarrow> Some ex | _ \<Rightarrow> None)
            | SubjectInput _ \<Rightarrow> None)
      else None)"

text \<open>The fields of a shape, read in order; \<open>None\<close> is a field that cannot be read.\<close>

fun read_shape_fields :: "('v, 'r, 't, 'h) Dispatch \<Rightarrow> SubjectId list \<Rightarrow> 'r \<Rightarrow> 'v DispatchExecState \<Rightarrow> ('v, 'r option) executed option" where
  "read_shape_fields d [] rd st = Some (Inr (Some rd), st)"
| "read_shape_fields d (field # rest) rd st =
     (case bitstring_extraction d field of
        None \<Rightarrow> Some (Inl Panicked, st)
      | Some ex \<Rightarrow>
          (case Option.bind (bit_size (d_reader d) (pin_at d) (exec_get st) (field_size (ex_spec ex))) (\<lambda>sz. read_field (d_reader d) ex sz rd) of
             None \<Rightarrow> Some (Inr None, st)
           | Some (v, rd') \<Rightarrow> continue_with (Some (exec_set field v st)) (\<lambda>_ st'. read_shape_fields d rest rd' st')))"

definition read_bitstring :: "('v, 'r, 't, 'h) Dispatch \<Rightarrow> 'v \<Rightarrow> BitstringShape \<Rightarrow> 'v DispatchExecState \<Rightarrow> ('v, bool) executed option" where
  "read_bitstring d v shape st =
     (case rd_bits_init (d_reader d) v of
        None \<Rightarrow> Some (Inr False, st)
      | Some rd \<Rightarrow> continue_with (read_shape_fields d (shape_fields shape) rd st) (\<lambda>end st'.
          Some (Inr (is_some_and end (\<lambda>rd'. shape_require_done shape \<longrightarrow> rd_bits_done (d_reader d) rd')), st')))"

text \<open>A key that is present also delivers the value to the subjects that project it.\<close>

fun deliver_key :: "('v, 'r, 't, 'h) Dispatch \<Rightarrow> SubjectId \<Rightarrow> GroundValue \<Rightarrow> 'v \<Rightarrow> SubjectId list \<Rightarrow> 'v DispatchExecState \<Rightarrow> ('v, unit) executed option" where
  "deliver_key d subject key v [] st = Some (Inr (), st)"
| "deliver_key d subject key v (result # results) st =
     (if length (d_subjects d) \<le> result then Some (Inl Panicked, st)
      else if subject_source (d_subjects d ! result) = SubjectProjected \<lparr> proj_source = subject, proj_kind = MapValue key \<rparr>
      then continue_with (Some (exec_set result v st)) (\<lambda>_ st'. deliver_key d subject key v results st')
      else deliver_key d subject key v results st)"

definition region_hit ::
  "('v, 'r, 't, 'h) Dispatch \<Rightarrow> SubjectId \<Rightarrow> 't Region \<Rightarrow> 't EdgeEvidence \<Rightarrow> 'v DispatchExecState \<Rightarrow> ('v, bool) executed option" where
  "region_hit d subject region evidence st =
     (let asks = (\<lambda>P. continue_with (missed_ok (subject_word d subject st)) (\<lambda>word st'. Some (Inr (is_some_and word P), st')))
      in case region of
        RegionGuard k \<Rightarrow>
          (case nth_or (plan_guards (d_plan d)) k of
             None \<Rightarrow> Some (Inr False, st)
           | Some expr \<Rightarrow> continue_with (missed_ok (run_guard d expr st)) (\<lambda>v st'. Some (Inr (is_some_and v (\<lambda>x. \<not> gd_falsy (d_guard d) x)), st')))
      | RegionType ty \<Rightarrow>
          continue_with (missed_ok (resolve_subject d subject st)) (\<lambda>found st'.
            if found = None then Some (Inr False, st')
            else continue_with (Some (required (exec_get st' subject), st')) (\<lambda>v st''. Some (Inr (rd_type (d_reader d) ty v), st'')))
      | RegionTupleArity arity \<Rightarrow>
          continue_with (missed_ok (resolve_subject d subject st)) (\<lambda>found st'.
            if found = None then Some (Inr False, st')
            else continue_with (missed_ok (subject_word d subject st')) (\<lambda>word st''. Some (Inr (is_some_and word (rd_is_tuple (d_reader d) arity)), st'')))
      | RegionEqual (ComparisonConst c) \<Rightarrow> asks (rd_const_eq (d_reader d) c)
      | RegionEqual (ComparisonPinned pinned) \<Rightarrow> asks (\<lambda>v. is_some_and (pin_at d pinned) (\<lambda>want. rd_value_eq (d_reader d) want v))
      | RegionList RegionEmpty \<Rightarrow> asks (rd_is_empty (d_reader d))
      | RegionList RegionCons \<Rightarrow> asks (rd_is_cons (d_reader d))
      | RegionMapKind \<Rightarrow> asks (rd_is_map (d_reader d))
      | RegionMapKeyPresent key \<Rightarrow>
          continue_with (missed_ok (subject_word d subject st)) (\<lambda>word st'.
            case Option.bind word (rd_map_get (d_reader d) key) of
              None \<Rightarrow> Some (Inr False, st')
            | Some v \<Rightarrow> continue_with (deliver_key d subject key v (ev_projections evidence) st') (\<lambda>_ st''. Some (Inr True, st'')))
      | RegionBitstring shape \<Rightarrow>
          continue_with (missed_ok (subject_word d subject st)) (\<lambda>word st'.
            case word of None \<Rightarrow> Some (Inr False, st') | Some v \<Rightarrow> read_bitstring d v shape st'))"

section \<open>The walk\<close>

fun apply_edge_evidence :: "('v, 'r, 't, 'h) Dispatch \<Rightarrow> SubjectId list \<Rightarrow> 'v DispatchExecState \<Rightarrow> ('v, unit) executed option" where
  "apply_edge_evidence d [] st = Some (Inr (), st)"
| "apply_edge_evidence d (projection # rest) st =
     continue_with (resolve_subject d projection st) (\<lambda>_ st'. apply_edge_evidence d rest st')"

definition took_match :: "('v, 'r, 't, 'h) Dispatch \<Rightarrow> 't RegionPredicate \<Rightarrow> 't EdgeEvidence \<Rightarrow> 'v DispatchExecState \<Rightarrow> ('v, bool) executed option" where
  "took_match d predicate evidence st =
     continue_with (region_hit d (pred_subject predicate) (pred_region predicate) evidence st) (\<lambda>hit st'.
       if hit then continue_with (missed_ok (apply_edge_evidence d (ev_projections evidence) st')) (\<lambda>found st''. Some (Inr (found \<noteq> None), st''))
       else Some (Inr False, st'))"

partial_function (option) exec_node ::
  "('v, 'r, 't, 'h) Dispatch \<Rightarrow> GraphNodeId \<Rightarrow> 'v DispatchExecState \<Rightarrow> ('v, OutcomeId) executed option" where
  "exec_node d node_id st =
     (case graph_node (plan_graph (d_plan d)) node_id of
        None \<Rightarrow> Some (Inl NoMatch, st)
      | Some NodeFail \<Rightarrow> Some (Inl NoMatch, st)
      | Some (NodeOutcome outcome _) \<Rightarrow> Some (Inr outcome, st)
      | Some (NodeTest predicate on_match on_miss) \<Rightarrow>
          Option.bind (took_match d predicate (edge_evidence on_match) st) (\<lambda>(res, st').
            case res of
              Inl stop \<Rightarrow> Some (Inl stop, st')
            | Inr took \<Rightarrow>
                if took then exec_node d (edge_target on_match) st'
                else exec_node d (edge_target on_miss) (exec_undo (exec_branch st) st')))"

text \<open>A decision is an outcome, or none; an error is a plan and operands that disagree.\<close>

definition Dispatch_run :: "('v, 'r, 't, 'h) Dispatch \<Rightarrow> (DispatchStop + OutcomeId option) option" where
  "Dispatch_run d =
     map_option (\<lambda>(res, st). or_miss res)
       (exec_node d (graph_root (plan_graph (d_plan d))) (DispatchExecState_new (length (d_subjects d))))"


text \<open>Unfolding equations of the walks, to evaluate a run.\<close>

lemma asks_anything_code [code]: "asks_anything d = (case d of Ignore \<Rightarrow> False | _ \<Rightarrow> True)"
  by (cases d) (simp_all add: asks_anything_def)

declare subject_demand.simps [code] subject_root.simps [code] resolve_subject.simps [code] exec_node.simps [code]

end
