(* ===== verification/Fz_ExecProps.thy ===== *)
theory Fz_ExecProps
  imports Fz_Exec
begin

text \<open>
  The run of a plan answers what the plan's graph decides, on plans without bitstring fields, and reads no input
  that the plan does not demand; a plan with bitstring fields on which it does not.
\<close>

section \<open>Slots hold what their subjects denote\<close>

definition run_reading :: "('v, 'r, 't, 'h) Dispatch \<Rightarrow> ('v, 'r, 't, 'h) Reading" where
  "run_reading d = \<lparr> w_reader = d_reader d, w_guard = d_guard d, w_input = (\<lambda>i. Option.bind (nth_or (d_inputs d) i) (\<lambda>x. x)),
     w_pin = pin_at d, w_name = (\<lambda>_. None) \<rparr>"

definition sval :: "('v, 'r, 't, 'h) Dispatch \<Rightarrow> SubjectId \<Rightarrow> 'v option" where
  "sval d = value_of (run_reading d) (d_subjects d)"

definition holds_values :: "('v, 'r, 't, 'h) Dispatch \<Rightarrow> 'v DispatchExecState \<Rightarrow> bool" where
  "holds_values d st \<longleftrightarrow> length (es_values st) = length (d_subjects d) \<and> (\<forall>s v. exec_get st s = Some v \<longrightarrow> sval d s = Some v)"

definition arrived :: "('v, 'r, 't, 'h) Dispatch \<Rightarrow> SubjectId \<Rightarrow> bool" where
  "arrived d s \<longleftrightarrow> (\<forall>i. subject_root (d_subjects d) s = Some (Some i) \<longrightarrow> (\<exists>v. nth_or (d_inputs d) i = Some (Some v)))"

definition no_fields :: "Subject list \<Rightarrow> bool" where
  "no_fields subs \<longleftrightarrow> list_all (\<lambda>sub. case subject_source sub of
     SubjectProjected proj \<Rightarrow> (case proj_kind proj of BitstringField _ \<Rightarrow> False | _ \<Rightarrow> True) | SubjectInput _ \<Rightarrow> True) subs"

lemma holds_new: "holds_values d (DispatchExecState_new (length (d_subjects d)))"
  by (simp add: holds_values_def DispatchExecState_new_def exec_get_def)

lemma exec_set_holds:
  assumes "holds_values d st" and "sval d s = Some v" and "s < length (d_subjects d)"
  shows "\<exists>st'. exec_set s v st = (Inr (), st') \<and> holds_values d st' \<and> exec_get st' s = Some v"
  using assms by (auto simp: holds_values_def exec_set_def exec_get_def nth_list_update split: if_splits)

lemma cleared:
  fixes vs :: "'v option list"
  shows "length (fold (\<lambda>s vs. vs[s := None]) xs vs) = length vs"
    and "s < length vs \<Longrightarrow> fold (\<lambda>s vs. vs[s := None]) xs vs ! s = (if s \<in> set xs then None else vs ! s)"
  by (induction xs arbitrary: vs) (auto simp: nth_list_update)

lemma undo_holds: "holds_values d st \<Longrightarrow> holds_values d (exec_undo branch st)"
  by (auto simp: holds_values_def exec_get_def exec_undo_def cleared split: if_splits)

lemma project_value_eqs:
  "project_value r (TupleField i) = rd_tuple_field r i" "project_value r (StructField name) = rd_struct_field r name"
  "project_value r ListHead = rd_head r" "project_value r ListTail = rd_tail r" "project_value r (MapValue key) = rd_map_get r key"
  by (simp_all add: fun_eq_iff)

lemma sval_projected:
  assumes "s < length (d_subjects d)" and "subject_source (d_subjects d ! s) = SubjectProjected proj" and "proj_source proj < s"
    and "\<And>ex. proj_kind proj \<noteq> BitstringField ex"
  shows "sval d s = Option.bind (sval d (proj_source proj)) (project_value (d_reader d) (proj_kind proj))"
  using assms by (cases "proj_kind proj") (auto simp: fun_eq_iff project_value_eqs sval_def value_of_def run_reading_def subject_value.simps [of _ _ _ "d_subjects d" s])

lemma resolve_subject_spec:
  assumes ok: "subjects_ok (d_subjects d)" "no_fields (d_subjects d)" and "arrived d s" and "holds_values d st"
  shows "\<exists>st'. resolve_subject d s st = Some (case sval d s of None \<Rightarrow> Inl NoMatch | Some _ \<Rightarrow> Inr (), st') \<and> holds_values d st'
    \<and> (\<forall>v. sval d s = Some v \<longrightarrow> exec_get st' s = Some v)"
  using assms(3)
proof (induction s rule: less_induct)
  case (less s)
  consider (known) v where "exec_get st s = Some v" | (unknown) "exec_get st s = None" "length (d_subjects d) \<le> s"
    | (new) "exec_get st s = None" "s < length (d_subjects d)"
    by (cases "exec_get st s"; cases "s < length (d_subjects d)") auto
  then show ?case
  proof cases
    case known
    then have "sval d s = Some v"
      using assms(4) by (simp add: holds_values_def)
    then show ?thesis
      using known assms(4) by (subst resolve_subject.simps) simp
  next
    case unknown
    then have "sval d s = None"
      by (simp add: sval_def value_of_def subject_value.simps)
    then show ?thesis
      using unknown assms(4) by (subst resolve_subject.simps) simp
  next
    case new
    show ?thesis
    proof (cases "subject_source (d_subjects d ! s)")
      case (SubjectInput i)
      have "subject_root (d_subjects d) s = Some (Some i)"
        using new SubjectInput by (subst subject_root.simps) simp
      then obtain v where v: "nth_or (d_inputs d) i = Some (Some v)"
        using less.prems by (auto simp: arrived_def)
      then have val: "sval d s = Some v"
        using new SubjectInput by (simp add: sval_def value_of_def run_reading_def subject_value.simps)
      show ?thesis
        using exec_set_holds [OF assms(4) val new(2)] new SubjectInput v val by (subst resolve_subject.simps) auto
    next
      case (SubjectProjected proj)
      have src: "proj_source proj < s"
        using ok(1) new SubjectProjected by (force simp: subjects_ok_def)
      have kind: "\<And>ex. proj_kind proj \<noteq> BitstringField ex"
        using ok(2) new(2) SubjectProjected by (auto simp: no_fields_def list_all_length split: ProjectionKind.splits)
      have "arrived d (proj_source proj)"
        using less.prems new SubjectProjected by (simp add: arrived_def subject_root.simps [of "d_subjects d" s])
      then obtain st' where st': "resolve_subject d (proj_source proj) st = Some (case sval d (proj_source proj) of None \<Rightarrow> Inl NoMatch | Some _ \<Rightarrow> Inr (), st')"
        "holds_values d st'" "\<And>v. sval d (proj_source proj) = Some v \<Longrightarrow> exec_get st' (proj_source proj) = Some v"
        using less.IH [OF src] by auto
      have val: "sval d s = Option.bind (sval d (proj_source proj)) (project_value (d_reader d) (proj_kind proj))"
        by (rule sval_projected [OF new(2) SubjectProjected src kind])
      have step: "resolve_subject d s st = Option.bind (resolve_subject d (proj_source proj) st) (\<lambda>(res, st').
          case res of Inl stop \<Rightarrow> Some (Inl stop, st')
          | Inr _ \<Rightarrow> (case Option.bind (exec_get st' (proj_source proj)) (project_value (d_reader d) (proj_kind proj)) of
                       None \<Rightarrow> Some (Inl NoMatch, st') | Some v \<Rightarrow> Some (exec_set s v st')))"
      proof (cases "proj_kind proj")
        case (BitstringField ex)
        then show ?thesis
          using kind by blast
      qed (subst resolve_subject.simps; use new SubjectProjected in \<open>simp cong: sum.case_cong\<close>)+
      show ?thesis
      proof (cases "sval d s")
        case None
        then show ?thesis
          using st' val by (cases "sval d (proj_source proj)") (simp_all add: step)
      next
        case (Some v)
        then obtain parent where "sval d (proj_source proj) = Some parent" "project_value (d_reader d) (proj_kind proj) parent = Some v"
          using val by (auto simp: bind_eq_Some_conv)
        then show ?thesis
          using exec_set_holds [OF st'(2) Some new(2)] st' Some by (auto simp: step)
      qed
    qed
  qed
qed

lemma subject_word_spec:
  assumes "subjects_ok (d_subjects d)" "no_fields (d_subjects d)" and "arrived d s" and "holds_values d st"
  shows "\<exists>st'. subject_word d s st = Some (required (sval d s), st') \<and> holds_values d st'"
proof -
  obtain st' where "resolve_subject d s st = Some (case sval d s of None \<Rightarrow> Inl NoMatch | Some _ \<Rightarrow> Inr (), st')" "holds_values d st'"
    "\<forall>v. sval d s = Some v \<longrightarrow> exec_get st' s = Some v"
    using resolve_subject_spec [OF assms] by blast
  then show ?thesis
    by (cases "sval d s") (auto simp: subject_word_def required_def)
qed

section \<open>Guards and questions\<close>

lemma run_guard_spec:
  assumes ok: "subjects_ok (d_subjects d)" "no_fields (d_subjects d)"
  shows "holds_values d st \<Longrightarrow> (\<And>s. LeafSubject s \<in> set (guard_leaves e) \<Longrightarrow> arrived d s) \<Longrightarrow>
      \<exists>st'. run_guard d e st = Some (eval_guard (d_guard d) (sval d) (pin_at d) e, st') \<and> holds_values d st'"
    and "holds_values d st \<Longrightarrow> (\<And>e s. e \<in> set es \<Longrightarrow> LeafSubject s \<in> set (guard_leaves e) \<Longrightarrow> arrived d s) \<Longrightarrow>
      \<exists>st'. run_guards d es st = Some (gather (map (eval_guard (d_guard d) (sval d) (pin_at d)) es), st') \<and> holds_values d st'"
  using ok
proof (induction d e st and d es st rule: run_guard_run_guards.induct)
  case (2 d subject st)
  then show ?case
    using subject_word_spec [OF "2.prems"(3,4), of subject st] by simp
next
  case (4 d op expr st)
  then obtain st' where st': "run_guard d expr st = Some (eval_guard (d_guard d) (sval d) (pin_at d) expr, st')" "holds_values d st'"
    by fastforce
  then show ?case
    by (cases "eval_guard (d_guard d) (sval d) (pin_at d) expr") auto
next
  case (5 d op lhs rhs st)
  let ?l = "eval_guard (d_guard d) (sval d) (pin_at d) lhs" and ?r = "eval_guard (d_guard d) (sval d) (pin_at d) rhs"
  obtain st1 where st1: "run_guard d lhs st = Some (?l, st1)" "holds_values d st1"
    using "5.IH"(1) "5.prems" by fastforce
  show ?case
  proof (cases ?l)
    case (Inl stop)
    then show ?thesis
      using st1 by (simp add: guard_binary_def)
  next
    case (Inr l)
    show ?thesis
    proof (cases "op = GuardAnd \<and> gd_falsy (d_guard d) l \<or> op = GuardOr \<and> \<not> gd_falsy (d_guard d) l")
      case True
      then show ?thesis
        using st1 Inr by (auto simp: guard_binary_def)
    next
      case False
      then obtain st2 where "run_guard d rhs st1 = Some (?r, st2)" "holds_values d st2"
        using "5.IH"(2) [of l st1] st1 Inr "5.prems" by fastforce
      then show ?thesis
        using st1 Inr False by (cases ?r) (auto simp: guard_binary_def)
    qed
  qed
next
  case (6 d inputs prepared helper st)
  then obtain st' where "run_guards d inputs st = Some (gather (map (eval_guard (d_guard d) (sval d) (pin_at d)) inputs), st')" "holds_values d st'"
    by fastforce
  then show ?case
    by (cases "gather (map (eval_guard (d_guard d) (sval d) (pin_at d)) inputs)") auto
next
  case (8 d e es st)
  let ?v = "eval_guard (d_guard d) (sval d) (pin_at d) e" and ?vs = "gather (map (eval_guard (d_guard d) (sval d) (pin_at d)) es)"
  obtain st1 where st1: "run_guard d e st = Some (?v, st1)" "holds_values d st1"
    using "8.IH"(1) "8.prems" by fastforce
  show ?case
  proof (cases ?v)
    case (Inl stop)
    then show ?thesis
      using st1 by simp
  next
    case (Inr v)
    then obtain st2 where "run_guards d es st1 = Some (?vs, st2)" "holds_values d st2"
      using "8.IH"(2) [of st1] st1 "8.prems" by fastforce
    then show ?thesis
      using st1 Inr by (cases ?vs) auto
  qed
qed auto

text \<open>A guard that neither panics nor breaks is a test: it has a value, or it misses.\<close>

definition guard_returns :: "('v, 'r, 't, 'h) Dispatch \<Rightarrow> 'h PatternGuardExpr \<Rightarrow> bool" where
  "guard_returns d expr \<longleftrightarrow>
     (case eval_guard (d_guard d) (sval d) (pin_at d) expr of Inl Broken \<Rightarrow> False | Inl Panicked \<Rightarrow> False | _ \<Rightarrow> True)"

lemma missed_guard:
  assumes "guard_returns d expr"
  shows "\<exists>v. missed_ok (Some (eval_guard (d_guard d) (sval d) (pin_at d) expr, st)) = Some (Inr v, st)
    \<and> is_some_and v (\<lambda>x. \<not> gd_falsy (d_guard d) x) = truthy (d_guard d) (eval_guard (d_guard d) (sval d) (pin_at d) expr)"
  using assms
  by (auto simp: guard_returns_def missed_ok_def or_miss_def truthy_def is_some_and_def split: sum.splits DispatchStop.splits)

lemma missed_ok_required [simp]: "missed_ok (Some (required x, st)) = Some (Inr x, st)"
  by (cases x) (simp_all add: missed_ok_def required_def or_miss_def)

lemma missed_ok_resolved [simp]: "missed_ok (Some (case x of None \<Rightarrow> Inl NoMatch | Some _ \<Rightarrow> Inr (), st)) = Some (Inr (map_option (\<lambda>_. ()) x), st)"
  by (cases x) (simp_all add: missed_ok_def or_miss_def)

lemma deliver_key_spec:
  assumes ok: "subjects_ok (d_subjects d)" and "holds_values d st" and "sval d subject = Some parent" "rd_map_get (d_reader d) key parent = Some v"
    and "\<forall>s \<in> set results. s < length (d_subjects d)"
  shows "\<exists>st'. deliver_key d subject key v results st = Some (Inr (), st') \<and> holds_values d st'"
  using assms(2,5)
proof (induction results arbitrary: st)
  case (Cons s results)
  show ?case
  proof (cases "subject_source (d_subjects d ! s) = SubjectProjected \<lparr> proj_source = subject, proj_kind = MapValue key \<rparr>")
    case True
    then have "subject < s"
      using ok Cons.prems(2) by (force simp: subjects_ok_def)
    then have "sval d s = Some v"
      using sval_projected [of s d, OF _ True] Cons.prems(2) assms(3,4) by (simp add: project_value_eqs)
    then obtain st' where "exec_set s v st = (Inr (), st')" "holds_values d st'"
      using exec_set_holds [OF Cons.prems(1), of s v] Cons.prems(2) by auto
    then show ?thesis
      using Cons.IH [of st'] Cons.prems(2) True by (auto simp: not_le)
  next
    case False
    then show ?thesis
      using Cons.IH [OF Cons.prems(1)] Cons.prems(2) by (auto simp: not_le)
  qed
qed simp

definition leaves_arrived :: "('v, 'r, 't, 'h) Dispatch \<Rightarrow> 't RegionPredicate \<Rightarrow> bool" where
  "leaves_arrived d pred \<longleftrightarrow>
     (case pred_region pred of
        RegionGuard k \<Rightarrow> (\<forall>expr s. nth_or (plan_guards (d_plan d)) k = Some expr \<longrightarrow> LeafSubject s \<in> set (guard_leaves expr) \<longrightarrow> arrived d s)
      | _ \<Rightarrow> arrived d (pred_subject pred))"

text \<open>What the walk relies on at a test: the inputs it reads have arrived, the evidence names subjects of the plan, no
  bitstring field is read and a guard returns.\<close>

definition test_ok :: "('v, 'r, 't, 'h) Dispatch \<Rightarrow> 't RegionPredicate \<Rightarrow> 't EdgeEvidence \<Rightarrow> bool" where
  "test_ok d pred evidence \<longleftrightarrow> leaves_arrived d pred
     \<and> (\<forall>k expr. pred_region pred = RegionGuard k \<longrightarrow> nth_or (plan_guards (d_plan d)) k = Some expr \<longrightarrow> guard_returns d expr)
     \<and> (\<forall>shape. pred_region pred = RegionBitstring shape \<longrightarrow> shape_fields shape = [])
     \<and> (\<forall>s \<in> set (ev_projections evidence). s < length (d_subjects d) \<and> arrived d s)"

abbreviation run_answer :: "('v, 'r, 't, 'h) Dispatch \<Rightarrow> 't RegionPredicate \<Rightarrow> bool" where
  "run_answer d \<equiv> answer (run_reading d) (plan_guards (d_plan d)) (d_subjects d)"

lemma run_reading_simps [simp]:
  "w_reader (run_reading d) = d_reader d" "w_guard (run_reading d) = d_guard d" "w_pin (run_reading d) = pin_at d" "value_of (run_reading d) (d_subjects d) = sval d"
  by (simp_all add: run_reading_def sval_def)

lemma region_hit_spec:
  assumes ok: "subjects_ok (d_subjects d)" "no_fields (d_subjects d)" and test: "test_ok d (RegionPredicate_new s region) evidence" and st: "holds_values d st"
  shows "\<exists>st'. region_hit d s region evidence st = Some (Inr (run_answer d (RegionPredicate_new s region)), st') \<and> holds_values d st'"
proof (cases "\<exists>k. region = RegionGuard k")
  case True
  then obtain k where k: "region = RegionGuard k"
    by blast
  show ?thesis
  proof (cases "k < length (plan_guards (d_plan d))")
    case True
    then have "\<And>s. LeafSubject s \<in> set (guard_leaves (plan_guards (d_plan d) ! k)) \<Longrightarrow> arrived d s"
      using test by (simp add: test_ok_def leaves_arrived_def k nth_or_def)
    from run_guard_spec(1) [OF ok st this]
    obtain st' where st': "run_guard d (plan_guards (d_plan d) ! k) st
        = Some (eval_guard (d_guard d) (sval d) (pin_at d) (plan_guards (d_plan d) ! k), st')" "holds_values d st'"
      by blast
    have "guard_returns d (plan_guards (d_plan d) ! k)"
      using test True by (simp add: test_ok_def k nth_or_def)
    then show ?thesis
      using missed_guard [of d "plan_guards (d_plan d) ! k" st'] st' True by (auto simp: region_hit_def k nth_or_def answer_def)
  qed (use st in \<open>simp add: region_hit_def k nth_or_def answer_def\<close>)
next
  case False
  then have arrived: "arrived d s"
    using test by (auto simp: test_ok_def leaves_arrived_def split: Region.splits)
  obtain st1 where st1: "subject_word d s st = Some (required (sval d s), st1)" "holds_values d st1"
    using subject_word_spec [OF ok arrived st] by blast
  obtain st2 where st2: "resolve_subject d s st = Some (case sval d s of None \<Rightarrow> Inl NoMatch | Some _ \<Rightarrow> Inr (), st2)" "holds_values d st2"
    "\<forall>v. sval d s = Some v \<longrightarrow> exec_get st2 s = Some v"
    using resolve_subject_spec [OF ok arrived st] by blast
  obtain st3 where st3: "subject_word d s st2 = Some (required (sval d s), st3)" "holds_values d st3"
    using subject_word_spec [OF ok arrived st2(2)] by blast
  show ?thesis
  proof (cases region)
    case (RegionType ty)
    then show ?thesis
      using st2 by (cases "sval d s") (auto simp: region_hit_def is_some_and_def required_def missed_ok_def or_miss_def)
  next
    case (RegionTupleArity n)
    then show ?thesis
      using st2(1,2) st3 by (cases "sval d s") (auto simp: region_hit_def is_some_and_def missed_ok_def or_miss_def required_def)
  next
    case (RegionEqual c)
    then show ?thesis
      using st1 by (cases c) (auto simp: region_hit_def Let_def)
  next
    case (RegionList l)
    then show ?thesis
      using st1 by (cases l) (auto simp: region_hit_def Let_def)
  next
    case RegionMapKind
    then show ?thesis
      using st1 by (auto simp: region_hit_def Let_def)
  next
    case (RegionMapKeyPresent key)
    show ?thesis
    proof (cases "Option.bind (sval d s) (rd_map_get (d_reader d) key)")
      case None
      then show ?thesis
        using st1 RegionMapKeyPresent by (cases "sval d s") (auto simp: region_hit_def Let_def is_some_and_def)
    next
      case (Some v)
      then obtain parent where p: "sval d s = Some parent" "rd_map_get (d_reader d) key parent = Some v"
        by (auto simp: bind_eq_Some_conv)
      have "\<forall>s \<in> set (ev_projections evidence). s < length (d_subjects d)"
        using test by (simp add: test_ok_def)
      from deliver_key_spec [OF ok(1) st1(2) p this] show ?thesis
        using st1 RegionMapKeyPresent p by (auto simp: region_hit_def Let_def is_some_and_def)
    qed
  next
    case (RegionBitstring shape)
    then have "shape_fields shape = []"
      using test by (simp add: test_ok_def)
    then show ?thesis
      using st1 RegionBitstring
      by (cases "sval d s") (auto simp: region_hit_def Let_def is_some_and_def read_bitstring_def shape_holds_def split: option.splits)
  qed (use False in blast)
qed

section \<open>The walk decides\<close>

text \<open>A test that holds delivers its evidence: a tuple of the asked arity has its fields, a non-empty list a head and a
  tail, and a value of a struct's type the fields the pattern names.\<close>

definition delivers :: "('v, 'r, 't, 'h) Dispatch \<Rightarrow> 't RegionPredicate \<Rightarrow> 't EdgeEvidence \<Rightarrow> bool" where
  "delivers d pred evidence \<longleftrightarrow> (run_answer d pred \<longrightarrow> (\<forall>s \<in> set (ev_projections evidence). sval d s \<noteq> None))"

lemma apply_edge_evidence_spec:
  assumes ok: "subjects_ok (d_subjects d)" "no_fields (d_subjects d)" and "holds_values d st"
    and "\<forall>s \<in> set ps. arrived d s \<and> sval d s \<noteq> None"
  shows "\<exists>st'. apply_edge_evidence d ps st = Some (Inr (), st') \<and> holds_values d st'"
  using assms(3,4)
proof (induction ps arbitrary: st)
  case (Cons s ps)
  obtain st' where "resolve_subject d s st = Some (Inr (), st')" "holds_values d st'"
    using resolve_subject_spec [OF ok, of s st] Cons.prems by (auto split: option.splits)
  then show ?case
    using Cons by simp
qed simp

lemma took_match_spec:
  assumes ok: "subjects_ok (d_subjects d)" "no_fields (d_subjects d)" and test: "test_ok d pred evidence" "delivers d pred evidence" and st: "holds_values d st"
  shows "\<exists>st'. took_match d pred evidence st = Some (Inr (run_answer d pred), st') \<and> holds_values d st'"
proof -
  have pred: "pred = RegionPredicate_new (pred_subject pred) (pred_region pred)"
    by (cases pred) (simp add: RegionPredicate_new_def)
  obtain st1 where st1: "region_hit d (pred_subject pred) (pred_region pred) evidence st = Some (Inr (run_answer d pred), st1)" "holds_values d st1"
    using region_hit_spec [OF ok, of "pred_subject pred" "pred_region pred" evidence st] test(1) st pred by metis
  show ?thesis
  proof (cases "run_answer d pred")
    case True
    then have "\<forall>s \<in> set (ev_projections evidence). arrived d s \<and> sval d s \<noteq> None"
      using test by (simp add: test_ok_def delivers_def)
    then obtain st2 where "apply_edge_evidence d (ev_projections evidence) st1 = Some (Inr (), st2)" "holds_values d st2"
      using apply_edge_evidence_spec [OF ok st1(2)] by blast
    then show ?thesis
      using st1 True by (simp add: took_match_def missed_ok_def or_miss_def)
  qed (use st1 in \<open>simp add: took_match_def\<close>)
qed

lemma exec_node_decides:
  assumes "decides (graph_nodes (plan_graph (d_plan d))) (run_answer d) n res"
    and ok: "subjects_ok (d_subjects d)" "no_fields (d_subjects d)"
    and tests: "\<And>pred yes no. NodeTest pred yes no \<in> set (graph_nodes (plan_graph (d_plan d))) \<Longrightarrow> test_ok d pred (edge_evidence yes) \<and> delivers d pred (edge_evidence yes)"
    and "holds_values d st"
  shows "\<exists>st'. exec_node d n st = Some (required res, st')"
  using assms(1,5)
proof (induction arbitrary: st rule: decides.induct)
  case (fail n)
  then show ?case
    by (subst exec_node.simps) (simp add: graph_node_def required_def)
next
  case (outcome n oc ev)
  then show ?case
    by (subst exec_node.simps) (simp add: graph_node_def required_def)
next
  case (matched n pred yes no r)
  then have "NodeTest pred yes no \<in> set (graph_nodes (plan_graph (d_plan d)))"
    by (metis nth_mem)
  from took_match_spec [OF ok conjunct1 [OF tests [OF this]] conjunct2 [OF tests [OF this]] matched.prems]
  obtain st' where "took_match d pred (edge_evidence yes) st = Some (Inr True, st')" "holds_values d st'"
    using matched.hyps by auto
  then show ?case
    using matched.IH [of st'] matched.hyps by (subst exec_node.simps) (auto simp: graph_node_def)
next
  case (missed n pred yes no r)
  then have "NodeTest pred yes no \<in> set (graph_nodes (plan_graph (d_plan d)))"
    by (metis nth_mem)
  from took_match_spec [OF ok conjunct1 [OF tests [OF this]] conjunct2 [OF tests [OF this]] missed.prems]
  obtain st' where "took_match d pred (edge_evidence yes) st = Some (Inr False, st')" "holds_values d st'"
    using missed.hyps by auto
  then show ?case
    using missed.IH [OF undo_holds, of st' "exec_branch st"] missed.hyps by (subst exec_node.simps) (auto simp: graph_node_def)
qed

section \<open>Compiled rows\<close>

lemma subject_covered_arrived:
  assumes "subjects_ok subs" and "subject_covered subs dem s demand" and "demand \<noteq> Ignore" and "subject_root subs s = Some (Some i)"
  shows "i < length dem \<and> asks_anything (dem ! i)"
proof (cases "s < length subs")
  case True
  then obtain d' where "subject_demand subs s demand = Some (Some (i, d'))" "d' \<noteq> Ignore"
    using subject_walk [OF assms(1)] assms(3,4) by fastforce
  then show ?thesis
    using assms(2) by (auto simp: subject_covered_def asks_anything_def)
next
  case False
  then show ?thesis
    using assms(4) by (simp add: subject_root.simps)
qed

text \<open>A plan's demand covers what its tests read, so the run needs only the inputs the plan requires.\<close>

lemma demanded_tests:
  assumes b: "building subs inputs b" and ok: "subjects_ok subs" and subs: "d_subjects d = subs" and leaves: "in_guard_leaves inputs = map guard_leaves (plan_guards (d_plan d))"
    and demanded: "\<And>i. i < length (gb_input_demand b) \<Longrightarrow> asks_anything (gb_input_demand b ! i) \<Longrightarrow> \<exists>v. nth_or (d_inputs d) i = Some (Some v)"
    and node: "NodeTest pred yes no \<in> set (gb_nodes b)"
  shows "leaves_arrived d pred" "\<forall>s \<in> set (ev_projections (edge_evidence yes)). s < length (d_subjects d) \<and> arrived d s"
proof -
  have cov: "predicate_covered subs inputs (gb_input_demand b) pred"
    using b node by (auto simp: building_def node_covered_def)
  have arrives: "arrived d s" if "subject_covered subs (gb_input_demand b) s demand" "demand \<noteq> Ignore" for s demand
    using subject_covered_arrived [OF ok that] demanded by (auto simp: arrived_def subs)
  show "leaves_arrived d pred"
  proof (cases "pred_region pred")
    case (RegionGuard k)
    show ?thesis
      using cov RegionGuard
      by (auto simp: leaves_arrived_def predicate_covered_def guard_covered_def leaves nth_or_def intro: arrives [of _ Whole] split: if_splits dest!: bspec)
  qed (use cov in \<open>auto simp: leaves_arrived_def predicate_covered_def demand_for_region_def intro: arrives split: ComparisonValue.splits\<close>)
  have "rides_charged_input b s" if "s \<in> set (ev_projections (edge_evidence yes))" for s
    using b node that by (auto simp: building_def node_projections_def dest!: bspec)
  then show "\<forall>s \<in> set (ev_projections (edge_evidence yes)). s < length (d_subjects d) \<and> arrived d s"
    using b demanded by (force simp: rides_charged_input_def building_def arrived_def subs subject_root.simps [of subs] split: option.splits if_splits)
qed

definition input_at :: "'v option list \<Rightarrow> nat \<Rightarrow> 'v option" where
  "input_at inputs i = Option.bind (nth_or inputs i) (\<lambda>x. x)"

text \<open>The operands of a run agree with its plan: every input the plan requires has arrived and every pin has its value.\<close>

definition operands_ok :: "('v, 'r, 't, 'h) Dispatch \<Rightarrow> (string \<Rightarrow> 'v option) \<Rightarrow> bool" where
  "operands_ok d names \<longleftrightarrow> list_all (\<lambda>i. required_input (d_plan d) i \<longrightarrow> input_at (d_inputs d) i \<noteq> None) [0..<length (graph_input_demand (plan_graph (d_plan d)))]
     \<and> map Some (d_pinned d) = map (\<lambda>pin. names (pin_name pin)) (plan_pinned (d_plan d))"

definition test_delivers :: "('v, 'r, 't, 'h) Dispatch \<Rightarrow> 't DispatchNode \<Rightarrow> bool" where
  "test_delivers d node \<longleftrightarrow>
     (case node of NodeTest pred yes _ \<Rightarrow> delivers d pred (edge_evidence yes) \<and> (case pred_region pred of RegionBitstring shape \<Rightarrow> shape_fields shape = [] | _ \<Rightarrow> True)
      | _ \<Rightarrow> True)"

lemma Dispatch_run_decides:
  assumes "decides (graph_nodes (plan_graph (d_plan d))) (run_answer d) (graph_root (plan_graph (d_plan d))) res"
    and "subjects_ok (d_subjects d)" "no_fields (d_subjects d)"
    and "\<And>pred yes no. NodeTest pred yes no \<in> set (graph_nodes (plan_graph (d_plan d))) \<Longrightarrow> test_ok d pred (edge_evidence yes) \<and> delivers d pred (edge_evidence yes)"
  shows "Dispatch_run d = Some (Inr res)"
proof -
  obtain st' where "exec_node d (graph_root (plan_graph (d_plan d))) (DispatchExecState_new (length (d_subjects d))) = Some (required res, st')"
    using exec_node_decides [OF assms(1-3) _ holds_new] assms(4) by blast
  then show ?thesis
    by (cases res) (simp_all add: Dispatch_run_def or_miss_def required_def)
qed

lemma run_reading_input: "w_input (run_reading d) = input_at (d_inputs d)"
  by (simp add: run_reading_def input_at_def fun_eq_iff)

lemma answer_w_name: "answer (w\<lparr> w_name := f \<rparr>) = answer w"
  by (simp add: answer_def value_of_def fun_eq_iff split: Region.split)

lemma pinned_operands:
  assumes "operands_ok d names" and "plan_pinned (d_plan d) = pp_pinned p"
  shows "pins_agree ((run_reading d)\<lparr> w_name := names \<rparr>) p"
proof -
  note pins = assms(1) [unfolded operands_ok_def assms(2), THEN conjunct2]
  have "pin_at d i = names (pin_name (pp_pinned p ! i))" if "i < length (pp_pinned p)" for i
    using that arg_cong [OF pins, of "\<lambda>xs. xs ! i"] arg_cong [OF pins, of length] by (simp add: pin_at_def nth_or_def)
  then show ?thesis
    by (simp add: pins_agree_def)
qed

text \<open>
  C7.  The interpreter runs a compiled plan to the decision of the source rows.  Take a plan of well-formed rows that reads
  no bitstring fields, on inputs that are single runtime values.  Where every required input has arrived and every
  pin has its value, no guard of the plan panics or breaks on these values (division by zero, overflow, a helper that
  does), and a test that holds delivers the parts its evidence names, the run ends with a decision, and that is the first row
  in source order whose patterns match, whose preconditions hold and whose guard is true.
\<close>

theorem Dispatch_run_first_row:
  fixes d :: "('v, 'r, 't, 'h) Dispatch" and rs :: "('m, 'x, 't, 'c, 'h) Resolver"
  assumes "rows_wf patterns" and "pattern_dispatch_from_source_with_resolver rs patterns = Some (Inr (d_plan d))"
    and "operands_ok d (pin_of (input_at (d_inputs d)) lexical (sp_prematch patterns))" and "no_fields (d_subjects d)"
    and "list_all (guard_returns d) (plan_guards (d_plan d))" and "list_all (test_delivers d) (graph_nodes (plan_graph (d_plan d)))"
  shows "Dispatch_run d = Some (Inr (first_row (row_match rs (d_reader d) (d_guard d) (pin_of (input_at (d_inputs d)) lexical (sp_prematch patterns)) (input_at (d_inputs d))) (sp_rows patterns)))"
proof -
  let ?names = "pin_of (input_at (d_inputs d)) lexical (sp_prematch patterns)" and ?plan = "d_plan d"
  obtain p0 p c where p: "PatternDispatchProducer_new rs patterns = Inr p0" "add_rows rs (sp_rows patterns) p0 = Inr p"
    and c: "compile_dispatch_matrix \<lparr> mx_subjects = subs_of p, mx_outcomes = mb_outcomes (pp_builder p), mx_arms = mb_arms (pp_builder p) \<rparr> (plan_inputs p) = Some (Inr c)"
      "plan_graph ?plan = compiled_graph c" "plan_guards ?plan = pp_guards p" "plan_pinned ?plan = pp_pinned p"
    using plan_compiled [OF assms(2)] by metis
  define w where "w = (run_reading d)\<lparr> w_name := ?names \<rparr>"
  note rows = added_rows [OF assms(1) p]
  have matrix: "matrix_ok \<lparr> mx_subjects = subs_of p, mx_outcomes = mb_outcomes (pp_builder p), mx_arms = mb_arms (pp_builder p) \<rparr> (plan_inputs p)"
    by (rule rows_matrix_ok [OF rows(1) [of w]]) (use assms(1) rows(2,3) in \<open>simp add: rows_wf_def\<close>)
  show ?thesis
  proof (rule compile_ordered_arms_graph [OF matrix])
    fix root and b :: "'t DispatchGraphBuilder" and st
    assume compiled: "compile_dispatch_matrix \<lparr> mx_subjects = subs_of p, mx_outcomes = mb_outcomes (pp_builder p), mx_arms = mb_arms (pp_builder p) \<rparr> (plan_inputs p)
        = Some (Inr \<lparr> compiled_graph = \<lparr> graph_subjects = mx_subjects \<lparr> mx_subjects = subs_of p, mx_outcomes = mb_outcomes (pp_builder p), mx_arms = mb_arms (pp_builder p) \<rparr>,
            graph_nodes = gb_nodes b, graph_root = root, graph_input_demand = gb_input_demand b \<rparr>, compiled_stats = st \<rparr>)"
      and b: "building (mx_subjects \<lparr> mx_subjects = subs_of p, mx_outcomes = mb_outcomes (pp_builder p), mx_arms = mb_arms (pp_builder p) \<rparr>) (plan_inputs p) b"
      and first: "\<And>ans. decides (gb_nodes b) ans root (first_match ans (mx_arms \<lparr> mx_subjects = subs_of p, mx_outcomes = mb_outcomes (pp_builder p), mx_arms = mb_arms (pp_builder p) \<rparr>))"
    have graph: "plan_graph ?plan = \<lparr> graph_subjects = subs_of p, graph_nodes = gb_nodes b, graph_root = root, graph_input_demand = gb_input_demand b \<rparr>"
      using compiled c by simp
    have subs: "subjects_ok (subs_of p)"
      using matrix by (simp add: matrix_ok_def)
    have "\<exists>v. nth_or (d_inputs d) i = Some (Some v)" if "i < length (gb_input_demand b)" "asks_anything (gb_input_demand b ! i)" for i
      using assms(3) that by (auto simp: operands_ok_def list_all_iff required_input_def graph input_at_def bind_eq_Some_conv)
    then have tests: "test_ok d pred (edge_evidence yes) \<and> delivers d pred (edge_evidence yes)" if "NodeTest pred yes no \<in> set (gb_nodes b)" for pred yes no
      using demanded_tests [OF b [simplified] subs, of d pred yes no] that assms(5,6)
      by (auto simp: test_ok_def graph c(3) plan_inputs_def list_all_iff test_delivers_def nth_or_def split: if_splits dest!: bspec)
    have rd: "rows_done w rs p (sp_rows patterns)"
      by (rule rows(1))
    then have len: "length (mb_arms (pp_builder p)) = length (sp_rows patterns)" "length (pp_outcomes p) = length (sp_rows patterns)"
      by (auto simp: rows_done_def dest!: arg_cong [where f = length])
    have agree: "pins_agree w p"
      unfolding w_def by (rule pinned_operands [OF assms(3) c(4)])
    have "first_match (run_answer d) (mb_arms (pp_builder p))
        = first_row (row_match rs (d_reader d) (d_guard d) ?names (input_at (d_inputs d))) (sp_rows patterns)"
      using first_match_rows [of w rs p "sp_rows patterns" _ _ 0, OF _ len agree] rd
      by (simp add: rows_done_def plus_0_map w_def answer_w_name run_reading_input c(3) graph)
    then show ?thesis
      using Dispatch_run_decides [of d] first [of "run_answer d"] tests subs assms(4) by (simp add: graph)
  qed
qed

text \<open>The plan of the two tagged rows, run on a pair that the guard of the first row refuses.\<close>

definition plan_from :: "('m, 'x, 't, 'c, 'h) Resolver \<Rightarrow> ('m, 'x, 't) SourcePatternRows \<Rightarrow> ('t, 'h) PatternDispatchPlan" where
  "plan_from rs patterns = (case pattern_dispatch_from_source_with_resolver rs patterns of Some (Inr plan) \<Rightarrow> plan | _ \<Rightarrow> undefined)"

definition tagged_run :: "small_term \<Rightarrow> (small_term, unit, unit, unit) Dispatch" where
  "tagged_run v = \<lparr> d_reader = small_reader, d_guard = small_guard, d_plan = plan_from no_resolver tagged_rows, d_inputs = [Some v], d_pinned = [] \<rparr>"

theorem Dispatch_run_first_row_witness:
  "Dispatch_run (tagged_run (Tup [Num 0, Num 0])) = Some (Inr (Some 1))"
proof -
  let ?d = "tagged_run (Tup [Num 0, Num 0])"
  obtain plan where "pattern_dispatch_from_source_with_resolver no_resolver tagged_rows = Some (Inr plan)"
    using tagged_plan by blast
  then have plan: "pattern_dispatch_from_source_with_resolver no_resolver tagged_rows = Some (Inr (d_plan ?d))"
    by (simp add: tagged_run_def plan_from_def)
  have operands: "operands_ok ?d (pin_of (input_at (d_inputs ?d)) (\<lambda>_. None) (sp_prematch tagged_rows))"
    by code_simp
  have fields: "no_fields (d_subjects ?d)"
    by code_simp
  have guards: "list_all (guard_returns ?d) (plan_guards (d_plan ?d))"
    by code_simp
  have tests: "list_all (test_delivers ?d) (graph_nodes (plan_graph (d_plan ?d)))"
    by code_simp
  have "first_row (row_match no_resolver (d_reader ?d) (d_guard ?d) (pin_of (input_at (d_inputs ?d)) (\<lambda>_. None) (sp_prematch tagged_rows)) (input_at (d_inputs ?d))) (sp_rows tagged_rows) = Some 1"
    by code_simp
  then show ?thesis
    using Dispatch_run_first_row [OF tagged_rows_wf plan operands fields guards tests] by simp
qed

section \<open>Fields that two shapes share\<close>

text \<open>
  Two patterns on one map key ask two shapes of one subject, and fields with the same layout are one subject.  Here the
  second shape of the first row asks for more bits than there are, and both rows share the first shape.
\<close>

datatype bits_term = Bits "bool list" | Entry bits_term

definition bits_reader :: "(bits_term, bool list, unit) Reader" where
  "bits_reader = \<lparr> rd_is_tuple = (\<lambda>_ _. False), rd_tuple_field = (\<lambda>_ _. None), rd_struct_field = (\<lambda>_ _. None),
     rd_is_empty = (\<lambda>_. False), rd_is_cons = (\<lambda>_. False), rd_head = (\<lambda>_. None), rd_tail = (\<lambda>_. None),
     rd_is_map = (\<lambda>v. case v of Entry _ \<Rightarrow> True | _ \<Rightarrow> False),
     rd_map_get = (\<lambda>key v. case v of Entry x \<Rightarrow> if key = GroundAtom ''k'' then Some x else None | _ \<Rightarrow> None),
     rd_type = (\<lambda>_ _. False), rd_const_eq = (\<lambda>_ _. False), rd_value_eq = (=), rd_as_size = (\<lambda>_. None),
     rd_bits_init = (\<lambda>v. case v of Bits bs \<Rightarrow> Some bs | _ \<Rightarrow> None),
     rd_bits_read = (\<lambda>_ _ _ _ _ sz bs. case sz of Some n \<Rightarrow> if n \<le> length bs then Some (Bits (take n bs), drop n bs) else None | None \<Rightarrow> None),
     rd_bits_done = (\<lambda>bs. bs = []) \<rparr>"

definition bits_guard :: "(bits_term, unit) GuardOps" where
  "bits_guard = \<lparr> gd_const = (\<lambda>_. None), gd_falsy = (\<lambda>v. v = Bits [False]), gd_bool = (\<lambda>b. Bits [b]), gd_neg = (\<lambda>_. None),
     gd_int = (\<lambda>_. None), gd_of_int = (\<lambda>n. Bits []), gd_eq = (\<lambda>v u. Some (v = u)), gd_cmp = (\<lambda>_ _. None), gd_helper = (\<lambda>_ _. Inl NoMatch) \<rparr>"

definition bit_field :: "string \<Rightarrow> nat \<Rightarrow> unit Pattern BitField" where
  "bit_field name n = BitField (PatVar name) \<lparr> bs_ty = BitInteger, bs_size = Some (BitSizeLiteral n), bs_endian = EndianBig, bs_signed = False, bs_unit = None \<rparr>"

definition shadow_rows :: "(unit, unit, unit) SourcePatternRows" where
  "shadow_rows = SourcePatternRows_lexical 1
     [\<lparr> row_patterns = [PatMap [(PatAtom ''k'', PatBitstring [bit_field ''a'' 1, bit_field ''b'' 1]),
                               (PatAtom ''k'', PatBitstring [bit_field ''a'' 1, bit_field ''c'' 2])]],
        row_preconditions = [], row_guard = None, row_body_id = 0 \<rparr>,
      \<lparr> row_patterns = [PatMap [(PatAtom ''k'', PatBitstring [bit_field ''x'' 1, bit_field ''y'' 1])]],
        row_preconditions = [], row_guard = Some (ExprVar ''x''), row_body_id = 1 \<rparr>]"

definition bits_run :: "bool list \<Rightarrow> (bits_term, bool list, unit, unit) Dispatch" where
  "bits_run bs = \<lparr> d_reader = bits_reader, d_guard = bits_guard, d_plan = plan_from no_resolver shadow_rows, d_inputs = [Some (Entry (Bits bs))], d_pinned = [] \<rparr>"

text \<open>
  C34.  A failed shape takes fields of another shape with it.  A write of a slot that is already known is journalled
  too, so the undo of the second shape clears the field that the first shape had read.  The second row matches the
  two bits in the source, its bound first bit is true and so is its guard, but the run does not find the field any
  more, the guard cannot be read and the run answers that no row matches.
\<close>

theorem undo_forgets_shared_field:
  "first_row (row_match no_resolver bits_reader bits_guard (pin_of (input_at [Some (Entry (Bits [True, False]))]) (\<lambda>_. None) (sp_prematch shadow_rows))
      (input_at [Some (Entry (Bits [True, False]))])) (sp_rows shadow_rows) = Some 1
    \<and> Dispatch_run (bits_run [True, False]) = Some (Inr None)"
proof
  show "first_row (row_match no_resolver bits_reader bits_guard (pin_of (input_at [Some (Entry (Bits [True, False]))]) (\<lambda>_. None) (sp_prematch shadow_rows))
      (input_at [Some (Entry (Bits [True, False]))])) (sp_rows shadow_rows) = Some 1"
    by code_simp
  show "Dispatch_run (bits_run [True, False]) = Some (Inr None)"
    by code_simp
qed

end
