(* ===== verification/Fz_PatternDemand.thy ===== *)
theory Fz_PatternDemand
  imports Fz_PatternRows
begin

text \<open>
  A plan reads no more of its inputs than its \<open>input_demand\<close> states.  The demand of a graph charges
  the pins that size bitstring fields where a shape is tested; a question below such a field reads
  the pin too.  The producer asks the shape first, so every pin a question of an arm reads is charged
  by a shape question of the same arm, the compiler keeps the questions of an arm in order, and the
  graph tests every shape whose sizes it reads.
\<close>

section \<open>Pins read and pins charged\<close>

definition shape_pins :: "Subject list \<Rightarrow> 't RegionPredicate \<Rightarrow> PinnedValueId set" where
  "shape_pins subs pred =
     (case pred_region pred of
        RegionBitstring shape \<Rightarrow> {q. \<exists>f \<in> set (shape_fields shape). pinned_size subs f = Some q}
      | _ \<Rightarrow> {})"

lemma shape_pinsE:
  assumes "q \<in> shape_pins subs pred"
  obtains shape f where "pred_region pred = RegionBitstring shape" "f \<in> set (shape_fields shape)" "pinned_size subs f = Some q"
  using assms by (auto simp: shape_pins_def split: Region.splits)

definition charged :: "Subject list \<Rightarrow> 't RegionQuestion list \<Rightarrow> PinnedValueId set" where
  "charged subs qs = (\<Union>q \<in> set qs. shape_pins subs (q_predicate q))"

definition pins_read :: "PlanInputs \<Rightarrow> Subject list \<Rightarrow> 't RegionPredicate \<Rightarrow> PinnedValueId set" where
  "pins_read inputs subs pred = (\<Union>s \<in> subjects_read inputs pred. subject_pins subs s)"

text \<open>Every question reads pins of a given set, of earlier shapes, or of its own.\<close>

fun sized_from :: "PlanInputs \<Rightarrow> Subject list \<Rightarrow> PinnedValueId set \<Rightarrow> 't RegionQuestion list \<Rightarrow> bool" where
  "sized_from inputs subs K [] \<longleftrightarrow> True"
| "sized_from inputs subs K (q # qs) \<longleftrightarrow>
     pins_read inputs subs (q_predicate q) \<subseteq> K \<union> shape_pins subs (q_predicate q)
     \<and> sized_from inputs subs (K \<union> shape_pins subs (q_predicate q)) qs"

lemma charged_simps [simp]:
  "charged subs [] = {}" "charged subs (q # qs) = shape_pins subs (q_predicate q) \<union> charged subs qs"
  "charged subs (qs @ qs') = charged subs qs \<union> charged subs qs'"
  by (auto simp: charged_def)

lemma sized_from_mono: "sized_from inputs subs K qs \<Longrightarrow> K \<subseteq> K' \<Longrightarrow> sized_from inputs subs K' qs"
proof (induction qs arbitrary: K K')
  case (Cons q qs)
  then show ?case
    using Cons.IH [of "K \<union> shape_pins subs (q_predicate q)" "K' \<union> shape_pins subs (q_predicate q)"] by auto
qed simp

lemma sized_from_append:
  "sized_from inputs subs K (qs @ qs') \<longleftrightarrow> sized_from inputs subs K qs \<and> sized_from inputs subs (K \<union> charged subs qs) qs'"
  by (induction qs arbitrary: K) (simp_all add: Un_assoc)

lemma sized_from_reads: "sized_from inputs subs K qs \<Longrightarrow> q \<in> set qs \<Longrightarrow> pins_read inputs subs (q_predicate q) \<subseteq> K \<union> charged subs qs"
  by (induction qs arbitrary: K) fastforce+

section \<open>The compiler keeps the order\<close>

definition node_tests :: "'t DispatchNode list \<Rightarrow> 't RegionPredicate set" where
  "node_tests nodes = {p. \<exists>yes no. NodeTest p yes no \<in> set nodes}"

definition nodes_charge :: "Subject list \<Rightarrow> 't DispatchNode list \<Rightarrow> PinnedValueId set" where
  "nodes_charge subs nodes = (\<Union>p \<in> node_tests nodes. shape_pins subs p)"

definition nodes_sized :: "PlanInputs \<Rightarrow> Subject list \<Rightarrow> PinnedValueId set \<Rightarrow> 't DispatchNode list \<Rightarrow> bool" where
  "nodes_sized inputs subs K nodes \<longleftrightarrow> (\<forall>p \<in> node_tests nodes. pins_read inputs subs p \<subseteq> K \<union> nodes_charge subs nodes)"

lemma node_tests_simps [simp]:
  "node_tests [] = {}" "node_tests (xs @ ys) = node_tests xs \<union> node_tests ys"
  "node_tests (into_test_node q yes no # nodes) = insert (q_predicate q) (node_tests nodes)"
  "node_tests (NodeOutcome out ev # nodes) = node_tests nodes" "node_tests (NodeFail # nodes) = node_tests nodes"
  by (auto simp: node_tests_def into_test_node_def)

lemma nodes_charge_append [simp]: "nodes_charge subs (xs @ ys) = nodes_charge subs xs \<union> nodes_charge subs ys"
  by (simp add: nodes_charge_def)

lemma nodes_sized_append: "nodes_sized inputs subs K xs \<Longrightarrow> nodes_sized inputs subs K ys \<Longrightarrow> nodes_sized inputs subs K (xs @ ys)"
  unfolding nodes_sized_def by (simp add: ball_Un) blast

lemma test_node_nodes: "test_node q yes no s = Some (i, s') \<Longrightarrow> nodes_of s' = nodes_of s @ [into_test_node q yes no]"
  by (auto simp: test_node_def dest: add_node_nodes split: prod.splits Option.bind_splits)

lemma outcome_node_nodes: "outcome_node arm s = Some (i, s') \<Longrightarrow> nodes_of s' = nodes_of s @ [NodeOutcome (arm_outcome arm) (arm_evidence arm)]"
  by (auto simp: outcome_node_def dest: add_node_nodes split: prod.splits Option.bind_splits)

lemma test_chain_nodes:
  "test_chain qs current on_miss s = Some (i, s') \<Longrightarrow> \<exists>new. nodes_of s' = nodes_of s @ new \<and> node_tests new = q_predicate ` set qs"
proof (induction qs arbitrary: current s)
  case (Cons q qs)
  then obtain current' s1 where s1: "test_node q current on_miss s = Some (current', s1)" and rest: "test_chain qs current' on_miss s1 = Some (i, s')"
    by (auto split: Option.bind_splits)
  obtain new where "nodes_of s' = nodes_of s1 @ new" "node_tests new = q_predicate ` set qs"
    using Cons.IH [OF rest] by blast
  then show ?case
    using test_node_nodes [OF s1] by (intro exI [of _ "into_test_node q current on_miss # new"]) simp
qed simp

lemma compile_single_arm_sized:
  assumes "compile_single_arm arm on_miss s = Some (i, s')" and "sized_from inputs subs K (acs_questions arm)"
  shows "\<exists>new. nodes_of s' = nodes_of s @ new \<and> nodes_sized inputs subs K new"
proof -
  obtain current s1 where s1: "outcome_node (acs_arm arm) s = Some (current, s1)"
    and chain: "test_chain (rev (acs_questions arm)) current on_miss s1 = Some (i, s')"
    using assms(1) by (auto simp: compile_single_arm_def split: Option.bind_splits)
  obtain new where new: "nodes_of s' = nodes_of s1 @ new" "node_tests new = q_predicate ` set (acs_questions arm)"
    using test_chain_nodes [OF chain] by auto
  have "nodes_sized inputs subs K (NodeOutcome (arm_outcome (acs_arm arm)) (arm_evidence (acs_arm arm)) # new)"
    using sized_from_reads [OF assms(2)] by (simp add: nodes_sized_def nodes_charge_def new(2) charged_def)
  then show ?thesis
    using new(1) outcome_node_nodes [OF s1] by (intro exI [of _ "NodeOutcome (arm_outcome (acs_arm arm)) (arm_evidence (acs_arm arm)) # new"]) simp
qed

lemma compile_arm_sequence_sized:
  assumes "compile_arm_sequence arms fallback s = Some (i, s')" and "\<forall>arm \<in> set arms. sized_from inputs subs K (acs_questions arm)"
  shows "\<exists>new. nodes_of s' = nodes_of s @ new \<and> nodes_sized inputs subs K new"
  using assms
proof (induction arms fallback s arbitrary: i s' K rule: compile_arm_sequence.induct)
  case (1 fallback s)
  then show ?case
    by (auto simp: nodes_sized_def)
next
  case (2 first rest fallback s)
  show ?case
  proof (cases "acs_questions first")
    case Nil
    then show ?thesis
      using "2.prems"(1) outcome_node_nodes [of "acs_arm first" s i s'] by (auto simp: nodes_sized_def)
  next
    case (Cons q qs)
    define shared where "shared = takeWhile (asks_first q) (first # rest)"
    obtain b st where s: "s = (b, st)" by (cases s)
    let ?counted = "st\<lparr> st_shared_prefix_tests := st_shared_prefix_tests st + 1 \<rparr>" and ?K = "K \<union> shape_pins subs (q_predicate q)"
    have eq: "compile_arm_sequence (first # rest) fallback s = (if 1 < length shared then
         do { (after_shared, s1) \<leftarrow> compile_arm_sequence (drop (length shared) (first # rest)) fallback (b, ?counted);
              (on_match, s2) \<leftarrow> compile_arm_sequence (map strip_first shared) after_shared s1;
              test_node q on_match after_shared s2 }
       else do { (on_miss, s1) \<leftarrow> compile_arm_sequence rest fallback s; compile_single_arm first on_miss s1 })"
      by (simp only: compile_arm_sequence.simps Cons list.case Let_def shared_def s prod.case)
    show ?thesis
    proof (cases "1 < length shared")
      case True
      obtain after s1 on_match s2 where after: "compile_arm_sequence (drop (length shared) (first # rest)) fallback (b, ?counted) = Some (after, s1)"
        and inside: "compile_arm_sequence (map strip_first shared) after s1 = Some (on_match, s2)"
        and test: "test_node q on_match after s2 = Some (i, s')"
        using "2.prems"(1) unfolding eq if_P [OF True] by (auto simp: bind_eq_Some_conv)
      have "\<forall>arm \<in> set (drop (length shared) (first # rest)). sized_from inputs subs K (acs_questions arm)"
        using "2.prems"(2) by (meson in_set_dropD)
      then obtain new1 where new1: "nodes_of s1 = nodes_of s @ new1" "nodes_sized inputs subs K new1"
        using "2.IH"(1) [OF Cons shared_def True s [symmetric] after, of K] by (auto simp: s)
      have arm: "sized_from inputs subs ?K (acs_questions (strip_first arm)) \<and> pins_read inputs subs (q_predicate q) \<subseteq> ?K" if "arm \<in> set shared" for arm
      proof -
        have "arm \<in> set (first # rest)" "asks_first q arm"
          using set_takeWhileD [OF that [unfolded shared_def]] by simp_all
        then obtain qs' where "acs_questions arm = q # qs'" "sized_from inputs subs K (acs_questions arm)"
          using "2.prems"(2) by (auto simp: asks_first_def split: list.splits)
        then show ?thesis
          by (simp add: strip_first_def)
      qed
      obtain new2 where new2: "nodes_of s2 = nodes_of s1 @ new2" "nodes_sized inputs subs ?K new2"
        using "2.IH"(2) [OF Cons shared_def True s [symmetric] after _ inside, of ?K] arm by auto
      have "pins_read inputs subs (q_predicate q) \<subseteq> ?K"
        using arm [of "hd shared"] True by (cases shared) auto
      then have "nodes_sized inputs subs K (new2 @ [into_test_node q on_match after])"
        using new2(2) unfolding nodes_sized_def by (simp add: nodes_charge_def) blast
      then show ?thesis
        using new1 new2(1) test_node_nodes [OF test] nodes_sized_append [OF new1(2)]
        by (intro exI [of _ "new1 @ new2 @ [into_test_node q on_match after]"]) simp
    next
      case False
      obtain on_miss s1 where miss: "compile_arm_sequence rest fallback s = Some (on_miss, s1)" and single: "compile_single_arm first on_miss s1 = Some (i, s')"
        using "2.prems"(1) unfolding eq if_not_P [OF False] by (auto simp: bind_eq_Some_conv)
      obtain new1 where new1: "nodes_of s1 = nodes_of s @ new1" "nodes_sized inputs subs K new1"
        using "2.IH"(3) [OF Cons shared_def False miss, of K] "2.prems"(2) by auto
      obtain new2 where "nodes_of s' = nodes_of s1 @ new2" "nodes_sized inputs subs K new2"
        using compile_single_arm_sized [OF single, of inputs subs K] "2.prems"(2) by auto
      then show ?thesis
        using new1 nodes_sized_append by (intro exI [of _ "new1 @ new2"]) simp
    qed
  qed
qed

lemma sizes_testedI:
  assumes "nodes_sized inputs (graph_subjects g) {} (graph_nodes g)"
  shows "sizes_tested inputs g"
  unfolding sizes_tested_def
proof (intro allI impI ballI)
  fix p yes no s q
  assume "NodeTest p yes no \<in> set (graph_nodes g)" "s \<in> subjects_read inputs p" "q \<in> subject_pins (graph_subjects g) s"
  then have "q \<in> nodes_charge (graph_subjects g) (graph_nodes g)"
    using assms unfolding nodes_sized_def node_tests_def pins_read_def by blast
  then show "\<exists>p' yes' no' shape. NodeTest p' yes' no' \<in> set (graph_nodes g) \<and> pred_region p' = RegionBitstring shape
      \<and> (\<exists>f \<in> set (shape_fields shape). pinned_size (graph_subjects g) f = Some q)"
    unfolding nodes_charge_def node_tests_def by (blast elim: shape_pinsE)
qed

lemma compiled_sizes_tested:
  assumes "matrix_ok matrix inputs" and "compile_dispatch_matrix matrix inputs = Some (Inr c)"
    and "\<forall>arm \<in> set (mx_arms matrix). sized_from inputs (mx_subjects matrix) {} (arm_questions arm)"
  shows "sizes_tested inputs (compiled_graph c)"
proof (rule sizes_testedI)
  let ?b0 = "DispatchGraphBuilder_typed (mx_subjects matrix) inputs :: 'a DispatchGraphBuilder"
  obtain fallback s root b st where fb: "fallback_node (?b0, DispatchCompileStats_default\<lparr> st_arms := length (mx_arms matrix) \<rparr>) = Some (fallback, s)"
    and seq: "compile_arm_sequence (map (\<lambda>arm. \<lparr> acs_arm = arm, acs_questions = arm_questions arm \<rparr>) (mx_arms matrix)) fallback s = Some (root, b, st)"
    and built: "DispatchGraphBuilder_build root b = Some (Inr (compiled_graph c))"
    using assms(2) by (auto simp: compile_dispatch_matrix_def compile_ordered_arms_def split: Option.bind_splits sum.splits)
  have "nodes_of s = [NodeFail]"
    using fb by (auto simp: fallback_node_def add_node_def charge_node_def DispatchGraphBuilder_typed_def)
  moreover obtain new where "gb_nodes b = nodes_of s @ new" "nodes_sized inputs (mx_subjects matrix) {} new"
    using compile_arm_sequence_sized [OF seq, of inputs "mx_subjects matrix" "{}"] assms(3) by auto
  ultimately have "nodes_sized inputs (mx_subjects matrix) {} (gb_nodes b)"
    by (simp add: nodes_sized_def nodes_charge_def)
  moreover have "compiled_graph c = \<lparr> graph_subjects = gb_subjects b, graph_nodes = gb_nodes b, graph_root = root, graph_input_demand = gb_input_demand b \<rparr>"
    using built by (auto simp: DispatchGraphBuilder_build_def split: sum.splits Option.bind_splits)
  ultimately show "nodes_sized inputs (graph_subjects (compiled_graph c)) {} (graph_nodes (compiled_graph c))"
    using compiled_covered(2) [OF assms(1,2)] by simp
qed

section \<open>The producer asks the shape first\<close>

lemma pinned_size_append: "f < length subs \<Longrightarrow> pinned_size (subs @ extra) f = pinned_size subs f"
  by (simp add: pinned_size_def nth_append)

lemma subject_pins_append: "s < length subs \<Longrightarrow> subject_pins (subs @ extra) s = subject_pins subs s"
proof (induction s rule: less_induct)
  case (less s)
  have "subject_pins (subs @ extra) t = subject_pins subs t" if "t < s" for t
    using less that by simp
  then show ?case
    using less.prems pinned_size_append [OF less.prems, of extra]
    by (subst (1 2) subject_pins.simps)
      (simp add: nth_append split: SubjectSource.split ProjectionKind.split option.split)
qed

lemma subject_pins_later: "later p p' \<Longrightarrow> s < length (subs_of p) \<Longrightarrow> subject_pins (subs_of p') s = subject_pins (subs_of p) s"
  by (auto simp: later_def subject_pins_append)

lemma shape_pins_later:
  assumes "later p p'" and "q_ok p q"
  shows "shape_pins (subs_of p') (q_predicate q) = shape_pins (subs_of p) (q_predicate q)"
  using assms by (auto simp: shape_pins_def later_def q_ok_def pinned_size_append split: Region.split)

lemma pins_read_later:
  assumes "later p p'" and "q_ok p q"
  shows "pins_read (plan_inputs p') (subs_of p') (q_predicate q) = pins_read (plan_inputs p) (subs_of p) (q_predicate q)"
proof -
  obtain guards where g: "pp_guards p' = pp_guards p @ guards"
    using assms(1) by (auto simp: later_def)
  have reads: "subjects_read (plan_inputs p') (q_predicate q) = subjects_read (plan_inputs p) (q_predicate q)"
    using assms(2) by (auto simp: subjects_read_def plan_inputs_def q_ok_def g nth_append split: Region.splits)
  have "s < length (subs_of p)" if "s \<in> subjects_read (plan_inputs p) (q_predicate q)" for s
    using assms(2) that
    by (auto simp: subjects_read_def plan_inputs_def q_ok_def known_def leaf_ok_def list_all_iff split: Region.splits if_splits)
  then show ?thesis
    using subject_pins_later [OF assms(1)] by (simp add: pins_read_def reads)
qed

lemma charged_later: "later p p' \<Longrightarrow> \<forall>q \<in> set qs. q_ok p q \<Longrightarrow> charged (subs_of p') qs = charged (subs_of p) qs"
  by (simp add: charged_def shape_pins_later)

lemma sized_from_later:
  "later p p' \<Longrightarrow> \<forall>q \<in> set qs. q_ok p q \<Longrightarrow> sized_from (plan_inputs p') (subs_of p') K qs = sized_from (plan_inputs p) (subs_of p) K qs"
  by (induction qs arbitrary: K) (simp_all add: shape_pins_later pins_read_later)

text \<open>The pins on the way to a path.\<close>

fun ref_pins :: "Subject list \<Rightarrow> PatternSubjectRef \<Rightarrow> PinnedValueId set" where
  "ref_pins subs (RefInput n) = {}"
| "ref_pins subs (RefTupleField ref _) = ref_pins subs ref"
| "ref_pins subs (RefStructField ref _) = ref_pins subs ref"
| "ref_pins subs (RefListHead ref) = ref_pins subs ref"
| "ref_pins subs (RefListTail ref) = ref_pins subs ref"
| "ref_pins subs (RefMapValue ref _) = ref_pins subs ref"
| "ref_pins subs (RefSubject s) = subject_pins subs s"

lemma denotes_pins: "denotes subs ref s \<Longrightarrow> subject_pins subs s = ref_pins subs ref"
proof (induction ref arbitrary: s)
  case (RefInput n)
  then show ?case by (auto simp: subject_pins.simps)
next
  case (RefTupleField ref x2)
  then show ?case by (auto simp: subject_pins.simps [of subs s])
next
  case (RefStructField ref x2)
  then show ?case by (auto simp: subject_pins.simps [of subs s])
next
  case (RefListHead ref)
  then show ?case by (auto simp: subject_pins.simps [of subs s])
next
  case (RefListTail ref)
  then show ?case by (auto simp: subject_pins.simps [of subs s])
next
  case (RefMapValue ref x2)
  then show ?case by (auto simp: subject_pins.simps [of subs s])
qed auto

lemma ref_pins_later: "later p p' \<Longrightarrow> ref_known p ref \<Longrightarrow> ref_pins (subs_of p') ref = ref_pins (subs_of p) ref"
  by (induction ref) (auto simp: known_def subject_pins_later)

text \<open>
  A step of the producer adds questions and bindings that read pins of a given set only, beside
  those its own shapes charge.
\<close>

definition reads_within :: "PinnedValueId set \<Rightarrow> ('t, 'h) producing \<Rightarrow> ('t, 'h) producing \<Rightarrow> bool" where
  "reads_within K s s' \<longleftrightarrow> (case s of (qs, bs, p) \<Rightarrow> case s' of (qs', bs', p') \<Rightarrow> producer_ok p' \<and> later p p'
     \<and> (\<exists>nq nb. qs' = qs @ nq \<and> bs' = bs @ nb \<and> (\<forall>q \<in> set nq. q_ok p' q) \<and> (\<forall>b \<in> set nb. known p' (binding_source b))
         \<and> sized_from (plan_inputs p') (subs_of p') K nq
         \<and> (\<forall>b \<in> set nb. subject_pins (subs_of p') (binding_source b) \<subseteq> K \<union> charged (subs_of p') nq)))"

lemma reads_withinI:
  assumes "emitted w (qs, bs, p) (qs @ nq, bs @ nb, p') m" and "sized_from (plan_inputs p') (subs_of p') K nq"
    and "\<And>b. b \<in> set nb \<Longrightarrow> subject_pins (subs_of p') (binding_source b) \<subseteq> K \<union> charged (subs_of p') nq"
  shows "reads_within K (qs, bs, p) (qs @ nq, bs @ nb, p')"
  using assms by (auto simp: reads_within_def emitted_def grows_def)

lemma reads_within_seq:
  assumes "reads_within K (qs, bs, p) (qs @ nq1, bs @ nb1, p1)" and "reads_within (K \<union> charged (subs_of p1) nq1) (qs @ nq1, bs @ nb1, p1) s2"
  shows "reads_within K (qs, bs, p) s2"
proof -
  have p1: "producer_ok p1" "later p p1" and q1: "\<forall>q \<in> set nq1. q_ok p1 q" "\<forall>b \<in> set nb1. known p1 (binding_source b)"
    and s1: "sized_from (plan_inputs p1) (subs_of p1) K nq1" "\<forall>b \<in> set nb1. subject_pins (subs_of p1) (binding_source b) \<subseteq> K \<union> charged (subs_of p1) nq1"
    using assms(1) by (auto simp: reads_within_def)
  obtain nq2 nb2 p2 where s2: "s2 = ((qs @ nq1) @ nq2, (bs @ nb1) @ nb2, p2)" and p2: "producer_ok p2" "later p1 p2"
    and q2: "\<forall>q \<in> set nq2. q_ok p2 q" "\<forall>b \<in> set nb2. known p2 (binding_source b)"
    and r2: "sized_from (plan_inputs p2) (subs_of p2) (K \<union> charged (subs_of p1) nq1) nq2"
      "\<forall>b \<in> set nb2. subject_pins (subs_of p2) (binding_source b) \<subseteq> (K \<union> charged (subs_of p1) nq1) \<union> charged (subs_of p2) nq2"
    using assms(2) by (cases s2) (auto simp: reads_within_def)
  have "\<forall>q \<in> set nq1. q_ok p2 q" "\<forall>b \<in> set nb1. known p2 (binding_source b)"
    using q1 q_ok_later [OF p1(1) _ p2(2)] known_later [OF p1(1) p2(2)] by blast+
  moreover have "charged (subs_of p2) nq1 = charged (subs_of p1) nq1" "sized_from (plan_inputs p2) (subs_of p2) K nq1"
    using charged_later [OF p2(2) q1(1)] sized_from_later [OF p2(2) q1(1)] s1(1) by simp_all
  moreover have "subject_pins (subs_of p2) (binding_source b) \<subseteq> K \<union> charged (subs_of p1) nq1" if "b \<in> set nb1" for b
    using q1(2) s1(2) that subject_pins_later [OF p2(2), of "binding_source b"] by (simp add: known_def)
  then have "\<forall>b \<in> set (nb1 @ nb2). subject_pins (subs_of p2) (binding_source b) \<subseteq> K \<union> (charged (subs_of p1) nq1 \<union> charged (subs_of p2) nq2)"
    using r2(2) by (auto simp del: Un_iff)
  ultimately show ?thesis
    using p2(1) q2 r2(1) later_trans [OF p1(2) p2(2)] unfolding reads_within_def s2
    by (auto simp: sized_from_append intro!: exI [of _ "nq1 @ nq2"] exI [of _ "nb1 @ nb2"])
qed

lemma reads_within_mono: "reads_within K s s' \<Longrightarrow> K \<subseteq> K' \<Longrightarrow> reads_within K' s s'"
  unfolding reads_within_def by (fastforce elim: sized_from_mono split: prod.splits)

lemma reads_within_trans:
  assumes "reads_within K s s1" and "reads_within K s1 s2"
  shows "reads_within K s s2"
proof -
  obtain qs bs p nq nb p1 where s: "s = (qs, bs, p)" "s1 = (qs @ nq, bs @ nb, p1)"
    using assms(1) by (cases s; cases s1) (auto simp: reads_within_def)
  show ?thesis
    using reads_within_seq [of K qs bs p nq nb p1 s2] assms reads_within_mono [OF assms(2), of "K \<union> charged (subs_of p1) nq"] by (simp add: s)
qed

lemma reads_within_none: "producer_ok (state_of s) \<Longrightarrow> reads_within K s s"
  by (auto simp: reads_within_def split: prod.splits)

text \<open>A path a step may ask about.\<close>

abbreviation reachable :: "PinnedValueId set \<Rightarrow> ('t, 'h) PatternDispatchProducer \<Rightarrow> PatternSubjectRef \<Rightarrow> bool" where
  "reachable K p ref \<equiv> producer_ok p \<and> ref_known p ref \<and> ref_pins (subs_of p) ref \<subseteq> K"

lemma reachable_later: "reachable K p ref \<Longrightarrow> producer_ok p' \<Longrightarrow> later p p' \<Longrightarrow> reachable K p' ref"
  using ref_known_later [of p p' ref] ref_pins_later [of p p' ref] by simp

lemma reachable_next: "reads_within K' s s' \<Longrightarrow> reachable K (state_of s) ref \<Longrightarrow> reachable K (state_of s') ref"
  using reachable_later [of "state_of s" ref K "state_of s'"] by (auto simp: reads_within_def split: prod.splits)

lemma asked_subject:
  assumes "reachable K p ref" and "(subject_id_of ref p :: 'm SourcePatternError + _) = Inr (s, p')"
  shows "producer_ok p'" "later p p'" "known p' s" "denotes (subs_of p') ref s" "subject_pins (subs_of p') s \<subseteq> K" "reachable K p' ref"
proof -
  have "interned p p' ref s"
    using subject_id_of_spec [OF _ _ assms(2)] assms(1) by blast
  then show facts: "producer_ok p'" "later p p'" "known p' s" "denotes (subs_of p') ref s"
    by (simp_all add: interned_def grows_def)
  then show "reachable K p' ref"
    using reachable_later [OF assms(1)] by blast
  then show "subject_pins (subs_of p') s \<subseteq> K"
    using denotes_pins [OF facts(4)] by simp
qed

lemma question_within:
  assumes "producer_ok p'" "later p p'" "known p' s" "subject_pins (subs_of p') s \<subseteq> K"
    and "q_predicate q = RegionPredicate_new s region" "\<And>k. region \<noteq> RegionGuard k" "\<And>shape. region \<noteq> RegionBitstring shape"
    and "list_all2 (denotes (subs_of p')) refs (projections q)" "\<And>r. r \<in> set refs \<Longrightarrow> ref_root (subs_of p') r = subject_root (subs_of p') s"
  shows "reads_within K (qs, bs, p) (qs @ [q], bs, p')"
proof -
  have "t < length (subs_of p') \<and> subject_root (subs_of p') t = subject_root (subs_of p') s" if t: "t \<in> set (projections q)" for t
  proof -
    obtain r where "r \<in> set refs" "denotes (subs_of p') r t"
      using assms(8) t by (metis in_set_conv_nth list_all2_conv_all_nth)
    then show ?thesis
      using assms(9) [of r] denotes_root [of "subs_of p'" r t] denotes_length [of "subs_of p'" r t] by simp
  qed
  then have "q_ok p' q"
    using assms(3,5-7) by (intro q_okI [of _ s _ region]) auto
  moreover have "pins_read (plan_inputs p') (subs_of p') (q_predicate q) \<subseteq> K"
    using assms(4-7) by (auto simp: pins_read_def subjects_read_def split: Region.splits)
  ultimately show ?thesis
    using assms(1,2) by (auto simp: reads_within_def)
qed

lemma ask_within:
  assumes "reachable K (state_of s) ref" and "(ask ref question s :: 'm SourcePatternError + _) = Inr s'"
    and "\<And>s. q_predicate (question s) = RegionPredicate_new s region" "\<And>s. projections (question s) = []"
    and "\<And>k. region \<noteq> RegionGuard k" "\<And>shape. region \<noteq> RegionBitstring shape"
  shows "reads_within K s s'"
proof -
  obtain qs bs p where s: "s = (qs, bs, p)" by (cases s)
  obtain t p' where t: "(subject_id_of ref p :: 'm SourcePatternError + _) = Inr (t, p')" and s': "s' = (qs @ [question t], bs, p')"
    using assms(2) by (auto simp: ask_def and_ok_Inr s)
  note a = asked_subject [OF _ t, of K]
  show ?thesis
    unfolding s s' using a assms by (intro question_within [of p' p t K _ region "[]"]) (auto simp: s)
qed

lemma bind_within:
  assumes "reachable K (state_of s) ref" and "(bind_name name ref s :: 'm SourcePatternError + _) = Inr s'"
  shows "reads_within K s s'"
proof -
  obtain qs bs p where s: "s = (qs, bs, p)" by (cases s)
  obtain t p' where t: "(subject_id_of ref p :: 'm SourcePatternError + _) = Inr (t, p')"
    and s': "s' = (qs, bs @ [\<lparr> binding_name = name, binding_source = t \<rparr>], p')"
    using assms(2) by (auto simp: bind_name_def and_ok_Inr s)
  show ?thesis
    using asked_subject [OF _ t, of K] assms(1) by (simp add: reads_within_def s s')
qed

subsection \<open>The fields of a shape\<close>

definition linked :: "Subject list \<Rightarrow> SubjectId \<Rightarrow> SubjectId list \<Rightarrow> bool" where
  "linked subs source shapes \<longleftrightarrow> (\<forall>f \<in> set shapes. f < length subs \<and> (\<exists>ex.
     subject_source (subs ! f) = SubjectProjected \<lparr> proj_source = source, proj_kind = BitstringField ex \<rparr>
     \<and> (\<forall>g. ex_previous ex = Some g \<longrightarrow> g \<in> set shapes)))"

lemma linked_later: "later p p' \<Longrightarrow> linked (subs_of p) source shapes \<Longrightarrow> linked (subs_of p') source shapes"
  by (fastforce simp: linked_def later_def nth_append)

lemma linked_snoc:
  assumes "linked subs source shapes" and "f < length subs"
    and "subject_source (subs ! f) = SubjectProjected \<lparr> proj_source = source, proj_kind = BitstringField ex \<rparr>"
    and "\<And>g. ex_previous ex = Some g \<Longrightarrow> g \<in> set shapes"
  shows "linked subs source (shapes @ [f])"
  using assms unfolding linked_def by fastforce

lemma linked_pins:
  assumes "linked subs source shapes"
  shows "f \<in> set shapes \<Longrightarrow> subject_pins subs f \<subseteq> subject_pins subs source \<union> {q. \<exists>f \<in> set shapes. pinned_size subs f = Some q}"
proof (induction f rule: less_induct)
  case (less f)
  obtain ex where f: "f < length subs" "subject_source (subs ! f) = SubjectProjected \<lparr> proj_source = source, proj_kind = BitstringField ex \<rparr>"
    and prev: "\<And>g. ex_previous ex = Some g \<Longrightarrow> g \<in> set shapes"
    using assms less.prems by (auto simp: linked_def)
  let ?all = "subject_pins subs source \<union> {q. \<exists>f \<in> set shapes. pinned_size subs f = Some q}"
  have "subject_pins subs g \<subseteq> ?all" if "ex_previous ex = Some g" "g < f" for g
    using less.IH [OF that(2) prev [OF that(1)]] .
  moreover have "set_option (pinned_size subs f) \<subseteq> ?all"
    using less.prems by auto
  ultimately show ?case
    unfolding subject_pins.simps [of subs f] using f by (simp split: option.split)
qed

lemma bitstring_fields_linked:
  assumes "producer_ok p" and "known p source" and "linked (subs_of p) source shapes"
    and "(bitstring_fields source bits names shapes p :: 'm SourcePatternError + _) = Inr (shapes', p')"
  shows "producer_ok p' \<and> later p p' \<and> linked (subs_of p') source shapes'"
  using assms
proof (induction bits arbitrary: names shapes p)
  case (Cons field rest)
  let ?spec = "bf_spec field"
  obtain sz p1 where sz: "field_size_of names (bs_size ?spec) p = (sz, p1)"
    by fastforce
  define ex where "ex = \<lparr> ex_previous = (if shapes = [] then None else Some (last shapes)),
    ex_spec = \<lparr> field_kind = bitstring_field_kind (bs_ty ?spec), field_size = sz, field_endian = bs_endian ?spec,
                field_signed = bs_signed ?spec, field_unit = bs_unit ?spec \<rparr>, ex_is_last = (rest = []) \<rparr>"
  obtain names' f p2 where f: "(project_subject source (BitstringField ex) p1 :: 'm SourcePatternError + _) = Inr (f, p2)"
    and rest: "(bitstring_fields source rest names' (shapes @ [f]) p2 :: 'm SourcePatternError + _) = Inr (shapes', p')"
    using Cons.prems(4) by (auto simp: sz and_ok_Inr Let_def ex_def)
  note p1 = field_size_of_spec [OF Cons.prems(1) sz]
  have later1: "later p p1" and known1: "known p1 source"
    using p1(2) known_later [OF Cons.prems(1) _ Cons.prems(2)] by (auto simp: grows_def)
  have link1: "linked (subs_of p1) source shapes"
    using linked_later [OF later1 Cons.prems(3)] .
  have prev: "g \<in> set shapes" if "ex_previous ex = Some g" for g
    using that by (auto simp: ex_def split: if_splits)
  have below: "g < length (subs_of p1)" if "BitstringField ex = BitstringField ex'" "ex_previous ex' = Some g" for ex' g
    using that prev link1 by (auto simp: linked_def)
  have p2: "producer_ok p2" "grows p1 p2" "f < length (subs_of p2)"
      "subject_source (subs_of p2 ! f) = SubjectProjected \<lparr> proj_source = source, proj_kind = BitstringField ex \<rparr>"
    by (rule project_subject_spec [OF p1(1) known1 _ f]; use below in blast)+
  have later2: "later p1 p2"
    using p2(2) by (simp add: grows_def)
  have "linked (subs_of p2) source (shapes @ [f])"
    by (rule linked_snoc [OF linked_later [OF later2 link1] p2(3,4) prev])
  then have "producer_ok p' \<and> later p2 p' \<and> linked (subs_of p') source shapes'"
    using Cons.IH [OF p2(1) known_later [OF p1(1) later2 known1] _ rest] by blast
  then show ?case
    using later1 later2 later_trans by blast
qed simp

lemma bitstring_within:
  assumes "reachable K p ref" and "(bitstring_question ref bits p :: 'm SourcePatternError + _) = Inr (ids, q, p')"
  shows "reads_within K (qs, bs, p) (qs @ [q], bs, p')"
    and "\<forall>f \<in> set ids. known p' f \<and> subject_pins (subs_of p') f \<subseteq> K \<union> charged (subs_of p') [q]"
proof -
  obtain s p1 where s: "(subject_id_of ref p :: 'm SourcePatternError + _) = Inr (s, p1)"
    and fields: "(bitstring_fields s bits (\<lambda>_. None) [] p1 :: 'm SourcePatternError + _) = Inr (ids, p')"
    and q: "q = \<lparr> q_predicate = RegionPredicate_new s (RegionBitstring \<lparr> shape_fields = ids, shape_require_done = True \<rparr>),
      q_match_evidence = (from_proof (RegionPredicate_new s (RegionBitstring \<lparr> shape_fields = ids, shape_require_done = True \<rparr>)) Holds)\<lparr> ev_projections := ids \<rparr>,
      q_miss_evidence = from_proof (RegionPredicate_new s (RegionBitstring \<lparr> shape_fields = ids, shape_require_done = True \<rparr>)) DoesNotHold \<rparr>"
    using assms(2) by (auto simp: bitstring_question_def and_ok_Inr Let_def)
  note a = asked_subject [OF assms(1) s]
  have p': "producer_ok p'" "later p1 p'" "linked (subs_of p') s ids"
    using bitstring_fields_linked [OF a(1,3) _ fields] by (simp_all add: linked_def)
  have s': "known p' s" "subject_pins (subs_of p') s \<subseteq> K"
    using known_later [OF a(1) p'(2) a(3)] a(3,5) subject_pins_later [OF p'(2), of s] by (simp_all add: known_def)
  have root: "f < length (subs_of p')" "subject_root (subs_of p') f = subject_root (subs_of p') s" if "f \<in> set ids" for f
    using p'(3) that by (auto simp: linked_def subject_root.simps [of "subs_of p'" f])
  have charge: "charged (subs_of p') [q] = {pin. \<exists>f \<in> set ids. pinned_size (subs_of p') f = Some pin}"
    by (simp add: q shape_pins_def)
  show fields_ok: "\<forall>f \<in> set ids. known p' f \<and> subject_pins (subs_of p') f \<subseteq> K \<union> charged (subs_of p') [q]"
    using linked_pins [OF p'(3)] s' root unfolding charge by (fastforce simp: known_def)
  have "q_ok p' q"
    using s'(1) root by (intro q_okI [of _ s]) (auto simp: q projections_def from_proof_def)
  moreover have "pins_read (plan_inputs p') (subs_of p') (q_predicate q) \<subseteq> K \<union> shape_pins (subs_of p') (q_predicate q)"
    using s'(2) fields_ok by (auto simp: pins_read_def subjects_read_def q)
  ultimately show "reads_within K (qs, bs, p) (qs @ [q], bs, p')"
    using p' later_trans [OF a(2) p'(2)] by (auto simp: reads_within_def)
qed

subsection \<open>Patterns\<close>

lemma const_within:
  assumes "reachable K (state_of s) ref" and "(const_question ref c s :: 'm SourcePatternError + _) = Inr s'"
  shows "reads_within K s s'"
  using ask_within [OF assms(1), of "\<lambda>subject. equality subject (ComparisonConst c)" s' "RegionEqual (ComparisonConst c)"] assms(2)
  by (simp add: const_question_def)

lemma subject_ids_within:
  assumes "producer_ok p" and "\<forall>ref \<in> set refs. ref_known p ref" and "(subject_ids refs p :: 'm SourcePatternError + _) = Inr (ids, p')"
  shows "producer_ok p'" "later p p'" "list_all2 (denotes (subs_of p')) refs ids"
  using subject_ids_spec [OF assms] by (simp_all add: grows_def)

lemma asked_later:
  assumes "reachable K p ref" and "(subject_id_of ref p :: 'm SourcePatternError + _) = Inr (s, p1)" and "producer_ok p2" "later p1 p2"
  shows "later p p2" "known p2 s" "subject_pins (subs_of p2) s \<subseteq> K" "denotes (subs_of p2) ref s" "reachable K p2 ref"
    "ref_root (subs_of p2) ref = subject_root (subs_of p2) s"
proof -
  note a = asked_subject [OF assms(1,2)]
  show "later p p2" "known p2 s" "reachable K p2 ref"
    using later_trans [OF a(2) assms(4)] known_later [OF a(1) assms(4) a(3)] reachable_later [OF a(6) assms(3,4)] by simp_all
  show d: "denotes (subs_of p2) ref s"
    using a(4) assms(4) denotes_append by (auto simp: later_def)
  show "ref_root (subs_of p2) ref = subject_root (subs_of p2) s" "subject_pins (subs_of p2) s \<subseteq> K"
    using denotes_root [OF d] denotes_pins [OF d] \<open>reachable K p2 ref\<close> by simp_all
qed

lemma patterns_within:
  fixes rs :: "('m, 'x, 't, 'c, 'h) Resolver" and s :: "('t, 'h) producing"
  shows "reachable K (state_of s) ref \<Longrightarrow> append_pattern rs pat ref s = Inr s' \<Longrightarrow> reads_within K s s'"
    and "reachable K (state_of s) ref \<Longrightarrow> append_fields rs pats index ref s = Inr s' \<Longrightarrow> reads_within K s s'"
    and "reachable K (state_of s) ref \<Longrightarrow> append_list_pattern rs elems tail ref s = Inr s' \<Longrightarrow> reads_within K s s'"
    and "reachable K (state_of s) ref \<Longrightarrow> known (state_of s) subject \<Longrightarrow> denotes (subs_of (state_of s)) ref subject \<Longrightarrow>
      append_entries rs subject entries ref s = Inr s' \<Longrightarrow> reads_within K s s'"
    and "reachable K (state_of s) ref \<Longrightarrow> append_struct_fields rs field_pats ref s = Inr s' \<Longrightarrow> reads_within K s s'"
    and "producer_ok (state_of s) \<Longrightarrow> \<forall>i \<in> set idents. reachable K (state_of s) (RefSubject i) \<Longrightarrow>
      append_bit_fields rs idents bits s = Inr s' \<Longrightarrow> reads_within K s s'"
proof (induction rs pat ref s and rs pats index ref s and rs elems tail ref s and rs subject entries ref s and rs field_pats ref s and rs idents bits s
    arbitrary: K s' and K s' and K s' and K s' and K s' and K s'
    rule: append_pattern_append_fields_append_list_pattern_append_entries_append_struct_fields_append_bit_fields.induct)
  case (2 rs name ref s)
  then show ?case
    using bind_within by simp
next
  case (3 rs name inner ref s)
  then obtain s1 where s1: "bind_name name ref s = (Inr s1 :: 'm SourcePatternError + _)" "append_pattern rs inner ref s1 = Inr s'"
    by (auto simp: and_ok_Inr)
  have e1: "reads_within K s s1"
    using bind_within [OF "3.prems"(1) s1(1)] .
  show ?case
    using reads_within_trans [OF e1 "3.IH" [OF s1(1) reachable_next [OF e1 "3.prems"(1)] s1(2)]] .
next
  case (4 rs name ref qs bs p)
  then obtain i where "ask ref (\<lambda>subject. equality subject (ComparisonPinned i)) (qs, bs, p) = (Inr s' :: 'm SourcePatternError + _)"
    by (auto split: option.splits)
  then show ?case
    using ask_within [OF "4.prems"(1), of "\<lambda>subject. equality subject (ComparisonPinned i)" s' "RegionEqual (ComparisonPinned i)"] by simp
next
  case (11 rs pats ref qs bs p)
  obtain subject p1 ids p2 where s1: "(subject_id_of ref p :: 'm SourcePatternError + _) = Inr (subject, p1)"
    and ids: "(subject_ids (map (RefTupleField ref) [0..<length pats]) p1 :: 'm SourcePatternError + _) = Inr (ids, p2)"
    and rest: "append_fields rs pats 0 ref (qs @ [tuple_arity subject (length pats) ids], bs, p2) = Inr s'"
    using "11.prems"(2) by (auto simp: and_ok_Inr)
  have p1: "producer_ok p1" "\<forall>r \<in> set (map (RefTupleField ref) [0..<length pats]). ref_known p1 r"
    using asked_subject [OF _ s1, of K] "11.prems"(1) by auto
  note p2 = subject_ids_within [OF p1 ids]
  note a = asked_later [OF _ s1 p2(1,2), of K]
  have e1: "reads_within K (qs, bs, p) (qs @ [tuple_arity subject (length pats) ids], bs, p2)"
    using a "11.prems"(1) p2
    by (intro question_within [of p2 p subject K _ "RegionTupleArity (length pats)" "map (RefTupleField ref) [0..<length pats]"]) auto
  show ?case
    using reads_within_trans [OF e1 "11.IH" [OF s1 _ ids _ reachable_next [OF e1 "11.prems"(1)] rest]] by simp
next
  case (13 rs entries ref qs bs p)
  obtain subject p1 where s1: "(subject_id_of ref p :: 'm SourcePatternError + _) = Inr (subject, p1)"
    and rest: "append_entries rs subject entries ref (qs @ [RegionQuestion_new (RegionPredicate_new subject RegionMapKind)], bs, p1) = Inr s'"
    using "13.prems"(2) by (auto simp: and_ok_Inr)
  note a = asked_subject [OF _ s1, of K]
  have e1: "reads_within K (qs, bs, p) (qs @ [RegionQuestion_new (RegionPredicate_new subject RegionMapKind)], bs, p1)"
    using a "13.prems"(1) by (intro question_within [of p1 p subject K _ RegionMapKind "[]"]) auto
  show ?case
    using reads_within_trans [OF e1 "13.IH" [OF s1 _ reachable_next [OF e1 "13.prems"(1)] _ _ rest]] a(3,4) "13.prems"(1) by simp
next
  case (14 rs module field_pats ref qs bs p)
  obtain ty subject p1 ids p2 where ty: "rs_struct_type rs module = Inr ty"
    and s1: "(subject_id_of ref p :: 'm SourcePatternError + _) = Inr (subject, p1)"
    and ids: "(subject_ids (map (\<lambda>(name, _). RefStructField ref name) field_pats) p1 :: 'm SourcePatternError + _) = Inr (ids, p2)"
    and rest: "append_struct_fields rs field_pats ref (qs @ [struct_question subject ty ids], bs, p2) = Inr s'"
    using "14.prems"(2) by (auto simp: and_ok_Inr)
  have p1: "producer_ok p1" "\<forall>r \<in> set (map (\<lambda>(name, _). RefStructField ref name) field_pats). ref_known p1 r"
    using asked_subject [OF _ s1, of K] "14.prems"(1) by auto
  note p2 = subject_ids_within [OF p1 ids]
  note a = asked_later [OF _ s1 p2(1,2), of K]
  have e1: "reads_within K (qs, bs, p) (qs @ [struct_question subject ty ids], bs, p2)"
    using a "14.prems"(1) p2
    by (intro question_within [of p2 p subject K _ "RegionType ty" "map (\<lambda>(name, _). RefStructField ref name) field_pats"]) auto
  show ?case
    using reads_within_trans [OF e1 "14.IH" [OF ty s1 _ ids _ reachable_next [OF e1 "14.prems"(1)] rest]] by simp
next
  case (15 rs bits ref qs bs p)
  obtain ids q p1 where question: "(bitstring_question ref bits p :: 'm SourcePatternError + _) = Inr (ids, q, p1)"
    and rest: "append_bit_fields rs ids bits (qs @ [q], bs, p1) = Inr s'"
    using "15.prems"(2) by (auto simp: and_ok_Inr)
  have p: "reachable K p ref"
    using "15.prems"(1) by simp
  note e = bitstring_within [OF p question]
  have "producer_ok p1"
    using e(1) by (auto simp: reads_within_def)
  then have "reads_within (K \<union> charged (subs_of p1) [q]) (qs @ [q], bs, p1) s'"
    using "15.IH" [OF question _ _ _ _ rest, where K = "K \<union> charged (subs_of p1) [q]"] e(2) by simp
  then show ?case
    using reads_within_seq [of K qs bs p "[q]" "[]" p1 s'] e(1) by simp
next
  case (17 rs pat pats index ref s)
  obtain s1 where s1: "append_pattern rs pat (RefTupleField ref index) s = Inr s1" and rest: "append_fields rs pats (index + 1) ref s1 = Inr s'"
    using "17.prems"(2) by (auto simp: and_ok_Inr)
  have e1: "reads_within K s s1"
    using "17.prems"(1) by (intro "17.IH"(1) [OF _ s1]) auto
  show ?case
    using reads_within_trans [OF e1 "17.IH"(2) [OF s1 reachable_next [OF e1 "17.prems"(1)] rest]] .
next
  case (18 rs tail ref s)
  show ?case
  proof (cases tail)
    case None
    then show ?thesis
      using ask_within [OF "18.prems"(1), of list_empty s' "RegionList RegionEmpty"] "18.prems"(2) by simp
  next
    case (Some t)
    then show ?thesis
      using "18.IH" [OF Some "18.prems"(1)] "18.prems"(2) by simp
  qed
next
  case (19 rs elem elems tail ref qs bs p)
  obtain subject p1 head p2 tail_id p3 qs' bs' p' where s1: "(subject_id_of ref p :: 'm SourcePatternError + _) = Inr (subject, p1)"
    and s2: "(subject_id_of (RefListHead ref) p1 :: 'm SourcePatternError + _) = Inr (head, p2)"
    and s3: "(subject_id_of (RefListTail ref) p2 :: 'm SourcePatternError + _) = Inr (tail_id, p3)"
    and elem: "append_pattern rs elem (RefListHead ref) (qs @ [list_cons subject head tail_id], bs, p3) = Inr (qs', bs', p')"
    and rest: "(if elems = [] then (case tail of Some t \<Rightarrow> append_pattern rs t (RefListTail ref) (qs', bs', p')
        | None \<Rightarrow> Inr (qs' @ [list_empty tail_id], bs', p')) else append_list_pattern rs elems tail (RefListTail ref) (qs', bs', p')) = Inr s'"
    using "19.prems"(2) by (auto simp: and_ok_Inr)
  have p: "reachable K p ref"
    using "19.prems"(1) by simp
  note a1 = asked_subject [OF p s1]
  have r1: "reachable K p1 (RefListHead ref)"
    using a1(6) by simp
  note a2 = asked_subject [OF r1 s2]
  have r2: "reachable K p2 (RefListTail ref)"
    using a2(6) by simp
  note a3 = asked_subject [OF r2 s3]
  note b1 = asked_later [OF p s1 a3(1) later_trans [OF a2(2) a3(2)]] and b2 = asked_later [OF r1 s2 a3(1,2)]
  have e1: "reads_within K (qs, bs, p) (qs @ [list_cons subject head tail_id], bs, p3)"
    using a3(1,4) b1 b2(4)
    by (intro question_within [of p3 p subject K _ "RegionList RegionCons" "[RefListHead ref, RefListTail ref]"]) (auto simp del: denotes.simps)
  note n1 = reachable_next [OF e1 "19.prems"(1)]
  have e2: "reads_within K (qs @ [list_cons subject head tail_id], bs, p3) (qs', bs', p')"
    using n1 by (intro "19.IH"(1) [OF s1 _ s2 _ s3 _ _ elem]) auto
  have n2: "reachable K (state_of (qs', bs', p')) (RefListTail ref)"
    using reachable_next [OF e2 n1] by simp
  have "reads_within K (qs', bs', p') s'"
  proof (cases "elems = []")
    case False
    then show ?thesis
      using "19.IH"(3) [OF s1 _ s2 _ s3 _ elem _ _ False n2] rest by simp
  next
    case elems: True
    show ?thesis
    proof (cases tail)
      case (Some t)
      then show ?thesis
        using "19.IH"(2) [OF s1 _ s2 _ s3 _ elem _ _ elems Some n2] rest elems by simp
    next
      case None
      have p': "producer_ok p'" "later p3 p'"
        using e2 by (auto simp: reads_within_def)
      have "reads_within K (qs', bs', p') (qs' @ [list_empty tail_id], bs', p')"
        using asked_later [OF r2 s3 p'] p'(1) by (intro question_within [of p' p' tail_id K _ "RegionList RegionEmpty" "[]"]) auto
      then show ?thesis
        using rest elems None by simp
    qed
  qed
  then show ?case
    using reads_within_trans [OF e1 reads_within_trans [OF e2]] by blast
next
  case (21 rs subject key_pat val_pat entries ref qs bs p)
  obtain key value_id p1 s1 where key: "(map_key key_pat :: 'm SourcePatternError + _) = Inr key"
    and val: "(subject_id_of (RefMapValue ref key) (prepare_heap_key key p) :: 'm SourcePatternError + _) = Inr (value_id, p1)"
    and s1: "append_pattern rs val_pat (RefMapValue ref key) (qs @ [map_key_present subject key value_id], bs, p1) = Inr s1"
    and rest: "append_entries rs subject entries ref s1 = Inr s'"
    using "21.prems"(4) by (auto simp: and_ok_Inr)
  have prep: "reachable K (prepare_heap_key key p) (RefMapValue ref key)" "later p (prepare_heap_key key p)"
    using "21.prems"(1) prepare_heap_key_eq [of key p] by (auto simp: later_def)
  note a = asked_subject [OF prep(1) val]
  have later: "later p p1"
    using later_trans [OF prep(2) a(2)] .
  have subj: "known p1 subject" "denotes (subs_of p1) ref subject"
    using "21.prems"(1-3) known_later [OF _ later] later denotes_append by (auto simp: later_def)
  have e1: "reads_within K (qs, bs, p) (qs @ [map_key_present subject key value_id], bs, p1)"
    using a(1,4,6) later subj denotes_root [OF subj(2)] denotes_pins [OF subj(2)]
    by (intro question_within [of p1 p subject K _ "RegionMapKeyPresent key" "[RefMapValue ref key]"]) (auto simp del: denotes.simps)
  note n1 = reachable_next [OF e1 "21.prems"(1)]
  have e2: "reads_within K (qs @ [map_key_present subject key value_id], bs, p1) s1"
    using n1 by (intro "21.IH"(1) [OF key val _ _ s1]) auto
  have "known (state_of s1) subject \<and> denotes (subs_of (state_of s1)) ref subject"
    using e2 subj known_later [OF a(1)] denotes_append by (cases s1) (fastforce simp: later_def reads_within_def)
  then have "reads_within K s1 s'"
    using "21.IH"(2) [OF key val _ s1 reachable_next [OF e2 n1] _ _ rest] by simp
  then show ?case
    using reads_within_trans [OF e1 reads_within_trans [OF e2]] by blast
next
  case (23 rs name pat field_pats ref s)
  obtain s1 where s1: "append_pattern rs pat (RefStructField ref name) s = Inr s1" and rest: "append_struct_fields rs field_pats ref s1 = Inr s'"
    using "23.prems"(2) by (auto simp: and_ok_Inr)
  have e1: "reads_within K s s1"
    using "23.prems"(1) by (intro "23.IH"(1) [OF _ s1]) auto
  show ?case
    using reads_within_trans [OF e1 "23.IH"(2) [OF s1 reachable_next [OF e1 "23.prems"(1)] rest]] .
next
  case (24 rs ident idents field bits s)
  obtain s1 where s1: "append_pattern rs (bf_value field) (RefSubject ident) s = Inr s1" and rest: "append_bit_fields rs idents bits s1 = Inr s'"
    using "24.prems"(3) by (auto simp: and_ok_Inr)
  have e1: "reads_within K s s1"
    using "24.prems"(2) by (intro "24.IH"(1) [OF _ s1]) auto
  have "reachable K (state_of s1) (RefSubject i)" if "i \<in> set (ident # idents)" for i
    by (rule reachable_next [OF e1]) (use "24.prems"(2) that in blast)
  then have "\<forall>i \<in> set idents. reachable K (state_of s1) (RefSubject i)" "producer_ok (state_of s1)"
    by (meson list.set_intros)+
  then show ?case
    using reads_within_trans [OF e1 "24.IH"(2) [OF s1 _ _ rest]] by simp
qed (auto intro: reads_within_none const_within)

subsection \<open>Rows\<close>

lemma append_columns_within:
  assumes "producer_ok (state_of s)" and "append_columns rs pats ordinal s = Inr s'"
  shows "reads_within {} s s'"
  using assms
proof (induction pats arbitrary: ordinal s)
  case (Cons pat pats)
  then obtain s1 where s1: "append_pattern rs pat (RefInput ordinal) s = Inr s1" and rest: "append_columns rs pats (ordinal + 1) s1 = Inr s'"
    by (auto simp: and_ok_Inr)
  have at: "reachable {} (state_of s) (RefInput ordinal)"
    using Cons.prems(1) by simp
  have e1: "reads_within {} s s1"
    using patterns_within(1) [OF at s1] .
  show ?case
    using reads_within_trans [OF e1 Cons.IH [OF _ rest]] reachable_next [OF e1 at] by blast
qed (simp add: reads_within_none)

lemma source_ref_reachable: "source_ref ref \<Longrightarrow> producer_ok p \<Longrightarrow> reachable {} p ref"
  by (induction ref) simp_all

lemma append_preconditions_within:
  assumes "producer_ok (state_of s)" and "list_all (\<lambda>(ref, _). source_ref ref) conds"
    and "(append_preconditions conds s :: 'm SourcePatternError + _) = Inr s'"
  shows "reads_within {} s s'"
  using assms
proof (induction conds arbitrary: s)
  case (Cons cond conds)
  obtain ref ty where c: "cond = (ref, ty)"
    by (cases cond)
  obtain s1 where s1: "(ask ref (\<lambda>subject. type_region subject ty) s :: 'm SourcePatternError + _) = Inr s1"
    and rest: "(append_preconditions conds s1 :: 'm SourcePatternError + _) = Inr s'"
    using Cons.prems(3) by (auto simp: c and_ok_Inr)
  have at: "reachable {} (state_of s) ref"
    using Cons.prems(1,2) source_ref_reachable [of ref "state_of s"] by (simp add: c)
  have e1: "reads_within {} s s1"
    using ask_within [OF at s1, of "RegionType ty"] by simp
  show ?case
    using reads_within_trans [OF e1 Cons.IH [OF _ _ rest]] reachable_next [OF e1 at] Cons.prems(2) by simp
qed (simp add: reads_within_none)

text \<open>The guard of a row reads what the row binds.\<close>

lemma guard_within:
  fixes p :: "('t, 'h) PatternDispatchProducer"
  assumes "producer_ok p" and "\<forall>b \<in> set bs. known p (binding_source b) \<and> subject_pins (subs_of p) (binding_source b) \<subseteq> K"
    and "append_guard rs guard (qs, bs, p) = Inr s'"
  shows "reads_within K (qs, bs, p) s'"
proof (cases guard)
  case None
  then show ?thesis
    using assms by (auto simp: append_guard_def intro: reads_within_none)
next
  case (Some e)
  define bound where "bound = fold (\<lambda>b names. names(binding_name b \<mapsto> binding_source b)) bs (\<lambda>_. None)"
  obtain expr keys where expr: "guard_expr_from_ast rs bound (pp_pinned_by_name p) e (pp_prepared_keys p) = Inr (expr, keys)"
    and s': "s' = (qs @ [RegionQuestion_new (RegionPredicate_new (pp_guard_subject p) (RegionGuard (length (pp_guards p))))], bs,
      p\<lparr> pp_prepared_keys := keys, pp_guards := pp_guards p @ [expr] \<rparr>)"
    using assms(3) Some by (auto simp: append_guard_def bound_def and_ok_Inr Let_def)
  let ?q = "RegionQuestion_new (RegionPredicate_new (pp_guard_subject p) (RegionGuard (length (pp_guards p)))) :: 't RegionQuestion"
  let ?p = "p\<lparr> pp_prepared_keys := keys, pp_guards := pp_guards p @ [expr] \<rparr>"
  have "ran (fold (\<lambda>b names. names(binding_name b \<mapsto> binding_source b)) bs m) \<subseteq> ran m \<union> binding_source ` set bs" for m
    by (induction bs arbitrary: m) (fastforce simp: ran_def split: if_splits)+
  from this [of "\<lambda>_. None"] have "s \<in> binding_source ` set bs" if "LeafSubject s \<in> set (guard_leaves expr)" for s
    using guard_expr_leaves(1) [OF expr that] by (auto simp: bound_def)
  then have leaf: "known p s \<and> subject_pins (subs_of p) s \<subseteq> K" if "LeafSubject s \<in> set (guard_leaves expr)" for s
    using assms(2) that by blast
  have "producer_ok ?p" "later p ?p"
    using assms(1) by (auto simp: producer_ok_def later_def known_def)
  moreover have "q_ok ?p ?q"
    using leaf by (auto simp: q_ok_def list_all_iff leaf_ok_def known_def)
  moreover have "pins_read (plan_inputs ?p) (subs_of ?p) (q_predicate ?q) \<subseteq> K"
    using leaf by (auto simp: pins_read_def subjects_read_def plan_inputs_def nth_append)
  ultimately show ?thesis
    unfolding s' by (auto simp: reads_within_def)
qed

definition arm_sized :: "('t, 'h) PatternDispatchProducer \<Rightarrow> 't DispatchArm \<Rightarrow> bool" where
  "arm_sized p arm \<longleftrightarrow> (\<forall>q \<in> set (arm_questions arm). q_ok p q) \<and> sized_from (plan_inputs p) (subs_of p) {} (arm_questions arm)"

lemma arm_sized_later: "producer_ok p \<Longrightarrow> later p p' \<Longrightarrow> arm_sized p arm \<Longrightarrow> arm_sized p' arm"
  using q_ok_later [of p _ p'] sized_from_later [of p p' "arm_questions arm" "{}"] by (auto simp: arm_sized_def)

lemma row_within:
  fixes rs :: "('m, 'x, 't, 'c, 'h) Resolver"
  assumes "producer_ok p" and "list_all (\<lambda>(ref, _). source_ref ref) (row_preconditions row)"
    and s1: "append_columns rs (row_patterns row) 0 ([], [], p) = Inr s1"
    and s2: "(append_preconditions (row_preconditions row) s1 :: 'm SourcePatternError + _) = Inr s2"
    and s3: "append_guard rs (row_guard row) s2 = Inr s3"
  shows "reads_within {} ([], [], p) s3"
proof -
  have e1: "reads_within {} ([], [], p) s1"
    using append_columns_within [OF _ s1] assms(1) by simp
  then have "producer_ok (state_of s1)"
    by (auto simp: reads_within_def split: prod.splits)
  then have e2: "reads_within {} ([], [], p) s2"
    using reads_within_trans [OF e1 append_preconditions_within [OF _ assms(2) s2]] by blast
  obtain qs bs p2 where s: "s2 = (qs, bs, p2)" by (cases s2)
  have "reads_within (charged (subs_of p2) qs) (qs, bs, p2) s3"
    using e2 s3 by (intro guard_within) (auto simp: reads_within_def s)
  then show ?thesis
    using reads_within_seq [of "{}" "[]" "[]" p qs bs p2 s3] e2 by (simp add: s)
qed

lemma add_row_sized:
  fixes rs :: "('m, 'x, 't, 'c, 'h) Resolver" and w :: "('v, 'r, 't, 'h) Reading"
  assumes "producer_ok p" and "list_all (\<lambda>(ref, _). source_ref ref) (row_preconditions row)" and "add_row rs row p = Inr p'"
    and "\<forall>arm \<in> set (mb_arms (pp_builder p)). arm_sized p arm"
  shows "producer_ok p' \<and> (\<forall>arm \<in> set (mb_arms (pp_builder p')). arm_sized p' arm)"
proof -
  obtain s1 s2 qs bs p3 where s: "append_columns rs (row_patterns row) 0 ([], [], p) = Inr s1"
    "(append_preconditions (row_preconditions row) s1 :: 'm SourcePatternError + _) = Inr s2"
    "append_guard rs (row_guard row) s2 = Inr (qs, bs, p3)"
    and last: "(case add_arm_questions (snd (add_outcome (pp_builder p3) Unique)) qs EdgeEvidence_empty (length (mb_outcomes (pp_builder p3))) of
        Inl e \<Rightarrow> Inl (DispatchMatrixFailed e :: 'm SourcePatternError)
      | Inr (_, b') \<Rightarrow> Inr (p3\<lparr> pp_builder := b', pp_outcomes := pp_outcomes p3 @ [\<lparr> po_body_id = row_body_id row, po_bindings = bs \<rparr>] \<rparr>)) = Inr p'"
    using assms(3) by (auto simp: add_row_def and_ok_Inr add_outcome_def Let_def)
  then obtain i b' where arm: "add_arm_questions (snd (add_outcome (pp_builder p3) Unique)) qs EdgeEvidence_empty (length (mb_outcomes (pp_builder p3))) = Inr (i, b')"
    and p': "p' = p3\<lparr> pp_builder := b', pp_outcomes := pp_outcomes p3 @ [\<lparr> po_body_id = row_body_id row, po_bindings = bs \<rparr>] \<rparr>"
    by (auto split: sum.splits)
  note b' = add_arm_questions_Inr [OF arm]
  have e: "reads_within {} ([], [], p) (qs, bs, p3)"
    using row_within [OF assms(1,2) s] .
  then have p3: "producer_ok p3" "later p p3" "\<forall>q \<in> set qs. q_ok p3 q" "sized_from (plan_inputs p3) (subs_of p3) {} qs"
    by (auto simp: reads_within_def)
  have arms: "mb_arms (pp_builder p') = mb_arms (pp_builder p3) @ [\<lparr> arm_id = length (mb_arms (pp_builder p3)), arm_questions = qs,
      arm_evidence = EdgeEvidence_empty, arm_outcome = length (mb_outcomes (pp_builder p3)) \<rparr>]"
    by (simp add: p' b' add_outcome_def Let_def)
  have same: "later p3 p'" "producer_ok p'"
    using p3(1) by (auto simp: p' b' add_outcome_def later_def Let_def producer_ok_def known_def)
  have "mb_arms (pp_builder p3) = mb_arms (pp_builder p)"
    using row_emits [OF assms(1,2) s, of w] by (simp add: emitted_def grows_def)
  moreover have "arm_sized p' arm" if "arm \<in> set (mb_arms (pp_builder p))" for arm
    using assms(4) that arm_sized_later [OF assms(1) later_trans [OF p3(2) same(1)]] by blast
  moreover have "arm_sized p3 \<lparr> arm_id = length (mb_arms (pp_builder p3)), arm_questions = qs,
      arm_evidence = EdgeEvidence_empty, arm_outcome = length (mb_outcomes (pp_builder p3)) \<rparr>"
    using p3(3,4) by (simp add: arm_sized_def)
  ultimately show ?thesis
    using arm_sized_later [OF p3(1) same(1)] same(2) unfolding arms by auto
qed

lemma add_rows_sized:
  assumes "producer_ok p" and "\<forall>arm \<in> set (mb_arms (pp_builder p)). arm_sized p arm"
    and "\<forall>row \<in> set rows. list_all (\<lambda>(ref, _). source_ref ref) (row_preconditions row)" and "add_rows rs rows p = Inr p'"
  shows "\<forall>arm \<in> set (mb_arms (pp_builder p')). arm_sized p' arm"
  using assms
proof (induction rows arbitrary: p)
  case (Cons row rows)
  obtain p1 where p1: "add_row rs row p = Inr p1" and rest: "add_rows rs rows p1 = Inr p'"
    using Cons.prems(4) by (auto simp: and_ok_Inr)
  show ?case
    using add_row_sized [OF Cons.prems(1) _ p1 Cons.prems(2)] Cons.IH [OF _ _ _ rest] Cons.prems(3) by simp
qed simp

lemma plan_sizes_tested:
  fixes rs :: "('m, 'x, 't, 'c, 'h) Resolver"
  assumes "rows_wf patterns" and "pattern_dispatch_from_source_with_resolver rs patterns = Some (Inr plan)"
  obtains p c where "\<And>w :: ('v, 'r, 't, 'h) Reading. rows_done w rs p (sp_rows patterns)" "pp_prematch p = sp_prematch patterns" "pp_input_count p = sp_input_count patterns"
    "matrix_ok \<lparr> mx_subjects = subs_of p, mx_outcomes = mb_outcomes (pp_builder p), mx_arms = mb_arms (pp_builder p) \<rparr> (plan_inputs p)"
    "compile_dispatch_matrix \<lparr> mx_subjects = subs_of p, mx_outcomes = mb_outcomes (pp_builder p), mx_arms = mb_arms (pp_builder p) \<rparr> (plan_inputs p) = Some (Inr c)"
    "plan_graph plan = compiled_graph c" "plan_guards plan = pp_guards p" "plan_pinned plan = pp_pinned p" "sizes_tested (plan_inputs p) (compiled_graph c)"
proof (rule plan_compiled [OF assms(2)])
  fix p0 p :: "('t, 'h) PatternDispatchProducer" and c
  let ?matrix = "\<lparr> mx_subjects = subs_of p, mx_outcomes = mb_outcomes (pp_builder p), mx_arms = mb_arms (pp_builder p) \<rparr>"
  assume p: "PatternDispatchProducer_new rs patterns = Inr p0" "add_rows rs (sp_rows patterns) p0 = Inr p"
    and c: "compile_dispatch_matrix ?matrix (plan_inputs p) = Some (Inr c)"
    and plan: "plan_graph plan = compiled_graph c" "plan_guards plan = pp_guards p" "plan_pinned plan = pp_pinned p"
  note rows = added_rows [OF assms(1) p]
  have ok: "matrix_ok ?matrix (plan_inputs p)"
    using assms(1) rows by (intro rows_matrix_ok [OF rows(1)]) (simp add: rows_wf_def)
  have "\<forall>arm \<in> set (mb_arms (pp_builder p)). arm_sized p arm"
    using assms(1) first_state_ok [OF p(1)] by (intro add_rows_sized [OF _ _ _ p(2)]) (auto simp: rows_wf_def)
  then have "sizes_tested (plan_inputs p) (compiled_graph c)"
    by (intro compiled_sizes_tested [OF ok c]) (simp add: arm_sized_def)
  then show thesis
    using that rows ok c plan by blast
qed

section \<open>Answers that agree on the demand\<close>

lemma eval_guard_leaves:
  assumes "\<And>s. LeafSubject s \<in> set (guard_leaves e) \<Longrightarrow> subj s = subj' s" and "\<And>q. LeafPinned q \<in> set (guard_leaves e) \<Longrightarrow> pv q = pv' q"
  shows "eval_guard g subj pv e = eval_guard g subj' pv' e"
  using assms
proof (induction e)
  case (GuardBinary op l r)
  then have "eval_guard g subj pv l = eval_guard g subj' pv' l" "eval_guard g subj pv r = eval_guard g subj' pv' r"
    by simp_all
  then show ?case by simp
next
  case (GuardDispatch inputs prepared helper)
  have "eval_guard g subj pv e = eval_guard g subj' pv' e" if e: "e \<in> set inputs" for e
    by (rule GuardDispatch.IH [OF e]; rule GuardDispatch.prems; use e in auto)
  then have "map (eval_guard g subj pv) inputs = map (eval_guard g subj' pv') inputs"
    by simp
  then show ?case
    unfolding eval_guard.simps by (rule arg_cong)
qed simp_all

lemma answer_agrees:
  fixes w w' :: "('v, 'r, 't, 'h) Reading" and p :: "('t, 'h) PatternDispatchProducer"
  defines "inputs \<equiv> plan_inputs p"
  assumes same: "w_reader w' = w_reader w" "w_guard w' = w_guard w"
    and pv: "w_pin w = pin_value inputs (w_input w) scope" "w_pin w' = pin_value inputs (w_input w') scope"
    and ok: "subjects_ok subs" "predicate_covered subs inputs dem pred"
    and ag: "\<And>i. i < length dem \<Longrightarrow> agrees (dem ! i) (w_reader w) (w_input w i) (w_input w' i)"
    and pins: "\<And>s q. s \<in> subjects_read inputs pred \<Longrightarrow> q \<in> subject_pins subs s \<Longrightarrow> w_pin w q = w_pin w' q"
  shows "answer w (pp_guards p) subs pred = answer w' (pp_guards p) subs pred"
proof (cases "\<exists>k. pred_region pred = RegionGuard k")
  case True
  then obtain k where k: "pred_region pred = RegionGuard k"
    by blast
  have leaves: "in_guard_leaves inputs ! k = guard_leaves (pp_guards p ! k)" "k < length (in_guard_leaves inputs)" if "k < length (pp_guards p)"
    using that by (simp_all add: inputs_def plan_inputs_def)
  have "eval_guard (w_guard w) (value_of w subs) (w_pin w) (pp_guards p ! k) = eval_guard (w_guard w) (value_of w' subs) (w_pin w') (pp_guards p ! k)"
    if lt: "k < length (pp_guards p)"
  proof (rule eval_guard_leaves)
    fix s assume "LeafSubject s \<in> set (guard_leaves (pp_guards p ! k))"
    then have "s \<in> subjects_read inputs pred" "subject_covered subs dem s Whole"
      using leaves [OF lt] ok(2) k by (auto simp: subjects_read_def predicate_covered_def guard_covered_def)
    then have "agrees Whole (w_reader w) (subject_value (w_reader w) (w_input w) (w_pin w) subs s) (subject_value (w_reader w) (w_input w') (w_pin w') subs s)"
      using covered_subject [OF ok(1) _ ag, of s Whole "w_pin w" "w_pin w'"] pins by blast
    then show "value_of w subs s = value_of w' subs s"
      by (simp add: value_of_def same)
  next
    fix q assume "LeafPinned q \<in> set (guard_leaves (pp_guards p ! k))"
    then have "pin_covered inputs dem q"
      using leaves [OF lt] ok(2) k by (auto simp: predicate_covered_def guard_covered_def)
    then show "w_pin w q = w_pin w' q"
      unfolding pv by (rule covered_pin [OF _ ag])
  qed
  then show ?thesis
    using k by (auto simp: answer_def same)
next
  case False
  have "answer v (pp_guards p) subs pred = predicate_holds (w_reader v) (\<lambda>_ _. False) inputs subs (w_input v) (w_pin v) pred" for v :: "('v, 'r, 't, 'h) Reading"
    using False by (simp add: answer_def predicate_holds_def split: Region.split)
  then show ?thesis
    using predicate_agrees [OF ok ag, where lexical = scope and guard = "\<lambda>_ _. False"] pins unfolding pv by (simp add: same pv)
qed

text \<open>
  C14.  A plan reads no more of its inputs than its \<open>input_demand\<close> states.  For rows whose preconditions name
  parts of the inputs and whose pins name inputs, when the producer answers a plan, two sets of inputs that agree on
  the demands of the plan's graph (nothing is compared where the demand is \<open>Ignore\<close>, only the arity and the named
  fields under \<open>TupleFields\<close>, only the shape and the head under \<open>ListShape\<close>, everything under \<open>Whole\<close>) select the
  same source row, whatever the readers and guards compute; pins that size bitstring fields, pins that are compared
  with and names a guard captures included.  So a caller may pass anything for an input the plan does not require.
\<close>

theorem plan_reads_only_its_demand:
  fixes r :: "('v, 'r, 't) Reader" and rs :: "('m, 'x, 't, 'c, 'h) Resolver"
  assumes "rows_wf patterns" and "pattern_dispatch_from_source_with_resolver rs patterns = Some (Inr plan)"
    and "\<forall>i < sp_input_count patterns. agrees (graph_input_demand (plan_graph plan) ! i) r (inp i) (inp' i)"
  shows "first_row (row_match rs r g (pin_of inp lexical (sp_prematch patterns)) inp) (sp_rows patterns) =
    first_row (row_match rs r g (pin_of inp' lexical (sp_prematch patterns)) inp') (sp_rows patterns)"
proof (rule plan_sizes_tested [OF assms(1,2)])
  fix p :: "('t, 'h) PatternDispatchProducer" and c :: "'t CompiledDispatchGraph"
  let ?matrix = "\<lparr> mx_subjects = subs_of p, mx_outcomes = mb_outcomes (pp_builder p), mx_arms = mb_arms (pp_builder p) \<rparr>"
  let ?w = "\<lambda>inp. plan_reading r g inp lexical patterns plan" and ?nodes = "graph_nodes (compiled_graph c)"
  define scope where "scope q = (if q < length (pp_pinned p) then lexical (pin_name (pp_pinned p ! q)) else None)" for q
  assume rows: "\<And>w :: ('v, 'r, 't, 'h) Reading. rows_done w rs p (sp_rows patterns)" "pp_prematch p = sp_prematch patterns" "pp_input_count p = sp_input_count patterns"
    and ok: "matrix_ok ?matrix (plan_inputs p)" "compile_dispatch_matrix ?matrix (plan_inputs p) = Some (Inr c)"
    and plan: "plan_graph plan = compiled_graph c" "plan_guards plan = pp_guards p" "plan_pinned plan = pp_pinned p"
    and sizes: "sizes_tested (plan_inputs p) (compiled_graph c)"
  have subs: "subjects_ok (subs_of p)"
    using ok(1) by (simp add: matrix_ok_def)
  have dem: "length (graph_input_demand (compiled_graph c)) = sp_input_count patterns"
    using compiled_covered(1) [OF ok] rows(3) by (simp add: plan_inputs_def)
  have pv: "w_pin (?w inp) = pin_value (plan_inputs p) inp scope" for inp
    by (auto simp: plan_reading_def pin_value_def plan_inputs_def plan scope_def fun_eq_iff cong: option.case_cong)
  have ag: "\<And>i. i < length (graph_input_demand (compiled_graph c)) \<Longrightarrow> agrees (graph_input_demand (compiled_graph c) ! i) r (inp i) (inp' i)"
    using assms(3) by (simp add: plan dem)
  have "answer (?w inp) (pp_guards p) (subs_of p) pred = answer (?w inp') (pp_guards p) (subs_of p) pred" if node: "NodeTest pred yes no \<in> set ?nodes" for pred yes no
  proof (rule answer_agrees [where scope = scope and dem = "graph_input_demand (compiled_graph c)"])
    show "predicate_covered (subs_of p) (plan_inputs p) (graph_input_demand (compiled_graph c)) pred"
      using compiled_covered(3) [OF ok node] by simp
    show "w_pin (?w inp) q = w_pin (?w inp') q" if "s \<in> subjects_read (plan_inputs p) pred" "q \<in> subject_pins (subs_of p) s" for s q
      unfolding pv using tested_pins_agree [OF ok sizes _ node, of r inp inp' s q scope] ag that rows(3) by (simp add: dem plan_inputs_def)
  qed (use subs ag pv in \<open>simp_all add: plan_reading_def\<close>)
  then have "decides ?nodes (answer (?w inp') (pp_guards p) (subs_of p)) (graph_root (compiled_graph c))
      (first_match (answer (?w inp) (pp_guards p) (subs_of p)) (mx_arms ?matrix))"
    by (intro decides_cong [OF compiled_covered(4) [OF ok]]) simp
  then have "first_match (answer (?w inp) (pp_guards p) (subs_of p)) (mx_arms ?matrix) = first_match (answer (?w inp') (pp_guards p) (subs_of p)) (mx_arms ?matrix)"
    by (rule decides_unique [OF compiled_covered(4) [OF ok]])
  moreover have "first_match (answer (?w inp) (pp_guards p) (subs_of p)) (mb_arms (pp_builder p))
      = first_row (row_match rs r g (pin_of inp lexical (sp_prematch patterns)) inp) (sp_rows patterns)" for inp
  proof -
    note rd = rows(1) [of "?w inp", unfolded rows_done_def]
    then have len: "length (mb_arms (pp_builder p)) = length (sp_rows patterns)" "length (pp_outcomes p) = length (sp_rows patterns)"
      by (auto dest!: arg_cong [where f = length])
    show ?thesis
      using first_match_rows [of "?w inp" rs p "sp_rows patterns" _ _ 0, OF _ len plan_reading_agrees [OF rows(1,2) plan(3)]] rd
      by (simp add: plus_0_map) (simp add: plan_reading_def)
  qed
  ultimately show ?thesis
    by simp
qed

text \<open>
  A row that asks a field of a bitstring whose size the second input gives, beside a third input nobody reads.
  Reading a field gives its size.
\<close>

definition sized_rows :: "(unit, unit, unit) SourcePatternRows" where
  "sized_rows = SourcePatternRows_entry 3
     [\<lparr> row_patterns = [PatBitstring [BitField (PatInt 5) \<lparr> bs_ty = BitInteger, bs_size = Some (BitSizeVar ''n''), bs_endian = EndianBig,
          bs_signed = False, bs_unit = None \<rparr>], PatWildcard, PatWildcard], row_preconditions = [], row_guard = None, row_body_id = 0 \<rparr>]
     [(''n'', 1)]"

definition sizes_reader :: "(small_term, unit, unit) Reader" where
  "sizes_reader = small_reader\<lparr> rd_const_eq := (\<lambda>c v. c = GroundInt 5 \<and> v = Num 5), rd_as_size := (\<lambda>v. case v of Num n \<Rightarrow> Some n | _ \<Rightarrow> None),
     rd_bits_init := (\<lambda>_. Some ()), rd_bits_read := (\<lambda>_ _ _ _ _ sz rd. map_option (\<lambda>n. (Num n, rd)) sz), rd_bits_done := (\<lambda>_. True) \<rparr>"

lemma sized_rows_wf: "rows_wf sized_rows"
  by (simp add: rows_wf_def sized_rows_def SourcePatternRows_entry_def)

lemma sized_plan:
  "\<exists>plan. pattern_dispatch_from_source_with_resolver no_resolver sized_rows = Some (Inr plan) \<and> graph_input_demand (plan_graph plan) = [Whole, Whole, Ignore]"
  by (simp add: sized_rows_def SourcePatternRows_entry_def no_resolver_def producer_defs question_defs
      numeral_3_eq_3 pattern_dispatch_from_source_with_resolver_def bitstring_question_def project_subject_def pin_for_name_def field_size_of_def
      producer_finish_def DispatchMatrixBuilder_build_def plan_inputs_def compile_dispatch_matrix_def compile_ordered_arms_def
        fallback_node_def add_node_def charge_node_def DispatchGraphBuilder_typed_def asks_first_def strip_first_def
        outcome_node_def test_node_def compile_single_arm_def into_test_node_def with_evidence_def charge_subject_def
        subject_demand.simps charge_input_def demand_for_region_def DispatchGraphBuilder_build_def ensure_node_def ensure_targets_def
        ensure_projections_ride_a_charged_input_def node_projections_def rides_charged_input_def subject_root.simps asks_anything_def
        charge_bitstring_sizes_def pinned_size_def charge_pin_def from_proof_def RegionPredicate_new_def)

theorem plan_reads_only_its_demand_witness:
  "\<exists>plan. pattern_dispatch_from_source_with_resolver no_resolver sized_rows = Some (Inr plan) \<and> graph_input_demand (plan_graph plan) = [Whole, Whole, Ignore]
    \<and> first_row (row_match no_resolver sizes_reader small_guard (pin_of ((!) [Some (Num 9), Some (Num 5), Some (Num 1)]) (\<lambda>_. None) (sp_prematch sized_rows))
        ((!) [Some (Num 9), Some (Num 5), Some (Num 1)])) (sp_rows sized_rows) = Some 0
    \<and> first_row (row_match no_resolver sizes_reader small_guard (pin_of ((!) [Some (Num 9), Some (Num 5), None]) (\<lambda>_. None) (sp_prematch sized_rows))
        ((!) [Some (Num 9), Some (Num 5), None])) (sp_rows sized_rows) = Some 0"
proof -
  let ?inp = "(!) [Some (Num 9), Some (Num 5), Some (Num 1)]" and ?inp' = "(!) [Some (Num 9), Some (Num 5), None]"
  obtain plan where plan: "pattern_dispatch_from_source_with_resolver no_resolver sized_rows = Some (Inr plan)"
    and dem: "graph_input_demand (plan_graph plan) = [Whole, Whole, Ignore]"
    using sized_plan by blast
  have "first_row (row_match no_resolver sizes_reader small_guard (pin_of ?inp (\<lambda>_. None) (sp_prematch sized_rows)) ?inp) (sp_rows sized_rows) = Some 0"
    by (simp add: row_match_def sized_rows_def SourcePatternRows_entry_def sizes_reader_def test_def both_def is_some_and_def pin_of_def
        read_all_source_bits_def source_bit_size_def Let_def)
  moreover have "\<forall>i < sp_input_count sized_rows. agrees (graph_input_demand (plan_graph plan) ! i) sizes_reader (?inp i) (?inp' i)"
    by (simp add: dem sized_rows_def SourcePatternRows_entry_def eval_nat_numeral less_Suc_eq)
  ultimately show ?thesis
    using plan_reads_only_its_demand [OF sized_rows_wf plan, of sizes_reader ?inp ?inp' small_guard "\<lambda>_. None"] plan dem by auto
qed

end
