(* ===== verification/Spec2Isabelle.thy ===== *)
theory Spec2Isabelle
  imports Fz_Worklist Fz_Scenario Fz_Types Fz_Forward Fz_Utf Fz_Jit Fz_Outcome Fz_Exhaustive Fz_ExecProps
    Fz_PatternDemand
begin

text \<open>
  A verification library for fz, a statically typed functional language with an incremental,
  demand-driven compiler (\<open>src/src/compiler2\<close>) and a process runtime with per-process heaps
  (\<open>src/runtime\<close>).  Four parts of the program carry its core logic and are modelled here.

  \<^bold>\<open>1. The fact engine\<close> (\<open>compiler2/ordered_set.rs\<close>, \<open>agenda.rs\<close>, \<open>ordered_worklist.rs\<close>,
  \<open>facts.rs\<close>, \<open>deps.rs\<close>, \<open>semantic.rs\<close>, \<open>scheduler.rs\<close>).  The compiler is a set of jobs that
  publish facts and read facts of other jobs; the engine decides which job runs, what a
  publication invalidates, and when an answer is final.
    \<^item> \<open>Fz_OrderedSet\<close>, \<open>Fz_Agenda\<close>, \<open>Fz_Worklist\<close>: the collections.  Iteration is first-registration
      order; the agenda is a queue without repetition; the binary-heap worklist drains sorted.
    \<^item> \<open>Fz_Facts\<close>: slots with revisions, publishers, dirty and unfinal marks; change reports are
      exact, publication owns exactly its outputs, the panics are characterised.
    \<^item> \<open>Fz_Deps\<close>: reads, waits and outputs with their reverse indexes, kept consistent.
    \<^item> \<open>Fz_Scheduler\<close>: the whole completion of a job, dispatch of changes, quiet waves, the drain
      arbiter and external movements.  \<open>Fz_Finality\<close> and \<open>Fz_Complete\<close> prove that every operation
      keeps the engine's invariant (table, index, agenda and edge-counted finality agree) and that
      completion returns; \<open>Fz_Machine\<close> is the step relation and its reachable states; \<open>Fz_Scenario\<close>
      runs concrete graphs, the witnesses, and a reachable state that shows a stale finality bit.

  \<^bold>\<open>2. The type kernel\<close> (\<open>finite_set.rs\<close>, \<open>compiler2/types/bits.rs\<close>, \<open>conj.rs\<close>, \<open>dnf.rs\<close>,
  \<open>descr.rs\<close>, \<open>emptiness.rs\<close>, parts of \<open>sigs.rs\<close>).  Types are set-theoretic descriptors over an
  interned arena; subtyping is emptiness of a difference.
    \<^item> \<open>Fz_FiniteSet\<close>, \<open>Fz_Dnf\<close>: literal sets and clause algebra, as instances of one interface.
    \<^item> \<open>Fz_Descr\<close>: descriptors, constructors, readers, set operations and their meaning as sets of
      values; \<open>Fz_Emptiness\<close>: the emptiness algorithm of every axis, subtyping, disjointness.
    \<^item> \<open>Fz_Subtype\<close> proves the test sound over an interned arena without closure literals and with fewer
      than 32 arrow signatures, \<open>Fz_Exact\<close> proves it complete on unbranded descriptors of tuples, lists
      and arrows under the same conditions, \<open>Fz_Types\<close> states the properties.
    The coinductive memo of the code becomes recursion with a weight guard; over an interned arena
    the guard never fires.  Literal domains are taken infinite, as strings and integers are.  The mask
    over the positive arrows is a 32-bit word whose shifts take their distance modulo 32, as in a release
    build; a debug build panics where they differ, at 32 arrows, and \<open>Descr_subtype_wraps_at_32_arrows\<close>
    shows the wrong answer of the release build there.

  \<^bold>\<open>3. Pattern dispatch\<close> (\<open>ground_value.rs\<close>, \<open>dispatch_matrix/demand.rs\<close>, \<open>mod.rs\<close>, \<open>pattern.rs\<close>,
  \<open>pattern/source.rs\<close>, \<open>ir_interp/dispatch_exec.rs\<close>).  Source rows become arms of questions about subjects, and arms become a decision graph.
    \<^item> \<open>Fz_Demand\<close>: ground constants, subjects and the lattice of demands.  \<open>Fz_Dispatch\<close>: questions and
      evidence, the matrix and graph builders, and the compilation with shared prefixes.
    \<^item> \<open>Fz_DispatchProps\<close>: every well-formed matrix compiles, and the graph decides for the first arm whose
      questions hold.  \<open>Fz_DispatchSem\<close>: what questions mean of values, with the operations that read
      values as an argument, and when a graph's decision depends on no more than its demand.
    \<^item> \<open>Fz_Pattern\<close>: patterns and guards as the syntax has them, rows and the names they reach for.
      \<open>Fz_Producer\<close>: the producer of plans, with its interned subjects, pins and keys.  \<open>Fz_PatternSem\<close>: the
      meaning of patterns, guards and rows, read off the syntax.  \<open>Fz_PatternProps\<close> and \<open>Fz_PatternRows\<close>: every
      step of the producer emits that meaning, so a plan decides for the first row that matches, with the
      row's bindings.  \<open>Fz_PatternDemand\<close>: a plan of the producer reads no more of its inputs than it demands.  \<open>Fz_Exhaustive\<close>: what the exhaustiveness check answers.
    \<^item> \<open>Fz_Exec\<close>: the interpreter's run of a plan, with its slots, its journal and its stops; a guard that divides
      by zero or overflows is a panic, a helper that breaks breaks the run.  \<open>Fz_ExecProps\<close>: on plans
      without bitstring fields, over single runtime values and guards that return, the run answers the first
      row that matches; a plan with bitstring fields on
      which it does not.

  \<^bold>\<open>4. The runtime\<close> (\<open>runtime/src\<close>).
    \<^item> \<open>Fz_Memory\<close>: byte-addressed memory, little-endian loads and stores, outcomes with errors and
      panics.  \<open>Fz_AnyValue\<close>: kinds, tagged reference words and both storage forms of a value, with
      round trips and checked access (\<open>any_value.rs\<close>).  \<open>Fz_Closure\<close> and \<open>Fz_ListCell\<close>: the layout
      and the operations of closures and list cells, publication of a list included.
    \<^item> \<open>Fz_Heap\<close>: the size table, the block pool and allocation with growth and fragments
      (\<open>heap/block_pool.rs\<close>, \<open>heap/imp.rs\<close>); every allocation is fresh, aligned and in bounds.  The
      system allocator is a parameter with its documented contract (\<open>allocator_ok\<close>), and \<open>upward\<close>
      is a concrete one that keeps it.  \<open>Fz_Forward\<close>: the to-space's size, copying and forwarding
      markers (\<open>heap/gc\<close>), where the sizing suffices and where it does not, and a binary that the
      marker test misreads.
    \<^item> \<open>Fz_Bitstr\<close>: bit writer and reader, byte order, sign extension and UTF codecs (\<open>bitstr.rs\<close>);
      fields round trip, and the byte-aligned path is the bitwise one.  \<open>Fz_Utf\<close>: the codecs round trip.
    \<^item> \<open>Fz_Timer\<close>: the sorted timer vector with the library's binary search (\<open>timer.rs\<close>), a set of
      pending timers drained in deadline order.  \<open>Fz_Receive\<close>: process records, park records, the
      sender's probe, the scan of the mailbox, after-timers, budgets and the park and yield entries
      (\<open>process.rs\<close>, \<open>park.rs\<close>, \<open>sched.rs\<close>, \<open>exec_ctx.rs\<close>, \<open>ir_runtime.rs\<close>); the scan of a
      mailbox takes the first acceptable message, a sender's probe judges the new one alone.  \<open>Fz_Outcome\<close>: closure allocation, outcome closures and entry thunks over the byte
      memory; an outcome closure has exactly the documented environment and changes no byte in use.
    \<^item> \<open>Fz_Aot\<close>: the run-queue scheduler of compiled programs (\<open>aot_shim.rs\<close>) as a step relation;
      running code is the list of runtime calls it makes, the heap operations are arguments.
      \<open>Fz_AotInv\<close> proves its invariant, \<open>Fz_AotProps\<close> states that no wake-up is lost and that an idle
      loop is done, and gives a run in which a message overtakes an earlier one.  Destructors run as any code does; the
      tasks whose destructors parked or yielded are exempt from both properties, and
      \<open>Aot_destructor_yield_lost\<close> is a run in which such a destructor is never resumed.  \<open>Fz_Jit\<close>: the
      in-process scheduler (\<open>src/exec/runtime.rs\<close>, \<open>compiled.rs\<close>), a run in which it never becomes
      idle and one in which it ends with a timer pending.

  \<^bold>\<open>Conventions.\<close>  A Rust \<open>panic!\<close>, \<open>assert!\<close> or \<open>expect\<close> is an error value (\<open>None\<close>, or \<open>Panic\<close>
  beside \<open>Err\<close>); debug assertions and the arithmetic of guards are modelled as in a debug build.  Machine words keep their
  width where bits matter; counts, indices and sizes are natural numbers, far below the width.
  The target architecture is an argument.  The matcher of a receive is compiled code and an argument,
  a function of message, pinned values and buffer.

  \<^bold>\<open>Not modelled\<close>: the compiler's jobs (\<open>pull.rs\<close>, \<open>world.rs\<close>, \<open>jobs/\<close>), which are large passes
  whose effects are arguments of the engine; interning-time type rewrites, type variables and
  display; parsing; code generation through Cranelift and the rest of the interpreter; the collector's walk
  over the object graph and the off-heap sweep; reference-counted binaries and resources, which
  rest on atomics; telemetry.
\<close>

end
